(* ===== verification/Prelude.thy ===== *)
theory Prelude
  imports Main "HOL-Library.Word"
begin

text \<open>
  What the component theories share: names for the machine integers of the C code, a generic
  notion of the states reachable by a step relation with its invariant rule, and lemmas on
  lists, finite sums and maps that several components use.
\<close>

unbundle bit_operations_syntax

section \<open>Machine integers\<close>

text \<open>
  The code is written for 64-bit Linux targets: \<open>unsigned long\<close> has 64 bits and \<open>int\<close> 32.
\<close>

type_synonym ulong = "64 word"
type_synonym cint = "32 word"

text \<open>\<open>NR_THREADS\<close> of api-pthreads/api-pthreads.h, the bound of \<open>for_each_thread\<close>.\<close>

definition NR_THREADS :: nat where
  "NR_THREADS = 512"

lemma NR_THREADS_pos [simp]: "0 < NR_THREADS"
  by (simp add: NR_THREADS_def)

named_theorems state_defs \<open>definitions unfolded when a state predicate is proved\<close>
named_theorems inv_intros \<open>introduction rules for preservation of invariants\<close>

lemma unat_sub_le: "b \<le> a \<Longrightarrow> unat (a - b) = unat a - unat (b :: 'a::len word)"
  by (rule unat_sub)

lemma unat_add_no_overflow:
  "unat a + unat b < 2 ^ LENGTH('a) \<Longrightarrow> unat (a + b) = unat a + unat (b :: 'a::len word)"
  by (simp add: unat_word_ariths)

lemma unat_ulong_less: "unat (x :: ulong) < 2 ^ 64"
  using unsigned_less [of x] by simp

lemma word_div_le_self: "a div n \<le> (a :: 'a::len word)"
  by (simp add: word_le_nat_alt unat_div_distrib)

section \<open>Reachable states\<close>

text \<open>
  Every concurrent component is a step relation over a record of its shared variables and of
  the program counters of its threads. One step is one shared-memory access, so a run is a
  sequentially consistent interleaving of the threads.
\<close>

inductive reachable :: "('s \<Rightarrow> bool) \<Rightarrow> ('s \<Rightarrow> 's \<Rightarrow> bool) \<Rightarrow> 's \<Rightarrow> bool"
  for init :: "'s \<Rightarrow> bool" and stp :: "'s \<Rightarrow> 's \<Rightarrow> bool" where
  start: "init s \<Longrightarrow> reachable init stp s"
| next_state: "reachable init stp s \<Longrightarrow> stp s t \<Longrightarrow> reachable init stp t"

lemma reachable_invariant:
  assumes "reachable init stp s"
    and "\<And>s. init s \<Longrightarrow> I s"
    and "\<And>s t. I s \<Longrightarrow> stp s t \<Longrightarrow> I t"
  shows "I s"
  using assms(1) by (induction rule: reachable.induct) (use assms(2,3) in blast)+

section \<open>Mutual exclusion\<close>

text \<open>Whoever is inside a critical section (a \<open>held\<close> program counter) owns the lock.\<close>

definition lock_ok :: "('p \<Rightarrow> bool) \<Rightarrow> nat option \<Rightarrow> (nat \<Rightarrow> 'p) \<Rightarrow> bool" where
  "lock_ok held l f \<longleftrightarrow> (\<forall>u. held (f u) \<longrightarrow> l = Some u)"

lemma lock_ok_init: "(\<And>u. \<not> held (f u)) \<Longrightarrow> lock_ok held l f"
  by (simp add: lock_ok_def)

lemma lock_ok_outside: "lock_ok held l f \<Longrightarrow> \<not> held p \<Longrightarrow> lock_ok held l (f(u := p))"
  by (simp add: lock_ok_def)

lemma lock_ok_acquire: "lock_ok held None f \<Longrightarrow> lock_ok held (Some u) (f(u := p))"
  by (auto simp: lock_ok_def)

lemma lock_ok_inside: "lock_ok held l f \<Longrightarrow> held (f u) \<Longrightarrow> lock_ok held l (f(u := p))"
  by (auto simp: lock_ok_def)

lemma lock_ok_release: "lock_ok held l f \<Longrightarrow> held (f u) \<Longrightarrow> \<not> held p \<Longrightarrow> lock_ok held l' (f(u := p))"
  by (auto simp: lock_ok_def)

lemma lock_ok_unique: "lock_ok held l f \<Longrightarrow> held (f u) \<Longrightarrow> held (f v) \<Longrightarrow> u = v"
  by (auto simp: lock_ok_def)

section \<open>Lists and finite sums\<close>

lemma sum_fun_upd_finite:
  fixes f :: "'a \<Rightarrow> nat"
  assumes "finite A" and "x \<in> A"
  shows "sum (f(x := v)) A + f x = sum f A + v"
proof -
  have "sum (f(x := v)) A = v + sum f (A - {x})"
    using assms by (simp add: sum.remove)
  moreover have "sum f A = f x + sum f (A - {x})"
    using assms by (simp add: sum.remove)
  ultimately show ?thesis by simp
qed

lemma sum_fun_upd_notin: "x \<notin> A \<Longrightarrow> sum (f(x := v)) A = sum f A"
  by (rule sum.cong) auto

lemma member_le_sum_nat:
  fixes f :: "'a \<Rightarrow> nat"
  assumes "finite A" and "x \<in> A"
  shows "f x \<le> sum f A"
  using assms by (simp add: member_le_sum)

lemma remove1_last: "distinct (xs @ [x]) \<Longrightarrow> remove1 x (xs @ [x]) = xs"
  by (simp add: remove1_append)

lemma last_rev_hd: "xs \<noteq> [] \<Longrightarrow> last (rev xs) = hd xs"
  by (simp add: last_rev)

end
