(* ===== verification/Cds_List.thy ===== *)
theory Cds_List
  imports Prelude
begin

text \<open>
  The circular doubly linked lists of the userspace-RCU library (\<open>struct cds_list_head\<close>).
  The library is not part of this repository, so its operations are a parameter \<open>L\<close> of every
  definition that uses them, a record of functions, and the locale \<open>cds_lib\<close> states the
  documented behaviour the code relies on in terms of the order in which
  \<open>cds_list_for_each_entry\<close> visits the entries. A list value is the whole list reached from
  one head; an entry is the identity of the structure that embeds the list node.
\<close>

record ('e, 'l) cds_ops =
  cds_init :: 'l                           \<comment> \<open>\<open>CDS_INIT_LIST_HEAD(head)\<close>\<close>
  cds_empty :: "'l \<Rightarrow> bool"                 \<comment> \<open>\<open>cds_list_empty(head)\<close>\<close>
  cds_next :: "'l \<Rightarrow> 'e"                    \<comment> \<open>\<open>head->next\<close>\<close>
  cds_prev :: "'l \<Rightarrow> 'e"                    \<comment> \<open>\<open>head->prev\<close>\<close>
  cds_add :: "'e \<Rightarrow> 'l \<Rightarrow> 'l"               \<comment> \<open>\<open>cds_list_add(e, head)\<close>\<close>
  cds_add_tail :: "'e \<Rightarrow> 'l \<Rightarrow> 'l"          \<comment> \<open>\<open>cds_list_add_tail(e, head)\<close>\<close>
  cds_del :: "'e \<Rightarrow> 'l \<Rightarrow> 'l"               \<comment> \<open>\<open>cds_list_del(e)\<close>, \<open>e\<close> on this list\<close>
  cds_splice :: "'l \<Rightarrow> 'l \<Rightarrow> 'l"            \<comment> \<open>\<open>cds_list_splice(add, head)\<close>: the new \<open>head\<close>\<close>
  cds_entries :: "'l \<Rightarrow> 'e list"            \<comment> \<open>the order of \<open>cds_list_for_each_entry\<close>\<close>

locale cds_lib =
  fixes L :: "('e, 'l) cds_ops"
  assumes entries_init [simp]: "cds_entries L (cds_init L) = []"
    and empty_iff [simp]: "cds_empty L l \<longleftrightarrow> cds_entries L l = []"
    and next_hd: "cds_entries L l \<noteq> [] \<Longrightarrow> cds_next L l = hd (cds_entries L l)"
    and prev_last: "cds_entries L l \<noteq> [] \<Longrightarrow> cds_prev L l = last (cds_entries L l)"
    and entries_add [simp]:
      "e \<notin> set (cds_entries L l) \<Longrightarrow> cds_entries L (cds_add L e l) = e # cds_entries L l"
    and entries_add_tail [simp]:
      "e \<notin> set (cds_entries L l) \<Longrightarrow> cds_entries L (cds_add_tail L e l) = cds_entries L l @ [e]"
    and entries_del [simp]:
      "distinct (cds_entries L l) \<Longrightarrow> e \<in> set (cds_entries L l) \<Longrightarrow>
       cds_entries L (cds_del L e l) = remove1 e (cds_entries L l)"
    and entries_splice [simp]:
      "set (cds_entries L l) \<inter> set (cds_entries L m) = {} \<Longrightarrow>
       cds_entries L (cds_splice L l m) = cds_entries L l @ cds_entries L m"
begin

lemma prev_snoc: "cds_entries L l = xs @ [x] \<Longrightarrow> cds_prev L l = x"
  by (simp add: prev_last)

lemma next_cons: "cds_entries L l = x # xs \<Longrightarrow> cds_next L l = x"
  by (simp add: next_hd)

lemma del_snoc:
  "cds_entries L l = xs @ [x] \<Longrightarrow> distinct (xs @ [x]) \<Longrightarrow> cds_entries L (cds_del L x l) = xs"
  by (simp add: remove1_append)

lemma del_cons:
  "cds_entries L l = x # xs \<Longrightarrow> distinct (x # xs) \<Longrightarrow> cds_entries L (cds_del L x l) = xs"
  by simp

end

text \<open>
  HOL lists satisfy the documented laws: the hypothesis \<open>cds_lib L\<close> of the properties can
  hold, and every witness instantiates \<open>L\<close> with this record.
\<close>

definition list_cds :: "('e, 'e list) cds_ops" where
  "list_cds = \<lparr>cds_init = [], cds_empty = (\<lambda>l. l = []), cds_next = hd, cds_prev = last,
     cds_add = (\<lambda>e l. e # l), cds_add_tail = (\<lambda>e l. l @ [e]), cds_del = remove1,
     cds_splice = (\<lambda>l m. l @ m), cds_entries = (\<lambda>l. l)\<rparr>"

lemma list_cds_simps [simp]:
  "cds_init list_cds = []" "cds_empty list_cds l \<longleftrightarrow> l = []"
  "cds_next list_cds l = hd l" "cds_prev list_cds l = last l"
  "cds_add list_cds e l = e # l" "cds_add_tail list_cds e l = l @ [e]"
  "cds_del list_cds e l = remove1 e l" "cds_splice list_cds l m = l @ m"
  "cds_entries list_cds l = l"
  by (simp_all add: list_cds_def)

interpretation list_cds: cds_lib "list_cds :: ('e, 'e list) cds_ops"
  by unfold_locales simp_all

end
