(* ===== verification/Deque_Spec.thy ===== *)
theory Deque_Spec
  imports Cds_List
begin

text \<open>
  What a double-ended queue promises, for the three implementations of SMPdesign/
  (lockdeq.c, lockhdeq.c, locktdeq.c). The contract is the locale \<open>deque_impl\<close>: a relation
  \<open>repr\<close> between concrete deques and abstract lists, written from the left end to the right
  end, which every operation respects. Its client lemma \<open>run_ops\<close> lifts the contract to any
  sequence of operations: the popped values are those of the list.
\<close>

datatype 'e deque_op = PushL 'e | PushR 'e | PopL | PopR

section \<open>The abstract deque\<close>

fun aop :: "'e deque_op \<Rightarrow> 'e list \<Rightarrow> 'e option \<times> 'e list" where
  "aop (PushL e) xs = (None, e # xs)"
| "aop (PushR e) xs = (None, xs @ [e])"
| "aop PopL xs = (case xs of [] \<Rightarrow> (None, []) | x # ys \<Rightarrow> (Some x, ys))"
| "aop PopR xs = (if xs = [] then (None, []) else (Some (last xs), butlast xs))"

fun arun :: "'e deque_op list \<Rightarrow> 'e list \<Rightarrow> 'e option list \<times> 'e list" where
  "arun [] xs = ([], xs)"
| "arun (x # ops) xs =
     (let (r, ys) = aop x xs; (rs, zs) = arun ops ys in (r # rs, zs))"

text \<open>
  An element is linked into one list at a time: a client pushes only elements that the deque
  does not hold.
\<close>

fun op_ok :: "'e deque_op \<Rightarrow> 'e list \<Rightarrow> bool" where
  "op_ok (PushL e) xs \<longleftrightarrow> e \<notin> set xs"
| "op_ok (PushR e) xs \<longleftrightarrow> e \<notin> set xs"
| "op_ok _ xs \<longleftrightarrow> True"

fun ops_ok :: "'e deque_op list \<Rightarrow> 'e list \<Rightarrow> bool" where
  "ops_ok [] xs \<longleftrightarrow> True"
| "ops_ok (x # ops) xs \<longleftrightarrow> op_ok x xs \<and> ops_ok ops (snd (aop x xs))"

text \<open>
  A history of operations with the results they returned agrees with the abstract deque, which
  it leaves with the contents \<open>xs\<close>.
\<close>

definition linear_hist :: "('e deque_op \<times> 'e option) list \<Rightarrow> 'e list \<Rightarrow> bool" where
  "linear_hist h xs \<longleftrightarrow> arun (map fst h) [] = (map snd h, xs)"

lemma arun_snoc:
  "arun ops xs = (rs, ys) \<Longrightarrow>
   arun (ops @ [a]) xs = (rs @ [fst (aop a ys)], snd (aop a ys))"
  by (induction ops arbitrary: xs rs) (auto simp: Let_def split: prod.splits)

lemma linear_hist_Nil [simp]: "linear_hist [] []"
  by (simp add: linear_hist_def)

lemma linear_hist_snoc:
  "linear_hist h xs \<Longrightarrow> r = fst (aop a xs) \<Longrightarrow> linear_hist (h @ [(a, r)]) (snd (aop a xs))"
  using arun_snoc [of "map fst h" "[]"] by (simp add: linear_hist_def)

lemma set_aop_pop: "set (snd (aop PopL xs)) \<subseteq> set xs" "set (snd (aop PopR xs)) \<subseteq> set xs"
  by (auto split: list.splits if_splits dest: in_set_butlastD)

section \<open>Running operations on a concrete deque\<close>

fun cop :: "('e \<Rightarrow> 'd \<Rightarrow> 'd) \<Rightarrow> ('e \<Rightarrow> 'd \<Rightarrow> 'd) \<Rightarrow> ('d \<Rightarrow> 'e option \<times> 'd) \<Rightarrow>
    ('d \<Rightarrow> 'e option \<times> 'd) \<Rightarrow> 'e deque_op \<Rightarrow> 'd \<Rightarrow> 'e option \<times> 'd" where
  "cop pushl pushr popl popr (PushL e) d = (None, pushl e d)"
| "cop pushl pushr popl popr (PushR e) d = (None, pushr e d)"
| "cop pushl pushr popl popr PopL d = popl d"
| "cop pushl pushr popl popr PopR d = popr d"

fun crun :: "('e \<Rightarrow> 'd \<Rightarrow> 'd) \<Rightarrow> ('e \<Rightarrow> 'd \<Rightarrow> 'd) \<Rightarrow> ('d \<Rightarrow> 'e option \<times> 'd) \<Rightarrow>
    ('d \<Rightarrow> 'e option \<times> 'd) \<Rightarrow> 'e deque_op list \<Rightarrow> 'd \<Rightarrow> 'e option list \<times> 'd" where
  "crun pushl pushr popl popr [] d = ([], d)"
| "crun pushl pushr popl popr (x # ops) d =
     (let (r, d') = cop pushl pushr popl popr x d;
          (rs, d'') = crun pushl pushr popl popr ops d' in (r # rs, d''))"

section \<open>The contract\<close>

locale deque_impl =
  fixes init :: 'd
    and pushl :: "'e \<Rightarrow> 'd \<Rightarrow> 'd" and pushr :: "'e \<Rightarrow> 'd \<Rightarrow> 'd"
    and popl :: "'d \<Rightarrow> 'e option \<times> 'd" and popr :: "'d \<Rightarrow> 'e option \<times> 'd"
    and repr :: "'d \<Rightarrow> 'e list \<Rightarrow> bool"
  assumes repr_init: "repr init []"
    and repr_pushl: "repr d xs \<Longrightarrow> e \<notin> set xs \<Longrightarrow> repr (pushl e d) (e # xs)"
    and repr_pushr: "repr d xs \<Longrightarrow> e \<notin> set xs \<Longrightarrow> repr (pushr e d) (xs @ [e])"
    and popl_empty: "repr d [] \<Longrightarrow> fst (popl d) = None \<and> repr (snd (popl d)) []"
    and popr_empty: "repr d [] \<Longrightarrow> fst (popr d) = None \<and> repr (snd (popr d)) []"
    and popl_cons: "repr d (x # xs) \<Longrightarrow> fst (popl d) = Some x \<and> repr (snd (popl d)) xs"
    and popr_snoc: "repr d (xs @ [x]) \<Longrightarrow> fst (popr d) = Some x \<and> repr (snd (popr d)) xs"
begin

lemma cop_refines:
  assumes "repr d xs" and "op_ok x xs"
  shows "fst (cop pushl pushr popl popr x d) = fst (aop x xs) \<and>
         repr (snd (cop pushl pushr popl popr x d)) (snd (aop x xs))"
proof (cases x)
  case PopL
  with assms show ?thesis by (cases xs) (simp_all add: popl_empty popl_cons)
next
  case PopR
  with assms show ?thesis
    by (cases xs rule: rev_cases) (simp_all add: popr_empty popr_snoc)
qed (use assms in \<open>simp_all add: repr_pushl repr_pushr\<close>)

lemma run_refines:
  "repr d xs \<Longrightarrow> ops_ok ops xs \<Longrightarrow>
   fst (crun pushl pushr popl popr ops d) = fst (arun ops xs) \<and>
   repr (snd (crun pushl pushr popl popr ops d)) (snd (arun ops xs))"
proof (induction ops arbitrary: d xs)
  case Nil
  then show ?case by simp
next
  case (Cons x ops)
  then have "op_ok x xs" and "ops_ok ops (snd (aop x xs))" by simp_all
  with Cons.prems(1) cop_refines [of d xs x]
  have "fst (cop pushl pushr popl popr x d) = fst (aop x xs)"
    and "repr (snd (cop pushl pushr popl popr x d)) (snd (aop x xs))" by simp_all
  with Cons.IH [OF this(2) \<open>ops_ok ops (snd (aop x xs))\<close>] show ?case
    by (simp add: Let_def case_prod_beta)
qed

lemma run_init:
  "ops_ok ops [] \<Longrightarrow> fst (crun pushl pushr popl popr ops init) = fst (arun ops [])"
  using run_refines [OF repr_init] by blast

end

section \<open>A list hashed over four chains\<close>

text \<open>
  How the hashed deques of SMPdesign/lockdeq.c and SMPdesign/lockhdeq.c lay a list out over
  four chains: the element at distance \<open>k\<close> from the left index lives in the chain reached by
  \<open>k\<close> right moves, and within a chain the elements run from the right end to the left end.
  \<open>striped\<close> is the invariant that ties the chains, both indexes and the abstract list
  together; one lemma per bucket operation shows how it changes.
\<close>

definition mvl :: "cint \<Rightarrow> cint" where
  "mvl i = (i - 1) AND 3"

definition mvr :: "cint \<Rightarrow> cint" where
  "mvr i = (i + 1) AND 3"

fun stripe :: "cint \<Rightarrow> 'e list \<Rightarrow> cint \<Rightarrow> 'e list" where
  "stripe i [] b = []"
| "stripe i (x # xs) b = stripe (mvr i) xs b @ (if i = b then [x] else [])"

definition striped :: "('e, 'l) cds_ops \<Rightarrow> 'l list \<Rightarrow> cint \<Rightarrow> cint \<Rightarrow> 'e list \<Rightarrow> bool" where
  "striped L cs l r xs \<longleftrightarrow> length cs = 4 \<and> l < 4 \<and> r = (mvr ^^ Suc (length xs)) l \<and> distinct xs \<and>
     (\<forall>b < 4. cds_entries L (cs ! unat b) = stripe (mvr l) xs b)"

section \<open>Index arithmetic\<close>

lemma bkt_cases: "(i :: cint) < 4 \<Longrightarrow> i = 0 \<or> i = 1 \<or> i = 2 \<or> i = 3"
proof -
  assume "i < 4"
  then have "unat i < 4" by (simp add: word_less_nat_alt)
  then have "unat i = 0 \<or> unat i = 1 \<or> unat i = 2 \<or> unat i = 3" by arith
  then show ?thesis by (simp add: word_unat_eq_iff)
qed

lemma mvr_less [simp]: "mvr i < 4"
  unfolding mvr_def by (rule le_less_trans [OF word_and_le1]) simp

lemma mvl_less [simp]: "mvl i < 4"
  unfolding mvl_def by (rule le_less_trans [OF word_and_le1]) simp

lemma mvl_mvr [simp]: "i < 4 \<Longrightarrow> mvl (mvr i) = i"
  using bkt_cases [of i] by (auto simp: mvl_def mvr_def)

lemma mvr_mvl [simp]: "i < 4 \<Longrightarrow> mvr (mvl i) = i"
  using bkt_cases [of i] by (auto simp: mvl_def mvr_def)

lemma mvr_pow_less: "i < 4 \<Longrightarrow> (mvr ^^ n) i < 4"
  by (cases n) simp_all

lemma unat_bkt: "(i :: cint) < 4 \<Longrightarrow> unat i < 4"
  by (simp add: word_less_nat_alt)

lemma bkt_of_nat: "n < 4 \<Longrightarrow> unat (word_of_nat n :: cint) = n"
  by (simp add: unat_of_nat)

section \<open>Stripes\<close>

lemma stripe_snoc:
  "stripe i (xs @ [x]) b = (if (mvr ^^ length xs) i = b then [x] else []) @ stripe i xs b"
  by (induction xs arbitrary: i) (simp_all add: funpow_swap1)

lemma set_stripe: "set (stripe i xs b) \<subseteq> set xs"
  by (induction xs arbitrary: i) auto

lemma distinct_stripe: "distinct xs \<Longrightarrow> distinct (stripe i xs b)"
proof (induction xs arbitrary: i)
  case (Cons x xs)
  then show ?case using set_stripe [of "mvr i" xs b] by auto
qed simp

lemma in_stripe: "x \<in> set xs \<Longrightarrow> i < 4 \<Longrightarrow> \<exists>b < 4. x \<in> set (stripe i xs b)"
proof (induction xs arbitrary: i)
  case (Cons y xs)
  show ?case
  proof (cases "x = y")
    case True
    with Cons.prems(2) show ?thesis by auto
  next
    case False
    with Cons.prems(1) have "x \<in> set xs" by simp
    from Cons.IH [OF this mvr_less] obtain b where "b < 4" "x \<in> set (stripe (mvr i) xs b)"
      by blast
    then show ?thesis by auto
  qed
qed simp

section \<open>Bucket operations under the layout\<close>

lemma stripedD:
  assumes "striped L cs l r xs"
  shows "length cs = 4" and "l < 4" and "r < 4" and "distinct xs"
    and "mvl r = (mvr ^^ length xs) l"
    and "\<And>b. b < 4 \<Longrightarrow> cds_entries L (cs ! unat b) = stripe (mvr l) xs b"
  using assms by (auto simp: striped_def mvr_pow_less)

lemma nth_update_bkt:
  assumes "length cs = 4" and "(b :: cint) < 4" and "i < 4"
  shows "cs[unat i := v] ! unat b = (if b = i then v else cs ! unat b)"
  using assms unat_bkt by (auto simp: nth_list_update word_unat_eq_iff)

context cds_lib begin

lemma striped_init: "striped L [cds_init L, cds_init L, cds_init L, cds_init L] 0 1 []"
proof -
  have "cds_entries L ([cds_init L, cds_init L, cds_init L, cds_init L] ! unat b) = []"
    if "b < 4" for b :: cint
    using bkt_cases [OF that] by (elim disjE) simp_all
  then show ?thesis by (simp add: striped_def mvr_def)
qed

lemma striped_push_l:
  assumes "striped L cs l r xs" and "e \<notin> set xs"
  shows "striped L (cs[unat l := cds_add_tail L e (cs ! unat l)]) (mvl l) r (e # xs)"
proof -
  note s = stripedD [OF assms(1)]
  have "e \<notin> set (cds_entries L (cs ! unat l))"
    using s(2,6) assms(2) set_stripe by fastforce
  then have "cds_entries L (cds_add_tail L e (cs ! unat l)) = stripe (mvr l) xs l @ [e]"
    using s(2,6) by simp
  moreover have "r = (mvr ^^ Suc (length xs)) l"
    using assms(1) by (simp add: striped_def)
  then have "r = (mvr ^^ Suc (length (e # xs))) (mvl l)"
    using s(2) by (simp add: funpow_swap1)
  ultimately show ?thesis
    using s assms(2) by (simp add: striped_def nth_update_bkt)
qed

lemma striped_push_r:
  assumes "striped L cs l r xs" and "e \<notin> set xs"
  shows "striped L (cs[unat r := cds_add L e (cs ! unat r)]) l (mvr r) (xs @ [e])"
proof -
  note s = stripedD [OF assms(1)]
  have "e \<notin> set (cds_entries L (cs ! unat r))"
    using s(3,6) assms(2) set_stripe by fastforce
  then have "cds_entries L (cds_add L e (cs ! unat r)) = e # stripe (mvr l) xs r"
    using s(3,6) by simp
  moreover have "r = (mvr ^^ length xs) (mvr l)"
    using assms(1) by (simp add: striped_def funpow_swap1)
  moreover have "mvr r = (mvr ^^ Suc (length (xs @ [e]))) l"
    using assms(1) by (simp add: striped_def)
  ultimately show ?thesis
    using s assms(2) unfolding striped_def by (auto simp: nth_update_bkt stripe_snoc)
qed

lemma striped_pop_l:
  assumes "striped L cs l r (x # xs)"
  defines "c \<equiv> cs ! unat (mvr l)"
  shows "cds_entries L c \<noteq> []" and "cds_prev L c = x"
    and "striped L (cs[unat (mvr l) := cds_del L x c]) (mvr l) r xs"
proof -
  note s = stripedD [OF assms(1)]
  have c: "cds_entries L c = stripe (mvr (mvr l)) xs (mvr l) @ [x]"
    using s(6) [of "mvr l"] by (simp add: c_def)
  then show "cds_entries L c \<noteq> []" and "cds_prev L c = x" by (simp_all add: prev_snoc)
  have "distinct (stripe (mvr (mvr l)) xs (mvr l) @ [x])"
    using distinct_stripe [OF s(4), of "mvr l" "mvr l"] by simp
  with c have "cds_entries L (cds_del L x c) = stripe (mvr (mvr l)) xs (mvr l)"
    by (rule del_snoc)
  moreover have "r = (mvr ^^ Suc (length xs)) (mvr l)"
    using assms(1) by (simp add: striped_def funpow_swap1)
  ultimately show "striped L (cs[unat (mvr l) := cds_del L x c]) (mvr l) r xs"
    using s by (simp add: striped_def nth_update_bkt)
qed

lemma striped_pop_r:
  assumes "striped L cs l r (xs @ [x])"
  defines "c \<equiv> cs ! unat (mvl r)"
  shows "cds_entries L c \<noteq> []" and "cds_next L c = x"
    and "striped L (cs[unat (mvl r) := cds_del L x c]) l (mvl r) xs"
proof -
  note s = stripedD [OF assms(1)]
  have r: "mvl r = (mvr ^^ length xs) (mvr l)"
    using s(5) by (simp add: funpow_swap1)
  have "r = (mvr ^^ Suc (length (xs @ [x]))) l"
    using assms(1) by (simp add: striped_def)
  then have r': "mvl r = (mvr ^^ Suc (length xs)) l"
    using s(5) by simp
  have c: "cds_entries L c = x # stripe (mvr l) xs (mvl r)"
    using s(6) [OF mvl_less, of r] r [symmetric] by (simp add: c_def stripe_snoc)
  then show "cds_entries L c \<noteq> []" and "cds_next L c = x" by (simp_all add: next_cons)
  have "distinct (x # stripe (mvr l) xs (mvl r))"
    using s(4) set_stripe [of "mvr l" xs "mvl r"] distinct_stripe [of xs "mvr l" "mvl r"] by auto
  with c have "cds_entries L (cds_del L x c) = stripe (mvr l) xs (mvl r)"
    by (rule del_cons)
  then show "striped L (cs[unat (mvl r) := cds_del L x c]) l (mvl r) xs"
    using s r r' unfolding striped_def by (auto simp: nth_update_bkt stripe_snoc)
qed

lemma striped_empty:
  fixes b :: cint
  assumes "striped L cs l r []" and "b < 4"
  shows "cds_entries L (cs ! unat b) = []"
  using stripedD(6) [OF assms(1)] assms(2) by simp

end

end
