(* ===== verification/Lockdeq.thy ===== *)
theory Lockdeq
  imports Deque_Spec
begin

text \<open>
  SMPdesign/lockdeq.c: a double-ended queue hashed over \<open>DEQ_N_BKTS\<close> buckets. Each operation
  holds its end's index lock and one bucket lock from its first to its last access, so it is
  modelled as one transition of the sequential state. A bucket is a list of the userspace-RCU
  library, the left end of a chain being its tail.
\<close>

definition DEQ_N_BKTS :: cint where
  "DEQ_N_BKTS = 4"

record 'l deq_bkt =
  chain :: 'l

record 'l pdeq =
  lidx :: cint
  ridx :: cint
  bkt :: "'l deq_bkt list"

definition moveleft :: "cint \<Rightarrow> cint" where
  "moveleft idx = (idx - 1) AND (DEQ_N_BKTS - 1)"

definition moveright :: "cint \<Rightarrow> cint" where
  "moveright idx = (idx + 1) AND (DEQ_N_BKTS - 1)"

definition init_pdeq :: "('e, 'l) cds_ops \<Rightarrow> 'l pdeq" where
  "init_pdeq L = \<lparr>lidx = 0, ridx = 1,
     bkt = map (\<lambda>i. \<lparr>chain = cds_init L\<rparr>) [0..<unat DEQ_N_BKTS]\<rparr>"

definition pdeq_pop_l :: "('e, 'l) cds_ops \<Rightarrow> 'l pdeq \<Rightarrow> 'e option \<times> 'l pdeq" where
  "pdeq_pop_l L d =
     (let i = moveright (lidx d); p = bkt d ! unat i in
      if cds_empty L (chain p) then (None, d)
      else let e = cds_prev L (chain p) in
        (Some e, d\<lparr>bkt := (bkt d)[unat i := p\<lparr>chain := cds_del L e (chain p)\<rparr>], lidx := i\<rparr>))"

definition pdeq_pop_r :: "('e, 'l) cds_ops \<Rightarrow> 'l pdeq \<Rightarrow> 'e option \<times> 'l pdeq" where
  "pdeq_pop_r L d =
     (let i = moveleft (ridx d); p = bkt d ! unat i in
      if cds_empty L (chain p) then (None, d)
      else let e = cds_next L (chain p) in
        (Some e, d\<lparr>bkt := (bkt d)[unat i := p\<lparr>chain := cds_del L e (chain p)\<rparr>], ridx := i\<rparr>))"

definition pdeq_push_l :: "('e, 'l) cds_ops \<Rightarrow> 'e \<Rightarrow> 'l pdeq \<Rightarrow> 'l pdeq" where
  "pdeq_push_l L e d =
     (let i = lidx d; p = bkt d ! unat i in
      d\<lparr>bkt := (bkt d)[unat i := p\<lparr>chain := cds_add_tail L e (chain p)\<rparr>],
        lidx := moveleft (lidx d)\<rparr>)"

definition pdeq_push_r :: "('e, 'l) cds_ops \<Rightarrow> 'e \<Rightarrow> 'l pdeq \<Rightarrow> 'l pdeq" where
  "pdeq_push_r L e d =
     (let i = ridx d; p = bkt d ! unat i in
      d\<lparr>bkt := (bkt d)[unat i := p\<lparr>chain := cds_add L e (chain p)\<rparr>],
        ridx := moveright (ridx d)\<rparr>)"

section \<open>The hashed deque implements a deque\<close>

definition lockdeq_repr :: "('e, 'l) cds_ops \<Rightarrow> 'l pdeq \<Rightarrow> 'e list \<Rightarrow> bool" where
  "lockdeq_repr L d xs \<longleftrightarrow> striped L (map chain (bkt d)) (lidx d) (ridx d) xs"

lemma moveleft_mvl: "moveleft = mvl"
  by (simp add: fun_eq_iff moveleft_def mvl_def DEQ_N_BKTS_def)

lemma moveright_mvr: "moveright = mvr"
  by (simp add: fun_eq_iff moveright_def mvr_def DEQ_N_BKTS_def)

lemma chain_nth:
  "lockdeq_repr L d xs \<Longrightarrow> i < 4 \<Longrightarrow> chain (bkt d ! unat i) = map chain (bkt d) ! unat (i :: cint)"
  using unat_bkt [of i] by (auto simp: lockdeq_repr_def striped_def)

lemmas lockdeq_defs = lockdeq_repr_def moveleft_mvl moveright_mvr Let_def

context cds_lib begin

lemma init_pdeq_ok: "lockdeq_repr L (init_pdeq L) []"
  using striped_init by (simp add: lockdeq_repr_def init_pdeq_def DEQ_N_BKTS_def upt_rec)

lemma pdeq_push_l_ok:
  assumes "lockdeq_repr L d xs" and "e \<notin> set xs"
  shows "lockdeq_repr L (pdeq_push_l L e d) (e # xs)"
  using striped_push_l [OF assms [unfolded lockdeq_repr_def]]
    chain_nth [OF assms(1) stripedD(2) [OF assms(1) [unfolded lockdeq_repr_def]]]
  by (simp add: pdeq_push_l_def lockdeq_defs map_update)

lemma pdeq_push_r_ok:
  assumes "lockdeq_repr L d xs" and "e \<notin> set xs"
  shows "lockdeq_repr L (pdeq_push_r L e d) (xs @ [e])"
  using striped_push_r [OF assms [unfolded lockdeq_repr_def]]
    chain_nth [OF assms(1) stripedD(3) [OF assms(1) [unfolded lockdeq_repr_def]]]
  by (simp add: pdeq_push_r_def lockdeq_defs map_update)

lemma pdeq_pop_l_ok:
  assumes "lockdeq_repr L d (x # xs)"
  shows "fst (pdeq_pop_l L d) = Some x \<and> lockdeq_repr L (snd (pdeq_pop_l L d)) xs"
  using striped_pop_l [OF assms [unfolded lockdeq_repr_def]] chain_nth [OF assms mvr_less]
  by (simp add: pdeq_pop_l_def lockdeq_defs map_update)

lemma pdeq_pop_r_ok:
  assumes "lockdeq_repr L d (xs @ [x])"
  shows "fst (pdeq_pop_r L d) = Some x \<and> lockdeq_repr L (snd (pdeq_pop_r L d)) xs"
  using striped_pop_r [OF assms [unfolded lockdeq_repr_def]] chain_nth [OF assms mvl_less]
  by (simp add: pdeq_pop_r_def lockdeq_defs map_update)

lemma pdeq_pop_empty:
  assumes "lockdeq_repr L d []"
  shows "pdeq_pop_l L d = (None, d)" and "pdeq_pop_r L d = (None, d)"
  using striped_empty [OF assms [unfolded lockdeq_repr_def]]
    chain_nth [OF assms mvl_less] chain_nth [OF assms mvr_less]
  by (simp_all add: pdeq_pop_l_def pdeq_pop_r_def lockdeq_defs)

end

sublocale cds_lib \<subseteq> lockdeq: deque_impl "init_pdeq L" "pdeq_push_l L" "pdeq_push_r L"
    "pdeq_pop_l L" "pdeq_pop_r L" "lockdeq_repr L"
  by unfold_locales (simp_all add: init_pdeq_ok pdeq_push_l_ok pdeq_push_r_ok pdeq_pop_empty
    pdeq_pop_l_ok pdeq_pop_r_ok)

context cds_lib begin

lemmas lockdeq_run = lockdeq.run_init

end

section \<open>Properties\<close>

text \<open>Whatever sequence of pushes and pops a single caller runs on a freshly initialised
  hashed deque (pushing no element the deque already holds), every pop returns exactly what a
  plain list returns: the hashing over four chains is invisible, in every position of the
  indexes and across their wrap-around.\<close>

theorem lockdeq_runs_as_list:
  assumes "cds_lib L" and "ops_ok ops []"
  shows "fst (crun (pdeq_push_l L) (pdeq_push_r L) (pdeq_pop_l L) (pdeq_pop_r L) ops (init_pdeq L))
       = fst (arun ops [])"
  by (rule cds_lib.lockdeq_run [OF assms])

theorem lockdeq_runs_as_list_witness:
  "fst (crun (pdeq_push_l list_cds) (pdeq_push_r list_cds) (pdeq_pop_l list_cds) (pdeq_pop_r list_cds)
     [PushL (1::int), PushL 2, PushR 3, PopR, PopR, PopR, PopL] (init_pdeq list_cds))
   = [None, None, None, Some 3, Some 1, Some 2, None]"
  using lockdeq_runs_as_list [OF list_cds.cds_lib_axioms,
      of "[PushL (1::int), PushL 2, PushR 3, PopR, PopR, PopR, PopL]"] by simp

end
