(* ===== verification/Lockhdeq.thy ===== *)
theory Lockhdeq
  imports Deque_Spec
begin

text \<open>
  SMPdesign/lockhdeq.c: the hashed deque built from single-lock deques. First the underlying
  \<open>struct deq\<close>, then the parallel \<open>struct pdeq\<close>: its operations as functions of the state
  (a caller that runs alone), and as the steps of two concurrent ends. Whoever holds \<open>llock\<close>
  is the left end, whoever holds \<open>rlock\<close> the right end; between two steps of one end the
  other end may take any number of steps, which the bucket locks allow.
\<close>

section \<open>The single-lock deque\<close>

record 'l deq =
  chain :: 'l

definition init_deq :: "('e, 'l) cds_ops \<Rightarrow> 'l deq" where
  "init_deq L = \<lparr>chain = cds_init L\<rparr>"

definition deq_pop_l :: "('e, 'l) cds_ops \<Rightarrow> 'l deq \<Rightarrow> 'e option \<times> 'l deq" where
  "deq_pop_l L p =
     (if cds_empty L (chain p) then (None, p)
      else let e = cds_prev L (chain p) in (Some e, p\<lparr>chain := cds_del L e (chain p)\<rparr>))"

definition deq_push_l :: "('e, 'l) cds_ops \<Rightarrow> 'e \<Rightarrow> 'l deq \<Rightarrow> 'l deq" where
  "deq_push_l L e p = p\<lparr>chain := cds_add_tail L e (chain p)\<rparr>"

definition deq_pop_r :: "('e, 'l) cds_ops \<Rightarrow> 'l deq \<Rightarrow> 'e option \<times> 'l deq" where
  "deq_pop_r L p =
     (if cds_empty L (chain p) then (None, p)
      else let e = cds_next L (chain p) in (Some e, p\<lparr>chain := cds_del L e (chain p)\<rparr>))"

definition deq_push_r :: "('e, 'l) cds_ops \<Rightarrow> 'e \<Rightarrow> 'l deq \<Rightarrow> 'l deq" where
  "deq_push_r L e p = p\<lparr>chain := cds_add L e (chain p)\<rparr>"

section \<open>The hashed deque\<close>

definition PDEQ_N_BKTS :: cint where
  "PDEQ_N_BKTS = 4"

record 'l pdeq =
  lidx :: cint
  ridx :: cint
  bkt :: "'l deq list"

definition moveleft :: "cint \<Rightarrow> cint" where
  "moveleft idx = (idx - 1) AND (PDEQ_N_BKTS - 1)"

definition moveright :: "cint \<Rightarrow> cint" where
  "moveright idx = (idx + 1) AND (PDEQ_N_BKTS - 1)"

definition init_pdeq :: "('e, 'l) cds_ops \<Rightarrow> 'l pdeq" where
  "init_pdeq L = \<lparr>lidx = 0, ridx = 1, bkt = map (\<lambda>i. init_deq L) [0..<unat PDEQ_N_BKTS]\<rparr>"

definition pdeq_pop_l :: "('e, 'l) cds_ops \<Rightarrow> 'l pdeq \<Rightarrow> 'e option \<times> 'l pdeq" where
  "pdeq_pop_l L d =
     (let i = moveright (lidx d);
          (e, p) = deq_pop_l L (bkt d ! unat i);
          d = d\<lparr>bkt := (bkt d)[unat i := p]\<rparr>
      in (e, if e \<noteq> None then d\<lparr>lidx := i\<rparr> else d))"

definition pdeq_pop_r :: "('e, 'l) cds_ops \<Rightarrow> 'l pdeq \<Rightarrow> 'e option \<times> 'l pdeq" where
  "pdeq_pop_r L d =
     (let i = moveleft (ridx d);
          (e, p) = deq_pop_r L (bkt d ! unat i);
          d = d\<lparr>bkt := (bkt d)[unat i := p]\<rparr>
      in (e, if e \<noteq> None then d\<lparr>ridx := i\<rparr> else d))"

definition pdeq_push_l :: "('e, 'l) cds_ops \<Rightarrow> 'e \<Rightarrow> 'l pdeq \<Rightarrow> 'l pdeq" where
  "pdeq_push_l L e d =
     (let i = lidx d;
          d = d\<lparr>bkt := (bkt d)[unat i := deq_push_l L e (bkt d ! unat i)]\<rparr>
      in d\<lparr>lidx := moveleft (lidx d)\<rparr>)"

definition pdeq_push_r :: "('e, 'l) cds_ops \<Rightarrow> 'e \<Rightarrow> 'l pdeq \<Rightarrow> 'l pdeq" where
  "pdeq_push_r L e d =
     (let i = ridx d;
          d = d\<lparr>bkt := (bkt d)[unat i := deq_push_r L e (bkt d ! unat i)]\<rparr>
      in d\<lparr>ridx := moveright (ridx d)\<rparr>)"

section \<open>Two concurrent ends\<close>

text \<open>
  An end between two shared accesses of its operation: it holds its index lock and has read
  the index (\<open>PushAt\<close>, \<open>PopAt\<close>), or has done the bucket operation and not yet written its
  index (\<open>PushUpd\<close>, \<open>PopUpd\<close> with the bucket and the element found). \<open>hist\<close> and \<open>content\<close> are
  auxiliary: the bucket operations so far with their results, and the abstract deque.
\<close>

datatype 'e end_pc = Free | PushAt 'e cint | PushUpd | PopAt cint | PopUpd cint "'e option"

record ('e, 'l) hsys =
  pd :: "'l pdeq"
  lpc :: "'e end_pc"
  rpc :: "'e end_pc"
  hist :: "('e deque_op \<times> 'e option) list"
  content :: "'e list"

fun pending :: "'e end_pc \<Rightarrow> 'e set" where
  "pending (PushAt e i) = {e}"
| "pending _ = {}"

definition hsys_init :: "('e, 'l) cds_ops \<Rightarrow> ('e, 'l) hsys \<Rightarrow> bool" where
  "hsys_init L s \<longleftrightarrow> s = \<lparr>pd = init_pdeq L, lpc = Free, rpc = Free, hist = [], content = []\<rparr>"

definition set_bkt :: "cint \<Rightarrow> 'l deq \<Rightarrow> 'l pdeq \<Rightarrow> 'l pdeq" where
  "set_bkt i p d = d\<lparr>bkt := (bkt d)[unat i := p]\<rparr>"

definition log_op :: "'e deque_op \<Rightarrow> 'e option \<Rightarrow> ('e, 'l) hsys \<Rightarrow> ('e, 'l) hsys" where
  "log_op a r s = s\<lparr>hist := hist s @ [(a, r)], content := snd (aop a (content s))\<rparr>"

inductive hstep :: "('e, 'l) cds_ops \<Rightarrow> ('e, 'l) hsys \<Rightarrow> ('e, 'l) hsys \<Rightarrow> bool"
  for L :: "('e, 'l) cds_ops" where
  pushl_lock: "lpc s = Free \<Longrightarrow> e \<notin> set (content s) \<Longrightarrow> e \<notin> pending (rpc s) \<Longrightarrow>
     hstep L s (s\<lparr>lpc := PushAt e (lidx (pd s))\<rparr>)"
| pushl_bkt: "lpc s = PushAt e i \<Longrightarrow>
     hstep L s (log_op (PushL e) None
       (s\<lparr>lpc := PushUpd, pd := set_bkt i (deq_push_l L e (bkt (pd s) ! unat i)) (pd s)\<rparr>))"
| pushl_upd: "lpc s = PushUpd \<Longrightarrow>
     hstep L s (s\<lparr>lpc := Free, pd := (pd s)\<lparr>lidx := moveleft (lidx (pd s))\<rparr>\<rparr>)"
| popl_lock: "lpc s = Free \<Longrightarrow> hstep L s (s\<lparr>lpc := PopAt (moveright (lidx (pd s)))\<rparr>)"
| popl_bkt: "lpc s = PopAt i \<Longrightarrow> deq_pop_l L (bkt (pd s) ! unat i) = (e, p) \<Longrightarrow>
     hstep L s (log_op PopL e (s\<lparr>lpc := PopUpd i e, pd := set_bkt i p (pd s)\<rparr>))"
| popl_upd: "lpc s = PopUpd i e \<Longrightarrow>
     hstep L s (s\<lparr>lpc := Free, pd := (if e \<noteq> None then (pd s)\<lparr>lidx := i\<rparr> else pd s)\<rparr>)"
| pushr_lock: "rpc s = Free \<Longrightarrow> e \<notin> set (content s) \<Longrightarrow> e \<notin> pending (lpc s) \<Longrightarrow>
     hstep L s (s\<lparr>rpc := PushAt e (ridx (pd s))\<rparr>)"
| pushr_bkt: "rpc s = PushAt e i \<Longrightarrow>
     hstep L s (log_op (PushR e) None
       (s\<lparr>rpc := PushUpd, pd := set_bkt i (deq_push_r L e (bkt (pd s) ! unat i)) (pd s)\<rparr>))"
| pushr_upd: "rpc s = PushUpd \<Longrightarrow>
     hstep L s (s\<lparr>rpc := Free, pd := (pd s)\<lparr>ridx := moveright (ridx (pd s))\<rparr>\<rparr>)"
| popr_lock: "rpc s = Free \<Longrightarrow> hstep L s (s\<lparr>rpc := PopAt (moveleft (ridx (pd s)))\<rparr>)"
| popr_bkt: "rpc s = PopAt i \<Longrightarrow> deq_pop_r L (bkt (pd s) ! unat i) = (e, p) \<Longrightarrow>
     hstep L s (log_op PopR e (s\<lparr>rpc := PopUpd i e, pd := set_bkt i p (pd s)\<rparr>))"
| popr_upd: "rpc s = PopUpd i e \<Longrightarrow>
     hstep L s (s\<lparr>rpc := Free, pd := (if e \<noteq> None then (pd s)\<lparr>ridx := i\<rparr> else pd s)\<rparr>)"

section \<open>The bucket operations under the striped layout\<close>

lemma hmoveleft_mvl: "moveleft = mvl"
  by (simp add: fun_eq_iff moveleft_def mvl_def PDEQ_N_BKTS_def)

lemma hmoveright_mvr: "moveright = mvr"
  by (simp add: fun_eq_iff moveright_def mvr_def PDEQ_N_BKTS_def)

definition chains :: "'l deq list \<Rightarrow> 'l list" where
  "chains B = map chain B"

lemma hchain_nth:
  fixes i :: cint
  assumes "striped L (chains B) l r xs" and "i < 4"
  shows "chain (B ! unat i) = chains B ! unat i"
  using assms unat_bkt [of i] by (auto simp: chains_def striped_def)

lemma chains_update: "chains (B[n := p]) = (chains B)[n := chain p]"
  by (simp add: chains_def map_update)

context cds_lib begin

lemma bkt_push_l:
  assumes "striped L (chains B) l r xs" and "e \<notin> set xs"
  shows "striped L (chains (B[unat l := deq_push_l L e (B ! unat l)])) (mvl l) r (e # xs)"
  using striped_push_l [OF assms] hchain_nth [OF assms(1) stripedD(2) [OF assms(1)]]
  by (simp add: deq_push_l_def chains_update)

lemma bkt_push_r:
  assumes "striped L (chains B) l r xs" and "e \<notin> set xs"
  shows "striped L (chains (B[unat r := deq_push_r L e (B ! unat r)])) l (mvr r) (xs @ [e])"
  using striped_push_r [OF assms] hchain_nth [OF assms(1) stripedD(3) [OF assms(1)]]
  by (simp add: deq_push_r_def chains_update)

lemma bkt_pop_l:
  assumes "striped L (chains B) l r xs" and "deq_pop_l L (B ! unat (mvr l)) = (e, p)"
  shows "e = fst (aop PopL xs)"
    and "striped L (chains (B[unat (mvr l) := p])) (if e \<noteq> None then mvr l else l) r
           (snd (aop PopL xs))"
proof -
  note c = hchain_nth [OF assms(1) mvr_less [of l]]
  have "e = fst (aop PopL xs) \<and> striped L (chains (B[unat (mvr l) := p]))
      (if e \<noteq> None then mvr l else l) r (snd (aop PopL xs))"
  proof (cases xs)
    case Nil
    then have "p = B ! unat (mvr l)" and "e = None"
      using striped_empty [OF assms(1) [unfolded Nil] mvr_less] assms(2) c
      by (auto simp: deq_pop_l_def Let_def split: if_splits)
    with Nil assms(1) show ?thesis by simp
  next
    case (Cons x ys)
    show ?thesis
      using striped_pop_l [OF assms(1) [unfolded Cons]] assms(2) c
      by (auto simp: Cons deq_pop_l_def Let_def chains_update split: if_splits)
  qed
  then show "e = fst (aop PopL xs)"
    and "striped L (chains (B[unat (mvr l) := p])) (if e \<noteq> None then mvr l else l) r
           (snd (aop PopL xs))" by blast+
qed

lemma bkt_pop_r:
  assumes "striped L (chains B) l r xs" and "deq_pop_r L (B ! unat (mvl r)) = (e, p)"
  shows "e = fst (aop PopR xs)"
    and "striped L (chains (B[unat (mvl r) := p])) l (if e \<noteq> None then mvl r else r)
           (snd (aop PopR xs))"
proof -
  note c = hchain_nth [OF assms(1) mvl_less [of r]]
  have "e = fst (aop PopR xs) \<and> striped L (chains (B[unat (mvl r) := p])) l
      (if e \<noteq> None then mvl r else r) (snd (aop PopR xs))"
  proof (cases xs rule: rev_cases)
    case Nil
    then have "p = B ! unat (mvl r)" and "e = None"
      using striped_empty [OF assms(1) [unfolded Nil] mvl_less] assms(2) c
      by (auto simp: deq_pop_r_def Let_def split: if_splits)
    with Nil assms(1) show ?thesis by simp
  next
    case (snoc ys x)
    show ?thesis
      using striped_pop_r [OF assms(1) [unfolded snoc]] assms(2) c
      by (auto simp: snoc deq_pop_r_def Let_def chains_update split: if_splits)
  qed
  then show "e = fst (aop PopR xs)"
    and "striped L (chains (B[unat (mvl r) := p])) l (if e \<noteq> None then mvl r else r)
           (snd (aop PopR xs))" by blast+
qed

end

section \<open>The hashed deque implements a deque\<close>

definition lockhdeq_repr :: "('e, 'l) cds_ops \<Rightarrow> 'l pdeq \<Rightarrow> 'e list \<Rightarrow> bool" where
  "lockhdeq_repr L d xs \<longleftrightarrow> striped L (chains (bkt d)) (lidx d) (ridx d) xs"

lemmas lockhdeq_defs = lockhdeq_repr_def hmoveleft_mvl hmoveright_mvr Let_def

context cds_lib begin

lemma hinit_ok: "lockhdeq_repr L (init_pdeq L) []"
  using striped_init
  by (simp add: lockhdeq_repr_def chains_def init_pdeq_def init_deq_def PDEQ_N_BKTS_def upt_rec)

lemma hpush_ok:
  assumes "lockhdeq_repr L d xs" and "e \<notin> set xs"
  shows "lockhdeq_repr L (pdeq_push_l L e d) (e # xs)"
    and "lockhdeq_repr L (pdeq_push_r L e d) (xs @ [e])"
  using bkt_push_l [of "bkt d"] bkt_push_r [of "bkt d"] assms
  by (simp_all add: pdeq_push_l_def pdeq_push_r_def lockhdeq_defs)

lemma hpop_ok:
  assumes "lockhdeq_repr L d xs"
  shows "fst (pdeq_pop_l L d) = fst (aop PopL xs) \<and>
         lockhdeq_repr L (snd (pdeq_pop_l L d)) (snd (aop PopL xs))"
    and "fst (pdeq_pop_r L d) = fst (aop PopR xs) \<and>
         lockhdeq_repr L (snd (pdeq_pop_r L d)) (snd (aop PopR xs))"
  using bkt_pop_l [of "bkt d" "lidx d" "ridx d" xs] bkt_pop_r [of "bkt d" "lidx d" "ridx d" xs] assms
  by (auto simp del: aop.simps simp add: pdeq_pop_l_def pdeq_pop_r_def lockhdeq_defs
      split: prod.splits if_splits)

end

sublocale cds_lib \<subseteq> lockhdeq: deque_impl "init_pdeq L" "pdeq_push_l L" "pdeq_push_r L"
    "pdeq_pop_l L" "pdeq_pop_r L" "lockhdeq_repr L"
  by unfold_locales (use hpop_ok in \<open>force simp: hinit_ok hpush_ok\<close>)+

context cds_lib begin

lemmas lockhdeq_run = lockhdeq.run_init

end

section \<open>The concurrent ends are linearizable\<close>

text \<open>
  The index an end is about to write already counts: \<open>leff\<close> and \<open>reff\<close> are the indexes after
  the pending write. With them the layout invariant holds between any two steps.
\<close>

fun leff_of :: "cint \<Rightarrow> 'e end_pc \<Rightarrow> cint" where
  "leff_of l PushUpd = mvl l"
| "leff_of l (PopUpd i e) = (if e \<noteq> None then i else l)"
| "leff_of l _ = l"

fun reff_of :: "cint \<Rightarrow> 'e end_pc \<Rightarrow> cint" where
  "reff_of r PushUpd = mvr r"
| "reff_of r (PopUpd i e) = (if e \<noteq> None then i else r)"
| "reff_of r _ = r"

fun end_ok :: "'e list \<Rightarrow> cint \<Rightarrow> cint \<Rightarrow> 'e end_pc \<Rightarrow> bool" where
  "end_ok xs idx pop_idx (PushAt e i) \<longleftrightarrow> i = idx \<and> e \<notin> set xs"
| "end_ok xs idx pop_idx (PopAt i) \<longleftrightarrow> i = pop_idx"
| "end_ok xs idx pop_idx _ \<longleftrightarrow> True"

definition hinv :: "('e, 'l) cds_ops \<Rightarrow> ('e, 'l) hsys \<Rightarrow> bool" where
  "hinv L s \<longleftrightarrow>
     striped L (chains (bkt (pd s))) (leff_of (lidx (pd s)) (lpc s)) (reff_of (ridx (pd s)) (rpc s))
       (content s) \<and>
     end_ok (content s) (lidx (pd s)) (mvr (lidx (pd s))) (lpc s) \<and>
     end_ok (content s) (ridx (pd s)) (mvl (ridx (pd s))) (rpc s) \<and>
     pending (lpc s) \<inter> pending (rpc s) = {}"

lemma end_ok_subset:
  "end_ok xs l p q \<Longrightarrow> set ys \<subseteq> set xs \<union> A \<Longrightarrow> A \<inter> pending q = {} \<Longrightarrow> end_ok ys l p q"
  by (cases q) auto

lemma hlog_op_simps [simp]:
  "pd (log_op a r s) = pd s" "lpc (log_op a r s) = lpc s" "rpc (log_op a r s) = rpc s"
  "content (log_op a r s) = snd (aop a (content s))" "hist (log_op a r s) = hist s @ [(a, r)]"
  by (simp_all add: log_op_def)

lemma set_bkt_simps [simp]:
  "bkt (set_bkt i p d) = (bkt d)[unat i := p]" "lidx (set_bkt i p d) = lidx d"
  "ridx (set_bkt i p d) = ridx d"
  by (simp_all add: set_bkt_def)

context cds_lib begin

lemma hinv_pushl_bkt:
  assumes "hinv L s" and "lpc s = PushAt e i"
  shows "hinv L (log_op (PushL e) None
      (s\<lparr>lpc := PushUpd, pd := set_bkt i (deq_push_l L e (bkt (pd s) ! unat i)) (pd s)\<rparr>))"
proof -
  from assms have ok: "end_ok (content s) (ridx (pd s)) (mvl (ridx (pd s))) (rpc s)"
    and new: "e \<notin> pending (rpc s)" and i: "i = lidx (pd s)" "e \<notin> set (content s)"
    and st: "striped L (chains (bkt (pd s))) i (reff_of (ridx (pd s)) (rpc s)) (content s)"
    by (auto simp: hinv_def)
  from bkt_push_l [OF st i(2)] i
  show ?thesis
    using end_ok_subset [OF ok, of "e # content s" "{e}"] new
    by (simp add: hinv_def)
qed

lemma hinv_pushr_bkt:
  assumes "hinv L s" and "rpc s = PushAt e i"
  shows "hinv L (log_op (PushR e) None
      (s\<lparr>rpc := PushUpd, pd := set_bkt i (deq_push_r L e (bkt (pd s) ! unat i)) (pd s)\<rparr>))"
proof -
  from assms have ok: "end_ok (content s) (lidx (pd s)) (mvr (lidx (pd s))) (lpc s)"
    and new: "e \<notin> pending (lpc s)" and i: "i = ridx (pd s)" "e \<notin> set (content s)"
    and st: "striped L (chains (bkt (pd s))) (leff_of (lidx (pd s)) (lpc s)) i (content s)"
    by (auto simp: hinv_def)
  from bkt_push_r [OF st i(2)] i
  show ?thesis
    using end_ok_subset [OF ok, of "content s @ [e]" "{e}"] new
    by (simp add: hinv_def)
qed

lemma hinv_popl_bkt:
  assumes "hinv L s" and "lpc s = PopAt i" and "deq_pop_l L (bkt (pd s) ! unat i) = (e, p)"
  shows "hinv L (log_op PopL e (s\<lparr>lpc := PopUpd i e, pd := set_bkt i p (pd s)\<rparr>))"
    and "e = fst (aop PopL (content s))"
proof -
  from assms have ok: "end_ok (content s) (ridx (pd s)) (mvl (ridx (pd s))) (rpc s)"
    and i: "i = mvr (lidx (pd s))"
    and st: "striped L (chains (bkt (pd s))) (lidx (pd s)) (reff_of (ridx (pd s)) (rpc s)) (content s)"
    by (auto simp: hinv_def)
  note b = bkt_pop_l [OF st assms(3) [unfolded i]]
  from b(1) show "e = fst (aop PopL (content s))" .
  from b(2) i show "hinv L (log_op PopL e (s\<lparr>lpc := PopUpd i e, pd := set_bkt i p (pd s)\<rparr>))"
    using end_ok_subset [OF ok, of "snd (aop PopL (content s))" "{}"] set_aop_pop(1) [of "content s"]
    by (simp add: hinv_def del: aop.simps)
qed

lemma hinv_popr_bkt:
  assumes "hinv L s" and "rpc s = PopAt i" and "deq_pop_r L (bkt (pd s) ! unat i) = (e, p)"
  shows "hinv L (log_op PopR e (s\<lparr>rpc := PopUpd i e, pd := set_bkt i p (pd s)\<rparr>))"
    and "e = fst (aop PopR (content s))"
proof -
  from assms have ok: "end_ok (content s) (lidx (pd s)) (mvr (lidx (pd s))) (lpc s)"
    and i: "i = mvl (ridx (pd s))"
    and st: "striped L (chains (bkt (pd s))) (leff_of (lidx (pd s)) (lpc s)) (ridx (pd s)) (content s)"
    by (auto simp: hinv_def)
  note b = bkt_pop_r [OF st assms(3) [unfolded i]]
  from b(1) show "e = fst (aop PopR (content s))" .
  from b(2) i show "hinv L (log_op PopR e (s\<lparr>rpc := PopUpd i e, pd := set_bkt i p (pd s)\<rparr>))"
    using end_ok_subset [OF ok, of "snd (aop PopR (content s))" "{}"] set_aop_pop(2) [of "content s"]
    by (simp add: hinv_def del: aop.simps)
qed

lemma hinv_init: "hsys_init L s \<Longrightarrow> hinv L s"
  using hinit_ok by (simp add: hsys_init_def hinv_def lockhdeq_repr_def)

lemma hinv_step: "hstep L s t \<Longrightarrow> hinv L s \<Longrightarrow> hinv L t"
proof (induction rule: hstep.induct)
  case (pushl_bkt s e i)
  then show ?case by (simp add: hinv_pushl_bkt)
next
  case (popl_bkt s i e p)
  then show ?case by (simp add: hinv_popl_bkt)
next
  case (pushr_bkt s e i)
  then show ?case by (simp add: hinv_pushr_bkt)
next
  case (popr_bkt s i e p)
  then show ?case by (simp add: hinv_popr_bkt)
qed (auto simp: hinv_def hmoveleft_mvl hmoveright_mvr)

lemma hlinear_step:
  "hstep L s t \<Longrightarrow> hinv L s \<Longrightarrow> linear_hist (hist s) (content s) \<Longrightarrow> linear_hist (hist t) (content t)"
proof (induction rule: hstep.induct)
  case (pushl_bkt s e i)
  then show ?case using linear_hist_snoc [of _ _ None "PushL e"] by simp
next
  case (popl_bkt s i e p)
  then show ?case
    by (simp add: linear_hist_snoc hinv_popl_bkt(2) [OF popl_bkt(3,1,2)] del: aop.simps)
next
  case (pushr_bkt s e i)
  then show ?case using linear_hist_snoc [of _ _ None "PushR e"] by simp
next
  case (popr_bkt s i e p)
  then show ?case
    by (simp add: linear_hist_snoc hinv_popr_bkt(2) [OF popr_bkt(3,1,2)] del: aop.simps)
qed simp_all

lemma hreach_linear:
  "reachable (hsys_init L) (hstep L) s \<Longrightarrow> hinv L s \<and> linear_hist (hist s) (content s)"
proof (induction rule: reachable.induct)
  case (start s)
  then show ?case using hinv_init by (simp add: hsys_init_def)
next
  case (next_state s t)
  then show ?case using hinv_step hlinear_step by blast
qed

end

section \<open>Properties\<close>

text \<open>C17: however a left end and a right end interleave their accesses to the hashed deque, one
  shared access at a time, the results of the bucket operations form a run of one abstract
  deque: each pop returns the leftmost (rightmost) element at the moment of its bucket
  operation, although the index it moved is written only later.\<close>

theorem lockhdeq_linearizable:
  assumes "cds_lib L" and "reachable (hsys_init L) (hstep L) s"
  shows "arun (map fst (hist s)) [] = (map snd (hist s), content s)"
  using cds_lib.hreach_linear [OF assms] by (simp add: linear_hist_def)

theorem lockhdeq_linearizable_witness:
  "\<exists>s. reachable (hsys_init list_cds) (hstep list_cds) s \<and>
     hist s = [(PushL (7::int), None)] \<and> lpc s = PushUpd \<and> lidx (pd s) = 0 \<and>
     arun (map fst (hist s)) [] = (map snd (hist s), content s)"
proof -
  let ?r = "reachable (hsys_init list_cds) (hstep list_cds)"
  define s0 :: "(int, int list) hsys"
    where "s0 = \<lparr>pd = init_pdeq list_cds, lpc = Free, rpc = Free, hist = [], content = []\<rparr>"
  have "?r s0" by (rule reachable.start) (simp add: s0_def hsys_init_def)
  then have "?r (s0\<lparr>lpc := PushAt 7 (lidx (pd s0))\<rparr>)" (is "reachable _ _ ?s1")
    by (rule reachable.next_state) (rule hstep.pushl_lock, simp_all add: s0_def)
  then have r: "?r (log_op (PushL 7) None (?s1\<lparr>lpc := PushUpd,
      pd := set_bkt 0 (deq_push_l list_cds 7 (bkt (pd ?s1) ! unat (0::cint))) (pd ?s1)\<rparr>))"
    by (rule reachable.next_state)
      (rule hstep.pushl_bkt, simp add: s0_def init_pdeq_def)
  show ?thesis
    by (rule exI, rule conjI, rule r)
      (use lockhdeq_linearizable [OF list_cds.cds_lib_axioms r] in
        \<open>simp add: s0_def init_pdeq_def\<close>)
qed

text \<open>Run by a single caller, the hashed deque built over single-lock deques answers every
  sequence of operations as a plain list does.\<close>

theorem lockhdeq_runs_as_list:
  assumes "cds_lib L" and "ops_ok ops []"
  shows "fst (crun (pdeq_push_l L) (pdeq_push_r L) (pdeq_pop_l L) (pdeq_pop_r L) ops (init_pdeq L))
       = fst (arun ops [])"
  by (rule cds_lib.lockhdeq_run [OF assms])

theorem lockhdeq_runs_as_list_witness:
  "fst (crun (pdeq_push_l list_cds) (pdeq_push_r list_cds) (pdeq_pop_l list_cds) (pdeq_pop_r list_cds)
     [PushR (1::int), PushR 2, PopL, PopL, PopL] (init_pdeq list_cds)) = [None, None, Some 1, Some 2, None]"
  using lockhdeq_runs_as_list [OF list_cds.cds_lib_axioms,
      of "[PushR (1::int), PushR 2, PopL, PopL, PopL]"] by simp

end
