(* ===== verification/Locktdeq.thy ===== *)
theory Locktdeq
  imports Deque_Spec
begin

text \<open>
  SMPdesign/locktdeq.c: the deque made of two single deques in tandem. A pop that finds its own
  side empty takes everything from the other side. The left lock is acquired first if both are
  needed, so a right pop that finds its side empty drops \<open>rlock\<close>, acquires both locks and tries
  its own side again. The operations are given as functions (a caller that runs alone) and as
  the steps of any number of threads, a step being what is done under one acquisition of a lock.
\<close>

section \<open>The underlying deque\<close>

record 'l deq =
  chain :: 'l

definition init_deq :: "('e, 'l) cds_ops \<Rightarrow> 'l deq" where
  "init_deq L = \<lparr>chain = cds_init L\<rparr>"

definition deq_pop_l :: "('e, 'l) cds_ops \<Rightarrow> 'l deq \<Rightarrow> 'e option \<times> 'l deq" where
  "deq_pop_l L p =
     (if cds_empty L (chain p) then (None, p)
      else let e = cds_prev L (chain p) in (Some e, p\<lparr>chain := cds_del L e (chain p)\<rparr>))"

definition deq_push_l :: "('e, 'l) cds_ops \<Rightarrow> 'e \<Rightarrow> 'l deq \<Rightarrow> 'l deq" where
  "deq_push_l L e p = p\<lparr>chain := cds_add_tail L e (chain p)\<rparr>"

definition deq_pop_r :: "('e, 'l) cds_ops \<Rightarrow> 'l deq \<Rightarrow> 'e option \<times> 'l deq" where
  "deq_pop_r L p =
     (if cds_empty L (chain p) then (None, p)
      else let e = cds_next L (chain p) in (Some e, p\<lparr>chain := cds_del L e (chain p)\<rparr>))"

definition deq_push_r :: "('e, 'l) cds_ops \<Rightarrow> 'e \<Rightarrow> 'l deq \<Rightarrow> 'l deq" where
  "deq_push_r L e p = p\<lparr>chain := cds_add L e (chain p)\<rparr>"

section \<open>The tandem\<close>

record 'l pdeq =
  ldeq :: "'l deq"
  rdeq :: "'l deq"

definition init_pdeq :: "('e, 'l) cds_ops \<Rightarrow> 'l pdeq" where
  "init_pdeq L = \<lparr>ldeq = init_deq L, rdeq = init_deq L\<rparr>"

definition pdeq_pop_l :: "('e, 'l) cds_ops \<Rightarrow> 'l pdeq \<Rightarrow> 'e option \<times> 'l pdeq" where
  "pdeq_pop_l L d =
     (let (e, p) = deq_pop_l L (ldeq d); d = d\<lparr>ldeq := p\<rparr> in
      if e \<noteq> None then (e, d)
      else let (e, p) = deq_pop_l L (rdeq d) in
        (e, d\<lparr>ldeq := (ldeq d)\<lparr>chain := cds_splice L (chain p) (chain (ldeq d))\<rparr>,
              rdeq := p\<lparr>chain := cds_init L\<rparr>\<rparr>))"

text \<open>The part of \<open>pdeq_pop_r\<close> that runs with both locks held.\<close>

definition pop_r_both :: "('e, 'l) cds_ops \<Rightarrow> 'l pdeq \<Rightarrow> 'e option \<times> 'l pdeq" where
  "pop_r_both L d =
     (let (e, p) = deq_pop_r L (rdeq d); d = d\<lparr>rdeq := p\<rparr> in
      if e \<noteq> None then (e, d)
      else let (e, q) = deq_pop_r L (ldeq d) in
        (e, d\<lparr>rdeq := (rdeq d)\<lparr>chain := cds_splice L (chain q) (chain (rdeq d))\<rparr>,
              ldeq := q\<lparr>chain := cds_init L\<rparr>\<rparr>))"

definition pdeq_pop_r :: "('e, 'l) cds_ops \<Rightarrow> 'l pdeq \<Rightarrow> 'e option \<times> 'l pdeq" where
  "pdeq_pop_r L d =
     (let (e, p) = deq_pop_r L (rdeq d); d = d\<lparr>rdeq := p\<rparr> in
      if e \<noteq> None then (e, d) else pop_r_both L d)"

definition pdeq_push_l :: "('e, 'l) cds_ops \<Rightarrow> 'e \<Rightarrow> 'l pdeq \<Rightarrow> 'l pdeq" where
  "pdeq_push_l L e d = d\<lparr>ldeq := deq_push_l L e (ldeq d)\<rparr>"

definition pdeq_push_r :: "('e, 'l) cds_ops \<Rightarrow> 'e \<Rightarrow> 'l pdeq \<Rightarrow> 'l pdeq" where
  "pdeq_push_r L e d = d\<lparr>rdeq := deq_push_r L e (rdeq d)\<rparr>"

section \<open>Any number of threads\<close>

text \<open>
  A thread is idle, holds \<open>llock\<close> in \<open>pdeq_pop_l\<close> after finding \<open>ldeq\<close> empty (\<open>LNeedR\<close>), holds no
  lock in \<open>pdeq_pop_r\<close> after finding \<open>rdeq\<close> empty (\<open>RRetry\<close>), or then holds \<open>llock\<close> and waits for
  \<open>rlock\<close> (\<open>RHasL\<close>). Every section under \<open>rlock\<close> is one step, so no state holds it.
\<close>

datatype tpc = Idle | LNeedR | RRetry | RHasL

record ('e, 'l) tsys =
  pd :: "'l pdeq"
  llock :: "nat option"
  pcs :: "nat \<Rightarrow> tpc"
  hist :: "('e deque_op \<times> 'e option) list"
  content :: "'e list"

definition tsys_init :: "('e, 'l) cds_ops \<Rightarrow> ('e, 'l) tsys \<Rightarrow> bool" where
  "tsys_init L s \<longleftrightarrow>
     s = \<lparr>pd = init_pdeq L, llock = None, pcs = (\<lambda>_. Idle), hist = [], content = []\<rparr>"

definition log_op :: "'e deque_op \<Rightarrow> 'e option \<Rightarrow> ('e, 'l) tsys \<Rightarrow> ('e, 'l) tsys" where
  "log_op a r s = s\<lparr>hist := hist s @ [(a, r)], content := snd (aop a (content s))\<rparr>"

inductive tstep :: "('e, 'l) cds_ops \<Rightarrow> ('e, 'l) tsys \<Rightarrow> ('e, 'l) tsys \<Rightarrow> bool"
  for L :: "('e, 'l) cds_ops" where
  pushl: "pcs s t = Idle \<Longrightarrow> llock s = None \<Longrightarrow> e \<notin> set (content s) \<Longrightarrow>
     tstep L s (log_op (PushL e) None (s\<lparr>pd := pdeq_push_l L e (pd s)\<rparr>))"
| pushr: "pcs s t = Idle \<Longrightarrow> e \<notin> set (content s) \<Longrightarrow>
     tstep L s (log_op (PushR e) None (s\<lparr>pd := pdeq_push_r L e (pd s)\<rparr>))"
| popl_own: "pcs s t = Idle \<Longrightarrow> llock s = None \<Longrightarrow> deq_pop_l L (ldeq (pd s)) = (e, p) \<Longrightarrow>
     e \<noteq> None \<Longrightarrow> tstep L s (log_op PopL e (s\<lparr>pd := (pd s)\<lparr>ldeq := p\<rparr>\<rparr>))"
| popl_miss: "pcs s t = Idle \<Longrightarrow> llock s = None \<Longrightarrow> deq_pop_l L (ldeq (pd s)) = (None, p) \<Longrightarrow>
     tstep L s (s\<lparr>pd := (pd s)\<lparr>ldeq := p\<rparr>, llock := Some t, pcs := (pcs s)(t := LNeedR)\<rparr>)"
| popl_other: "pcs s t = LNeedR \<Longrightarrow> deq_pop_l L (rdeq (pd s)) = (e, p) \<Longrightarrow>
     tstep L s (log_op PopL e (s\<lparr>
       pd := (pd s)\<lparr>ldeq := (ldeq (pd s))\<lparr>chain := cds_splice L (chain p) (chain (ldeq (pd s)))\<rparr>,
                    rdeq := p\<lparr>chain := cds_init L\<rparr>\<rparr>,
       llock := None, pcs := (pcs s)(t := Idle)\<rparr>))"
| popr_own: "pcs s t = Idle \<Longrightarrow> deq_pop_r L (rdeq (pd s)) = (e, p) \<Longrightarrow> e \<noteq> None \<Longrightarrow>
     tstep L s (log_op PopR e (s\<lparr>pd := (pd s)\<lparr>rdeq := p\<rparr>\<rparr>))"
| popr_miss: "pcs s t = Idle \<Longrightarrow> deq_pop_r L (rdeq (pd s)) = (None, p) \<Longrightarrow>
     tstep L s (s\<lparr>pd := (pd s)\<lparr>rdeq := p\<rparr>, pcs := (pcs s)(t := RRetry)\<rparr>)"
| popr_llock: "pcs s t = RRetry \<Longrightarrow> llock s = None \<Longrightarrow>
     tstep L s (s\<lparr>llock := Some t, pcs := (pcs s)(t := RHasL)\<rparr>)"
| popr_both: "pcs s t = RHasL \<Longrightarrow> pop_r_both L (pd s) = (e, d) \<Longrightarrow>
     tstep L s (log_op PopR e (s\<lparr>pd := d, llock := None, pcs := (pcs s)(t := Idle)\<rparr>))"

section \<open>The tandem implements a deque\<close>

definition tandem :: "('e, 'l) cds_ops \<Rightarrow> 'l pdeq \<Rightarrow> 'e list" where
  "tandem L d = rev (cds_entries L (chain (rdeq d)) @ cds_entries L (chain (ldeq d)))"

definition locktdeq_repr :: "('e, 'l) cds_ops \<Rightarrow> 'l pdeq \<Rightarrow> 'e list \<Rightarrow> bool" where
  "locktdeq_repr L d xs \<longleftrightarrow> tandem L d = xs \<and> distinct xs"

lemmas locktdeq_defs = locktdeq_repr_def tandem_def Let_def

context cds_lib begin

lemma deq_pop_l_cases:
  assumes "deq_pop_l L p = (e, q)" and "distinct (cds_entries L (chain p))"
  shows "(e = None \<and> q = p \<and> cds_entries L (chain p) = []) \<or>
    (\<exists>x xs. e = Some x \<and> cds_entries L (chain p) = xs @ [x] \<and> cds_entries L (chain q) = xs)"
proof (cases "cds_entries L (chain p)" rule: rev_cases)
  case Nil
  with assms show ?thesis by (auto simp: deq_pop_l_def)
next
  case (snoc xs x)
  with assms del_snoc [OF snoc] show ?thesis
    by (auto simp: deq_pop_l_def prev_snoc Let_def)
qed

lemma deq_pop_r_cases:
  assumes "deq_pop_r L p = (e, q)" and "distinct (cds_entries L (chain p))"
  shows "(e = None \<and> q = p \<and> cds_entries L (chain p) = []) \<or>
    (\<exists>x xs. e = Some x \<and> cds_entries L (chain p) = x # xs \<and> cds_entries L (chain q) = xs)"
proof (cases "cds_entries L (chain p)")
  case Nil
  with assms show ?thesis by (auto simp: deq_pop_r_def)
next
  case (Cons x xs)
  with assms del_cons [OF Cons] show ?thesis
    by (auto simp: deq_pop_r_def next_cons Let_def)
qed

lemma tandemD:
  assumes "locktdeq_repr L d xs"
  shows "distinct (cds_entries L (chain (ldeq d)))" and "distinct (cds_entries L (chain (rdeq d)))"
    and "xs = rev (cds_entries L (chain (ldeq d))) @ rev (cds_entries L (chain (rdeq d)))"
    and "set (cds_entries L (chain (rdeq d))) \<inter> set (cds_entries L (chain (ldeq d))) = {}"
  using assms by (auto simp: locktdeq_defs)

lemma tinit_ok: "locktdeq_repr L (init_pdeq L) []"
  by (simp add: locktdeq_defs init_pdeq_def init_deq_def)

lemma tpush_ok:
  assumes "locktdeq_repr L d xs" and "e \<notin> set xs"
  shows "locktdeq_repr L (pdeq_push_l L e d) (e # xs)"
    and "locktdeq_repr L (pdeq_push_r L e d) (xs @ [e])"
  using assms
  by (auto simp: locktdeq_defs pdeq_push_l_def pdeq_push_r_def deq_push_l_def deq_push_r_def)

lemma popl_own_ok:
  assumes "locktdeq_repr L d xs" and "deq_pop_l L (ldeq d) = (Some x, p)"
  shows "fst (aop PopL xs) = Some x" and "locktdeq_repr L (d\<lparr>ldeq := p\<rparr>) (snd (aop PopL xs))"
  using deq_pop_l_cases [OF assms(2)] tandemD [OF assms(1)] by (auto simp: locktdeq_defs)

lemma popl_other_ok:
  assumes "locktdeq_repr L d xs" and "cds_entries L (chain (ldeq d)) = []"
    and "deq_pop_l L (rdeq d) = (e, p)"
  shows "e = fst (aop PopL xs)"
    and "locktdeq_repr L (d\<lparr>ldeq := (ldeq d)\<lparr>chain := cds_splice L (chain p) (chain (ldeq d))\<rparr>,
           rdeq := p\<lparr>chain := cds_init L\<rparr>\<rparr>) (snd (aop PopL xs))"
  using deq_pop_l_cases [OF assms(3)] tandemD [OF assms(1)] assms(2) by (auto simp: locktdeq_defs)

lemma popr_own_ok:
  assumes "locktdeq_repr L d xs" and "deq_pop_r L (rdeq d) = (Some x, p)"
  shows "fst (aop PopR xs) = Some x" and "locktdeq_repr L (d\<lparr>rdeq := p\<rparr>) (snd (aop PopR xs))"
  using deq_pop_r_cases [OF assms(2)] tandemD [OF assms(1)]
  by (auto simp: locktdeq_defs butlast_append)

lemma pop_l_miss:
  assumes "locktdeq_repr L d xs" and "deq_pop_l L (ldeq d) = (None, p)"
  shows "p = ldeq d" and "cds_entries L (chain (ldeq d)) = []"
  using deq_pop_l_cases [OF assms(2)] tandemD [OF assms(1)] by auto

lemma pop_r_miss:
  assumes "locktdeq_repr L d xs" and "deq_pop_r L (rdeq d) = (None, p)"
  shows "p = rdeq d" and "cds_entries L (chain (rdeq d)) = []"
  using deq_pop_r_cases [OF assms(2)] tandemD [OF assms(1)] by auto

lemma popr_both_ok:
  assumes "locktdeq_repr L d xs" and "pop_r_both L d = (e, d')"
  shows "e = fst (aop PopR xs) \<and> locktdeq_repr L d' (snd (aop PopR xs))"
proof -
  obtain e1 p where p: "deq_pop_r L (rdeq d) = (e1, p)" by (cases "deq_pop_r L (rdeq d)")
  show ?thesis
  proof (cases e1)
    case None
    obtain e2 q where q: "deq_pop_r L (ldeq d) = (e2, q)" by (cases "deq_pop_r L (ldeq d)")
    note m = pop_r_miss [OF assms(1) p [unfolded None]]
    show ?thesis
      using assms(2) deq_pop_r_cases [OF q] tandemD [OF assms(1)] m p q
      by (auto simp: pop_r_both_def None locktdeq_defs)
  next
    case (Some x)
    with assms(2) p popr_own_ok [OF assms(1) p [unfolded Some]] show ?thesis
      by (auto simp: pop_r_both_def Let_def simp del: aop.simps)
  qed
qed

lemma tpop_l_ok:
  assumes "locktdeq_repr L d xs"
  shows "fst (pdeq_pop_l L d) = fst (aop PopL xs) \<and>
         locktdeq_repr L (snd (pdeq_pop_l L d)) (snd (aop PopL xs))"
proof -
  obtain e1 p where p: "deq_pop_l L (ldeq d) = (e1, p)" by (cases "deq_pop_l L (ldeq d)")
  obtain e2 q where q: "deq_pop_l L (rdeq d) = (e2, q)" by (cases "deq_pop_l L (rdeq d)")
  show ?thesis
  proof (cases e1)
    case None
    note m = pop_l_miss [OF assms p [unfolded None]]
    from popl_other_ok [OF assms m(2) q] p q show ?thesis
      by (simp add: pdeq_pop_l_def None m(1) Let_def del: aop.simps)
  next
    case (Some x)
    with popl_own_ok [OF assms p [unfolded Some]] p show ?thesis
      by (simp add: pdeq_pop_l_def Let_def del: aop.simps)
  qed
qed

lemma tpop_r_ok:
  assumes "locktdeq_repr L d xs"
  shows "fst (pdeq_pop_r L d) = fst (aop PopR xs) \<and>
         locktdeq_repr L (snd (pdeq_pop_r L d)) (snd (aop PopR xs))"
proof -
  obtain e1 p where p: "deq_pop_r L (rdeq d) = (e1, p)" by (cases "deq_pop_r L (rdeq d)")
  show ?thesis
  proof (cases e1)
    case None
    note m = pop_r_miss [OF assms p [unfolded None]]
    obtain e d' where b: "pop_r_both L d = (e, d')" by (cases "pop_r_both L d")
    from popr_both_ok [OF assms b] p b show ?thesis
      by (simp add: pdeq_pop_r_def None m(1) Let_def del: aop.simps)
  next
    case (Some x)
    with popr_own_ok [OF assms p [unfolded Some]] p show ?thesis
      by (simp add: pdeq_pop_r_def Let_def del: aop.simps)
  qed
qed

end

sublocale cds_lib \<subseteq> locktdeq: deque_impl "init_pdeq L" "pdeq_push_l L" "pdeq_push_r L"
    "pdeq_pop_l L" "pdeq_pop_r L" "locktdeq_repr L"
  by unfold_locales (use tpop_l_ok tpop_r_ok in \<open>force simp: tinit_ok tpush_ok\<close>)+

context cds_lib begin

lemmas locktdeq_run = locktdeq.run_init

end

section \<open>The threads are linearizable\<close>

definition tinv :: "('e, 'l) cds_ops \<Rightarrow> ('e, 'l) tsys \<Rightarrow> bool" where
  "tinv L s \<longleftrightarrow>
     locktdeq_repr L (pd s) (content s) \<and>
     (\<forall>t. pcs s t = LNeedR \<or> pcs s t = RHasL \<longleftrightarrow> llock s = Some t) \<and>
     (\<forall>t. pcs s t = LNeedR \<longrightarrow> cds_entries L (chain (ldeq (pd s))) = [])"

lemma tlog_op_simps [simp]:
  "pd (log_op a r s) = pd s" "llock (log_op a r s) = llock s" "pcs (log_op a r s) = pcs s"
  "content (log_op a r s) = snd (aop a (content s))" "hist (log_op a r s) = hist s @ [(a, r)]"
  by (simp_all add: log_op_def)

context cds_lib begin

lemma tinv_init: "tsys_init L s \<Longrightarrow> tinv L s"
  using tinit_ok by (simp add: tsys_init_def tinv_def)

lemma pop_r_ldeq:
  assumes "tinv L s" and "pcs s t = LNeedR"
  shows "llock s = Some t" and "cds_entries L (chain (ldeq (pd s))) = []"
  using assms by (auto simp: tinv_def)

lemma only_holder:
  "tinv L s \<Longrightarrow> llock s = None \<Longrightarrow> pcs s t \<noteq> LNeedR \<and> pcs s t \<noteq> RHasL"
  by (auto simp: tinv_def)

lemma idle_not_holder: "tinv L s \<Longrightarrow> pcs s t = Idle \<Longrightarrow> llock s \<noteq> Some t"
  unfolding tinv_def by (metis tpc.distinct(1,5))

lemma holder_unique:
  assumes "tinv L s" and "pcs s t = LNeedR \<or> pcs s t = RHasL" and "u \<noteq> t"
  shows "pcs s u \<noteq> LNeedR \<and> pcs s u \<noteq> RHasL"
  using assms unfolding tinv_def by (metis option.inject)

lemma tinv_step: "tstep L s u \<Longrightarrow> tinv L s \<Longrightarrow> tinv L u"
proof (induction rule: tstep.induct)
  case (pushl s t e)
  then show ?case using only_holder [OF pushl(4,2)] tpush_ok(1)
    by (simp add: tinv_def)
next
  case (pushr s t e)
  then have "locktdeq_repr L (pdeq_push_r L e (pd s)) (content s @ [e])"
    using tpush_ok(2) by (simp add: tinv_def)
  with pushr show ?case by (simp add: tinv_def pdeq_push_r_def)
next
  case (popl_own s t e p)
  then have "locktdeq_repr L (pd s\<lparr>ldeq := p\<rparr>) (snd (aop PopL (content s)))"
    using popl_own_ok(2) by (auto simp: tinv_def simp del: aop.simps)
  with popl_own show ?case using only_holder [OF popl_own(5,2)]
    by (simp add: tinv_def del: aop.simps)
next
  case (popl_miss s t p)
  then have "locktdeq_repr L (pd s) (content s)" by (simp add: tinv_def)
  from popl_miss pop_l_miss [OF this popl_miss(3)] show ?case
    using only_holder [OF popl_miss(4,2)] by (auto simp: tinv_def)
next
  case (popl_other s t e p)
  let ?d = "(pd s)\<lparr>ldeq := (ldeq (pd s))\<lparr>chain := cds_splice L (chain p) (chain (ldeq (pd s)))\<rparr>,
      rdeq := p\<lparr>chain := cds_init L\<rparr>\<rparr>"
  from popl_other have "locktdeq_repr L ?d (snd (aop PopL (content s)))"
    using popl_other_ok(2) pop_r_ldeq(2) [OF popl_other(3,1)]
    by (simp add: tinv_def del: aop.simps)
  moreover have "pcs s u \<noteq> LNeedR \<and> pcs s u \<noteq> RHasL" if "u \<noteq> t" for u
    using holder_unique [OF popl_other(3) _ that] popl_other(1) by simp
  ultimately show ?case using popl_other(3) by (auto simp: tinv_def simp del: aop.simps)
next
  case (popr_own s t e p)
  then have "locktdeq_repr L (pd s\<lparr>rdeq := p\<rparr>) (snd (aop PopR (content s)))"
    using popr_own_ok(2) by (auto simp: tinv_def simp del: aop.simps)
  with popr_own show ?case by (simp add: tinv_def del: aop.simps)
next
  case (popr_miss s t p)
  then have "locktdeq_repr L (pd s) (content s)" by (simp add: tinv_def)
  from popr_miss pop_r_miss [OF this popr_miss(2)] idle_not_holder [OF popr_miss(3,1)]
  show ?case by (auto simp: tinv_def)
next
  case (popr_llock s t)
  then show ?case using only_holder [OF popr_llock(3,2)] by (auto simp: tinv_def)
next
  case (popr_both s t e d)
  then have "locktdeq_repr L d (snd (aop PopR (content s)))"
    using popr_both_ok unfolding tinv_def by blast
  moreover have "pcs s u \<noteq> LNeedR \<and> pcs s u \<noteq> RHasL" if "u \<noteq> t" for u
    using holder_unique [OF popr_both(3) _ that] popr_both(1) by simp
  ultimately show ?case using popr_both(3) by (auto simp: tinv_def simp del: aop.simps)
qed

lemma tlinear_step:
  "tstep L s u \<Longrightarrow> tinv L s \<Longrightarrow> linear_hist (hist s) (content s) \<Longrightarrow> linear_hist (hist u) (content u)"
proof (induction rule: tstep.induct)
  case (pushl s t e)
  then show ?case using linear_hist_snoc [of _ _ None "PushL e"] by simp
next
  case (pushr s t e)
  then show ?case using linear_hist_snoc [of _ _ None "PushR e"] by simp
next
  case (popl_own s t e p)
  then show ?case using popl_own_ok(1)
    by (auto simp: tinv_def linear_hist_snoc simp del: aop.simps)
next
  case (popl_other s t e p)
  then show ?case using popl_other_ok(1) pop_r_ldeq [OF popl_other(3,1)]
    by (auto simp: tinv_def linear_hist_snoc simp del: aop.simps)
next
  case (popr_own s t e p)
  then show ?case using popr_own_ok(1)
    by (auto simp: tinv_def linear_hist_snoc simp del: aop.simps)
next
  case (popr_both s t e d)
  then have "e = fst (aop PopR (content s))" using popr_both_ok unfolding tinv_def by blast
  with popr_both show ?case by (simp add: linear_hist_snoc del: aop.simps)
qed simp_all

lemma treach_linear:
  "reachable (tsys_init L) (tstep L) s \<Longrightarrow> tinv L s \<and> linear_hist (hist s) (content s)"
proof (induction rule: reachable.induct)
  case (start s)
  then show ?case using tinv_init by (simp add: tsys_init_def)
next
  case (next_state s t)
  then show ?case using tinv_step tlinear_step by blast
qed

end

section \<open>Properties\<close>

text \<open>C1: any number of threads running pushes and pops on the tandem deque, interleaved at the
  granularity of its lock-protected sections, obtain the results of one abstract deque in the
  order of those sections; in particular an element pushed while a right pop has dropped its
  lock is not lost and never reordered.\<close>

theorem locktdeq_linearizable:
  assumes "cds_lib L" and "reachable (tsys_init L) (tstep L) s"
  shows "arun (map fst (hist s)) [] = (map snd (hist s), content s) \<and> tandem L (pd s) = content s"
  using cds_lib.treach_linear [OF assms] by (simp add: linear_hist_def tinv_def locktdeq_repr_def)

theorem locktdeq_linearizable_witness:
  "\<exists>s. reachable (tsys_init list_cds) (tstep list_cds) s \<and> pcs s 3 = RRetry \<and>
     hist s = [(PushL (7::int), None)] \<and>
     arun (map fst (hist s)) [] = (map snd (hist s), content s) \<and>
     tandem list_cds (pd s) = content s"
proof -
  let ?r = "reachable (tsys_init list_cds) (tstep list_cds)"
  define s0 :: "(int, int list) tsys"
    where "s0 = \<lparr>pd = init_pdeq list_cds, llock = None, pcs = (\<lambda>_. Idle), hist = [], content = []\<rparr>"
  have "?r s0" by (rule reachable.start) (simp add: s0_def tsys_init_def)
  then have "?r (s0\<lparr>pd := (pd s0)\<lparr>rdeq := rdeq (pd s0)\<rparr>, pcs := (pcs s0)(3 := RRetry)\<rparr>)" (is "reachable _ _ ?s1")
    by (rule reachable.next_state)
      (rule tstep.popr_miss, simp_all add: s0_def init_pdeq_def init_deq_def deq_pop_r_def)
  then have r: "?r (log_op (PushL 7) None (?s1\<lparr>pd := pdeq_push_l list_cds 7 (pd ?s1)\<rparr>))"
    by (rule reachable.next_state) (rule tstep.pushl [of _ 0], simp_all add: s0_def)
  show ?thesis
    by (rule exI, rule conjI, rule r)
      (use locktdeq_linearizable [OF list_cds.cds_lib_axioms r] in \<open>simp add: s0_def\<close>)
qed

end
