(* ===== verification/Smpalloc.thy ===== *)
theory Smpalloc
  imports Prelude "HOL-Library.Multiset"
begin

text \<open>
  SMPdesign/smpalloc.c: a memory allocator with a global pool of \<open>GLOBAL_POOL_SIZE\<close> blocks and
  a pool of at most \<open>2 * TARGET_POOL_SIZE\<close> blocks per thread. A pool is an array used as a
  stack: \<open>cur\<close> is the index of its top, \<open>-1\<close> when it is empty, and the slots above it are NULL.
  A block is named by its index in \<open>memblocks\<close>. An access outside an array is the result
  \<open>None\<close> of the model. Thread pools are private and the global pool is accessed under its
  mutex only, so an operation is one transition.
\<close>

definition TARGET_POOL_SIZE :: nat where
  "TARGET_POOL_SIZE = 3"

definition GLOBAL_POOL_SIZE :: nat where
  "GLOBAL_POOL_SIZE = 40"

type_synonym memblock = nat

record mempool =
  cur :: int
  pool :: "memblock option list"

record smem =
  globalmem :: mempool
  perthreadmem :: "nat \<Rightarrow> mempool"

section \<open>Array accesses\<close>

definition pool_get :: "mempool \<Rightarrow> int \<Rightarrow> memblock option option" where
  "pool_get p i = (if 0 \<le> i \<and> nat i < length (pool p) then Some (pool p ! nat i) else None)"

definition pool_set :: "int \<Rightarrow> memblock option \<Rightarrow> mempool \<Rightarrow> mempool option" where
  "pool_set i v p =
     (if 0 \<le> i \<and> nat i < length (pool p) then Some (p\<lparr>pool := (pool p)[nat i := v]\<rparr>) else None)"

section \<open>Allocation\<close>

text \<open>The refill loop: \<open>n\<close> is what is left of \<open>TARGET_POOL_SIZE - i\<close>; returns the final \<open>i\<close>.\<close>

fun refill :: "nat \<Rightarrow> int \<Rightarrow> mempool \<Rightarrow> mempool \<Rightarrow> (int \<times> mempool \<times> mempool) option" where
  "refill 0 i g p = Some (i, g, p)"
| "refill (Suc n) i g p =
     (if cur g \<ge> 0 then
        (case pool_get g (cur g) of None \<Rightarrow> None | Some b \<Rightarrow>
        (case pool_set i b p of None \<Rightarrow> None | Some p' \<Rightarrow>
        (case pool_set (cur g) None g of None \<Rightarrow> None | Some g' \<Rightarrow>
           refill n (i + 1) (g'\<lparr>cur := cur g - 1\<rparr>) p')))
      else Some (i, g, p))"

definition memblock_alloc :: "nat \<Rightarrow> smem \<Rightarrow> (memblock option \<times> smem) option" where
  "memblock_alloc t s =
     (let g = globalmem s; p = perthreadmem s t in
      case (if cur p < 0
            then (case refill TARGET_POOL_SIZE 0 g p of
                    None \<Rightarrow> None
                  | Some (i, g, p) \<Rightarrow> Some (g, p\<lparr>cur := i - 1\<rparr>))
            else Some (g, p)) of
        None \<Rightarrow> None
      | Some (g, p) \<Rightarrow>
          if cur p \<ge> 0 then
            (case pool_get p (cur p) of None \<Rightarrow> None | Some b \<Rightarrow>
            (case pool_set (cur p) None p of None \<Rightarrow> None | Some p' \<Rightarrow>
               Some (b, s\<lparr>globalmem := g,
                 perthreadmem := (perthreadmem s)(t := p'\<lparr>cur := cur p - 1\<rparr>)\<rparr>)))
          else Some (None, s\<lparr>globalmem := g, perthreadmem := (perthreadmem s)(t := p)\<rparr>))"

section \<open>Freeing\<close>

text \<open>The spill loop, from index \<open>i\<close> down to \<open>TARGET_POOL_SIZE\<close>; returns the final \<open>i\<close>.\<close>

function spill :: "int \<Rightarrow> mempool \<Rightarrow> mempool \<Rightarrow> (int \<times> mempool \<times> mempool) option" where
  "spill i g p =
     (if i \<ge> int TARGET_POOL_SIZE then
        (case pool_get p i of None \<Rightarrow> None | Some b \<Rightarrow>
        (case pool_set (cur g + 1) b (g\<lparr>cur := cur g + 1\<rparr>) of None \<Rightarrow> None | Some g' \<Rightarrow>
        (case pool_set i None p of None \<Rightarrow> None | Some p' \<Rightarrow> spill (i - 1) g' p')))
      else Some (i, g, p))"
  by pat_completeness auto
termination
  by (relation "measure (\<lambda>(i, g, p). nat (i + 1))") (auto simp: TARGET_POOL_SIZE_def)

declare spill.simps [simp del]

definition memblock_free :: "nat \<Rightarrow> memblock \<Rightarrow> smem \<Rightarrow> smem option" where
  "memblock_free t b s =
     (let g = globalmem s; p = perthreadmem s t in
      case (if cur p \<ge> 2 * int TARGET_POOL_SIZE - 1
            then (case spill (cur p) g p of
                    None \<Rightarrow> None
                  | Some (i, g, p) \<Rightarrow> Some (g, p\<lparr>cur := i\<rparr>))
            else Some (g, p)) of
        None \<Rightarrow> None
      | Some (g, p) \<Rightarrow>
          (case pool_set (cur p + 1) (Some b) (p\<lparr>cur := cur p + 1\<rparr>) of None \<Rightarrow> None | Some p' \<Rightarrow>
             Some (s\<lparr>globalmem := g, perthreadmem := (perthreadmem s)(t := p')\<rparr>)))"

section \<open>Initialisation\<close>

fun free_all :: "nat \<Rightarrow> memblock list \<Rightarrow> smem \<Rightarrow> smem option" where
  "free_all t [] s = Some s"
| "free_all t (b # bs) s =
     (case memblock_free t b s of None \<Rightarrow> None | Some s' \<Rightarrow> free_all t bs s')"

definition empty_pool :: "nat \<Rightarrow> mempool" where
  "empty_pool n = \<lparr>cur = -1, pool = replicate n None\<rparr>"

definition initpools :: "nat \<Rightarrow> smem option" where
  "initpools t = free_all t [0..<GLOBAL_POOL_SIZE]
     \<lparr>globalmem = empty_pool GLOBAL_POOL_SIZE,
      perthreadmem = (\<lambda>i. empty_pool (2 * TARGET_POOL_SIZE))\<rparr>"

definition memblocks_available :: "smem \<Rightarrow> int" where
  "memblocks_available s =
     fold (\<lambda>i sum. sum + (cur (perthreadmem s i) + 1)) [0..<NR_THREADS] (cur (globalmem s) + 1)"

section \<open>A pool as a stack\<close>

definition holds :: "nat \<Rightarrow> mempool \<Rightarrow> memblock list \<Rightarrow> bool" where
  "holds n p bs \<longleftrightarrow> cur p = int (length bs) - 1 \<and> length bs \<le> n \<and>
     pool p = map Some bs @ replicate (n - length bs) None"

lemma holds_empty [simp]: "holds n (empty_pool n) []"
  by (simp add: holds_def empty_pool_def)

lemma holds_cur_ge [simp]: "holds n p bs \<Longrightarrow> cur p < 0 \<longleftrightarrow> bs = []"
  by (auto simp: holds_def)

lemma holds_unique: "holds n p bs \<Longrightarrow> holds n p cs \<Longrightarrow> bs = cs"
  by (auto simp: holds_def map_eq_append_conv append_eq_append_conv)

lemma pool_get_top: "holds n p (bs @ [b]) \<Longrightarrow> pool_get p (cur p) = Some (Some b)"
  by (auto simp: holds_def pool_get_def nth_append)

lemma pool_pop:
  assumes "holds n p (bs @ [b])"
  shows "\<exists>q. pool_set (cur p) None p = Some q \<and> holds n (q\<lparr>cur := cur p - 1\<rparr>) bs"
  using assms
  by (auto simp: holds_def pool_set_def list_update_append Suc_diff_Suc replicate_append_same
      simp flip: replicate_Suc)

lemma pool_push:
  assumes "holds n p bs" and "length bs < n"
  shows "\<exists>q. pool_set (cur p + 1) (Some b) (p\<lparr>cur := cur p + 1\<rparr>) = Some q \<and> holds n q (bs @ [b])"
proof -
  from assms(2) obtain k where "n - length bs = Suc k" by (metis Suc_diff_Suc)
  with assms show ?thesis by (auto simp: holds_def pool_set_def list_update_append)
qed

section \<open>The loops move blocks between stacks\<close>

definition arr :: "nat \<Rightarrow> mempool \<Rightarrow> memblock list \<Rightarrow> bool" where
  "arr n p bs \<longleftrightarrow> length bs \<le> n \<and> pool p = map Some bs @ replicate (n - length bs) None"

lemma holds_arr: "holds n p bs \<longleftrightarrow> arr n p bs \<and> cur p = int (length bs) - 1"
  by (auto simp: holds_def arr_def)

lemma arr_cur [simp]: "arr n (p\<lparr>cur := c\<rparr>) bs \<longleftrightarrow> arr n p bs"
  by (simp add: arr_def)

lemma arr_push:
  assumes "arr n p bs" and "length bs < n"
  shows "\<exists>q. pool_set (int (length bs)) (Some b) p = Some q \<and> arr n q (bs @ [b])"
proof -
  from assms(2) obtain k where "n - length bs = Suc k" by (metis Suc_diff_Suc)
  with assms show ?thesis by (auto simp: arr_def pool_set_def list_update_append)
qed

lemma arr_pop:
  assumes "arr n p (bs @ [b])"
  shows "pool_get p (int (length bs)) = Some (Some b)"
    and "\<exists>q. pool_set (int (length bs)) None p = Some q \<and> arr n q bs"
  using assms
  by (auto simp: arr_def pool_set_def pool_get_def nth_append list_update_append Suc_diff_Suc
      simp flip: replicate_Suc)

lemma refill_ok:
  assumes "holds N g gl" and "arr n p bs" and "length bs + k \<le> n"
  shows "\<exists>g' p'. refill k (int (length bs)) g p
      = Some (int (length (bs @ take k (rev gl))), g', p') \<and>
    holds N g' (take (length gl - k) gl) \<and> arr n p' (bs @ take k (rev gl))"
  using assms
proof (induction k arbitrary: g p bs gl)
  case 0
  then show ?case by simp
next
  case (Suc k)
  show ?case
  proof (cases gl rule: rev_cases)
    case Nil
    with Suc.prems show ?thesis by (auto simp: holds_def)
  next
    case (snoc gs b)
    note h = Suc.prems(1) [unfolded snoc]
    from pool_pop [OF h] obtain g' where g': "pool_set (cur g) None g = Some g'"
      "holds N (g'\<lparr>cur := cur g - 1\<rparr>) gs" by blast
    from arr_push [OF Suc.prems(2), of b] Suc.prems(3) obtain p' where
      p': "pool_set (int (length bs)) (Some b) p = Some p'" "arr n p' (bs @ [b])" by auto
    have c: "cur g \<ge> 0" using h by (simp add: holds_def)
    from Suc.IH [OF g'(2) p'(2)] Suc.prems(3) c g'(1) p'(1) pool_get_top [OF h]
    show ?thesis by (auto simp: snoc add.commute)
  qed
qed

lemma spill_ok:
  assumes "holds N g gl" and "arr n p (ts @ us)" and "length ts = TARGET_POOL_SIZE"
    and "length gl + length us \<le> N"
  shows "\<exists>g' p'. spill (int (length (ts @ us)) - 1) g p = Some (int (length ts) - 1, g', p') \<and>
    holds N g' (gl @ rev us) \<and> arr n p' ts"
  using assms
proof (induction us arbitrary: g p gl rule: rev_induct)
  case Nil
  then show ?case by (simp add: spill.simps)
next
  case (snoc u us)
  from arr_pop [of n p "ts @ us" u] snoc.prems(2) obtain p' where
    p': "pool_get p (int (length (ts @ us))) = Some (Some u)"
    "pool_set (int (length (ts @ us))) None p = Some p'" "arr n p' (ts @ us)" by auto
  from pool_push [OF snoc.prems(1), of u] snoc.prems(4) obtain g' where
    g': "pool_set (cur g + 1) (Some u) (g\<lparr>cur := cur g + 1\<rparr>) = Some g'" "holds N g' (gl @ [u])"
    by auto
  from snoc.IH [OF g'(2) p'(3) snoc.prems(3)] snoc.prems(3,4) p'(1,2) g'(1)
  show ?case by (subst spill.simps) auto
qed

section \<open>Whole operations on stacks\<close>

text \<open>
  \<open>stacks s gl tp\<close>: the global pool holds the stack \<open>gl\<close> and the pool of thread \<open>t\<close> the stack
  \<open>tp t\<close>.
\<close>

definition stacks :: "smem \<Rightarrow> memblock list \<Rightarrow> (nat \<Rightarrow> memblock list) \<Rightarrow> bool" where
  "stacks s gl tp \<longleftrightarrow> holds GLOBAL_POOL_SIZE (globalmem s) gl \<and>
     (\<forall>t. holds (2 * TARGET_POOL_SIZE) (perthreadmem s t) (tp t))"

lemma alloc_fast:
  assumes "stacks s gl tp" and "tp t = bs @ [b]"
  shows "\<exists>s'. memblock_alloc t s = Some (Some b, s') \<and> stacks s' gl (tp(t := bs))"
proof -
  have h: "holds (2 * TARGET_POOL_SIZE) (perthreadmem s t) (bs @ [b])"
    using assms by (metis stacks_def)
  then have "0 \<le> cur (perthreadmem s t)" by (simp add: holds_def)
  with h pool_pop [OF h] pool_get_top [OF h] assms(1) show ?thesis
    by (auto simp: memblock_alloc_def stacks_def Let_def)
qed

lemma alloc_refill:
  assumes "stacks s gl tp" and "tp t = []" and "gl \<noteq> []"
  defines "us \<equiv> take TARGET_POOL_SIZE (rev gl)"
  shows "\<exists>s'. memblock_alloc t s = Some (Some (last us), s') \<and>
     stacks s' (take (length gl - TARGET_POOL_SIZE) gl) (tp(t := butlast us))"
proof -
  have h: "holds (2 * TARGET_POOL_SIZE) (perthreadmem s t) []"
    using assms(1,2) by (metis stacks_def)
  have g: "holds GLOBAL_POOL_SIZE (globalmem s) gl" using assms(1) by (simp add: stacks_def)
  have "us \<noteq> []" using assms(3) by (simp add: us_def TARGET_POOL_SIZE_def)
  then have us: "us = butlast us @ [last us]" by simp
  from refill_ok [OF g, of "2 * TARGET_POOL_SIZE" "perthreadmem s t" "[]" TARGET_POOL_SIZE] h
  obtain g' p' where r: "refill TARGET_POOL_SIZE 0 (globalmem s) (perthreadmem s t)
      = Some (int (length us), g', p')"
    "holds GLOBAL_POOL_SIZE g' (take (length gl - TARGET_POOL_SIZE) gl)"
    "arr (2 * TARGET_POOL_SIZE) p' us"
    by (auto simp: us_def holds_arr)
  then have p: "holds (2 * TARGET_POOL_SIZE) (p'\<lparr>cur := int (length us) - 1\<rparr>) (butlast us @ [last us])"
    using us by (simp add: holds_arr)
  have "cur (perthreadmem s t) < 0" using h by simp
  moreover have "int (length us) - 1 \<ge> 0" using \<open>us \<noteq> []\<close> by (simp add: Suc_le_eq)
  ultimately show ?thesis using r(1,2) pool_pop [OF p] pool_get_top [OF p] assms(1)
    by (auto simp: memblock_alloc_def stacks_def Let_def)
qed

lemma alloc_empty:
  assumes "stacks s [] tp" and "tp t = []"
  shows "\<exists>s'. memblock_alloc t s = Some (None, s') \<and> stacks s' [] tp"
proof -
  have h: "holds (2 * TARGET_POOL_SIZE) (perthreadmem s t) []"
    using assms by (metis stacks_def)
  have g: "holds GLOBAL_POOL_SIZE (globalmem s) []" using assms(1) by (simp add: stacks_def)
  from refill_ok [OF g, of "2 * TARGET_POOL_SIZE" "perthreadmem s t" "[]" TARGET_POOL_SIZE] h
  obtain g' p' where r: "refill TARGET_POOL_SIZE 0 (globalmem s) (perthreadmem s t) = Some (0, g', p')"
    "holds GLOBAL_POOL_SIZE g' []" "arr (2 * TARGET_POOL_SIZE) p' []" by (auto simp: holds_arr)
  then show ?thesis using h assms
    by (auto simp: memblock_alloc_def stacks_def Let_def holds_arr)
qed

lemma free_fast:
  assumes "stacks s gl tp" and "length (tp t) < 2 * TARGET_POOL_SIZE"
  shows "\<exists>s'. memblock_free t b s = Some s' \<and> stacks s' gl (tp(t := tp t @ [b]))"
proof -
  have h: "holds (2 * TARGET_POOL_SIZE) (perthreadmem s t) (tp t)"
    using assms by (simp add: stacks_def)
  have "cur (perthreadmem s t) = int (length (tp t)) - 1" using h by (simp add: holds_def)
  with h pool_push [OF h assms(2), of b] assms show ?thesis
    by (auto simp: memblock_free_def stacks_def Let_def)
qed

lemma free_spill:
  assumes "stacks s gl tp" and "length (tp t) = 2 * TARGET_POOL_SIZE"
    and "length gl + TARGET_POOL_SIZE \<le> GLOBAL_POOL_SIZE"
  shows "\<exists>s'. memblock_free t b s = Some s' \<and>
     stacks s' (gl @ rev (drop TARGET_POOL_SIZE (tp t)))
       (tp(t := take TARGET_POOL_SIZE (tp t) @ [b]))"
proof -
  let ?ts = "take TARGET_POOL_SIZE (tp t)" and ?us = "drop TARGET_POOL_SIZE (tp t)"
  have h: "holds (2 * TARGET_POOL_SIZE) (perthreadmem s t) (?ts @ ?us)"
    using assms by (simp add: stacks_def)
  have g: "holds GLOBAL_POOL_SIZE (globalmem s) gl" using assms(1) by (simp add: stacks_def)
  have c: "cur (perthreadmem s t) = int (length (?ts @ ?us)) - 1"
    using h unfolding holds_arr by blast
  from spill_ok [OF g, of "2 * TARGET_POOL_SIZE" "perthreadmem s t" ?ts ?us] h assms(2,3)
  obtain g' p' where r: "spill (cur (perthreadmem s t)) (globalmem s) (perthreadmem s t)
      = Some (int (length ?ts) - 1, g', p')"
    "holds GLOBAL_POOL_SIZE g' (gl @ rev ?us)" "arr (2 * TARGET_POOL_SIZE) p' ?ts"
    unfolding c by (auto simp: holds_arr)
  then have p: "holds (2 * TARGET_POOL_SIZE) (p'\<lparr>cur := int (length ?ts) - 1\<rparr>) ?ts"
    by (simp add: holds_arr)
  have "length ?ts < 2 * TARGET_POOL_SIZE" using assms(2) by (simp add: TARGET_POOL_SIZE_def)
  from pool_push [OF p this, of b] r(1,2) c assms show ?thesis
    by (auto simp: memblock_free_def stacks_def Let_def)
qed

section \<open>Conservation of blocks\<close>

lemma alloc_ok:
  assumes "stacks s gl tp"
  shows "\<exists>r s' gl' bs. memblock_alloc t s = Some (r, s') \<and> stacks s' gl' (tp(t := bs)) \<and>
     mset gl' + mset bs + mset (case r of None \<Rightarrow> [] | Some b \<Rightarrow> [b]) = mset gl + mset (tp t) \<and>
     (r = None \<longrightarrow> gl = [] \<and> tp t = [])"
proof (cases "tp t" rule: rev_cases)
  case (snoc bs b)
  from alloc_fast [OF assms snoc] snoc show ?thesis by (fastforce simp: add.commute)
next
  case Nil
  show ?thesis
  proof (cases "gl = []")
    case True
    from alloc_empty [OF assms [unfolded True] Nil] Nil True show ?thesis
      by (metis add.right_neutral fun_upd_triv mset.simps(1) option.simps(4))
  next
    case False
    let ?us = "take TARGET_POOL_SIZE (rev gl)"
    have "?us \<noteq> []" using False by (simp add: TARGET_POOL_SIZE_def)
    then have bl: "mset (butlast ?us) + mset [last ?us] = mset ?us"
      by (metis append_butlast_last_id mset_append)
    have tk: "mset ?us = mset (drop (length gl - TARGET_POOL_SIZE) gl)"
      by (simp add: take_rev)
    have td: "mset (take (length gl - TARGET_POOL_SIZE) gl)
        + mset (drop (length gl - TARGET_POOL_SIZE) gl) = mset gl"
      by (simp flip: mset_append)
    have "mset (take (length gl - TARGET_POOL_SIZE) gl) + mset (butlast ?us)
        + mset [last ?us] = mset gl" by (simp only: add.assoc bl tk td)
    with alloc_refill [OF assms Nil False] Nil show ?thesis by fastforce
  qed
qed

lemma free_ok:
  assumes "stacks s gl tp" and "length gl + length (tp t) < GLOBAL_POOL_SIZE"
  shows "\<exists>s' gl' bs. memblock_free t b s = Some s' \<and> stacks s' gl' (tp(t := bs)) \<and>
     mset gl' + mset bs = mset gl + mset (tp t) + {#b#}"
proof (cases "length (tp t) < 2 * TARGET_POOL_SIZE")
  case True
  from free_fast [OF assms(1) True] show ?thesis by fastforce
next
  case False
  have "length (tp t) \<le> 2 * TARGET_POOL_SIZE" using assms(1) by (auto simp: stacks_def holds_def)
  with False have l: "length (tp t) = 2 * TARGET_POOL_SIZE" by simp
  with assms(2) have "length gl + TARGET_POOL_SIZE \<le> GLOBAL_POOL_SIZE" by simp
  from free_spill [OF assms(1) l this, of b] obtain s' where
    s': "memblock_free t b s = Some s'" "stacks s' (gl @ rev (drop TARGET_POOL_SIZE (tp t)))
       (tp(t := take TARGET_POOL_SIZE (tp t) @ [b]))" by blast
  have "mset (take TARGET_POOL_SIZE (tp t)) + mset (drop TARGET_POOL_SIZE (tp t)) = mset (tp t)"
    by (simp flip: mset_append)
  then have "mset (gl @ rev (drop TARGET_POOL_SIZE (tp t)))
      + mset (take TARGET_POOL_SIZE (tp t) @ [b]) = mset gl + mset (tp t) + {#b#}"
    by (simp add: ac_simps)
  with s' show ?thesis by blast
qed

text \<open>All the blocks in the pools of the threads below \<open>NR_THREADS\<close> and in the global pool.\<close>

definition pooled :: "memblock list \<Rightarrow> (nat \<Rightarrow> memblock list) \<Rightarrow> memblock multiset" where
  "pooled gl tp = mset gl + (\<Sum>t<NR_THREADS. mset (tp t))"

lemma pooled_upd:
  assumes "t < NR_THREADS" and "mset gl' + mset bs + X = mset gl + mset (tp t) + Y"
  shows "pooled gl' (tp(t := bs)) + X = pooled gl tp + Y"
proof -
  have "(\<Sum>i<NR_THREADS. mset ((tp(t := bs)) i)) = mset bs + (\<Sum>i\<in>{..<NR_THREADS} - {t}. mset (tp i))"
    using assms(1) by (simp add: sum.remove [of _ t])
  moreover have "(\<Sum>i<NR_THREADS. mset (tp i)) = mset (tp t) + (\<Sum>i\<in>{..<NR_THREADS} - {t}. mset (tp i))"
    using assms(1) by (simp add: sum.remove [of _ t])
  ultimately show ?thesis using assms(2) by (simp add: pooled_def ac_simps)
qed

lemma pooled_size:
  assumes "t < NR_THREADS"
  shows "length gl + length (tp t) \<le> size (pooled gl tp)"
proof -
  have "mset (tp t) \<subseteq># (\<Sum>i<NR_THREADS. mset (tp i))"
    using assms by (simp add: sum.remove [of _ t])
  then have "length (tp t) \<le> size (\<Sum>i<NR_THREADS. mset (tp i))"
    using size_mset_mono by fastforce
  then show ?thesis by (simp add: pooled_def)
qed

section \<open>Threads allocating and freeing\<close>

text \<open>
  \<open>out\<close> lists the blocks the clients hold: a client frees a block it was given.
\<close>

record asys =
  mem :: smem
  out :: "memblock list"

definition asys_init :: "asys \<Rightarrow> bool" where
  "asys_init s \<longleftrightarrow> (\<exists>t < NR_THREADS. initpools t = Some (mem s)) \<and> out s = []"

inductive mstep :: "asys \<Rightarrow> asys \<Rightarrow> bool" where
  alloc: "t < NR_THREADS \<Longrightarrow> memblock_alloc t (mem s) = Some (Some b, m) \<Longrightarrow>
     mstep s (s\<lparr>mem := m, out := b # out s\<rparr>)"
| alloc_fail: "t < NR_THREADS \<Longrightarrow> memblock_alloc t (mem s) = Some (None, m) \<Longrightarrow>
     mstep s (s\<lparr>mem := m\<rparr>)"
| free: "t < NR_THREADS \<Longrightarrow> b \<in> set (out s) \<Longrightarrow> memblock_free t b (mem s) = Some m \<Longrightarrow>
     mstep s (s\<lparr>mem := m, out := remove1 b (out s)\<rparr>)"

definition conserved :: "asys \<Rightarrow> memblock list \<Rightarrow> (nat \<Rightarrow> memblock list) \<Rightarrow> bool" where
  "conserved s gl tp \<longleftrightarrow> stacks (mem s) gl tp \<and>
     pooled gl tp + mset (out s) = mset [0..<GLOBAL_POOL_SIZE]"

lemma conservedI:
  "stacks (mem s) gl tp \<Longrightarrow> pooled gl tp + mset (out s) = mset [0..<GLOBAL_POOL_SIZE] \<Longrightarrow>
   \<exists>gl tp. conserved s gl tp"
  by (auto simp: conserved_def)

lemma free_all_ok:
  assumes "stacks s gl tp" and "t < NR_THREADS"
    and "size (pooled gl tp) + length bs \<le> GLOBAL_POOL_SIZE"
  shows "\<exists>s' gl' tp'. free_all t bs s = Some s' \<and> stacks s' gl' tp' \<and>
     pooled gl' tp' = pooled gl tp + mset bs"
  using assms
proof (induction bs arbitrary: s gl tp)
  case Nil
  then show ?case by auto
next
  case (Cons b bs)
  have "length gl + length (tp t) < GLOBAL_POOL_SIZE"
    using pooled_size [OF Cons.prems(2), of gl tp] Cons.prems(3) by simp
  from free_ok [OF Cons.prems(1) this, of b] obtain s1 gl1 bs1 where
    1: "memblock_free t b s = Some s1" "stacks s1 gl1 (tp(t := bs1))"
      "mset gl1 + mset bs1 = mset gl + mset (tp t) + {#b#}" by blast
  have p: "pooled gl1 (tp(t := bs1)) = pooled gl tp + {#b#}"
    using pooled_upd [OF Cons.prems(2), of gl1 bs1 "{#}" gl tp "{#b#}"] 1(3) by simp
  have "size (pooled gl1 (tp(t := bs1))) + length bs \<le> GLOBAL_POOL_SIZE"
    using Cons.prems(3) by (simp add: p)
  from Cons.IH [OF 1(2) Cons.prems(2) this] obtain s' gl' tp' where
    "free_all t bs s1 = Some s'" "stacks s' gl' tp'"
    "pooled gl' tp' = pooled gl1 (tp(t := bs1)) + mset bs" by blast
  with p 1(1) show ?case by (intro exI [of _ s'] exI [of _ gl'] exI [of _ tp']) simp
qed

lemma initpools_ok:
  assumes "t < NR_THREADS"
  shows "\<exists>m gl tp. initpools t = Some m \<and> stacks m gl tp \<and> pooled gl tp = mset [0..<GLOBAL_POOL_SIZE]"
proof -
  let ?s0 = "\<lparr>globalmem = empty_pool GLOBAL_POOL_SIZE,
      perthreadmem = (\<lambda>i. empty_pool (2 * TARGET_POOL_SIZE))\<rparr>"
  have "stacks ?s0 [] (\<lambda>_. [])" by (simp add: stacks_def)
  moreover have "pooled [] (\<lambda>_. []) = {#}" by (simp add: pooled_def)
  ultimately show ?thesis
    using free_all_ok [of ?s0 "[]" "\<lambda>_. []" t "[0..<GLOBAL_POOL_SIZE]"] assms
    by (auto simp: initpools_def)
qed

lemma conserved_init: "asys_init s \<Longrightarrow> \<exists>gl tp. conserved s gl tp"
  using initpools_ok by (fastforce simp: asys_init_def conserved_def)

lemma asys_start: "t < NR_THREADS \<Longrightarrow> \<exists>m. reachable asys_init mstep \<lparr>mem = m, out = []\<rparr>"
  using initpools_ok [of t] reachable.start [of asys_init "\<lparr>mem = _, out = []\<rparr>" mstep]
  by (fastforce simp: asys_init_def)

lemma conserved_step: "mstep s u \<Longrightarrow> \<exists>gl tp. conserved s gl tp \<Longrightarrow> \<exists>gl tp. conserved u gl tp"
proof (induction rule: mstep.induct)
  case (alloc t s b m)
  then obtain gl tp where c: "stacks (mem s) gl tp"
    "pooled gl tp + mset (out s) = mset [0..<GLOBAL_POOL_SIZE]" by (auto simp: conserved_def)
  from alloc_ok [OF c(1), of t] alloc(2) obtain gl' bs where
    1: "stacks m gl' (tp(t := bs))" "mset gl' + mset bs + {#b#} = mset gl + mset (tp t)" by auto
  have "pooled gl tp = pooled gl' (tp(t := bs)) + {#b#}"
    using pooled_upd [OF alloc(1), of gl' bs "{#b#}" gl tp "{#}"] 1(2) by simp
  with 1(1) c(2) show ?case by (intro conservedI [of _ gl' "tp(t := bs)"]) simp_all
next
  case (alloc_fail t s m)
  then obtain gl tp where c: "stacks (mem s) gl tp"
    "pooled gl tp + mset (out s) = mset [0..<GLOBAL_POOL_SIZE]" by (auto simp: conserved_def)
  from alloc_ok [OF c(1), of t] alloc_fail(2) obtain gl' bs where
    1: "stacks m gl' (tp(t := bs))" "mset gl' + mset bs = mset gl + mset (tp t)" by auto
  have "pooled gl' (tp(t := bs)) = pooled gl tp"
    using pooled_upd [OF alloc_fail(1), of gl' bs "{#}" gl tp "{#}"] 1(2) by simp
  with 1(1) c(2) show ?case by (intro conservedI [of _ gl' "tp(t := bs)"]) simp_all
next
  case (free t b s m)
  then obtain gl tp where c: "stacks (mem s) gl tp"
    "pooled gl tp + mset (out s) = mset [0..<GLOBAL_POOL_SIZE]" by (auto simp: conserved_def)
  have sz: "size (pooled gl tp) + length (out s) = GLOBAL_POOL_SIZE"
    using arg_cong [OF c(2), of size] by simp
  have o: "out s \<noteq> []" using free(2) by auto
  have "length gl + length (tp t) < GLOBAL_POOL_SIZE"
    using pooled_size [OF free(1), of gl tp] sz o by (cases "out s") auto
  from free_ok [OF c(1) this, of b] free(3) obtain gl' bs where
    1: "stacks m gl' (tp(t := bs))" "mset gl' + mset bs = mset gl + mset (tp t) + {#b#}" by auto
  have "pooled gl' (tp(t := bs)) = pooled gl tp + {#b#}"
    using pooled_upd [OF free(1), of gl' bs "{#}" gl tp "{#b#}"] 1(2) by simp
  moreover have "{#b#} + mset (remove1 b (out s)) = mset (out s)" using free(2) by simp
  ultimately have "pooled gl' (tp(t := bs)) + mset (remove1 b (out s)) = mset [0..<GLOBAL_POOL_SIZE]"
    using c(2) by (simp only: add.assoc)
  with 1(1) show ?case by (intro conservedI [of _ gl' "tp(t := bs)"]) simp_all
qed

lemma reachable_conserved: "reachable asys_init mstep s \<Longrightarrow> \<exists>gl tp. conserved s gl tp"
  by (rule reachable_invariant [of asys_init mstep s]) (use conserved_init conserved_step in blast)+

section \<open>Properties\<close>

lemma conserved_facts:
  assumes "conserved s gl tp"
  shows "stacks (mem s) gl tp" and "distinct (out s)" and "set (out s) \<subseteq> {..<GLOBAL_POOL_SIZE}"
    and "size (pooled gl tp) + length (out s) = GLOBAL_POOL_SIZE"
proof -
  from assms have c: "pooled gl tp + mset (out s) = mset [0..<GLOBAL_POOL_SIZE]"
    by (simp add: conserved_def)
  obtain ys where "mset ys = pooled gl tp" using ex_mset by blast
  with c have m: "mset (ys @ out s) = mset [0..<GLOBAL_POOL_SIZE]" by simp
  from mset_eq_imp_distinct_iff [OF m] show "distinct (out s)" by simp
  from mset_eq_setD [OF m] show "set (out s) \<subseteq> {..<GLOBAL_POOL_SIZE}" by auto
  from arg_cong [OF c, of size]
  show "size (pooled gl tp) + length (out s) = GLOBAL_POOL_SIZE" by simp
  from assms show "stacks (mem s) gl tp" by (simp add: conserved_def)
qed

lemma available_fold:
  "stacks s gl tp \<Longrightarrow> fold (\<lambda>i sum. sum + (cur (perthreadmem s i) + 1)) ts k
     = k + (\<Sum>i\<leftarrow>ts. int (length (tp i)))"
  by (induction ts arbitrary: k) (auto simp: stacks_def holds_def)

text \<open>C14: whatever allocations and frees the threads make (each freeing only blocks it was
  given), the allocator never reads or writes outside a pool array, the blocks handed out are
  distinct blocks of \<open>memblocks\<close>, and an allocation never returns a block somebody still
  holds.\<close>

theorem smpalloc_safe:
  assumes "reachable asys_init mstep s" and "t < NR_THREADS"
  shows "distinct (out s) \<and> set (out s) \<subseteq> {..<GLOBAL_POOL_SIZE} \<and>
    (\<exists>r m. memblock_alloc t (mem s) = Some (r, m) \<and> (\<forall>b. r = Some b \<longrightarrow> b \<notin> set (out s))) \<and>
    (\<forall>b \<in> set (out s). \<exists>m. memblock_free t b (mem s) = Some m)"
proof -
  from reachable_conserved [OF assms(1)] obtain gl tp where c: "conserved s gl tp" by blast
  note f = conserved_facts [OF c]
  from alloc_ok [OF f(1), of t] obtain r m where a: "memblock_alloc t (mem s) = Some (r, m)" by blast
  have "b \<notin> set (out s)" if "r = Some b" for b
  proof -
    from a that assms(2) have "mstep s (s\<lparr>mem := m, out := b # out s\<rparr>)" by (auto intro: mstep.alloc)
    with assms(1) have "reachable asys_init mstep (s\<lparr>mem := m, out := b # out s\<rparr>)"
      by (rule reachable.next_state)
    from reachable_conserved [OF this] obtain gl' tp'
      where "conserved (s\<lparr>mem := m, out := b # out s\<rparr>) gl' tp'" by blast
    from conserved_facts(2) [OF this] show ?thesis by simp
  qed
  moreover have "\<exists>m. memblock_free t b (mem s) = Some m" if "b \<in> set (out s)" for b
  proof -
    have "length gl + length (tp t) < GLOBAL_POOL_SIZE"
      using pooled_size [OF assms(2), of gl tp] f(4) that by (cases "out s") auto
    from free_ok [OF f(1) this] show ?thesis by blast
  qed
  ultimately show ?thesis using f(2,3) a by blast
qed

theorem smpalloc_safe_witness:
  "\<exists>s. reachable asys_init mstep s \<and> out s = [] \<and> (\<exists>r m. memblock_alloc 5 (mem s) = Some (r, m))"
proof -
  obtain m where r: "reachable asys_init mstep \<lparr>mem = m, out = []\<rparr>"
    using asys_start [of 0] by (auto simp: NR_THREADS_def)
  from smpalloc_safe [OF r, of 5] r show ?thesis by (auto simp: NR_THREADS_def)
qed

text \<open>No block is ever lost: the count that \<open>memblocks_available\<close> computes over all the
  pools is the number of blocks that no client holds.\<close>

theorem smpalloc_conserves:
  assumes "reachable asys_init mstep s"
  shows "memblocks_available (mem s) = int GLOBAL_POOL_SIZE - int (length (out s))"
proof -
  from reachable_conserved [OF assms] obtain gl tp where c: "conserved s gl tp" by blast
  note f = conserved_facts [OF c]
  have "memblocks_available (mem s) = int (length gl) + (\<Sum>i\<leftarrow>[0..<NR_THREADS]. int (length (tp i)))"
    using f(1) available_fold [OF f(1)] by (simp add: memblocks_available_def stacks_def holds_def)
  also have "\<dots> = int (size (pooled gl tp))"
    by (simp add: pooled_def size_multiset_sum interv_sum_list_conv_sum_set_nat atLeast0LessThan)
  finally show ?thesis using f(4) by simp
qed

theorem smpalloc_conserves_witness:
  "\<exists>s. reachable asys_init mstep s \<and> out s = [] \<and> memblocks_available (mem s) = 40"
proof -
  obtain m where r: "reachable asys_init mstep \<lparr>mem = m, out = []\<rparr>"
    using asys_start [of 3] by (auto simp: NR_THREADS_def)
  from smpalloc_conserves [OF r] r show ?thesis by (auto simp: GLOBAL_POOL_SIZE_def)
qed

text \<open>C33: an allocation fails exactly when the pool of the calling thread and the global pool
  are both empty: blocks in the pools of other threads are not reached.\<close>

theorem smpalloc_fails_iff_empty:
  assumes "reachable asys_init mstep s"
  shows "\<exists>r m. memblock_alloc t (mem s) = Some (r, m) \<and>
    (r = None \<longleftrightarrow> cur (globalmem (mem s)) = -1 \<and> cur (perthreadmem (mem s) t) = -1)"
proof -
  from reachable_conserved [OF assms] obtain gl tp where "conserved s gl tp" by blast
  note f = conserved_facts(1) [OF this]
  from alloc_ok [OF f, of t] obtain r m gl' bs where a: "memblock_alloc t (mem s) = Some (r, m)"
    "mset gl' + mset bs + mset (case r of None \<Rightarrow> [] | Some b \<Rightarrow> [b]) = mset gl + mset (tp t)"
    "r = None \<longrightarrow> gl = [] \<and> tp t = []" by blast
  have "gl \<noteq> [] \<or> tp t \<noteq> []" if "r = Some b" for b using a(2) that by auto
  with a(3) have "r = None \<longleftrightarrow> gl = [] \<and> tp t = []" by (cases r) auto
  also have "gl = [] \<longleftrightarrow> cur (globalmem (mem s)) = -1" using f by (simp add: stacks_def holds_def)
  also have "tp t = [] \<longleftrightarrow> cur (perthreadmem (mem s) t) = -1" using f by (simp add: stacks_def holds_def)
  finally show ?thesis using a(1) by blast
qed

theorem smpalloc_fails_iff_empty_witness:
  "\<exists>s r m. reachable asys_init mstep s \<and> memblock_alloc 9 (mem s) = Some (r, m) \<and>
    (r = None \<longleftrightarrow> cur (globalmem (mem s)) = -1 \<and> cur (perthreadmem (mem s) 9) = -1)"
proof -
  obtain m where r: "reachable asys_init mstep \<lparr>mem = m, out = []\<rparr>"
    using asys_start [of 1] by (auto simp: NR_THREADS_def)
  from smpalloc_fails_iff_empty [OF r, of 9] r show ?thesis by blast
qed

end
