(* ===== verification/Limit_Spec.thy ===== *)
theory Limit_Spec
  imports Prelude
begin

text \<open>
  The contract of the simple limit counters of count/ (count_lim.c, count_lim_app.c,
  count_limd.c): per-thread counters that may each run up to a reserved maximum without
  locking, and a global remainder under \<open>gblcnt_mutex\<close>. The three files declare the same
  variables and differ in \<open>balance_count\<close>; the locale \<open>limit_counter\<close> states what they share,
  and its lemmas show that the count is exact and that the limit is never exceeded.

  A fast path touches only the variables of its thread and everything else runs under the
  mutex, so an operation is one transition.
\<close>

record lim_state =
  counter :: "nat \<Rightarrow> ulong"
  countermax :: "nat \<Rightarrow> ulong"
  globalcountmax :: ulong
  globalcount :: ulong
  globalreserve :: ulong
  counterp :: "nat \<Rightarrow> bool"   \<comment> \<open>whether \<open>counterp[t]\<close> is non-NULL\<close>

text \<open>The value of the counter: what has been added minus what has been subtracted.\<close>

definition count_value :: "lim_state \<Rightarrow> nat" where
  "count_value s = unat (globalcount s) + (\<Sum>t<NR_THREADS. unat (counter s t))"

text \<open>
  The invariant: every counter is within its thread's maximum, \<open>globalreserve\<close> is the sum of
  the maxima, the global count and the reserve fit under the limit, and a thread that is not
  registered holds nothing.
\<close>

definition linv :: "lim_state \<Rightarrow> bool" where
  "linv s \<longleftrightarrow>
     (\<forall>t. counter s t \<le> countermax s t) \<and>
     unat (globalreserve s) = (\<Sum>t<NR_THREADS. unat (countermax s t)) \<and>
     unat (globalcount s) + unat (globalreserve s) \<le> unat (globalcountmax s) \<and>
     (\<forall>t. \<not> counterp s t \<longrightarrow> countermax s t = 0)"

definition lim_init :: "ulong \<Rightarrow> lim_state" where
  "lim_init gmax = \<lparr>counter = (\<lambda>_. 0), countermax = (\<lambda>_. 0), globalcountmax = gmax,
     globalcount = 0, globalreserve = 0, counterp = (\<lambda>_. False)\<rparr>"

text \<open>What no operation of thread \<open>t\<close> changes.\<close>

definition lim_frame :: "nat \<Rightarrow> lim_state \<Rightarrow> lim_state \<Rightarrow> bool" where
  "lim_frame t s s' \<longleftrightarrow> globalcountmax s' = globalcountmax s \<and> counterp s' = counterp s \<and>
     (\<forall>u. u \<noteq> t \<longrightarrow> counter s' u = counter s u \<and> countermax s' u = countermax s u)"

section \<open>Sums over the threads\<close>

lemma sum_threads_upd:
  fixes f :: "nat \<Rightarrow> ulong"
  assumes "t < NR_THREADS"
  shows "(\<Sum>u<NR_THREADS. unat ((f(t := v)) u)) + unat (f t)
       = (\<Sum>u<NR_THREADS. unat (f u)) + unat v"
  using sum_fun_upd_finite [of "{..<NR_THREADS}" t "\<lambda>u. unat (f u)" "unat v"] assms
  by (simp add: fun_upd_def if_distrib [of unat])

lemma thread_le_sum:
  fixes f :: "nat \<Rightarrow> ulong"
  shows "t < NR_THREADS \<Longrightarrow> unat (f t) \<le> (\<Sum>u<NR_THREADS. unat (f u))"
  by (rule member_le_sum) auto

lemma linv_counters_le:
  assumes "linv s"
  shows "(\<Sum>t<NR_THREADS. unat (counter s t)) \<le> unat (globalreserve s)"
proof -
  have "(\<Sum>t<NR_THREADS. unat (counter s t)) \<le> (\<Sum>t<NR_THREADS. unat (countermax s t))"
    using assms by (intro sum_mono) (simp add: linv_def word_le_nat_alt)
  with assms show ?thesis by (simp add: linv_def)
qed

lemma linv_limit: "linv s \<Longrightarrow> count_value s \<le> unat (globalcountmax s)"
  using linv_counters_le [of s] by (simp add: linv_def count_value_def)

lemma linv_init: "linv (lim_init gmax)"
  by (simp add: linv_def lim_init_def)

text \<open>The two updates of a fast path.\<close>

lemma linv_fast_add:
  assumes "linv s" and "t < NR_THREADS" and "d \<le> countermax s t - counter s t"
  defines "s' \<equiv> s\<lparr>counter := (counter s)(t := counter s t + d)\<rparr>"
  shows "linv s'" and "count_value s' = count_value s + unat d"
proof -
  have le: "counter s t \<le> countermax s t" using assms(1) by (simp add: linv_def)
  have "unat d \<le> unat (countermax s t) - unat (counter s t)"
    using assms(3) unat_sub_le [OF le] by (simp add: word_le_nat_alt)
  then have le': "unat (counter s t) + unat d \<le> unat (countermax s t)"
    using le by (simp add: word_le_nat_alt)
  then have u: "unat (counter s t + d) = unat (counter s t) + unat d"
    using unat_ulong_less [of "countermax s t"] by (intro unat_add_no_overflow) simp
  with le' show "linv s'" using assms(1)
    by (auto simp: linv_def s'_def word_le_nat_alt)
  show "count_value s' = count_value s + unat d"
    using sum_threads_upd [OF assms(2), of "counter s" "counter s t + d"] u
    by (simp add: count_value_def s'_def)
qed

lemma linv_fast_sub:
  assumes "linv s" and "t < NR_THREADS" and "d \<le> counter s t"
  defines "s' \<equiv> s\<lparr>counter := (counter s)(t := counter s t - d)\<rparr>"
  shows "linv s'" and "count_value s' + unat d = count_value s"
proof -
  have u: "unat (counter s t - d) + unat d = unat (counter s t)"
    using unat_sub_le [OF assms(3)] assms(3) by (simp add: word_le_nat_alt)
  moreover have "unat (counter s t) \<le> unat (countermax s t)"
    using assms(1) by (simp add: linv_def word_le_nat_alt)
  ultimately have "counter s t - d \<le> countermax s t" by (simp add: word_le_nat_alt)
  then show "linv s'" using assms(1) by (auto simp: linv_def s'_def)
  show "count_value s' + unat d = count_value s"
    using sum_threads_upd [OF assms(2), of "counter s" "counter s t - d"] u
    by (simp add: count_value_def s'_def)
qed

text \<open>With the invariant, the room under the limit is computed without wrap-around.\<close>

lemma linv_room:
  assumes "linv s"
  shows "unat (globalcountmax s - globalcount s - globalreserve s)
       = unat (globalcountmax s) - unat (globalcount s) - unat (globalreserve s)"
proof -
  from assms have h: "unat (globalcount s) + unat (globalreserve s) \<le> unat (globalcountmax s)"
    by (simp add: linv_def)
  then have "globalcount s \<le> globalcountmax s" by (simp add: word_le_nat_alt)
  from unat_sub_le [OF this] h show ?thesis
    by (subst unat_sub_le) (simp_all add: word_le_nat_alt)
qed

lemma linv_add_global:
  assumes "linv s" and "d \<le> globalcountmax s - globalcount s - globalreserve s"
  shows "linv (s\<lparr>globalcount := globalcount s + d\<rparr>)"
    and "count_value (s\<lparr>globalcount := globalcount s + d\<rparr>) = count_value s + unat d"
proof -
  have "unat d \<le> unat (globalcountmax s) - unat (globalcount s) - unat (globalreserve s)"
    using assms(2) linv_room [OF assms(1)] by (simp add: word_le_nat_alt)
  moreover have "unat (globalcount s) + unat (globalreserve s) \<le> unat (globalcountmax s)"
    using assms(1) by (simp add: linv_def)
  ultimately have le: "unat (globalcount s) + unat d + unat (globalreserve s) \<le> unat (globalcountmax s)"
    by simp
  then have u: "unat (globalcount s + d) = unat (globalcount s) + unat d"
    using unat_ulong_less [of "globalcountmax s"] by (intro unat_add_no_overflow) simp
  from le u assms(1) show "linv (s\<lparr>globalcount := globalcount s + d\<rparr>)" by (simp add: linv_def)
  from u show "count_value (s\<lparr>globalcount := globalcount s + d\<rparr>) = count_value s + unat d"
    by (simp add: count_value_def)
qed

lemma linv_sub_global:
  assumes "linv s" and "d \<le> globalcount s"
  shows "linv (s\<lparr>globalcount := globalcount s - d\<rparr>)"
    and "count_value (s\<lparr>globalcount := globalcount s - d\<rparr>) + unat d = count_value s"
  using assms unat_sub_le [OF assms(2)]
  by (auto simp: linv_def count_value_def word_le_nat_alt)

text \<open>
  What \<open>balance_count\<close> does once it has chosen a maximum \<open>m\<close> within the room and a count \<open>c\<close>
  within the global count and the maximum.
\<close>

lemma linv_reserve:
  assumes "linv s" and t: "t < NR_THREADS" and z: "counter s t = 0" "countermax s t = 0"
    and "counterp s t"
    and m: "m \<le> globalcountmax s - globalcount s - globalreserve s"
    and c: "c \<le> m" "c \<le> globalcount s"
  defines "s' \<equiv> s\<lparr>countermax := (countermax s)(t := m), globalreserve := globalreserve s + m,
      counter := (counter s)(t := c), globalcount := globalcount s - c\<rparr>"
  shows "linv s'" and "count_value s' = count_value s" and "lim_frame t s s'"
proof -
  have i: "unat (globalcount s) + unat (globalreserve s) \<le> unat (globalcountmax s)"
    using assms(1) by (simp add: linv_def)
  have "unat m \<le> unat (globalcountmax s) - unat (globalcount s) - unat (globalreserve s)"
    using m linv_room [OF assms(1)] by (simp add: word_le_nat_alt)
  with i have le: "unat (globalcount s) + unat (globalreserve s) + unat m \<le> unat (globalcountmax s)"
    by simp
  then have um: "unat (globalreserve s + m) = unat (globalreserve s) + unat m"
    using unat_ulong_less [of "globalcountmax s"] by (intro unat_add_no_overflow) simp
  note uc = unat_sub_le [OF c(2)]
  have "(\<Sum>u<NR_THREADS. unat (countermax s' u)) = (\<Sum>u<NR_THREADS. unat (countermax s u)) + unat m"
    using sum_threads_upd [OF t, of "countermax s" m] z by (simp add: s'_def)
  with le um uc c assms(1) \<open>counterp s t\<close> show "linv s'"
    by (auto simp: linv_def s'_def word_le_nat_alt)
  show "count_value s' = count_value s"
    using sum_threads_upd [OF t, of "counter s" c] z uc c(2)
    by (simp add: count_value_def s'_def word_le_nat_alt)
  show "lim_frame t s s'" by (simp add: lim_frame_def s'_def)
qed

section \<open>The shared operations\<close>

inductive lim_step :: "(ulong \<Rightarrow> nat \<Rightarrow> ulong \<Rightarrow> lim_state \<Rightarrow> bool \<times> lim_state) \<Rightarrow>
    (ulong \<Rightarrow> nat \<Rightarrow> ulong \<Rightarrow> lim_state \<Rightarrow> bool \<times> lim_state) \<Rightarrow>
    (nat \<Rightarrow> lim_state \<Rightarrow> lim_state) \<Rightarrow> (nat \<Rightarrow> lim_state \<Rightarrow> lim_state) \<Rightarrow>
    lim_state \<Rightarrow> lim_state \<Rightarrow> bool"
  for add sub register unregister where
  add: "t < NR_THREADS \<Longrightarrow> counterp s t \<Longrightarrow> 0 < n \<Longrightarrow>
     lim_step add sub register unregister s (snd (add n t d s))"
| sub: "t < NR_THREADS \<Longrightarrow> counterp s t \<Longrightarrow> 0 < n \<Longrightarrow>
     lim_step add sub register unregister s (snd (sub n t d s))"
| register: "t < NR_THREADS \<Longrightarrow> lim_step add sub register unregister s (register t s)"
| unregister: "t < NR_THREADS \<Longrightarrow> counterp s t \<Longrightarrow>
     lim_step add sub register unregister s (unregister t s)"

lemma reachable_registered:
  assumes "t < NR_THREADS"
  shows "reachable (\<lambda>s. s = lim_init gmax) (lim_step add sub reg unreg) (reg t (lim_init gmax))"
proof (rule reachable.next_state)
  show "reachable (\<lambda>s. s = lim_init gmax) (lim_step add sub reg unreg) (lim_init gmax)"
    by (rule reachable.start) (rule refl)
  show "lim_step add sub reg unreg (lim_init gmax) (reg t (lim_init gmax))"
    using lim_step.register [OF assms, where register = reg] .
qed

locale limit_counter =
  fixes globalize :: "nat \<Rightarrow> lim_state \<Rightarrow> lim_state"
    and balance :: "ulong \<Rightarrow> nat \<Rightarrow> lim_state \<Rightarrow> lim_state"
    and add :: "ulong \<Rightarrow> nat \<Rightarrow> ulong \<Rightarrow> lim_state \<Rightarrow> bool \<times> lim_state"
    and sub :: "ulong \<Rightarrow> nat \<Rightarrow> ulong \<Rightarrow> lim_state \<Rightarrow> bool \<times> lim_state"
    and read :: "(nat \<Rightarrow> ulong) \<Rightarrow> lim_state \<Rightarrow> ulong"
    and register :: "nat \<Rightarrow> lim_state \<Rightarrow> lim_state"
    and unregister :: "nat \<Rightarrow> lim_state \<Rightarrow> lim_state"
  assumes globalize_law: "globalize t s =
      s\<lparr>globalcount := globalcount s + counter s t, counter := (counter s)(t := 0),
        globalreserve := globalreserve s - countermax s t, countermax := (countermax s)(t := 0)\<rparr>"
    and balance_law: "linv s \<Longrightarrow> t < NR_THREADS \<Longrightarrow> counter s t = 0 \<Longrightarrow> countermax s t = 0 \<Longrightarrow>
      counterp s t \<Longrightarrow> 0 < n \<Longrightarrow>
      linv (balance n t s) \<and> count_value (balance n t s) = count_value s \<and> lim_frame t s (balance n t s)"
    and add_law: "add n t d s =
      (if d \<le> countermax s t - counter s t
       then (True, s\<lparr>counter := (counter s)(t := counter s t + d)\<rparr>)
       else let g = globalize t s in
         if globalcountmax g - globalcount g - globalreserve g < d then (False, g)
         else (True, balance n t (g\<lparr>globalcount := globalcount g + d\<rparr>)))"
    and sub_law: "sub n t d s =
      (if d \<le> counter s t
       then (True, s\<lparr>counter := (counter s)(t := counter s t - d)\<rparr>)
       else let g = globalize t s in
         if globalcount g < d then (False, g)
         else (True, balance n t (g\<lparr>globalcount := globalcount g - d\<rparr>)))"
    and read_law: "read seen s = fold (\<lambda>t sum. if counterp s t then sum + seen t else sum)
      [0..<NR_THREADS] (globalcount s)"
    and register_law: "register t s = s\<lparr>counterp := (counterp s)(t := True)\<rparr>"
    and unregister_law: "unregister t s =
      (globalize t s)\<lparr>counterp := (counterp (globalize t s))(t := False)\<rparr>"
begin

lemma globalize_ok:
  assumes "linv s" and t: "t < NR_THREADS"
  shows "linv (globalize t s)" and "count_value (globalize t s) = count_value s"
    and "lim_frame t s (globalize t s)"
    and "counter (globalize t s) t = 0" and "countermax (globalize t s) t = 0"
    and "unat (globalcount (globalize t s)) = unat (globalcount s) + unat (counter s t)"
    and "unat (globalreserve (globalize t s)) = (\<Sum>u\<in>{..<NR_THREADS} - {t}. unat (countermax s u))"
proof -
  have i: "unat (globalcount s) + unat (globalreserve s) \<le> unat (globalcountmax s)"
    "unat (globalreserve s) = (\<Sum>u<NR_THREADS. unat (countermax s u))"
    "unat (counter s t) \<le> unat (countermax s t)"
    using assms(1) by (simp_all add: linv_def word_le_nat_alt)
  have m: "unat (countermax s t) \<le> unat (globalreserve s)"
    using thread_le_sum [OF t, of "countermax s"] i(2) by simp
  have c: "unat (globalcount s + counter s t) = unat (globalcount s) + unat (counter s t)"
    using i m unat_ulong_less [of "globalcountmax s"] by (intro unat_add_no_overflow) simp
  have r: "unat (globalreserve s - countermax s t) = unat (globalreserve s) - unat (countermax s t)"
    using m by (intro unat_sub_le) (simp add: word_le_nat_alt)
  have sm: "(\<Sum>u<NR_THREADS. unat (((countermax s)(t := 0)) u)) + unat (countermax s t)
      = (\<Sum>u<NR_THREADS. unat (countermax s u))"
    using sum_threads_upd [OF t, of "countermax s" 0] by simp
  have sc: "(\<Sum>u<NR_THREADS. unat (((counter s)(t := 0)) u)) + unat (counter s t)
      = (\<Sum>u<NR_THREADS. unat (counter s u))"
    using sum_threads_upd [OF t, of "counter s" 0] by simp
  show "linv (globalize t s)"
    using assms(1) c r sm i m by (auto simp: linv_def globalize_law)
  show "count_value (globalize t s) = count_value s"
    using c sc by (simp add: count_value_def globalize_law)
  show "lim_frame t s (globalize t s)" by (simp add: lim_frame_def globalize_law)
  show "counter (globalize t s) t = 0" and "countermax (globalize t s) t = 0"
    by (simp_all add: globalize_law)
  show "unat (globalcount (globalize t s)) = unat (globalcount s) + unat (counter s t)"
    using c by (simp add: globalize_law)
  show "unat (globalreserve (globalize t s)) = (\<Sum>u\<in>{..<NR_THREADS} - {t}. unat (countermax s u))"
    using r i(2) t by (simp add: globalize_law sum.remove [of _ t])
qed

lemma add_ok:
  assumes i: "linv s" and t: "t < NR_THREADS" and p: "counterp s t" and n: "0 < n"
    and a: "add n t d s = (ok, s')"
  shows "linv s'" and "lim_frame t s s'"
    and "ok \<Longrightarrow> count_value s' = count_value s + unat d"
    and "\<not> ok \<Longrightarrow> count_value s' = count_value s"
    and "\<not> ok \<Longrightarrow> unat (globalcountmax s) < count_value s + unat d +
      (\<Sum>u\<in>{..<NR_THREADS} - {t}. unat (countermax s u) - unat (counter s u))"
proof -
  let ?g = "globalize t s"
  note g = globalize_ok [OF i t]
  have gp: "counterp ?g t" using p g(3) by (simp add: lim_frame_def)
  consider (fast) "d \<le> countermax s t - counter s t"
      "ok" "s' = s\<lparr>counter := (counter s)(t := counter s t + d)\<rparr>"
    | (full) "\<not> d \<le> countermax s t - counter s t"
      "globalcountmax ?g - globalcount ?g - globalreserve ?g < d" "\<not> ok" "s' = ?g"
    | (slow) "\<not> globalcountmax ?g - globalcount ?g - globalreserve ?g < d"
      "ok" "s' = balance n t (?g\<lparr>globalcount := globalcount ?g + d\<rparr>)"
    using a by (auto simp: add_law Let_def split: if_splits)
  then have "linv s' \<and> lim_frame t s s' \<and>
    (ok \<longrightarrow> count_value s' = count_value s + unat d) \<and>
    (\<not> ok \<longrightarrow> count_value s' = count_value s \<and> unat (globalcountmax s) < count_value s + unat d +
      (\<Sum>u\<in>{..<NR_THREADS} - {t}. unat (countermax s u) - unat (counter s u)))"
  proof cases
    case fast
    with linv_fast_add [OF i t fast(1)] show ?thesis by (simp add: lim_frame_def)
  next
    case full
    have le: "unat (counter s u) \<le> unat (countermax s u)" for u
      using i by (simp add: linv_def word_le_nat_alt)
    have "unat (globalcountmax s) < unat (globalcount s) + unat (counter s t) +
        (\<Sum>u\<in>{..<NR_THREADS} - {t}. unat (countermax s u)) + unat d"
      using full(2) linv_room [OF g(1)] g(3,6,7) by (simp add: word_less_nat_alt lim_frame_def)
    also have "(\<Sum>u\<in>{..<NR_THREADS} - {t}. unat (countermax s u)) =
        (\<Sum>u\<in>{..<NR_THREADS} - {t}. unat (counter s u)) +
        (\<Sum>u\<in>{..<NR_THREADS} - {t}. unat (countermax s u) - unat (counter s u))"
      using le by (simp flip: sum.distrib)
    finally show ?thesis using g full t
      by (simp add: count_value_def [of s] sum.remove [of _ t])
  next
    case slow
    let ?h = "?g\<lparr>globalcount := globalcount ?g + d\<rparr>"
    have d: "d \<le> globalcountmax ?g - globalcount ?g - globalreserve ?g" using slow(1) by simp
    have "lim_frame t ?g ?h" by (simp add: lim_frame_def)
    with balance_law [OF linv_add_global(1) [OF g(1) d] t, of n] g gp n slow(2,3)
      linv_add_global(2) [OF g(1) d]
    show ?thesis by (simp add: lim_frame_def)
  qed
  then show "linv s'" and "lim_frame t s s'"
    and "ok \<Longrightarrow> count_value s' = count_value s + unat d"
    and "\<not> ok \<Longrightarrow> count_value s' = count_value s"
    and "\<not> ok \<Longrightarrow> unat (globalcountmax s) < count_value s + unat d +
      (\<Sum>u\<in>{..<NR_THREADS} - {t}. unat (countermax s u) - unat (counter s u))"
    by blast+
qed

lemma sub_ok:
  assumes i: "linv s" and t: "t < NR_THREADS" and p: "counterp s t" and n: "0 < n"
    and a: "sub n t d s = (ok, s')"
  shows "linv s'" and "lim_frame t s s'"
    and "ok \<Longrightarrow> count_value s' + unat d = count_value s"
    and "\<not> ok \<Longrightarrow> count_value s' = count_value s"
    and "ok \<longleftrightarrow> unat d \<le> unat (globalcount s) + unat (counter s t)"
proof -
  let ?g = "globalize t s"
  note g = globalize_ok [OF i t]
  have gp: "counterp ?g t" using p g(3) by (simp add: lim_frame_def)
  consider (fast) "d \<le> counter s t"
      "ok" "s' = s\<lparr>counter := (counter s)(t := counter s t - d)\<rparr>"
    | (low) "globalcount ?g < d" "\<not> ok" "s' = ?g"
    | (slow) "\<not> globalcount ?g < d" "ok" "s' = balance n t (?g\<lparr>globalcount := globalcount ?g - d\<rparr>)"
    using a by (auto simp: sub_law Let_def split: if_splits)
  then have "linv s' \<and> lim_frame t s s' \<and>
    (ok \<longrightarrow> count_value s' + unat d = count_value s) \<and>
    (\<not> ok \<longrightarrow> count_value s' = count_value s) \<and>
    (ok \<longleftrightarrow> unat d \<le> unat (globalcount s) + unat (counter s t))"
  proof cases
    case fast
    with linv_fast_sub [OF i t fast(1)] show ?thesis by (simp add: lim_frame_def word_le_nat_alt)
  next
    case low
    with g show ?thesis by (simp add: word_less_nat_alt)
  next
    case slow
    let ?h = "?g\<lparr>globalcount := globalcount ?g - d\<rparr>"
    have d: "d \<le> globalcount ?g" using slow(1) by simp
    have "lim_frame t ?g ?h" by (simp add: lim_frame_def)
    with balance_law [OF linv_sub_global(1) [OF g(1) d] t, of n] g gp n slow(2,3) d
      linv_sub_global(2) [OF g(1) d]
    show ?thesis by (simp add: lim_frame_def word_le_nat_alt)
  qed
  then show "linv s'" and "lim_frame t s s'"
    and "ok \<Longrightarrow> count_value s' + unat d = count_value s"
    and "\<not> ok \<Longrightarrow> count_value s' = count_value s"
    and "ok \<longleftrightarrow> unat d \<le> unat (globalcount s) + unat (counter s t)"
    by blast+
qed

lemma register_ok:
  assumes "linv s"
  shows "linv (register t s)" and "count_value (register t s) = count_value s"
  using assms by (simp_all add: register_law linv_def count_value_def)

lemma unregister_ok:
  assumes "linv s" and t: "t < NR_THREADS"
  shows "linv (unregister t s)" and "count_value (unregister t s) = count_value s"
  using globalize_ok [OF assms] by (simp_all add: unregister_law linv_def count_value_def)

lemma step_linv:
  assumes "lim_step add sub register unregister s s'" and "linv s"
  shows "linv s'"
  using assms
proof (cases rule: lim_step.cases)
  case (add t n d)
  with add_ok(1) [of s t n d] assms(2) show ?thesis by (cases "add n t d s") simp
next
  case (sub t n d)
  with sub_ok(1) [of s t n d] assms(2) show ?thesis by (cases "sub n t d s") simp
next
  case (register t)
  with register_ok assms(2) show ?thesis by simp
next
  case (unregister t)
  with unregister_ok assms(2) show ?thesis by simp
qed

lemma reachable_linv:
  "reachable (\<lambda>s. s = lim_init gmax) (lim_step add sub register unregister) s \<Longrightarrow> linv s"
  by (erule reachable_invariant) (auto simp: linv_init intro: step_linv)

lemma step_gmax:
  assumes "lim_step add sub register unregister s s'" and "linv s"
  shows "globalcountmax s' = globalcountmax s"
  using assms
proof (cases rule: lim_step.cases)
  case (add t n d)
  with add_ok(2) [of s t n d] assms(2) show ?thesis
    by (cases "add n t d s") (simp add: lim_frame_def)
next
  case (sub t n d)
  with sub_ok(2) [of s t n d] assms(2) show ?thesis
    by (cases "sub n t d s") (simp add: lim_frame_def)
next
  case (register t)
  then show ?thesis by (simp add: register_law)
next
  case (unregister t)
  then show ?thesis by (simp add: unregister_law globalize_law)
qed

lemma reachable_gmax:
  assumes "reachable (\<lambda>s. s = lim_init gmax) (lim_step add sub register unregister) s"
  shows "globalcountmax s = gmax"
  using assms
proof induction
  case (start s)
  then show ?case by (simp add: lim_init_def)
next
  case (next_state s t)
  with step_gmax reachable_linv show ?case by blast
qed

text \<open>
  A reader holds the mutex, so only fast paths run beside it: the values it sees are within
  the maxima, and no sum wraps.
\<close>

lemma read_sum:
  assumes "linv s" and "\<And>t. seen t \<le> countermax s t"
  shows "unat (read seen s) = unat (globalcount s) + (\<Sum>t<NR_THREADS. unat (seen t))"
proof -
  let ?f = "\<lambda>t sum. if counterp s t then sum + seen t else sum"
  have le: "unat (seen t) \<le> unat (countermax s t)" for t
    using assms(2) [of t] by (simp add: word_le_nat_alt)
  have i: "unat (globalcount s) + (\<Sum>t<NR_THREADS. unat (countermax s t)) < 2 ^ 64"
    using assms(1) unat_ulong_less [of "globalcountmax s"] by (simp add: linv_def)
  have "k \<le> NR_THREADS \<Longrightarrow>
    unat (fold ?f [0..<k] (globalcount s)) = unat (globalcount s) + (\<Sum>t<k. unat (seen t))" for k
  proof (induction k)
    case (Suc k)
    have "(\<Sum>t<Suc k. unat (seen t)) \<le> (\<Sum>t<NR_THREADS. unat (seen t))"
      using Suc.prems by (intro sum_mono2) auto
    also have "\<dots> \<le> (\<Sum>t<NR_THREADS. unat (countermax s t))"
      by (rule sum_mono) (rule le)
    finally have b: "unat (globalcount s) + (\<Sum>t<k. unat (seen t)) + unat (seen k) < 2 ^ 64"
      using i by simp
    show ?case
    proof (cases "counterp s k")
      case True
      with Suc b show ?thesis by (simp add: unat_add_no_overflow)
    next
      case False
      then have "unat (seen k) = 0" using le [of k] assms(1) by (simp add: linv_def)
      with False Suc show ?thesis by simp
    qed
  qed simp
  then show ?thesis by (simp add: read_law)
qed

lemma read_within:
  assumes "linv s" and "\<And>t. seen t \<le> countermax s t"
  shows "unat (read seen s) \<le> unat (globalcountmax s)"
proof -
  have "(\<Sum>t<NR_THREADS. unat (seen t)) \<le> (\<Sum>t<NR_THREADS. unat (countermax s t))"
    by (rule sum_mono) (use assms(2) in \<open>simp add: word_le_nat_alt\<close>)
  with read_sum [OF assms] assms(1) show ?thesis by (simp add: linv_def)
qed

lemma read_exact: "linv s \<Longrightarrow> unat (read (counter s) s) = count_value s"
  by (subst read_sum) (auto simp: linv_def count_value_def)

end

end
