(* ===== verification/Count_Lim.thy ===== *)
theory Count_Lim
  imports Limit_Spec
begin

text \<open>
  count/count_lim.c: the simple limit counter. \<open>balance_count\<close> gives the calling thread its
  share of the whole room under the limit. \<open>n\<close> is the result of \<open>num_online_threads\<close>.
\<close>


definition globalize_count :: "nat \<Rightarrow> lim_state \<Rightarrow> lim_state" where
  "globalize_count t s =
     s\<lparr>globalcount := globalcount s + counter s t, counter := (counter s)(t := 0),
       globalreserve := globalreserve s - countermax s t, countermax := (countermax s)(t := 0)\<rparr>"

definition balance_count :: "ulong \<Rightarrow> nat \<Rightarrow> lim_state \<Rightarrow> lim_state" where
  "balance_count n t s =
     (let m = (globalcountmax s - globalcount s - globalreserve s) div n;
          s = s\<lparr>countermax := (countermax s)(t := m), globalreserve := globalreserve s + m\<rparr>;
          c = (if m div 2 > globalcount s then globalcount s else m div 2)
      in s\<lparr>counter := (counter s)(t := c), globalcount := globalcount s - c\<rparr>)"

definition add_count :: "ulong \<Rightarrow> nat \<Rightarrow> ulong \<Rightarrow> lim_state \<Rightarrow> bool \<times> lim_state" where
  "add_count n t delta s =
     (if countermax s t - counter s t \<ge> delta
      then (True, s\<lparr>counter := (counter s)(t := counter s t + delta)\<rparr>)
      else let s = globalize_count t s in
        if globalcountmax s - globalcount s - globalreserve s < delta then (False, s)
        else (True, balance_count n t (s\<lparr>globalcount := globalcount s + delta\<rparr>)))"

definition sub_count :: "ulong \<Rightarrow> nat \<Rightarrow> ulong \<Rightarrow> lim_state \<Rightarrow> bool \<times> lim_state" where
  "sub_count n t delta s =
     (if counter s t \<ge> delta
      then (True, s\<lparr>counter := (counter s)(t := counter s t - delta)\<rparr>)
      else let s = globalize_count t s in
        if globalcount s < delta then (False, s)
        else (True, balance_count n t (s\<lparr>globalcount := globalcount s - delta\<rparr>)))"

text \<open>\<open>seen t\<close> is what the \<open>READ_ONCE\<close> of \<open>*counterp[t]\<close> returns.\<close>

definition read_count :: "(nat \<Rightarrow> ulong) \<Rightarrow> lim_state \<Rightarrow> ulong" where
  "read_count seen s =
     fold (\<lambda>t sum. if counterp s t then sum + seen t else sum) [0..<NR_THREADS] (globalcount s)"

definition count_register_thread :: "nat \<Rightarrow> lim_state \<Rightarrow> lim_state" where
  "count_register_thread t s = s\<lparr>counterp := (counterp s)(t := True)\<rparr>"

definition count_unregister_thread :: "nat \<Rightarrow> lim_state \<Rightarrow> lim_state" where
  "count_unregister_thread t s =
     (let s = globalize_count t s in s\<lparr>counterp := (counterp s)(t := False)\<rparr>)"

section \<open>The contract of the limit counters\<close>

lemma balance_ok:
  assumes "linv s" and "t < NR_THREADS" and "counter s t = 0" and "countermax s t = 0"
    and "counterp s t"
  shows "linv (balance_count n t s) \<and> count_value (balance_count n t s) = count_value s \<and>
    lim_frame t s (balance_count n t s)"
proof -
  let ?m = "(globalcountmax s - globalcount s - globalreserve s) div n"
  let ?c = "if ?m div 2 > globalcount s then globalcount s else ?m div 2"
  have m: "?m \<le> globalcountmax s - globalcount s - globalreserve s" by (rule word_div_le_self)
  have h: "?m div 2 \<le> ?m" by (rule word_div_le_self)
  have c: "?c \<le> ?m" "?c \<le> globalcount s" using h by auto
  show ?thesis using linv_reserve [OF assms m c]
    by (cases "?m div 2 > globalcount s") (simp_all add: balance_count_def Let_def)
qed

interpretation cl: limit_counter globalize_count balance_count add_count sub_count read_count
  count_register_thread count_unregister_thread
proof
qed (simp_all add: globalize_count_def add_count_def sub_count_def read_count_def
    count_register_thread_def count_unregister_thread_def balance_ok)

abbreviation lstep :: "lim_state \<Rightarrow> lim_state \<Rightarrow> bool" where
  "lstep \<equiv> lim_step add_count sub_count count_register_thread count_unregister_thread"

text \<open>C32: in every state that registration, addition, subtraction and deregistration
  can reach, a successful addition or subtraction changes the value of the counter by exactly
  its argument and a failing one leaves it, the limit is never exceeded, a subtraction succeeds
  exactly when the caller's counter and the global count cover it, and a read that no fast path
  overlaps returns the value.\<close>

theorem count_lim_exact:
  assumes r: "reachable (\<lambda>s. s = lim_init gmax) lstep s"
    and t: "t < NR_THREADS" "counterp s t" and n: "0 < n"
  shows "(case add_count n t d s of (ok, s') \<Rightarrow>
      count_value s' = count_value s + (if ok then unat d else 0) \<and> count_value s' \<le> unat gmax) \<and>
    (case sub_count n t d s of (ok, s') \<Rightarrow>
      count_value s' + (if ok then unat d else 0) = count_value s \<and>
      (ok \<longleftrightarrow> unat d \<le> unat (globalcount s) + unat (counter s t))) \<and>
    unat (read_count (counter s) s) = count_value s"
proof -
  note i = cl.reachable_linv [OF r] and g = cl.reachable_gmax [OF r]
  obtain ok s' where a: "add_count n t d s = (ok, s')" by (cases "add_count n t d s")
  from cl.add_ok [OF i t n a] linv_limit [of s'] g a
  have "case add_count n t d s of (ok, s') \<Rightarrow>
      count_value s' = count_value s + (if ok then unat d else 0) \<and> count_value s' \<le> unat gmax"
    by (auto simp: lim_frame_def)
  moreover obtain ok s' where b: "sub_count n t d s = (ok, s')" by (cases "sub_count n t d s")
  from cl.sub_ok [OF i t n b] b
  have "case sub_count n t d s of (ok, s') \<Rightarrow>
      count_value s' + (if ok then unat d else 0) = count_value s \<and>
      (ok \<longleftrightarrow> unat d \<le> unat (globalcount s) + unat (counter s t))" by auto
  ultimately show ?thesis using cl.read_exact [OF i] by blast
qed

theorem count_lim_exact_witness:
  "\<exists>s. reachable (\<lambda>s. s = lim_init 10000) lstep s \<and> counterp s 3 \<and>
     (case add_count 2 3 7 s of (ok, s') \<Rightarrow>
        count_value s' = count_value s + (if ok then 7 else 0) \<and> count_value s' \<le> 10000)"
proof -
  have r: "reachable (\<lambda>s. s = lim_init 10000) lstep (count_register_thread 3 (lim_init 10000))"
    by (rule reachable_registered) (simp add: NR_THREADS_def)
  have p: "counterp (count_register_thread 3 (lim_init 10000)) 3"
    by (simp add: count_register_thread_def)
  from count_lim_exact [OF r _ p, of 2 7] r p show ?thesis by (auto simp: NR_THREADS_def)
qed

text \<open>A read that runs beside fast paths of other threads, and so sees any value that
  each counter may take, still returns a value within the limit.\<close>

theorem count_lim_read_within:
  assumes r: "reachable (\<lambda>s. s = lim_init gmax) lstep s" and "\<And>t. seen t \<le> countermax s t"
  shows "unat (read_count seen s) \<le> unat gmax"
  using cl.read_within [OF cl.reachable_linv [OF r], of seen] cl.reachable_gmax [OF r] assms(2)
  by simp

theorem count_lim_read_within_witness:
  "unat (read_count (\<lambda>_. 0) (lim_init 10000)) \<le> unat (10000 :: ulong)"
  by (rule count_lim_read_within [OF reachable.start]) simp_all

end
