(* ===== verification/Count_Lim_App.thy ===== *)
theory Count_Lim_App
  imports Limit_Spec
begin

text \<open>
  count/count_lim_app.c: the limit counter whose threads reserve at most \<open>MAX_COUNTERMAX\<close>, which
  bounds how far from the limit an addition may be refused.
\<close>

definition MAX_COUNTERMAX :: ulong where
  "MAX_COUNTERMAX = 100"

definition globalize_count :: "nat \<Rightarrow> lim_state \<Rightarrow> lim_state" where
  "globalize_count t s =
     s\<lparr>globalcount := globalcount s + counter s t, counter := (counter s)(t := 0),
       globalreserve := globalreserve s - countermax s t, countermax := (countermax s)(t := 0)\<rparr>"

definition balance_count :: "ulong \<Rightarrow> nat \<Rightarrow> lim_state \<Rightarrow> lim_state" where
  "balance_count n t s =
     (let m = (globalcountmax s - globalcount s - globalreserve s) div n;
          m = (if m > MAX_COUNTERMAX then MAX_COUNTERMAX else m);
          s = s\<lparr>countermax := (countermax s)(t := m), globalreserve := globalreserve s + m\<rparr>;
          c = (if m div 2 > globalcount s then globalcount s else m div 2)
      in s\<lparr>counter := (counter s)(t := c), globalcount := globalcount s - c\<rparr>)"

definition add_count :: "ulong \<Rightarrow> nat \<Rightarrow> ulong \<Rightarrow> lim_state \<Rightarrow> bool \<times> lim_state" where
  "add_count n t delta s =
     (if countermax s t - counter s t \<ge> delta
      then (True, s\<lparr>counter := (counter s)(t := counter s t + delta)\<rparr>)
      else let s = globalize_count t s in
        if globalcountmax s - globalcount s - globalreserve s < delta then (False, s)
        else (True, balance_count n t (s\<lparr>globalcount := globalcount s + delta\<rparr>)))"

definition sub_count :: "ulong \<Rightarrow> nat \<Rightarrow> ulong \<Rightarrow> lim_state \<Rightarrow> bool \<times> lim_state" where
  "sub_count n t delta s =
     (if counter s t \<ge> delta
      then (True, s\<lparr>counter := (counter s)(t := counter s t - delta)\<rparr>)
      else let s = globalize_count t s in
        if globalcount s < delta then (False, s)
        else (True, balance_count n t (s\<lparr>globalcount := globalcount s - delta\<rparr>)))"

text \<open>\<open>seen t\<close> is what the \<open>READ_ONCE\<close> of \<open>*counterp[t]\<close> returns.\<close>

definition read_count :: "(nat \<Rightarrow> ulong) \<Rightarrow> lim_state \<Rightarrow> ulong" where
  "read_count seen s =
     fold (\<lambda>t sum. if counterp s t then sum + seen t else sum) [0..<NR_THREADS] (globalcount s)"

definition count_register_thread :: "nat \<Rightarrow> lim_state \<Rightarrow> lim_state" where
  "count_register_thread t s = s\<lparr>counterp := (counterp s)(t := True)\<rparr>"

definition count_unregister_thread :: "nat \<Rightarrow> lim_state \<Rightarrow> lim_state" where
  "count_unregister_thread t s =
     (let s = globalize_count t s in s\<lparr>counterp := (counterp s)(t := False)\<rparr>)"

section \<open>The contract of the limit counters\<close>

lemma balance_app_ok:
  assumes "linv s" and "t < NR_THREADS" and "counter s t = 0" and "countermax s t = 0"
    and "counterp s t"
  shows "linv (balance_count n t s) \<and> count_value (balance_count n t s) = count_value s \<and>
    lim_frame t s (balance_count n t s)"
proof -
  let ?q = "(globalcountmax s - globalcount s - globalreserve s) div n"
  let ?m = "if ?q > MAX_COUNTERMAX then MAX_COUNTERMAX else ?q"
  let ?c = "if ?m div 2 > globalcount s then globalcount s else ?m div 2"
  have "?q \<le> globalcountmax s - globalcount s - globalreserve s" by (rule word_div_le_self)
  then have m: "?m \<le> globalcountmax s - globalcount s - globalreserve s" by (auto split: if_splits)
  have h: "?m div 2 \<le> ?m" by (rule word_div_le_self)
  have c: "?c \<le> ?m" "?c \<le> globalcount s" using h by auto
  show ?thesis using linv_reserve [OF assms m c]
    by (cases "?q > MAX_COUNTERMAX"; cases "?m div 2 > globalcount s")
      (simp_all add: balance_count_def Let_def)
qed

interpretation cla: limit_counter globalize_count balance_count add_count sub_count read_count
  count_register_thread count_unregister_thread
proof
qed (simp_all add: globalize_count_def add_count_def sub_count_def read_count_def
    count_register_thread_def count_unregister_thread_def balance_app_ok)

abbreviation lstep :: "lim_state \<Rightarrow> lim_state \<Rightarrow> bool" where
  "lstep \<equiv> lim_step add_count sub_count count_register_thread count_unregister_thread"

section \<open>The degree of approximation\<close>

definition app_bound :: "lim_state \<Rightarrow> bool" where
  "app_bound s \<longleftrightarrow> (\<forall>t. countermax s t \<le> MAX_COUNTERMAX)"

lemma globalize_bound: "app_bound s \<Longrightarrow> app_bound (globalize_count t s)"
  by (simp add: app_bound_def globalize_count_def)

lemma balance_bound: "app_bound s \<Longrightarrow> app_bound (balance_count n t s)"
  by (auto simp: app_bound_def balance_count_def Let_def not_less)

lemma step_bound: "app_bound s \<Longrightarrow> lstep s s' \<Longrightarrow> app_bound s'"
  by (erule lim_step.cases)
    (auto simp: add_count_def sub_count_def count_register_thread_def count_unregister_thread_def
      app_bound_def globalize_count_def Let_def
      intro!: balance_bound [unfolded app_bound_def, rule_format])

lemma reachable_bound: "reachable (\<lambda>s. s = lim_init gmax) lstep s \<Longrightarrow> app_bound s"
  by (erule reachable_invariant) (auto simp: app_bound_def lim_init_def step_bound [unfolded app_bound_def])

text \<open>An addition is refused only near the limit: the value plus the argument then
  exceeds the limit less \<open>MAX_COUNTERMAX\<close> for every other registered thread. A successful one
  is exact and stays within the limit.\<close>

theorem count_lim_app_refusal:
  assumes r: "reachable (\<lambda>s. s = lim_init gmax) lstep s"
    and t: "t < NR_THREADS" "counterp s t" and n: "0 < n" and a: "add_count n t d s = (ok, s')"
  shows "if ok then count_value s' = count_value s + unat d \<and> count_value s' \<le> unat gmax
    else count_value s' = count_value s \<and> unat gmax < count_value s + unat d +
      100 * card {u. u < NR_THREADS \<and> u \<noteq> t \<and> counterp s u}"
proof -
  note i = cla.reachable_linv [OF r]
  let ?U = "{u. u < NR_THREADS \<and> u \<noteq> t \<and> counterp s u}"
  have le: "unat (countermax s u) - unat (counter s u) \<le> (if counterp s u then 100 else 0)" for u
    using reachable_bound [OF r] i unfolding app_bound_def linv_def
    by (cases "counterp s u") (auto simp: word_le_nat_alt MAX_COUNTERMAX_def intro: le_diff_conv [THEN iffD2] trans_le_add1)
  have "(\<Sum>u\<in>{..<NR_THREADS} - {t}. unat (countermax s u) - unat (counter s u))
      \<le> (\<Sum>u\<in>{..<NR_THREADS} - {t}. if counterp s u then 100 else 0)"
    by (rule sum_mono) (rule le)
  also have "\<dots> = (\<Sum>u\<in>?U. 100)"
    by (rule sum.mono_neutral_cong_right) auto
  finally show ?thesis
    using cla.add_ok [OF i t n a] linv_limit [of s'] cla.reachable_gmax [OF r]
    by (cases ok) (auto simp: lim_frame_def)
qed

theorem count_lim_app_refusal_witness:
  "\<exists>s s'. reachable (\<lambda>s. s = lim_init 50) lstep s \<and> add_count 1 0 60 s = (False, s') \<and>
     50 < count_value s + 60 + 100 * card {u. u < NR_THREADS \<and> u \<noteq> 0 \<and> counterp s u}"
proof -
  let ?s = "count_register_thread 0 (lim_init 50)"
  have r: "reachable (\<lambda>s. s = lim_init 50) lstep ?s"
    by (rule reachable_registered) (simp add: NR_THREADS_def)
  have p: "counterp ?s 0" by (simp add: count_register_thread_def)
  have a: "add_count 1 0 60 ?s = (False, globalize_count 0 ?s)"
    by (simp add: add_count_def count_register_thread_def lim_init_def globalize_count_def)
  from count_lim_app_refusal [OF r _ p _ a] r a show ?thesis by (auto simp: NR_THREADS_def)
qed

end
