(* ===== verification/Count_Lim_Atomic.thy ===== *)
theory Count_Lim_Atomic
  imports Count_Lim
begin

text \<open>
  count/count_lim_atomic.c: the exact limit counter. Counter and maximum of a thread are packed
  into one \<open>int\<close> so that another thread can take both with one \<open>atomic_xchg\<close>, and a fast path
  updates them with \<open>atomic_cmpxchg\<close>. The abstraction \<open>counters_of\<close> unpacks the words and gives
  the state of the simple limit counter, whose invariant and lemmas carry the proofs.

  A fast path is one transition per \<open>atomic_cmpxchg\<close>, with an arbitrary old value. A slow path
  holds the mutex: it touches globals that nothing else touches then, and by one exchange per
  thread takes words that are zero afterwards, on which a fast path changes nothing; so it is
  one transition.
\<close>

record lat_state =
  counterandmax :: "nat \<Rightarrow> cint"
  globalcountmax :: ulong
  globalcount :: ulong
  globalreserve :: ulong
  counterp :: "nat \<Rightarrow> bool"

definition CM_BITS :: nat where
  "CM_BITS = 4 * 4"

definition MAX_COUNTERMAX :: cint where
  "MAX_COUNTERMAX = push_bit CM_BITS 1 - 1"

text \<open>The conversion from \<open>int\<close> to \<open>unsigned long\<close>.\<close>

abbreviation ul :: "cint \<Rightarrow> ulong" where
  "ul x \<equiv> scast x"

definition split_counterandmax_int :: "cint \<Rightarrow> cint \<times> cint" where
  "split_counterandmax_int cami =
     (signed_drop_bit CM_BITS cami AND MAX_COUNTERMAX, cami AND MAX_COUNTERMAX)"

definition split_counterandmax :: "cint \<Rightarrow> cint \<times> cint \<times> cint" where
  "split_counterandmax cam = (cam, split_counterandmax_int cam)"

definition merge_counterandmax :: "cint \<Rightarrow> cint \<Rightarrow> cint" where
  "merge_counterandmax c cm = (push_bit CM_BITS c OR cm)"

definition globalize_count :: "nat \<Rightarrow> lat_state \<Rightarrow> lat_state" where
  "globalize_count t s =
     (let (old, c, cm) = split_counterandmax (counterandmax s t);
          s = s\<lparr>globalcount := globalcount s + ul c, globalreserve := globalreserve s - ul cm\<rparr>
      in s\<lparr>counterandmax := (counterandmax s)(t := merge_counterandmax 0 0)\<rparr>)"

text \<open>One iteration of the loop of \<open>flush_local_count\<close>, and the whole of it.\<close>

definition flush_thread :: "nat \<Rightarrow> lat_state \<Rightarrow> lat_state" where
  "flush_thread t s =
     (if counterp s t
      then let old = counterandmax s t;
               s = s\<lparr>counterandmax := (counterandmax s)(t := merge_counterandmax 0 0)\<rparr>;
               (c, cm) = split_counterandmax_int old
           in s\<lparr>globalcount := globalcount s + ul c, globalreserve := globalreserve s - ul cm\<rparr>
      else s)"

definition flush_local_count :: "lat_state \<Rightarrow> lat_state" where
  "flush_local_count s =
     (if globalreserve s = 0 then s else fold flush_thread [0..<NR_THREADS] s)"

text \<open>
  \<open>cm\<close> is between 0 and \<open>MAX_COUNTERMAX\<close> at the division, so the signed and the unsigned
  division agree.
\<close>

definition balance_count :: "ulong \<Rightarrow> nat \<Rightarrow> lat_state \<Rightarrow> lat_state" where
  "balance_count n t s =
     (let limit = (globalcountmax s - globalcount s - globalreserve s) div n;
          cm = (if limit > ul MAX_COUNTERMAX then MAX_COUNTERMAX else ucast limit);
          s = s\<lparr>globalreserve := globalreserve s + ul cm\<rparr>;
          c = cm div 2;
          c = (if ul c > globalcount s then ucast (globalcount s) else c);
          s = s\<lparr>globalcount := globalcount s - ul c\<rparr>
      in s\<lparr>counterandmax := (counterandmax s)(t := merge_counterandmax c cm)\<rparr>)"

text \<open>
  One round of the loop of a fast path: the thread goes to the slow path, or its exchange
  succeeds or fails against the current word. \<open>old\<close> is the value it has read.
\<close>

datatype fast = Slowpath | Exchanged bool lat_state

definition add_fast :: "nat \<Rightarrow> ulong \<Rightarrow> cint \<Rightarrow> lat_state \<Rightarrow> fast" where
  "add_fast t delta old s =
     (let (old, c, cm) = split_counterandmax old in
      if delta > ul MAX_COUNTERMAX \<or> ul c + delta > ul cm then Slowpath
      else let new = merge_counterandmax (ucast (ul c + delta)) cm in
        if counterandmax s t = old
        then Exchanged True (s\<lparr>counterandmax := (counterandmax s)(t := new)\<rparr>)
        else Exchanged False s)"

definition sub_fast :: "nat \<Rightarrow> ulong \<Rightarrow> cint \<Rightarrow> lat_state \<Rightarrow> fast" where
  "sub_fast t delta old s =
     (let (old, c, cm) = split_counterandmax old in
      if delta > ul c then Slowpath
      else let new = merge_counterandmax (ucast (ul c - delta)) cm in
        if counterandmax s t = old
        then Exchanged True (s\<lparr>counterandmax := (counterandmax s)(t := new)\<rparr>)
        else Exchanged False s)"

definition add_slow :: "ulong \<Rightarrow> nat \<Rightarrow> ulong \<Rightarrow> lat_state \<Rightarrow> bool \<times> lat_state" where
  "add_slow n t delta s =
     (let s = globalize_count t s;
          s = (if globalcountmax s - globalcount s - globalreserve s < delta
               then flush_local_count s else s)
      in if globalcountmax s - globalcount s - globalreserve s < delta then (False, s)
         else (True, balance_count n t (s\<lparr>globalcount := globalcount s + delta\<rparr>)))"

definition sub_slow :: "ulong \<Rightarrow> nat \<Rightarrow> ulong \<Rightarrow> lat_state \<Rightarrow> bool \<times> lat_state" where
  "sub_slow n t delta s =
     (let s = globalize_count t s;
          s = (if globalcount s < delta then flush_local_count s else s)
      in if globalcount s < delta then (False, s)
         else (True, balance_count n t (s\<lparr>globalcount := globalcount s - delta\<rparr>)))"

text \<open>A whole call, when no other thread flushes between its read and its exchange.\<close>

definition add_count :: "ulong \<Rightarrow> nat \<Rightarrow> ulong \<Rightarrow> lat_state \<Rightarrow> bool \<times> lat_state" where
  "add_count n t delta s =
     (case add_fast t delta (counterandmax s t) s of
        Slowpath \<Rightarrow> add_slow n t delta s | Exchanged ok s' \<Rightarrow> (ok, s'))"

definition sub_count :: "ulong \<Rightarrow> nat \<Rightarrow> ulong \<Rightarrow> lat_state \<Rightarrow> bool \<times> lat_state" where
  "sub_count n t delta s =
     (case sub_fast t delta (counterandmax s t) s of
        Slowpath \<Rightarrow> sub_slow n t delta s | Exchanged ok s' \<Rightarrow> (ok, s'))"

text \<open>\<open>seen t\<close> is the word that the read of \<open>counterp[t]\<close> returns.\<close>

definition read_count :: "(nat \<Rightarrow> cint) \<Rightarrow> lat_state \<Rightarrow> ulong" where
  "read_count seen s =
     fold (\<lambda>t sum. if counterp s t
         then case split_counterandmax (seen t) of (old, c, cm) \<Rightarrow> sum + ul c else sum)
       [0..<NR_THREADS] (globalcount s)"

definition count_register_thread :: "nat \<Rightarrow> lat_state \<Rightarrow> lat_state" where
  "count_register_thread t s = s\<lparr>counterp := (counterp s)(t := True)\<rparr>"

definition count_unregister_thread :: "nat \<Rightarrow> lat_state \<Rightarrow> lat_state" where
  "count_unregister_thread t s =
     (let s = globalize_count t s in s\<lparr>counterp := (counterp s)(t := False)\<rparr>)"

definition lat_init :: "ulong \<Rightarrow> lat_state" where
  "lat_init gmax = \<lparr>counterandmax = (\<lambda>_. 0), globalcountmax = gmax, globalcount = 0,
     globalreserve = 0, counterp = (\<lambda>_. False)\<rparr>"

inductive lat_step :: "lat_state \<Rightarrow> lat_state \<Rightarrow> bool" where
  fast_add: "t < NR_THREADS \<Longrightarrow> counterp s t \<Longrightarrow> add_fast t d old s = Exchanged ok s' \<Longrightarrow> lat_step s s'"
| fast_sub: "t < NR_THREADS \<Longrightarrow> counterp s t \<Longrightarrow> sub_fast t d old s = Exchanged ok s' \<Longrightarrow> lat_step s s'"
| slow_add: "t < NR_THREADS \<Longrightarrow> counterp s t \<Longrightarrow> 0 < n \<Longrightarrow> add_slow n t d s = (ok, s') \<Longrightarrow> lat_step s s'"
| slow_sub: "t < NR_THREADS \<Longrightarrow> counterp s t \<Longrightarrow> 0 < n \<Longrightarrow> sub_slow n t d s = (ok, s') \<Longrightarrow> lat_step s s'"
| register: "t < NR_THREADS \<Longrightarrow> lat_step s (count_register_thread t s)"
| unregister: "t < NR_THREADS \<Longrightarrow> counterp s t \<Longrightarrow> lat_step s (count_unregister_thread t s)"

section \<open>Packing and unpacking\<close>

lemma MAX_COUNTERMAX_mask: "MAX_COUNTERMAX = mask 16"
  by (simp add: MAX_COUNTERMAX_def CM_BITS_def mask_eq_exp_minus_1)

lemma MAX_COUNTERMAX_num: "MAX_COUNTERMAX = 65535"
  by (simp add: MAX_COUNTERMAX_def CM_BITS_def)

lemma small_take_bit: "x \<le> MAX_COUNTERMAX \<longleftrightarrow> take_bit 16 x = x"
proof -
  have "take_bit 16 x = x \<longleftrightarrow> take_bit 16 (unat x) = unat x"
    by (metis unsigned_take_bit_eq word_unat_eq_iff)
  also have "\<dots> \<longleftrightarrow> unat x < 2 ^ 16" by (rule take_bit_nat_eq_self_iff)
  finally show ?thesis by (auto simp: word_le_nat_alt MAX_COUNTERMAX_num)
qed

lemma small_bit: "x \<le> MAX_COUNTERMAX \<Longrightarrow> bit x n \<Longrightarrow> n < 16"
  unfolding small_take_bit by (metis bit_take_bit_iff)

lemma small_ul: "x \<le> MAX_COUNTERMAX \<Longrightarrow> unat (ul x) = unat x"
proof -
  assume x: "x \<le> MAX_COUNTERMAX"
  have "(scast x :: ulong) = ucast x"
    by (rule bit_word_eqI) (use small_bit [OF x] in \<open>force simp: bit_simps\<close>)
  moreover have "unat x < 2 ^ 64" using x by (simp add: word_le_nat_alt MAX_COUNTERMAX_num)
  ultimately show ?thesis by (simp add: unsigned_ucast_eq take_bit_nat_eq_self)
qed

lemma merge_split:
  assumes "c \<le> MAX_COUNTERMAX" and "cm \<le> MAX_COUNTERMAX"
  shows "split_counterandmax_int (merge_counterandmax c cm) = (c, cm)"
proof -
  have "signed_drop_bit 16 (push_bit 16 c OR cm) AND mask 16 = c"
  proof (rule bit_word_eqI)
    show "bit (signed_drop_bit 16 (push_bit 16 c OR cm) AND mask 16) n = bit c n"
      if "n < LENGTH(32)" for n
      using small_bit [OF assms(1), of n] small_bit [OF assms(2), of "16 + n"] that
      by (auto simp: bit_simps)
  qed
  moreover have "(push_bit 16 c OR cm) AND mask 16 = cm"
  proof (rule bit_word_eqI)
    show "bit ((push_bit 16 c OR cm) AND mask 16) n = bit cm n" if "n < LENGTH(32)" for n
      using small_bit [OF assms(2), of n] that by (auto simp: bit_simps)
  qed
  ultimately show ?thesis
    by (simp add: split_counterandmax_int_def merge_counterandmax_def MAX_COUNTERMAX_mask CM_BITS_def)
qed

lemma split_small:
  "fst (split_counterandmax_int x) \<le> MAX_COUNTERMAX" "snd (split_counterandmax_int x) \<le> MAX_COUNTERMAX"
  by (simp_all add: split_counterandmax_int_def word_and_le1)

lemma merge_of_split:
  "split_counterandmax_int x = (c, cm) \<Longrightarrow> merge_counterandmax c cm = x"
proof -
  assume "split_counterandmax_int x = (c, cm)"
  then have c: "c = signed_drop_bit 16 x AND mask 16" "cm = x AND mask 16"
    by (auto simp: split_counterandmax_int_def MAX_COUNTERMAX_mask CM_BITS_def)
  have "push_bit 16 c OR cm = x"
    by (rule bit_word_eqI) (auto simp: c bit_simps not_le)
  then show ?thesis by (simp add: merge_counterandmax_def CM_BITS_def)
qed

lemma small_ucast: "unat x \<le> 65535 \<Longrightarrow> (ucast x :: cint) \<le> MAX_COUNTERMAX \<and> ul (ucast x) = (x :: ulong)"
proof -
  assume a: "unat x \<le> 65535"
  then have u: "unat (ucast x :: cint) = unat x"
    by (simp add: unsigned_ucast_eq take_bit_nat_eq_self)
  with a have s: "(ucast x :: cint) \<le> MAX_COUNTERMAX" by (simp add: word_le_nat_alt MAX_COUNTERMAX_num)
  from small_ul [OF s] u s show ?thesis by (simp add: word_unat_eq_iff)
qed

section \<open>The abstraction to the simple limit counter\<close>

definition counters_of :: "lat_state \<Rightarrow> lim_state" where
  "counters_of s = lim_state.make
     (\<lambda>t. ul (fst (split_counterandmax_int (counterandmax s t))))
     (\<lambda>t. ul (snd (split_counterandmax_int (counterandmax s t))))
     (globalcountmax s) (globalcount s) (globalreserve s) (counterp s)"

abbreviation lat_inv :: "lat_state \<Rightarrow> bool" where
  "lat_inv s \<equiv> linv (counters_of s)"

abbreviation lat_value :: "lat_state \<Rightarrow> nat" where
  "lat_value s \<equiv> count_value (counters_of s)"

lemma counters_of_sel [simp]:
  "lim_state.counter (counters_of s) t = ul (fst (split_counterandmax_int (counterandmax s t)))"
  "lim_state.countermax (counters_of s) t = ul (snd (split_counterandmax_int (counterandmax s t)))"
  "lim_state.globalcountmax (counters_of s) = globalcountmax s"
  "lim_state.globalcount (counters_of s) = globalcount s"
  "lim_state.globalreserve (counters_of s) = globalreserve s"
  "lim_state.counterp (counters_of s) = counterp s"
  by (simp_all add: counters_of_def lim_state.make_def)

lemma counters_of_globalcount:
  "counters_of (s\<lparr>globalcount := g\<rparr>) = lim_state.globalcount_update (\<lambda>_. g) (counters_of s)"
  by (simp add: counters_of_def lim_state.make_def)

lemma counters_of_word:
  assumes "c \<le> MAX_COUNTERMAX" and "cm \<le> MAX_COUNTERMAX"
  shows "counters_of (s\<lparr>counterandmax := (counterandmax s)(t := merge_counterandmax c cm)\<rparr>) =
    lim_state.countermax_update (\<lambda>f. f(t := ul cm))
      (lim_state.counter_update (\<lambda>f. f(t := ul c)) (counters_of s))"
  using merge_split [OF assms] by (auto simp: counters_of_def lim_state.make_def fun_eq_iff)

lemma counters_of_globalize:
  "counters_of (globalize_count t s) = Count_Lim.globalize_count t (counters_of s)"
  using merge_split [of 0 0]
  by (auto simp: globalize_count_def Count_Lim.globalize_count_def split_counterandmax_def
      counters_of_def lim_state.make_def fun_eq_iff Let_def split_beta)

lemma flush_thread_globalize:
  "flush_thread t s = (if counterp s t then globalize_count t s else s)"
  by (auto simp: flush_thread_def globalize_count_def split_counterandmax_def Let_def split_beta)

lemma lat_globalize_ok:
  assumes "lat_inv s" and t: "t < NR_THREADS"
  shows "lat_inv (globalize_count t s)" and "lat_value (globalize_count t s) = lat_value s"
    and "globalcountmax (globalize_count t s) = globalcountmax s"
    and "counterp (globalize_count t s) = counterp s"
    and "split_counterandmax_int (counterandmax (globalize_count t s) t) = (0, 0)"
    and "u \<noteq> t \<Longrightarrow> counterandmax (globalize_count t s) u = counterandmax s u"
  using cl.globalize_ok(1-3) [OF assms] merge_split [of 0 0]
  by (simp_all add: counters_of_globalize)
    (simp_all add: globalize_count_def split_beta Let_def)

definition flushed :: "nat \<Rightarrow> lat_state \<Rightarrow> bool" where
  "flushed t s \<longleftrightarrow> split_counterandmax_int (counterandmax s t) = (0, 0)"

lemma flush_loop:
  assumes "lat_inv s" and "k \<le> NR_THREADS"
  defines "s' \<equiv> fold flush_thread [0..<k] s"
  shows "lat_inv s' \<and> lat_value s' = lat_value s \<and> globalcountmax s' = globalcountmax s \<and>
    counterp s' = counterp s \<and> (\<forall>u<k. flushed u s') \<and> (\<forall>u. flushed u s \<longrightarrow> flushed u s')"
  using assms(2) unfolding s'_def
proof (induction k)
  case 0
  then show ?case using assms(1) by simp
next
  case (Suc k)
  let ?s = "fold flush_thread [0..<k] s"
  from Suc have i: "lat_inv ?s" and k: "k < NR_THREADS" by simp_all
  have z: "flushed k ?s" if "\<not> counterp ?s k"
  proof -
    have "ul (fst (split_counterandmax_int (counterandmax ?s k))) = 0"
      "ul (snd (split_counterandmax_int (counterandmax ?s k))) = 0"
      using i that unfolding linv_def by (simp_all, metis word_le_0_iff)
    then have "unat (fst (split_counterandmax_int (counterandmax ?s k))) = 0"
      "unat (snd (split_counterandmax_int (counterandmax ?s k))) = 0"
      using small_ul [OF split_small(1)] small_ul [OF split_small(2)] by (metis unat_0)+
    then show ?thesis by (simp add: flushed_def prod_eq_iff unat_eq_zero)
  qed
  note g = lat_globalize_ok [OF i k]
  have "flushed u (flush_thread k ?s)" if "flushed u ?s \<or> u = k" for u
    using that g(5) g(6) [of u] z by (cases "u = k") (auto simp: flush_thread_globalize flushed_def)
  moreover have "lat_inv (flush_thread k ?s) \<and> lat_value (flush_thread k ?s) = lat_value ?s \<and>
      globalcountmax (flush_thread k ?s) = globalcountmax ?s \<and> counterp (flush_thread k ?s) = counterp ?s"
    using g(1-4) i by (simp add: flush_thread_globalize)
  ultimately show ?case using Suc k by (auto simp: less_Suc_eq)
qed

lemma all_flushed:
  assumes "lat_inv s" and "\<forall>u<NR_THREADS. flushed u s"
  shows "lat_value s = unat (globalcount s)" and "globalreserve s = 0"
  using assms by (simp_all add: count_value_def flushed_def linv_def unat_eq_zero)

text \<open>After a flush the global count is the value and nothing is reserved.\<close>

lemma flush_ok:
  assumes i: "lat_inv s"
  shows "lat_inv (flush_local_count s)" and "lat_value (flush_local_count s) = lat_value s"
    and "globalcountmax (flush_local_count s) = globalcountmax s"
    and "counterp (flush_local_count s) = counterp s"
    and "unat (globalcount (flush_local_count s)) = lat_value s"
    and "globalreserve (flush_local_count s) = 0"
    and "flushed u s \<Longrightarrow> flushed u (flush_local_count s)"
proof -
  let ?f = "flush_local_count s"
  have "lat_inv ?f \<and> lat_value ?f = lat_value s \<and> globalcountmax ?f = globalcountmax s \<and>
    counterp ?f = counterp s \<and> unat (globalcount ?f) = lat_value s \<and> globalreserve ?f = 0 \<and>
    (\<forall>u. flushed u s \<longrightarrow> flushed u ?f)"
  proof (cases "globalreserve s = 0")
    case True
    with linv_counters_le [OF i] have "lat_value s = unat (globalcount s)"
      by (simp add: count_value_def)
    with True i show ?thesis by (simp add: flush_local_count_def)
  next
    case False
    with flush_loop [OF i order_refl] all_flushed [of ?f] show ?thesis
      by (simp add: flush_local_count_def)
  qed
  then show "lat_inv ?f" "lat_value ?f = lat_value s" "globalcountmax ?f = globalcountmax s"
    "counterp ?f = counterp s" "unat (globalcount ?f) = lat_value s" "globalreserve ?f = 0"
    "flushed u s \<Longrightarrow> flushed u ?f" by blast+
qed

lemma balance_lat_ok:
  assumes i: "lat_inv s" and t: "t < NR_THREADS" and "flushed t s" and "counterp s t"
  shows "lat_inv (balance_count n t s)" and "lat_value (balance_count n t s) = lat_value s"
    and "globalcountmax (balance_count n t s) = globalcountmax s"
    and "counterp (balance_count n t s) = counterp s"
proof -
  define limit where "limit = (globalcountmax s - globalcount s - globalreserve s) div n"
  define cm :: cint where "cm = (if limit > ul MAX_COUNTERMAX then MAX_COUNTERMAX else ucast limit)"
  define c :: cint where "c = (if ul (cm div 2) > globalcount s then ucast (globalcount s) else cm div 2)"
  have M: "ul MAX_COUNTERMAX = 65535" by (simp add: MAX_COUNTERMAX_num)
  have l: "limit \<le> globalcountmax s - globalcount s - globalreserve s"
    unfolding limit_def by (rule word_div_le_self)
  have cm: "cm \<le> MAX_COUNTERMAX" "ul cm \<le> limit"
    using small_ucast [of limit] by (auto simp: cm_def M not_less word_le_nat_alt word_less_nat_alt)
  have h: "cm div 2 \<le> cm" by (rule word_div_le_self)
  then have h': "cm div 2 \<le> MAX_COUNTERMAX" using cm(1) by (rule order_trans)
  have uh: "ul (cm div 2) \<le> ul cm" using h small_ul [OF cm(1)] small_ul [OF h']
    by (simp add: word_le_nat_alt)
  have gs: "(ucast (globalcount s) :: cint) \<le> MAX_COUNTERMAX \<and> ul (ucast (globalcount s)) = globalcount s"
    if "ul (cm div 2) > globalcount s"
    using that h' small_ul [OF h'] by (intro small_ucast) (simp add: word_less_nat_alt word_le_nat_alt MAX_COUNTERMAX_num)
  have c: "c \<le> MAX_COUNTERMAX" "ul c \<le> ul cm" "ul c \<le> globalcount s"
    using gs h' uh by (auto simp: c_def not_less intro: order_trans [OF less_imp_le])
  have b: "balance_count n t s = s\<lparr>globalreserve := globalreserve s + ul cm,
      globalcount := globalcount s - ul c,
      counterandmax := (counterandmax s)(t := merge_counterandmax c cm)\<rparr>"
    by (simp add: balance_count_def Let_def c_def cm_def limit_def)
  have e: "counters_of (balance_count n t s) =
     (let a = counters_of s in a\<lparr>countermax := (countermax a)(t := ul cm),
       lim_state.globalreserve := lim_state.globalreserve a + ul cm,
       counter := (counter a)(t := ul c), lim_state.globalcount := lim_state.globalcount a - ul c\<rparr>)"
    using merge_split [OF c(1) cm(1)]
    by (auto simp: b counters_of_def lim_state.make_def fun_eq_iff Let_def)
  have "counter (counters_of s) t = 0" "countermax (counters_of s) t = 0"
    using assms(3) by (simp_all add: flushed_def)
  note r = linv_reserve [OF i t this, of "ul cm" "ul c"]
  show "lat_inv (balance_count n t s)" and "lat_value (balance_count n t s) = lat_value s"
    using r(1,2) order_trans [OF cm(2) l] c assms(4) by (simp_all add: e Let_def)
  show "globalcountmax (balance_count n t s) = globalcountmax s"
    and "counterp (balance_count n t s) = counterp s" by (simp_all add: b)
qed

section \<open>The operations on the abstraction\<close>

lemma lat_counters_le:
  assumes "lat_inv s" and "split_counterandmax_int (counterandmax s t) = (c, cm)"
  shows "ul c \<le> ul cm" and "c \<le> MAX_COUNTERMAX" and "cm \<le> MAX_COUNTERMAX"
    and "unat (ul cm) \<le> 65535"
proof -
  show c: "c \<le> MAX_COUNTERMAX" and cm: "cm \<le> MAX_COUNTERMAX"
    using split_small [of "counterandmax s t"] assms(2) by simp_all
  show "ul c \<le> ul cm" using assms by (auto simp: linv_def dest: spec [of _ t])
  show "unat (ul cm) \<le> 65535"
    using small_ul [OF cm] cm by (simp add: word_le_nat_alt MAX_COUNTERMAX_num)
qed

lemma add_fast_ok:
  assumes i: "lat_inv s" and t: "t < NR_THREADS" and a: "add_fast t d old s = Exchanged ok s'"
  shows "lat_inv s'" and "lat_value s' = lat_value s + (if ok then unat d else 0)"
    and "globalcountmax s' = globalcountmax s"
proof -
  obtain c cm where sp: "split_counterandmax_int old = (c, cm)" by fastforce
  have "lat_inv s' \<and> lat_value s' = lat_value s + (if ok then unat d else 0) \<and>
    globalcountmax s' = globalcountmax s"
  proof (cases ok)
    case False
    with a sp i show ?thesis
      by (auto simp: add_fast_def split_counterandmax_def Let_def split: if_splits)
  next
    case True
    with a sp have h: "d \<le> ul MAX_COUNTERMAX" "ul c + d \<le> ul cm" "counterandmax s t = old"
      "s' = s\<lparr>counterandmax := (counterandmax s)(t := merge_counterandmax (ucast (ul c + d)) cm)\<rparr>"
      by (auto simp: add_fast_def split_counterandmax_def Let_def split: if_splits)
    note l = lat_counters_le [OF i, of t, unfolded h(3), OF sp]
    have w: "unat (ul c + d) = unat (ul c) + unat d"
      using l(1,4) h(1) by (intro unat_add_no_overflow) (simp add: word_le_nat_alt MAX_COUNTERMAX_num)
    have d: "d \<le> ul cm - ul c"
      using unat_sub_le [OF l(1)] w h(2) by (simp add: word_le_nat_alt)
    have u: "(ucast (ul c + d) :: cint) \<le> MAX_COUNTERMAX \<and> ul (ucast (ul c + d)) = ul c + d"
      using h(2) l(4) by (intro small_ucast) (simp add: word_le_nat_alt)
    have "counters_of s' = counters_of s\<lparr>counter := (counter (counters_of s))(t := ul c + d)\<rparr>"
      using counters_of_word [OF conjunct1 [OF u] l(3), of s t] u h(3,4) sp
      by (simp add: counters_of_def lim_state.make_def fun_eq_iff)
    with linv_fast_add [OF i t, of d] d h(3,4) sp True show ?thesis by simp
  qed
  then show "lat_inv s'" and "lat_value s' = lat_value s + (if ok then unat d else 0)"
    and "globalcountmax s' = globalcountmax s" by blast+
qed

lemma sub_fast_ok:
  assumes i: "lat_inv s" and t: "t < NR_THREADS" and a: "sub_fast t d old s = Exchanged ok s'"
  shows "lat_inv s'" and "lat_value s' + (if ok then unat d else 0) = lat_value s"
    and "globalcountmax s' = globalcountmax s"
proof -
  obtain c cm where sp: "split_counterandmax_int old = (c, cm)" by fastforce
  have "lat_inv s' \<and> lat_value s' + (if ok then unat d else 0) = lat_value s \<and>
    globalcountmax s' = globalcountmax s"
  proof (cases ok)
    case False
    with a sp i show ?thesis
      by (auto simp: sub_fast_def split_counterandmax_def Let_def split: if_splits)
  next
    case True
    with a sp have h: "d \<le> ul c" "counterandmax s t = old"
      "s' = s\<lparr>counterandmax := (counterandmax s)(t := merge_counterandmax (ucast (ul c - d)) cm)\<rparr>"
      by (auto simp: sub_fast_def split_counterandmax_def Let_def split: if_splits)
    note l = lat_counters_le [OF i, of t, unfolded h(2), OF sp]
    have u: "(ucast (ul c - d) :: cint) \<le> MAX_COUNTERMAX \<and> ul (ucast (ul c - d)) = ul c - d"
      using h(1) l(1,4) unat_sub_le [OF h(1)] by (intro small_ucast) (simp add: word_le_nat_alt)
    have "counters_of s' = counters_of s\<lparr>counter := (counter (counters_of s))(t := ul c - d)\<rparr>"
      using counters_of_word [OF conjunct1 [OF u] l(3), of s t] u h(2,3) sp
      by (simp add: counters_of_def lim_state.make_def fun_eq_iff)
    with linv_fast_sub [OF i t, of d] h sp True show ?thesis by simp
  qed
  then show "lat_inv s'" and "lat_value s' + (if ok then unat d else 0) = lat_value s"
    and "globalcountmax s' = globalcountmax s" by blast+
qed

text \<open>The state in which a slow path decides, flushed or not.\<close>

lemma decide_ok:
  assumes i: "lat_inv s" and t: "t < NR_THREADS"
    and g: "g = (if b then flush_local_count (globalize_count t s) else globalize_count t s)"
  shows "lat_inv g" and "lat_value g = lat_value s" and "globalcountmax g = globalcountmax s"
    and "counterp g = counterp s" and "flushed t g"
    and "b \<Longrightarrow> unat (globalcount g) = lat_value s" and "b \<Longrightarrow> globalreserve g = 0"
  using lat_globalize_ok [OF i t] flush_ok [OF lat_globalize_ok(1) [OF i t]]
  by (auto simp: g flushed_def)

lemma add_slow_ok:
  assumes i: "lat_inv s" and t: "t < NR_THREADS" and p: "counterp s t"
    and a: "add_slow n t d s = (ok, s')"
  shows "lat_inv s'" and "lat_value s' = lat_value s + (if ok then unat d else 0)"
    and "globalcountmax s' = globalcountmax s"
    and "ok \<longleftrightarrow> lat_value s + unat d \<le> unat (globalcountmax s)"
proof -
  define z where "z = globalize_count t s"
  define b where "b = (globalcountmax z - globalcount z - globalreserve z < d)"
  define g where "g = (if b then flush_local_count z else z)"
  have gd: "g = (if b then flush_local_count (globalize_count t s) else globalize_count t s)"
    by (simp add: g_def z_def)
  note k = decide_ok [OF i t gd]
  let ?room = "globalcountmax g - globalcount g - globalreserve g"
  have a': "(ok, s') = (if ?room < d then (False, g)
      else (True, balance_count n t (g\<lparr>globalcount := globalcount g + d\<rparr>)))"
    using a [symmetric] unfolding add_slow_def Let_def g_def b_def z_def .
  have "lat_inv s' \<and> lat_value s' = lat_value s + (if ok then unat d else 0) \<and>
    globalcountmax s' = globalcountmax s \<and> (ok \<longleftrightarrow> lat_value s + unat d \<le> unat (globalcountmax s))"
  proof (cases "?room < d")
    case True
    then have b by (auto simp: g_def b_def split: if_splits)
    with True linv_room [OF k(1)] k a' linv_limit [OF i]
    show ?thesis by (auto simp: word_less_nat_alt)
  next
    case False
    let ?h = "g\<lparr>globalcount := globalcount g + d\<rparr>"
    have "d \<le> ?room" using False by simp
    with linv_add_global [OF k(1), of d] k(2)
    have h: "lat_inv ?h" "lat_value ?h = lat_value s + unat d"
      by (simp_all add: counters_of_globalcount)
    have "flushed t ?h" "counterp ?h t" using k(4,5) p by (simp_all add: flushed_def)
    from balance_lat_ok [OF h(1) t this, of n] h k(3) a' False linv_limit [OF h(1)]
    show ?thesis by auto
  qed
  then show "lat_inv s'" and "lat_value s' = lat_value s + (if ok then unat d else 0)"
    and "globalcountmax s' = globalcountmax s"
    and "ok \<longleftrightarrow> lat_value s + unat d \<le> unat (globalcountmax s)" by blast+
qed

lemma sub_slow_ok:
  assumes i: "lat_inv s" and t: "t < NR_THREADS" and p: "counterp s t"
    and a: "sub_slow n t d s = (ok, s')"
  shows "lat_inv s'" and "lat_value s' + (if ok then unat d else 0) = lat_value s"
    and "globalcountmax s' = globalcountmax s"
    and "ok \<longleftrightarrow> unat d \<le> lat_value s"
proof -
  define z where "z = globalize_count t s"
  define b where "b = (globalcount z < d)"
  define g where "g = (if b then flush_local_count z else z)"
  have gd: "g = (if b then flush_local_count (globalize_count t s) else globalize_count t s)"
    by (simp add: g_def z_def)
  note k = decide_ok [OF i t gd]
  have a': "(ok, s') = (if globalcount g < d then (False, g)
      else (True, balance_count n t (g\<lparr>globalcount := globalcount g - d\<rparr>)))"
    using a [symmetric] unfolding sub_slow_def Let_def g_def b_def z_def .
  have "lat_inv s' \<and> lat_value s' + (if ok then unat d else 0) = lat_value s \<and>
    globalcountmax s' = globalcountmax s \<and> (ok \<longleftrightarrow> unat d \<le> lat_value s)"
  proof (cases "globalcount g < d")
    case True
    then have b by (auto simp: g_def b_def split: if_splits)
    with True k a' show ?thesis by (auto simp: word_less_nat_alt)
  next
    case False
    let ?h = "g\<lparr>globalcount := globalcount g - d\<rparr>"
    have "d \<le> globalcount g" using False by simp
    with linv_sub_global [OF k(1), of d] k(2)
    have h: "lat_inv ?h" "lat_value ?h + unat d = lat_value s"
      by (simp_all add: counters_of_globalcount)
    have "flushed t ?h" "counterp ?h t" using k(4,5) p by (simp_all add: flushed_def)
    from balance_lat_ok [OF h(1) t this, of n] h k(3) a' False
    show ?thesis by auto
  qed
  then show "lat_inv s'" and "lat_value s' + (if ok then unat d else 0) = lat_value s"
    and "globalcountmax s' = globalcountmax s" and "ok \<longleftrightarrow> unat d \<le> lat_value s" by blast+
qed

lemma lat_register_ok:
  "lat_inv s \<Longrightarrow> lat_inv (count_register_thread t s)"
  by (simp add: linv_def count_register_thread_def)

lemma lat_unregister_ok:
  "lat_inv s \<Longrightarrow> t < NR_THREADS \<Longrightarrow> lat_inv (count_unregister_thread t s)"
  using lat_globalize_ok [of s t] by (auto simp: linv_def count_unregister_thread_def Let_def)

lemma lat_step_inv:
  assumes "lat_step s s'" and "lat_inv s"
  shows "lat_inv s' \<and> globalcountmax s' = globalcountmax s"
  using assms
proof (induction rule: lat_step.induct)
  case (fast_add t s d old ok s')
  then show ?case using add_fast_ok [of s t d old ok s'] by blast
next
  case (fast_sub t s d old ok s')
  then show ?case using sub_fast_ok [of s t d old ok s'] by blast
next
  case (slow_add t s n d ok s')
  then show ?case using add_slow_ok [of s t n d ok s'] by blast
next
  case (slow_sub t s n d ok s')
  then show ?case using sub_slow_ok [of s t n d ok s'] by blast
next
  case (register t s)
  then show ?case using lat_register_ok [of s t] by (simp add: count_register_thread_def)
next
  case (unregister t s)
  then show ?case using lat_unregister_ok [of s t] lat_globalize_ok(3) [of s t]
    by (simp add: count_unregister_thread_def Let_def)
qed

lemma lat_reachable_inv:
  assumes "reachable (\<lambda>s. s = lat_init gmax) lat_step s"
  shows "lat_inv s \<and> globalcountmax s = gmax"
  using assms
proof (rule reachable_invariant)
  show "lat_inv s \<and> globalcountmax s = gmax" if "s = lat_init gmax" for s
    using that
    by (simp add: lat_init_def linv_def split_counterandmax_int_def)
  show "lat_inv s' \<and> globalcountmax s' = gmax"
    if "lat_inv s \<and> globalcountmax s = gmax" and "lat_step s s'" for s s'
    using lat_step_inv [OF that(2)] that(1) by simp
qed

lemma add_fast_current: "add_fast t d (counterandmax s t) s \<noteq> Exchanged False s'"
  by (simp add: add_fast_def split_counterandmax_def Let_def split_beta)

lemma sub_fast_current: "sub_fast t d (counterandmax s t) s \<noteq> Exchanged False s'"
  by (simp add: sub_fast_def split_counterandmax_def Let_def split_beta)

lemma lat_add_ok:
  assumes i: "lat_inv s" and t: "t < NR_THREADS" and p: "counterp s t"
    and a: "add_count n t d s = (ok, s')"
  shows "lat_inv s'" and "lat_value s' = lat_value s + (if ok then unat d else 0)"
    and "ok \<longleftrightarrow> lat_value s + unat d \<le> unat (globalcountmax s)"
proof -
  have "lat_inv s' \<and> lat_value s' = lat_value s + (if ok then unat d else 0) \<and>
    (ok \<longleftrightarrow> lat_value s + unat d \<le> unat (globalcountmax s))"
  proof (cases "add_fast t d (counterandmax s t) s")
    case Slowpath
    with a add_slow_ok [OF i t p, of n d] show ?thesis by (simp add: add_count_def)
  next
    case (Exchanged b s'')
    with a add_fast_current [of t d s s''] have e: "ok" "s'' = s'" "b" by (auto simp: add_count_def)
    with add_fast_ok [OF i t Exchanged] linv_limit [of "counters_of s'"] show ?thesis by simp
  qed
  then show "lat_inv s'" and "lat_value s' = lat_value s + (if ok then unat d else 0)"
    and "ok \<longleftrightarrow> lat_value s + unat d \<le> unat (globalcountmax s)" by blast+
qed

lemma lat_sub_ok:
  assumes i: "lat_inv s" and t: "t < NR_THREADS" and p: "counterp s t"
    and a: "sub_count n t d s = (ok, s')"
  shows "lat_inv s'" and "lat_value s' + (if ok then unat d else 0) = lat_value s"
    and "ok \<longleftrightarrow> unat d \<le> lat_value s"
proof -
  have "lat_inv s' \<and> lat_value s' + (if ok then unat d else 0) = lat_value s \<and>
    (ok \<longleftrightarrow> unat d \<le> lat_value s)"
  proof (cases "sub_fast t d (counterandmax s t) s")
    case Slowpath
    with a sub_slow_ok [OF i t p, of n d] show ?thesis by (simp add: sub_count_def)
  next
    case (Exchanged b s'')
    with a sub_fast_current [of t d s s''] have e: "ok" "s'' = s'" "b" by (auto simp: sub_count_def)
    with sub_fast_ok [OF i t Exchanged] show ?thesis by simp
  qed
  then show "lat_inv s'" and "lat_value s' + (if ok then unat d else 0) = lat_value s"
    and "ok \<longleftrightarrow> unat d \<le> lat_value s" by blast+
qed

lemma read_count_abs:
  "read_count seen s =
     Count_Lim.read_count (\<lambda>t. ul (fst (split_counterandmax_int (seen t)))) (counters_of s)"
  by (simp add: read_count_def Count_Lim.read_count_def split_counterandmax_def split_beta cong: if_cong)

lemma lat_read_exact: "lat_inv s \<Longrightarrow> unat (read_count (counterandmax s) s) = lat_value s"
  using cl.read_exact [of "counters_of s"] by (simp add: read_count_abs counters_of_def lim_state.make_def)

text \<open>C6: the limit is exact. However fast paths, slow paths, registration and deregistration
  interleave, an addition succeeds exactly when the value plus its argument is within the
  limit, and a subtraction exactly when its argument is within the value; each changes the
  value by its argument when it succeeds and leaves it when it fails, and a read that no fast
  path overlaps returns the value.\<close>

theorem count_lim_atomic_exact:
  assumes r: "reachable (\<lambda>s. s = lat_init gmax) lat_step s"
    and t: "t < NR_THREADS" "counterp s t"
  shows "(case add_count n t d s of (ok, s') \<Rightarrow>
      (ok \<longleftrightarrow> lat_value s + unat d \<le> unat gmax) \<and>
      lat_value s' = lat_value s + (if ok then unat d else 0)) \<and>
    (case sub_count n t d s of (ok, s') \<Rightarrow>
      (ok \<longleftrightarrow> unat d \<le> lat_value s) \<and>
      lat_value s' + (if ok then unat d else 0) = lat_value s) \<and>
    unat (read_count (counterandmax s) s) = lat_value s"
proof -
  from lat_reachable_inv [OF r] have i: "lat_inv s" and g: "globalcountmax s = gmax" by blast+
  obtain ok s' where a: "add_count n t d s = (ok, s')" by (cases "add_count n t d s")
  obtain ok' s'' where b: "sub_count n t d s = (ok', s'')" by (cases "sub_count n t d s")
  show ?thesis
    using lat_add_ok [OF i t a] lat_sub_ok [OF i t b] lat_read_exact [OF i] g
    by (simp add: a b)
qed

theorem count_lim_atomic_exact_witness:
  "\<exists>s s'. reachable (\<lambda>s. s = lat_init 100) lat_step s \<and> counterp s 4 \<and>
     add_count 3 4 101 s = (False, s') \<and> lat_value s' = lat_value s"
proof -
  let ?s = "count_register_thread 4 (lat_init 100)"
  have r: "reachable (\<lambda>s. s = lat_init 100) lat_step ?s"
    by (rule reachable.next_state [OF reachable.start], rule refl, rule lat_step.register)
      (simp add: NR_THREADS_def)
  have p: "counterp ?s 4" by (simp add: count_register_thread_def)
  have v: "lat_value ?s = 0"
    by (simp add: count_value_def count_register_thread_def lat_init_def split_counterandmax_int_def)
  obtain ok s' where a: "add_count 3 4 101 ?s = (ok, s')" by (cases "add_count 3 4 101 ?s")
  from count_lim_atomic_exact [OF r _ p, where n = 3 and d = 101] a v have "\<not> ok" "lat_value s' = lat_value ?s"
    by (auto simp: NR_THREADS_def)
  with r p a show ?thesis by auto
qed

text \<open>Packing a counter and its maximum into one word and unpacking it are inverse to each
  other.\<close>

theorem counterandmax_roundtrip:
  "(c \<le> MAX_COUNTERMAX \<and> cm \<le> MAX_COUNTERMAX \<longrightarrow>
      split_counterandmax_int (merge_counterandmax c cm) = (c, cm)) \<and>
   merge_counterandmax (fst (split_counterandmax_int w)) (snd (split_counterandmax_int w)) = w"
  using merge_split merge_of_split [of w] by auto

theorem counterandmax_roundtrip_witness:
  "split_counterandmax_int (merge_counterandmax 7 65535) = (7, 65535)"
  using counterandmax_roundtrip [of 7 65535] by (simp add: MAX_COUNTERMAX_num)

end
