(* ===== verification/Count_Lim_Sig.thy ===== *)
theory Count_Lim_Sig
  imports Count_Lim_App
begin

text \<open>
  count/count_lim_sig.c: the exact limit counter whose slow path steals the counters of other
  threads with signals. A fast path runs without atomic operations between two writes of
  \<open>counting\<close>; a thief asks for the counter of a thread by \<open>theft = THEFT_REQ\<close> and a signal, and
  takes it when \<open>theft\<close> is \<open>THEFT_READY\<close>.

  The model has one transition per access of a shared or of a signal-shared variable on the fast
  path, in the signal handler and in both loops of \<open>flush_local_count\<close>; a handler runs on its
  thread, so the thread makes no other step before the handler ends. Statements between the lock
  and the unlock that touch only data of the lock holder are one transition.
\<close>

datatype theft = THEFT_IDLE | THEFT_REQ | THEFT_ACK | THEFT_READY

datatype sig_op = Add ulong | Sub ulong

datatype sig_pc = Idle
  | Fast1 sig_op              \<comment> \<open>\<open>counting\<close> is set\<close>
  | Fast2 sig_op              \<comment> \<open>\<open>theft <= THEFT_REQ\<close> was seen\<close>
  | Fast3 sig_op ulong        \<comment> \<open>the new value has been computed\<close>
  | Fast4 sig_op bool         \<comment> \<open>behind the \<open>if\<close>, with \<open>fastpath\<close>\<close>
  | Fast5 sig_op bool         \<comment> \<open>\<open>counting\<close> is clear\<close>
  | Fast6 sig_op bool         \<comment> \<open>\<open>theft == THEFT_ACK\<close> was seen\<close>
  | Slow sig_op | Locked sig_op | Commit sig_op
  | Flush sig_op nat          \<comment> \<open>first loop of \<open>flush_local_count\<close>\<close>
  | Wait sig_op nat           \<comment> \<open>second loop\<close>
  | Steal1 sig_op nat | Steal2 sig_op nat | Steal3 sig_op nat | Steal4 sig_op nat

text \<open>Where the signal handler of a thread is.\<close>

datatype handler = HNone | HAck | HTest | HReady

record sig_state =
  lims :: lim_state
  theft :: "nat \<Rightarrow> theft"
  counting :: "nat \<Rightarrow> bool"
  pending :: "nat \<Rightarrow> bool"      \<comment> \<open>SIGUSR1 has been sent and not been delivered\<close>
  handler :: "nat \<Rightarrow> handler"
  gblcnt_mutex :: "nat option"
  cpc :: "nat \<Rightarrow> sig_pc"

definition MAX_COUNTERMAX :: ulong where
  "MAX_COUNTERMAX = 100"

definition globalize_count :: "nat \<Rightarrow> lim_state \<Rightarrow> lim_state" where
  "globalize_count t s =
     s\<lparr>globalcount := globalcount s + counter s t, counter := (counter s)(t := 0),
       globalreserve := globalreserve s - countermax s t, countermax := (countermax s)(t := 0)\<rparr>"

text \<open>\<open>n\<close> is the result of \<open>num_online_threads\<close>.\<close>

definition balance_count :: "ulong \<Rightarrow> nat \<Rightarrow> lim_state \<Rightarrow> lim_state" where
  "balance_count n t s =
     (let m = (globalcountmax s - globalcount s - globalreserve s) div n;
          m = (if m > MAX_COUNTERMAX then MAX_COUNTERMAX else m);
          s = s\<lparr>countermax := (countermax s)(t := m), globalreserve := globalreserve s + m\<rparr>;
          c = (if m div 2 > globalcount s then globalcount s else m div 2)
      in s\<lparr>counter := (counter s)(t := c), globalcount := globalcount s - c\<rparr>)"

text \<open>The conditions and assignments in which \<open>add_count\<close> and \<open>sub_count\<close> differ.\<close>

fun fits :: "sig_op \<Rightarrow> nat \<Rightarrow> lim_state \<Rightarrow> bool" where
  "fits (Add d) t l \<longleftrightarrow> countermax l t - counter l t \<ge> d"
| "fits (Sub d) t l \<longleftrightarrow> counter l t \<ge> d"

fun updated :: "sig_op \<Rightarrow> ulong \<Rightarrow> ulong" where
  "updated (Add d) c = c + d"
| "updated (Sub d) c = c - d"

fun short :: "sig_op \<Rightarrow> lim_state \<Rightarrow> bool" where
  "short (Add d) l \<longleftrightarrow> globalcountmax l - globalcount l - globalreserve l < d"
| "short (Sub d) l \<longleftrightarrow> globalcount l < d"

definition global_op :: "sig_op \<Rightarrow> lim_state \<Rightarrow> lim_state" where
  "global_op op l = l\<lparr>globalcount := updated op (globalcount l)\<rparr>"

text \<open>
  The steps of \<open>flush_local_count_sig\<close> on thread \<open>t\<close>: the delivery with the test of \<open>theft\<close>, the
  write of \<open>THEFT_ACK\<close>, the test of \<open>counting\<close> and the write of \<open>THEFT_READY\<close>.
\<close>

inductive flush_local_count_sig :: "nat \<Rightarrow> sig_state \<Rightarrow> sig_state \<Rightarrow> bool" for t s where
  deliver: "handler s t = HNone \<Longrightarrow> pending s t \<Longrightarrow> flush_local_count_sig t s
     (s\<lparr>pending := (pending s)(t := False),
        handler := (handler s)(t := if theft s t \<noteq> THEFT_REQ then HNone else HAck)\<rparr>)"
| set_ack: "handler s t = HAck \<Longrightarrow> flush_local_count_sig t s
     (s\<lparr>theft := (theft s)(t := THEFT_ACK), handler := (handler s)(t := HTest)\<rparr>)"
| test_counting: "handler s t = HTest \<Longrightarrow> flush_local_count_sig t s
     (s\<lparr>handler := (handler s)(t := if \<not> counting s t then HReady else HNone)\<rparr>)"
| set_ready: "handler s t = HReady \<Longrightarrow> flush_local_count_sig t s
     (s\<lparr>theft := (theft s)(t := THEFT_READY), handler := (handler s)(t := HNone)\<rparr>)"

text \<open>\<open>Took op ok\<close> marks the step at which a call takes effect and its result is decided.\<close>

datatype event = Tau | Took sig_op bool

text \<open>The fast path of \<open>add_count\<close> and \<open>sub_count\<close>.\<close>

inductive fast_step :: "nat \<Rightarrow> sig_state \<Rightarrow> event \<Rightarrow> sig_state \<Rightarrow> bool" for t s where
  call: "cpc s t = Idle \<Longrightarrow> counterp (lims s) t \<Longrightarrow> fast_step t s Tau
     (s\<lparr>counting := (counting s)(t := True), cpc := (cpc s)(t := Fast1 op)\<rparr>)"
| check_theft: "cpc s t = Fast1 op \<Longrightarrow> fast_step t s Tau
     (s\<lparr>cpc := (cpc s)(t := if theft s t = THEFT_IDLE \<or> theft s t = THEFT_REQ
        then Fast2 op else Fast4 op False)\<rparr>)"
| check_room: "cpc s t = Fast2 op \<Longrightarrow> fast_step t s Tau
     (s\<lparr>cpc := (cpc s)(t := if fits op t (lims s)
        then Fast3 op (updated op (counter (lims s) t)) else Fast4 op False)\<rparr>)"
| write_counter: "cpc s t = Fast3 op v \<Longrightarrow> fast_step t s (Took op True)
     (s\<lparr>lims := (lims s)\<lparr>counter := (counter (lims s))(t := v)\<rparr>, cpc := (cpc s)(t := Fast4 op True)\<rparr>)"
| clear_counting: "cpc s t = Fast4 op fastpath \<Longrightarrow> fast_step t s Tau
     (s\<lparr>counting := (counting s)(t := False), cpc := (cpc s)(t := Fast5 op fastpath)\<rparr>)"
| test_ack: "cpc s t = Fast5 op fastpath \<Longrightarrow> fast_step t s Tau
     (s\<lparr>cpc := (cpc s)(t := if theft s t = THEFT_ACK then Fast6 op fastpath
        else if fastpath then Idle else Slow op)\<rparr>)"
| write_ready: "cpc s t = Fast6 op fastpath \<Longrightarrow> fast_step t s Tau
     (s\<lparr>theft := (theft s)(t := THEFT_READY),
        cpc := (cpc s)(t := if fastpath then Idle else Slow op)\<rparr>)"

text \<open>Their slow path, and \<open>flush_local_count\<close>.\<close>

inductive slow_step :: "nat \<Rightarrow> sig_state \<Rightarrow> event \<Rightarrow> sig_state \<Rightarrow> bool" for t s where
  acquire: "cpc s t = Slow op \<Longrightarrow> gblcnt_mutex s = None \<Longrightarrow> slow_step t s Tau
     (s\<lparr>gblcnt_mutex := Some t, cpc := (cpc s)(t := Locked op)\<rparr>)"
| globalize: "cpc s t = Locked op \<Longrightarrow> l = globalize_count t (lims s) \<Longrightarrow> slow_step t s Tau
     (s\<lparr>lims := l, cpc := (cpc s)(t := if short op l then Flush op 0 else Commit op)\<rparr>)"
| commit: "cpc s t = Commit op \<Longrightarrow> 0 < n \<Longrightarrow> slow_step t s (Took op True)
     (s\<lparr>lims := balance_count n t (global_op op (lims s)), gblcnt_mutex := None,
        cpc := (cpc s)(t := Idle)\<rparr>)"
| request: "cpc s t = Flush op k \<Longrightarrow> k < NR_THREADS \<Longrightarrow> counterp (lims s) k \<Longrightarrow>
     countermax (lims s) k \<noteq> 0 \<Longrightarrow> slow_step t s Tau
     (s\<lparr>theft := (theft s)(k := THEFT_REQ), pending := (pending s)(k := True),
        cpc := (cpc s)(t := Flush op (Suc k))\<rparr>)"
| nothing_to_steal: "cpc s t = Flush op k \<Longrightarrow> k < NR_THREADS \<Longrightarrow> counterp (lims s) k \<Longrightarrow>
     countermax (lims s) k = 0 \<Longrightarrow> slow_step t s Tau
     (s\<lparr>theft := (theft s)(k := THEFT_READY), cpc := (cpc s)(t := Flush op (Suc k))\<rparr>)"
| request_skip: "cpc s t = Flush op k \<Longrightarrow> k < NR_THREADS \<Longrightarrow> \<not> counterp (lims s) k \<Longrightarrow> slow_step t s Tau
     (s\<lparr>cpc := (cpc s)(t := Flush op (Suc k))\<rparr>)"
| request_end: "cpc s t = Flush op NR_THREADS \<Longrightarrow> slow_step t s Tau
     (s\<lparr>cpc := (cpc s)(t := Wait op 0)\<rparr>)"
| wait_skip: "cpc s t = Wait op k \<Longrightarrow> k < NR_THREADS \<Longrightarrow> \<not> counterp (lims s) k \<Longrightarrow> slow_step t s Tau
     (s\<lparr>cpc := (cpc s)(t := Wait op (Suc k))\<rparr>)"
| wait_poll: "cpc s t = Wait op k \<Longrightarrow> k < NR_THREADS \<Longrightarrow> counterp (lims s) k \<Longrightarrow>
     theft s k \<noteq> THEFT_READY \<Longrightarrow> slow_step t s Tau
     (s\<lparr>pending := (pending s)(k := pending s k \<or> theft s k = THEFT_REQ)\<rparr>)"
| wait_ready: "cpc s t = Wait op k \<Longrightarrow> k < NR_THREADS \<Longrightarrow> counterp (lims s) k \<Longrightarrow>
     theft s k = THEFT_READY \<Longrightarrow> slow_step t s Tau (s\<lparr>cpc := (cpc s)(t := Steal1 op k)\<rparr>)"
| steal_count: "cpc s t = Steal1 op k \<Longrightarrow> slow_step t s Tau
     (s\<lparr>lims := (lims s)\<lparr>globalcount := globalcount (lims s) + counter (lims s) k\<rparr>,
        cpc := (cpc s)(t := Steal2 op k)\<rparr>)"
| clear_count: "cpc s t = Steal2 op k \<Longrightarrow> slow_step t s Tau
     (s\<lparr>lims := (lims s)\<lparr>counter := (counter (lims s))(k := 0)\<rparr>, cpc := (cpc s)(t := Steal3 op k)\<rparr>)"
| steal_max: "cpc s t = Steal3 op k \<Longrightarrow> slow_step t s Tau
     (s\<lparr>lims := (lims s)\<lparr>globalreserve := globalreserve (lims s) - countermax (lims s) k,
        countermax := (countermax (lims s))(k := 0)\<rparr>, cpc := (cpc s)(t := Steal4 op k)\<rparr>)"
| steal_end: "cpc s t = Steal4 op k \<Longrightarrow> slow_step t s Tau
     (s\<lparr>theft := (theft s)(k := THEFT_IDLE), cpc := (cpc s)(t := Wait op (Suc k))\<rparr>)"
| flushed: "cpc s t = Wait op NR_THREADS \<Longrightarrow> \<not> short op (lims s) \<Longrightarrow> slow_step t s Tau
     (s\<lparr>cpc := (cpc s)(t := Commit op)\<rparr>)"
| refuse: "cpc s t = Wait op NR_THREADS \<Longrightarrow> short op (lims s) \<Longrightarrow> slow_step t s (Took op False)
     (s\<lparr>gblcnt_mutex := None, cpc := (cpc s)(t := Idle)\<rparr>)"

definition count_register_thread :: "nat \<Rightarrow> lim_state \<Rightarrow> lim_state" where
  "count_register_thread t s = s\<lparr>counterp := (counterp s)(t := True)\<rparr>"

definition count_unregister_thread :: "nat \<Rightarrow> lim_state \<Rightarrow> lim_state" where
  "count_unregister_thread t s =
     (let s = globalize_count t s in s\<lparr>counterp := (counterp s)(t := False)\<rparr>)"

text \<open>A thread outside a signal handler takes a step of its program, or its handler does.\<close>

inductive sig_step :: "sig_state \<Rightarrow> event \<Rightarrow> sig_state \<Rightarrow> bool" where
  fast: "t < NR_THREADS \<Longrightarrow> handler s t = HNone \<Longrightarrow> fast_step t s e s' \<Longrightarrow> sig_step s e s'"
| slow: "t < NR_THREADS \<Longrightarrow> handler s t = HNone \<Longrightarrow> slow_step t s e s' \<Longrightarrow> sig_step s e s'"
| signal: "t < NR_THREADS \<Longrightarrow> flush_local_count_sig t s s' \<Longrightarrow> sig_step s Tau s'"
| register: "t < NR_THREADS \<Longrightarrow> handler s t = HNone \<Longrightarrow> cpc s t = Idle \<Longrightarrow> gblcnt_mutex s = None \<Longrightarrow>
     sig_step s Tau (s\<lparr>lims := count_register_thread t (lims s)\<rparr>)"
| unregister: "t < NR_THREADS \<Longrightarrow> handler s t = HNone \<Longrightarrow> cpc s t = Idle \<Longrightarrow> gblcnt_mutex s = None \<Longrightarrow>
     counterp (lims s) t \<Longrightarrow> sig_step s Tau (s\<lparr>lims := count_unregister_thread t (lims s)\<rparr>)"

text \<open>\<open>seen t\<close> is what the \<open>READ_ONCE\<close> of \<open>*counterp[t]\<close> returns.\<close>

definition read_count :: "(nat \<Rightarrow> ulong) \<Rightarrow> lim_state \<Rightarrow> ulong" where
  "read_count seen s =
     fold (\<lambda>t sum. if counterp s t then sum + seen t else sum) [0..<NR_THREADS] (globalcount s)"

definition sig_init :: "ulong \<Rightarrow> sig_state" where
  "sig_init gmax = \<lparr>lims = lim_init gmax, theft = (\<lambda>_. THEFT_IDLE), counting = (\<lambda>_. False),
     pending = (\<lambda>_. False), handler = (\<lambda>_. HNone), gblcnt_mutex = None, cpc = (\<lambda>_. Idle)\<rparr>"

section \<open>The control invariant\<close>

fun held :: "sig_pc \<Rightarrow> bool" where
  "held (Locked op) = True" | "held (Commit op) = True" | "held (Flush op k) = True"
| "held (Wait op k) = True" | "held (Steal1 op k) = True" | "held (Steal2 op k) = True"
| "held (Steal3 op k) = True" | "held (Steal4 op k) = True" | "held _ = False"

fun fastpc :: "sig_pc \<Rightarrow> bool" where
  "fastpc (Fast1 op) = True" | "fastpc (Fast2 op) = True" | "fastpc (Fast3 op v) = True"
| "fastpc (Fast4 op fp) = True" | "fastpc _ = False"

fun tailpc :: "sig_pc \<Rightarrow> bool" where
  "tailpc (Fast5 op fp) = True" | "tailpc (Fast6 op fp) = True" | "tailpc _ = False"

text \<open>The threads whose counters the thief has asked for and not yet given back.\<close>

fun covers :: "sig_pc \<Rightarrow> nat \<Rightarrow> bool" where
  "covers (Flush op k) t = (t < k)" | "covers (Wait op k) t = (k \<le> t)"
| "covers (Steal1 op k) t = (k \<le> t)" | "covers (Steal2 op k) t = (k \<le> t)"
| "covers (Steal3 op k) t = (k \<le> t)" | "covers (Steal4 op k) t = (k \<le> t)" | "covers _ t = False"

fun stealing :: "sig_pc \<Rightarrow> nat option" where
  "stealing (Steal1 op k) = Some k" | "stealing (Steal2 op k) = Some k"
| "stealing (Steal3 op k) = Some k" | "stealing (Steal4 op k) = Some k" | "stealing _ = None"

fun fast6 :: "sig_pc \<Rightarrow> bool" where
  "fast6 (Fast6 op fp) = True" | "fast6 _ = False"

text \<open>How the variables of one thread fit together.\<close>

definition lok :: "sig_pc \<Rightarrow> theft \<Rightarrow> bool \<Rightarrow> bool \<Rightarrow> handler \<Rightarrow> bool" where
  "lok p th ct pd hn \<longleftrightarrow>
     (ct \<longleftrightarrow> fastpc p) \<and> (hn = HAck \<longrightarrow> th = THEFT_REQ) \<and> (hn = HTest \<longrightarrow> th = THEFT_ACK) \<and>
     (hn = HReady \<longrightarrow> th = THEFT_ACK \<and> \<not> ct) \<and> (fast6 p \<longrightarrow> th = THEFT_ACK \<and> hn = HNone) \<and>
     (th = THEFT_REQ \<longrightarrow> pd \<or> hn = HAck) \<and> (th = THEFT_ACK \<and> hn = HNone \<longrightarrow> fastpc p \<or> tailpc p)"

definition locals_ok :: "sig_state \<Rightarrow> bool" where
  "locals_ok s \<longleftrightarrow> (\<forall>t. lok (cpc s t) (theft s t) (counting s t) (pending s t) (handler s t))"

definition mutex_ok :: "sig_state \<Rightarrow> bool" where
  "mutex_ok s \<longleftrightarrow> (\<forall>t. held (cpc s t) \<longleftrightarrow> gblcnt_mutex s = Some t) \<and>
     (\<forall>t. cpc s t \<noteq> Idle \<longrightarrow> counterp (lims s) t) \<and> (\<forall>t. counterp (lims s) t \<longrightarrow> t < NR_THREADS)"

text \<open>Exactly the registered threads that the thief covers are out of \<open>THEFT_IDLE\<close>.\<close>

definition marked :: "sig_state \<Rightarrow> nat \<Rightarrow> bool" where
  "marked s t \<longleftrightarrow> (case gblcnt_mutex s of None \<Rightarrow> False | Some u \<Rightarrow> covers (cpc s u) t)"

definition victim :: "sig_state \<Rightarrow> nat option" where
  "victim s = (case gblcnt_mutex s of None \<Rightarrow> None | Some u \<Rightarrow> stealing (cpc s u))"

definition marks_ok :: "sig_state \<Rightarrow> bool" where
  "marks_ok s \<longleftrightarrow> (\<forall>t. theft s t \<noteq> THEFT_IDLE \<longleftrightarrow> counterp (lims s) t \<and> marked s t) \<and>
     (\<forall>k. victim s = Some k \<longrightarrow> theft s k = THEFT_READY \<and> k < NR_THREADS)"

end
