(* ===== verification/Count_Lim_Sig_Inv.thy ===== *)
theory Count_Lim_Sig_Inv
  imports Count_Lim_Sig
begin

text \<open>
  The control invariant of the signal handshake of count_lim_sig.c, in three parts: the variables
  of each thread, the mutex, and the marks that the thief sets.
\<close>

section \<open>The variables of a thread\<close>

lemma locals_elsewhere:
  assumes "locals_ok s" and "lok (cpc s' t) (theft s' t) (counting s' t) (pending s' t) (handler s' t)"
    and "\<And>u. u \<noteq> t \<Longrightarrow> cpc s' u = cpc s u \<and> theft s' u = theft s u \<and> counting s' u = counting s u \<and>
      pending s' u = pending s u \<and> handler s' u = handler s u"
  shows "locals_ok s'"
  unfolding locals_ok_def
proof
  show "lok (cpc s' u) (theft s' u) (counting s' u) (pending s' u) (handler s' u)" for u
    using assms by (cases "u = t") (simp_all add: locals_ok_def)
qed

lemma locals_at: "locals_ok s \<Longrightarrow> lok (cpc s t) (theft s t) (counting s t) (pending s t) (handler s t)"
  by (simp add: locals_ok_def)

text \<open>A thread that holds the mutex is at none of the points that \<open>lok\<close> restricts.\<close>

lemma lok_held: "held p \<Longrightarrow> held p' \<or> p' = Idle \<Longrightarrow> lok p th ct pd hn \<Longrightarrow> lok p' th ct pd hn"
  by (cases p; cases p') (auto simp: lok_def)

lemma locals_fast:
  assumes "locals_ok s" and "handler s t = HNone" and "fast_step t s e s'"
  shows "locals_ok s'"
  using assms(3)
proof cases
  case (call op)
  with locals_at [OF assms(1), of t] assms(2) have "lok (Fast1 op) (theft s t) True (pending s t) HNone"
    by (auto simp: lok_def)
  with call assms(1) show ?thesis by (auto simp: locals_ok_def assms(2))
next
  case (check_theft op)
  with locals_at [OF assms(1), of t] assms(2)
  have "lok (cpc s' t) (theft s t) (counting s t) (pending s t) HNone"
    by (auto simp: lok_def)
  with check_theft assms(1) show ?thesis by (auto simp: locals_ok_def assms(2))
next
  case (check_room op)
  with locals_at [OF assms(1), of t] assms(2)
  have "lok (cpc s' t) (theft s t) (counting s t) (pending s t) HNone"
    by (auto simp: lok_def)
  with check_room assms(1) show ?thesis by (auto simp: locals_ok_def assms(2))
next
  case (write_counter op v)
  with locals_at [OF assms(1), of t] assms(2)
  have "lok (Fast4 op True) (theft s t) (counting s t) (pending s t) HNone"
    by (auto simp: lok_def)
  with write_counter assms(1) show ?thesis by (auto simp: locals_ok_def assms(2))
next
  case (clear_counting op fp)
  with locals_at [OF assms(1), of t] assms(2)
  have "lok (Fast5 op fp) (theft s t) False (pending s t) HNone"
    by (auto simp: lok_def)
  with clear_counting assms(1) show ?thesis by (auto simp: locals_ok_def assms(2))
next
  case (test_ack op fp)
  with locals_at [OF assms(1), of t] assms(2)
  have "lok (cpc s' t) (theft s t) (counting s t) (pending s t) HNone"
    by (auto simp: lok_def)
  with test_ack assms(1) show ?thesis by (auto simp: locals_ok_def assms(2))
next
  case (write_ready op fp)
  with locals_at [OF assms(1), of t] assms(2)
  have "lok (cpc s' t) THEFT_READY (counting s t) (pending s t) HNone"
    by (auto simp: lok_def)
  with write_ready assms(1) show ?thesis by (auto simp: locals_ok_def assms(2))
qed

lemma locals_signal:
  assumes "locals_ok s" and "flush_local_count_sig t s s'"
  shows "locals_ok s'"
proof -
  have "lok (cpc s' t) (theft s' t) (counting s' t) (pending s' t) (handler s' t)"
    using assms(2) locals_at [OF assms(1), of t]
    by cases (auto simp: lok_def)
  then show ?thesis
    by (rule locals_elsewhere [OF assms(1)]) (use assms(2) in \<open>cases, simp_all\<close>)
qed

lemma lok_theft:
  "lok p THEFT_IDLE ct pd hn \<Longrightarrow> lok p THEFT_REQ ct True hn"
  "lok p THEFT_IDLE ct pd hn \<Longrightarrow> lok p THEFT_READY ct pd hn"
  "lok p THEFT_READY ct pd hn \<Longrightarrow> lok p THEFT_IDLE ct pd hn"
  by (auto simp: lok_def)

lemma lok_pending: "lok p th ct pd hn \<Longrightarrow> lok p th ct (pd \<or> b) hn"
  by (auto simp: lok_def)

text \<open>A step that moves a thread that holds the mutex, and changes the mark of a thread.\<close>

lemma locals_move:
  assumes i: "locals_ok s" and "held (cpc s t)" and "held p \<or> p = Idle"
    and "\<And>q. lok q (theft s k) (counting s k) (pending s k) (handler s k) \<Longrightarrow>
      lok q v (counting s k) b (handler s k)"
  shows "locals_ok (s\<lparr>lims := l, theft := (theft s)(k := v), pending := (pending s)(k := b),
    gblcnt_mutex := m, cpc := (cpc s)(t := p)\<rparr>)"
proof -
  have "lok (((cpc s)(t := p)) u) (theft s u) (counting s u) (pending s u) (handler s u)" for u
    using locals_at [OF i, of u] lok_held [OF assms(2,3)] by auto
  with assms(4) show ?thesis by (auto simp: locals_ok_def)
qed

lemma locals_move_pc:
  assumes "locals_ok s" and "held (cpc s t)" and "held p \<or> p = Idle"
  shows "locals_ok (s\<lparr>lims := l, gblcnt_mutex := m, cpc := (cpc s)(t := p)\<rparr>)"
  using locals_move [OF assms, where k = t and v = "theft s t" and b = "pending s t" and l = l and m = m]
  by simp

section \<open>The mutex\<close>

lemma covers_held: "covers p t \<Longrightarrow> held p"
  by (cases p) auto

lemma stealing_held: "stealing p = Some k \<Longrightarrow> held p"
  by (cases p) auto

lemma fast_frame:
  assumes "fast_step t s e s'"
  shows "gblcnt_mutex s' = gblcnt_mutex s" and "\<not> held (cpc s t)" and "\<not> held (cpc s' t)"
    and "u \<noteq> t \<Longrightarrow> cpc s' u = cpc s u" and "counterp (lims s') = counterp (lims s)"
    and "theft s' u = theft s u \<or> u = t \<and> fast6 (cpc s t) \<and> theft s' u = THEFT_READY"
    and "cpc s' t = Idle \<or> cpc s t \<noteq> Idle \<or> counterp (lims s) t"
  by (rule fast_step.cases [OF assms]; auto split: if_splits)+

lemma mutex_fast:
  assumes "mutex_ok s" and "fast_step t s e s'"
  shows "mutex_ok s'"
proof -
  note f = fast_frame [OF assms(2)]
  have "held (cpc s' u) \<longleftrightarrow> gblcnt_mutex s' = Some u" for u
    using assms(1) f(1-3) f(4) [of u] by (cases "u = t") (simp_all add: mutex_ok_def)
  moreover have "cpc s' u \<noteq> Idle \<longrightarrow> counterp (lims s') u" for u
    using assms(1) f(5,7) f(4) [of u] by (cases "u = t") (auto simp: mutex_ok_def)
  ultimately show ?thesis using assms(1) f(5) by (simp add: mutex_ok_def)
qed

lemma marks_fast:
  assumes "marks_ok s" and "mutex_ok s" and l: "locals_ok s" and "fast_step t s e s'"
  shows "marks_ok s'"
proof -
  note f = fast_frame [OF assms(4)]
  have m: "gblcnt_mutex s \<noteq> Some t" using assms(2) f(2) by (simp add: mutex_ok_def)
  have "marked s' = marked s" "victim s' = victim s"
    using m f(1,4) by (auto simp: marked_def victim_def fun_eq_iff split: option.splits)
  moreover have "theft s' u \<noteq> THEFT_IDLE \<longleftrightarrow> theft s u \<noteq> THEFT_IDLE"
    "theft s u = THEFT_READY \<longrightarrow> theft s' u = THEFT_READY" for u
    using f(6) [of u] locals_at [OF l, of t] by (auto simp: lok_def)
  ultimately show ?thesis using assms(1) f(5) by (auto simp: marks_ok_def)
qed

section \<open>Steps of the thief\<close>

lemma mutex_move:
  assumes "mutex_ok s" and "held (cpc s t)" and "held p" and "counterp l = counterp (lims s)"
  shows "mutex_ok (s\<lparr>lims := l, theft := f, pending := g, cpc := (cpc s)(t := p)\<rparr>)"
proof -
  have "cpc s t \<noteq> Idle" using assms(2) by auto
  with assms show ?thesis by (auto simp: mutex_ok_def)
qed

lemma mutex_release:
  assumes "mutex_ok s" and "held (cpc s t)" and "counterp l = counterp (lims s)"
  shows "mutex_ok (s\<lparr>lims := l, gblcnt_mutex := None, cpc := (cpc s)(t := Idle)\<rparr>)"
  using assms by (auto simp: mutex_ok_def)

lemma marks_move:
  assumes m: "marks_ok s" and "mutex_ok s" and p: "held (cpc s t)" "held p"
    and l: "counterp l = counterp (lims s)"
    and cv: "\<And>x. x \<noteq> k \<Longrightarrow> counterp (lims s) x \<Longrightarrow> covers p x = covers (cpc s t) x"
    and ck: "v \<noteq> THEFT_IDLE \<longleftrightarrow> counterp (lims s) k \<and> covers p k"
    and st: "\<And>j. stealing p = Some j \<Longrightarrow> j < NR_THREADS \<and> (if j = k then v else theft s j) = THEFT_READY"
  shows "marks_ok (s\<lparr>lims := l, theft := (theft s)(k := v), pending := g, cpc := (cpc s)(t := p)\<rparr>)"
proof -
  have t: "gblcnt_mutex s = Some t" using assms(2) p(1) by (simp add: mutex_ok_def)
  have "theft s x \<noteq> THEFT_IDLE \<longleftrightarrow> counterp (lims s) x \<and> covers (cpc s t) x" for x
    using m t by (simp add: marks_ok_def marked_def)
  with t l cv ck st show ?thesis by (auto simp: marks_ok_def marked_def victim_def)
qed

lemma marks_move_pc:
  assumes "marks_ok s" and "mutex_ok s" and "held (cpc s t)" "held p" and "counterp l = counterp (lims s)"
    and "\<And>x. counterp (lims s) x \<Longrightarrow> covers p x = covers (cpc s t) x"
    and "\<And>j. stealing p = Some j \<Longrightarrow> j < NR_THREADS \<and> theft s j = THEFT_READY"
  shows "marks_ok (s\<lparr>lims := l, cpc := (cpc s)(t := p)\<rparr>)"
proof -
  have t: "gblcnt_mutex s = Some t" using assms(2,3) by (simp add: mutex_ok_def)
  have "theft s 0 \<noteq> THEFT_IDLE \<longleftrightarrow> counterp (lims s) 0 \<and> covers p 0"
    using assms(1,6) t by (auto simp: marks_ok_def marked_def)
  from marks_move [OF assms(1-6) this, where g = "pending s"] assms(7) show ?thesis by simp
qed

lemma marks_release:
  assumes "marks_ok s" and "mutex_ok s" and "held (cpc s t)" and "counterp l = counterp (lims s)"
    and "\<And>x. counterp (lims s) x \<Longrightarrow> \<not> covers (cpc s t) x"
  shows "marks_ok (s\<lparr>lims := l, gblcnt_mutex := None, cpc := (cpc s)(t := Idle)\<rparr>)"
proof -
  have t: "gblcnt_mutex s = Some t" using assms(2,3) by (simp add: mutex_ok_def)
  then have "theft s x = THEFT_IDLE" for x using assms(1,5) by (auto simp: marks_ok_def marked_def)
  then show ?thesis by (simp add: marks_ok_def marked_def victim_def)
qed

lemma marks_none:
  assumes "marks_ok s" and "gblcnt_mutex s = None"
  shows "theft s t = THEFT_IDLE"
  using assms by (auto simp: marks_ok_def marked_def)

section \<open>All steps\<close>

definition ctl :: "sig_state \<Rightarrow> bool" where
  "ctl s \<longleftrightarrow> locals_ok s \<and> mutex_ok s \<and> marks_ok s"

lemma ctl_fast:
  "ctl s \<Longrightarrow> handler s t = HNone \<Longrightarrow> fast_step t s e s' \<Longrightarrow> ctl s'"
  using locals_fast mutex_fast marks_fast by (auto simp: ctl_def)

lemma marked_cong:
  "cpc s' = cpc s \<Longrightarrow> gblcnt_mutex s' = gblcnt_mutex s \<Longrightarrow> marked s' = marked s"
  "cpc s' = cpc s \<Longrightarrow> gblcnt_mutex s' = gblcnt_mutex s \<Longrightarrow> victim s' = victim s"
  by (auto simp: marked_def victim_def fun_eq_iff split: option.split)

lemma ctl_signal:
  assumes "ctl s" and "flush_local_count_sig t s s'"
  shows "ctl s'"
proof -
  have l: "locals_ok s'" using locals_signal assms by (auto simp: ctl_def)
  have f: "cpc s' = cpc s" "gblcnt_mutex s' = gblcnt_mutex s" "lims s' = lims s"
    by (rule flush_local_count_sig.cases [OF assms(2)]; simp)+
  then have m: "marked s' = marked s" "victim s' = victim s" by (auto intro: marked_cong)
  have o: "lok (cpc s t) (theft s t) (counting s t) (pending s t) (handler s t)"
    using assms(1) by (simp add: ctl_def locals_ok_def)
  have "(theft s' u \<noteq> THEFT_IDLE \<longleftrightarrow> theft s u \<noteq> THEFT_IDLE) \<and>
    (theft s u = THEFT_READY \<longrightarrow> theft s' u = THEFT_READY)" for u
    by (rule flush_local_count_sig.cases [OF assms(2)]; use o in \<open>simp add: lok_def\<close>)
  with l f m assms(1) show ?thesis by (auto simp: ctl_def mutex_ok_def marks_ok_def)
qed

lemma ctl_move_pc:
  assumes "ctl s" and "held (cpc s t)" "held p" and "counterp l = counterp (lims s)"
    and "\<And>x. counterp (lims s) x \<Longrightarrow> covers p x = covers (cpc s t) x"
    and "\<And>j. stealing p = Some j \<Longrightarrow> j < NR_THREADS \<and> theft s j = THEFT_READY"
  shows "ctl (s\<lparr>lims := l, cpc := (cpc s)(t := p)\<rparr>)"
proof -
  have c: "locals_ok s" "mutex_ok s" "marks_ok s" using assms(1) by (simp_all add: ctl_def)
  have "locals_ok (s\<lparr>lims := l, gblcnt_mutex := gblcnt_mutex s, cpc := (cpc s)(t := p)\<rparr>)"
    using locals_move_pc [OF c(1) assms(2)] assms(3) by blast
  moreover have "mutex_ok (s\<lparr>lims := l, theft := theft s, pending := pending s, cpc := (cpc s)(t := p)\<rparr>)"
    by (rule mutex_move [OF c(2) assms(2-4)])
  ultimately show ?thesis using marks_move_pc [OF c(3,2) assms(2-6)] by (simp add: ctl_def)
qed

lemma ctl_mark:
  assumes "ctl s" and "held (cpc s t)" "held p" and "stealing p = None"
    and "\<And>x. x \<noteq> k \<Longrightarrow> counterp (lims s) x \<Longrightarrow> covers p x = covers (cpc s t) x"
    and "v \<noteq> THEFT_IDLE \<longleftrightarrow> counterp (lims s) k \<and> covers p k"
    and "\<And>q. lok q (theft s k) (counting s k) (pending s k) (handler s k) \<Longrightarrow>
      lok q v (counting s k) b (handler s k)"
  shows "ctl (s\<lparr>theft := (theft s)(k := v), pending := (pending s)(k := b), cpc := (cpc s)(t := p)\<rparr>)"
proof -
  have c: "locals_ok s" "mutex_ok s" "marks_ok s" using assms(1) by (simp_all add: ctl_def)
  have "locals_ok (s\<lparr>lims := lims s, theft := (theft s)(k := v), pending := (pending s)(k := b),
      gblcnt_mutex := gblcnt_mutex s, cpc := (cpc s)(t := p)\<rparr>)"
    using assms(3,7) by (intro locals_move [OF c(1) assms(2)]) auto
  moreover have "mutex_ok (s\<lparr>lims := lims s, theft := (theft s)(k := v), pending := (pending s)(k := b),
      cpc := (cpc s)(t := p)\<rparr>)"
    by (rule mutex_move [OF c(2) assms(2,3)]) simp
  moreover have "marks_ok (s\<lparr>lims := lims s, theft := (theft s)(k := v), pending := (pending s)(k := b),
      cpc := (cpc s)(t := p)\<rparr>)"
    by (rule marks_move [OF c(3,2) assms(2,3) _ assms(5,6)]) (use assms(4) in auto)
  ultimately show ?thesis by (simp add: ctl_def)
qed

lemma ctl_release:
  assumes "ctl s" and "held (cpc s t)" and "counterp l = counterp (lims s)"
    and "\<And>x. counterp (lims s) x \<Longrightarrow> \<not> covers (cpc s t) x"
  shows "ctl (s\<lparr>lims := l, gblcnt_mutex := None, cpc := (cpc s)(t := Idle)\<rparr>)"
proof -
  have c: "locals_ok s" "mutex_ok s" "marks_ok s" using assms(1) by (simp_all add: ctl_def)
  from locals_move_pc [OF c(1) assms(2)] mutex_release [OF c(2) assms(2,3)]
    marks_release [OF c(3,2) assms(2-4)] show ?thesis
    by (simp add: ctl_def)
qed

text \<open>The thief sees the marks: those it covers are out of \<open>THEFT_IDLE\<close>.\<close>

lemma thief_marks:
  assumes "ctl s" and "held (cpc s t)"
  shows "gblcnt_mutex s = Some t"
    and "theft s x \<noteq> THEFT_IDLE \<longleftrightarrow> counterp (lims s) x \<and> covers (cpc s t) x"
    and "stealing (cpc s t) = Some k \<Longrightarrow> theft s k = THEFT_READY \<and> k < NR_THREADS \<and> counterp (lims s) k"
proof -
  show t: "gblcnt_mutex s = Some t" using assms by (simp add: ctl_def mutex_ok_def)
  show m: "theft s x \<noteq> THEFT_IDLE \<longleftrightarrow> counterp (lims s) x \<and> covers (cpc s t) x" for x
    using assms(1) t by (simp add: ctl_def marks_ok_def marked_def)
  show "theft s k = THEFT_READY \<and> k < NR_THREADS \<and> counterp (lims s) k" if "stealing (cpc s t) = Some k"
    using assms(1) t that m [of k] by (simp add: ctl_def marks_ok_def victim_def)
qed

lemma registered_less: "ctl s \<Longrightarrow> counterp (lims s) x \<Longrightarrow> x < NR_THREADS"
  by (simp add: ctl_def mutex_ok_def)

lemma ctl_acquire:
  assumes c: "ctl s" and p: "cpc s t = Slow op" and m: "gblcnt_mutex s = None"
  shows "ctl (s\<lparr>gblcnt_mutex := Some t, cpc := (cpc s)(t := Locked op)\<rparr>)"
proof -
  have th: "theft s x = THEFT_IDLE" for x using c m by (auto simp: ctl_def intro: marks_none)
  have "lok (Locked op) (theft s t) (counting s t) (pending s t) (handler s t)"
    using c p locals_at [of s t] th [of t] by (auto simp: ctl_def lok_def)
  with c p m th show ?thesis
    by (auto simp: ctl_def locals_ok_def mutex_ok_def marks_ok_def marked_def victim_def)
qed

lemma globalize_frame [simp]:
  "counterp (globalize_count t l) = counterp l" "globalcountmax (globalize_count t l) = globalcountmax l"
  by (simp_all add: globalize_count_def)

lemma balance_frame [simp]: "counterp (balance_count n t (global_op op l)) = counterp l"
  by (simp add: balance_count_def global_op_def Let_def)

lemma ctl_slow:
  assumes c: "ctl s" and "slow_step t s e s'"
  shows "ctl s'"
  using assms(2)
proof cases
  case (acquire op)
  with ctl_acquire [OF c] show ?thesis by simp
next
  case (globalize op l)
  with ctl_move_pc [OF c, of t "cpc s' t" l] show ?thesis by auto
next
  case (commit op n)
  with ctl_release [OF c] show ?thesis by auto
next
  case (request op k)
  then have "theft s k = THEFT_IDLE" using thief_marks(2) [OF c, of t k] by auto
  with request ctl_mark [OF c, of t "Flush op (Suc k)" k THEFT_REQ True] lok_theft(1) show ?thesis
    by (auto simp: less_Suc_eq)
next
  case (nothing_to_steal op k)
  then have "theft s k = THEFT_IDLE" using thief_marks(2) [OF c, of t k] by auto
  with nothing_to_steal ctl_mark [OF c, of t "Flush op (Suc k)" k THEFT_READY "pending s k"] lok_theft(2)
  show ?thesis by (auto simp: less_Suc_eq)
next
  case (request_skip op k)
  then have "covers (Flush op (Suc k)) x = covers (cpc s t) x" if "counterp (lims s) x" for x
    using that by (auto simp: less_Suc_eq)
  from ctl_move_pc [OF c, of t _ "lims s", OF _ _ _ this] request_skip show ?thesis by simp
next
  case (request_end op)
  with ctl_move_pc [OF c, of t "Wait op 0" "lims s"] registered_less [OF c] show ?thesis by simp
next
  case (wait_skip op k)
  then have "covers (Wait op (Suc k)) x = covers (cpc s t) x" if "counterp (lims s) x" for x
    using that by (auto simp: Suc_le_eq le_less)
  from ctl_move_pc [OF c, of t _ "lims s", OF _ _ _ this] wait_skip show ?thesis by simp
next
  case (wait_poll op k)
  have "lok (cpc s k) (theft s k) (counting s k) (pending s k \<or> theft s k = THEFT_REQ) (handler s k)"
    using lok_pending c by (simp add: ctl_def locals_ok_def)
  moreover have "marked s' = marked s" "victim s' = victim s"
    using wait_poll by (auto intro: marked_cong)
  ultimately show ?thesis using c wait_poll
    by (auto simp: ctl_def locals_ok_def mutex_ok_def marks_ok_def)
next
  case (wait_ready op k)
  with ctl_move_pc [OF c, of t "Steal1 op k" "lims s"] show ?thesis by simp
next
  case (steal_count op k)
  with thief_marks(3) [OF c, of t k] ctl_move_pc [OF c, of t "Steal2 op k"] show ?thesis by simp
next
  case (clear_count op k)
  with thief_marks(3) [OF c, of t k] ctl_move_pc [OF c, of t "Steal3 op k"] show ?thesis by simp
next
  case (steal_max op k)
  with thief_marks(3) [OF c, of t k] ctl_move_pc [OF c, of t "Steal4 op k"] show ?thesis by simp
next
  case (steal_end op k)
  then have v: "covers (Wait op (Suc k)) x = covers (cpc s t) x" if "x \<noteq> k" for x
    using that by (auto simp: Suc_le_eq le_less)
  have r: "theft s k = THEFT_READY" using thief_marks(3) [OF c, of t k] steal_end by simp
  have "ctl (s\<lparr>theft := (theft s)(k := THEFT_IDLE), pending := (pending s)(k := pending s k),
      cpc := (cpc s)(t := Wait op (Suc k))\<rparr>)"
    by (rule ctl_mark [OF c]) (use steal_end v r lok_theft(3) in auto)
  then show ?thesis using steal_end by simp
next
  case (flushed op)
  with ctl_move_pc [OF c, of t "Commit op" "lims s"] registered_less [OF c] show ?thesis
    by (auto simp: not_le)
next
  case (refuse op)
  with ctl_release [OF c, of t "lims s"] registered_less [OF c] show ?thesis by (auto simp: not_le)
qed

lemma ctl_register:
  assumes "ctl s" and "gblcnt_mutex s = None" and "cpc s t = Idle" and "t < NR_THREADS"
    and "counterp l = (counterp (lims s))(t := b)"
  shows "ctl (s\<lparr>lims := l\<rparr>)"
proof -
  have "marked (s\<lparr>lims := l\<rparr>) = marked s" "victim (s\<lparr>lims := l\<rparr>) = victim s" by (auto intro: marked_cong)
  then show ?thesis
    using assms by (auto simp: ctl_def locals_ok_def mutex_ok_def marks_ok_def marked_def)
qed

lemma ctl_step:
  assumes "ctl s" and "sig_step s e s'"
  shows "ctl s'"
  using assms(2)
proof cases
  case (fast t)
  with assms(1) show ?thesis by (auto intro: ctl_fast)
next
  case (slow t)
  with assms(1) show ?thesis by (auto intro: ctl_slow)
next
  case (signal t)
  with assms(1) show ?thesis by (auto intro: ctl_signal)
next
  case (register t)
  with ctl_register [OF assms(1)] show ?thesis by (simp add: count_register_thread_def)
next
  case (unregister t)
  with ctl_register [OF assms(1)] show ?thesis by (simp add: count_unregister_thread_def Let_def)
qed

lemma ctl_init: "ctl (sig_init gmax)"
  by (simp add: ctl_def locals_ok_def lok_def mutex_ok_def marks_ok_def marked_def victim_def
      sig_init_def lim_init_def)

end
