(* ===== verification/Count_Lim_Sig_Exact.thy ===== *)
theory Count_Lim_Sig_Exact
  imports Count_Lim_Sig_Inv
begin

text \<open>
  The count kept by count_lim_sig.c is exact: every operation that succeeds changes it by its
  argument at one step, the limit holds at every step, and an operation is refused only if it
  would pass the limit or go below zero. The thief moves the counter of a victim in three
  assignments; \<open>settled\<close> is the state with the move completed.
\<close>

fun settle :: "sig_pc \<Rightarrow> lim_state \<Rightarrow> lim_state" where
  "settle (Steal2 op k) l = l\<lparr>counter := (counter l)(k := 0),
     globalreserve := globalreserve l - countermax l k, countermax := (countermax l)(k := 0)\<rparr>"
| "settle (Steal3 op k) l = l\<lparr>globalreserve := globalreserve l - countermax l k, countermax := (countermax l)(k := 0)\<rparr>"
| "settle p l = l"

definition settled :: "sig_state \<Rightarrow> lim_state" where
  "settled s = (case gblcnt_mutex s of None \<Rightarrow> lims s | Some u \<Rightarrow> settle (cpc s u) (lims s))"

definition sig_value :: "sig_state \<Rightarrow> nat" where
  "sig_value s = count_value (settled s)"

fun room :: "sig_op \<Rightarrow> ulong \<Rightarrow> ulong \<Rightarrow> bool" where
  "room (Add d) cm c \<longleftrightarrow> d \<le> cm - c"
| "room (Sub d) cm c \<longleftrightarrow> d \<le> c"

fun applied :: "sig_op \<Rightarrow> nat \<Rightarrow> nat \<Rightarrow> bool" where
  "applied (Add d) n n' \<longleftrightarrow> n' = n + unat d"
| "applied (Sub d) n n' \<longleftrightarrow> n' + unat d = n"

fun refusable :: "sig_op \<Rightarrow> ulong \<Rightarrow> nat \<Rightarrow> bool" where
  "refusable (Add d) gmax n \<longleftrightarrow> unat gmax < n + unat d"
| "refusable (Sub d) gmax n \<longleftrightarrow> n < unat d"

section \<open>The numeric invariant\<close>

text \<open>A thread in the middle of its fast path still has the room it has seen.\<close>

fun fast_ok :: "sig_pc \<Rightarrow> theft \<Rightarrow> ulong \<Rightarrow> ulong \<Rightarrow> bool" where
  "fast_ok (Fast2 op) th cm c \<longleftrightarrow> (th = THEFT_READY \<longrightarrow> cm = 0 \<and> c = 0)"
| "fast_ok (Fast3 op v) th cm c \<longleftrightarrow> (th = THEFT_READY \<longrightarrow> cm = 0 \<and> c = 0) \<and>
     room op cm c \<and> v = updated op c"
| "fast_ok p th cm c \<longleftrightarrow> True"

text \<open>What the holder of the mutex knows of the maxima.\<close>

fun hold_ok :: "sig_pc \<Rightarrow> nat \<Rightarrow> lim_state \<Rightarrow> bool" where
  "hold_ok (Commit op) t l \<longleftrightarrow> countermax l t = 0 \<and> \<not> short op l"
| "hold_ok (Flush op k) t l \<longleftrightarrow> countermax l t = 0"
| "hold_ok (Wait op k) t l \<longleftrightarrow> countermax l t = 0 \<and> (\<forall>j<k. countermax l j = 0)"
| "hold_ok (Steal1 op k) t l \<longleftrightarrow> countermax l t = 0 \<and> (\<forall>j<k. countermax l j = 0)"
| "hold_ok (Steal2 op k) t l \<longleftrightarrow> countermax l t = 0 \<and> (\<forall>j<k. countermax l j = 0)"
| "hold_ok (Steal3 op k) t l \<longleftrightarrow> countermax l t = 0 \<and> (\<forall>j<k. countermax l j = 0)"
| "hold_ok (Steal4 op k) t l \<longleftrightarrow> countermax l t = 0 \<and> (\<forall>j\<le>k. countermax l j = 0)"
| "hold_ok p t l \<longleftrightarrow> True"

definition num :: "ulong \<Rightarrow> sig_state \<Rightarrow> bool" where
  "num gmax s \<longleftrightarrow> linv (settled s) \<and> globalcountmax (lims s) = gmax \<and>
     (\<forall>u. fast_ok (cpc s u) (theft s u) (countermax (lims s) u) (counter (lims s) u)) \<and>
     (\<forall>u. hold_ok (cpc s u) u (lims s))"

text \<open>What a step that takes effect as \<open>e\<close> does to the value.\<close>

fun effect :: "ulong \<Rightarrow> event \<Rightarrow> nat \<Rightarrow> nat \<Rightarrow> bool" where
  "effect gmax Tau n n' \<longleftrightarrow> n' = n"
| "effect gmax (Took op ok) n n' \<longleftrightarrow> (if ok then applied op n n' else n' = n \<and> refusable op gmax n)"

lemma fits_room: "fits op t l \<longleftrightarrow> room op (countermax l t) (counter l t)"
  by (cases op) simp_all

lemma room_updated_zero: "room op 0 0 \<Longrightarrow> updated op 0 = 0"
  by (cases op) (simp_all add: word_le_nat_alt word_eq_iff_unsigned unat_eq_0)

lemma settle_frame [simp]:
  "globalcountmax (settle p l) = globalcountmax l" "counterp (settle p l) = counterp l"
  by (cases p; simp)+

lemma hold_ok_unheld: "\<not> held p \<Longrightarrow> hold_ok p t l"
  by (cases p) simp_all

lemma hold_ok_counter [simp]: "hold_ok p t (l\<lparr>counter := c\<rparr>) = hold_ok p t l"
proof -
  have "short op (l\<lparr>counter := c\<rparr>) = short op l" for op by (cases op) simp_all
  then show ?thesis by (cases p) simp_all
qed

text \<open>The assignment of a fast path, on any state with the invariant of the limit counters.\<close>

lemma fast_write:
  assumes "linv l" and "t < NR_THREADS" and "room op (countermax l t) (counter l t)"
  defines "l' \<equiv> l\<lparr>counter := (counter l)(t := updated op (counter l t))\<rparr>"
  shows "linv l' \<and> applied op (count_value l) (count_value l')"
  using assms linv_fast_add [of l t] linv_fast_sub [of l t] by (cases op) auto

lemma settle_write:
  assumes "settle p l = l' " and "stealing p \<noteq> Some t"
  shows "settle p (l\<lparr>counter := (counter l)(t := v)\<rparr>) = l'\<lparr>counter := (counter l')(t := v)\<rparr>"
    and "counter l' t = counter l t" and "countermax l' t = countermax l t"
  using assms by (cases p; auto simp: fun_eq_iff)+

lemma settled_write:
  assumes n: "num gmax s" and c: "ctl s" and t: "t < NR_THREADS" and p: "cpc s t = Fast3 op v"
    and q: "\<not> held q"
  defines "l \<equiv> (lims s)\<lparr>counter := (counter (lims s))(t := v)\<rparr>"
  shows "linv (settled (s\<lparr>lims := l, cpc := (cpc s)(t := q)\<rparr>)) \<and>
    applied op (sig_value s) (sig_value (s\<lparr>lims := l, cpc := (cpc s)(t := q)\<rparr>))"
proof -
  have f: "fast_ok (Fast3 op v) (theft s t) (countermax (lims s) t) (counter (lims s) t)"
    using n p by (metis num_def)
  then have r: "room op (countermax (lims s) t) (counter (lims s) t)"
    and v: "v = updated op (counter (lims s) t)" by simp_all
  have i: "linv (settled s)" using n by (simp add: num_def)
  let ?s = "settled s" and ?s' = "settled (s\<lparr>lims := l, cpc := (cpc s)(t := q)\<rparr>)"
  have "?s' = ?s\<lparr>counter := (counter ?s)(t := v)\<rparr> \<and> counter ?s t = counter (lims s) t \<and>
    countermax ?s t = countermax (lims s) t"
  proof (cases "gblcnt_mutex s")
    case None
    then show ?thesis by (simp add: settled_def l_def)
  next
    case (Some u)
    have u: "held (cpc s u)" using c Some by (simp add: ctl_def mutex_ok_def)
    with p have ne: "u \<noteq> t" by auto
    show ?thesis
    proof (cases "stealing (cpc s u) = Some t")
      case True
      then have "theft s t = THEFT_READY" using thief_marks(3) [OF c u] by simp
      with f have z: "countermax (lims s) t = 0" "counter (lims s) t = 0" by simp_all
      with r v room_updated_zero have "v = 0" by simp
      with z have "l = lims s" by (simp add: l_def fun_upd_idem)
      moreover have "counter ?s t = 0" "countermax ?s t = 0"
        using True z Some by (cases "cpc s u"; simp add: settled_def)+
      ultimately show ?thesis using Some ne z \<open>v = 0\<close> by (simp add: settled_def fun_upd_idem)
    next
      case False
      from settle_write [OF refl this] show ?thesis using Some ne by (simp add: settled_def l_def)
    qed
  qed
  with fast_write [OF i t, of op] r v show ?thesis by (simp add: sig_value_def)
qed

lemma settled_frame:
  assumes "ctl s" and "\<not> held (cpc s t)"
  shows "settled (s\<lparr>theft := th, counting := ct, pending := pd, handler := hn, cpc := (cpc s)(t := q)\<rparr>)
    = settled s"
  using assms by (auto simp: settled_def ctl_def mutex_ok_def split: option.split)

lemma num_other:
  assumes "num gmax s" and "lims s' = lims s" and "settled s' = settled s" and "cpc s' = (cpc s)(t := q)"
    and "\<And>u. u \<noteq> t \<Longrightarrow> theft s' u = THEFT_READY \<Longrightarrow> theft s u = THEFT_READY"
    and "fast_ok q (theft s' t) (countermax (lims s) t) (counter (lims s) t)" and "hold_ok q t (lims s)"
  shows "num gmax s'"
proof -
  have "fast_ok (cpc s' u) (theft s' u) (countermax (lims s) u) (counter (lims s) u)" for u
  proof (cases "u = t")
    case True
    then show ?thesis using assms(4,6) by simp
  next
    case False
    have "fast_ok (cpc s u) (theft s u) (countermax (lims s) u) (counter (lims s) u)"
      using assms(1) by (simp add: num_def)
    with False assms(4) assms(5) [OF False] show ?thesis by (cases "cpc s u") auto
  qed
  with assms show ?thesis by (auto simp: num_def)
qed

lemma num_fast:
  assumes n: "num gmax s" and c: "ctl s" and t: "t < NR_THREADS" and st: "fast_step t s e s'"
  shows "num gmax s' \<and> effect gmax e (sig_value s) (sig_value s')"
proof -
  have f: "fast_ok (cpc s t) (theft s t) (countermax (lims s) t) (counter (lims s) t)"
    using n by (simp add: num_def)
  have un: "\<not> held (cpc s t)" using st by cases simp_all
  note fr = settled_frame [OF c un]
  show ?thesis using st
  proof cases
    case (write_counter op v)
    let ?s = "s\<lparr>lims := (lims s)\<lparr>counter := (counter (lims s))(t := v)\<rparr>, cpc := (cpc s)(t := Fast4 op True)\<rparr>"
    have "linv (settled ?s) \<and> applied op (sig_value s) (sig_value ?s)"
      by (rule settled_write [OF n c t]) (simp_all add: write_counter)
    with n write_counter show ?thesis by (auto simp: num_def)
  next
    case (call op)
    with fr [where th = "theft s" and pd = "pending s" and hn = "handler s"] show ?thesis
      by (auto simp: sig_value_def intro!: num_other [OF n])
  next
    case (check_theft op)
    with fr [where th = "theft s" and ct = "counting s" and pd = "pending s" and hn = "handler s"] show ?thesis
      by (auto simp: sig_value_def intro!: num_other [OF n])
  next
    case (check_room op)
    with f fr [where th = "theft s" and ct = "counting s" and pd = "pending s" and hn = "handler s"] show ?thesis
      by (auto simp: sig_value_def fits_room intro!: num_other [OF n])
  next
    case (clear_counting op fp)
    with fr [where th = "theft s" and pd = "pending s" and hn = "handler s"] show ?thesis
      by (auto simp: sig_value_def intro!: num_other [OF n])
  next
    case (test_ack op fp)
    with fr [where th = "theft s" and ct = "counting s" and pd = "pending s" and hn = "handler s"] show ?thesis
      by (auto simp: sig_value_def intro!: num_other [OF n])
  next
    case (write_ready op fp)
    with fr [where ct = "counting s" and pd = "pending s" and hn = "handler s"] show ?thesis
      by (auto simp: sig_value_def intro!: num_other [OF n])
  qed
qed

lemma num_signal:
  assumes n: "num gmax s" and c: "ctl s" and st: "flush_local_count_sig t s s'"
  shows "num gmax s' \<and> sig_value s' = sig_value s"
proof -
  have f: "fast_ok (cpc s t) (theft s t) (countermax (lims s) t) (counter (lims s) t)"
    using n by (simp add: num_def)
  have o: "lok (cpc s t) (theft s t) (counting s t) (pending s t) (handler s t)"
    using c by (simp add: ctl_def locals_ok_def)
  have fr: "lims s' = lims s" "cpc s' = (cpc s)(t := cpc s t)" "settled s' = settled s"
    by (rule flush_local_count_sig.cases [OF st]; simp add: settled_def split: option.split)+
  have "\<And>u. u \<noteq> t \<Longrightarrow> theft s' u = THEFT_READY \<Longrightarrow> theft s u = THEFT_READY"
    by (rule flush_local_count_sig.cases [OF st]; simp)
  moreover have "fast_ok (cpc s t) (theft s' t) (countermax (lims s) t) (counter (lims s) t)"
    by (rule flush_local_count_sig.cases [OF st]; use f o in \<open>cases "cpc s t"\<close>; auto simp: lok_def)
  moreover have "hold_ok (cpc s t) t (lims s)" using n by (simp add: num_def)
  ultimately show ?thesis using num_other [OF n fr(1,3,2)] fr(3) by (simp add: sig_value_def)
qed

section \<open>The slow path\<close>

lemma num_move:
  assumes n: "num gmax s" and c: "ctl s" and p: "held (cpc s t)" and q: "held q \<or> q = Idle"
    and s': "cpc s' = (cpc s)(t := q)" "globalcountmax (lims s') = gmax"
    and i: "linv (settled s')" and h: "hold_ok q t (lims s')"
    and f: "\<And>u. u \<noteq> t \<Longrightarrow>
      fast_ok (cpc s u) (theft s u) (countermax (lims s) u) (counter (lims s) u) \<Longrightarrow>
      fast_ok (cpc s u) (theft s' u) (countermax (lims s') u) (counter (lims s') u)"
  shows "num gmax s'"
proof -
  have m: "gblcnt_mutex s = Some t" by (rule thief_marks(1) [OF c p])
  have "hold_ok (cpc s' u) u (lims s')" for u
  proof (cases "u = t")
    case False
    then have "\<not> held (cpc s u)" using m c by (auto simp: ctl_def mutex_ok_def)
    with False s'(1) show ?thesis by (simp add: hold_ok_unheld)
  qed (use h s' in simp)
  moreover have "fast_ok (cpc s' u) (theft s' u) (countermax (lims s') u) (counter (lims s') u)" for u
  proof (cases "u = t")
    case True
    then show ?thesis using q s'(1) by (cases q) auto
  next
    case False
    with n f [OF False] s'(1) show ?thesis by (simp add: num_def)
  qed
  ultimately show ?thesis using i s'(2) by (simp add: num_def)
qed

lemma settled_holder:
  "gblcnt_mutex s = Some t \<Longrightarrow> settled s = settle (cpc s t) (lims s)"
  "gblcnt_mutex s = None \<Longrightarrow> settled s = lims s"
  by (simp_all add: settled_def)

text \<open>A victim in the middle of its fast path has nothing to steal.\<close>

lemma fast_ok_stolen:
  "fast_ok p THEFT_READY cm c \<Longrightarrow> fast_ok p THEFT_READY cm 0"
  "fast_ok p THEFT_READY cm c \<Longrightarrow> fast_ok p THEFT_READY 0 c"
  "fast_ok p th 0 0 \<Longrightarrow> fast_ok p THEFT_READY 0 0"
  "fast_ok p th cm c \<Longrightarrow> fast_ok p THEFT_REQ cm c"
  "fast_ok p th cm c \<Longrightarrow> fast_ok p THEFT_IDLE cm c"
  by (cases p; auto)+

lemma globalize_ok_sig:
  assumes "linv l" and "t < NR_THREADS"
  shows "linv (globalize_count t l)" and "count_value (globalize_count t l) = count_value l"
    and "countermax (globalize_count t l) t = 0"
  using cla.globalize_ok [OF assms]
  by (simp_all add: globalize_count_def Count_Lim_App.globalize_count_def)

lemma balance_ok_sig:
  assumes "linv l" and "t < NR_THREADS" and "countermax l t = 0" and "counterp l t"
  shows "linv (balance_count n t l)" and "count_value (balance_count n t l) = count_value l"
    and "lim_frame t l (balance_count n t l)"
proof -
  have "counter l t = 0" using assms(1,3) by (simp add: linv_def) (metis word_le_0_iff)
  moreover have m: "MAX_COUNTERMAX = Count_Lim_App.MAX_COUNTERMAX"
    by (simp add: MAX_COUNTERMAX_def Count_Lim_App.MAX_COUNTERMAX_def)
  have "balance_count n t l = Count_Lim_App.balance_count n t l"
    unfolding balance_count_def Count_Lim_App.balance_count_def m by (rule refl)
  ultimately show "linv (balance_count n t l)" "count_value (balance_count n t l) = count_value l"
    "lim_frame t l (balance_count n t l)"
    using balance_app_ok [OF assms(1,2) _ assms(3,4), of n] by simp_all
qed

lemma global_op_ok:
  assumes "linv l" and "\<not> short op l"
  shows "linv (global_op op l)" and "applied op (count_value l) (count_value (global_op op l))"
  using assms linv_add_global [of l] linv_sub_global [of l]
  by (cases op; simp add: global_op_def not_less)+

text \<open>Once everything is stolen, \<open>globalcount\<close> is the whole count.\<close>

lemma short_refusable:
  assumes "linv l" and "\<forall>j<NR_THREADS. countermax l j = 0" and "short op l"
  shows "refusable op (globalcountmax l) (count_value l)"
proof -
  have "counter l j = 0" if "j < NR_THREADS" for j
    using assms(1,2) that by (simp add: linv_def) (metis word_le_0_iff)
  then have v: "count_value l = unat (globalcount l)" by (simp add: count_value_def)
  moreover have "unat (globalreserve l) = 0" using assms(1,2) by (simp add: linv_def)
  ultimately show ?thesis using assms(3) linv_room [OF assms(1)]
    by (cases op) (auto simp: word_less_nat_alt)
qed

text \<open>The assignments to the mutex and to the variables of a victim.\<close>

lemma settled_move:
  assumes "ctl s" and "held (cpc s t)"
  shows "settled s = settle (cpc s t) (lims s)"
    and "settled (s\<lparr>lims := l, theft := th, pending := pd, cpc := (cpc s)(t := q)\<rparr>) = settle q l"
  using thief_marks(1) [OF assms] by (simp_all add: settled_def)

lemma num_hold_pc:
  assumes n: "num gmax s" and c: "ctl s" and p: "held (cpc s t)" "held q"
    and e: "settle q (lims s) = settle (cpc s t) (lims s)"
    and h: "hold_ok q t (lims s)"
    and f: "\<And>u. u \<noteq> t \<Longrightarrow>
      fast_ok (cpc s u) (theft s u) (countermax (lims s) u) (counter (lims s) u) \<Longrightarrow>
      fast_ok (cpc s u) (th u) (countermax (lims s) u) (counter (lims s) u)"
  shows "num gmax (s\<lparr>lims := lims s, theft := th, pending := pd, cpc := (cpc s)(t := q)\<rparr>) \<and>
    sig_value (s\<lparr>lims := lims s, theft := th, pending := pd, cpc := (cpc s)(t := q)\<rparr>) = sig_value s"
    (is "num gmax ?s \<and> _")
proof -
  have e': "settled ?s = settled s" using settled_move(1) [OF c p(1)] settled_move(2) [OF c p(1), where l = "lims s" and q = q] e
    by simp
  moreover have "num gmax ?s"
    by (rule num_move [OF n c p(1), of q]) (use e' n p h f in \<open>simp_all add: num_def\<close>)
  ultimately show ?thesis by (simp add: sig_value_def)
qed

lemma num_hold_mark:
  assumes "num gmax s" and "ctl s" and "held (cpc s t)" "held q"
    and "settle q (lims s) = settle (cpc s t) (lims s)" and "hold_ok q t (lims s)"
    and f: "\<And>p. fast_ok p (theft s k) (countermax (lims s) k) (counter (lims s) k) \<Longrightarrow>
      fast_ok p v (countermax (lims s) k) (counter (lims s) k)"
  shows "num gmax (s\<lparr>lims := lims s, theft := (theft s)(k := v), pending := pd, cpc := (cpc s)(t := q)\<rparr>) \<and>
    sig_value (s\<lparr>lims := lims s, theft := (theft s)(k := v), pending := pd, cpc := (cpc s)(t := q)\<rparr>)
      = sig_value s"
  by (rule num_hold_pc [OF assms(1-6)]) (use f in \<open>auto\<close>)

lemma num_acquire:
  assumes n: "num gmax s" and c: "ctl s" and p: "cpc s t = Slow op" and m: "gblcnt_mutex s = None"
  defines "s' \<equiv> s\<lparr>gblcnt_mutex := Some t, cpc := (cpc s)(t := Locked op)\<rparr>"
  shows "num gmax s' \<and> sig_value s' = sig_value s"
proof -
  have e: "settled s' = settled s" using m by (simp add: s'_def settled_def)
  then have "num gmax s'"
    by (intro num_other [OF n, where t = t and q = "Locked op"]) (simp_all add: s'_def)
  with e show ?thesis by (simp add: sig_value_def)
qed

lemma num_slow:
  assumes n: "num gmax s" and c: "ctl s" and t: "t < NR_THREADS" and st: "slow_step t s e s'"
  shows "num gmax s' \<and> effect gmax e (sig_value s) (sig_value s')"
proof -
  have h: "hold_ok (cpc s t) t (lims s)" and i: "linv (settled s)" and g: "globalcountmax (lims s) = gmax"
    using n by (simp_all add: num_def)
  show ?thesis using st
  proof cases
    case (acquire op)
    with num_acquire [OF n c] show ?thesis by simp
  next
    case (globalize op l)
    have p: "held (cpc s t)" using globalize by simp
    have "linv (lims s)" "settled s = lims s" using settled_move(1) [OF c p] globalize i by simp_all
    note ok = globalize_ok_sig [OF this(1) t] this
    have sd: "settled s' = l" using globalize thief_marks(1) [OF c p] by (simp add: settled_def)
    have "num gmax s'"
      by (rule num_move [OF n c p, of "if short op l then Flush op 0 else Commit op"])
        (use globalize ok g sd in \<open>simp_all add: globalize_count_def\<close>)
    with ok sd globalize show ?thesis by (simp add: sig_value_def)
  next
    case (commit op k)
    have p: "held (cpc s t)" using commit by simp
    have "linv (lims s)" "settled s = lims s" using settled_move(1) [OF c p] commit i by simp_all
    note l = this global_op_ok [OF this(1), of op]
    have cp: "counterp (lims s) t" using c commit by (auto simp: ctl_def mutex_ok_def)
    let ?g = "global_op op (lims s)"
    have "countermax ?g t = 0" "counterp ?g t" using h commit cp by (simp_all add: global_op_def)
    note b = balance_ok_sig [OF l(3) t this, of k]
    have sd: "settled s' = balance_count k t ?g" using commit by (simp add: settled_def)
    have "num gmax s'"
      by (rule num_move [OF n c p, of Idle])
        (use commit b h g sd in \<open>auto simp: lim_frame_def global_op_def\<close>)
    with b l sd commit h show ?thesis by (simp add: sig_value_def)
  next
    case (request op k)
    with num_hold_mark [OF n c _ _ _ _ fast_ok_stolen(4), where t = t and q = "Flush op (Suc k)" and k = k and pd = "(pending s)(k := True)"]
      h show ?thesis by simp
  next
    case (nothing_to_steal op k)
    have "linv (lims s)" using settled_move(1) [OF c, of t] nothing_to_steal i by simp
    then have z: "counter (lims s) k = 0"
      using nothing_to_steal by (simp add: linv_def) (metis word_le_0_iff)
    with nothing_to_steal fast_ok_stolen(3)
      num_hold_mark [OF n c, where t = t and q = "Flush op (Suc k)" and k = k and v = THEFT_READY and pd = "pending s"] h
    show ?thesis by simp
  next
    case (request_skip op k)
    with num_hold_pc [OF n c, where t = t and q = "Flush op (Suc k)" and th = "theft s" and pd = "pending s"] h show ?thesis by simp
  next
    case (request_end op)
    with num_hold_pc [OF n c, where t = t and q = "Wait op 0" and th = "theft s" and pd = "pending s"] h show ?thesis by simp
  next
    case (wait_skip op k)
    have "linv (lims s)" using settled_move(1) [OF c, of t] wait_skip i by simp
    then have "countermax (lims s) k = 0" using wait_skip by (simp add: linv_def)
    with wait_skip num_hold_pc [OF n c, where t = t and q = "Wait op (Suc k)" and th = "theft s" and pd = "pending s"] h show ?thesis
      by (simp add: less_Suc_eq)
  next
    case (wait_poll op k)
    then have "cpc s = (cpc s)(t := Wait op k)" by (simp add: fun_eq_iff)
    with wait_poll num_hold_pc [OF n c, where t = t and q = "Wait op k" and th = "theft s" and pd = "(pending s)(k := pending s k \<or> theft s k = THEFT_REQ)"] h show ?thesis by simp
  next
    case (wait_ready op k)
    with num_hold_pc [OF n c, where t = t and q = "Steal1 op k" and th = "theft s" and pd = "pending s"] h show ?thesis by simp
  next
    case (steal_count op k)
    have p: "held (cpc s t)" using steal_count by simp
    have k: "k < NR_THREADS" using thief_marks(3) [OF c p] steal_count by simp
    have l: "linv (lims s)" "settled s = lims s" using settled_move(1) [OF c p] steal_count i by simp_all
    note ok = globalize_ok_sig [OF l(1) k]
    have sd: "settled s' = globalize_count k (lims s)"
      using thief_marks(1) [OF c p] steal_count by (simp add: settled_def globalize_count_def)
    have "num gmax s'"
      by (rule num_move [OF n c p, of "Steal2 op k"]) (use steal_count ok h g sd in simp_all)
    with ok l sd steal_count show ?thesis by (simp add: sig_value_def)
  next
    case (clear_count op k)
    have p: "held (cpc s t)" using clear_count by simp
    have r: "theft s k = THEFT_READY" using thief_marks(3) [OF c p] clear_count by simp
    have sd: "settled s' = settled s"
      using thief_marks(1) [OF c p] clear_count by (simp add: settled_def)
    have "num gmax s'"
      by (rule num_move [OF n c p, of "Steal3 op k"])
        (use clear_count h g sd r i fast_ok_stolen(1) in auto)
    with sd clear_count show ?thesis by (simp add: sig_value_def)
  next
    case (steal_max op k)
    have p: "held (cpc s t)" using steal_max by simp
    have r: "theft s k = THEFT_READY" using thief_marks(3) [OF c p] steal_max by simp
    have sd: "settled s' = settled s"
      using thief_marks(1) [OF c p] steal_max by (simp add: settled_def)
    have "num gmax s'"
      by (rule num_move [OF n c p, of "Steal4 op k"])
        (use steal_max h g sd r i fast_ok_stolen(2) in auto)
    with sd steal_max show ?thesis by (simp add: sig_value_def)
  next
    case (steal_end op k)
    with num_hold_mark [OF n c _ _ _ _ fast_ok_stolen(5), where t = t and q = "Wait op (Suc k)" and k = k and pd = "pending s"] h
    show ?thesis by (simp add: less_Suc_eq_le)
  next
    case (flushed op)
    with num_hold_pc [OF n c, where t = t and q = "Commit op" and th = "theft s" and pd = "pending s"] h show ?thesis by simp
  next
    case (refuse op)
    have p: "held (cpc s t)" using refuse by simp
    have l: "linv (lims s)" "settled s = lims s" using settled_move(1) [OF c p] refuse i by simp_all
    have sd: "settled s' = settled s" using l refuse by (simp add: settled_def)
    have "num gmax s'"
      by (rule num_move [OF n c p, of Idle]) (use refuse g sd i in simp_all)
    moreover have "refusable op gmax (sig_value s)"
      using short_refusable [OF l(1)] h refuse l(2) g by (simp add: sig_value_def)
    ultimately show ?thesis using sd refuse by (simp add: sig_value_def)
  qed
qed

section \<open>Every reachable state\<close>

lemma num_register:
  assumes n: "num gmax s" and m: "gblcnt_mutex s = None" and l: "linv l" "globalcountmax l = gmax"
    and t: "cpc s t = Idle" and o: "\<And>u. u \<noteq> t \<Longrightarrow> countermax l u = countermax (lims s) u \<and>
      counter l u = counter (lims s) u"
    and c: "ctl s"
  shows "num gmax (s\<lparr>lims := l\<rparr>)"
proof -
  have "hold_ok (cpc s u) u l" for u
    using c m by (intro hold_ok_unheld) (simp add: ctl_def mutex_ok_def)
  moreover have "fast_ok (cpc s u) (theft s u) (countermax l u) (counter l u)" for u
    using n t o [of u] by (cases "u = t") (simp_all add: num_def)
  ultimately show ?thesis using m l by (simp add: num_def settled_def)
qed

lemma unregister_value:
  assumes "linv l" and "t < NR_THREADS"
  shows "linv (count_unregister_thread t l)"
    and "count_value (count_unregister_thread t l) = count_value l"
proof -
  note g = globalize_ok_sig [OF assms]
  from g(1,3) show "linv (count_unregister_thread t l)"
    by (simp add: count_unregister_thread_def Let_def linv_def)
  from g(2) show "count_value (count_unregister_thread t l) = count_value l"
    by (simp add: count_unregister_thread_def Let_def count_value_def)
qed

lemma num_step:
  assumes n: "num gmax s" and c: "ctl s" and st: "sig_step s e s'"
  shows "num gmax s' \<and> effect gmax e (sig_value s) (sig_value s')"
  using st
proof cases
  case (fast t)
  with num_fast [OF n c] show ?thesis by blast
next
  case (slow t)
  with num_slow [OF n c] show ?thesis by blast
next
  case (signal t)
  with num_signal [OF n c] show ?thesis by simp
next
  case (register t)
  let ?l = "count_register_thread t (lims s)"
  have l: "linv ?l" "count_value ?l = count_value (lims s)"
    using n register by (auto simp: num_def settled_def count_register_thread_def linv_def count_value_def)
  have "num gmax s'"
    using num_register [OF n, of ?l t] register l n c by (simp add: num_def count_register_thread_def)
  with register l show ?thesis by (simp add: sig_value_def settled_def)
next
  case (unregister t)
  let ?l = "count_unregister_thread t (lims s)"
  have i: "linv (lims s)" using n unregister by (simp add: num_def settled_def)
  note l = unregister_value [OF i \<open>t < NR_THREADS\<close>]
  have "num gmax s'"
    using num_register [OF n, of ?l t] unregister l n c
    by (simp add: num_def count_unregister_thread_def globalize_count_def Let_def)
  with unregister l show ?thesis by (simp add: sig_value_def settled_def)
qed

lemma num_init: "num gmax (sig_init gmax)"
  using linv_init by (simp add: num_def settled_def sig_init_def lim_init_def)

abbreviation sig_reachable :: "ulong \<Rightarrow> sig_state \<Rightarrow> bool" where
  "sig_reachable gmax \<equiv> reachable (\<lambda>s. s = sig_init gmax) (\<lambda>s s'. \<exists>e. sig_step s e s')"

lemma sig_reachable_inv:
  assumes "sig_reachable gmax s"
  shows "ctl s" and "num gmax s"
proof -
  have "ctl s \<and> num gmax s"
    by (rule reachable_invariant [OF assms]) (use ctl_init num_init ctl_step num_step in blast)+
  then show "ctl s" and "num gmax s" by simp_all
qed

lemma sig_value_limit: "num gmax s \<Longrightarrow> sig_value s \<le> unat gmax"
proof -
  assume n: "num gmax s"
  then have "globalcountmax (settled s) = gmax" by (simp add: num_def settled_def split: option.split)
  with linv_limit [of "settled s"] n show ?thesis by (simp add: num_def sig_value_def)
qed

end
