(* ===== verification/Count_Lim_Sig_Run.thy ===== *)
theory Count_Lim_Sig_Run
  imports Count_Lim_Sig_Exact
begin

text \<open>
  The two guarantees of count_lim_sig.c: exactness, and that a theft completes by steps of the
  victim alone; and a run of two threads to instantiate them.
\<close>

section \<open>The victim answers\<close>

inductive own_step :: "nat \<Rightarrow> sig_state \<Rightarrow> sig_state \<Rightarrow> bool" for t s where
  program: "handler s t = HNone \<Longrightarrow> fast_step t s e s' \<Longrightarrow> own_step t s s'"
| signal: "flush_local_count_sig t s s' \<Longrightarrow> own_step t s s'"

fun fast_rank :: "sig_pc \<Rightarrow> nat" where
  "fast_rank (Fast1 op) = 6" | "fast_rank (Fast2 op) = 5" | "fast_rank (Fast3 op v) = 4"
| "fast_rank (Fast4 op fp) = 3" | "fast_rank (Fast5 op fp) = 2" | "fast_rank (Fast6 op fp) = 1"
| "fast_rank p = 0"

fun theft_rank :: "sig_pc \<Rightarrow> theft \<Rightarrow> handler \<Rightarrow> nat" where
  "theft_rank p THEFT_REQ HNone = 12 + fast_rank p"
| "theft_rank p THEFT_REQ HAck = 11 + fast_rank p"
| "theft_rank p THEFT_ACK HTest = 10 + fast_rank p"
| "theft_rank p THEFT_ACK HReady = 1"
| "theft_rank p THEFT_ACK HNone = fast_rank p"
| "theft_rank p th hn = 0"

lemma progressI:
  assumes "own_step k s s'" and "theft s' k \<noteq> THEFT_IDLE"
    and "theft_rank (cpc s' k) (theft s' k) (handler s' k) < theft_rank (cpc s k) (theft s k) (handler s k)"
  shows "\<exists>s'. own_step k s s' \<and> theft s' k \<noteq> THEFT_IDLE \<and>
    theft_rank (cpc s' k) (theft s' k) (handler s' k) < theft_rank (cpc s k) (theft s k) (handler s k)"
  using assms by blast

lemma victim_progress:
  assumes "lok (cpc s k) (theft s k) (counting s k) (pending s k) (handler s k)"
    and "theft s k = THEFT_REQ \<or> theft s k = THEFT_ACK"
  shows "\<exists>s'. own_step k s s' \<and> theft s' k \<noteq> THEFT_IDLE \<and>
    theft_rank (cpc s' k) (theft s' k) (handler s' k) < theft_rank (cpc s k) (theft s k) (handler s k)"
proof (cases "handler s k")
  case HAck
  show ?thesis
    by (rule progressI [OF own_step.signal [OF flush_local_count_sig.set_ack [OF HAck]]])
      (use assms HAck in \<open>auto simp: lok_def\<close>)
next
  case HTest
  show ?thesis
    by (rule progressI [OF own_step.signal [OF flush_local_count_sig.test_counting [OF HTest]]])
      (use assms HTest in \<open>auto simp: lok_def\<close>)
next
  case HReady
  show ?thesis
    by (rule progressI [OF own_step.signal [OF flush_local_count_sig.set_ready [OF HReady]]])
      (use assms HReady in \<open>auto simp: lok_def\<close>)
next
  case HNone
  show ?thesis
  proof (cases "theft s k = THEFT_REQ")
    case True
    with assms HNone have p: "pending s k" by (simp add: lok_def)
    show ?thesis
      by (rule progressI [OF own_step.signal [OF flush_local_count_sig.deliver [OF HNone p]]])
        (use True HNone in simp_all)
  next
    case False
    with assms(2) have a: "theft s k = THEFT_ACK" by simp
    note go = own_step.program [OF HNone]
    from assms(1) a HNone show ?thesis
    proof (cases "cpc s k")
      case (Fast1 op)
      from progressI [OF go [OF fast_step.check_theft [OF this]]] Fast1 a HNone show ?thesis by simp
    next
      case (Fast2 op)
      from progressI [OF go [OF fast_step.check_room [OF this]]] Fast2 a HNone show ?thesis by simp
    next
      case (Fast3 op v)
      from progressI [OF go [OF fast_step.write_counter [OF this]]] Fast3 a HNone show ?thesis by simp
    next
      case (Fast4 op fp)
      from progressI [OF go [OF fast_step.clear_counting [OF this]]] Fast4 a HNone show ?thesis by simp
    next
      case (Fast5 op fp)
      from progressI [OF go [OF fast_step.test_ack [OF this]]] Fast5 a HNone show ?thesis by simp
    next
      case (Fast6 op fp)
      from progressI [OF go [OF fast_step.write_ready [OF this]]] Fast6 a HNone show ?thesis by simp
    qed (simp_all add: lok_def)
  qed
qed

lemma own_step_frame:
  assumes "own_step k s s'"
  shows "held (cpc s t) \<Longrightarrow> cpc s' t = cpc s t" and "counterp (lims s') = counterp (lims s)"
    and "ctl s \<Longrightarrow> ctl s'"
proof -
  show "cpc s' t = cpc s t" if "held (cpc s t)"
    using assms that
    by cases (auto elim!: fast_step.cases flush_local_count_sig.cases)
  show "counterp (lims s') = counterp (lims s)"
    using assms by cases (auto elim!: fast_step.cases flush_local_count_sig.cases)
  show "ctl s'" if "ctl s" using assms that by cases (auto intro: ctl_fast ctl_signal)
qed

lemma victim_answers:
  "ctl s \<Longrightarrow> theft s k \<noteq> THEFT_IDLE \<Longrightarrow> \<exists>s'. (own_step k)\<^sup>*\<^sup>* s s' \<and> theft s' k = THEFT_READY"
proof (induction "theft_rank (cpc s k) (theft s k) (handler s k)" arbitrary: s rule: less_induct)
  case less
  show ?case
  proof (cases "theft s k = THEFT_READY")
    case False
    with less.prems have "theft s k = THEFT_REQ \<or> theft s k = THEFT_ACK"
      by (cases "theft s k") simp_all
    moreover have "lok (cpc s k) (theft s k) (counting s k) (pending s k) (handler s k)"
      using less.prems(1) by (simp add: ctl_def locals_ok_def)
    ultimately obtain s' where s': "own_step k s s'" "theft s' k \<noteq> THEFT_IDLE"
      "theft_rank (cpc s' k) (theft s' k) (handler s' k) < theft_rank (cpc s k) (theft s k) (handler s k)"
      using victim_progress by blast
    from less.hyps [OF s'(3) own_step_frame(3) [OF s'(1) less.prems(1)] s'(2)] s'(1)
    show ?thesis by (meson converse_rtranclp_into_rtranclp)
  qed blast
qed

lemma own_steps_frame:
  assumes "(own_step k)\<^sup>*\<^sup>* s s'" and "held (cpc s t)"
  shows "cpc s' t = cpc s t \<and> counterp (lims s') = counterp (lims s)"
  using assms
proof (induction rule: rtranclp_induct)
  case (step u v)
  with own_step_frame [OF step.hyps(2)] show ?case by simp
qed simp

section \<open>A run of two threads\<close>

lemma reach_step: "sig_reachable g s \<Longrightarrow> sig_step s e s' \<Longrightarrow> sig_reachable g s'"
  by (rule reachable.next_state) auto

text \<open>A call that finds no room takes the mutex.\<close>

lemma reach_locked:
  assumes r: "sig_reachable g s" and t: "t < NR_THREADS" and h: "handler s t = HNone"
    and p: "cpc s t = Idle" "counterp (lims s) t" "gblcnt_mutex s = None" and f: "\<not> fits op t (lims s)"
  shows "sig_reachable g (s\<lparr>gblcnt_mutex := Some t, cpc := (cpc s)(t := Locked op)\<rparr>)"
proof -
  have c: "\<not> counting s t" "theft s t = THEFT_IDLE"
    using sig_reachable_inv(1) [OF r] p marks_none [of s t]
    by (auto simp: ctl_def locals_ok_def lok_def)
  let ?c = "\<lambda>q. s\<lparr>counting := (counting s)(t := True), cpc := (cpc s)(t := q)\<rparr>"
  let ?d = "\<lambda>q. s\<lparr>cpc := (cpc s)(t := q)\<rparr>"
  note go = reach_step [OF _ sig_step.fast [OF t]]
  have "sig_reachable g (?c (Fast1 op))"
    by (rule go [OF r]) (use p h in \<open>auto intro: fast_step.call\<close>)
  from go [OF this _ fast_step.check_theft [of _ t op]] h c
  have "sig_reachable g (?c (Fast2 op))" by simp
  from go [OF this _ fast_step.check_room [of _ t op]] h f
  have "sig_reachable g (?c (Fast4 op False))" by simp
  from go [OF this _ fast_step.clear_counting [of _ t op False]] h c
  have "sig_reachable g (?d (Fast5 op False))" by (simp add: fun_upd_idem)
  from go [OF this _ fast_step.test_ack [of _ t op False]] h c
  have "sig_reachable g (?d (Slow op))" by simp
  from reach_step [OF this sig_step.slow [OF t _ slow_step.acquire [of _ t op]]] h p
  show ?thesis by simp
qed

lemma reach_flushed:
  assumes t: "t < NR_THREADS" and "handler s t = HNone"
  shows "sig_reachable g (s\<lparr>cpc := (cpc s)(t := Flush op k)\<rparr>) \<Longrightarrow> k \<le> NR_THREADS \<Longrightarrow>
    \<forall>j\<ge>k. \<not> counterp (lims s) j \<Longrightarrow> sig_reachable g (s\<lparr>cpc := (cpc s)(t := Flush op NR_THREADS)\<rparr>)"
proof (induction "NR_THREADS - k" arbitrary: k)
  case (Suc n)
  have "sig_reachable g (s\<lparr>cpc := (cpc s)(t := Flush op (Suc k))\<rparr>)"
    using reach_step [OF Suc.prems(1) sig_step.slow [OF t _ slow_step.request_skip [of _ t op k]]]
      Suc.prems Suc.hyps(2) assms(2) by simp
  then show ?case using Suc.hyps(1) [of "Suc k"] Suc.hyps(2) Suc.prems by simp
qed simp

lemma run_committing:
  obtains s where "sig_reachable 50 s" and "cpc s 0 = Commit (Add 5)" and "handler s = (\<lambda>_. HNone)"
    and "lims s = count_register_thread 0 (lim_init 50)"
    and "\<forall>t. t \<noteq> 0 \<longrightarrow> cpc s t = Idle" and "theft s = (\<lambda>_. THEFT_IDLE)"
proof -
  have z: "0 < NR_THREADS" by (simp add: NR_THREADS_def)
  let ?s1 = "(sig_init 50)\<lparr>lims := count_register_thread 0 (lim_init 50)\<rparr>"
  have r0: "sig_reachable 50 (sig_init 50)" by (rule reachable.start) (rule refl)
  have r1: "sig_reachable 50 ?s1"
    using reach_step [OF r0 sig_step.register [OF z]] by (simp add: sig_init_def)
  let ?s2 = "?s1\<lparr>gblcnt_mutex := Some 0, cpc := (cpc ?s1)(0 := Locked (Add 5))\<rparr>"
  have r2: "sig_reachable 50 ?s2"
    by (rule reach_locked [OF r1 z])
      (simp_all add: sig_init_def count_register_thread_def lim_init_def)
  let ?s = "?s2\<lparr>lims := globalize_count 0 (lims ?s2), cpc := (cpc ?s2)(0 := Commit (Add 5))\<rparr>"
  have "sig_reachable 50 ?s"
    using reach_step [OF r2 sig_step.slow [OF z _ slow_step.globalize [of _ 0 "Add 5", OF _ refl]]]
    by (simp add: sig_init_def count_register_thread_def lim_init_def globalize_count_def)
  then show thesis
    by (rule that)
      (auto simp: sig_init_def count_register_thread_def lim_init_def globalize_count_def)
qed

lemma run_waiting:
  obtains s where "sig_reachable 50 s" and "cpc s 1 = Wait (Add 60) 0" and "counterp (lims s) 0"
    and "theft s 0 = THEFT_REQ"
proof -
  have z: "0 < NR_THREADS" "1 < NR_THREADS" by (simp_all add: NR_THREADS_def)
  obtain s where s: "sig_reachable 50 s" "cpc s 0 = Commit (Add 5)" "handler s = (\<lambda>_. HNone)"
    "lims s = count_register_thread 0 (lim_init 50)" "\<forall>t. t \<noteq> 0 \<longrightarrow> cpc s t = Idle"
    "theft s = (\<lambda>_. THEFT_IDLE)"
    by (rule run_committing)
  let ?l = "balance_count 1 0 (global_op (Add 5) (lims s))"
  have l: "countermax ?l = (\<lambda>_. 0)(0 := 45)" "counterp ?l = (\<lambda>t. t = 0)" "globalcount ?l = 0"
    "globalcountmax ?l = 50" "globalreserve ?l = 45" "counter ?l = (\<lambda>_. 0)(0 := 5)"
    using s(4) by (simp_all add: balance_count_def global_op_def count_register_thread_def lim_init_def
        MAX_COUNTERMAX_def fun_eq_iff)
  define s4 where "s4 = s\<lparr>lims := ?l, gblcnt_mutex := None, cpc := (cpc s)(0 := Idle)\<rparr>"
  have r4: "sig_reachable 50 s4"
    using reach_step [OF s(1) sig_step.slow [OF z(1) _ slow_step.commit [OF s(2), of 1]]] s(3)
    by (simp add: s4_def)
  let ?s5 = "s4\<lparr>lims := count_register_thread 1 ?l\<rparr>"
  have r5: "sig_reachable 50 ?s5"
    using reach_step [OF r4 sig_step.register [OF z(2)]] s by (simp add: s4_def)
  let ?s6 = "?s5\<lparr>gblcnt_mutex := Some 1, cpc := (cpc ?s5)(1 := Locked (Add 60))\<rparr>"
  have r6: "sig_reachable 50 ?s6"
    by (rule reach_locked [OF r5 z(2)]) (use s l in \<open>simp_all add: s4_def count_register_thread_def\<close>)
  let ?l' = "globalize_count 1 (count_register_thread 1 ?l)"
  have l': "countermax ?l' = (\<lambda>_. 0)(0 := 45)" "counterp ?l' = (\<lambda>t. t = 0 \<or> t = 1)" "globalcount ?l' = 0"
    "globalcountmax ?l' = 50" "globalreserve ?l' = 45"
    using l by (auto simp: globalize_count_def count_register_thread_def fun_eq_iff)
  let ?s7 = "?s6\<lparr>lims := ?l', cpc := (cpc ?s6)(1 := Flush (Add 60) 0)\<rparr>"
  have r7: "sig_reachable 50 ?s7"
    using reach_step [OF r6 sig_step.slow [OF z(2) _ slow_step.globalize [of _ 1 "Add 60", OF _ refl]]] l' s
    by (simp add: s4_def)
  let ?s8 = "?s7\<lparr>theft := (theft ?s7)(0 := THEFT_REQ), pending := (pending ?s7)(0 := True),
    cpc := (cpc ?s7)(1 := Flush (Add 60) 1)\<rparr>"
  have r8: "sig_reachable 50 ?s8"
    using reach_step [OF r7 sig_step.slow [OF z(2) _ slow_step.request [of _ 1 "Add 60" 0]]] l' s z
    by (simp add: s4_def)
  let ?s9 = "?s8\<lparr>theft := (theft ?s8)(1 := THEFT_READY), cpc := (cpc ?s8)(1 := Flush (Add 60) 2)\<rparr>"
  have r9: "sig_reachable 50 ?s9"
    using reach_step [OF r8 sig_step.slow [OF z(2) _ slow_step.nothing_to_steal [of _ 1 "Add 60" 1]]] l' s z
    by (simp add: s4_def numeral_2_eq_2)
  have r10: "sig_reachable 50 (?s9\<lparr>cpc := (cpc ?s9)(1 := Flush (Add 60) NR_THREADS)\<rparr>)"
    by (rule reach_flushed [OF z(2), where k = 2]) (use r9 l' s z in \<open>simp_all add: s4_def\<close>)
  have "sig_reachable 50 (?s9\<lparr>cpc := (cpc ?s9)(1 := Wait (Add 60) 0)\<rparr>)"
    using reach_step [OF r10 sig_step.slow [OF z(2) _ slow_step.request_end [of _ 1 "Add 60"]]] s
    by (simp add: s4_def)
  then show thesis by (rule that) (use l' in simp_all)
qed

section \<open>The guarantees\<close>

text \<open>C7: the counter is exact at all times. Every step of every thread and of every signal
  handler keeps the value, except the one at which a call takes effect: a successful \<open>add_count\<close>
  or \<open>sub_count\<close> changes it by its argument, also when its thread is being robbed, and a refused
  one would have passed the limit or gone below zero at that very step. The value never exceeds
  \<open>globalcountmax\<close>.\<close>

theorem count_lim_sig_exact:
  assumes "sig_reachable gmax s" and "sig_step s e s'"
  shows "sig_value s' \<le> unat gmax \<and> (case e of Tau \<Rightarrow> sig_value s' = sig_value s
    | Took op ok \<Rightarrow> if ok then applied op (sig_value s) (sig_value s')
        else sig_value s' = sig_value s \<and> refusable op gmax (sig_value s))"
proof -
  note i = num_step [OF sig_reachable_inv(2,1) [OF assms(1)] assms(2)]
  then have "sig_value s' \<le> unat gmax" using sig_value_limit by blast
  with i show ?thesis by (cases e) auto
qed

theorem count_lim_sig_exact_witness:
  "\<exists>s s'. sig_reachable 50 s \<and> sig_step s (Took (Add 5) True) s' \<and> sig_value s' = sig_value s + 5"
proof -
  obtain s where s: "sig_reachable 50 s" "cpc s 0 = Commit (Add 5)" "handler s = (\<lambda>_. HNone)"
    by (rule run_committing)
  have "0 < NR_THREADS" by (simp add: NR_THREADS_def)
  from sig_step.slow [OF this _ slow_step.commit [OF s(2), of 1]] s(3)
  obtain s' where s': "sig_step s (Took (Add 5) True) s'" by auto
  from count_lim_sig_exact [OF s(1) s'] s(1) s' show ?thesis by auto
qed

text \<open>C8: a theft always completes. While the thief polls \<open>theft[k]\<close>, thread \<open>k\<close> reaches
  \<open>THEFT_READY\<close> by its own steps, those of its signal handler and of the rest of its fast path,
  so neither the mutex the thief holds nor any third thread can block it, and the thief then goes
  on to take the counter.\<close>

theorem count_lim_sig_theft_completes:
  assumes "sig_reachable gmax s" and "cpc s t = Wait op k" and "counterp (lims s) k"
  shows "\<exists>s'. (own_step k)\<^sup>*\<^sup>* s s' \<and> theft s' k = THEFT_READY \<and>
    slow_step t s' Tau (s'\<lparr>cpc := (cpc s')(t := Steal1 op k)\<rparr>)"
proof -
  note c = sig_reachable_inv(1) [OF assms(1)]
  have "theft s k \<noteq> THEFT_IDLE" using thief_marks(2) [OF c, of t k] assms by simp
  from victim_answers [OF c this] obtain s' where s': "(own_step k)\<^sup>*\<^sup>* s s'" "theft s' k = THEFT_READY"
    by blast
  have "cpc s' t = Wait op k" "counterp (lims s') k" "k < NR_THREADS"
    using own_steps_frame [OF s'(1), of t] assms registered_less [OF c] by simp_all
  with s' slow_step.wait_ready show ?thesis by blast
qed

theorem count_lim_sig_theft_completes_witness:
  "\<exists>s s'. sig_reachable 50 s \<and> cpc s 1 = Wait (Add 60) 0 \<and> theft s 0 = THEFT_REQ \<and>
     (own_step 0)\<^sup>*\<^sup>* s s' \<and> theft s' 0 = THEFT_READY"
proof -
  obtain s where s: "sig_reachable 50 s" "cpc s 1 = Wait (Add 60) 0" "counterp (lims s) 0"
    "theft s 0 = THEFT_REQ" by (rule run_waiting)
  from count_lim_sig_theft_completes [OF s(1-3)] s show ?thesis by blast
qed

end
