(* ===== verification/Stat_Spec.thy ===== *)
theory Stat_Spec
  imports Limit_Spec
begin

text \<open>
  The contract of the statistical counters of count/ (count_stat.c, count_stat_atomic.c,
  count_tstat.c, count_end.c, count_stack.c): every thread counts in a variable of its own, and a
  reader adds the variables up while the other threads go on counting. The sum is then the
  value of the counter at no single moment; what the reader gets is a value between the one
  when it called and the one when it returns.

  The locale \<open>stat_counter\<close> has the sweep of a reader as a cursor and a partial sum. The laws
  say what a step may do to them, and the bounds are proved once from the laws.
\<close>

section \<open>What a step does to a sweep\<close>

text \<open>
  \<open>view i\<close> is what the reader will add for slot \<open>i\<close> if it reads it now, \<open>total\<close> the number of
  increments so far.
\<close>

definition view_keep :: "nat \<Rightarrow> nat \<Rightarrow> (nat \<Rightarrow> nat) \<Rightarrow> nat \<Rightarrow> (nat \<Rightarrow> nat) \<Rightarrow> nat \<Rightarrow> bool" where
  "view_keep n k v T v' T' \<longleftrightarrow> (\<Sum>i\<in>{k..<n}. v i) \<le> (\<Sum>i\<in>{k..<n}. v' i) \<and>
     T + (\<Sum>i\<in>{k..<n}. v' i) \<le> T' + (\<Sum>i\<in>{k..<n}. v i)"

definition view_all :: "nat \<Rightarrow> (nat \<Rightarrow> nat) \<Rightarrow> nat \<Rightarrow> bool" where
  "view_all n v T \<longleftrightarrow> (\<Sum>i\<in>{0..<n}. v i) = T"

lemma view_keep_refl: "view_keep n k v T v T"
  by (simp add: view_keep_def)

lemma view_keep_end: "T \<le> T' \<Longrightarrow> view_keep n n v T v' T'"
  by (simp add: view_keep_def)

lemma view_keep_inc: "view_keep n k v T (v(i := Suc (v i))) (Suc T)"
proof (cases "i \<in> {k..<n}")
  case True
  then show ?thesis
    using sum_fun_upd_finite [of "{k..<n}" i v "Suc (v i)"] by (simp add: view_keep_def)
next
  case False
  then show ?thesis using sum_fun_upd_notin [of i "{k..<n}" v "Suc (v i)"]
    by (simp add: view_keep_def)
qed

definition sweep_ok :: "nat \<Rightarrow> ('w \<Rightarrow> nat \<Rightarrow> bool) \<Rightarrow> nat \<Rightarrow> (nat \<Rightarrow> nat) \<Rightarrow> nat \<Rightarrow> nat \<Rightarrow> 'w \<Rightarrow> bool" where
  "sweep_ok n holds lo v T k w \<longleftrightarrow> k \<le> n \<and>
     (\<exists>c. holds w c \<and> lo \<le> c + (\<Sum>i\<in>{k..<n}. v i) \<and> c + (\<Sum>i\<in>{k..<n}. v i) \<le> T)"

lemma sweep_ok_start:
  "view_all n v T \<Longrightarrow> lo \<le> T \<Longrightarrow> holds w 0 \<Longrightarrow> sweep_ok n holds lo v T 0 w"
  by (auto simp: sweep_ok_def view_all_def)

lemma sweep_ok_keep:
  assumes "sweep_ok n holds lo v T k w" and "view_keep n k v T v' T'"
  shows "sweep_ok n holds lo v' T' k w"
proof -
  obtain c where "holds w c" "lo \<le> c + (\<Sum>i\<in>{k..<n}. v i)" "c + (\<Sum>i\<in>{k..<n}. v i) \<le> T" "k \<le> n"
    using assms(1) by (auto simp: sweep_ok_def)
  then show ?thesis using assms(2)
    unfolding sweep_ok_def view_keep_def by (intro conjI exI [of _ c]) auto
qed

lemma sweep_ok_advance:
  assumes "sweep_ok n holds lo v T k w" and "k < n"
    and "\<And>c. holds w c \<Longrightarrow> holds w' (c + v k)"
  shows "sweep_ok n holds lo v T (Suc k) w'"
proof -
  obtain c where c: "holds w c" "lo \<le> c + (\<Sum>i\<in>{k..<n}. v i)" "c + (\<Sum>i\<in>{k..<n}. v i) \<le> T"
    using assms(1) by (auto simp: sweep_ok_def)
  have "(\<Sum>i\<in>{k..<n}. v i) = v k + (\<Sum>i\<in>{Suc k..<n}. v i)"
    using assms(2) by (simp add: sum.atLeast_Suc_lessThan)
  with c assms(2,3) show ?thesis
    unfolding sweep_ok_def by (intro conjI exI [of _ "c + v k"]) auto
qed

lemma sweep_ok_end: "sweep_ok n holds lo v T n w \<Longrightarrow> \<exists>c. holds w c \<and> lo \<le> c \<and> c \<le> T"
  by (auto simp: sweep_ok_def)

lemma sum_inc:
  fixes f :: "nat \<Rightarrow> nat"
  shows "t < n \<Longrightarrow> sum (f(t := Suc (f t))) {0..<n} = Suc (sum f {0..<n})"
    and "t < n \<Longrightarrow> (\<Sum>i = 0..<n. if i = t then Suc (f t) else f i) = Suc (sum f {0..<n})"
  using sum_fun_upd_finite [of "{0..<n}" t f "Suc (f t)"] by (simp_all add: fun_upd_def)

text \<open>The three kinds of step, for one reader.\<close>

definition scan_start :: "nat \<Rightarrow> ('w \<Rightarrow> nat \<Rightarrow> bool) \<Rightarrow> (nat \<Rightarrow> nat) \<Rightarrow> nat \<Rightarrow> nat \<times> 'w \<Rightarrow> bool" where
  "scan_start n holds v T x \<longleftrightarrow> fst x = 0 \<and> holds (snd x) 0 \<and> view_all n v T"

definition scan_advance :: "nat \<Rightarrow> ('w \<Rightarrow> nat \<Rightarrow> bool) \<Rightarrow> (nat \<Rightarrow> nat) \<Rightarrow> (nat \<times> 'w) \<Rightarrow> nat \<times> 'w \<Rightarrow> bool" where
  "scan_advance n holds v x y \<longleftrightarrow> fst x < n \<and> fst y = Suc (fst x) \<and>
     (\<forall>c. holds (snd x) c \<longrightarrow> holds (snd y) (c + v (fst x)))"

locale stat_counter =
  fixes init :: "'s \<Rightarrow> bool"
    and step :: "'s \<Rightarrow> 's \<Rightarrow> bool"
    and scan :: "'s \<Rightarrow> nat \<Rightarrow> (nat \<times> 'w) option"
    and view :: "'s \<Rightarrow> nat \<Rightarrow> nat \<Rightarrow> nat"
    and slots :: nat
    and total :: "'s \<Rightarrow> nat"
    and holds :: "'w \<Rightarrow> nat \<Rightarrow> bool"
  assumes total_mono: "reachable init step s \<Longrightarrow> step s s' \<Longrightarrow> total s \<le> total s'"
    and scan_law: "reachable init step s \<Longrightarrow> step s s' \<Longrightarrow> scan s' r = Some y \<Longrightarrow>
      scan_start slots holds (view s' r) (total s') y
      \<or> (scan s r = Some y \<and> view_keep slots (fst y) (view s r) (total s) (view s' r) (total s'))
      \<or> (\<exists>x. scan s r = Some x \<and> view s' r = view s r \<and> total s' = total s
             \<and> scan_advance slots holds (view s r) x y)"
begin

lemma reachable_from:
  assumes "reachable (\<lambda>s. s = s0) step s" and "reachable init step s0"
  shows "reachable init step s"
  using assms by (induction rule: reachable.induct) (auto intro: reachable.next_state)

lemma total_grows:
  assumes "reachable (\<lambda>s. s = s0) step s" and "reachable init step s0"
  shows "total s0 \<le> total s"
  using assms
proof (induction rule: reachable.induct)
  case (next_state s t)
  then show ?case using total_mono [OF reachable_from [OF next_state.hyps(1)]] by force
qed simp

lemma sweep_invariant:
  assumes "reachable (\<lambda>s. s = s0) step s" and "reachable init step s0" and "scan s0 r = None"
    and "scan s r = Some (k, w)"
  shows "sweep_ok slots holds (total s0) (view s r) (total s) k w"
  using assms
proof (induction arbitrary: k w rule: reachable.induct)
  case (start s)
  then show ?case by simp
next
  case (next_state s s')
  note R = reachable_from [OF next_state.hyps(1) next_state.prems(1)]
  have lo: "total s0 \<le> total s'"
    using total_grows [OF reachable.next_state [OF next_state.hyps(1,2)] next_state.prems(1)] .
  note IH = next_state.IH [OF next_state.prems(1,2)]
  from scan_law [OF R next_state.hyps(2) next_state.prems(3)] show ?case
  proof (elim disjE)
    assume "scan_start slots holds (view s' r) (total s') (k, w)"
    then show ?thesis using lo by (auto simp: scan_start_def intro: sweep_ok_start)
  next
    assume "scan s r = Some (k, w) \<and> view_keep slots (fst (k, w)) (view s r) (total s) (view s' r) (total s')"
    then show ?thesis by (auto intro: sweep_ok_keep [OF IH])
  next
    assume "\<exists>x. scan s r = Some x \<and> view s' r = view s r \<and> total s' = total s
      \<and> scan_advance slots holds (view s r) x (k, w)"
    then obtain k0 w0 where x: "scan s r = Some (k0, w0)" "view s' r = view s r" "total s' = total s"
      and a: "scan_advance slots holds (view s r) (k0, w0) (k, w)" by (metis surj_pair)
    from a have "k0 < slots" "k = Suc k0" "\<And>c. holds w0 c \<Longrightarrow> holds w (c + view s r k0)"
      by (auto simp: scan_advance_def)
    then show ?thesis using sweep_ok_advance [OF IH [OF x(1)]] x(2,3) by simp
  qed
qed

text \<open>A sweep that has passed all slots has a value between the two totals.\<close>

lemma read_between:
  assumes "reachable init step s0" and "reachable (\<lambda>s. s = s0) step s" and "scan s0 r = None"
    and "scan s r = Some (slots, w)"
  shows "\<exists>c. holds w c \<and> total s0 \<le> c \<and> c \<le> total s"
  using sweep_ok_end [OF sweep_invariant [OF assms(2,1,3,4)]] .

end

end
