(* ===== verification/Count_Stat.thy ===== *)
theory Count_Stat
  imports Stat_Spec
begin

text \<open>
  count/count_stat.c and count/count_stat_atomic.c: one counter per thread, summed by the reader.
  In the first the owner increments an \<open>unsigned long\<close> by a load and a store, in the second an
  \<open>atomic_t\<close>, a 32-bit \<open>int\<close> that is converted to \<open>unsigned long\<close> when it is added.
  The field \<open>incs\<close> is not in the code: it counts the increments of each thread.
\<close>

section \<open>count_stat.c\<close>

datatype cs_pc = Idle | Inc ulong | Read nat ulong | Ret ulong

record cs_state =
  counter :: "nat \<Rightarrow> ulong"
  cs_pc :: "nat \<Rightarrow> cs_pc"
  incs :: "nat \<Rightarrow> nat"

definition cs_init :: cs_state where
  "cs_init = \<lparr>counter = (\<lambda>_. 0), cs_pc = (\<lambda>_. Idle), incs = (\<lambda>_. 0)\<rparr>"

inductive inc_count :: "nat \<Rightarrow> cs_state \<Rightarrow> cs_state \<Rightarrow> bool" for t s where
  load: "cs_pc s t = Idle \<Longrightarrow> inc_count t s (s\<lparr>cs_pc := (cs_pc s)(t := Inc (counter s t + 1))\<rparr>)"
| store: "cs_pc s t = Inc v \<Longrightarrow>
   inc_count t s (s\<lparr>counter := (counter s)(t := v), cs_pc := (cs_pc s)(t := Idle),
                   incs := (incs s)(t := Suc (incs s t))\<rparr>)"

inductive read_count :: "nat \<Rightarrow> cs_state \<Rightarrow> cs_state \<Rightarrow> bool" for r s where
  call: "cs_pc s r = Idle \<Longrightarrow> read_count r s (s\<lparr>cs_pc := (cs_pc s)(r := Read 0 0)\<rparr>)"
| add: "cs_pc s r = Read t w \<Longrightarrow> t < NR_THREADS \<Longrightarrow>
   read_count r s (s\<lparr>cs_pc := (cs_pc s)(r := Read (t + 1) (w + counter s t))\<rparr>)"
| finish: "cs_pc s r = Read NR_THREADS w \<Longrightarrow> read_count r s (s\<lparr>cs_pc := (cs_pc s)(r := Ret w)\<rparr>)"
| return: "cs_pc s r = Ret w \<Longrightarrow> read_count r s (s\<lparr>cs_pc := (cs_pc s)(r := Idle)\<rparr>)"

inductive cs_step :: "cs_state \<Rightarrow> cs_state \<Rightarrow> bool" where
  inc: "t < NR_THREADS \<Longrightarrow> inc_count t s s' \<Longrightarrow> cs_step s s'"
| rd: "t < NR_THREADS \<Longrightarrow> read_count t s s' \<Longrightarrow> cs_step s s'"

definition cs_total :: "cs_state \<Rightarrow> nat" where
  "cs_total s = sum (incs s) {0..<NR_THREADS}"

fun cs_cursor :: "cs_pc \<Rightarrow> (nat \<times> ulong) option" where
  "cs_cursor (Read t w) = Some (t, w)"
| "cs_cursor (Ret w) = Some (NR_THREADS, w)"
| "cs_cursor _ = None"

definition cs_inv :: "cs_state \<Rightarrow> bool" where
  "cs_inv s \<longleftrightarrow> (\<forall>t. counter s t = of_nat (incs s t)) \<and>
     (\<forall>t v. cs_pc s t = Inc v \<longrightarrow> v = counter s t + 1)"

lemma cs_inv_step: "cs_inv s \<Longrightarrow> cs_step s s' \<Longrightarrow> cs_inv s'"
  by (elim cs_step.cases inc_count.cases read_count.cases) (auto simp: cs_inv_def add.commute)

lemma cs_inv_reachable: "reachable (\<lambda>s. s = cs_init) cs_step s \<Longrightarrow> cs_inv s"
  by (erule reachable_invariant) (auto simp: cs_inv_step, simp add: cs_inv_def cs_init_def)

interpretation cs: stat_counter "\<lambda>s. s = cs_init" cs_step "\<lambda>s r. cs_cursor (cs_pc s r)"
  "\<lambda>s r. incs s" NR_THREADS cs_total "\<lambda>w c. w = of_nat c"
proof
  fix s s' assume st: "cs_step s s'"
  then show "cs_total s \<le> cs_total s'"
    by (elim cs_step.cases inc_count.cases read_count.cases) (simp_all add: cs_total_def sum_inc)
next
  fix s s' r y
  assume "reachable (\<lambda>s. s = cs_init) cs_step s" and st: "cs_step s s'"
    and y: "cs_cursor (cs_pc s' r) = Some y"
  then have i: "counter s t = of_nat (incs s t)" for t
    using cs_inv_reachable by (simp add: cs_inv_def)
  from st y show "scan_start NR_THREADS (\<lambda>w c. w = of_nat c) (incs s') (cs_total s') y \<or>
    (cs_cursor (cs_pc s r) = Some y \<and> view_keep NR_THREADS (fst y) (incs s) (cs_total s) (incs s') (cs_total s')) \<or>
    (\<exists>x. cs_cursor (cs_pc s r) = Some x \<and> incs s' = incs s \<and> cs_total s' = cs_total s \<and>
      scan_advance NR_THREADS (\<lambda>w c. w = of_nat c) (incs s) x y)"
    by (elim cs_step.cases inc_count.cases read_count.cases)
      (auto simp: cs_total_def sum_inc scan_start_def view_all_def scan_advance_def i
        view_keep_refl view_keep_inc split: if_splits)
qed


section \<open>count_stat_atomic.c\<close>

datatype ca_pc = AIdle | ARead nat ulong | ARet ulong

record ca_state =
  acounter :: "nat \<Rightarrow> cint"
  ca_pc :: "nat \<Rightarrow> ca_pc"
  aincs :: "nat \<Rightarrow> nat"

definition ca_init :: ca_state where
  "ca_init = \<lparr>acounter = (\<lambda>_. 0), ca_pc = (\<lambda>_. AIdle), aincs = (\<lambda>_. 0)\<rparr>"

inductive atomic_inc_count :: "nat \<Rightarrow> ca_state \<Rightarrow> ca_state \<Rightarrow> bool" for t s where
  inc: "ca_pc s t = AIdle \<Longrightarrow>
   atomic_inc_count t s (s\<lparr>acounter := (acounter s)(t := acounter s t + 1),
                          aincs := (aincs s)(t := Suc (aincs s t))\<rparr>)"

inductive atomic_read_count :: "nat \<Rightarrow> ca_state \<Rightarrow> ca_state \<Rightarrow> bool" for r s where
  call: "ca_pc s r = AIdle \<Longrightarrow> atomic_read_count r s (s\<lparr>ca_pc := (ca_pc s)(r := ARead 0 0)\<rparr>)"
| add: "ca_pc s r = ARead t w \<Longrightarrow> t < NR_THREADS \<Longrightarrow>
   atomic_read_count r s (s\<lparr>ca_pc := (ca_pc s)(r := ARead (t + 1) (w + scast (acounter s t)))\<rparr>)"
| finish: "ca_pc s r = ARead NR_THREADS w \<Longrightarrow>
   atomic_read_count r s (s\<lparr>ca_pc := (ca_pc s)(r := ARet w)\<rparr>)"
| return: "ca_pc s r = ARet w \<Longrightarrow> atomic_read_count r s (s\<lparr>ca_pc := (ca_pc s)(r := AIdle)\<rparr>)"

inductive ca_step :: "ca_state \<Rightarrow> ca_state \<Rightarrow> bool" where
  inc: "t < NR_THREADS \<Longrightarrow> atomic_inc_count t s s' \<Longrightarrow> ca_step s s'"
| rd: "t < NR_THREADS \<Longrightarrow> atomic_read_count t s s' \<Longrightarrow> ca_step s s'"

definition ca_total :: "ca_state \<Rightarrow> nat" where
  "ca_total s = sum (aincs s) {0..<NR_THREADS}"

fun ca_cursor :: "ca_pc \<Rightarrow> (nat \<times> ulong) option" where
  "ca_cursor (ARead t w) = Some (t, w)"
| "ca_cursor (ARet w) = Some (NR_THREADS, w)"
| "ca_cursor AIdle = None"

lemma ca_counter:
  assumes "reachable (\<lambda>s. s = ca_init) ca_step s"
  shows "acounter s t = of_nat (aincs s t)"
proof -
  have "\<forall>t. acounter s t = of_nat (aincs s t)"
    using assms
  proof (rule reachable_invariant)
    fix s s' assume "\<forall>t. acounter s t = of_nat (aincs s t)" and "ca_step s s'"
    then show "\<forall>t. acounter s' t = of_nat (aincs s' t)"
      by (elim ca_step.cases atomic_inc_count.cases atomic_read_count.cases) (auto simp: add.commute)
  qed (simp add: ca_init_def)
  then show ?thesis by simp
qed

text \<open>The sum is right modulo \<open>2 ^ 32\<close>: the conversion to \<open>unsigned long\<close> extends the sign.\<close>

lemma ucast_add_scast: "(ucast (w + scast (c :: cint) :: ulong) :: cint) = ucast w + c"
proof -
  have d: "is_down (ucast :: ulong \<Rightarrow> cint)" by (simp add: is_down)
  have "w + scast c = (of_int (uint w + sint c) :: ulong)" by simp
  then have "(ucast (w + scast c :: ulong) :: cint) = ucast (of_int (uint w + sint c) :: ulong)"
    by (rule arg_cong)
  also have "\<dots> = of_int (uint w + sint c)" by (rule ucast_down_wi [OF d])
  finally show ?thesis by simp
qed

interpretation ca: stat_counter "\<lambda>s. s = ca_init" ca_step "\<lambda>s r. ca_cursor (ca_pc s r)"
  "\<lambda>s r. aincs s" NR_THREADS ca_total "\<lambda>w c. (ucast w :: cint) = of_nat c"
proof
  fix s s' assume st: "ca_step s s'"
  then show "ca_total s \<le> ca_total s'"
    by (elim ca_step.cases atomic_inc_count.cases atomic_read_count.cases)
      (simp_all add: ca_total_def sum_inc)
next
  fix s s' r y
  assume "reachable (\<lambda>s. s = ca_init) ca_step s" and st: "ca_step s s'"
    and y: "ca_cursor (ca_pc s' r) = Some y"
  then have i: "acounter s t = of_nat (aincs s t)" for t
    using ca_counter by blast
  from st y show "scan_start NR_THREADS (\<lambda>w c. (ucast w :: cint) = of_nat c) (aincs s') (ca_total s') y \<or>
    (ca_cursor (ca_pc s r) = Some y \<and> view_keep NR_THREADS (fst y) (aincs s) (ca_total s) (aincs s') (ca_total s')) \<or>
    (\<exists>x. ca_cursor (ca_pc s r) = Some x \<and> aincs s' = aincs s \<and> ca_total s' = ca_total s \<and>
      scan_advance NR_THREADS (\<lambda>w c. (ucast w :: cint) = of_nat c) (aincs s) x y)"
    by (elim ca_step.cases atomic_inc_count.cases atomic_read_count.cases)
      (auto simp: ca_total_def sum_inc scan_start_def view_all_def scan_advance_def i
        ucast_add_scast view_keep_refl view_keep_inc split: if_splits)
qed

section \<open>What a reader gets\<close>

text \<open>
  \<open>read_count\<close> of count_stat.c returns the count (modulo \<open>2 ^ 64\<close>) at some value between
  the number of increments when it was called and the number when it returns, and so does
  \<open>read_count\<close> of count_stat_atomic.c modulo \<open>2 ^ 32\<close>.
\<close>

theorem count_stat_read_between:
  "(\<forall>s0 s r w. reachable (\<lambda>s. s = cs_init) cs_step s0 \<and> reachable (\<lambda>s. s = s0) cs_step s \<and>
      cs_pc s0 r = Idle \<and> cs_pc s r = Ret w \<longrightarrow>
      (\<exists>c. w = of_nat c \<and> cs_total s0 \<le> c \<and> c \<le> cs_total s)) \<and>
   (\<forall>s0 s r w. reachable (\<lambda>s. s = ca_init) ca_step s0 \<and> reachable (\<lambda>s. s = s0) ca_step s \<and>
      ca_pc s0 r = AIdle \<and> ca_pc s r = ARet w \<longrightarrow>
      (\<exists>c. (ucast w :: cint) = of_nat c \<and> ca_total s0 \<le> c \<and> c \<le> ca_total s))"
proof (intro conjI allI impI; elim conjE)
  fix s0 s r w
  assume "reachable (\<lambda>s. s = cs_init) cs_step s0" "reachable (\<lambda>s. s = s0) cs_step s"
    "cs_pc s0 r = Idle" "cs_pc s r = Ret w"
  then show "\<exists>c. w = of_nat c \<and> cs_total s0 \<le> c \<and> c \<le> cs_total s"
    using cs.read_between [of s0 s r w] by simp
next
  fix s0 s r w
  assume "reachable (\<lambda>s. s = ca_init) ca_step s0" "reachable (\<lambda>s. s = s0) ca_step s"
    "ca_pc s0 r = AIdle" "ca_pc s r = ARet w"
  then show "\<exists>c. (ucast w :: cint) = of_nat c \<and> ca_total s0 \<le> c \<and> c \<le> ca_total s"
    using ca.read_between [of s0 s r w] by simp
qed

text \<open>A run: thread 0 increments, then thread 1 reads.\<close>

definition cs_one :: cs_state where
  "cs_one = \<lparr>counter = (\<lambda>_. 0)(0 := 1), cs_pc = (\<lambda>_. Idle), incs = (\<lambda>_. 0)(0 := 1)\<rparr>"

definition ca_one :: ca_state where
  "ca_one = \<lparr>acounter = (\<lambda>_. 0)(0 := 1), ca_pc = (\<lambda>_. AIdle), aincs = (\<lambda>_. 0)(0 := 1)\<rparr>"

lemma cs_reach_one: "reachable (\<lambda>s. s = cs_init) cs_step cs_one"
proof -
  note go = reachable.next_state [where stp = cs_step and init = "\<lambda>x. x = cs_init"]
  let ?s = "cs_init\<lparr>cs_pc := (\<lambda>_. Idle)(0 := Inc 1)\<rparr>"
  have "inc_count 0 cs_init ?s" using inc_count.load [of cs_init 0] by (simp add: cs_init_def)
  then have 1: "reachable (\<lambda>s. s = cs_init) cs_step ?s"
    by (intro go [OF reachable.start] cs_step.inc [of 0]) simp_all
  have "inc_count 0 ?s cs_one"
    using inc_count.store [of ?s 0 1] by (simp add: cs_one_def cs_init_def fun_upd_idem)
  then show ?thesis by (intro go [OF 1] cs_step.inc [of 0]) simp_all
qed

lemma ca_reach_one: "reachable (\<lambda>s. s = ca_init) ca_step ca_one"
proof -
  note go = reachable.next_state [where stp = ca_step and init = "\<lambda>x. x = ca_init"]
  have "atomic_inc_count 0 ca_init ca_one"
    using atomic_inc_count.inc [of ca_init 0] by (simp add: ca_init_def ca_one_def)
  then show ?thesis by (intro go [OF reachable.start] ca_step.inc [of 0]) simp_all
qed

lemma cs_run_read:
  assumes "cs_pc s r = Idle" "r < NR_THREADS"
  shows "reachable (\<lambda>x. x = s) cs_step
    (s\<lparr>cs_pc := (cs_pc s)(r := Ret (sum_list (map (counter s) [0..<NR_THREADS])))\<rparr>)"
proof -
  let ?R = "reachable (\<lambda>x. x = s) cs_step"
  let ?w = "\<lambda>k. sum_list (map (counter s) [0..<k])"
  let ?s = "\<lambda>p. s\<lparr>cs_pc := (cs_pc s)(r := p)\<rparr>"
  note go = reachable.next_state [where stp = cs_step and init = "\<lambda>x. x = s"]
  have 1: "?R (?s (Read k (?w k)))" if "k \<le> NR_THREADS" for k
    using that
  proof (induction k)
    case 0
    have "?R s" by (rule reachable.start) simp
    moreover have "read_count r s (?s (Read 0 (?w 0)))" using read_count.call [OF assms(1)] by simp
    ultimately show ?case by (rule go [OF _ cs_step.rd [OF assms(2)]])
  next
    case (Suc k)
    have h: "?R (?s (Read k (?w k)))" by (rule Suc.IH) (use Suc.prems in simp)
    have "read_count r (?s (Read k (?w k))) (?s (Read (Suc k) (?w (Suc k))))"
      using read_count.add [of "?s (Read k (?w k))" r k "?w k"] Suc.prems by simp
    then show ?case by (rule go [OF h cs_step.rd [OF assms(2)]])
  qed
  have "read_count r (?s (Read NR_THREADS (?w NR_THREADS))) (?s (Ret (?w NR_THREADS)))"
    using read_count.finish [of "?s (Read NR_THREADS (?w NR_THREADS))" r "?w NR_THREADS"] by simp
  then show ?thesis by (rule go [OF 1 [OF order_refl] cs_step.rd [OF assms(2)]])
qed

lemma ca_run_read:
  assumes "ca_pc s r = AIdle" "r < NR_THREADS"
  shows "reachable (\<lambda>x. x = s) ca_step
    (s\<lparr>ca_pc := (ca_pc s)(r := ARet (sum_list (map (\<lambda>t. scast (acounter s t)) [0..<NR_THREADS])))\<rparr>)"
proof -
  let ?R = "reachable (\<lambda>x. x = s) ca_step"
  let ?w = "\<lambda>k. sum_list (map (\<lambda>t. scast (acounter s t)) [0..<k]) :: ulong"
  let ?s = "\<lambda>p. s\<lparr>ca_pc := (ca_pc s)(r := p)\<rparr>"
  note go = reachable.next_state [where stp = ca_step and init = "\<lambda>x. x = s"]
  have 1: "?R (?s (ARead k (?w k)))" if "k \<le> NR_THREADS" for k
    using that
  proof (induction k)
    case 0
    have "?R s" by (rule reachable.start) simp
    moreover have "atomic_read_count r s (?s (ARead 0 (?w 0)))"
      using atomic_read_count.call [OF assms(1)] by simp
    ultimately show ?case by (rule go [OF _ ca_step.rd [OF assms(2)]])
  next
    case (Suc k)
    have h: "?R (?s (ARead k (?w k)))" by (rule Suc.IH) (use Suc.prems in simp)
    have "atomic_read_count r (?s (ARead k (?w k))) (?s (ARead (Suc k) (?w (Suc k))))"
      using atomic_read_count.add [of "?s (ARead k (?w k))" r k "?w k"] Suc.prems by simp
    then show ?case by (rule go [OF h ca_step.rd [OF assms(2)]])
  qed
  have "atomic_read_count r (?s (ARead NR_THREADS (?w NR_THREADS))) (?s (ARet (?w NR_THREADS)))"
    using atomic_read_count.finish [of "?s (ARead NR_THREADS (?w NR_THREADS))" r "?w NR_THREADS"] by simp
  then show ?thesis by (rule go [OF 1 [OF order_refl] ca_step.rd [OF assms(2)]])
qed

lemma count_stat_read_between_witness:
  "\<exists>s w s' w'. cs_pc s 1 = Ret w \<and> (\<exists>c. w = of_nat c \<and> cs_total cs_one \<le> c \<and> c \<le> cs_total s) \<and>
     ca_pc s' 1 = ARet w' \<and> (\<exists>c. (ucast w' :: cint) = of_nat c \<and> ca_total ca_one \<le> c \<and> c \<le> ca_total s')"
proof -
  have t: "1 < NR_THREADS" by (simp add: NR_THREADS_def)
  have p: "cs_pc cs_one 1 = Idle" "ca_pc ca_one 1 = AIdle" by (simp_all add: cs_one_def ca_one_def)
  obtain s w where s: "reachable (\<lambda>x. x = cs_one) cs_step s" "cs_pc s 1 = Ret w"
    using cs_run_read [OF p(1) t] by (metis cs_state.select_convs(2) cs_state.surjective
        cs_state.update_convs(2) fun_upd_same)
  obtain s' w' where s': "reachable (\<lambda>x. x = ca_one) ca_step s'" "ca_pc s' 1 = ARet w'"
    using ca_run_read [OF p(2) t] by (metis ca_state.select_convs(2) ca_state.surjective
        ca_state.update_convs(2) fun_upd_same)
  have "\<exists>c. w = of_nat c \<and> cs_total cs_one \<le> c \<and> c \<le> cs_total s"
    using count_stat_read_between cs_reach_one s p(1) by blast
  moreover have "\<exists>c. (ucast w' :: cint) = of_nat c \<and> ca_total ca_one \<le> c \<and> c \<le> ca_total s'"
    using count_stat_read_between ca_reach_one s' p(2) by blast
  ultimately show ?thesis using s(2) s'(2) by blast
qed

end
