(* ===== verification/Count_End.thy ===== *)
theory Count_End
  imports Stat_Spec
begin

text \<open>
  count/count_end.c: the counters are thread-local variables that vanish with their thread, so
  a thread adds its count to \<open>finalcount\<close> before it exits, and readers and exits exclude each
  other by \<open>final_mutex\<close>. Increments take no lock.

  \<open>counterp t\<close> says whether \<open>counterp[t]\<close> is non-NULL; it then points at the variable \<open>counter\<close>
  of the running thread \<open>t\<close>. What is accessed only under the mutex is accessed in one step. The
  fields \<open>incs\<close> and \<open>gone\<close> are not in the code: the increments of each running thread, and those
  of the threads that have exited.
\<close>

datatype ce_pc = Idle | Exited | Inc ulong
  | Rd_sum | Rd_check nat ulong | Rd_add nat ulong | Rd_unlock ulong | Rd_ret ulong
  | Reg_set | Reg_unlock | Unreg_add | Unreg_null | Unreg_unlock

record ce_state =
  counter :: "nat \<Rightarrow> ulong"
  counterp :: "nat \<Rightarrow> bool"
  finalcount :: ulong
  final_mutex :: "nat option"
  ce_pc :: "nat \<Rightarrow> ce_pc"
  incs :: "nat \<Rightarrow> nat"
  gone :: nat

definition ce_init :: ce_state where
  "ce_init = \<lparr>counter = (\<lambda>_. 0), counterp = (\<lambda>_. False), finalcount = 0, final_mutex = None,
     ce_pc = (\<lambda>_. Idle), incs = (\<lambda>_. 0), gone = 0\<rparr>"

inductive inc_count :: "nat \<Rightarrow> ce_state \<Rightarrow> ce_state \<Rightarrow> bool" for t s where
  load: "ce_pc s t = Idle \<Longrightarrow> counterp s t \<Longrightarrow>
   inc_count t s (s\<lparr>ce_pc := (ce_pc s)(t := Inc (counter s t + 1))\<rparr>)"
| store: "ce_pc s t = Inc v \<Longrightarrow>
   inc_count t s (s\<lparr>counter := (counter s)(t := v), ce_pc := (ce_pc s)(t := Idle),
                   incs := (incs s)(t := Suc (incs s t))\<rparr>)"

inductive read_count :: "nat \<Rightarrow> ce_state \<Rightarrow> ce_state \<Rightarrow> bool" for r s where
  lock: "ce_pc s r = Idle \<Longrightarrow> final_mutex s = None \<Longrightarrow>
   read_count r s (s\<lparr>final_mutex := Some r, ce_pc := (ce_pc s)(r := Rd_sum)\<rparr>)"
| sum_init: "ce_pc s r = Rd_sum \<Longrightarrow>
   read_count r s (s\<lparr>ce_pc := (ce_pc s)(r := Rd_check 0 (finalcount s))\<rparr>)"
| check: "ce_pc s r = Rd_check t w \<Longrightarrow> t < NR_THREADS \<Longrightarrow>
   read_count r s (s\<lparr>ce_pc := (ce_pc s)(r := if counterp s t then Rd_add t w else Rd_check (t + 1) w)\<rparr>)"
| add: "ce_pc s r = Rd_add t w \<Longrightarrow>
   read_count r s (s\<lparr>ce_pc := (ce_pc s)(r := Rd_check (t + 1) (w + counter s t))\<rparr>)"
| loop_end: "ce_pc s r = Rd_check NR_THREADS w \<Longrightarrow>
   read_count r s (s\<lparr>ce_pc := (ce_pc s)(r := Rd_unlock w)\<rparr>)"
| unlock: "ce_pc s r = Rd_unlock w \<Longrightarrow>
   read_count r s (s\<lparr>final_mutex := None, ce_pc := (ce_pc s)(r := Rd_ret w)\<rparr>)"
| return: "ce_pc s r = Rd_ret w \<Longrightarrow> read_count r s (s\<lparr>ce_pc := (ce_pc s)(r := Idle)\<rparr>)"

inductive count_register_thread :: "nat \<Rightarrow> ce_state \<Rightarrow> ce_state \<Rightarrow> bool" for t s where
  lock: "ce_pc s t = Idle \<Longrightarrow> final_mutex s = None \<Longrightarrow> \<not> counterp s t \<Longrightarrow>
   count_register_thread t s (s\<lparr>final_mutex := Some t, ce_pc := (ce_pc s)(t := Reg_set)\<rparr>)"
| set: "ce_pc s t = Reg_set \<Longrightarrow>
   count_register_thread t s (s\<lparr>counterp := (counterp s)(t := True), ce_pc := (ce_pc s)(t := Reg_unlock)\<rparr>)"
| unlock: "ce_pc s t = Reg_unlock \<Longrightarrow>
   count_register_thread t s (s\<lparr>final_mutex := None, ce_pc := (ce_pc s)(t := Idle)\<rparr>)"

inductive count_unregister_thread :: "nat \<Rightarrow> ce_state \<Rightarrow> ce_state \<Rightarrow> bool" for t s where
  lock: "ce_pc s t = Idle \<Longrightarrow> final_mutex s = None \<Longrightarrow> counterp s t \<Longrightarrow>
   count_unregister_thread t s (s\<lparr>final_mutex := Some t, ce_pc := (ce_pc s)(t := Unreg_add)\<rparr>)"
| add: "ce_pc s t = Unreg_add \<Longrightarrow>
   count_unregister_thread t s (s\<lparr>finalcount := finalcount s + counter s t,
     ce_pc := (ce_pc s)(t := Unreg_null)\<rparr>)"
| null: "ce_pc s t = Unreg_null \<Longrightarrow>
   count_unregister_thread t s (s\<lparr>counterp := (counterp s)(t := False),
     ce_pc := (ce_pc s)(t := Unreg_unlock), gone := gone s + incs s t, incs := (incs s)(t := 0)\<rparr>)"
| unlock: "ce_pc s t = Unreg_unlock \<Longrightarrow>
   count_unregister_thread t s (s\<lparr>final_mutex := None, ce_pc := (ce_pc s)(t := Exited)\<rparr>)"

text \<open>A new thread that gets the identifier of an exited one has a fresh \<open>counter\<close>.\<close>

inductive ce_step :: "ce_state \<Rightarrow> ce_state \<Rightarrow> bool" where
  inc: "t < NR_THREADS \<Longrightarrow> inc_count t s s' \<Longrightarrow> ce_step s s'"
| rd: "t < NR_THREADS \<Longrightarrow> read_count t s s' \<Longrightarrow> ce_step s s'"
| reg: "t < NR_THREADS \<Longrightarrow> count_register_thread t s s' \<Longrightarrow> ce_step s s'"
| unreg: "t < NR_THREADS \<Longrightarrow> count_unregister_thread t s s' \<Longrightarrow> ce_step s s'"
| create: "t < NR_THREADS \<Longrightarrow> ce_pc s t = Exited \<Longrightarrow>
   ce_step s (s\<lparr>counter := (counter s)(t := 0), ce_pc := (ce_pc s)(t := Idle)\<rparr>)"

definition ce_total :: "ce_state \<Rightarrow> nat" where
  "ce_total s = gone s + sum (incs s) {0..<NR_THREADS}"

definition ce_view :: "ce_state \<Rightarrow> nat \<Rightarrow> nat" where
  "ce_view s = case_nat (gone s) (incs s)"

fun ce_cursor :: "ce_pc \<Rightarrow> (nat \<times> ulong) option" where
  "ce_cursor Rd_sum = Some (0, 0)"
| "ce_cursor (Rd_check t w) = Some (Suc t, w)"
| "ce_cursor (Rd_add t w) = Some (Suc t, w)"
| "ce_cursor (Rd_unlock w) = Some (Suc NR_THREADS, w)"
| "ce_cursor (Rd_ret w) = Some (Suc NR_THREADS, w)"
| "ce_cursor _ = None"

section \<open>The invariant\<close>

fun ce_critical :: "ce_pc \<Rightarrow> bool" where
  "ce_critical Rd_sum = True"
| "ce_critical (Rd_check t w) = True"
| "ce_critical (Rd_add t w) = True"
| "ce_critical (Rd_unlock w) = True"
| "ce_critical Reg_set = True"
| "ce_critical Reg_unlock = True"
| "ce_critical Unreg_add = True"
| "ce_critical Unreg_null = True"
| "ce_critical Unreg_unlock = True"
| "ce_critical _ = False"

text \<open>What holds of a thread, whatever the others do.\<close>

definition ce_thread :: "ce_pc \<Rightarrow> ulong \<Rightarrow> bool \<Rightarrow> nat \<Rightarrow> bool" where
  "ce_thread p c reg n \<longleftrightarrow> (p \<notin> {Exited, Unreg_unlock} \<longrightarrow> c = of_nat n) \<and>
     (reg \<or> n = 0) \<and> (\<forall>v. p = Inc v \<longrightarrow> reg \<and> v = c + 1) \<and>
     (p \<in> {Unreg_add, Unreg_null} \<longrightarrow> reg) \<and> (p \<in> {Exited, Unreg_unlock} \<longrightarrow> \<not> reg)"

definition ce_pending :: "ce_state \<Rightarrow> nat" where
  "ce_pending s = (case final_mutex s of
     Some t \<Rightarrow> if ce_pc s t = Unreg_null then incs s t else 0 | None \<Rightarrow> 0)"

definition ce_inv :: "ce_state \<Rightarrow> bool" where
  "ce_inv s \<longleftrightarrow> lock_ok ce_critical (final_mutex s) (ce_pc s) \<and>
     (\<forall>t. ce_thread (ce_pc s t) (counter s t) (counterp s t) (incs s t)) \<and>
     (\<forall>r t w. ce_pc s r = Rd_add t w \<longrightarrow> counterp s t \<and> t < NR_THREADS) \<and>
     finalcount s = of_nat (gone s + ce_pending s)"

lemma ce_invD:
  assumes "ce_inv s"
  shows "lock_ok ce_critical (final_mutex s) (ce_pc s)"
    and "ce_thread (ce_pc s t) (counter s t) (counterp s t) (incs s t)"
    and "ce_pc s r = Rd_add t w \<Longrightarrow> counterp s t \<and> t < NR_THREADS"
    and "finalcount s = of_nat (gone s + ce_pending s)"
    and "ce_critical (ce_pc s t) \<Longrightarrow> final_mutex s = Some t"
  using assms unfolding ce_inv_def lock_ok_def by blast+

text \<open>A step of thread \<open>t\<close> has to be checked at \<open>t\<close> only.\<close>

lemma ce_invI:
  assumes i: "ce_inv s"
    and fr: "\<And>u. u \<noteq> t \<Longrightarrow> ce_pc s' u = ce_pc s u \<and> counter s' u = counter s u \<and>
      counterp s' u = counterp s u \<and> incs s' u = incs s u"
    and "ce_thread (ce_pc s' t) (counter s' t) (counterp s' t) (incs s' t)"
    and "lock_ok ce_critical (final_mutex s') (ce_pc s')"
    and "\<And>a w. ce_pc s' t = Rd_add a w \<Longrightarrow> counterp s' a \<and> a < NR_THREADS"
    and "\<And>r w. ce_pc s r = Rd_add t w \<Longrightarrow> r \<noteq> t \<Longrightarrow> counterp s' t"
    and "finalcount s' = of_nat (gone s' + ce_pending s')"
  shows "ce_inv s'"
proof -
  note I = ce_invD [OF i]
  have "ce_thread (ce_pc s' u) (counter s' u) (counterp s' u) (incs s' u)" for u
    using I(2) [of u] fr [of u] assms(3) by (cases "u = t") simp_all
  moreover have "counterp s' a \<and> a < NR_THREADS" if "ce_pc s' r = Rd_add a w" for r a w
    using that fr [of r] fr [of a] I(3) [of r a w] assms(5,6) by metis
  ultimately show ?thesis using assms(4,7) unfolding ce_inv_def by blast
qed

lemma ce_inv_inc:
  assumes i: "ce_inv s" and st: "inc_count t s s'"
  shows "ce_inv s'"
  using st
proof cases
  note I = ce_invD [OF i] and T = ce_invD(2) [OF i, of t, unfolded ce_thread_def]
  case load
  with I(1,3,4) T show ?thesis
    by (intro ce_invI [OF i, of t])
      (auto simp: ce_pending_def ce_thread_def intro: lock_ok_outside split: option.splits)
next
  note I = ce_invD [OF i] and T = ce_invD(2) [OF i, of t, unfolded ce_thread_def]
  case (store v)
  with I(1,3,4) T show ?thesis
    by (intro ce_invI [OF i, of t])
      (auto simp: ce_pending_def ce_thread_def intro: lock_ok_outside split: option.splits)
qed

lemma ce_inv_read:
  assumes i: "ce_inv s" and st: "read_count t s s'"
  shows "ce_inv s'"
proof -
  note I = ce_invD [OF i] and T = ce_invD(2) [OF i, of t, unfolded ce_thread_def]
  from st show ?thesis
  proof cases
    case lock
    with I(1,3,4) T show ?thesis
      by (intro ce_invI [OF i, of t])
        (auto simp: ce_pending_def ce_thread_def intro: lock_ok_acquire split: option.splits)
  next
    case sum_init
    with I(1,3,4) T show ?thesis
      by (intro ce_invI [OF i, of t])
        (auto simp: ce_pending_def ce_thread_def intro: lock_ok_inside split: option.splits)
  next
    case (check k w)
    with I(1,3,4) T show ?thesis
      by (intro ce_invI [OF i, of t])
        (auto simp: ce_pending_def ce_thread_def intro: lock_ok_inside split: option.splits if_splits)
  next
    case (add k w)
    with I(1,3,4) T show ?thesis
      by (intro ce_invI [OF i, of t])
        (auto simp: ce_pending_def ce_thread_def intro: lock_ok_inside split: option.splits)
  next
    case (loop_end w)
    with I(1,3,4) T show ?thesis
      by (intro ce_invI [OF i, of t])
        (auto simp: ce_pending_def ce_thread_def intro: lock_ok_inside split: option.splits)
  next
    case (unlock w)
    with I(1,3,4) T I(5) [of t] show ?thesis
      by (intro ce_invI [OF i, of t])
        (auto simp: ce_pending_def ce_thread_def intro: lock_ok_release split: option.splits)
  next
    case (return w)
    with I(1,3,4) T show ?thesis
      by (intro ce_invI [OF i, of t])
        (auto simp: ce_pending_def ce_thread_def intro: lock_ok_outside split: option.splits)
  qed
qed

lemma ce_inv_register:
  assumes i: "ce_inv s" and st: "count_register_thread t s s'"
  shows "ce_inv s'"
proof -
  note I = ce_invD [OF i] and T = ce_invD(2) [OF i, of t, unfolded ce_thread_def]
  from st show ?thesis
  proof cases
    case lock
    with I(1,3,4) T show ?thesis
      by (intro ce_invI [OF i, of t])
        (auto simp: ce_pending_def ce_thread_def intro: lock_ok_acquire split: option.splits)
  next
    case set
    with I(1,3,4) T show ?thesis
      by (intro ce_invI [OF i, of t])
        (auto simp: ce_pending_def ce_thread_def intro: lock_ok_inside split: option.splits)
  next
    case unlock
    with I(1,3,4) T I(5) [of t] show ?thesis
      by (intro ce_invI [OF i, of t])
        (auto simp: ce_pending_def ce_thread_def intro: lock_ok_release split: option.splits)
  qed
qed

lemma ce_inv_unregister:
  assumes i: "ce_inv s" and st: "count_unregister_thread t s s'"
  shows "ce_inv s'"
proof -
  note I = ce_invD [OF i] and T = ce_invD(2) [OF i, of t, unfolded ce_thread_def]
  from st show ?thesis
  proof cases
    case lock
    with I(1,3,4) T show ?thesis
      by (intro ce_invI [OF i, of t])
        (auto simp: ce_pending_def ce_thread_def intro: lock_ok_acquire split: option.splits)
  next
    case add
    with I(1,3,4) T I(5) [of t] show ?thesis
      by (intro ce_invI [OF i, of t])
        (auto simp: ce_pending_def ce_thread_def intro: lock_ok_inside split: option.splits)
  next
    case null
    have "\<not> ce_critical (ce_pc s r)" if "r \<noteq> t" for r
      using I(5) [of r] I(5) [of t] null that by auto
    then have "ce_pc s r \<noteq> Rd_add t w" if "r \<noteq> t" for r w using that by force
    with null I(1,3,4) T I(5) [of t] show ?thesis
      by (intro ce_invI [OF i, of t])
        (auto simp: ce_pending_def ce_thread_def intro: lock_ok_inside split: option.splits)
  next
    case unlock
    with I(1,3,4) T I(5) [of t] show ?thesis
      by (intro ce_invI [OF i, of t])
        (auto simp: ce_pending_def ce_thread_def intro: lock_ok_release split: option.splits)
  qed
qed

lemma ce_inv_step: "ce_inv s \<Longrightarrow> ce_step s s' \<Longrightarrow> ce_inv s'"
proof (elim ce_step.cases)
  fix t sa assume i: "ce_inv s" and eq: "s = sa" "ce_pc sa t = Exited"
    "s' = sa\<lparr>counter := (counter sa)(t := 0), ce_pc := (ce_pc sa)(t := Idle)\<rparr>"
  note I = ce_invD [OF i] and T = ce_invD(2) [OF i, of t, unfolded ce_thread_def]
  from I(1,3,4) T eq show "ce_inv s'"
    by (intro ce_invI [OF i, of t])
      (auto simp: ce_pending_def ce_thread_def intro: lock_ok_outside split: option.splits)
qed (auto intro: ce_inv_inc ce_inv_read ce_inv_register ce_inv_unregister)

lemma ce_inv_init: "ce_inv ce_init"
  by (simp add: ce_inv_def ce_init_def ce_thread_def ce_pending_def lock_ok_def)

section \<open>The sweep\<close>

lemma ce_view_inc:
  "case_nat g (f(t := Suc (f t))) = (case_nat g f)(Suc t := Suc (case_nat g f (Suc t)))"
  by (auto simp: fun_eq_iff split: nat.splits)

lemma ce_view_all: "view_all (Suc NR_THREADS) (ce_view s) (ce_total s)"
  by (simp add: view_all_def ce_view_def ce_total_def sum.atLeast0_lessThan_Suc_shift del: sum.op_ivl_Suc)

lemma ce_total_null:
  "t < NR_THREADS \<Longrightarrow> incs s t + sum ((incs s)(t := 0)) {0..<NR_THREADS} = sum (incs s) {0..<NR_THREADS}"
  "t < NR_THREADS \<Longrightarrow> incs s t + (\<Sum>i = 0..<NR_THREADS. if i = t then 0 else incs s i)
     = sum (incs s) {0..<NR_THREADS}"
  using sum_fun_upd_finite [of "{0..<NR_THREADS}" t "incs s" 0] by (simp_all add: fun_upd_def)

lemma ce_scan_self:
  assumes i: "ce_inv s" and st: "read_count r s s'" and y: "ce_cursor (ce_pc s' r) = Some y"
  shows "scan_start (Suc NR_THREADS) (\<lambda>w c. w = of_nat c) (ce_view s') (ce_total s') y
    \<or> (ce_cursor (ce_pc s r) = Some y \<and> ce_view s' = ce_view s \<and> ce_total s' = ce_total s)
    \<or> (\<exists>x. ce_cursor (ce_pc s r) = Some x \<and> ce_view s' = ce_view s \<and> ce_total s' = ce_total s
       \<and> scan_advance (Suc NR_THREADS) (\<lambda>w c. w = of_nat c) (ce_view s) x y)"
proof -
  note I = ce_invD [OF i]
  from st y show ?thesis
  proof cases
    case lock
    with y ce_view_all [of s'] show ?thesis by (auto simp: scan_start_def)
  next
    case sum_init
    with y I(4) I(5) [of r] show ?thesis
      by (auto simp: scan_advance_def ce_view_def ce_total_def ce_pending_def)
  next
    case (check t w)
    have "counterp s t \<or> incs s t = 0" using I(2) [of t] by (simp add: ce_thread_def)
    with check y show ?thesis
      by (auto simp: scan_advance_def ce_view_def ce_total_def split: if_splits)
  next
    case (add t w)
    then have "counterp s t" "t < NR_THREADS" using I(3) by auto
    moreover have "ce_pc s t \<notin> {Exited, Unreg_unlock}"
      using I(2) [of t] \<open>counterp s t\<close> by (auto simp: ce_thread_def)
    ultimately have "counter s t = of_nat (incs s t)" using I(2) [of t] by (simp add: ce_thread_def)
    with add y \<open>t < NR_THREADS\<close> show ?thesis
      by (auto simp: scan_advance_def ce_view_def ce_total_def)
  next
    case (loop_end w)
    with y show ?thesis by (auto simp: ce_view_def ce_total_def)
  next
    case (unlock w)
    with y show ?thesis by (auto simp: ce_view_def ce_total_def)
  next
    case (return w)
    with y show ?thesis by auto
  qed
qed

lemma ce_scan_other:
  assumes i: "ce_inv s" and st: "ce_step s s'" and y: "ce_cursor (ce_pc s' r) = Some y"
    and other: "\<not> read_count r s s'"
  shows "ce_cursor (ce_pc s r) = Some y \<and>
    view_keep (Suc NR_THREADS) (fst y) (ce_view s) (ce_total s) (ce_view s') (ce_total s')"
  using st
proof cases
  case (inc t)
  from \<open>inc_count t s s'\<close> show ?thesis
  proof cases
    case load
    with y show ?thesis by (auto simp: ce_view_def ce_total_def view_keep_refl split: if_splits)
  next
    case (store v)
    with y \<open>t < NR_THREADS\<close> show ?thesis
      using view_keep_inc [of "Suc NR_THREADS" "fst y" "ce_view s" "ce_total s" "Suc t"]
      by (auto simp: ce_view_def ce_total_def sum_inc ce_view_inc split: if_splits)
  qed
next
  case (rd t)
  then have "t \<noteq> r" using other by blast
  with \<open>read_count t s s'\<close> y show ?thesis
    by (elim read_count.cases) (auto simp: ce_view_def ce_total_def view_keep_refl split: if_splits)
next
  case (reg t)
  with \<open>count_register_thread t s s'\<close> y show ?thesis
    by (elim count_register_thread.cases)
      (auto simp: ce_view_def ce_total_def view_keep_refl split: if_splits)
next
  case (unreg t)
  from \<open>count_unregister_thread t s s'\<close> show ?thesis
  proof cases
    case null
    with y have r: "ce_cursor (ce_pc s r) = Some y" "r \<noteq> t" by (auto split: if_splits)
    have "\<not> ce_critical (ce_pc s r)"
      using ce_invD(5) [OF i, of r] ce_invD(5) [OF i, of t] null r(2) by auto
    with r have "fst y = Suc NR_THREADS" by (cases "ce_pc s r") auto
    moreover have "ce_total s' = ce_total s"
      using null ce_total_null [OF \<open>t < NR_THREADS\<close>, of s] by (simp add: ce_total_def)
    ultimately show ?thesis using r by (simp add: view_keep_end)
  qed (use y in \<open>auto simp: ce_view_def ce_total_def view_keep_refl split: if_splits\<close>)
next
  case (create t)
  with y show ?thesis by (auto simp: ce_view_def ce_total_def view_keep_refl split: if_splits)
qed

interpretation ce: stat_counter "\<lambda>s. s = ce_init" ce_step "\<lambda>s r. ce_cursor (ce_pc s r)"
  "\<lambda>s r. ce_view s" "Suc NR_THREADS" ce_total "\<lambda>w c. w = of_nat c"
proof
  fix s s' assume "ce_step s s'"
  then show "ce_total s \<le> ce_total s'"
    by (elim ce_step.cases inc_count.cases read_count.cases count_register_thread.cases
        count_unregister_thread.cases)
      (auto simp: ce_total_def sum_inc ce_total_null)
next
  fix s s' r y
  assume R: "reachable (\<lambda>s. s = ce_init) ce_step s" and st: "ce_step s s'"
    and y: "ce_cursor (ce_pc s' r) = Some y"
  have i: "ce_inv s" using R by (rule reachable_invariant) (auto simp: ce_inv_init intro: ce_inv_step)
  show "scan_start (Suc NR_THREADS) (\<lambda>w c. w = of_nat c) (ce_view s') (ce_total s') y \<or>
    (ce_cursor (ce_pc s r) = Some y \<and>
       view_keep (Suc NR_THREADS) (fst y) (ce_view s) (ce_total s) (ce_view s') (ce_total s')) \<or>
    (\<exists>x. ce_cursor (ce_pc s r) = Some x \<and> ce_view s' = ce_view s \<and> ce_total s' = ce_total s \<and>
      scan_advance (Suc NR_THREADS) (\<lambda>w c. w = of_nat c) (ce_view s) x y)"
    using ce_scan_self [OF i _ y] ce_scan_other [OF i st y] view_keep_refl by metis
qed

text \<open>
  C31: Whatever \<open>read_count\<close> of count_end.c returns is the count (modulo \<open>2 ^ 64\<close>) at some value
  between the number of increments when it was called and the number when it returns, although
  threads increment, register and exit while it runs: no increment is lost or counted twice when
  a thread exits.
\<close>

theorem count_end_read_between:
  assumes "reachable (\<lambda>s. s = ce_init) ce_step s0" and "reachable (\<lambda>s. s = s0) ce_step s"
    and "ce_pc s0 r = Idle" and "ce_pc s r = Rd_ret w"
  shows "\<exists>c. w = of_nat c \<and> ce_total s0 \<le> c \<and> c \<le> ce_total s"
  using ce.read_between [OF assms(1,2), of r w] assms(3,4) by simp

text \<open>A run: thread 0 registers, increments and exits, then thread 1 reads.\<close>

definition ce_after_exit :: ce_state where
  "ce_after_exit = \<lparr>counter = (\<lambda>_. 0)(0 := 1), counterp = (\<lambda>_. False), finalcount = 1,
     final_mutex = None, ce_pc = (\<lambda>_. Idle)(0 := Exited), incs = (\<lambda>_. 0), gone = 1\<rparr>"

lemma ce_reach_after_exit: "reachable (\<lambda>s. s = ce_init) ce_step ce_after_exit"
proof -
  let ?R = "reachable (\<lambda>s. s = ce_init) ce_step"
  let ?s = "\<lambda>c p f m pc i g. \<lparr>counter = (\<lambda>_. 0)(0 := c), counterp = (\<lambda>_. False)(0 := p), finalcount = f,
     final_mutex = m, ce_pc = (\<lambda>_. Idle)(0 := pc), incs = (\<lambda>_. 0)(0 := i), gone = g\<rparr> :: ce_state"
  note go = reachable.next_state [where stp = ce_step and init = "\<lambda>s. s = ce_init"]
  have 0: "?R (?s 0 False 0 None Idle 0 0)"
    by (rule reachable.start) (simp add: ce_init_def fun_eq_iff)
  have 1: "?R (?s 0 False 0 (Some 0) Reg_set 0 0)"
    using count_register_thread.lock [of "?s 0 False 0 None Idle 0 0" 0]
    by (intro go [OF 0] ce_step.reg [of 0]) (simp_all)
  have 2: "?R (?s 0 True 0 (Some 0) Reg_unlock 0 0)"
    using count_register_thread.set [of "?s 0 False 0 (Some 0) Reg_set 0 0" 0]
    by (intro go [OF 1] ce_step.reg [of 0]) (simp_all)
  have 3: "?R (?s 0 True 0 None Idle 0 0)"
    using count_register_thread.unlock [of "?s 0 True 0 (Some 0) Reg_unlock 0 0" 0]
    by (intro go [OF 2] ce_step.reg [of 0]) (simp_all)
  have 4: "?R (?s 0 True 0 None (Inc 1) 0 0)"
    using inc_count.load [of "?s 0 True 0 None Idle 0 0" 0]
    by (intro go [OF 3] ce_step.inc [of 0]) (simp_all)
  have 5: "?R (?s 1 True 0 None Idle 1 0)"
    using inc_count.store [of "?s 0 True 0 None (Inc 1) 0 0" 0]
    by (intro go [OF 4] ce_step.inc [of 0]) (simp_all)
  have 6: "?R (?s 1 True 0 (Some 0) Unreg_add 1 0)"
    using count_unregister_thread.lock [of "?s 1 True 0 None Idle 1 0" 0]
    by (intro go [OF 5] ce_step.unreg [of 0]) (simp_all)
  have 7: "?R (?s 1 True 1 (Some 0) Unreg_null 1 0)"
    using count_unregister_thread.add [of "?s 1 True 0 (Some 0) Unreg_add 1 0" 0]
    by (intro go [OF 6] ce_step.unreg [of 0]) (simp_all)
  have 8: "?R (?s 1 False 1 (Some 0) Unreg_unlock 0 1)"
    using count_unregister_thread.null [of "?s 1 True 1 (Some 0) Unreg_null 1 0" 0]
    by (intro go [OF 7] ce_step.unreg [of 0]) (simp_all)
  have "?R (?s 1 False 1 None Exited 0 1)"
    using count_unregister_thread.unlock [of "?s 1 False 1 (Some 0) Unreg_unlock 0 1" 0]
    by (intro go [OF 8] ce_step.unreg [of 0]) (simp_all)
  then show ?thesis by (simp add: ce_after_exit_def fun_upd_def cong: if_cong)
qed

text \<open>A sweep in a state without registered threads.\<close>

lemma ce_sweep_empty:
  assumes s: "\<And>t. \<not> counterp s t" "final_mutex s = None" "ce_pc s r = Idle" "r < NR_THREADS"
  shows "\<exists>s'. reachable (\<lambda>x. x = s) ce_step s' \<and> ce_pc s' r = Rd_ret (finalcount s) \<and> ce_total s' = ce_total s"
proof -
  let ?R = "reachable (\<lambda>x. x = s) ce_step"
  let ?s = "\<lambda>m p. s\<lparr>final_mutex := m, ce_pc := (ce_pc s)(r := p)\<rparr>"
  note go = reachable.next_state [where stp = ce_step and init = "\<lambda>x. x = s"]
  have 0: "?R s" by (rule reachable.start) simp
  have 1: "?R (?s (Some r) Rd_sum)"
    using read_count.lock [OF s(3,2)] s(4) by (intro go [OF 0] ce_step.rd [of r])
  have 2: "?R (?s (Some r) (Rd_check 0 (finalcount s)))"
    using read_count.sum_init [of "?s (Some r) Rd_sum" r] s(4)
    by (intro go [OF 1] ce_step.rd [of r]) simp_all
  have 3: "?R (?s (Some r) (Rd_check k (finalcount s)))" if "k \<le> NR_THREADS" for k
    using that
  proof (induction k)
    case (Suc k)
    have h: "?R (?s (Some r) (Rd_check k (finalcount s)))"
      by (rule Suc.IH) (use Suc.prems in simp)
    have "read_count r (?s (Some r) (Rd_check k (finalcount s))) (?s (Some r) (Rd_check (Suc k) (finalcount s)))"
      using read_count.check [of "?s (Some r) (Rd_check k (finalcount s))" r k "finalcount s"] s(1) Suc.prems
      by simp
    then show ?case by (rule go [OF h ce_step.rd [OF s(4)]])
  qed (use 2 in simp)
  have 4: "?R (?s (Some r) (Rd_unlock (finalcount s)))"
    using read_count.loop_end [of "?s (Some r) (Rd_check NR_THREADS (finalcount s))" r] s(4)
    by (intro go [OF 3 [of NR_THREADS]] ce_step.rd [of r]) simp_all
  have "?R (?s None (Rd_ret (finalcount s)))"
    using read_count.unlock [of "?s (Some r) (Rd_unlock (finalcount s))" r] s(4)
    by (intro go [OF 4] ce_step.rd [of r]) simp_all
  then show ?thesis by (intro exI [of _ "?s None (Rd_ret (finalcount s))"]) (simp add: ce_total_def)
qed

lemma count_end_read_between_witness:
  "\<exists>s. ce_pc s 1 = Rd_ret 1 \<and> (\<exists>c. (1 :: ulong) = of_nat c \<and> ce_total ce_after_exit \<le> c \<and> c \<le> ce_total s)"
proof -
  have "1 < NR_THREADS" by (simp add: NR_THREADS_def)
  then obtain s where s: "reachable (\<lambda>x. x = ce_after_exit) ce_step s" "ce_pc s 1 = Rd_ret 1"
    using ce_sweep_empty [of ce_after_exit 1] by (auto simp: ce_after_exit_def)
  moreover have "ce_pc ce_after_exit 1 = Idle" by (simp add: ce_after_exit_def)
  ultimately show ?thesis using count_end_read_between [OF ce_reach_after_exit s(1) _ s(2)] by blast
qed

end
