(* ===== verification/Count_Eventual.thy ===== *)
theory Count_Eventual
  imports Stat_Spec
begin

text \<open>
  count/count_stat_eventual.c: the thread \<open>eventual\<close> sums the per-thread counters into
  \<open>global_count\<close> over and over, and \<open>read_count\<close> reads that one variable. \<open>count_cleanup\<close> stops
  the thread through \<open>stopflag\<close>: the thread raises a non-zero flag after each sweep and leaves at 3,
  so it makes at least one full sweep after it has seen the request.

  The field \<open>incs\<close> is not in the code: the increments of each thread.
\<close>

datatype ct_pc = Idle | Inc ulong

datatype ev_pc = E_while | E_sum nat ulong | E_poll | E_load | E_store int | E_done

datatype cl_pc = C_idle | C_wait | C_done

record ev_state =
  counter :: "nat \<Rightarrow> ulong"
  global_count :: ulong
  stopflag :: int
  ct_pc :: "nat \<Rightarrow> ct_pc"
  ev_pc :: ev_pc
  cl_pc :: cl_pc
  incs :: "nat \<Rightarrow> nat"

definition ev_init :: ev_state where
  "ev_init = \<lparr>counter = (\<lambda>_. 0), global_count = 0, stopflag = 0, ct_pc = (\<lambda>_. Idle),
     ev_pc = E_while, cl_pc = C_idle, incs = (\<lambda>_. 0)\<rparr>"

inductive inc_count :: "nat \<Rightarrow> ev_state \<Rightarrow> ev_state \<Rightarrow> bool" for t s where
  load: "ct_pc s t = Idle \<Longrightarrow> inc_count t s (s\<lparr>ct_pc := (ct_pc s)(t := Inc (counter s t + 1))\<rparr>)"
| store: "ct_pc s t = Inc v \<Longrightarrow>
   inc_count t s (s\<lparr>counter := (counter s)(t := v), ct_pc := (ct_pc s)(t := Idle),
                   incs := (incs s)(t := Suc (incs s t))\<rparr>)"

definition read_count :: "ev_state \<Rightarrow> ulong" where
  "read_count s = global_count s"

inductive eventual :: "ev_state \<Rightarrow> ev_state \<Rightarrow> bool" for s where
  while_true: "ev_pc s = E_while \<Longrightarrow> stopflag s < 3 \<Longrightarrow> eventual s (s\<lparr>ev_pc := E_sum 0 0\<rparr>)"
| while_false: "ev_pc s = E_while \<Longrightarrow> \<not> stopflag s < 3 \<Longrightarrow> eventual s (s\<lparr>ev_pc := E_done\<rparr>)"
| add: "ev_pc s = E_sum t w \<Longrightarrow> t < NR_THREADS \<Longrightarrow>
   eventual s (s\<lparr>ev_pc := E_sum (t + 1) (w + counter s t)\<rparr>)"
| publish: "ev_pc s = E_sum NR_THREADS w \<Longrightarrow> eventual s (s\<lparr>global_count := w, ev_pc := E_poll\<rparr>)"
| if_true: "ev_pc s = E_poll \<Longrightarrow> stopflag s \<noteq> 0 \<Longrightarrow> eventual s (s\<lparr>ev_pc := E_load\<rparr>)"
| if_false: "ev_pc s = E_poll \<Longrightarrow> stopflag s = 0 \<Longrightarrow> eventual s (s\<lparr>ev_pc := E_while\<rparr>)"
| load: "ev_pc s = E_load \<Longrightarrow> eventual s (s\<lparr>ev_pc := E_store (stopflag s + 1)\<rparr>)"
| store: "ev_pc s = E_store v \<Longrightarrow> eventual s (s\<lparr>stopflag := v, ev_pc := E_while\<rparr>)"

inductive count_cleanup :: "ev_state \<Rightarrow> ev_state \<Rightarrow> bool" for s where
  call: "cl_pc s = C_idle \<Longrightarrow> count_cleanup s (s\<lparr>stopflag := 1, cl_pc := C_wait\<rparr>)"
| spin: "cl_pc s = C_wait \<Longrightarrow> stopflag s < 3 \<Longrightarrow> count_cleanup s s"
| return: "cl_pc s = C_wait \<Longrightarrow> \<not> stopflag s < 3 \<Longrightarrow> count_cleanup s (s\<lparr>cl_pc := C_done\<rparr>)"

inductive ev_step :: "ev_state \<Rightarrow> ev_state \<Rightarrow> bool" where
  inc: "t < NR_THREADS \<Longrightarrow> inc_count t s s' \<Longrightarrow> ev_step s s'"
| sweep: "eventual s s' \<Longrightarrow> ev_step s s'"
| cleanup: "count_cleanup s s' \<Longrightarrow> ev_step s s'"

definition ev_total :: "ev_state \<Rightarrow> nat" where
  "ev_total s = sum (incs s) {0..<NR_THREADS}"

section \<open>The sweep\<close>

fun ev_cursor :: "ev_pc \<Rightarrow> (nat \<times> ulong) option" where
  "ev_cursor (E_sum t w) = Some (t, w)"
| "ev_cursor _ = None"

definition ev_inv :: "ev_state \<Rightarrow> bool" where
  "ev_inv s \<longleftrightarrow> (\<forall>t. counter s t = of_nat (incs s t)) \<and>
     (\<forall>t v. ct_pc s t = Inc v \<longrightarrow> v = counter s t + 1)"

lemma ev_inv_step: "ev_inv s \<Longrightarrow> ev_step s s' \<Longrightarrow> ev_inv s'"
  by (elim ev_step.cases inc_count.cases eventual.cases count_cleanup.cases)
    (auto simp: ev_inv_def add.commute)

lemma ev_inv_reachable: "reachable (\<lambda>s. s = ev_init) ev_step s \<Longrightarrow> ev_inv s"
  by (erule reachable_invariant) (auto simp: ev_inv_step, simp add: ev_inv_def ev_init_def)

interpretation ev: stat_counter "\<lambda>s. s = ev_init" ev_step "\<lambda>s r. ev_cursor (ev_pc s)"
  "\<lambda>s r. incs s" NR_THREADS ev_total "\<lambda>w c. w = of_nat c"
proof
  fix s s' assume st: "ev_step s s'"
  then show "ev_total s \<le> ev_total s'"
    by (elim ev_step.cases inc_count.cases eventual.cases count_cleanup.cases)
      (simp_all add: ev_total_def sum_inc)
next
  fix s s' y
  assume "reachable (\<lambda>s. s = ev_init) ev_step s" and st: "ev_step s s'"
    and y: "ev_cursor (ev_pc s') = Some y"
  then have i: "counter s t = of_nat (incs s t)" for t
    using ev_inv_reachable by (simp add: ev_inv_def)
  from st y show "scan_start NR_THREADS (\<lambda>w c. w = of_nat c) (incs s') (ev_total s') y \<or>
    (ev_cursor (ev_pc s) = Some y \<and> view_keep NR_THREADS (fst y) (incs s) (ev_total s) (incs s') (ev_total s')) \<or>
    (\<exists>x. ev_cursor (ev_pc s) = Some x \<and> incs s' = incs s \<and> ev_total s' = ev_total s \<and>
      scan_advance NR_THREADS (\<lambda>w c. w = of_nat c) (incs s) x y)"
    by (elim ev_step.cases inc_count.cases eventual.cases count_cleanup.cases)
      (auto simp: ev_total_def sum_inc scan_start_def view_all_def scan_advance_def i
        view_keep_refl view_keep_inc split: if_splits)
qed

section \<open>The stop handshake\<close>

text \<open>
  \<open>lo\<close> is the count when cleanup was called. From the moment the flag is 2, the sweep under way
  began after the call; when it is 3, \<open>global_count\<close> has the result of such a sweep.
\<close>

definition published :: "nat \<Rightarrow> ev_state \<Rightarrow> bool" where
  "published lo s \<longleftrightarrow> (\<exists>c. global_count s = of_nat c \<and> lo \<le> c \<and> c \<le> ev_total s)"

fun stop_ok :: "nat \<Rightarrow> ev_pc \<Rightarrow> ev_state \<Rightarrow> bool" where
  "stop_ok lo (E_sum t w) s \<longleftrightarrow> stopflag s \<in> {1, 2} \<and>
     (stopflag s = 2 \<longrightarrow> sweep_ok NR_THREADS (\<lambda>w c. w = of_nat c) lo (incs s) (ev_total s) t w)"
| "stop_ok lo E_poll s \<longleftrightarrow> stopflag s \<in> {1, 2} \<and> (stopflag s = 2 \<longrightarrow> published lo s)"
| "stop_ok lo E_load s \<longleftrightarrow> stopflag s \<in> {1, 2} \<and> (stopflag s = 2 \<longrightarrow> published lo s)"
| "stop_ok lo (E_store v) s \<longleftrightarrow> stopflag s \<in> {1, 2} \<and> v = stopflag s + 1 \<and> (stopflag s = 2 \<longrightarrow> published lo s)"
| "stop_ok lo E_while s \<longleftrightarrow> stopflag s \<in> {1, 2, 3} \<and> (stopflag s = 3 \<longrightarrow> published lo s)"
| "stop_ok lo E_done s \<longleftrightarrow> stopflag s = 3 \<and> published lo s"

definition run_ok :: "nat \<Rightarrow> ev_state \<Rightarrow> bool" where
  "run_ok lo s \<longleftrightarrow> lo \<le> ev_total s \<and>
     (if cl_pc s = C_idle then stopflag s = 0 \<and> ev_pc s \<noteq> E_load \<and> (\<forall>v. ev_pc s \<noteq> E_store v) \<and> ev_pc s \<noteq> E_done
      else stop_ok lo (ev_pc s) s \<and> (cl_pc s = C_done \<longrightarrow> stopflag s = 3))"

lemma published_3: "stop_ok lo p s \<Longrightarrow> stopflag s = 3 \<Longrightarrow> published lo s"
  by (cases p) auto

lemma published_inc:
  "published lo s \<Longrightarrow> global_count s' = global_count s \<Longrightarrow> ev_total s \<le> ev_total s' \<Longrightarrow> published lo s'"
  unfolding published_def by fastforce

lemma run_ok_step:
  assumes r: "run_ok lo s" and i: "ev_inv s" and st: "ev_step s s'"
  shows "run_ok lo s'"
  using st
proof cases
  case (inc t)
  from \<open>inc_count t s s'\<close> show ?thesis
  proof cases
    case load
    with r show ?thesis by (cases "ev_pc s") (auto simp: run_ok_def ev_total_def published_def)
  next
    case (store v)
    have T: "ev_total s' = Suc (ev_total s)"
      using store \<open>t < NR_THREADS\<close> by (simp add: ev_total_def sum_inc)
    have "stop_ok lo (ev_pc s') s'" if "stop_ok lo (ev_pc s) s"
    proof (cases "ev_pc s")
      case (E_sum k w)
      with that store T show ?thesis
        using sweep_ok_keep [OF _ view_keep_inc, of NR_THREADS _ lo "incs s" "ev_total s" k w t] by auto
    qed (use that store T published_inc [of lo s s'] in auto)
    with r store T show ?thesis by (auto simp: run_ok_def)
  qed
next
  case sweep
  then show ?thesis
  proof cases
    case while_true
    with r show ?thesis
      using sweep_ok_start [of NR_THREADS "incs s" "ev_total s" lo "\<lambda>w c. w = of_nat c" "0 :: ulong"]
      by (auto simp: run_ok_def ev_total_def view_all_def)
  next
    case (add t w)
    with r i show ?thesis
      using sweep_ok_advance [of NR_THREADS "\<lambda>w c. w = of_nat c" lo "incs s" "ev_total s" t w "w + counter s t"]
      by (auto simp: run_ok_def ev_total_def ev_inv_def)
  next
    case (publish w)
    with r show ?thesis
      using sweep_ok_end [of NR_THREADS "\<lambda>w c. w = of_nat c" lo "incs s" "ev_total s" w]
      by (auto simp: run_ok_def ev_total_def published_def)
  qed (use r in \<open>auto simp: run_ok_def ev_total_def published_def split: if_splits\<close>)
next
  case cleanup
  then show ?thesis
  proof cases
    case call
    with r show ?thesis
      by (cases "ev_pc s") (auto simp: run_ok_def ev_total_def published_def)
  qed (use r in \<open>cases "ev_pc s"; auto simp: run_ok_def ev_total_def published_def\<close>)+
qed

lemma run_ok_reachable:
  assumes "reachable (\<lambda>s. s = s0) ev_step s" and "reachable (\<lambda>s. s = ev_init) ev_step s0"
    and "run_ok lo s0"
  shows "run_ok lo s"
proof -
  have "run_ok lo s \<and> ev_inv s"
    using assms(1)
    by (rule reachable_invariant) (use assms(3) ev_inv_reachable [OF assms(2)] in \<open>auto intro: run_ok_step ev_inv_step\<close>)
  then show ?thesis by simp
qed

text \<open>
  When \<open>count_cleanup\<close> of count_stat_eventual.c has returned, \<open>read_count\<close> returns a value
  that has every increment made before the call (modulo \<open>2 ^ 64\<close>), and none that was not made.
\<close>

theorem count_cleanup_publishes:
  assumes "reachable (\<lambda>s. s = ev_init) ev_step s0" and "cl_pc s0 = C_idle"
    and "reachable (\<lambda>s. s = s0) ev_step s" and "cl_pc s = C_done"
  shows "\<exists>c. read_count s = of_nat c \<and> ev_total s0 \<le> c \<and> c \<le> ev_total s"
proof -
  have "run_ok 0 s0"
    by (rule run_ok_reachable [OF assms(1)]) (auto intro: reachable.start simp: run_ok_def ev_init_def)
  then have "run_ok (ev_total s0) s0" using assms(2) by (simp add: run_ok_def)
  then have "run_ok (ev_total s0) s" using run_ok_reachable [OF assms(3,1)] by blast
  then show ?thesis
    using assms(4) published_3 [of "ev_total s0" "ev_pc s" s]
    by (auto simp: run_ok_def published_def read_count_def)
qed

text \<open>A run: thread 0 increments, cleanup is called, and \<open>eventual\<close> makes two sweeps.\<close>

lemma ev_run_sweep:
  assumes s: "ev_pc s = E_while" "stopflag s < 3"
  shows "reachable (\<lambda>x. x = s0) ev_step s \<Longrightarrow> reachable (\<lambda>x. x = s0) ev_step
    (s\<lparr>global_count := sum_list (map (counter s) [0..<NR_THREADS]), ev_pc := E_poll\<rparr>)"
proof -
  let ?R = "reachable (\<lambda>x. x = s0) ev_step"
  let ?w = "\<lambda>k. sum_list (map (counter s) [0..<k])"
  note go = reachable.next_state [where stp = ev_step and init = "\<lambda>x. x = s0"]
  assume R: "?R s"
  have 1: "?R (s\<lparr>ev_pc := E_sum k (?w k)\<rparr>)" if "k \<le> NR_THREADS" for k
    using that
  proof (induction k)
    case 0
    then show ?case using eventual.while_true [OF s] by (simp add: go [OF R ev_step.sweep])
  next
    case (Suc k)
    have h: "?R (s\<lparr>ev_pc := E_sum k (?w k)\<rparr>)" by (rule Suc.IH) (use Suc.prems in simp)
    have "eventual (s\<lparr>ev_pc := E_sum k (?w k)\<rparr>) (s\<lparr>ev_pc := E_sum (Suc k) (?w (Suc k))\<rparr>)"
      using eventual.add [of "s\<lparr>ev_pc := E_sum k (?w k)\<rparr>" k "?w k"] Suc.prems by simp
    then show ?case by (rule go [OF h ev_step.sweep])
  qed
  have "eventual (s\<lparr>ev_pc := E_sum NR_THREADS (?w NR_THREADS)\<rparr>)
      (s\<lparr>global_count := ?w NR_THREADS, ev_pc := E_poll\<rparr>)"
    using eventual.publish [of "s\<lparr>ev_pc := E_sum NR_THREADS (?w NR_THREADS)\<rparr>" "?w NR_THREADS"] by simp
  then show ?thesis by (rule go [OF 1 [OF order_refl] ev_step.sweep])
qed

definition ev_after_inc :: ev_state where
  "ev_after_inc = ev_init\<lparr>counter := (\<lambda>_. 0)(0 := 1), incs := (\<lambda>_. 0)(0 := 1)\<rparr>"

lemma ev_reach_after_inc: "reachable (\<lambda>s. s = ev_init) ev_step ev_after_inc"
proof -
  note go = reachable.next_state [where stp = ev_step and init = "\<lambda>x. x = ev_init"]
  let ?s = "ev_init\<lparr>ct_pc := (\<lambda>_. Idle)(0 := Inc 1)\<rparr>"
  have "inc_count 0 ev_init ?s"
    using inc_count.load [of ev_init 0] by (simp add: ev_init_def)
  then have 1: "reachable (\<lambda>s. s = ev_init) ev_step ?s"
    by (intro go [OF reachable.start] ev_step.inc [of 0]) simp_all
  have "inc_count 0 ?s ev_after_inc"
    using inc_count.store [of ?s 0 1] by (simp add: ev_after_inc_def ev_init_def fun_upd_idem)
  then show ?thesis by (intro go [OF 1] ev_step.inc [of 0]) simp_all
qed

lemma ev_run_cleanup:
  "\<exists>s. reachable (\<lambda>x. x = ev_after_inc) ev_step s \<and> cl_pc s = C_done \<and> ev_total s = ev_total ev_after_inc"
proof -
  let ?w = "sum_list (map ((\<lambda>_. 0)(0 := 1)) [0..<NR_THREADS])"
  let ?s = "\<lambda>g f e c. \<lparr>counter = (\<lambda>_. 0)(0 := 1), global_count = g, stopflag = f, ct_pc = (\<lambda>_. Idle),
     ev_pc = e, cl_pc = c, incs = (\<lambda>_. 0)(0 := 1)\<rparr> :: ev_state"
  let ?R = "reachable (\<lambda>x. x = ev_after_inc) ev_step"
  note go = reachable.next_state [where stp = ev_step and init = "\<lambda>x. x = ev_after_inc"]
  have 0: "?R (?s 0 1 E_while C_wait)"
    using count_cleanup.call [of ev_after_inc]
    by (intro go [OF reachable.start] ev_step.cleanup) (simp_all add: ev_after_inc_def ev_init_def)
  have 1: "?R (?s ?w 1 E_poll C_wait)"
    using ev_run_sweep [OF _ _ 0] by simp
  have 2: "?R (?s ?w 1 E_load C_wait)"
    using eventual.if_true [of "?s ?w 1 E_poll C_wait"] by (intro go [OF 1] ev_step.sweep) simp
  have 3: "?R (?s ?w 1 (E_store 2) C_wait)"
    using eventual.load [of "?s ?w 1 E_load C_wait"] by (intro go [OF 2] ev_step.sweep) simp
  have 4: "?R (?s ?w 2 E_while C_wait)"
    using eventual.store [of "?s ?w 1 (E_store 2) C_wait"] by (intro go [OF 3] ev_step.sweep) simp
  have 5: "?R (?s ?w 2 E_poll C_wait)"
    using ev_run_sweep [OF _ _ 4] by simp
  have 6: "?R (?s ?w 2 E_load C_wait)"
    using eventual.if_true [of "?s ?w 2 E_poll C_wait"] by (intro go [OF 5] ev_step.sweep) simp
  have 7: "?R (?s ?w 2 (E_store 3) C_wait)"
    using eventual.load [of "?s ?w 2 E_load C_wait"] by (intro go [OF 6] ev_step.sweep) simp
  have 8: "?R (?s ?w 3 E_while C_wait)"
    using eventual.store [of "?s ?w 2 (E_store 3) C_wait"] by (intro go [OF 7] ev_step.sweep) simp
  have "?R (?s ?w 3 E_while C_done)"
    using count_cleanup.return [of "?s ?w 3 E_while C_wait"] by (intro go [OF 8] ev_step.cleanup) simp
  then show ?thesis
    by (intro exI [of _ "?s ?w 3 E_while C_done"]) (simp add: ev_total_def ev_after_inc_def ev_init_def)
qed

lemma count_cleanup_publishes_witness:
  "\<exists>s. cl_pc s = C_done \<and> read_count s = 1"
proof -
  obtain s where s: "reachable (\<lambda>x. x = ev_after_inc) ev_step s" "cl_pc s = C_done"
    "ev_total s = ev_total ev_after_inc" using ev_run_cleanup by blast
  have T: "ev_total ev_after_inc = 1"
    by (simp add: ev_total_def ev_after_inc_def ev_init_def sum.If_cases fun_upd_def)
  have "\<exists>c. read_count s = of_nat c \<and> ev_total ev_after_inc \<le> c \<and> c \<le> ev_total s"
    by (rule count_cleanup_publishes [OF ev_reach_after_inc _ s(1,2)])
      (simp add: ev_after_inc_def ev_init_def)
  then have "read_count s = 1" using s(3) T by (auto dest: le_antisym)
  with s(2) show ?thesis by blast
qed

end
