(* ===== verification/Count_Nonatomic.thy ===== *)
theory Count_Nonatomic
  imports Limit_Spec
begin

text \<open>
  count/count_nonatomic.c and count/count_atomic.c: one global counter. The first increments it
  by a separate load and store, the second by an atomic instruction on a 32-bit \<open>atomic_t\<close>. The
  field \<open>incs\<close> is not in the code: the number of increments completed.
\<close>

datatype cn_pc = Idle | Inc ulong

record cn_state =
  counter :: ulong
  cn_pc :: "nat \<Rightarrow> cn_pc"
  incs :: nat

definition cn_init :: cn_state where
  "cn_init = \<lparr>counter = 0, cn_pc = (\<lambda>_. Idle), incs = 0\<rparr>"

inductive inc_count :: "nat \<Rightarrow> cn_state \<Rightarrow> cn_state \<Rightarrow> bool" for t s where
  load: "cn_pc s t = Idle \<Longrightarrow> inc_count t s (s\<lparr>cn_pc := (cn_pc s)(t := Inc (counter s + 1))\<rparr>)"
| store: "cn_pc s t = Inc v \<Longrightarrow>
   inc_count t s (s\<lparr>counter := v, cn_pc := (cn_pc s)(t := Idle), incs := Suc (incs s)\<rparr>)"

definition read_count :: "cn_state \<Rightarrow> ulong" where
  "read_count s = counter s"

inductive cn_step :: "cn_state \<Rightarrow> cn_state \<Rightarrow> bool" where
  inc: "t < NR_THREADS \<Longrightarrow> inc_count t s s' \<Longrightarrow> cn_step s s'"

record cat_state =
  atomic_counter :: cint
  atomic_incs :: nat

definition atomic_inc_count :: "cat_state \<Rightarrow> cat_state" where
  "atomic_inc_count s = s\<lparr>atomic_counter := atomic_counter s + 1, atomic_incs := Suc (atomic_incs s)\<rparr>"

definition atomic_read_count :: "cat_state \<Rightarrow> int" where
  "atomic_read_count s = sint (atomic_counter s)"

lemma atomic_count:
  "(atomic_inc_count ^^ n) \<lparr>atomic_counter = 0, atomic_incs = 0\<rparr>
     = \<lparr>atomic_counter = of_nat n, atomic_incs = n\<rparr>"
  by (induction n) (simp_all add: atomic_inc_count_def add.commute)

text \<open>All threads up to \<open>n\<close> have loaded, and those up to \<open>m\<close> have stored.\<close>

definition cn_mid :: "nat \<Rightarrow> nat \<Rightarrow> cn_state" where
  "cn_mid n m = \<lparr>counter = (if m = 0 then 0 else 1),
     cn_pc = (\<lambda>t. if m \<le> t \<and> t < n then Inc 1 else Idle), incs = m\<rparr>"

lemma cn_reach_loads: "n \<le> NR_THREADS \<Longrightarrow> reachable (\<lambda>s. s = cn_init) cn_step (cn_mid n 0)"
proof (induction n)
  case 0
  show ?case by (rule reachable.start) (simp add: cn_mid_def cn_init_def)
next
  case (Suc n)
  have e: "(\<lambda>t. if 0 \<le> t \<and> t < n then Inc 1 else Idle)(n := Inc 1)
      = (\<lambda>t. if 0 \<le> t \<and> t < Suc n then Inc 1 else Idle)"
    by (auto simp: fun_eq_iff)
  have "inc_count n (cn_mid n 0) (cn_mid (Suc n) 0)"
    using inc_count.load [of "cn_mid n 0" n] e by (simp add: cn_mid_def)
  moreover have "n < NR_THREADS" "n \<le> NR_THREADS" using Suc.prems by auto
  ultimately show ?case using reachable.next_state [OF Suc.IH cn_step.inc] by blast
qed

lemma cn_reach_stores:
  "n \<le> NR_THREADS \<Longrightarrow> m \<le> n \<Longrightarrow> reachable (\<lambda>s. s = cn_init) cn_step (cn_mid n m)"
proof (induction m)
  case 0
  then show ?case by (simp add: cn_reach_loads)
next
  case (Suc m)
  have e: "(\<lambda>t. if m \<le> t \<and> t < n then Inc 1 else Idle)(m := Idle)
      = (\<lambda>t. if Suc m \<le> t \<and> t < n then Inc 1 else Idle)"
    by (auto simp: fun_eq_iff)
  have "inc_count m (cn_mid n m) (cn_mid n (Suc m))"
    using inc_count.store [of "cn_mid n m" m 1] Suc.prems by (simp add: cn_mid_def e)
  moreover have "m < NR_THREADS" "m \<le> n" using Suc.prems by auto
  ultimately show ?case using reachable.next_state [OF Suc.IH cn_step.inc] Suc.prems(1) by blast
qed

text \<open>
  \<open>inc_count\<close> of count_nonatomic.c loses increments: as many threads as there are may each
  complete an increment and the counter read 1; \<open>inc_count\<close> of count_atomic.c loses none, the
  counter being the number of increments as a 32-bit integer.
\<close>

theorem nonatomic_loses_increments:
  "(\<exists>s. reachable (\<lambda>s. s = cn_init) cn_step s \<and> incs s = NR_THREADS \<and>
      (\<forall>t. cn_pc s t = Idle) \<and> read_count s = 1) \<and>
   (\<forall>n. atomic_read_count ((atomic_inc_count ^^ n) \<lparr>atomic_counter = 0, atomic_incs = 0\<rparr>)
      = sint (of_nat n :: cint))"
  using cn_reach_stores [OF order_refl order_refl]
  by (auto simp: atomic_count atomic_read_count_def cn_mid_def read_count_def)

end
