(* ===== verification/Maze.thy ===== *)
theory Maze
  imports Complex_Main Prelude "HOL-Library.Monad_Syntax"
begin

text \<open>
  SMPdesign/maze/maze.h and the cell-level operations of maze.c: a maze is a rectangle of
  cells, each a 32-bit word with four wall bits, a visited bit, a solution bit and a 26-bit
  distance. \<open>ABORT()\<close> is the result \<open>None\<close>. A returned pair \<open>*nextrow, *nextcol\<close> is part of the
  result: \<open>Some None\<close> stands for the return value that leaves them alone. The optional padding
  of a cell and the field \<open>msp\<close>, which the sequential solver sets to NULL, are left out.
\<close>

section \<open>Cells\<close>

type_synonym cell_t = "32 word"

definition WALL_UP :: cell_t where "WALL_UP = 0x80000000"
definition WALL_DOWN :: cell_t where "WALL_DOWN = 0x40000000"
definition WALL_RIGHT :: cell_t where "WALL_RIGHT = 0x20000000"
definition WALL_LEFT :: cell_t where "WALL_LEFT = 0x10000000"
definition VISITED :: cell_t where "VISITED = 0x08000000"
definition SOLUTION :: cell_t where "SOLUTION = 0x04000000"
definition COOKIE :: cell_t where "COOKIE = 0x03ffffff"

record segment_weights =
  contweight :: rat
  randweight :: rat

text \<open>\<open>weights\<close> has the weights along a row and along a column.\<close>

record maze =
  nrows :: int
  ncols :: int
  weights :: "segment_weights \<times> segment_weights"
  visited :: "(int \<times> int) list"
  vi :: nat
  lastvi :: int
  revisit :: rat
  cell :: "cell_t list"

definition maze_cell_exists :: "maze \<Rightarrow> int \<Rightarrow> int \<Rightarrow> bool" where
  "maze_cell_exists mp row col \<longleftrightarrow> row \<ge> 0 \<and> row < nrows mp \<and> col \<ge> 0 \<and> col < ncols mp"

definition maze_get_cell_addr :: "maze \<Rightarrow> int \<Rightarrow> int \<Rightarrow> nat option" where
  "maze_get_cell_addr mp row col =
     (if \<not> maze_cell_exists mp row col then None else Some (nat (row * ncols mp + col)))"

definition maze_get_cell :: "maze \<Rightarrow> int \<Rightarrow> int \<Rightarrow> cell_t option" where
  "maze_get_cell mp row col = do { a \<leftarrow> maze_get_cell_addr mp row col; Some (cell mp ! a) }"

definition maze_set_cell :: "maze \<Rightarrow> int \<Rightarrow> int \<Rightarrow> cell_t \<Rightarrow> maze option" where
  "maze_set_cell mp row col val =
     do { a \<leftarrow> maze_get_cell_addr mp row col; Some (mp\<lparr>cell := (cell mp)[a := val]\<rparr>) }"

definition maze_find_wallbit :: "int \<Rightarrow> int \<Rightarrow> int \<Rightarrow> int \<Rightarrow> cell_t option" where
  "maze_find_wallbit currow curcol otherrow othercol =
     (if currow = otherrow then
        if curcol - 1 = othercol then Some WALL_LEFT
        else if curcol + 1 = othercol then Some WALL_RIGHT
        else None
      else if currow - 1 = otherrow then Some WALL_UP
      else if currow + 1 = otherrow then Some WALL_DOWN
      else None)"

definition maze_cells_connected :: "maze \<Rightarrow> int \<Rightarrow> int \<Rightarrow> int \<Rightarrow> int \<Rightarrow> bool option" where
  "maze_cells_connected mp row1 col1 row2 col2 =
     (if \<bar>row1 - row2\<bar> + \<bar>col1 - col2\<bar> \<noteq> 1 then None
      else if \<not> maze_cell_exists mp row1 col1 \<or> \<not> maze_cell_exists mp row2 col2 then Some False
      else do {
        wallbit \<leftarrow> maze_find_wallbit row1 col1 row2 col2;
        c \<leftarrow> maze_get_cell mp row1 col1;
        Some ((wallbit AND c) = 0) })"

definition maze_cell_visited :: "maze \<Rightarrow> int \<Rightarrow> int \<Rightarrow> bool option" where
  "maze_cell_visited mp row col =
     (if \<not> maze_cell_exists mp row col then Some True
      else do { c \<leftarrow> maze_get_cell mp row col; Some ((c AND VISITED) \<noteq> 0) })"

text \<open>The distance part of maze_seq.c.\<close>

definition maze_get_cell_distance :: "maze \<Rightarrow> int \<Rightarrow> int \<Rightarrow> cell_t option" where
  "maze_get_cell_distance mp row col = do { c \<leftarrow> maze_get_cell mp row col; Some (c AND COOKIE) }"

definition maze_set_cell_distance :: "maze \<Rightarrow> int \<Rightarrow> int \<Rightarrow> cell_t \<Rightarrow> maze option" where
  "maze_set_cell_distance mp tr tc distance = do {
     c \<leftarrow> maze_get_cell mp tr tc;
     let t = c AND NOT COOKIE;
     if distance AND NOT COOKIE \<noteq> 0 then None
     else maze_set_cell mp tr tc (t OR distance) }"

definition maze_visit_cell :: "maze \<Rightarrow> int \<Rightarrow> int \<Rightarrow> cell_t \<Rightarrow> maze option" where
  "maze_visit_cell mp row col distance = do {
     c \<leftarrow> maze_get_cell mp row col;
     if c AND VISITED \<noteq> 0 then None
     else if int (vi mp) \<ge> nrows mp * ncols mp then None
     else do {
       mp \<leftarrow> Some (mp\<lparr>visited := (visited mp)[vi mp := (row, col)], vi := vi mp + 1\<rparr>);
       mp \<leftarrow> maze_set_cell mp row col (c OR VISITED);
       maze_set_cell_distance mp row col distance } }"

text \<open>maze_seq.c: try to visit a cell; \<open>Some None\<close> is the return value 1.\<close>

definition maze_try_visit_cell ::
    "maze \<Rightarrow> int \<Rightarrow> int \<Rightarrow> int \<Rightarrow> int \<Rightarrow> cell_t \<Rightarrow> (maze \<times> int \<times> int) option option" where
  "maze_try_visit_cell mp cr cc tr tc distance = do {
     con \<leftarrow> maze_cells_connected mp cr cc tr tc;
     if \<not> con then Some None
     else do {
       vis \<leftarrow> maze_cell_visited mp tr tc;
       if vis then Some None
       else do { mp \<leftarrow> maze_visit_cell mp tr tc distance; Some (Some (mp, tr, tc)) } } }"

text \<open>\<open>maze_find_any_next_cell\<close>, compiled without \<open>COLFIRST\<close>; \<open>Some None\<close> is the return value 0.\<close>

definition maze_find_any_next_cell ::
    "maze \<Rightarrow> int \<Rightarrow> int \<Rightarrow> (maze \<times> int \<times> int) option option" where
  "maze_find_any_next_cell mp cr cc = do {
     d0 \<leftarrow> maze_get_cell_distance mp cr cc;
     let d = d0 + 1;
     x \<leftarrow> maze_try_visit_cell mp cr cc cr (cc - 1) d;
     if x \<noteq> None then Some x else do {
     x \<leftarrow> maze_try_visit_cell mp cr cc cr (cc + 1) d;
     if x \<noteq> None then Some x else do {
     x \<leftarrow> maze_try_visit_cell mp cr cc (cr - 1) cc d;
     if x \<noteq> None then Some x else do {
     x \<leftarrow> maze_try_visit_cell mp cr cc (cr + 1) cc d;
     if x \<noteq> None then Some x else Some None } } } }"

section \<open>The bits of a cell\<close>

definition vis :: "cell_t \<Rightarrow> bool" where "vis w = bit w 27"
definition sol :: "cell_t \<Rightarrow> bool" where "sol w = bit w 26"
definition dst :: "cell_t \<Rightarrow> nat" where "dst w = unat (w AND COOKIE)"

lemma flag_bits:
  "WALL_UP = push_bit 31 1" "WALL_DOWN = push_bit 30 1" "WALL_RIGHT = push_bit 29 1"
  "WALL_LEFT = push_bit 28 1" "VISITED = push_bit 27 1" "SOLUTION = push_bit 26 1"
  by (simp_all add: WALL_UP_def WALL_DOWN_def WALL_RIGHT_def WALL_LEFT_def VISITED_def
      SOLUTION_def push_bit_eq_mult)

lemma COOKIE_mask: "COOKIE = mask 26"
  by (simp add: COOKIE_def mask_eq_exp_minus_1)

lemma bit_COOKIE [simp]: "bit COOKIE n \<longleftrightarrow> n < 26"
  by (auto simp: COOKIE_mask bit_mask_iff)

lemma bit_flag [simp]:
  "bit VISITED n \<longleftrightarrow> n = 27" "bit SOLUTION n \<longleftrightarrow> n = 26"
  "bit WALL_UP n \<longleftrightarrow> n = 31" "bit WALL_DOWN n \<longleftrightarrow> n = 30"
  "bit WALL_RIGHT n \<longleftrightarrow> n = 29" "bit WALL_LEFT n \<longleftrightarrow> n = 28"
  by (simp_all only: flag_bits bit_push_bit_iff bit_1_iff) auto

lemma and_VISITED: "(w AND VISITED) \<noteq> 0 \<longleftrightarrow> vis w"
  by (simp add: vis_def flag_bits bit_iff_and_push_bit_not_eq_0)

lemma and_SOLUTION: "(w AND SOLUTION) \<noteq> 0 \<longleftrightarrow> sol w"
  by (simp add: sol_def flag_bits bit_iff_and_push_bit_not_eq_0)

lemma dst_eq: "dst w = take_bit 26 (unat w)"
  by (simp add: dst_def COOKIE_mask take_bit_eq_mask [symmetric] unsigned_take_bit_eq)

text \<open>What the operations do to the parts of a cell.\<close>

lemma vis_simps [simp]:
  "vis (w OR VISITED)" "vis (w OR SOLUTION) = vis w" "vis (w AND NOT COOKIE) = vis w"
  by (simp_all add: vis_def bit_simps)

lemma sol_simps [simp]:
  "sol (w OR VISITED) = sol w" "sol (w OR SOLUTION)" "sol (w AND NOT COOKIE) = sol w"
  by (simp_all add: sol_def bit_simps)

lemma small_high_bits: "d AND NOT COOKIE = (0 :: cell_t) \<Longrightarrow> 26 \<le> n \<Longrightarrow> \<not> bit d n"
proof
  assume z: "d AND NOT COOKIE = 0" and n: "26 \<le> n" and b: "bit d n"
  have "bit (d AND NOT COOKIE) n"
    using bit_imp_le_length [OF b] n b by (simp add: bit_simps)
  with z show False by simp
qed

lemma small_iff: "d AND NOT COOKIE = (0 :: cell_t) \<longleftrightarrow> unat d < 2 ^ 26"
proof -
  have "d AND NOT COOKIE = 0 \<longleftrightarrow> d AND COOKIE = d"
  proof
    assume "d AND NOT COOKIE = 0"
    then show "d AND COOKIE = d"
      by (intro bit_word_eqI) (metis bit_COOKIE bit_and_iff small_high_bits not_le)
  next
    assume e: "d AND COOKIE = d"
    have "(d AND COOKIE) AND NOT COOKIE = 0" by (rule bit_word_eqI) (simp add: bit_simps)
    then show "d AND NOT COOKIE = 0" by (simp add: e)
  qed
  also have "\<dots> \<longleftrightarrow> take_bit 26 d = d" by (simp add: COOKIE_mask take_bit_eq_mask)
  also have "\<dots> \<longleftrightarrow> take_bit 26 (unat d) = unat d"
    by (metis unsigned_take_bit_eq word_unat_eq_iff)
  also have "\<dots> \<longleftrightarrow> unat d < 2 ^ 26" by (simp add: take_bit_nat_eq_self_iff)
  finally show ?thesis .
qed

lemma set_distance_simps:
  assumes "d AND NOT COOKIE = (0 :: cell_t)"
  shows "vis ((w AND NOT COOKIE) OR d) = vis w" and "sol ((w AND NOT COOKIE) OR d) = sol w"
    and "dst ((w AND NOT COOKIE) OR d) = unat d"
    and "bit ((w AND NOT COOKIE) OR d) n = (if n < 26 then bit d n else bit w n)"
proof -
  note h = small_high_bits [OF assms]
  show b: "bit ((w AND NOT COOKIE) OR d) n = (if n < 26 then bit d n else bit w n)" for n
    using h [of n] bit_imp_le_length [of w n] by (auto simp: bit_simps)
  show "vis ((w AND NOT COOKIE) OR d) = vis w" by (simp add: vis_def b)
  show "sol ((w AND NOT COOKIE) OR d) = sol w" by (simp add: sol_def b)
  have "((w AND NOT COOKIE) OR d) AND COOKIE = d"
    using h by (intro bit_word_eqI) (metis b bit_COOKIE bit_and_iff not_le)
  then show "dst ((w AND NOT COOKIE) OR d) = unat d" by (simp add: dst_def)
qed

lemma dst_or [simp]: "dst (w OR VISITED) = dst w" "dst (w OR SOLUTION) = dst w"
proof -
  have "(w OR VISITED) AND COOKIE = w AND COOKIE" "(w OR SOLUTION) AND COOKIE = w AND COOKIE"
    by (rule bit_word_eqI; auto simp: bit_simps)+
  then show "dst (w OR VISITED) = dst w" "dst (w OR SOLUTION) = dst w" by (simp_all add: dst_def)
qed

lemma dst_small: "dst w < 2 ^ 26"
  using take_bit_nat_less_exp [of 26 "unat w"] by (simp add: dst_eq)

end
