(* ===== verification/Maze_Cells.thy ===== *)
theory Maze_Cells
  imports Maze
begin

text \<open>
  The cell-level operations of the maze in terms of positions: what a position holds, which
  positions are connected, and the invariant \<open>tracked\<close> of a maze under exploration, by which
  \<open>visited\<close> lists the visited cells in order and no distance can outgrow its 26 bits.
\<close>

section \<open>Positions\<close>

definition exists_at :: "maze \<Rightarrow> int \<times> int \<Rightarrow> bool" where
  "exists_at mp p \<longleftrightarrow> maze_cell_exists mp (fst p) (snd p)"

definition ix :: "maze \<Rightarrow> int \<times> int \<Rightarrow> nat" where
  "ix mp p = nat (fst p * ncols mp + snd p)"

definition cell_at :: "maze \<Rightarrow> int \<times> int \<Rightarrow> cell_t" where
  "cell_at mp p = cell mp ! ix mp p"

definition ncells :: "maze \<Rightarrow> nat" where
  "ncells mp = nat (nrows mp * ncols mp)"

definition shaped :: "maze \<Rightarrow> bool" where
  "shaped mp \<longleftrightarrow> length (cell mp) = ncells mp \<and> length (visited mp) = ncells mp \<and> ncells mp < 2 ^ 26"

definition upd :: "maze \<Rightarrow> int \<times> int \<Rightarrow> cell_t \<Rightarrow> maze" where
  "upd mp p v = mp\<lparr>cell := (cell mp)[ix mp p := v]\<rparr>"

lemma ix_less: "exists_at mp p \<Longrightarrow> ix mp p < ncells mp"
proof -
  assume e: "exists_at mp p"
  then have b: "0 \<le> fst p" "fst p < nrows mp" "0 \<le> snd p" "snd p < ncols mp"
    by (auto simp: exists_at_def maze_cell_exists_def)
  then have "fst p * ncols mp + snd p < (fst p + 1) * ncols mp" by (simp add: distrib_right)
  also have "\<dots> \<le> nrows mp * ncols mp" using b by (intro mult_right_mono) auto
  finally show ?thesis using b by (simp add: ix_def ncells_def nat_less_eq_zless)
qed

lemma ix_inj: "exists_at mp p \<Longrightarrow> exists_at mp q \<Longrightarrow> ix mp p = ix mp q \<longleftrightarrow> p = q"
proof
  assume e: "exists_at mp p" "exists_at mp q" and i: "ix mp p = ix mp q"
  then have b: "0 \<le> fst p" "0 \<le> snd p" "snd p < ncols mp" "0 \<le> fst q" "0 \<le> snd q" "snd q < ncols mp"
    by (auto simp: exists_at_def maze_cell_exists_def)
  then have eq: "fst p * ncols mp + snd p = fst q * ncols mp + snd q"
    using i by (simp add: ix_def eq_nat_nat_iff)
  have "fst p = (fst p * ncols mp + snd p) div ncols mp" using b by simp
  also have "\<dots> = fst q" using b eq by simp
  finally have "fst p = fst q" .
  with eq show "p = q" by (simp add: prod_eq_iff)
qed simp

lemma exists_upd [simp]: "exists_at (upd mp p v) q = exists_at mp q"
  by (simp add: exists_at_def upd_def maze_cell_exists_def)

lemma ncells_upd [simp]: "ncells (upd mp p v) = ncells mp"
  by (simp add: ncells_def upd_def)

lemma ix_upd [simp]: "ix (upd mp p v) q = ix mp q"
  by (simp add: ix_def upd_def)

lemma shaped_upd [simp]: "shaped (upd mp p v) = shaped mp"
  by (simp add: shaped_def ncells_def upd_def)

lemma upd_fields [simp]:
  "nrows (upd mp p v) = nrows mp" "ncols (upd mp p v) = ncols mp" "visited (upd mp p v) = visited mp"
  "vi (upd mp p v) = vi mp" "lastvi (upd mp p v) = lastvi mp" "revisit (upd mp p v) = revisit mp"
  "weights (upd mp p v) = weights mp"
  by (simp_all add: upd_def)

lemma cell_at_upd:
  "shaped mp \<Longrightarrow> exists_at mp p \<Longrightarrow> exists_at mp q \<Longrightarrow> cell_at (upd mp p v) q = (if q = p then v else cell_at mp q)"
  using ix_less [of mp p] ix_inj [of mp p q]
  by (auto simp: cell_at_def upd_def ix_def shaped_def nth_list_update)

lemma get_cell: "maze_get_cell mp r c = (if exists_at mp (r, c) then Some (cell_at mp (r, c)) else None)"
  by (simp add: maze_get_cell_def maze_get_cell_addr_def exists_at_def cell_at_def ix_def)

lemma set_cell: "maze_set_cell mp r c v = (if exists_at mp (r, c) then Some (upd mp (r, c) v) else None)"
  by (simp add: maze_set_cell_def maze_get_cell_addr_def exists_at_def upd_def ix_def)

lemma get_distance:
  "maze_get_cell_distance mp r c = (if exists_at mp (r, c) then Some (of_nat (dst (cell_at mp (r, c)))) else None)"
  by (simp add: maze_get_cell_distance_def get_cell dst_def)

text \<open>There are \<open>ncells\<close> positions.\<close>

lemma cells_card: "finite {p. exists_at mp p}" "0 < nrows mp \<Longrightarrow> card {p. exists_at mp p} = ncells mp"
proof -
  have e: "{p. exists_at mp p} = {0..<nrows mp} \<times> {0..<ncols mp}"
    by (auto simp: exists_at_def maze_cell_exists_def)
  show "finite {p. exists_at mp p}" unfolding e by simp
  show "card {p. exists_at mp p} = ncells mp" if "0 < nrows mp"
    using that unfolding e by (simp add: ncells_def nat_mult_distrib)
qed

section \<open>Connections\<close>

definition adjacent :: "int \<times> int \<Rightarrow> int \<times> int \<Rightarrow> bool" where
  "adjacent p q \<longleftrightarrow> \<bar>fst p - fst q\<bar> + \<bar>snd p - snd q\<bar> = 1"

definition dirbit :: "int \<times> int \<Rightarrow> int \<times> int \<Rightarrow> nat" where
  "dirbit p q = (if fst p = fst q then if snd p - 1 = snd q then 28 else 29
     else if fst p - 1 = fst q then 31 else 30)"

definition wall :: "maze \<Rightarrow> int \<times> int \<Rightarrow> int \<times> int \<Rightarrow> bool" where
  "wall mp p q = bit (cell_at mp p) (dirbit p q)"

definition conn :: "maze \<Rightarrow> int \<times> int \<Rightarrow> int \<times> int \<Rightarrow> bool" where
  "conn mp p q \<longleftrightarrow> adjacent p q \<and> exists_at mp p \<and> exists_at mp q \<and> \<not> wall mp p q"

definition sym_walls :: "maze \<Rightarrow> bool" where
  "sym_walls mp \<longleftrightarrow> (\<forall>p q. conn mp p q \<longrightarrow> conn mp q p)"

lemma adjacent_iff:
  "adjacent (r, c) q \<longleftrightarrow> q \<in> {(r, c - 1), (r, c + 1), (r - 1, c), (r + 1, c)}"
  by (cases q) (auto simp: adjacent_def abs_if split: if_splits)

lemma adjacent_sym: "adjacent p q = adjacent q p"
  by (simp add: adjacent_def abs_minus_commute)

lemma adjacent_neq: "adjacent p q \<Longrightarrow> p \<noteq> q"
  by (auto simp: adjacent_def)

lemma dirbit_range: "dirbit p q \<in> {28..31}"
  by (simp add: dirbit_def)

lemma find_wallbit:
  assumes "adjacent (r, c) (r', c')"
  shows "maze_find_wallbit r c r' c' = Some (push_bit (dirbit (r, c) (r', c')) 1)"
  using assms unfolding adjacent_iff
  by (auto simp: maze_find_wallbit_def dirbit_def flag_bits simp del: push_bit_of_1)

lemma cells_connected:
  assumes "adjacent (r, c) (r', c')"
  shows "maze_cells_connected mp r c r' c' = Some (conn mp (r, c) (r', c'))"
proof -
  have "\<bar>r - r'\<bar> + \<bar>c - c'\<bar> = 1" using assms by (simp add: adjacent_def)
  then show ?thesis
    using assms
    by (auto simp: maze_cells_connected_def find_wallbit get_cell conn_def exists_at_def wall_def
        bit_iff_and_push_bit_not_eq_0 and.commute simp del: push_bit_of_1)
qed

lemma cell_visited:
  "maze_cell_visited mp r c = Some (exists_at mp (r, c) \<longrightarrow> vis (cell_at mp (r, c)))"
  by (simp add: maze_cell_visited_def get_cell exists_at_def and_VISITED [unfolded not_def] and_VISITED)

section \<open>Visiting\<close>

definition set_dist :: "cell_t \<Rightarrow> cell_t \<Rightarrow> cell_t" where
  "set_dist w d = (w AND NOT COOKIE) OR d"

definition visit :: "maze \<Rightarrow> int \<times> int \<Rightarrow> cell_t \<Rightarrow> maze" where
  "visit mp p d = (upd mp p (set_dist (cell_at mp p OR VISITED) d))
     \<lparr>visited := (visited mp)[vi mp := p], vi := Suc (vi mp)\<rparr>"

lemma visit_cell:
  assumes "shaped mp" "exists_at mp (r, c)" "\<not> vis (cell_at mp (r, c))" "vi mp < ncells mp" "unat d < 2 ^ 26"
  shows "maze_visit_cell mp r c d = Some (visit mp (r, c) d)"
proof -
  let ?p = "(r, c)" and ?w = "cell_at mp (r, c) OR VISITED"
  let ?m = "mp\<lparr>visited := (visited mp)[vi mp := (r, c)], vi := vi mp + 1\<rparr>"
  have e: "exists_at ?m p = exists_at mp p" "ix ?m p = ix mp p" for p
    by (simp_all add: exists_at_def maze_cell_exists_def ix_def)
  have s: "shaped ?m" using assms(1) by (simp add: shaped_def ncells_def)
  have v: "int (vi mp) < nrows mp * ncols mp" using assms(4) by (simp add: ncells_def)
  have z: "d AND NOT COOKIE = 0" using assms(5) small_iff [of d] by simp
  have "maze_visit_cell mp r c d =
      Some (upd (upd ?m ?p ?w) ?p (set_dist (cell_at (upd ?m ?p ?w) ?p) d))"
    using assms(2,3) v z e
    by (simp add: maze_visit_cell_def get_cell set_cell maze_set_cell_distance_def and_VISITED set_dist_def)
  also have "cell_at (upd ?m ?p ?w) ?p = ?w"
    using cell_at_upd [OF s, of ?p ?p ?w] assms(2) e by simp
  also have "upd (upd ?m ?p ?w) ?p (set_dist ?w d) = visit mp ?p d"
    by (cases mp) (simp add: upd_def visit_def ix_def)
  finally show ?thesis .
qed

lemma visit_fields [simp]:
  "nrows (visit mp p d) = nrows mp" "ncols (visit mp p d) = ncols mp"
  "vi (visit mp p d) = Suc (vi mp)" "visited (visit mp p d) = (visited mp)[vi mp := p]"
  "lastvi (visit mp p d) = lastvi mp" "revisit (visit mp p d) = revisit mp"
  "weights (visit mp p d) = weights mp" "exists_at (visit mp p d) = exists_at mp"
  "ncells (visit mp p d) = ncells mp" "shaped (visit mp p d) = shaped mp" "ix (visit mp p d) = ix mp"
  by (simp_all add: visit_def upd_def exists_at_def maze_cell_exists_def ncells_def shaped_def
      ix_def fun_eq_iff)

lemma at_visit:
  assumes "shaped mp" "exists_at mp p" "exists_at mp q"
  shows "cell_at (visit mp p d) q = (if q = p then set_dist (cell_at mp p OR VISITED) d else cell_at mp q)"
proof -
  have "cell_at (visit mp p d) q = cell_at (upd mp p (set_dist (cell_at mp p OR VISITED) d)) q"
    by (simp add: cell_at_def visit_def ix_def upd_def)
  then show ?thesis using cell_at_upd [OF assms] by simp
qed

lemma set_dist_parts:
  assumes "unat d < 2 ^ 26"
  shows "vis (set_dist w d) = vis w" "sol (set_dist w d) = sol w" "dst (set_dist w d) = unat d"
    "26 \<le> n \<Longrightarrow> bit (set_dist w d) n = bit w n"
  using set_distance_simps [of d w] assms small_iff [of d] unfolding set_dist_def by auto

lemma wall_visit:
  assumes "shaped mp" "exists_at mp p" "exists_at mp q" "unat d < 2 ^ 26"
  shows "wall (visit mp p d) q r = wall mp q r"
proof -
  have k: "dirbit q r \<noteq> 27" "26 \<le> dirbit q r" using dirbit_range [of q r] by auto
  show ?thesis
    using at_visit [OF assms(1-3), of d] set_dist_parts(4) [OF assms(4) k(2), of "cell_at mp p OR VISITED"] k
    by (auto simp: wall_def bit_or_iff)
qed

lemma conn_visit:
  assumes "shaped mp" "exists_at mp p" "unat d < 2 ^ 26"
  shows "conn (visit mp p d) = conn mp"
  using wall_visit [OF assms(1,2) _ assms(3)] by (auto simp: conn_def fun_eq_iff)

section \<open>The exploration invariant\<close>

definition trail :: "maze \<Rightarrow> (int \<times> int) list" where
  "trail mp = take (vi mp) (visited mp)"

definition tracked :: "maze \<Rightarrow> bool" where
  "tracked mp \<longleftrightarrow> shaped mp \<and> 0 < nrows mp \<and> vi mp \<le> ncells mp \<and> distinct (trail mp) \<and>
     (\<forall>p. p \<in> set (trail mp) \<longleftrightarrow> exists_at mp p \<and> vis (cell_at mp p)) \<and>
     (\<forall>i < vi mp. dst (cell_at mp (trail mp ! i)) \<le> i + 1)"

lemma trackedD:
  assumes "tracked mp"
  shows "shaped mp" "0 < nrows mp" "vi mp \<le> ncells mp" "distinct (trail mp)"
    "p \<in> set (trail mp) \<longleftrightarrow> exists_at mp p \<and> vis (cell_at mp p)"
    "i < vi mp \<Longrightarrow> dst (cell_at mp (trail mp ! i)) \<le> i + 1" "length (trail mp) = vi mp"
    "ncells mp < 2 ^ 26"
  using assms by (cases p; auto simp: tracked_def shaped_def trail_def)+

text \<open>The invariant speaks of the visited bits and the distances only.\<close>

lemma tracked_cong:
  assumes t: "tracked mp" and "shaped mp'" "nrows mp' = nrows mp" "ncols mp' = ncols mp"
    "vi mp' = vi mp" "visited mp' = visited mp"
    and c: "\<And>p. exists_at mp p \<Longrightarrow> vis (cell_at mp' p) = vis (cell_at mp p) \<and> dst (cell_at mp' p) = dst (cell_at mp p)"
  shows "tracked mp'"
proof -
  note T = trackedD [OF t]
  have e: "exists_at mp' = exists_at mp" "ncells mp' = ncells mp" "trail mp' = trail mp"
    using assms by (simp_all add: fun_eq_iff exists_at_def maze_cell_exists_def ncells_def trail_def)
  have "trail mp ! i \<in> set (trail mp)" if "i < vi mp" for i using that T(7) by simp
  then have "dst (cell_at mp' (trail mp ! i)) = dst (cell_at mp (trail mp ! i))" if "i < vi mp" for i
    using that c T(5) by blast
  moreover have "\<forall>p. p \<in> set (trail mp) \<longleftrightarrow> exists_at mp p \<and> vis (cell_at mp' p)"
    using T(5) c by blast
  ultimately show ?thesis
    using assms(2-5) T(2-4,6) e by (simp add: tracked_def)
qed

lemma tracked_room:
  assumes "tracked mp" "exists_at mp p" "p \<notin> set (trail mp)"
  shows "vi mp < ncells mp"
proof -
  note T = trackedD [OF assms(1)]
  have "insert p (set (trail mp)) \<subseteq> {p. exists_at mp p}" using assms(2) T(5) by auto
  then have "card (insert p (set (trail mp))) \<le> card {p. exists_at mp p}"
    by (rule card_mono [OF cells_card(1)])
  then show ?thesis using assms(3) T cells_card(2) [of mp] distinct_card [OF T(4)] by simp
qed

lemma tracked_dist:
  assumes "tracked mp" "q \<in> set (trail mp)"
  shows "dst (cell_at mp q) \<le> vi mp"
proof -
  obtain i where "i < vi mp" "q = trail mp ! i"
    using assms trackedD(7) [OF assms(1)] by (metis in_set_conv_nth)
  then show ?thesis using trackedD(6) [OF assms(1), of i] by simp
qed

lemma trail_visit: "tracked mp \<Longrightarrow> vi mp < ncells mp \<Longrightarrow> trail (visit mp p d) = trail mp @ [p]"
  by (simp add: trail_def tracked_def shaped_def take_Suc_conv_app_nth)

text \<open>Visiting an unvisited cell at distance \<open>n\<close>, where \<open>n\<close> is at most one more than the visits.\<close>

lemma tracked_visit:
  assumes t: "tracked mp" and p: "exists_at mp p" "p \<notin> set (trail mp)" and n: "n \<le> Suc (vi mp)"
  shows "maze_visit_cell mp (fst p) (snd p) (of_nat n) = Some (visit mp p (of_nat n))"
    and "tracked (visit mp p (of_nat n))" and "trail (visit mp p (of_nat n)) = trail mp @ [p]"
    and "dst (cell_at (visit mp p (of_nat n)) p) = n"
    and "conn (visit mp p (of_nat n)) = conn mp"
    and "exists_at mp q \<Longrightarrow> q \<noteq> p \<Longrightarrow> cell_at (visit mp p (of_nat n)) q = cell_at mp q"
    and "sol (cell_at (visit mp p (of_nat n)) p) = sol (cell_at mp p)"
proof -
  note T = trackedD [OF t]
  have v: "vi mp < ncells mp" using tracked_room [OF t p] .
  have n26: "n < 2 ^ 26" using n v T(8) by simp
  then have u: "unat (of_nat n :: cell_t) = n" by (simp add: unsigned_of_nat take_bit_nat_eq_self)
  with n26 have u26: "unat (of_nat n :: cell_t) < 2 ^ 26" by simp
  have nv: "\<not> vis (cell_at mp p)" using T(5) p by auto
  show "maze_visit_cell mp (fst p) (snd p) (of_nat n) = Some (visit mp p (of_nat n))"
    using visit_cell [of mp "fst p" "snd p", OF T(1) _ _ v u26] p(1) nv by simp
  have a: "cell_at (visit mp p (of_nat n)) q
      = (if q = p then set_dist (cell_at mp p OR VISITED) (of_nat n) else cell_at mp q)"
    if "exists_at mp q" for q
    using at_visit [OF T(1) p(1) that] .
  show tr: "trail (visit mp p (of_nat n)) = trail mp @ [p]" by (rule trail_visit [OF t v])
  show d: "dst (cell_at (visit mp p (of_nat n)) p) = n"
    using a [OF p(1)] set_dist_parts(3) [OF u26] u by simp
  show "conn (visit mp p (of_nat n)) = conn mp" by (rule conn_visit [OF T(1) p(1) u26])
  show "exists_at mp q \<Longrightarrow> q \<noteq> p \<Longrightarrow> cell_at (visit mp p (of_nat n)) q = cell_at mp q" using a by simp
  show "sol (cell_at (visit mp p (of_nat n)) p) = sol (cell_at mp p)"
    using a [OF p(1)] set_dist_parts(2) [OF u26] by simp
  have vp: "vis (cell_at (visit mp p (of_nat n)) p)" using a [OF p(1)] set_dist_parts(1) [OF u26] by simp
  have "q \<in> set (trail mp @ [p]) \<longleftrightarrow> exists_at mp q \<and> vis (cell_at (visit mp p (of_nat n)) q)" for q
    using a [of q] vp p T(5) [of q] by auto
  moreover have "dst (cell_at (visit mp p (of_nat n)) ((trail mp @ [p]) ! i)) \<le> i + 1" if i: "i < Suc (vi mp)" for i
  proof (cases "i = vi mp")
    case True
    then show ?thesis using d n T(7) by (simp add: nth_append)
  next
    case False
    then have i: "i < vi mp" using i by simp
    then have "trail mp ! i \<in> set (trail mp)" using T(7) by simp
    then show ?thesis using a [of "trail mp ! i"] T(5) [of "trail mp ! i"] p i T(6,7)
      by (auto simp: nth_append)
  qed
  ultimately show "tracked (visit mp p (of_nat n))"
    using T(1-4) p v tr by (simp add: tracked_def)
qed

text \<open>Trying a neighbour, and looking for any.\<close>

lemma try_visit:
  assumes t: "tracked mp" and q: "(r, c) \<in> set (trail mp)" and ad: "adjacent (r, c) (tr, tc)"
    and n: "n = Suc (dst (cell_at mp (r, c)))"
  shows "maze_try_visit_cell mp r c tr tc (of_nat n) =
    (if conn mp (r, c) (tr, tc) \<and> (tr, tc) \<notin> set (trail mp)
     then Some (Some (visit mp (tr, tc) (of_nat n), tr, tc)) else Some None)"
proof -
  have n': "n \<le> Suc (vi mp)" using tracked_dist [OF t q] n by simp
  show ?thesis
    using tracked_visit(1) [OF t _ _ n', of "(tr, tc)"] trackedD(5) [OF t, of "(tr, tc)"]
    by (auto simp: maze_try_visit_cell_def cells_connected [OF ad] cell_visited conn_def)
qed

lemma find_any:
  assumes t: "tracked mp" and q: "(r, c) \<in> set (trail mp)"
  defines "n \<equiv> Suc (dst (cell_at mp (r, c)))"
  shows "(maze_find_any_next_cell mp r c = Some None \<and> (\<forall>p. conn mp (r, c) p \<longrightarrow> p \<in> set (trail mp))) \<or>
    (\<exists>p. conn mp (r, c) p \<and> p \<notin> set (trail mp) \<and>
       maze_find_any_next_cell mp r c = Some (Some (visit mp p (of_nat n), p)))"
proof -
  have e: "exists_at mp (r, c)" using trackedD(5) [OF t] q by simp
  have d: "(of_nat (dst (cell_at mp (r, c))) + 1 :: cell_t) = of_nat n" by (simp add: n_def)
  have tv: "adjacent (r, c) (tr, tc) \<Longrightarrow> maze_try_visit_cell mp r c tr tc (of_nat n) =
    (if conn mp (r, c) (tr, tc) \<and> (tr, tc) \<notin> set (trail mp)
     then Some (Some (visit mp (tr, tc) (of_nat n), tr, tc)) else Some None)" for tr tc
    by (rule try_visit [OF t q]) (simp_all add: n_def)
  have ad: "adjacent (r, c) (r, c - 1)" "adjacent (r, c) (r, c + 1)" "adjacent (r, c) (r - 1, c)"
    "adjacent (r, c) (r + 1, c)" by (simp_all add: adjacent_iff)
  have nb: "conn mp (r, c) p \<Longrightarrow> p \<in> {(r, c - 1), (r, c + 1), (r - 1, c), (r + 1, c)}" for p
    by (simp only: conn_def adjacent_iff [symmetric])
  let ?ok = "\<lambda>p. conn mp (r, c) p \<and> p \<notin> set (trail mp)"
  have f: "maze_find_any_next_cell mp r c =
    (if ?ok (r, c - 1) then Some (Some (visit mp (r, c - 1) (of_nat n), r, c - 1))
     else if ?ok (r, c + 1) then Some (Some (visit mp (r, c + 1) (of_nat n), r, c + 1))
     else if ?ok (r - 1, c) then Some (Some (visit mp (r - 1, c) (of_nat n), r - 1, c))
     else if ?ok (r + 1, c) then Some (Some (visit mp (r + 1, c) (of_nat n), r + 1, c))
     else Some None)"
    by (simp add: maze_find_any_next_cell_def get_distance e d Let_def tv [OF ad(1)] tv [OF ad(2)]
        tv [OF ad(3)] tv [OF ad(4)] del: of_nat_Suc)
  show ?thesis
  proof (cases "\<exists>p. ?ok p")
    case True
    then show ?thesis using nb f by (metis (no_types, lifting) insertE singletonD)
  next
    case False
    then show ?thesis using f by (intro disjI1) auto
  qed
qed

end
