(* ===== verification/Maze_Solve.thy ===== *)
theory Maze_Solve
  imports Maze_Cells
begin

text \<open>
  SMPdesign/maze/maze_seq.c: the sequential solver \<open>maze_solve\<close> with the marking of the solution
  in maze.c. Both loops terminate: a visit uses up a slot of \<open>visited\<close>, and the marking follows
  strictly decreasing distances. The time measurement is left out.
\<close>

section \<open>Marking the solution\<close>

definition maze_same_tids :: "maze \<Rightarrow> int \<Rightarrow> int \<Rightarrow> int \<Rightarrow> int \<Rightarrow> bool" where
  "maze_same_tids mp r1 c1 r2 c2 = True"

text \<open>\<open>Some None\<close> is the return value 0.\<close>

definition maze_is_prev_cell ::
    "maze \<Rightarrow> int \<Rightarrow> int \<Rightarrow> int \<Rightarrow> int \<Rightarrow> (int \<times> int) option option" where
  "maze_is_prev_cell mp row1 col1 row2 col2 = do {
     con \<leftarrow> maze_cells_connected mp row1 col1 row2 col2;
     if \<not> con then Some None
     else if \<not> maze_same_tids mp row1 col1 row2 col2 then Some None
     else do {
       d1 \<leftarrow> maze_get_cell_distance mp row1 col1;
       d2 \<leftarrow> maze_get_cell_distance mp row2 col2;
       if sint d1 - sint d2 \<noteq> 1 then Some None else Some (Some (row2, col2)) } }"

definition maze_find_prev :: "maze \<Rightarrow> int \<Rightarrow> int \<Rightarrow> (int \<times> int) option" where
  "maze_find_prev mp cr cc = do {
     x \<leftarrow> maze_is_prev_cell mp cr cc (cr - 1) cc;
     if x \<noteq> None then x else do {
     x \<leftarrow> maze_is_prev_cell mp cr cc (cr + 1) cc;
     if x \<noteq> None then x else do {
     x \<leftarrow> maze_is_prev_cell mp cr cc cr (cc - 1);
     if x \<noteq> None then x else do {
     x \<leftarrow> maze_is_prev_cell mp cr cc cr (cc + 1);
     if x \<noteq> None then x else None } } } }"

definition maze_mark_cell :: "maze \<Rightarrow> int \<Rightarrow> int \<Rightarrow> maze option" where
  "maze_mark_cell mp cr cc = do {
     c \<leftarrow> maze_get_cell mp cr cc;
     maze_set_cell mp cr cc (c OR SOLUTION) }"

definition cell_dist :: "maze \<Rightarrow> int \<Rightarrow> int \<Rightarrow> nat" where
  "cell_dist mp r c = dst (cell mp ! nat (r * ncols mp + c))"

lemma dst_list_update_or: "dst ((xs[a := xs ! a OR SOLUTION]) ! b) = dst (xs ! b)"
  by (cases "a < length xs") (auto simp: nth_list_update list_update_beyond not_less)

lemma maze_mark_cell_dist: "maze_mark_cell mp cr cc = Some mp' \<Longrightarrow> cell_dist mp' r c = cell_dist mp r c"
  by (auto simp: maze_mark_cell_def maze_get_cell_def maze_set_cell_def cell_dist_def
      dst_list_update_or split: Option.bind_splits)

lemma sint_distance:
  "maze_get_cell_distance mp r c = Some d \<Longrightarrow> sint d = int (cell_dist mp r c)"
proof -
  assume "maze_get_cell_distance mp r c = Some d"
  then have d: "d = cell mp ! nat (r * ncols mp + c) AND COOKIE"
    by (auto simp: maze_get_cell_distance_def maze_get_cell_def maze_get_cell_addr_def
        split: Option.bind_splits if_splits)
  have "d AND NOT COOKIE = 0" unfolding d by (rule bit_word_eqI) (simp add: bit_simps)
  then have "unat d < 2 ^ 26" by (rule small_iff [THEN iffD1])
  then have "int (unat d) < int (2 ^ 26)" by (rule of_nat_less_iff [THEN iffD2])
  then have "uint d < int (2 ^ 26)" by (simp only: uint_nat)
  then have "uint d < 2 ^ 31" by simp
  moreover have "- (2 ^ 31) \<le> uint d" by (rule order_trans [OF _ uint_ge_0]) simp
  ultimately have "signed_take_bit 31 (uint d) = uint d"
    by (intro signed_take_bit_int_eq_self)
  then have "sint d = uint d" by (simp add: sint_uint)
  then have "sint d = int (unat d)" by (simp only: uint_nat)
  then show ?thesis by (simp add: d cell_dist_def dst_def)
qed

lemma maze_is_prev_dist:
  assumes "maze_is_prev_cell mp r1 c1 r2 c2 = Some (Some (r, c))"
  shows "Suc (cell_dist mp r c) = cell_dist mp r1 c1"
proof -
  obtain d1 d2 where d: "maze_get_cell_distance mp r1 c1 = Some d1"
    "maze_get_cell_distance mp r c = Some d2" "sint d1 - sint d2 = 1"
    using assms by (auto simp: maze_is_prev_cell_def split: Option.bind_splits if_splits)
  then show ?thesis using sint_distance [OF d(1)] sint_distance [OF d(2)] by simp
qed

lemma maze_find_prevE:
  assumes "maze_find_prev mp cr cc = Some p"
  obtains r c where "maze_is_prev_cell mp cr cc r c = Some (Some p)"
  using assms unfolding maze_find_prev_def by (auto split: Option.bind_splits if_splits)

lemma maze_find_prev_dist:
  "maze_find_prev mp cr cc = Some (r, c) \<Longrightarrow> Suc (cell_dist mp r c) = cell_dist mp cr cc"
  by (elim maze_find_prevE maze_is_prev_dist)

function maze_mark_from :: "int \<Rightarrow> int \<Rightarrow> int \<Rightarrow> int \<Rightarrow> maze \<Rightarrow> int \<Rightarrow> int \<Rightarrow> (maze \<times> cell_t) option" where
  "maze_mark_from startrow startcol endrow endcol mp cr cc =
     (case maze_mark_cell mp cr cc of
        None \<Rightarrow> None
      | Some mp \<Rightarrow>
          if cr = startrow \<and> cc = startcol
          then do { d \<leftarrow> maze_get_cell_distance mp endrow endcol; Some (mp, d) }
          else (case maze_find_prev mp cr cc of
              None \<Rightarrow> None
            | Some (nr, nc) \<Rightarrow> maze_mark_from startrow startcol endrow endcol mp nr nc))"
  by pat_completeness auto
termination
  by (relation "measure (\<lambda>(sr, sc, er, ec, mp, cr, cc). cell_dist mp cr cc)")
    (auto dest!: maze_find_prev_dist simp: maze_mark_cell_dist)

declare maze_mark_from.simps [simp del]

definition maze_mark_solution :: "maze \<Rightarrow> int \<Rightarrow> int \<Rightarrow> int \<Rightarrow> int \<Rightarrow> (maze \<times> cell_t) option" where
  "maze_mark_solution mp startrow startcol endrow endcol =
     maze_mark_from startrow startcol endrow endcol mp endrow endcol"

section \<open>The search\<close>

text \<open>
  The two inner loops of \<open>maze_solve\<close>: \<open>Search cr cc\<close> is at the \<open>while\<close> that looks for a cell of
  the work list with an unvisited neighbour, \<open>Extend nr nc\<close> is at the start of the \<open>do\<close> loop.
\<close>

datatype solve_pc = Search int int | Extend int int

definition visits_left :: "maze \<Rightarrow> nat" where
  "visits_left mp = nat (nrows mp * ncols mp) - vi mp"

lemma maze_set_cell_shape:
  "maze_set_cell mp r c v = Some mp' \<Longrightarrow>
   nrows mp' = nrows mp \<and> ncols mp' = ncols mp \<and> vi mp' = vi mp \<and> visited mp' = visited mp"
  by (auto simp: maze_set_cell_def split: Option.bind_splits)

lemma maze_visit_cell_shape:
  assumes "maze_visit_cell mp r c d = Some mp'"
  shows "nrows mp' = nrows mp \<and> ncols mp' = ncols mp \<and> vi mp' = Suc (vi mp) \<and> visits_left mp' < visits_left mp"
proof -
  have "nrows mp' = nrows mp \<and> ncols mp' = ncols mp \<and> vi mp' = Suc (vi mp) \<and> int (vi mp) < nrows mp * ncols mp"
    using assms
    by (auto simp: maze_visit_cell_def maze_set_cell_distance_def Let_def dest!: maze_set_cell_shape
        split: Option.bind_splits if_splits)
  then show ?thesis by (auto simp: visits_left_def)
qed

lemma maze_try_visit_cell_shape:
  "maze_try_visit_cell mp cr cc tr tc d = Some (Some (mp', nr, nc)) \<Longrightarrow>
   vi mp' = Suc (vi mp) \<and> visits_left mp' < visits_left mp"
  by (auto simp: maze_try_visit_cell_def dest!: maze_visit_cell_shape split: Option.bind_splits if_splits)

lemma maze_find_any_next_cell_shape:
  "maze_find_any_next_cell mp cr cc = Some (Some (mp', nr, nc)) \<Longrightarrow>
   vi mp' = Suc (vi mp) \<and> visits_left mp' < visits_left mp"
  by (auto simp: maze_find_any_next_cell_def Let_def dest!: maze_try_visit_cell_shape
      split: Option.bind_splits if_splits)

function maze_solve_from ::
    "int \<Rightarrow> int \<Rightarrow> int \<Rightarrow> int \<Rightarrow> maze \<Rightarrow> solve_pc \<Rightarrow> nat \<Rightarrow> (maze \<times> cell_t) option" where
  "maze_solve_from startrow startcol endrow endcol mp (Search cr cc) i =
     (case maze_find_any_next_cell mp cr cc of
        None \<Rightarrow> None
      | Some None \<Rightarrow>
          if i + 1 \<ge> vi mp then Some (mp, 0)
          else maze_solve_from startrow startcol endrow endcol mp
            (Search (fst (visited mp ! (i + 1))) (snd (visited mp ! (i + 1)))) (i + 1)
      | Some (Some (mp, nr, nc)) \<Rightarrow>
          maze_solve_from startrow startcol endrow endcol mp (Extend nr nc) i)"
| "maze_solve_from startrow startcol endrow endcol mp (Extend nr nc) i =
     (if nr = endrow \<and> nc = endcol then maze_mark_solution mp startrow startcol endrow endcol
      else case maze_find_any_next_cell mp nr nc of
        None \<Rightarrow> None
      | Some (Some (mp, nr, nc)) \<Rightarrow>
          maze_solve_from startrow startcol endrow endcol mp (Extend nr nc) i
      | Some None \<Rightarrow>
          maze_solve_from startrow startcol endrow endcol mp
            (Search (fst (visited mp ! i)) (snd (visited mp ! i))) i)"
  by pat_completeness auto
termination
  by (relation "measures [\<lambda>(sr, sc, er, ec, mp, pc, i). visits_left mp,
      \<lambda>(sr, sc, er, ec, mp, pc, i). vi mp - i,
      \<lambda>(sr, sc, er, ec, mp, pc, i). case pc of Search _ _ \<Rightarrow> 0 | Extend _ _ \<Rightarrow> 1]")
    (auto dest!: maze_find_any_next_cell_shape)

declare maze_solve_from.simps [simp del]

definition maze_solve :: "maze \<Rightarrow> int \<Rightarrow> int \<Rightarrow> int \<Rightarrow> int \<Rightarrow> (maze \<times> cell_t) option" where
  "maze_solve mp startrow startcol endrow endcol =
     (case maze_visit_cell mp startrow startcol 1 of
        None \<Rightarrow> None
      | Some mp \<Rightarrow> maze_solve_from startrow startcol endrow endcol mp (Search startrow startcol) 0)"

section \<open>Correctness\<close>

declare split_paired_All [simp del] split_paired_Ex [simp del]

text \<open>A maze to be solved: nothing visited, and every wall seen from both sides.\<close>

definition fresh :: "maze \<Rightarrow> bool" where
  "fresh mp \<longleftrightarrow> shaped mp \<and> 0 < nrows mp \<and> vi mp = 0 \<and> sym_walls mp \<and>
     (\<forall>p. exists_at mp p \<longrightarrow> \<not> vis (cell_at mp p) \<and> \<not> sol (cell_at mp p) \<and> dst (cell_at mp p) = 0)"

text \<open>The distances of the visited cells lead back to the start \<open>s\<close>.\<close>

definition treed :: "maze \<Rightarrow> int \<times> int \<Rightarrow> bool" where
  "treed mp s \<longleftrightarrow> s \<in> set (trail mp) \<and> dst (cell_at mp s) = 1 \<and>
     (\<forall>p. exists_at mp p \<longrightarrow> p \<notin> set (trail mp) \<longrightarrow> dst (cell_at mp p) = 0) \<and>
     (\<forall>p \<in> set (trail mp). p \<noteq> s \<longrightarrow>
        (\<exists>q \<in> set (trail mp). conn mp q p \<and> dst (cell_at mp p) = Suc (dst (cell_at mp q))))"

definition is_path :: "maze \<Rightarrow> (int \<times> int) list \<Rightarrow> int \<times> int \<Rightarrow> int \<times> int \<Rightarrow> bool" where
  "is_path mp ps s e \<longleftrightarrow> ps \<noteq> [] \<and> hd ps = s \<and> last ps = e \<and> successively (conn mp) ps"

definition marked :: "maze \<Rightarrow> (int \<times> int) set" where
  "marked mp = {p. exists_at mp p \<and> sol (cell_at mp p)}"

lemma sym_wallsD: "sym_walls mp \<Longrightarrow> conn mp p q \<Longrightarrow> conn mp q p"
  unfolding sym_walls_def by blast

lemma treed_pos: "treed mp s \<Longrightarrow> p \<in> set (trail mp) \<Longrightarrow> 0 < dst (cell_at mp p)"
  by (cases "p = s") (auto simp: treed_def)

lemma treed_visited: "treed mp s \<Longrightarrow> exists_at mp p \<Longrightarrow> 0 < dst (cell_at mp p) \<Longrightarrow> p \<in> set (trail mp)"
  unfolding treed_def by fastforce

lemma treed_one: "treed mp s \<Longrightarrow> p \<in> set (trail mp) \<Longrightarrow> p \<noteq> s \<Longrightarrow> 2 \<le> dst (cell_at mp p)"
  using treed_pos [of mp s] by (fastforce simp: treed_def)

lemma treed_cong:
  assumes "tracked mp" and t: "treed mp s" and m: "trail mp' = trail mp" "conn mp' = conn mp"
    "exists_at mp' = exists_at mp"
    and d: "\<And>p. exists_at mp p \<Longrightarrow> dst (cell_at mp' p) = dst (cell_at mp p)"
  shows "treed mp' s"
proof -
  have "dst (cell_at mp' p) = dst (cell_at mp p)" if "p \<in> set (trail mp)" for p
    using that d trackedD(5) [OF assms(1)] by blast
  then show ?thesis using t d unfolding treed_def m by (simp cong: conj_cong bex_cong)
qed

lemma is_prev_cell:
  assumes "adjacent (r, c) (r', c')"
  shows "maze_is_prev_cell mp r c r' c' =
    (if conn mp (r, c) (r', c') \<and> dst (cell_at mp (r, c)) = Suc (dst (cell_at mp (r', c')))
     then Some (Some (r', c')) else Some None)"
proof -
  have d: "dst (cell_at mp (a, b)) = cell_dist mp a b" for a b
    by (simp add: cell_dist_def cell_at_def ix_def)
  have "sint (of_nat (dst (cell_at mp (a, b))) :: cell_t) = int (dst (cell_at mp (a, b)))"
    if "exists_at mp (a, b)" for a b
    using sint_distance [of mp a b] that by (simp add: get_distance d)
  moreover define d1 where "d1 = (of_nat (dst (cell_at mp (r, c))) :: cell_t)"
  moreover define d2 where "d2 = (of_nat (dst (cell_at mp (r', c'))) :: cell_t)"
  ultimately have e: "sint d1 - sint d2 = 1 \<longleftrightarrow> dst (cell_at mp (r, c)) = Suc (dst (cell_at mp (r', c')))"
    if "conn mp (r, c) (r', c')"
    using that by (simp add: conn_def) linarith
  have "exists_at mp (r, c)" "exists_at mp (r', c')" if "conn mp (r, c) (r', c')"
    using that by (simp_all add: conn_def)
  then have "maze_is_prev_cell mp r c r' c' = (if conn mp (r, c) (r', c') \<and> sint d1 - sint d2 = 1
     then Some (Some (r', c')) else Some None)"
    by (simp add: maze_is_prev_cell_def cells_connected [OF assms] maze_same_tids_def get_distance
        d1_def [symmetric] d2_def [symmetric])
  with e show ?thesis by metis
qed

lemma find_prev:
  assumes q: "conn mp p q" "dst (cell_at mp p) = Suc (dst (cell_at mp q))"
  shows "\<exists>r. maze_find_prev mp (fst p) (snd p) = Some r \<and> conn mp p r \<and>
    dst (cell_at mp p) = Suc (dst (cell_at mp r))"
proof -
  obtain a b where p: "p = (a, b)" by (cases p)
  have ad: "adjacent (a, b) (a, b - 1)" "adjacent (a, b) (a, b + 1)" "adjacent (a, b) (a - 1, b)"
    "adjacent (a, b) (a + 1, b)" by (simp_all add: adjacent_iff)
  let ?ok = "\<lambda>r. conn mp (a, b) r \<and> dst (cell_at mp (a, b)) = Suc (dst (cell_at mp r))"
  have "q \<in> {(a, b - 1), (a, b + 1), (a - 1, b), (a + 1, b)}"
    using q(1) p by (simp only: conn_def adjacent_iff [symmetric])
  then have ok: "?ok (a, b - 1) \<or> ?ok (a, b + 1) \<or> ?ok (a - 1, b) \<or> ?ok (a + 1, b)" using q p by auto
  have f: "maze_find_prev mp a b =
    (if ?ok (a - 1, b) then Some (a - 1, b) else if ?ok (a + 1, b) then Some (a + 1, b)
     else if ?ok (a, b - 1) then Some (a, b - 1) else if ?ok (a, b + 1) then Some (a, b + 1) else None)"
    by (simp add: maze_find_prev_def is_prev_cell [OF ad(1)] is_prev_cell [OF ad(2)]
        is_prev_cell [OF ad(3)] is_prev_cell [OF ad(4)])
  show ?thesis using f ok unfolding p fst_conv snd_conv by metis
qed

text \<open>Marking a cell changes nothing else.\<close>

lemma mark_cell:
  assumes s: "shaped mp" and p: "exists_at mp p"
  defines "mp' \<equiv> upd mp p (cell_at mp p OR SOLUTION)"
  shows "maze_mark_cell mp (fst p) (snd p) = Some mp'"
    and "exists_at mp q \<Longrightarrow> dst (cell_at mp' q) = dst (cell_at mp q)"
    and "conn mp' = conn mp" and "trail mp' = trail mp" and "marked mp' = insert p (marked mp)"
proof -
  have a: "cell_at mp' q = (if q = p then cell_at mp p OR SOLUTION else cell_at mp q)" if "exists_at mp q" for q
    using cell_at_upd [OF s p that] by (simp add: mp'_def)
  show "maze_mark_cell mp (fst p) (snd p) = Some mp'"
    using p by (simp add: maze_mark_cell_def get_cell set_cell mp'_def)
  show "exists_at mp q \<Longrightarrow> dst (cell_at mp' q) = dst (cell_at mp q)" using a by simp
  have "wall mp' q r = wall mp q r" if "exists_at mp q" for q r
    using a [OF that] dirbit_range [of q r] by (auto simp: wall_def bit_or_iff)
  then show "conn mp' = conn mp" by (auto simp: conn_def fun_eq_iff mp'_def)
  show "trail mp' = trail mp" by (simp add: trail_def mp'_def)
  have e: "exists_at mp' = exists_at mp" by (simp add: mp'_def fun_eq_iff)
  show "marked mp' = insert p (marked mp)" using a p by (auto simp: marked_def e)
qed

lemma mark_from:
  assumes "tracked mp" "treed mp s" "sym_walls mp" "exists_at mp e" "p \<in> set (trail mp)"
  shows "\<exists>mp' ps. maze_mark_from (fst s) (snd s) (fst e) (snd e) mp (fst p) (snd p)
      = Some (mp', of_nat (dst (cell_at mp e))) \<and> is_path mp ps s p \<and>
    length ps = dst (cell_at mp p) \<and> marked mp' = marked mp \<union> set ps"
  using assms
proof (induction "dst (cell_at mp p)" arbitrary: mp p)
  case 0
  then show ?case using treed_pos [of mp s p] by simp
next
  case (Suc n)
  let ?m = "upd mp p (cell_at mp p OR SOLUTION)"
  note T = trackedD [OF Suc.prems(1)]
  have sh: "shaped mp" and ep: "exists_at mp p" using T Suc.prems(5) by auto
  note mk = mark_cell [OF sh ep]
  show ?case
  proof (cases "p = s")
    case True
    then have "maze_mark_from (fst s) (snd s) (fst e) (snd e) mp (fst p) (snd p)
      = Some (?m, of_nat (dst (cell_at mp e)))"
      using mk Suc.prems(4) by (simp add: maze_mark_from.simps get_distance)
    moreover have "is_path mp [p] s p" using True by (simp add: is_path_def)
    moreover have "dst (cell_at mp p) = 1" using True Suc.prems(2) by (simp add: treed_def)
    ultimately show ?thesis using mk(5) by (intro exI [of _ ?m] exI [of _ "[p]"]) auto
  next
    case False
    obtain q where q: "q \<in> set (trail mp)" "conn mp q p" "dst (cell_at mp p) = Suc (dst (cell_at mp q))"
      using Suc.prems(2,5) False by (auto simp: treed_def)
    have cq: "conn mp p q" using sym_wallsD [OF Suc.prems(3) q(2)] .
    then have eq: "exists_at mp q" by (simp add: conn_def)
    obtain r where r: "maze_find_prev ?m (fst p) (snd p) = Some r" "conn mp p r"
      "dst (cell_at mp p) = Suc (dst (cell_at mp r))"
      using find_prev [of ?m p q] mk(2) [OF ep] mk(2) [OF eq] mk(3) cq q(3)
      by (metis conn_def mk(2))
    have er: "exists_at mp r" using r(2) by (simp add: conn_def)
    have "0 < dst (cell_at mp r)"
      using treed_one [OF Suc.prems(2,5) False] r(3) by simp
    then have rt: "r \<in> set (trail mp)" using treed_visited [OF Suc.prems(2) er] by simp
    have ok: "tracked ?m" "treed ?m s" "sym_walls ?m" "exists_at ?m e" "r \<in> set (trail ?m)"
    proof -
      show "tracked ?m"
        by (rule tracked_cong [OF Suc.prems(1)]) (use mk(2) cell_at_upd [OF sh ep] sh in auto)
      show "treed ?m s" by (rule treed_cong [OF Suc.prems(1,2)]) (use mk(2-4) in auto)
      show "sym_walls ?m" using Suc.prems(3) mk(3) by (simp add: sym_walls_def)
      show "exists_at ?m e" "r \<in> set (trail ?m)" using Suc.prems(4) rt mk(4) by simp_all
    qed
    have n: "n = dst (cell_at ?m r)" using mk(2) [OF er] r(3) Suc.hyps(2) by simp
    obtain mp' ps where IH: "maze_mark_from (fst s) (snd s) (fst e) (snd e) ?m (fst r) (snd r)
        = Some (mp', of_nat (dst (cell_at ?m e)))" "is_path ?m ps s r"
      "length ps = dst (cell_at ?m r)" "marked mp' = marked ?m \<union> set ps"
      using Suc.hyps(1) [OF n ok] by blast
    have "maze_mark_from (fst s) (snd s) (fst e) (snd e) mp (fst p) (snd p)
      = Some (mp', of_nat (dst (cell_at mp e)))"
      using mk(1,2) r(1) IH(1) False Suc.prems(4)
      by (subst maze_mark_from.simps) (auto simp: prod_eq_iff split: prod.splits)
    moreover have "conn mp r p" using sym_wallsD [OF Suc.prems(3) r(2)] .
    then have "is_path mp (ps @ [p]) s p"
      using IH(2) mk(3) by (auto simp: is_path_def successively_append_iff)
    moreover have "length (ps @ [p]) = dst (cell_at mp p)" using IH(3) r(3) mk(2) [OF er] by simp
    ultimately show ?thesis using IH(4) mk(5) by (intro exI [of _ mp'] exI [of _ "ps @ [p]"]) auto
  qed
qed

text \<open>The invariant of the search: all cells before \<open>i\<close> in the work list have been looked at.\<close>

definition explored :: "maze \<Rightarrow> int \<times> int \<Rightarrow> nat \<Rightarrow> bool" where
  "explored mp s i \<longleftrightarrow> tracked mp \<and> treed mp s \<and> sym_walls mp \<and> i < vi mp \<and> marked mp = {} \<and>
     (\<forall>j<i. \<forall>q. conn mp (trail mp ! j) q \<longrightarrow> q \<in> set (trail mp))"

fun pc_ok :: "maze \<Rightarrow> int \<times> int \<Rightarrow> nat \<Rightarrow> solve_pc \<Rightarrow> bool" where
  "pc_ok mp e i (Search r c) \<longleftrightarrow> (r, c) = trail mp ! i \<and> e \<notin> set (trail mp)"
| "pc_ok mp e i (Extend r c) \<longleftrightarrow> (r, c) \<in> set (trail mp) \<and> (e \<in> set (trail mp) \<longrightarrow> (r, c) = e)"

definition solved :: "maze \<Rightarrow> int \<times> int \<Rightarrow> int \<times> int \<Rightarrow> maze \<times> cell_t \<Rightarrow> bool" where
  "solved mp s e x \<longleftrightarrow> (if snd x = 0 then \<not> (conn mp)\<^sup>*\<^sup>* s e
     else \<exists>ps. is_path mp ps s e \<and> length ps = unat (snd x) \<and> marked (fst x) = set ps)"

lemma solved_cong: "conn mp' = conn mp \<Longrightarrow> solved mp' s e x = solved mp s e x"
  by (simp add: solved_def is_path_def)

lemma visited_trail: "i < vi mp \<Longrightarrow> visited mp ! i = trail mp ! i"
  by (simp add: trail_def)

lemma explored_visit:
  assumes x: "explored mp s i" and q: "q \<in> set (trail mp)" and c: "conn mp q p" and p: "p \<notin> set (trail mp)"
  defines "mp' \<equiv> visit mp p (of_nat (Suc (dst (cell_at mp q))))"
  shows "explored mp' s i" and "conn mp' = conn mp" and "trail mp' = trail mp @ [p]"
proof -
  have t: "tracked mp" and tr: "treed mp s" and i: "i < vi mp" and sy: "sym_walls mp" and mk: "marked mp = {}"
    and d: "\<And>j q. j < i \<Longrightarrow> conn mp (trail mp ! j) q \<Longrightarrow> q \<in> set (trail mp)"
    using x by (auto simp: explored_def)
  have ep: "exists_at mp p" using c by (simp add: conn_def)
  have n: "Suc (dst (cell_at mp q)) \<le> Suc (vi mp)" using tracked_dist [OF t q] by simp
  note V = tracked_visit [OF t ep p n, folded mp'_def]
  show "conn mp' = conn mp" "trail mp' = trail mp @ [p]" using V by simp_all
  have e: "exists_at mp' = exists_at mp" by (simp add: mp'_def)
  have old: "cell_at mp' a = cell_at mp a" if "a \<in> set (trail mp)" for a
    using V(6) that p trackedD(5) [OF t] by metis
  have "treed mp' s"
    unfolding treed_def V(3) V(5) e
  proof (intro conjI ballI allI impI)
    show "s \<in> set (trail mp @ [p])" using tr by (simp add: treed_def)
    show "dst (cell_at mp' s) = 1" using tr old by (simp add: treed_def)
    show "dst (cell_at mp' a) = 0" if "exists_at mp a" "a \<notin> set (trail mp @ [p])" for a
      using that V(6) tr by (auto simp: treed_def)
    fix a assume a: "a \<in> set (trail mp @ [p])" "a \<noteq> s"
    show "\<exists>b\<in>set (trail mp @ [p]). conn mp b a \<and> dst (cell_at mp' a) = Suc (dst (cell_at mp' b))"
    proof (cases "a = p")
      case True
      then show ?thesis using q c V(4) old by (intro bexI [of _ q]) auto
    next
      case False
      then have "a \<in> set (trail mp)" using a by simp
      then obtain b where "b \<in> set (trail mp)" "conn mp b a" "dst (cell_at mp a) = Suc (dst (cell_at mp b))"
        using tr a(2) unfolding treed_def by blast
      then show ?thesis using old \<open>a \<in> set (trail mp)\<close> by (intro bexI [of _ b]) simp_all
    qed
  qed
  moreover have "marked mp' = {}"
    using mk V(6,7) unfolding marked_def e by (metis (mono_tags, lifting) empty_Collect_eq ep)
  moreover have "sym_walls mp'" using sy V(5) unfolding sym_walls_def by simp
  moreover have "vi mp' = Suc (vi mp)" by (simp add: mp'_def)
  moreover have "trail mp' ! j = trail mp ! j" if "j < i" for j
    using that i V(3) trackedD(7) [OF t] by (simp add: nth_append)
  ultimately show "explored mp' s i"
    using V(2,3,5) i d by (auto simp: explored_def)
qed

lemma explored_done:
  assumes x: "explored mp s i" and "i + 1 \<ge> vi mp"
    and "\<And>q. conn mp (trail mp ! i) q \<Longrightarrow> q \<in> set (trail mp)" and "e \<notin> set (trail mp)"
  shows "\<not> (conn mp)\<^sup>*\<^sup>* s e"
proof
  have t: "tracked mp" and i: "i < vi mp" and s: "s \<in> set (trail mp)"
    using x by (auto simp: explored_def treed_def)
  have closed: "q \<in> set (trail mp)" if p: "p \<in> set (trail mp)" and c: "conn mp p q" for p q
  proof -
    obtain j where j: "j < vi mp" "p = trail mp ! j" using p trackedD(7) [OF t] by (metis in_set_conv_nth)
    then have "j < i \<or> j = i" using assms(2) by auto
    then show ?thesis using x c j(2) assms(3) [of q] by (auto simp: explored_def)
  qed
  assume "(conn mp)\<^sup>*\<^sup>* s e"
  then have "e \<in> set (trail mp)" by (induction rule: rtranclp_induct) (use s closed in blast)+
  with assms(4) show False by contradiction
qed

lemma solve_from:
  "explored mp s i \<Longrightarrow> pc_ok mp e i pc \<Longrightarrow> exists_at mp e \<Longrightarrow> s = (sr, sc) \<Longrightarrow> e = (er, ec) \<Longrightarrow>
   \<exists>x. maze_solve_from sr sc er ec mp pc i = Some x \<and> solved mp s e x"
proof (induction sr sc er ec mp pc i rule: maze_solve_from.induct)
  case (1 sr sc er ec mp cr cc i)
  have t: "tracked mp" and i: "i < vi mp" using 1(3) by (simp_all add: explored_def)
  have q: "(cr, cc) = trail mp ! i" and e: "e \<notin> set (trail mp)" using 1(4) by simp_all
  then have qt: "(cr, cc) \<in> set (trail mp)" using i trackedD(7) [OF t] by simp
  from find_any [OF t qt] show ?case
  proof (elim disjE conjE exE)
    assume f: "maze_find_any_next_cell mp cr cc = Some None"
      and n: "\<forall>p. conn mp (cr, cc) p \<longrightarrow> p \<in> set (trail mp)"
    show ?case
    proof (cases "i + 1 \<ge> vi mp")
      case True
      have "\<not> (conn mp)\<^sup>*\<^sup>* s e"
        by (rule explored_done [OF 1(3) True _ e]) (use n q in auto)
      then show ?thesis using f True by (simp add: maze_solve_from.simps(1) solved_def)
    next
      case False
      have "explored mp s (i + 1)"
        using 1(3) False n q by (auto simp: explored_def less_Suc_eq)
      moreover have "pc_ok mp e (i + 1) (Search (fst (visited mp ! (i + 1))) (snd (visited mp ! (i + 1))))"
        using e False by (simp add: visited_trail)
      ultimately show ?thesis
        using 1(1) [OF f refl False] 1(5-7) f False by (simp add: maze_solve_from.simps(1))
    qed
  next
    fix p assume c: "conn mp (cr, cc) p" and p: "p \<notin> set (trail mp)"
      and f: "maze_find_any_next_cell mp cr cc
        = Some (Some (visit mp p (of_nat (Suc (dst (cell_at mp (cr, cc))))), p))"
    let ?m = "visit mp p (of_nat (Suc (dst (cell_at mp (cr, cc)))))"
    obtain nr nc where pp: "p = (nr, nc)" by (cases p)
    note V = explored_visit [OF 1(3) qt c p]
    have "pc_ok ?m e i (Extend nr nc)" using V(3) e pp by auto
    then have "\<exists>x. maze_solve_from sr sc er ec ?m (Extend nr nc) i = Some x \<and> solved ?m s e x"
      using 1(2) [OF f refl, of ?m "(nr, nc)" nr nc] V(1) 1(5-7) pp by simp
    then show ?thesis using f pp solved_cong [OF V(2)] by (simp add: maze_solve_from.simps(1))
  qed
next
  case (2 sr sc er ec mp nr nc i)
  have t: "tracked mp" and i: "i < vi mp" and tr: "treed mp s" and mk: "marked mp = {}" and sy: "sym_walls mp"
    using 2(3) by (simp_all add: explored_def)
  have qt: "(nr, nc) \<in> set (trail mp)" and e: "e \<in> set (trail mp) \<longrightarrow> (nr, nc) = e" using 2(4) by simp_all
  show ?case
  proof (cases "nr = er \<and> nc = ec")
    case True
    then have et: "e \<in> set (trail mp)" using qt 2(7) by simp
    obtain mp' ps where m: "maze_mark_from sr sc er ec mp er ec = Some (mp', of_nat (dst (cell_at mp e)))"
      "is_path mp ps s e" "length ps = dst (cell_at mp e)" "marked mp' = set ps"
      using mark_from [OF t tr sy 2(5) et] mk 2(6,7) by auto
    have "dst (cell_at mp e) < 2 ^ 26" by (rule dst_small)
    then have "unat (of_nat (dst (cell_at mp e)) :: cell_t) = dst (cell_at mp e)"
      by (simp add: unsigned_of_nat take_bit_nat_eq_self)
    moreover have "0 < dst (cell_at mp e)" by (rule treed_pos [OF tr et])
    ultimately have "solved mp s e (mp', of_nat (dst (cell_at mp e)))"
      using m(2-4) by (auto simp: solved_def simp flip: unat_eq_zero)
    then show ?thesis using True m(1) by (simp add: maze_solve_from.simps(2) maze_mark_solution_def)
  next
    case False
    then have ne: "e \<notin> set (trail mp)" using e 2(7) by auto
    from find_any [OF t qt] show ?thesis
    proof (elim disjE conjE exE)
      assume f: "maze_find_any_next_cell mp nr nc = Some None"
      have "pc_ok mp e i (Search (fst (visited mp ! i)) (snd (visited mp ! i)))"
        using ne i by (simp add: visited_trail)
      then show ?thesis
        using 2(1) [OF False f refl] 2(3,5-7) f False by (auto simp: maze_solve_from.simps(2))
    next
      fix p assume c: "conn mp (nr, nc) p" and p: "p \<notin> set (trail mp)"
        and f: "maze_find_any_next_cell mp nr nc
          = Some (Some (visit mp p (of_nat (Suc (dst (cell_at mp (nr, nc))))), p))"
      let ?m = "visit mp p (of_nat (Suc (dst (cell_at mp (nr, nc)))))"
      obtain a b where pp: "p = (a, b)" by (cases p)
      note V = explored_visit [OF 2(3) qt c p]
      have "pc_ok ?m e i (Extend a b)" using V(3) ne pp by auto
      then have "\<exists>x. maze_solve_from sr sc er ec ?m (Extend a b) i = Some x \<and> solved ?m s e x"
        using 2(2) [OF False f refl, of ?m "(a, b)" a b] V(1) 2(5-7) pp by simp
      then show ?thesis using f pp solved_cong [OF V(2)] False by (auto simp: maze_solve_from.simps(2))
    qed
  qed
qed

lemma solve_total:
  assumes "fresh mp" and "maze_cell_exists mp sr sc" and "maze_cell_exists mp er ec"
    and "(sr, sc) \<noteq> (er, ec)"
  shows "\<exists>x. maze_solve mp sr sc er ec = Some x \<and> solved mp (sr, sc) (er, ec) x"
proof -
  let ?m = "visit mp (sr, sc) (of_nat 1)"
  have e: "exists_at mp (sr, sc)" "exists_at mp (er, ec)" using assms(2,3) by (simp_all add: exists_at_def)
  have t: "tracked mp" and tr: "trail mp = []"
    using assms(1) by (auto simp: fresh_def tracked_def trail_def)
  note V = tracked_visit [OF t e(1), unfolded tr, of 1, simplified]
  have x: "exists_at ?m = exists_at mp" by simp
  have "treed ?m (sr, sc)"
    using V(3,4,6) assms(1) by (auto simp: treed_def fresh_def)
  moreover have "marked ?m = {}"
    using V(6,7) assms(1) e(1) by (auto simp: marked_def fresh_def) metis
  moreover have "sym_walls ?m" using assms(1) V(5) by (simp add: fresh_def sym_walls_def)
  ultimately have "explored ?m (sr, sc) 0" using V(2) by (simp add: explored_def)
  moreover have "pc_ok ?m (er, ec) 0 (Search sr sc)" using V(3) assms(4) by auto
  ultimately obtain x where "maze_solve_from sr sc er ec ?m (Search sr sc) 0 = Some x" "solved ?m (sr, sc) (er, ec) x"
    using solve_from [of ?m "(sr, sc)" 0 "(er, ec)" "Search sr sc" sr sc er ec] e(2) by auto
  then have "maze_solve mp sr sc er ec = Some x" "solved mp (sr, sc) (er, ec) x"
    using V(1) solved_cong [of ?m mp] V(5) by (simp_all add: maze_solve_def)
  then show ?thesis by blast
qed

lemma is_path_reach: "is_path mp ps s e \<Longrightarrow> (conn mp)\<^sup>*\<^sup>* s e"
proof (induction ps arbitrary: s)
  case (Cons p ps)
  show ?case
  proof (cases ps)
    case (Cons q qs)
    then have "conn mp s q" "is_path mp ps q e" using Cons.prems by (auto simp: is_path_def)
    then show ?thesis using Cons.IH by (metis converse_rtranclp_into_rtranclp)
  qed (use Cons.prems in \<open>auto simp: is_path_def\<close>)
qed (simp add: is_path_def)

text \<open>Two cells with a passage between them.\<close>

definition tiny_maze :: maze where
  "tiny_maze = \<lparr>nrows = 1, ncols = 2,
     weights = (\<lparr>contweight = 1, randweight = 1\<rparr>, \<lparr>contweight = 1, randweight = 1\<rparr>),
     visited = [(0, 0), (0, 0)], vi = 0, lastvi = - 1, revisit = 1, cell = [0, 0]\<rparr>"

lemma tiny_fresh: "fresh tiny_maze"
proof -
  have c: "cell_at tiny_maze p = 0" if "exists_at tiny_maze p" for p
  proof -
    have "ix tiny_maze p < 2" using ix_less [OF that] by (simp add: ncells_def tiny_maze_def)
    then show ?thesis by (auto simp: cell_at_def tiny_maze_def less_2_cases_iff)
  qed
  then have "sym_walls tiny_maze"
    by (auto simp: sym_walls_def conn_def wall_def adjacent_sym)
  then show ?thesis using c
    by (auto simp: fresh_def shaped_def ncells_def vis_def sol_def dst_def) (simp_all add: tiny_maze_def)
qed

text \<open>
  C3: In a maze with nothing visited and walls seen from both sides, \<open>maze_solve\<close> between two
  different cells terminates without aborting. It returns 0 exactly when no passage leads from
  the start to the end; otherwise the cells it marks form a path of passages from the start to
  the end, and it returns the length of that path, the endpoints included.
\<close>

theorem maze_solve_correct:
  assumes "fresh mp" and "maze_cell_exists mp sr sc" and "maze_cell_exists mp er ec"
    and "(sr, sc) \<noteq> (er, ec)"
  shows "\<exists>mp' d. maze_solve mp sr sc er ec = Some (mp', d) \<and>
    (if d = 0 then \<not> (conn mp)\<^sup>*\<^sup>* (sr, sc) (er, ec)
     else \<exists>ps. is_path mp ps (sr, sc) (er, ec) \<and> length ps = unat d \<and> marked mp' = set ps)"
  using solve_total [OF assms] unfolding solved_def by (metis prod.collapse)

lemma maze_solve_correct_witness:
  "\<exists>mp' d. maze_solve tiny_maze 0 0 0 1 = Some (mp', d) \<and>
    (if d = 0 then \<not> (conn tiny_maze)\<^sup>*\<^sup>* (0, 0) (0, 1)
     else \<exists>ps. is_path tiny_maze ps (0, 0) (0, 1) \<and> length ps = unat d \<and> marked mp' = set ps)"
  by (rule maze_solve_correct [OF tiny_fresh]) (simp_all add: tiny_maze_def maze_cell_exists_def)

end
