(* ===== verification/Maze_Create.thy ===== *)
theory Maze_Create
  imports Maze_Solve
begin

text \<open>
  SMPdesign/maze/maze.c: the construction of a random maze by \<open>maze_create\<close>. \<open>R n\<close> is the \<open>n\<close>th
  result of \<open>random()\<close>, a number below \<open>2 ^ 31\<close>, and the operations that draw random numbers take
  and return the position in this sequence. A \<open>double\<close> is a rational number: \<open>drandom\<close> is exact,
  and the properties hold for every choice of weights and random numbers. The memory that \<open>malloc\<close>
  leaves uninitialised is a parameter \<open>g\<close>.
\<close>

section \<open>Random numbers\<close>

definition drandom :: "(nat \<Rightarrow> nat) \<Rightarrow> nat \<Rightarrow> rat" where
  "drandom R n = of_nat (R n) / (2147483647 + 1)"

definition pmrandom :: "(nat \<Rightarrow> nat) \<Rightarrow> nat \<Rightarrow> int" where
  "pmrandom R n = (if \<not> bit (R n) 15 then 1 else 0) * 2 - 1"

section \<open>The empty maze\<close>

definition maze_set_seg_weights :: "int \<Rightarrow> rat \<Rightarrow> rat \<Rightarrow> segment_weights option" where
  "maze_set_seg_weights len straightfrac segbends =
     (if len \<le> 0 then None
      else let sf = (if straightfrac \<le> 0 then 1 / of_int len else straightfrac);
               sb = (if segbends < 0 then 0 else segbends);
               tl = of_int len * sf * (sb + 1);
               rw = tl / (tl + 1);
               cw = (tl - sb) / (tl + 1);
               cw = (if cw < 0 then 0 else cw);
               cw = (if cw > rw then rw else cw)
           in Some \<lparr>contweight = cw, randweight = rw\<rparr>)"

text \<open>
  For every maze dimension and every choice of the two shape options, also negative ones, the
  segment weights are cumulative probabilities: the thresholds that the random number of a step is
  compared with are ordered, and stay below 1, so that every segment can end.
\<close>

theorem maze_set_seg_weights_ordered:
  "case maze_set_seg_weights len straightfrac segbends of
     None \<Rightarrow> len \<le> 0
   | Some w \<Rightarrow> 0 < len \<and> 0 \<le> contweight w \<and> contweight w \<le> randweight w \<and> randweight w < 1"
proof (cases "len \<le> 0")
  case False
  define sf where "sf = (if straightfrac \<le> 0 then 1 / of_int len else straightfrac)"
  define sb where "sb = (if segbends < 0 then 0 else segbends)"
  define tl where "tl = of_int len * sf * (sb + 1)"
  have "0 < sf" "0 \<le> sb" using False by (simp_all add: sf_def sb_def)
  then have tl: "0 < tl" using False by (simp add: tl_def)
  define rw where "rw = tl / (tl + 1)"
  have rw: "0 \<le> rw" "rw < 1" using tl by (simp_all add: rw_def)
  show ?thesis using False rw
    by (simp add: maze_set_seg_weights_def Let_def flip: sf_def sb_def tl_def rw_def)
qed (simp add: maze_set_seg_weights_def)

fun maze_set_cells :: "maze \<Rightarrow> (int \<times> int \<times> cell_t) list \<Rightarrow> maze option" where
  "maze_set_cells mp [] = Some mp"
| "maze_set_cells mp ((row, col, val) # xs) =
     (case maze_set_cell mp row col val of None \<Rightarrow> None | Some mp \<Rightarrow> maze_set_cells mp xs)"

definition border :: "int \<Rightarrow> int \<Rightarrow> (int \<times> int \<times> cell_t) list" where
  "border rows cols =
     [(0, 0, WALL_UP OR WALL_LEFT), (rows - 1, 0, WALL_DOWN OR WALL_LEFT),
      (0, cols - 1, WALL_UP OR WALL_RIGHT), (rows - 1, cols - 1, WALL_DOWN OR WALL_RIGHT)]
     @ concat (map (\<lambda>i. [(i, 0, WALL_LEFT), (i, cols - 1, WALL_RIGHT)] @
         map (\<lambda>j. (i, j, 0)) [1..cols - 2]) [1..rows - 2])
     @ concat (map (\<lambda>i. [(0, i, WALL_UP), (rows - 1, i, WALL_DOWN)]) [1..cols - 2])"

definition new_empty_maze ::
    "cell_t list \<times> (int \<times> int) list \<Rightarrow> int \<Rightarrow> int \<Rightarrow> rat \<Rightarrow> rat \<Rightarrow> rat \<Rightarrow> maze option" where
  "new_empty_maze g rows cols straightfrac segbends rv = do {
     w0 \<leftarrow> maze_set_seg_weights cols straightfrac segbends;
     w1 \<leftarrow> maze_set_seg_weights rows straightfrac segbends;
     maze_set_cells \<lparr>nrows = rows, ncols = cols, weights = (w0, w1), visited = snd g, vi = 0,
       lastvi = - 1, revisit = rv, cell = fst g\<rparr> (border rows cols) }"

section \<open>Walls\<close>

definition maze_or_cell :: "maze \<Rightarrow> int \<Rightarrow> int \<Rightarrow> cell_t \<Rightarrow> maze option" where
  "maze_or_cell mp row col b = do { c \<leftarrow> maze_get_cell mp row col; maze_set_cell mp row col (c OR b) }"

definition maze_build_one_cell_wall ::
    "maze \<Rightarrow> int \<Rightarrow> int \<Rightarrow> int \<Rightarrow> int \<Rightarrow> int \<Rightarrow> int \<Rightarrow> int \<Rightarrow> int \<Rightarrow> maze option" where
  "maze_build_one_cell_wall mp wallrow wallcol prevrow prevcol currow curcol nextrow nextcol =
     (if wallrow = prevrow \<and> wallcol = prevcol then Some mp
      else if wallrow = nextrow \<and> wallcol = nextcol then Some mp
      else if maze_cell_exists mp wallrow wallcol then do {
        wallbit \<leftarrow> maze_find_wallbit wallrow wallcol currow curcol;
        mp \<leftarrow> maze_or_cell mp wallrow wallcol wallbit;
        wallbit \<leftarrow> maze_find_wallbit currow curcol wallrow wallcol;
        maze_or_cell mp currow curcol wallbit }
      else Some mp)"

definition maze_build_cell_walls ::
    "maze \<Rightarrow> int \<Rightarrow> int \<Rightarrow> int \<Rightarrow> int \<Rightarrow> int \<Rightarrow> int \<Rightarrow> maze option" where
  "maze_build_cell_walls mp prevrow prevcol currow curcol nextrow nextcol = do {
     mp \<leftarrow> maze_build_one_cell_wall mp (currow - 1) curcol prevrow prevcol currow curcol nextrow nextcol;
     mp \<leftarrow> maze_build_one_cell_wall mp (currow + 1) curcol prevrow prevcol currow curcol nextrow nextcol;
     mp \<leftarrow> maze_build_one_cell_wall mp currow (curcol - 1) prevrow prevcol currow curcol nextrow nextcol;
     maze_build_one_cell_wall mp currow (curcol + 1) prevrow prevcol currow curcol nextrow nextcol }"

definition wall_in_side :: "int \<Rightarrow> int \<Rightarrow> int \<Rightarrow> int \<Rightarrow> maze \<Rightarrow> maze option" where
  "wall_in_side row col row' col' mp = do {
     con \<leftarrow> maze_cells_connected mp row col row' col';
     if con then maze_build_one_cell_wall mp row' col' row col row col row col else Some mp }"

definition maze_wall_in :: "maze \<Rightarrow> int \<Rightarrow> int \<Rightarrow> (maze \<times> bool) option" where
  "maze_wall_in mp row col =
     (if \<not> maze_cell_exists mp row col then Some (mp, False)
      else do {
        mp \<leftarrow> wall_in_side row col (row - 1) col mp;
        mp \<leftarrow> wall_in_side row col (row + 1) col mp;
        mp \<leftarrow> wall_in_side row col row (col - 1) mp;
        mp \<leftarrow> wall_in_side row col row (col + 1) mp;
        Some (mp, True) })"

definition maze_remove_wall :: "maze \<Rightarrow> int \<Rightarrow> int \<Rightarrow> int \<Rightarrow> int \<Rightarrow> maze option" where
  "maze_remove_wall mp currow curcol otherrow othercol = do {
     c \<leftarrow> maze_get_cell mp currow curcol;
     wallbit \<leftarrow> maze_find_wallbit currow curcol otherrow othercol;
     mp \<leftarrow> maze_set_cell mp currow curcol (c AND NOT wallbit);
     c \<leftarrow> maze_get_cell mp otherrow othercol;
     wallbit \<leftarrow> maze_find_wallbit otherrow othercol currow curcol;
     maze_set_cell mp otherrow othercol (c AND NOT wallbit) }"

section \<open>One segment\<close>

datatype segment = MAZE_CONTINUE_SEGMENT maze int int | MAZE_STUCK_SEGMENT | MAZE_END_SEGMENT

text \<open>The two tries of a turn; \<open>Some None\<close> when neither cell could be visited.\<close>

definition maze_turn :: "maze \<Rightarrow> int \<Rightarrow> int \<Rightarrow> int \<Rightarrow> int \<Rightarrow> cell_t \<Rightarrow> (maze \<times> int \<times> int) option option" where
  "maze_turn mp currow curcol dr dc d = do {
     x \<leftarrow> maze_try_visit_cell mp currow curcol (currow + dr) (curcol + dc) d;
     if x \<noteq> None then Some x
     else maze_try_visit_cell mp currow curcol (currow - dr) (curcol - dc) d }"

definition maze_straight ::
    "maze \<Rightarrow> int \<Rightarrow> int \<Rightarrow> int \<Rightarrow> int \<Rightarrow> cell_t \<Rightarrow> (maze \<times> int \<times> int) option option" where
  "maze_straight mp prevrow prevcol currow curcol d = do {
     x \<leftarrow> maze_try_visit_cell mp currow curcol (currow + (currow - prevrow)) (curcol + (curcol - prevcol)) d;
     if x \<noteq> None then Some x else maze_find_any_next_cell mp currow curcol }"

definition to_segment :: "(maze \<times> int \<times> int) option \<Rightarrow> segment" where
  "to_segment x = (case x of Some (mp, r, c) \<Rightarrow> MAZE_CONTINUE_SEGMENT mp r c | None \<Rightarrow> MAZE_STUCK_SEGMENT)"

definition maze_choose_next_cell ::
    "(nat \<Rightarrow> nat) \<Rightarrow> nat \<Rightarrow> maze \<Rightarrow> int \<Rightarrow> int \<Rightarrow> int \<Rightarrow> int \<Rightarrow> (segment \<times> nat) option" where
  "maze_choose_next_cell R n mp prevrow prevcol currow curcol = do {
     let swp = (if prevrow \<noteq> currow then snd (weights mp) else fst (weights mp));
     let w = drandom R n;
     d0 \<leftarrow> maze_get_cell_distance mp currow curcol;
     let d = d0 + 1;
     if w > randweight swp then Some (MAZE_END_SEGMENT, n + 1)
     else if w > contweight swp \<and> (prevrow \<noteq> currow \<or> prevcol \<noteq> curcol) then do {
       let dr = - (curcol - prevcol);
       let dc = currow - prevrow;
       let flip = pmrandom R (n + 1) \<noteq> 0;
       x \<leftarrow> maze_turn mp currow curcol (if flip then - dr else dr) (if flip then - dc else dc) d;
       if x \<noteq> None then Some (to_segment x, n + 2)
       else do {
         x \<leftarrow> maze_straight mp prevrow prevcol currow curcol d;
         Some (to_segment x, n + 2) } }
     else do {
       x \<leftarrow> maze_straight mp prevrow prevcol currow curcol d;
       Some (to_segment x, n + 1) } }"

text \<open>What the steps of a segment do to the work list.\<close>

lemma maze_straight_shape:
  "maze_straight mp pr pc cr cc d = Some (Some (mp', nr, nc)) \<Longrightarrow> visits_left mp' < visits_left mp"
  by (auto simp: maze_straight_def dest!: maze_try_visit_cell_shape maze_find_any_next_cell_shape
      split: Option.bind_splits if_splits)

lemma maze_turn_shape:
  "maze_turn mp cr cc dr dc d = Some (Some (mp', nr, nc)) \<Longrightarrow> visits_left mp' < visits_left mp"
  by (auto simp: maze_turn_def dest!: maze_try_visit_cell_shape split: Option.bind_splits if_splits)

lemma to_segment_continue [simp]:
  "to_segment x = MAZE_CONTINUE_SEGMENT mp r c \<longleftrightarrow> x = Some (mp, r, c)"
  "to_segment x \<noteq> MAZE_END_SEGMENT"
  by (auto simp: to_segment_def split: option.splits)

lemma maze_choose_next_cell_shape:
  assumes "maze_choose_next_cell R n mp pr pc cr cc = Some (MAZE_CONTINUE_SEGMENT mp' nr nc, n')"
  shows "visits_left mp' < visits_left mp"
  using assms unfolding maze_choose_next_cell_def Let_def
  by (auto dest: maze_straight_shape maze_turn_shape split: Option.bind_splits if_splits)

lemma maze_or_cell_shape: "maze_or_cell mp r c b = Some mp' \<Longrightarrow> visits_left mp' = visits_left mp"
  by (auto simp: maze_or_cell_def visits_left_def dest!: maze_set_cell_shape split: Option.bind_splits)

lemma maze_build_one_cell_wall_shape:
  "maze_build_one_cell_wall mp a b c d e f g h = Some mp' \<Longrightarrow> visits_left mp' = visits_left mp"
  by (auto simp: maze_build_one_cell_wall_def dest!: maze_or_cell_shape split: Option.bind_splits if_splits)

lemma maze_build_cell_walls_shape:
  "maze_build_cell_walls mp c d e f g h = Some mp' \<Longrightarrow> visits_left mp' = visits_left mp"
  by (auto simp: maze_build_cell_walls_def dest!: maze_build_one_cell_wall_shape split: Option.bind_splits)

text \<open>The loop of \<open>maze_construct_segment\<close>.\<close>

function maze_segment_from ::
    "(nat \<Rightarrow> nat) \<Rightarrow> nat \<Rightarrow> maze \<Rightarrow> int \<Rightarrow> int \<Rightarrow> int \<Rightarrow> int \<Rightarrow> (maze \<times> nat) option" where
  "maze_segment_from R n mp prevrow prevcol currow curcol =
     (case maze_choose_next_cell R n mp prevrow prevcol currow curcol of
        None \<Rightarrow> None
      | Some (MAZE_CONTINUE_SEGMENT mp nextrow nextcol, n) \<Rightarrow>
          (case maze_build_cell_walls mp prevrow prevcol currow curcol nextrow nextcol of
             None \<Rightarrow> None
           | Some mp \<Rightarrow> maze_segment_from R n mp currow curcol nextrow nextcol)
      | Some (MAZE_END_SEGMENT, n) \<Rightarrow>
          do { mp \<leftarrow> maze_build_cell_walls mp prevrow prevcol currow curcol prevrow prevcol; Some (mp, n) }
      | Some (MAZE_STUCK_SEGMENT, n) \<Rightarrow> Some (mp, n))"
  by pat_completeness auto
termination
  by (relation "measure (\<lambda>(R, n, mp, pr, pc, cr, cc). visits_left mp)")
    (auto dest!: maze_choose_next_cell_shape simp: maze_build_cell_walls_shape)

declare maze_segment_from.simps [simp del]

definition maze_construct_segment ::
    "(nat \<Rightarrow> nat) \<Rightarrow> nat \<Rightarrow> maze \<Rightarrow> int \<Rightarrow> int \<Rightarrow> int \<Rightarrow> int \<Rightarrow> (maze \<times> nat) option" where
  "maze_construct_segment R n mp row1 col1 row2 col2 =
     (if row1 = row2 \<and> col1 = col2
      then do {
        x \<leftarrow> maze_find_any_next_cell mp row2 col2;
        (case x of
           None \<Rightarrow> Some (mp, n)
         | Some (mp, nextrow, nextcol) \<Rightarrow> do {
             mp \<leftarrow> maze_build_cell_walls mp row1 col1 row2 col2 nextrow nextcol;
             maze_segment_from R n mp row2 col2 nextrow nextcol }) }
      else maze_segment_from R n mp row1 col1 row2 col2)"

section \<open>The boundary of the created part\<close>

text \<open>
  One visited cell: the unvisited neighbour chosen for it. As in the code, the row is \<open>-1\<close> when
  there is none, and a random number is drawn only when a candidate is known already.
\<close>

definition candidate :: "(nat \<Rightarrow> nat) \<Rightarrow> maze \<Rightarrow> int \<Rightarrow> int \<Rightarrow> (int \<times> int) \<times> nat \<Rightarrow> ((int \<times> int) \<times> nat) option" where
  "candidate R mp row col x = do {
     v \<leftarrow> maze_cell_visited mp row col;
     (case x of ((cr, cc), n) \<Rightarrow>
        Some (if v then x
              else if cr = - 1 then ((row, col), n)
              else ((if drandom R n < 1 / 2 then (row, col) else (cr, cc)), n + 1))) }"

definition maze_candidate :: "(nat \<Rightarrow> nat) \<Rightarrow> nat \<Rightarrow> maze \<Rightarrow> int \<Rightarrow> int \<Rightarrow> ((int \<times> int) \<times> nat) option" where
  "maze_candidate R n mp pr pc = do {
     x \<leftarrow> candidate R mp (pr - 1) pc ((- 1, 0), n);
     x \<leftarrow> candidate R mp (pr + 1) pc x;
     x \<leftarrow> candidate R mp pr (pc - 1) x;
     candidate R mp pr (pc + 1) x }"

text \<open>
  The \<open>do\<close> loop visits the indices from \<open>vi_start\<close> to the end of the work list and then from 0 up to
  \<open>vi_start\<close>; the list \<open>vs\<close> has the indices still to come.
\<close>

fun maze_boundary_loop ::
    "(nat \<Rightarrow> nat) \<Rightarrow> nat \<Rightarrow> maze \<Rightarrow> nat list \<Rightarrow> ((maze \<times> int \<times> int \<times> int \<times> int) option \<times> nat) option" where
  "maze_boundary_loop R n mp [] = Some (None, n)"
| "maze_boundary_loop R n mp (i # vs) =
     (case visited mp ! i of (pr, pc) \<Rightarrow>
      case maze_candidate R n mp pr pc of
        None \<Rightarrow> None
      | Some ((cr, cc), n) \<Rightarrow>
          if cr \<noteq> - 1 then do {
            d \<leftarrow> maze_get_cell_distance mp pr pc;
            mp \<leftarrow> maze_remove_wall mp pr pc cr cc;
            mp \<leftarrow> maze_visit_cell mp cr cc (d + 1);
            Some (Some (mp\<lparr>lastvi := int i\<rparr>, pr, pc, cr, cc), n) }
          else maze_boundary_loop R n mp vs)"

definition boundary_start :: "(nat \<Rightarrow> nat) \<Rightarrow> nat \<Rightarrow> maze \<Rightarrow> nat \<times> nat" where
  "boundary_start R n mp =
     (if lastvi mp = - 1 then (nat \<lfloor>drandom R n * of_nat (vi mp)\<rfloor>, n + 1)
      else if drandom R n > revisit mp then (nat \<lfloor>drandom R (n + 1) * of_nat (vi mp)\<rfloor>, n + 2)
      else (nat (lastvi mp), n + 1))"

definition maze_find_boundary ::
    "(nat \<Rightarrow> nat) \<Rightarrow> nat \<Rightarrow> maze \<Rightarrow> ((maze \<times> int \<times> int \<times> int \<times> int) option \<times> nat) option" where
  "maze_find_boundary R n mp =
     (case boundary_start R n mp of (vi_start, n) \<Rightarrow>
        maze_boundary_loop R n mp ([vi_start..<vi mp] @ [0..<vi_start]))"

lemma maze_segment_from_shape:
  "maze_segment_from R n mp pr pc cr cc = Some (mp', n') \<Longrightarrow> visits_left mp' \<le> visits_left mp"
proof (induction R n mp pr pc cr cc rule: maze_segment_from.induct)
  case (1 R n mp pr pc cr cc)
  show ?case
  proof (cases "maze_choose_next_cell R n mp pr pc cr cc")
    case None
    then show ?thesis using 1(2) by (simp add: maze_segment_from.simps)
  next
    case (Some x)
    obtain g m where x: "x = (g, m)" by (cases x)
    show ?thesis
    proof (cases g)
      case (MAZE_CONTINUE_SEGMENT mp1 nr nc)
      note c = Some [unfolded x MAZE_CONTINUE_SEGMENT]
      show ?thesis
      proof (cases "maze_build_cell_walls mp1 pr pc cr cc nr nc")
        case None
        then show ?thesis using 1(2) c by (simp add: maze_segment_from.simps)
      next
        case (Some mp2)
        then have "maze_segment_from R m mp2 cr cc nr nc = Some (mp', n')"
          using 1(2) c by (simp add: maze_segment_from.simps)
        then have "visits_left mp' \<le> visits_left mp2" using 1(1) [OF c refl refl Some] by simp
        then show ?thesis using maze_choose_next_cell_shape [OF c] maze_build_cell_walls_shape [OF Some]
          by simp
      qed
    next
      case MAZE_STUCK_SEGMENT
      then show ?thesis using 1(2) Some x by (simp add: maze_segment_from.simps)
    next
      case MAZE_END_SEGMENT
      then show ?thesis using 1(2) Some x maze_build_cell_walls_shape
        by (auto simp: maze_segment_from.simps split: Option.bind_splits)
    qed
  qed
qed

lemma maze_construct_segment_shape:
  "maze_construct_segment R n mp r1 c1 r2 c2 = Some (mp', n') \<Longrightarrow> visits_left mp' \<le> visits_left mp"
  by (auto simp: maze_construct_segment_def
      dest!: maze_segment_from_shape maze_find_any_next_cell_shape maze_build_cell_walls_shape
      split: Option.bind_splits if_splits option.splits)

lemma maze_remove_wall_shape:
  "maze_remove_wall mp a b c d = Some mp' \<Longrightarrow> visits_left mp' = visits_left mp"
  by (auto simp: maze_remove_wall_def visits_left_def dest!: maze_set_cell_shape split: Option.bind_splits)

lemma maze_boundary_loop_shape:
  "maze_boundary_loop R n mp vs = Some (Some (mp', a, b, c, d), n') \<Longrightarrow> visits_left mp' < visits_left mp"
proof (induction vs arbitrary: n)
  case (Cons i vs)
  have l: "visits_left (m\<lparr>lastvi := j\<rparr>) = visits_left m" for m :: maze and j by (simp add: visits_left_def)
  show ?case
    using Cons by (auto dest!: maze_remove_wall_shape maze_visit_cell_shape simp: l
        split: Option.bind_splits if_splits option.splits prod.splits)
qed simp

section \<open>The whole maze\<close>

function maze_create_from ::
    "(nat \<Rightarrow> nat) \<Rightarrow> nat \<Rightarrow> maze \<Rightarrow> (maze \<times> nat) option" where
  "maze_create_from R n mp =
     (case maze_find_boundary R n mp of
        None \<Rightarrow> None
      | Some (None, n) \<Rightarrow> Some (mp, n)
      | Some (Some (mp, row1, col1, row2, col2), n) \<Rightarrow>
          (case maze_construct_segment R n mp row1 col1 row2 col2 of
             None \<Rightarrow> None
           | Some (mp, n) \<Rightarrow> maze_create_from R n mp))"
  by pat_completeness auto
termination
proof (relation "measure (\<lambda>(R, n, mp). visits_left mp)")
  show "wf (measure (\<lambda>(R :: nat \<Rightarrow> nat, n :: nat, mp). visits_left mp))" by simp
qed (auto simp: maze_find_boundary_def
    dest!: maze_construct_segment_shape maze_boundary_loop_shape split: prod.splits)

declare maze_create_from.simps [simp del]

text \<open>\<open>maze_unvisit_all\<close>.\<close>

definition maze_unvisit_cell :: "maze \<Rightarrow> int \<Rightarrow> int \<Rightarrow> maze option" where
  "maze_unvisit_cell mp i j = do {
     c \<leftarrow> maze_get_cell mp i j;
     mp \<leftarrow> maze_set_cell mp i j (c AND NOT (VISITED OR SOLUTION OR COOKIE));
     maze_set_cell_distance mp i j 0 }"

fun maze_unvisit_cells :: "maze \<Rightarrow> (int \<times> int) list \<Rightarrow> maze option" where
  "maze_unvisit_cells mp [] = Some mp"
| "maze_unvisit_cells mp ((i, j) # xs) =
     (case maze_unvisit_cell mp i j of None \<Rightarrow> None | Some mp \<Rightarrow> maze_unvisit_cells mp xs)"

definition maze_unvisit_all :: "maze \<Rightarrow> maze option" where
  "maze_unvisit_all mp = do {
     mp \<leftarrow> maze_unvisit_cells mp (concat (map (\<lambda>i. map (\<lambda>j. (i, j)) [0..ncols mp - 1]) [0..nrows mp - 1]));
     Some (mp\<lparr>vi := 0\<rparr>) }"

definition maze_create ::
    "(nat \<Rightarrow> nat) \<Rightarrow> nat \<Rightarrow> cell_t list \<times> (int \<times> int) list \<Rightarrow> int \<Rightarrow> int \<Rightarrow> int \<Rightarrow> int \<Rightarrow>
     rat \<Rightarrow> rat \<Rightarrow> rat \<Rightarrow> (maze \<times> nat) option" where
  "maze_create R n g rows cols startrow startcol straightfrac segbends rv = do {
     mp \<leftarrow> new_empty_maze g rows cols straightfrac segbends rv;
     mp \<leftarrow> maze_visit_cell mp startrow startcol 1;
     (mp, n) \<leftarrow> maze_construct_segment R n mp startrow startcol startrow startcol;
     (mp, n) \<leftarrow> maze_create_from R n mp;
     if int (vi mp) \<noteq> nrows mp * ncols mp then None
     else do { mp \<leftarrow> maze_unvisit_all mp; Some (mp, n) } }"

section \<open>Walls and passages\<close>

text \<open>
  What building and removing walls does to the passages of a maze: the cells keep their visited
  bit, solution bit and distance, and exactly the passages of the walls change, in both
  directions.
\<close>

declare split_paired_All [simp del] split_paired_Ex [simp del]

section \<open>Wall bits\<close>

definition wmask :: "nat \<Rightarrow> cell_t" where
  "wmask k = push_bit k 1"

lemma find_wmask:
  "adjacent (r, c) (r', c') \<Longrightarrow> maze_find_wallbit r c r' c' = Some (wmask (dirbit (r, c) (r', c')))"
  by (simp add: find_wallbit wmask_def)

lemma bit_wmask: "k \<in> {28..31} \<Longrightarrow> bit (wmask k) j \<longleftrightarrow> j = k"
  unfolding wmask_def bit_push_bit_iff bit_1_iff by auto

lemma wall_bit_parts:
  assumes "k \<in> {28..31}"
  shows "bit (w OR wmask k) j \<longleftrightarrow> bit w j \<or> j = k" and "bit (w AND NOT (wmask k)) j \<longleftrightarrow> bit w j \<and> j \<noteq> k"
    and "vis (w OR wmask k) = vis w" "sol (w OR wmask k) = sol w" "dst (w OR wmask k) = dst w"
    and "vis (w AND NOT (wmask k)) = vis w" "sol (w AND NOT (wmask k)) = sol w"
    "dst (w AND NOT (wmask k)) = dst w"
proof -
  note m = bit_wmask [OF assms]
  show b: "bit (w OR wmask k) j \<longleftrightarrow> bit w j \<or> j = k" for j by (simp add: bit_or_iff m)
  show c: "bit (w AND NOT (wmask k)) j \<longleftrightarrow> bit w j \<and> j \<noteq> k" for j
    using bit_imp_le_length [of w j] by (auto simp: bit_and_iff bit_not_iff m)
  show "vis (w OR wmask k) = vis w" "sol (w OR wmask k) = sol w"
    "vis (w AND NOT (wmask k)) = vis w" "sol (w AND NOT (wmask k)) = sol w"
    using assms by (simp_all add: vis_def sol_def b c)
  have "(w OR wmask k) AND COOKIE = w AND COOKIE" "(w AND NOT (wmask k)) AND COOKIE = w AND COOKIE"
    using assms by (auto intro!: bit_word_eqI simp: bit_and_iff [of _ COOKIE] b c)
  then show "dst (w OR wmask k) = dst w" "dst (w AND NOT (wmask k)) = dst w"
    by (simp_all only: dst_def)
qed

lemma dirbit_inj: "adjacent p x \<Longrightarrow> adjacent p y \<Longrightarrow> dirbit p x = dirbit p y \<longleftrightarrow> x = y"
proof -
  assume a: "adjacent p x" "adjacent p y"
  obtain r c where p: "p = (r, c)" by (cases p)
  have "x \<in> {(r, c - 1), (r, c + 1), (r - 1, c), (r + 1, c)}"
    "y \<in> {(r, c - 1), (r, c + 1), (r - 1, c), (r + 1, c)}"
    using a unfolding p adjacent_iff .
  then show ?thesis unfolding p by (elim insertE emptyE) (simp_all add: dirbit_def)
qed

section \<open>Mazes with the same cells\<close>

definition same_cells :: "maze \<Rightarrow> maze \<Rightarrow> bool" where
  "same_cells mp mp' \<longleftrightarrow> nrows mp' = nrows mp \<and> ncols mp' = ncols mp \<and> visited mp' = visited mp \<and>
     vi mp' = vi mp \<and> shaped mp' \<and> lastvi mp' = lastvi mp \<and>
     (\<forall>p. exists_at mp p \<longrightarrow> vis (cell_at mp' p) = vis (cell_at mp p) \<and>
        sol (cell_at mp' p) = sol (cell_at mp p) \<and> dst (cell_at mp' p) = dst (cell_at mp p))"

lemma same_cells_refl: "shaped mp \<Longrightarrow> same_cells mp mp"
  by (simp add: same_cells_def)

lemma same_cellsD:
  assumes "same_cells mp mp'"
  shows "exists_at mp' = exists_at mp" "ncells mp' = ncells mp" "trail mp' = trail mp" "vi mp' = vi mp"
    "shaped mp'" "lastvi mp' = lastvi mp" "nrows mp' = nrows mp" "ncols mp' = ncols mp"
    "exists_at mp p \<Longrightarrow> vis (cell_at mp' p) = vis (cell_at mp p)"
    "exists_at mp p \<Longrightarrow> sol (cell_at mp' p) = sol (cell_at mp p)"
    "exists_at mp p \<Longrightarrow> dst (cell_at mp' p) = dst (cell_at mp p)"
  using assms
  by (simp_all add: same_cells_def exists_at_def maze_cell_exists_def ncells_def trail_def fun_eq_iff)

lemma same_cells_trans: "same_cells mp mp1 \<Longrightarrow> same_cells mp1 mp2 \<Longrightarrow> same_cells mp mp2"
  using same_cellsD(1) [of mp mp1] unfolding same_cells_def by simp

lemma same_cells_tracked: "tracked mp \<Longrightarrow> same_cells mp mp' \<Longrightarrow> tracked mp'"
  by (erule tracked_cong) (simp_all add: same_cells_def)

lemma same_cells_upd:
  assumes "shaped mp" "exists_at mp p" "vis v = vis (cell_at mp p)" "sol v = sol (cell_at mp p)"
    "dst v = dst (cell_at mp p)"
  shows "same_cells mp (upd mp p v)"
  using assms cell_at_upd [OF assms(1,2)] by (auto simp: same_cells_def)

definition edge :: "int \<times> int \<Rightarrow> int \<times> int \<Rightarrow> int \<times> int \<Rightarrow> int \<times> int \<Rightarrow> bool" where
  "edge a b p q \<longleftrightarrow> (a = p \<and> b = q) \<or> (a = q \<and> b = p)"

text \<open>Both halves of a wall are changed by the same kind of operation on the cell.\<close>

lemma two_cell_update:
  assumes s: "shaped mp" and p: "exists_at mp p" and q: "exists_at mp q" and ad: "adjacent p q"
    and f: "\<And>k w. k \<in> {28..31} \<Longrightarrow> vis (f k w) = vis w \<and> sol (f k w) = sol w \<and> dst (f k w) = dst w"
    and b: "\<And>k w j. k \<in> {28..31} \<Longrightarrow> bit (f k w) j = (if j = k then v else bit w j)"
  defines "mp1 \<equiv> upd mp p (f (dirbit p q) (cell_at mp p))"
  defines "mp2 \<equiv> upd mp1 q (f (dirbit q p) (cell_at mp1 q))"
  shows "same_cells mp mp2"
    and "conn mp2 x y \<longleftrightarrow> (if edge x y p q then \<not> v else conn mp x y)"
proof -
  note k = dirbit_range [of p q] dirbit_range [of q p]
  have s1: "shaped mp1" and q1: "exists_at mp1 q" using s q by (simp_all add: mp1_def)
  have "same_cells mp mp1"
    unfolding mp1_def by (rule same_cells_upd [OF s p]) (use f k in blast)+
  moreover have "same_cells mp1 mp2"
    unfolding mp2_def by (rule same_cells_upd [OF s1 q1]) (use f k in blast)+
  ultimately show sc: "same_cells mp mp2" by (rule same_cells_trans)
  have pq: "p \<noteq> q" using adjacent_neq [OF ad] .
  have c1: "cell_at mp1 z = (if z = p then f (dirbit p q) (cell_at mp p) else cell_at mp z)"
    if "exists_at mp z" for z
    using cell_at_upd [OF s p that] by (simp add: mp1_def)
  have c2: "cell_at mp2 z = (if z = p then f (dirbit p q) (cell_at mp p)
      else if z = q then f (dirbit q p) (cell_at mp q) else cell_at mp z)" if z: "exists_at mp z" for z
  proof -
    have "exists_at mp1 z" using z by (simp add: mp1_def)
    from cell_at_upd [OF s1 q1 this, of "f (dirbit q p) (cell_at mp1 q)"]
    have "cell_at mp2 z = (if z = q then f (dirbit q p) (cell_at mp1 q) else cell_at mp1 z)"
      by (simp only: mp2_def)
    then show ?thesis using c1 [OF z] c1 [OF q] pq by auto
  qed
  have "wall mp2 x y = (if edge x y p q then v else wall mp x y)" if "exists_at mp x" "adjacent x y"
  proof -
    consider "x = p" | "x = q" | "x \<noteq> p" "x \<noteq> q" by blast
    then show ?thesis
    proof cases
      case 1
      then show ?thesis
        using c2 [OF p] b [OF k(1)] dirbit_inj [of p y q] that ad pq by (auto simp: wall_def edge_def)
    next
      case 2
      then show ?thesis
        using c2 [OF q] b [OF k(2)] dirbit_inj [of q y p] that ad pq
        by (auto simp: wall_def edge_def adjacent_sym)
    next
      case 3
      then show ?thesis using c2 [OF that(1)] by (auto simp: wall_def edge_def)
    qed
  qed
  moreover have "adjacent x y" "exists_at mp x" "exists_at mp y" if "edge x y p q"
    using that ad p q adjacent_sym [of p q] by (auto simp: edge_def)
  ultimately show "conn mp2 x y \<longleftrightarrow> (if edge x y p q then \<not> v else conn mp x y)"
    unfolding conn_def same_cellsD(1) [OF sc] by auto
qed

lemma or_cell:
  "maze_or_cell mp r c b = (if exists_at mp (r, c) then Some (upd mp (r, c) (cell_at mp (r, c) OR b)) else None)"
  by (simp add: maze_or_cell_def get_cell set_cell)

lemma build_one_cell_wall:
  assumes s: "shaped mp" and c: "exists_at mp (cr, cc)" and ad: "adjacent (wr, wc) (cr, cc)"
  shows "\<exists>mp'. maze_build_one_cell_wall mp wr wc pr pc cr cc nr nc = Some mp' \<and> same_cells mp mp' \<and>
    (\<forall>x y. conn mp' x y \<longleftrightarrow> conn mp x y \<and> ((wr, wc) \<in> {(pr, pc), (nr, nc)} \<or> \<not> edge x y (wr, wc) (cr, cc)))"
proof (cases "(wr, wc) \<in> {(pr, pc), (nr, nc)} \<or> \<not> exists_at mp (wr, wc)")
  case True
  then have "maze_build_one_cell_wall mp wr wc pr pc cr cc nr nc = Some mp"
    by (auto simp: maze_build_one_cell_wall_def exists_at_def)
  moreover have "(wr, wc) \<in> {(pr, pc), (nr, nc)} \<or> \<not> edge x y (wr, wc) (cr, cc)" if "conn mp x y" for x y
    using that True by (auto simp: conn_def edge_def)
  ultimately show ?thesis using same_cells_refl [OF s] by blast
next
  case False
  let ?p = "(wr, wc)" and ?q = "(cr, cc)"
  let ?m1 = "upd mp ?p (cell_at mp ?p OR wmask (dirbit ?p ?q))"
  let ?m2 = "upd ?m1 ?q (cell_at ?m1 ?q OR wmask (dirbit ?q ?p))"
  have e: "exists_at mp ?p" using False by simp
  have "maze_build_one_cell_wall mp wr wc pr pc cr cc nr nc = Some ?m2"
    using False c find_wmask [OF ad] find_wmask [OF ad [unfolded adjacent_sym [of "(wr, wc)"]]]
    by (auto simp: maze_build_one_cell_wall_def or_cell exists_at_def [symmetric]
        exists_at_def [of mp "(wr, wc)", simplified, symmetric])
  moreover note two_cell_update [OF s e c ad, of "\<lambda>k w. w OR wmask k" True]
  ultimately show ?thesis using False wall_bit_parts by auto
qed

lemma build_cell_walls:
  assumes s: "shaped mp" and c: "exists_at mp (cr, cc)"
  shows "\<exists>mp'. maze_build_cell_walls mp pr pc cr cc nr nc = Some mp' \<and> same_cells mp mp' \<and>
    (\<forall>x y. conn mp' x y \<longleftrightarrow> conn mp x y \<and> (\<forall>w. edge x y w (cr, cc) \<longrightarrow> w \<in> {(pr, pc), (nr, nc)}))"
proof -
  let ?c = "(cr, cc)" and ?E = "{(pr, pc), (nr, nc)}"
  have ad: "adjacent (cr - 1, cc) ?c" "adjacent (cr + 1, cc) ?c" "adjacent (cr, cc - 1) ?c" "adjacent (cr, cc + 1) ?c"
    by (simp_all add: adjacent_def)
  obtain m1 where m1: "maze_build_one_cell_wall mp (cr - 1) cc pr pc cr cc nr nc = Some m1" "same_cells mp m1"
    "\<And>x y. conn m1 x y \<longleftrightarrow> conn mp x y \<and> ((cr - 1, cc) \<in> ?E \<or> \<not> edge x y (cr - 1, cc) ?c)"
    using build_one_cell_wall [OF s c ad(1), of pr pc nr nc] by blast
  note s1 = same_cellsD(1,5) [OF m1(2)]
  obtain m2 where m2: "maze_build_one_cell_wall m1 (cr + 1) cc pr pc cr cc nr nc = Some m2" "same_cells m1 m2"
    "\<And>x y. conn m2 x y \<longleftrightarrow> conn m1 x y \<and> ((cr + 1, cc) \<in> ?E \<or> \<not> edge x y (cr + 1, cc) ?c)"
    using build_one_cell_wall [OF s1(2) _ ad(2), of pr pc nr nc] c s1(1) by metis
  note s2 = same_cellsD(1,5) [OF m2(2)]
  obtain m3 where m3: "maze_build_one_cell_wall m2 cr (cc - 1) pr pc cr cc nr nc = Some m3" "same_cells m2 m3"
    "\<And>x y. conn m3 x y \<longleftrightarrow> conn m2 x y \<and> ((cr, cc - 1) \<in> ?E \<or> \<not> edge x y (cr, cc - 1) ?c)"
    using build_one_cell_wall [OF s2(2) _ ad(3), of pr pc nr nc] c s1(1) s2(1) by metis
  note s3 = same_cellsD(1,5) [OF m3(2)]
  obtain m4 where m4: "maze_build_one_cell_wall m3 cr (cc + 1) pr pc cr cc nr nc = Some m4" "same_cells m3 m4"
    "\<And>x y. conn m4 x y \<longleftrightarrow> conn m3 x y \<and> ((cr, cc + 1) \<in> ?E \<or> \<not> edge x y (cr, cc + 1) ?c)"
    using build_one_cell_wall [OF s3(2) _ ad(4), of pr pc nr nc] c s1(1) s2(1) s3(1) by metis
  have "same_cells mp m4" using m1(2) m2(2) m3(2) m4(2) same_cells_trans by blast
  moreover have "conn m4 x y \<longleftrightarrow> conn mp x y \<and> (\<forall>w. edge x y w ?c \<longrightarrow> w \<in> ?E)" for x y
  proof -
    have "w \<in> {(cr, cc - 1), (cr, cc + 1), (cr - 1, cc), (cr + 1, cc)}"
      if "conn mp x y" "edge x y w ?c" for w
      using that adjacent_sym [of w ?c] unfolding adjacent_iff [symmetric] conn_def edge_def by auto
    then show ?thesis unfolding m4(3) m3(3) m2(3) m1(3) by blast
  qed
  moreover have "maze_build_cell_walls mp pr pc cr cc nr nc = Some m4"
    using m1(1) m2(1) m3(1) m4(1) by (simp add: maze_build_cell_walls_def)
  ultimately show ?thesis by blast
qed

lemma remove_wall:
  assumes s: "shaped mp" and p: "exists_at mp (pr, pc)" and q: "exists_at mp (cr, cc)"
    and ad: "adjacent (pr, pc) (cr, cc)"
  shows "\<exists>mp'. maze_remove_wall mp pr pc cr cc = Some mp' \<and> same_cells mp mp' \<and>
    (\<forall>x y. conn mp' x y \<longleftrightarrow> conn mp x y \<or> edge x y (pr, pc) (cr, cc))"
proof -
  let ?p = "(pr, pc)" and ?q = "(cr, cc)"
  let ?m1 = "upd mp ?p (cell_at mp ?p AND NOT (wmask (dirbit ?p ?q)))"
  let ?m2 = "upd ?m1 ?q (cell_at ?m1 ?q AND NOT (wmask (dirbit ?q ?p)))"
  have "maze_remove_wall mp pr pc cr cc = Some ?m2"
    using p q find_wmask [OF ad] find_wmask [OF ad [unfolded adjacent_sym [of "(pr, pc)"]]]
    by (simp add: maze_remove_wall_def get_cell set_cell)
  moreover note two_cell_update [OF s p q ad, of "\<lambda>k w. w AND NOT (wmask k)" False]
  ultimately show ?thesis using wall_bit_parts by auto
qed

end
