(* ===== verification/Maze_Span.thy ===== *)
theory Maze_Span
  imports Maze_Create
begin

text \<open>
  The mazes that \<open>maze_create\<close> makes: the created part is spanned by a tree of passages rooted at
  the starting cell, which the walls built around a new cell never cut, so that in the end every
  cell can be reached.
\<close>

section \<open>The spanning tree\<close>

definition spanned :: "maze \<Rightarrow> int \<times> int \<Rightarrow> (int \<times> int \<Rightarrow> int \<times> int) \<Rightarrow> bool" where
  "spanned mp s par \<longleftrightarrow> tracked mp \<and> sym_walls mp \<and> s \<in> set (trail mp) \<and>
     (\<forall>p \<in> set (trail mp). p \<noteq> s \<longrightarrow> par p \<in> set (trail mp) \<and> conn mp (par p) p \<and>
        dst (cell_at mp p) = Suc (dst (cell_at mp (par p))))"

text \<open>The cell \<open>cur\<close> at the end of a segment: a leaf whose parent is \<open>prev\<close>.\<close>

definition at_end :: "maze \<Rightarrow> int \<times> int \<Rightarrow> (int \<times> int \<Rightarrow> int \<times> int) \<Rightarrow> int \<times> int \<Rightarrow> int \<times> int \<Rightarrow> bool" where
  "at_end mp s par prev cur \<longleftrightarrow> spanned mp s par \<and> cur \<in> set (trail mp) \<and>
     (cur \<noteq> s \<longrightarrow> par cur = prev) \<and> (\<forall>p \<in> set (trail mp). p \<noteq> s \<longrightarrow> par p \<noteq> cur)"

lemma spannedD:
  assumes "spanned mp s par"
  shows "tracked mp" "sym_walls mp" "s \<in> set (trail mp)" "shaped mp"
    "p \<in> set (trail mp) \<Longrightarrow> p \<noteq> s \<Longrightarrow> par p \<in> set (trail mp)"
    "p \<in> set (trail mp) \<Longrightarrow> p \<noteq> s \<Longrightarrow> conn mp (par p) p"
    "p \<in> set (trail mp) \<Longrightarrow> p \<noteq> s \<Longrightarrow> dst (cell_at mp p) = Suc (dst (cell_at mp (par p)))"
  using assms trackedD(1) unfolding spanned_def by blast+

lemma spanned_reach: "spanned mp s par \<Longrightarrow> p \<in> set (trail mp) \<Longrightarrow> (conn mp)\<^sup>*\<^sup>* s p"
proof (induction "dst (cell_at mp p)" arbitrary: p)
  case 0
  then show ?case using spannedD(7) [OF 0(2,3)] by (cases "p = s") auto
next
  case (Suc n)
  show ?case
  proof (cases "p = s")
    case False
    note S = spannedD(5-7) [OF Suc.prems False]
    have "(conn mp)\<^sup>*\<^sup>* s (par p)" using Suc.hyps(1) [of "par p"] Suc.hyps(2) Suc.prems(1) S by simp
    then show ?thesis using S(2) by (rule rtranclp.rtrancl_into_rtrancl)
  qed simp
qed

text \<open>A new leaf.\<close>

lemma at_end_visit:
  assumes S: "spanned mp s par" and q: "q \<in> set (trail mp)" and c: "conn mp q p" and p: "p \<notin> set (trail mp)"
  defines "mp' \<equiv> visit mp p (of_nat (Suc (dst (cell_at mp q))))"
  shows "at_end mp' s (par(p := q)) q p" and "conn mp' = conn mp" and "trail mp' = trail mp @ [p]"
proof -
  note D = spannedD [OF S]
  have ep: "exists_at mp p" using c by (simp add: conn_def)
  have n: "Suc (dst (cell_at mp q)) \<le> Suc (vi mp)" using tracked_dist [OF D(1) q] by simp
  note V = tracked_visit [OF D(1) ep p n, folded mp'_def]
  show "conn mp' = conn mp" "trail mp' = trail mp @ [p]" using V by simp_all
  have old: "cell_at mp' a = cell_at mp a" if "a \<in> set (trail mp)" for a
    using V(6) that p trackedD(5) [OF D(1)] by metis
  have ps: "p \<noteq> s" using p D(3) by auto
  have "(par(p := q)) a \<in> set (trail mp @ [p]) \<and> conn mp ((par(p := q)) a) a \<and>
      dst (cell_at mp' a) = Suc (dst (cell_at mp' ((par(p := q)) a)))"
    if a: "a \<in> set (trail mp @ [p])" "a \<noteq> s" for a
  proof (cases "a = p")
    case True
    then show ?thesis using q c V(4) old [OF q] p by auto
  next
    case False
    then have "a \<in> set (trail mp)" using a by simp
    then show ?thesis using D(5-7) [of a] a(2) old [of a] old [of "par a"] False by simp
  qed
  then have "spanned mp' s (par(p := q))"
    using V(2,3,5) D(2,3) by (simp add: spanned_def sym_walls_def)
  moreover have "(par(p := q)) a \<noteq> p" if "a \<in> set (trail mp @ [p])" "a \<noteq> s" for a
    using that D(5) [of a] p q by (cases "a = p") auto
  ultimately show "at_end mp' s (par(p := q)) q p" using V(3) ps by (simp add: at_end_def)
qed

text \<open>Walls around a cell whose tree edges are spared.\<close>

lemma spanned_walls:
  assumes S: "spanned mp s par" and c: "cur \<in> set (trail mp)"
    and pc: "cur \<noteq> s \<Longrightarrow> par cur \<in> {prev, nxt}"
    and ch: "\<And>p. p \<in> set (trail mp) \<Longrightarrow> p \<noteq> s \<Longrightarrow> par p = cur \<Longrightarrow> p \<in> {prev, nxt}"
  shows "\<exists>mp'. maze_build_cell_walls mp (fst prev) (snd prev) (fst cur) (snd cur) (fst nxt) (snd nxt) = Some mp' \<and>
    same_cells mp mp' \<and> spanned mp' s par"
proof -
  note D = spannedD [OF S]
  have "exists_at mp (fst cur, snd cur)" using c trackedD(5) [OF D(1)] by simp
  from build_cell_walls [OF D(4) this, of "fst prev" "snd prev" "fst nxt" "snd nxt"] obtain mp' where m:
    "maze_build_cell_walls mp (fst prev) (snd prev) (fst cur) (snd cur) (fst nxt) (snd nxt) = Some mp'"
    "same_cells mp mp'"
    "\<And>x y. conn mp' x y \<longleftrightarrow> conn mp x y \<and> (\<forall>w. edge x y w cur \<longrightarrow> w \<in> {prev, nxt})"
    by auto
  note E = same_cellsD [OF m(2)]
  have "edge y x w cur = edge x y w cur" for x y w by (auto simp: edge_def)
  then have "sym_walls mp'" unfolding sym_walls_def m(3) using sym_wallsD [OF D(2)] by simp
  moreover have "par p \<in> set (trail mp) \<and> conn mp' (par p) p \<and>
      dst (cell_at mp' p) = Suc (dst (cell_at mp' (par p)))" if p: "p \<in> set (trail mp)" "p \<noteq> s" for p
  proof -
    have ex: "exists_at mp p" "exists_at mp (par p)" using D(6) [OF p] by (simp_all add: conn_def)
    have "w \<in> {prev, nxt}" if "edge (par p) p w cur" for w
      using that pc ch [OF p] p(2) unfolding edge_def by metis
    then show ?thesis using D(5-7) [OF p] E(11) [OF ex(1)] E(11) [OF ex(2)] m(3) by simp
  qed
  ultimately have "spanned mp' s par"
    using same_cells_tracked [OF D(1) m(2)] D(3) E(3) by (simp add: spanned_def)
  then show ?thesis using m(1,2) by blast
qed

section \<open>One segment\<close>

text \<open>A cell tried from the end of the segment.\<close>

definition tried :: "maze \<Rightarrow> int \<times> int \<Rightarrow> (maze \<times> int \<times> int) option \<Rightarrow> bool" where
  "tried mp cur x \<longleftrightarrow> (case x of None \<Rightarrow> True
     | Some (mp', p) \<Rightarrow> conn mp cur p \<and> p \<notin> set (trail mp) \<and>
         mp' = visit mp p (of_nat (Suc (dst (cell_at mp cur)))))"

lemma tried_None [simp]: "tried mp cur None"
  by (simp add: tried_def)

lemma try_tried:
  assumes "tracked mp" "(cr, cc) \<in> set (trail mp)" "adjacent (cr, cc) (tr, tc)"
  shows "\<exists>x. maze_try_visit_cell mp cr cc tr tc (of_nat (dst (cell_at mp (cr, cc))) + 1) = Some x \<and> tried mp (cr, cc) x"
proof -
  have "maze_try_visit_cell mp cr cc tr tc (of_nat (Suc (dst (cell_at mp (cr, cc))))) =
    (if conn mp (cr, cc) (tr, tc) \<and> (tr, tc) \<notin> set (trail mp)
     then Some (Some (visit mp (tr, tc) (of_nat (Suc (dst (cell_at mp (cr, cc))))), tr, tc)) else Some None)"
    by (rule try_visit [OF assms refl])
  then show ?thesis by (auto simp: tried_def add.commute)
qed

lemma find_tried:
  assumes "tracked mp" "(cr, cc) \<in> set (trail mp)"
  shows "\<exists>x. maze_find_any_next_cell mp cr cc = Some x \<and> tried mp (cr, cc) x"
  using find_any [OF assms] by (auto simp: tried_def)

lemma choose_tried:
  assumes t: "tracked mp" and c: "(cr, cc) \<in> set (trail mp)" and ad: "adjacent (pr, pc) (cr, cc)"
  shows "\<exists>g n'. maze_choose_next_cell R n mp pr pc cr cc = Some (g, n') \<and>
    (g = MAZE_END_SEGMENT \<or> (\<exists>x. g = to_segment x \<and> tried mp (cr, cc) x))"
proof -
  let ?d = "of_nat (dst (cell_at mp (cr, cc))) + 1 :: cell_t"
  have e: "exists_at mp (cr, cc)" using c trackedD(5) [OF t] by simp
  have ds: "maze_get_cell_distance mp cr cc = Some (of_nat (dst (cell_at mp (cr, cc))))"
    using e by (simp add: get_distance)
  have "adjacent (cr, cc) (cr + (cr - pr), cc + (cc - pc))" using ad by (simp add: adjacent_def)
  then obtain x1 where x1: "maze_try_visit_cell mp cr cc (cr + (cr - pr)) (cc + (cc - pc)) ?d = Some x1"
    "tried mp (cr, cc) x1" using try_tried [OF t c] by blast
  obtain x2 where x2: "maze_find_any_next_cell mp cr cc = Some x2" "tried mp (cr, cc) x2"
    using find_tried [OF t c] by blast
  have str: "maze_straight mp pr pc cr cc ?d = Some (if x1 \<noteq> None then x1 else x2)"
    using x1 x2 by (simp add: maze_straight_def)
  have tn: "\<exists>x. maze_turn mp cr cc dr dc ?d = Some x \<and> tried mp (cr, cc) x" if "\<bar>dr\<bar> + \<bar>dc\<bar> = 1" for dr dc
  proof -
    have "adjacent (cr, cc) (cr + dr, cc + dc)" "adjacent (cr, cc) (cr - dr, cc - dc)"
      using that by (simp_all add: adjacent_def)
    then obtain y z where "maze_try_visit_cell mp cr cc (cr + dr) (cc + dc) ?d = Some y" "tried mp (cr, cc) y"
      "maze_try_visit_cell mp cr cc (cr - dr) (cc - dc) ?d = Some z" "tried mp (cr, cc) z"
      using try_tried [OF t c] by metis
    then show ?thesis by (simp add: maze_turn_def)
  qed
  let ?f = "pmrandom R (n + 1) \<noteq> 0"
  have "\<bar>if ?f then - (- (cc - pc)) else - (cc - pc)\<bar> + \<bar>if ?f then - (cr - pr) else cr - pr\<bar> = 1"
    using ad by (simp add: adjacent_def) arith
  then obtain y where y: "maze_turn mp cr cc (if ?f then - (- (cc - pc)) else - (cc - pc))
      (if ?f then - (cr - pr) else cr - pr) ?d = Some y" "tried mp (cr, cc) y" using tn by blast
  have d2: "tried mp (cr, cc) (if x1 \<noteq> None then x1 else x2)" using x1 x2 by simp
  show ?thesis
    unfolding maze_choose_next_cell_def Let_def ds bind.bind_lunit y(1) str
    using y(2) d2 by (auto simp del: minus_diff_eq)
qed

text \<open>What a segment keeps.\<close>

definition grows :: "maze \<Rightarrow> maze \<Rightarrow> bool" where
  "grows mp mp' \<longleftrightarrow> nrows mp' = nrows mp \<and> ncols mp' = ncols mp \<and> lastvi mp' = lastvi mp \<and> vi mp \<le> vi mp'"

lemma grows_refl: "grows mp mp"
  by (simp add: grows_def)

lemma grows_trans: "grows mp mp1 \<Longrightarrow> grows mp1 mp2 \<Longrightarrow> grows mp mp2"
  by (simp add: grows_def)

lemma grows_visit: "grows mp (visit mp p d)"
  by (simp add: grows_def)

lemma grows_same: "same_cells mp mp' \<Longrightarrow> grows mp mp'"
  using same_cellsD [of mp mp'] by (simp add: grows_def)

text \<open>One step of a segment: visit the next cell, then wall in the current one.\<close>

lemma segment_step:
  assumes S: "spanned mp s par" and q: "(cr, cc) \<in> set (trail mp)"
    and pc: "(cr, cc) \<noteq> s \<Longrightarrow> par (cr, cc) = prev"
    and ch: "\<And>p. p \<in> set (trail mp) \<Longrightarrow> p \<noteq> s \<Longrightarrow> par p \<noteq> (cr, cc)"
    and x: "tried mp (cr, cc) (Some (mp1, p))"
  shows "\<exists>mp2. maze_build_cell_walls mp1 (fst prev) (snd prev) cr cc (fst p) (snd p) = Some mp2 \<and>
    grows mp mp2 \<and> at_end mp2 s (par(p := (cr, cc))) (cr, cc) p \<and> adjacent (cr, cc) p"
proof -
  have c: "conn mp (cr, cc) p" and p: "p \<notin> set (trail mp)"
    and m: "mp1 = visit mp p (of_nat (Suc (dst (cell_at mp (cr, cc)))))"
    using x by (simp_all add: tried_def)
  note V = at_end_visit [OF S q c p, folded m]
  let ?par = "par(p := (cr, cc))"
  have S1: "spanned mp1 s ?par" using V(1) by (simp add: at_end_def)
  have q1: "(cr, cc) \<in> set (trail mp1)" using V(3) q by simp
  have qp: "(cr, cc) \<noteq> p" using q p by auto
  have "?par (cr, cc) \<in> {prev, p}" if "(cr, cc) \<noteq> s" using pc [OF that] qp by simp
  moreover have "a \<in> {prev, p}" if "a \<in> set (trail mp1)" "a \<noteq> s" "?par a = (cr, cc)" for a
    using that ch [of a] V(3) by (cases "a = p") auto
  ultimately obtain mp2 where m2: "maze_build_cell_walls mp1 (fst prev) (snd prev) cr cc (fst p) (snd p) = Some mp2"
    "same_cells mp1 mp2" "spanned mp2 s ?par"
    using spanned_walls [OF S1 q1, of prev p] by auto
  have "at_end mp2 s ?par (cr, cc) p"
    using V(1) m2(3) same_cellsD(3) [OF m2(2)] by (simp add: at_end_def)
  moreover have "grows mp mp2" using grows_trans [OF _ grows_same [OF m2(2)]] grows_visit m by blast
  moreover have "adjacent (cr, cc) p" using c by (simp add: conn_def)
  ultimately show ?thesis using m2(1) by blast
qed

lemma segment_from:
  "at_end mp s par (pr, pc) (cr, cc) \<Longrightarrow> adjacent (pr, pc) (cr, cc) \<Longrightarrow>
   \<exists>mp' n' par'. maze_segment_from R n mp pr pc cr cc = Some (mp', n') \<and> spanned mp' s par' \<and> grows mp mp'"
proof (induction R n mp pr pc cr cc arbitrary: par rule: maze_segment_from.induct)
  case (1 R n mp pr pc cr cc)
  have S: "spanned mp s par" and q: "(cr, cc) \<in> set (trail mp)"
    and pr: "(cr, cc) \<noteq> s \<Longrightarrow> par (cr, cc) = (pr, pc)"
    and ch: "\<And>p. p \<in> set (trail mp) \<Longrightarrow> p \<noteq> s \<Longrightarrow> par p \<noteq> (cr, cc)"
    using 1(2) by (auto simp: at_end_def)
  from choose_tried [OF spannedD(1) [OF S] q 1(3), of R n] obtain g n1 where
    f: "maze_choose_next_cell R n mp pr pc cr cc = Some (g, n1)"
    and g: "g = MAZE_END_SEGMENT \<or> (\<exists>x. g = to_segment x \<and> tried mp (cr, cc) x)" by blast
  from g show ?case
  proof (elim disjE exE conjE)
    assume "g = MAZE_END_SEGMENT"
    moreover obtain mp' where "maze_build_cell_walls mp pr pc cr cc pr pc = Some mp'"
      "same_cells mp mp'" "spanned mp' s par"
      using spanned_walls [OF S q, of "(pr, pc)" "(pr, pc)"] pr ch by auto
    ultimately show ?thesis using f grows_same by (auto simp: maze_segment_from.simps)
  next
    fix x assume gx: "g = to_segment x" and t: "tried mp (cr, cc) x"
    show ?thesis
    proof (cases x)
      case None
      then show ?thesis using f gx S grows_refl by (auto simp: maze_segment_from.simps to_segment_def)
    next
      case (Some y)
      obtain mp1 nr nc where y: "x = Some (mp1, nr, nc)" using Some by (cases y) auto
      then have g': "g = MAZE_CONTINUE_SEGMENT mp1 nr nc" using gx by (simp add: to_segment_def)
      obtain mp2 where m2: "maze_build_cell_walls mp1 pr pc cr cc nr nc = Some mp2" "grows mp mp2"
        "at_end mp2 s (par((nr, nc) := (cr, cc))) (cr, cc) (nr, nc)" "adjacent (cr, cc) (nr, nc)"
        using segment_step [OF S q pr ch t [unfolded y]] by auto
      have f': "maze_choose_next_cell R n mp pr pc cr cc = Some (MAZE_CONTINUE_SEGMENT mp1 nr nc, n1)"
        using f g' by simp
      obtain mp' n' par' where "maze_segment_from R n1 mp2 cr cc nr nc = Some (mp', n')"
        "spanned mp' s par'" "grows mp2 mp'"
        using 1(1) [OF f' refl refl m2(1) m2(3,4)] by blast
      then show ?thesis using f' m2(1) grows_trans [OF m2(2)] by (auto simp: maze_segment_from.simps)
    qed
  qed
qed

lemma construct_segment:
  assumes "at_end mp s par (r1, c1) (r2, c2)" and "adjacent (r1, c1) (r2, c2)"
  shows "\<exists>mp' n' par'. maze_construct_segment R n mp r1 c1 r2 c2 = Some (mp', n') \<and> spanned mp' s par' \<and> grows mp mp'"
proof -
  have "\<not> (r1 = r2 \<and> c1 = c2)" using adjacent_neq [OF assms(2)] by simp
  then show ?thesis using segment_from [OF assms] by (simp only: maze_construct_segment_def if_False)
qed

lemma construct_first_segment:
  assumes S: "spanned mp (r, c) par" and t: "trail mp = [(r, c)]"
  shows "\<exists>mp' n' par'. maze_construct_segment R n mp r c r c = Some (mp', n') \<and> spanned mp' (r, c) par' \<and> grows mp mp'"
proof -
  have q: "(r, c) \<in> set (trail mp)" using t by simp
  obtain x where x: "maze_find_any_next_cell mp r c = Some x" "tried mp (r, c) x"
    using find_tried [OF spannedD(1) [OF S] q] by blast
  show ?thesis
  proof (cases x)
    case None
    then show ?thesis using x(1) S grows_refl by (auto simp: maze_construct_segment_def)
  next
    case (Some y)
    obtain mp1 nr nc where y: "x = Some (mp1, nr, nc)" using Some by (cases y) auto
    obtain mp2 where m2: "maze_build_cell_walls mp1 r c r c nr nc = Some mp2" "grows mp mp2"
      "at_end mp2 (r, c) (par((nr, nc) := (r, c))) (r, c) (nr, nc)" "adjacent (r, c) (nr, nc)"
      using segment_step [OF S q _ _ x(2) [unfolded y], of "(r, c)"] t by auto
    obtain mp' n' par' where "maze_segment_from R n mp2 r c nr nc = Some (mp', n')"
      "spanned mp' (r, c) par'" "grows mp2 mp'"
      using segment_from [OF m2(3,4)] by blast
    then show ?thesis using x(1) y m2(1) grows_trans [OF m2(2)] by (auto simp: maze_construct_segment_def)
  qed
qed

section \<open>The boundary\<close>

text \<open>A candidate next to \<open>p\<close>, and what its absence says of the neighbours \<open>S\<close> looked at.\<close>

definition cand_ok :: "maze \<Rightarrow> int \<times> int \<Rightarrow> (int \<times> int) set \<Rightarrow> int \<times> int \<Rightarrow> bool" where
  "cand_ok mp p S q \<longleftrightarrow> (if fst q = - 1 then \<forall>x \<in> S. exists_at mp x \<longrightarrow> x \<in> set (trail mp)
     else adjacent p q \<and> exists_at mp q \<and> q \<notin> set (trail mp))"

lemma candidate_ok:
  assumes t: "tracked mp" and ad: "adjacent p (r, c)" and x: "cand_ok mp p S (fst x)"
  shows "\<exists>y. candidate R mp r c x = Some y \<and> cand_ok mp p (insert (r, c) S) (fst y)"
proof -
  obtain cr cc n where e: "x = ((cr, cc), n)" by (metis surj_pair)
  have v: "(exists_at mp (r, c) \<longrightarrow> vis (cell_at mp (r, c))) \<longleftrightarrow> (exists_at mp (r, c) \<longrightarrow> (r, c) \<in> set (trail mp))"
    using trackedD(5) [OF t, of "(r, c)"] by blast
  have "r \<noteq> - 1" if "exists_at mp (r, c)" using that by (simp add: exists_at_def maze_cell_exists_def)
  then show ?thesis
    using x ad unfolding candidate_def cell_visited v e cand_ok_def
    by (auto split: if_splits)
qed

lemma maze_candidate_ok:
  assumes t: "tracked mp"
  shows "\<exists>q n'. maze_candidate R n mp pr pc = Some (q, n') \<and> cand_ok mp (pr, pc) {x. adjacent (pr, pc) x} q"
proof -
  let ?p = "(pr, pc)"
  have ad: "adjacent ?p (pr - 1, pc)" "adjacent ?p (pr + 1, pc)" "adjacent ?p (pr, pc - 1)"
    "adjacent ?p (pr, pc + 1)" by (simp_all add: adjacent_def)
  have "cand_ok mp ?p {} (fst ((- 1, 0), n))" by (simp add: cand_ok_def)
  from candidate_ok [OF t ad(1) this] obtain x1 where
    1: "candidate R mp (pr - 1) pc ((- 1, 0), n) = Some x1" "cand_ok mp ?p {(pr - 1, pc)} (fst x1)" by blast
  from candidate_ok [OF t ad(2) 1(2)] obtain x2 where
    2: "candidate R mp (pr + 1) pc x1 = Some x2" "cand_ok mp ?p {(pr + 1, pc), (pr - 1, pc)} (fst x2)" by blast
  from candidate_ok [OF t ad(3) 2(2)] obtain x3 where
    3: "candidate R mp pr (pc - 1) x2 = Some x3"
    "cand_ok mp ?p {(pr, pc - 1), (pr + 1, pc), (pr - 1, pc)} (fst x3)" by blast
  from candidate_ok [OF t ad(4) 3(2)] obtain x4 where
    4: "candidate R mp pr (pc + 1) x3 = Some x4"
    "cand_ok mp ?p {(pr, pc + 1), (pr, pc - 1), (pr + 1, pc), (pr - 1, pc)} (fst x4)" by blast
  have "{(pr, pc + 1), (pr, pc - 1), (pr + 1, pc), (pr - 1, pc)} = {x. adjacent ?p x}"
    unfolding adjacent_iff by auto
  with 4(2) have c4: "cand_ok mp ?p {x. adjacent ?p x} (fst x4)" by simp
  have "maze_candidate R n mp pr pc = Some (fst x4, snd x4)"
    unfolding maze_candidate_def 1(1) 2(1) 3(1) 4(1) bind.bind_lunit by simp
  then show ?thesis using c4 by blast
qed

lemma lastvi_update [simp]:
  "exists_at (mp\<lparr>lastvi := j\<rparr>) = exists_at mp" "cell_at (mp\<lparr>lastvi := j\<rparr>) = cell_at mp"
  "trail (mp\<lparr>lastvi := j\<rparr>) = trail mp" "conn (mp\<lparr>lastvi := j\<rparr>) = conn mp"
  "tracked (mp\<lparr>lastvi := j\<rparr>) = tracked mp" "at_end (mp\<lparr>lastvi := j\<rparr>) s par p q = at_end mp s par p q"
proof -
  let ?m = "mp\<lparr>lastvi := j\<rparr>"
  show e: "exists_at ?m = exists_at mp" "cell_at ?m = cell_at mp" "trail ?m = trail mp"
    by (simp_all add: exists_at_def maze_cell_exists_def cell_at_def ix_def trail_def fun_eq_iff)
  show c: "conn ?m = conn mp" by (simp add: conn_def e wall_def fun_eq_iff)
  show t: "tracked ?m = tracked mp" by (simp add: tracked_def e shaped_def ncells_def)
  show "at_end ?m s par p q = at_end mp s par p q"
    by (simp add: at_end_def spanned_def sym_walls_def e c t)
qed

lemma boundary_step:
  assumes S: "spanned mp s par" and p: "(pr, pc) \<in> set (trail mp)" and ad: "adjacent (pr, pc) (cr, cc)"
    and q: "exists_at mp (cr, cc)" "(cr, cc) \<notin> set (trail mp)"
  shows "\<exists>m1 m2 par'. maze_remove_wall mp pr pc cr cc = Some m1 \<and>
    maze_visit_cell m1 cr cc (of_nat (dst (cell_at mp (pr, pc))) + 1) = Some m2 \<and>
    at_end m2 s par' (pr, pc) (cr, cc) \<and> nrows m2 = nrows mp \<and> ncols m2 = ncols mp \<and> vi m2 = Suc (vi mp)"
proof -
  note D = spannedD [OF S]
  have ep: "exists_at mp (pr, pc)" using p trackedD(5) [OF D(1)] by simp
  obtain m1 where m1: "maze_remove_wall mp pr pc cr cc = Some m1" "same_cells mp m1"
    "\<And>x y. conn m1 x y \<longleftrightarrow> conn mp x y \<or> edge x y (pr, pc) (cr, cc)"
    using remove_wall [OF D(4) ep q(1) ad] by blast
  note E = same_cellsD [OF m1(2)]
  have t1: "tracked m1" by (rule same_cells_tracked [OF D(1) m1(2)])
  have "sym_walls m1" using sym_wallsD [OF D(2)] unfolding sym_walls_def m1(3) edge_def by blast
  moreover have "par a \<in> set (trail m1) \<and> conn m1 (par a) a \<and> dst (cell_at m1 a) = Suc (dst (cell_at m1 (par a)))"
    if a: "a \<in> set (trail mp)" "a \<noteq> s" for a
  proof -
    have "exists_at mp a" "exists_at mp (par a)" using D(6) [OF a] by (simp_all add: conn_def)
    then show ?thesis using D(5-7) [OF a] E(3,11) m1(3) by simp
  qed
  ultimately have S1: "spanned m1 s par" using t1 D(3) E(3) by (simp add: spanned_def)
  have c: "conn m1 (pr, pc) (cr, cc)" using m1(3) by (simp add: edge_def)
  have p1: "(pr, pc) \<in> set (trail m1)" "(cr, cc) \<notin> set (trail m1)" using p q E(3) by simp_all
  note V = at_end_visit [OF S1 p1(1) c p1(2)]
  have d: "dst (cell_at m1 (pr, pc)) = dst (cell_at mp (pr, pc))" using E(11) [OF ep] .
  have le: "Suc (dst (cell_at m1 (pr, pc))) \<le> Suc (vi m1)" using tracked_dist [OF t1 p1(1)] by simp
  have "exists_at m1 (cr, cc)" using q(1) E(1) by simp
  from tracked_visit(1) [OF t1 this p1(2) le] have "maze_visit_cell m1 cr cc (of_nat (Suc (dst (cell_at m1 (pr, pc)))))
      = Some (visit m1 (cr, cc) (of_nat (Suc (dst (cell_at m1 (pr, pc))))))"
    by (simp only: fst_conv snd_conv)
  then show ?thesis using m1(1) V(1) E(4,7,8) unfolding d by (auto simp: add.commute)
qed

text \<open>What \<open>maze_find_boundary\<close> does: it advances, or no visited cell has an unvisited neighbour.\<close>

definition no_boundary :: "maze \<Rightarrow> nat set \<Rightarrow> bool" where
  "no_boundary mp I \<longleftrightarrow> (\<forall>i \<in> I. \<forall>x. adjacent (trail mp ! i) x \<longrightarrow> exists_at mp x \<longrightarrow> x \<in> set (trail mp))"

definition advanced :: "maze \<Rightarrow> int \<times> int \<Rightarrow> maze \<times> int \<times> int \<times> int \<times> int \<Rightarrow> bool" where
  "advanced mp s x \<longleftrightarrow> (case x of (mp', pr, pc, cr, cc) \<Rightarrow>
     adjacent (pr, pc) (cr, cc) \<and> (\<exists>par'. at_end mp' s par' (pr, pc) (cr, cc)) \<and>
     nrows mp' = nrows mp \<and> ncols mp' = ncols mp \<and> vi mp' = Suc (vi mp) \<and>
     0 \<le> lastvi mp' \<and> lastvi mp' < int (vi mp))"

lemma boundary_loop:
  assumes S: "spanned mp s par"
  shows "set vs \<subseteq> {..<vi mp} \<Longrightarrow>
    \<exists>x n'. maze_boundary_loop R n mp vs = Some (x, n') \<and>
      (case x of None \<Rightarrow> no_boundary mp (set vs) | Some y \<Rightarrow> advanced mp s y)"
proof (induction vs arbitrary: n)
  case Nil
  then show ?case by (simp add: no_boundary_def)
next
  case (Cons i vs)
  note D = spannedD [OF S]
  obtain pr pc where p: "trail mp ! i = (pr, pc)" by (cases "trail mp ! i")
  have i: "i < vi mp" using Cons.prems by simp
  have v: "visited mp ! i = (pr, pc)" using p i by (simp add: visited_trail)
  have pt: "(pr, pc) \<in> set (trail mp)" using p i trackedD(7) [OF D(1)] by (metis nth_mem)
  obtain q m where q: "maze_candidate R n mp pr pc = Some (q, m)"
    "cand_ok mp (pr, pc) {x. adjacent (pr, pc) x} q" using maze_candidate_ok [OF D(1)] by blast
  obtain cr cc where qq: "q = (cr, cc)" by (cases q)
  show ?case
  proof (cases "cr = - 1")
    case True
    have "set vs \<subseteq> {..<vi mp}" using Cons.prems by simp
    then obtain x n' where "maze_boundary_loop R m mp vs = Some (x, n')"
      "case x of None \<Rightarrow> no_boundary mp (set vs) | Some y \<Rightarrow> advanced mp s y"
      using Cons.IH [of m] by blast
    moreover have "no_boundary mp {i}" using q(2) True qq p by (simp add: no_boundary_def cand_ok_def)
    then have "no_boundary mp (set (i # vs))" if "no_boundary mp (set vs)"
      using that by (simp add: no_boundary_def)
    ultimately show ?thesis using v q(1) qq True by (auto split: option.splits)
  next
    case False
    then have c: "adjacent (pr, pc) (cr, cc)" "exists_at mp (cr, cc)" "(cr, cc) \<notin> set (trail mp)"
      using q(2) qq by (simp_all add: cand_ok_def)
    obtain m1 m2 par' where b: "maze_remove_wall mp pr pc cr cc = Some m1"
      "maze_visit_cell m1 cr cc (of_nat (dst (cell_at mp (pr, pc))) + 1) = Some m2"
      "at_end m2 s par' (pr, pc) (cr, cc)" "nrows m2 = nrows mp" "ncols m2 = ncols mp" "vi m2 = Suc (vi mp)"
      using boundary_step [OF S pt c] by blast
    have "exists_at mp (pr, pc)" using pt trackedD(5) [OF D(1)] by simp
    then have "maze_boundary_loop R n mp (i # vs) = Some (Some (m2\<lparr>lastvi := int i\<rparr>, pr, pc, cr, cc), m)"
      using v q(1) qq False b(1,2) by (simp add: get_distance)
    moreover have "advanced mp s (m2\<lparr>lastvi := int i\<rparr>, pr, pc, cr, cc)"
      using b(3-6) c(1) i by (auto simp: advanced_def)
    ultimately show ?thesis by auto
  qed
qed

definition lastvi_ok :: "maze \<Rightarrow> bool" where
  "lastvi_ok mp \<longleftrightarrow> lastvi mp = - 1 \<or> (0 \<le> lastvi mp \<and> lastvi mp < int (vi mp))"

lemma drandom_index:
  assumes "R n < 2 ^ 31" and "0 < k"
  shows "nat \<lfloor>drandom R n * of_nat k\<rfloor> < k"
proof -
  have "drandom R n < 1" using assms(1) by (simp add: drandom_def)
  then have "drandom R n * of_nat k < 1 * of_nat k" using assms(2) by (intro mult_strict_right_mono) simp_all
  then have "\<lfloor>drandom R n * of_nat k\<rfloor> < int k" by (simp add: floor_less_iff)
  then show ?thesis using assms(2) by linarith
qed

lemma boundary_start_less:
  assumes R: "\<And>n. R n < 2 ^ 31" and v: "0 < vi mp" and l: "lastvi_ok mp"
  shows "fst (boundary_start R n mp) < vi mp"
  using drandom_index [where R = R, OF R [of n] v] drandom_index [where R = R, OF R [of "n + 1"] v] l v
  by (auto simp: boundary_start_def lastvi_ok_def)

lemma find_boundary:
  assumes S: "spanned mp s par" and R: "\<And>n. R n < 2 ^ 31" and l: "lastvi_ok mp"
  shows "\<exists>x n'. maze_find_boundary R n mp = Some (x, n') \<and>
    (case x of None \<Rightarrow> no_boundary mp {..<vi mp} | Some y \<Rightarrow> advanced mp s y)"
proof -
  obtain i m where i: "boundary_start R n mp = (i, m)" by (cases "boundary_start R n mp")
  have "0 < vi mp" using spannedD(3) [OF S] by (cases "vi mp") (auto simp: trail_def)
  then have "i < vi mp" using boundary_start_less [of R mp n] R l i by simp
  then have e: "set ([i..<vi mp] @ [0..<i]) = {..<vi mp}" by auto
  show ?thesis using boundary_loop [OF S, of "[i..<vi mp] @ [0..<i]" R m] i
    unfolding e by (simp add: maze_find_boundary_def)
qed

lemma create_from:
  "spanned mp s par \<Longrightarrow> lastvi_ok mp \<Longrightarrow> (\<And>n. R n < 2 ^ 31) \<Longrightarrow>
   \<exists>mp' n' par'. maze_create_from R n mp = Some (mp', n') \<and> spanned mp' s par' \<and>
     no_boundary mp' {..<vi mp'} \<and> nrows mp' = nrows mp \<and> ncols mp' = ncols mp"
proof (induction R n mp arbitrary: par rule: maze_create_from.induct)
  case (1 R n mp)
  obtain x m where f: "maze_find_boundary R n mp = Some (x, m)"
    "case x of None \<Rightarrow> no_boundary mp {..<vi mp} | Some y \<Rightarrow> advanced mp s y"
    using find_boundary [of mp s par R n] 1(2-4) by blast
  show ?case
  proof (cases x)
    case None
    then show ?thesis using f 1(2) by (auto simp: maze_create_from.simps)
  next
    case (Some y)
    obtain m1 pr pc cr cc where y: "y = (m1, pr, pc, cr, cc)" by (metis surj_pair)
    have "advanced mp s (m1, pr, pc, cr, cc)" using f(2) Some y by simp
    then obtain par1 where A: "at_end m1 s par1 (pr, pc) (cr, cc)" "adjacent (pr, pc) (cr, cc)"
      "nrows m1 = nrows mp" "ncols m1 = ncols mp" "vi m1 = Suc (vi mp)" "0 \<le> lastvi m1" "lastvi m1 < int (vi mp)"
      by (auto simp: advanced_def)
    obtain m2 n2 par2 where B: "maze_construct_segment R m m1 pr pc cr cc = Some (m2, n2)"
      "spanned m2 s par2" "grows m1 m2" using construct_segment [OF A(1,2)] by blast
    have l2: "lastvi_ok m2" using A(5-7) B(3) by (simp add: grows_def lastvi_ok_def)
    have f1: "maze_find_boundary R n mp = Some (Some (m1, pr, pc, cr, cc), m)" using f(1) Some y by simp
    obtain mp' n' par' where C: "maze_create_from R n2 m2 = Some (mp', n')" "spanned mp' s par'"
      "no_boundary mp' {..<vi mp'}" "nrows mp' = nrows m2" "ncols mp' = ncols m2"
      using 1(1) [OF f1 refl refl refl refl refl refl B(1) refl B(2) l2 1(4)] by blast
    show ?thesis
      using f1 B(1,3) C A(3,4) by (auto simp: maze_create_from.simps grows_def)
  qed
qed

end
