(* ===== verification/Maze_Main.thy ===== *)
theory Maze_Main
  imports Maze_Span
begin

text \<open>
  The maze program as a whole (SMPdesign/maze/maze.c): every maze \<open>maze_create\<close> makes can be
  solved between any two cells, and \<open>maze_wall_in\<close> cuts a cell off.
\<close>

declare split_paired_All [simp del] split_paired_Ex [simp del]

section \<open>The grid is connected\<close>

lemma closer_neighbour:
  assumes "exists_at mp p" "exists_at mp q" "p \<noteq> q"
  shows "\<exists>x. adjacent x q \<and> exists_at mp x \<and>
    nat (\<bar>fst x - fst p\<bar> + \<bar>snd x - snd p\<bar>) < nat (\<bar>fst q - fst p\<bar> + \<bar>snd q - snd p\<bar>)"
proof -
  obtain r c where q: "q = (r, c)" by (cases q)
  obtain r0 c0 where p: "p = (r0, c0)" by (cases p)
  consider "r < r0" | "r0 < r" | "r = r0" "c < c0" | "r = r0" "c0 < c" using assms(3) p q by force
  then show ?thesis
  proof cases
    case 1
    then show ?thesis using assms(1,2) p q
      by (intro exI [of _ "(r + 1, c)"]) (auto simp: adjacent_def exists_at_def maze_cell_exists_def)
  next
    case 2
    then show ?thesis using assms(1,2) p q
      by (intro exI [of _ "(r - 1, c)"]) (auto simp: adjacent_def exists_at_def maze_cell_exists_def)
  next
    case 3
    then show ?thesis using assms(1,2) p q
      by (intro exI [of _ "(r, c + 1)"]) (auto simp: adjacent_def exists_at_def maze_cell_exists_def)
  next
    case 4
    then show ?thesis using assms(1,2) p q
      by (intro exI [of _ "(r, c - 1)"]) (auto simp: adjacent_def exists_at_def maze_cell_exists_def)
  qed
qed

lemma grid_connected:
  assumes p: "p \<in> S" "exists_at mp p"
    and closed: "\<And>x y. x \<in> S \<Longrightarrow> adjacent x y \<Longrightarrow> exists_at mp y \<Longrightarrow> y \<in> S"
  shows "exists_at mp q \<Longrightarrow> q \<in> S"
proof (induction "nat (\<bar>fst q - fst p\<bar> + \<bar>snd q - snd p\<bar>)" arbitrary: q rule: less_induct)
  case less
  show ?case
  proof (cases "p = q")
    case False
    then obtain x where "adjacent x q" "exists_at mp x"
      "nat (\<bar>fst x - fst p\<bar> + \<bar>snd x - snd p\<bar>) < nat (\<bar>fst q - fst p\<bar> + \<bar>snd q - snd p\<bar>)"
      using closer_neighbour [OF p(2) less.prems] by blast
    then show ?thesis using less.hyps closed less.prems by blast
  qed (use p in simp)
qed

text \<open>When no boundary is left, every cell is visited.\<close>

lemma no_boundary_all:
  assumes t: "tracked mp" and s: "s \<in> set (trail mp)" and n: "no_boundary mp {..<vi mp}"
  shows "exists_at mp q \<Longrightarrow> q \<in> set (trail mp)" and "vi mp = ncells mp"
proof -
  note T = trackedD [OF t]
  have closed: "y \<in> set (trail mp)" if xy: "x \<in> set (trail mp)" "adjacent x y" "exists_at mp y" for x y
  proof -
    obtain i where i: "i < vi mp" "x = trail mp ! i"
      using xy(1) T(7) by (auto simp: in_set_conv_nth)
    have "\<forall>z. adjacent x z \<longrightarrow> exists_at mp z \<longrightarrow> z \<in> set (trail mp)"
      using n i unfolding no_boundary_def by simp
    then show ?thesis using xy(2,3) by blast
  qed
  have all: "q \<in> set (trail mp)" if "exists_at mp q" for q
  proof -
    have "exists_at mp s" using s T(5) [of s] by simp
    then show ?thesis using closed that by (rule grid_connected [OF s])
  qed
  then show "exists_at mp q \<Longrightarrow> q \<in> set (trail mp)" .
  have "set (trail mp) = {q. exists_at mp q}" using all T(5) by blast
  then show "vi mp = ncells mp" using cells_card(2) [OF T(2)] distinct_card [OF T(4)] T(7) by simp
qed

section \<open>The empty maze\<close>

lemma set_cells_total:
  "shaped mp \<Longrightarrow> list_all (\<lambda>x. exists_at mp (fst x, fst (snd x))) xs \<Longrightarrow>
   \<exists>mp'. maze_set_cells mp xs = Some mp' \<and> shaped mp' \<and> nrows mp' = nrows mp \<and> ncols mp' = ncols mp \<and>
     vi mp' = vi mp \<and> lastvi mp' = lastvi mp \<and> visited mp' = visited mp"
proof (induction mp xs rule: maze_set_cells.induct)
  case (2 mp row col val xs)
  let ?m = "upd mp (row, col) val"
  have e: "exists_at mp (row, col)" using 2(3) by simp
  have s: "maze_set_cell mp row col val = Some ?m" using e by (simp add: set_cell)
  have "shaped ?m" "list_all (\<lambda>x. exists_at ?m (fst x, fst (snd x))) xs" using 2(2,3) by simp_all
  then show ?case using 2(1) [OF s] s by simp
qed simp

lemma set_cells_at:
  "maze_set_cells mp xs = Some mp' \<Longrightarrow> shaped mp \<Longrightarrow> exists_at mp p \<Longrightarrow>
   (fst p, snd p, cell_at mp' p) \<in> set xs \<or>
   (\<forall>v. (fst p, snd p, v) \<notin> set xs) \<and> cell_at mp' p = cell_at mp p"
proof (induction mp xs rule: maze_set_cells.induct)
  case (2 mp row col val xs)
  let ?m = "upd mp (row, col) val"
  have e: "exists_at mp (row, col)" and s: "maze_set_cell mp row col val = Some ?m"
    and m: "maze_set_cells ?m xs = Some mp'"
    using 2(2) by (auto simp: set_cell split: if_splits)
  have "(fst p, snd p, cell_at mp' p) \<in> set xs \<or>
    (\<forall>v. (fst p, snd p, v) \<notin> set xs) \<and> cell_at mp' p = cell_at ?m p"
    using 2(1) [OF s m] 2(3,4) by simp
  then show ?case using cell_at_upd [OF 2(3) e 2(4), of val] by (cases "p = (row, col)") auto
qed simp

text \<open>A value written at the border is harmless if its walls face the outside.\<close>

definition outer :: "int \<Rightarrow> int \<Rightarrow> int \<times> int \<times> cell_t \<Rightarrow> bool" where
  "outer rows cols x \<longleftrightarrow> (case x of (r, c, v) \<Rightarrow> 0 \<le> r \<and> r < rows \<and> 0 \<le> c \<and> c < cols \<and>
     (\<forall>n. bit v n \<longrightarrow> n = 31 \<and> r = 0 \<or> n = 30 \<and> r = rows - 1 \<or> n = 29 \<and> c = cols - 1 \<or> n = 28 \<and> c = 0))"

lemma in_border:
  "(r, c, v) \<in> set (border rows cols) \<longleftrightarrow>
     r = 0 \<and> c = 0 \<and> v = WALL_UP OR WALL_LEFT \<or> r = rows - 1 \<and> c = 0 \<and> v = WALL_DOWN OR WALL_LEFT \<or>
     r = 0 \<and> c = cols - 1 \<and> v = WALL_UP OR WALL_RIGHT \<or>
     r = rows - 1 \<and> c = cols - 1 \<and> v = WALL_DOWN OR WALL_RIGHT \<or>
     1 \<le> r \<and> r \<le> rows - 2 \<and> (c = 0 \<and> v = WALL_LEFT \<or> c = cols - 1 \<and> v = WALL_RIGHT \<or>
       1 \<le> c \<and> c \<le> cols - 2 \<and> v = 0) \<or>
     1 \<le> c \<and> c \<le> cols - 2 \<and> (r = 0 \<and> v = WALL_UP \<or> r = rows - 1 \<and> v = WALL_DOWN)"
proof -
  have "(r, c, v) \<in> set (border rows cols) \<longleftrightarrow>
     (r = 0 \<and> c = 0 \<and> v = WALL_UP OR WALL_LEFT \<or> r = rows - 1 \<and> c = 0 \<and> v = WALL_DOWN OR WALL_LEFT \<or>
      r = 0 \<and> c = cols - 1 \<and> v = WALL_UP OR WALL_RIGHT \<or>
      r = rows - 1 \<and> c = cols - 1 \<and> v = WALL_DOWN OR WALL_RIGHT) \<or>
     (\<exists>x \<in> {1..rows - 2}. (r = x \<and> c = 0 \<and> v = WALL_LEFT \<or> r = x \<and> c = cols - 1 \<and> v = WALL_RIGHT) \<or>
        r = x \<and> (\<exists>x \<in> {1..cols - 2}. c = x) \<and> v = 0) \<or>
     (\<exists>x \<in> {1..cols - 2}. r = 0 \<and> c = x \<and> v = WALL_UP \<or> r = rows - 1 \<and> c = x \<and> v = WALL_DOWN)"
    by (simp only: border_def set_append set_concat set_map Un_iff UN_iff image_iff set_upto
        list.set insert_iff empty_iff prod.inject bex_simps simp_thms)
  moreover have "(\<exists>x \<in> {1..rows - 2}. (r = x \<and> A \<or> r = x \<and> B) \<or> r = x \<and> C \<and> D) \<longleftrightarrow>
      1 \<le> r \<and> r \<le> rows - 2 \<and> (A \<or> B \<or> C \<and> D)" for A B C D by auto
  moreover have "(\<exists>x \<in> {1..cols - 2}. A \<and> c = x \<and> B \<or> C \<and> c = x \<and> D) \<longleftrightarrow>
      1 \<le> c \<and> c \<le> cols - 2 \<and> (A \<and> B \<or> C \<and> D)" for A B C D by auto
  moreover have "(\<exists>x \<in> {1..cols - 2}. c = x) \<longleftrightarrow> 1 \<le> c \<and> c \<le> cols - 2" by auto
  ultimately show ?thesis by (simp only: disj_assoc conj_assoc)
qed

lemma border_outer:
  assumes "0 < rows" "0 < cols" "x \<in> set (border rows cols)"
  shows "outer rows cols x"
proof -
  obtain r c v where x: "x = (r, c, v)" by (metis surj_pair)
  show ?thesis using assms unfolding x in_border outer_def
    by (elim disjE conjE) (auto simp: bit_or_iff)
qed

lemma border_covers:
  assumes "0 \<le> r" "r < rows" "0 \<le> c" "c < cols"
  shows "\<exists>v. (r, c, v) \<in> set (border rows cols)"
proof -
  have c: "c = 0 \<or> c = cols - 1 \<or> 1 \<le> c \<and> c \<le> cols - 2" using assms by linarith
  have r: "r = 0 \<or> r = rows - 1 \<or> 1 \<le> r \<and> r \<le> rows - 2" using assms by linarith
  from r c show ?thesis unfolding in_border by (elim disjE) blast+
qed

lemma new_empty:
  assumes g: "length (fst g) = nat (rows * cols)" "length (snd g) = nat (rows * cols)"
    and d: "0 < rows" "0 < cols" "rows * cols < 2 ^ 26"
  shows "\<exists>mp. new_empty_maze g rows cols sf sb rv = Some mp \<and> fresh mp \<and> nrows mp = rows \<and> ncols mp = cols \<and>
    lastvi mp = - 1"
proof -
  obtain w0 w1 where w: "maze_set_seg_weights cols sf sb = Some w0" "maze_set_seg_weights rows sf sb = Some w1"
    using d by (simp add: maze_set_seg_weights_def Let_def)
  let ?m = "\<lparr>nrows = rows, ncols = cols, weights = (w0, w1), visited = snd g, vi = 0, lastvi = - 1,
    revisit = rv, cell = fst g\<rparr>"
  have "nat (rows * cols) < 2 ^ 26" using d by simp
  then have s: "shaped ?m" using g by (simp add: shaped_def ncells_def)
  have ex: "exists_at ?m p \<longleftrightarrow> 0 \<le> fst p \<and> fst p < rows \<and> 0 \<le> snd p \<and> snd p < cols" for p
    by (auto simp: exists_at_def maze_cell_exists_def)
  have "list_all (\<lambda>x. exists_at ?m (fst x, fst (snd x))) (border rows cols)"
    using border_outer [OF d(1,2)] by (fastforce simp: ex outer_def list_all_iff)
  from set_cells_total [OF s this] obtain mp where m: "maze_set_cells ?m (border rows cols) = Some mp" "shaped mp"
    "nrows mp = rows" "ncols mp = cols" "vi mp = 0" "lastvi mp = - 1" by auto
  have ex': "exists_at mp p \<longleftrightarrow> 0 \<le> fst p \<and> fst p < rows \<and> 0 \<le> snd p \<and> snd p < cols" for p
    using m(3,4) by (auto simp: exists_at_def maze_cell_exists_def)
  have o: "outer rows cols (fst p, snd p, cell_at mp p)" if "exists_at mp p" for p
  proof -
    have p: "0 \<le> fst p" "fst p < rows" "0 \<le> snd p" "snd p < cols" using that ex' by simp_all
    then have "exists_at ?m p" using ex by simp
    then have "(fst p, snd p, cell_at mp p) \<in> set (border rows cols)"
      using set_cells_at [OF m(1) s] border_covers [OF p] by blast
    then show ?thesis by (rule border_outer [OF d(1,2)])
  qed
  then have b: "\<not> bit (cell_at mp p) n" if "exists_at mp p" "n < 28" for p n
    using o [OF that(1)] that(2) by (auto simp: outer_def)
  have "cell_at mp p AND COOKIE = 0" if "exists_at mp p" for p
    by (rule bit_word_eqI) (use b [OF that] in \<open>auto simp: bit_and_iff\<close>)
  then have parts: "\<not> vis (cell_at mp p) \<and> \<not> sol (cell_at mp p) \<and> dst (cell_at mp p) = 0"
    if "exists_at mp p" for p
    using b [OF that] that by (simp add: vis_def sol_def dst_def)
  have "conn mp p q" if "adjacent p q" "exists_at mp p" "exists_at mp q" for p q
    using o [OF that(2)] that unfolding conn_def wall_def outer_def ex' dirbit_def
    by (auto simp: adjacent_def split: if_splits)
  then have "sym_walls mp" unfolding sym_walls_def using adjacent_sym by (auto simp: conn_def)
  then show ?thesis using m(1-6) parts d(1) w by (auto simp: new_empty_maze_def fresh_def)
qed

section \<open>Unvisiting\<close>

definition blank :: "cell_t \<Rightarrow> bool" where
  "blank w \<longleftrightarrow> \<not> vis w \<and> \<not> sol w \<and> dst w = 0"

definition unvis :: "cell_t \<Rightarrow> cell_t" where
  "unvis w = ((w AND NOT (VISITED OR SOLUTION OR COOKIE)) AND NOT COOKIE) OR 0"

lemma bit_unvis: "bit (unvis w) n \<longleftrightarrow> bit w n \<and> 28 \<le> n"
  using bit_imp_le_length [of w n]
  by (auto simp: unvis_def bit_and_iff bit_not_iff bit_or_iff)

lemma blank_unvis: "blank (unvis w)"
proof -
  have "unvis w AND COOKIE = 0" by (rule bit_word_eqI) (simp add: bit_and_iff bit_unvis)
  then show ?thesis by (simp add: blank_def vis_def sol_def dst_def bit_unvis)
qed

definition unvisits :: "maze \<Rightarrow> (int \<times> int) set \<Rightarrow> maze \<Rightarrow> bool" where
  "unvisits mp S mp' \<longleftrightarrow> nrows mp' = nrows mp \<and> ncols mp' = ncols mp \<and> shaped mp' \<and>
     (\<forall>q. exists_at mp q \<longrightarrow> (q \<in> S \<or> blank (cell_at mp q) \<longrightarrow> blank (cell_at mp' q)) \<and>
        (\<forall>n \<ge> 28. bit (cell_at mp' q) n = bit (cell_at mp q) n))"

lemma unvisits_exists: "unvisits mp S mp' \<Longrightarrow> exists_at mp' = exists_at mp"
  by (simp add: unvisits_def exists_at_def maze_cell_exists_def fun_eq_iff)

lemma unvisits_insert:
  assumes "unvisits mp {p} m1" "unvisits m1 S m2"
  shows "unvisits mp (insert p S) m2"
  using assms unvisits_exists [OF assms(1)] unfolding unvisits_def by auto

lemma unvisit_cell:
  assumes s: "shaped mp" and e: "exists_at mp (i, j)"
  shows "\<exists>mp'. maze_unvisit_cell mp i j = Some mp' \<and> unvisits mp {(i, j)} mp'"
proof -
  let ?p = "(i, j)"
  let ?w = "cell_at mp ?p AND NOT (VISITED OR SOLUTION OR COOKIE)"
  let ?m = "upd mp ?p ?w" and ?v = "unvis (cell_at mp ?p)"
  have w: "cell_at ?m ?p = ?w" using cell_at_upd [OF s e e] by simp
  have r: "maze_unvisit_cell mp i j = Some (upd ?m ?p ?v)"
    unfolding maze_unvisit_cell_def maze_set_cell_distance_def Let_def
    using e w by (simp add: get_cell set_cell unvis_def)
  have "cell_at (upd ?m ?p ?v) q = (if q = ?p then ?v else cell_at mp q)" if "exists_at mp q" for q
    using cell_at_upd [of ?m ?p q ?v] cell_at_upd [OF s e that] s e that by simp
  then have "unvisits mp {?p} (upd ?m ?p ?v)"
    using s by (simp add: unvisits_def blank_unvis bit_unvis)
  then show ?thesis using r by blast
qed

lemma unvisit_cells:
  "shaped mp \<Longrightarrow> list_all (exists_at mp) xs \<Longrightarrow>
   \<exists>mp'. maze_unvisit_cells mp xs = Some mp' \<and> unvisits mp (set xs) mp'"
proof (induction mp xs rule: maze_unvisit_cells.induct)
  case (1 mp)
  then show ?case by (simp add: unvisits_def)
next
  case (2 mp i j xs)
  obtain m1 where m1: "maze_unvisit_cell mp i j = Some m1" "unvisits mp {(i, j)} m1"
    using unvisit_cell [OF 2(2), of i j] 2(3) by auto
  have "shaped m1" using m1(2) by (simp add: unvisits_def)
  moreover have "list_all (exists_at m1) xs" using 2(3) unvisits_exists [OF m1(2)] by simp
  ultimately obtain m2 where "maze_unvisit_cells m1 xs = Some m2" "unvisits m1 (set xs) m2"
    using 2(1) [OF m1(1)] by blast
  then show ?case using m1 unvisits_insert [OF m1(2)] by auto
qed

lemma unvisit_all:
  assumes s: "shaped mp" and n: "0 < nrows mp" and y: "sym_walls mp"
  shows "\<exists>mp'. maze_unvisit_all mp = Some mp' \<and> fresh mp' \<and> conn mp' = conn mp \<and>
    nrows mp' = nrows mp \<and> ncols mp' = ncols mp"
proof -
  let ?xs = "concat (map (\<lambda>i. map (\<lambda>j. (i, j)) [0..ncols mp - 1]) [0..nrows mp - 1])"
  have xs: "q \<in> set ?xs \<longleftrightarrow> exists_at mp q" for q
    by (cases q) (simp add: exists_at_def maze_cell_exists_def image_iff conj_ac)
  then obtain m1 where m1: "maze_unvisit_cells mp ?xs = Some m1" "unvisits mp (set ?xs) m1"
    using unvisit_cells [OF s, of ?xs] by (auto simp: list_all_iff)
  let ?m = "m1\<lparr>vi := 0\<rparr>"
  note e = unvisits_exists [OF m1(2)]
  have x: "exists_at ?m = exists_at mp" "cell_at ?m = cell_at m1"
    using e by (simp_all add: exists_at_def maze_cell_exists_def cell_at_def ix_def fun_eq_iff)
  have "bit (cell_at m1 p) (dirbit p q) = bit (cell_at mp p) (dirbit p q)" if "exists_at mp p" for p q
    using m1(2) that dirbit_range [of p q] by (auto simp: unvisits_def)
  then have c: "conn ?m = conn mp" by (auto simp: conn_def x wall_def fun_eq_iff)
  have b: "blank (cell_at m1 p)" if "exists_at mp p" for p
    using m1(2) that xs by (simp add: unvisits_def)
  have f: "shaped m1" "nrows m1 = nrows mp" "ncols m1 = ncols mp" using m1(2) unfolding unvisits_def by blast+
  have "shaped ?m" "nrows ?m = nrows mp" "ncols ?m = ncols mp"
    using f by (simp_all add: shaped_def ncells_def)
  then have "fresh ?m" using b n y by (simp add: fresh_def x c sym_walls_def blank_def)
  moreover have "maze_unvisit_all mp = Some ?m" using m1(1) by (simp add: maze_unvisit_all_def)
  ultimately show ?thesis using c m1(2) by (auto simp: unvisits_def)
qed

section \<open>The created maze\<close>

lemma first_visit:
  assumes f: "fresh mp" and e: "exists_at mp p"
  shows "\<exists>m1. maze_visit_cell mp (fst p) (snd p) 1 = Some m1 \<and> spanned m1 p par \<and> trail m1 = [p] \<and>
    nrows m1 = nrows mp \<and> ncols m1 = ncols mp \<and> lastvi m1 = lastvi mp"
proof -
  have t: "tracked mp" and tr: "trail mp = []" using f by (auto simp: fresh_def tracked_def trail_def)
  note V = tracked_visit [OF t e, unfolded tr, of 1, simplified]
  have "sym_walls (visit mp p 1)" using f V(5) by (simp add: fresh_def sym_walls_def)
  then have "spanned (visit mp p 1) p par" using V(2,3) by (simp add: spanned_def)
  then show ?thesis using V(1,3) by (intro exI [of _ "visit mp p 1"]) simp
qed

definition connected_maze :: "maze \<Rightarrow> bool" where
  "connected_maze mp \<longleftrightarrow> (\<forall>p q. exists_at mp p \<longrightarrow> exists_at mp q \<longrightarrow> (conn mp)\<^sup>*\<^sup>* p q)"

lemma conn_back:
  assumes y: "sym_walls mp" and r: "(conn mp)\<^sup>*\<^sup>* p q"
  shows "(conn mp)\<^sup>*\<^sup>* q p"
  using r
proof (induction rule: rtranclp_induct)
  case (step x z)
  then have "conn mp z x" using y by (simp add: sym_walls_def)
  then show ?case using step.IH by (rule converse_rtranclp_into_rtranclp)
qed simp

lemma connected_mazeI:
  assumes "sym_walls mp" "\<And>q. exists_at mp q \<Longrightarrow> (conn mp)\<^sup>*\<^sup>* s q"
  shows "connected_maze mp"
  unfolding connected_maze_def using assms conn_back rtranclp_trans by metis

lemma create_connected:
  assumes g: "length (fst g) = nat (rows * cols)" "length (snd g) = nat (rows * cols)"
    and d: "0 < rows" "0 < cols" "rows * cols < 2 ^ 26"
    and s: "0 \<le> sr" "sr < rows" "0 \<le> sc" "sc < cols" and R: "\<And>n. R n < 2 ^ 31"
  shows "\<exists>mp n'. maze_create R n g rows cols sr sc sf sb rv = Some (mp, n') \<and> fresh mp \<and>
    connected_maze mp \<and> nrows mp = rows \<and> ncols mp = cols"
proof -
  obtain m0 where m0: "new_empty_maze g rows cols sf sb rv = Some m0" "fresh m0" "nrows m0 = rows"
    "ncols m0 = cols" "lastvi m0 = - 1" using new_empty [OF g d, of sf sb rv] by blast
  have "exists_at m0 (sr, sc)" using s m0(3,4) by (simp add: exists_at_def maze_cell_exists_def)
  from first_visit [OF m0(2) this, of id] m0(3-5) obtain m1 where m1: "maze_visit_cell m0 sr sc 1 = Some m1"
    "spanned m1 (sr, sc) id" "trail m1 = [(sr, sc)]" "nrows m1 = rows" "ncols m1 = cols" "lastvi m1 = - 1"
    by auto
  obtain m2 n2 par2 where m2: "maze_construct_segment R n m1 sr sc sr sc = Some (m2, n2)"
    "spanned m2 (sr, sc) par2" "grows m1 m2" using construct_first_segment [OF m1(2,3), of R n] by blast
  have k2: "nrows m2 = rows" "ncols m2 = cols" "lastvi_ok m2"
    using m2(3) m1(4-6) by (simp_all add: grows_def lastvi_ok_def)
  obtain m3 n3 par3 where m3: "maze_create_from R n2 m2 = Some (m3, n3)" "spanned m3 (sr, sc) par3"
    "no_boundary m3 {..<vi m3}" "nrows m3 = rows" "ncols m3 = cols"
    using create_from [where R = R, OF m2(2) k2(3) R] k2(1,2) by metis
  note D = spannedD [OF m3(2)]
  note all = no_boundary_all [OF D(1,3) m3(3)]
  have v: "int (vi m3) = rows * cols" using all(2) m3(4,5) d by (simp add: ncells_def)
  obtain m4 where m4: "maze_unvisit_all m3 = Some m4" "fresh m4" "conn m4 = conn m3"
    "nrows m4 = nrows m3" "ncols m4 = ncols m3"
    using unvisit_all [OF D(4) _ D(2)] m3(4) d(1) by auto
  have "exists_at m4 = exists_at m3"
    using m4(4,5) by (simp add: exists_at_def maze_cell_exists_def fun_eq_iff)
  then have "connected_maze m4"
    using spanned_reach [OF m3(2)] all(1) m4(2,3) by (intro connected_mazeI [of _ "(sr, sc)"]) (simp_all add: fresh_def)
  moreover have "maze_create R n g rows cols sr sc sf sb rv = Some (m4, n3)"
    using m0(1) m1(1) m2(1) m3(1,4,5) v m4(1) by (simp add: maze_create_def)
  ultimately show ?thesis using m4 m3(4,5) by auto
qed

section \<open>Walling a cell in\<close>

lemma edge_sym: "edge x y p q \<longleftrightarrow> edge y x p q"
  by (auto simp: edge_def)

definition walled :: "maze \<Rightarrow> (int \<times> int) set \<Rightarrow> int \<times> int \<Rightarrow> maze \<Rightarrow> bool" where
  "walled mp W p mp' \<longleftrightarrow> same_cells mp mp' \<and> sym_walls mp' \<and>
     (\<forall>x y. conn mp' x y \<longleftrightarrow> conn mp x y \<and> (\<forall>w \<in> W. \<not> edge x y w p))"

lemma walled_trans: "walled mp W p m1 \<Longrightarrow> walled m1 V p m2 \<Longrightarrow> walled mp (W \<union> V) p m2"
  using same_cells_trans unfolding walled_def by blast

lemma side_walled:
  assumes s: "shaped mp" and y: "sym_walls mp" and e: "exists_at mp (r, c)" and ad: "adjacent (r', c') (r, c)"
  shows "\<exists>mp'. wall_in_side r c r' c' mp = Some mp' \<and> walled mp {(r', c')} (r, c) mp'"
proof -
  have cc: "maze_cells_connected mp r c r' c' = Some (conn mp (r, c) (r', c'))"
    using cells_connected ad adjacent_sym by blast
  show ?thesis
  proof (cases "conn mp (r, c) (r', c')")
    case True
    obtain m where m: "maze_build_one_cell_wall mp r' c' r c r c r c = Some m" "same_cells mp m"
      "\<forall>x y. conn m x y \<longleftrightarrow> conn mp x y \<and> ((r', c') \<in> {(r, c), (r, c)} \<or> \<not> edge x y (r', c') (r, c))"
      using build_one_cell_wall [OF s e ad, of r c r c] by blast
    then have k: "\<forall>x y. conn m x y \<longleftrightarrow> conn mp x y \<and> \<not> edge x y (r', c') (r, c)"
      using adjacent_neq [OF ad] by auto
    then have "sym_walls m" using y edge_sym by (simp add: sym_walls_def)
    then show ?thesis using True m(1,2) k cc by (simp add: wall_in_side_def walled_def)
  next
    case False
    then have "\<not> conn mp (r', c') (r, c)" using y by (auto simp: sym_walls_def)
    then have "walled mp {(r', c')} (r, c) mp"
      using False y same_cells_refl [OF s] by (auto simp: walled_def edge_def)
    then show ?thesis using False cc by (simp add: wall_in_side_def)
  qed
qed

lemma wall_in:
  assumes s: "shaped mp" and y: "sym_walls mp" and e: "exists_at mp (r, c)"
  shows "\<exists>mp'. maze_wall_in mp r c = Some (mp', True) \<and> walled mp {p. adjacent p (r, c)} (r, c) mp'"
proof -
  let ?p = "(r, c)"
  have ad: "adjacent (r - 1, c) ?p" "adjacent (r + 1, c) ?p" "adjacent (r, c - 1) ?p" "adjacent (r, c + 1) ?p"
    by (simp_all add: adjacent_def)
  have step: "\<exists>m2. wall_in_side r c r' c' m1 = Some m2 \<and> walled mp (W \<union> {(r', c')}) ?p m2"
    if w: "walled mp W ?p m1" and ad: "adjacent (r', c') ?p" for W m1 r' c'
  proof -
    have "shaped m1" "sym_walls m1" "exists_at m1 ?p"
      using w e same_cellsD [of mp m1] by (auto simp: walled_def)
    then show ?thesis using side_walled [OF _ _ _ ad] walled_trans [OF w] by blast
  qed
  have w0: "walled mp {} ?p mp" using same_cells_refl [OF s] y by (simp add: walled_def)
  from step [OF w0 ad(1)] obtain m1 where m1: "wall_in_side r c (r - 1) c mp = Some m1"
    "walled mp ({} \<union> {(r - 1, c)}) ?p m1" by blast
  from step [OF m1(2) ad(2)] obtain m2 where m2: "wall_in_side r c (r + 1) c m1 = Some m2"
    "walled mp ({} \<union> {(r - 1, c)} \<union> {(r + 1, c)}) ?p m2" by blast
  from step [OF m2(2) ad(3)] obtain m3 where m3: "wall_in_side r c r (c - 1) m2 = Some m3"
    "walled mp ({} \<union> {(r - 1, c)} \<union> {(r + 1, c)} \<union> {(r, c - 1)}) ?p m3" by blast
  from step [OF m3(2) ad(4)] obtain m4 where m4: "wall_in_side r c r (c + 1) m3 = Some m4"
    "walled mp ({} \<union> {(r - 1, c)} \<union> {(r + 1, c)} \<union> {(r, c - 1)} \<union> {(r, c + 1)}) ?p m4" by blast
  have "{} \<union> {(r - 1, c)} \<union> {(r + 1, c)} \<union> {(r, c - 1)} \<union> {(r, c + 1)} = {p. adjacent p ?p}"
    using adjacent_iff [of r c] adjacent_sym by auto
  then show ?thesis
    using m1(1) m2(1) m3(1) m4 e by (simp add: maze_wall_in_def exists_at_def)
qed

lemma walled_cut:
  assumes w: "walled mp {q. adjacent q p} p mp'" and r: "(conn mp')\<^sup>*\<^sup>* s p" and n: "s \<noteq> p"
  shows False
proof -
  obtain q where q: "conn mp' q p" using r n by (metis rtranclp.cases)
  then have "adjacent q p" by (simp add: conn_def)
  then show False using q w by (auto simp: walled_def edge_def)
qed

lemma walled_fresh: "fresh mp \<Longrightarrow> walled mp W p mp' \<Longrightarrow> fresh mp'"
  using same_cellsD [of mp mp'] by (auto simp: fresh_def walled_def)

section \<open>The properties\<close>

text \<open>
  C5: \<open>maze_create\<close> terminates without aborting for every start cell in the maze, all shape
  options, every sequence of \<open>random()\<close> results and whatever \<open>malloc\<close> left in the arrays. The maze
  it returns has nothing visited, every wall is seen from both of its sides, and a passage leads
  from every cell to every other.
\<close>

theorem maze_create_correct:
  assumes "length (fst g) = nat (rows * cols)" and "length (snd g) = nat (rows * cols)"
    and "0 < cols" and "rows * cols < 2 ^ 26"
    and "0 \<le> sr" and "sr < rows" and "0 \<le> sc" and "sc < cols" and "\<And>n. R n < 2 ^ 31"
  shows "\<exists>mp n'. maze_create R n g rows cols sr sc sf sb rv = Some (mp, n') \<and> fresh mp \<and>
    (\<forall>p q. exists_at mp p \<and> exists_at mp q \<longrightarrow> (conn mp)\<^sup>*\<^sup>* p q)"
proof -
  have "0 < rows" using assms(5,6) by simp
  then show ?thesis
    using create_connected [where R = R, OF assms(1,2) _ assms(3-9), of n sf sb rv]
    unfolding connected_maze_def by blast
qed

lemma maze_create_correct_witness:
  "\<exists>mp n'. maze_create (\<lambda>n. n mod 1000) 7 (replicate 6 5, replicate 6 (0, 0)) 2 3 1 2 (1 / 2) 3 (1 / 2) = Some (mp, n') \<and>
     fresh mp \<and> (\<forall>p q. exists_at mp p \<and> exists_at mp q \<longrightarrow> (conn mp)\<^sup>*\<^sup>* p q)"
proof -
  have "n mod 1000 < 2 ^ 31" for n :: nat
    using mod_less_divisor [of 1000 n] by simp
  then show ?thesis by (intro maze_create_correct) simp_all
qed

text \<open>
  A maze made by \<open>maze_create\<close> and then solved between two of its cells by \<open>maze_solve\<close> always
  has a solution: the result is the length of a path of passages between them, and exactly the
  cells of the path are marked.
\<close>

theorem maze_create_solve:
  assumes "length (fst g) = nat (rows * cols)" and "length (snd g) = nat (rows * cols)"
    and "0 < cols" and "rows * cols < 2 ^ 26" and "\<And>n. R n < 2 ^ 31"
    and "0 \<le> sr" and "sr < rows" and "0 \<le> sc" and "sc < cols"
    and "0 \<le> er" and "er < rows" and "0 \<le> ec" and "ec < cols" and "(sr, sc) \<noteq> (er, ec)"
  shows "\<exists>mp n' mp' d ps. maze_create R n g rows cols sr sc sf sb rv = Some (mp, n') \<and>
    maze_solve mp sr sc er ec = Some (mp', d) \<and> is_path mp ps (sr, sc) (er, ec) \<and>
    length ps = unat d \<and> marked mp' = set ps"
proof -
  have "0 < rows" using assms(6,7) by simp
  then obtain mp n' where m: "maze_create R n g rows cols sr sc sf sb rv = Some (mp, n')" "fresh mp"
    "connected_maze mp" "nrows mp = rows" "ncols mp = cols"
    using create_connected [where R = R, OF assms(1,2) _ assms(3,4,6-9,5), of n sf sb rv] by blast
  have e: "maze_cell_exists mp sr sc" "maze_cell_exists mp er ec"
    using assms m(4,5) by (simp_all add: maze_cell_exists_def)
  then have "(conn mp)\<^sup>*\<^sup>* (sr, sc) (er, ec)" using m(3) by (simp add: connected_maze_def exists_at_def)
  moreover obtain mp' d where s: "maze_solve mp sr sc er ec = Some (mp', d)" "solved mp (sr, sc) (er, ec) (mp', d)"
    using solve_total [OF m(2) e assms(14)] by auto
  ultimately show ?thesis using m(1) s(1) by (auto simp: solved_def split: if_splits)
qed

lemma maze_create_solve_witness:
  "\<exists>mp n' mp' d ps. maze_create (\<lambda>n. 77 * n mod 1000) 0 (replicate 4 9, replicate 4 (8, 8)) 2 2 0 1 (1 / 2) 3 (1 / 2) = Some (mp, n') \<and>
     maze_solve mp 0 1 1 0 = Some (mp', d) \<and> is_path mp ps (0, 1) (1, 0) \<and>
     length ps = unat d \<and> marked mp' = set ps"
proof -
  have "77 * n mod 1000 < 2 ^ 31" for n :: nat
    using mod_less_divisor [of 1000 "77 * n"] by simp
  then show ?thesis by (intro maze_create_solve) simp_all
qed

text \<open>
  A cell closed with \<open>maze_wall_in\<close> cannot be reached from elsewhere: \<open>maze_wall_in\<close> reports
  success, and \<open>maze_solve\<close> from any other cell terminates with 0, no solution.
\<close>

theorem maze_wall_in_no_solution:
  assumes "fresh mp" and "maze_cell_exists mp sr sc" and "maze_cell_exists mp er ec"
    and "(sr, sc) \<noteq> (er, ec)"
  shows "\<exists>mp1 mp2. maze_wall_in mp er ec = Some (mp1, True) \<and> maze_solve mp1 sr sc er ec = Some (mp2, 0)"
proof -
  have "exists_at mp (er, ec)" "shaped mp" "sym_walls mp" using assms(1,3) by (simp_all add: exists_at_def fresh_def)
  then obtain m1 where w: "maze_wall_in mp er ec = Some (m1, True)"
    "walled mp {q. adjacent q (er, ec)} (er, ec) m1" using wall_in by blast
  have x: "exists_at m1 = exists_at mp" using w(2) same_cellsD(1) by (simp add: walled_def)
  have "exists_at m1 (sr, sc)" "exists_at m1 (er, ec)"
    unfolding x using assms(2,3) by (simp_all add: exists_at_def)
  then have e: "maze_cell_exists m1 sr sc" "maze_cell_exists m1 er ec" by (simp_all add: exists_at_def)
  obtain m2 d where s: "maze_solve m1 sr sc er ec = Some (m2, d)" "solved m1 (sr, sc) (er, ec) (m2, d)"
    using solve_total [OF walled_fresh [OF assms(1) w(2)] e assms(4)] by auto
  have "d = 0"
  proof (rule ccontr)
    assume "d \<noteq> 0"
    then obtain ps where p: "is_path m1 ps (sr, sc) (er, ec)" using s(2) by (auto simp: solved_def)
    then have "(conn m1)\<^sup>*\<^sup>* (sr, sc) (er, ec)" by (rule is_path_reach)
    then show False using walled_cut [OF w(2)] assms(4) by blast
  qed
  then show ?thesis using w(1) s(1) by simp
qed

lemma maze_wall_in_no_solution_witness:
  "\<exists>mp1 mp2. maze_wall_in tiny_maze 0 1 = Some (mp1, True) \<and> maze_solve mp1 0 0 0 1 = Some (mp2, 0)"
  by (rule maze_wall_in_no_solution [OF tiny_fresh]) (simp_all add: tiny_maze_def maze_cell_exists_def)

end
