(* ===== verification/Maze_Run.thy ===== *)
theory Maze_Run
  imports Maze_Main
begin

text \<open>
  The rest of SMPdesign/maze/maze.c: mazes in files, and \<open>main\<close> after its arguments are parsed.

  A maze file has a header, the struct (without what its pointers point to) and the cells. In
  \<open>maze_binary_in\<close>, \<open>g\<close> is what \<open>malloc\<close> left in the cells and the work list; a file that ends
  early leaves it there. The option values of \<open>main\<close> are a record; printing and \<open>srandom\<close> are not
  modelled.
\<close>

declare split_paired_All [simp del] split_paired_Ex [simp del]

section \<open>Mazes in files\<close>

record maze_file =
  header :: string
  raw :: maze
  rawcells :: "cell_t list"

definition bin_file_header :: string where
  "bin_file_header = ''Maze0.1''"

definition positions :: "maze \<Rightarrow> (int \<times> int) list" where
  "positions mp = concat (map (\<lambda>i. map (\<lambda>j. (i, j)) [0..ncols mp - 1]) [0..nrows mp - 1])"

fun cells_out :: "maze \<Rightarrow> (int \<times> int) list \<Rightarrow> cell_t list option" where
  "cells_out mp [] = Some []"
| "cells_out mp ((i, j) # xs) = do { c \<leftarrow> maze_get_cell mp i j; cs \<leftarrow> cells_out mp xs; Some (c # cs) }"

text \<open>\<open>opened\<close> tells whether \<open>fopen\<close> succeeds; the result is the return value and the file written.\<close>

definition maze_binary_out :: "bool \<Rightarrow> maze \<Rightarrow> (int \<times> maze_file option) option" where
  "maze_binary_out opened mp =
     (if \<not> opened then Some (0, None)
      else do {
        cs \<leftarrow> cells_out mp (positions mp);
        Some (1, Some \<lparr>header = bin_file_header, raw = mp\<lparr>visited := [], cell := []\<rparr>, rawcells = cs\<rparr>) })"

datatype binary_in = Bad_File | Read_Maze maze

definition maze_binary_in :: "cell_t list \<times> (int \<times> int) list \<Rightarrow> maze_file option \<Rightarrow> binary_in option" where
  "maze_binary_in g fp =
     (case fp of
        None \<Rightarrow> Some Bad_File
      | Some fl \<Rightarrow>
          if header fl \<noteq> bin_file_header then Some Bad_File
          else do {
            let mp = (raw fl)\<lparr>cell := fst g, visited := snd g, vi := 0, lastvi := - 1\<rparr>;
            mp \<leftarrow> maze_set_cells mp (map (\<lambda>((i, j), c). (i, j, c)) (zip (positions mp) (rawcells fl)));
            Some (Read_Maze mp) })"

section \<open>The program\<close>

definition maze_row_col_frac :: "int \<Rightarrow> int \<Rightarrow> int \<Rightarrow> int option" where
  "maze_row_col_frac rc num den =
     (if rc \<le> 0 \<or> num < 0 \<or> den \<le> 0 then None else Some (((rc - 1) * num + den - 1) div den))"

definition frac_if_neg :: "int \<Rightarrow> int \<Rightarrow> int option" where
  "frac_if_neg rc x = (if x < 0 then maze_row_col_frac rc 1 (- x) else Some x)"

record options =
  generate :: bool
  binin :: "maze_file option option"
  rows :: int
  cols :: int
  straightfrac :: rat
  segbends :: rat
  gen_rv :: rat
  start :: "int \<times> int"
  finish :: "int \<times> int"
  wallin :: "(int \<times> int) option"
  solve :: bool
  clear :: bool

definition default_options :: options where
  "default_options = \<lparr>generate = False, binin = None, rows = 41, cols = 32, straightfrac = 1 / 5,
     segbends = 4, gen_rv = 1 / 5, start = (0, 0), finish = (- 1, - 1), wallin = None,
     solve = True, clear = False\<rparr>"

text \<open>An \<open>ABORT\<close> is \<open>None\<close>; exits through \<open>usage\<close> and \<open>exit(EXIT_FAILURE)\<close> are results.\<close>

datatype 'a outcome = Usage | Exit_Failure | Done 'a

definition main_ends ::
    "options \<Rightarrow> int \<Rightarrow> int \<Rightarrow> ((int \<times> int) \<times> (int \<times> int)) option" where
  "main_ends opt rs cs = do {
     sr \<leftarrow> frac_if_neg rs (fst (start opt));
     sc \<leftarrow> frac_if_neg cs (snd (start opt));
     er \<leftarrow> frac_if_neg rs (fst (finish opt));
     ec \<leftarrow> frac_if_neg cs (snd (finish opt));
     Some ((sr, sc), (er, ec)) }"

definition main_get_maze ::
    "(nat \<Rightarrow> nat) \<Rightarrow> cell_t list \<times> (int \<times> int) list \<Rightarrow> options \<Rightarrow>
     (maze \<times> (int \<times> int) \<times> (int \<times> int)) outcome option" where
  "main_get_maze R g opt =
     (if generate opt then do {
        (s, e) \<leftarrow> main_ends opt (rows opt) (cols opt);
        (mp, n) \<leftarrow> maze_create R 0 g (rows opt) (cols opt) (fst s) (snd s)
          (straightfrac opt) (segbends opt) (gen_rv opt);
        Some (Done (mp, s, e)) }
      else case binin opt of
        Some fp \<Rightarrow> do {
          b \<leftarrow> maze_binary_in g fp;
          (case b of
             Bad_File \<Rightarrow> Some Usage
           | Read_Maze mp \<Rightarrow> do {
               mp \<leftarrow> (if clear opt then maze_unvisit_all mp else Some mp);
               (s, e) \<leftarrow> main_ends opt (nrows mp) (ncols mp);
               Some (Done (mp, s, e)) }) }
      | None \<Rightarrow> Some Usage)"

definition main_wall_in :: "options \<Rightarrow> maze \<Rightarrow> (maze \<times> bool) option" where
  "main_wall_in opt mp =
     (case wallin opt of
        None \<Rightarrow> Some (mp, True)
      | Some (wr, wc) \<Rightarrow> do {
          wr \<leftarrow> frac_if_neg (nrows mp) wr;
          wc \<leftarrow> frac_if_neg (ncols mp) wc;
          maze_wall_in mp wr wc })"

text \<open>The result \<open>q\<close> of the solver is \<open>None\<close> when it was not asked for.\<close>

definition main_solve ::
    "options \<Rightarrow> maze \<Rightarrow> int \<times> int \<Rightarrow> int \<times> int \<Rightarrow> (maze \<times> cell_t option) outcome option" where
  "main_solve opt mp s e =
     (if \<not> solve opt then Some (Done (mp, None))
      else do {
        mp \<leftarrow> maze_unvisit_all mp;
        if \<not> maze_cell_exists mp (fst s) (snd s) then Some Exit_Failure
        else if \<not> maze_cell_exists mp (fst e) (snd e) then Some Exit_Failure
        else do {
          (mp, q) \<leftarrow> maze_solve mp (fst s) (snd s) (fst e) (snd e);
          Some (Done (mp, Some q)) } })"

definition maze_main ::
    "(nat \<Rightarrow> nat) \<Rightarrow> cell_t list \<times> (int \<times> int) list \<Rightarrow> options \<Rightarrow> (maze \<times> cell_t option) outcome option" where
  "maze_main R g opt = do {
     x \<leftarrow> main_get_maze R g opt;
     (case x of
        Usage \<Rightarrow> Some Usage
      | Exit_Failure \<Rightarrow> Some Exit_Failure
      | Done (mp, s, e) \<Rightarrow>
          if s = e then Some Usage
          else do {
            (mp, ok) \<leftarrow> main_wall_in opt mp;
            if \<not> ok then Some Usage else main_solve opt mp s e }) }"

section \<open>Lemmas\<close>

lemma positions_iff: "p \<in> set (positions mp) \<longleftrightarrow> exists_at mp p"
  by (cases p) (simp add: positions_def exists_at_def maze_cell_exists_def image_iff conj_ac)

lemma cells_out: "list_all (exists_at mp) xs \<Longrightarrow> cells_out mp xs = Some (map (cell_at mp) xs)"
  by (induction mp xs rule: cells_out.induct) (simp_all add: get_cell)

lemma div_less_bound:
  assumes "0 < d" "n < m * (d :: int)"
  shows "n div d < m"
proof -
  have "n div d * d \<le> n" using pos_mod_sign [OF assms(1), of n] div_mult_mod_eq [of n d] by linarith
  then have "n div d * d < m * d" using assms(2) by linarith
  then show ?thesis using assms(1) by simp
qed

lemma ix_surj:
  assumes "i < ncells mp" "0 < nrows mp"
  shows "\<exists>p. exists_at mp p \<and> ix mp p = i"
proof -
  have i: "int i < nrows mp * ncols mp" using assms(1) unfolding ncells_def by linarith
  then have "0 < nrows mp * ncols mp" by linarith
  then have c: "0 < ncols mp" using assms(2) by (rule zero_less_mult_pos)
  let ?p = "(int i div ncols mp, int i mod ncols mp)"
  have "int i div ncols mp < nrows mp"
    by (rule div_less_bound [OF c i])
  then have "exists_at mp ?p"
    using c by (simp add: exists_at_def maze_cell_exists_def pos_imp_zdiv_nonneg_iff)
  moreover have "ix mp ?p = i" by (simp add: ix_def)
  ultimately show ?thesis by blast
qed

lemma cells_eq:
  assumes "shaped mp" "shaped mp'" "nrows mp' = nrows mp" "ncols mp' = ncols mp" "0 < nrows mp"
    and c: "\<And>p. exists_at mp p \<Longrightarrow> cell_at mp' p = cell_at mp p"
  shows "cell mp' = cell mp"
proof (rule nth_equalityI)
  show "length (cell mp') = length (cell mp)" using assms by (simp add: shaped_def ncells_def)
  fix i
  assume "i < length (cell mp')"
  then have "i < ncells mp" using assms(1-4) by (simp add: shaped_def ncells_def)
  then obtain p where "exists_at mp p" "ix mp p = i" using ix_surj assms(5) by blast
  then show "cell mp' ! i = cell mp ! i" using c [of p] assms(3,4) by (simp add: cell_at_def ix_def)
qed

lemma set_cells_frame:
  "maze_set_cells mp xs = Some mp' \<Longrightarrow> mp' = mp\<lparr>cell := cell mp'\<rparr>"
proof (induction mp xs rule: maze_set_cells.induct)
  case (2 mp row col val xs)
  then obtain m where m: "maze_set_cell mp row col val = Some m" "maze_set_cells m xs = Some mp'"
    by (auto split: option.splits)
  then have "mp' = m\<lparr>cell := cell mp'\<rparr>" using 2(1) by blast
  moreover have "\<exists>cs. m = mp\<lparr>cell := cs\<rparr>"
    using m(1) by (auto simp: maze_set_cell_def split: Option.bind_splits)
  ultimately show ?case by auto
qed simp

lemma zip_positions:
  "map (\<lambda>((i, j), c). (i, j, c)) (zip xs (map f xs)) = map (\<lambda>p. (fst p, snd p, f p)) xs"
  by (induction xs) auto

section \<open>The properties\<close>

text \<open>
  C35: Reading back what \<open>maze_binary_out\<close> wrote gives the maze that was written: dimensions,
  weights and every cell, with its walls and marks, whatever \<open>malloc\<close> left in the new arrays. Only
  the work list is not in the file, so it is empty afterwards. When a file cannot be opened, the
  writer returns 0 without writing and the reader returns NULL.
\<close>

theorem maze_binary_roundtrip:
  assumes "shaped mp" and "0 < nrows mp"
    and "length (fst g) = ncells mp" and "length (snd g) = ncells mp"
  shows "(\<exists>fl. maze_binary_out True mp = Some (1, Some fl) \<and>
      maze_binary_in g (Some fl) = Some (Read_Maze (mp\<lparr>visited := snd g, vi := 0, lastvi := - 1\<rparr>))) \<and>
    maze_binary_out False mp = Some (0, None) \<and> maze_binary_in g None = Some Bad_File"
proof -
  let ?m = "mp\<lparr>cell := fst g, visited := snd g, vi := 0, lastvi := - 1\<rparr>"
  let ?cs = "map (\<lambda>p. (fst p, snd p, cell_at mp p)) (positions mp)"
  have o: "maze_binary_out True mp = Some (1, Some \<lparr>header = bin_file_header, raw = mp\<lparr>visited := [], cell := []\<rparr>,
      rawcells = map (cell_at mp) (positions mp)\<rparr>)" "maze_binary_out False mp = Some (0, None)"
    using cells_out [of mp "positions mp"] positions_iff by (simp_all add: maze_binary_out_def list_all_iff)
  have x: "exists_at ?m = exists_at mp" "positions ?m = positions mp"
    by (simp_all add: exists_at_def maze_cell_exists_def positions_def fun_eq_iff)
  have s: "shaped ?m" using assms by (simp add: shaped_def ncells_def)
  have "list_all (\<lambda>x. exists_at ?m (fst x, fst (snd x))) ?cs"
    using positions_iff x by (simp add: list_all_iff)
  from set_cells_total [OF s this] obtain m' where m: "maze_set_cells ?m ?cs = Some m'" "shaped m'"
    "nrows m' = nrows mp" "ncols m' = ncols mp" by auto
  have "cell_at m' p = cell_at mp p" if "exists_at mp p" for p
    using set_cells_at [OF m(1) s, of p] that positions_iff [of p mp] x by (auto simp: image_iff)
  then have "cell m' = cell mp" using cells_eq [OF assms(1) m(2-4) assms(2)] by blast
  then have "m' = mp\<lparr>visited := snd g, vi := 0, lastvi := - 1\<rparr>"
    using set_cells_frame [OF m(1)] by (cases mp) simp
  then show ?thesis using o m(1) x
    by (simp add: maze_binary_in_def Let_def zip_positions positions_def)
qed

lemma maze_binary_roundtrip_witness:
  "\<exists>fl. maze_binary_out True tiny_maze = Some (1, Some fl) \<and>
    maze_binary_in ([7, 8], [(3, 3), (4, 4)]) (Some fl) =
      Some (Read_Maze (tiny_maze\<lparr>visited := [(3, 3), (4, 4)], vi := 0, lastvi := - 1\<rparr>))"
  using maze_binary_roundtrip [of tiny_maze "([7, 8], [(3, 3), (4, 4)])"]
  by (simp add: tiny_maze_def shaped_def ncells_def)

text \<open>
  A position given on the command line as a fraction, the negative number \<open>-den\<close>, denotes the
  cell \<open>1/den\<close> of the way, and \<open>-1\<close> the last row or column: it is always in the maze, also when the
  maze is smaller than \<open>den\<close>.
\<close>

theorem maze_row_col_frac_in_range:
  assumes "0 < rc" and "0 \<le> num" and "num \<le> den" and "0 < den"
  shows "case maze_row_col_frac rc num den of None \<Rightarrow> False
    | Some x \<Rightarrow> 0 \<le> x \<and> x < rc \<and> (num = den \<longrightarrow> x = rc - 1)"
proof -
  let ?n = "(rc - 1) * num + den - 1"
  have "(rc - 1) * num \<le> (rc - 1) * den" using assms by (intro mult_left_mono) auto
  then have "?n < rc * den" by (simp add: algebra_simps)
  then have lt: "?n div den < rc"
    by (rule div_less_bound [OF assms(4)])
  have "0 \<le> (rc - 1) * num" using assms by simp
  then have "0 \<le> ?n" using assms(4) by linarith
  then have ge: "0 \<le> ?n div den" using assms(4) by (simp add: pos_imp_zdiv_nonneg_iff)
  have "?n div den = rc - 1" if "num = den"
  proof -
    have "?n = (den - 1) + (rc - 1) * den" using that by simp
    also have "\<dots> div den = (rc - 1) + (den - 1) div den" using assms(4) by (intro div_mult_self1) simp
    also have "(den - 1) div den = 0" using assms(4) by simp
    finally show ?thesis by simp
  qed
  then show ?thesis using assms lt ge by (simp add: maze_row_col_frac_def)
qed

lemma maze_row_col_frac_in_range_witness:
  "case maze_row_col_frac 3 1 7 of None \<Rightarrow> False
    | Some x \<Rightarrow> 0 \<le> x \<and> x < 3 \<and> ((1 :: int) = 7 \<longrightarrow> x = 3 - 1)"
  by (rule maze_row_col_frac_in_range) simp_all

text \<open>
  \<open>main\<close> with \<open>--generate\<close>, with or without the default end points, never aborts when the end
  points are two different cells, and the solver finds a path: its result is the length of a path
  of passages of the maze from the start to the end, and the marked cells are this path.
\<close>

theorem maze_main_generate:
  assumes "generate opt" and "solve opt" and "wallin opt = None"
    and "length (fst g) = nat (rows opt * cols opt)" and "length (snd g) = nat (rows opt * cols opt)"
    and "0 < cols opt" and "0 < rows opt" and "rows opt * cols opt < 2 ^ 26" and "\<And>n. R n < 2 ^ 31"
    and "main_ends opt (rows opt) (cols opt) = Some (s, e)" and "s \<noteq> e"
    and "0 \<le> fst s \<and> fst s < rows opt \<and> 0 \<le> snd s \<and> snd s < cols opt"
    and "0 \<le> fst e \<and> fst e < rows opt \<and> 0 \<le> snd e \<and> snd e < cols opt"
  shows "\<exists>mp mp' d ps. maze_main R g opt = Some (Done (mp', Some d)) \<and>
    main_get_maze R g opt = Some (Done (mp, s, e)) \<and>
    is_path mp ps s e \<and> length ps = unat d \<and> marked mp' = set ps"
proof -
  obtain sr sc where s: "s = (sr, sc)" by (cases s)
  obtain er ec where e: "e = (er, ec)" by (cases e)
  obtain mp n where m: "maze_create R 0 g (rows opt) (cols opt) sr sc (straightfrac opt) (segbends opt)
      (gen_rv opt) = Some (mp, n)" "fresh mp" "connected_maze mp" "nrows mp = rows opt" "ncols mp = cols opt"
    using create_connected [where R = R, OF assms(4,5,7,6,8) _ _ _ _ assms(9), of sr sc 0 "straightfrac opt"
        "segbends opt" "gen_rv opt"] assms(12) s by auto
  obtain m1 where m1: "maze_unvisit_all mp = Some m1" "fresh m1" "conn m1 = conn mp"
    "nrows m1 = nrows mp" "ncols m1 = ncols mp"
    using unvisit_all [of mp] m(2) by (auto simp: fresh_def)
  have x: "maze_cell_exists m1 sr sc" "maze_cell_exists m1 er ec"
    using assms(12,13) s e m m1 by (simp_all add: maze_cell_exists_def)
  have n: "(sr, sc) \<noteq> (er, ec)" using assms(11) s e by simp
  obtain mp' d where z: "maze_solve m1 sr sc er ec = Some (mp', d)" "solved m1 (sr, sc) (er, ec) (mp', d)"
    using solve_total [OF m1(2) x n] by auto
  have "exists_at m1 (sr, sc)" "exists_at m1 (er, ec)" "exists_at m1 = exists_at mp"
    using x m1(4,5) by (simp_all add: exists_at_def maze_cell_exists_def fun_eq_iff)
  then have "(conn m1)\<^sup>*\<^sup>* (sr, sc) (er, ec)" using m(3) m1(3) by (simp add: connected_maze_def)
  then obtain ps where p: "is_path m1 ps (sr, sc) (er, ec)" "length ps = unat d" "marked mp' = set ps"
    using z(2) by (auto simp: solved_def split: if_splits)
  have gm: "main_get_maze R g opt = Some (Done (mp, s, e))"
    using assms(1,10) m(1) s by (simp add: main_get_maze_def)
  then have "maze_main R g opt = Some (Done (mp', Some d))"
    using assms(2,3,11) m1(1) x z(1) s e
    by (simp add: maze_main_def main_wall_in_def main_solve_def)
  then show ?thesis using gm p s e m1(3) by (auto simp: is_path_def)
qed

lemma maze_main_generate_witness:
  "\<exists>mp mp' d ps. maze_main (\<lambda>n. 12345 * n mod 99991) (replicate 20 0, replicate 20 (0, 0))
      (default_options\<lparr>generate := True, rows := 4, cols := 5\<rparr>) = Some (Done (mp', Some d)) \<and>
    main_get_maze (\<lambda>n. 12345 * n mod 99991) (replicate 20 0, replicate 20 (0, 0))
      (default_options\<lparr>generate := True, rows := 4, cols := 5\<rparr>) = Some (Done (mp, (0, 0), (3, 4))) \<and>
    is_path mp ps (0, 0) (3, 4) \<and> length ps = unat d \<and> marked mp' = set ps"
proof -
  have "12345 * n mod 99991 < 2 ^ 31" for n :: nat
    using mod_less_divisor [of 99991 "12345 * n"] by simp
  then show ?thesis
    by (intro maze_main_generate)
      (simp_all add: default_options_def main_ends_def frac_if_neg_def maze_row_col_frac_def)
qed

end
