(* ===== verification/Maze_Fig.thy ===== *)
theory Maze_Fig
  imports Maze_Run
begin

text \<open>
  The drawing of a maze in SMPdesign/maze/maze.c. What is printed is a list: the fixed header, then
  one item per line drawn, with the coordinates, the color and the depth that are printed; \<open>th\<close> is
  the global variable \<open>line_thickness\<close>. The theorem shows that the picture tells the truth: a wall is
  drawn exactly between the neighbouring cells that are not connected.
\<close>

declare split_paired_All [simp del] split_paired_Ex [simp del]

datatype fig_item = Fig_Header | Fig_Line int int int int int int int

definition maze_to_fig_line :: "int \<Rightarrow> int \<Rightarrow> int \<Rightarrow> int \<Rightarrow> int \<Rightarrow> int \<Rightarrow> int \<Rightarrow> fig_item list" where
  "maze_to_fig_line th x1 y1 x2 y2 pc depth = [Fig_Line th pc depth x1 y1 x2 y2]"

text \<open>A connection to a cell that is part of the solution as well.\<close>

definition on_solution :: "maze \<Rightarrow> int \<Rightarrow> int \<Rightarrow> int \<Rightarrow> int \<Rightarrow> bool option" where
  "on_solution mp row col row' col' = do {
     con \<leftarrow> maze_cells_connected mp row col row' col';
     if con then do { c \<leftarrow> maze_get_cell mp row' col'; Some (c AND SOLUTION \<noteq> 0) } else Some False }"

definition maze_to_fig_solution :: "int \<Rightarrow> maze \<Rightarrow> int \<Rightarrow> int \<Rightarrow> int \<Rightarrow> fig_item list option" where
  "maze_to_fig_solution th mp row col upc = do {
     c \<leftarrow> maze_get_cell mp row col;
     if c AND SOLUTION = 0 then Some []
     else do {
       u \<leftarrow> on_solution mp row col (row - 1) col;
       d \<leftarrow> on_solution mp row col (row + 1) col;
       l \<leftarrow> on_solution mp row col row (col - 1);
       r \<leftarrow> on_solution mp row col row (col + 1);
       Some
         ((if u then maze_to_fig_line th (col * upc + upc div 2) (row * upc)
             (col * upc + upc div 2) (row * upc + upc div 2) 14 51 else []) @
          (if d then maze_to_fig_line th (col * upc + upc div 2) (row * upc + upc div 2)
             (col * upc + upc div 2) (row * upc + upc) 14 51 else []) @
          (if l then maze_to_fig_line th (col * upc) (row * upc + upc div 2)
             (col * upc + upc div 2) (row * upc + upc div 2) 14 51 else []) @
          (if r then maze_to_fig_line th (col * upc + upc div 2) (row * upc + upc div 2)
             (col * upc + upc) (row * upc + upc div 2) 14 51 else [])) } }"

definition maze_get_cell_tid :: "maze \<Rightarrow> int \<Rightarrow> int \<Rightarrow> int" where
  "maze_get_cell_tid mp row col = 1"

definition maze_to_fig_visited :: "int \<Rightarrow> maze \<Rightarrow> int \<Rightarrow> int \<Rightarrow> int \<Rightarrow> fig_item list option" where
  "maze_to_fig_visited th mp row col upc = do {
     c \<leftarrow> maze_get_cell mp row col;
     Some (if c AND VISITED \<noteq> 0
       then maze_to_fig_line th (col * upc) (row * upc) ((col + 1) * upc) ((row + 1) * upc) 14
         (100 + maze_get_cell_tid mp row col)
       else []) }"

definition maze_to_fig_cell_wall :: "int \<Rightarrow> int \<Rightarrow> int \<Rightarrow> int \<Rightarrow> int \<Rightarrow> int \<Rightarrow> fig_item list" where
  "maze_to_fig_cell_wall th row1 col1 row2 col2 upc =
     maze_to_fig_line th (col1 * upc) (row1 * upc) (col2 * upc) (row2 * upc) 0 50"

definition maze_to_fig_cell :: "int \<Rightarrow> maze \<Rightarrow> int \<Rightarrow> bool \<Rightarrow> int \<Rightarrow> int \<Rightarrow> fig_item list option" where
  "maze_to_fig_cell th mp upc figvisit i j = do {
     c \<leftarrow> maze_get_cell mp i j;
     s \<leftarrow> maze_to_fig_solution th mp i j upc;
     v \<leftarrow> (if figvisit then maze_to_fig_visited th mp i j upc else Some []);
     Some ((if c AND WALL_DOWN \<noteq> 0 then maze_to_fig_cell_wall th (i + 1) j (i + 1) (j + 1) upc else []) @
       (if c AND WALL_RIGHT \<noteq> 0 then maze_to_fig_cell_wall th i (j + 1) (i + 1) (j + 1) upc else []) @
       s @ v) }"

fun maze_to_fig_cells :: "int \<Rightarrow> maze \<Rightarrow> int \<Rightarrow> bool \<Rightarrow> (int \<times> int) list \<Rightarrow> fig_item list option" where
  "maze_to_fig_cells th mp upc figvisit [] = Some []"
| "maze_to_fig_cells th mp upc figvisit ((i, j) # xs) = do {
     x \<leftarrow> maze_to_fig_cell th mp upc figvisit i j;
     y \<leftarrow> maze_to_fig_cells th mp upc figvisit xs;
     Some (x @ y) }"

definition maze_to_fig :: "int \<Rightarrow> maze \<Rightarrow> int \<Rightarrow> bool \<Rightarrow> fig_item list option" where
  "maze_to_fig th mp upc figvisit = do {
     y \<leftarrow> maze_to_fig_cells th mp upc figvisit (positions mp);
     Some ([Fig_Header] @ maze_to_fig_cell_wall th 0 0 0 (ncols mp) upc @
       maze_to_fig_cell_wall th 0 0 (nrows mp) 0 upc @ y) }"

section \<open>Lemmas\<close>

lemma on_solution_total: "adjacent (r, c) (r', c') \<Longrightarrow> \<exists>b. on_solution mp r c r' c' = Some b"
  by (auto simp: on_solution_def cells_connected get_cell conn_def)

text \<open>The walls drawn for one cell: depth 50 marks a wall.\<close>

definition wall_strokes :: "int \<Rightarrow> maze \<Rightarrow> int \<Rightarrow> int \<times> int \<Rightarrow> fig_item set" where
  "wall_strokes th mp upc p =
     (if bit (cell_at mp p) 30 then {Fig_Line th 0 50 (snd p * upc) ((fst p + 1) * upc) ((snd p + 1) * upc) ((fst p + 1) * upc)} else {}) \<union>
     (if bit (cell_at mp p) 29 then {Fig_Line th 0 50 ((snd p + 1) * upc) (fst p * upc) ((snd p + 1) * upc) ((fst p + 1) * upc)} else {})"

definition is_wall :: "fig_item \<Rightarrow> bool" where
  "is_wall x = (case x of Fig_Header \<Rightarrow> False | Fig_Line th pc depth x1 y1 x2 y2 \<Rightarrow> depth = 50)"

lemma and_WALL: "(w AND WALL_DOWN) = 0 \<longleftrightarrow> \<not> bit w 30" "(w AND WALL_RIGHT) = 0 \<longleftrightarrow> \<not> bit w 29"
  by (simp_all add: flag_bits bit_iff_and_push_bit_not_eq_0)

lemma fig_solution:
  assumes "exists_at mp (i, j)"
  shows "\<exists>s. maze_to_fig_solution th mp i j upc = Some s \<and> (\<forall>x \<in> set s. \<not> is_wall x)"
proof -
  obtain u d l r where o: "on_solution mp i j (i - 1) j = Some u" "on_solution mp i j (i + 1) j = Some d"
    "on_solution mp i j i (j - 1) = Some l" "on_solution mp i j i (j + 1) = Some r"
    using on_solution_total [of i j "i - 1" j mp] on_solution_total [of i j "i + 1" j mp]
      on_solution_total [of i j i "j - 1" mp] on_solution_total [of i j i "j + 1" mp]
    by (auto simp: adjacent_def)
  show ?thesis using assms o
    by (auto simp: maze_to_fig_solution_def get_cell maze_to_fig_line_def is_wall_def)
qed

lemma fig_cell:
  assumes "exists_at mp (i, j)"
  shows "\<exists>s. maze_to_fig_cell th mp upc v i j = Some s \<and> {x \<in> set s. is_wall x} = wall_strokes th mp upc (i, j)"
proof -
  obtain s where s: "maze_to_fig_solution th mp i j upc = Some s" "\<forall>x \<in> set s. \<not> is_wall x"
    using fig_solution [OF assms] by blast
  obtain t where t: "(if v then maze_to_fig_visited th mp i j upc else Some []) = Some t"
    "\<forall>x \<in> set t. \<not> is_wall x"
    using assms by (cases v) (auto simp: maze_to_fig_visited_def get_cell maze_to_fig_line_def is_wall_def
        maze_get_cell_tid_def)
  show ?thesis using assms s t
    by (auto simp: maze_to_fig_cell_def get_cell and_WALL wall_strokes_def maze_to_fig_cell_wall_def
        maze_to_fig_line_def is_wall_def)
qed

lemma fig_cells:
  "list_all (exists_at mp) xs \<Longrightarrow> \<exists>s. maze_to_fig_cells th mp upc v xs = Some s \<and>
    {x \<in> set s. is_wall x} = (\<Union>p \<in> set xs. wall_strokes th mp upc p)"
proof (induction xs)
  case (Cons p xs)
  obtain i j where p: "p = (i, j)" by (cases p)
  obtain s where "maze_to_fig_cell th mp upc v i j = Some s" "{x \<in> set s. is_wall x} = wall_strokes th mp upc p"
    using fig_cell [of mp i j th upc v] Cons.prems p by auto
  moreover obtain t where "maze_to_fig_cells th mp upc v xs = Some t"
    "{x \<in> set t. is_wall x} = (\<Union>p \<in> set xs. wall_strokes th mp upc p)" using Cons by auto
  ultimately show ?case using p by auto
qed simp

lemma fig_walls:
  "\<exists>s. maze_to_fig th mp upc v = Some s \<and>
    {x \<in> set s. is_wall x} = {Fig_Line th 0 50 0 0 (ncols mp * upc) 0, Fig_Line th 0 50 0 0 0 (nrows mp * upc)} \<union>
      (\<Union>p \<in> {p. exists_at mp p}. wall_strokes th mp upc p)"
proof -
  have "list_all (exists_at mp) (positions mp)" by (simp add: list_all_iff positions_iff)
  then obtain s where s: "maze_to_fig_cells th mp upc v (positions mp) = Some s"
    "{x \<in> set s. is_wall x} = (\<Union>p \<in> set (positions mp). wall_strokes th mp upc p)"
    using fig_cells [of mp "positions mp" th upc v] by auto
  have "set (positions mp) = {p. exists_at mp p}" using positions_iff by blast
  moreover have "{x \<in> set (Fig_Header # Fig_Line th 0 50 0 0 (ncols mp * upc) 0 # Fig_Line th 0 50 0 0 0 (nrows mp * upc) # s). is_wall x} =
      {Fig_Line th 0 50 0 0 (ncols mp * upc) 0, Fig_Line th 0 50 0 0 0 (nrows mp * upc)} \<union> {x \<in> set s. is_wall x}"
    by (auto simp: is_wall_def)
  ultimately show ?thesis using s
    by (simp add: maze_to_fig_def maze_to_fig_cell_wall_def maze_to_fig_line_def)
qed

lemma strokes_down:
  assumes "0 < upc"
  shows "Fig_Line th 0 50 (c * upc) ((r + 1) * upc) ((c + 1) * upc) ((r + 1) * upc) \<in> wall_strokes th mp upc p \<longleftrightarrow>
    p = (r, c) \<and> bit (cell_at mp p) 30"
  using assms by (cases p) (auto simp: wall_strokes_def)

lemma strokes_right:
  assumes "0 < upc"
  shows "Fig_Line th 0 50 ((c + 1) * upc) (r * upc) ((c + 1) * upc) ((r + 1) * upc) \<in> wall_strokes th mp upc p \<longleftrightarrow>
    p = (r, c) \<and> bit (cell_at mp p) 29"
  using assms by (cases p) (auto simp: wall_strokes_def)

text \<open>
  \<open>maze_to_fig\<close> draws every maze without aborting, and the wall between a cell and its neighbour
  below or to the right is drawn exactly when \<open>maze_cells_connected\<close> denies the passage between
  them, so that the picture and the solver agree.
\<close>

theorem maze_to_fig_draws_walls:
  assumes "0 < upc"
  shows "\<exists>s. maze_to_fig th mp upc v = Some s \<and>
    (\<forall>r c. maze_cell_exists mp r c \<and> maze_cell_exists mp (r + 1) c \<longrightarrow>
      maze_cells_connected mp r c (r + 1) c =
        Some (Fig_Line th 0 50 (c * upc) ((r + 1) * upc) ((c + 1) * upc) ((r + 1) * upc) \<notin> set s)) \<and>
    (\<forall>r c. maze_cell_exists mp r c \<and> maze_cell_exists mp r (c + 1) \<longrightarrow>
      maze_cells_connected mp r c r (c + 1) =
        Some (Fig_Line th 0 50 ((c + 1) * upc) (r * upc) ((c + 1) * upc) ((r + 1) * upc) \<notin> set s))"
proof -
  obtain s where s: "maze_to_fig th mp upc v = Some s"
    "{x \<in> set s. is_wall x} = {Fig_Line th 0 50 0 0 (ncols mp * upc) 0, Fig_Line th 0 50 0 0 0 (nrows mp * upc)} \<union>
      (\<Union>p \<in> {p. exists_at mp p}. wall_strokes th mp upc p)" using fig_walls [of th mp upc v] by auto
  have w: "x \<in> set s \<longleftrightarrow> x \<in> {Fig_Line th 0 50 0 0 (ncols mp * upc) 0, Fig_Line th 0 50 0 0 0 (nrows mp * upc)} \<or>
      (\<exists>p. exists_at mp p \<and> x \<in> wall_strokes th mp upc p)" if "is_wall x" for x
    using s(2) that by blast
  have down: "maze_cells_connected mp r c (r + 1) c =
      Some (Fig_Line th 0 50 (c * upc) ((r + 1) * upc) ((c + 1) * upc) ((r + 1) * upc) \<notin> set s)"
    if e: "maze_cell_exists mp r c" "maze_cell_exists mp (r + 1) c" for r c
  proof -
    let ?x = "Fig_Line th 0 50 (c * upc) ((r + 1) * upc) ((c + 1) * upc) ((r + 1) * upc)"
    have "(r + 1) * upc \<noteq> 0" "c * upc \<noteq> (c + 1) * upc" using e(1) assms by (simp_all add: maze_cell_exists_def)
    then have n: "?x \<notin> {Fig_Line th 0 50 0 0 (ncols mp * upc) 0, Fig_Line th 0 50 0 0 0 (nrows mp * upc)}" by auto
    have "(\<exists>p. exists_at mp p \<and> ?x \<in> wall_strokes th mp upc p) \<longleftrightarrow> bit (cell_at mp (r, c)) 30"
      unfolding strokes_down [OF assms] using e(1) by (auto simp: exists_at_def)
    then have "?x \<in> set s \<longleftrightarrow> bit (cell_at mp (r, c)) 30"
      using n w [of ?x] by (simp only: is_wall_def fig_item.case simp_thms)
    then show ?thesis using e
      by (simp add: cells_connected adjacent_def conn_def exists_at_def wall_def dirbit_def)
  qed
  have right: "maze_cells_connected mp r c r (c + 1) =
      Some (Fig_Line th 0 50 ((c + 1) * upc) (r * upc) ((c + 1) * upc) ((r + 1) * upc) \<notin> set s)"
    if e: "maze_cell_exists mp r c" "maze_cell_exists mp r (c + 1)" for r c
  proof -
    let ?x = "Fig_Line th 0 50 ((c + 1) * upc) (r * upc) ((c + 1) * upc) ((r + 1) * upc)"
    have "(c + 1) * upc \<noteq> 0" using e(1) assms by (simp add: maze_cell_exists_def)
    then have n: "?x \<notin> {Fig_Line th 0 50 0 0 (ncols mp * upc) 0, Fig_Line th 0 50 0 0 0 (nrows mp * upc)}" by auto
    have "(\<exists>p. exists_at mp p \<and> ?x \<in> wall_strokes th mp upc p) \<longleftrightarrow> bit (cell_at mp (r, c)) 29"
      unfolding strokes_right [OF assms] using e(1) by (auto simp: exists_at_def)
    then have "?x \<in> set s \<longleftrightarrow> bit (cell_at mp (r, c)) 29"
      using n w [of ?x] by (simp only: is_wall_def fig_item.case simp_thms)
    then show ?thesis using e
      by (simp add: cells_connected adjacent_def conn_def exists_at_def wall_def dirbit_def)
  qed
  show ?thesis using s(1) down right by blast
qed

lemma maze_to_fig_draws_walls_witness:
  "\<exists>s. maze_to_fig 1 tiny_maze 300 True = Some s \<and>
    (\<forall>r c. maze_cell_exists tiny_maze r c \<and> maze_cell_exists tiny_maze (r + 1) c \<longrightarrow>
      maze_cells_connected tiny_maze r c (r + 1) c =
        Some (Fig_Line 1 0 50 (c * 300) ((r + 1) * 300) ((c + 1) * 300) ((r + 1) * 300) \<notin> set s)) \<and>
    (\<forall>r c. maze_cell_exists tiny_maze r c \<and> maze_cell_exists tiny_maze r (c + 1) \<longrightarrow>
      maze_cells_connected tiny_maze r c r (c + 1) =
        Some (Fig_Line 1 0 50 ((c + 1) * 300) (r * 300) ((c + 1) * 300) ((r + 1) * 300) \<notin> set s))"
  by (rule maze_to_fig_draws_walls) simp

end
