(* ===== verification/Hash_Spec.thy ===== *)
theory Hash_Spec
  imports Cds_List "HOL-Library.Monad_Syntax"
begin

text \<open>
  What the hash tables of datastruct/hash promise. The specification is one unsorted list of
  elements, the most recently added first, with the hash value each element was added under. A
  table spreads the list over buckets: \<open>bucketed\<close> is the invariant, with one lemma per bucket
  operation. The locale \<open>hash_table\<close> is the contract of the operations a client calls, each inside
  its lock; its client lemma \<open>run_hist\<close> lifts the contract to sequences of operations.
\<close>

section \<open>The specification\<close>

datatype ('e, 'k) hash_op = Lookup ulong 'k | Add ulong 'e | Del ulong 'e

fun spec_op :: "('e \<Rightarrow> 'k \<Rightarrow> bool) \<Rightarrow> ('e, 'k) hash_op \<Rightarrow> ('e \<Rightarrow> ulong) \<times> 'e list \<Rightarrow>
    'e option \<times> ('e \<Rightarrow> ulong) \<times> 'e list" where
  "spec_op cmp (Lookup hash key) (h, es) = (List.find (\<lambda>e. h e = hash \<and> cmp e key) es, h, es)"
| "spec_op cmp (Add hash e) (h, es) = (None, h(e := hash), e # es)"
| "spec_op cmp (Del hash e) (h, es) = (None, h, remove1 e es)"

text \<open>
  An element is in at most one bucket at a time, and is deleted under the lock of the bucket of
  its hash value.
\<close>

fun spec_ok :: "('e, 'k) hash_op \<Rightarrow> ('e \<Rightarrow> ulong) \<times> 'e list \<Rightarrow> bool" where
  "spec_ok (Lookup hash key) x \<longleftrightarrow> True"
| "spec_ok (Add hash e) x \<longleftrightarrow> e \<notin> set (snd x)"
| "spec_ok (Del hash e) x \<longleftrightarrow> e \<in> set (snd x) \<and> fst x e = hash"

fun spec_run :: "('e \<Rightarrow> 'k \<Rightarrow> bool) \<Rightarrow> ('e, 'k) hash_op list \<Rightarrow> ('e \<Rightarrow> ulong) \<times> 'e list \<Rightarrow> 'e option list" where
  "spec_run cmp [] x = []"
| "spec_run cmp (a # as) x = fst (spec_op cmp a x) # spec_run cmp as (snd (spec_op cmp a x))"

fun spec_legal :: "('e \<Rightarrow> 'k \<Rightarrow> bool) \<Rightarrow> ('e, 'k) hash_op list \<Rightarrow> ('e \<Rightarrow> ulong) \<times> 'e list \<Rightarrow> bool" where
  "spec_legal cmp [] x \<longleftrightarrow> True"
| "spec_legal cmp (a # as) x \<longleftrightarrow> spec_ok a x \<and> spec_legal cmp as (snd (spec_op cmp a x))"

section \<open>Running operations on a table\<close>

text \<open>Each operation of a table may have to wait for a lock, which is \<open>None\<close>.\<close>

record ('e, 'k, 't) hash_ops =
  op_lookup :: "ulong \<Rightarrow> 'k \<Rightarrow> 't \<Rightarrow> ('e option \<times> 't) option"
  op_add :: "ulong \<Rightarrow> 'e \<Rightarrow> 't \<Rightarrow> 't option"
  op_del :: "ulong \<Rightarrow> 'e \<Rightarrow> 't \<Rightarrow> 't option"

fun table_op :: "('e, 'k, 't) hash_ops \<Rightarrow> ('e, 'k) hash_op \<Rightarrow> 't \<Rightarrow> ('e option \<times> 't) option" where
  "table_op T (Lookup hash key) t = op_lookup T hash key t"
| "table_op T (Add hash e) t = map_option (\<lambda>t. (None, t)) (op_add T hash e t)"
| "table_op T (Del hash e) t = map_option (\<lambda>t. (None, t)) (op_del T hash e t)"

fun table_run :: "('e, 'k, 't) hash_ops \<Rightarrow> ('e, 'k) hash_op list \<Rightarrow> 't \<Rightarrow> 'e option list option" where
  "table_run T [] t = Some []"
| "table_run T (a # as) t = do {
     (r, t) \<leftarrow> table_op T a t;
     rs \<leftarrow> table_run T as t;
     Some (r # rs) }"

section \<open>The contract\<close>

locale hash_table =
  fixes T :: "('e, 'k, 't) hash_ops"
    and cmp :: "'e \<Rightarrow> 'k \<Rightarrow> bool"
    and repr :: "'t \<Rightarrow> ('e \<Rightarrow> ulong) \<times> 'e list \<Rightarrow> bool"
  assumes lookup_finds: "repr t (h, es) \<Longrightarrow>
      \<exists>t'. op_lookup T hash key t = Some (List.find (\<lambda>e. h e = hash \<and> cmp e key) es, t') \<and> repr t' (h, es)"
    and add_keeps: "repr t (h, es) \<Longrightarrow> e \<notin> set es \<Longrightarrow>
      \<exists>t'. op_add T hash e t = Some t' \<and> repr t' (h(e := hash), e # es)"
    and del_keeps: "repr t (h, es) \<Longrightarrow> e \<in> set es \<Longrightarrow>
      \<exists>t'. op_del T (h e) e t = Some t' \<and> repr t' (h, remove1 e es)"
begin

lemma op_agrees:
  assumes "repr t x" and "spec_ok a x"
  shows "\<exists>t'. table_op T a t = Some (fst (spec_op cmp a x), t') \<and> repr t' (snd (spec_op cmp a x))"
proof -
  obtain h es where x: "x = (h, es)" by (cases x)
  show ?thesis
  proof (cases a)
    case (Lookup hash key)
    then show ?thesis using lookup_finds assms x by auto
  next
    case (Add hash e)
    then show ?thesis using add_keeps [of t h es e hash] assms x by auto
  next
    case (Del hash e)
    then show ?thesis using del_keeps [of t h es e] assms x by auto
  qed
qed

lemma run_hist: "repr t x \<Longrightarrow> spec_legal cmp as x \<Longrightarrow> table_run T as t = Some (spec_run cmp as x)"
proof (induction as arbitrary: t x)
  case (Cons a as)
  then obtain t' where "table_op T a t = Some (fst (spec_op cmp a x), t')" "repr t' (snd (spec_op cmp a x))"
    using op_agrees [of t x a] by auto
  then show ?case using Cons by auto
qed simp

end

section \<open>Buckets\<close>

definition bkt :: "ulong \<Rightarrow> ulong \<Rightarrow> nat" where
  "bkt n hash = unat (hash mod n)"

lemma bkt_less: "0 < n \<Longrightarrow> bkt n hash < unat n"
  by (simp add: bkt_def unat_mod_distrib word_gt_0_no unat_gt_0)

definition bucketed :: "('e, 'l) cds_ops \<Rightarrow> ulong \<Rightarrow> 'l list \<Rightarrow> ('e \<Rightarrow> ulong) \<times> 'e list \<Rightarrow> bool" where
  "bucketed L n bs x \<longleftrightarrow> 0 < n \<and> length bs = unat n \<and> distinct (snd x) \<and>
     (\<forall>b < unat n. cds_entries L (bs ! b) = filter (\<lambda>e. bkt n (fst x e) = b) (snd x))"

lemma find_filter: "(\<And>x. P x \<Longrightarrow> Q x) \<Longrightarrow> List.find P (filter Q xs) = List.find P xs"
  by (induction xs) auto

lemma filter_remove1: "distinct xs \<Longrightarrow> filter P (remove1 x xs) = remove1 x (filter P xs)"
  by (simp add: distinct_remove1_removeAll removeAll_filter_not_eq filter_filter conj_commute)

context cds_lib
begin

lemma bucketed_init: "0 < n \<Longrightarrow> bucketed L n (replicate (unat n) (cds_init L)) (h, [])"
  by (simp add: bucketed_def)

lemma bucketed_lookup:
  "bucketed L n bs (h, es) \<Longrightarrow>
   List.find (\<lambda>e. h e = hash \<and> cmp e key) (cds_entries L (bs ! bkt n hash)) = List.find (\<lambda>e. h e = hash \<and> cmp e key) es"
  using bkt_less [of n hash] by (auto simp: bucketed_def intro!: find_filter)

lemma bucketed_add:
  assumes "bucketed L n bs (h, es)" "e \<notin> set es"
  shows "bucketed L n (bs[bkt n hash := cds_add L e (bs ! bkt n hash)]) (h(e := hash), e # es)"
proof -
  have "filter (\<lambda>x. bkt n ((h(e := hash)) x) = b) es = filter (\<lambda>x. bkt n (h x) = b) es" for b
    using assms(2) by (intro filter_cong) auto
  then show ?thesis using assms bkt_less [of n hash]
    by (auto simp: bucketed_def nth_list_update)
qed

lemma bucketed_del:
  assumes "bucketed L n bs (h, es)" "e \<in> set es"
  shows "bucketed L n (bs[bkt n (h e) := cds_del L e (bs ! bkt n (h e))]) (h, remove1 e es)"
proof -
  have "remove1 e (filter (\<lambda>x. bkt n (h x) = b) es) = filter (\<lambda>x. bkt n (h x) = b) es" if "b \<noteq> bkt n (h e)" for b
    using that by (intro remove1_idem) auto
  then show ?thesis using assms bkt_less [of n "h e"]
    by (auto simp: bucketed_def nth_list_update filter_remove1)
qed

end

text \<open>
  \<open>cds_list_del\<close> takes only the element: it is unlinked from the bucket it is in.
\<close>

definition unlink :: "('e, 'l) cds_ops \<Rightarrow> 'e \<Rightarrow> 'l list \<Rightarrow> 'l list" where
  "unlink L e bs = map (\<lambda>b. if e \<in> set (cds_entries L b) then cds_del L e b else b) bs"

lemma unlink_bucketed:
  assumes "bucketed L n bs (h, es)" "e \<in> set es"
  shows "unlink L e bs = bs[bkt n (h e) := cds_del L e (bs ! bkt n (h e))]"
proof (rule nth_equalityI)
  show "length (unlink L e bs) = length (bs[bkt n (h e) := cds_del L e (bs ! bkt n (h e))])"
    by (simp add: unlink_def)
  fix i
  assume "i < length (unlink L e bs)"
  then have i: "i < unat n" "i < length bs" using assms(1) by (auto simp: bucketed_def unlink_def)
  have "e \<in> set (cds_entries L (bs ! i)) \<longleftrightarrow> i = bkt n (h e)"
    using assms i by (auto simp: bucketed_def)
  then show "unlink L e bs ! i = bs[bkt n (h e) := cds_del L e (bs ! bkt n (h e))] ! i"
    using i by (auto simp: unlink_def nth_list_update)
qed

section \<open>Tables with locks\<close>

text \<open>The operations of a client: every call is inside its critical section.\<close>

record ('e, 'k, 't) table_code =
  lock_lookup :: "'t \<Rightarrow> ulong \<Rightarrow> 't option"
  unlock_lookup :: "'t \<Rightarrow> ulong \<Rightarrow> 't"
  lock_mod :: "'t \<Rightarrow> ulong \<Rightarrow> 't option"
  unlock_mod :: "'t \<Rightarrow> ulong \<Rightarrow> 't"
  lookup :: "'t \<Rightarrow> ('e \<Rightarrow> ulong) \<Rightarrow> ulong \<Rightarrow> 'k \<Rightarrow> 'e option"
  add :: "'t \<Rightarrow> ('e \<Rightarrow> ulong) \<Rightarrow> ulong \<Rightarrow> 'e \<Rightarrow> 't \<times> ('e \<Rightarrow> ulong)"
  del :: "'t \<Rightarrow> 'e \<Rightarrow> 't"

definition locked_ops :: "('e, 'k, 't) table_code \<Rightarrow> ('e, 'k, 't \<times> ('e \<Rightarrow> ulong)) hash_ops" where
  "locked_ops C = \<lparr>
     op_lookup = (\<lambda>hash key (t, h). do {
       t \<leftarrow> lock_lookup C t hash;
       let r = lookup C t h hash key;
       Some (r, unlock_lookup C t hash, h) }),
     op_add = (\<lambda>hash e (t, h). do {
       t \<leftarrow> lock_mod C t hash;
       let (t, h) = add C t h hash e;
       Some (unlock_mod C t hash, h) }),
     op_del = (\<lambda>hash e (t, h). do {
       t \<leftarrow> lock_mod C t hash;
       Some (unlock_mod C (del C t e) hash, h) })\<rparr>"

text \<open>What a table looks like from outside: its buckets, their number and the comparison.\<close>

record ('e, 'k, 'l) view =
  v_heads :: "'l list"
  v_nbuckets :: ulong
  v_cmp :: "'e \<Rightarrow> 'k \<Rightarrow> bool"

text \<open>
  The contract of the code of one table. \<open>free t\<close> says that no lock is held, and \<open>mine t hash\<close> that
  only the lock for \<open>hash\<close> is.
\<close>

locale locked_table =
  fixes L :: "('e, 'l) cds_ops" and C :: "('e, 'k, 't) table_code" and view :: "'t \<Rightarrow> ('e, 'k, 'l) view"
    and free :: "'t \<Rightarrow> bool" and mine :: "'t \<Rightarrow> ulong \<Rightarrow> bool"
  assumes lock: "free t \<Longrightarrow> bkt (v_nbuckets (view t)) hash < length (v_heads (view t)) \<Longrightarrow>
      \<exists>t'. lock_mod C t hash = Some t' \<and> view t' = view t \<and> mine t' hash"
    and lock_read: "free t \<Longrightarrow> bkt (v_nbuckets (view t)) hash < length (v_heads (view t)) \<Longrightarrow>
      \<exists>t'. lock_lookup C t hash = Some t' \<and> view t' = view t \<and> view (unlock_lookup C t' hash) = view t \<and>
        free (unlock_lookup C t' hash)"
    and unlock: "mine t hash \<Longrightarrow> view (unlock_mod C t hash) = view t \<and> free (unlock_mod C t hash)"
    and lookup_code: "bkt (v_nbuckets (view t)) hash < length (v_heads (view t)) \<Longrightarrow>
      lookup C t h hash key = List.find (\<lambda>e. h e = hash \<and> v_cmp (view t) e key)
      (cds_entries L (v_heads (view t) ! bkt (v_nbuckets (view t)) hash))"
    and add_code: "mine t hash \<Longrightarrow> bkt (v_nbuckets (view t)) hash < length (v_heads (view t)) \<Longrightarrow>
      view (fst (add C t h hash e)) = (view t)\<lparr>v_heads := (v_heads (view t))[bkt (v_nbuckets (view t)) hash :=
        cds_add L e (v_heads (view t) ! bkt (v_nbuckets (view t)) hash)]\<rparr> \<and>
      snd (add C t h hash e) = h(e := hash) \<and> mine (fst (add C t h hash e)) hash"
    and del_code: "mine t hash \<Longrightarrow>
      view (del C t e) = (view t)\<lparr>v_heads := unlink L e (v_heads (view t))\<rparr> \<and> mine (del C t e) hash"
begin

definition stores :: "('e \<Rightarrow> 'k \<Rightarrow> bool) \<Rightarrow> 't \<times> ('e \<Rightarrow> ulong) \<Rightarrow> ('e \<Rightarrow> ulong) \<times> 'e list \<Rightarrow> bool" where
  "stores cmp t x \<longleftrightarrow> cds_lib L \<and> snd t = fst x \<and> free (fst t) \<and> v_cmp (view (fst t)) = cmp \<and>
     bucketed L (v_nbuckets (view (fst t))) (v_heads (view (fst t))) x"

lemma stores_bkt: "stores cmp (t, h) x \<Longrightarrow> bkt (v_nbuckets (view t)) hash < length (v_heads (view t))"
  using bkt_less by (auto simp: stores_def bucketed_def)

lemma stores_is_table: "hash_table (locked_ops C) cmp (stores cmp)"
proof
  fix t h es hash key
  assume s: "stores cmp t (h, es)"
  then obtain u where t: "t = (u, h)" by (cases t) (auto simp: stores_def)
  then obtain u' where u: "lock_lookup C u hash = Some u'" "view u' = view u"
    "view (unlock_lookup C u' hash) = view u" "free (unlock_lookup C u' hash)"
    using lock_read [of u hash] stores_bkt s by (auto simp: stores_def)
  have "cds_lib L" "bucketed L (v_nbuckets (view u)) (v_heads (view u)) (h, es)"
    using s t by (simp_all add: stores_def)
  then have "lookup C u' h hash key = List.find (\<lambda>e. h e = hash \<and> cmp e key) es"
    using cds_lib.bucketed_lookup [of L "v_nbuckets (view u)" "v_heads (view u)" h es hash cmp key] s t u(2)
      stores_bkt [of cmp u h "(h, es)" hash]
    by (simp add: lookup_code stores_def)
  then show "\<exists>t'. op_lookup (locked_ops C) hash key t = Some (List.find (\<lambda>e. h e = hash \<and> cmp e key) es, t') \<and>
      stores cmp t' (h, es)"
    using s t u by (simp add: locked_ops_def stores_def)
next
  fix t h es e hash
  assume s: "stores cmp t (h, es)" and e: "e \<notin> set es"
  then obtain u where t: "t = (u, h)" by (cases t) (auto simp: stores_def)
  then obtain u' where u: "lock_mod C u hash = Some u'" "view u' = view u" "mine u' hash"
    using lock [of u hash] stores_bkt s by (auto simp: stores_def)
  have b: "bkt (v_nbuckets (view u')) hash < length (v_heads (view u'))" using stores_bkt s t u(2) by auto
  obtain w g where a: "add C u' h hash e = (w, g)" by (cases "add C u' h hash e")
  note w = add_code [OF u(3) b, of h e, unfolded a, simplified]
  have "cds_lib L" "bucketed L (v_nbuckets (view u)) (v_heads (view u)) (h, es)"
    using s t by (simp_all add: stores_def)
  note n = cds_lib.bucketed_add [OF this e, of hash]
  have "stores cmp (unlock_mod C w hash, g) (h(e := hash), e # es)"
    using s t u(2) w unlock [of w hash] n by (simp add: stores_def)
  then show "\<exists>t'. op_add (locked_ops C) hash e t = Some t' \<and> stores cmp t' (h(e := hash), e # es)"
    using t u(1) a by (simp add: locked_ops_def)
next
  fix t h es e
  assume s: "stores cmp t (h, es)" and e: "e \<in> set es"
  then obtain u where t: "t = (u, h)" by (cases t) (auto simp: stores_def)
  then obtain u' where u: "lock_mod C u (h e) = Some u'" "view u' = view u" "mine u' (h e)"
    using lock [of u "h e"] stores_bkt s by (auto simp: stores_def)
  note w = del_code [OF u(3), of e]
  have l: "cds_lib L" and b: "bucketed L (v_nbuckets (view u)) (v_heads (view u)) (h, es)"
    using s t by (simp_all add: stores_def)
  have "stores cmp (unlock_mod C (del C u' e) (h e), h) (h, remove1 e es)"
    using s t u(2) w unlock [of "del C u' e" "h e"] cds_lib.bucketed_del [OF l b e] unlink_bucketed [OF b e]
    by (simp add: stores_def)
  then show "\<exists>t'. op_del (locked_ops C) (h e) e t = Some t' \<and> stores cmp t' (h, remove1 e es)"
    using t u(1) by (simp add: locked_ops_def)
qed

end

sublocale locked_table \<subseteq> table: hash_table "locked_ops C" cmp "stores cmp" for cmp
  by (rule stores_is_table)

lemma map_update_same: "f y = f (xs ! i) \<Longrightarrow> map f (xs[i := y]) = map f xs"
  by (cases "i < length xs") (simp_all add: map_update list_update_same_conv list_update_beyond)

end
