(* ===== verification/Hash_Bkt.thy ===== *)
theory Hash_Bkt
  imports Hash_Spec
begin

text \<open>
  datastruct/hash/hash_bkt.c: a hash table with one lock per bucket. The bucket lists are those of the
  userspace-RCU library (\<open>L\<close>), \<open>h\<close> is the field \<open>hte_hash\<close> of all elements. Taking a lock that is
  held is \<open>None\<close>, the caller has to wait. The operations are collected in \<open>code\<close>; what a client
  calls is \<open>locked_ops code\<close>.
\<close>

record 'l ht_bucket =
  htb_head :: 'l
  htb_lock :: bool

record ('e, 'k, 'l) hashtab =
  ht_nbuckets :: ulong
  ht_cmp :: "'e \<Rightarrow> 'k \<Rightarrow> bool"
  ht_bkt :: "'l ht_bucket list"

definition HASH2BKT :: "('e, 'k, 'l) hashtab \<Rightarrow> ulong \<Rightarrow> nat" where
  "HASH2BKT htp h = unat (h mod ht_nbuckets htp)"

definition set_head :: "('e, 'k, 'l) hashtab \<Rightarrow> nat \<Rightarrow> 'l \<Rightarrow> ('e, 'k, 'l) hashtab" where
  "set_head htp b l = htp\<lparr>ht_bkt := (ht_bkt htp)[b := (ht_bkt htp ! b)\<lparr>htb_head := l\<rparr>]\<rparr>"

definition hashtab_lock :: "('e, 'k, 'l) hashtab \<Rightarrow> ulong \<Rightarrow> ('e, 'k, 'l) hashtab option" where
  "hashtab_lock htp hash =
     (let b = HASH2BKT htp hash in
      if htb_lock (ht_bkt htp ! b) then None
      else Some (htp\<lparr>ht_bkt := (ht_bkt htp)[b := (ht_bkt htp ! b)\<lparr>htb_lock := True\<rparr>]\<rparr>))"

definition hashtab_unlock :: "('e, 'k, 'l) hashtab \<Rightarrow> ulong \<Rightarrow> ('e, 'k, 'l) hashtab" where
  "hashtab_unlock htp hash =
     (let b = HASH2BKT htp hash in
      htp\<lparr>ht_bkt := (ht_bkt htp)[b := (ht_bkt htp ! b)\<lparr>htb_lock := False\<rparr>]\<rparr>)"

definition hashtab_lock_lookup :: "('e, 'k, 'l) hashtab \<Rightarrow> ulong \<Rightarrow> ('e, 'k, 'l) hashtab option" where
  "hashtab_lock_lookup htp hash = hashtab_lock htp hash"

definition hashtab_unlock_lookup :: "('e, 'k, 'l) hashtab \<Rightarrow> ulong \<Rightarrow> ('e, 'k, 'l) hashtab" where
  "hashtab_unlock_lookup htp hash = hashtab_unlock htp hash"

definition hashtab_lock_mod :: "('e, 'k, 'l) hashtab \<Rightarrow> ulong \<Rightarrow> ('e, 'k, 'l) hashtab option" where
  "hashtab_lock_mod htp hash = hashtab_lock htp hash"

definition hashtab_unlock_mod :: "('e, 'k, 'l) hashtab \<Rightarrow> ulong \<Rightarrow> ('e, 'k, 'l) hashtab" where
  "hashtab_unlock_mod htp hash = hashtab_unlock htp hash"

definition hashtab_lookup ::
    "('e, 'l) cds_ops \<Rightarrow> ('e, 'k, 'l) hashtab \<Rightarrow> ('e \<Rightarrow> ulong) \<Rightarrow> ulong \<Rightarrow> 'k \<Rightarrow> 'e option" where
  "hashtab_lookup L htp h hash key =
     List.find (\<lambda>htep. h htep = hash \<and> ht_cmp htp htep key)
       (cds_entries L (htb_head (ht_bkt htp ! HASH2BKT htp hash)))"

definition hashtab_add ::
    "('e, 'l) cds_ops \<Rightarrow> ('e, 'k, 'l) hashtab \<Rightarrow> ('e \<Rightarrow> ulong) \<Rightarrow> ulong \<Rightarrow> 'e \<Rightarrow> ('e, 'k, 'l) hashtab \<times> ('e \<Rightarrow> ulong)" where
  "hashtab_add L htp h hash htep =
     (let b = HASH2BKT htp hash in
      (set_head htp b (cds_add L htep (htb_head (ht_bkt htp ! b))), h(htep := hash)))"

text \<open>The deletion unlinks the element from the list it is on.\<close>

definition hashtab_del :: "('e, 'l) cds_ops \<Rightarrow> ('e, 'k, 'l) hashtab \<Rightarrow> 'e \<Rightarrow> ('e, 'k, 'l) hashtab" where
  "hashtab_del L htp htep =
     htp\<lparr>ht_bkt := map2 (\<lambda>b l. b\<lparr>htb_head := l\<rparr>) (ht_bkt htp) (unlink L htep (map htb_head (ht_bkt htp)))\<rparr>"

definition hashtab_alloc ::
    "('e, 'l) cds_ops \<Rightarrow> ulong \<Rightarrow> ('e \<Rightarrow> 'k \<Rightarrow> bool) \<Rightarrow> ('e, 'k, 'l) hashtab" where
  "hashtab_alloc L nbuckets cmp =
     \<lparr>ht_nbuckets = nbuckets, ht_cmp = cmp,
      ht_bkt = replicate (unat nbuckets) \<lparr>htb_head = cds_init L, htb_lock = False\<rparr>\<rparr>"

definition code :: "('e, 'l) cds_ops \<Rightarrow> ('e, 'k, ('e, 'k, 'l) hashtab) table_code" where
  "code L = \<lparr>lock_lookup = hashtab_lock_lookup, unlock_lookup = hashtab_unlock_lookup,
     lock_mod = hashtab_lock_mod, unlock_mod = hashtab_unlock_mod, lookup = hashtab_lookup L,
     add = hashtab_add L, del = hashtab_del L\<rparr>"

section \<open>The contract\<close>

definition table_view :: "('e, 'k, 'l) hashtab \<Rightarrow> ('e, 'k, 'l) view" where
  "table_view htp = \<lparr>v_heads = map htb_head (ht_bkt htp), v_nbuckets = ht_nbuckets htp, v_cmp = ht_cmp htp\<rparr>"

lemma bkt_view_simps [simp]:
  "v_nbuckets (table_view htp) = ht_nbuckets htp" "v_cmp (table_view htp) = ht_cmp htp"
  "length (v_heads (table_view htp)) = length (ht_bkt htp)"
  "b < length (ht_bkt htp) \<Longrightarrow> v_heads (table_view htp) ! b = htb_head (ht_bkt htp ! b)"
  by (simp_all add: table_view_def)

definition unlocked :: "('e, 'k, 'l) hashtab \<Rightarrow> bool" where
  "unlocked htp \<longleftrightarrow> (\<forall>b \<in> set (ht_bkt htp). \<not> htb_lock b)"

definition only_locked :: "('e, 'k, 'l) hashtab \<Rightarrow> ulong \<Rightarrow> bool" where
  "only_locked htp hash \<longleftrightarrow> HASH2BKT htp hash < length (ht_bkt htp) \<and>
     (\<forall>b < length (ht_bkt htp). htb_lock (ht_bkt htp ! b) \<longleftrightarrow> b = HASH2BKT htp hash)"

lemma bkt_free_iff: "unlocked htp \<longleftrightarrow> (\<forall>b < length (ht_bkt htp). \<not> htb_lock (ht_bkt htp ! b))"
  by (simp add: unlocked_def all_set_conv_all_nth)

lemma bkt_view_update:
  "htb_head y = htb_head (ht_bkt htp ! i) \<Longrightarrow> table_view (htp\<lparr>ht_bkt := (ht_bkt htp)[i := y]\<rparr>) = table_view htp"
  by (simp add: table_view_def map_update_same)

lemma bkt_lock_bucket:
  assumes "unlocked htp" "bkt (ht_nbuckets htp) hash < length (ht_bkt htp)"
  shows "\<exists>htp'. hashtab_lock htp hash = Some htp' \<and> table_view htp' = table_view htp \<and> only_locked htp' hash"
  using assms
  by (auto simp: hashtab_lock_def Let_def bkt_free_iff bkt_view_update only_locked_def HASH2BKT_def bkt_def nth_list_update)

lemma bkt_unlock_bucket:
  "only_locked htp hash \<Longrightarrow>
   table_view (hashtab_unlock htp hash) = table_view htp \<and> unlocked (hashtab_unlock htp hash)"
  by (auto simp: hashtab_unlock_def Let_def bkt_view_update bkt_free_iff only_locked_def nth_list_update)

lemma bkt_add_bucket:
  assumes "only_locked htp hash"
  shows "table_view (fst (hashtab_add L htp h hash e)) = (table_view htp)\<lparr>v_heads := (v_heads (table_view htp))
      [bkt (ht_nbuckets htp) hash := cds_add L e (v_heads (table_view htp) ! bkt (ht_nbuckets htp) hash)]\<rparr> \<and>
    snd (hashtab_add L htp h hash e) = h(e := hash) \<and> only_locked (fst (hashtab_add L htp h hash e)) hash"
  using assms
  by (auto simp: hashtab_add_def Let_def set_head_def table_view_def map_update only_locked_def HASH2BKT_def
      bkt_def nth_list_update)

lemma bkt_del_bucket:
  assumes "only_locked htp hash"
  shows "table_view (hashtab_del L htp e) = (table_view htp)\<lparr>v_heads := unlink L e (v_heads (table_view htp))\<rparr> \<and>
    only_locked (hashtab_del L htp e) hash"
  using assms
  by (auto simp: hashtab_del_def table_view_def only_locked_def HASH2BKT_def unlink_def nth_map
      intro!: nth_equalityI)

interpretation bkt: locked_table L "code L" table_view unlocked only_locked
  for L :: "('e, 'l) cds_ops"
proof
  fix t :: "('e, 'k, 'l) hashtab" and hash
  assume t: "unlocked t" "bkt (v_nbuckets (table_view t)) hash < length (v_heads (table_view t))"
  then have l: "unlocked t" "bkt (ht_nbuckets t) hash < length (ht_bkt t)" by (simp_all add: table_view_def)
  show "\<exists>t'. lock_mod (code L) t hash = Some t' \<and> table_view t' = table_view t \<and> only_locked t' hash"
    using bkt_lock_bucket [OF l] by (simp add: code_def hashtab_lock_mod_def)
  show "\<exists>t'. lock_lookup (code L) t hash = Some t' \<and> table_view t' = table_view t \<and>
      table_view (unlock_lookup (code L) t' hash) = table_view t \<and> unlocked (unlock_lookup (code L) t' hash)"
    using bkt_lock_bucket [OF l]
    by (auto simp: code_def hashtab_lock_lookup_def hashtab_unlock_lookup_def bkt_unlock_bucket)
next
  fix t :: "('e, 'k, 'l) hashtab" and hash h key
  assume "bkt (v_nbuckets (table_view t)) hash < length (v_heads (table_view t))"
  then show "lookup (code L) t h hash key = List.find (\<lambda>e. h e = hash \<and> v_cmp (table_view t) e key)
      (cds_entries L (v_heads (table_view t) ! bkt (v_nbuckets (table_view t)) hash))"
    by (simp add: code_def hashtab_lookup_def HASH2BKT_def bkt_def table_view_def)
qed (auto simp: code_def hashtab_unlock_mod_def bkt_unlock_bucket bkt_add_bucket bkt_del_bucket)

end
