(* ===== verification/Hash_Tables.thy ===== *)
theory Hash_Tables
  imports Hash_Bkt Hash_Bkt_Rcu Hash_Global Hash_Unsync
begin

text \<open>
  The four hash tables of datastruct/hash that keep their elements in lists of the userspace-RCU
  library answer every sequence of critical sections alike, and like one unsorted list.
\<close>

lemma alloc_stores:
  assumes "cds_lib L" and "0 < n"
  shows "bkt.stores L cmp (Hash_Bkt.hashtab_alloc L n cmp, h) (h, [])"
    and "bkt_rcu.stores L cmp (Hash_Bkt_Rcu.hashtab_alloc L n cmp, h) (h, [])"
    and "global.stores L cmp (Hash_Global.hashtab_alloc L n cmp, h) (h, [])"
    and "unsync.stores L cmp (Hash_Unsync.hashtab_alloc L n cmp, h) (h, [])"
  using assms cds_lib.bucketed_init [OF assms, of h]
  by (simp_all add: bkt.stores_def bkt_rcu.stores_def global.stores_def unsync.stores_def
      Hash_Bkt.hashtab_alloc_def Hash_Bkt_Rcu.hashtab_alloc_def Hash_Global.hashtab_alloc_def
      Hash_Unsync.hashtab_alloc_def Hash_Bkt.table_view_def Hash_Bkt_Rcu.table_view_def
      Hash_Global.table_view_def Hash_Unsync.table_view_def Hash_Bkt.unlocked_def
      Hash_Bkt_Rcu.unlocked_def Hash_Global.unlocked_def Hash_Unsync.unlocked_def)

text \<open>
  C13: Starting from an empty table with any positive number of buckets, every legal sequence of
  lookups, additions and deletions, each in its critical section, runs to its end without waiting
  forever for a lock, and the results are the same for hash_bkt.c, hash_bkt_rcu.c, hash_global.c
  and hash_unsync.c: those of one unsorted list searched from its most recent element.
\<close>

theorem hash_tables_equivalent:
  assumes "cds_lib L" and "0 < n" and "spec_legal cmp as (h, [])"
  shows "table_run (locked_ops (Hash_Bkt.code L)) as (Hash_Bkt.hashtab_alloc L n cmp, h) = Some (spec_run cmp as (h, [])) \<and>
    table_run (locked_ops (Hash_Bkt_Rcu.code L)) as (Hash_Bkt_Rcu.hashtab_alloc L n cmp, h) = Some (spec_run cmp as (h, [])) \<and>
    table_run (locked_ops (Hash_Global.code L)) as (Hash_Global.hashtab_alloc L n cmp, h) = Some (spec_run cmp as (h, [])) \<and>
    table_run (locked_ops (Hash_Unsync.code L)) as (Hash_Unsync.hashtab_alloc L n cmp, h) = Some (spec_run cmp as (h, []))"
  using alloc_stores [OF assms(1,2), of cmp h] assms(3)
  by (auto intro: bkt.table.run_hist bkt_rcu.table.run_hist global.table.run_hist unsync.table.run_hist)

text \<open>Two buckets; the elements 1 and 3 have the same hash value, and the element is its key.\<close>

lemma hash_tables_equivalent_witness:
  "table_run (locked_ops (Hash_Bkt.code list_cds)) [Add 1 (1 :: nat), Add 1 3, Add 2 2, Lookup 1 1, Del 1 1, Lookup 1 1]
     (Hash_Bkt.hashtab_alloc list_cds 2 (=), \<lambda>e. 0) = Some [None, None, None, Some 1, None, None] \<and>
   table_run (locked_ops (Hash_Global.code list_cds)) [Add 1 (1 :: nat), Add 1 3, Add 2 2, Lookup 1 1, Del 1 1, Lookup 1 1]
     (Hash_Global.hashtab_alloc list_cds 2 (=), \<lambda>e. 0) = Some [None, None, None, Some 1, None, None]"
  using hash_tables_equivalent [OF list_cds.cds_lib_axioms, of 2 "(=)"
      "[Add 1 (1 :: nat), Add 1 3, Add 2 2, Lookup 1 1, Del 1 1, Lookup 1 1]" "\<lambda>e. 0"]
  by simp

end
