(* ===== verification/Hash_Resize.thy ===== *)
theory Hash_Resize
  imports Cds_List
begin

text \<open>
  datastruct/hash/hash_resize.c: a hash table that is resized while it is used. A table instance
  (\<open>struct ht\<close>) has an address; \<open>heap\<close> maps the addresses in use to the instances, and an access to
  any other address is the outcome \<open>Fault\<close>, as is the deletion of an element that is on no list. Taking a
  held lock is \<open>Blocked\<close>. The two list nodes of an element are told apart by the index of the
  instance whose list they are on, a boolean.

  An update-side critical section is split in two where the code reads the current instance:
  \<open>hashtab_lock_mod\<close> first reads \<open>ht_cur\<close> and then, in \<open>lock_buckets\<close>, takes the locks. A
  resize is a sequence of five steps. Traversals by readers that run concurrently with an update of their
  bucket are not modelled.
\<close>

section \<open>Data\<close>

record 'l ht_bucket =
  htb_head :: 'l
  htb_lock :: bool

record ('e, 'k, 'l) ht =
  ht_nbuckets :: int
  ht_resize_cur :: int
  ht_new :: "nat option"
  ht_idx :: bool
  ht_cmp :: "'e \<Rightarrow> 'k \<Rightarrow> bool"
  ht_gethash :: "'k \<Rightarrow> ulong"
  ht_getkey :: "'e \<Rightarrow> 'k"
  ht_bkt :: "'l ht_bucket list"

record ht_lock_state =
  hbp0 :: "nat \<times> nat"
  hbp1 :: "(nat \<times> nat) option"
  hls_hash0 :: ulong
  hls_hash1 :: ulong
  hls_idx0 :: bool
  hls_idx1 :: bool

record ('e, 'k, 'l) hashtab =
  ht_cur :: nat
  ht_lock :: bool
  heap :: "nat \<Rightarrow> ('e, 'k, 'l) ht option"
  hte_hash0 :: "'e \<Rightarrow> ulong"
  hte_hash1 :: "'e \<Rightarrow> ulong"

datatype 'a outcome = Blocked | Fault | Done 'a

fun bind :: "'a outcome \<Rightarrow> ('a \<Rightarrow> 'b outcome) \<Rightarrow> 'b outcome" where
  "bind Blocked f = Blocked"
| "bind Fault f = Fault"
| "bind (Done x) f = f x"

definition ht_at :: "('e, 'k, 'l) hashtab \<Rightarrow> nat \<Rightarrow> ('e, 'k, 'l) ht outcome" where
  "ht_at st a = (case heap st a of None \<Rightarrow> Fault | Some htp \<Rightarrow> Done htp)"

definition set_ht :: "('e, 'k, 'l) hashtab \<Rightarrow> nat \<Rightarrow> ('e, 'k, 'l) ht \<Rightarrow> ('e, 'k, 'l) hashtab" where
  "set_ht st a htp = st\<lparr>heap := (heap st)(a := Some htp)\<rparr>"

definition set_head :: "('e, 'k, 'l) ht \<Rightarrow> nat \<Rightarrow> 'l \<Rightarrow> ('e, 'k, 'l) ht" where
  "set_head htp b l = htp\<lparr>ht_bkt := (ht_bkt htp)[b := (ht_bkt htp ! b)\<lparr>htb_head := l\<rparr>]\<rparr>"

definition set_lock :: "('e, 'k, 'l) ht \<Rightarrow> nat \<Rightarrow> bool \<Rightarrow> ('e, 'k, 'l) ht" where
  "set_lock htp b v = htp\<lparr>ht_bkt := (ht_bkt htp)[b := (ht_bkt htp ! b)\<lparr>htb_lock := v\<rparr>]\<rparr>"

section \<open>Allocation and lookup\<close>

definition ht_alloc :: "('e, 'l) cds_ops \<Rightarrow> int \<Rightarrow> ('e \<Rightarrow> 'k \<Rightarrow> bool) \<Rightarrow> ('k \<Rightarrow> ulong) \<Rightarrow> ('e \<Rightarrow> 'k) \<Rightarrow> ('e, 'k, 'l) ht" where
  "ht_alloc L nbuckets cmp gethash getkey =
     \<lparr>ht_nbuckets = nbuckets, ht_resize_cur = - 1, ht_new = None, ht_idx = False, ht_cmp = cmp,
      ht_gethash = gethash, ht_getkey = getkey,
      ht_bkt = replicate (nat nbuckets) \<lparr>htb_head = cds_init L, htb_lock = False\<rparr>\<rparr>"

text \<open>\<open>p\<close> is the address that \<open>malloc\<close> returns for the instance.\<close>

definition hashtab_alloc ::
    "('e, 'l) cds_ops \<Rightarrow> nat \<Rightarrow> int \<Rightarrow> ('e \<Rightarrow> 'k \<Rightarrow> bool) \<Rightarrow> ('k \<Rightarrow> ulong) \<Rightarrow> ('e \<Rightarrow> 'k) \<Rightarrow>
     ('e \<Rightarrow> ulong) \<Rightarrow> ('e, 'k, 'l) hashtab" where
  "hashtab_alloc L p nbuckets cmp gethash getkey h =
     \<lparr>ht_cur = p, ht_lock = False, heap = Map.empty(p \<mapsto> ht_alloc L nbuckets cmp gethash getkey),
      hte_hash0 = h, hte_hash1 = h\<rparr>"

definition ht_get_bucket :: "('e, 'k, 'l) ht \<Rightarrow> 'k \<Rightarrow> nat \<times> ulong" where
  "ht_get_bucket htp key =
     (let hash = ht_gethash htp key in (nat (uint hash mod ht_nbuckets htp), hash))"

definition ht_search_bucket :: "('e, 'l) cds_ops \<Rightarrow> ('e, 'k, 'l) ht \<Rightarrow> 'k \<Rightarrow> 'e option" where
  "ht_search_bucket L htp key =
     List.find (\<lambda>htep. ht_cmp htp htep key)
       (cds_entries L (htb_head (ht_bkt htp ! fst (ht_get_bucket htp key))))"

definition hashtab_lookup :: "('e, 'l) cds_ops \<Rightarrow> ('e, 'k, 'l) hashtab \<Rightarrow> 'k \<Rightarrow> 'e option outcome" where
  "hashtab_lookup L st key =
     bind (ht_at st (ht_cur st)) (\<lambda>htp. Done (ht_search_bucket L htp key))"

section \<open>Update-side critical sections\<close>

definition spin_lock :: "('e, 'k, 'l) hashtab \<Rightarrow> nat \<Rightarrow> nat \<Rightarrow> ('e, 'k, 'l) hashtab outcome" where
  "spin_lock st a b =
     bind (ht_at st a) (\<lambda>htp. if htb_lock (ht_bkt htp ! b) then Blocked else Done (set_ht st a (set_lock htp b True)))"

definition spin_unlock :: "('e, 'k, 'l) hashtab \<Rightarrow> nat \<Rightarrow> nat \<Rightarrow> ('e, 'k, 'l) hashtab outcome" where
  "spin_unlock st a b = bind (ht_at st a) (\<lambda>htp. Done (set_ht st a (set_lock htp b False)))"

text \<open>The rest of \<open>hashtab_lock_mod\<close>, after it has read \<open>ht_cur\<close> into \<open>a\<close>.\<close>

definition lock_buckets ::
    "('e, 'k, 'l) hashtab \<Rightarrow> nat \<Rightarrow> 'k \<Rightarrow> (('e, 'k, 'l) hashtab \<times> ht_lock_state) outcome" where
  "lock_buckets st a key =
     bind (ht_at st a) (\<lambda>htp.
     let (b, h) = ht_get_bucket htp key in
     bind (spin_lock st a b) (\<lambda>st.
     let lsp = \<lparr>hbp0 = (a, b), hbp1 = None, hls_hash0 = h, hls_hash1 = h, hls_idx0 = ht_idx htp,
                hls_idx1 = ht_idx htp\<rparr> in
     if int b > ht_resize_cur htp then Done (st, lsp)
     else case ht_new htp of
         None \<Rightarrow> Fault
       | Some a1 \<Rightarrow>
           bind (ht_at st a1) (\<lambda>htp1.
           let (b1, h1) = ht_get_bucket htp1 key in
           bind (spin_lock st a1 b1) (\<lambda>st.
           Done (st, lsp\<lparr>hbp1 := Some (a1, b1), hls_hash1 := h1, hls_idx1 := ht_idx htp1\<rparr>)))))"

definition hashtab_lock_mod ::
    "('e, 'k, 'l) hashtab \<Rightarrow> 'k \<Rightarrow> (('e, 'k, 'l) hashtab \<times> ht_lock_state) outcome" where
  "hashtab_lock_mod st key = lock_buckets st (ht_cur st) key"

definition hashtab_unlock_mod :: "('e, 'k, 'l) hashtab \<Rightarrow> ht_lock_state \<Rightarrow> ('e, 'k, 'l) hashtab outcome" where
  "hashtab_unlock_mod st lsp =
     bind (spin_unlock st (fst (hbp0 lsp)) (snd (hbp0 lsp))) (\<lambda>st.
     case hbp1 lsp of None \<Rightarrow> Done st | Some (a1, b1) \<Rightarrow> spin_unlock st a1 b1)"

definition add_to :: "('e, 'l) cds_ops \<Rightarrow> 'e \<Rightarrow> ('e, 'k, 'l) hashtab \<Rightarrow> nat \<times> nat \<Rightarrow> ('e, 'k, 'l) hashtab outcome" where
  "add_to L htep st hbp =
     bind (ht_at st (fst hbp)) (\<lambda>htp.
     Done (set_ht st (fst hbp) (set_head htp (snd hbp) (cds_add L htep (htb_head (ht_bkt htp ! snd hbp))))))"

definition hashtab_add ::
    "('e, 'l) cds_ops \<Rightarrow> ('e, 'k, 'l) hashtab \<Rightarrow> 'e \<Rightarrow> ht_lock_state \<Rightarrow> ('e, 'k, 'l) hashtab outcome" where
  "hashtab_add L st htep lsp =
     bind (add_to L htep (st\<lparr>hte_hash0 := (hte_hash0 st)(htep := hls_hash0 lsp)\<rparr>) (hbp0 lsp)) (\<lambda>st.
     case hbp1 lsp of
       None \<Rightarrow> Done st
     | Some hbp \<Rightarrow> add_to L htep (st\<lparr>hte_hash1 := (hte_hash1 st)(htep := hls_hash1 lsp)\<rparr>) hbp)"

text \<open>
  \<open>cds_list_del_rcu\<close> of the node for instance \<open>a\<close>: it is unlinked from the bucket it is on, and
  when it is on none, its pointers have never been set or are poisoned.
\<close>

definition del_from :: "('e, 'l) cds_ops \<Rightarrow> 'e \<Rightarrow> ('e, 'k, 'l) hashtab \<Rightarrow> nat \<Rightarrow> ('e, 'k, 'l) hashtab outcome" where
  "del_from L htep st a =
     bind (ht_at st a) (\<lambda>htp.
     if \<forall>b \<in> set (ht_bkt htp). htep \<notin> set (cds_entries L (htb_head b)) then Fault
     else Done (set_ht st a (htp\<lparr>ht_bkt := map (\<lambda>b.
       if htep \<in> set (cds_entries L (htb_head b)) then b\<lparr>htb_head := cds_del L htep (htb_head b)\<rparr> else b)
       (ht_bkt htp)\<rparr>)))"

definition hashtab_del ::
    "('e, 'l) cds_ops \<Rightarrow> ('e, 'k, 'l) hashtab \<Rightarrow> 'e \<Rightarrow> ht_lock_state \<Rightarrow> ('e, 'k, 'l) hashtab outcome" where
  "hashtab_del L st htep lsp =
     bind (del_from L htep st (fst (hbp0 lsp))) (\<lambda>st.
     case hbp1 lsp of None \<Rightarrow> Done st | Some hbp \<Rightarrow> del_from L htep st (fst hbp))"

section \<open>Resizing\<close>

text \<open>The local variables \<open>htp\<close>, \<open>htp_new\<close> and \<open>i\<close> of \<open>hashtab_resize\<close>.\<close>

record resizer =
  r_htp :: nat
  r_new :: nat
  r_i :: int

definition EBUSY :: int where "EBUSY = 16"
definition ENOMEM :: int where "ENOMEM = 12"

definition or_old :: "'a option \<Rightarrow> 'a \<Rightarrow> 'a" where
  "or_old x y = (case x of None \<Rightarrow> y | Some z \<Rightarrow> z)"

text \<open>Up to the first \<open>synchronize_rcu\<close>; \<open>p\<close> is the result of \<open>malloc\<close>. An error return is \<open>Inl\<close>.\<close>

definition resize_begin ::
    "('e, 'l) cds_ops \<Rightarrow> ('e, 'k, 'l) hashtab \<Rightarrow> nat option \<Rightarrow> int \<Rightarrow> ('e \<Rightarrow> 'k \<Rightarrow> bool) option \<Rightarrow>
     ('k \<Rightarrow> ulong) option \<Rightarrow> ('e \<Rightarrow> 'k) option \<Rightarrow> (int + ('e, 'k, 'l) hashtab \<times> resizer) outcome" where
  "resize_begin L st p nbuckets cmp gethash getkey =
     (if ht_lock st then Done (Inl (- EBUSY))
      else bind (ht_at st (ht_cur st)) (\<lambda>htp.
        case p of
          None \<Rightarrow> Done (Inl (- ENOMEM))
        | Some a \<Rightarrow>
            let htp_new = (ht_alloc L nbuckets (or_old cmp (ht_cmp htp)) (or_old gethash (ht_gethash htp))
              (or_old getkey (ht_getkey htp)))\<lparr>ht_idx := \<not> ht_idx htp\<rparr> in
            Done (Inr (set_ht (set_ht (st\<lparr>ht_lock := True\<rparr>) a htp_new) (ht_cur st) (htp\<lparr>ht_new := Some a\<rparr>),
              \<lparr>r_htp = ht_cur st, r_new = a, r_i = 0\<rparr>))))"

text \<open>The inner loop, for the elements of one bucket.\<close>

fun move_elems :: "('e, 'l) cds_ops \<Rightarrow> nat \<Rightarrow> 'e list \<Rightarrow> ('e, 'k, 'l) hashtab \<Rightarrow> ('e, 'k, 'l) hashtab outcome" where
  "move_elems L a [] st = Done st"
| "move_elems L a (htep # es) st =
     bind (ht_at st a) (\<lambda>htp_new.
     let b = fst (ht_get_bucket htp_new (ht_getkey htp_new htep)) in
     bind (spin_lock st a b) (\<lambda>st.
     bind (add_to L htep st (a, b)) (\<lambda>st.
     bind (spin_unlock st a b) (\<lambda>st. move_elems L a es st))))"

text \<open>One iteration of the outer loop.\<close>

definition resize_bucket ::
    "('e, 'l) cds_ops \<Rightarrow> ('e, 'k, 'l) hashtab \<Rightarrow> resizer \<Rightarrow> (('e, 'k, 'l) hashtab \<times> resizer) outcome" where
  "resize_bucket L st r =
     (let a = r_htp r; i = nat (r_i r) in
      bind (spin_lock st a i) (\<lambda>st.
      bind (ht_at st a) (\<lambda>htp.
      bind (move_elems L (r_new r) (cds_entries L (htb_head (ht_bkt htp ! i))) st) (\<lambda>st.
      bind (ht_at st a) (\<lambda>htp.
      bind (spin_unlock (set_ht st a (htp\<lparr>ht_resize_cur := r_i r\<rparr>)) a i) (\<lambda>st.
      Done (st, r\<lparr>r_i := r_i r + 1\<rparr>)))))))"

definition resize_switch :: "('e, 'k, 'l) hashtab \<Rightarrow> resizer \<Rightarrow> ('e, 'k, 'l) hashtab" where
  "resize_switch st r = st\<lparr>ht_cur := r_new r\<rparr>"

text \<open>After the second \<open>synchronize_rcu\<close>.\<close>

definition resize_end :: "('e, 'k, 'l) hashtab \<Rightarrow> resizer \<Rightarrow> ('e, 'k, 'l) hashtab" where
  "resize_end st r = st\<lparr>ht_lock := False, heap := (heap st)(r_htp r := None)\<rparr>"

end
