(* ===== verification/Hash_Resize_Inv.thy ===== *)
theory Hash_Resize_Inv
  imports Hash_Resize
begin

text \<open>
  Resizing loses nothing (datastruct/hash/hash_resize.c). \<open>holds\<close> is the invariant of one table
  instance, with one lemma per operation on a bucket; the critical sections are then computed once,
  with and without a resize in progress.
\<close>

section \<open>The critical sections of a client\<close>

text \<open>\<open>a\<close> is the instance that \<open>hashtab_lock_mod\<close> read.\<close>

definition add_section :: "('e, 'l) cds_ops \<Rightarrow> nat \<Rightarrow> 'k \<Rightarrow> 'e \<Rightarrow> ('e, 'k, 'l) hashtab \<Rightarrow> ('e, 'k, 'l) hashtab outcome" where
  "add_section L a key e st =
     bind (lock_buckets st a key) (\<lambda>(st, lsp).
     bind (hashtab_add L st e lsp) (\<lambda>st. hashtab_unlock_mod st lsp))"

definition del_section ::
    "('e, 'l) cds_ops \<Rightarrow> nat \<Rightarrow> 'k \<Rightarrow> ('e, 'k, 'l) hashtab \<Rightarrow> (('e, 'k, 'l) hashtab \<times> 'e option) outcome" where
  "del_section L a key st =
     bind (lock_buckets st a key) (\<lambda>(st, lsp).
     bind (hashtab_lookup L st key) (\<lambda>r.
     bind (case r of None \<Rightarrow> Done st | Some e \<Rightarrow> hashtab_del L st e lsp) (\<lambda>st.
     bind (hashtab_unlock_mod st lsp) (\<lambda>st. Done (st, r)))))"

section \<open>One instance\<close>

definition home :: "('e, 'k, 'l) ht \<Rightarrow> 'k \<Rightarrow> nat" where
  "home t k = fst (ht_get_bucket t k)"

text \<open>The instance has the elements \<open>X\<close> in their buckets, and the locks of the buckets \<open>B\<close> are held.\<close>

definition holds :: "('e, 'l) cds_ops \<Rightarrow> ('e \<Rightarrow> 'k) \<Rightarrow> ('e, 'k, 'l) ht \<Rightarrow> 'e set \<Rightarrow> nat set \<Rightarrow> bool" where
  "holds L K t X B \<longleftrightarrow> 0 < ht_nbuckets t \<and> length (ht_bkt t) = nat (ht_nbuckets t) \<and>
     ht_getkey t = K \<and> ht_cmp t = (\<lambda>e k. K e = k) \<and>
     (\<forall>b < length (ht_bkt t). htb_lock (ht_bkt t ! b) = (b \<in> B)) \<and>
     (\<forall>b < length (ht_bkt t). distinct (cds_entries L (htb_head (ht_bkt t ! b))) \<and>
        set (cds_entries L (htb_head (ht_bkt t ! b))) = {e \<in> X. home t (K e) = b})"

text \<open>The fields that only a resize writes.\<close>

definition ctl :: "('e, 'k, 'l) ht \<Rightarrow> int \<times> int \<times> nat option \<times> bool \<times> ('k \<Rightarrow> ulong)" where
  "ctl t = (ht_nbuckets t, ht_resize_cur t, ht_new t, ht_idx t, ht_gethash t)"

lemma ctlD:
  assumes "ctl t' = ctl t"
  shows "ht_nbuckets t' = ht_nbuckets t" "ht_resize_cur t' = ht_resize_cur t" "ht_new t' = ht_new t"
    "ht_idx t' = ht_idx t" "home t' = home t" "ht_get_bucket t' = ht_get_bucket t"
  using assms by (auto simp: ctl_def home_def ht_get_bucket_def fun_eq_iff)

lemma home_less: "holds L K t X B \<Longrightarrow> home t k < length (ht_bkt t)"
proof -
  assume t: "holds L K t X B"
  then have "uint (ht_gethash t k) mod ht_nbuckets t < ht_nbuckets t" by (simp add: holds_def)
  then show "home t k < length (ht_bkt t)"
    using t by (simp add: holds_def home_def ht_get_bucket_def Let_def)
qed

lemma set_simps [simp]:
  "ctl (set_lock t b v) = ctl t" "ctl (set_head t b l) = ctl t"
  "home (set_lock t b v) = home t" "home (set_head t b l) = home t"
  "length (ht_bkt (set_lock t b v)) = length (ht_bkt t)" "length (ht_bkt (set_head t b l)) = length (ht_bkt t)"
  by (auto simp: ctl_def set_lock_def set_head_def home_def ht_get_bucket_def fun_eq_iff)

lemma holds_lock:
  assumes "holds L K t X B" "b < length (ht_bkt t)"
  shows "holds L K (set_lock t b v) X (if v then insert b B else B - {b})"
  using assms unfolding holds_def set_simps
  by (auto simp: set_lock_def nth_list_update)

lemma holds_search:
  assumes "holds L K t X B"
  shows "case ht_search_bucket L t k of None \<Rightarrow> \<forall>e \<in> X. K e \<noteq> k | Some e \<Rightarrow> e \<in> X \<and> K e = k"
proof -
  let ?es = "cds_entries L (htb_head (ht_bkt t ! home t k))"
  have "set ?es = {e \<in> X. home t (K e) = home t k}" using assms home_less [OF assms] by (simp add: holds_def)
  moreover have "ht_search_bucket L t k = List.find (\<lambda>e. K e = k) ?es"
    using assms by (simp add: ht_search_bucket_def home_def holds_def)
  ultimately show ?thesis by (auto simp: find_None_iff find_Some_iff split: option.split)
qed

definition with_del :: "('e, 'l) cds_ops \<Rightarrow> 'e \<Rightarrow> ('e, 'k, 'l) ht \<Rightarrow> ('e, 'k, 'l) ht" where
  "with_del L e t = t\<lparr>ht_bkt := map (\<lambda>b.
     if e \<in> set (cds_entries L (htb_head b)) then b\<lparr>htb_head := cds_del L e (htb_head b)\<rparr> else b) (ht_bkt t)\<rparr>"

lemma with_del_simps [simp]:
  "ctl (with_del L e t) = ctl t" "home (with_del L e t) = home t"
  "length (ht_bkt (with_del L e t)) = length (ht_bkt t)"
  by (auto simp: ctl_def with_del_def home_def ht_get_bucket_def fun_eq_iff)

context cds_lib
begin

lemma holds_alloc:
  "0 < n \<Longrightarrow> holds L K ((ht_alloc L n (\<lambda>e k. K e = k) g K)\<lparr>ht_idx := i\<rparr>) {} {}"
  by (simp add: holds_def ht_alloc_def)

lemma holds_add:
  assumes t: "holds L K t X B" and e: "e \<notin> X" and b: "b = home t (K e)"
  shows "holds L K (set_head t b (cds_add L e (htb_head (ht_bkt t ! b)))) (insert e X) B"
proof -
  have l: "b < length (ht_bkt t)" using home_less [OF t] b by simp
  then have "e \<notin> set (cds_entries L (htb_head (ht_bkt t ! b)))" using t e by (simp add: holds_def)
  then show ?thesis using t l b unfolding holds_def set_simps
    by (auto simp: set_head_def nth_list_update)
qed

lemma holds_del:
  assumes t: "holds L K t X B"
  shows "holds L K (with_del L e t) (X - {e}) B"
proof -
  have "cds_entries L (htb_head (ht_bkt (with_del L e t) ! b)) = remove1 e (cds_entries L (htb_head (ht_bkt t ! b)))"
    if "b < length (ht_bkt t)" for b
    using that t by (auto simp: with_del_def holds_def remove1_idem)
  moreover have "htb_lock (ht_bkt (with_del L e t) ! b) = htb_lock (ht_bkt t ! b)" if "b < length (ht_bkt t)" for b
    using that by (simp add: with_del_def)
  moreover have "ht_nbuckets (with_del L e t) = ht_nbuckets t" "ht_getkey (with_del L e t) = ht_getkey t"
    "ht_cmp (with_del L e t) = ht_cmp t" by (simp_all add: with_del_def)
  ultimately show ?thesis using t unfolding holds_def with_del_simps by auto
qed

end

lemma holds_linked:
  assumes t: "holds L K t X B" and e: "e \<in> X"
  shows "\<not> (\<forall>b \<in> set (ht_bkt t). e \<notin> set (cds_entries L (htb_head b)))"
proof -
  have "home t (K e) < length (ht_bkt t)" by (rule home_less [OF t])
  moreover from this have "e \<in> set (cds_entries L (htb_head (ht_bkt t ! home t (K e))))"
    using t e by (simp add: holds_def)
  ultimately show ?thesis using nth_mem by blast
qed

section \<open>Operations on the heap\<close>

lemma ht_at [simp]: "heap st a = Some t \<Longrightarrow> ht_at st a = Done t"
  by (simp add: ht_at_def)

lemma set_ht_simps [simp]:
  "heap (set_ht st a t) = (heap st)(a := Some t)" "ht_cur (set_ht st a t) = ht_cur st"
  "ht_lock (set_ht st a t) = ht_lock st"
  by (simp_all add: set_ht_def)

text \<open>States that differ only in the instances \<open>a\<close> and \<open>a1\<close> and in the recorded hash values.\<close>

definition upto :: "('e, 'k, 'l) hashtab \<Rightarrow> (nat \<rightharpoonup> ('e, 'k, 'l) ht) \<Rightarrow> ('e, 'k, 'l) hashtab \<Rightarrow> bool" where
  "upto st h st' \<longleftrightarrow> ht_cur st' = ht_cur st \<and> ht_lock st' = ht_lock st \<and> heap st' = h"

lemma spin_lock:
  assumes "heap st a = Some t" "holds L K t X B" "b < length (ht_bkt t)" "b \<notin> B"
  shows "spin_lock st a b = Done (set_ht st a (set_lock t b True))"
  using assms by (simp add: spin_lock_def holds_def)

lemma spin_unlock: "heap st a = Some t \<Longrightarrow> spin_unlock st a b = Done (set_ht st a (set_lock t b False))"
  by (simp add: spin_unlock_def)

text \<open>The instance after a bucket has been locked, changed by \<open>f\<close> and unlocked.\<close>

definition locked :: "('e, 'k, 'l) ht \<Rightarrow> nat \<Rightarrow> ('e, 'k, 'l) ht" where
  "locked t b = set_lock t b True"

lemma holds_locked: "holds L K t X {} \<Longrightarrow> b < length (ht_bkt t) \<Longrightarrow> holds L K (locked t b) X {b}"
  using holds_lock [of L K t X "{}" b True] by (simp add: locked_def)

lemma holds_unlock: "holds L K t X {b} \<Longrightarrow> b < length (ht_bkt t) \<Longrightarrow> holds L K (set_lock t b False) X {}"
  using holds_lock [of L K t X "{b}" b False] by simp

text \<open>The result of the search under the lock: an element with the key, if there is one.\<close>

definition found :: "('e \<Rightarrow> 'k) \<Rightarrow> 'k \<Rightarrow> 'e set \<Rightarrow> 'e option \<Rightarrow> bool" where
  "found K k X r \<longleftrightarrow> (case r of None \<Rightarrow> \<forall>e \<in> X. K e \<noteq> k | Some e \<Rightarrow> e \<in> X \<and> K e = k)"

section \<open>Taking the locks\<close>

text \<open>With no resize past the bucket, one bucket is locked, and otherwise one of each instance.\<close>

lemma lock_one:
  assumes t: "heap st a = Some t" "holds L K t X {}" and b: "ht_resize_cur t < int (home t k)"
  shows "\<exists>lsp. lock_buckets st a k = Done (set_ht st a (locked t (home t k)), lsp) \<and>
    hbp0 lsp = (a, home t k) \<and> hbp1 lsp = None"
proof -
  obtain h where h: "ht_get_bucket t k = (home t k, h)" by (metis home_def prod.collapse)
  show ?thesis using t b spin_lock [OF t home_less [OF t(2)]] h
    by (simp add: lock_buckets_def locked_def)
qed

lemma lock_two:
  assumes t: "heap st a = Some t" "holds L K t X {}" and b: "int (home t k) \<le> ht_resize_cur t"
    and u: "ht_new t = Some a1" "heap st a1 = Some u" "holds L K u Y {}" and n: "a1 \<noteq> a"
  shows "\<exists>lsp. lock_buckets st a k =
      Done (set_ht (set_ht st a (locked t (home t k))) a1 (locked u (home u k)), lsp) \<and>
    hbp0 lsp = (a, home t k) \<and> hbp1 lsp = Some (a1, home u k)"
proof -
  obtain h where h: "ht_get_bucket t k = (home t k, h)" by (metis home_def prod.collapse)
  obtain h1 where h1: "ht_get_bucket u k = (home u k, h1)" by (metis home_def prod.collapse)
  have "heap (set_ht st a (locked t (home t k))) a1 = Some u" using u n by simp
  note s = spin_lock [OF this u(3) home_less [OF u(3)]]
  show ?thesis using t b u(1,2) n spin_lock [OF t home_less [OF t(2)]] h h1 s
    by (simp add: lock_buckets_def locked_def)
qed

lemma unlock_one:
  assumes "heap st a = Some t" "hbp0 lsp = (a, b)" "hbp1 lsp = None"
  shows "hashtab_unlock_mod st lsp = Done (set_ht st a (set_lock t b False))"
  using assms by (simp add: hashtab_unlock_mod_def spin_unlock)

lemma unlock_two:
  assumes "heap st a = Some t" "hbp0 lsp = (a, b)" "hbp1 lsp = Some (a1, b1)" "heap st a1 = Some u" "a1 \<noteq> a"
  shows "hashtab_unlock_mod st lsp = Done (set_ht (set_ht st a (set_lock t b False)) a1 (set_lock u b1 False))"
  using assms by (simp add: hashtab_unlock_mod_def spin_unlock)

section \<open>The critical sections computed\<close>

definition with_add :: "('e, 'l) cds_ops \<Rightarrow> 'e \<Rightarrow> nat \<Rightarrow> ('e, 'k, 'l) ht \<Rightarrow> ('e, 'k, 'l) ht" where
  "with_add L e b t = set_head t b (cds_add L e (htb_head (ht_bkt t ! b)))"

lemma add_to: "heap st a = Some t \<Longrightarrow> add_to L e st (a, b) = Done (set_ht st a (with_add L e b t))"
  by (simp add: add_to_def with_add_def)

lemma del_from:
  "heap st a = Some t \<Longrightarrow> holds L K t X B \<Longrightarrow> e \<in> X \<Longrightarrow> del_from L e st a = Done (set_ht st a (with_del L e t))"
  using holds_linked [of L K t X B e] by (simp add: del_from_def with_del_def)

lemma heap_hash [simp]:
  "heap (st\<lparr>hte_hash0 := f\<rparr>) = heap st" "heap (st\<lparr>hte_hash1 := f\<rparr>) = heap st"
  by simp_all

context cds_lib
begin

lemma holds_with_add: "holds L K t X B \<Longrightarrow> e \<notin> X \<Longrightarrow> holds L K (with_add L e (home t (K e)) t) (insert e X) B"
  unfolding with_add_def by (rule holds_add) simp_all

text \<open>What the critical section leaves of an instance.\<close>

lemma section_add:
  assumes t: "holds L K t X {}" and e: "e \<notin> X"
  defines "b \<equiv> home t (K e)"
  shows "holds L K (set_lock (with_add L e b (locked t b)) b False) (insert e X) {}"
    and "ctl (set_lock (with_add L e b (locked t b)) b False) = ctl t"
proof -
  have l: "b < length (ht_bkt t)" using home_less [OF t] by (simp add: b_def)
  have "holds L K (locked t b) X {b}" using holds_locked [OF t l] .
  moreover have "home (locked t b) = home t" by (simp add: locked_def)
  ultimately have "holds L K (with_add L e b (locked t b)) (insert e X) {b}"
    using holds_with_add [of K "locked t b" X "{b}" e] e by (simp add: b_def)
  then show "holds L K (set_lock (with_add L e b (locked t b)) b False) (insert e X) {}"
    using l by (intro holds_unlock) (simp_all add: with_add_def locked_def)
  show "ctl (set_lock (with_add L e b (locked t b)) b False) = ctl t" by (simp add: with_add_def locked_def)
qed

lemma section_del:
  assumes t: "holds L K t X {}" and b: "b < length (ht_bkt t)"
  shows "holds L K (set_lock (with_del L e (locked t b)) b False) (X - {e}) {}"
    and "ctl (set_lock (with_del L e (locked t b)) b False) = ctl t"
proof -
  have "holds L K (with_del L e (locked t b)) (X - {e}) {b}"
    using holds_del [OF holds_locked [OF t b]] .
  then show "holds L K (set_lock (with_del L e (locked t b)) b False) (X - {e}) {}"
    using b by (intro holds_unlock) (simp_all add: locked_def)
  show "ctl (set_lock (with_del L e (locked t b)) b False) = ctl t" by (simp add: locked_def)
qed

end

context cds_lib
begin

lemma add_section_one:
  assumes t: "heap st a = Some t" "holds L K t X {}" and b: "ht_resize_cur t < int (home t (K e))"
    and e: "e \<notin> X"
  shows "\<exists>st' t'. add_section L a (K e) e st = Done st' \<and> upto st ((heap st)(a \<mapsto> t')) st' \<and>
    holds L K t' (insert e X) {} \<and> ctl t' = ctl t"
proof -
  let ?b = "home t (K e)"
  obtain lsp where l: "lock_buckets st a (K e) = Done (set_ht st a (locked t ?b), lsp)"
    "hbp0 lsp = (a, ?b)" "hbp1 lsp = None" using lock_one [OF t b] by blast
  let ?s = "set_ht st a (locked t ?b)"
  let ?s1 = "set_ht (?s\<lparr>hte_hash0 := (hte_hash0 ?s)(e := hls_hash0 lsp)\<rparr>) a (with_add L e ?b (locked t ?b))"
  have a: "hashtab_add L ?s e lsp = Done ?s1" using l(2,3) by (simp add: hashtab_add_def add_to)
  have "hashtab_unlock_mod ?s1 lsp = Done (set_ht ?s1 a (set_lock (with_add L e ?b (locked t ?b)) ?b False))"
    by (rule unlock_one [OF _ l(2,3)]) simp
  then have "add_section L a (K e) e st = Done (set_ht ?s1 a (set_lock (with_add L e ?b (locked t ?b)) ?b False))"
    using l(1) a by (simp add: add_section_def)
  moreover have "upto st ((heap st)(a \<mapsto> set_lock (with_add L e ?b (locked t ?b)) ?b False))
      (set_ht ?s1 a (set_lock (with_add L e ?b (locked t ?b)) ?b False))" by (simp add: upto_def)
  ultimately show ?thesis using section_add [OF t(2) e] by blast
qed

lemma add_section_two:
  assumes t: "heap st a = Some t" "holds L K t X {}" and b: "int (home t (K e)) \<le> ht_resize_cur t"
    and u: "ht_new t = Some a1" "heap st a1 = Some u" "holds L K u Y {}" and n: "a1 \<noteq> a"
    and e: "e \<notin> X" "e \<notin> Y"
  shows "\<exists>st' t' u'. add_section L a (K e) e st = Done st' \<and> upto st ((heap st)(a \<mapsto> t', a1 \<mapsto> u')) st' \<and>
    holds L K t' (insert e X) {} \<and> ctl t' = ctl t \<and> holds L K u' (insert e Y) {} \<and> ctl u' = ctl u"
proof -
  let ?b = "home t (K e)" and ?c = "home u (K e)"
  obtain lsp where l: "lock_buckets st a (K e) = Done (set_ht (set_ht st a (locked t ?b)) a1 (locked u ?c), lsp)"
    "hbp0 lsp = (a, ?b)" "hbp1 lsp = Some (a1, ?c)" using lock_two [OF t b u n] by blast
  let ?s = "set_ht (set_ht st a (locked t ?b)) a1 (locked u ?c)"
  let ?s1 = "set_ht (?s\<lparr>hte_hash0 := (hte_hash0 ?s)(e := hls_hash0 lsp)\<rparr>) a (with_add L e ?b (locked t ?b))"
  let ?s2 = "set_ht (?s1\<lparr>hte_hash1 := (hte_hash1 ?s1)(e := hls_hash1 lsp)\<rparr>) a1 (with_add L e ?c (locked u ?c))"
  let ?t = "set_lock (with_add L e ?b (locked t ?b)) ?b False"
  let ?u = "set_lock (with_add L e ?c (locked u ?c)) ?c False"
  have a: "hashtab_add L ?s e lsp = Done ?s2" using l(2,3) n by (simp add: hashtab_add_def add_to)
  have "hashtab_unlock_mod ?s2 lsp = Done (set_ht (set_ht ?s2 a ?t) a1 ?u)"
    by (rule unlock_two [OF _ l(2,3) _ n]) (use n in simp_all)
  then have "add_section L a (K e) e st = Done (set_ht (set_ht ?s2 a ?t) a1 ?u)"
    using l(1) a by (simp add: add_section_def)
  moreover have "upto st ((heap st)(a \<mapsto> ?t, a1 \<mapsto> ?u)) (set_ht (set_ht ?s2 a ?t) a1 ?u)"
    using n by (auto simp: upto_def)
  ultimately show ?thesis using section_add [OF t(2) e(1)] section_add [OF u(3) e(2)] by blast
qed

lemma del_section_one:
  assumes c: "a = ht_cur st" and t: "heap st a = Some t" "holds L K t X {}"
    and b: "ht_resize_cur t < int (home t k)"
  shows "\<exists>st' t' r. del_section L a k st = Done (st', r) \<and> found K k X r \<and>
    upto st ((heap st)(a \<mapsto> t')) st' \<and> holds L K t' (X - set_option r) {} \<and> ctl t' = ctl t"
proof -
  let ?b = "home t k"
  have bl: "?b < length (ht_bkt t)" using home_less [OF t(2)] .
  obtain lsp where l: "lock_buckets st a k = Done (set_ht st a (locked t ?b), lsp)"
    "hbp0 lsp = (a, ?b)" "hbp1 lsp = None" using lock_one [OF t b] by blast
  let ?s = "set_ht st a (locked t ?b)"
  note h = holds_locked [OF t(2) bl]
  obtain r where r: "hashtab_lookup L ?s k = Done r" "found K k X r"
    using holds_search [OF h, of k] c by (simp add: hashtab_lookup_def found_def)
  show ?thesis
  proof (cases r)
    case None
    have "hashtab_unlock_mod ?s lsp = Done (set_ht ?s a (set_lock (locked t ?b) ?b False))"
      by (rule unlock_one [OF _ l(2,3)]) simp
    then have "del_section L a k st = Done (set_ht ?s a (set_lock (locked t ?b) ?b False), None)"
      using l(1) r(1) None by (simp add: del_section_def)
    moreover have "holds L K (set_lock (locked t ?b) ?b False) X {}"
      using holds_unlock [OF h] bl by (simp add: locked_def)
    ultimately show ?thesis using r(2) None
      by (intro exI [of _ "set_ht ?s a (set_lock (locked t ?b) ?b False)"] exI [of _ "set_lock (locked t ?b) ?b False"])
        (simp add: upto_def locked_def)
  next
    case (Some e)
    then have e: "e \<in> X" using r(2) by (simp add: found_def)
    let ?s1 = "set_ht ?s a (with_del L e (locked t ?b))"
    let ?t = "set_lock (with_del L e (locked t ?b)) ?b False"
    have d: "hashtab_del L ?s e lsp = Done ?s1"
      using l(2,3) del_from [of ?s a "locked t ?b" L K X "{?b}" e] h e by (simp add: hashtab_del_def)
    have "hashtab_unlock_mod ?s1 lsp = Done (set_ht ?s1 a ?t)"
      by (rule unlock_one [OF _ l(2,3)]) simp
    then have "del_section L a k st = Done (set_ht ?s1 a ?t, r)"
      using l(1) r(1) Some d by (simp add: del_section_def)
    moreover have "upto st ((heap st)(a \<mapsto> ?t)) (set_ht ?s1 a ?t)" by (simp add: upto_def)
    ultimately show ?thesis using section_del [OF t(2) bl, of e] r(2) Some by auto
  qed
qed

lemma del_section_two:
  assumes c: "a = ht_cur st" and t: "heap st a = Some t" "holds L K t X {}"
    and b: "int (home t k) \<le> ht_resize_cur t"
    and u: "ht_new t = Some a1" "heap st a1 = Some u" "holds L K u Y {}" and n: "a1 \<noteq> a"
    and y: "\<And>e. e \<in> X \<Longrightarrow> K e = k \<Longrightarrow> e \<in> Y"
  shows "\<exists>st' t' u' r. del_section L a k st = Done (st', r) \<and> found K k X r \<and>
    upto st ((heap st)(a \<mapsto> t', a1 \<mapsto> u')) st' \<and> holds L K t' (X - set_option r) {} \<and> ctl t' = ctl t \<and>
    holds L K u' (Y - set_option r) {} \<and> ctl u' = ctl u"
proof -
  let ?b = "home t k" and ?c = "home u k"
  have bl: "?b < length (ht_bkt t)" and cl: "?c < length (ht_bkt u)"
    using home_less [OF t(2)] home_less [OF u(3)] .
  obtain lsp where l: "lock_buckets st a k = Done (set_ht (set_ht st a (locked t ?b)) a1 (locked u ?c), lsp)"
    "hbp0 lsp = (a, ?b)" "hbp1 lsp = Some (a1, ?c)" using lock_two [OF t b u n] by blast
  let ?s = "set_ht (set_ht st a (locked t ?b)) a1 (locked u ?c)"
  note h = holds_locked [OF t(2) bl] and g = holds_locked [OF u(3) cl]
  obtain r where r: "hashtab_lookup L ?s k = Done r" "found K k X r"
    using holds_search [OF h, of k] c n by (simp add: hashtab_lookup_def found_def)
  let ?f = "\<lambda>t. case r of None \<Rightarrow> t | Some e \<Rightarrow> with_del L e t"
  let ?t = "set_lock (?f (locked t ?b)) ?b False" and ?u = "set_lock (?f (locked u ?c)) ?c False"
  have sec: "holds L K ?t (X - set_option r) {} \<and> ctl ?t = ctl t \<and> holds L K ?u (Y - set_option r) {} \<and> ctl ?u = ctl u"
    using section_del [OF t(2) bl] section_del [OF u(3) cl] holds_unlock [OF h] holds_unlock [OF g] bl cl
    by (cases r) (auto simp: locked_def)
  have d: "(case r of None \<Rightarrow> Done ?s | Some e \<Rightarrow> hashtab_del L ?s e lsp) =
    Done (set_ht (set_ht ?s a (?f (locked t ?b))) a1 (?f (locked u ?c)))"
  proof (cases r)
    case (Some e)
    then have e: "e \<in> X" "e \<in> Y" using r(2) y by (auto simp: found_def)
    then show ?thesis using l(2,3) Some n h g del_from [of ?s a "locked t ?b" L K X "{?b}" e]
        del_from [of "set_ht ?s a (with_del L e (locked t ?b))" a1 "locked u ?c" L K Y "{?c}" e]
      by (simp add: hashtab_del_def)
  qed (use n in \<open>simp add: set_ht_def fun_upd_twist fun_upd_idem\<close>)
  let ?s1 = "set_ht (set_ht ?s a (?f (locked t ?b))) a1 (?f (locked u ?c))"
  have "hashtab_unlock_mod ?s1 lsp = Done (set_ht (set_ht ?s1 a ?t) a1 ?u)"
    by (rule unlock_two [OF _ l(2,3) _ n]) (use n in simp_all)
  then have "del_section L a k st = Done (set_ht (set_ht ?s1 a ?t) a1 ?u, r)"
    using l(1) r(1) d by (simp add: del_section_def)
  moreover have "upto st ((heap st)(a \<mapsto> ?t, a1 \<mapsto> ?u)) (set_ht (set_ht ?s1 a ?t) a1 ?u)"
    using n by (auto simp: upto_def)
  ultimately show ?thesis using sec r(2) by blast
qed

end

section \<open>The steps of a resize\<close>

lemma upto_trans: "upto st h1 st1 \<Longrightarrow> upto st1 h2 st2 \<Longrightarrow> upto st h2 st2"
  by (simp add: upto_def)

context cds_lib
begin

lemma move_elems:
  "heap st a = Some u \<Longrightarrow> holds L K u Y {} \<Longrightarrow> distinct es \<Longrightarrow> set es \<inter> Y = {} \<Longrightarrow>
   \<exists>st' u'. move_elems L a es st = Done st' \<and> upto st ((heap st)(a \<mapsto> u')) st' \<and>
     holds L K u' (Y \<union> set es) {} \<and> ctl u' = ctl u"
proof (induction es arbitrary: st u Y)
  case Nil
  then show ?case by (intro exI [of _ st] exI [of _ u]) (auto simp: upto_def)
next
  case (Cons e es)
  let ?b = "home u (K e)"
  have key: "ht_getkey u = K" using Cons.prems(2) by (simp add: holds_def)
  have b: "?b < length (ht_bkt u)" using home_less [OF Cons.prems(2)] .
  let ?u = "set_lock (with_add L e ?b (locked u ?b)) ?b False"
  let ?s = "set_ht st a (locked u ?b)"
  let ?s1 = "set_ht ?s a (with_add L e ?b (locked u ?b))"
  let ?s2 = "set_ht ?s1 a ?u"
  have 1: "spin_lock st a ?b = Done ?s" using spin_lock [OF Cons.prems(1,2) b] by (simp add: locked_def)
  have 2: "add_to L e ?s (a, ?b) = Done ?s1" by (simp add: add_to)
  have 3: "spin_unlock ?s1 a ?b = Done ?s2" by (simp add: spin_unlock)
  have "e \<notin> Y" using Cons.prems(4) by auto
  note u = section_add [OF Cons.prems(2) this]
  have "heap ?s2 a = Some ?u" by simp
  moreover have "distinct es" "set es \<inter> insert e Y = {}" using Cons.prems(3,4) by auto
  ultimately obtain st' u' where m: "move_elems L a es ?s2 = Done st'" "upto ?s2 ((heap ?s2)(a \<mapsto> u')) st'"
    "holds L K u' (insert e Y \<union> set es) {}" "ctl u' = ctl ?u"
    using Cons.IH [OF _ u(1)] by blast
  have r1: "move_elems L a (e # es) st = Done st'"
    using Cons.prems(1) key 1 2 3 m(1) by (simp add: home_def)
  have r2: "upto st ((heap st)(a \<mapsto> u')) st'" using m(2) by (simp add: upto_def)
  show ?case by (intro exI [of _ st'] exI [of _ u'] conjI r1 r2) (use m(3,4) u(2) in simp_all)
qed

text \<open>One iteration of the outer loop moves the elements of bucket \<open>i\<close>.\<close>

lemma resize_bucket:
  assumes t: "heap st (r_htp r) = Some t" "holds L K t X {}" and u: "heap st (r_new r) = Some u"
    and n: "r_new r \<noteq> r_htp r" and i: "0 \<le> r_i r" "r_i r < ht_nbuckets t"
    and Y: "holds L K u {e \<in> X. int (home t (K e)) < r_i r} {}"
  shows "\<exists>st' t' u'. resize_bucket L st r = Done (st', r\<lparr>r_i := r_i r + 1\<rparr>) \<and>
    upto st ((heap st)(r_htp r \<mapsto> t', r_new r \<mapsto> u')) st' \<and> holds L K t' X {} \<and>
    ctl t' = ctl (t\<lparr>ht_resize_cur := r_i r\<rparr>) \<and> ctl u' = ctl u \<and>
    holds L K u' {e \<in> X. int (home t (K e)) < r_i r + 1} {}"
proof -
  let ?a = "r_htp r" and ?i = "nat (r_i r)" and ?Y = "{e \<in> X. int (home t (K e)) < r_i r}"
  have l: "?i < length (ht_bkt t)" using t(2) i by (simp add: holds_def)
  let ?s = "set_ht st ?a (locked t ?i)"
  let ?es = "cds_entries L (htb_head (ht_bkt (locked t ?i) ! ?i))"
  note h = holds_locked [OF t(2) l]
  have es: "distinct ?es" "set ?es = {e \<in> X. home t (K e) = ?i}"
    using h l by (simp_all add: holds_def locked_def)
  have 1: "spin_lock st ?a ?i = Done ?s" using spin_lock [OF t l] by (simp add: locked_def)
  have "heap ?s (r_new r) = Some u" using u n by simp
  moreover have "set ?es \<inter> ?Y = {}" unfolding es(2) using i(1) by (auto split: if_splits)
  ultimately obtain st1 u' where m: "move_elems L (r_new r) ?es ?s = Done st1"
    "upto ?s ((heap ?s)(r_new r \<mapsto> u')) st1" "holds L K u' (?Y \<union> set ?es) {}" "ctl u' = ctl u"
    using move_elems [OF _ Y es(1)] by blast
  have a1: "heap st1 ?a = Some (locked t ?i)" using m(2) n by (simp add: upto_def)
  let ?t1 = "(locked t ?i)\<lparr>ht_resize_cur := r_i r\<rparr>"
  let ?t2 = "set_lock ?t1 ?i False"
  let ?st2 = "set_ht (set_ht st1 ?a ?t1) ?a ?t2"
  have 2: "spin_unlock (set_ht st1 ?a ?t1) ?a ?i = Done ?st2" by (simp add: spin_unlock)
  have "holds L K ?t1 X {?i}" using h by (simp add: holds_def home_def ht_get_bucket_def)
  then have f1: "holds L K ?t2 X {}" using l by (intro holds_unlock) (simp_all add: locked_def)
  have f2: "resize_bucket L st r = Done (?st2, r\<lparr>r_i := r_i r + 1\<rparr>)"
    using 1 m(1) a1 2 by (simp add: resize_bucket_def Let_def)
  have f3: "upto st ((heap st)(?a \<mapsto> ?t2, r_new r \<mapsto> u')) ?st2"
    using m(2) n by (auto simp: upto_def fun_upd_twist)
  have f4: "ctl ?t2 = ctl (t\<lparr>ht_resize_cur := r_i r\<rparr>)" by (simp add: ctl_def set_lock_def locked_def)
  have f5: "?Y \<union> set ?es = {e \<in> X. int (home t (K e)) < r_i r + 1}"
    unfolding es(2) using i(1) by (auto split: if_splits)
  show ?thesis
    by (intro exI [of _ ?st2] exI [of _ ?t2] exI [of _ u'] conjI f1 f2 f3 f4 m(4)) (use m(3) f5 in simp)
qed

end

section \<open>Reachable states\<close>

datatype phase = Idle | Begun resizer "nat set" | Copying resizer | Waiting resizer "nat set"

text \<open>
  The whole system: the table, the phase of the resize, the set of elements a client has added
  and not deleted, and for every thread the instance that the \<open>hashtab_lock_mod\<close> of its pending
  update-side critical section has read from \<open>ht_cur\<close>. That read is a step of its own; the rest of the
  section, which holds the locks of its buckets, is another. The two calls of \<open>synchronize_rcu\<close> in
  \<open>hashtab_resize\<close> wait for the sections that were pending when they were made, the sets of threads in
  \<open>Begun\<close> and \<open>Waiting\<close>. A second resize finds \<open>ht_lock\<close> held and returns \<open>-EBUSY\<close>; functions
  given to a resize agree with the key function \<open>K\<close>.

  The runs of the code are those with \<open>spans\<close>. Without it no section is pending when the new
  instance is published, which the code does not ensure.
\<close>

type_synonym ('e, 'k, 'l) hash_state = "('e, 'k, 'l) hashtab \<times> phase \<times> 'e set \<times> (nat \<Rightarrow> nat option)"

definition pending :: "(nat \<Rightarrow> nat option) \<Rightarrow> nat set" where
  "pending Q = {t. Q t \<noteq> None}"

text \<open>Thread \<open>t\<close> leaves its section, with the \<open>rcu_read_unlock\<close> of \<open>hashtab_unlock_mod\<close>.\<close>

fun leave :: "nat \<Rightarrow> phase \<Rightarrow> phase" where
  "leave t (Begun r W) = Begun r (W - {t})"
| "leave t (Waiting r W) = Waiting r (W - {t})"
| "leave t ph = ph"

inductive hash_step :: "bool \<Rightarrow> ('e, 'l) cds_ops \<Rightarrow> ('e \<Rightarrow> 'k) \<Rightarrow>
    ('e, 'k, 'l) hash_state \<Rightarrow> ('e, 'k, 'l) hash_state \<Rightarrow> bool" for spans L K where
  enter: "Q t = None \<Longrightarrow> hash_step spans L K (st, ph, S, Q) (st, ph, S, Q(t := Some (ht_cur st)))"
| add: "Q t = Some a \<Longrightarrow> e \<notin> S \<Longrightarrow> add_section L a (K e) e st = Done st' \<Longrightarrow>
    hash_step spans L K (st, ph, S, Q) (st', leave t ph, insert e S, Q(t := None))"
| del: "Q t = Some a \<Longrightarrow> del_section L a k st = Done (st', r) \<Longrightarrow>
    hash_step spans L K (st, ph, S, Q) (st', leave t ph, S - set_option r, Q(t := None))"
| begin_resize: "heap st p = None \<Longrightarrow> 0 < n \<Longrightarrow> cmp \<in> {None, Some (\<lambda>e k. K e = k)} \<Longrightarrow> key \<in> {None, Some K} \<Longrightarrow>
    resize_begin L st (Some p) n cmp g key = Done (Inr (st', r)) \<Longrightarrow>
    hash_step spans L K (st, Idle, S, Q) (st', Begun r (pending Q), S, Q)"
| synchronized: "hash_step spans L K (st, Begun r {}, S, Q) (st, Copying r, S, Q)"
| copy: "heap st (r_htp r) = Some t \<Longrightarrow> r_i r < ht_nbuckets t \<Longrightarrow> resize_bucket L st r = Done (st', r') \<Longrightarrow>
    hash_step spans L K (st, Copying r, S, Q) (st', Copying r', S, Q)"
| switch: "heap st (r_htp r) = Some t \<Longrightarrow> \<not> r_i r < ht_nbuckets t \<Longrightarrow> spans \<or> pending Q = {} \<Longrightarrow>
    hash_step spans L K (st, Copying r, S, Q) (resize_switch st r, Waiting r (pending Q), S, Q)"
| end_resize: "hash_step spans L K (st, Waiting r {}, S, Q) (resize_end st r, Idle, S, Q)"

definition hash_init :: "('e, 'l) cds_ops \<Rightarrow> ('e \<Rightarrow> 'k) \<Rightarrow> ('e, 'k, 'l) hash_state \<Rightarrow> bool" where
  "hash_init L K x \<longleftrightarrow>
     (\<exists>p n g h. 0 < n \<and> x = (hashtab_alloc L p n (\<lambda>e k. K e = k) g K h, Idle, {}, \<lambda>_. None))"

definition current :: "('e, 'l) cds_ops \<Rightarrow> ('e \<Rightarrow> 'k) \<Rightarrow> ('e, 'k, 'l) hashtab \<Rightarrow> 'e set \<Rightarrow> bool" where
  "current L K st S \<longleftrightarrow> (\<exists>t. heap st (ht_cur st) = Some t \<and> holds L K t S {} \<and> ht_resize_cur t = - 1)"

definition moving :: "('e, 'l) cds_ops \<Rightarrow> ('e \<Rightarrow> 'k) \<Rightarrow> ('e, 'k, 'l) hashtab \<Rightarrow> 'e set \<Rightarrow> resizer \<Rightarrow> bool" where
  "moving L K st S r \<longleftrightarrow> (\<exists>t u. r_htp r = ht_cur st \<and> r_new r \<noteq> r_htp r \<and>
     heap st (r_htp r) = Some t \<and> heap st (r_new r) = Some u \<and> holds L K t S {} \<and>
     holds L K u {e \<in> S. int (home t (K e)) < r_i r} {} \<and> ht_new t = Some (r_new r) \<and>
     ht_resize_cur t = r_i r - 1 \<and> 0 \<le> r_i r \<and> r_i r \<le> ht_nbuckets t \<and> ht_resize_cur u = - 1)"

fun phase_inv :: "('e, 'l) cds_ops \<Rightarrow> ('e \<Rightarrow> 'k) \<Rightarrow> ('e, 'k, 'l) hashtab \<Rightarrow> 'e set \<Rightarrow> phase \<Rightarrow> bool" where
  "phase_inv L K st S Idle \<longleftrightarrow> current L K st S \<and> \<not> ht_lock st"
| "phase_inv L K st S (Begun r W) \<longleftrightarrow> moving L K st S r \<and> ht_lock st"
| "phase_inv L K st S (Copying r) \<longleftrightarrow> moving L K st S r \<and> ht_lock st"
| "phase_inv L K st S (Waiting r W) \<longleftrightarrow> current L K st S \<and> ht_lock st \<and> r_htp r \<noteq> ht_cur st"

text \<open>Without spanning sections, all that are pending have read the current instance.\<close>

fun resize_inv :: "('e, 'l) cds_ops \<Rightarrow> ('e \<Rightarrow> 'k) \<Rightarrow> ('e, 'k, 'l) hash_state \<Rightarrow> bool" where
  "resize_inv L K (st, ph, S, Q) \<longleftrightarrow> phase_inv L K st S ph \<and> (\<forall>t a. Q t = Some a \<longrightarrow> a = ht_cur st)"

lemma phase_inv_leave [simp]: "phase_inv L K st S (leave t ph) = phase_inv L K st S ph"
  by (cases ph) simp_all

context cds_lib
begin

lemma current_add:
  assumes "current L K st S" "e \<notin> S"
  shows "\<exists>st'. add_section L (ht_cur st) (K e) e st = Done st' \<and> current L K st' (insert e S) \<and>
    ht_cur st' = ht_cur st \<and> ht_lock st' = ht_lock st"
proof -
  obtain t where t: "heap st (ht_cur st) = Some t" "holds L K t S {}" "ht_resize_cur t = - 1"
    using assms(1) by (auto simp: current_def)
  obtain st' t' where s: "add_section L (ht_cur st) (K e) e st = Done st'"
    "upto st ((heap st)(ht_cur st \<mapsto> t')) st'" "holds L K t' (insert e S) {}" "ctl t' = ctl t"
    using add_section_one [OF t(1,2) _ assms(2)] t(3) by auto
  then show ?thesis using t(3) ctlD(2) [OF s(4)] by (auto simp: upto_def current_def)
qed

lemma current_del:
  assumes "current L K st S"
  shows "\<exists>st' r. del_section L (ht_cur st) k st = Done (st', r) \<and> found K k S r \<and> current L K st' (S - set_option r) \<and>
    ht_cur st' = ht_cur st \<and> ht_lock st' = ht_lock st"
proof -
  obtain t where t: "heap st (ht_cur st) = Some t" "holds L K t S {}" "ht_resize_cur t = - 1"
    using assms by (auto simp: current_def)
  obtain st' t' r where s: "del_section L (ht_cur st) k st = Done (st', r)" "found K k S r"
    "upto st ((heap st)(ht_cur st \<mapsto> t')) st'" "holds L K t' (S - set_option r) {}" "ctl t' = ctl t"
    using del_section_one [OF refl t(1,2), of k] t(3) by auto
  then show ?thesis using t(3) ctlD(2) [OF s(5)] by (auto simp: upto_def current_def)
qed

end

end
