(* ===== verification/Hash_Resize_Safe.thy ===== *)
theory Hash_Resize_Safe
  imports Hash_Resize_Inv
begin

text \<open>
  datastruct/hash/hash_resize.c as a whole: lookups are right in every reachable state, also in the
  middle of a resize, and no operation waits forever or faults, provided that no update-side critical section
  spans the moment when the new instance is published. The last theorem shows that the provision is
  needed: the code does not enforce it.
\<close>

context cds_lib
begin

lemma movingE:
  assumes "moving L K st S r"
  obtains t u where "r_htp r = ht_cur st" "r_new r \<noteq> ht_cur st" "heap st (ht_cur st) = Some t"
    "heap st (r_new r) = Some u" "holds L K t S {}" "holds L K u {e \<in> S. int (home t (K e)) < r_i r} {}"
    "ht_new t = Some (r_new r)" "ht_resize_cur t = r_i r - 1" "0 \<le> r_i r" "r_i r \<le> ht_nbuckets t"
    "ht_resize_cur u = - 1"
  using assms by (auto simp: moving_def)

text \<open>The new instance after an update of both, or of the old one only.\<close>

lemma movingI:
  assumes "moving L K st S r" and t: "heap st (ht_cur st) = Some t" "heap st (r_new r) = Some u"
    and "upto st h st'" and "h (ht_cur st) = Some t'" "h (r_new r) = Some u'"
    and "holds L K t' S' {}" "ctl t' = ctl t" "ctl u' = ctl u"
    and "holds L K u' {e \<in> S'. int (home t (K e)) < r_i r} {}"
  shows "moving L K st' S' r \<and> ht_cur st' = ht_cur st \<and> ht_lock st' = ht_lock st"
  using assms ctlD [OF assms(8)] ctlD(2) [OF assms(9)]
  by (auto simp: moving_def upto_def)

lemma moving_add:
  assumes m: "moving L K st S r" and e: "e \<notin> S"
  shows "\<exists>st'. add_section L (ht_cur st) (K e) e st = Done st' \<and> moving L K st' (insert e S) r \<and>
    ht_cur st' = ht_cur st \<and> ht_lock st' = ht_lock st"
proof -
  from m obtain t u where M: "r_htp r = ht_cur st" "r_new r \<noteq> ht_cur st" "heap st (ht_cur st) = Some t"
    "heap st (r_new r) = Some u" "holds L K t S {}" "holds L K u {e \<in> S. int (home t (K e)) < r_i r} {}"
    "ht_new t = Some (r_new r)" "ht_resize_cur t = r_i r - 1" by (rule movingE)
  show ?thesis
  proof (cases "int (home t (K e)) < r_i r")
    case True
    then have b: "int (home t (K e)) \<le> ht_resize_cur t" using M(8) by simp
    have y: "e \<notin> {e \<in> S. int (home t (K e)) < r_i r}" using e by simp
    obtain st' t' u' where s: "add_section L (ht_cur st) (K e) e st = Done st'"
      "upto st ((heap st)(ht_cur st \<mapsto> t', r_new r \<mapsto> u')) st'" "holds L K t' (insert e S) {}" "ctl t' = ctl t"
      "holds L K u' (insert e {e \<in> S. int (home t (K e)) < r_i r}) {}" "ctl u' = ctl u"
      using add_section_two [OF M(3,5) b M(7,4,6,2) e y] by blast
    have "insert e {e \<in> S. int (home t (K e)) < r_i r} = {x \<in> insert e S. int (home t (K x)) < r_i r}"
      using True by auto
    then show ?thesis using s movingI [OF m M(3,4) s(2) _ _ s(3,4,6)] M(2) by simp
  next
    case False
    then have b: "ht_resize_cur t < int (home t (K e))" using M(8) by simp
    obtain st' t' where s: "add_section L (ht_cur st) (K e) e st = Done st'"
      "upto st ((heap st)(ht_cur st \<mapsto> t')) st'" "holds L K t' (insert e S) {}" "ctl t' = ctl t"
      using add_section_one [OF M(3,5) b e] by blast
    have "{e \<in> S. int (home t (K e)) < r_i r} = {x \<in> insert e S. int (home t (K x)) < r_i r}"
      using False by auto
    then show ?thesis using s movingI [OF m M(3,4) s(2) _ _ s(3,4) refl] M by simp
  qed
qed

lemma moving_del:
  assumes m: "moving L K st S r"
  shows "\<exists>st' x. del_section L (ht_cur st) k st = Done (st', x) \<and> found K k S x \<and>
    moving L K st' (S - set_option x) r \<and> ht_cur st' = ht_cur st \<and> ht_lock st' = ht_lock st"
proof -
  from m obtain t u where M: "r_htp r = ht_cur st" "r_new r \<noteq> ht_cur st" "heap st (ht_cur st) = Some t"
    "heap st (r_new r) = Some u" "holds L K t S {}" "holds L K u {e \<in> S. int (home t (K e)) < r_i r} {}"
    "ht_new t = Some (r_new r)" "ht_resize_cur t = r_i r - 1" by (rule movingE)
  show ?thesis
  proof (cases "int (home t k) < r_i r")
    case True
    then have b: "int (home t k) \<le> ht_resize_cur t" using M(8) by simp
    have y: "\<And>e. e \<in> S \<Longrightarrow> K e = k \<Longrightarrow> e \<in> {e \<in> S. int (home t (K e)) < r_i r}" using True by simp
    obtain st' t' u' x where s: "del_section L (ht_cur st) k st = Done (st', x)" "found K k S x"
      "upto st ((heap st)(ht_cur st \<mapsto> t', r_new r \<mapsto> u')) st'" "holds L K t' (S - set_option x) {}" "ctl t' = ctl t"
      "holds L K u' ({e \<in> S. int (home t (K e)) < r_i r} - set_option x) {}" "ctl u' = ctl u"
      using del_section_two [OF refl M(3,5) b M(7,4,6,2) y] by blast
    have "{e \<in> S. int (home t (K e)) < r_i r} - set_option x = {y \<in> S - set_option x. int (home t (K y)) < r_i r}"
      by auto
    then show ?thesis using s movingI [OF m M(3,4) s(3) _ _ s(4,5,7)] M(2) by simp
  next
    case False
    then have b: "ht_resize_cur t < int (home t k)" using M(8) by simp
    obtain st' t' x where s: "del_section L (ht_cur st) k st = Done (st', x)" "found K k S x"
      "upto st ((heap st)(ht_cur st \<mapsto> t')) st'" "holds L K t' (S - set_option x) {}" "ctl t' = ctl t"
      using del_section_one [OF refl M(3,5) b] by blast
    have "{e \<in> S. int (home t (K e)) < r_i r} = {y \<in> S - set_option x. int (home t (K y)) < r_i r}"
      using False s(2) by (auto simp: found_def split: option.splits)
    then show ?thesis using s movingI [OF m M(3,4) s(3) _ _ s(4,5) refl] M by simp
  qed
qed

lemma moving_copy:
  assumes m: "moving L K st S r" and t: "heap st (r_htp r) = Some t" "r_i r < ht_nbuckets t"
  shows "\<exists>st'. resize_bucket L st r = Done (st', r\<lparr>r_i := r_i r + 1\<rparr>) \<and>
    moving L K st' S (r\<lparr>r_i := r_i r + 1\<rparr>) \<and> ht_cur st' = ht_cur st \<and> ht_lock st' = ht_lock st"
proof -
  from m obtain t0 u where M: "r_htp r = ht_cur st" "r_new r \<noteq> ht_cur st" "heap st (ht_cur st) = Some t0"
    "heap st (r_new r) = Some u" "holds L K t0 S {}" "holds L K u {e \<in> S. int (home t0 (K e)) < r_i r} {}"
    "ht_new t0 = Some (r_new r)" "ht_resize_cur t0 = r_i r - 1" "0 \<le> r_i r" "r_i r \<le> ht_nbuckets t0"
    "ht_resize_cur u = - 1" by (rule movingE)
  have t0: "t0 = t" using M(1,3) t(1) by simp
  obtain st' t' u' where s: "resize_bucket L st r = Done (st', r\<lparr>r_i := r_i r + 1\<rparr>)"
    "upto st ((heap st)(r_htp r \<mapsto> t', r_new r \<mapsto> u')) st'" "holds L K t' S {}"
    "ctl t' = ctl (t\<lparr>ht_resize_cur := r_i r\<rparr>)" "ctl u' = ctl u"
    "holds L K u' {e \<in> S. int (home t (K e)) < r_i r + 1} {}"
    using resize_bucket [OF t(1) M(5) [unfolded t0] M(4) _ M(9) t(2) M(6) [unfolded t0]] M(1,2) by auto
  have c: "ht_nbuckets t' = ht_nbuckets t" "ht_resize_cur t' = r_i r" "ht_new t' = Some (r_new r)" "home t' = home t"
    "ht_resize_cur u' = - 1"
    using ctlD [OF s(4)] ctlD(2) [OF s(5)] M(7,11) t0 by (auto simp: home_def ht_get_bucket_def fun_eq_iff)
  show ?thesis using s(1-3,6) c M(1,2,9) t(2) by (auto simp: moving_def upto_def)
qed

lemma begin_moving:
  assumes c: "current L K st S" and p: "heap st p = None" and n: "0 < n"
    and f: "cmp \<in> {None, Some (\<lambda>e k. K e = k)}" "key \<in> {None, Some K}"
    and b: "resize_begin L st (Some p) n cmp g key = Done (Inr (st', r))"
  shows "moving L K st' S r \<and> ht_lock st'"
proof -
  obtain t where t: "heap st (ht_cur st) = Some t" "holds L K t S {}" "ht_resize_cur t = - 1"
    using c by (auto simp: current_def)
  have pc: "p \<noteq> ht_cur st" using p t(1) by auto
  let ?u = "(ht_alloc L n (or_old cmp (ht_cmp t)) (or_old g (ht_gethash t)) (or_old key (ht_getkey t)))
    \<lparr>ht_idx := \<not> ht_idx t\<rparr>"
  have "or_old cmp (ht_cmp t) = (\<lambda>e k. K e = k)" "or_old key (ht_getkey t) = K"
    using f t(2) by (auto simp: or_old_def holds_def)
  then have u: "holds L K ?u {} {}" "ht_resize_cur ?u = - 1" using holds_alloc [OF n] by (simp_all add: ht_alloc_def)
  have nb: "0 < ht_nbuckets t" using t(2) by (simp add: holds_def)
  have r: "r = \<lparr>r_htp = ht_cur st, r_new = p, r_i = 0\<rparr>"
    "st' = set_ht (set_ht (st\<lparr>ht_lock := True\<rparr>) p ?u) (ht_cur st) (t\<lparr>ht_new := Some p\<rparr>)"
    using b t(1) by (auto simp: resize_begin_def Let_def split: if_splits)
  have "holds L K (t\<lparr>ht_new := Some p\<rparr>) S {}" using t(2) by (simp add: holds_def home_def ht_get_bucket_def)
  moreover have "{e \<in> S. int (home (t\<lparr>ht_new := Some p\<rparr>) (K e)) < 0} = {}" by auto
  ultimately show ?thesis using r pc u t(3) nb by (simp add: moving_def)
qed

lemma moving_switch:
  assumes m: "moving L K st S r" and t: "heap st (r_htp r) = Some t" "\<not> r_i r < ht_nbuckets t"
  shows "current L K (resize_switch st r) S \<and> r_htp r \<noteq> ht_cur (resize_switch st r)"
proof -
  from m obtain t0 u where M: "r_htp r = ht_cur st" "r_new r \<noteq> ht_cur st" "heap st (ht_cur st) = Some t0"
    "heap st (r_new r) = Some u" "holds L K t0 S {}" "holds L K u {e \<in> S. int (home t0 (K e)) < r_i r} {}"
    "ht_resize_cur u = - 1" by (rule movingE)
  have t0: "t0 = t" using M(1,3) t(1) by simp
  have "int (home t (K e)) < r_i r" for e
    using home_less [OF M(5), of "K e"] M(5) t(2) t0 by (simp add: holds_def)
  then have "holds L K u S {}" using M(6) t0 by simp
  then show ?thesis using M by (simp add: current_def resize_switch_def)
qed

lemma phase_add:
  assumes "phase_inv L K st S ph" and "e \<notin> S"
  shows "\<exists>st'. add_section L (ht_cur st) (K e) e st = Done st' \<and> phase_inv L K st' (insert e S) ph \<and>
    ht_cur st' = ht_cur st"
  using assms current_add [of K st S e] moving_add [of K st S _ e] by (cases ph) fastforce+

lemma phase_del:
  assumes "phase_inv L K st S ph"
  shows "\<exists>st' x. del_section L (ht_cur st) k st = Done (st', x) \<and> found K k S x \<and>
    phase_inv L K st' (S - set_option x) ph \<and> ht_cur st' = ht_cur st"
  using assms current_del [of K st S k] moving_del [of K st S _ k] by (cases ph) fastforce+

lemma resize_inv_step:
  assumes x: "resize_inv L K x" and s: "hash_step False L K x y"
  shows "resize_inv L K y"
  using s
proof (cases rule: hash_step.cases)
  case (add Q t a e S st st' ph)
  then have i: "phase_inv L K st S ph" "a = ht_cur st" "\<forall>t a. Q t = Some a \<longrightarrow> a = ht_cur st" using x by auto
  from phase_add [OF i(1) add(4)] add(5) i(2)
  have "phase_inv L K st' (insert e S) ph" "ht_cur st' = ht_cur st" by simp_all
  then show ?thesis using i(3) unfolding add(2) by simp
next
  case (del Q t a k st st' r ph S)
  then have i: "phase_inv L K st S ph" "a = ht_cur st" "\<forall>t a. Q t = Some a \<longrightarrow> a = ht_cur st" using x by auto
  from phase_del [OF i(1), of k] del(4) i(2)
  have "phase_inv L K st' (S - set_option r) ph" "ht_cur st' = ht_cur st" by auto
  then show ?thesis using i(3) unfolding del(2) by simp
next
  case (begin_resize st p n cmp key g st' r S Q)
  then obtain t where "heap st (ht_cur st) = Some t" using x by (auto simp: current_def)
  with begin_resize(7) have "ht_cur st' = ht_cur st" by (auto simp: resize_begin_def Let_def split: if_splits)
  then show ?thesis using begin_resize x begin_moving [of K st S p n cmp key g st' r] by simp
next
  case (copy st r t st' r' S Q)
  then show ?thesis using x moving_copy [of K st S r t] by force
next
  case (switch st r t Q S)
  then show ?thesis using x moving_switch [of K st S r t] by (auto simp: resize_switch_def pending_def)
next
  case (end_resize st r S Q)
  then show ?thesis using x by (auto simp: current_def resize_end_def)
qed (use x in auto)

lemma resize_inv_init: "hash_init L K x \<Longrightarrow> resize_inv L K x"
proof -
  assume "hash_init L K x"
  then obtain p n g h where n: "0 < n" and x: "x = (hashtab_alloc L p n (\<lambda>e k. K e = k) g K h, Idle, {}, \<lambda>_. None)"
    by (auto simp: hash_init_def)
  have "holds L K ((ht_alloc L n (\<lambda>e k. K e = k) g K)\<lparr>ht_idx := False\<rparr>) {} {}" using holds_alloc [OF n] .
  moreover have "(ht_alloc L n (\<lambda>e k. K e = k) g K)\<lparr>ht_idx := False\<rparr> = ht_alloc L n (\<lambda>e k. K e = k) g K"
    by (simp add: ht_alloc_def)
  ultimately show ?thesis unfolding x
    by (simp add: current_def hashtab_alloc_def) (simp add: ht_alloc_def)
qed

lemma reachable_resize_inv: "reachable (hash_init L K) (hash_step False L K) x \<Longrightarrow> resize_inv L K x"
  by (rule reachable_invariant [OF _ resize_inv_init resize_inv_step])

lemma inv_instance:
  assumes "phase_inv L K st S ph"
  shows "\<exists>t. heap st (ht_cur st) = Some t \<and> holds L K t S {}"
  using assms by (cases ph) (auto simp: current_def moving_def)

end

section \<open>The properties\<close>

text \<open>
  C4: In every state that additions, deletions and resizes can reach, also while the elements are
  being moved to the new instance, a lookup finds an element with the key exactly when one has been
  added and not deleted, and returns such an element, provided that no update-side critical section,
  from its read of \<open>ht_cur\<close> to its end, spans the publication of a new instance. The code does not
  ensure that, as the last theorem of this theory shows.
\<close>

theorem hash_resize_lookup:
  assumes "cds_lib L" and "reachable (hash_init L K) (hash_step False L K) (st, ph, S, Q)"
  shows "case hashtab_lookup L st k of Done None \<Rightarrow> \<forall>e \<in> S. K e \<noteq> k | Done (Some e) \<Rightarrow> e \<in> S \<and> K e = k | _ \<Rightarrow> False"
proof -
  have "phase_inv L K st S ph" using cds_lib.reachable_resize_inv [OF assms] by simp
  then obtain t where "heap st (ht_cur st) = Some t" "holds L K t S {}"
    using cds_lib.inv_instance [OF assms(1)] by blast
  then show ?thesis using holds_search [of L K t S "{}" k]
    by (auto simp: hashtab_lookup_def split: option.splits)
qed

text \<open>
  C26: Provided that no update-side critical section spans the publication of a new instance, none
  waits forever or touches a freed instance or an unlinked element, in whatever stage a resize is:
  for the instance that a pending section has read, both the addition of a new element and the
  deletion of what a lookup under the lock finds run to their end, and the next step of a resize
  that moves elements does as well.
\<close>

theorem hash_resize_progress:
  assumes "cds_lib L" and "reachable (hash_init L K) (hash_step False L K) (st, ph, S, Q)"
    and "Q t = Some a" and "e \<notin> S"
  shows "(\<exists>st'. add_section L a (K e) e st = Done st') \<and>
    (\<exists>st' x. del_section L a k st = Done (st', x) \<and> found K k S x) \<and>
    (case ph of Copying r \<Rightarrow> (\<exists>htp. heap st (r_htp r) = Some htp \<and>
       (r_i r < ht_nbuckets htp \<longrightarrow> (\<exists>x. resize_bucket L st r = Done x))) | _ \<Rightarrow> True)"
proof -
  have i: "phase_inv L K st S ph" and a: "a = ht_cur st"
    using cds_lib.reachable_resize_inv [OF assms(1,2)] assms(3) by simp_all
  have "\<exists>htp. heap st (r_htp r) = Some htp \<and> (r_i r < ht_nbuckets htp \<longrightarrow> (\<exists>x. resize_bucket L st r = Done x))"
    if "ph = Copying r" for r
  proof -
    have m: "moving L K st S r" using i that by simp
    then obtain htp where "heap st (r_htp r) = Some htp" by (auto simp: moving_def)
    then show ?thesis using cds_lib.moving_copy [OF assms(1) m] by auto
  qed
  then show ?thesis
    using cds_lib.phase_add [OF assms(1) i assms(4)] cds_lib.phase_del [OF assms(1) i, of k]
    by (auto simp: a split: phase.split)
qed

section \<open>Witnesses and the race\<close>

text \<open>
  A run on tables of one bucket; the elements are numbers and their own keys. \<open>ex_st\<close> has the
  instances \<open>t\<close> at address 0 and \<open>u\<close> at address 1.
\<close>

definition ex_gh :: "nat \<Rightarrow> ulong" where
  "ex_gh k = of_nat k"

definition ex_ht :: "int \<Rightarrow> nat option \<Rightarrow> bool \<Rightarrow> nat list \<Rightarrow> bool \<Rightarrow> (nat, nat, nat list) ht" where
  "ex_ht c n i es l = \<lparr>ht_nbuckets = 1, ht_resize_cur = c, ht_new = n, ht_idx = i, ht_cmp = (\<lambda>e k. id e = k),
     ht_gethash = ex_gh, ht_getkey = id, ht_bkt = [\<lparr>htb_head = es, htb_lock = l\<rparr>]\<rparr>"

definition ex_st :: "nat \<Rightarrow> bool \<Rightarrow> (nat, nat, nat list) ht option \<Rightarrow> (nat, nat, nat list) ht option \<Rightarrow>
    (nat \<Rightarrow> ulong) \<Rightarrow> (nat, nat, nat list) hashtab" where
  "ex_st c l t u h = \<lparr>ht_cur = c, ht_lock = l, heap = (\<lambda>a. if a = 0 then t else if a = 1 then u else None),
     hte_hash0 = h, hte_hash1 = ex_gh\<rparr>"

lemma ex_simps [simp]:
  "ht_cur (ex_st c l t u h) = c" "ht_lock (ex_st c l t u h) = l" "hte_hash0 (ex_st c l t u h) = h"
  "set_ht (ex_st c l t u h) 0 x = ex_st c l (Some x) u h" "set_ht (ex_st c l t u h) (Suc 0) x = ex_st c l t (Some x) h"
  "ht_at (ex_st c l (Some x) u h) 0 = Done x" "ht_at (ex_st c l t (Some x) h) (Suc 0) = Done x"
  "heap (ex_st c l t u h) 0 = t" "heap (ex_st c l t u h) (Suc 0) = u"
  "ex_st c l t u h\<lparr>hte_hash0 := g\<rparr> = ex_st c l t u g" "ex_st c l t u h\<lparr>ht_lock := b\<rparr> = ex_st c b t u h"
  "ex_st c l t u h\<lparr>ht_cur := a\<rparr> = ex_st a l t u h"
  by (auto simp: ex_st_def set_ht_def ht_at_def)

lemma ex_ht_simps [simp]:
  "ht_get_bucket (ex_ht c n i es l) k = (0, ex_gh k)" "ht_nbuckets (ex_ht c n i es l) = 1"
  "ht_resize_cur (ex_ht c n i es l) = c" "ht_new (ex_ht c n i es l) = n" "ht_idx (ex_ht c n i es l) = i"
  "ht_bkt (ex_ht c n i es l) = [\<lparr>htb_head = es, htb_lock = l\<rparr>]" "ht_getkey (ex_ht c n i es l) = id"
  "ht_cmp (ex_ht c n i es l) = (\<lambda>e k. e = k)" "ht_gethash (ex_ht c n i es l) = ex_gh"
  "ex_ht c n i es l\<lparr>ht_resize_cur := d\<rparr> = ex_ht d n i es l" "ex_ht c n i es l\<lparr>ht_new := m\<rparr> = ex_ht c m i es l"
  "set_lock (ex_ht c n i es l) 0 v = ex_ht c n i es v" "set_head (ex_ht c n i es l) 0 fs = ex_ht c n i fs l"
  by (simp_all add: ex_ht_def ht_get_bucket_def set_lock_def set_head_def Let_def)

lemmas ex_run = spin_lock_def spin_unlock_def lock_buckets_def hashtab_unlock_mod_def add_to_def
  hashtab_add_def del_from_def hashtab_del_def hashtab_lookup_def ht_search_bucket_def resize_bucket_def
  add_section_def del_section_def Let_def

abbreviation ex0 :: "(nat, nat, nat list) hashtab" where
  "ex0 \<equiv> ex_st 0 False (Some (ex_ht (- 1) None False [] False)) None ex_gh"

abbreviation ex1 :: "(nat, nat, nat list) hashtab" where
  "ex1 \<equiv> ex_st 0 True (Some (ex_ht (- 1) (Some 1) False [] False)) (Some (ex_ht (- 1) None True [] False)) ex_gh"

abbreviation ex2 :: "(nat, nat, nat list) hashtab" where
  "ex2 \<equiv> ex_st 0 True (Some (ex_ht 0 (Some 1) False [] False)) (Some (ex_ht (- 1) None True [] False)) ex_gh"

abbreviation ex3 :: "(nat, nat, nat list) hashtab" where
  "ex3 \<equiv> ex_st 1 True (Some (ex_ht 0 (Some 1) False [] False)) (Some (ex_ht (- 1) None True [] False)) ex_gh"

abbreviation ex4 :: "(nat, nat, nat list) hashtab" where
  "ex4 \<equiv> ex_st 1 True (Some (ex_ht 0 (Some 1) False [] False)) (Some (ex_ht (- 1) None True [5] False)) (ex_gh(5 := ex_gh 5))"

abbreviation ex_r :: "int \<Rightarrow> resizer" where
  "ex_r i \<equiv> \<lparr>r_htp = 0, r_new = 1, r_i = i\<rparr>"

lemma ex_init: "hash_init list_cds id (ex0, Idle, {}, \<lambda>_. None)"
proof -
  have "ex0 = hashtab_alloc list_cds 0 1 (\<lambda>e k. id e = k) ex_gh id ex_gh"
    by (auto simp: hashtab_alloc_def ht_alloc_def ex_st_def ex_ht_def)
  moreover have "(0 :: int) < 1" by simp
  ultimately show ?thesis unfolding hash_init_def by blast
qed

abbreviation ex_seen :: "bool \<Rightarrow> (nat, nat, nat list) hash_state \<Rightarrow> bool" where
  "ex_seen spans \<equiv> reachable (hash_init list_cds id) (hash_step spans list_cds id)"

lemma ex_copied: "ex_seen spans (ex2, Copying (ex_r 1), {}, \<lambda>_. None)"
proof -
  have "ex_seen spans (ex0, Idle, {}, \<lambda>_. None)" using ex_init by (rule reachable.start)
  moreover have "resize_begin list_cds ex0 (Some 1) 1 None None None = Done (Inr (ex1, ex_r 0))"
    by (simp add: resize_begin_def or_old_def Let_def ht_alloc_def) (simp add: ex_ht_def)
  then have "hash_step spans list_cds id (ex0, Idle, {}, \<lambda>_. None) (ex1, Begun (ex_r 0) (pending (\<lambda>_. None)), {}, \<lambda>_. None)"
    by (intro begin_resize [where p = 1 and n = 1 and cmp = None and g = None and key = None]) simp_all
  ultimately have "ex_seen spans (ex1, Begun (ex_r 0) {}, {}, \<lambda>_. None)"
    using reachable.next_state by (fastforce simp: pending_def)
  then have c: "ex_seen spans (ex1, Copying (ex_r 0), {}, \<lambda>_. None)"
    using synchronized by (rule reachable.next_state)
  have "resize_bucket list_cds ex1 (ex_r 0) = Done (ex2, ex_r 1)" by (simp add: ex_run)
  then have "hash_step spans list_cds id (ex1, Copying (ex_r 0), {}, \<lambda>_. None) (ex2, Copying (ex_r 1), {}, \<lambda>_. None)"
    by (intro copy [of _ _ "ex_ht (- 1) (Some 1) False [] False"]) simp_all
  with c show ?thesis by (rule reachable.next_state)
qed

lemma ex_switch:
  assumes "ex_seen spans (ex2, Copying (ex_r 1), {}, Q)" and "spans \<or> pending Q = {}"
  shows "ex_seen spans (ex3, Waiting (ex_r 1) (pending Q), {}, Q)"
proof -
  have "resize_switch ex2 (ex_r 1) = ex3" by (simp add: resize_switch_def)
  then have "hash_step spans list_cds id (ex2, Copying (ex_r 1), {}, Q) (ex3, Waiting (ex_r 1) (pending Q), {}, Q)"
    using switch [of ex2 "ex_r 1" "ex_ht 0 (Some 1) False [] False" spans Q list_cds id "{}"] assms(2) by simp
  with assms(1) show ?thesis by (rule reachable.next_state)
qed

text \<open>Thread 1 adds an element to the new instance, which it has read.\<close>

lemma ex_add:
  assumes "ex_seen spans (ex3, Waiting (ex_r 1) W, {}, Q)" and "Q 1 = None" and "1 \<notin> W"
  shows "ex_seen spans (ex4, Waiting (ex_r 1) W, {5}, Q)"
proof -
  have e: "ex_seen spans (ex3, Waiting (ex_r 1) W, {}, Q(1 := Some 1))"
    using reachable.next_state [OF assms(1) enter [of Q 1 spans list_cds id ex3, OF assms(2)]] by (simp only: ex_simps)
  have "add_section list_cds 1 (id 5) 5 ex3 = Done ex4" by (simp add: ex_run)
  from add [of "Q(1 := Some 1)" 1 1 5 "{}" list_cds id ex3 ex4 spans "Waiting (ex_r 1) W", OF _ _ this] assms(2,3)
  have "hash_step spans list_cds id (ex3, Waiting (ex_r 1) W, {}, Q(1 := Some 1)) (ex4, Waiting (ex_r 1) W, {5}, Q)"
    by (simp add: fun_upd_idem)
  with e show ?thesis by (rule reachable.next_state)
qed

lemma ex_reachable:
  "ex_seen False (ex2, Copying (ex_r 1), {}, (\<lambda>_. None)(0 := Some 0))"
  "ex_seen False (ex4, Waiting (ex_r 1) {}, {5}, \<lambda>_. None)"
proof -
  show "ex_seen False (ex2, Copying (ex_r 1), {}, (\<lambda>_. None)(0 := Some 0))"
    using reachable.next_state [OF ex_copied enter [of _ 0]] by fastforce
  have p: "pending (\<lambda>_. None) = {}" by (simp add: pending_def)
  from ex_switch [OF ex_copied, of False] p have "ex_seen False (ex3, Waiting (ex_r 1) {}, {}, \<lambda>_. None)" by simp
  from ex_add [OF this] show "ex_seen False (ex4, Waiting (ex_r 1) {}, {5}, \<lambda>_. None)" by simp
qed

lemma hash_resize_lookup_witness:
  "case hashtab_lookup list_cds ex4 5 of Done None \<Rightarrow> \<forall>e \<in> {5 :: nat}. id e \<noteq> 5 | Done (Some e) \<Rightarrow> e \<in> {5} \<and> id e = 5 | _ \<Rightarrow> False"
  by (rule hash_resize_lookup [OF list_cds.cds_lib_axioms ex_reachable(2)])

lemma hash_resize_progress_witness:
  "(\<exists>st'. add_section list_cds 0 (id 7) 7 ex2 = Done st') \<and>
    (\<exists>st' x. del_section list_cds 0 7 ex2 = Done (st', x) \<and> found id 7 {} x) \<and>
    (case Copying (ex_r 1) of Copying r \<Rightarrow> (\<exists>htp. heap ex2 (r_htp r) = Some htp \<and>
       (r_i r < ht_nbuckets htp \<longrightarrow> (\<exists>x. resize_bucket list_cds ex2 r = Done x))) | _ \<Rightarrow> True)"
  by (rule hash_resize_progress [OF list_cds.cds_lib_axioms ex_reachable(1), of 0]) simp_all

text \<open>
  C27: An update-side critical section that spans the publication of the new instance corrupts a
  list. There is a run in which a thread enters \<open>hashtab_lock_mod\<close> and reads \<open>ht_cur\<close>, the resize
  then publishes the new instance, and another thread adds an element to the new instance only. The
  old instance is not freed, as the first thread is still a reader. When it goes on, it takes the
  locks of both instances, its lookup finds the new element, and \<open>hashtab_del\<close> unlinks the element
  from a list of the old instance on which it has never been.
\<close>

theorem hash_resize_stale_delete:
  "\<exists>(st :: (nat, nat, nat list) hashtab) r S Q st' W S' t a k.
    reachable (hash_init list_cds id) (hash_step True list_cds id) (st, Copying r, S, Q) \<and> Q t = Some a \<and> a = ht_cur st \<and>
    (hash_step True list_cds id)\<^sup>*\<^sup>* (st, Copying r, S, Q) (st', Waiting r W, S', Q) \<and> t \<in> W \<and> heap st' a \<noteq> None \<and>
    hashtab_lookup list_cds st' k = Done (Some k) \<and> k \<in> S' \<and> del_section list_cds a k st' = Fault"
proof -
  let ?Q = "(\<lambda>_. None)(0 := Some 0)" and ?step = "hash_step True list_cds id"
  have p: "pending ?Q = {0}" by (auto simp: pending_def)
  have "?step (ex2, Copying (ex_r 1), {}, ?Q) (ex3, Waiting (ex_r 1) {0}, {}, ?Q)"
    using switch [of ex2 "ex_r 1" "ex_ht 0 (Some 1) False [] False" True ?Q list_cds id "{}"] p
    by (simp add: resize_switch_def)
  moreover have "?step (ex3, Waiting (ex_r 1) {0}, {}, ?Q) (ex3, Waiting (ex_r 1) {0}, {}, ?Q(1 := Some 1))"
    using enter [of ?Q 1 True list_cds id ex3] by simp
  moreover have "?step (ex3, Waiting (ex_r 1) {0}, {}, ?Q(1 := Some 1)) (ex4, Waiting (ex_r 1) {0}, {5}, ?Q)"
  proof -
    have "add_section list_cds 1 (id 5) 5 ex3 = Done ex4" by (simp add: ex_run)
    from add [of "?Q(1 := Some 1)" 1 1 5 "{}" list_cds id ex3 ex4 True "Waiting (ex_r 1) {0}", OF _ _ this] show ?thesis
      by (simp add: fun_upd_idem)
  qed
  ultimately have 1: "?step\<^sup>*\<^sup>* (ex2, Copying (ex_r 1), {}, ?Q) (ex4, Waiting (ex_r 1) {0}, {5}, ?Q)"
    by (meson r_into_rtranclp rtranclp.rtrancl_into_rtrancl)
  have 2: "del_section list_cds 0 5 ex4 = Fault" by (simp add: ex_run)
  have 3: "hashtab_lookup list_cds ex4 5 = Done (Some 5)" by (simp add: ex_run)
  have 4: "ex_seen True (ex2, Copying (ex_r 1), {}, ?Q)"
    using reachable.next_state [OF ex_copied enter [of _ 0]] by fastforce
  show ?thesis
    by (intro exI [of _ ex2] exI [of _ "ex_r 1"] exI [of _ "{}"] exI [of _ ?Q] exI [of _ ex4] exI [of _ "{0}"]
        exI [of _ "{5}"] exI [of _ 0] exI [of _ 5] conjI 4 1 2 3) simp_all
qed

end
