(* ===== verification/Rcu_Spec.thy ===== *)
theory Rcu_Spec
  imports Prelude
begin

text \<open>
  What an RCU implementation promises. The implementations of defer/ are labelled step
  relations over their shared variables and program counters; the labels are the events that
  their callers see. An observer, which is no part of an implementation, keeps the set of
  threads inside a read-side critical section and, for every call of \<open>synchronize_rcu\<close>, the
  threads whose critical sections began before the call and have not ended. The grace-period
  guarantee is that a call returns only when that set is empty.
\<close>

text \<open>
  \<open>Lock t\<close>: the outermost \<open>rcu_read_lock\<close> of \<open>t\<close> completes. \<open>Unlock t\<close>: the outermost
  \<open>rcu_read_unlock\<close> of \<open>t\<close> begins. \<open>Sync u\<close> and \<open>Done u\<close>: updater \<open>u\<close> calls \<open>synchronize_rcu\<close>
  and returns from it.
\<close>

datatype rcu_ev = Lock nat | Unlock nat | Sync nat | Done nat | Tau

record gp =
  cs :: "nat set"
  waitfor :: "nat \<Rightarrow> nat set"

definition gp_init :: gp where
  "gp_init = \<lparr>cs = {}, waitfor = (\<lambda>_. {})\<rparr>"

fun gp_eff :: "rcu_ev \<Rightarrow> gp \<Rightarrow> gp" where
  "gp_eff (Lock t) g = g\<lparr>cs := insert t (cs g)\<rparr>"
| "gp_eff (Unlock t) g = g\<lparr>cs := cs g - {t}, waitfor := (\<lambda>u. waitfor g u - {t})\<rparr>"
| "gp_eff (Sync u) g = g\<lparr>waitfor := (waitfor g)(u := cs g)\<rparr>"
| "gp_eff (Done u) g = g"
| "gp_eff Tau g = g"

lemma gp_eff_init [simp]:
  "gp_eff (Sync u) gp_init = gp_init" "gp_eff (Done u) gp_init = gp_init" "gp_eff Tau gp_init = gp_init"
  by (simp_all add: gp_init_def fun_upd_idem)

inductive observed :: "('s \<Rightarrow> bool) \<Rightarrow> ('s \<Rightarrow> rcu_ev \<Rightarrow> 's \<Rightarrow> bool) \<Rightarrow> 's \<Rightarrow> gp \<Rightarrow> bool"
  for init :: "'s \<Rightarrow> bool" and stp :: "'s \<Rightarrow> rcu_ev \<Rightarrow> 's \<Rightarrow> bool" where
  start: "init s \<Longrightarrow> observed init stp s gp_init"
| event: "observed init stp s g \<Longrightarrow> stp s e s' \<Longrightarrow> observed init stp s' (gp_eff e g)"

lemma observed_invariant:
  assumes "observed init stp s g"
    and "\<And>s. init s \<Longrightarrow> I s gp_init"
    and "\<And>s g e s'. I s g \<Longrightarrow> stp s e s' \<Longrightarrow> I s' (gp_eff e g)"
  shows "I s g"
  using assms(1) by (induction rule: observed.induct) (use assms(2,3) in blast)+

lemma waitfor_cs:
  "observed init stp s g \<Longrightarrow> waitfor g u \<subseteq> cs g"
proof (induction rule: observed.induct)
  case (start s)
  then show ?case by (simp add: gp_init_def)
next
  case (event s g e s')
  then show ?case by (cases e) auto
qed

locale rcu_flavour =
  fixes init :: "'s \<Rightarrow> bool" and stp :: "'s \<Rightarrow> rcu_ev \<Rightarrow> 's \<Rightarrow> bool"
  assumes grace: "observed init stp s g \<Longrightarrow> stp s (Done u) s' \<Longrightarrow> waitfor g u = {}"

section \<open>The abstract grace-period automaton\<close>

text \<open>
  The specification as an automaton that enables \<open>Done u\<close> only when nothing is left to wait
  for. A flavour refines it: each of its events is one that the automaton allows.
\<close>

inductive gp_step :: "gp \<Rightarrow> rcu_ev \<Rightarrow> gp \<Rightarrow> bool" where
  lock: "gp_step g (Lock t) (gp_eff (Lock t) g)"
| unlock: "gp_step g (Unlock t) (gp_eff (Unlock t) g)"
| sync: "gp_step g (Sync u) (gp_eff (Sync u) g)"
| return: "waitfor g u = {} \<Longrightarrow> gp_step g (Done u) g"
| tau: "gp_step g Tau g"

context rcu_flavour
begin

lemma refines_gp:
  "observed init stp s g \<Longrightarrow> stp s e s' \<Longrightarrow> gp_step g e (gp_eff e g)"
  by (cases e) (use grace in \<open>auto intro: gp_step.intros simp del: gp_eff.simps(1-3)\<close>)

text \<open>A reader inside a critical section that began before a call is not inside it when the
  call returns.\<close>

lemma grace_reader:
  "observed init stp s g \<Longrightarrow> stp s (Done u) s' \<Longrightarrow> t \<notin> waitfor g u"
  using grace by blast

end

section \<open>The program counters of updaters and readers\<close>

text \<open>
  Most flavours share the shape of \<open>synchronize_rcu\<close>: called, holding \<open>rcu_gp_lock\<close>, then a scan
  over the threads whose tests may take two loads. \<open>SScan k\<close> is about to test thread \<open>k\<close>,
  \<open>SSecond k\<close> is between the two loads of that test, \<open>SEnd\<close> has finished the scan.
\<close>

datatype sync_pc = SIdle | SCalled | SLocked | SScan nat | SSecond nat | SEnd

text \<open>A scan position past a thread: what a scan has already cleared.\<close>

fun scanned :: "sync_pc \<Rightarrow> nat \<Rightarrow> bool" where
  "scanned (SScan k) t \<longleftrightarrow> t < k"
| "scanned (SSecond k) t \<longleftrightarrow> t < k"
| "scanned SEnd t \<longleftrightarrow> t < NR_THREADS"
| "scanned _ t \<longleftrightarrow> False"

definition next_scan :: "nat \<Rightarrow> sync_pc" where
  "next_scan k = (if Suc k < NR_THREADS then SScan (Suc k) else SEnd)"

definition scanning :: "sync_pc \<Rightarrow> bool" where
  "scanning p \<longleftrightarrow> p \<noteq> SIdle \<and> p \<noteq> SCalled \<and> p \<noteq> SLocked"

lemma scanning_simps [simp]:
  "\<not> scanning SIdle" "\<not> scanning SCalled" "\<not> scanning SLocked"
  "scanning (SScan k)" "scanning (SSecond k)" "scanning SEnd"
  by (simp_all add: scanning_def)

lemma next_scan_simps [simp]:
  "scanning (next_scan k)" "next_scan k \<noteq> SIdle" "next_scan k \<noteq> SCalled" "next_scan k \<noteq> SLocked"
  "next_scan k \<noteq> SSecond j" "next_scan k = SScan j \<longleftrightarrow> j = Suc k \<and> j < NR_THREADS"
  by (auto simp: next_scan_def)

lemma scanned_next [simp]: "k < NR_THREADS \<Longrightarrow> scanned (next_scan k) t \<longleftrightarrow> t \<le> k"
  by (auto simp: next_scan_def)

lemma scanned_0 [simp]: "\<not> scanned (SScan 0) t"
  by simp

text \<open>An updater whose program counter is past the acquisition of the lock owns it.\<close>

definition sync_held :: "sync_pc \<Rightarrow> bool" where
  "sync_held p \<longleftrightarrow> p \<noteq> SIdle \<and> p \<noteq> SCalled"

lemma sync_held_simps [simp]:
  "\<not> sync_held SIdle" "\<not> sync_held SCalled" "sync_held SLocked" "sync_held (SScan k)"
  "sync_held (SSecond k)" "sync_held SEnd" "sync_held (next_scan k)"
  by (simp_all add: sync_held_def)

lemma scanning_held: "scanning p \<Longrightarrow> sync_held p"
  by (simp add: scanning_def sync_held_def)

text \<open>A scan position names a thread.\<close>

fun scan_pos_ok :: "sync_pc \<Rightarrow> bool" where
  "scan_pos_ok (SScan k) \<longleftrightarrow> k < NR_THREADS"
| "scan_pos_ok (SSecond k) \<longleftrightarrow> k < NR_THREADS"
| "scan_pos_ok _ \<longleftrightarrow> True"

lemma scan_pos_next [simp]: "scan_pos_ok (next_scan k)"
  by (simp add: next_scan_def)

definition pos_ok :: "(nat \<Rightarrow> sync_pc) \<Rightarrow> bool" where
  "pos_ok f \<longleftrightarrow> (\<forall>u. scan_pos_ok (f u))"

lemma pos_ok_upd: "pos_ok f \<Longrightarrow> scan_pos_ok p \<Longrightarrow> pos_ok (f(u := p))"
  by (simp add: pos_ok_def)

lemma pos_okD: "pos_ok f \<Longrightarrow> f u = SScan k \<or> f u = SSecond k \<Longrightarrow> k < NR_THREADS"
  by (metis pos_ok_def scan_pos_ok.simps(1,2))

text \<open>
  The heart of the scanning flavours: the threads that a scan waits for are still registered
  as old, and the scan has not passed them.
\<close>

definition scan_ok :: "(nat \<Rightarrow> nat \<Rightarrow> bool) \<Rightarrow> (nat \<Rightarrow> nat set) \<Rightarrow> (nat \<Rightarrow> sync_pc) \<Rightarrow> bool" where
  "scan_ok old w f \<longleftrightarrow> (\<forall>u t. t \<in> w u \<longrightarrow> scanning (f u) \<longrightarrow> old u t \<and> \<not> scanned (f u) t)"

lemma scan_okD: "scan_ok old w f \<Longrightarrow> t \<in> w u \<Longrightarrow> scanning (f u) \<Longrightarrow> old u t \<and> \<not> scanned (f u) t"
  by (simp add: scan_ok_def)

lemma scan_ok_init: "(\<And>u. \<not> scanning (f u)) \<Longrightarrow> scan_ok old w f"
  by (simp add: scan_ok_def)

lemma scan_ok_mono:
  "scan_ok old w f \<Longrightarrow> (\<And>u. w' u \<subseteq> w u) \<Longrightarrow> (\<And>t u. t \<in> w' u \<Longrightarrow> scanning (f u) \<Longrightarrow> old u t \<Longrightarrow> old' u t) \<Longrightarrow> scan_ok old' w' f"
  unfolding scan_ok_def by (meson subsetD)

lemma scan_ok_outside:
  "scan_ok old w f \<Longrightarrow> \<not> scanning p \<Longrightarrow> scan_ok old (w(u := X)) (f(u := p))"
  by (auto simp: scan_ok_def)

lemma scan_ok_quiet: "scan_ok old w f \<Longrightarrow> \<not> scanning p \<Longrightarrow> scan_ok old w (f(u := p))"
  by (auto simp: scan_ok_def)

lemma scan_ok_upd:
  assumes "scan_ok old w f"
    and "\<And>t. t \<in> w u \<Longrightarrow> scanning p \<Longrightarrow> old u t \<and> \<not> scanned p t"
  shows "scan_ok old w (f(u := p))"
  using assms by (simp add: scan_ok_def)

lemma scan_ok_same:
  "scan_ok old w f \<Longrightarrow> scanning (f u) \<Longrightarrow> (\<And>t. scanned p t \<Longrightarrow> scanned (f u) t) \<Longrightarrow> scan_ok old w (f(u := p))"
  by (rule scan_ok_upd) (auto simp: scan_ok_def)

lemma scan_ok_next:
  assumes "scan_ok old w f" and "f u = SScan k \<or> f u = SSecond k" and "k < NR_THREADS"
    and "k \<notin> w u"
  shows "scan_ok old w (f(u := next_scan k))"
proof (rule scan_ok_upd [OF assms(1)])
  fix t
  assume t: "t \<in> w u"
  with assms(2) scan_okD [OF assms(1) t] have "old u t \<and> \<not> t < k" by auto
  moreover have "t \<noteq> k" using t assms(4) by blast
  ultimately show "old u t \<and> \<not> scanned (next_scan k) t" using assms(3) by simp
qed

text \<open>A test of the scan: it stays at the thread while \<open>b\<close> holds and moves on otherwise.\<close>

lemma scan_test:
  assumes "scan_ok old w f" and "pos_ok f" and f: "f u = SScan k \<or> f u = SSecond k"
    and p: "p = SScan k \<or> p = SSecond k" and b: "\<not> b \<Longrightarrow> k \<notin> w u"
  shows "scan_ok old w (f(u := if b then p else next_scan k))"
    and "pos_ok (f(u := if b then p else next_scan k))"
    and "lock_ok sync_held l f \<Longrightarrow> lock_ok sync_held l (f(u := if b then p else next_scan k))"
proof -
  have k: "k < NR_THREADS" using pos_okD [OF assms(2) f] .
  show "scan_ok old w (f(u := if b then p else next_scan k))"
    using scan_ok_next [OF assms(1) f k] b scan_ok_same [OF assms(1), of u p] f p by auto
  show "pos_ok (f(u := if b then p else next_scan k))"
    using k p assms(2) by (auto intro: pos_ok_upd)
  show "lock_ok sync_held l (f(u := if b then p else next_scan k))" if "lock_ok sync_held l f"
    using f p that by (auto intro: lock_ok_inside)
qed

text \<open>Nothing is left to wait for at the end of a scan.\<close>

lemma scan_ok_end:
  assumes "scan_ok old w f" and "f u = SEnd" and "w u \<subseteq> {..<NR_THREADS}"
  shows "w u = {}"
  using assms by (force simp: scan_ok_def)

text \<open>A reader: outside, having loaded a value that \<open>rcu_read_lock\<close> is about to store, inside
  a critical section, or having loaded a value that \<open>rcu_read_unlock\<close> is about to store.\<close>

datatype reader_pc = ROut | RLoaded int | RIn | RLeaving int

section \<open>Flipping updaters\<close>

text \<open>
  The flavours with a pair of counters flip the index twice: \<open>FWait1 i k\<close> waits for the readers
  on index \<open>i\<close>, from thread \<open>k\<close> on where the counters are per thread, \<open>FFlip2 i\<close> has seen them
  go, and \<open>FWait2 i k\<close> waits for those on the other index.
\<close>

datatype flip_pc = FIdle | FCalled | FLocked | FWait1 nat nat | FFlip2 nat | FWait2 nat nat | FEnd

definition other :: "nat \<Rightarrow> nat" where
  "other i = (if i = 0 then 1 else 0)"

lemma other_less [simp]: "other i < 2"
  by (simp add: other_def)

text \<open>What an updater knows of the index \<open>x\<close> of a thread \<open>t\<close> that it waits for.\<close>

fun flip_wait :: "flip_pc \<Rightarrow> nat \<Rightarrow> nat \<Rightarrow> bool" where
  "flip_wait (FWait1 i k) t x \<longleftrightarrow> (x = i \<longrightarrow> k \<le> t)"
| "flip_wait (FFlip2 i) t x \<longleftrightarrow> x \<noteq> i"
| "flip_wait (FWait2 i k) t x \<longleftrightarrow> x \<noteq> i \<and> k \<le> t"
| "flip_wait FEnd t x \<longleftrightarrow> False"
| "flip_wait _ t x \<longleftrightarrow> True"

fun flip_index :: "flip_pc \<Rightarrow> nat" where
  "flip_index (FWait1 i k) = i"
| "flip_index (FFlip2 i) = i"
| "flip_index (FWait2 i k) = i"
| "flip_index _ = 0"

definition flip_ok :: "(nat \<Rightarrow> nat) \<Rightarrow> (nat \<Rightarrow> nat set) \<Rightarrow> (nat \<Rightarrow> flip_pc) \<Rightarrow> bool" where
  "flip_ok idx w f \<longleftrightarrow> (\<forall>u. flip_index (f u) < 2 \<and> (\<forall>t\<in>w u. flip_wait (f u) t (idx t)))"

lemma flip_ok_init: "(\<And>u. f u = FIdle) \<Longrightarrow> flip_ok idx w f"
  by (simp add: flip_ok_def)

lemma flip_ok_index: "flip_ok idx w f \<Longrightarrow> flip_index (f u) < 2"
  by (simp add: flip_ok_def)

lemma flip_okD: "flip_ok idx w f \<Longrightarrow> \<forall>t\<in>w u. flip_wait (f u) t (idx t)"
  by (simp add: flip_ok_def)

lemma flip_ok_idx: "flip_ok idx w f \<Longrightarrow> (\<And>u. t \<notin> w u) \<Longrightarrow> flip_ok (idx(t := i)) w f"
  by (auto simp: flip_ok_def)

lemma flip_ok_mono: "flip_ok idx w f \<Longrightarrow> (\<And>u. w' u \<subseteq> w u) \<Longrightarrow> flip_ok idx w' f"
  by (meson flip_ok_def subsetD)

lemma flip_ok_call: "flip_ok idx w f \<Longrightarrow> flip_ok idx (w(u := X)) (f(u := FCalled))"
  by (simp add: flip_ok_def)

lemma flip_ok_upd:
  "flip_ok idx w f \<Longrightarrow> flip_index p < 2 \<Longrightarrow> (\<And>t. t \<in> w u \<Longrightarrow> flip_wait p t (idx t)) \<Longrightarrow>
    flip_ok idx w (f(u := p))"
  by (simp add: flip_ok_def)

end
