(* ===== verification/Rcu64.thy ===== *)
theory Rcu64
  imports Rcu_Spec
begin

text \<open>
  defer/rcu64.h and defer/rcu64.c: RCU whose grace-period counter counts down from
  \<open>LONG_MAX\<close>. A reader publishes the negated counter, so that one signed comparison tells an
  old reader from a new one and from an idle thread. The counters are \<open>long\<close>, whose overflow is
  undefined, and are integers here.
\<close>

record rcu64_state =
  rcu_gp_ctr :: int
  rcu_reader_gp :: "nat \<Rightarrow> int"
  rcu_gp_lock :: "nat option"
  rpc :: "nat \<Rightarrow> reader_pc"
  upc :: "nat \<Rightarrow> sync_pc"

definition rcu_init :: "rcu64_state \<Rightarrow> bool" where
  "rcu_init s \<longleftrightarrow> s = \<lparr>rcu_gp_ctr = 2 ^ 63 - 1, rcu_reader_gp = (\<lambda>_. 0), rcu_gp_lock = None,
     rpc = (\<lambda>_. ROut), upc = (\<lambda>_. SIdle)\<rparr>"

inductive read_step :: "rcu64_state \<Rightarrow> rcu_ev \<Rightarrow> rcu64_state \<Rightarrow> bool" where
  lock_load: "t < NR_THREADS \<Longrightarrow> rpc s t = ROut \<Longrightarrow>
    read_step s Tau (s\<lparr>rpc := (rpc s)(t := RLoaded (rcu_gp_ctr s))\<rparr>)"
| lock_store: "t < NR_THREADS \<Longrightarrow> rpc s t = RLoaded v \<Longrightarrow>
    read_step s (Lock t) (s\<lparr>rcu_reader_gp := (rcu_reader_gp s)(t := - v), rpc := (rpc s)(t := RIn)\<rparr>)"
| unlock_load: "rpc s t = RIn \<Longrightarrow>
    read_step s (Unlock t) (s\<lparr>rpc := (rpc s)(t := RLeaving (rcu_gp_ctr s))\<rparr>)"
| unlock_store: "rpc s t = RLeaving v \<Longrightarrow>
    read_step s Tau (s\<lparr>rcu_reader_gp := (rcu_reader_gp s)(t := v), rpc := (rpc s)(t := ROut)\<rparr>)"

inductive sync_step :: "rcu64_state \<Rightarrow> rcu_ev \<Rightarrow> rcu64_state \<Rightarrow> bool" where
  call: "upc s u = SIdle \<Longrightarrow> sync_step s (Sync u) (s\<lparr>upc := (upc s)(u := SCalled)\<rparr>)"
| acquire: "upc s u = SCalled \<Longrightarrow> rcu_gp_lock s = None \<Longrightarrow>
    sync_step s Tau (s\<lparr>rcu_gp_lock := Some u, upc := (upc s)(u := SLocked)\<rparr>)"
| advance: "upc s u = SLocked \<Longrightarrow>
    sync_step s Tau (s\<lparr>rcu_gp_ctr := rcu_gp_ctr s - 1, upc := (upc s)(u := SScan 0)\<rparr>)"
| test: "upc s u = SScan k \<Longrightarrow>
    sync_step s Tau (s\<lparr>upc := (upc s)(u :=
      if rcu_reader_gp s k < - rcu_gp_ctr s then SScan k else next_scan k)\<rparr>)"
| release: "upc s u = SEnd \<Longrightarrow>
    sync_step s (Done u) (s\<lparr>rcu_gp_lock := None, upc := (upc s)(u := SIdle)\<rparr>)"

definition rcu_step :: "rcu64_state \<Rightarrow> rcu_ev \<Rightarrow> rcu64_state \<Rightarrow> bool" where
  "rcu_step s e s' \<longleftrightarrow> read_step s e s' \<or> sync_step s e s'"

section \<open>The invariant\<close>

definition reader_ok :: "reader_pc \<Rightarrow> int \<Rightarrow> int \<Rightarrow> bool \<Rightarrow> bool" where
  "reader_ok p r c i \<longleftrightarrow> (case p of
      ROut \<Rightarrow> \<not> i | RLoaded v \<Rightarrow> c \<le> v \<and> \<not> i | RIn \<Rightarrow> r \<le> - c | RLeaving v \<Rightarrow> \<not> i)"

lemma rcu64_reader_ok_simps [simp]:
  "reader_ok ROut r c i \<longleftrightarrow> \<not> i"
  "reader_ok (RLoaded v) r c i \<longleftrightarrow> c \<le> v \<and> \<not> i"
  "reader_ok RIn r c i \<longleftrightarrow> r \<le> - c"
  "reader_ok (RLeaving v) r c i \<longleftrightarrow> \<not> i"
  by (simp_all add: reader_ok_def)

lemma rcu64_reader_ok_mono: "reader_ok p r c i \<Longrightarrow> c' \<le> c \<Longrightarrow> reader_ok p r c' i"
  by (cases p) auto

definition rcu_inv :: "rcu64_state \<Rightarrow> gp \<Rightarrow> bool" where
  "rcu_inv s g \<longleftrightarrow> (\<forall>t. reader_ok (rpc s t) (rcu_reader_gp s t) (rcu_gp_ctr s) (t \<in> cs g)) \<and>
     cs g \<subseteq> {..<NR_THREADS} \<and> (\<forall>u. waitfor g u \<subseteq> cs g) \<and>
     lock_ok sync_held (rcu_gp_lock s) (upc s) \<and> pos_ok (upc s) \<and>
     scan_ok (\<lambda>_ t. rcu_reader_gp s t < - rcu_gp_ctr s) (waitfor g) (upc s)"

lemma rcu64_invD:
  assumes "rcu_inv s g"
  shows "reader_ok (rpc s t) (rcu_reader_gp s t) (rcu_gp_ctr s) (t \<in> cs g)"
    and "cs g \<subseteq> {..<NR_THREADS}" and "waitfor g u \<subseteq> cs g"
    and "lock_ok sync_held (rcu_gp_lock s) (upc s)" and "pos_ok (upc s)"
    and "scan_ok (\<lambda>_ t. rcu_reader_gp s t < - rcu_gp_ctr s) (waitfor g) (upc s)"
  using assms by (simp_all add: rcu_inv_def)

lemma rcu64_inv_init: "rcu_init s \<Longrightarrow> rcu_inv s gp_init"
  by (simp add: rcu_init_def rcu_inv_def gp_init_def lock_ok_init pos_ok_def scan_ok_init)

lemma rcu64_inv_waitfor:
  assumes "rcu_inv s g" and "t \<in> waitfor g u"
  shows "rpc s t = RIn" and "rcu_reader_gp s t \<le> - rcu_gp_ctr s"
    and "t < NR_THREADS" and "t \<in> cs g"
proof -
  show c: "t \<in> cs g" using rcu64_invD(3) [OF assms(1)] assms(2) by blast
  with rcu64_invD(1) [OF assms(1), of t] show "rpc s t = RIn" "rcu_reader_gp s t \<le> - rcu_gp_ctr s" by (cases "rpc s t"; simp)+
  from c rcu64_invD(2) [OF assms(1)] show "t < NR_THREADS" by blast
qed

lemma rcu64_read_step_inv: "read_step s e s' \<Longrightarrow> rcu_inv s g \<Longrightarrow> rcu_inv s' (gp_eff e g)"
proof (induction rule: read_step.induct)
  case (lock_load t s)
  with rcu64_invD(1) [OF lock_load(3), of t] show ?case by (simp add: rcu_inv_def)
next
  case (lock_store t s v)
  note i = rcu64_invD [OF lock_store(3)]
  have w: "t \<notin> waitfor g u" for u using rcu64_inv_waitfor(1) [OF lock_store(3)] lock_store(2) by auto
  have "scan_ok (\<lambda>_ x. ((rcu_reader_gp s)(t := - v)) x < - rcu_gp_ctr s) (waitfor g) (upc s)"
    using i(6) by (rule scan_ok_mono) (use w in auto)
  with lock_store(1,2) i(1) [of t] i show ?case by (auto simp: rcu_inv_def)
next
  case (unlock_load s t)
  note i = rcu64_invD [OF unlock_load(2)]
  have "scan_ok (\<lambda>_ t. rcu_reader_gp s t < - rcu_gp_ctr s) (\<lambda>u. waitfor g u - {t}) (upc s)"
    using i(6) by (rule scan_ok_mono) auto
  with unlock_load(1) i show ?case by (auto simp: rcu_inv_def)
next
  case (unlock_store s t v)
  note i = rcu64_invD [OF unlock_store(2)]
  have w: "t \<notin> waitfor g u" for u using rcu64_inv_waitfor(1) [OF unlock_store(2)] unlock_store(1) by auto
  have "scan_ok (\<lambda>_ x. ((rcu_reader_gp s)(t := v)) x < - rcu_gp_ctr s) (waitfor g) (upc s)"
    using i(6) by (rule scan_ok_mono) (use w in auto)
  with unlock_store(1) i(1) [of t] i show ?case by (auto simp: rcu_inv_def)
qed

lemma rcu64_sync_step_inv: "sync_step s e s' \<Longrightarrow> rcu_inv s g \<Longrightarrow> rcu_inv s' (gp_eff e g)"
proof (induction rule: sync_step.induct)
  case (call s u)
  then show ?case
    by (simp add: rcu_inv_def lock_ok_outside pos_ok_upd scan_ok_outside)
next
  case (acquire s u)
  then show ?case
    by (simp add: rcu_inv_def lock_ok_acquire pos_ok_upd scan_ok_quiet)
next
  case (advance s u)
  note i = rcu64_invD [OF advance(2)]
  have "reader_ok (rpc s t) (rcu_reader_gp s t) (rcu_gp_ctr s - 1) (t \<in> cs g)" for t
    using i(1) by (rule rcu64_reader_ok_mono) simp
  moreover have "scan_ok (\<lambda>_ t. rcu_reader_gp s t < - (rcu_gp_ctr s - 1)) (waitfor g) ((upc s)(u := SScan 0))"
    using scan_ok_mono [OF i(6), of "waitfor g" "\<lambda>_ t. rcu_reader_gp s t < - (rcu_gp_ctr s - 1)"]
      rcu64_inv_waitfor(2) [OF advance(2)]
    by (intro scan_ok_upd) force+
  ultimately show ?case using i advance(1) by (simp add: rcu_inv_def lock_ok_inside pos_ok_upd)
next
  case (test s u k)
  note i = rcu64_invD [OF test(2)]
  have "k \<notin> waitfor g u" if "\<not> rcu_reader_gp s k < - rcu_gp_ctr s"
    using scan_okD [OF i(6), of k u] test(1) that by auto
  note t = scan_test [OF i(6,5) disjI1 [OF test(1)] disjI1 [OF refl] this]
  from i t show ?case by (simp add: rcu_inv_def)
next
  case (release s u)
  note i = rcu64_invD [OF release(2)]
  from i release(1) lock_ok_release [OF i(4), of u SIdle None] show ?case
    by (simp add: rcu_inv_def pos_ok_upd scan_ok_quiet)
qed

lemma rcu64_observed_inv: "observed rcu_init rcu_step s g \<Longrightarrow> rcu_inv s g"
  by (erule observed_invariant)
    (auto simp: rcu_step_def intro: rcu64_inv_init rcu64_read_step_inv rcu64_sync_step_inv)

lemma rcu64_done_waits_for_none:
  assumes "rcu_inv s g" and "rcu_step s (Done u) s'"
  shows "waitfor g u = {}"
proof (rule scan_ok_end [OF rcu64_invD(6) [OF assms(1)]])
  show "upc s u = SEnd"
    using assms(2) by (auto simp: rcu_step_def elim: read_step.cases sync_step.cases)
  show "waitfor g u \<subseteq> {..<NR_THREADS}" using rcu64_inv_waitfor(3) [OF assms(1)] by auto
qed

interpretation rcu64: rcu_flavour rcu_init rcu_step
  by unfold_locales (rule rcu64_done_waits_for_none [OF rcu64_observed_inv])

section \<open>A run of \<open>synchronize_rcu\<close>\<close>

definition solo :: "nat \<Rightarrow> int \<Rightarrow> nat option \<Rightarrow> sync_pc \<Rightarrow> rcu64_state" where
  "solo u c l p = \<lparr>rcu_gp_ctr = c, rcu_reader_gp = (\<lambda>_. 0), rcu_gp_lock = l,
     rpc = (\<lambda>_. ROut), upc = (\<lambda>_. SIdle)(u := p)\<rparr>"

lemma rcu64_solo_steps:
  "sync_step (solo u c l SIdle) (Sync u) (solo u c l SCalled)"
  "sync_step (solo u c None SCalled) Tau (solo u c (Some u) SLocked)"
  "sync_step (solo u c l SLocked) Tau (solo u (c - 1) l (SScan 0))"
  "0 \<le> c \<Longrightarrow> sync_step (solo u c l (SScan k)) Tau (solo u c l (next_scan k))"
  "sync_step (solo u c l SEnd) (Done u) (solo u c None SIdle)"
  using sync_step.call [of "solo u c l SIdle" u] sync_step.acquire [of "solo u c None SCalled" u]
    sync_step.advance [of "solo u c l SLocked" u] sync_step.test [of "solo u c l (SScan k)" u k]
    sync_step.release [of "solo u c l SEnd" u]
  by (simp_all add: solo_def)

lemma rcu64_solo_observed:
  "observed rcu_init rcu_step s gp_init \<Longrightarrow> sync_step s e s' \<Longrightarrow> gp_eff e gp_init = gp_init \<Longrightarrow>
    observed rcu_init rcu_step s' gp_init"
  using observed.event [of rcu_init rcu_step s gp_init e s'] by (simp add: rcu_step_def)

lemma rcu64_solo_scan:
  "k < NR_THREADS \<Longrightarrow> observed rcu_init rcu_step (solo u (2 ^ 63 - 2) (Some u) (SScan k)) gp_init"
proof (induction k)
  case 0
  have "observed rcu_init rcu_step (solo u (2 ^ 63 - 1) None SIdle) gp_init"
    by (rule observed.start) (simp add: solo_def rcu_init_def fun_upd_idem)
  from rcu64_solo_observed [OF rcu64_solo_observed [OF rcu64_solo_observed [OF this rcu64_solo_steps(1) gp_eff_init(1)]
        rcu64_solo_steps(2) gp_eff_init(3)] rcu64_solo_steps(3) gp_eff_init(3)]
  show ?case by simp
next
  case (Suc k)
  with rcu64_solo_observed [OF Suc.IH rcu64_solo_steps(4) gp_eff_init(3)] show ?case by (simp add: next_scan_def)
qed

lemma rcu64_solo_end: "observed rcu_init rcu_step (solo u (2 ^ 63 - 2) (Some u) SEnd) gp_init"
  using rcu64_solo_observed [OF rcu64_solo_scan [of "NR_THREADS - 1"] rcu64_solo_steps(4) gp_eff_init(3)]
  by (simp add: next_scan_def)

lemma rcu64_solo_done: "rcu_step (solo u (2 ^ 63 - 2) (Some u) SEnd) (Done u) (solo u (2 ^ 63 - 2) None SIdle)"
  using rcu64_solo_steps(5) by (simp add: rcu_step_def)

end
