(* ===== verification/Rcu64_Atomicgp.thy ===== *)
theory Rcu64_Atomicgp
  imports Rcu_Spec
begin

text \<open>
  defer/rcu64_atomicgp.h and defer/rcu64_atomicgp.c: the down-counting RCU without a
  grace-period lock. Updaters advance the counter with a compare-and-exchange that may fail and
  run side by side, each scanning for the value it has read.
\<close>

record agp_state =
  rcu_gp_ctr :: int
  rcu_reader_gp :: "nat \<Rightarrow> int"
  oldval :: "nat \<Rightarrow> int"   \<comment> \<open>the local variable of each updater\<close>
  rpc :: "nat \<Rightarrow> reader_pc"
  upc :: "nat \<Rightarrow> sync_pc"

definition rcu_init :: "agp_state \<Rightarrow> bool" where
  "rcu_init s \<longleftrightarrow> s = \<lparr>rcu_gp_ctr = 2 ^ 63 - 1, rcu_reader_gp = (\<lambda>_. 0), oldval = (\<lambda>_. 0),
     rpc = (\<lambda>_. ROut), upc = (\<lambda>_. SIdle)\<rparr>"

inductive read_step :: "agp_state \<Rightarrow> rcu_ev \<Rightarrow> agp_state \<Rightarrow> bool" where
  lock_load: "t < NR_THREADS \<Longrightarrow> rpc s t = ROut \<Longrightarrow>
    read_step s Tau (s\<lparr>rpc := (rpc s)(t := RLoaded (rcu_gp_ctr s))\<rparr>)"
| lock_store: "t < NR_THREADS \<Longrightarrow> rpc s t = RLoaded v \<Longrightarrow>
    read_step s (Lock t) (s\<lparr>rcu_reader_gp := (rcu_reader_gp s)(t := - v), rpc := (rpc s)(t := RIn)\<rparr>)"
| unlock_load: "rpc s t = RIn \<Longrightarrow>
    read_step s (Unlock t) (s\<lparr>rpc := (rpc s)(t := RLeaving (rcu_gp_ctr s))\<rparr>)"
| unlock_store: "rpc s t = RLeaving v \<Longrightarrow>
    read_step s Tau (s\<lparr>rcu_reader_gp := (rcu_reader_gp s)(t := v), rpc := (rpc s)(t := ROut)\<rparr>)"

text \<open>\<open>SLocked\<close> is between the load of \<open>oldval\<close> and the compare-and-exchange.\<close>

inductive sync_step :: "agp_state \<Rightarrow> rcu_ev \<Rightarrow> agp_state \<Rightarrow> bool" where
  call: "upc s u = SIdle \<Longrightarrow> sync_step s (Sync u) (s\<lparr>upc := (upc s)(u := SCalled)\<rparr>)"
| load: "upc s u = SCalled \<Longrightarrow>
    sync_step s Tau (s\<lparr>oldval := (oldval s)(u := rcu_gp_ctr s), upc := (upc s)(u := SLocked)\<rparr>)"
| cmpxchg: "upc s u = SLocked \<Longrightarrow>
    sync_step s Tau (s\<lparr>rcu_gp_ctr :=
        (if rcu_gp_ctr s = oldval s u then oldval s u - 1 else rcu_gp_ctr s),
      upc := (upc s)(u := SScan 0)\<rparr>)"
| test: "upc s u = SScan k \<Longrightarrow>
    sync_step s Tau (s\<lparr>upc := (upc s)(u :=
      if rcu_reader_gp s k \<le> - oldval s u then SScan k else next_scan k)\<rparr>)"
| return: "upc s u = SEnd \<Longrightarrow> sync_step s (Done u) (s\<lparr>upc := (upc s)(u := SIdle)\<rparr>)"

definition rcu_step :: "agp_state \<Rightarrow> rcu_ev \<Rightarrow> agp_state \<Rightarrow> bool" where
  "rcu_step s e s' \<longleftrightarrow> read_step s e s' \<or> sync_step s e s'"

section \<open>The invariant\<close>

definition reader_ok :: "reader_pc \<Rightarrow> int \<Rightarrow> int \<Rightarrow> bool \<Rightarrow> bool" where
  "reader_ok p r c i \<longleftrightarrow> (case p of
      ROut \<Rightarrow> \<not> i | RLoaded v \<Rightarrow> c \<le> v \<and> \<not> i | RIn \<Rightarrow> r \<le> - c | RLeaving v \<Rightarrow> \<not> i)"

lemma agp_reader_ok_simps [simp]:
  "reader_ok ROut r c i \<longleftrightarrow> \<not> i"
  "reader_ok (RLoaded v) r c i \<longleftrightarrow> c \<le> v \<and> \<not> i"
  "reader_ok RIn r c i \<longleftrightarrow> r \<le> - c"
  "reader_ok (RLeaving v) r c i \<longleftrightarrow> \<not> i"
  by (simp_all add: reader_ok_def)

lemma agp_reader_ok_mono: "reader_ok p r c i \<Longrightarrow> c' \<le> c \<Longrightarrow> reader_ok p r c' i"
  by (cases p) auto

text \<open>
  A reader that an updater waits for is registered at or before the value that the updater
  loads, because the counter only decreases.
\<close>

definition agp_inv :: "agp_state \<Rightarrow> gp \<Rightarrow> bool" where
  "agp_inv s g \<longleftrightarrow>
     (\<forall>t. reader_ok (rpc s t) (rcu_reader_gp s t) (rcu_gp_ctr s) (t \<in> cs g)) \<and>
     cs g \<subseteq> {..<NR_THREADS} \<and> (\<forall>u. waitfor g u \<subseteq> cs g) \<and> pos_ok (upc s) \<and>
     (\<forall>u t. t \<in> waitfor g u \<longrightarrow> upc s u = SLocked \<longrightarrow> rcu_reader_gp s t \<le> - oldval s u) \<and>
     scan_ok (\<lambda>u t. rcu_reader_gp s t \<le> - oldval s u) (waitfor g) (upc s)"

lemma agp_invD:
  assumes "agp_inv s g"
  shows "reader_ok (rpc s t) (rcu_reader_gp s t) (rcu_gp_ctr s) (t \<in> cs g)"
    and "cs g \<subseteq> {..<NR_THREADS}" and "waitfor g u \<subseteq> cs g" and "pos_ok (upc s)"
    and "t \<in> waitfor g u \<Longrightarrow> upc s u = SLocked \<Longrightarrow> rcu_reader_gp s t \<le> - oldval s u"
    and "scan_ok (\<lambda>u t. rcu_reader_gp s t \<le> - oldval s u) (waitfor g) (upc s)"
  using assms by (simp_all add: agp_inv_def)

lemma agp_inv_init: "rcu_init s \<Longrightarrow> agp_inv s gp_init"
  by (simp add: rcu_init_def agp_inv_def gp_init_def pos_ok_def scan_ok_init)

lemma agp_inv_waitfor:
  assumes "agp_inv s g" and "t \<in> waitfor g u"
  shows "rpc s t = RIn" and "rcu_reader_gp s t \<le> - rcu_gp_ctr s"
    and "t < NR_THREADS" and "t \<in> cs g"
proof -
  show c: "t \<in> cs g" using agp_invD(3) [OF assms(1)] assms(2) by blast
  with agp_invD(1) [OF assms(1), of t] show "rpc s t = RIn" "rcu_reader_gp s t \<le> - rcu_gp_ctr s"
    by (cases "rpc s t"; simp)+
  from c agp_invD(2) [OF assms(1)] show "t < NR_THREADS" by blast
qed

lemma agp_read_step_inv: "read_step s e s' \<Longrightarrow> agp_inv s g \<Longrightarrow> agp_inv s' (gp_eff e g)"
proof (induction rule: read_step.induct)
  case (lock_load t s)
  with agp_invD(1) [OF lock_load(3), of t] show ?case by (simp add: agp_inv_def)
next
  case (lock_store t s v)
  note i = agp_invD [OF lock_store(3)]
  have w: "t \<notin> waitfor g u" for u using agp_inv_waitfor(1) [OF lock_store(3)] lock_store(2) by auto
  have "scan_ok (\<lambda>u x. ((rcu_reader_gp s)(t := - v)) x \<le> - oldval s u) (waitfor g) (upc s)"
    using i(6) by (rule scan_ok_mono) (use w in auto)
  with lock_store(1,2) i(1) [of t] i w show ?case by (auto simp: agp_inv_def)
next
  case (unlock_load s t)
  note i = agp_invD [OF unlock_load(2)]
  have "scan_ok (\<lambda>u t. rcu_reader_gp s t \<le> - oldval s u) (\<lambda>u. waitfor g u - {t}) (upc s)"
    using i(6) by (rule scan_ok_mono) auto
  with unlock_load(1) i show ?case by (auto simp: agp_inv_def)
next
  case (unlock_store s t v)
  note i = agp_invD [OF unlock_store(2)]
  have w: "t \<notin> waitfor g u" for u using agp_inv_waitfor(1) [OF unlock_store(2)] unlock_store(1) by auto
  have "scan_ok (\<lambda>u x. ((rcu_reader_gp s)(t := v)) x \<le> - oldval s u) (waitfor g) (upc s)"
    using i(6) by (rule scan_ok_mono) (use w in auto)
  with unlock_store(1) i(1) [of t] i w show ?case by (auto simp: agp_inv_def)
qed

lemma agp_sync_step_inv: "sync_step s e s' \<Longrightarrow> agp_inv s g \<Longrightarrow> agp_inv s' (gp_eff e g)"
proof (induction rule: sync_step.induct)
  case (call s u)
  then show ?case by (simp add: agp_inv_def pos_ok_upd scan_ok_outside)
next
  case (load s u)
  note i = agp_invD [OF load(2)]
  have "scan_ok (\<lambda>v t. rcu_reader_gp s t \<le> - ((oldval s)(u := rcu_gp_ctr s)) v) (waitfor g)
      ((upc s)(u := SLocked))"
    by (rule scan_ok_quiet, rule scan_ok_mono [OF i(6)]) (use load(1) in auto)
  with i load(1) agp_inv_waitfor(2) [OF load(2)] show ?case
    by (simp add: agp_inv_def pos_ok_upd)
next
  case (cmpxchg s u)
  note i = agp_invD [OF cmpxchg(2)]
  have "reader_ok (rpc s t) (rcu_reader_gp s t)
      (if rcu_gp_ctr s = oldval s u then oldval s u - 1 else rcu_gp_ctr s) (t \<in> cs g)" for t
    using i(1) by (rule agp_reader_ok_mono) simp
  moreover have "scan_ok (\<lambda>u t. rcu_reader_gp s t \<le> - oldval s u) (waitfor g) ((upc s)(u := SScan 0))"
    using i(5) [of _ u] cmpxchg(1) by (intro scan_ok_upd i(6)) auto
  ultimately show ?case using i cmpxchg(1) by (simp add: agp_inv_def pos_ok_upd)
next
  case (test s u k)
  note i = agp_invD [OF test(2)]
  have "k \<notin> waitfor g u" if "\<not> rcu_reader_gp s k \<le> - oldval s u"
    using scan_okD [OF i(6), of k u] test(1) that by auto
  note t = scan_test [OF i(6,4) disjI1 [OF test(1)] disjI1 [OF refl] this]
  from i t show ?case by (simp add: agp_inv_def)
next
  case (return s u)
  note i = agp_invD [OF return(2)]
  from i return(1) show ?case by (simp add: agp_inv_def pos_ok_upd scan_ok_quiet)
qed

lemma agp_observed_inv: "observed rcu_init rcu_step s g \<Longrightarrow> agp_inv s g"
  by (erule observed_invariant)
    (auto simp: rcu_step_def intro: agp_inv_init agp_read_step_inv agp_sync_step_inv)

lemma agp_done_waits_for_none:
  assumes "agp_inv s g" and "rcu_step s (Done u) s'"
  shows "waitfor g u = {}"
proof (rule scan_ok_end [OF agp_invD(6) [OF assms(1)]])
  show "upc s u = SEnd"
    using assms(2) by (auto simp: rcu_step_def elim: read_step.cases sync_step.cases)
  show "waitfor g u \<subseteq> {..<NR_THREADS}" using agp_inv_waitfor(3) [OF assms(1)] by auto
qed

interpretation rcu64_atomicgp: rcu_flavour rcu_init rcu_step
  by unfold_locales (rule agp_done_waits_for_none [OF agp_observed_inv])

end
