(* ===== verification/Rcu_Ts.thy ===== *)
theory Rcu_Ts
  imports Rcu_Spec
begin

text \<open>
  defer/rcu_ts.h and defer/rcu_ts.c: RCU on timestamps. A reader publishes a timestamp with the
  lowest bit set, an updater clears that bit of its own and waits for the readers with earlier
  ones. \<open>get_timestamp\<close> reads the hardware clock. The model takes one clock for all threads, whose
  values are arbitrary but that each is at least \<open>d\<close> more than the one before; \<open>d\<close> is a parameter,
  and nothing in the code makes it greater than 0. The section at the end shows that the guarantee
  holds exactly for the clocks with \<open>d \<ge> 2\<close>.
\<close>

record ts_state =
  clock :: int   \<comment> \<open>a lower bound of what \<open>get_timestamp\<close> returns next\<close>
  rcu_reader_gp :: "nat \<Rightarrow> int"
  rcu_gp_ctr :: "nat \<Rightarrow> int"   \<comment> \<open>the local variable of each updater\<close>
  rcu_gp_lock :: "nat option"
  rpc :: "nat \<Rightarrow> reader_pc"
  upc :: "nat \<Rightarrow> sync_pc"

definition rcu_init :: "ts_state \<Rightarrow> bool" where
  "rcu_init s \<longleftrightarrow> s = \<lparr>clock = 1, rcu_reader_gp = (\<lambda>_. 0), rcu_gp_ctr = (\<lambda>_. 0),
     rcu_gp_lock = None, rpc = (\<lambda>_. ROut), upc = (\<lambda>_. SIdle)\<rparr>"

definition get_timestamp :: "int \<Rightarrow> ts_state \<Rightarrow> int \<Rightarrow> ts_state \<Rightarrow> bool" where
  "get_timestamp d s v s' \<longleftrightarrow> clock s \<le> v \<and> s' = s\<lparr>clock := v + d\<rparr>"

inductive read_step :: "int \<Rightarrow> ts_state \<Rightarrow> rcu_ev \<Rightarrow> ts_state \<Rightarrow> bool" for d where
  lock_load: "t < NR_THREADS \<Longrightarrow> rpc s t = ROut \<Longrightarrow> get_timestamp d s v s' \<Longrightarrow>
    read_step d s Tau (s'\<lparr>rpc := (rpc s')(t := RLoaded (v OR 1))\<rparr>)"
| lock_store: "t < NR_THREADS \<Longrightarrow> rpc s t = RLoaded v \<Longrightarrow>
    read_step d s (Lock t) (s\<lparr>rcu_reader_gp := (rcu_reader_gp s)(t := v), rpc := (rpc s)(t := RIn)\<rparr>)"
| unlock_load: "rpc s t = RIn \<Longrightarrow> get_timestamp d s v s' \<Longrightarrow>
    read_step d s (Unlock t) (s'\<lparr>rpc := (rpc s')(t := RLeaving (v AND NOT 1))\<rparr>)"
| unlock_store: "rpc s t = RLeaving v \<Longrightarrow>
    read_step d s Tau (s\<lparr>rcu_reader_gp := (rcu_reader_gp s)(t := v), rpc := (rpc s)(t := ROut)\<rparr>)"

inductive sync_step :: "int \<Rightarrow> ts_state \<Rightarrow> rcu_ev \<Rightarrow> ts_state \<Rightarrow> bool" for d where
  call: "upc s u = SIdle \<Longrightarrow> sync_step d s (Sync u) (s\<lparr>upc := (upc s)(u := SCalled)\<rparr>)"
| acquire: "upc s u = SCalled \<Longrightarrow> rcu_gp_lock s = None \<Longrightarrow>
    sync_step d s Tau (s\<lparr>rcu_gp_lock := Some u, upc := (upc s)(u := SLocked)\<rparr>)"
| stamp: "upc s u = SLocked \<Longrightarrow> get_timestamp d s v s' \<Longrightarrow>
    sync_step d s Tau (s'\<lparr>rcu_gp_ctr := (rcu_gp_ctr s')(u := v AND NOT 1),
      upc := (upc s')(u := SScan 0)\<rparr>)"
| odd_test: "upc s u = SScan k \<Longrightarrow>
    sync_step d s Tau (s\<lparr>upc := (upc s)(u :=
      if rcu_reader_gp s k mod 2 = 1 then SSecond k else next_scan k)\<rparr>)"
| old_test: "upc s u = SSecond k \<Longrightarrow>
    sync_step d s Tau (s\<lparr>upc := (upc s)(u :=
      if rcu_reader_gp s k - rcu_gp_ctr s u < 0 then SScan k else next_scan k)\<rparr>)"
| release: "upc s u = SEnd \<Longrightarrow>
    sync_step d s (Done u) (s\<lparr>rcu_gp_lock := None, upc := (upc s)(u := SIdle)\<rparr>)"

definition rcu_step :: "int \<Rightarrow> ts_state \<Rightarrow> rcu_ev \<Rightarrow> ts_state \<Rightarrow> bool" where
  "rcu_step d s e s' \<longleftrightarrow> read_step d s e s' \<or> sync_step d s e s'"

section \<open>The invariant\<close>

definition reader_ok :: "reader_pc \<Rightarrow> int \<Rightarrow> int \<Rightarrow> bool \<Rightarrow> bool" where
  "reader_ok p r c i \<longleftrightarrow> (case p of
      ROut \<Rightarrow> \<not> i | RLoaded v \<Rightarrow> odd v \<and> v < c \<and> \<not> i | RIn \<Rightarrow> odd r \<and> r < c | RLeaving v \<Rightarrow> \<not> i)"

lemma ts_reader_ok_simps [simp]:
  "reader_ok ROut r c i \<longleftrightarrow> \<not> i"
  "reader_ok (RLoaded v) r c i \<longleftrightarrow> odd v \<and> v < c \<and> \<not> i"
  "reader_ok RIn r c i \<longleftrightarrow> odd r \<and> r < c"
  "reader_ok (RLeaving v) r c i \<longleftrightarrow> \<not> i"
  by (simp_all add: reader_ok_def)

lemma ts_reader_ok_mono: "reader_ok p r c i \<Longrightarrow> c \<le> c' \<Longrightarrow> reader_ok p r c' i"
  by (cases p) auto

lemma or_1_int: "odd (v OR 1 :: int)" "v OR 1 \<le> v + (1 :: int)" "v \<le> (v OR 1 :: int)"
  by (simp_all add: or_one_eq)

lemma and_not_1_int: "v AND NOT 1 = v - v mod (2 :: int)"
proof -
  have "v AND NOT 1 = 2 * (v div 2)"
    by (subst and_rec) simp
  then show ?thesis by presburger
qed

lemma odd_less_rounded: "odd r \<Longrightarrow> r < v \<Longrightarrow> r < v AND NOT (1 :: int)"
  unfolding and_not_1_int by presburger

definition ts_inv :: "ts_state \<Rightarrow> gp \<Rightarrow> bool" where
  "ts_inv s g \<longleftrightarrow>
     (\<forall>t. reader_ok (rpc s t) (rcu_reader_gp s t) (clock s) (t \<in> cs g)) \<and>
     cs g \<subseteq> {..<NR_THREADS} \<and> (\<forall>u. waitfor g u \<subseteq> cs g) \<and> pos_ok (upc s) \<and>
     scan_ok (\<lambda>u t. rcu_reader_gp s t < rcu_gp_ctr s u) (waitfor g) (upc s)"

lemma ts_invD:
  assumes "ts_inv s g"
  shows "reader_ok (rpc s t) (rcu_reader_gp s t) (clock s) (t \<in> cs g)"
    and "cs g \<subseteq> {..<NR_THREADS}" and "waitfor g u \<subseteq> cs g" and "pos_ok (upc s)"
    and "scan_ok (\<lambda>u t. rcu_reader_gp s t < rcu_gp_ctr s u) (waitfor g) (upc s)"
  using assms by (simp_all add: ts_inv_def)

lemma ts_inv_init: "rcu_init s \<Longrightarrow> ts_inv s gp_init"
  by (simp add: rcu_init_def ts_inv_def gp_init_def pos_ok_def scan_ok_init)

lemma ts_inv_waitfor:
  assumes "ts_inv s g" and "t \<in> waitfor g u"
  shows "rpc s t = RIn" and "odd (rcu_reader_gp s t)" and "rcu_reader_gp s t < clock s"
    and "t < NR_THREADS" and "t \<in> cs g"
proof -
  show c: "t \<in> cs g" using ts_invD(3) [OF assms(1)] assms(2) by blast
  with ts_invD(1) [OF assms(1), of t] show "rpc s t = RIn" "odd (rcu_reader_gp s t)"
    "rcu_reader_gp s t < clock s" by (cases "rpc s t"; simp)+
  from c ts_invD(2) [OF assms(1)] show "t < NR_THREADS" by blast
qed

lemma ts_read_step_inv:
  "read_step d s e s' \<Longrightarrow> 2 \<le> d \<Longrightarrow> ts_inv s g \<Longrightarrow> ts_inv s' (gp_eff e g)"
proof (induction rule: read_step.induct)
  case (lock_load t s v s')
  note i = ts_invD [OF lock_load(5)]
  have s': "s' = s\<lparr>clock := v + d\<rparr>" "clock s \<le> v" using lock_load(3) by (simp_all add: get_timestamp_def)
  have "reader_ok (rpc s x) (rcu_reader_gp s x) (v + d) (x \<in> cs g)" for x
    using i(1) by (rule ts_reader_ok_mono) (use s'(2) lock_load(4) in simp)
  with i i(1) [of t] lock_load(2,4) s' or_1_int [of v] show ?case by (simp add: ts_inv_def)
next
  case (lock_store t s v)
  note i = ts_invD [OF lock_store(4)]
  have w: "t \<notin> waitfor g u" for u using ts_inv_waitfor(1) [OF lock_store(4)] lock_store(2) by auto
  have "scan_ok (\<lambda>u x. ((rcu_reader_gp s)(t := v)) x < rcu_gp_ctr s u) (waitfor g) (upc s)"
    using i(5) by (rule scan_ok_mono) (use w in auto)
  with lock_store(1,2) i(1) [of t] i show ?case by (auto simp: ts_inv_def)
next
  case (unlock_load s t v s')
  note i = ts_invD [OF unlock_load(4)]
  have s': "s' = s\<lparr>clock := v + d\<rparr>" "clock s \<le> v" using unlock_load(2) by (simp_all add: get_timestamp_def)
  have "reader_ok (rpc s x) (rcu_reader_gp s x) (v + d) (x \<in> cs g)" for x
    using i(1) by (rule ts_reader_ok_mono) (use s'(2) unlock_load(3) in simp)
  moreover have "scan_ok (\<lambda>u t. rcu_reader_gp s t < rcu_gp_ctr s u) (\<lambda>u. waitfor g u - {t}) (upc s)"
    using i(5) by (rule scan_ok_mono) auto
  moreover have "waitfor g u - {t} \<subseteq> cs g - {t}" for u using i(3) by blast
  ultimately show ?case using unlock_load(1) i(2,4) s' by (auto simp: ts_inv_def)
next
  case (unlock_store s t v)
  note i = ts_invD [OF unlock_store(3)]
  have w: "t \<notin> waitfor g u" for u using ts_inv_waitfor(1) [OF unlock_store(3)] unlock_store(1) by auto
  have "scan_ok (\<lambda>u x. ((rcu_reader_gp s)(t := v)) x < rcu_gp_ctr s u) (waitfor g) (upc s)"
    using i(5) by (rule scan_ok_mono) (use w in auto)
  with unlock_store(1) i(1) [of t] i show ?case by (auto simp: ts_inv_def)
qed

lemma ts_sync_step_inv:
  "sync_step d s e s' \<Longrightarrow> 2 \<le> d \<Longrightarrow> ts_inv s g \<Longrightarrow> ts_inv s' (gp_eff e g)"
proof (induction rule: sync_step.induct)
  case (call s u)
  then show ?case by (simp add: ts_inv_def pos_ok_upd scan_ok_outside)
next
  case (acquire s u)
  then show ?case by (simp add: ts_inv_def pos_ok_upd scan_ok_quiet)
next
  case (stamp s u v s')
  note i = ts_invD [OF stamp(4)]
  have s': "s' = s\<lparr>clock := v + d\<rparr>" "clock s \<le> v" using stamp(2) by (simp_all add: get_timestamp_def)
  have "reader_ok (rpc s x) (rcu_reader_gp s x) (v + d) (x \<in> cs g)" for x
    using i(1) by (rule ts_reader_ok_mono) (use s'(2) stamp(3) in simp)
  moreover have "rcu_reader_gp s t < v AND NOT 1" if "t \<in> waitfor g u" for t
    using ts_inv_waitfor(2,3) [OF stamp(4) that] s'(2) by (intro odd_less_rounded) auto
  then have "scan_ok (\<lambda>w t. rcu_reader_gp s t < ((rcu_gp_ctr s)(u := v AND NOT 1)) w) (waitfor g)
      ((upc s)(u := SScan 0))"
    by (intro scan_ok_upd scan_ok_mono [OF i(5)]) (use stamp(1) in auto)
  ultimately show ?case using i stamp(1) s' by (simp add: ts_inv_def pos_ok_upd)
next
  case (odd_test s u k)
  note i = ts_invD [OF odd_test(3)]
  have "k \<notin> waitfor g u" if "rcu_reader_gp s k mod 2 \<noteq> 1"
    using ts_inv_waitfor(2) [OF odd_test(3), of k u] that by (auto simp: odd_iff_mod_2_eq_one)
  note t = scan_test [OF i(5,4) disjI1 [OF odd_test(1)] disjI2 [OF refl] this]
  from i t show ?case by (simp add: ts_inv_def)
next
  case (old_test s u k)
  note i = ts_invD [OF old_test(3)]
  have "k \<notin> waitfor g u" if "\<not> rcu_reader_gp s k - rcu_gp_ctr s u < 0"
    using scan_okD [OF i(5), of k u] old_test(1) that by auto
  note t = scan_test [OF i(5,4) disjI2 [OF old_test(1)] disjI1 [OF refl] this]
  from i t show ?case by (simp add: ts_inv_def)
next
  case (release s u)
  note i = ts_invD [OF release(3)]
  from i release(1) show ?case by (simp add: ts_inv_def pos_ok_upd scan_ok_quiet)
qed

lemma ts_observed_inv: "2 \<le> d \<Longrightarrow> observed rcu_init (rcu_step d) s g \<Longrightarrow> ts_inv s g"
  by (erule observed_invariant)
    (auto simp: rcu_step_def intro: ts_inv_init ts_read_step_inv ts_sync_step_inv)

lemma ts_done_waits_for_none:
  assumes "ts_inv s g" and "rcu_step d s (Done u) s'"
  shows "waitfor g u = {}"
proof (rule scan_ok_end [OF ts_invD(5) [OF assms(1)]])
  show "upc s u = SEnd"
    using assms(2) by (auto simp: rcu_step_def elim: read_step.cases sync_step.cases)
  show "waitfor g u \<subseteq> {..<NR_THREADS}" using ts_inv_waitfor(4) [OF assms(1)] by auto
qed

interpretation rcu_ts: rcu_flavour rcu_init "rcu_step 2"
  by unfold_locales (rule ts_done_waits_for_none [OF ts_observed_inv [OF order_refl]])

section \<open>A clock that ticks only once is too coarse\<close>

text \<open>The states of a run with one reader, thread 0, whose timestamp is 2, and one updater,
  whose timestamp is 3.\<close>

definition tick :: "nat \<Rightarrow> int \<Rightarrow> int \<Rightarrow> int \<Rightarrow> nat option \<Rightarrow> reader_pc \<Rightarrow> sync_pc \<Rightarrow> ts_state" where
  "tick u c r x l p q = \<lparr>clock = c, rcu_reader_gp = (\<lambda>_. 0)(0 := r), rcu_gp_ctr = (\<lambda>_. 0)(u := x),
     rcu_gp_lock = l, rpc = (\<lambda>_. ROut)(0 := p), upc = (\<lambda>_. SIdle)(u := q)\<rparr>"

definition tick_gp :: "nat \<Rightarrow> gp" where
  "tick_gp u = \<lparr>cs = {0}, waitfor = (\<lambda>_. {})(u := {0})\<rparr>"

lemma tick_reader:
  "read_step d (tick u 1 0 0 None ROut SIdle) Tau (tick u (2 + d) 0 0 None (RLoaded 3) SIdle)"
  "read_step d (tick u (2 + d) 0 0 None (RLoaded 3) SIdle) (Lock 0) (tick u (2 + d) 3 0 None RIn SIdle)"
  using read_step.lock_load [of 0 "tick u 1 0 0 None ROut SIdle" d 2 "tick u (2 + d) 0 0 None ROut SIdle"]
    read_step.lock_store [of 0 "tick u (2 + d) 0 0 None (RLoaded 3) SIdle" 3 d]
  by (simp_all add: tick_def get_timestamp_def NR_THREADS_def)

lemma tick_sync:
  "sync_step d (tick u c 3 0 None RIn SIdle) (Sync u) (tick u c 3 0 None RIn SCalled)"
  "sync_step d (tick u c 3 0 None RIn SCalled) Tau (tick u c 3 0 (Some u) RIn SLocked)"
  "c \<le> 3 \<Longrightarrow> sync_step d (tick u c 3 0 (Some u) RIn SLocked) Tau (tick u (3 + d) 3 2 (Some u) RIn (SScan 0))"
  "sync_step d (tick u c 3 2 (Some u) RIn (SScan 0)) Tau (tick u c 3 2 (Some u) RIn (SSecond 0))"
  "sync_step d (tick u c 3 2 (Some u) RIn (SSecond 0)) Tau (tick u c 3 2 (Some u) RIn (SScan 1))"
  "0 < k \<Longrightarrow> sync_step d (tick u c 3 2 (Some u) RIn (SScan k)) Tau (tick u c 3 2 (Some u) RIn (next_scan k))"
  "sync_step d (tick u c 3 2 (Some u) RIn SEnd) (Done u) (tick u c 3 2 None RIn SIdle)"
  using sync_step.call [of "tick u c 3 0 None RIn SIdle" u d]
    sync_step.acquire [of "tick u c 3 0 None RIn SCalled" u d]
    sync_step.stamp [of "tick u c 3 0 (Some u) RIn SLocked" u d 3 "tick u (3 + d) 3 0 (Some u) RIn SLocked"]
    sync_step.odd_test [of "tick u c 3 2 (Some u) RIn (SScan 0)" u 0 d]
    sync_step.old_test [of "tick u c 3 2 (Some u) RIn (SSecond 0)" u 0 d]
    sync_step.odd_test [of "tick u c 3 2 (Some u) RIn (SScan k)" u k d]
    sync_step.release [of "tick u c 3 2 (Some u) RIn SEnd" u d]
  by (simp_all add: tick_def get_timestamp_def next_scan_def NR_THREADS_def)

abbreviation tick_obs :: "int \<Rightarrow> ts_state \<Rightarrow> gp \<Rightarrow> bool" where
  "tick_obs d \<equiv> observed rcu_init (rcu_step d)"

lemma tick_start: "tick_obs d (tick u (2 + d) 3 0 None RIn SCalled) (tick_gp u)"
proof -
  have "tick_obs d (tick u 1 0 0 None ROut SIdle) gp_init"
    by (rule observed.start) (simp add: tick_def rcu_init_def fun_upd_idem)
  from observed.event [OF this, of Tau] tick_reader(1)
  have "tick_obs d (tick u (2 + d) 0 0 None (RLoaded 3) SIdle) gp_init" by (simp add: rcu_step_def)
  from observed.event [OF this, of "Lock 0"] tick_reader(2)
  have "tick_obs d (tick u (2 + d) 3 0 None RIn SIdle) (gp_eff (Lock 0) gp_init)" by (simp add: rcu_step_def)
  from observed.event [OF this, of "Sync u"] tick_sync(1)
  show ?thesis by (simp add: rcu_step_def gp_init_def tick_gp_def)
qed

lemma tick_tau:
  "tick_obs d s (tick_gp u) \<Longrightarrow> sync_step d s Tau s' \<Longrightarrow> tick_obs d s' (tick_gp u)"
  using observed.event [of rcu_init "rcu_step d" s "tick_gp u" Tau s'] by (simp add: rcu_step_def)

lemma tick_scan:
  assumes "d \<le> 1"
  shows "Suc k < NR_THREADS \<Longrightarrow> tick_obs d (tick u (3 + d) 3 2 (Some u) RIn (SScan (Suc k))) (tick_gp u)"
proof (induction k)
  case 0
  from assms have "2 + d \<le> 3" by simp
  from tick_tau [OF tick_tau [OF tick_tau [OF tick_tau [OF tick_start tick_sync(2)] tick_sync(3) [OF this]]
        tick_sync(4)] tick_sync(5)]
  show ?case by simp
next
  case (Suc k)
  with tick_tau [OF Suc.IH tick_sync(6)] show ?case by (simp add: next_scan_def)
qed

text \<open>Timestamps that are distinct are not enough for rcu_ts.c: when the updater's
  timestamp is one tick after the reader's, clearing its lowest bit makes it look earlier, and
  \<open>synchronize_rcu\<close> returns although the reader is still inside the critical section that it
  was in before the call.\<close>

theorem rcu_ts_one_tick:
  assumes "d \<le> 1"
  shows "\<exists>s g s'. observed rcu_init (rcu_step d) s g \<and> rcu_step d s (Done u) s' \<and> 0 \<in> waitfor g u"
proof -
  have "tick_obs d (tick u (3 + d) 3 2 (Some u) RIn SEnd) (tick_gp u)"
    using tick_tau [OF tick_scan [OF assms, of "NR_THREADS - 2"] tick_sync(6)]
    by (simp add: next_scan_def NR_THREADS_def)
  moreover have "rcu_step d (tick u (3 + d) 3 2 (Some u) RIn SEnd) (Done u) (tick u (3 + d) 3 2 None RIn SIdle)"
    using tick_sync(7) by (simp add: rcu_step_def)
  ultimately show ?thesis by (intro exI [of _ "tick_gp u"] exI conjI) (auto simp: tick_gp_def)
qed

text \<open>The clocks for which rcu_ts.c keeps its promise.\<close>

theorem rcu_ts_clock:
  "(\<forall>s g u s'. observed rcu_init (rcu_step d) s g \<and> rcu_step d s (Done u) s' \<longrightarrow> waitfor g u = {}) \<longleftrightarrow> 2 \<le> d"
proof
  assume h: "\<forall>s g u s'. observed rcu_init (rcu_step d) s g \<and> rcu_step d s (Done u) s' \<longrightarrow> waitfor g u = {}"
  show "2 \<le> d"
  proof (rule ccontr)
    assume "\<not> 2 \<le> d"
    then obtain s g s' where "observed rcu_init (rcu_step d) s g" "rcu_step d s (Done 0) s'" "0 \<in> waitfor g 0"
      using rcu_ts_one_tick [of d 0] by auto
    with h show False by blast
  qed
qed (use ts_done_waits_for_none ts_observed_inv in blast)

end
