(* ===== verification/Rcu_Qs.thy ===== *)
theory Rcu_Qs
  imports Rcu_Spec
begin

text \<open>
  defer/rcu_qs.h and defer/rcu_qs.c: quiescent-state-based RCU. \<open>rcu_read_lock\<close> and
  \<open>rcu_read_unlock\<close> are empty; instead each online thread announces quiescent states outside
  its critical sections, and a thread that will be away for long goes offline. A thread that
  has never been online is offline.
\<close>

text \<open>
  Offline; online and outside a critical section; inside one; about to store what
  \<open>rcu_quiescent_state\<close> or \<open>rcu_thread_offline\<close> has loaded.
\<close>

datatype qs_pc = QOffline | QOnline | QIn | QAnnounce int | QGoing int

record qs_state =
  rcu_gp_ctr :: int
  rcu_reader_qs_gp :: "nat \<Rightarrow> int"
  rcu_gp_lock :: "nat option"
  rpc :: "nat \<Rightarrow> qs_pc"
  upc :: "nat \<Rightarrow> sync_pc"

definition rcu_init :: "qs_state \<Rightarrow> bool" where
  "rcu_init s \<longleftrightarrow> s = \<lparr>rcu_gp_ctr = 0, rcu_reader_qs_gp = (\<lambda>_. 0), rcu_gp_lock = None,
     rpc = (\<lambda>_. QOffline), upc = (\<lambda>_. SIdle)\<rparr>"

definition rcu_gp_ongoing :: "qs_state \<Rightarrow> nat \<Rightarrow> bool" where
  "rcu_gp_ongoing s t \<longleftrightarrow> rcu_reader_qs_gp s t mod 2 = 1"

inductive read_step :: "qs_state \<Rightarrow> rcu_ev \<Rightarrow> qs_state \<Rightarrow> bool" where
  read_lock: "t < NR_THREADS \<Longrightarrow> rpc s t = QOnline \<Longrightarrow>
    read_step s (Lock t) (s\<lparr>rpc := (rpc s)(t := QIn)\<rparr>)"
| read_unlock: "rpc s t = QIn \<Longrightarrow> read_step s (Unlock t) (s\<lparr>rpc := (rpc s)(t := QOnline)\<rparr>)"
| quiescent_load: "rpc s t = QOnline \<or> rpc s t = QOffline \<Longrightarrow>
    read_step s Tau (s\<lparr>rpc := (rpc s)(t := QAnnounce (rcu_gp_ctr s + 1))\<rparr>)"
| quiescent_store: "rpc s t = QAnnounce v \<Longrightarrow>
    read_step s Tau (s\<lparr>rcu_reader_qs_gp := (rcu_reader_qs_gp s)(t := v), rpc := (rpc s)(t := QOnline)\<rparr>)"
| offline_load: "rpc s t = QOnline \<Longrightarrow>
    read_step s Tau (s\<lparr>rpc := (rpc s)(t := QGoing (rcu_gp_ctr s))\<rparr>)"
| offline_store: "rpc s t = QGoing v \<Longrightarrow>
    read_step s Tau (s\<lparr>rcu_reader_qs_gp := (rcu_reader_qs_gp s)(t := v), rpc := (rpc s)(t := QOffline)\<rparr>)"

inductive sync_step :: "qs_state \<Rightarrow> rcu_ev \<Rightarrow> qs_state \<Rightarrow> bool" where
  call: "upc s u = SIdle \<Longrightarrow> sync_step s (Sync u) (s\<lparr>upc := (upc s)(u := SCalled)\<rparr>)"
| acquire: "upc s u = SCalled \<Longrightarrow> rcu_gp_lock s = None \<Longrightarrow>
    sync_step s Tau (s\<lparr>rcu_gp_lock := Some u, upc := (upc s)(u := SLocked)\<rparr>)"
| advance: "upc s u = SLocked \<Longrightarrow>
    sync_step s Tau (s\<lparr>rcu_gp_ctr := rcu_gp_ctr s + 2, upc := (upc s)(u := SScan 0)\<rparr>)"
| ongoing_test: "upc s u = SScan k \<Longrightarrow>
    sync_step s Tau (s\<lparr>upc := (upc s)(u := if rcu_gp_ongoing s k then SSecond k else next_scan k)\<rparr>)"
| old_test: "upc s u = SSecond k \<Longrightarrow>
    sync_step s Tau (s\<lparr>upc := (upc s)(u :=
      if rcu_reader_qs_gp s k - rcu_gp_ctr s < 0 then SScan k else next_scan k)\<rparr>)"
| release: "upc s u = SEnd \<Longrightarrow>
    sync_step s (Done u) (s\<lparr>rcu_gp_lock := None, upc := (upc s)(u := SIdle)\<rparr>)"

definition rcu_step :: "qs_state \<Rightarrow> rcu_ev \<Rightarrow> qs_state \<Rightarrow> bool" where
  "rcu_step s e s' \<longleftrightarrow> read_step s e s' \<or> sync_step s e s'"

section \<open>The invariant\<close>

definition reader_ok :: "qs_pc \<Rightarrow> int \<Rightarrow> int \<Rightarrow> bool \<Rightarrow> bool" where
  "reader_ok p r c i \<longleftrightarrow> (case p of
      QOffline \<Rightarrow> \<not> i
    | QOnline \<Rightarrow> odd r \<and> r \<le> c + 1 \<and> \<not> i
    | QIn \<Rightarrow> odd r \<and> r \<le> c + 1
    | QAnnounce v \<Rightarrow> odd v \<and> v \<le> c + 1 \<and> \<not> i
    | QGoing v \<Rightarrow> \<not> i)"

lemma qs_reader_ok_simps [simp]:
  "reader_ok QOffline r c i \<longleftrightarrow> \<not> i"
  "reader_ok QOnline r c i \<longleftrightarrow> odd r \<and> r \<le> c + 1 \<and> \<not> i"
  "reader_ok QIn r c i \<longleftrightarrow> odd r \<and> r \<le> c + 1"
  "reader_ok (QAnnounce v) r c i \<longleftrightarrow> odd v \<and> v \<le> c + 1 \<and> \<not> i"
  "reader_ok (QGoing v) r c i \<longleftrightarrow> \<not> i"
  by (simp_all add: reader_ok_def)

lemma qs_reader_ok_mono: "reader_ok p r c i \<Longrightarrow> c \<le> c' \<Longrightarrow> reader_ok p r c' i"
  by (cases p) auto

definition qs_inv :: "qs_state \<Rightarrow> gp \<Rightarrow> bool" where
  "qs_inv s g \<longleftrightarrow> even (rcu_gp_ctr s) \<and>
     (\<forall>t. reader_ok (rpc s t) (rcu_reader_qs_gp s t) (rcu_gp_ctr s) (t \<in> cs g)) \<and>
     cs g \<subseteq> {..<NR_THREADS} \<and> (\<forall>u. waitfor g u \<subseteq> cs g) \<and>
     lock_ok sync_held (rcu_gp_lock s) (upc s) \<and> pos_ok (upc s) \<and>
     scan_ok (\<lambda>_ t. rcu_reader_qs_gp s t < rcu_gp_ctr s) (waitfor g) (upc s)"

lemma qs_invD:
  assumes "qs_inv s g"
  shows "even (rcu_gp_ctr s)"
    and "reader_ok (rpc s t) (rcu_reader_qs_gp s t) (rcu_gp_ctr s) (t \<in> cs g)"
    and "cs g \<subseteq> {..<NR_THREADS}" and "waitfor g u \<subseteq> cs g"
    and "lock_ok sync_held (rcu_gp_lock s) (upc s)" and "pos_ok (upc s)"
    and "scan_ok (\<lambda>_ t. rcu_reader_qs_gp s t < rcu_gp_ctr s) (waitfor g) (upc s)"
  using assms by (simp_all add: qs_inv_def)

lemma qs_inv_init: "rcu_init s \<Longrightarrow> qs_inv s gp_init"
  by (simp add: rcu_init_def qs_inv_def gp_init_def lock_ok_init pos_ok_def scan_ok_init)

lemma qs_inv_waitfor:
  assumes "qs_inv s g" and "t \<in> waitfor g u"
  shows "rpc s t = QIn" and "odd (rcu_reader_qs_gp s t)"
    and "rcu_reader_qs_gp s t \<le> rcu_gp_ctr s + 1" and "t < NR_THREADS" and "t \<in> cs g"
proof -
  show c: "t \<in> cs g" using qs_invD(4) [OF assms(1)] assms(2) by blast
  with qs_invD(2) [OF assms(1), of t] show "rpc s t = QIn" "odd (rcu_reader_qs_gp s t)"
    "rcu_reader_qs_gp s t \<le> rcu_gp_ctr s + 1" by (cases "rpc s t"; simp)+
  from c qs_invD(3) [OF assms(1)] show "t < NR_THREADS" by blast
qed

lemma qs_read_step_inv: "read_step s e s' \<Longrightarrow> qs_inv s g \<Longrightarrow> qs_inv s' (gp_eff e g)"
proof (induction rule: read_step.induct)
  case (read_lock t s)
  note i = qs_invD [OF read_lock(3)]
  from read_lock(1,2) i i(2) [of t] show ?case by (auto simp: qs_inv_def)
next
  case (read_unlock s t)
  note i = qs_invD [OF read_unlock(2)]
  have "scan_ok (\<lambda>_ t. rcu_reader_qs_gp s t < rcu_gp_ctr s) (\<lambda>u. waitfor g u - {t}) (upc s)"
    using i(7) by (rule scan_ok_mono) auto
  moreover have "waitfor g u - {t} \<subseteq> cs g - {t}" for u using i(4) by blast
  ultimately show ?case using read_unlock(1) i(1,2,3,5,6) i(2) [of t] by (auto simp: qs_inv_def)
next
  case (quiescent_load s t)
  note i = qs_invD [OF quiescent_load(2)]
  have "t \<notin> cs g" using i(2) [of t] quiescent_load(1) by auto
  with i show ?case by (auto simp: qs_inv_def)
next
  case (quiescent_store s t v)
  note i = qs_invD [OF quiescent_store(2)]
  have w: "t \<notin> waitfor g u" for u using qs_inv_waitfor(1) [OF quiescent_store(2)] quiescent_store(1) by auto
  have "scan_ok (\<lambda>_ x. ((rcu_reader_qs_gp s)(t := v)) x < rcu_gp_ctr s) (waitfor g) (upc s)"
    using i(7) by (rule scan_ok_mono) (use w in auto)
  with quiescent_store(1) i(2) [of t] i show ?case by (auto simp: qs_inv_def)
next
  case (offline_load s t)
  note i = qs_invD [OF offline_load(2)]
  from offline_load(1) i(2) [of t] i show ?case by (auto simp: qs_inv_def)
next
  case (offline_store s t v)
  note i = qs_invD [OF offline_store(2)]
  have w: "t \<notin> waitfor g u" for u using qs_inv_waitfor(1) [OF offline_store(2)] offline_store(1) by auto
  have "scan_ok (\<lambda>_ x. ((rcu_reader_qs_gp s)(t := v)) x < rcu_gp_ctr s) (waitfor g) (upc s)"
    using i(7) by (rule scan_ok_mono) (use w in auto)
  with offline_store(1) i(2) [of t] i show ?case by (auto simp: qs_inv_def)
qed

lemma qs_sync_step_inv: "sync_step s e s' \<Longrightarrow> qs_inv s g \<Longrightarrow> qs_inv s' (gp_eff e g)"
proof (induction rule: sync_step.induct)
  case (call s u)
  then show ?case
    by (simp add: qs_inv_def lock_ok_outside pos_ok_upd scan_ok_outside)
next
  case (acquire s u)
  then show ?case
    by (simp add: qs_inv_def lock_ok_acquire pos_ok_upd scan_ok_quiet)
next
  case (advance s u)
  note i = qs_invD [OF advance(2)]
  have "reader_ok (rpc s t) (rcu_reader_qs_gp s t) (rcu_gp_ctr s + 2) (t \<in> cs g)" for t
    using i(2) by (rule qs_reader_ok_mono) simp
  moreover have "scan_ok (\<lambda>_ t. rcu_reader_qs_gp s t < rcu_gp_ctr s + 2) (waitfor g) ((upc s)(u := SScan 0))"
    using scan_ok_mono [OF i(7), of "waitfor g" "\<lambda>_ t. rcu_reader_qs_gp s t < rcu_gp_ctr s + 2"]
      qs_inv_waitfor(3) [OF advance(2)]
    by (intro scan_ok_upd) force+
  ultimately show ?case using i advance(1) by (simp add: qs_inv_def lock_ok_inside pos_ok_upd)
next
  case (ongoing_test s u k)
  note i = qs_invD [OF ongoing_test(2)]
  have "k \<notin> waitfor g u" if "\<not> rcu_gp_ongoing s k"
    using qs_inv_waitfor(2) [OF ongoing_test(2), of k u] that
    by (auto simp: rcu_gp_ongoing_def odd_iff_mod_2_eq_one)
  note t = scan_test [OF i(7,6) disjI1 [OF ongoing_test(1)] disjI2 [OF refl] this]
  from i t show ?case by (simp add: qs_inv_def)
next
  case (old_test s u k)
  note i = qs_invD [OF old_test(2)]
  have "k \<notin> waitfor g u" if "\<not> rcu_reader_qs_gp s k - rcu_gp_ctr s < 0"
    using scan_okD [OF i(7), of k u] old_test(1) that by auto
  note t = scan_test [OF i(7,6) disjI2 [OF old_test(1)] disjI1 [OF refl] this]
  from i t show ?case by (simp add: qs_inv_def)
next
  case (release s u)
  note i = qs_invD [OF release(2)]
  from i release(1) lock_ok_release [OF i(5), of u SIdle None] show ?case
    by (simp add: qs_inv_def pos_ok_upd scan_ok_quiet)
qed

lemma qs_observed_inv: "observed rcu_init rcu_step s g \<Longrightarrow> qs_inv s g"
  by (erule observed_invariant)
    (auto simp: rcu_step_def intro: qs_inv_init qs_read_step_inv qs_sync_step_inv)

lemma qs_done_waits_for_none:
  assumes "qs_inv s g" and "rcu_step s (Done u) s'"
  shows "waitfor g u = {}"
proof (rule scan_ok_end [OF qs_invD(7) [OF assms(1)]])
  show "upc s u = SEnd"
    using assms(2) by (auto simp: rcu_step_def elim: read_step.cases sync_step.cases)
  show "waitfor g u \<subseteq> {..<NR_THREADS}" using qs_inv_waitfor(4) [OF assms(1)] by auto
qed

interpretation rcu_qs: rcu_flavour rcu_init rcu_step
  by unfold_locales (rule qs_done_waits_for_none [OF qs_observed_inv])

end
