(* ===== verification/Rcu_Rcl.thy ===== *)
theory Rcu_Rcl
  imports Rcu_Spec
begin

text \<open>
  defer/rcu_rcl.h and defer/rcu_rcl.c: RCU on one nesting counter per thread. Only its own
  thread writes a counter, so a load, an addition and a store are one step. The counters are
  \<open>int\<close>, whose overflow is undefined, and are integers here.
\<close>

record rcl_state =
  rcu_nesting :: "nat \<Rightarrow> int"
  rcu_gp_lock :: "nat option"
  upc :: "nat \<Rightarrow> sync_pc"

definition rcu_init :: "rcl_state \<Rightarrow> bool" where
  "rcu_init s \<longleftrightarrow> s = \<lparr>rcu_nesting = (\<lambda>_. 0), rcu_gp_lock = None, upc = (\<lambda>_. SIdle)\<rparr>"

definition rcu_read_lock :: "nat \<Rightarrow> rcl_state \<Rightarrow> rcl_state" where
  "rcu_read_lock t s =
     (let n = rcu_nesting s t in s\<lparr>rcu_nesting := (rcu_nesting s)(t := n + 1)\<rparr>)"

definition rcu_read_unlock :: "nat \<Rightarrow> rcl_state \<Rightarrow> rcl_state" where
  "rcu_read_unlock t s =
     (let n = rcu_nesting s t in s\<lparr>rcu_nesting := (rcu_nesting s)(t := n - 1)\<rparr>)"

inductive read_step :: "rcl_state \<Rightarrow> rcu_ev \<Rightarrow> rcl_state \<Rightarrow> bool" where
  read_lock: "t < NR_THREADS \<Longrightarrow>
    read_step s (if rcu_nesting s t = 0 then Lock t else Tau) (rcu_read_lock t s)"
| read_unlock: "0 < rcu_nesting s t \<Longrightarrow>
    read_step s (if rcu_nesting s t = 1 then Unlock t else Tau) (rcu_read_unlock t s)"

inductive sync_step :: "rcl_state \<Rightarrow> rcu_ev \<Rightarrow> rcl_state \<Rightarrow> bool" where
  call: "upc s u = SIdle \<Longrightarrow> sync_step s (Sync u) (s\<lparr>upc := (upc s)(u := SCalled)\<rparr>)"
| acquire: "upc s u = SCalled \<Longrightarrow> rcu_gp_lock s = None \<Longrightarrow>
    sync_step s Tau (s\<lparr>rcu_gp_lock := Some u, upc := (upc s)(u := SScan 0)\<rparr>)"
| test: "upc s u = SScan k \<Longrightarrow>
    sync_step s Tau (s\<lparr>upc := (upc s)(u := if rcu_nesting s k \<noteq> 0 then SScan k else next_scan k)\<rparr>)"
| release: "upc s u = SEnd \<Longrightarrow>
    sync_step s (Done u) (s\<lparr>rcu_gp_lock := None, upc := (upc s)(u := SIdle)\<rparr>)"

definition rcu_step :: "rcl_state \<Rightarrow> rcu_ev \<Rightarrow> rcl_state \<Rightarrow> bool" where
  "rcu_step s e s' \<longleftrightarrow> read_step s e s' \<or> sync_step s e s'"

section \<open>The invariant\<close>

definition rcl_inv :: "rcl_state \<Rightarrow> gp \<Rightarrow> bool" where
  "rcl_inv s g \<longleftrightarrow> (\<forall>t. 0 \<le> rcu_nesting s t \<and> (t \<in> cs g \<longleftrightarrow> 0 < rcu_nesting s t)) \<and>
     cs g \<subseteq> {..<NR_THREADS} \<and> (\<forall>u. waitfor g u \<subseteq> cs g) \<and>
     lock_ok sync_held (rcu_gp_lock s) (upc s) \<and> pos_ok (upc s) \<and>
     scan_ok (\<lambda>_ _. True) (waitfor g) (upc s)"

lemma rcl_invD:
  assumes "rcl_inv s g"
  shows "0 \<le> rcu_nesting s t" and "t \<in> cs g \<longleftrightarrow> 0 < rcu_nesting s t"
    and "cs g \<subseteq> {..<NR_THREADS}" and "waitfor g u \<subseteq> cs g"
    and "lock_ok sync_held (rcu_gp_lock s) (upc s)" and "pos_ok (upc s)"
    and "scan_ok (\<lambda>_ _. True) (waitfor g) (upc s)"
  using assms by (simp_all add: rcl_inv_def)

lemma rcl_inv_init: "rcu_init s \<Longrightarrow> rcl_inv s gp_init"
  by (simp add: rcu_init_def rcl_inv_def gp_init_def lock_ok_init pos_ok_def scan_ok_init)

lemma rcl_read_step_inv: "read_step s e s' \<Longrightarrow> rcl_inv s g \<Longrightarrow> rcl_inv s' (gp_eff e g)"
proof (induction rule: read_step.induct)
  case (read_lock t s)
  note i = rcl_invD [OF read_lock(2)]
  have "x \<in> waitfor g u \<Longrightarrow> 0 < rcu_nesting s x" for x u using i(4) [of u] i(2) [of x] by blast
  with read_lock(1) i(1-3,5-) i(1) [of t] i(2) [of t] show ?case
    by (auto simp: rcl_inv_def rcu_read_lock_def Let_def order_le_less)
next
  case (read_unlock s t)
  note i = rcl_invD [OF read_unlock(2)]
  show ?case
  proof (cases "rcu_nesting s t = 1")
    case True
    have "scan_ok (\<lambda>_ _. True) (\<lambda>u. waitfor g u - {t}) (upc s)"
      using i(7) by (rule scan_ok_mono) auto
    moreover have "waitfor g u - {t} \<subseteq> cs g - {t}" for u using i(4) by blast
    ultimately show ?thesis using True i(1,2,3,5,6)
      by (auto simp: rcl_inv_def rcu_read_unlock_def Let_def)
  next
    case False
    with read_unlock(1) i i(2) [of t] show ?thesis
      by (auto simp: rcl_inv_def rcu_read_unlock_def Let_def)
  qed
qed

lemma rcl_sync_step_inv: "sync_step s e s' \<Longrightarrow> rcl_inv s g \<Longrightarrow> rcl_inv s' (gp_eff e g)"
proof (induction rule: sync_step.induct)
  case (call s u)
  then show ?case
    by (simp add: rcl_inv_def lock_ok_outside pos_ok_upd scan_ok_outside)
next
  case (acquire s u)
  note i = rcl_invD [OF acquire(3)]
  from i acquire(1,2) show ?case
    by (simp add: rcl_inv_def lock_ok_acquire pos_ok_upd scan_ok_upd)
next
  case (test s u k)
  note i = rcl_invD [OF test(2)]
  have "k \<notin> waitfor g u" if "\<not> rcu_nesting s k \<noteq> 0"
    using i(2) [of k] i(4) [of u] that by auto
  note t = scan_test [where b = "rcu_nesting s k \<noteq> 0", OF i(7,6) disjI1 [OF test(1)] disjI1 [OF refl] this]
  from i t show ?case by (simp add: rcl_inv_def)
next
  case (release s u)
  note i = rcl_invD [OF release(2)]
  from i release(1) lock_ok_release [OF i(5), of u SIdle None] show ?case
    by (simp add: rcl_inv_def pos_ok_upd scan_ok_quiet)
qed

lemma rcl_observed_inv: "observed rcu_init rcu_step s g \<Longrightarrow> rcl_inv s g"
  by (erule observed_invariant)
    (auto simp: rcu_step_def intro: rcl_inv_init rcl_read_step_inv rcl_sync_step_inv)

lemma rcl_done_waits_for_none:
  assumes "rcl_inv s g" and "rcu_step s (Done u) s'"
  shows "waitfor g u = {}"
proof (rule scan_ok_end [OF rcl_invD(7) [OF assms(1)]])
  show "upc s u = SEnd"
    using assms(2)
    by (auto simp: rcu_step_def elim: read_step.cases sync_step.cases split: if_splits)
  show "waitfor g u \<subseteq> {..<NR_THREADS}" using rcl_invD(3,4) [OF assms(1)] by blast
qed

interpretation rcu_rcl: rcu_flavour rcu_init rcu_step
  by unfold_locales (rule rcl_done_waits_for_none [OF rcl_observed_inv])

end
