(* ===== verification/Rcu_Rcg.thy ===== *)
theory Rcu_Rcg
  imports Rcu_Spec
begin

text \<open>
  defer/rcu_rcg.h and defer/rcu_rcg.c: RCU on one global reference counter.
  \<open>nest\<close> is not a variable of the code: it is how deep each thread is nested, which the
  events need. The counter is an \<open>int\<close> and is an integer here.
\<close>

record rcg_state =
  rcu_refcnt :: int
  nest :: "nat \<Rightarrow> nat"
  upc :: "nat \<Rightarrow> sync_pc"

definition rcg_init :: "rcg_state \<Rightarrow> bool" where
  "rcg_init s \<longleftrightarrow> s = \<lparr>rcu_refcnt = 0, nest = (\<lambda>_. 0), upc = (\<lambda>_. SIdle)\<rparr>"

inductive read_step :: "rcg_state \<Rightarrow> rcu_ev \<Rightarrow> rcg_state \<Rightarrow> bool" where
  read_lock: "t < NR_THREADS \<Longrightarrow> read_step s (if nest s t = 0 then Lock t else Tau)
     (s\<lparr>rcu_refcnt := rcu_refcnt s + 1, nest := (nest s)(t := nest s t + 1)\<rparr>)"
| read_unlock: "t < NR_THREADS \<Longrightarrow> 0 < nest s t \<Longrightarrow>
    read_step s (if nest s t = 1 then Unlock t else Tau)
     (s\<lparr>rcu_refcnt := rcu_refcnt s - 1, nest := (nest s)(t := nest s t - 1)\<rparr>)"

inductive sync_step :: "rcg_state \<Rightarrow> rcu_ev \<Rightarrow> rcg_state \<Rightarrow> bool" where
  call: "upc s u = SIdle \<Longrightarrow> sync_step s (Sync u) (s\<lparr>upc := (upc s)(u := SCalled)\<rparr>)"
| test: "upc s u = SCalled \<Longrightarrow>
    sync_step s Tau (s\<lparr>upc := (upc s)(u := if rcu_refcnt s \<noteq> 0 then SCalled else SEnd)\<rparr>)"
| return: "upc s u = SEnd \<Longrightarrow> sync_step s (Done u) (s\<lparr>upc := (upc s)(u := SIdle)\<rparr>)"

definition rcu_step :: "rcg_state \<Rightarrow> rcu_ev \<Rightarrow> rcg_state \<Rightarrow> bool" where
  "rcu_step s e s' \<longleftrightarrow> read_step s e s' \<or> sync_step s e s'"

definition nest_total :: "(nat \<Rightarrow> nat) \<Rightarrow> nat" where
  "nest_total n = (\<Sum>t<NR_THREADS. n t)"

lemma nest_total_upd: "t < NR_THREADS \<Longrightarrow> nest_total (n(t := v)) + n t = nest_total n + v"
  using sum_fun_upd_finite [of "{..<NR_THREADS}" t n v] by (simp add: nest_total_def)

lemma nest_total_0: "nest_total n = 0 \<Longrightarrow> t < NR_THREADS \<Longrightarrow> n t = 0"
  by (simp add: nest_total_def)

definition rcg_inv :: "rcg_state \<Rightarrow> gp \<Rightarrow> bool" where
  "rcg_inv s g \<longleftrightarrow> rcu_refcnt s = int (nest_total (nest s)) \<and>
     (\<forall>t. t \<in> cs g \<longleftrightarrow> t < NR_THREADS \<and> 0 < nest s t) \<and> (\<forall>u. waitfor g u \<subseteq> cs g) \<and>
     (\<forall>u. upc s u = SEnd \<longrightarrow> waitfor g u = {})"

lemma rcg_read_step_inv: "read_step s e s' \<Longrightarrow> rcg_inv s g \<Longrightarrow> rcg_inv s' (gp_eff e g)"
proof (induction rule: read_step.induct)
  case (read_lock t s)
  with nest_total_upd [OF read_lock(1), of "nest s" "nest s t + 1"] show ?case
    by (auto simp: rcg_inv_def)
next
  case (read_unlock t s)
  with nest_total_upd [OF read_unlock(1), of "nest s" "nest s t - 1"] show ?case
    by (auto simp: rcg_inv_def)
qed

lemma rcg_sync_step_inv: "sync_step s e s' \<Longrightarrow> rcg_inv s g \<Longrightarrow> rcg_inv s' (gp_eff e g)"
proof (induction rule: sync_step.induct)
  case (test s u)
  have "waitfor g u = {}" if "rcu_refcnt s = 0"
  proof -
    have "nest_total (nest s) = 0" using test(2) that by (simp add: rcg_inv_def)
    note z = nest_total_0 [OF this]
    have "x \<notin> cs g" for x using test(2) z [of x] by (auto simp: rcg_inv_def)
    then have "cs g = {}" by blast
    then show ?thesis using test(2) by (auto simp: rcg_inv_def)
  qed
  with test show ?case by (auto simp: rcg_inv_def)
qed (auto simp: rcg_inv_def)

lemma rcg_observed_inv: "observed rcg_init rcu_step s g \<Longrightarrow> rcg_inv s g"
proof (erule observed_invariant)
  show "rcg_inv s gp_init" if "rcg_init s" for s
    using that by (simp add: rcg_init_def rcg_inv_def gp_init_def nest_total_def)
qed (auto simp: rcu_step_def intro: rcg_read_step_inv rcg_sync_step_inv)

lemma rcg_done_waits_for_none:
  assumes "rcg_inv s g" and "rcu_step s (Done u) s'"
  shows "waitfor g u = {}"
proof -
  have "upc s u = SEnd"
    using assms(2)
    by (auto simp: rcu_step_def elim: read_step.cases sync_step.cases split: if_splits)
  with assms(1) show ?thesis by (simp add: rcg_inv_def)
qed

interpretation rcu_rcg: rcu_flavour rcg_init rcu_step
  by unfold_locales (rule rcg_done_waits_for_none [OF rcg_observed_inv])

section \<open>A run of \<open>synchronize_rcu\<close>\<close>

definition solo :: "nat \<Rightarrow> sync_pc \<Rightarrow> rcg_state" where
  "solo u p = \<lparr>rcu_refcnt = 0, nest = (\<lambda>_. 0), upc = (\<lambda>_. SIdle)(u := p)\<rparr>"

lemma rcg_solo_steps:
  "rcu_step (solo u SIdle) (Sync u) (solo u SCalled)"
  "rcu_step (solo u SCalled) Tau (solo u SEnd)"
  "rcu_step (solo u SEnd) (Done u) (solo u SIdle)"
  using sync_step.call [of "solo u SIdle" u] sync_step.test [of "solo u SCalled" u]
    sync_step.return [of "solo u SEnd" u]
  by (simp_all add: solo_def rcu_step_def)

lemma rcg_solo_end: "observed rcg_init rcu_step (solo u SEnd) gp_init"
proof -
  have "observed rcg_init rcu_step (solo u SIdle) gp_init"
    by (rule observed.start) (simp add: solo_def rcg_init_def fun_upd_idem)
  from observed.event [OF observed.event [OF this rcg_solo_steps(1)] rcg_solo_steps(2)]
  show ?thesis by (simp only: gp_eff_init)
qed

end
