(* ===== verification/Rcu_Lock.thy ===== *)
theory Rcu_Lock
  imports Rcu_Spec
begin

text \<open>
  defer/rcu_lock.h and defer/rcu_lock.c: one lock that readers and updaters hold in turn. A
  critical section holds it throughout; \<open>synchronize_rcu\<close> acquires and releases it.
\<close>

datatype holder = Reader nat | Updater nat

record rlock_state =
  rcu_gp_lock :: "holder option"
  upc :: "nat \<Rightarrow> sync_pc"

definition rlock_init :: "rlock_state \<Rightarrow> bool" where
  "rlock_init s \<longleftrightarrow> s = \<lparr>rcu_gp_lock = None, upc = (\<lambda>_. SIdle)\<rparr>"

inductive read_step :: "rlock_state \<Rightarrow> rcu_ev \<Rightarrow> rlock_state \<Rightarrow> bool" where
  read_lock: "t < NR_THREADS \<Longrightarrow> rcu_gp_lock s = None \<Longrightarrow>
    read_step s (Lock t) (s\<lparr>rcu_gp_lock := Some (Reader t)\<rparr>)"
| read_unlock: "rcu_gp_lock s = Some (Reader t) \<Longrightarrow>
    read_step s (Unlock t) (s\<lparr>rcu_gp_lock := None\<rparr>)"

inductive sync_step :: "rlock_state \<Rightarrow> rcu_ev \<Rightarrow> rlock_state \<Rightarrow> bool" where
  call: "upc s u = SIdle \<Longrightarrow> sync_step s (Sync u) (s\<lparr>upc := (upc s)(u := SCalled)\<rparr>)"
| acquire: "upc s u = SCalled \<Longrightarrow> rcu_gp_lock s = None \<Longrightarrow>
    sync_step s Tau (s\<lparr>rcu_gp_lock := Some (Updater u), upc := (upc s)(u := SLocked)\<rparr>)"
| release: "upc s u = SLocked \<Longrightarrow>
    sync_step s (Done u) (s\<lparr>rcu_gp_lock := None, upc := (upc s)(u := SIdle)\<rparr>)"

definition rcu_step :: "rlock_state \<Rightarrow> rcu_ev \<Rightarrow> rlock_state \<Rightarrow> bool" where
  "rcu_step s e s' \<longleftrightarrow> read_step s e s' \<or> sync_step s e s'"

definition rlock_inv :: "rlock_state \<Rightarrow> gp \<Rightarrow> bool" where
  "rlock_inv s g \<longleftrightarrow> cs g = {t. rcu_gp_lock s = Some (Reader t)} \<and>
     (\<forall>u. waitfor g u \<subseteq> cs g) \<and>
     (\<forall>u. upc s u = SLocked \<longrightarrow> rcu_gp_lock s = Some (Updater u))"

lemma rlock_step_inv: "rcu_step s e s' \<Longrightarrow> rlock_inv s g \<Longrightarrow> rlock_inv s' (gp_eff e g)"
proof -
  have "read_step s e s' \<Longrightarrow> rlock_inv s g \<Longrightarrow> rlock_inv s' (gp_eff e g)"
    by (induction rule: read_step.induct) (auto simp: rlock_inv_def)
  moreover have "sync_step s e s' \<Longrightarrow> rlock_inv s g \<Longrightarrow> rlock_inv s' (gp_eff e g)"
  proof (induction rule: sync_step.induct)
    case (release s u)
    from release have l: "rcu_gp_lock s = Some (Updater u)" by (simp add: rlock_inv_def)
    have n: "upc s v \<noteq> SLocked" if "v \<noteq> u" for v
    proof
      assume "upc s v = SLocked"
      with release(2) have "rcu_gp_lock s = Some (Updater v)" by (simp add: rlock_inv_def)
      with l that show False by simp
    qed
    have "cs g = {}" and "waitfor g v = {}" for v
      using release(2) l by (auto simp: rlock_inv_def)
    with n show ?case by (simp add: rlock_inv_def)
  qed (auto simp: rlock_inv_def)
  ultimately show "rcu_step s e s' \<Longrightarrow> rlock_inv s g \<Longrightarrow> ?thesis"
    unfolding rcu_step_def by blast
qed

lemma rlock_observed_inv: "observed rlock_init rcu_step s g \<Longrightarrow> rlock_inv s g"
proof (erule observed_invariant)
  show "rlock_inv s gp_init" if "rlock_init s" for s
    using that by (simp add: rlock_init_def rlock_inv_def gp_init_def)
qed (rule rlock_step_inv)

lemma rlock_done_waits_for_none:
  assumes "rlock_inv s g" and "rcu_step s (Done u) s'"
  shows "waitfor g u = {}"
proof -
  have "upc s u = SLocked"
    using assms(2) by (auto simp: rcu_step_def elim: read_step.cases sync_step.cases)
  with assms(1) show ?thesis by (auto simp: rlock_inv_def)
qed

interpretation rcu_lock: rcu_flavour rlock_init rcu_step
  by unfold_locales (rule rlock_done_waits_for_none [OF rlock_observed_inv])

end
