(* ===== verification/Rcu_Lock_Percpu.thy ===== *)
theory Rcu_Lock_Percpu
  imports Rcu_Spec
begin

text \<open>
  defer/rcu_lock_percpu.h and defer/rcu_lock_percpu.c: one lock per thread. A reader holds its
  own, and \<open>synchronize_rcu\<close> acquires and releases the lock of every running thread in turn.
  Which threads run is fixed here; only a running thread reads.
\<close>

datatype holder = Reader | Updater nat

record plock_state =
  rcu_gp_lock :: "nat \<Rightarrow> holder option"
  running :: "nat \<Rightarrow> bool"
  upc :: "nat \<Rightarrow> sync_pc"

definition rcu_init :: "plock_state \<Rightarrow> bool" where
  "rcu_init s \<longleftrightarrow> (\<forall>t. rcu_gp_lock s t = None) \<and> (\<forall>u. upc s u = SIdle)"

inductive read_step :: "plock_state \<Rightarrow> rcu_ev \<Rightarrow> plock_state \<Rightarrow> bool" where
  read_lock: "t < NR_THREADS \<Longrightarrow> running s t \<Longrightarrow> rcu_gp_lock s t = None \<Longrightarrow>
    read_step s (Lock t) (s\<lparr>rcu_gp_lock := (rcu_gp_lock s)(t := Some Reader)\<rparr>)"
| read_unlock: "rcu_gp_lock s t = Some Reader \<Longrightarrow>
    read_step s (Unlock t) (s\<lparr>rcu_gp_lock := (rcu_gp_lock s)(t := None)\<rparr>)"

text \<open>\<open>SSecond k\<close> holds the lock of thread \<open>k\<close>.\<close>

inductive sync_step :: "plock_state \<Rightarrow> rcu_ev \<Rightarrow> plock_state \<Rightarrow> bool" where
  call: "upc s u = SIdle \<Longrightarrow> sync_step s (Sync u) (s\<lparr>upc := (upc s)(u := SCalled)\<rparr>)"
| start: "upc s u = SCalled \<Longrightarrow> sync_step s Tau (s\<lparr>upc := (upc s)(u := SScan 0)\<rparr>)"
| skip: "upc s u = SScan k \<Longrightarrow> \<not> running s k \<Longrightarrow>
    sync_step s Tau (s\<lparr>upc := (upc s)(u := next_scan k)\<rparr>)"
| acquire: "upc s u = SScan k \<Longrightarrow> running s k \<Longrightarrow> rcu_gp_lock s k = None \<Longrightarrow>
    sync_step s Tau (s\<lparr>rcu_gp_lock := (rcu_gp_lock s)(k := Some (Updater u)),
      upc := (upc s)(u := SSecond k)\<rparr>)"
| release: "upc s u = SSecond k \<Longrightarrow>
    sync_step s Tau (s\<lparr>rcu_gp_lock := (rcu_gp_lock s)(k := None),
      upc := (upc s)(u := next_scan k)\<rparr>)"
| return: "upc s u = SEnd \<Longrightarrow> sync_step s (Done u) (s\<lparr>upc := (upc s)(u := SIdle)\<rparr>)"

definition rcu_step :: "plock_state \<Rightarrow> rcu_ev \<Rightarrow> plock_state \<Rightarrow> bool" where
  "rcu_step s e s' \<longleftrightarrow> read_step s e s' \<or> sync_step s e s'"

section \<open>The invariant\<close>

definition plock_inv :: "plock_state \<Rightarrow> gp \<Rightarrow> bool" where
  "plock_inv s g \<longleftrightarrow> (\<forall>t. t \<in> cs g \<longleftrightarrow> rcu_gp_lock s t = Some Reader) \<and>
     (\<forall>t. t \<in> cs g \<longrightarrow> t < NR_THREADS \<and> running s t) \<and> (\<forall>u. waitfor g u \<subseteq> cs g) \<and>
     (\<forall>u k. upc s u = SSecond k \<longrightarrow> rcu_gp_lock s k = Some (Updater u)) \<and> pos_ok (upc s) \<and>
     scan_ok (\<lambda>_ _. True) (waitfor g) (upc s)"

lemma plock_invD:
  assumes "plock_inv s g"
  shows "t \<in> cs g \<longleftrightarrow> rcu_gp_lock s t = Some Reader"
    and "t \<in> cs g \<Longrightarrow> t < NR_THREADS \<and> running s t" and "waitfor g u \<subseteq> cs g"
    and "upc s u = SSecond k \<Longrightarrow> rcu_gp_lock s k = Some (Updater u)" and "pos_ok (upc s)"
    and "scan_ok (\<lambda>_ _. True) (waitfor g) (upc s)"
  using assms by (simp_all add: plock_inv_def)

lemma plock_inv_init: "rcu_init s \<Longrightarrow> plock_inv s gp_init"
  by (simp add: rcu_init_def plock_inv_def gp_init_def pos_ok_def scan_ok_init)

lemma plock_waitfor: "plock_inv s g \<Longrightarrow> t \<in> waitfor g u \<Longrightarrow> rcu_gp_lock s t = Some Reader"
  using plock_invD(1,3) by blast

lemma plock_read_step_inv: "read_step s e s' \<Longrightarrow> plock_inv s g \<Longrightarrow> plock_inv s' (gp_eff e g)"
proof (induction rule: read_step.induct)
  case (read_lock t s)
  note i = plock_invD [OF read_lock(4)]
  have "x \<in> waitfor g u \<Longrightarrow> rcu_gp_lock s x = Some Reader" for x u
    using plock_waitfor [OF read_lock(4)] .
  with read_lock(1-3) i(1,2,4-6) show ?case by (auto simp: plock_inv_def)
next
  case (read_unlock s t)
  note i = plock_invD [OF read_unlock(2)]
  have "scan_ok (\<lambda>_ _. True) (\<lambda>u. waitfor g u - {t}) (upc s)"
    using i(6) by (rule scan_ok_mono) auto
  moreover have "waitfor g u - {t} \<subseteq> cs g - {t}" for u using i(3) by blast
  moreover have "upc s u \<noteq> SSecond t" for u using i(4) [of u t] read_unlock(1) by auto
  ultimately show ?case using i(1,2,4,5) by (auto simp: plock_inv_def)
qed

lemma plock_sync_step_inv: "sync_step s e s' \<Longrightarrow> plock_inv s g \<Longrightarrow> plock_inv s' (gp_eff e g)"
proof (induction rule: sync_step.induct)
  case (call s u)
  then show ?case by (simp add: plock_inv_def pos_ok_upd scan_ok_outside)
next
  case (start s u)
  then show ?case by (simp add: plock_inv_def pos_ok_upd scan_ok_upd)
next
  case (skip s u k)
  note i = plock_invD [OF skip(3)]
  have k: "k \<notin> waitfor g u" using i(2) [of k] i(3) [of u] skip(2) by blast
  have "k < NR_THREADS" using pos_okD [OF i(5)] skip(1) by blast
  from scan_ok_next [OF i(6) disjI1 [OF skip(1)] this k] i skip(1) show ?case
    by (simp add: plock_inv_def pos_ok_upd)
next
  case (acquire s u k)
  note i = plock_invD [OF acquire(4)]
  have "upc s v \<noteq> SSecond k" for v using i(4) [of v k] acquire(3) by auto
  moreover have "k < NR_THREADS" using pos_okD [OF i(5)] acquire(1) by blast
  moreover have "scan_ok (\<lambda>_ _. True) (waitfor g) ((upc s)(u := SSecond k))"
    by (rule scan_ok_same [OF i(6)]) (simp_all add: acquire(1))
  moreover have "k \<notin> cs g" using i(1) [of k] acquire(3) by simp
  ultimately show ?case using i by (auto simp: plock_inv_def pos_ok_upd)
next
  case (release s u k)
  note i = plock_invD [OF release(2)]
  have h: "rcu_gp_lock s k = Some (Updater u)" using i(4) release(1) by blast
  have "v = u" if "upc s v = SSecond k" for v using i(4) [OF that] h by simp
  moreover have n: "k \<notin> cs g" using i(1) [of k] h by simp
  then have "k \<notin> waitfor g u" using i(3) by blast
  moreover have "k < NR_THREADS" using pos_okD [OF i(5)] release(1) by blast
  ultimately show ?case using scan_ok_next [OF i(6) disjI2 [OF release(1)]] i n
    by (auto simp: plock_inv_def pos_ok_upd)
next
  case (return s u)
  note i = plock_invD [OF return(2)]
  from i return(1) show ?case by (simp add: plock_inv_def pos_ok_upd scan_ok_quiet)
qed

lemma plock_observed_inv: "observed rcu_init rcu_step s g \<Longrightarrow> plock_inv s g"
  by (erule observed_invariant)
    (auto simp: rcu_step_def intro: plock_inv_init plock_read_step_inv plock_sync_step_inv)

lemma plock_done_waits_for_none:
  assumes "plock_inv s g" and "rcu_step s (Done u) s'"
  shows "waitfor g u = {}"
proof (rule scan_ok_end [OF plock_invD(6) [OF assms(1)]])
  show "upc s u = SEnd"
    using assms(2) by (auto simp: rcu_step_def elim: read_step.cases sync_step.cases)
  show "waitfor g u \<subseteq> {..<NR_THREADS}" using plock_invD(2,3) [OF assms(1)] by blast
qed

interpretation rcu_lock_percpu: rcu_flavour rcu_init rcu_step
  by unfold_locales (rule plock_done_waits_for_none [OF plock_observed_inv])

end
