(* ===== verification/Rcu_Rcpg.thy ===== *)
theory Rcu_Rcpg
  imports Rcu_Spec
begin

text \<open>
  defer/rcu_rcpg.h and defer/rcu_rcpg.c: RCU on a pair of global reference counters. An updater
  flips the index that new readers use and waits for the readers on the old one, twice. The
  counters are integers; \<open>picked\<close> marks a reader that has picked an index and is about to
  increment its counter.
\<close>

record rcpg_state =
  rcu_refcnt :: "nat \<Rightarrow> int"
  rcu_idx :: nat
  rcu_nesting :: "nat \<Rightarrow> int"
  rcu_read_idx :: "nat \<Rightarrow> nat"
  picked :: "nat \<Rightarrow> bool"
  rcu_gp_lock :: "nat option"
  upc :: "nat \<Rightarrow> flip_pc"

definition rcu_init :: "rcpg_state \<Rightarrow> bool" where
  "rcu_init s \<longleftrightarrow> rcu_refcnt s 0 = 0 \<and> rcu_refcnt s 1 = 0 \<and> rcu_idx s = 0 \<and>
     (\<forall>t. rcu_nesting s t = 0) \<and> (\<forall>t. \<not> picked s t) \<and> rcu_gp_lock s = None \<and>
     (\<forall>u. upc s u = FIdle)"

inductive read_step :: "rcpg_state \<Rightarrow> rcu_ev \<Rightarrow> rcpg_state \<Rightarrow> bool" where
  pick: "t < NR_THREADS \<Longrightarrow> rcu_nesting s t = 0 \<Longrightarrow> \<not> picked s t \<Longrightarrow>
    read_step s Tau (s\<lparr>rcu_read_idx := (rcu_read_idx s)(t := rcu_idx s), picked := (picked s)(t := True)\<rparr>)"
| enter: "t < NR_THREADS \<Longrightarrow> rcu_nesting s t = 0 \<Longrightarrow> picked s t \<Longrightarrow> i = rcu_read_idx s t \<Longrightarrow>
    read_step s (Lock t) (s\<lparr>rcu_refcnt := (rcu_refcnt s)(i := rcu_refcnt s i + 1),
      rcu_nesting := (rcu_nesting s)(t := 1), picked := (picked s)(t := False)\<rparr>)"
| nest: "0 < rcu_nesting s t \<Longrightarrow>
    read_step s Tau (s\<lparr>rcu_nesting := (rcu_nesting s)(t := rcu_nesting s t + 1)\<rparr>)"
| unnest: "1 < rcu_nesting s t \<Longrightarrow>
    read_step s Tau (s\<lparr>rcu_nesting := (rcu_nesting s)(t := rcu_nesting s t - 1)\<rparr>)"
| leave: "rcu_nesting s t = 1 \<Longrightarrow> i = rcu_read_idx s t \<Longrightarrow>
    read_step s (Unlock t) (s\<lparr>rcu_refcnt := (rcu_refcnt s)(i := rcu_refcnt s i - 1),
      rcu_nesting := (rcu_nesting s)(t := 0)\<rparr>)"

inductive sync_step :: "rcpg_state \<Rightarrow> rcu_ev \<Rightarrow> rcpg_state \<Rightarrow> bool" where
  call: "upc s u = FIdle \<Longrightarrow> sync_step s (Sync u) (s\<lparr>upc := (upc s)(u := FCalled)\<rparr>)"
| acquire: "upc s u = FCalled \<Longrightarrow> rcu_gp_lock s = None \<Longrightarrow>
    sync_step s Tau (s\<lparr>rcu_gp_lock := Some u, upc := (upc s)(u := FLocked)\<rparr>)"
| flip1: "upc s u = FLocked \<Longrightarrow> i = rcu_idx s \<Longrightarrow>
    sync_step s Tau (s\<lparr>rcu_idx := other i, upc := (upc s)(u := FWait1 i 0)\<rparr>)"
| wait1: "upc s u = FWait1 i k \<Longrightarrow>
    sync_step s Tau (s\<lparr>upc := (upc s)(u := if rcu_refcnt s i \<noteq> 0 then FWait1 i k else FFlip2 i)\<rparr>)"
| flip2: "upc s u = FFlip2 i \<Longrightarrow>
    sync_step s Tau (s\<lparr>rcu_idx := i, upc := (upc s)(u := FWait2 i 0)\<rparr>)"
| wait2: "upc s u = FWait2 i k \<Longrightarrow>
    sync_step s Tau (s\<lparr>upc := (upc s)(u := if rcu_refcnt s (other i) \<noteq> 0 then FWait2 i k else FEnd)\<rparr>)"
| release: "upc s u = FEnd \<Longrightarrow>
    sync_step s (Done u) (s\<lparr>rcu_gp_lock := None, upc := (upc s)(u := FIdle)\<rparr>)"

definition rcu_step :: "rcpg_state \<Rightarrow> rcu_ev \<Rightarrow> rcpg_state \<Rightarrow> bool" where
  "rcu_step s e s' \<longleftrightarrow> read_step s e s' \<or> sync_step s e s'"

section \<open>The invariant\<close>

definition readers :: "rcpg_state \<Rightarrow> nat \<Rightarrow> nat set" where
  "readers s i = {t. t < NR_THREADS \<and> 0 < rcu_nesting s t \<and> rcu_read_idx s t = i}"

lemma finite_readers [simp]: "finite (readers s i)"
  by (rule finite_subset [of _ "{..<NR_THREADS}"]) (auto simp: readers_def)

definition rcpg_inv :: "rcpg_state \<Rightarrow> gp \<Rightarrow> bool" where
  "rcpg_inv s g \<longleftrightarrow> (\<forall>i<2. rcu_refcnt s i = int (card (readers s i))) \<and> rcu_idx s < 2 \<and>
     (\<forall>t. 0 \<le> rcu_nesting s t \<and> (0 < rcu_nesting s t \<longrightarrow> t < NR_THREADS)) \<and>
     (\<forall>t. 0 < rcu_nesting s t \<or> picked s t \<longrightarrow> rcu_read_idx s t < 2) \<and>
     (\<forall>t. t \<in> cs g \<longleftrightarrow> 0 < rcu_nesting s t) \<and> (\<forall>u. waitfor g u \<subseteq> cs g) \<and>
     flip_ok (rcu_read_idx s) (waitfor g) (upc s)"

lemma rcpg_invD:
  assumes "rcpg_inv s g"
  shows "i < 2 \<Longrightarrow> rcu_refcnt s i = int (card (readers s i))" and "rcu_idx s < 2"
    and "0 \<le> rcu_nesting s t" and "0 < rcu_nesting s t \<Longrightarrow> t < NR_THREADS"
    and "0 < rcu_nesting s t \<or> picked s t \<Longrightarrow> rcu_read_idx s t < 2"
    and "t \<in> cs g \<longleftrightarrow> 0 < rcu_nesting s t" and "waitfor g u \<subseteq> cs g"
    and "flip_ok (rcu_read_idx s) (waitfor g) (upc s)"
  using assms unfolding rcpg_inv_def by blast+

lemma rcpg_inv_init: "rcu_init s \<Longrightarrow> rcpg_inv s gp_init"
  by (auto simp: rcu_init_def rcpg_inv_def gp_init_def readers_def less_2_cases_iff
      intro!: flip_ok_init)

lemma rcpg_idle_index: "rcpg_inv s g \<Longrightarrow> t \<in> waitfor g u \<Longrightarrow> 0 < rcu_nesting s t"
  using rcpg_invD(6,7) by blast

lemma rcpg_read_step_inv: "read_step s e s' \<Longrightarrow> rcpg_inv s g \<Longrightarrow> rcpg_inv s' (gp_eff e g)"
proof (induction rule: read_step.induct)
  case (pick t s)
  note i = rcpg_invD [OF pick(4)]
  let ?s = "s\<lparr>rcu_read_idx := (rcu_read_idx s)(t := rcu_idx s), picked := (picked s)(t := True)\<rparr>"
  have "readers ?s j = readers s j" for j using pick(2) by (auto simp: readers_def)
  moreover have "t \<notin> waitfor g u" for u using rcpg_idle_index [OF pick(4), of t u] pick(2) by auto
  then have "flip_ok ((rcu_read_idx s)(t := rcu_idx s)) (waitfor g) (upc s)"
    by (intro flip_ok_idx i(8))
  ultimately show ?case using i(1-7) pick(2) by (simp add: rcpg_inv_def)
next
  case (enter t s i)
  note v = rcpg_invD [OF enter(5)]
  let ?s = "s\<lparr>rcu_refcnt := (rcu_refcnt s)(i := rcu_refcnt s i + 1),
      rcu_nesting := (rcu_nesting s)(t := 1), picked := (picked s)(t := False)\<rparr>"
  have i: "i < 2" using v(5) [of t] enter(3,4) by simp
  have "readers ?s j = (if j = i then insert t (readers s j) else readers s j)" for j
    using enter(1,2,4) by (auto simp: readers_def)
  moreover have "t \<notin> readers s i" using enter(2) by (simp add: readers_def)
  ultimately have "j < 2 \<Longrightarrow> rcu_refcnt ?s j = int (card (readers ?s j))" for j
    using v(1) [of j] by auto
  moreover have "waitfor g u \<subseteq> insert t (cs g)" for u using v(7) by blast
  ultimately show ?case using v(2-6,8) enter(1,4) i by (simp add: rcpg_inv_def)
next
  case (nest s t)
  note v = rcpg_invD [OF nest(2)]
  have "readers (s\<lparr>rcu_nesting := (rcu_nesting s)(t := rcu_nesting s t + 1)\<rparr>) j = readers s j" for j
    using nest(1) by (auto simp: readers_def)
  with v(1-8) nest(1) v(4) [of t] show ?case by (simp add: rcpg_inv_def)
next
  case (unnest s t)
  note v = rcpg_invD [OF unnest(2)]
  have "readers (s\<lparr>rcu_nesting := (rcu_nesting s)(t := rcu_nesting s t - 1)\<rparr>) j = readers s j" for j
    using unnest(1) by (auto simp: readers_def)
  with v(1-8) unnest(1) v(4) [of t] v(5) [of t] show ?case by (simp add: rcpg_inv_def)
next
  case (leave s t i)
  note v = rcpg_invD [OF leave(3)]
  let ?s = "s\<lparr>rcu_refcnt := (rcu_refcnt s)(i := rcu_refcnt s i - 1),
      rcu_nesting := (rcu_nesting s)(t := 0)\<rparr>"
  have m: "t \<in> readers s i" using leave(1,2) v(4) [of t] by (simp add: readers_def)
  have "readers ?s j = readers s j - {t}" for j using leave(1) by (auto simp: readers_def)
  moreover have "t \<notin> readers s j" if "j \<noteq> i" for j using leave(2) that by (simp add: readers_def)
  moreover have "int (card (readers s i - {t})) = int (card (readers s i)) - 1"
    using card_Suc_Diff1 [OF finite_readers m] by linarith
  ultimately have "j < 2 \<Longrightarrow> rcu_refcnt ?s j = int (card (readers ?s j))" for j
    using v(1) [of j] by (cases "j = i") simp_all
  moreover have "flip_ok (rcu_read_idx s) (\<lambda>u. waitfor g u - {t}) (upc s)"
    by (rule flip_ok_mono [OF v(8)]) auto
  moreover have "waitfor g u - {t} \<subseteq> cs g - {t}" for u using v(7) by blast
  ultimately show ?case using v(2-6) by (simp add: rcpg_inv_def)
qed

lemma rcpg_drained:
  assumes "rcpg_inv s g" and "i < 2" and "rcu_refcnt s i = 0" and "t \<in> waitfor g u"
  shows "rcu_read_idx s t \<noteq> i"
proof -
  have "readers s i = {}" using rcpg_invD(1) [OF assms(1,2)] assms(3) by simp
  moreover have "0 < rcu_nesting s t" using rcpg_idle_index [OF assms(1,4)] .
  ultimately show ?thesis using rcpg_invD(4) [OF assms(1), of t] by (auto simp: readers_def)
qed

lemma rcpg_sync_step_inv: "sync_step s e s' \<Longrightarrow> rcpg_inv s g \<Longrightarrow> rcpg_inv s' (gp_eff e g)"
proof (induction rule: sync_step.induct)
  case (call s u)
  note v = rcpg_invD [OF call(2)]
  have "readers (s\<lparr>upc := f\<rparr>) j = readers s j" for j f by (simp add: readers_def)
  with v flip_ok_call [OF v(8), of u "cs g"] show ?case by (simp add: rcpg_inv_def)
next
  case (acquire s u)
  note v = rcpg_invD [OF acquire(3)]
  have "readers (s\<lparr>rcu_gp_lock := l, upc := f\<rparr>) j = readers s j" for j f l by (simp add: readers_def)
  with v flip_ok_upd [OF v(8), where u = u and p = FLocked] show ?case by (simp add: rcpg_inv_def)
next
  case (flip1 s u i)
  note v = rcpg_invD [OF flip1(3)]
  have "readers (s\<lparr>rcu_idx := l, upc := f\<rparr>) j = readers s j" for j f l by (simp add: readers_def)
  with v flip_ok_upd [OF v(8), where u = u and p = "FWait1 i 0"] flip1(2) show ?case
    by (simp add: rcpg_inv_def other_less)
next
  case (wait1 s u i k)
  note v = rcpg_invD [OF wait1(2)]
  have r: "readers (s\<lparr>upc := f\<rparr>) j = readers s j" for j f by (simp add: readers_def)
  have i: "i < 2" using flip_ok_index [OF v(8), of u] wait1(1) by simp
  have "flip_ok (rcu_read_idx s) (waitfor g)
      ((upc s)(u := if rcu_refcnt s i \<noteq> 0 then FWait1 i k else FFlip2 i))"
    using rcpg_drained [OF wait1(2) i] i flip_okD [OF v(8), of u] wait1(1)
    by (intro flip_ok_upd v(8)) auto
  with v r show ?case by (simp add: rcpg_inv_def)
next
  case (flip2 s u i)
  note v = rcpg_invD [OF flip2(2)]
  have r: "readers (s\<lparr>rcu_idx := l, upc := f\<rparr>) j = readers s j" for j f l by (simp add: readers_def)
  have i: "i < 2" using flip_ok_index [OF v(8), of u] flip2(1) by simp
  have "flip_ok (rcu_read_idx s) (waitfor g) ((upc s)(u := FWait2 i 0))"
    using flip_okD [OF v(8), of u] flip2(1) i by (intro flip_ok_upd v(8)) auto
  with v i r show ?case by (simp add: rcpg_inv_def)
next
  case (wait2 s u i k)
  note v = rcpg_invD [OF wait2(2)]
  have r: "readers (s\<lparr>upc := f\<rparr>) j = readers s j" for j f by (simp add: readers_def)
  have i: "i < 2" using flip_ok_index [OF v(8), of u] wait2(1) by simp
  have "waitfor g u = {}" if z: "rcu_refcnt s (other i) = 0"
  proof -
    have "rcu_read_idx s t \<noteq> other i" "rcu_read_idx s t \<noteq> i" "rcu_read_idx s t < 2"
      if t: "t \<in> waitfor g u" for t
      using rcpg_drained [OF wait2(2) other_less z t] flip_okD [OF v(8), of u] wait2(1) t
        v(5) [of t] rcpg_idle_index [OF wait2(2) t] by auto
    with i show ?thesis by (fastforce simp: other_def less_2_cases_iff)
  qed
  then have "flip_ok (rcu_read_idx s) (waitfor g)
      ((upc s)(u := if rcu_refcnt s (other i) \<noteq> 0 then FWait2 i k else FEnd))"
    using i flip_okD [OF v(8), of u] wait2(1) by (intro flip_ok_upd v(8)) auto
  with v r show ?case by (simp add: rcpg_inv_def)
next
  case (release s u)
  note v = rcpg_invD [OF release(2)]
  have "readers (s\<lparr>rcu_gp_lock := l, upc := f\<rparr>) j = readers s j" for j f l by (simp add: readers_def)
  with v flip_ok_upd [OF v(8), where u = u and p = FIdle] show ?case by (simp add: rcpg_inv_def)
qed

lemma rcpg_observed_inv: "observed rcu_init rcu_step s g \<Longrightarrow> rcpg_inv s g"
  by (erule observed_invariant)
    (auto simp: rcu_step_def intro: rcpg_inv_init rcpg_read_step_inv rcpg_sync_step_inv)

lemma rcpg_done_waits_for_none:
  assumes "rcpg_inv s g" and "rcu_step s (Done u) s'"
  shows "waitfor g u = {}"
proof -
  have "upc s u = FEnd"
    using assms(2) by (auto simp: rcu_step_def elim: read_step.cases sync_step.cases)
  with flip_okD [OF rcpg_invD(8) [OF assms(1)], of u] show ?thesis by simp
qed

interpretation rcu_rcpg: rcu_flavour rcu_init rcu_step
  by unfold_locales (rule rcpg_done_waits_for_none [OF rcpg_observed_inv])

section \<open>A run of \<open>synchronize_rcu\<close>\<close>

definition solo :: "nat \<Rightarrow> nat \<Rightarrow> nat option \<Rightarrow> flip_pc \<Rightarrow> rcpg_state" where
  "solo u i l p = \<lparr>rcu_refcnt = (\<lambda>_. 0), rcu_idx = i, rcu_nesting = (\<lambda>_. 0), rcu_read_idx = (\<lambda>_. 0),
     picked = (\<lambda>_. False), rcu_gp_lock = l, upc = (\<lambda>_. FIdle)(u := p)\<rparr>"

lemma rcpg_solo_steps:
  "sync_step (solo u 0 None FIdle) (Sync u) (solo u 0 None FCalled)"
  "sync_step (solo u 0 None FCalled) Tau (solo u 0 (Some u) FLocked)"
  "sync_step (solo u 0 (Some u) FLocked) Tau (solo u 1 (Some u) (FWait1 0 0))"
  "sync_step (solo u 1 (Some u) (FWait1 0 0)) Tau (solo u 1 (Some u) (FFlip2 0))"
  "sync_step (solo u 1 (Some u) (FFlip2 0)) Tau (solo u 0 (Some u) (FWait2 0 0))"
  "sync_step (solo u 0 (Some u) (FWait2 0 0)) Tau (solo u 0 (Some u) FEnd)"
  "sync_step (solo u 0 (Some u) FEnd) (Done u) (solo u 0 None FIdle)"
  using sync_step.call [of "solo u 0 None FIdle" u] sync_step.acquire [of "solo u 0 None FCalled" u]
    sync_step.flip1 [of "solo u 0 (Some u) FLocked" u 0]
    sync_step.wait1 [of "solo u 1 (Some u) (FWait1 0 0)" u 0 0]
    sync_step.flip2 [of "solo u 1 (Some u) (FFlip2 0)" u 0]
    sync_step.wait2 [of "solo u 0 (Some u) (FWait2 0 0)" u 0 0]
    sync_step.release [of "solo u 0 (Some u) FEnd" u]
  by (simp_all add: solo_def other_def)

lemma rcpg_solo_observed:
  "observed rcu_init rcu_step s gp_init \<Longrightarrow> sync_step s e s' \<Longrightarrow> gp_eff e gp_init = gp_init \<Longrightarrow>
    observed rcu_init rcu_step s' gp_init"
  using observed.event [of rcu_init rcu_step s gp_init e s'] by (simp add: rcu_step_def)

lemma rcpg_solo_end: "observed rcu_init rcu_step (solo u 0 (Some u) FEnd) gp_init"
proof -
  have "observed rcu_init rcu_step (solo u 0 None FIdle) gp_init"
    by (rule observed.start) (simp add: solo_def rcu_init_def)
  note o = rcpg_solo_observed [OF this rcpg_solo_steps(1) gp_eff_init(1)]
  note o = rcpg_solo_observed [OF o rcpg_solo_steps(2) gp_eff_init(3)]
  note o = rcpg_solo_observed [OF o rcpg_solo_steps(3) gp_eff_init(3)]
  note o = rcpg_solo_observed [OF o rcpg_solo_steps(4) gp_eff_init(3)]
  note o = rcpg_solo_observed [OF o rcpg_solo_steps(5) gp_eff_init(3)]
  show ?thesis by (rule rcpg_solo_observed [OF o rcpg_solo_steps(6) gp_eff_init(3)])
qed

lemma rcpg_solo_done: "rcu_step (solo u 0 (Some u) FEnd) (Done u) (solo u 0 None FIdle)"
  using rcpg_solo_steps(7) by (simp add: rcu_step_def)

end
