(* ===== verification/Rcu_Rcpl.thy ===== *)
theory Rcu_Rcpl
  imports Rcu_Spec
begin

text \<open>
  defer/rcu_rcpl.h and defer/rcu_rcpl.c: RCU on a pair of reference counters per thread. An
  updater flips the index that new readers use and waits, thread by thread, for the readers on
  the old one, twice. The counters are integers; only its own thread writes a counter;
  \<open>picked\<close> marks a reader that has picked an index and is about to increment its counter.
\<close>

record rcpl_state =
  rcu_refcnt :: "nat \<Rightarrow> nat \<Rightarrow> int"   \<comment> \<open>by thread and index\<close>
  rcu_idx :: nat
  rcu_nesting :: "nat \<Rightarrow> int"
  rcu_read_idx :: "nat \<Rightarrow> nat"
  picked :: "nat \<Rightarrow> bool"
  rcu_gp_lock :: "nat option"
  upc :: "nat \<Rightarrow> flip_pc"

definition rcu_init :: "rcpl_state \<Rightarrow> bool" where
  "rcu_init s \<longleftrightarrow> (\<forall>t. rcu_refcnt s t 0 = 0 \<and> rcu_refcnt s t 1 = 0) \<and> rcu_idx s = 0 \<and>
     (\<forall>t. rcu_nesting s t = 0) \<and> (\<forall>t. \<not> picked s t) \<and> rcu_gp_lock s = None \<and>
     (\<forall>u. upc s u = FIdle)"

inductive read_step :: "rcpl_state \<Rightarrow> rcu_ev \<Rightarrow> rcpl_state \<Rightarrow> bool" where
  pick: "t < NR_THREADS \<Longrightarrow> rcu_nesting s t = 0 \<Longrightarrow> \<not> picked s t \<Longrightarrow>
    read_step s Tau (s\<lparr>rcu_read_idx := (rcu_read_idx s)(t := rcu_idx s), picked := (picked s)(t := True)\<rparr>)"
| enter: "t < NR_THREADS \<Longrightarrow> rcu_nesting s t = 0 \<Longrightarrow> picked s t \<Longrightarrow> i = rcu_read_idx s t \<Longrightarrow>
    read_step s (Lock t) (s\<lparr>rcu_refcnt := (rcu_refcnt s)(t := (rcu_refcnt s t)(i := rcu_refcnt s t i + 1)),
      rcu_nesting := (rcu_nesting s)(t := 1), picked := (picked s)(t := False)\<rparr>)"
| nest: "0 < rcu_nesting s t \<Longrightarrow>
    read_step s Tau (s\<lparr>rcu_nesting := (rcu_nesting s)(t := rcu_nesting s t + 1)\<rparr>)"
| unnest: "1 < rcu_nesting s t \<Longrightarrow>
    read_step s Tau (s\<lparr>rcu_nesting := (rcu_nesting s)(t := rcu_nesting s t - 1)\<rparr>)"
| leave: "rcu_nesting s t = 1 \<Longrightarrow> i = rcu_read_idx s t \<Longrightarrow>
    read_step s (Unlock t) (s\<lparr>rcu_refcnt := (rcu_refcnt s)(t := (rcu_refcnt s t)(i := rcu_refcnt s t i - 1)),
      rcu_nesting := (rcu_nesting s)(t := 0)\<rparr>)"

inductive sync_step :: "rcpl_state \<Rightarrow> rcu_ev \<Rightarrow> rcpl_state \<Rightarrow> bool" where
  call: "upc s u = FIdle \<Longrightarrow> sync_step s (Sync u) (s\<lparr>upc := (upc s)(u := FCalled)\<rparr>)"
| acquire: "upc s u = FCalled \<Longrightarrow> rcu_gp_lock s = None \<Longrightarrow>
    sync_step s Tau (s\<lparr>rcu_gp_lock := Some u, upc := (upc s)(u := FLocked)\<rparr>)"
| flip1: "upc s u = FLocked \<Longrightarrow> i = rcu_idx s \<Longrightarrow>
    sync_step s Tau (s\<lparr>rcu_idx := other i, upc := (upc s)(u := FWait1 i 0)\<rparr>)"
| wait1: "upc s u = FWait1 i k \<Longrightarrow>
    sync_step s Tau (s\<lparr>upc := (upc s)(u := if rcu_refcnt s k i \<noteq> 0 then FWait1 i k
      else if Suc k < NR_THREADS then FWait1 i (Suc k) else FFlip2 i)\<rparr>)"
| flip2: "upc s u = FFlip2 i \<Longrightarrow>
    sync_step s Tau (s\<lparr>rcu_idx := i, upc := (upc s)(u := FWait2 i 0)\<rparr>)"
| wait2: "upc s u = FWait2 i k \<Longrightarrow>
    sync_step s Tau (s\<lparr>upc := (upc s)(u := if rcu_refcnt s k (other i) \<noteq> 0 then FWait2 i k
      else if Suc k < NR_THREADS then FWait2 i (Suc k) else FEnd)\<rparr>)"
| release: "upc s u = FEnd \<Longrightarrow>
    sync_step s (Done u) (s\<lparr>rcu_gp_lock := None, upc := (upc s)(u := FIdle)\<rparr>)"

definition rcu_step :: "rcpl_state \<Rightarrow> rcu_ev \<Rightarrow> rcpl_state \<Rightarrow> bool" where
  "rcu_step s e s' \<longleftrightarrow> read_step s e s' \<or> sync_step s e s'"

section \<open>The invariant\<close>

definition rcpl_inv :: "rcpl_state \<Rightarrow> gp \<Rightarrow> bool" where
  "rcpl_inv s g \<longleftrightarrow>
     (\<forall>t. \<forall>i<2. rcu_refcnt s t i = (if 0 < rcu_nesting s t \<and> rcu_read_idx s t = i then 1 else 0)) \<and>
     rcu_idx s < 2 \<and> (\<forall>t. 0 \<le> rcu_nesting s t \<and> (0 < rcu_nesting s t \<longrightarrow> t < NR_THREADS)) \<and>
     (\<forall>t. 0 < rcu_nesting s t \<or> picked s t \<longrightarrow> rcu_read_idx s t < 2) \<and>
     (\<forall>t. t \<in> cs g \<longleftrightarrow> 0 < rcu_nesting s t) \<and> (\<forall>u. waitfor g u \<subseteq> cs g) \<and>
     flip_ok (rcu_read_idx s) (waitfor g) (upc s)"

lemma rcpl_invD:
  assumes "rcpl_inv s g"
  shows "i < 2 \<Longrightarrow> rcu_refcnt s t i = (if 0 < rcu_nesting s t \<and> rcu_read_idx s t = i then 1 else 0)"
    and "rcu_idx s < 2"
    and "0 \<le> rcu_nesting s t" and "0 < rcu_nesting s t \<Longrightarrow> t < NR_THREADS"
    and "0 < rcu_nesting s t \<or> picked s t \<Longrightarrow> rcu_read_idx s t < 2"
    and "t \<in> cs g \<longleftrightarrow> 0 < rcu_nesting s t" and "waitfor g u \<subseteq> cs g"
    and "flip_ok (rcu_read_idx s) (waitfor g) (upc s)"
  using assms unfolding rcpl_inv_def by blast+

lemma rcpl_inv_init: "rcu_init s \<Longrightarrow> rcpl_inv s gp_init"
  by (auto simp: rcu_init_def rcpl_inv_def gp_init_def less_2_cases_iff intro!: flip_ok_init)

lemma rcpl_waitfor:
  assumes "rcpl_inv s g" and "t \<in> waitfor g u"
  shows "0 < rcu_nesting s t" and "t < NR_THREADS" and "rcu_read_idx s t < 2"
    and "i < 2 \<Longrightarrow> rcu_refcnt s t i = 0 \<Longrightarrow> rcu_read_idx s t \<noteq> i"
proof -
  show n: "0 < rcu_nesting s t" using rcpl_invD(6,7) [OF assms(1)] assms(2) by blast
  then show "t < NR_THREADS" "rcu_read_idx s t < 2" using rcpl_invD(4,5) [OF assms(1)] by blast+
  show "i < 2 \<Longrightarrow> rcu_refcnt s t i = 0 \<Longrightarrow> rcu_read_idx s t \<noteq> i"
    using rcpl_invD(1) [OF assms(1), of i t] n by auto
qed

lemma rcpl_read_step_inv: "read_step s e s' \<Longrightarrow> rcpl_inv s g \<Longrightarrow> rcpl_inv s' (gp_eff e g)"
proof (induction rule: read_step.induct)
  case (pick t s)
  note v = rcpl_invD [OF pick(4)]
  have "t \<notin> waitfor g u" for u using rcpl_waitfor(1) [OF pick(4), of t u] pick(2) by auto
  then have "flip_ok ((rcu_read_idx s)(t := rcu_idx s)) (waitfor g) (upc s)"
    by (intro flip_ok_idx v(8))
  with v(1-7) pick(2) show ?case by (simp add: rcpl_inv_def)
next
  case (enter t s i)
  note v = rcpl_invD [OF enter(5)]
  have "i < 2" using v(5) [of t] enter(3,4) by simp
  moreover have "waitfor g u \<subseteq> insert t (cs g)" for u using v(7) by blast
  ultimately show ?case using v(1-6,8) enter(1,2,4) by (simp add: rcpl_inv_def)
next
  case (nest s t)
  note v = rcpl_invD [OF nest(2)]
  from v(1-8) nest(1) v(4) [of t] v(5) [of t] show ?case by (simp add: rcpl_inv_def)
next
  case (unnest s t)
  note v = rcpl_invD [OF unnest(2)]
  from v(1-8) unnest(1) v(4) [of t] v(5) [of t] show ?case by (simp add: rcpl_inv_def)
next
  case (leave s t i)
  note v = rcpl_invD [OF leave(3)]
  have "flip_ok (rcu_read_idx s) (\<lambda>u. waitfor g u - {t}) (upc s)"
    by (rule flip_ok_mono [OF v(8)]) auto
  moreover have "waitfor g u - {t} \<subseteq> cs g - {t}" for u using v(7) by blast
  moreover have "i < 2" using v(5) [of t] leave by simp
  ultimately show ?case using v(1-6) leave by (simp add: rcpl_inv_def)
qed

lemma rcpl_sync_step_inv: "sync_step s e s' \<Longrightarrow> rcpl_inv s g \<Longrightarrow> rcpl_inv s' (gp_eff e g)"
proof (induction rule: sync_step.induct)
  case (call s u)
  note v = rcpl_invD [OF call(2)]
  from v flip_ok_call [OF v(8), of u "cs g"] show ?case by (simp add: rcpl_inv_def)
next
  case (acquire s u)
  note v = rcpl_invD [OF acquire(3)]
  from v flip_ok_upd [OF v(8), where u = u and p = FLocked] show ?case by (simp add: rcpl_inv_def)
next
  case (flip1 s u i)
  note v = rcpl_invD [OF flip1(3)]
  from v flip_ok_upd [OF v(8), where u = u and p = "FWait1 i 0"] flip1(2) show ?case
    by (simp add: rcpl_inv_def)
next
  case (wait1 s u i k)
  note v = rcpl_invD [OF wait1(2)] and w = rcpl_waitfor [OF wait1(2), of _ u]
  have i: "i < 2" using flip_ok_index [OF v(8), of u] wait1(1) by simp
  have h: "t \<in> waitfor g u \<Longrightarrow> rcu_read_idx s t = i \<Longrightarrow> k \<le> t" for t
    using flip_okD [OF v(8), of u] wait1(1) by simp
  have h': "t \<in> waitfor g u \<Longrightarrow> rcu_read_idx s t = i \<Longrightarrow> Suc k \<le> t" if "rcu_refcnt s k i = 0" for t
    using h [of t] w(4) [of t i] i that by (cases "t = k") auto
  have n: "Suc k < NR_THREADS" if "rcu_refcnt s k i = 0" "t \<in> waitfor g u" "rcu_read_idx s t = i" for t
    using h' [OF that] w(2) [OF that(2)] by simp
  have "flip_ok (rcu_read_idx s) (waitfor g) ((upc s)(u := if rcu_refcnt s k i \<noteq> 0 then FWait1 i k
      else if Suc k < NR_THREADS then FWait1 i (Suc k) else FFlip2 i))"
    using i h h' n by (intro flip_ok_upd v(8)) auto
  with v show ?case by (simp add: rcpl_inv_def)
next
  case (flip2 s u i)
  note v = rcpl_invD [OF flip2(2)]
  have i: "i < 2" using flip_ok_index [OF v(8), of u] flip2(1) by simp
  have "flip_ok (rcu_read_idx s) (waitfor g) ((upc s)(u := FWait2 i 0))"
    using flip_okD [OF v(8), of u] flip2(1) i by (intro flip_ok_upd v(8)) auto
  with v i show ?case by (simp add: rcpl_inv_def)
next
  case (wait2 s u i k)
  note v = rcpl_invD [OF wait2(2)] and w = rcpl_waitfor [OF wait2(2), of _ u]
  have i: "i < 2" using flip_ok_index [OF v(8), of u] wait2(1) by simp
  have h: "rcu_read_idx s t \<noteq> i" "k \<le> t" if "t \<in> waitfor g u" for t
    using flip_okD [OF v(8), of u] wait2(1) that by auto
  have h': "Suc k \<le> t" if "rcu_refcnt s k (other i) = 0" and t: "t \<in> waitfor g u" for t
  proof -
    have "rcu_read_idx s t = other i"
      using h(1) [OF t] w(3) [OF t] i by (auto simp: other_def less_2_cases_iff)
    with h(2) [OF t] w(4) [OF t, of "other i"] that(1) show ?thesis by (cases "t = k") auto
  qed
  have n: "Suc k < NR_THREADS" if "rcu_refcnt s k (other i) = 0" "t \<in> waitfor g u" for t
    using h' [OF that] w(2) [OF that(2)] by simp
  have "flip_ok (rcu_read_idx s) (waitfor g)
      ((upc s)(u := if rcu_refcnt s k (other i) \<noteq> 0 then FWait2 i k
        else if Suc k < NR_THREADS then FWait2 i (Suc k) else FEnd))"
    using i h h' n by (intro flip_ok_upd v(8)) auto
  with v show ?case by (simp add: rcpl_inv_def)
next
  case (release s u)
  note v = rcpl_invD [OF release(2)]
  from v flip_ok_upd [OF v(8), where u = u and p = FIdle] show ?case by (simp add: rcpl_inv_def)
qed

lemma rcpl_observed_inv: "observed rcu_init rcu_step s g \<Longrightarrow> rcpl_inv s g"
  by (erule observed_invariant)
    (auto simp: rcu_step_def intro: rcpl_inv_init rcpl_read_step_inv rcpl_sync_step_inv)

lemma rcpl_done_waits_for_none:
  assumes "rcpl_inv s g" and "rcu_step s (Done u) s'"
  shows "waitfor g u = {}"
proof -
  have "upc s u = FEnd"
    using assms(2) by (auto simp: rcu_step_def elim: read_step.cases sync_step.cases)
  with flip_okD [OF rcpl_invD(8) [OF assms(1)], of u] show ?thesis by simp
qed

interpretation rcu_rcpl: rcu_flavour rcu_init rcu_step
  by unfold_locales (rule rcpl_done_waits_for_none [OF rcpl_observed_inv])

end
