(* ===== verification/Rcu_Rcpls.thy ===== *)
theory Rcu_Rcpls
  imports Rcu_Spec
begin

text \<open>
  defer/rcu_rcpls.h and defer/rcu_rcpls.c: the flavour of rcu_rcpl whose index is a counter
  that only grows, so that an updater can see how many flips others have made since it was
  called and share their grace periods. The counters are integers and naturals; \<open>picked\<close> marks
  a reader that has picked an index and is about to increment its counter; \<open>oldctr\<close> and \<open>ctr\<close>
  are the local variables of each updater.
\<close>

text \<open>
  Idle, called, with \<open>oldctr\<close> loaded, holding the lock, with \<open>ctr\<close> loaded and about to flip,
  waiting after the first flip, having waited, waiting after the second flip, about to release.
\<close>

datatype share_pc =
  LIdle | LCalled | LLoaded | LLocked | LFlip1 | LWait1 nat | LCheck | LWait2 nat | LEnd

record rcpls_state =
  rcu_refcnt :: "nat \<Rightarrow> nat \<Rightarrow> int"   \<comment> \<open>by thread and index\<close>
  rcu_idx :: nat
  rcu_nesting :: "nat \<Rightarrow> int"
  rcu_read_idx :: "nat \<Rightarrow> nat"
  picked :: "nat \<Rightarrow> bool"
  rcu_gp_lock :: "nat option"
  oldctr :: "nat \<Rightarrow> nat"
  ctr :: "nat \<Rightarrow> nat"
  upc :: "nat \<Rightarrow> share_pc"

definition rcu_init :: "rcpls_state \<Rightarrow> bool" where
  "rcu_init s \<longleftrightarrow> (\<forall>t. rcu_refcnt s t 0 = 0 \<and> rcu_refcnt s t 1 = 0) \<and> rcu_idx s = 0 \<and>
     (\<forall>t. rcu_nesting s t = 0) \<and> (\<forall>t. \<not> picked s t) \<and> rcu_gp_lock s = None \<and>
     (\<forall>u. upc s u = LIdle)"

inductive read_step :: "rcpls_state \<Rightarrow> rcu_ev \<Rightarrow> rcpls_state \<Rightarrow> bool" where
  pick: "t < NR_THREADS \<Longrightarrow> rcu_nesting s t = 0 \<Longrightarrow> \<not> picked s t \<Longrightarrow>
    read_step s Tau (s\<lparr>rcu_read_idx := (rcu_read_idx s)(t := rcu_idx s mod 2), picked := (picked s)(t := True)\<rparr>)"
| enter: "t < NR_THREADS \<Longrightarrow> rcu_nesting s t = 0 \<Longrightarrow> picked s t \<Longrightarrow> i = rcu_read_idx s t \<Longrightarrow>
    read_step s (Lock t) (s\<lparr>rcu_refcnt := (rcu_refcnt s)(t := (rcu_refcnt s t)(i := rcu_refcnt s t i + 1)),
      rcu_nesting := (rcu_nesting s)(t := 1), picked := (picked s)(t := False)\<rparr>)"
| nest: "0 < rcu_nesting s t \<Longrightarrow>
    read_step s Tau (s\<lparr>rcu_nesting := (rcu_nesting s)(t := rcu_nesting s t + 1)\<rparr>)"
| unnest: "1 < rcu_nesting s t \<Longrightarrow>
    read_step s Tau (s\<lparr>rcu_nesting := (rcu_nesting s)(t := rcu_nesting s t - 1)\<rparr>)"
| leave: "rcu_nesting s t = 1 \<Longrightarrow> i = rcu_read_idx s t \<Longrightarrow>
    read_step s (Unlock t) (s\<lparr>rcu_refcnt := (rcu_refcnt s)(t := (rcu_refcnt s t)(i := rcu_refcnt s t i - 1)),
      rcu_nesting := (rcu_nesting s)(t := 0)\<rparr>)"

inductive sync_step :: "rcpls_state \<Rightarrow> rcu_ev \<Rightarrow> rcpls_state \<Rightarrow> bool" where
  call: "upc s u = LIdle \<Longrightarrow> sync_step s (Sync u) (s\<lparr>upc := (upc s)(u := LCalled)\<rparr>)"
| load: "upc s u = LCalled \<Longrightarrow>
    sync_step s Tau (s\<lparr>oldctr := (oldctr s)(u := rcu_idx s), upc := (upc s)(u := LLoaded)\<rparr>)"
| acquire: "upc s u = LLoaded \<Longrightarrow> rcu_gp_lock s = None \<Longrightarrow>
    sync_step s Tau (s\<lparr>rcu_gp_lock := Some u, upc := (upc s)(u := LLocked)\<rparr>)"
| check1: "upc s u = LLocked \<Longrightarrow>
    sync_step s Tau (s\<lparr>ctr := (ctr s)(u := rcu_idx s), upc := (upc s)(u :=
      if int (rcu_idx s) - int (oldctr s u) \<ge> 3 then LEnd else LFlip1)\<rparr>)"
| flip1: "upc s u = LFlip1 \<Longrightarrow>
    sync_step s Tau (s\<lparr>rcu_idx := ctr s u + 1, upc := (upc s)(u := LWait1 0)\<rparr>)"
| wait1: "upc s u = LWait1 k \<Longrightarrow>
    sync_step s Tau (s\<lparr>upc := (upc s)(u := if rcu_refcnt s k (ctr s u mod 2) \<noteq> 0 then LWait1 k
      else if Suc k < NR_THREADS then LWait1 (Suc k) else LCheck)\<rparr>)"
| check2: "upc s u = LCheck \<Longrightarrow> \<not> int (ctr s u) - int (oldctr s u) < 2 \<Longrightarrow>
    sync_step s Tau (s\<lparr>upc := (upc s)(u := LEnd)\<rparr>)"
| flip2: "upc s u = LCheck \<Longrightarrow> int (ctr s u) - int (oldctr s u) < 2 \<Longrightarrow>
    sync_step s Tau (s\<lparr>rcu_idx := ctr s u + 1 + 1, upc := (upc s)(u := LWait2 0)\<rparr>)"
| wait2: "upc s u = LWait2 k \<Longrightarrow>
    sync_step s Tau (s\<lparr>upc := (upc s)(u := if rcu_refcnt s k ((ctr s u + 1) mod 2) \<noteq> 0 then LWait2 k
      else if Suc k < NR_THREADS then LWait2 (Suc k) else LEnd)\<rparr>)"
| release: "upc s u = LEnd \<Longrightarrow>
    sync_step s (Done u) (s\<lparr>rcu_gp_lock := None, upc := (upc s)(u := LIdle)\<rparr>)"

definition rcu_step :: "rcpls_state \<Rightarrow> rcu_ev \<Rightarrow> rcpls_state \<Rightarrow> bool" where
  "rcu_step s e s' \<longleftrightarrow> read_step s e s' \<or> sync_step s e s'"

section \<open>What the flips so far show\<close>

text \<open>
  \<open>known v x fl ri W\<close>: since an updater loaded \<open>v\<close> the index has grown to \<open>x\<close>. Every flip that
  began since then has waited for the threads of \<open>W\<close> on its index, except that the last one may
  be in progress at thread \<open>k\<close>, \<open>fl = Some k\<close>.
\<close>

definition known :: "nat \<Rightarrow> nat \<Rightarrow> nat option \<Rightarrow> (nat \<Rightarrow> nat) \<Rightarrow> nat set \<Rightarrow> bool" where
  "known v x fl ri W \<longleftrightarrow> v \<le> x \<and>
     (\<forall>t\<in>W. \<forall>c. v \<le> c \<longrightarrow> c < x \<longrightarrow> ri t = c mod 2 \<longrightarrow>
        c + 1 = x \<and> (case fl of None \<Rightarrow> False | Some k \<Rightarrow> k \<le> t))"

lemma known_start: "known x x fl ri W"
  by (simp add: known_def)

lemma known_le: "known v x fl ri W \<Longrightarrow> v \<le> x"
  by (simp add: known_def)

lemma known_mono: "known v x fl ri W \<Longrightarrow> W' \<subseteq> W \<Longrightarrow> known v x fl ri W'"
  by (auto simp: known_def)

lemma known_idx: "known v x fl ri W \<Longrightarrow> t \<notin> W \<Longrightarrow> known v x fl (ri(t := i)) W"
  by (auto simp: known_def)

lemma known_flip: "known v x None ri W \<Longrightarrow> known v (x + 1) (Some 0) ri W"
  by (fastforce simp: known_def less_Suc_eq)

lemma known_scan:
  assumes "known v (x + 1) (Some k) ri W" and "k \<in> W \<Longrightarrow> ri k \<noteq> x mod 2"
  shows "known v (x + 1) (Some (Suc k)) ri W"
  unfolding known_def
proof (intro conjI ballI allI impI)
  show "v \<le> x + 1" using known_le [OF assms(1)] .
  fix t c
  assume t: "t \<in> W" "v \<le> c" "c < x + 1" "ri t = c mod 2"
  with assms(1) have c: "c + 1 = x + 1" "k \<le> t" by (auto simp: known_def)
  then show "c + 1 = x + 1" by simp
  have "t \<noteq> k" using assms(2) t c(1) by auto
  with c(2) show "case Some (Suc k) of None \<Rightarrow> False | Some k \<Rightarrow> k \<le> t" by simp
qed

lemma known_done:
  assumes "known v (x + 1) (Some k) ri W" and "k \<in> W \<Longrightarrow> ri k \<noteq> x mod 2"
    and "W \<subseteq> {..<NR_THREADS}" and "NR_THREADS \<le> Suc k"
  shows "known v (x + 1) None ri W"
  using known_scan [OF assms(1,2)] assms(3,4) by (fastforce simp: known_def)

lemma known_both:
  assumes "known v x None ri W" and "v + 2 \<le> x" and "\<And>t. t \<in> W \<Longrightarrow> ri t < 2"
  shows "W = {}"
proof -
  have "t \<notin> W" for t
  proof
    assume t: "t \<in> W"
    with assms(1,2) have "ri t \<noteq> v mod 2" "ri t \<noteq> (v + 1) mod 2"
      by (auto simp: known_def)
    with assms(3) [OF t] show False by presburger
  qed
  then show ?thesis by blast
qed

section \<open>The invariant\<close>

definition held :: "share_pc \<Rightarrow> bool" where
  "held p \<longleftrightarrow> p \<noteq> LIdle \<and> p \<noteq> LCalled \<and> p \<noteq> LLoaded"

lemma held_simps [simp]:
  "\<not> held LIdle" "\<not> held LCalled" "\<not> held LLoaded" "held LLocked" "held LFlip1"
  "held (LWait1 k)" "held LCheck" "held (LWait2 k)" "held LEnd"
  by (simp_all add: held_def)

fun progress :: "share_pc \<Rightarrow> nat option" where
  "progress (LWait1 k) = Some k"
| "progress (LWait2 k) = Some k"
| "progress _ = None"

text \<open>The scan of the flip in progress, which the holder of the lock performs.\<close>

definition flipping :: "nat option \<Rightarrow> (nat \<Rightarrow> share_pc) \<Rightarrow> nat option" where
  "flipping l f = (case l of None \<Rightarrow> None | Some h \<Rightarrow> progress (f h))"

lemma flipping_other [simp]: "l \<noteq> Some u \<Longrightarrow> flipping l (f(u := p)) = flipping l f"
  by (cases l) (simp_all add: flipping_def)

lemma flipping_holder [simp]: "flipping (Some u) f = progress (f u)"
  by (simp add: flipping_def)

lemma flipping_None [simp]: "flipping None f = None"
  by (simp add: flipping_def)

text \<open>How the index relates to the local \<open>ctr\<close> of the holder of the lock.\<close>

fun ctr_ok :: "share_pc \<Rightarrow> nat \<Rightarrow> nat \<Rightarrow> nat \<Rightarrow> bool" where
  "ctr_ok LFlip1 x c v \<longleftrightarrow> x = c \<and> v \<le> c"
| "ctr_ok (LWait1 k) x c v \<longleftrightarrow> x = c + 1 \<and> v \<le> c"
| "ctr_ok LCheck x c v \<longleftrightarrow> x = c + 1 \<and> v \<le> c"
| "ctr_ok (LWait2 k) x c v \<longleftrightarrow> x = c + 1 + 1 \<and> v \<le> c"
| "ctr_ok _ x c v \<longleftrightarrow> True"

definition readers_ok :: "rcpls_state \<Rightarrow> gp \<Rightarrow> bool" where
  "readers_ok s g \<longleftrightarrow>
     (\<forall>t. \<forall>i<2. rcu_refcnt s t i = (if 0 < rcu_nesting s t \<and> rcu_read_idx s t = i then 1 else 0)) \<and>
     (\<forall>t. 0 \<le> rcu_nesting s t \<and> (0 < rcu_nesting s t \<longrightarrow> t < NR_THREADS)) \<and>
     (\<forall>t. 0 < rcu_nesting s t \<or> picked s t \<longrightarrow> rcu_read_idx s t < 2) \<and>
     (\<forall>t. t \<in> cs g \<longleftrightarrow> 0 < rcu_nesting s t) \<and> (\<forall>u. waitfor g u \<subseteq> cs g)"

definition holder_ok :: "rcpls_state \<Rightarrow> bool" where
  "holder_ok s \<longleftrightarrow> (\<forall>u. rcu_gp_lock s = Some u \<longleftrightarrow> held (upc s u)) \<and>
     (\<forall>u. ctr_ok (upc s u) (rcu_idx s) (ctr s u) (oldctr s u))"

definition know_ok :: "rcpls_state \<Rightarrow> gp \<Rightarrow> bool" where
  "know_ok s g \<longleftrightarrow> (\<forall>u. upc s u \<noteq> LIdle \<longrightarrow> upc s u \<noteq> LCalled \<longrightarrow>
     known (oldctr s u) (rcu_idx s) (flipping (rcu_gp_lock s) (upc s)) (rcu_read_idx s) (waitfor g u)) \<and>
     (\<forall>u. upc s u = LEnd \<longrightarrow> waitfor g u = {})"

definition rcpls_inv :: "rcpls_state \<Rightarrow> gp \<Rightarrow> bool" where
  "rcpls_inv s g \<longleftrightarrow> readers_ok s g \<and> holder_ok s \<and> know_ok s g"

lemma readers_okD:
  assumes "readers_ok s g"
  shows "i < 2 \<Longrightarrow> rcu_refcnt s t i = (if 0 < rcu_nesting s t \<and> rcu_read_idx s t = i then 1 else 0)"
    and "0 \<le> rcu_nesting s t" and "0 < rcu_nesting s t \<Longrightarrow> t < NR_THREADS"
    and "0 < rcu_nesting s t \<or> picked s t \<Longrightarrow> rcu_read_idx s t < 2"
    and "t \<in> cs g \<longleftrightarrow> 0 < rcu_nesting s t" and "waitfor g u \<subseteq> cs g"
  using assms unfolding readers_ok_def by blast+

lemma readers_waitfor:
  assumes "readers_ok s g" and "t \<in> waitfor g u"
  shows "0 < rcu_nesting s t" and "t < NR_THREADS" and "rcu_read_idx s t < 2"
    and "i < 2 \<Longrightarrow> rcu_refcnt s t i = 0 \<Longrightarrow> rcu_read_idx s t \<noteq> i"
proof -
  show n: "0 < rcu_nesting s t" using readers_okD(5,6) [OF assms(1)] assms(2) by blast
  then show "t < NR_THREADS" "rcu_read_idx s t < 2" using readers_okD(3,4) [OF assms(1)] by blast+
  show "i < 2 \<Longrightarrow> rcu_refcnt s t i = 0 \<Longrightarrow> rcu_read_idx s t \<noteq> i"
    using readers_okD(1) [OF assms(1), of i t] n by auto
qed

lemma readers_bound: "readers_ok s g \<Longrightarrow> waitfor g u \<subseteq> {..<NR_THREADS}"
  using readers_waitfor(2) by auto

lemma know_okD:
  assumes "know_ok s g"
  shows "upc s u \<noteq> LIdle \<Longrightarrow> upc s u \<noteq> LCalled \<Longrightarrow> known (oldctr s u) (rcu_idx s)
      (flipping (rcu_gp_lock s) (upc s)) (rcu_read_idx s) (waitfor g u)"
    and "upc s u = LEnd \<Longrightarrow> waitfor g u = {}"
  using assms by (simp_all add: know_ok_def)

lemma rcpls_inv_init: "rcu_init s \<Longrightarrow> rcpls_inv s gp_init"
  by (auto simp: rcu_init_def rcpls_inv_def readers_ok_def holder_ok_def know_ok_def gp_init_def
      less_2_cases_iff)

section \<open>Preservation by the readers\<close>

lemma rcpls_read_step_readers:
  "read_step s e s' \<Longrightarrow> readers_ok s g \<Longrightarrow> readers_ok s' (gp_eff e g)"
proof (induction rule: read_step.induct)
  case (pick t s)
  note v = readers_okD [OF pick(4)]
  from v pick(2) show ?case by (simp add: readers_ok_def)
next
  case (enter t s i)
  note v = readers_okD [OF enter(5)]
  have "i < 2" using v(4) [of t] enter(3,4) by simp
  moreover have "waitfor g u \<subseteq> insert t (cs g)" for u using v(6) by blast
  ultimately show ?case using v(1-5) enter(1,2,4) by (simp add: readers_ok_def)
next
  case (nest s t)
  note v = readers_okD [OF nest(2)]
  from v nest(1) v(3) [of t] v(4) [of t] show ?case by (simp add: readers_ok_def)
next
  case (unnest s t)
  note v = readers_okD [OF unnest(2)]
  from v unnest(1) v(3) [of t] v(4) [of t] show ?case by (simp add: readers_ok_def)
next
  case (leave s t i)
  note v = readers_okD [OF leave(3)]
  have "waitfor g u - {t} \<subseteq> cs g - {t}" for u using v(6) by blast
  moreover have "i < 2" using v(4) [of t] leave by simp
  ultimately show ?case using v(1-5) leave by (simp add: readers_ok_def)
qed

lemma rcpls_read_step_know:
  "read_step s e s' \<Longrightarrow> readers_ok s g \<Longrightarrow> know_ok s g \<Longrightarrow> know_ok s' (gp_eff e g)"
proof (induction rule: read_step.induct)
  case (pick t s)
  have "t \<notin> waitfor g u" for u using readers_waitfor(1) [OF pick(4), of t u] pick(2) by auto
  with pick(5) show ?case by (simp add: know_ok_def known_idx)
next
  case (leave s t i)
  then show ?case by (auto simp: know_ok_def intro: known_mono)
qed (simp_all add: know_ok_def)

lemma rcpls_read_step_inv: "read_step s e s' \<Longrightarrow> rcpls_inv s g \<Longrightarrow> rcpls_inv s' (gp_eff e g)"
proof -
  assume r: "read_step s e s'" and i: "rcpls_inv s g"
  from r have "holder_ok s' = holder_ok s"
    by (induction rule: read_step.induct) (simp_all add: holder_ok_def)
  with i r rcpls_read_step_readers [OF r] rcpls_read_step_know [OF r] show ?thesis
    by (simp add: rcpls_inv_def)
qed

section \<open>Preservation by the updaters\<close>

lemma rcpls_sync_step_readers:
  "sync_step s e s' \<Longrightarrow> readers_ok s g \<Longrightarrow> readers_ok s' (gp_eff e g)"
  by (induction rule: sync_step.induct) (simp_all add: readers_ok_def)

lemma holder_okD:
  assumes "holder_ok s"
  shows "held (upc s u) \<Longrightarrow> rcu_gp_lock s = Some u"
    and "rcu_gp_lock s = Some u \<Longrightarrow> held (upc s u)"
    and "ctr_ok (upc s u) (rcu_idx s) (ctr s u) (oldctr s u)"
    and "held (upc s u) \<Longrightarrow> held (upc s v) \<Longrightarrow> v = u"
proof -
  show l: "held (upc s u) \<Longrightarrow> rcu_gp_lock s = Some u" "rcu_gp_lock s = Some u \<Longrightarrow> held (upc s u)"
    "ctr_ok (upc s u) (rcu_idx s) (ctr s u) (oldctr s u)" for u
    using assms unfolding holder_ok_def by blast+
  show "v = u" if "held (upc s u)" and "held (upc s v)" using l(1) [OF that(1)] l(1) [OF that(2)] by simp
qed

lemma ctr_ok_free: "\<not> held p \<Longrightarrow> ctr_ok p x c v"
  by (cases p) auto

text \<open>A step of the holder of the lock.\<close>

lemma holder_step:
  assumes h: "holder_ok s" and "held (upc s u)" and "held p" and "ctr_ok p x c (oldctr s u)"
  shows "(\<forall>v. rcu_gp_lock s = Some v \<longleftrightarrow> held (((upc s)(u := p)) v)) \<and>
    (\<forall>v. ctr_ok (((upc s)(u := p)) v) x (((ctr s)(u := c)) v) (oldctr s v))"
proof (intro conjI allI)
  fix v
  have n: "\<not> held (upc s v)" if "v \<noteq> u" using holder_okD(4) [OF h assms(2), of v] that by blast
  show "rcu_gp_lock s = Some v \<longleftrightarrow> held (((upc s)(u := p)) v)"
    using holder_okD(1) [OF h assms(2)] assms(3) n by (cases "v = u") simp_all
  show "ctr_ok (((upc s)(u := p)) v) x (((ctr s)(u := c)) v) (oldctr s v)"
    using assms(4) n by (simp add: ctr_ok_free)
qed

text \<open>A step of an updater that does not hold it.\<close>

lemma free_step:
  assumes "holder_ok s" and "\<not> held (upc s u)" and "\<not> held p" and "\<And>v. v \<noteq> u \<Longrightarrow> old v = oldctr s v"
  shows "(\<forall>v. rcu_gp_lock s = Some v \<longleftrightarrow> held (((upc s)(u := p)) v)) \<and>
    (\<forall>v. ctr_ok (((upc s)(u := p)) v) (rcu_idx s) (ctr s v) (old v))"
  using assms by (simp add: holder_ok_def ctr_ok_free)

lemma know_step:
  assumes k: "know_ok s g" and h: "holder_ok s" and u: "held (upc s u)" and p: "held p"
    and K: "\<And>v. known (oldctr s v) (rcu_idx s) (progress (upc s u)) (rcu_read_idx s) (waitfor g v) \<Longrightarrow>
      known (oldctr s v) x (progress p) (rcu_read_idx s) (waitfor g v)"
    and E: "p = LEnd \<Longrightarrow> waitfor g u = {}"
  shows "(\<forall>v. ((upc s)(u := p)) v \<noteq> LIdle \<longrightarrow> ((upc s)(u := p)) v \<noteq> LCalled \<longrightarrow>
      known (oldctr s v) x (flipping (rcu_gp_lock s) ((upc s)(u := p))) (rcu_read_idx s) (waitfor g v)) \<and>
    (\<forall>v. ((upc s)(u := p)) v = LEnd \<longrightarrow> waitfor g v = {})"
proof -
  have l: "rcu_gp_lock s = Some u" using holder_okD(1) [OF h u] .
  have n: "upc s u \<noteq> LIdle" "upc s u \<noteq> LCalled" using u by auto
  have "known (oldctr s v) x (progress p) (rcu_read_idx s) (waitfor g v)"
    if "((upc s)(u := p)) v \<noteq> LIdle" "((upc s)(u := p)) v \<noteq> LCalled" for v
    using know_okD(1) [OF k, of v] that n by (intro K) (simp add: l split: if_splits)
  with know_okD(2) [OF k] E l show ?thesis by simp
qed

lemma know_scan_step:
  assumes k: "know_ok s g" and h: "holder_ok s" and u: "held (upc s u)" and p: "held p"
    and K: "\<And>v. known (oldctr s v) (rcu_idx s) (progress (upc s u)) (rcu_read_idx s) (waitfor g v) \<Longrightarrow>
      known (oldctr s v) (rcu_idx s) (progress p) (rcu_read_idx s) (waitfor g v)"
    and E: "p = LEnd \<Longrightarrow> waitfor g u = {}"
  shows "know_ok (s\<lparr>upc := (upc s)(u := p)\<rparr>) g"
  using know_step [OF k h u p K E] by (simp add: know_ok_def)

lemma rcpls_sync_step_holder:
  "sync_step s e s' \<Longrightarrow> holder_ok s \<Longrightarrow> know_ok s g \<Longrightarrow> holder_ok s'"
proof (induction rule: sync_step.induct)
  case (call s u)
  with free_step [OF call(2), where u = u and p = LCalled and old = "oldctr s"]
  show ?case by (simp add: holder_ok_def)
next
  case (load s u)
  with free_step [OF load(2), where u = u and p = LLoaded and old = "(oldctr s)(u := rcu_idx s)"]
  show ?case by (simp add: holder_ok_def)
next
  case (acquire s u)
  note h = holder_okD [OF acquire(3)]
  have n: "\<not> held (upc s v)" for v
  proof
    assume "held (upc s v)"
    from h(1) [OF this] acquire(2) show False by simp
  qed
  then show ?case using h(3) by (auto simp: holder_ok_def)
next
  case (check1 s u)
  have "oldctr s u \<le> rcu_idx s" using known_le know_okD(1) [OF check1(3), of u] check1(1) by auto
  with holder_step [OF check1(2), where u = u and c = "rcu_idx s" and x = "rcu_idx s" and
      p = "if int (rcu_idx s) - int (oldctr s u) \<ge> 3 then LEnd else LFlip1"] check1(1)
  show ?case by (simp add: holder_ok_def)
next
  case (flip1 s u)
  with holder_step [OF flip1(2), where u = u and c = "ctr s u" and x = "ctr s u + 1" and p = "LWait1 0"]
    holder_okD(3) [OF flip1(2), of u] show ?case by (simp add: holder_ok_def)
next
  case (wait1 s u k)
  with holder_step [OF wait1(2), where u = u and c = "ctr s u" and x = "rcu_idx s" and
      p = "if rcu_refcnt s k (ctr s u mod 2) \<noteq> 0 then LWait1 k
        else if Suc k < NR_THREADS then LWait1 (Suc k) else LCheck"]
    holder_okD(3) [OF wait1(2), of u] show ?case by (simp add: holder_ok_def)
next
  case (check2 s u)
  with holder_step [OF check2(3), where u = u and c = "ctr s u" and x = "rcu_idx s" and p = LEnd]
  show ?case by (simp add: holder_ok_def)
next
  case (flip2 s u)
  with holder_step [OF flip2(3), where u = u and c = "ctr s u" and x = "ctr s u + 1 + 1" and p = "LWait2 0"]
    holder_okD(3) [OF flip2(3), of u] show ?case by (simp add: holder_ok_def)
next
  case (wait2 s u k)
  with holder_step [OF wait2(2), where u = u and c = "ctr s u" and x = "rcu_idx s" and
      p = "if rcu_refcnt s k ((ctr s u + 1) mod 2) \<noteq> 0 then LWait2 k
        else if Suc k < NR_THREADS then LWait2 (Suc k) else LEnd"]
    holder_okD(3) [OF wait2(2), of u] show ?case by (simp add: holder_ok_def)
next
  case (release s u)
  note h = holder_okD [OF release(2)]
  have "\<not> held (upc s v)" if "v \<noteq> u" for v using h(4) [of u v] release(1) that by auto
  then show ?case by (simp add: holder_ok_def ctr_ok_free)
qed

lemma rcpls_sync_step_know:
  "sync_step s e s' \<Longrightarrow> readers_ok s g \<Longrightarrow> holder_ok s \<Longrightarrow> know_ok s g \<Longrightarrow> know_ok s' (gp_eff e g)"
proof (induction rule: sync_step.induct)
  case (call s u)
  have "rcu_gp_lock s \<noteq> Some u" using holder_okD(2) [OF call(3), of u] call(1) by auto
  with call(4) show ?case by (simp add: know_ok_def)
next
  case (load s u)
  have "rcu_gp_lock s \<noteq> Some u" using holder_okD(2) [OF load(3), of u] load(1) by auto
  with load(4) show ?case by (simp add: know_ok_def known_start)
next
  case (acquire s u)
  with know_okD(1) [OF acquire(5), of u] show ?case by (simp add: know_ok_def)
next
  case (check1 s u)
  note r = readers_waitfor(3) [OF check1(2), of _ u]
  have k: "known (oldctr s u) (rcu_idx s) None (rcu_read_idx s) (waitfor g u)"
    using know_okD(1) [OF check1(4), of u] check1(1) holder_okD(1) [OF check1(3), of u] by simp
  show ?case
  proof (cases "int (rcu_idx s) - int (oldctr s u) \<ge> 3")
    case True
    then have "waitfor g u = {}" using known_both [OF k _ r] by simp
    with know_step [OF check1(4,3), where u = u and x = "rcu_idx s" and p = LEnd] check1(1) True
    show ?thesis by (simp add: know_ok_def)
  next
    case False
    with know_step [OF check1(4,3), where u = u and x = "rcu_idx s" and p = LFlip1] check1(1)
    show ?thesis by (simp add: know_ok_def)
  qed
next
  case (flip1 s u)
  have x: "rcu_idx s = ctr s u" using holder_okD(3) [OF flip1(3), of u] flip1(1) by simp
  from know_step [OF flip1(4,3), where u = u and x = "ctr s u + 1" and p = "LWait1 0"] flip1(1) x
    known_flip show ?case by (simp add: know_ok_def)
next
  case (wait1 s u k)
  have x: "rcu_idx s = ctr s u + 1" using holder_okD(3) [OF wait1(3), of u] wait1(1) by simp
  let ?p = "if rcu_refcnt s k (ctr s u mod 2) \<noteq> 0 then LWait1 k
    else if Suc k < NR_THREADS then LWait1 (Suc k) else LCheck"
  have step: "known (oldctr s v) (ctr s u + 1) (progress ?p) (rcu_read_idx s) (waitfor g v)"
    if kn: "known (oldctr s v) (ctr s u + 1) (Some k) (rcu_read_idx s) (waitfor g v)" for v
    using kn known_scan [OF kn] known_done [OF kn] readers_bound [OF wait1(2), of v]
      readers_waitfor(4) [OF wait1(2), of k v "ctr s u mod 2"] by auto
  have "know_ok (s\<lparr>upc := (upc s)(u := ?p)\<rparr>) g"
  proof (rule know_scan_step [OF wait1(4,3)])
    fix v
    assume "known (oldctr s v) (rcu_idx s) (progress (upc s u)) (rcu_read_idx s) (waitfor g v)"
    then show "known (oldctr s v) (rcu_idx s) (progress ?p) (rcu_read_idx s) (waitfor g v)"
      using step [of v] unfolding x wait1(1) by simp
  qed (simp_all add: wait1(1) split: if_splits)
  then show ?case by simp
next
  case (check2 s u)
  have x: "rcu_idx s = ctr s u + 1" using holder_okD(3) [OF check2(4), of u] check2(1) by simp
  have k: "known (oldctr s u) (rcu_idx s) None (rcu_read_idx s) (waitfor g u)"
    using know_okD(1) [OF check2(5), of u] check2(1) holder_okD(1) [OF check2(4), of u] by simp
  have "waitfor g u = {}"
    using known_both [OF k _ readers_waitfor(3) [OF check2(3)]] check2(2) x by simp
  with know_step [OF check2(5,4), where u = u and x = "rcu_idx s" and p = LEnd] check2(1)
  show ?case by (simp add: know_ok_def)
next
  case (flip2 s u)
  have x: "rcu_idx s = ctr s u + 1" using holder_okD(3) [OF flip2(4), of u] flip2(1) by simp
  from know_step [OF flip2(5,4), where u = u and x = "ctr s u + 1 + 1" and p = "LWait2 0"] flip2(1) x
    known_flip [where x = "ctr s u + 1"] show ?case by (simp add: know_ok_def)
next
  case (wait2 s u k)
  have x: "rcu_idx s = (ctr s u + 1) + 1" and le: "oldctr s u \<le> ctr s u"
    using holder_okD(3) [OF wait2(3), of u] wait2(1) by simp_all
  let ?p = "if rcu_refcnt s k ((ctr s u + 1) mod 2) \<noteq> 0 then LWait2 k
    else if Suc k < NR_THREADS then LWait2 (Suc k) else LEnd"
  have step: "known (oldctr s v) ((ctr s u + 1) + 1) (progress ?p) (rcu_read_idx s) (waitfor g v)"
    if kn: "known (oldctr s v) ((ctr s u + 1) + 1) (Some k) (rcu_read_idx s) (waitfor g v)" for v
    using kn known_scan [OF kn] known_done [OF kn] readers_bound [OF wait2(2), of v]
      readers_waitfor(4) [OF wait2(2), of k v "(ctr s u + 1) mod 2"] by auto
  have k: "known (oldctr s u) ((ctr s u + 1) + 1) (Some k) (rcu_read_idx s) (waitfor g u)"
    using know_okD(1) [OF wait2(4), of u] wait2(1) holder_okD(1) [OF wait2(3), of u] x by simp
  have e: "waitfor g u = {}" if "?p = LEnd"
    using known_both [of "oldctr s u" "ctr s u + 1 + 1" "rcu_read_idx s" "waitfor g u"]
      step [OF k] that le readers_waitfor(3) [OF wait2(2), of _ u] by simp
  have "know_ok (s\<lparr>upc := (upc s)(u := ?p)\<rparr>) g"
  proof (rule know_scan_step [OF wait2(4,3) _ _ _ e])
    fix v
    assume "known (oldctr s v) (rcu_idx s) (progress (upc s u)) (rcu_read_idx s) (waitfor g v)"
    then show "known (oldctr s v) (rcu_idx s) (progress ?p) (rcu_read_idx s) (waitfor g v)"
      using step [of v] unfolding x wait2(1) by simp
  qed (simp_all add: wait2(1))
  then show ?case by simp
next
  case (release s u)
  have l: "rcu_gp_lock s = Some u" using holder_okD(1) [OF release(3), of u] release(1) by simp
  have n: "upc s v \<noteq> LEnd" if "v \<noteq> u" for v
    using holder_okD(4) [OF release(3), of u v] release(1) that by auto
  from know_okD [OF release(4)] release(1) l show ?case by (simp add: know_ok_def)
qed

lemma rcpls_sync_step_inv: "sync_step s e s' \<Longrightarrow> rcpls_inv s g \<Longrightarrow> rcpls_inv s' (gp_eff e g)"
  using rcpls_sync_step_readers rcpls_sync_step_holder rcpls_sync_step_know
  unfolding rcpls_inv_def by blast

lemma rcpls_observed_inv: "observed rcu_init rcu_step s g \<Longrightarrow> rcpls_inv s g"
  by (erule observed_invariant)
    (auto simp: rcu_step_def intro: rcpls_inv_init rcpls_read_step_inv rcpls_sync_step_inv)

lemma rcpls_done_waits_for_none:
  assumes "rcpls_inv s g" and "rcu_step s (Done u) s'"
  shows "waitfor g u = {}"
proof -
  have "upc s u = LEnd"
    using assms(2) by (auto simp: rcu_step_def elim: read_step.cases sync_step.cases)
  with know_okD(2) [of s g u] assms(1) show ?thesis by (simp add: rcpls_inv_def)
qed

interpretation rcu_rcpls: rcu_flavour rcu_init rcu_step
  by unfold_locales (rule rcpls_done_waits_for_none [OF rcpls_observed_inv])

end
