(* ===== verification/Rcu_Nest32.thy ===== *)
theory Rcu_Nest32
  imports Rcu_Spec
begin

text \<open>
  defer/rcu_nest32.h and defer/rcu_nest32.c: RCU with nesting and a grace-period counter of one bit.
  The low 31 bits of a reader's variable count its nesting, and bit 31 is the phase that it read at
  its outermost \<open>rcu_read_lock\<close>. An updater flips the phase and waits for the readers of the other
  phase, twice. The constants are \<open>unsigned int\<close> and the variables \<open>long\<close>.
\<close>

definition RCU_GP_CTR_BOTTOM_BIT :: cint where
  "RCU_GP_CTR_BOTTOM_BIT = 0x80000000"

definition RCU_GP_CTR_NEST_MASK :: cint where
  "RCU_GP_CTR_NEST_MASK = RCU_GP_CTR_BOTTOM_BIT - 1"

datatype nest_pc = Stable | Loaded ulong

record nest32_state =
  rcu_gp_ctr :: ulong
  rcu_reader_gp :: "nat \<Rightarrow> ulong"
  rcu_gp_lock :: "nat option"
  rpc :: "nat \<Rightarrow> nest_pc"
  upc :: "nat \<Rightarrow> flip_pc"

definition rcu_init :: "nest32_state \<Rightarrow> bool" where
  "rcu_init s \<longleftrightarrow> s = \<lparr>rcu_gp_ctr = 1, rcu_reader_gp = (\<lambda>_. 0), rcu_gp_lock = None,
     rpc = (\<lambda>_. Stable), upc = (\<lambda>_. FIdle)\<rparr>"

text \<open>\<open>v\<close> is an \<open>int\<close>: it is extended with its sign for the comparison with the counter.\<close>

definition rcu_old_gp_ongoing :: "nest32_state \<Rightarrow> nat \<Rightarrow> bool" where
  "rcu_old_gp_ongoing s t \<longleftrightarrow> (let v = ucast (rcu_reader_gp s t) :: cint in
     v AND RCU_GP_CTR_NEST_MASK \<noteq> 0 \<and>
     (scast v XOR rcu_gp_ctr s) AND ucast (NOT RCU_GP_CTR_NEST_MASK) \<noteq> 0)"

definition nested :: "ulong \<Rightarrow> ulong" where
  "nested tmp = tmp AND ucast RCU_GP_CTR_NEST_MASK"

text \<open>A caller nests fewer than \<open>2 ^ 31 - 1\<close> critical sections.\<close>

inductive read_step :: "nest32_state \<Rightarrow> rcu_ev \<Rightarrow> nest32_state \<Rightarrow> bool" where
  lock_load: "t < NR_THREADS \<Longrightarrow> rpc s t = Stable \<Longrightarrow> nested (rcu_reader_gp s t) = 0 \<Longrightarrow>
    read_step s Tau (s\<lparr>rpc := (rpc s)(t := Loaded (rcu_gp_ctr s))\<rparr>)"
| lock_store: "rpc s t = Loaded c \<Longrightarrow>
    read_step s (Lock t) (s\<lparr>rcu_reader_gp := (rcu_reader_gp s)(t := c), rpc := (rpc s)(t := Stable)\<rparr>)"
| lock_nested: "rpc s t = Stable \<Longrightarrow> nested (rcu_reader_gp s t) \<noteq> 0 \<Longrightarrow>
      nested (rcu_reader_gp s t) \<noteq> ucast RCU_GP_CTR_NEST_MASK \<Longrightarrow>
    read_step s Tau (s\<lparr>rcu_reader_gp := (rcu_reader_gp s)(t := rcu_reader_gp s t + 1)\<rparr>)"
| unlock: "rpc s t = Stable \<Longrightarrow> nested (rcu_reader_gp s t) \<noteq> 0 \<Longrightarrow>
    read_step s (if nested (rcu_reader_gp s t) = 1 then Unlock t else Tau)
      (s\<lparr>rcu_reader_gp := (rcu_reader_gp s)(t := rcu_reader_gp s t - 1)\<rparr>)"

definition flip :: "ulong \<Rightarrow> ulong" where
  "flip c = c XOR ucast RCU_GP_CTR_BOTTOM_BIT"

text \<open>The phase of a word: the first argument of the program counters is the phase before the flips.\<close>

definition phase :: "ulong \<Rightarrow> nat" where
  "phase w = of_bool (bit w 31)"

inductive sync_step :: "nest32_state \<Rightarrow> rcu_ev \<Rightarrow> nest32_state \<Rightarrow> bool" where
  call: "upc s u = FIdle \<Longrightarrow> sync_step s (Sync u) (s\<lparr>upc := (upc s)(u := FCalled)\<rparr>)"
| acquire: "upc s u = FCalled \<Longrightarrow> rcu_gp_lock s = None \<Longrightarrow>
    sync_step s Tau (s\<lparr>rcu_gp_lock := Some u, upc := (upc s)(u := FLocked)\<rparr>)"
| flip1: "upc s u = FLocked \<Longrightarrow>
    sync_step s Tau (s\<lparr>rcu_gp_ctr := flip (rcu_gp_ctr s), upc := (upc s)(u := FWait1 (phase (rcu_gp_ctr s)) 0)\<rparr>)"
| wait1: "upc s u = FWait1 i k \<Longrightarrow>
    sync_step s Tau (s\<lparr>upc := (upc s)(u := if rcu_old_gp_ongoing s k then FWait1 i k
      else if Suc k < NR_THREADS then FWait1 i (Suc k) else FFlip2 i)\<rparr>)"
| flip2: "upc s u = FFlip2 i \<Longrightarrow>
    sync_step s Tau (s\<lparr>rcu_gp_ctr := flip (rcu_gp_ctr s), upc := (upc s)(u := FWait2 i 0)\<rparr>)"
| wait2: "upc s u = FWait2 i k \<Longrightarrow>
    sync_step s Tau (s\<lparr>upc := (upc s)(u := if rcu_old_gp_ongoing s k then FWait2 i k
      else if Suc k < NR_THREADS then FWait2 i (Suc k) else FEnd)\<rparr>)"
| release: "upc s u = FEnd \<Longrightarrow>
    sync_step s (Done u) (s\<lparr>rcu_gp_lock := None, upc := (upc s)(u := FIdle)\<rparr>)"

definition rcu_step :: "nest32_state \<Rightarrow> rcu_ev \<Rightarrow> nest32_state \<Rightarrow> bool" where
  "rcu_step s e s' \<longleftrightarrow> read_step s e s' \<or> sync_step s e s'"

section \<open>Nesting and phase of a word\<close>

lemma mask_word: "ucast RCU_GP_CTR_NEST_MASK = (mask 31 :: ulong)" "RCU_GP_CTR_NEST_MASK = (mask 31 :: cint)"
  by (simp_all add: RCU_GP_CTR_NEST_MASK_def RCU_GP_CTR_BOTTOM_BIT_def mask_eq_exp_minus_1)

lemma nested_take: "nested w = take_bit 31 w"
  by (simp only: nested_def mask_word(1) take_bit_eq_mask)

lemma unat_nested: "unat (nested w) = unat w mod 2 ^ 31"
proof -
  have "unat (take_bit 31 w) = take_bit 31 (unat w)" by (rule unsigned_take_bit_eq)
  then show ?thesis unfolding nested_take take_bit_nat_def .
qed

lemma phase_div: "phase w = unat w div 2 ^ 31 mod 2"
proof -
  have "bit w 31 \<longleftrightarrow> bit (unat w) 31" by (simp add: bit_unsigned_iff)
  then show ?thesis by (simp add: phase_def bit_iff_odd mod_2_eq_odd)
qed

lemma phase_less [simp]: "phase w < 2"
  by (simp add: phase_def)

lemma unat_mask: "unat (mask 31 :: ulong) = 2 ^ 31 - 1"
  by (simp add: mask_eq_exp_minus_1)

lemma nested_Suc:
  assumes "nested w \<noteq> mask 31"
  shows "unat (nested (w + 1)) = unat (nested w) + 1" and "phase (w + 1) = phase w"
proof -
  have "unat (nested w) \<noteq> 2 ^ 31 - 1"
    using assms by (metis unat_mask word_unat_eq_iff)
  then have m: "unat w mod 2 ^ 31 \<noteq> 2 ^ 31 - 1" by (simp only: unat_nested not_False_eq_True)
  have "unat w < 2 ^ 64" by (rule unat_ulong_less)
  moreover have "unat w \<noteq> 2 ^ 64 - 1" using m by auto
  ultimately have "unat w + 1 < 2 ^ 64" by simp
  then have u: "unat (w + 1) = unat w + 1" by (subst unat_add_no_overflow) simp_all
  from m have "Suc (unat w mod 2 ^ 31) \<noteq> 2 ^ 31" by simp
  then have s: "(unat w + 1) mod 2 ^ 31 = unat w mod 2 ^ 31 + 1" "(unat w + 1) div 2 ^ 31 = unat w div 2 ^ 31"
    by (simp_all add: mod_Suc div_Suc)
  from u s(1) show "unat (nested (w + 1)) = unat (nested w) + 1" by (simp only: unat_nested)
  from u s(2) show "phase (w + 1) = phase w" by (simp only: phase_div)
qed

lemma nested_pred:
  assumes "nested w \<noteq> 0"
  shows "unat (nested (w - 1)) = unat (nested w) - 1" and "phase (w - 1) = phase w"
proof -
  have "nested (w - 1) \<noteq> mask 31"
  proof
    assume "nested (w - 1) = mask 31"
    then have "unat (w - 1) mod 2 ^ 31 = 2 ^ 31 - 1" by (simp only: unat_mask flip: unat_nested)
    moreover have "0 < unat w" using assms by (auto simp: nested_take unat_gt_0)
    moreover from this have "unat (w - 1) = unat w - 1" by (simp add: unat_sub_le word_le_nat_alt)
    moreover have "unat w mod 2 ^ 31 \<noteq> 0" using assms unat_nested [of w] by (metis unat_eq_zero)
    ultimately show False by (cases "unat w") (auto simp: mod_Suc)
  qed
  from nested_Suc [OF this] show "unat (nested (w - 1)) = unat (nested w) - 1" and "phase (w - 1) = phase w"
    by simp_all
qed

lemma flip_word: "phase (flip c) = other (phase c)" "nested (flip c) = nested c"
proof -
  have b: "bit (0x80000000 :: ulong) n \<longleftrightarrow> n = 31" for n
  proof -
    have "(0x80000000 :: ulong) = push_bit 31 1" by simp
    then show ?thesis by (simp only: bit_push_bit_iff bit_1_iff) auto
  qed
  show "phase (flip c) = other (phase c)"
    by (simp add: phase_def flip_def RCU_GP_CTR_BOTTOM_BIT_def bit_xor_iff b other_def)
  show "nested (flip c) = nested c"
    by (rule bit_eqI) (auto simp: nested_take flip_def RCU_GP_CTR_BOTTOM_BIT_def bit_xor_iff bit_take_bit_iff b)
qed

lemma old_ongoing:
  "rcu_old_gp_ongoing s t \<longleftrightarrow> nested (rcu_reader_gp s t) \<noteq> 0 \<and> phase (rcu_reader_gp s t) \<noteq> phase (rcu_gp_ctr s)"
proof -
  let ?w = "rcu_reader_gp s t" and ?c = "rcu_gp_ctr s"
  have "(ucast ?w :: cint) AND RCU_GP_CTR_NEST_MASK = 0 \<longleftrightarrow> nested ?w = 0"
    unfolding mask_word nested_take
    by (simp add: bit_eq_iff bit_simps flip: take_bit_eq_mask) auto
  moreover have "(scast (ucast ?w :: cint) XOR ?c) AND ucast (NOT RCU_GP_CTR_NEST_MASK) \<noteq> 0 \<longleftrightarrow> bit ?w 31 \<noteq> bit ?c 31"
  proof -
    have b: "bit (ucast (NOT RCU_GP_CTR_NEST_MASK) :: ulong) n \<longleftrightarrow> n = 31" for n
      unfolding mask_word by (auto simp: bit_simps)
    have m: "X AND ucast (NOT RCU_GP_CTR_NEST_MASK) \<noteq> 0 \<longleftrightarrow> bit X 31" for X :: ulong
    proof
      assume "X AND ucast (NOT RCU_GP_CTR_NEST_MASK) \<noteq> 0"
      then obtain n where "bit (X AND ucast (NOT RCU_GP_CTR_NEST_MASK)) n" 
        using bit_eqI [of "X AND ucast (NOT RCU_GP_CTR_NEST_MASK)" 0] by auto
      then show "bit X 31" unfolding bit_and_iff b by blast
    next
      assume "bit X 31"
      then have "bit (X AND ucast (NOT RCU_GP_CTR_NEST_MASK)) 31" by (simp add: bit_and_iff b)
      then show "X AND ucast (NOT RCU_GP_CTR_NEST_MASK) \<noteq> 0" by auto
    qed
    show ?thesis unfolding m by (auto simp: bit_simps)
  qed
  ultimately show ?thesis by (simp add: rcu_old_gp_ongoing_def Let_def phase_def)
qed

section \<open>The invariant\<close>

text \<open>While an updater holds the lock, its program counter tells the phase.\<close>

fun flip_held :: "flip_pc \<Rightarrow> bool" where
  "flip_held FIdle = False"
| "flip_held FCalled = False"
| "flip_held _ = True"

fun ctr_phase :: "nat \<Rightarrow> flip_pc \<Rightarrow> bool" where
  "ctr_phase c (FWait1 i k) = (c = other i)"
| "ctr_phase c (FFlip2 i) = (c = other i)"
| "ctr_phase c (FWait2 i k) = (c = i)"
| "ctr_phase c _ = True"

definition ctr_ok :: "nat \<Rightarrow> (nat \<Rightarrow> flip_pc) \<Rightarrow> bool" where
  "ctr_ok c f \<longleftrightarrow> (\<forall>u. ctr_phase c (f u))"

lemma ctr_ok_upd: "ctr_ok c f \<Longrightarrow> ctr_phase c p \<Longrightarrow> ctr_ok c (f(u := p))"
  by (simp add: ctr_ok_def)

text \<open>The owner of the lock may change the phase: no other program counter depends on it.\<close>

lemma ctr_ok_flip:
  assumes "lock_ok flip_held l f" and "flip_held (f u)" and "ctr_phase c p"
  shows "ctr_ok c (f(u := p))"
proof -
  have "ctr_phase c (f v)" if "v \<noteq> u" for v
    using lock_ok_unique [OF assms(1,2), of v] that by (cases "f v") auto
  with assms(3) show ?thesis by (simp add: ctr_ok_def)
qed

abbreviation nest_idx :: "nest32_state \<Rightarrow> nat \<Rightarrow> nat" where
  "nest_idx s \<equiv> (\<lambda>t. phase (rcu_reader_gp s t))"

definition nest32_inv :: "nest32_state \<Rightarrow> gp \<Rightarrow> bool" where
  "nest32_inv s g \<longleftrightarrow> nested (rcu_gp_ctr s) = 1 \<and>
     (\<forall>t. t \<in> cs g \<longleftrightarrow> nested (rcu_reader_gp s t) \<noteq> 0) \<and> cs g \<subseteq> {..<NR_THREADS} \<and>
     (\<forall>t c. rpc s t = Loaded c \<longrightarrow> t < NR_THREADS \<and> nested c = 1 \<and> nested (rcu_reader_gp s t) = 0) \<and>
     (\<forall>u. waitfor g u \<subseteq> cs g) \<and> lock_ok flip_held (rcu_gp_lock s) (upc s) \<and>
     ctr_ok (phase (rcu_gp_ctr s)) (upc s) \<and> flip_ok (nest_idx s) (waitfor g) (upc s)"

lemma nest32_invD:
  assumes "nest32_inv s g"
  shows "nested (rcu_gp_ctr s) = 1" and "t \<in> cs g \<longleftrightarrow> nested (rcu_reader_gp s t) \<noteq> 0"
    and "cs g \<subseteq> {..<NR_THREADS}"
    and "rpc s t = Loaded c \<Longrightarrow> t < NR_THREADS \<and> nested c = 1 \<and> nested (rcu_reader_gp s t) = 0"
    and "waitfor g u \<subseteq> cs g" and "lock_ok flip_held (rcu_gp_lock s) (upc s)"
    and "ctr_ok (phase (rcu_gp_ctr s)) (upc s)" and "flip_ok (nest_idx s) (waitfor g) (upc s)"
  using assms unfolding nest32_inv_def by blast+

lemma nest32_inv_init: "rcu_init s \<Longrightarrow> nest32_inv s gp_init"
  by (auto simp: rcu_init_def nest32_inv_def gp_init_def nested_take ctr_ok_def lock_ok_def intro!: flip_ok_init)

lemma nest32_waitfor:
  assumes "nest32_inv s g" and "t \<in> waitfor g u"
  shows "t < NR_THREADS" and "\<not> rcu_old_gp_ongoing s t \<Longrightarrow> phase (rcu_reader_gp s t) = phase (rcu_gp_ctr s)"
  using nest32_invD(2,3,5) [OF assms(1)] assms(2) by (auto simp: old_ongoing)

lemma flip_ok_reader:
  assumes "flip_ok (nest_idx s) w f" and "(\<forall>u. t \<notin> w u) \<or> phase x = phase (rcu_reader_gp s t)"
  shows "flip_ok (\<lambda>v. phase (((rcu_reader_gp s)(t := x)) v)) w f"
  using assms(2)
proof
  assume "phase x = phase (rcu_reader_gp s t)"
  then have "(\<lambda>v. phase (((rcu_reader_gp s)(t := x)) v)) = nest_idx s" by auto
  with assms(1) show ?thesis by simp
next
  assume "\<forall>u. t \<notin> w u"
  then have "flip_ok ((nest_idx s)(t := phase x)) w f" by (intro flip_ok_idx [OF assms(1)]) blast
  moreover have "(nest_idx s)(t := phase x) = (\<lambda>v. phase (((rcu_reader_gp s)(t := x)) v))" by auto
  ultimately show ?thesis by metis
qed

lemma nest32_read_step_inv: "read_step s e s' \<Longrightarrow> nest32_inv s g \<Longrightarrow> nest32_inv s' (gp_eff e g)"
proof (induction rule: read_step.induct)
  case (lock_load t s)
  note v = nest32_invD [OF lock_load(4)]
  with lock_load(1,3) show ?case by (auto simp: nest32_inv_def)
next
  case (lock_store s t c)
  note v = nest32_invD [OF lock_store(2)]
  note c = v(4) [OF lock_store(1)]
  have "t \<notin> waitfor g u" for u using v(2) [of t] v(5) [of u] c by auto
  then have "flip_ok (\<lambda>u. phase (((rcu_reader_gp s)(t := c)) u)) (waitfor g) (upc s)"
    by (intro flip_ok_reader [OF v(8)]) blast
  moreover have "waitfor g u \<subseteq> insert t (cs g)" for u using v(5) by blast
  ultimately show ?case using v(1,2,3,4,6,7) c by (auto simp: nest32_inv_def)
next
  case (lock_nested s t)
  note v = nest32_invD [OF lock_nested(4)]
  have n: "nested (rcu_reader_gp s t) \<noteq> mask 31" using lock_nested(3) unfolding mask_word(1) .
  have "unat (nested (rcu_reader_gp s t + 1)) \<noteq> 0" using nested_Suc(1) [OF n] by simp
  then have "nested (rcu_reader_gp s t + 1) \<noteq> 0" by (metis unat_0)
  moreover have "flip_ok (\<lambda>u. phase (((rcu_reader_gp s)(t := rcu_reader_gp s t + 1)) u)) (waitfor g) (upc s)"
    using nested_Suc(2) [OF n] by (intro flip_ok_reader [OF v(8)]) blast
  ultimately show ?case using v(1-7) lock_nested(1,2) by (auto simp: nest32_inv_def)
next
  case (unlock s t)
  note v = nest32_invD [OF unlock(3)]
  note p = nested_pred [OF unlock(2)]
  have f: "flip_ok (\<lambda>u. phase (((rcu_reader_gp s)(t := rcu_reader_gp s t - 1)) u)) (waitfor g) (upc s)"
    using p(2) by (intro flip_ok_reader [OF v(8)]) blast
  show ?case
  proof (cases "nested (rcu_reader_gp s t) = 1")
    case True
    with p(1) have "nested (rcu_reader_gp s t - 1) = 0" by (simp add: unat_eq_zero)
    moreover have "waitfor g u - {t} \<subseteq> cs g - {t}" for u using v(5) by blast
    moreover have "flip_ok (\<lambda>u. phase (((rcu_reader_gp s)(t := rcu_reader_gp s t - 1)) u)) (\<lambda>u. waitfor g u - {t}) (upc s)"
      by (rule flip_ok_mono [OF f]) auto
    ultimately show ?thesis using True v(1-4,6,7) unlock(1) by (auto simp: nest32_inv_def)
  next
    case False
    then have "unat (nested (rcu_reader_gp s t)) \<noteq> 1" by (metis unat_1 word_unat_eq_iff)
    moreover have "unat (nested (rcu_reader_gp s t)) \<noteq> 0" using unlock(2) by (simp add: unat_eq_zero)
    ultimately have "nested (rcu_reader_gp s t - 1) \<noteq> 0" using p(1) by (metis One_nat_def diff_is_0_eq le_neq_implies_less less_one unat_0)
    with False f v(1-7) unlock(1,2) show ?thesis by (auto simp: nest32_inv_def)
  qed
qed

lemma nest32_sync_step_inv: "sync_step s e s' \<Longrightarrow> nest32_inv s g \<Longrightarrow> nest32_inv s' (gp_eff e g)"
proof (induction rule: sync_step.induct)
  case (call s u)
  note v = nest32_invD [OF call(2)]
  have "lock_ok flip_held (rcu_gp_lock s) ((upc s)(u := FCalled))"
    using v(6) by (intro lock_ok_outside) simp_all
  with v flip_ok_call [OF v(8), of u "cs g"] ctr_ok_upd [OF v(7), of FCalled u] show ?case
    by (auto simp: nest32_inv_def)
next
  case (acquire s u)
  note v = nest32_invD [OF acquire(3)]
  have "lock_ok flip_held (Some u) ((upc s)(u := FLocked))"
    using v(6) acquire(2) by (intro lock_ok_acquire) simp
  with v flip_ok_upd [OF v(8), where u = u and p = FLocked] ctr_ok_upd [OF v(7), of FLocked u] show ?case
    by (auto simp: nest32_inv_def)
next
  case (flip1 s u)
  note v = nest32_invD [OF flip1(2)]
  let ?p = "FWait1 (phase (rcu_gp_ctr s)) 0"
  have "lock_ok flip_held (rcu_gp_lock s) ((upc s)(u := ?p))"
    by (rule lock_ok_inside [OF v(6)]) (simp add: flip1(1))
  moreover have "ctr_ok (phase (flip (rcu_gp_ctr s))) ((upc s)(u := ?p))"
    by (rule ctr_ok_flip [OF v(6)]) (simp_all add: flip1(1) flip_word)
  moreover have "flip_ok (nest_idx s) (waitfor g) ((upc s)(u := ?p))"
    by (rule flip_ok_upd [OF v(8)]) simp_all
  ultimately show ?case using v(1-5) by (auto simp: nest32_inv_def flip_word)
next
  case (wait1 s u i k)
  note v = nest32_invD [OF wait1(2)] and w = nest32_waitfor [OF wait1(2), of _ u]
  let ?p = "if rcu_old_gp_ongoing s k then FWait1 i k else if Suc k < NR_THREADS then FWait1 i (Suc k) else FFlip2 i"
  have i: "i < 2" using flip_ok_index [OF v(8), of u] wait1(1) by simp
  have c: "phase (rcu_gp_ctr s) = other i" using v(7) wait1(1) by (metis ctr_ok_def ctr_phase.simps(1))
  have h: "t \<in> waitfor g u \<Longrightarrow> phase (rcu_reader_gp s t) = i \<Longrightarrow> k \<le> t" for t
    using flip_okD [OF v(8), of u] wait1(1) by simp
  have h': "Suc k \<le> t" if "\<not> rcu_old_gp_ongoing s k" "t \<in> waitfor g u" "phase (rcu_reader_gp s t) = i" for t
    using h [OF that(2,3)] w(2) [OF that(2)] that c i by (cases "t = k") (auto simp: other_def split: if_splits)
  have n: "Suc k < NR_THREADS" if "\<not> rcu_old_gp_ongoing s k" "t \<in> waitfor g u" "phase (rcu_reader_gp s t) = i" for t
    using h' [OF that] w(1) [OF that(2)] by simp
  have "flip_ok (nest_idx s) (waitfor g) ((upc s)(u := ?p))"
    using i h h' n by (intro flip_ok_upd v(8)) auto
  moreover have "lock_ok flip_held (rcu_gp_lock s) ((upc s)(u := ?p))"
    by (rule lock_ok_inside [OF v(6)]) (simp add: wait1(1))
  moreover have "ctr_ok (phase (rcu_gp_ctr s)) ((upc s)(u := ?p))"
    by (rule ctr_ok_upd [OF v(7)]) (simp add: c)
  ultimately show ?case using v(1-5) by (auto simp: nest32_inv_def)
next
  case (flip2 s u i)
  note v = nest32_invD [OF flip2(2)]
  have i: "i < 2" using flip_ok_index [OF v(8), of u] flip2(1) by simp
  have c: "phase (rcu_gp_ctr s) = other i" using v(7) flip2(1) by (metis ctr_ok_def ctr_phase.simps(2))
  have "flip_ok (nest_idx s) (waitfor g) ((upc s)(u := FWait2 i 0))"
    using flip_okD [OF v(8), of u] flip2(1) i by (intro flip_ok_upd v(8)) auto
  moreover have "lock_ok flip_held (rcu_gp_lock s) ((upc s)(u := FWait2 i 0))"
    by (rule lock_ok_inside [OF v(6)]) (simp add: flip2(1))
  moreover have "ctr_ok (phase (flip (rcu_gp_ctr s))) ((upc s)(u := FWait2 i 0))"
    by (rule ctr_ok_flip [OF v(6)]) (use i in \<open>auto simp: flip2(1) flip_word c other_def\<close>)
  ultimately show ?case using v(1-5) by (auto simp: nest32_inv_def flip_word)
next
  case (wait2 s u i k)
  note v = nest32_invD [OF wait2(2)] and w = nest32_waitfor [OF wait2(2), of _ u]
  let ?p = "if rcu_old_gp_ongoing s k then FWait2 i k else if Suc k < NR_THREADS then FWait2 i (Suc k) else FEnd"
  have i: "i < 2" using flip_ok_index [OF v(8), of u] wait2(1) by simp
  have c: "phase (rcu_gp_ctr s) = i" using v(7) wait2(1) by (metis ctr_ok_def ctr_phase.simps(3))
  have h: "phase (rcu_reader_gp s t) \<noteq> i" "k \<le> t" if "t \<in> waitfor g u" for t
    using flip_okD [OF v(8), of u] wait2(1) that by auto
  have h': "Suc k \<le> t" if "\<not> rcu_old_gp_ongoing s k" and t: "t \<in> waitfor g u" for t
    using h [OF t] w(2) [OF t] that(1) c by (cases "t = k") auto
  have n: "Suc k < NR_THREADS" if "\<not> rcu_old_gp_ongoing s k" "t \<in> waitfor g u" for t
    using h' [OF that] w(1) [OF that(2)] by simp
  have "flip_ok (nest_idx s) (waitfor g) ((upc s)(u := ?p))"
    using i h h' n by (intro flip_ok_upd v(8)) auto
  moreover have "lock_ok flip_held (rcu_gp_lock s) ((upc s)(u := ?p))"
    by (rule lock_ok_inside [OF v(6)]) (simp add: wait2(1))
  moreover have "ctr_ok (phase (rcu_gp_ctr s)) ((upc s)(u := ?p))"
    by (rule ctr_ok_upd [OF v(7)]) (simp add: c)
  ultimately show ?case using v(1-5) by (auto simp: nest32_inv_def)
next
  case (release s u)
  note v = nest32_invD [OF release(2)]
  have "lock_ok flip_held None ((upc s)(u := FIdle))"
    by (rule lock_ok_release [OF v(6)]) (simp_all add: release(1))
  with v flip_ok_upd [OF v(8), where u = u and p = FIdle] ctr_ok_upd [OF v(7), of FIdle u] show ?case
    by (auto simp: nest32_inv_def)
qed

lemma nest32_observed_inv: "observed rcu_init rcu_step s g \<Longrightarrow> nest32_inv s g"
  by (erule observed_invariant)
    (auto simp: rcu_step_def intro: nest32_inv_init nest32_read_step_inv nest32_sync_step_inv)

lemma nest32_done_waits_for_none:
  assumes "nest32_inv s g" and "rcu_step s (Done u) s'"
  shows "waitfor g u = {}"
proof -
  have "upc s u = FEnd"
    using assms(2) by (auto simp: rcu_step_def elim!: read_step.cases sync_step.cases split: if_splits)
  with flip_okD [OF nest32_invD(8) [OF assms(1)], of u] show ?thesis by simp
qed

interpretation rcu_nest32: rcu_flavour rcu_init rcu_step
  by unfold_locales (rule nest32_done_waits_for_none [OF nest32_observed_inv])

end
