(* ===== verification/Rcu_Nest_Qs.thy ===== *)
theory Rcu_Nest_Qs
  imports Rcu_Spec
begin

text \<open>
  defer/rcu_nest_qs.h and defer/rcu_nest_qs.c: quiescent-state-based RCU whose critical sections nest
  and may contain quiescent states. \<open>rcu_reader_gp\<close> counts the nesting in its low seven bits above
  the counter read at the outermost \<open>rcu_read_lock\<close>; \<open>rcu_quiescent_state\<close> publishes it, or the
  current counter when the thread is in no critical section. The \<open>long\<close> variables are integers.
\<close>

definition RCU_GP_CTR_SHIFT :: nat where
  "RCU_GP_CTR_SHIFT = 7"

definition RCU_GP_CTR_BOTTOM_BIT :: int where
  "RCU_GP_CTR_BOTTOM_BIT = push_bit RCU_GP_CTR_SHIFT 1"

definition RCU_GP_CTR_NEST_MASK :: int where
  "RCU_GP_CTR_NEST_MASK = RCU_GP_CTR_BOTTOM_BIT - 1"

text \<open>
  Offline; online and in no operation; about to store what \<open>rcu_read_lock\<close>, \<open>rcu_quiescent_state\<close>
  (or \<open>rcu_thread_online\<close>) or \<open>rcu_thread_offline\<close> has loaded from the counter.
\<close>

datatype nq_pc = Offline | Online | Locking int | Announce int | Going int

record nq_state =
  rcu_gp_ctr :: int
  rcu_reader_gp :: "nat \<Rightarrow> int"
  rcu_reader_qs_gp :: "nat \<Rightarrow> int"
  rcu_gp_lock :: "nat option"
  rpc :: "nat \<Rightarrow> nq_pc"
  upc :: "nat \<Rightarrow> sync_pc"

definition rcu_init :: "nq_state \<Rightarrow> bool" where
  "rcu_init s \<longleftrightarrow> s = \<lparr>rcu_gp_ctr = 0, rcu_reader_gp = (\<lambda>_. 0), rcu_reader_qs_gp = (\<lambda>_. 0),
     rcu_gp_lock = None, rpc = (\<lambda>_. Offline), upc = (\<lambda>_. SIdle)\<rparr>"

definition nesting :: "int \<Rightarrow> int" where
  "nesting v = v AND RCU_GP_CTR_NEST_MASK"

definition rcu_gp_ongoing :: "nq_state \<Rightarrow> nat \<Rightarrow> bool" where
  "rcu_gp_ongoing s t \<longleftrightarrow> nesting (rcu_reader_qs_gp s t) \<noteq> 0"

text \<open>A thread is online while it reads, goes offline outside its critical sections only, and nests
  fewer than 127 of them.\<close>

inductive read_step :: "nq_state \<Rightarrow> rcu_ev \<Rightarrow> nq_state \<Rightarrow> bool" where
  lock_load: "t < NR_THREADS \<Longrightarrow> rpc s t = Online \<Longrightarrow> nesting (rcu_reader_gp s t) = 0 \<Longrightarrow>
    read_step s Tau (s\<lparr>rpc := (rpc s)(t := Locking (rcu_gp_ctr s + 1))\<rparr>)"
| lock_store: "rpc s t = Locking tmp \<Longrightarrow>
    read_step s (Lock t) (s\<lparr>rcu_reader_gp := (rcu_reader_gp s)(t := tmp), rpc := (rpc s)(t := Online)\<rparr>)"
| lock_nested: "rpc s t = Online \<Longrightarrow> nesting (rcu_reader_gp s t) \<noteq> 0 \<Longrightarrow>
      nesting (rcu_reader_gp s t) \<noteq> RCU_GP_CTR_NEST_MASK \<Longrightarrow>
    read_step s Tau (s\<lparr>rcu_reader_gp := (rcu_reader_gp s)(t := rcu_reader_gp s t + 1)\<rparr>)"
| unlock: "rpc s t = Online \<Longrightarrow> nesting (rcu_reader_gp s t) \<noteq> 0 \<Longrightarrow>
    read_step s (if nesting (rcu_reader_gp s t) = 1 then Unlock t else Tau)
      (s\<lparr>rcu_reader_gp := (rcu_reader_gp s)(t := rcu_reader_gp s t - 1)\<rparr>)"
| quiescent_load: "rpc s t = Online \<or> rpc s t = Offline \<Longrightarrow> nesting (rcu_reader_gp s t) = 0 \<Longrightarrow>
    read_step s Tau (s\<lparr>rpc := (rpc s)(t := Announce (rcu_gp_ctr s + 1))\<rparr>)"
| quiescent_store: "rpc s t = Announce tmp \<Longrightarrow>
    read_step s Tau (s\<lparr>rcu_reader_qs_gp := (rcu_reader_qs_gp s)(t := tmp), rpc := (rpc s)(t := Online)\<rparr>)"
| quiescent_nested: "rpc s t = Online \<Longrightarrow> nesting (rcu_reader_gp s t) \<noteq> 0 \<Longrightarrow>
    read_step s Tau (s\<lparr>rcu_reader_qs_gp := (rcu_reader_qs_gp s)(t := rcu_reader_gp s t)\<rparr>)"
| offline_load: "rpc s t = Online \<Longrightarrow> nesting (rcu_reader_gp s t) = 0 \<Longrightarrow>
    read_step s Tau (s\<lparr>rpc := (rpc s)(t := Going (rcu_gp_ctr s))\<rparr>)"
| offline_store: "rpc s t = Going v \<Longrightarrow>
    read_step s Tau (s\<lparr>rcu_reader_qs_gp := (rcu_reader_qs_gp s)(t := v), rpc := (rpc s)(t := Offline)\<rparr>)"

inductive sync_step :: "nq_state \<Rightarrow> rcu_ev \<Rightarrow> nq_state \<Rightarrow> bool" where
  call: "upc s u = SIdle \<Longrightarrow> sync_step s (Sync u) (s\<lparr>upc := (upc s)(u := SCalled)\<rparr>)"
| acquire: "upc s u = SCalled \<Longrightarrow> rcu_gp_lock s = None \<Longrightarrow>
    sync_step s Tau (s\<lparr>rcu_gp_lock := Some u, upc := (upc s)(u := SLocked)\<rparr>)"
| advance: "upc s u = SLocked \<Longrightarrow>
    sync_step s Tau (s\<lparr>rcu_gp_ctr := rcu_gp_ctr s + RCU_GP_CTR_BOTTOM_BIT, upc := (upc s)(u := SScan 0)\<rparr>)"
| ongoing_test: "upc s u = SScan k \<Longrightarrow>
    sync_step s Tau (s\<lparr>upc := (upc s)(u := if rcu_gp_ongoing s k then SSecond k else next_scan k)\<rparr>)"
| old_test: "upc s u = SSecond k \<Longrightarrow>
    sync_step s Tau (s\<lparr>upc := (upc s)(u :=
      if rcu_reader_qs_gp s k - rcu_gp_ctr s < 0 then SScan k else next_scan k)\<rparr>)"
| release: "upc s u = SEnd \<Longrightarrow>
    sync_step s (Done u) (s\<lparr>rcu_gp_lock := None, upc := (upc s)(u := SIdle)\<rparr>)"

definition rcu_step :: "nq_state \<Rightarrow> rcu_ev \<Rightarrow> nq_state \<Rightarrow> bool" where
  "rcu_step s e s' \<longleftrightarrow> read_step s e s' \<or> sync_step s e s'"

section \<open>The invariant\<close>

lemma nq_consts: "RCU_GP_CTR_BOTTOM_BIT = 128" "RCU_GP_CTR_NEST_MASK = 127"
  by (simp_all add: RCU_GP_CTR_NEST_MASK_def RCU_GP_CTR_BOTTOM_BIT_def RCU_GP_CTR_SHIFT_def)

lemma nesting_mod: "nesting v = v mod 128"
proof -
  have m: "(127 :: int) = mask 7" by (simp add: mask_eq_exp_minus_1)
  have "nesting v = take_bit 7 v" unfolding nesting_def nq_consts m take_bit_eq_mask ..
  then show ?thesis unfolding take_bit_eq_mod by simp
qed

text \<open>Below a multiple of 128, a nesting that is not full can be incremented.\<close>

lemma nesting_Suc:
  fixes v :: int
  assumes "v mod 128 \<noteq> 127"
  shows "(v + 1) mod 128 = v mod 128 + 1"
proof -
  have "0 \<le> v mod 128" "v mod 128 < 128" by simp_all
  with assms have "(v mod 128 + 1) mod 128 = v mod 128 + 1" by (intro mod_pos_pos_trivial) auto
  then show ?thesis by (simp only: mod_add_left_eq)
qed

lemma nesting_pred:
  fixes v :: int
  assumes "v mod 128 \<noteq> 0"
  shows "(v - 1) mod 128 = v mod 128 - 1"
proof -
  have "0 \<le> v mod 128" "v mod 128 < 128" by simp_all
  with assms have "(v mod 128 - 1) mod 128 = v mod 128 - 1" by (intro mod_pos_pos_trivial) auto
  then show ?thesis by (simp only: mod_diff_left_eq)
qed

lemma nested_below:
  fixes v c :: int
  assumes "c mod 128 = 0" and "v < c" and "v mod 128 \<noteq> 127"
  shows "v + 1 < c"
proof (rule ccontr)
  assume "\<not> v + 1 < c"
  with assms(2) have "v + 1 = c" by simp
  with assms(1) nesting_Suc [OF assms(3)] have "v mod 128 + 1 = 0" by simp
  moreover have "0 \<le> v mod 128" by simp
  ultimately show False by linarith
qed

lemma ctr_Suc:
  fixes c :: int
  assumes "c mod 128 = 0"
  shows "(c + 1) mod 128 = 1"
  using nesting_Suc [of c] assms by simp

text \<open>What is known of a thread: \<open>r\<close> and \<open>qs\<close> are its variables, \<open>c\<close> the counter, and \<open>i\<close> says that it
  is in a critical section.\<close>

definition online_ok :: "int \<Rightarrow> int \<Rightarrow> bool" where
  "online_ok qs c \<longleftrightarrow> qs mod 128 \<noteq> 0 \<and> qs < c + 128"

fun nq_ok :: "nq_pc \<Rightarrow> int \<Rightarrow> int \<Rightarrow> int \<Rightarrow> bool \<Rightarrow> bool" where
  "nq_ok Offline r qs c i \<longleftrightarrow> \<not> i"
| "nq_ok Online r qs c i \<longleftrightarrow> online_ok qs c"
| "nq_ok (Locking v) r qs c i \<longleftrightarrow> online_ok qs c \<and> online_ok v c \<and> \<not> i"
| "nq_ok (Announce v) r qs c i \<longleftrightarrow> online_ok v c \<and> \<not> i"
| "nq_ok (Going v) r qs c i \<longleftrightarrow> \<not> i"

lemma online_ok_current: "c mod 128 = 0 \<Longrightarrow> online_ok (c + 1) c"
  by (simp add: online_ok_def ctr_Suc)

lemma nq_ok_mono: "nq_ok p r qs c i \<Longrightarrow> c \<le> c' \<Longrightarrow> nq_ok p r qs c' i"
  by (cases p) (auto simp: online_ok_def)

abbreviation nq_old :: "nq_state \<Rightarrow> int \<Rightarrow> nat \<Rightarrow> nat \<Rightarrow> bool" where
  "nq_old s c \<equiv> (\<lambda>_ t. rcu_reader_qs_gp s t < c \<and> rcu_reader_gp s t < c)"

definition nq_inv :: "nq_state \<Rightarrow> gp \<Rightarrow> bool" where
  "nq_inv s g \<longleftrightarrow> rcu_gp_ctr s mod 128 = 0 \<and>
     (\<forall>t. nq_ok (rpc s t) (rcu_reader_gp s t) (rcu_reader_qs_gp s t) (rcu_gp_ctr s)
       (rcu_reader_gp s t mod 128 \<noteq> 0)) \<and>
     (\<forall>t. t \<in> cs g \<longleftrightarrow> rcu_reader_gp s t mod 128 \<noteq> 0) \<and>
     (\<forall>t. t \<in> cs g \<longrightarrow> rcu_reader_gp s t < rcu_gp_ctr s + 128) \<and>
     (\<forall>t v. rpc s t = Locking v \<longrightarrow> t < NR_THREADS) \<and>
     cs g \<subseteq> {..<NR_THREADS} \<and> (\<forall>u. waitfor g u \<subseteq> cs g) \<and>
     lock_ok sync_held (rcu_gp_lock s) (upc s) \<and> pos_ok (upc s) \<and>
     scan_ok (nq_old s (rcu_gp_ctr s)) (waitfor g) (upc s)"

lemma nq_invD:
  assumes "nq_inv s g"
  shows "rcu_gp_ctr s mod 128 = 0"
    and "nq_ok (rpc s t) (rcu_reader_gp s t) (rcu_reader_qs_gp s t) (rcu_gp_ctr s) (t \<in> cs g)"
    and "t \<in> cs g \<longleftrightarrow> rcu_reader_gp s t mod 128 \<noteq> 0" and "t \<in> cs g \<Longrightarrow> rcu_reader_gp s t < rcu_gp_ctr s + 128"
    and "rpc s t = Locking v \<Longrightarrow> t < NR_THREADS"
    and "cs g \<subseteq> {..<NR_THREADS}" and "waitfor g u \<subseteq> cs g"
    and "lock_ok sync_held (rcu_gp_lock s) (upc s)" and "pos_ok (upc s)"
    and "scan_ok (nq_old s (rcu_gp_ctr s)) (waitfor g) (upc s)"
  using assms unfolding nq_inv_def by simp_all

lemma nq_inv_init: "rcu_init s \<Longrightarrow> nq_inv s gp_init"
  by (auto simp: rcu_init_def nq_inv_def gp_init_def lock_ok_init pos_ok_def scan_ok_init)

lemma nq_inv_waitfor:
  assumes "nq_inv s g" and "t \<in> waitfor g u"
  shows "rpc s t = Online" and "online_ok (rcu_reader_qs_gp s t) (rcu_gp_ctr s)"
    and "rcu_reader_gp s t < rcu_gp_ctr s + 128" and "t < NR_THREADS" and "t \<in> cs g"
proof -
  show c: "t \<in> cs g" using nq_invD(7) [OF assms(1)] assms(2) by blast
  with nq_invD(2) [OF assms(1), of t] show "rpc s t = Online" "online_ok (rcu_reader_qs_gp s t) (rcu_gp_ctr s)"
    by (cases "rpc s t"; simp)+
  from c nq_invD(4,6) [OF assms(1)] show "t < NR_THREADS" "rcu_reader_gp s t < rcu_gp_ctr s + 128" by blast+
qed

lemma nq_read_step_inv: "read_step s e s' \<Longrightarrow> nq_inv s g \<Longrightarrow> nq_inv s' (gp_eff e g)"
proof (induction rule: read_step.induct)
  case (lock_load t s)
  note v = nq_invD [OF lock_load(4)]
  have "online_ok (rcu_gp_ctr s + 1) (rcu_gp_ctr s)"
    using v(1) by (rule online_ok_current)
  with lock_load(1-3) v v(2) [of t] v(3) [of t] show ?case by (auto simp: nq_inv_def nesting_mod)
next
  case (lock_store s t tmp)
  note v = nq_invD [OF lock_store(2)]
  from v(2) [of t] lock_store(1) have o: "online_ok tmp (rcu_gp_ctr s)"
    "online_ok (rcu_reader_qs_gp s t) (rcu_gp_ctr s)" "t \<notin> cs g" by auto
  have w: "t \<notin> waitfor g u" for u using v(7) o(3) by blast
  have "scan_ok (\<lambda>_ x. rcu_reader_qs_gp s x < rcu_gp_ctr s \<and> ((rcu_reader_gp s)(t := tmp)) x < rcu_gp_ctr s)
      (waitfor g) (upc s)"
    using v(10) by (rule scan_ok_mono) (use w in auto)
  moreover have "waitfor g u \<subseteq> insert t (cs g)" for u using v(7) by blast
  ultimately show ?case using lock_store(1) v(1-6,8,9) v(5) [OF lock_store(1)] o
    by (auto simp: nq_inv_def online_ok_def)
next
  case (lock_nested s t)
  note v = nq_invD [OF lock_nested(4)]
  have n: "rcu_reader_gp s t mod 128 \<noteq> 127" "rcu_reader_gp s t mod 128 \<noteq> 0"
    using lock_nested(2,3) by (auto simp: nesting_mod nq_consts)
  moreover have "0 \<le> rcu_reader_gp s t mod 128" by simp
  ultimately have m: "(rcu_reader_gp s t + 1) mod 128 \<noteq> 0" using nesting_Suc [OF n(1)] by linarith
  have c: "t \<in> cs g" using v(3) [of t] n by simp
  have "rcu_reader_gp s t + 1 < rcu_gp_ctr s + 128"
    by (rule nested_below [OF _ v(4) [OF c] n(1)]) (simp add: v(1))
  moreover have "scan_ok (\<lambda>_ x. rcu_reader_qs_gp s x < rcu_gp_ctr s \<and>
      ((rcu_reader_gp s)(t := rcu_reader_gp s t + 1)) x < rcu_gp_ctr s) (waitfor g) (upc s)"
    using v(10) by (rule scan_ok_mono) (use nested_below [OF v(1) _ n(1)] in auto)
  ultimately show ?case using lock_nested(1) v(1-9) m n c v(2) [of t] by (auto simp: nq_inv_def)
next
  case (unlock s t)
  note v = nq_invD [OF unlock(3)]
  have n: "rcu_reader_gp s t mod 128 \<noteq> 0" using unlock(2) by (simp add: nesting_mod)
  have c: "t \<in> cs g" using v(3) [of t] n by simp
  have b: "scan_ok (\<lambda>_ x. rcu_reader_qs_gp s x < rcu_gp_ctr s \<and>
      ((rcu_reader_gp s)(t := rcu_reader_gp s t - 1)) x < rcu_gp_ctr s) (waitfor g) (upc s)"
    using v(10) by (rule scan_ok_mono) auto
  show ?case
  proof (cases "rcu_reader_gp s t mod 128 = 1")
    case True
    then have "(rcu_reader_gp s t - 1) mod 128 = 0" by (simp add: nesting_pred)
    moreover have "scan_ok (\<lambda>_ x. rcu_reader_qs_gp s x < rcu_gp_ctr s \<and>
        ((rcu_reader_gp s)(t := rcu_reader_gp s t - 1)) x < rcu_gp_ctr s) (\<lambda>u. waitfor g u - {t}) (upc s)"
      using b by (rule scan_ok_mono) auto
    moreover have "waitfor g u - {t} \<subseteq> cs g - {t}" for u using v(7) by blast
    ultimately show ?thesis using True unlock(1) v(1-6,8,9) v(2) [of t] by (auto simp: nq_inv_def nesting_mod)
  next
    case False
    with n have "(rcu_reader_gp s t - 1) mod 128 \<noteq> 0" by (simp add: nesting_pred)
    moreover have "rcu_reader_gp s t - 1 < rcu_gp_ctr s + 128" using v(4) [OF c] by simp
    ultimately show ?thesis using False unlock(1) b v(1-9) c v(2) [of t] by (auto simp: nq_inv_def nesting_mod)
  qed
next
  case (quiescent_load s t)
  note v = nq_invD [OF quiescent_load(3)]
  have "online_ok (rcu_gp_ctr s + 1) (rcu_gp_ctr s)"
    using v(1) by (rule online_ok_current)
  with v quiescent_load(1,2) v(3) [of t] show ?case by (auto simp: nq_inv_def nesting_mod)
next
  case (quiescent_store s t tmp)
  note v = nq_invD [OF quiescent_store(2)]
  have w: "t \<notin> waitfor g u" for u using nq_inv_waitfor(1) [OF quiescent_store(2)] quiescent_store(1) by auto
  have "scan_ok (\<lambda>_ x. ((rcu_reader_qs_gp s)(t := tmp)) x < rcu_gp_ctr s \<and> rcu_reader_gp s x < rcu_gp_ctr s)
      (waitfor g) (upc s)"
    using v(10) by (rule scan_ok_mono) (use w in auto)
  with quiescent_store(1) v(2) [of t] v(1-9) show ?case by (auto simp: nq_inv_def)
next
  case (quiescent_nested s t)
  note v = nq_invD [OF quiescent_nested(3)]
  have n: "rcu_reader_gp s t mod 128 \<noteq> 0" using quiescent_nested(2) by (simp add: nesting_mod)
  have "scan_ok (\<lambda>_ x. ((rcu_reader_qs_gp s)(t := rcu_reader_gp s t)) x < rcu_gp_ctr s \<and> rcu_reader_gp s x < rcu_gp_ctr s)
      (waitfor g) (upc s)"
    using v(10) by (rule scan_ok_mono) auto
  moreover have "online_ok (rcu_reader_gp s t) (rcu_gp_ctr s)"
    using n v(4) [of t] v(3) [of t] by (simp add: online_ok_def)
  ultimately show ?case using quiescent_nested(1) v(1-9) by (auto simp: nq_inv_def)
next
  case (offline_load s t)
  note v = nq_invD [OF offline_load(3)]
  from offline_load(1,2) v(2) [of t] v v(3) [of t] show ?case by (auto simp: nq_inv_def nesting_mod)
next
  case (offline_store s t x)
  note v = nq_invD [OF offline_store(2)]
  have w: "t \<notin> waitfor g u" for u using nq_inv_waitfor(1) [OF offline_store(2)] offline_store(1) by auto
  have "scan_ok (\<lambda>_ y. ((rcu_reader_qs_gp s)(t := x)) y < rcu_gp_ctr s \<and> rcu_reader_gp s y < rcu_gp_ctr s)
      (waitfor g) (upc s)"
    using v(10) by (rule scan_ok_mono) (use w in auto)
  with offline_store(1) v(2) [of t] v(1-9) show ?case by (auto simp: nq_inv_def)
qed

lemma nq_sync_step_inv: "sync_step s e s' \<Longrightarrow> nq_inv s g \<Longrightarrow> nq_inv s' (gp_eff e g)"
proof (induction rule: sync_step.induct)
  case (call s u)
  then show ?case
    by (simp add: nq_inv_def lock_ok_outside pos_ok_upd scan_ok_outside)
next
  case (acquire s u)
  then show ?case
    by (simp add: nq_inv_def lock_ok_acquire pos_ok_upd scan_ok_quiet)
next
  case (advance s u)
  note v = nq_invD [OF advance(2)]
  note w = nq_inv_waitfor [OF advance(2)]
  let ?c = "rcu_gp_ctr s + 128"
  have "nq_ok (rpc s t) (rcu_reader_gp s t) (rcu_reader_qs_gp s t) ?c (t \<in> cs g)" for t
    using v(2) by (rule nq_ok_mono) simp
  moreover have "rcu_reader_gp s t < ?c + 128" if "t \<in> cs g" for t using v(4) [OF that] by simp
  moreover have "scan_ok (nq_old s ?c) (waitfor g) ((upc s)(u := SScan 0))"
    using scan_ok_mono [OF v(10), of "waitfor g" "nq_old s ?c"] w(2,3)
    by (intro scan_ok_upd) (auto simp: online_ok_def)
  ultimately show ?case using v(1,3,5-9) advance(1)
    by (simp add: nq_inv_def nq_consts lock_ok_inside pos_ok_upd)
next
  case (ongoing_test s u k)
  note v = nq_invD [OF ongoing_test(2)]
  have "k \<notin> waitfor g u" if "\<not> rcu_gp_ongoing s k"
    using nq_inv_waitfor(2) [OF ongoing_test(2), of k u] that
    by (auto simp: rcu_gp_ongoing_def nesting_mod online_ok_def)
  note t = scan_test [OF v(10,9) disjI1 [OF ongoing_test(1)] disjI2 [OF refl] this]
  from v t show ?case by (simp add: nq_inv_def)
next
  case (old_test s u k)
  note v = nq_invD [OF old_test(2)]
  have "k \<notin> waitfor g u" if "\<not> rcu_reader_qs_gp s k - rcu_gp_ctr s < 0"
    using scan_okD [OF v(10), of k u] old_test(1) that by auto
  note t = scan_test [OF v(10,9) disjI2 [OF old_test(1)] disjI1 [OF refl] this]
  from v t show ?case by (simp add: nq_inv_def)
next
  case (release s u)
  note v = nq_invD [OF release(2)]
  from v release(1) lock_ok_release [OF v(8), of u SIdle None] show ?case
    by (simp add: nq_inv_def pos_ok_upd scan_ok_quiet)
qed

lemma nq_observed_inv: "observed rcu_init rcu_step s g \<Longrightarrow> nq_inv s g"
  by (erule observed_invariant)
    (auto simp: rcu_step_def intro: nq_inv_init nq_read_step_inv nq_sync_step_inv)

lemma nq_done_waits_for_none:
  assumes "nq_inv s g" and "rcu_step s (Done u) s'"
  shows "waitfor g u = {}"
proof (rule scan_ok_end [OF nq_invD(10) [OF assms(1)]])
  show "upc s u = SEnd"
    using assms(2) by (auto simp: rcu_step_def elim: read_step.cases sync_step.cases split: if_splits)
  show "waitfor g u \<subseteq> {..<NR_THREADS}" using nq_inv_waitfor(4) [OF assms(1)] by auto
qed

interpretation rcu_nest_qs: rcu_flavour rcu_init rcu_step
  by unfold_locales (rule nq_done_waits_for_none [OF nq_observed_inv])

end
