(* ===== verification/Rcu_All.thy ===== *)
theory Rcu_All
  imports Rcu Rcu64 Rcu64_Atomicgp Rcu_Ts Rcu_Qs Rcu_Rcl Rcu_Rcg Rcu_Lock Rcu_Lock_Percpu
    Rcu_Rcpg Rcu_Rcpl Rcu_Rcpls Rcu_Nest32 Rcu_Nest_Qs
begin

text \<open>
  The grace-period guarantee of the flavours of defer/, taken together from the
  interpretations of \<open>rcu_flavour\<close> in their theories.
\<close>

text \<open>C30: the flavours on locks and plain reference counts: when \<open>synchronize_rcu\<close> of
  rcu_lock.c, rcu_lock_percpu.c, rcu_rcg.c or rcu_rcl.c returns, every critical section that
  was running when it was called has ended.\<close>

theorem rcu_lock_flavours:
  "(observed Rcu_Lock.rlock_init Rcu_Lock.rcu_step s1 g \<and> Rcu_Lock.rcu_step s1 (Done u) t1 \<longrightarrow>
      waitfor g u = {}) \<and>
   (observed Rcu_Lock_Percpu.rcu_init Rcu_Lock_Percpu.rcu_step s2 g \<and>
      Rcu_Lock_Percpu.rcu_step s2 (Done u) t2 \<longrightarrow> waitfor g u = {}) \<and>
   (observed Rcu_Rcg.rcg_init Rcu_Rcg.rcu_step s3 g \<and> Rcu_Rcg.rcu_step s3 (Done u) t3 \<longrightarrow>
      waitfor g u = {}) \<and>
   (observed Rcu_Rcl.rcu_init Rcu_Rcl.rcu_step s4 g \<and> Rcu_Rcl.rcu_step s4 (Done u) t4 \<longrightarrow>
      waitfor g u = {})"
  using rcu_lock.grace rcu_lock_percpu.grace rcu_rcg.grace rcu_rcl.grace by blast

theorem rcu_lock_flavours_witness:
  "\<exists>s t. observed Rcu_Rcg.rcg_init Rcu_Rcg.rcu_step s gp_init \<and> Rcu_Rcg.rcu_step s (Done 2) t \<and>
     waitfor gp_init 2 = {}"
  using rcu_lock_flavours [where g = gp_init and u = 2] rcg_solo_end [of 2] rcg_solo_steps(3) [of 2]
  by blast

text \<open>C15: the flavours on a counter: the same for rcu64.c, for rcu64_atomicgp.c whose
  updaters hold no lock, for rcu_qs.c whose readers only announce quiescent states, and for
  rcu_nest_qs.c, whose critical sections nest and may contain quiescent states. (rcu_ts.c, which uses
  the clock in place of a counter, gives the guarantee only on some clocks: \<open>rcu_ts_clock\<close>.)\<close>

theorem rcu_counter_flavours:
  "(observed Rcu64.rcu_init Rcu64.rcu_step s1 g \<and> Rcu64.rcu_step s1 (Done u) t1 \<longrightarrow>
      waitfor g u = {}) \<and>
   (observed Rcu64_Atomicgp.rcu_init Rcu64_Atomicgp.rcu_step s2 g \<and>
      Rcu64_Atomicgp.rcu_step s2 (Done u) t2 \<longrightarrow> waitfor g u = {}) \<and>
   (observed Rcu_Qs.rcu_init Rcu_Qs.rcu_step s3 g \<and> Rcu_Qs.rcu_step s3 (Done u) t3 \<longrightarrow>
      waitfor g u = {}) \<and>
   (observed Rcu_Nest_Qs.rcu_init Rcu_Nest_Qs.rcu_step s4 g \<and> Rcu_Nest_Qs.rcu_step s4 (Done u) t4 \<longrightarrow>
      waitfor g u = {})"
  by (intro conjI impI; elim conjE)
    (erule (1) rcu64.grace rcu64_atomicgp.grace rcu_qs.grace rcu_nest_qs.grace)+

theorem rcu_counter_flavours_witness:
  "\<exists>s t. observed Rcu64.rcu_init Rcu64.rcu_step s gp_init \<and> Rcu64.rcu_step s (Done 3) t \<and>
     waitfor gp_init 3 = {}"
  using rcu_counter_flavours [where g = gp_init and u = 3] rcu64_solo_end [of 3] rcu64_solo_done [of 3]
  by blast

text \<open>C29: the flavours that flip a pair of reference counters: the same for rcu_rcpg.c with
  global counters, rcu_rcpl.c with counters per thread, and rcu_rcpls.c, whose updaters share
  grace periods and skip flips and waits that others have made since they were called, and for
  rcu_nest32.c, which flips one bit.\<close>

theorem rcu_flip_flavours:
  "(observed Rcu_Rcpg.rcu_init Rcu_Rcpg.rcu_step s1 g \<and> Rcu_Rcpg.rcu_step s1 (Done u) t1 \<longrightarrow>
      waitfor g u = {}) \<and>
   (observed Rcu_Rcpl.rcu_init Rcu_Rcpl.rcu_step s2 g \<and> Rcu_Rcpl.rcu_step s2 (Done u) t2 \<longrightarrow>
      waitfor g u = {}) \<and>
   (observed Rcu_Rcpls.rcu_init Rcu_Rcpls.rcu_step s3 g \<and> Rcu_Rcpls.rcu_step s3 (Done u) t3 \<longrightarrow>
      waitfor g u = {}) \<and>
   (observed Rcu_Nest32.rcu_init Rcu_Nest32.rcu_step s4 g \<and> Rcu_Nest32.rcu_step s4 (Done u) t4 \<longrightarrow>
      waitfor g u = {})"
  using rcu_rcpg.grace rcu_rcpl.grace rcu_rcpls.grace rcu_nest32.grace by blast

theorem rcu_flip_flavours_witness:
  "\<exists>s t. observed Rcu_Rcpg.rcu_init Rcu_Rcpg.rcu_step s gp_init \<and> Rcu_Rcpg.rcu_step s (Done 4) t \<and>
     waitfor gp_init 4 = {}"
  using rcu_flip_flavours [where g = gp_init and u = 4] rcpg_solo_end [of 4] rcpg_solo_done [of 4]
  by blast

end
