(* ===== verification/Rcu_Nest.thy ===== *)
theory Rcu_Nest
  imports Rcu_Spec
begin

text \<open>
  defer/rcu_nest.h and defer/rcu_nest.c: RCU with nesting. The low bits of a reader's variable
  count its nesting, the rest is the grace-period counter that it read at its outermost
  \<open>rcu_read_lock\<close>. All of this is \<open>unsigned long\<close>, and so is the difference that the scan of
  \<open>synchronize_rcu\<close> compares with 0.
\<close>

definition RCU_GP_CTR_SHIFT :: nat where
  "RCU_GP_CTR_SHIFT = 7"

definition RCU_GP_CTR_BOTTOM_BIT :: ulong where
  "RCU_GP_CTR_BOTTOM_BIT = push_bit RCU_GP_CTR_SHIFT 1"

definition RCU_GP_CTR_NEST_MASK :: ulong where
  "RCU_GP_CTR_NEST_MASK = RCU_GP_CTR_BOTTOM_BIT - 1"

definition MAX_GP_ADV_DISTANCE :: ulong where
  "MAX_GP_ADV_DISTANCE = push_bit 8 RCU_GP_CTR_NEST_MASK"

definition ULONG_CMP_GE :: "ulong \<Rightarrow> ulong \<Rightarrow> bool" where
  "ULONG_CMP_GE a b \<longleftrightarrow> (- 1) div 2 \<ge> a - b"

definition ULONG_CMP_LT :: "ulong \<Rightarrow> ulong \<Rightarrow> bool" where
  "ULONG_CMP_LT a b \<longleftrightarrow> (- 1) div 2 < a - b"

text \<open>A reader: outside or nested, about to store, about to check how old its value is.\<close>

datatype nest_pc = NStable | NLoaded ulong | NStored ulong

record nest_state =
  rcu_gp_ctr :: ulong
  rcu_reader_gp :: "nat \<Rightarrow> ulong"
  rcu_gp_lock :: "nat option"
  rpc :: "nat \<Rightarrow> nest_pc"
  upc :: "nat \<Rightarrow> sync_pc"

definition rcu_init :: "nest_state \<Rightarrow> bool" where
  "rcu_init s \<longleftrightarrow> s = \<lparr>rcu_gp_ctr = 0, rcu_reader_gp = (\<lambda>_. 0), rcu_gp_lock = None,
     rpc = (\<lambda>_. NStable), upc = (\<lambda>_. SIdle)\<rparr>"

definition rcu_gp_ongoing :: "nest_state \<Rightarrow> nat \<Rightarrow> bool" where
  "rcu_gp_ongoing s t \<longleftrightarrow> rcu_reader_gp s t AND RCU_GP_CTR_NEST_MASK \<noteq> 0"

inductive read_step :: "nest_state \<Rightarrow> rcu_ev \<Rightarrow> nest_state \<Rightarrow> bool" where
  lock_load: "t < NR_THREADS \<Longrightarrow> rpc s t = NStable \<Longrightarrow>
      rcu_reader_gp s t AND RCU_GP_CTR_NEST_MASK = 0 \<Longrightarrow>
    read_step s Tau (s\<lparr>rpc := (rpc s)(t := NLoaded (rcu_gp_ctr s + 1))\<rparr>)"
| lock_nested: "t < NR_THREADS \<Longrightarrow> rpc s t = NStable \<Longrightarrow>
      rcu_reader_gp s t AND RCU_GP_CTR_NEST_MASK \<noteq> 0 \<Longrightarrow>
    read_step s Tau (s\<lparr>rcu_reader_gp := (rcu_reader_gp s)(t := rcu_reader_gp s t + 1)\<rparr>)"
| lock_store: "rpc s t = NLoaded tmp \<Longrightarrow>
    read_step s Tau (s\<lparr>rcu_reader_gp := (rcu_reader_gp s)(t := tmp), rpc := (rpc s)(t := NStored tmp)\<rparr>)"
| lock_fresh: "rpc s t = NStored tmp \<Longrightarrow>
      \<not> (tmp AND RCU_GP_CTR_NEST_MASK = 1 \<and> ULONG_CMP_GE (rcu_gp_ctr s) (tmp + MAX_GP_ADV_DISTANCE)) \<Longrightarrow>
    read_step s (Lock t) (s\<lparr>rpc := (rpc s)(t := NStable)\<rparr>)"
| lock_retry: "rpc s t = NStored tmp \<Longrightarrow>
      tmp AND RCU_GP_CTR_NEST_MASK = 1 \<and> ULONG_CMP_GE (rcu_gp_ctr s) (tmp + MAX_GP_ADV_DISTANCE) \<Longrightarrow>
    read_step s Tau (s\<lparr>rcu_reader_gp := (rcu_reader_gp s)(t := rcu_reader_gp s t - 1),
      rpc := (rpc s)(t := NStable)\<rparr>)"
| unlock: "rpc s t = NStable \<Longrightarrow> rcu_gp_ongoing s t \<Longrightarrow>
    read_step s (if rcu_reader_gp s t AND RCU_GP_CTR_NEST_MASK = 1 then Unlock t else Tau)
      (s\<lparr>rcu_reader_gp := (rcu_reader_gp s)(t := rcu_reader_gp s t - 1)\<rparr>)"

inductive sync_step :: "nest_state \<Rightarrow> rcu_ev \<Rightarrow> nest_state \<Rightarrow> bool" where
  call: "upc s u = SIdle \<Longrightarrow> sync_step s (Sync u) (s\<lparr>upc := (upc s)(u := SCalled)\<rparr>)"
| acquire: "upc s u = SCalled \<Longrightarrow> rcu_gp_lock s = None \<Longrightarrow>
    sync_step s Tau (s\<lparr>rcu_gp_lock := Some u, upc := (upc s)(u := SLocked)\<rparr>)"
| advance: "upc s u = SLocked \<Longrightarrow>
    sync_step s Tau (s\<lparr>rcu_gp_ctr := rcu_gp_ctr s + RCU_GP_CTR_BOTTOM_BIT,
      upc := (upc s)(u := SScan 0)\<rparr>)"
| ongoing_test: "upc s u = SScan k \<Longrightarrow>
    sync_step s Tau (s\<lparr>upc := (upc s)(u := if rcu_gp_ongoing s k then SSecond k else next_scan k)\<rparr>)"
| old_test: "upc s u = SSecond k \<Longrightarrow>
    sync_step s Tau (s\<lparr>upc := (upc s)(u :=
      if rcu_reader_gp s k - rcu_gp_ctr s < 0 then SScan k else next_scan k)\<rparr>)"
| release: "upc s u = SEnd \<Longrightarrow>
    sync_step s (Done u) (s\<lparr>rcu_gp_lock := None, upc := (upc s)(u := SIdle)\<rparr>)"

definition rcu_step :: "nest_state \<Rightarrow> rcu_ev \<Rightarrow> nest_state \<Rightarrow> bool" where
  "rcu_step s e s' \<longleftrightarrow> read_step s e s' \<or> sync_step s e s'"

section \<open>The wrapping comparisons\<close>

lemma ULONG_CMP_dual: "ULONG_CMP_LT a b \<longleftrightarrow> \<not> ULONG_CMP_GE a b"
  by (auto simp: ULONG_CMP_LT_def ULONG_CMP_GE_def)

text \<open>The macro is the comparison that the scan needs: a value below another one by at most
  half of the range is less, also across a wrap-around of the counter.\<close>

lemma ULONG_CMP_LT_wraps:
  assumes "0 < unat d" and "unat d \<le> 2 ^ 63"
  shows "ULONG_CMP_LT a (a + d)"
proof -
  have n: "a - (a + d) = - d" by simp
  have "d + of_nat (2 ^ 64 - unat d) = of_nat (unat d + (2 ^ 64 - unat d))"
    by (simp only: of_nat_add) simp
  also have "\<dots> = (0 :: ulong)" using unat_ulong_less [of d] by (simp add: word_unat_eq_iff)
  finally have "- d = of_nat (2 ^ 64 - unat d)" by (simp only: neg_eq_iff_add_eq_0)
  then have "unat (- d) = 2 ^ 64 - unat d"
    using assms(1) by (simp add: unsigned_of_nat take_bit_nat_eq_self)
  then have "2 ^ 63 \<le> unat (- d)" using assms(2) by simp
  moreover have "unat (- 1 div 2 :: ulong) = 2 ^ 63 - 1" by simp
  ultimately show ?thesis unfolding ULONG_CMP_LT_def n by (simp add: word_less_nat_alt)
qed

section \<open>The scan never waits\<close>

definition stuck :: "nat \<Rightarrow> ulong \<Rightarrow> nat option \<Rightarrow> nest_pc \<Rightarrow> ulong \<Rightarrow> sync_pc \<Rightarrow> nest_state" where
  "stuck u c l p r q = \<lparr>rcu_gp_ctr = c, rcu_reader_gp = (\<lambda>_. 0)(0 := r), rcu_gp_lock = l,
     rpc = (\<lambda>_. NStable)(0 := p), upc = (\<lambda>_. SIdle)(u := q)\<rparr>"

definition stuck_gp :: "nat \<Rightarrow> gp" where
  "stuck_gp u = \<lparr>cs = {0}, waitfor = (\<lambda>_. {})(u := {0})\<rparr>"

lemmas nest_consts = RCU_GP_CTR_SHIFT_def RCU_GP_CTR_BOTTOM_BIT_def RCU_GP_CTR_NEST_MASK_def
  MAX_GP_ADV_DISTANCE_def ULONG_CMP_GE_def

lemma stuck_reader:
  "read_step (stuck u 0 None NStable 0 SIdle) Tau (stuck u 0 None (NLoaded 1) 0 SIdle)"
  "read_step (stuck u 0 None (NLoaded 1) 0 SIdle) Tau (stuck u 0 None (NStored 1) 1 SIdle)"
  "read_step (stuck u 0 None (NStored 1) 1 SIdle) (Lock 0) (stuck u 0 None NStable 1 SIdle)"
  using read_step.lock_load [of 0 "stuck u 0 None NStable 0 SIdle"]
    read_step.lock_store [of "stuck u 0 None (NLoaded 1) 0 SIdle" 0 1]
    read_step.lock_fresh [of "stuck u 0 None (NStored 1) 1 SIdle" 0 1]
  by (simp_all add: stuck_def NR_THREADS_def nest_consts)

lemma stuck_sync:
  "sync_step (stuck u 0 None NStable 1 SIdle) (Sync u) (stuck u 0 None NStable 1 SCalled)"
  "sync_step (stuck u 0 None NStable 1 SCalled) Tau (stuck u 0 (Some u) NStable 1 SLocked)"
  "sync_step (stuck u 0 (Some u) NStable 1 SLocked) Tau (stuck u 128 (Some u) NStable 1 (SScan 0))"
  "sync_step (stuck u 128 (Some u) NStable 1 (SScan 0)) Tau (stuck u 128 (Some u) NStable 1 (SSecond 0))"
  "sync_step (stuck u 128 (Some u) NStable 1 (SSecond 0)) Tau (stuck u 128 (Some u) NStable 1 (SScan 1))"
  "0 < k \<Longrightarrow> sync_step (stuck u 128 (Some u) NStable 1 (SScan k)) Tau
    (stuck u 128 (Some u) NStable 1 (next_scan k))"
  "sync_step (stuck u 128 (Some u) NStable 1 SEnd) (Done u) (stuck u 128 None NStable 1 SIdle)"
  using sync_step.call [of "stuck u 0 None NStable 1 SIdle" u]
    sync_step.acquire [of "stuck u 0 None NStable 1 SCalled" u]
    sync_step.advance [of "stuck u 0 (Some u) NStable 1 SLocked" u]
    sync_step.ongoing_test [of "stuck u 128 (Some u) NStable 1 (SScan 0)" u 0]
    sync_step.old_test [of "stuck u 128 (Some u) NStable 1 (SSecond 0)" u 0]
    sync_step.ongoing_test [of "stuck u 128 (Some u) NStable 1 (SScan k)" u k]
    sync_step.release [of "stuck u 128 (Some u) NStable 1 SEnd" u]
  by (simp_all add: stuck_def next_scan_def NR_THREADS_def nest_consts rcu_gp_ongoing_def)

abbreviation nest_obs :: "nest_state \<Rightarrow> gp \<Rightarrow> bool" where
  "nest_obs \<equiv> observed rcu_init rcu_step"

lemma stuck_start: "nest_obs (stuck u 0 None NStable 1 SCalled) (stuck_gp u)"
proof -
  have "nest_obs (stuck u 0 None NStable 0 SIdle) gp_init"
    by (rule observed.start) (simp add: stuck_def rcu_init_def fun_upd_idem)
  from observed.event [OF this, of Tau] stuck_reader(1)
  have "nest_obs (stuck u 0 None (NLoaded 1) 0 SIdle) gp_init" by (simp add: rcu_step_def)
  from observed.event [OF this, of Tau] stuck_reader(2)
  have "nest_obs (stuck u 0 None (NStored 1) 1 SIdle) gp_init" by (simp add: rcu_step_def)
  from observed.event [OF this, of "Lock 0"] stuck_reader(3)
  have "nest_obs (stuck u 0 None NStable 1 SIdle) (gp_eff (Lock 0) gp_init)"
    by (simp add: rcu_step_def)
  from observed.event [OF this, of "Sync u"] stuck_sync(1)
  show ?thesis by (simp add: rcu_step_def gp_init_def stuck_gp_def)
qed

lemma stuck_tau: "nest_obs s (stuck_gp u) \<Longrightarrow> sync_step s Tau s' \<Longrightarrow> nest_obs s' (stuck_gp u)"
  using observed.event [of rcu_init rcu_step s "stuck_gp u" Tau s'] by (simp add: rcu_step_def)

lemma stuck_scan:
  "Suc k < NR_THREADS \<Longrightarrow> nest_obs (stuck u 128 (Some u) NStable 1 (SScan (Suc k))) (stuck_gp u)"
proof (induction k)
  case 0
  from stuck_tau [OF stuck_tau [OF stuck_tau [OF stuck_tau [OF stuck_start stuck_sync(2)]
        stuck_sync(3)] stuck_sync(4)] stuck_sync(5)]
  show ?case by simp
next
  case (Suc k)
  with stuck_tau [OF Suc.IH stuck_sync(6)] show ?case by (simp add: next_scan_def)
qed

text \<open>C34: \<open>synchronize_rcu\<close> of rcu_nest.c does not wait for readers: an unsigned difference is
  never less than 0, so its scan passes every thread, and it returns while a reader is inside
  the critical section that it was in before the call. The macro \<open>ULONG_CMP_LT\<close>, which
  rcu_nest.h defines, would tell that reader from a new one.\<close>

theorem rcu_nest_does_not_wait:
  "(\<exists>s g s'. observed rcu_init rcu_step s g \<and> rcu_step s (Done u) s' \<and> 0 \<in> waitfor g u \<and>
      ULONG_CMP_LT (rcu_reader_gp s 0) (rcu_gp_ctr s))"
proof -
  let ?s = "stuck u 128 (Some u) NStable 1 SEnd"
  have "nest_obs ?s (stuck_gp u)"
    using stuck_tau [OF stuck_scan [of "NR_THREADS - 2"] stuck_sync(6)]
    by (simp add: next_scan_def NR_THREADS_def)
  moreover have "rcu_step ?s (Done u) (stuck u 128 None NStable 1 SIdle)"
    using stuck_sync(7) by (simp add: rcu_step_def)
  moreover have "ULONG_CMP_LT (rcu_reader_gp ?s 0) (rcu_gp_ctr ?s)"
    by (simp add: stuck_def ULONG_CMP_LT_def)
  ultimately show ?thesis
    by (intro exI [of _ ?s] exI [of _ "stuck_gp u"] exI conjI) (auto simp: stuck_gp_def)
qed

end
