(* ===== verification/Singleton.thy ===== *)
theory Singleton
  imports Rcu
begin

text \<open>
  defer/singleton.c: one configuration behind an RCU-protected pointer, read by \<open>get_config\<close> and
  replaced by \<open>set_config\<close> and \<open>clear_config\<close>, which free the old one after a grace period. RCU
  itself (liburcu there) is the parameter \<open>stp\<close>: any flavour with the grace-period guarantee.
  Addresses are numbers; \<open>malloc\<close> returns any free one, also one freed before. \<open>written\<close> is no
  variable of the code: it collects the configurations that were ever stored.
\<close>

record myconfig =
  cfg_a :: cint
  cfg_b :: cint

text \<open>\<open>get_config\<close>: idle or returned, in the critical section, with the pointer, with the first
  field copied, with both copied; \<open>RdFault\<close> is an access to freed memory.\<close>

datatype get_pc =
  RdRet "(cint \<times> cint) option" | RdLocked | RdGot "nat option" | RdA nat cint | RdB cint cint | RdFault

text \<open>\<open>set_config\<close> and \<open>clear_config\<close>: idle, with a new configuration, before and in
  \<open>synchronize_rcu\<close> (\<open>True\<close> in the first of the two calls of \<open>clear_config\<close>), before \<open>free\<close>.\<close>

datatype set_pc = UpIdle | UpInit nat | UpSync "nat option" bool | UpWait "nat option" bool | UpFree nat

record client =
  curconfig :: "nat option"
  heap :: "nat \<Rightarrow> myconfig option"
  rd :: "nat \<Rightarrow> get_pc"
  up :: "nat \<Rightarrow> set_pc"
  written :: "myconfig set"

definition client_init :: client where
  "client_init = \<lparr>curconfig = None, heap = (\<lambda>_. None), rd = (\<lambda>_. RdRet None),
     up = (\<lambda>_. UpIdle), written = {}\<rparr>"

type_synonym 's sys = "'s \<times> gp \<times> client"

inductive get_config :: "('s \<Rightarrow> rcu_ev \<Rightarrow> 's \<Rightarrow> bool) \<Rightarrow> 's sys \<Rightarrow> 's sys \<Rightarrow> bool" for stp where
  lock: "rd c t = RdRet r \<Longrightarrow> stp s (Lock t) s' \<Longrightarrow>
    get_config stp (s, g, c) (s', gp_eff (Lock t) g, c\<lparr>rd := (rd c)(t := RdLocked)\<rparr>)"
| deref: "rd c t = RdLocked \<Longrightarrow>
    get_config stp (s, g, c) (s, g, c\<lparr>rd := (rd c)(t := RdGot (curconfig c))\<rparr>)"
| none: "rd c t = RdGot None \<Longrightarrow> stp s (Unlock t) s' \<Longrightarrow>
    get_config stp (s, g, c) (s', gp_eff (Unlock t) g, c\<lparr>rd := (rd c)(t := RdRet None)\<rparr>)"
| copy_a: "rd c t = RdGot (Some p) \<Longrightarrow>
    get_config stp (s, g, c) (s, g, c\<lparr>rd := (rd c)(t :=
      case heap c p of None \<Rightarrow> RdFault | Some v \<Rightarrow> RdA p (cfg_a v))\<rparr>)"
| copy_b: "rd c t = RdA p a \<Longrightarrow>
    get_config stp (s, g, c) (s, g, c\<lparr>rd := (rd c)(t :=
      case heap c p of None \<Rightarrow> RdFault | Some v \<Rightarrow> RdB a (cfg_b v))\<rparr>)"
| unlock: "rd c t = RdB a b \<Longrightarrow> stp s (Unlock t) s' \<Longrightarrow>
    get_config stp (s, g, c) (s', gp_eff (Unlock t) g, c\<lparr>rd := (rd c)(t := RdRet (Some (a, b)))\<rparr>)"

text \<open>\<open>retire\<close> is what both do with the pointer that the exchange returned.\<close>

definition retire :: "nat option \<Rightarrow> set_pc" where
  "retire mcp = (case mcp of None \<Rightarrow> UpIdle | Some p \<Rightarrow> UpSync (Some p) False)"

inductive set_config :: "'s sys \<Rightarrow> 's sys \<Rightarrow> bool" where
  alloc: "up c u = UpIdle \<Longrightarrow> heap c p = None \<Longrightarrow>
    set_config (s, g, c) (s, g, c\<lparr>heap := (heap c)(p := Some \<lparr>cfg_a = a, cfg_b = b\<rparr>),
      written := insert \<lparr>cfg_a = a, cfg_b = b\<rparr> (written c), up := (up c)(u := UpInit p)\<rparr>)"
| xchg: "up c u = UpInit p \<Longrightarrow>
    set_config (s, g, c) (s, g, c\<lparr>curconfig := Some p, up := (up c)(u := retire (curconfig c))\<rparr>)"

inductive clear_config :: "'s sys \<Rightarrow> 's sys \<Rightarrow> bool" where
  xchg: "up c u = UpIdle \<Longrightarrow>
    clear_config (s, g, c) (s, g, c\<lparr>curconfig := None, up := (up c)(u := UpSync (curconfig c) True)\<rparr>)"

text \<open>The calls of \<open>synchronize_rcu\<close> and \<open>free\<close> that end both.\<close>

inductive reclaim :: "('s \<Rightarrow> rcu_ev \<Rightarrow> 's \<Rightarrow> bool) \<Rightarrow> 's sys \<Rightarrow> 's sys \<Rightarrow> bool" for stp where
  sync: "up c u = UpSync m b \<Longrightarrow> stp s (Sync u) s' \<Longrightarrow>
    reclaim stp (s, g, c) (s', gp_eff (Sync u) g, c\<lparr>up := (up c)(u := UpWait m b)\<rparr>)"
| again: "up c u = UpWait m True \<Longrightarrow> stp s (Done u) s' \<Longrightarrow>
    reclaim stp (s, g, c) (s', gp_eff (Done u) g, c\<lparr>up := (up c)(u := retire m)\<rparr>)"
| waited: "up c u = UpWait (Some p) False \<Longrightarrow> stp s (Done u) s' \<Longrightarrow>
    reclaim stp (s, g, c) (s', gp_eff (Done u) g, c\<lparr>up := (up c)(u := UpFree p)\<rparr>)"
| free: "up c u = UpFree p \<Longrightarrow>
    reclaim stp (s, g, c) (s, g, c\<lparr>heap := (heap c)(p := None), up := (up c)(u := UpIdle)\<rparr>)"

inductive sys_step :: "('s \<Rightarrow> rcu_ev \<Rightarrow> 's \<Rightarrow> bool) \<Rightarrow> 's sys \<Rightarrow> 's sys \<Rightarrow> bool" for stp where
  tau: "stp s Tau s' \<Longrightarrow> sys_step stp (s, g, c) (s', gp_eff Tau g, c)"
| get: "get_config stp x y \<Longrightarrow> sys_step stp x y"
| set: "set_config x y \<Longrightarrow> sys_step stp x y"
| clear: "clear_config x y \<Longrightarrow> sys_step stp x y"
| reclaim: "reclaim stp x y \<Longrightarrow> sys_step stp x y"

definition sys_init :: "('s \<Rightarrow> bool) \<Rightarrow> 's sys \<Rightarrow> bool" where
  "sys_init init x \<longleftrightarrow> (\<exists>s. init s \<and> x = (s, gp_init, client_init))"

section \<open>Ownership and protection\<close>

text \<open>The configuration that an updater alone will free or publish.\<close>

fun owned :: "set_pc \<Rightarrow> nat option" where
  "owned UpIdle = None"
| "owned (UpInit p) = Some p"
| "owned (UpSync m b) = m"
| "owned (UpWait m b) = m"
| "owned (UpFree p) = Some p"

text \<open>Whether the updater may still be waited for by a reader that holds its configuration.\<close>

fun shields :: "set_pc \<Rightarrow> bool \<Rightarrow> bool" where
  "shields (UpSync m b) w \<longleftrightarrow> True"
| "shields (UpWait m b) w \<longleftrightarrow> b \<or> w"
| "shields _ w \<longleftrightarrow> False"

fun holds_ptr :: "get_pc \<Rightarrow> nat option" where
  "holds_ptr (RdGot m) = m"
| "holds_ptr (RdA p a) = Some p"
| "holds_ptr _ = None"

fun inside :: "get_pc \<Rightarrow> bool" where
  "inside (RdRet r) \<longleftrightarrow> False"
| "inside RdFault \<longleftrightarrow> False"
| "inside _ \<longleftrightarrow> True"

definition owner_ok :: "client \<Rightarrow> bool" where
  "owner_ok c \<longleftrightarrow> (\<forall>p. curconfig c = Some p \<longrightarrow> heap c p \<noteq> None) \<and>
     (\<forall>u p. owned (up c u) = Some p \<longrightarrow> heap c p \<noteq> None \<and> curconfig c \<noteq> Some p) \<and>
     (\<forall>u v p. owned (up c u) = Some p \<longrightarrow> owned (up c v) = Some p \<longrightarrow> u = v) \<and>
     (\<forall>u. up c u \<noteq> UpSync None False \<and> up c u \<noteq> UpWait None False)"

definition protected :: "gp \<Rightarrow> client \<Rightarrow> nat \<Rightarrow> nat \<Rightarrow> bool" where
  "protected g c t p \<longleftrightarrow> curconfig c = Some p \<or>
     (\<exists>u. owned (up c u) = Some p \<and> shields (up c u) (t \<in> waitfor g u))"

definition reader_ok :: "gp \<Rightarrow> client \<Rightarrow> bool" where
  "reader_ok g c \<longleftrightarrow> (\<forall>t. rd c t \<noteq> RdFault) \<and> (\<forall>t. inside (rd c t) \<longrightarrow> t \<in> cs g) \<and>
     (\<forall>t p. holds_ptr (rd c t) = Some p \<longrightarrow> protected g c t p)"

definition value_ok :: "client \<Rightarrow> bool" where
  "value_ok c \<longleftrightarrow> (\<forall>p v. heap c p = Some v \<longrightarrow> v \<in> written c) \<and>
     (\<forall>t p a. rd c t = RdA p a \<longrightarrow> (\<forall>v. heap c p = Some v \<longrightarrow> cfg_a v = a)) \<and>
     (\<forall>t a b. rd c t = RdB a b \<or> rd c t = RdRet (Some (a, b)) \<longrightarrow> \<lparr>cfg_a = a, cfg_b = b\<rparr> \<in> written c)"

lemma owner_okD:
  assumes "owner_ok c"
  shows "curconfig c = Some p \<Longrightarrow> heap c p \<noteq> None"
    and "owned (up c u) = Some p \<Longrightarrow> heap c p \<noteq> None"
    and "owned (up c u) = Some p \<Longrightarrow> curconfig c \<noteq> Some p"
    and "owned (up c u) = Some p \<Longrightarrow> owned (up c v) = Some p \<Longrightarrow> u = v"
    and "up c u \<noteq> UpSync None False" and "up c u \<noteq> UpWait None False"
  using assms unfolding owner_ok_def by blast+

lemma protected_heap: "owner_ok c \<Longrightarrow> protected g c t p \<Longrightarrow> heap c p \<noteq> None"
  unfolding protected_def using owner_okD(1,2) by blast

lemma reader_heap: "owner_ok c \<Longrightarrow> reader_ok g c \<Longrightarrow> holds_ptr (rd c t) = Some p \<Longrightarrow> heap c p \<noteq> None"
  by (rule protected_heap) (auto simp: reader_ok_def)

lemma holds_inside: "holds_ptr (rd c t) = Some p \<Longrightarrow> inside (rd c t)"
  by (cases "rd c t") auto

lemma owned_retire [simp]: "owned (retire m) = m"
  by (cases m) (simp_all add: retire_def)

lemma shields_retire [simp]: "shields (retire m) w \<longleftrightarrow> m \<noteq> None"
  by (cases m) (simp_all add: retire_def)

lemma retire_not [simp]: "retire m \<noteq> UpSync None False" "retire m \<noteq> UpWait n False"
  by (cases m; simp add: retire_def)+

text \<open>A reader's own step: the pointers of the others and what protects them stay.\<close>

lemma reader_ok_step:
  assumes "reader_ok g c" and "x \<noteq> RdFault" and "inside x \<Longrightarrow> t \<in> cs g'"
    and "\<And>p. holds_ptr x = Some p \<Longrightarrow> protected g' c t p"
    and "\<And>t'. t' \<noteq> t \<Longrightarrow> t' \<in> cs g \<Longrightarrow> t' \<in> cs g'"
    and "\<And>t' u. t' \<noteq> t \<Longrightarrow> t' \<in> waitfor g u \<longleftrightarrow> t' \<in> waitfor g' u"
  shows "reader_ok g' (c\<lparr>rd := (rd c)(t := x)\<rparr>)"
proof -
  have c: "protected g' (c\<lparr>rd := f\<rparr>) a p \<longleftrightarrow> protected g' c a p" for f a p
    by (simp add: protected_def)
  have "protected g' c a p" if "a \<noteq> t" "protected g c a p" for a p
    using that assms(6) [of a] by (simp add: protected_def)
  with assms(1-5) c show ?thesis by (simp add: reader_ok_def)
qed

lemma get_config_ok:
  assumes "get_config stp (s, g, c) (s', g', c')"
    and o: "owner_ok c" and r: "reader_ok g c" and v: "value_ok c"
  shows "owner_ok c' \<and> reader_ok g' c' \<and> value_ok c'"
  using assms(1)
proof (cases rule: get_config.cases)
  case (lock t x)
  have "reader_ok g' c'" unfolding lock by (rule reader_ok_step [OF r]) auto
  with lock o v show ?thesis by (auto simp: owner_ok_def value_ok_def)
next
  case (deref t)
  have "t \<in> cs g" using r deref(4) by (force simp: reader_ok_def)
  then have "reader_ok g' c'" unfolding deref
    by (intro reader_ok_step [OF r]) (auto simp: protected_def)
  with deref o v show ?thesis by (auto simp: owner_ok_def value_ok_def)
next
  case (none t)
  have "reader_ok g' c'" unfolding none by (rule reader_ok_step [OF r]) auto
  with none o v show ?thesis by (auto simp: owner_ok_def value_ok_def)
next
  case (copy_a t p)
  have p: "protected g c t p" "t \<in> cs g" using r copy_a(4) by (force simp: reader_ok_def)+
  from protected_heap [OF o p(1)] obtain x where x: "heap c p = Some x" by blast
  have "reader_ok g' c'" unfolding copy_a x
    by (rule reader_ok_step [OF r]) (use p in auto)
  with copy_a o v x show ?thesis by (auto simp: owner_ok_def value_ok_def)
next
  case (copy_b t p a)
  have p: "protected g c t p" "t \<in> cs g" using r copy_b(4) by (force simp: reader_ok_def)+
  from protected_heap [OF o p(1)] obtain x where x: "heap c p = Some x" by blast
  have "reader_ok g' c'" unfolding copy_b x
    by (rule reader_ok_step [OF r]) (use p in auto)
  moreover have "\<lparr>cfg_a = a, cfg_b = cfg_b x\<rparr> = x"
    using v copy_b(4) x by (auto simp: value_ok_def)
  then have "\<lparr>cfg_a = a, cfg_b = cfg_b x\<rparr> \<in> written c" using v x by (auto simp: value_ok_def)
  ultimately show ?thesis using copy_b o v x by (auto simp: owner_ok_def value_ok_def)
next
  case (unlock t a b)
  have "reader_ok g' c'" unfolding unlock by (rule reader_ok_step [OF r]) auto
  with unlock o v show ?thesis by (auto simp: owner_ok_def value_ok_def)
qed

text \<open>An updater's step: what it no longer shields is the current configuration or shielded
  by nothing but itself, and then no reader holds it.\<close>

lemma reader_ok_update:
  assumes r: "reader_ok g c" and "cs g' = cs g"
    and "rd c' = rd c"
    and "\<And>t p. holds_ptr (rd c t) = Some p \<Longrightarrow> t \<in> cs g \<Longrightarrow> protected g c t p \<Longrightarrow> protected g' c' t p"
  shows "reader_ok g' c'"
  using assms holds_inside by (fastforce simp: reader_ok_def)

lemma protected_cases:
  assumes "protected g c t p"
  obtains "curconfig c = Some p" | "owned (up c u) = Some p" "shields (up c u) (t \<in> waitfor g u)"
  | v where "v \<noteq> u" "owned (up c v) = Some p" "shields (up c v) (t \<in> waitfor g v)"
  using assms unfolding protected_def by metis

lemma protected_own: "owned (up c u) = Some p \<Longrightarrow> shields (up c u) (t \<in> waitfor g u) \<Longrightarrow> protected g c t p"
  by (auto simp: protected_def)

lemma protected_cur: "curconfig c = Some p \<Longrightarrow> protected g c t p"
  by (simp add: protected_def)

lemma set_config_ok:
  assumes "set_config (s, g, c) (s', g', c')"
    and o: "owner_ok c" and r: "reader_ok g c" and v: "value_ok c"
  shows "owner_ok c' \<and> reader_ok g' c' \<and> value_ok c'"
  using assms(1)
proof (cases rule: set_config.cases)
  case (alloc u p a b)
  have "reader_ok g' c'"
  proof (rule reader_ok_update [OF r])
    fix t q
    assume "protected g c t q"
    then show "protected g' c' t q"
      by (cases rule: protected_cases [where u = u])
        (use alloc in \<open>auto simp: protected_def split: if_splits\<close>)
  qed (simp_all add: alloc)
  moreover have "holds_ptr (rd c t) \<noteq> Some p" for t
    using reader_heap [OF o r, of t p] alloc(5) by auto
  then have "rd c t \<noteq> RdA p x" for t x by (metis holds_ptr.simps(2))
  then have "value_ok c'" using v alloc by (auto simp: value_ok_def)
  moreover have "owner_ok c'"
  proof -
    have "owned (up c w) \<noteq> Some p" for w using owner_okD(2) [OF o] alloc(5) by blast
    moreover have "curconfig c \<noteq> Some p" using owner_okD(1) [OF o] alloc(5) by blast
    ultimately show ?thesis using o alloc by (auto simp: owner_ok_def)
  qed
  ultimately show ?thesis by blast
next
  case (xchg u p)
  have c': "curconfig c' = Some p" "up c' = (up c)(u := retire (curconfig c))" by (simp_all add: xchg)
  have "reader_ok g' c'"
  proof (rule reader_ok_update [OF r])
    fix t q
    assume "protected g c t q"
    then show "protected g' c' t q"
    proof (cases rule: protected_cases [where u = u])
      case 1
      with c' show ?thesis by (intro protected_own [of _ u]) simp_all
    next
      case 2
      with xchg(4) show ?thesis by simp
    next
      case (3 w)
      with c' xchg(2) show ?thesis by (intro protected_own [of _ w]) simp_all
    qed
  qed (simp_all add: xchg)
  moreover have "value_ok c'" using v xchg by (auto simp: value_ok_def)
  moreover have "owner_ok c'"
  proof -
    have "owned (up c u) = Some p" using xchg(4) by simp
    with owner_okD [OF o] have "heap c p \<noteq> None" "curconfig c \<noteq> Some p"
      "\<And>w. owned (up c w) = Some p \<Longrightarrow> w = u" by blast+
    with o xchg show ?thesis by (auto simp: owner_ok_def)
  qed
  ultimately show ?thesis by blast
qed

lemma clear_config_ok:
  assumes "clear_config (s, g, c) (s', g', c')"
    and o: "owner_ok c" and r: "reader_ok g c" and v: "value_ok c"
  shows "owner_ok c' \<and> reader_ok g' c' \<and> value_ok c'"
  using assms(1)
proof (cases rule: clear_config.cases)
  case (xchg u)
  have c': "curconfig c' = None" "up c' = (up c)(u := UpSync (curconfig c) True)" by (simp_all add: xchg)
  have "reader_ok g' c'"
  proof (rule reader_ok_update [OF r])
    fix t q
    assume "protected g c t q"
    then show "protected g' c' t q"
    proof (cases rule: protected_cases [where u = u])
      case 1
      with c' show ?thesis by (intro protected_own [of _ u]) simp_all
    next
      case 2
      with xchg(4) show ?thesis by simp
    next
      case (3 w)
      with c' xchg(2) show ?thesis by (intro protected_own [of _ w]) simp_all
    qed
  qed (simp_all add: xchg)
  moreover have "value_ok c'" using v xchg by (auto simp: value_ok_def)
  moreover have "owner_ok c'" using o xchg by (auto simp: owner_ok_def)
  ultimately show ?thesis by blast
qed

lemma owner_ok_up:
  assumes o: "owner_ok c" and x: "owned x = owned (up c u) \<or> owned x = None"
    and n: "x \<noteq> UpSync None False" "x \<noteq> UpWait None False"
  shows "owner_ok (c\<lparr>up := (up c)(u := x)\<rparr>)"
proof -
  have w: "owned (up c w) = Some p" if "owned (((up c)(u := x)) w) = Some p" for w p
    using x that by (cases "w = u") auto
  show ?thesis unfolding owner_ok_def
  proof (intro conjI allI impI)
    fix v v' p
    show "curconfig (c\<lparr>up := (up c)(u := x)\<rparr>) = Some p \<Longrightarrow> heap (c\<lparr>up := (up c)(u := x)\<rparr>) p \<noteq> None"
      using owner_okD(1) [OF o] by simp
    assume "owned (up (c\<lparr>up := (up c)(u := x)\<rparr>) v) = Some p"
    then have v: "owned (up c v) = Some p" by (intro w) simp
    from owner_okD(2,3) [OF o v] show "heap (c\<lparr>up := (up c)(u := x)\<rparr>) p \<noteq> None"
      "curconfig (c\<lparr>up := (up c)(u := x)\<rparr>) \<noteq> Some p" by simp_all
    assume "owned (up (c\<lparr>up := (up c)(u := x)\<rparr>) v') = Some p"
    then have "owned (up c v') = Some p" by (intro w) simp
    then show "v = v'" using owner_okD(4) [OF o v] by blast
  qed (use owner_okD(5,6) [OF o] n in \<open>simp_all split: if_splits\<close>)
qed

lemma reclaim_ok:
  assumes "reclaim stp (s, g, c) (s', g', c')"
    and o: "owner_ok c" and r: "reader_ok g c" and v: "value_ok c"
    and grace: "\<And>u. stp s (Done u) s' \<Longrightarrow> waitfor g u = {}"
  shows "owner_ok c' \<and> reader_ok g' c' \<and> value_ok c'"
  using assms(1)
proof (cases rule: reclaim.cases)
  case (sync u m b)
  have "reader_ok g' c'"
  proof (rule reader_ok_update [OF r])
    fix t q
    assume t: "t \<in> cs g" and "protected g c t q"
    from this(2) show "protected g' c' t q"
    proof (cases rule: protected_cases [where u = u])
      case 1
      with sync show ?thesis by (intro protected_cur) simp
    next
      case 2
      with sync t show ?thesis by (intro protected_own [of _ u]) simp_all
    next
      case (3 w)
      with sync show ?thesis by (intro protected_own [of _ w]) simp_all
    qed
  qed (simp_all add: sync)
  moreover have "value_ok c'" using v sync by (auto simp: value_ok_def)
  moreover have "owner_ok c'" unfolding sync
    by (rule owner_ok_up [OF o]) (use owner_okD(5) [OF o, of u] sync in \<open>auto simp: sync(4)\<close>)
  ultimately show ?thesis by blast
next
  case (again u m)
  have "reader_ok g' c'"
  proof (rule reader_ok_update [OF r])
    fix t q
    assume "protected g c t q"
    then show "protected g' c' t q"
    proof (cases rule: protected_cases [where u = u])
      case 1
      with again show ?thesis by (intro protected_cur) simp
    next
      case 2
      with again show ?thesis by (intro protected_own [of _ u]) simp_all
    next
      case (3 w)
      with again show ?thesis by (intro protected_own [of _ w]) simp_all
    qed
  qed (simp_all add: again)
  moreover have "value_ok c'" using v again by (auto simp: value_ok_def)
  moreover have "owner_ok c'" unfolding again
    by (rule owner_ok_up [OF o]) (use again in simp_all)
  ultimately show ?thesis by blast
next
  case (waited u p)
  have w: "waitfor g u = {}" using grace [OF waited(4)] .
  have "reader_ok g' c'"
  proof (rule reader_ok_update [OF r])
    fix t q
    assume "protected g c t q"
    then show "protected g' c' t q"
    proof (cases rule: protected_cases [where u = u])
      case 1
      with waited show ?thesis by (intro protected_cur) simp
    next
      case 2
      with waited w show ?thesis by simp
    next
      case (3 v)
      with waited show ?thesis by (intro protected_own [of _ v]) simp_all
    qed
  qed (simp_all add: waited)
  moreover have "value_ok c'" using v waited by (auto simp: value_ok_def)
  moreover have "owner_ok c'" unfolding waited
    by (rule owner_ok_up [OF o]) (use waited in simp_all)
  ultimately show ?thesis by blast
next
  case (free u p)
  have "reader_ok g' c'"
  proof (rule reader_ok_update [OF r])
    fix t q
    assume "protected g c t q"
    then show "protected g' c' t q"
    proof (cases rule: protected_cases [where u = u])
      case 1
      with free show ?thesis by (intro protected_cur) simp
    next
      case 2
      with free show ?thesis by simp
    next
      case (3 v)
      with free show ?thesis by (intro protected_own [of _ v]) simp_all
    qed
  qed (simp_all add: free)
  moreover have "value_ok c'" using v free by (auto simp: value_ok_def)
  moreover have "owned (up c u) = Some p" using free by simp
  with owner_okD [OF o] have "curconfig c \<noteq> Some p" "\<And>w. owned (up c w) = Some p \<Longrightarrow> w = u"
    by blast+
  with o free have "owner_ok c'" by (auto simp: owner_ok_def)
  ultimately show ?thesis by blast
qed

context rcu_flavour
begin

definition client_inv :: "'s sys \<Rightarrow> bool" where
  "client_inv x \<longleftrightarrow> (case x of (s, g, c) \<Rightarrow>
     observed init stp s g \<and> owner_ok c \<and> reader_ok g c \<and> value_ok c)"

lemma client_observed:
  assumes "sys_step stp (s, g, c) (s', g', c')" and "observed init stp s g"
  shows "observed init stp s' g'"
  using assms
  by (auto elim!: sys_step.cases get_config.cases set_config.cases clear_config.cases reclaim.cases
      simp del: gp_eff.simps intro: observed.event)

lemma client_step_inv:
  assumes "sys_step stp x y" and "client_inv x"
  shows "client_inv y"
proof -
  obtain s g c s' g' c' where xy: "x = (s, g, c)" "y = (s', g', c')" by (cases x, cases y)
  from assms(2) xy have i: "observed init stp s g" "owner_ok c" "reader_ok g c" "value_ok c"
    by (simp_all add: client_inv_def)
  from assms(1) [unfolded xy] have "owner_ok c' \<and> reader_ok g' c' \<and> value_ok c'"
  proof (cases rule: sys_step.cases)
    case tau
    with i show ?thesis by simp
  next
    case get
    then show ?thesis using i(2-4) by (rule get_config_ok)
  next
    case set
    then show ?thesis using i(2-4) by (rule set_config_ok)
  next
    case clear
    then show ?thesis using i(2-4) by (rule clear_config_ok)
  next
    case reclaim
    then show ?thesis using i(2-4) grace [OF i(1)] by (rule reclaim_ok)
  qed
  with client_observed [OF assms(1) [unfolded xy] i(1)] xy show ?thesis by (simp add: client_inv_def)
qed

lemma client_reachable:
  "reachable (sys_init init) (sys_step stp) x \<Longrightarrow> client_inv x"
proof (erule reachable_invariant)
  show "client_inv x" if "sys_init init x" for x
    using that by (auto simp: sys_init_def client_inv_def client_init_def owner_ok_def reader_ok_def
        value_ok_def intro: observed.start)
qed (rule client_step_inv)

lemma no_use_after_free:
  assumes "reachable (sys_init init) (sys_step stp) (s, g, c)"
  shows "rd c t \<noteq> RdFault"
    and "rd c t = RdRet (Some (a, b)) \<Longrightarrow> \<lparr>cfg_a = a, cfg_b = b\<rparr> \<in> written c"
    and "curconfig c = Some p \<Longrightarrow> heap c p \<noteq> None"
  using client_reachable [OF assms]
  by (auto simp: client_inv_def reader_ok_def value_ok_def owner_ok_def)

end

text \<open>C16: with the RCU of rcu.c, \<open>get_config\<close> never touches a configuration after it has been
  freed, and the two fields that it returns belong to one configuration that was stored,
  however readers, \<open>set_config\<close> and \<open>clear_config\<close> interleave.\<close>

theorem singleton_consistent:
  assumes "reachable (sys_init rcu_init) (sys_step rcu_step) (s, g, c)"
  shows "rd c t \<noteq> RdFault \<and>
    (\<forall>a b. rd c t = RdRet (Some (a, b)) \<longrightarrow> \<lparr>cfg_a = a, cfg_b = b\<rparr> \<in> written c)"
  using rcu.no_use_after_free [OF assms] by blast

theorem singleton_consistent_witness:
  "\<exists>s g c. reachable (sys_init rcu_init) (sys_step rcu_step) (s, g, c) \<and> heap c 5 \<noteq> None \<and>
     rd c 3 \<noteq> RdFault"
proof -
  let ?c = "client_init\<lparr>heap := (heap client_init)(5 := Some \<lparr>cfg_a = 4, cfg_b = 16\<rparr>),
      written := insert \<lparr>cfg_a = 4, cfg_b = 16\<rparr> (written client_init), up := (up client_init)(1 := UpInit 5)\<rparr>"
  let ?s = "solo 0 0 None SIdle"
  have "sys_init rcu_init (?s, gp_init, client_init)"
    by (simp add: sys_init_def rcu_init_def solo_def fun_upd_idem)
  then have "reachable (sys_init rcu_init) (sys_step rcu_step) (?s, gp_init, client_init)"
    by (rule reachable.start)
  moreover have "sys_step rcu_step (?s, gp_init, client_init) (?s, gp_init, ?c)"
    by (intro sys_step.set set_config.alloc) (simp_all add: client_init_def)
  ultimately have r: "reachable (sys_init rcu_init) (sys_step rcu_step) (?s, gp_init, ?c)"
    by (rule reachable.next_state)
  have "rd ?c 3 \<noteq> RdFault" using singleton_consistent [OF r, of 3] by blast
  moreover have "heap ?c 5 \<noteq> None" by simp
  ultimately show ?thesis using r by blast
qed

end
