(* ===== verification/Hazptr.thy ===== *)
theory Hazptr
  imports Prelude
begin

text \<open>
  defer/hazptr.h, defer/hazptr.c and their client defer/route_hazptr.c: readers of a routing list
  announce the entry they use in a hazard pointer, and a removed entry is freed by a scan that
  does not find it in any hazard pointer.

  The model has one transition per access of the list or of a hazard pointer by a reader and per
  hazard pointer read or entry freed by a scan. The lock protects the list from other updaters,
  so the traversal of \<open>route_del\<close> is one transition with its write, and poisoning an entry is one
  with the bookkeeping of \<open>hazptr_free_later\<close>, which is private to the thread. An address stands
  for one allocation: \<open>malloc\<close> returns a new one, and a freed entry is never accessible again. The
  numeric address of each allocation is a parameter \<open>addr\<close>, which the sorting and searching of
  \<open>hazptr_scan\<close> depends on.
\<close>

definition K :: nat where "K = 2"
definition H :: nat where "H = K * NR_THREADS"
definition R :: nat where "R = 100 + 2 * H"

text \<open>The comparison for \<open>qsort\<close> and \<open>bsearch\<close>: a difference of pointers to structures of 8 bytes,
  converted to \<open>int\<close>.\<close>

definition compare :: "ulong \<Rightarrow> ulong \<Rightarrow> 32 word" where
  "compare a b = word_of_int (sint (a - b) div 8)"

text \<open>What a \<open>struct route_entry *\<close> or a hazard pointer holds.\<close>

datatype ptr = NULL | HAZPTR_POISON | Entry nat

text \<open>\<open>addr\<close> gives the address at which an entry was allocated, a parameter of what follows.\<close>

fun ptr_addr :: "(nat \<Rightarrow> ulong) \<Rightarrow> ptr \<Rightarrow> ulong" where
  "ptr_addr addr NULL = 0"
| "ptr_addr addr HAZPTR_POISON = 8"
| "ptr_addr addr (Entry e) = addr e"

text \<open>The C standard says what \<open>qsort\<close> followed by \<open>bsearch\<close> finds only if the comparison orders the
  array and the key consistently. Otherwise the search may come to either result.\<close>

definition consistent :: "ulong list \<Rightarrow> bool" where
  "consistent as \<longleftrightarrow> (\<forall>a\<in>set as. \<forall>b\<in>set as. sint (compare a b) < 0 \<longleftrightarrow> 0 < sint (compare b a)) \<and>
     (\<forall>a\<in>set as. \<forall>b\<in>set as. \<forall>c\<in>set as.
        sint (compare a b) \<le> 0 \<longrightarrow> sint (compare b c) \<le> 0 \<longrightarrow> sint (compare a c) \<le> 0)"

definition qsort_bsearch :: "(nat \<Rightarrow> ulong) \<Rightarrow> ptr list \<Rightarrow> nat \<Rightarrow> bool \<Rightarrow> bool" where
  "qsort_bsearch addr plist cur found \<longleftrightarrow>
     (consistent (map (ptr_addr addr) (Entry cur # plist)) \<longrightarrow>
       found = (\<exists>p\<in>set plist. compare (addr cur) (ptr_addr addr p) = 0))"

text \<open>With 12 GiB between three entries the comparison is cyclic, and the search may miss an entry
  that is there.\<close>

lemma compare_cyclic:
  "sint (compare 0x1000 0x300001000) < 0 \<and> sint (compare 0x300001000 0x600001000) < 0 \<and>
   sint (compare 0x600001000 0x1000) < 0"
  by (simp add: compare_def)

lemma consistentD:
  assumes "consistent as" and "a \<in> set as" "b \<in> set as" "c \<in> set as"
  shows "sint (compare a b) < 0 \<longleftrightarrow> 0 < sint (compare b a)"
    and "sint (compare a b) \<le> 0 \<Longrightarrow> sint (compare b c) \<le> 0 \<Longrightarrow> sint (compare a c) \<le> 0"
  using assms unfolding consistent_def by blast+

lemma qsort_bsearch_misses:
  "qsort_bsearch (\<lambda>e. 0x1000 + 0x300000000 * of_nat e) [Entry 0, Entry 1, Entry 2] 0 False"
proof -
  let ?as = "map (ptr_addr (\<lambda>e. 0x1000 + 0x300000000 * of_nat e)) [Entry 0, Entry 0, Entry 1, Entry 2]"
  have as: "?as = [0x1000, 0x1000, 0x300001000, 0x600001000]" by simp
  have "\<not> consistent ?as"
  proof
    assume c: "consistent ?as"
    have m: "0x1000 \<in> set ?as" "0x300001000 \<in> set ?as" "0x600001000 \<in> set ?as" unfolding as by simp_all
    from compare_cyclic consistentD(2) [OF c m] consistentD(1) [OF c m(3,1,1)] show False by linarith
  qed
  then show ?thesis by (simp only: qsort_bsearch_def) blast
qed

text \<open>Where \<open>malloc\<close> returns multiples of 8 from a range of 16 GiB the comparison is an order.\<close>

definition heap_near :: "(nat \<Rightarrow> ulong) \<Rightarrow> bool" where
  "heap_near addr \<longleftrightarrow> (\<exists>base. \<forall>e. \<exists>k<2 ^ 31. addr e = base + 8 * of_nat k)"

text \<open>Where \<open>repp\<close> points: at \<open>route_list.re_next\<close> or at \<open>re_next\<close> of an entry.\<close>

datatype link = Header | Next nat

datatype mem = Unused | Allocated | Freed

datatype cont = Return | Clear ptr | Exit_Loop

datatype hz_pc = Idle
  | Try ulong link               \<comment> \<open>\<open>route_lookup\<close>, before \<open>hp_try_record\<close>\<close>
  | Record ulong link nat        \<comment> \<open>\<open>*p\<close> has been read\<close>
  | Reread ulong link nat        \<comment> \<open>the hazard pointer has been written\<close>
  | Check ulong nat              \<comment> \<open>\<open>hp_try_record\<close> has returned an entry\<close>
  | Found ulong nat              \<comment> \<open>its address is the one looked for\<close>
  | Crash                        \<comment> \<open>freed memory has been accessed\<close>
  | Poisoning nat                \<comment> \<open>\<open>route_del\<close> has unlinked an entry\<close>
  | Clearing ptr                 \<comment> \<open>\<open>route_clear\<close>, loop at \<open>rep\<close>\<close>
  | Scan nat "ptr list" cont       \<comment> \<open>\<open>hazptr_scan\<close>, stage 1 at index \<open>i\<close> with \<open>plist\<close>\<close>
  | Sift "nat list" "ptr list" cont   \<comment> \<open>stage 3 with \<open>tmplist\<close>\<close>
  | Exit                         \<comment> \<open>\<open>hazptr_thread_exit\<close>, loop\<close>

record hz_state =
  route_list :: ptr
  re_next :: "nat \<Rightarrow> ptr"
  re_addr :: "nat \<Rightarrow> ulong"
  re_iface :: "nat \<Rightarrow> ulong"
  mem :: "nat \<Rightarrow> mem"
  HP :: "nat \<Rightarrow> ptr"
  routelock :: "nat option"
  rlist :: "nat \<Rightarrow> nat list"
  rcount :: "nat \<Rightarrow> nat"
  hpc :: "nat \<Rightarrow> hz_pc"

fun deref :: "hz_state \<Rightarrow> link \<Rightarrow> ptr" where
  "deref s Header = route_list s"
| "deref s (Next e) = re_next s e"

fun set_link :: "link \<Rightarrow> ptr \<Rightarrow> hz_state \<Rightarrow> hz_state" where
  "set_link Header p s = s\<lparr>route_list := p\<rparr>"
| "set_link (Next e) p s = s\<lparr>re_next := (re_next s)(e := p)\<rparr>"

text \<open>The entry that the next access of a reader touches.\<close>

fun touches :: "hz_pc \<Rightarrow> nat option" where
  "touches (Try a (Next e)) = Some e"
| "touches (Reread a (Next e) e') = Some e"
| "touches (Check a e) = Some e"
| "touches (Found a e) = Some e"
| "touches _ = None"

definition touch_ok :: "hz_state \<Rightarrow> nat \<Rightarrow> bool" where
  "touch_ok s t \<longleftrightarrow> (case touches (hpc s t) of None \<Rightarrow> True | Some e \<Rightarrow> mem s e = Allocated)"

text \<open>\<open>my_hazptr\<close> of thread \<open>t\<close> is \<open>HP[K * t]\<close>, and \<open>route_lookup\<close> only uses offset 0. A step labelled
  \<open>Some (a, v)\<close> returns \<open>v\<close> for address \<open>a\<close>; \<open>- 1\<close> is \<open>ULONG_MAX\<close>.\<close>

inductive hp_try_record :: "nat \<Rightarrow> hz_state \<Rightarrow> hz_state \<Rightarrow> bool" for t s where
  poisoned: "hpc s t = Try a p \<Longrightarrow> deref s p = HAZPTR_POISON \<Longrightarrow> hp_try_record t s
     (s\<lparr>hpc := (hpc s)(t := Try a Header)\<rparr>)"
| first: "hpc s t = Try a p \<Longrightarrow> deref s p = Entry e \<Longrightarrow> hp_try_record t s
     (s\<lparr>hpc := (hpc s)(t := Record a p e)\<rparr>)"
| store: "hpc s t = Record a p e \<Longrightarrow> hp_try_record t s
     (s\<lparr>HP := (HP s)(K * t := Entry e), hpc := (hpc s)(t := Reread a p e)\<rparr>)"
| same: "hpc s t = Reread a p e \<Longrightarrow> deref s p = Entry e \<Longrightarrow> hp_try_record t s
     (s\<lparr>hpc := (hpc s)(t := Check a e)\<rparr>)"
| changed: "hpc s t = Reread a p e \<Longrightarrow> deref s p \<noteq> Entry e \<Longrightarrow> hp_try_record t s
     (s\<lparr>hpc := (hpc s)(t := Try a Header)\<rparr>)"

inductive route_lookup :: "nat \<Rightarrow> hz_state \<Rightarrow> (ulong \<times> ulong) option \<Rightarrow> hz_state \<Rightarrow> bool" for t s where
  call: "hpc s t = Idle \<Longrightarrow> route_lookup t s None (s\<lparr>hpc := (hpc s)(t := Try a Header)\<rparr>)"
| try_record: "touch_ok s t \<Longrightarrow> hp_try_record t s s' \<Longrightarrow> route_lookup t s None s'"
| missing: "hpc s t = Try a p \<Longrightarrow> touch_ok s t \<Longrightarrow> deref s p = NULL \<Longrightarrow>
     route_lookup t s (Some (a, - 1)) (s\<lparr>hpc := (hpc s)(t := Idle)\<rparr>)"
| other: "hpc s t = Check a e \<Longrightarrow> touch_ok s t \<Longrightarrow> re_addr s e \<noteq> a \<Longrightarrow>
     route_lookup t s None (s\<lparr>hpc := (hpc s)(t := Try a (Next e))\<rparr>)"
| found: "hpc s t = Check a e \<Longrightarrow> touch_ok s t \<Longrightarrow> re_addr s e = a \<Longrightarrow>
     route_lookup t s None (s\<lparr>hpc := (hpc s)(t := Found a e)\<rparr>)"
| done_found: "hpc s t = Found a e \<Longrightarrow> touch_ok s t \<Longrightarrow>
     route_lookup t s (Some (a, re_iface s e)) (s\<lparr>hpc := (hpc s)(t := Idle)\<rparr>)"
| freed: "\<not> touch_ok s t \<Longrightarrow> route_lookup t s None (s\<lparr>hpc := (hpc s)(t := Crash)\<rparr>)"

text \<open>\<open>hazptr_free_later\<close> on entry \<open>e\<close>: the bookkeeping, and what the thread does next.\<close>

definition hazptr_free_later :: "nat \<Rightarrow> nat \<Rightarrow> cont \<Rightarrow> hz_pc \<Rightarrow> hz_state \<Rightarrow> hz_state" where
  "hazptr_free_later t e k next s =
     s\<lparr>rlist := (rlist s)(t := e # rlist s t), rcount := (rcount s)(t := rcount s t + 1),
       hpc := (hpc s)(t := if rcount s t + 1 \<ge> R then Scan 0 [] k else next)\<rparr>"

fun resume :: "cont \<Rightarrow> hz_pc" where
  "resume Return = Idle"
| "resume (Clear p) = Clearing p"
| "resume Exit_Loop = Exit"

inductive hazptr_scan :: "(nat \<Rightarrow> ulong) \<Rightarrow> nat \<Rightarrow> hz_state \<Rightarrow> hz_state \<Rightarrow> bool" for addr t s where
  collect: "hpc s t = Scan i plist k \<Longrightarrow> i < H \<Longrightarrow> hazptr_scan addr t s
     (s\<lparr>hpc := (hpc s)(t := Scan (Suc i) (if HP s i = NULL then plist else plist @ [HP s i]) k)\<rparr>)"
| take_list: "hpc s t = Scan H plist k \<Longrightarrow> hazptr_scan addr t s
     (s\<lparr>rlist := (rlist s)(t := []), rcount := (rcount s)(t := 0),
        hpc := (hpc s)(t := Sift (rlist s t) plist k)\<rparr>)"
| keep: "hpc s t = Sift (cur # tmplist) plist k \<Longrightarrow> qsort_bsearch addr plist cur True \<Longrightarrow> hazptr_scan addr t s
     (s\<lparr>rlist := (rlist s)(t := cur # rlist s t), rcount := (rcount s)(t := rcount s t + 1),
        hpc := (hpc s)(t := Sift tmplist plist k)\<rparr>)"
| hazptr_free: "hpc s t = Sift (cur # tmplist) plist k \<Longrightarrow> qsort_bsearch addr plist cur False \<Longrightarrow> hazptr_scan addr t s
     (s\<lparr>mem := (mem s)(cur := Freed), hpc := (hpc s)(t := Sift tmplist plist k)\<rparr>)"
| scanned: "hpc s t = Sift [] plist k \<Longrightarrow> hazptr_scan addr t s (s\<lparr>hpc := (hpc s)(t := resume k)\<rparr>)"

inductive hazptr_thread_exit :: "nat \<Rightarrow> hz_state \<Rightarrow> hz_state \<Rightarrow> bool" for t s where
  clear: "hpc s t = Idle \<Longrightarrow> hazptr_thread_exit t s
     (s\<lparr>HP := (\<lambda>i. if K * t \<le> i \<and> i < K * t + K then NULL else HP s i), hpc := (hpc s)(t := Exit)\<rparr>)"
| scan: "hpc s t = Exit \<Longrightarrow> rcount s t > 0 \<Longrightarrow> hazptr_thread_exit t s
     (s\<lparr>hpc := (hpc s)(t := Scan 0 [] Exit_Loop)\<rparr>)"
| exited: "hpc s t = Exit \<Longrightarrow> rcount s t = 0 \<Longrightarrow> hazptr_thread_exit t s
     (s\<lparr>hpc := (hpc s)(t := Idle)\<rparr>)"

text \<open>The loop of \<open>route_del\<close>: the link and the entry at which it stops.\<close>

inductive del_walk :: "hz_state \<Rightarrow> ulong \<Rightarrow> link \<Rightarrow> link \<Rightarrow> nat \<Rightarrow> bool" for s addr where
  here: "deref s p = Entry e \<Longrightarrow> re_addr s e = addr \<Longrightarrow> del_walk s addr p p e"
| further: "deref s p = Entry x \<Longrightarrow> re_addr s x \<noteq> addr \<Longrightarrow> del_walk s addr (Next x) q e \<Longrightarrow>
     del_walk s addr p q e"

inductive route_update :: "nat \<Rightarrow> hz_state \<Rightarrow> hz_state \<Rightarrow> bool" for t s where
  route_add: "hpc s t = Idle \<Longrightarrow> routelock s = None \<Longrightarrow> mem s e = Unused \<Longrightarrow> route_update t s
     (s\<lparr>mem := (mem s)(e := Allocated), re_addr := (re_addr s)(e := addr),
        re_iface := (re_iface s)(e := interface), re_next := (re_next s)(e := route_list s),
        route_list := Entry e\<rparr>)"
| route_del: "hpc s t = Idle \<Longrightarrow> routelock s = None \<Longrightarrow> del_walk s addr Header q e \<Longrightarrow> route_update t s
     ((set_link q (re_next s e) s)\<lparr>routelock := Some t, hpc := (hpc s)(t := Poisoning e)\<rparr>)"
| poison: "hpc s t = Poisoning e \<Longrightarrow> route_update t s
     (hazptr_free_later t e Return Idle
       (s\<lparr>re_next := (re_next s)(e := HAZPTR_POISON), routelock := None\<rparr>))"
| route_clear: "hpc s t = Idle \<Longrightarrow> routelock s = None \<Longrightarrow> route_update t s
     (s\<lparr>route_list := NULL, routelock := Some t, hpc := (hpc s)(t := Clearing (route_list s))\<rparr>)"
| clear_one: "hpc s t = Clearing (Entry e) \<Longrightarrow> route_update t s
     (hazptr_free_later t e (Clear (re_next s e)) (Clearing (re_next s e))
       (s\<lparr>re_next := (re_next s)(e := HAZPTR_POISON)\<rparr>))"
| cleared: "hpc s t = Clearing NULL \<Longrightarrow> route_update t s
     (s\<lparr>routelock := None, hpc := (hpc s)(t := Idle)\<rparr>)"

inductive hz_step :: "(nat \<Rightarrow> ulong) \<Rightarrow> hz_state \<Rightarrow> (ulong \<times> ulong) option \<Rightarrow> hz_state \<Rightarrow> bool" for addr where
  lookup: "t < NR_THREADS \<Longrightarrow> route_lookup t s r s' \<Longrightarrow> hz_step addr s r s'"
| update: "t < NR_THREADS \<Longrightarrow> route_update t s s' \<Longrightarrow> hz_step addr s None s'"
| scan: "t < NR_THREADS \<Longrightarrow> hazptr_scan addr t s s' \<Longrightarrow> hz_step addr s None s'"
| exit: "t < NR_THREADS \<Longrightarrow> hazptr_thread_exit t s s' \<Longrightarrow> hz_step addr s None s'"

definition hazptr_init :: hz_state where
  "hazptr_init = \<lparr>route_list = NULL, re_next = (\<lambda>_. NULL), re_addr = (\<lambda>_. 0), re_iface = (\<lambda>_. 0),
     mem = (\<lambda>_. Unused), HP = (\<lambda>_. NULL), routelock = None, rlist = (\<lambda>_. []), rcount = (\<lambda>_. 0),
     hpc = (\<lambda>_. Idle)\<rparr>"

abbreviation hz_reachable :: "(nat \<Rightarrow> ulong) \<Rightarrow> hz_state \<Rightarrow> bool" where
  "hz_reachable addr \<equiv> reachable (\<lambda>s. s = hazptr_init) (\<lambda>s s'. \<exists>r. hz_step addr s r s')"

section \<open>Entries in a near heap\<close>

lemma compare_near:
  assumes "j < 2 ^ 31" and "k < 2 ^ 31"
  shows "sint (compare (base + 8 * of_nat j) (base + 8 * of_nat k)) = int j - int k"
proof -
  define d where "d = int j - int k"
  have b: "- (2 ^ 31) \<le> d" "d < 2 ^ 31" using assms by (simp_all add: d_def)
  have w: "base + 8 * of_nat j - (base + 8 * of_nat k) = (word_of_int (8 * d) :: ulong)"
    by (simp add: d_def algebra_simps)
  have "sint (word_of_int (8 * d) :: ulong) = 8 * d"
    unfolding sint_sbintrunc' by (rule signed_take_bit_int_eq_self) (use b in simp_all)
  moreover have "sint (word_of_int d :: 32 word) = d"
    unfolding sint_sbintrunc' by (rule signed_take_bit_int_eq_self) (use b in simp_all)
  ultimately show ?thesis unfolding compare_def w by (simp add: d_def)
qed

lemma consistentI:
  fixes f :: "ulong \<Rightarrow> int"
  assumes c: "\<And>a b. a \<in> set as \<Longrightarrow> b \<in> set as \<Longrightarrow> sint (compare a b) = f a - f b"
  shows "consistent as"
  unfolding consistent_def
proof (intro conjI ballI impI)
  fix a b assume ab: "a \<in> set as" "b \<in> set as"
  show "sint (compare a b) < 0 \<longleftrightarrow> 0 < sint (compare b a)" using c [OF ab] c [OF ab(2,1)] by linarith
  fix d assume d: "d \<in> set as" "sint (compare a b) \<le> 0" "sint (compare b d) \<le> 0"
  then show "sint (compare a d) \<le> 0" using c [OF ab] c [OF ab(2) d(1)] c [OF ab(1) d(1)] by linarith
qed

lemma near_search:
  assumes near: "heap_near addr" and pl: "set plist \<subseteq> range Entry" and q: "qsort_bsearch addr plist cur False"
  shows "Entry cur \<notin> set plist"
proof
  assume c: "Entry cur \<in> set plist"
  from near obtain base where "\<forall>e. \<exists>k<2 ^ 31. addr e = base + 8 * of_nat k" by (auto simp: heap_near_def)
  then obtain k where k: "\<And>e. k e < (2 :: nat) ^ 31" "\<And>e. addr e = base + 8 * of_nat (k e)" by metis
  have cmp: "sint (compare (addr e) (addr e')) = int (k e) - int (k e')" for e e'
    using compare_near [OF k(1) k(1), of base e e'] k(2) by simp
  let ?as = "map (ptr_addr addr) (Entry cur # plist)"
  have "\<exists>e. a = addr e" if "a \<in> set ?as" for a
    using that pl by (fastforce simp: subset_iff)
  then obtain g where g: "\<And>a. a \<in> set ?as \<Longrightarrow> addr (g a) = a" by metis
  have "consistent ?as"
    by (rule consistentI [where f = "\<lambda>a. int (k (g a))"], subst (1 2) g [symmetric], assumption+, rule cmp)
  with q c have "compare (addr cur) (addr cur) \<noteq> 0" by (auto simp: qsort_bsearch_def)
  then show False by (simp add: compare_def)
qed

text \<open>A hazard pointer never holds \<open>HAZPTR_POISON\<close>, so \<open>plist\<close> is a list of entries.\<close>

fun collected :: "hz_pc \<Rightarrow> ptr list" where
  "collected (Scan i plist k) = plist"
| "collected (Sift tmplist plist k) = plist"
| "collected p = []"

definition entries_only :: "hz_state \<Rightarrow> bool" where
  "entries_only s \<longleftrightarrow> (\<forall>i. HP s i \<noteq> HAZPTR_POISON) \<and> (\<forall>t. set (collected (hpc s t)) \<subseteq> range Entry)"

lemma entries_move:
  assumes "entries_only s" and "hpc s' = (hpc s)(t := q)" and "HP s' = HP s" and "set (collected q) \<subseteq> range Entry"
  shows "entries_only s'"
  using assms by (simp add: entries_only_def)

lemma collected_resume: "collected (resume k) = []"
  by (cases k) auto

lemma entries_scan: "hazptr_scan addr t s s' \<Longrightarrow> entries_only s \<Longrightarrow> entries_only s'"
proof (induction rule: hazptr_scan.induct)
  case (collect i plist k)
  have "HP s i = NULL \<or> HP s i \<in> range Entry" using collect.prems by (cases "HP s i") (auto simp: entries_only_def)
  moreover have "set plist \<subseteq> range Entry"
    using collect by (metis collected.simps(1) entries_only_def)
  ultimately show ?case using collect.prems by (auto simp: entries_only_def)
next
  case (keep cur tmplist plist k)
  then show ?case by (auto simp: entries_only_def) (metis collected.simps(2) image_iff subset_iff)
next
  case (hazptr_free cur tmplist plist k)
  then show ?case by (auto simp: entries_only_def) (metis collected.simps(2) image_iff subset_iff)
next
  case (take_list plist k)
  then show ?case by (auto simp: entries_only_def) (metis collected.simps(1) image_iff subset_iff)
qed (auto simp: entries_only_def collected_resume)

lemma entries_try: "hp_try_record t s s' \<Longrightarrow> entries_only s \<Longrightarrow> entries_only s'"
  by (induction rule: hp_try_record.induct) (auto simp: entries_only_def)

lemma set_link_frame [simp]: "HP (set_link p v s) = HP s" "hpc (set_link p v s) = hpc s"
  by (cases p; simp)+

lemma entries_step: "hz_step addr s r s' \<Longrightarrow> entries_only s \<Longrightarrow> entries_only s'"
proof (induction rule: hz_step.induct)
  case (lookup t s r s')
  from lookup(2,1,3) show ?case
    by (induction rule: route_lookup.induct) (auto simp: entries_try, auto simp: entries_only_def)
next
  case (update t s s')
  from update(2,1,3) show ?case
    by (induction rule: route_update.induct) (auto simp: entries_only_def hazptr_free_later_def)
next
  case (scan t s s')
  with entries_scan show ?case by blast
next
  case (exit t s s')
  from exit(2,1,3) show ?case
    by (induction rule: hazptr_thread_exit.induct) (auto simp: entries_only_def)
qed

lemma entries_only_init: "entries_only hazptr_init"
  by (simp add: entries_only_def hazptr_init_def)

lemma entries_reachable: "hz_reachable addr s \<Longrightarrow> entries_only s"
  by (erule reachable_invariant) (use entries_step in \<open>auto simp: entries_only_init\<close>)

end
