(* ===== verification/Hazptr_Inv.thy ===== *)
theory Hazptr_Inv
  imports Hazptr
begin

text \<open>
  The invariant of hazard pointers: the entries in use are those on the list, those a lock holder
  is removing, and those retired by a thread and waiting for its scan; a reader's announced entry is
  in use, and every scan that could free it has yet to read the hazard pointer or has found it.
\<close>

section \<open>The list\<close>

fun chain :: "(nat \<Rightarrow> ptr) \<Rightarrow> ptr \<Rightarrow> nat list \<Rightarrow> bool" where
  "chain n p [] \<longleftrightarrow> p = NULL"
| "chain n p (x # xs) \<longleftrightarrow> p = Entry x \<and> chain n (n x) xs"

lemma hchain_upd: "x \<notin> set xs \<Longrightarrow> chain (n(x := v)) p xs = chain n p xs"
  by (induction xs arbitrary: p) auto

lemma hchain_next: "chain n p xs \<Longrightarrow> x \<in> set xs \<Longrightarrow> n x = Entry y \<Longrightarrow> y \<in> set xs"
  by (induction xs arbitrary: p) (auto split: if_splits elim: chain.elims)

lemma chain_head: "chain n p xs \<Longrightarrow> p = Entry y \<Longrightarrow> y \<in> set xs"
  by (cases xs) auto

lemma chain_not_poison: "chain n p xs \<Longrightarrow> p \<noteq> HAZPTR_POISON"
  by (cases xs) auto

lemma chain_suffix: "chain n p (ys @ e # zs) \<Longrightarrow> chain n (n e) zs"
  by (induction ys arbitrary: p) auto

lemma chain_unlink:
  assumes "chain n p (ys @ e # zs)" and "distinct (ys @ e # zs)"
  shows "chain (if ys = [] then n else n(last ys := n e)) (if ys = [] then n e else p) (ys @ zs)"
  using assms
proof (induction ys arbitrary: p)
  case (Cons y ys)
  show ?case
  proof (cases "ys = []")
    case True
    with Cons.prems hchain_upd [of y zs n "n e" "n e"] show ?thesis
      by (simp add: fun_upd_def)
  next
    case False
    then have "last ys \<noteq> y" using Cons.prems(2) by (metis distinct.simps(2) last_in_set append_Cons in_set_conv_decomp_last Un_iff set_append)
    with False Cons show ?thesis by auto
  qed
qed simp

lemma del_walk_split:
  assumes "del_walk s addr p q e" and "chain (re_next s) (deref s p) xs"
  shows "\<exists>ys zs. xs = ys @ e # zs \<and> q = (if ys = [] then p else Next (last ys))"
  using assms
proof (induction arbitrary: xs)
  case (here p e)
  then obtain zs where "xs = e # zs" by (cases xs) auto
  then show ?case by (intro exI [of _ "[]"] exI [of _ zs]) simp
next
  case (further p x q e)
  then obtain xs' where "xs = x # xs'" "chain (re_next s) (deref s (Next x)) xs'" by (cases xs) auto
  with further.IH obtain ys zs where "xs' = ys @ e # zs" "q = (if ys = [] then Next x else Next (last ys))"
    by blast
  with \<open>xs = x # xs'\<close> show ?case by (intro exI [of _ "x # ys"] exI [of _ zs]) auto
qed

section \<open>The invariant\<close>

fun sifted :: "hz_pc \<Rightarrow> nat list" where
  "sifted (Sift tmplist plist k) = tmplist"
| "sifted p = []"

definition retired :: "hz_state \<Rightarrow> nat \<Rightarrow> nat list" where
  "retired s u = rlist s u @ sifted (hpc s u)"

fun clears :: "cont \<Rightarrow> bool" where
  "clears (Clear p) = True" | "clears k = False"

fun holds :: "hz_pc \<Rightarrow> bool" where
  "holds (Poisoning e) = True" | "holds (Clearing p) = True"
| "holds (Scan i plist k) = clears k" | "holds (Sift tmplist plist k) = clears k" | "holds p = False"

text \<open>What the lock holder is removing: the entries \<open>ts\<close>.\<close>

fun rest :: "cont \<Rightarrow> ptr" where
  "rest (Clear p) = p" | "rest k = NULL"

fun transit :: "(nat \<Rightarrow> ptr) \<Rightarrow> nat list \<Rightarrow> hz_pc \<Rightarrow> nat list \<Rightarrow> bool" where
  "transit n xs (Poisoning e) ts \<longleftrightarrow> ts = [e] \<and> (\<forall>y. n e = Entry y \<longrightarrow> y \<in> set xs)"
| "transit n xs (Clearing p) ts \<longleftrightarrow> chain n p ts"
| "transit n xs (Scan i plist k) ts \<longleftrightarrow> chain n (rest k) ts"
| "transit n xs (Sift tmplist plist k) ts \<longleftrightarrow> chain n (rest k) ts"
| "transit n xs p ts \<longleftrightarrow> ts = []"

text \<open>The thread \<open>u\<close> does not free \<open>e\<close> while hazard pointer \<open>j\<close> holds it.\<close>

fun guard :: "hz_pc \<Rightarrow> nat list \<Rightarrow> nat \<Rightarrow> nat \<Rightarrow> bool" where
  "guard (Scan i plist k) rl j e \<longleftrightarrow> (e \<in> set rl \<longrightarrow> i \<le> j \<or> Entry e \<in> set plist)"
| "guard (Sift tmplist plist k) rl j e \<longleftrightarrow> (e \<in> set tmplist \<longrightarrow> Entry e \<in> set plist)"
| "guard p rl j e \<longleftrightarrow> True"

definition safe :: "hz_state \<Rightarrow> nat \<Rightarrow> nat \<Rightarrow> bool" where
  "safe s j e \<longleftrightarrow> HP s j = Entry e \<and> mem s e = Allocated \<and> (\<forall>u. guard (hpc s u) (rlist s u) j e)"

text \<open>The entry a reader relies on.\<close>

fun shield :: "hz_pc \<Rightarrow> nat option" where
  "shield (Try a (Next e)) = Some e" | "shield (Record a (Next e) e') = Some e"
| "shield (Check a e) = Some e" | "shield (Found a e) = Some e" | "shield p = None"

fun stored :: "hz_pc \<Rightarrow> nat option" where
  "stored (Reread a p e) = Some e" | "stored p = None"

fun found_ok :: "hz_state \<Rightarrow> hz_pc \<Rightarrow> bool" where
  "found_ok s (Found a e) \<longleftrightarrow> re_addr s e = a" | "found_ok s p \<longleftrightarrow> True"

definition reader_ok :: "hz_state \<Rightarrow> nat \<Rightarrow> bool" where
  "reader_ok s t \<longleftrightarrow> (\<forall>e. shield (hpc s t) = Some e \<longrightarrow> safe s (K * t) e) \<and>
     (\<forall>e. stored (hpc s t) = Some e \<longrightarrow> HP s (K * t) = Entry e) \<and> found_ok s (hpc s t)"

definition lists_ok :: "hz_state \<Rightarrow> nat list \<Rightarrow> nat list \<Rightarrow> bool" where
  "lists_ok s xs ts \<longleftrightarrow> chain (re_next s) (route_list s) xs \<and> distinct (xs @ ts) \<and>
     (case routelock s of None \<Rightarrow> ts = [] | Some u \<Rightarrow> transit (re_next s) xs (hpc s u) ts) \<and>
     (\<forall>u. holds (hpc s u) \<longleftrightarrow> routelock s = Some u) \<and> (\<forall>x\<in>set (xs @ ts). mem s x = Allocated)"

definition retired_ok :: "hz_state \<Rightarrow> nat list \<Rightarrow> bool" where
  "retired_ok s live \<longleftrightarrow> (\<forall>u. distinct (retired s u)) \<and>
     (\<forall>u v. u \<noteq> v \<longrightarrow> set (retired s u) \<inter> set (retired s v) = {}) \<and>
     (\<forall>u. \<forall>x\<in>set (retired s u). x \<notin> set live \<and> mem s x = Allocated \<and> re_next s x = HAZPTR_POISON) \<and>
     (\<forall>x. mem s x = Allocated \<longrightarrow> x \<in> set live \<or> (\<exists>u. x \<in> set (retired s u)))"

lemma retired_okD:
  assumes "retired_ok s live"
  shows "distinct (retired s u)" and "u \<noteq> v \<Longrightarrow> set (retired s u) \<inter> set (retired s v) = {}"
    and "x \<in> set (retired s u) \<Longrightarrow> x \<notin> set live \<and> mem s x = Allocated \<and> re_next s x = HAZPTR_POISON"
    and "mem s x = Allocated \<Longrightarrow> x \<in> set live \<or> (\<exists>u. x \<in> set (retired s u))"
  using assms by (simp_all add: retired_ok_def)

definition hinv :: "hz_state \<Rightarrow> bool" where
  "hinv s \<longleftrightarrow> (\<exists>xs ts. lists_ok s xs ts \<and> retired_ok s (xs @ ts)) \<and>
     (\<forall>t<NR_THREADS. reader_ok s t) \<and> (\<forall>u\<ge>NR_THREADS. hpc s u = Idle)"

section \<open>Readers\<close>

text \<open>What a live link points to is live: on the list or in transit.\<close>

lemma live_link:
  assumes l: "lists_ok s xs ts" and r: "retired_ok s (xs @ ts)"
    and d: "deref s p = Entry e" and a: "\<And>x. p = Next x \<Longrightarrow> mem s x = Allocated"
  shows "e \<in> set (xs @ ts)"
proof (cases p)
  case Header
  with l d chain_head show ?thesis by (fastforce simp: lists_ok_def)
next
  case (Next x)
  then have n: "re_next s x = Entry e" "mem s x = Allocated" using d a by simp_all
  have "x \<notin> set (retired s u)" for u using retired_okD(3) [OF r, of x u] n by auto
  then have "x \<in> set (xs @ ts)" using retired_okD(4) [OF r n(2)] by blast
  then consider "x \<in> set xs" | "x \<in> set ts" by auto
  then show ?thesis
  proof cases
    case 1
    with l n hchain_next show ?thesis by (fastforce simp: lists_ok_def)
  next
    case 2
    then obtain u where "routelock s = Some u" using l by (auto simp: lists_ok_def split: option.splits)
    with l have "transit (re_next s) xs (hpc s u) ts" by (simp add: lists_ok_def)
    with 2 n hchain_next [of "re_next s" _ ts x e] show ?thesis by (cases "hpc s u") auto
  qed
qed

lemma guard_unretired: "e \<notin> set (rl @ sifted p) \<Longrightarrow> guard p rl j e"
  by (cases p) auto

text \<open>So an entry that is still linked after its announcement is protected.\<close>

lemma reread_safe:
  assumes "hinv s" and "HP s j = Entry e" and "deref s p = Entry e"
    and "\<And>x. p = Next x \<Longrightarrow> mem s x = Allocated"
  shows "safe s j e"
proof -
  obtain xs ts where i: "lists_ok s xs ts" "retired_ok s (xs @ ts)" using assms(1) by (auto simp: hinv_def)
  have e: "e \<in> set (xs @ ts)" using live_link [OF i assms(3,4)] by blast
  then have "guard (hpc s u) (rlist s u) j e" for u
    using retired_okD(3) [OF i(2), of e u] by (intro guard_unretired) (auto simp: retired_def)
  with i(1) e assms(2) show ?thesis by (simp add: safe_def lists_ok_def)
qed

lemma safe_cong:
  assumes "safe s j e" and "HP s' j = HP s j" and "mem s' e = mem s e"
    and "\<And>u. guard (hpc s u) (rlist s u) j e \<Longrightarrow> guard (hpc s' u) (rlist s' u) j e"
  shows "safe s' j e"
  using assms by (simp add: safe_def)

text \<open>The program counters of a reader, which concern neither the lists nor the scans.\<close>

fun reading :: "hz_pc \<Rightarrow> bool" where
  "reading Idle = True" | "reading (Try a p) = True" | "reading (Record a p e) = True"
| "reading (Reread a p e) = True" | "reading (Check a e) = True" | "reading (Found a e) = True"
| "reading Crash = True" | "reading Exit = True" | "reading p = False"

lemma reading_neutral:
  "reading p \<Longrightarrow> sifted p = []" "reading p \<Longrightarrow> \<not> holds p" "reading p \<Longrightarrow> guard p rl j e"
  by (cases p; simp)+

lemma reader_move:
  assumes i: "hinv s" and t: "t < NR_THREADS" and p: "reading (hpc s t)" "reading q"
    and h: "\<And>j. j < K * t \<or> K * t + K \<le> j \<Longrightarrow> h j = HP s j"
    and r: "reader_ok (s\<lparr>HP := h, hpc := (hpc s)(t := q)\<rparr>) t"
  shows "hinv (s\<lparr>HP := h, hpc := (hpc s)(t := q)\<rparr>)" (is "hinv ?s")
proof -
  obtain xs ts where l: "lists_ok s xs ts" "retired_ok s (xs @ ts)" using i by (auto simp: hinv_def)
  have rt: "retired ?s = retired s"
    using reading_neutral(1) p by (auto simp: retired_def fun_eq_iff)
  have "routelock s \<noteq> Some t" using l(1) reading_neutral(2) p by (auto simp: lists_ok_def)
  then have "lists_ok ?s xs ts"
    using l(1) reading_neutral(2) p by (auto simp: lists_ok_def split: option.splits)
  moreover have "retired_ok ?s (xs @ ts)" using l(2) by (simp add: retired_ok_def rt)
  moreover have "reader_ok ?s v" if v: "v < NR_THREADS" for v
  proof (cases "v = t")
    case False
    then have "K * v < K * t \<or> K * t + K \<le> K * v" by (auto simp: K_def)
    from h [OF this] have hv: "h (K * v) = HP s (K * v)" .
    have "safe ?s (K * v) e" if "safe s (K * v) e" for e
      by (rule safe_cong [OF that]) (use hv p reading_neutral(3) in auto)
    with i v False hv show ?thesis
      by (cases "hpc s v") (auto simp: hinv_def reader_ok_def)
  qed (use r in simp)
  ultimately show ?thesis using i t by (auto simp: hinv_def)
qed

end
