(* ===== verification/Hazptr_Safe.thy ===== *)
theory Hazptr_Safe
  imports Hazptr_Inv
begin

text \<open>
  Hazard pointers are safe where the comparison of addresses is an order: every step keeps the
  invariant, so a reader accesses a freed entry at most when \<open>hp_try_record\<close> reads \<open>*p\<close> for the second
  time. The last sections have that read, and what happens with entries that are far apart.
\<close>

section \<open>Lookups\<close>

lemma safe_move:
  assumes "safe s j e" and "reading (hpc s t)" and "reading q" and "h j = HP s j"
  shows "safe (s\<lparr>HP := h, hpc := (hpc s)(t := q)\<rparr>) j e"
  by (rule safe_cong [OF assms(1)]) (use assms reading_neutral(3) in auto)

lemma reader_move_pc:
  assumes i: "hinv s" and t: "t < NR_THREADS" and p: "reading (hpc s t)" "reading q"
    and sh: "\<And>e. shield q = Some e \<Longrightarrow> safe s (K * t) e"
    and st: "\<And>e. stored q = Some e \<Longrightarrow> HP s (K * t) = Entry e" and f: "found_ok s q"
  shows "hinv (s\<lparr>hpc := (hpc s)(t := q)\<rparr>)"
proof -
  have "safe (s\<lparr>HP := HP s, hpc := (hpc s)(t := q)\<rparr>) (K * t) e" if "shield q = Some e" for e
    by (rule safe_move [OF sh [OF that] p]) simp
  moreover have "found_ok (s\<lparr>hpc := (hpc s)(t := q)\<rparr>) q" using f by (cases q) auto
  ultimately have "reader_ok (s\<lparr>HP := HP s, hpc := (hpc s)(t := q)\<rparr>) t"
    using st by (simp add: reader_ok_def)
  from reader_move [OF i t p _ this] show ?thesis by simp
qed

lemma reader_okD:
  assumes "hinv s" and "t < NR_THREADS"
  shows "shield (hpc s t) = Some e \<Longrightarrow> safe s (K * t) e"
    and "stored (hpc s t) = Some e \<Longrightarrow> HP s (K * t) = Entry e" and "found_ok s (hpc s t)"
  using assms by (simp_all add: hinv_def reader_ok_def)

lemma hinv_try:
  assumes i: "hinv s" and t: "t < NR_THREADS" and ok: "touch_ok s t" and st: "hp_try_record t s s'"
  shows "hinv s'"
  using st
proof cases
  case (poisoned a p)
  with reader_move_pc [OF i t, of "Try a Header"] show ?thesis by simp
next
  case (first a p e)
  have "shield (Record a p e) = shield (Try a p)" by (cases p) simp_all
  with first reader_move_pc [OF i t, of "Record a p e"] reader_okD(1) [OF i t] show ?thesis by simp
next
  case (store a p e)
  let ?s = "s\<lparr>HP := (HP s)(K * t := Entry e), hpc := (hpc s)(t := Reread a p e)\<rparr>"
  have "reader_ok ?s t" by (simp add: reader_ok_def)
  then have "hinv ?s" by (intro reader_move [OF i t]) (use store in \<open>auto simp: K_def\<close>)
  with store show ?thesis by simp
next
  case (same a p e)
  have "mem s x = Allocated" if "p = Next x" for x using ok same that by (simp add: touch_ok_def)
  with reread_safe [OF i _ same(3)] reader_okD(2) [OF i t, of e] same have "safe s (K * t) e" by simp
  with same reader_move_pc [OF i t, of "Check a e"] show ?thesis by simp
next
  case (changed a p e)
  with reader_move_pc [OF i t, of "Try a Header"] show ?thesis by simp
qed

lemma hinv_lookup:
  assumes i: "hinv s" and t: "t < NR_THREADS" and st: "route_lookup t s r s'"
  shows "hinv s'"
  using st
proof cases
  case (call a)
  with reader_move_pc [OF i t, of "Try a Header"] show ?thesis by simp
next
  case try_record
  with hinv_try [OF i t] show ?thesis by simp
next
  case (missing a p)
  with reader_move_pc [OF i t, of Idle] show ?thesis by simp
next
  case (other a e)
  with reader_move_pc [OF i t, of "Try a (Next e)"] reader_okD(1) [OF i t] show ?thesis by simp
next
  case (found a e)
  with reader_move_pc [OF i t, of "Found a e"] reader_okD(1) [OF i t] show ?thesis by simp
next
  case (done_found a e)
  with reader_move_pc [OF i t, of Idle] show ?thesis by simp
next
  case freed
  then have "reading (hpc s t)" by (cases "hpc s t") (simp_all add: touch_ok_def)
  with freed reader_move_pc [OF i t, of Crash] show ?thesis by simp
qed

section \<open>Frames for the other steps\<close>

fun unread :: "hz_pc \<Rightarrow> bool" where
  "unread (Try a p) = False" | "unread (Record a p e) = False" | "unread (Reread a p e) = False"
| "unread (Check a e) = False" | "unread (Found a e) = False" | "unread p = True"

lemma unread_ok: "unread p \<Longrightarrow> shield p = None" "unread p \<Longrightarrow> stored p = None" "unread p \<Longrightarrow> found_ok s p"
  by (cases p; simp)+

lemma hinv_frame:
  assumes i: "hinv s" and t: "t < NR_THREADS" and p: "hpc s' = (hpc s)(t := q)" "unread q"
    and h: "HP s' = HP s" and a: "\<And>e. mem s e = Allocated \<Longrightarrow> re_addr s' e = re_addr s e"
    and k: "\<And>j e. j < H \<Longrightarrow> safe s j e \<Longrightarrow> safe s' j e"
    and l: "lists_ok s' xs ts" and r: "retired_ok s' (xs @ ts)"
  shows "hinv s'"
proof -
  have "reader_ok s' v" if v: "v < NR_THREADS" for v
  proof (cases "v = t")
    case True
    with p unread_ok show ?thesis by (simp add: reader_ok_def)
  next
    case False
    then have hv: "hpc s' v = hpc s v" using p by simp
    have j: "K * v < H" using v by (simp add: K_def H_def)
    note o = reader_okD [OF i v]
    have "found_ok s' (hpc s v)"
    proof (cases "hpc s v")
      case (Found b e)
      with o(1) have "mem s e = Allocated" by (simp add: safe_def)
      with a Found o(3) show ?thesis by simp
    qed simp_all
    with o(1,2) k [OF j] hv h show ?thesis by (simp add: reader_ok_def)
  qed
  with i t p(1) l r show ?thesis by (auto simp: hinv_def)
qed

lemma lists_keep:
  assumes l: "lists_ok s xs ts"
    and e: "re_next s' = re_next s" "route_list s' = route_list s" "routelock s' = routelock s"
    and p: "hpc s' = (hpc s)(t := q)" "holds q = holds (hpc s t)"
    and tr: "holds q \<Longrightarrow> transit (re_next s) xs (hpc s t) ts \<Longrightarrow> transit (re_next s) xs q ts"
    and m: "\<And>x. x \<in> set (xs @ ts) \<Longrightarrow> mem s' x = mem s x"
  shows "lists_ok s' xs ts"
proof -
  have "\<And>u. routelock s = Some u \<Longrightarrow> holds (hpc s u)" using l by (simp add: lists_ok_def)
  with l e p tr m show ?thesis by (auto simp: lists_ok_def split: option.splits)
qed

lemma retired_keep:
  assumes r: "retired_ok s live" and e: "re_next s' = re_next s" "mem s' = mem s"
    and d: "\<And>u. set (retired s' u) = set (retired s u)" "\<And>u. distinct (retired s' u)"
  shows "retired_ok s' live"
  using r e d by (simp add: retired_ok_def)

lemma hinvE:
  assumes "hinv s"
  obtains xs ts where "lists_ok s xs ts" and "retired_ok s (xs @ ts)"
  using assms by (auto simp: hinv_def)

section \<open>Scans\<close>

lemma scan_frame:
  assumes i: "hinv s" and t: "t < NR_THREADS" and p: "hpc s' = (hpc s)(t := q)" "unread q"
    and e: "re_next s' = re_next s" "route_list s' = route_list s" "routelock s' = routelock s"
      "re_addr s' = re_addr s" "HP s' = HP s" "mem s' = mem s" "\<And>u. u \<noteq> t \<Longrightarrow> rlist s' u = rlist s u"
    and h: "holds q = holds (hpc s t)"
    and tr: "\<And>xs ts. holds q \<Longrightarrow> transit (re_next s) xs (hpc s t) ts \<Longrightarrow> transit (re_next s) xs q ts"
    and d: "set (rlist s' t @ sifted q) = set (retired s t)"
      "distinct (retired s t) \<Longrightarrow> distinct (rlist s' t @ sifted q)"
    and g: "\<And>j x. j < H \<Longrightarrow> HP s j = Entry x \<Longrightarrow> guard (hpc s t) (rlist s t) j x \<Longrightarrow>
      guard q (rlist s' t) j x"
  shows "hinv s'"
proof -
  obtain xs ts where l: "lists_ok s xs ts" and r: "retired_ok s (xs @ ts)" using i by (rule hinvE)
  have rt: "retired s' t = rlist s' t @ sifted q" "\<And>u. u \<noteq> t \<Longrightarrow> retired s' u = retired s u"
    using p e(7) by (simp_all add: retired_def)
  have l': "lists_ok s' xs ts" by (rule lists_keep [OF l e(1-3) p(1) h tr]) (use e in simp_all)
  have "set (retired s' u) = set (retired s u)" "distinct (retired s' u)" for u
    by (cases "u = t"; use rt d retired_okD(1) [OF r] in simp)+
  then have r': "retired_ok s' (xs @ ts)" by (rule retired_keep [OF r e(1,6)])
  have "safe s' j x" if j: "j < H" and s: "safe s j x" for j x
  proof (rule safe_cong [OF s])
    show "guard (hpc s' u) (rlist s' u) j x" if "guard (hpc s u) (rlist s u) j x" for u
      using that p(1) e(7) g [OF j] s by (cases "u = t") (simp_all add: safe_def)
  qed (use e in simp_all)
  with hinv_frame [OF i t p e(5) _ _ l' r'] e show ?thesis by simp
qed

lemma hinv_free:
  assumes i: "hinv s" and t: "t < NR_THREADS" and p: "hpc s t = Sift (cur # tmplist) plist k"
    and c: "Entry cur \<notin> set plist"
  shows "hinv (s\<lparr>mem := (mem s)(cur := Freed), hpc := (hpc s)(t := Sift tmplist plist k)\<rparr>)" (is "hinv ?s")
proof -
  obtain xs ts where l: "lists_ok s xs ts" and r: "retired_ok s (xs @ ts)" using i by (rule hinvE)
  have ct: "cur \<in> set (retired s t)" using p by (simp add: retired_def)
  have cur: "cur \<notin> set (xs @ ts)" using retired_okD(3) [OF r ct] by blast
  have rt: "retired ?s u = (if u = t then rlist s t @ tmplist else retired s u)" for u
    by (simp add: retired_def)
  have old: "retired s t = rlist s t @ cur # tmplist" using p by (simp add: retired_def)
  have d: "distinct (retired s t)" by (rule retired_okD(1) [OF r])
  have other: "cur \<notin> set (retired s u)" if "u \<noteq> t" for u
    using retired_okD(2) [OF r that] ct by auto
  have l': "lists_ok ?s xs ts"
    by (rule lists_keep [OF l, where t = t and q = "Sift tmplist plist k"]) (use p cur in auto)
  have s1: "set (retired ?s u) = set (retired s u) - {cur}" for u
    using rt old d other by (cases "u = t") auto
  have "retired_ok ?s (xs @ ts)"
    unfolding retired_ok_def
  proof (intro conjI allI ballI impI)
    fix u v x
    show "distinct (retired ?s u)" using rt old d retired_okD(1) [OF r] by auto
    show "set (retired ?s u) \<inter> set (retired ?s v) = {}" if "u \<noteq> v"
      using s1 retired_okD(2) [OF r that] by auto
    assume "x \<in> set (retired ?s u)"
    then have "x \<in> set (retired s u)" "x \<noteq> cur" using s1 by auto
    with retired_okD(3) [OF r this(1)]
    show "x \<notin> set (xs @ ts)" "mem ?s x = Allocated" "re_next ?s x = HAZPTR_POISON" by simp_all
  next
    fix x
    assume "mem ?s x = Allocated"
    then have "x \<noteq> cur" "mem s x = Allocated" by (auto split: if_splits)
    then show "x \<in> set (xs @ ts) \<or> (\<exists>u. x \<in> set (retired ?s u))"
      using retired_okD(4) [OF r] s1 by blast
  qed
  moreover have "safe ?s j x" if s: "safe s j x" for j x
  proof -
    have "guard (hpc s t) (rlist s t) j x" using s by (simp add: safe_def)
    with p c have x: "x \<noteq> cur" by auto
    show ?thesis
      by (rule safe_cong [OF s]) (use x p in \<open>auto split: if_splits\<close>)
  qed
  ultimately show ?thesis
    by (intro hinv_frame [OF i t, of _ "Sift tmplist plist k", OF _ _ _ _ _ l']) simp_all
qed

lemma resume_simps [simp]:
  "unread (resume k)" "sifted (resume k) = []" "holds (resume k) = clears k"
  "guard (resume k) rl j e"
  by (cases k; simp)+

lemma hinv_scan:
  assumes i: "hinv s" and t: "t < NR_THREADS" and near: "heap_near addr" and en: "entries_only s"
    and st: "hazptr_scan addr t s s'"
  shows "hinv s'"
  using st
proof cases
  case (collect n plist k)
  then show ?thesis
    by (intro scan_frame [OF i t, of s' "Scan (Suc n) (if HP s n = NULL then plist else plist @ [HP s n]) k"])
      (auto simp: retired_def not_less_eq_eq dest: le_neq_implies_less)
next
  case (take_list plist k)
  then show ?thesis
    by (intro scan_frame [OF i t, of s' "Sift (rlist s t) plist k"]) (auto simp: retired_def)
next
  case (keep cur tmplist plist k)
  then show ?thesis
    by (intro scan_frame [OF i t, of s' "Sift tmplist plist k"]) (auto simp: retired_def)
next
  case (hazptr_free cur tmplist plist k)
  have "set plist \<subseteq> range Entry" using en hazptr_free(2) unfolding entries_only_def by (metis collected.simps(2))
  from near_search [OF near this] hazptr_free have "Entry cur \<notin> set plist" by blast
  with hinv_free [OF i t] hazptr_free show ?thesis by simp
next
  case (scanned plist k)
  have "transit n xs (resume k) ts" if "holds (resume k)" "chain n (rest k) ts" for n xs ts
    using that by (cases k) auto
  with scanned show ?thesis
    by (intro scan_frame [OF i t, of s' "resume k"]) (simp_all add: retired_def)
qed

lemma hinv_exit:
  assumes i: "hinv s" and t: "t < NR_THREADS" and st: "hazptr_thread_exit t s s'"
  shows "hinv s'"
  using st
proof cases
  case clear
  let ?h = "\<lambda>i. if K * t \<le> i \<and> i < K * t + K then NULL else HP s i"
  have "reader_ok (s\<lparr>HP := ?h, hpc := (hpc s)(t := Exit)\<rparr>) t" by (simp add: reader_ok_def)
  then have "hinv (s\<lparr>HP := ?h, hpc := (hpc s)(t := Exit)\<rparr>)"
    by (intro reader_move [OF i t]) (use clear in auto)
  with clear show ?thesis by simp
next
  case scan
  then show ?thesis
    by (intro scan_frame [OF i t, of s' "Scan 0 [] Exit_Loop"]) (simp_all add: retired_def)
next
  case exited
  with reader_move_pc [OF i t, of Idle] show ?thesis by simp
qed

section \<open>Updates\<close>

lemma retired_fresh: "retired_ok s live \<Longrightarrow> mem s e \<noteq> Allocated \<Longrightarrow> e \<notin> set (retired s u)"
  using retired_okD(3) by fastforce

lemma holder_locked: "lists_ok s xs ts \<Longrightarrow> holds (hpc s t) \<Longrightarrow> routelock s = Some t"
  by (simp add: lists_ok_def)

lemma lock_idle:
  assumes "lists_ok s xs ts" and "routelock s = None"
  shows "ts = []" and "\<not> holds (hpc s u)"
  using assms by (simp_all add: lists_ok_def)

lemma update_frame:
  assumes i: "hinv s" and t: "t < NR_THREADS" and p: "hpc s' = (hpc s)(t := q)" "unread q"
    and h: "HP s' = HP s" and a: "\<And>e. mem s e = Allocated \<Longrightarrow> re_addr s' e = re_addr s e \<and> mem s' e = mem s e"
    and r: "\<And>u. u \<noteq> t \<Longrightarrow> rlist s' u = rlist s u" and g: "\<And>j x. guard q (rlist s' t) j x"
    and l: "lists_ok s' xs ts" "retired_ok s' (xs @ ts)"
  shows "hinv s'"
proof (rule hinv_frame [OF i t p h _ _ l])
  show "safe s' j e" if s: "safe s j e" for j e
  proof (rule safe_cong [OF s])
    show "guard (hpc s' u) (rlist s' u) j e" if "guard (hpc s u) (rlist s u) j e" for u
      using that p(1) r g by (cases "u = t") simp_all
  qed (use h a s in \<open>simp_all add: safe_def\<close>)
qed (use a in simp)

lemma hinv_add:
  assumes i: "hinv s" and t: "t < NR_THREADS" and p: "hpc s t = Idle" "routelock s = None"
    and e: "mem s e = Unused"
  shows "hinv (s\<lparr>mem := (mem s)(e := Allocated), re_addr := (re_addr s)(e := addr),
    re_iface := (re_iface s)(e := interface), re_next := (re_next s)(e := route_list s),
    route_list := Entry e\<rparr>)" (is "hinv ?s")
proof -
  obtain xs ts where l: "lists_ok s xs ts" and r: "retired_ok s (xs @ ts)" using i by (rule hinvE)
  note ts = lock_idle [OF l p(2)]
  have n: "e \<notin> set xs" using l e by (auto simp: lists_ok_def)
  have "lists_ok ?s (e # xs) []"
    using l p ts n by (simp add: lists_ok_def hchain_upd)
  moreover have "retired ?s = retired s" by (simp add: retired_def fun_eq_iff)
  then have "retired_ok ?s ((e # xs) @ [])"
    using r e ts(1) retired_fresh [OF r, of e] by (auto simp: retired_ok_def)
  ultimately show ?thesis
    by (intro update_frame [OF i t, of ?s Idle]) (use p e in \<open>auto simp: fun_upd_idem\<close>)
qed

lemma hinv_del:
  assumes i: "hinv s" and t: "t < NR_THREADS" and p: "hpc s t = Idle" "routelock s = None"
    and w: "del_walk s addr Header q e"
  shows "hinv ((set_link q (re_next s e) s)\<lparr>routelock := Some t, hpc := (hpc s)(t := Poisoning e)\<rparr>)"
    (is "hinv ?s")
proof -
  obtain xs ts where l: "lists_ok s xs ts" and r: "retired_ok s (xs @ ts)" using i by (rule hinvE)
  note ts = lock_idle [OF l p(2)]
  have c: "chain (re_next s) (route_list s) xs" "distinct xs" using l by (simp_all add: lists_ok_def)
  have "\<exists>ys zs. xs = ys @ e # zs \<and> q = (if ys = [] then Header else Next (last ys))"
    by (rule del_walk_split [OF w]) (use c in simp)
  then obtain ys zs where xs: "xs = ys @ e # zs" "q = (if ys = [] then Header else Next (last ys))"
    by (elim exE conjE)
  have ne: "ys \<noteq> [] \<Longrightarrow> last ys \<noteq> e" using c(2) xs(1) by (metis distinct_append last_in_set list.set_intros(1) disjoint_iff)
  have f: "re_next ?s = (if ys = [] then re_next s else (re_next s)(last ys := re_next s e))"
    "route_list ?s = (if ys = [] then re_next s e else route_list s)"
    "mem ?s = mem s" "rlist ?s = rlist s" "HP ?s = HP s" "re_addr ?s = re_addr s"
    using xs(2) by simp_all
  have ch: "chain (re_next ?s) (route_list ?s) (ys @ zs)"
    unfolding f using chain_unlink [of "re_next s" "route_list s" ys e zs] c xs(1) by simp
  have "chain (re_next s) (re_next s e) zs"
    using c(1) chain_suffix unfolding xs(1) by blast
  then have y: "y \<in> set zs" if "re_next s e = Entry y" for y using that chain_head by blast
  have l': "lists_ok ?s (ys @ zs) [e]"
    using l ch y ne ts c(2) xs(1) f(1,3) by (auto simp: lists_ok_def)
  have rt: "retired ?s = retired s" using p f(4) by (simp add: retired_def fun_eq_iff)
  have "x \<in> set (retired s u) \<Longrightarrow> re_next ?s x = re_next s x" for u x
    using retired_okD(3) [OF r, of x u] xs(1) f(1) by auto
  moreover have "set ((ys @ zs) @ [e]) = set (xs @ ts)" using xs(1) ts(1) by auto
  ultimately have "retired_ok ?s ((ys @ zs) @ [e])"
    using r rt f(3) unfolding retired_ok_def by simp
  then show ?thesis
    by (intro update_frame [OF i t, of ?s "Poisoning e", OF _ _ _ _ _ _ l']) (use f in simp_all)
qed

text \<open>An entry in transit becomes retired.\<close>

lemma hinv_retire:
  assumes i: "hinv s" and t: "t < NR_THREADS" and h: "holds (hpc s t)" "sifted (hpc s t) = []"
    and tr: "\<And>xs ts. transit (re_next s) xs (hpc s t) ts \<Longrightarrow> \<exists>ts'. ts = e # ts' \<and>
      (case lk of None \<Rightarrow> ts' = [] | Some u \<Rightarrow> u = t \<and> chain (re_next s) (rest k) ts')"
    and n: "nx = resume k" and k: "clears k \<longleftrightarrow> lk = Some t" "lk = None \<or> lk = Some t"
  shows "hinv (hazptr_free_later t e k nx
    (s\<lparr>re_next := (re_next s)(e := HAZPTR_POISON), routelock := lk\<rparr>))" (is "hinv ?s")
proof -
  obtain xs ts where l: "lists_ok s xs ts" and r: "retired_ok s (xs @ ts)" using i by (rule hinvE)
  have lk: "routelock s = Some t" by (rule holder_locked [OF l h(1)])
  with l have "transit (re_next s) xs (hpc s t) ts" by (simp add: lists_ok_def)
  from tr [OF this] obtain ts' where ts: "ts = e # ts'"
    "case lk of None \<Rightarrow> ts' = [] | Some u \<Rightarrow> u = t \<and> chain (re_next s) (rest k) ts'" by blast
  let ?q = "if rcount s t + 1 \<ge> R then Scan 0 [] k else nx"
  have q: "holds ?q = clears k" "sifted ?q = []" "unread ?q" "guard ?q rl j x" for rl j x
    using n by simp_all
  have e: "e \<notin> set xs" "e \<notin> set ts'" "mem s e = Allocated" using l ts(1) by (auto simp: lists_ok_def)
  have "transit ((re_next s)(e := HAZPTR_POISON)) xs ?q ts'" if "lk = Some t"
    using ts that n k(1) e hchain_upd [of e ts' "re_next s" HAZPTR_POISON] by (cases k) auto
  moreover have "holds (hpc s u) \<longleftrightarrow> u = t" for u using l lk by (auto simp: lists_ok_def)
  ultimately have l': "lists_ok ?s xs ts'"
    using l lk ts e q(1) k hchain_upd [of e xs "re_next s" HAZPTR_POISON]
    by (auto simp: lists_ok_def hazptr_free_later_def)
  have rt: "retired ?s u = (if u = t then e # retired s t else retired s u)" for u
    using h(2) q(2) by (simp add: retired_def hazptr_free_later_def)
  have en: "e \<notin> set (retired s u)" for u using retired_okD(3) [OF r] ts(1) by auto
  have ms: "mem ?s = mem s" "re_next ?s = (re_next s)(e := HAZPTR_POISON)"
    by (simp_all add: hazptr_free_later_def)
  have r': "retired_ok ?s (xs @ ts')"
    unfolding retired_ok_def
  proof (intro conjI allI ballI impI)
    fix u v x
    show "distinct (retired ?s u)" using rt en retired_okD(1) [OF r] by simp
    show "set (retired ?s u) \<inter> set (retired ?s v) = {}" if "u \<noteq> v"
      using rt en retired_okD(2) [OF r that] that by auto
    assume "x \<in> set (retired ?s u)"
    then have "x = e \<or> x \<in> set (retired s u)" using rt by (auto split: if_splits)
    with e ms ts(1) retired_okD(3) [OF r, of x u]
    show "x \<notin> set (xs @ ts')" "mem ?s x = Allocated" "re_next ?s x = HAZPTR_POISON" by auto
  next
    fix x
    assume "mem ?s x = Allocated"
    with retired_okD(4) [OF r, of x] ms have "x \<in> set (xs @ ts) \<or> (\<exists>u. x \<in> set (retired s u))" by simp
    moreover have "set (retired s u) \<subseteq> set (retired ?s u)" for u using rt by auto
    moreover have "e \<in> set (retired ?s t)" using rt by simp
    ultimately show "x \<in> set (xs @ ts') \<or> (\<exists>u. x \<in> set (retired ?s u))" using ts(1) by auto
  qed
  show ?thesis
    by (rule update_frame [OF i t, of ?s ?q, OF _ q(3) _ _ _ _ l' r'])
      (use q(4) in \<open>simp_all add: hazptr_free_later_def\<close>)
qed

lemma hinv_update:
  assumes i: "hinv s" and t: "t < NR_THREADS" and st: "route_update t s s'"
  shows "hinv s'"
  using st
proof cases
  case (route_add e addr interface)
  with hinv_add [OF i t] show ?thesis by simp
next
  case (route_del addr q e)
  with hinv_del [OF i t] show ?thesis by simp
next
  case (poison e)
  with hinv_retire [OF i t, where e = e and lk = None and nx = Idle and k = Return] show ?thesis by simp
next
  case route_clear
  obtain xs ts where l: "lists_ok s xs ts" and r: "retired_ok s (xs @ ts)" using i by (rule hinvE)
  note ts = lock_idle [OF l \<open>routelock s = None\<close>]
  have l': "lists_ok s' [] xs" using l ts route_clear by (auto simp: lists_ok_def)
  have "retired s' = retired s" using route_clear by (simp add: retired_def fun_eq_iff)
  then have r': "retired_ok s' ([] @ xs)" using r ts(1) route_clear by (simp add: retired_ok_def)
  show ?thesis
    by (rule update_frame [OF i t, of s' "Clearing (route_list s)", OF _ _ _ _ _ _ l' r'])
      (use route_clear in simp_all)
next
  case (clear_one e)
  obtain xs ts where l: "lists_ok s xs ts" using i by (rule hinvE)
  have lk: "routelock s = Some t" using holder_locked [OF l, of t] clear_one by simp
  have tr: "\<exists>ts'. ts = e # ts' \<and> chain (re_next s) (re_next s e) ts'"
    if "transit (re_next s) xs (hpc s t) ts" for xs ts
    using that clear_one by (cases ts) simp_all
  have "hinv (hazptr_free_later t e (Clear (re_next s e)) (Clearing (re_next s e))
      (s\<lparr>re_next := (re_next s)(e := HAZPTR_POISON), routelock := Some t\<rparr>))"
    by (rule hinv_retire [OF i t]) (use clear_one tr in simp_all)
  moreover have "s\<lparr>re_next := (re_next s)(e := HAZPTR_POISON), routelock := Some t\<rparr>
      = s\<lparr>re_next := (re_next s)(e := HAZPTR_POISON)\<rparr>" using lk by simp
  ultimately show ?thesis using clear_one by simp
next
  case cleared
  obtain xs ts where l: "lists_ok s xs ts" and r: "retired_ok s (xs @ ts)" using i by (rule hinvE)
  have lk: "routelock s = Some t" using holder_locked [OF l, of t] cleared by simp
  then have ts: "ts = []" using l cleared by (cases ts) (auto simp: lists_ok_def)
  have l': "lists_ok s' xs []" using l lk ts cleared by (auto simp: lists_ok_def)
  have "retired s' = retired s" using cleared by (simp add: retired_def fun_eq_iff)
  then have r': "retired_ok s' (xs @ [])" using r ts cleared by (simp add: retired_ok_def)
  show ?thesis
    by (rule update_frame [OF i t, of s' Idle, OF _ _ _ _ _ _ l' r']) (use cleared in simp_all)
qed

lemma hz_inv_init: "hinv hazptr_init"
proof -
  have "lists_ok hazptr_init [] []" "retired_ok hazptr_init ([] @ [])"
    by (simp_all add: lists_ok_def retired_ok_def retired_def hazptr_init_def)
  moreover have "reader_ok hazptr_init t" "hpc hazptr_init t = Idle" for t
    by (simp_all add: reader_ok_def hazptr_init_def)
  ultimately show ?thesis unfolding hinv_def by blast
qed

lemma hz_inv_step: "heap_near addr \<Longrightarrow> entries_only s \<Longrightarrow> hinv s \<Longrightarrow> hz_step addr s r s' \<Longrightarrow> hinv s'"
  by (erule hz_step.cases) (auto intro: hinv_lookup hinv_update hinv_scan hinv_exit)

lemma hinv_reachable:
  assumes "heap_near addr" and "hz_reachable addr s"
  shows "hinv s"
proof -
  from assms(2) have "hinv s \<and> entries_only s"
  proof (induction rule: reachable.induct)
    case (start s)
    then show ?case using hz_inv_init entries_reachable [OF reachable.start] by simp
  next
    case (next_state s s')
    then show ?case using hz_inv_step [OF assms(1)] entries_step by blast
  qed
  then show ?thesis ..
qed

section \<open>The guarantee\<close>

lemma touches_shield:
  "touches p = Some e \<Longrightarrow> shield p = Some e \<or> (\<exists>a x. p = Reread a (Next e) x)"
  by (cases p rule: touches.cases) auto

lemma shield_allocated:
  assumes "hinv s" and "shield (hpc s t) = Some e"
  shows "mem s e = Allocated"
proof -
  have "t < NR_THREADS" using assms by (rule_tac ccontr) (simp add: hinv_def)
  with reader_okD(1) [OF assms(1)] assms(2) show ?thesis by (simp add: safe_def)
qed

lemma hazptr_near_safe:
  assumes near: "heap_near addr" and r: "hz_reachable addr s"
  shows "(\<forall>t e. touches (hpc s t) = Some e \<and> mem s e \<noteq> Allocated \<longrightarrow> (\<exists>a x. hpc s t = Reread a (Next e) x)) \<and>
    (\<forall>a v s'. hz_step addr s (Some (a, v)) s' \<longrightarrow> v = - 1 \<or>
      (\<exists>e. mem s e = Allocated \<and> re_addr s e = a \<and> re_iface s e = v)) \<and>
    (\<forall>t cur tmplist plist k. hpc s t = Sift (cur # tmplist) plist k \<longrightarrow> mem s cur = Allocated)"
proof (intro conjI allI impI)
  note i = hinv_reachable [OF near r]
  show "\<exists>a x. hpc s t = Reread a (Next e) x"
    if "touches (hpc s t) = Some e \<and> mem s e \<noteq> Allocated" for t e
    using that touches_shield shield_allocated [OF i] by blast
  show "v = - 1 \<or> (\<exists>e. mem s e = Allocated \<and> re_addr s e = a \<and> re_iface s e = v)"
    if "hz_step addr s (Some (a, v)) s'" for a v s'
    using that
  proof cases
    case (lookup t)
    from lookup(2) show ?thesis
    proof cases
      case (done_found e)
      with shield_allocated [OF i, of t e] reader_okD(3) [OF i lookup(1)] show ?thesis by auto
    qed simp
  qed
  show "mem s cur = Allocated" if h: "hpc s t = Sift (cur # tmplist) plist k" for t cur tmplist plist k
  proof -
    obtain xs ts where "retired_ok s (xs @ ts)" using i by (rule hinvE)
    then show ?thesis using retired_okD(3) [of s "xs @ ts" cur t] h by (simp add: retired_def)
  qed
qed

section \<open>The second read\<close>

lemma hz_go: "hz_reachable addr s \<Longrightarrow> hz_step addr s r s' \<Longrightarrow> hz_reachable addr s'"
  by (rule reachable.next_state) auto

lemma reach_scan:
  assumes t: "t < NR_THREADS"
  shows "hz_reachable addr (s\<lparr>hpc := (hpc s)(t := Scan i plist k)\<rparr>) \<Longrightarrow> i \<le> H \<Longrightarrow>
    \<exists>ps. set ps = set plist \<union> (HP s ` {i..<H} - {NULL}) \<and> hz_reachable addr (s\<lparr>hpc := (hpc s)(t := Scan H ps k)\<rparr>)"
proof (induction "H - i" arbitrary: i plist)
  case (Suc n)
  let ?p = "if HP s i = NULL then plist else plist @ [HP s i]"
  have i: "i < H" using Suc.hyps(2) by simp
  then have r: "hz_reachable addr (s\<lparr>hpc := (hpc s)(t := Scan (Suc i) ?p k)\<rparr>)"
    using hz_go [OF Suc.prems(1) hz_step.scan [OF t hazptr_scan.collect [of _ t i plist k]]]
    by (simp split: if_splits)
  from i Suc.hyps(2) have "n = H - Suc i" "Suc i \<le> H" by simp_all
  from Suc.hyps(1) [OF this(1) r this(2)] obtain ps
    where ps: "set ps = set ?p \<union> (HP s ` {Suc i..<H} - {NULL})" "hz_reachable addr (s\<lparr>hpc := (hpc s)(t := Scan H ps k)\<rparr>)"
    by blast
  have "{i..<H} = insert i {Suc i..<H}" using i by auto
  then have "set ps = set plist \<union> (HP s ` {i..<H} - {NULL})" using ps(1) by auto
  with ps(2) show ?case by blast
qed auto

text \<open>A table with entry 1 before entry 2, and a reader of thread 0 that has announced entry 2.\<close>

definition two_routes :: "hz_pc \<Rightarrow> ptr \<Rightarrow> hz_state" where
  "two_routes p h = \<lparr>route_list = Entry 1, re_next = (\<lambda>_. NULL)(1 := Entry 2),
     re_addr = (\<lambda>_. 0)(2 := 20, 1 := 10), re_iface = (\<lambda>_. 0)(2 := 7, 1 := 8),
     mem = (\<lambda>_. Unused)(2 := Allocated, 1 := Allocated), HP = (\<lambda>_. NULL)(0 := h),
     routelock = None, rlist = (\<lambda>_. []), rcount = (\<lambda>_. 0), hpc = (\<lambda>_. Idle)(0 := p)\<rparr>"

lemma two_routes_pc [simp]:
  "(two_routes p h)\<lparr>hpc := (hpc (two_routes p h))(0 := q)\<rparr> = two_routes q h"
  "(two_routes p h)\<lparr>HP := (HP (two_routes p h))(0 := h'), hpc := (hpc (two_routes p h))(0 := q)\<rparr>
    = two_routes q h'"
  by (simp_all add: two_routes_def)

lemma reach_two_routes: "hz_reachable addr (two_routes Idle NULL)"
proof -
  have t: "1 < NR_THREADS" by (simp add: NR_THREADS_def)
  note add = hz_step.update [OF t route_update.route_add]
  have "hz_reachable addr hazptr_init" by (rule reachable.start) (rule refl)
  from hz_go [OF this add [of _ 2 _ 7 20]] have "hz_reachable addr (hazptr_init\<lparr>mem := (\<lambda>_. Unused)(2 := Allocated),
      re_addr := (\<lambda>_. 0)(2 := 20), re_iface := (\<lambda>_. 0)(2 := 7), re_next := (\<lambda>_. NULL)(2 := NULL),
      route_list := Entry 2\<rparr>)"
    by (simp add: hazptr_init_def)
  from hz_go [OF this add [of _ 1 _ 8 10]] show ?thesis
    by (simp add: hazptr_init_def two_routes_def fun_upd_idem)
qed

lemma reach_check: "hz_reachable addr (two_routes (Check 20 1) (Entry 1))"
proof -
  have t: "0 < NR_THREADS" by simp
  note go = hz_go [OF _ hz_step.lookup [OF t]]
  note rec = go [OF _ route_lookup.try_record]
  from go [OF reach_two_routes route_lookup.call [of _ 0 20]]
  have "hz_reachable addr (two_routes (Try 20 Header) NULL)" by (simp add: two_routes_def)
  from rec [OF this _ hp_try_record.first [of _ 0 20 Header 1]]
  have "hz_reachable addr (two_routes (Record 20 Header 1) NULL)" by (simp add: two_routes_def touch_ok_def)
  from rec [OF this _ hp_try_record.store [of _ 0 20 Header 1]]
  have "hz_reachable addr (two_routes (Reread 20 Header 1) (Entry 1))" by (simp add: two_routes_def touch_ok_def)
  from rec [OF this _ hp_try_record.same [of _ 0 20 Header 1]]
  show ?thesis by (simp add: two_routes_def touch_ok_def)
qed

lemma reach_second_read: "hz_reachable addr (two_routes (Reread 20 (Next 1) 2) (Entry 2))"
proof -
  have t: "0 < NR_THREADS" by simp
  note go = hz_go [OF _ hz_step.lookup [OF t]]
  note rec = go [OF _ route_lookup.try_record]
  from go [OF reach_check route_lookup.other [of _ 0 20 1]]
  have "hz_reachable addr (two_routes (Try 20 (Next 1)) (Entry 1))" by (simp add: two_routes_def touch_ok_def)
  from rec [OF this _ hp_try_record.first [of _ 0 20 "Next 1" 2]]
  have "hz_reachable addr (two_routes (Record 20 (Next 1) 2) (Entry 1))" by (simp add: two_routes_def touch_ok_def)
  from rec [OF this _ hp_try_record.store [of _ 0 20 "Next 1" 2]]
  show ?thesis by (simp add: two_routes_def touch_ok_def)
qed

text \<open>Entry 1 and all others at two addresses of one page.\<close>

definition entry_addr :: "nat \<Rightarrow> ulong" where
  "entry_addr e = (if e = 1 then 0x1000 else 0x1040)"

lemma entry_near: "heap_near entry_addr"
  unfolding heap_near_def
proof (intro exI allI)
  fix e
  show "(if e = 1 then 0 else 8) < (2 :: nat) ^ 31 \<and> entry_addr e = 0x1000 + 8 * of_nat (if e = 1 then 0 else 8)"
    by (simp add: entry_addr_def)
qed

text \<open>C10: the exception is real, also for entries that are near. \<open>route_lookup\<close> records every entry in the hazard pointer at offset
  0, so the announcement of the next entry withdraws that of the entry it is read from; when that
  entry is then deleted and freed, by a scan on the exit of the deleting thread, the second read of
  \<open>hp_try_record\<close> accesses freed memory.\<close>

theorem hazptr_use_after_free:
  "heap_near entry_addr \<and> (\<exists>s s'. hz_reachable entry_addr s \<and> hpc s 0 = Reread 20 (Next 1) 2 \<and> mem s 1 = Freed \<and>
     hz_step entry_addr s None s' \<and> hpc s' 0 = Crash)"
proof -
  have t: "1 < NR_THREADS" "0 < NR_THREADS" by (simp_all add: NR_THREADS_def)
  let ?s = "two_routes (Reread 20 (Next 1) 2) (Entry 2)"
  let ?d = "?s\<lparr>route_list := Entry 2, routelock := Some 1, hpc := (hpc ?s)(1 := Poisoning 1)\<rparr>"
  have "del_walk ?s 10 Header Header 1" by (rule del_walk.here) (simp_all add: two_routes_def)
  from hz_go [OF reach_second_read hz_step.update [OF t(1) route_update.route_del [OF _ _ this]]]
  have r1: "hz_reachable entry_addr ?d" by (simp add: two_routes_def)
  let ?p = "?s\<lparr>route_list := Entry 2, re_next := (\<lambda>_. NULL)(1 := HAZPTR_POISON), rlist := (\<lambda>_. [])(1 := [1]),
    rcount := (\<lambda>_. 0)(1 := 1), hpc := (hpc ?s)(1 := Idle)\<rparr>"
  from hz_go [OF r1 hz_step.update [OF t(1) route_update.poison [of _ 1 1]]]
  have r2: "hz_reachable entry_addr ?p" by (simp add: two_routes_def hazptr_free_later_def R_def H_def K_def NR_THREADS_def)
  let ?e = "?p\<lparr>HP := (\<lambda>_. NULL)(0 := Entry 2)\<rparr>"
  have hp: "(\<lambda>i. if K * 1 \<le> i \<and> i < K * 1 + K then NULL else HP ?p i) = (\<lambda>_. NULL)(0 := Entry 2)"
    by (auto simp: two_routes_def K_def)
  from hz_go [OF r2 hz_step.exit [OF t(1) hazptr_thread_exit.clear [of _ 1]]]
  have "hz_reachable entry_addr (?e\<lparr>hpc := (hpc ?e)(1 := Exit)\<rparr>)" unfolding hp by (simp add: two_routes_def)
  from hz_go [OF this hz_step.exit [OF t(1) hazptr_thread_exit.scan [of _ 1]]]
  have "hz_reachable entry_addr (?e\<lparr>hpc := (hpc ?e)(1 := Scan 0 [] Exit_Loop)\<rparr>)" by (simp add: two_routes_def)
  from reach_scan [OF t(1) this] obtain ps where ps0: "set ps = set [] \<union> (HP ?e ` {0..<H} - {NULL})"
    and r3: "hz_reachable entry_addr (?e\<lparr>hpc := (hpc ?e)(1 := Scan H ps Exit_Loop)\<rparr>)" by blast
  have "set [] \<union> (f ` A - B) \<subseteq> range f" for f :: "nat \<Rightarrow> ptr" and A B by auto
  then have "set ps \<subseteq> range (HP ?e)" unfolding ps0 .
  note ps = this r3
  have "compare (entry_addr 1) (ptr_addr entry_addr p) \<noteq> 0" if "p = NULL \<or> p = Entry 2" for p
    using that by (auto simp: entry_addr_def compare_def)
  then have n: "qsort_bsearch entry_addr ps 1 False"
    using ps(1) unfolding qsort_bsearch_def by (auto split: if_splits)
  from hz_go [OF ps(2) hz_step.scan [OF t(1) hazptr_scan.take_list [of _ 1 ps Exit_Loop]]]
  have "hz_reachable entry_addr (?e\<lparr>rlist := (\<lambda>_. []), rcount := (\<lambda>_. 0), hpc := (hpc ?e)(1 := Sift [1] ps Exit_Loop)\<rparr>)"
    by (simp add: two_routes_def fun_upd_idem)
  from hz_go [OF this hz_step.scan [OF t(1) hazptr_scan.hazptr_free [of _ 1 1 "[]" ps Exit_Loop]]] n
  have r: "hz_reachable entry_addr (?e\<lparr>rlist := (\<lambda>_. []), rcount := (\<lambda>_. 0), mem := (mem ?e)(1 := Freed),
      hpc := (hpc ?e)(1 := Sift [] ps Exit_Loop)\<rparr>)" (is "hz_reachable entry_addr ?f")
    by simp
  have "hz_step entry_addr ?f None (?f\<lparr>hpc := (hpc ?f)(0 := Crash)\<rparr>)"
    by (rule hz_step.lookup [OF t(2)], rule route_lookup.freed) (simp add: touch_ok_def two_routes_def)
  with r entry_near show ?thesis by (intro conjI exI [of _ ?f] exI) (auto simp: two_routes_def)
qed

section \<open>Entries that are far apart\<close>

text \<open>Entry 1 and all others 16 GiB apart: each compares as less than the other.\<close>

definition far_addr :: "nat \<Rightarrow> ulong" where
  "far_addr e = (if e = 1 then 0x1000 else 0x400001000)"

lemma far_search:
  assumes "Entry 1 \<in> set ps"
  shows "qsort_bsearch far_addr ps 2 False"
proof -
  let ?as = "map (ptr_addr far_addr) (Entry 2 # ps)"
  have m: "0x400001000 \<in> set ?as" "0x1000 \<in> set ?as"
    using assms by (auto simp: far_addr_def image_iff intro!: bexI [of _ "Entry 1"])
  have "sint (compare 0x1000 0x400001000) < 0" "sint (compare 0x400001000 0x1000) < 0"
    by (simp_all add: compare_def)
  with consistentD(1) [of ?as, OF _ m m(1)] have "\<not> consistent ?as" by fastforce
  then show ?thesis unfolding qsort_bsearch_def by blast
qed

lemma deref_frame [simp]:
  "deref (s\<lparr>hpc := q\<rparr>) p = deref s p" "deref (s\<lparr>HP := h\<rparr>) p = deref s p"
  by (cases p; simp)+

text \<open>A reader announces the entry that its link points to.\<close>

lemma announce:
  assumes r: "hz_reachable addr s" and t: "t < NR_THREADS" and pc: "hpc s t = Try a p" and d: "deref s p = Entry e"
    and ok: "\<And>x. p = Next x \<Longrightarrow> mem s x = Allocated"
  shows "hz_reachable addr (s\<lparr>HP := (HP s)(K * t := Entry e), hpc := (hpc s)(t := Check a e)\<rparr>)"
proof -
  note go = hz_go [OF _ hz_step.lookup [OF t route_lookup.try_record]]
  have ok: "touch_ok s' t" if "hpc s' t = Try a p \<or> hpc s' t = Record a p e \<or> hpc s' t = Reread a p e" "mem s' = mem s" for s'
    using that ok by (cases p) (auto simp: touch_ok_def)
  from go [OF r ok hp_try_record.first [OF pc d]] pc
  have r1: "hz_reachable addr (s\<lparr>hpc := (hpc s)(t := Record a p e)\<rparr>)" by simp
  let ?s2 = "s\<lparr>HP := (HP s)(K * t := Entry e), hpc := (hpc s)(t := Reread a p e)\<rparr>"
  from go [OF r1 ok hp_try_record.store [of _ t a p e]] have r2: "hz_reachable addr ?s2" by simp
  from go [OF r2 ok hp_try_record.same [of _ t a p e]] d show ?thesis by simp
qed

lemma call_lookup:
  assumes "hz_reachable addr s" and "t < NR_THREADS" and "hpc s t = Idle"
  shows "hz_reachable addr (s\<lparr>hpc := (hpc s)(t := Try a Header)\<rparr>)"
  by (rule hz_go [OF assms(1) hz_step.lookup [OF assms(2) route_lookup.call [OF assms(3)]]])

text \<open>Threads 0 and 2 have announced the entries 2 and 1.\<close>

definition far_routes :: hz_state where
  "far_routes = (two_routes (Check 20 2) (Entry 2))\<lparr>HP := (\<lambda>_. NULL)(0 := Entry 2, 4 := Entry 1),
     hpc := (\<lambda>_. Idle)(0 := Check 20 2, 2 := Check 10 1)\<rparr>"

lemma reach_far_routes: "hz_reachable addr far_routes"
proof -
  have t: "0 < NR_THREADS" "2 < NR_THREADS" by (simp_all add: NR_THREADS_def)
  from call_lookup [OF reach_two_routes t(2), where a = 10]
  have "hz_reachable addr ((two_routes Idle NULL)\<lparr>hpc := (hpc (two_routes Idle NULL))(2 := Try 10 Header)\<rparr>)"
    by (simp add: two_routes_def)
  from announce [OF this t(2), where a = 10 and p = Header and e = 1]
  have "hz_reachable addr ((two_routes Idle NULL)\<lparr>HP := (\<lambda>_. NULL)(4 := Entry 1), hpc := (\<lambda>_. Idle)(2 := Check 10 1)\<rparr>)"
    by (simp add: two_routes_def K_def fun_upd_idem)
  from call_lookup [OF this t(1), where a = 20]
  have "hz_reachable addr ((two_routes Idle NULL)\<lparr>HP := (\<lambda>_. NULL)(4 := Entry 1),
      hpc := (\<lambda>_. Idle)(2 := Check 10 1, 0 := Try 20 Header)\<rparr>)"
    by (simp add: two_routes_def)
  from announce [OF this t(1), where a = 20 and p = Header and e = 1]
  have "hz_reachable addr ((two_routes Idle NULL)\<lparr>HP := (\<lambda>_. NULL)(4 := Entry 1, 0 := Entry 1),
      hpc := (\<lambda>_. Idle)(2 := Check 10 1, 0 := Check 20 1)\<rparr>)"
    by (simp add: two_routes_def K_def)
  from hz_go [OF this hz_step.lookup [OF t(1) route_lookup.other [of _ 0 20 1]]]
  have "hz_reachable addr ((two_routes Idle NULL)\<lparr>HP := (\<lambda>_. NULL)(4 := Entry 1, 0 := Entry 1),
      hpc := (\<lambda>_. Idle)(2 := Check 10 1, 0 := Try 20 (Next 1))\<rparr>)"
    by (simp add: two_routes_def touch_ok_def)
  from announce [OF this t(1), where a = 20 and p = "Next 1" and e = 2] show ?thesis
    by (simp add: two_routes_def far_routes_def K_def fun_upd_twist)
qed

lemma hazptr_far_freed:
  "\<exists>s. hz_reachable far_addr s \<and> hpc s 0 = Check 20 2 \<and> HP s 0 = Entry 2 \<and> mem s 2 = Freed"
proof -
  have t: "1 < NR_THREADS" by (simp add: NR_THREADS_def)
  let ?s = far_routes
  have "del_walk ?s 20 Header (Next 1) 2"
    by (rule del_walk.further [of _ Header 1], simp_all add: far_routes_def two_routes_def)
      (rule del_walk.here, simp_all)
  from hz_go [OF reach_far_routes hz_step.update [OF t route_update.route_del [OF _ _ this]]]
  have r1: "hz_reachable far_addr (?s\<lparr>re_next := (\<lambda>_. NULL), routelock := Some 1, hpc := (hpc ?s)(1 := Poisoning 2)\<rparr>)"
    by (simp add: far_routes_def two_routes_def fun_upd_idem)
  let ?p = "?s\<lparr>re_next := (\<lambda>_. NULL)(2 := HAZPTR_POISON), rlist := (\<lambda>_. [])(1 := [2]),
    rcount := (\<lambda>_. 0)(1 := 1), hpc := (hpc ?s)(1 := Idle)\<rparr>"
  from hz_go [OF r1 hz_step.update [OF t route_update.poison [of _ 1 2]]]
  have r2: "hz_reachable far_addr ?p"
    by (simp add: far_routes_def two_routes_def hazptr_free_later_def R_def H_def K_def NR_THREADS_def)
  have hp: "(\<lambda>i. if K * 1 \<le> i \<and> i < K * 1 + K then NULL else HP ?p i) = HP ?s"
    by (auto simp: far_routes_def K_def)
  have "?p\<lparr>HP := HP ?s\<rparr> = ?p" by simp
  with hz_go [OF r2 hz_step.exit [OF t hazptr_thread_exit.clear [of _ 1]], unfolded hp]
  have "hz_reachable far_addr (?p\<lparr>hpc := (hpc ?p)(1 := Exit)\<rparr>)" by simp
  from hz_go [OF this hz_step.exit [OF t hazptr_thread_exit.scan [of _ 1]]]
  have "hz_reachable far_addr (?p\<lparr>hpc := (hpc ?p)(1 := Scan 0 [] Exit_Loop)\<rparr>)" by simp
  from reach_scan [OF t this] obtain ps where ps: "set ps = HP ?p ` {0..<H} - {NULL}"
    "hz_reachable far_addr (?p\<lparr>hpc := (hpc ?p)(1 := Scan H ps Exit_Loop)\<rparr>)" by auto
  have "HP ?p 4 = Entry 1" "4 < H" by (simp_all add: far_routes_def H_def K_def NR_THREADS_def)
  then have "Entry 1 \<in> set ps" unfolding ps(1) by (metis DiffI atLeast0LessThan image_eqI lessThan_iff ptr.distinct(3) singletonD)
  note n = far_search [OF this]
  from hz_go [OF ps(2) hz_step.scan [OF t hazptr_scan.take_list [of _ 1 ps Exit_Loop]]]
  have "hz_reachable far_addr (?p\<lparr>rlist := (\<lambda>_. []), rcount := (\<lambda>_. 0), hpc := (hpc ?p)(1 := Sift [2] ps Exit_Loop)\<rparr>)"
    by (simp add: fun_upd_idem)
  from hz_go [OF this hz_step.scan [OF t hazptr_scan.hazptr_free [of _ 1 2 "[]" ps Exit_Loop, OF _ n]]]
  have "hz_reachable far_addr (?p\<lparr>rlist := (\<lambda>_. []), rcount := (\<lambda>_. 0), mem := (mem ?p)(2 := Freed),
      hpc := (hpc ?p)(1 := Sift [] ps Exit_Loop)\<rparr>)" (is "hz_reachable _ ?f") by simp
  then show ?thesis by (intro exI [of _ ?f]) (auto simp: far_routes_def)
qed

text \<open>C9: hazard pointers keep what they announce, provided that all entries have addresses in a range
  of 16 GiB (\<open>heap_near\<close>): the comparison of \<open>hazptr_scan\<close> truncates a difference to \<open>int\<close>, and
  with entries farther apart \<open>bsearch\<close> may miss a hazard pointer (\<open>qsort_bsearch_misses\<close>). Under that
  condition, in every interleaving of lookups, insertions,
  deletions, clearings, scans and thread exits, a reader accesses only entries that have not been
  freed, except possibly in the second \<open>READ_ONCE(*p)\<close> of \<open>hp_try_record\<close>; a lookup that returns an
  interface has found it in an entry for the address that is still allocated; and no entry is freed
  twice. Without it there is a run in which a scan frees the entry that a reader has announced and is
  about to read.\<close>

theorem hazptr_reader_safe:
  "(\<forall>addr s. heap_near addr \<and> hz_reachable addr s \<longrightarrow>
     (\<forall>t e. touches (hpc s t) = Some e \<and> mem s e \<noteq> Allocated \<longrightarrow> (\<exists>a x. hpc s t = Reread a (Next e) x)) \<and>
     (\<forall>a v s'. hz_step addr s (Some (a, v)) s' \<longrightarrow> v = - 1 \<or>
       (\<exists>e. mem s e = Allocated \<and> re_addr s e = a \<and> re_iface s e = v)) \<and>
     (\<forall>t cur tmplist plist k. hpc s t = Sift (cur # tmplist) plist k \<longrightarrow> mem s cur = Allocated)) \<and>
   (\<exists>addr s. hz_reachable addr s \<and> hpc s 0 = Check 20 2 \<and> HP s 0 = Entry 2 \<and> mem s 2 = Freed)"
  using hazptr_near_safe hazptr_far_freed by blast

theorem hazptr_reader_safe_witness:
  "heap_near entry_addr \<and> hz_reachable entry_addr (two_routes (Check 20 1) (Entry 1)) \<and>
   mem (two_routes (Check 20 1) (Entry 1)) 1 = Allocated"
proof -
  have "touches (hpc (two_routes (Check 20 1) (Entry 1)) 0) = Some 1" by (simp add: two_routes_def)
  with hazptr_reader_safe [THEN conjunct1, rule_format, OF conjI [OF entry_near reach_check]]
  have "mem (two_routes (Check 20 1) (Entry 1)) 1 = Allocated"
    by (auto simp: two_routes_def)
  with entry_near reach_check show ?thesis by blast
qed

end
