(* ===== verification/Route_Seqlock.thy ===== *)
theory Route_Seqlock
  imports Prelude
begin

unbundle bit_operations_syntax

text \<open>
  defer/seqlock.h and its client defer/route_seqlock.c: lookups run without a lock and are repeated
  when the sequence number shows that a writer has interfered.

  The model has one transition per access of the sequence number and of the list by a reader and
  per call of the lock functions or write of the list by a writer. The fields of a new entry are
  private until it is linked, so their assignment is one transition with the linking. An address
  stands for one allocation.
\<close>

section \<open>The sequence lock\<close>

record seqlock =
  seq :: ulong
  slock :: "nat option"

definition seqlock_init :: seqlock where
  "seqlock_init = \<lparr>seq = 0, slock = None\<rparr>"

definition read_seqbegin :: "seqlock \<Rightarrow> ulong" where
  "read_seqbegin sl = seq sl AND NOT 1"

definition read_seqretry :: "seqlock \<Rightarrow> ulong \<Rightarrow> bool" where
  "read_seqretry sl oldseq \<longleftrightarrow> seq sl \<noteq> oldseq"

text \<open>\<open>write_seqlock\<close> takes the lock and then increments; \<open>write_sequnlock\<close> increments and then
  gives the lock back.\<close>

definition seq_inc :: "seqlock \<Rightarrow> seqlock" where
  "seq_inc sl = sl\<lparr>seq := seq sl + 1\<rparr>"

section \<open>The routing table\<close>

datatype link = Header | Next nat

datatype mem = Unused | Allocated | Freed

datatype command = Route_Add ulong ulong | Route_Del ulong | Route_Clear

datatype sq_pc = Idle
  | Retry ulong                       \<comment> \<open>\<open>route_lookup\<close>, before \<open>read_seqbegin\<close>\<close>
  | Walk ulong ulong nat link         \<comment> \<open>before \<open>READ_ONCE( *repp)\<close>\<close>
  | Check ulong ulong nat nat         \<comment> \<open>before the comparison of \<open>rep->addr\<close>\<close>
  | Found ulong ulong nat nat         \<comment> \<open>before the reads of \<open>re_freed\<close> and \<open>iface\<close>\<close>
  | Validate ulong ulong nat ulong    \<comment> \<open>before \<open>read_seqretry\<close>, with the value to return\<close>
  | Crash                             \<comment> \<open>\<open>abort\<close>, or freed memory has been accessed\<close>
  | Locked command | Inside command   \<comment> \<open>before and after the first increment\<close>
  | Clearing "nat option"             \<comment> \<open>loop of \<open>route_clear\<close>\<close>
  | Unlock "nat option" | Unlocked "nat option"  \<comment> \<open>\<open>write_sequnlock\<close>, with the entry to free\<close>
  | Free nat

text \<open>The ghost \<open>writes\<close> counts the increments of \<open>seq\<close>, and a reader keeps it in the third argument
  of its program counter.\<close>

record sq_state =
  route_list :: "nat option"
  re_next :: "nat \<Rightarrow> nat option"
  re_addr :: "nat \<Rightarrow> ulong"
  re_iface :: "nat \<Rightarrow> ulong"
  mem :: "nat \<Rightarrow> mem"
  sl :: seqlock
  writes :: nat
  spc :: "nat \<Rightarrow> sq_pc"

fun deref :: "sq_state \<Rightarrow> link \<Rightarrow> nat option" where
  "deref s Header = route_list s"
| "deref s (Next e) = re_next s e"

fun set_link :: "link \<Rightarrow> nat option \<Rightarrow> sq_state \<Rightarrow> sq_state" where
  "set_link Header p s = s\<lparr>route_list := p\<rparr>"
| "set_link (Next e) p s = s\<lparr>re_next := (re_next s)(e := p)\<rparr>"

definition write_inc :: "sq_state \<Rightarrow> sq_state" where
  "write_inc s = s\<lparr>sl := seq_inc (sl s), writes := writes s + 1\<rparr>"

fun touches :: "sq_pc \<Rightarrow> nat option" where
  "touches (Walk a q b (Next e)) = Some e"
| "touches (Check a q b e) = Some e"
| "touches (Found a q b e) = Some e"
| "touches p = None"

definition touch_ok :: "sq_state \<Rightarrow> nat \<Rightarrow> bool" where
  "touch_ok s t \<longleftrightarrow> (case touches (spc s t) of None \<Rightarrow> True | Some e \<Rightarrow> mem s e = Allocated)"

text \<open>A step labelled \<open>Some (a, v)\<close> returns \<open>v\<close> for address \<open>a\<close>; \<open>- 1\<close> is \<open>ULONG_MAX\<close>.\<close>

inductive route_lookup :: "nat \<Rightarrow> sq_state \<Rightarrow> (ulong \<times> ulong) option \<Rightarrow> sq_state \<Rightarrow> bool" for t s where
  call: "spc s t = Idle \<Longrightarrow> route_lookup t s None (s\<lparr>spc := (spc s)(t := Retry a)\<rparr>)"
| seqbegin: "spc s t = Retry a \<Longrightarrow> route_lookup t s None
     (s\<lparr>spc := (spc s)(t := Walk a (read_seqbegin (sl s)) (writes s) Header)\<rparr>)"
| walk: "spc s t = Walk a q b p \<Longrightarrow> touch_ok s t \<Longrightarrow> route_lookup t s None
     (s\<lparr>spc := (spc s)(t := case deref s p of None \<Rightarrow> Validate a q b (- 1) | Some e \<Rightarrow> Check a q b e)\<rparr>)"
| check: "spc s t = Check a q b e \<Longrightarrow> touch_ok s t \<Longrightarrow> route_lookup t s None
     (s\<lparr>spc := (spc s)(t := if re_addr s e \<noteq> a then Walk a q b (Next e) else Found a q b e)\<rparr>)"
| found: "spc s t = Found a q b e \<Longrightarrow> touch_ok s t \<Longrightarrow> route_lookup t s None
     (s\<lparr>spc := (spc s)(t := Validate a q b (re_iface s e))\<rparr>)"
| retry: "spc s t = Validate a q b v \<Longrightarrow> read_seqretry (sl s) q \<Longrightarrow> route_lookup t s None
     (s\<lparr>spc := (spc s)(t := Retry a)\<rparr>)"
| valid: "spc s t = Validate a q b v \<Longrightarrow> \<not> read_seqretry (sl s) q \<Longrightarrow> route_lookup t s (Some (a, v))
     (s\<lparr>spc := (spc s)(t := Idle)\<rparr>)"
| freed: "\<not> touch_ok s t \<Longrightarrow> route_lookup t s None (s\<lparr>spc := (spc s)(t := Crash)\<rparr>)"

text \<open>The loop of \<open>route_del\<close>: the link and the entry at which it stops.\<close>

inductive del_walk :: "sq_state \<Rightarrow> ulong \<Rightarrow> link \<Rightarrow> link \<Rightarrow> nat \<Rightarrow> bool" for s addr where
  here: "deref s p = Some e \<Longrightarrow> re_addr s e = addr \<Longrightarrow> del_walk s addr p p e"
| further: "deref s p = Some x \<Longrightarrow> re_addr s x \<noteq> addr \<Longrightarrow> del_walk s addr (Next x) q e \<Longrightarrow>
     del_walk s addr p q e"

inductive del_none :: "sq_state \<Rightarrow> ulong \<Rightarrow> link \<Rightarrow> bool" for s addr where
  at_end: "deref s p = None \<Longrightarrow> del_none s addr p"
| onward: "deref s p = Some x \<Longrightarrow> re_addr s x \<noteq> addr \<Longrightarrow> del_none s addr (Next x) \<Longrightarrow> del_none s addr p"

inductive route_update :: "nat \<Rightarrow> sq_state \<Rightarrow> sq_state \<Rightarrow> bool" for t s where
  acquire: "spc s t = Idle \<Longrightarrow> slock (sl s) = None \<Longrightarrow> route_update t s
     (s\<lparr>sl := (sl s)\<lparr>slock := Some t\<rparr>, spc := (spc s)(t := Locked c)\<rparr>)"
| write_seqlock: "spc s t = Locked c \<Longrightarrow> route_update t s
     ((write_inc s)\<lparr>spc := (spc s)(t := Inside c)\<rparr>)"
| route_add: "spc s t = Inside (Route_Add addr interface) \<Longrightarrow> mem s e = Unused \<Longrightarrow> route_update t s
     (s\<lparr>mem := (mem s)(e := Allocated), re_addr := (re_addr s)(e := addr),
        re_iface := (re_iface s)(e := interface), re_next := (re_next s)(e := route_list s),
        route_list := Some e, spc := (spc s)(t := Unlock None)\<rparr>)"
| route_del: "spc s t = Inside (Route_Del addr) \<Longrightarrow> del_walk s addr Header p e \<Longrightarrow> route_update t s
     ((set_link p (re_next s e) s)\<lparr>spc := (spc s)(t := Unlock (Some e))\<rparr>)"
| no_route: "spc s t = Inside (Route_Del addr) \<Longrightarrow> del_none s addr Header \<Longrightarrow> route_update t s
     (s\<lparr>spc := (spc s)(t := Unlock None)\<rparr>)"
| route_clear: "spc s t = Inside Route_Clear \<Longrightarrow> route_update t s
     (s\<lparr>route_list := None, spc := (spc s)(t := Clearing (route_list s))\<rparr>)"
| clear_one: "spc s t = Clearing (Some e) \<Longrightarrow> route_update t s
     (s\<lparr>mem := (mem s)(e := Freed), spc := (spc s)(t := Clearing (re_next s e))\<rparr>)"
| cleared: "spc s t = Clearing None \<Longrightarrow> route_update t s
     (s\<lparr>spc := (spc s)(t := Unlock None)\<rparr>)"
| write_sequnlock: "spc s t = Unlock x \<Longrightarrow> route_update t s
     ((write_inc s)\<lparr>spc := (spc s)(t := Unlocked x)\<rparr>)"
| release: "spc s t = Unlocked x \<Longrightarrow> route_update t s
     (s\<lparr>sl := (sl s)\<lparr>slock := None\<rparr>,
        spc := (spc s)(t := case x of None \<Rightarrow> Idle | Some e \<Rightarrow> Free e)\<rparr>)"
| free: "spc s t = Free e \<Longrightarrow> route_update t s
     (s\<lparr>mem := (mem s)(e := Freed), spc := (spc s)(t := Idle)\<rparr>)"

inductive sq_step :: "sq_state \<Rightarrow> (ulong \<times> ulong) option \<Rightarrow> sq_state \<Rightarrow> bool" where
  lookup: "route_lookup t s r s' \<Longrightarrow> sq_step s r s'"
| update: "route_update t s s' \<Longrightarrow> sq_step s None s'"

definition sq_init :: sq_state where
  "sq_init = \<lparr>route_list = None, re_next = (\<lambda>_. None), re_addr = (\<lambda>_. 0), re_iface = (\<lambda>_. 0),
     mem = (\<lambda>_. Unused), sl = seqlock_init, writes = 0, spc = (\<lambda>_. Idle)\<rparr>"

abbreviation sq_reachable :: "sq_state \<Rightarrow> bool" where
  "sq_reachable \<equiv> reachable (\<lambda>s. s = sq_init) (\<lambda>s s'. \<exists>r. sq_step s r s')"

section \<open>The invariant\<close>

text \<open>What a lookup that runs alone from \<open>p\<close> on returns.\<close>

inductive search :: "sq_state \<Rightarrow> ulong \<Rightarrow> link \<Rightarrow> ulong \<Rightarrow> bool" for s a where
  absent: "deref s p = None \<Longrightarrow> search s a p (- 1)"
| present: "deref s p = Some e \<Longrightarrow> re_addr s e = a \<Longrightarrow> search s a p (re_iface s e)"
| later: "deref s p = Some e \<Longrightarrow> re_addr s e \<noteq> a \<Longrightarrow> search s a (Next e) v \<Longrightarrow> search s a p v"

fun holder :: "sq_pc \<Rightarrow> bool" where
  "holder (Locked c) = True" | "holder (Inside c) = True" | "holder (Clearing p) = True"
| "holder (Unlock x) = True" | "holder (Unlocked x) = True" | "holder p = False"

fun writing :: "sq_pc \<Rightarrow> bool" where
  "writing (Inside c) = True" | "writing (Clearing p) = True" | "writing (Unlock x) = True"
| "writing p = False"

text \<open>The position of a reader that no writer has disturbed since its \<open>read_seqbegin\<close>.\<close>

fun on_track :: "sq_state \<Rightarrow> sq_pc \<Rightarrow> bool" where
  "on_track s (Walk a q b p) \<longleftrightarrow> (\<forall>v. search s a p v \<longrightarrow> search s a Header v)"
| "on_track s (Check a q b e) \<longleftrightarrow> (\<forall>v. (if re_addr s e = a then v = re_iface s e
     else search s a (Next e) v) \<longrightarrow> search s a Header v)"
| "on_track s (Found a q b e) \<longleftrightarrow> search s a Header (re_iface s e)"
| "on_track s (Validate a q b v) \<longleftrightarrow> search s a Header v"
| "on_track s p \<longleftrightarrow> True"

fun begun :: "sq_pc \<Rightarrow> (ulong \<times> nat) option" where
  "begun (Walk a q b p) = Some (q, b)" | "begun (Check a q b e) = Some (q, b)"
| "begun (Found a q b e) = Some (q, b)" | "begun (Validate a q b v) = Some (q, b)"
| "begun p = None"

definition reader_ok :: "sq_state \<Rightarrow> sq_pc \<Rightarrow> bool" where
  "reader_ok s p \<longleftrightarrow> (\<forall>q b. begun p = Some (q, b) \<longrightarrow> b \<le> writes s \<and> q = of_nat b AND NOT 1 \<and>
     (b = writes s \<and> even b \<longrightarrow> on_track s p))"

definition sq_inv :: "sq_state \<Rightarrow> bool" where
  "sq_inv s \<longleftrightarrow> seq (sl s) = of_nat (writes s) \<and> (\<forall>u. holder (spc s u) \<longleftrightarrow> slock (sl s) = Some u) \<and>
     (odd (writes s) \<longleftrightarrow> (\<exists>u. writing (spc s u))) \<and> (\<forall>t. reader_ok s (spc s t))"

end
