(* ===== verification/Seqlock_Safe.thy ===== *)
theory Seqlock_Safe
  imports Route_Seqlock
begin

unbundle bit_operations_syntax

text \<open>
  What \<open>read_seqretry\<close> of seqlock.h is for: a lookup of route_seqlock.c that returns has seen the
  table as it is at that moment. The sequence number wraps around, so this needs fewer than
  \<open>2 ^ 64 - 1\<close> increments during the lookup. And what it is not for: the lookup reads freed entries.
\<close>

section \<open>The sequence number\<close>

lemma clear_even: "even (a :: ulong) \<Longrightarrow> a AND NOT 1 = a"
  by (auto simp: bit_eq_iff bit_and_iff bit_not_iff bit_1_iff bit_0 intro: gr0I)

lemma clear_odd: "even (a :: ulong) \<Longrightarrow> (a + 1) AND NOT 1 = a"
proof -
  assume e: "even a"
  then have "a + 1 = a OR 1" using or_one_eq [of a] by simp
  then have "(a + 1) AND NOT 1 = (a AND NOT 1) OR (1 AND NOT 1)" by (simp only: bit.conj_disj_distrib2)
  with clear_even [OF e] show ?thesis by (simp del: bit.conj_disj_distrib2 push_bit_of_1)
qed

lemma of_nat_clear: "(of_nat b :: ulong) AND NOT 1 = of_nat (b - b mod 2)"
proof (cases "even b")
  case True
  then have "even (of_nat b :: ulong)" by (auto elim!: evenE)
  with True clear_even show ?thesis by simp
next
  case False
  then obtain k where "b = 2 * k + 1" by (rule oddE)
  with clear_odd [of "of_nat (2 * k)"] show ?thesis by (simp add: add.commute)
qed

lemma of_nat_ulong_eq:
  assumes "(of_nat a :: ulong) = of_nat b" and "b \<le> a" and "a - b < 2 ^ 64"
  shows "a = b"
proof -
  have "(of_nat (a - b) :: ulong) = 0" using assms by (simp add: of_nat_diff)
  then have "unat (of_nat (a - b) :: ulong) = 0" by simp
  then have "(a - b) mod 2 ^ 64 = 0" by (simp add: unat_of_nat)
  with assms show ?thesis by simp
qed

text \<open>An accepted sequence number is even and unchanged.\<close>

lemma seq_unchanged:
  assumes "(of_nat w :: ulong) = of_nat b AND NOT 1" and "b \<le> w" and "w - b < 2 ^ 64 - 1"
  shows "w = b" and "even b"
proof -
  let ?c = "b - b mod 2"
  have "w = ?c"
    by (rule of_nat_ulong_eq) (use assms of_nat_clear [of b] in \<open>auto simp: parity_cases mod_2_eq_odd\<close>)
  with assms(2) show "w = b" by simp
  with \<open>w = ?c\<close> show "even b" by presburger
qed

section \<open>Steps of readers\<close>

lemma search_cong:
  assumes "route_list s' = route_list s" and "re_next s' = re_next s" and "re_addr s' = re_addr s"
    and "re_iface s' = re_iface s"
  shows "search s' a p v = search s a p v"
proof -
  have d: "deref s' = deref s"
  proof (rule ext)
    show "deref s' q = deref s q" for q using assms by (cases q) simp_all
  qed
  have "search s a p v \<Longrightarrow> search s' a p v" by (induction rule: search.induct)
    (use assms d search.intros [of s'] in metis)+
  moreover have "search s' a p v \<Longrightarrow> search s a p v" by (induction rule: search.induct)
    (use assms d search.intros [of s] in metis)+
  ultimately show ?thesis by blast
qed

lemma reader_ok_cong:
  assumes "route_list s' = route_list s" and "re_next s' = re_next s" and "re_addr s' = re_addr s"
    and "re_iface s' = re_iface s" and "writes s' = writes s"
  shows "reader_ok s' p = reader_ok s p"
  using search_cong [OF assms(1-4)] assms by (cases p) (simp_all add: reader_ok_def)

lemma reader_neutral: "begun p = None \<Longrightarrow> reader_ok s p"
  by (simp add: reader_ok_def)

lemma reader_ok_pc: "reader_ok (s\<lparr>spc := f\<rparr>) p = reader_ok s p"
  by (rule reader_ok_cong) simp_all

lemma sq_move:
  assumes i: "sq_inv s" and p: "\<not> holder (spc s t)" "\<not> holder q" and r: "reader_ok s q"
  shows "sq_inv (s\<lparr>spc := (spc s)(t := q)\<rparr>)"
proof -
  have w: "writing p \<Longrightarrow> holder p" for p by (cases p) simp_all
  have "writing (((spc s)(t := q)) u) = writing (spc s u)" for u using p w by (cases "u = t") auto
  moreover have "holder (((spc s)(t := q)) u) = holder (spc s u)" for u using p by (cases "u = t") auto
  moreover have "reader_ok s (((spc s)(t := q)) u)" for u using i r by (cases "u = t") (simp_all add: sq_inv_def)
  ultimately show ?thesis using i by (simp add: sq_inv_def reader_ok_pc del: fun_upd_apply)
qed

lemma sq_lookup:
  assumes i: "sq_inv s" and st: "route_lookup t s r s'"
  shows "sq_inv s'"
proof -
  have o: "reader_ok s (spc s t)" and q: "seq (sl s) = of_nat (writes s)" using i by (simp_all add: sq_inv_def)
  show ?thesis using st
  proof cases
    case (call a)
    with sq_move [OF i, of t "Retry a"] reader_neutral show ?thesis by simp
  next
    case (seqbegin a)
    with sq_move [OF i, of t "Walk a (read_seqbegin (sl s)) (writes s) Header"] q show ?thesis
      by (simp add: reader_ok_def read_seqbegin_def)
  next
    case (walk a q b p)
    let ?q = "case deref s p of None \<Rightarrow> Validate a q b (- 1) | Some e \<Rightarrow> Check a q b e"
    have "on_track s (Walk a q b p) \<Longrightarrow> on_track s ?q"
      using search.intros [of s] by (auto split: option.split if_splits)
    then have "reader_ok s ?q" using o walk by (auto simp: reader_ok_def split: option.splits)
    with sq_move [OF i, of t ?q] walk show ?thesis by (auto split: option.splits)
  next
    case (check a q b e)
    let ?q = "if re_addr s e \<noteq> a then Walk a q b (Next e) else Found a q b e"
    have "reader_ok s ?q"
      using o check by (cases "re_addr s e = a") (auto simp: reader_ok_def)
    with sq_move [OF i, of t ?q] check show ?thesis by simp
  next
    case (found a q b e)
    then have "reader_ok s (Validate a q b (re_iface s e))" using o by (auto simp: reader_ok_def)
    with found sq_move [OF i, of t "Validate a q b (re_iface s e)"] show ?thesis by simp
  next
    case (retry a q b v)
    with sq_move [OF i, of t "Retry a"] reader_neutral show ?thesis by simp
  next
    case (valid a q b v)
    with sq_move [OF i, of t Idle] reader_neutral show ?thesis by simp
  next
    case freed
    then have "\<not> holder (spc s t)" by (cases "spc s t") (simp_all add: touch_ok_def)
    with freed sq_move [OF i, of t Crash] reader_neutral show ?thesis by simp
  qed
qed

section \<open>Steps of writers\<close>

text \<open>A writer inside its section disturbs only readers that will notice, and an increment all.\<close>

lemma sq_write:
  assumes i: "sq_inv s" and p: "writing (spc s t)" "writing q"
    and e: "sl s' = sl s" "writes s' = writes s" "spc s' = (spc s)(t := q)"
  shows "sq_inv s'"
proof -
  have h: "writing p \<Longrightarrow> holder p" "writing p \<Longrightarrow> begun p = None" for p by (cases p; simp)+
  have o: "odd (writes s)" using i p by (auto simp: sq_inv_def)
  have "reader_ok s' (spc s u)" for u
  proof -
    have "reader_ok s (spc s u)" using i by (simp add: sq_inv_def)
    with o e(2) show ?thesis by (auto simp: reader_ok_def)
  qed
  then have "reader_ok s' (spc s' u)" for u
    using e(3) h(2) [OF p(2)] reader_neutral by (cases "u = t") simp_all
  moreover have "holder (spc s' u) = holder (spc s u)" for u using e(3) h(1) p by (cases "u = t") simp_all
  moreover have "writing (spc s' u) = writing (spc s u)" for u using e(3) p by (cases "u = t") simp_all
  ultimately show ?thesis using i e by (simp add: sq_inv_def)
qed

lemma sq_inc:
  assumes i: "sq_inv s" and p: "holder (spc s t)" "holder q" "writing q \<longleftrightarrow> \<not> writing (spc s t)"
  shows "sq_inv ((write_inc s)\<lparr>spc := (spc s)(t := q)\<rparr>)" (is "sq_inv ?s")
proof -
  have b: "holder p \<Longrightarrow> begun p = None" "writing p \<Longrightarrow> holder p" for p by (cases p; simp)+
  have hs: "holder (spc s u) \<longleftrightarrow> u = t" for u using i p by (auto simp: sq_inv_def)
  then have ws: "\<not> writing (spc s u)" if "u \<noteq> t" for u using b(2) that by blast
  have "reader_ok ?s (spc ?s u)" for u
  proof (cases "u = t")
    case True
    with b(1) [OF p(2)] show ?thesis by (simp add: reader_neutral)
  next
    case False
    have "reader_ok s (spc s u)" using i by (simp add: sq_inv_def)
    with False show ?thesis by (auto simp: reader_ok_def write_inc_def)
  qed
  moreover have "odd (writes ?s) \<longleftrightarrow> (\<exists>u. writing (spc ?s u))"
  proof -
    have "(\<exists>u. writing (spc ?s u)) \<longleftrightarrow> writing q" using ws by (auto split: if_splits)
    moreover have "(\<exists>u. writing (spc s u)) \<longleftrightarrow> writing (spc s t)" using ws by metis
    ultimately show ?thesis using i p(3) by (simp add: sq_inv_def write_inc_def)
  qed
  moreover have "slock (sl s) = Some t" "seq (sl s) = of_nat (writes s)" using i p(1) by (simp_all add: sq_inv_def)
  then have "seq (sl ?s) = of_nat (writes ?s)" "holder (spc ?s u) \<longleftrightarrow> slock (sl ?s) = Some u" for u
    using p(2) hs by (simp_all add: write_inc_def seq_inc_def add.commute)
  ultimately show ?thesis unfolding sq_inv_def by blast
qed

lemma sq_lock:
  assumes i: "sq_inv s" and b: "begun q = None" "\<not> writing (spc s t)" "\<not> writing q"
    and l: "\<And>u. (if u = t then holder q else holder (spc s u)) \<longleftrightarrow> l = Some u"
    and e: "route_list s' = route_list s" "re_next s' = re_next s" "re_addr s' = re_addr s"
      "re_iface s' = re_iface s" "writes s' = writes s" "sl s' = (sl s)\<lparr>slock := l\<rparr>" "spc s' = (spc s)(t := q)"
  shows "sq_inv s'"
proof -
  have "reader_ok s' (spc s' u)" for u
    using i b(1) reader_neutral [of q] e(7) reader_ok_cong [OF e(1-5)]
    by (cases "u = t") (simp_all add: sq_inv_def)
  moreover have "writing (spc s' u) = writing (spc s u)" for u using b e(7) by (cases "u = t") simp_all
  moreover have "holder (spc s' u) \<longleftrightarrow> l = Some u" for u using l [of u] e(7) by (cases "u = t") simp_all
  ultimately show ?thesis using i e by (simp add: sq_inv_def)
qed

lemma set_link_simps [simp]:
  "sl (set_link p x s) = sl s" "writes (set_link p x s) = writes s" "spc (set_link p x s) = spc s"
  by (cases p; simp)+

lemma sq_update:
  assumes i: "sq_inv s" and st: "route_update t s s'"
  shows "sq_inv s'"
proof -
  have h: "holder (spc s u) \<longleftrightarrow> slock (sl s) = Some u" for u using i by (simp add: sq_inv_def)
  show ?thesis using st
  proof cases
    case (acquire c)
    then show ?thesis
      by (intro sq_lock [OF i, where t = t and q = "Locked c" and l = "Some t"]) (auto simp: h)
  next
    case (write_seqlock c)
    with sq_inc [OF i, of t "Inside c"] show ?thesis by simp
  next
    case (route_add addr interface e)
    then show ?thesis by (intro sq_write [OF i, where t = t and q = "Unlock None"]) simp_all
  next
    case (route_del addr p e)
    then show ?thesis by (intro sq_write [OF i, where t = t and q = "Unlock (Some e)"]) simp_all
  next
    case (no_route addr)
    then show ?thesis by (intro sq_write [OF i, where t = t and q = "Unlock None"]) simp_all
  next
    case route_clear
    then show ?thesis by (intro sq_write [OF i, where t = t and q = "Clearing (route_list s)"]) simp_all
  next
    case (clear_one e)
    then show ?thesis by (intro sq_write [OF i, where t = t and q = "Clearing (re_next s e)"]) simp_all
  next
    case cleared
    then show ?thesis by (intro sq_write [OF i, where t = t and q = "Unlock None"]) simp_all
  next
    case (write_sequnlock x)
    with sq_inc [OF i, of t "Unlocked x"] show ?thesis by simp
  next
    case (release x)
    then have "slock (sl s) = Some t" using h [of t] by simp
    with release show ?thesis
      by (intro sq_lock [OF i, where t = t and q = "case x of None \<Rightarrow> Idle | Some e \<Rightarrow> Free e" and l = None])
        (auto simp: h split: option.splits)
  next
    case (free e)
    then have "slock (sl s) \<noteq> Some t" using h [of t] by simp
    with free show ?thesis
      by (intro sq_lock [OF i, where t = t and q = Idle and l = "slock (sl s)"]) (auto simp: h)
  qed
qed

lemma sq_inv_reachable: "sq_reachable s \<Longrightarrow> sq_inv s"
proof (erule reachable_invariant)
  show "sq_inv s" if "s = sq_init" for s
    using that by (simp add: sq_inv_def sq_init_def seqlock_init_def reader_ok_def)
  show "sq_inv s'" if "sq_inv s" "\<exists>r. sq_step s r s'" for s s'
    using that by (auto elim!: sq_step.cases intro: sq_lookup sq_update)
qed

section \<open>Runs\<close>

lemma sq_go: "sq_reachable s \<Longrightarrow> sq_step s r s' \<Longrightarrow> sq_reachable s'"
  by (rule reachable.next_state) auto

text \<open>A table with one route, of interface 7 for address 20; thread 0 reads and thread 1 writes.\<close>

definition one_route :: "ulong \<Rightarrow> nat option \<Rightarrow> nat option \<Rightarrow> sq_pc \<Rightarrow> sq_pc \<Rightarrow> sq_state" where
  "one_route n l r p q = \<lparr>route_list = r, re_next = (\<lambda>_. None), re_addr = (\<lambda>_. 0)(1 := 20),
     re_iface = (\<lambda>_. 0)(1 := 7), mem = (\<lambda>_. Unused)(1 := Allocated), sl = \<lparr>seq = n, slock = l\<rparr>,
     writes = unat n, spc = (\<lambda>_. Idle)(0 := p, 1 := q)\<rparr>"

lemma reach_one_route: "sq_reachable (one_route 2 None (Some 1) Idle Idle)"
proof -
  note go = sq_go [OF _ sq_step.update]
  let ?s = "\<lambda>n l q. sq_init\<lparr>sl := \<lparr>seq = n, slock = l\<rparr>, writes := unat n, spc := (\<lambda>_. Idle)(1 := q)\<rparr>"
  have "sq_reachable sq_init" by (rule reachable.start) (rule refl)
  from go [OF this route_update.acquire [of _ 1 "Route_Add 20 7"]]
  have "sq_reachable (?s 0 (Some 1) (Locked (Route_Add 20 7)))"
    by (simp add: sq_init_def seqlock_init_def)
  from go [OF this route_update.write_seqlock [of _ 1 "Route_Add 20 7"]]
  have "sq_reachable (?s 1 (Some 1) (Inside (Route_Add 20 7)))"
    by (simp add: sq_init_def write_inc_def seq_inc_def)
  from go [OF this route_update.route_add [of _ 1 20 7 1]]
  have "sq_reachable (one_route 1 (Some 1) (Some 1) Idle (Unlock None))"
    by (simp add: sq_init_def one_route_def fun_upd_idem)
  from go [OF this route_update.write_sequnlock [of _ 1 None]]
  have "sq_reachable (one_route 2 (Some 1) (Some 1) Idle (Unlocked None))"
    by (simp add: one_route_def write_inc_def seq_inc_def del: One_nat_def)
  from go [OF this route_update.release [of _ 1 None]] show ?thesis by (simp add: one_route_def fun_upd_idem)
qed

lemma reach_check_route: "sq_reachable (one_route 2 None (Some 1) (Check 20 2 2 1) Idle)"
proof -
  note go = sq_go [OF _ sq_step.lookup]
  from go [OF reach_one_route route_lookup.call [of _ 0 20]]
  have "sq_reachable (one_route 2 None (Some 1) (Retry 20) Idle)" by (simp add: one_route_def fun_upd_twist)
  from go [OF this route_lookup.seqbegin [of _ 0 20]]
  have "sq_reachable (one_route 2 None (Some 1) (Walk 20 2 2 Header) Idle)"
    by (simp add: one_route_def read_seqbegin_def fun_upd_twist)
  from go [OF this route_lookup.walk [of _ 0 20 2 2 Header]] show ?thesis
    by (simp add: one_route_def touch_ok_def fun_upd_twist)
qed

text \<open>C11: when \<open>route_lookup\<close> on the sequence lock returns, no writer is between \<open>write_seqlock\<close> and
  \<open>write_sequnlock\<close>, and the result is the one that a lookup running alone on the table of that
  moment would give, however the steps of the lookup and of any number of writers have been
  interleaved; only \<open>2 ^ 64 - 1\<close> increments during one attempt could deceive \<open>read_seqretry\<close>.\<close>

theorem seqlock_lookup_snapshot:
  assumes "sq_reachable s" and "spc s t = Validate a q b v" and "route_lookup t s (Some (a, w)) s'"
    and "writes s - b < 2 ^ 64 - 1"
  shows "search s a Header w \<and> (\<forall>u. \<not> writing (spc s u))"
proof -
  have i: "sq_inv s" by (rule sq_inv_reachable [OF assms(1)])
  then have o: "reader_ok s (Validate a q b v)" using assms(2) by (metis sq_inv_def)
  from assms(3) have w: "w = v \<and> seq (sl s) = q"
  proof cases
    case (valid q b)
    with assms(2) show ?thesis by (simp add: read_seqretry_def)
  qed
  have "(of_nat (writes s) :: ulong) = of_nat b AND NOT 1" "b \<le> writes s"
    using o w i by (auto simp: reader_ok_def sq_inv_def)
  note u = seq_unchanged [OF this assms(4)]
  then have "even (writes s)" by simp
  with i have "\<forall>u. \<not> writing (spc s u)" by (auto simp: sq_inv_def)
  with o u w show ?thesis by (simp add: reader_ok_def)
qed

theorem seqlock_lookup_snapshot_witness:
  "\<exists>s s'. sq_reachable s \<and> route_lookup 0 s (Some (20, 7)) s' \<and> search s 20 Header 7"
proof -
  note go = sq_go [OF _ sq_step.lookup]
  from go [OF reach_check_route route_lookup.check [of _ 0 20 2 2 1]]
  have "sq_reachable (one_route 2 None (Some 1) (Found 20 2 2 1) Idle)"
    by (simp add: one_route_def touch_ok_def fun_upd_twist)
  from go [OF this route_lookup.found [of _ 0 20 2 2 1]]
  have r: "sq_reachable (one_route 2 None (Some 1) (Validate 20 2 2 7) Idle)" (is "sq_reachable ?s")
    by (simp add: one_route_def touch_ok_def fun_upd_twist)
  have p: "spc ?s 0 = Validate 20 2 2 7" by (simp add: one_route_def)
  have "\<not> read_seqretry (sl ?s) 2" by (simp add: one_route_def read_seqretry_def)
  note l = route_lookup.valid [OF p this]
  from seqlock_lookup_snapshot [OF r p l] r l show ?thesis by (auto simp: one_route_def)
qed

text \<open>The sequence number protects the result, but not the accesses on the way to it: a lookup
  that has reached an entry accesses it after \<open>route_del\<close> has freed it, before any \<open>read_seqretry\<close>
  can tell.\<close>

theorem seqlock_use_after_free:
  "\<exists>s s'. sq_reachable s \<and> spc s 0 = Check 20 2 2 1 \<and> mem s 1 = Freed \<and> sq_step s None s' \<and> spc s' 0 = Crash"
proof -
  note go = sq_go [OF _ sq_step.update]
  let ?c = "Check 20 2 2 1"
  from go [OF reach_check_route route_update.acquire [of _ 1 "Route_Del 20"]]
  have "sq_reachable (one_route 2 (Some 1) (Some 1) ?c (Locked (Route_Del 20)))" by (simp add: one_route_def)
  from go [OF this route_update.write_seqlock [of _ 1 "Route_Del 20"]]
  have r: "sq_reachable (one_route 3 (Some 1) (Some 1) ?c (Inside (Route_Del 20)))" (is "sq_reachable ?s")
    by (simp add: one_route_def write_inc_def seq_inc_def del: One_nat_def)
  have "del_walk ?s 20 Header Header 1" by (rule del_walk.here) (simp_all add: one_route_def)
  from go [OF r route_update.route_del [of _ 1, OF _ this]]
  have "sq_reachable (one_route 3 (Some 1) None ?c (Unlock (Some 1)))" by (simp add: one_route_def)
  from go [OF this route_update.write_sequnlock [of _ 1 "Some 1"]]
  have "sq_reachable (one_route 4 (Some 1) None ?c (Unlocked (Some 1)))"
    by (simp add: one_route_def write_inc_def seq_inc_def del: One_nat_def)
  from go [OF this route_update.release [of _ 1 "Some 1"]]
  have "sq_reachable (one_route 4 None None ?c (Free 1))" by (simp add: one_route_def)
  from go [OF this route_update.free [of _ 1 1]]
  have r: "sq_reachable ((one_route 4 None None ?c Idle)\<lparr>mem := (\<lambda>_. Unused)(1 := Freed)\<rparr>)"
    (is "sq_reachable ?f") by (simp add: one_route_def)
  have "sq_step ?f None (?f\<lparr>spc := (spc ?f)(0 := Crash)\<rparr>)"
    by (rule sq_step.lookup, rule route_lookup.freed) (simp add: touch_ok_def one_route_def)
  with r show ?thesis by (intro exI [of _ ?f] exI conjI) (auto simp: one_route_def)
qed

end
