(* ===== verification/Srcu.thy ===== *)
theory Srcu
  imports Rcu_Spec
begin

text \<open>
  defer/srcu.c: sleepable RCU, readers counted per processor and per parity of \<open>completed\<close>. A
  counter is incremented and decremented by a load and a store, without atomicity. The entry is that
  of \<open>smp_processor_id()\<close>, a variable of the thread which \<open>smp_init\<close> sets to 0 and
  \<open>set_smp_processor_id\<close> could change, but nothing in the repository calls that. So the state has the
  processors of the threads, which the steps do not change, and their values are a parameter.

  The functions use an RCU of the library: sections of that RCU enclose the accesses of a reader, and
  \<open>synchronize_rcu\<close> is modelled by what it promises, that it returns when the sections
  that were running at its call have ended (\<open>gp_wait\<close> are those that still run). \<open>Lock t\<close> and
  \<open>Unlock t\<close> are the stores of the outermost section of \<open>t\<close>, so that a section of the model contains
  the one of the caller. Sections nest, and end in reverse order.
\<close>

definition NR_CPUS :: nat where
  "NR_CPUS = 16"

datatype reader_pc = RIdle
  | REntered            \<comment> \<open>inside the RCU section of \<open>__srcu_read_lock\<close>\<close>
  | RFetched nat        \<comment> \<open>\<open>idx\<close> has been read\<close>
  | RLoaded nat int     \<comment> \<open>and the counter, to be incremented\<close>
  | RCounted
  | RLeaving            \<comment> \<open>inside the RCU section of \<open>__srcu_read_unlock\<close>\<close>
  | RUnloaded nat int   \<comment> \<open>the counter has been read, to be decremented\<close>
  | RLeft

datatype sync_pc = UIdle
  | Called nat | Locked nat        \<comment> \<open>with \<open>idx\<close>, the value of \<open>completed\<close> at the call\<close>
  | Sync1
  | Flipped nat | Sync2 nat        \<comment> \<open>with \<open>idx\<close>, the rank to wait for\<close>
  | Scan nat nat int               \<comment> \<open>\<open>srcu_readers_active_idx\<close> at \<open>cpu\<close>, with \<open>sum\<close>\<close>
  | Sync3

record srcu_state =
  completed :: nat
  per_thread_count :: "nat \<Rightarrow> nat \<Rightarrow> int"
  mutex :: "nat option"
  processor :: "nat \<Rightarrow> nat"          \<comment> \<open>\<open>smp_processor_id()\<close> of a thread\<close>
  held :: "nat \<Rightarrow> nat list"          \<comment> \<open>the indices that the open sections of a thread were given\<close>
  gp_wait :: "nat \<Rightarrow> nat set"
  rpc :: "nat \<Rightarrow> reader_pc"
  upc :: "nat \<Rightarrow> sync_pc"

definition init_srcu_struct :: "(nat \<Rightarrow> nat) \<Rightarrow> srcu_state" where
  "init_srcu_struct cpu = \<lparr>completed = 0, per_thread_count = (\<lambda>_ _. 0), mutex = None, processor = cpu,
     held = (\<lambda>_. []), gp_wait = (\<lambda>_. {}), rpc = (\<lambda>_. RIdle), upc = (\<lambda>_. UIdle)\<rparr>"

definition rcu_readers :: "srcu_state \<Rightarrow> nat set" where
  "rcu_readers s = {t. rpc s t \<noteq> RIdle}"

text \<open>\<open>per_thread(per_thread_count, smp_processor_id())\<close> of thread \<open>t\<close>: read, and written.\<close>

definition my_count :: "nat \<Rightarrow> srcu_state \<Rightarrow> nat \<Rightarrow> int" where
  "my_count t s = per_thread_count s (processor s t)"

definition set_count :: "nat \<Rightarrow> nat \<Rightarrow> int \<Rightarrow> srcu_state \<Rightarrow> srcu_state" where
  "set_count t i v s = s\<lparr>per_thread_count :=
     (per_thread_count s)(processor s t := (my_count t s)(i := v))\<rparr>"

inductive srcu_read_lock :: "nat \<Rightarrow> srcu_state \<Rightarrow> rcu_ev \<Rightarrow> srcu_state \<Rightarrow> bool" for t s where
  enter: "rpc s t = RIdle \<Longrightarrow> srcu_read_lock t s Tau (s\<lparr>rpc := (rpc s)(t := REntered)\<rparr>)"
| fetch: "rpc s t = REntered \<Longrightarrow> srcu_read_lock t s Tau
     (s\<lparr>rpc := (rpc s)(t := RFetched (completed s mod 2))\<rparr>)"
| load: "rpc s t = RFetched i \<Longrightarrow> srcu_read_lock t s Tau
     (s\<lparr>rpc := (rpc s)(t := RLoaded i (my_count t s i))\<rparr>)"
| increment: "rpc s t = RLoaded i v \<Longrightarrow> srcu_read_lock t s (if held s t = [] then Lock t else Tau)
     ((set_count t i (v + 1) s)\<lparr>held := (held s)(t := i # held s t), rpc := (rpc s)(t := RCounted)\<rparr>)"
| leave: "rpc s t = RCounted \<Longrightarrow> srcu_read_lock t s Tau
     (s\<lparr>gp_wait := (\<lambda>u. gp_wait s u - {t}), rpc := (rpc s)(t := RIdle)\<rparr>)"

inductive srcu_read_unlock :: "nat \<Rightarrow> srcu_state \<Rightarrow> rcu_ev \<Rightarrow> srcu_state \<Rightarrow> bool" for t s where
  enter: "rpc s t = RIdle \<Longrightarrow> held s t \<noteq> [] \<Longrightarrow> srcu_read_unlock t s Tau
     (s\<lparr>rpc := (rpc s)(t := RLeaving)\<rparr>)"
| load: "rpc s t = RLeaving \<Longrightarrow> held s t = i # is \<Longrightarrow> srcu_read_unlock t s Tau
     (s\<lparr>rpc := (rpc s)(t := RUnloaded i (my_count t s i))\<rparr>)"
| decrement: "rpc s t = RUnloaded i v \<Longrightarrow> held s t = i # is \<Longrightarrow>
     srcu_read_unlock t s (if is = [] then Unlock t else Tau)
     ((set_count t i (v - 1) s)\<lparr>held := (held s)(t := is), rpc := (rpc s)(t := RLeft)\<rparr>)"
| leave: "rpc s t = RLeft \<Longrightarrow> srcu_read_unlock t s Tau
     (s\<lparr>gp_wait := (\<lambda>u. gp_wait s u - {t}), rpc := (rpc s)(t := RIdle)\<rparr>)"

text \<open>Entering \<open>synchronize_rcu\<close>.\<close>

definition start_rcu :: "nat \<Rightarrow> srcu_state \<Rightarrow> srcu_state" where
  "start_rcu u s = s\<lparr>gp_wait := (gp_wait s)(u := rcu_readers s)\<rparr>"

inductive synchronize_srcu :: "nat \<Rightarrow> srcu_state \<Rightarrow> rcu_ev \<Rightarrow> srcu_state \<Rightarrow> bool" for u s where
  call: "upc s u = UIdle \<Longrightarrow> synchronize_srcu u s (Sync u) (s\<lparr>upc := (upc s)(u := Called (completed s))\<rparr>)"
| acquire: "upc s u = Called n \<Longrightarrow> mutex s = None \<Longrightarrow> synchronize_srcu u s Tau
     (s\<lparr>mutex := Some u, upc := (upc s)(u := Locked n)\<rparr>)"
| helped: "upc s u = Locked n \<Longrightarrow> completed s - n \<ge> 2 \<Longrightarrow> synchronize_srcu u s (Done u)
     (s\<lparr>mutex := None, upc := (upc s)(u := UIdle)\<rparr>)"
| first: "upc s u = Locked n \<Longrightarrow> completed s - n < 2 \<Longrightarrow> synchronize_srcu u s Tau
     ((start_rcu u s)\<lparr>upc := (upc s)(u := Sync1)\<rparr>)"
| flip: "upc s u = Sync1 \<Longrightarrow> gp_wait s u = {} \<Longrightarrow> synchronize_srcu u s Tau
     (s\<lparr>completed := completed s + 1, upc := (upc s)(u := Flipped (completed s mod 2))\<rparr>)"
| second: "upc s u = Flipped i \<Longrightarrow> synchronize_srcu u s Tau
     ((start_rcu u s)\<lparr>upc := (upc s)(u := Sync2 i)\<rparr>)"
| scan: "upc s u = Sync2 i \<Longrightarrow> gp_wait s u = {} \<Longrightarrow> synchronize_srcu u s Tau
     (s\<lparr>upc := (upc s)(u := Scan i 0 0)\<rparr>)"
| sum: "upc s u = Scan i cpu n \<Longrightarrow> cpu < NR_CPUS \<Longrightarrow> synchronize_srcu u s Tau
     (s\<lparr>upc := (upc s)(u := Scan i (Suc cpu) (n + per_thread_count s cpu i))\<rparr>)"
| poll: "upc s u = Scan i NR_CPUS n \<Longrightarrow> n \<noteq> 0 \<Longrightarrow> synchronize_srcu u s Tau
     (s\<lparr>upc := (upc s)(u := Scan i 0 0)\<rparr>)"
| third: "upc s u = Scan i NR_CPUS n \<Longrightarrow> n = 0 \<Longrightarrow> synchronize_srcu u s Tau
     ((start_rcu u s)\<lparr>upc := (upc s)(u := Sync3)\<rparr>)"
| release: "upc s u = Sync3 \<Longrightarrow> gp_wait s u = {} \<Longrightarrow> synchronize_srcu u s (Done u)
     (s\<lparr>mutex := None, upc := (upc s)(u := UIdle)\<rparr>)"

text \<open>The threads below \<open>n\<close> are readers.\<close>

inductive srcu_step :: "nat \<Rightarrow> srcu_state \<Rightarrow> rcu_ev \<Rightarrow> srcu_state \<Rightarrow> bool" for n where
  lock: "t < n \<Longrightarrow> srcu_read_lock t s e s' \<Longrightarrow> srcu_step n s e s'"
| unlock: "t < n \<Longrightarrow> srcu_read_unlock t s e s' \<Longrightarrow> srcu_step n s e s'"
| sync: "synchronize_srcu u s e s' \<Longrightarrow> srcu_step n s e s'"

text \<open>The condition under which no update of a counter is lost and the sum covers all of them.\<close>

definition distinct_cpus :: "nat \<Rightarrow> (nat \<Rightarrow> nat) \<Rightarrow> bool" where
  "distinct_cpus n cpu \<longleftrightarrow> inj_on cpu {..<n} \<and> (\<forall>t<n. cpu t < NR_CPUS)"

section \<open>The invariant\<close>

fun owner :: "sync_pc \<Rightarrow> bool" where
  "owner UIdle = False" | "owner (Called n) = False" | "owner p = True"

fun drain :: "sync_pc \<Rightarrow> nat option" where
  "drain (Flipped i) = Some i" | "drain (Sync2 i) = Some i" | "drain (Scan i cpu n) = Some i"
| "drain p = None"

text \<open>The rank that the updater with the mutex is draining.\<close>

definition draining :: "srcu_state \<Rightarrow> nat option" where
  "draining s = (case mutex s of None \<Rightarrow> None | Some h \<Rightarrow> drain (upc s h))"

text \<open>A reader may still be about to use the old rank only until the second \<open>synchronize_rcu\<close> ends.\<close>

fun stale :: "sync_pc \<Rightarrow> nat set \<Rightarrow> nat \<Rightarrow> bool" where
  "stale (Flipped i) W t = True" | "stale (Sync2 i) W t \<longleftrightarrow> t \<in> W" | "stale p W t = False"

fun fetched :: "reader_pc \<Rightarrow> nat option" where
  "fetched (RFetched i) = Some i" | "fetched (RLoaded i v) = Some i" | "fetched p = None"

text \<open>A loaded value stays that of the counter \<open>c\<close>.\<close>

fun load_ok :: "(nat \<Rightarrow> int) \<Rightarrow> nat list \<Rightarrow> reader_pc \<Rightarrow> bool" where
  "load_ok c h (RLoaded i v) \<longleftrightarrow> v = c i" | "load_ok c h (RUnloaded i v) \<longleftrightarrow> v = c i \<and> h \<noteq> [] \<and> hd h = i"
| "load_ok c h p \<longleftrightarrow> True"

text \<open>What an updater knows of the readers \<open>W\<close> it has to wait for.\<close>

fun sync_ok :: "srcu_state \<Rightarrow> sync_pc \<Rightarrow> nat set \<Rightarrow> bool" where
  "sync_ok s (Called n) W \<longleftrightarrow> n \<le> completed s \<and>
     (n < completed s \<longrightarrow> (\<forall>t\<in>W. draining s = Some (last (held s t))))"
| "sync_ok s (Locked n) W \<longleftrightarrow> n \<le> completed s \<and>
     (n < completed s \<longrightarrow> (\<forall>t\<in>W. draining s = Some (last (held s t))))"
| "sync_ok s (Flipped i) W \<longleftrightarrow> (\<forall>t\<in>W. last (held s t) = i)"
| "sync_ok s (Sync2 i) W \<longleftrightarrow> (\<forall>t\<in>W. last (held s t) = i)"
| "sync_ok s (Scan i cpu n) W \<longleftrightarrow> (\<forall>t\<in>W. last (held s t) = i) \<and> 0 \<le> n \<and>
     (n = 0 \<longrightarrow> (\<forall>t. processor s t < cpu \<longrightarrow> i \<notin> set (held s t)))"
| "sync_ok s Sync3 W \<longleftrightarrow> W = {}"
| "sync_ok s p W \<longleftrightarrow> True"

definition ranks_ok :: "srcu_state \<Rightarrow> bool" where
  "ranks_ok s \<longleftrightarrow> (\<forall>t. \<forall>i\<in>set (held s t). i < 2 \<and> (draining s = None \<longrightarrow> i = completed s mod 2)) \<and>
     (\<forall>i. draining s = Some i \<longrightarrow> i < 2 \<and> i \<noteq> completed s mod 2) \<and>
     (\<forall>t i. fetched (rpc s t) = Some i \<longrightarrow> i < 2 \<and> (i = completed s mod 2 \<or>
       (\<exists>h. mutex s = Some h \<and> stale (upc s h) (gp_wait s h) t)))"

definition srcu_inv :: "nat \<Rightarrow> srcu_state \<Rightarrow> gp \<Rightarrow> bool" where
  "srcu_inv n s g \<longleftrightarrow> ranks_ok s \<and> (\<forall>t<n. \<forall>i. my_count t s i = int (count_list (held s t) i)) \<and>
     (\<forall>t. held s t \<noteq> [] \<or> rpc s t \<noteq> RIdle \<longrightarrow> t < n) \<and>
     (\<forall>u. owner (upc s u) \<longleftrightarrow> mutex s = Some u) \<and> (\<forall>t. t \<in> cs g \<longleftrightarrow> held s t \<noteq> []) \<and>
     (\<forall>u. waitfor g u \<subseteq> cs g) \<and> (\<forall>u. sync_ok s (upc s u) (waitfor g u)) \<and>
     (\<forall>c i. c \<notin> processor s ` {..<n} \<longrightarrow> per_thread_count s c i = 0) \<and>
     (\<forall>t. load_ok (my_count t s) (held s t) (rpc s t)) \<and> distinct_cpus n (processor s)"

lemma srcu_invD:
  assumes "srcu_inv n s g"
  shows "ranks_ok s" and "t < n \<Longrightarrow> my_count t s i = int (count_list (held s t) i)"
    and "held s t \<noteq> [] \<or> rpc s t \<noteq> RIdle \<Longrightarrow> t < n"
    and "owner (upc s u) \<longleftrightarrow> mutex s = Some u" and "t \<in> cs g \<longleftrightarrow> held s t \<noteq> []"
    and "waitfor g u \<subseteq> cs g" and "sync_ok s (upc s u) (waitfor g u)"
    and "c \<notin> processor s ` {..<n} \<Longrightarrow> per_thread_count s c i = 0"
    and "load_ok (my_count t s) (held s t) (rpc s t)" and "distinct_cpus n (processor s)"
  using assms unfolding srcu_inv_def by blast+

lemma srcu_invI:
  assumes "ranks_ok s" and "\<And>t. held s t \<noteq> [] \<or> rpc s t \<noteq> RIdle \<Longrightarrow> t < n"
    and "\<And>t. t \<in> cs g \<longleftrightarrow> held s t \<noteq> []" and "\<And>u. waitfor g u \<subseteq> cs g"
    and "\<And>u. sync_ok s (upc s u) (waitfor g u)"
    and "\<And>t i. t < n \<Longrightarrow> my_count t s i = int (count_list (held s t) i)"
    and "\<And>c i. c \<notin> processor s ` {..<n} \<Longrightarrow> per_thread_count s c i = 0"
    and "\<And>t. load_ok (my_count t s) (held s t) (rpc s t)" and "distinct_cpus n (processor s)"
    and "\<And>u. owner (upc s u) \<longleftrightarrow> mutex s = Some u"
  shows "srcu_inv n s g"
  using assms unfolding srcu_inv_def by blast

lemma ranks_okD:
  assumes "ranks_ok s"
  shows "i \<in> set (held s t) \<Longrightarrow> i < 2 \<and> (draining s = None \<longrightarrow> i = completed s mod 2)"
    and "draining s = Some i \<Longrightarrow> i < 2 \<and> i \<noteq> completed s mod 2"
    and "fetched (rpc s t) = Some i \<Longrightarrow> i < 2 \<and> (i = completed s mod 2 \<or>
      (\<exists>h. mutex s = Some h \<and> stale (upc s h) (gp_wait s h) t))"
  using assms unfolding ranks_ok_def by blast+

lemma ranks_keep:
  assumes r: "ranks_ok s" and c: "completed s' = completed s" "draining s' = draining s"
    and h: "\<And>x i. i \<in> set (held s' x) \<Longrightarrow> i \<in> set (held s x) \<or>
      i < 2 \<and> (draining s = None \<longrightarrow> i = completed s mod 2)"
    and p: "\<And>x i. fetched (rpc s' x) = Some i \<Longrightarrow> i = completed s mod 2 \<or> fetched (rpc s x) = Some i \<and>
      (\<forall>h. mutex s = Some h \<and> stale (upc s h) (gp_wait s h) x \<longrightarrow>
        mutex s' = Some h \<and> stale (upc s' h) (gp_wait s' h) x)"
  shows "ranks_ok s'"
  unfolding ranks_ok_def
proof (intro conjI allI ballI impI)
  fix x i
  show "i < 2" if "i \<in> set (held s' x)" using h [OF that] ranks_okD(1) [OF r] by blast
  show "i = completed s' mod 2" if "i \<in> set (held s' x)" "draining s' = None"
    using h [OF that(1)] ranks_okD(1) [OF r] that(2) c by fastforce
  show "i < 2" "i \<noteq> completed s' mod 2" if "draining s' = Some i"
    using ranks_okD(2) [OF r, of i] that c by auto
  show "i < 2" if "fetched (rpc s' x) = Some i" using p [OF that] ranks_okD(3) [OF r, of x i] by auto
  show "i = completed s' mod 2 \<or> (\<exists>h. mutex s' = Some h \<and> stale (upc s' h) (gp_wait s' h) x)"
    if "fetched (rpc s' x) = Some i"
    using p [OF that] ranks_okD(3) [OF r, of x i] c(1) by auto
qed

lemma sync_ok_cong:
  assumes "sync_ok s p W" and "completed s' = completed s" and "draining s' = draining s"
    and "processor s' = processor s" and "W' \<subseteq> W" and "\<And>t. t \<in> W' \<Longrightarrow> last (held s' t) = last (held s t)"
    and "\<And>i t. drain p = Some i \<Longrightarrow> i \<in> set (held s' t) \<Longrightarrow> i \<in> set (held s t) \<or> \<not> p = Scan i (Suc t) 0 \<and> (\<nexists>cpu n. p = Scan i cpu n)"
  shows "sync_ok s' p W'"
  using assms by (cases p) (auto simp: subset_iff)

lemma stale_drain: "stale p W t \<Longrightarrow> drain p \<noteq> None"
  by (cases p) auto

lemma holder_draining:
  "srcu_inv n s g \<Longrightarrow> owner (upc s u) \<Longrightarrow> draining s = drain (upc s u)"
  by (simp add: srcu_inv_def draining_def)

lemma drain_owner: "drain p = Some i \<Longrightarrow> owner p"
  by (cases p) auto

section \<open>Readers\<close>

lemma my_count_upd [simp]:
  "my_count x (s\<lparr>held := h\<rparr>) = my_count x s" "my_count x (s\<lparr>rpc := p\<rparr>) = my_count x s"
  "my_count x (s\<lparr>upc := q\<rparr>) = my_count x s" "my_count x (s\<lparr>gp_wait := w\<rparr>) = my_count x s"
  "my_count x (s\<lparr>completed := m\<rparr>) = my_count x s"
  by (simp_all add: my_count_def)

lemma fetched_busy: "fetched p = Some i \<Longrightarrow> p \<noteq> RIdle"
  by auto

text \<open>Steps that change no section.\<close>

lemma srcu_quiet:
  assumes i: "srcu_inv n s g" and t: "t < n"
    and w: "\<And>h x. x \<noteq> t \<Longrightarrow> x \<in> gp_wait s h \<Longrightarrow> x \<in> w h"
    and r: "\<And>i. fetched q = Some i \<Longrightarrow> i = completed s mod 2 \<or> fetched (rpc s t) = Some i \<and> w = gp_wait s"
    and l: "load_ok (my_count t s) (held s t) q"
  shows "srcu_inv n (s\<lparr>gp_wait := w, rpc := (rpc s)(t := q)\<rparr>) g" (is "srcu_inv n ?s g")
proof -
  note v = srcu_invD [OF i]
  have d: "draining ?s = draining s" by (simp add: draining_def split: option.split)
  have st: "stale p (gp_wait s h) x \<Longrightarrow> x \<noteq> t \<Longrightarrow> stale p (w h) x" for p h x using w by (cases p) auto
  have rk: "ranks_ok ?s"
  proof (rule ranks_keep [OF v(1) _ d])
    show "j = completed s mod 2 \<or> fetched (rpc s x) = Some j \<and>
      (\<forall>h. mutex s = Some h \<and> stale (upc s h) (gp_wait s h) x \<longrightarrow>
        mutex ?s = Some h \<and> stale (upc ?s h) (gp_wait ?s h) x)" if "fetched (rpc ?s x) = Some j" for x j
      using that r st by (cases "x = t") auto
  qed simp_all
  have sx: "sync_ok ?s (upc ?s u) (waitfor g u)" for u
    using sync_ok_cong [OF v(7) [of u], of ?s] d by simp
  have m: "my_count x ?s = my_count x s" for x by (simp add: my_count_def)
  have lx: "load_ok (my_count x ?s) (held ?s x) (rpc ?s x)" for x
    using l v(9) [of x] by (cases "x = t") (simp_all add: m)
  show ?thesis
    by (rule srcu_invI [OF rk _ _ _ sx _ _ lx]) (use v(2-6,8,10) t m in \<open>auto split: if_splits\<close>)
qed

text \<open>A store, which concerns the counter of this thread alone.\<close>

lemma my_count_set:
  assumes "distinct_cpus n (processor s)" and "t < n" and "x < n"
  shows "my_count x (set_count t i v s) = (if x = t then (my_count t s)(i := v) else my_count x s)"
proof -
  have "processor s x = processor s t \<longleftrightarrow> x = t"
    using assms unfolding distinct_cpus_def by (metis inj_onD lessThan_iff)
  then show ?thesis by (simp add: my_count_def set_count_def)
qed

lemma set_count_frame [simp]:
  "completed (set_count t i v s) = completed s" "mutex (set_count t i v s) = mutex s"
  "processor (set_count t i v s) = processor s" "held (set_count t i v s) = held s"
  "gp_wait (set_count t i v s) = gp_wait s" "rpc (set_count t i v s) = rpc s" "upc (set_count t i v s) = upc s"
  by (simp_all add: set_count_def)

lemma srcu_store:
  assumes i: "srcu_inv n s g" and t: "t < n"
    and c: "c = int (count_list hs i)" "\<And>j. j \<noteq> i \<Longrightarrow> count_list hs j = count_list (held s t) j"
    and q: "q = RCounted \<or> q = RLeft"
    and g: "\<And>x. x \<in> cs g' \<longleftrightarrow> x \<in> cs g \<and> x \<noteq> t \<or> x = t \<and> hs \<noteq> []" "\<And>u. waitfor g' u \<subseteq> waitfor g u"
      "\<And>u. t \<in> waitfor g' u \<Longrightarrow> hs \<noteq> [] \<and> last hs = last (held s t)"
    and h: "\<And>j. j \<in> set hs \<Longrightarrow> j \<in> set (held s t) \<or> j < 2 \<and> (draining s = None \<longrightarrow> j = completed s mod 2)"
      "\<And>j u cpu m. j \<in> set hs \<Longrightarrow> upc s u = Scan j cpu m \<Longrightarrow> j \<in> set (held s t)"
  shows "srcu_inv n ((set_count t i c s)\<lparr>held := (held s)(t := hs), rpc := (rpc s)(t := q)\<rparr>) g'"
    (is "srcu_inv n ?s g'")
proof -
  note v = srcu_invD [OF i]
  have d: "draining ?s = draining s" by (simp add: draining_def split: option.split)
  have m: "my_count x ?s = (if x = t then (my_count t s)(i := c) else my_count x s)" if "x < n" for x
    using my_count_set [OF v(10) t that] by simp
  have r: "ranks_ok ?s"
    by (rule ranks_keep [OF v(1) _ d]) (use h(1) q in \<open>auto split: if_splits\<close>)
  have sx: "sync_ok ?s (upc ?s u) (waitfor g' u)" for u
  proof -
    have "sync_ok ?s (upc s u) (waitfor g' u)"
    proof (rule sync_ok_cong [OF v(7) _ d _ g(2)])
      show "last (held ?s x) = last (held s x)" if "x \<in> waitfor g' u" for x
        using that g(3) [of u] by (cases "x = t") auto
      show "j \<in> set (held s x) \<or> \<not> upc s u = Scan j (Suc x) 0 \<and> (\<nexists>cpu n. upc s u = Scan j cpu n)"
        if "drain (upc s u) = Some j" "j \<in> set (held ?s x)" for j x
        using that h(2) by (auto split: if_splits)
    qed simp_all
    then show ?thesis by simp
  qed
  have lt: "held ?s x \<noteq> [] \<or> rpc ?s x \<noteq> RIdle \<Longrightarrow> x < n" for x
    using v(3) [of x] t by (cases "x = t") simp_all
  have csx: "x \<in> cs g' \<longleftrightarrow> held ?s x \<noteq> []" for x using g(1) [of x] v(5) [of x] by (cases "x = t") auto
  have wx: "waitfor g' u \<subseteq> cs g'" for u
  proof
    fix x assume x: "x \<in> waitfor g' u"
    then have "x \<in> cs g" using g(2) [of u] v(6) [of u] by blast
    with x show "x \<in> cs g'" using g(1) [of x] g(3) [of u] by (cases "x = t") auto
  qed
  have cx: "my_count x ?s j = int (count_list (held ?s x) j)" if "x < n" for x j
    using m [OF that] v(2) [OF that, of j] v(2) [OF t, of j] c by (cases "x = t"; cases "j = i") simp_all
  have zx: "per_thread_count ?s y j = 0" if "y \<notin> processor ?s ` {..<n}" for y j
    using v(8) [of y j] that t by (auto simp: set_count_def)
  have lx: "load_ok (my_count x ?s) (held ?s x) (rpc ?s x)" for x
  proof (cases "x = t \<or> rpc s x = RIdle")
    case True
    with q show ?thesis by (cases "x = t") auto
  next
    case False
    then show ?thesis using v(9) [of x] v(3) [of x] m [of x] by simp
  qed
  show ?thesis
    by (rule srcu_invI [OF r lt csx wx sx cx zx lx]) (use v(4,10) in simp_all)
qed

lemma srcu_increment:
  assumes i: "srcu_inv n s g" and t: "t < n" and p: "rpc s t = RLoaded i c"
  shows "srcu_inv n ((set_count t i (c + 1) s)\<lparr>held := (held s)(t := i # held s t), rpc := (rpc s)(t := RCounted)\<rparr>)
    (gp_eff (if held s t = [] then Lock t else Tau) g)"
proof -
  note v = srcu_invD [OF i]
  have c: "c = int (count_list (held s t) i)" using v(9) [of t] v(2) [OF t] p by simp
  have i2: "i < 2" "i = completed s mod 2 \<or> (\<exists>h. mutex s = Some h \<and> stale (upc s h) (gp_wait s h) t)"
    using ranks_okD(3) [OF v(1), of t i] p by simp_all
  have cur: "i = completed s mod 2" if "draining s = None"
    using i2(2) that stale_drain by (fastforce simp: draining_def)
  have ns: "i \<noteq> j" if "upc s u = Scan j cpu m" for u j cpu m
  proof -
    have m: "mutex s = Some u" using v(4) [of u] that by simp
    then have "draining s = Some j" using that by (simp add: draining_def)
    then have "j \<noteq> completed s mod 2" using v(1) by (simp add: ranks_ok_def)
    with i2(2) m that show ?thesis by auto
  qed
  have e: "held s t \<noteq> []" if "t \<in> waitfor g u" for u using that v(5) [of t] v(6) [of u] by auto
  show ?thesis
    by (rule srcu_store [OF i t]) (use c i2(1) cur ns e v(5) [of t] in auto)
qed

lemma srcu_decrement:
  assumes i: "srcu_inv n s g" and p: "rpc s t = RUnloaded i c" and h: "held s t = i # is"
  shows "srcu_inv n ((set_count t i (c - 1) s)\<lparr>held := (held s)(t := is), rpc := (rpc s)(t := RLeft)\<rparr>)
    (gp_eff (if is = [] then Unlock t else Tau) g)"
proof -
  note v = srcu_invD [OF i]
  have t: "t < n" using v(3) [of t] h by simp
  have c: "c - 1 = int (count_list is i)" using v(9) [of t] v(2) [OF t, of i] p h by simp
  show ?thesis
    by (rule srcu_store [OF i t c]) (use h v(5) [of t] in \<open>auto split: if_splits\<close>)
qed

lemma srcu_reader_inv:
  "srcu_inv n s g \<Longrightarrow> t < n \<Longrightarrow> srcu_read_lock t s e s' \<Longrightarrow> srcu_inv n s' (gp_eff e g)"
  "srcu_inv n s g \<Longrightarrow> t < n \<Longrightarrow> srcu_read_unlock t s e s' \<Longrightarrow> srcu_inv n s' (gp_eff e g)"
proof -
  assume i: "srcu_inv n s g" and t: "t < n"
  have q: "srcu_inv n (s\<lparr>rpc := (rpc s)(t := q)\<rparr>) g"
    if "\<And>i. fetched q = Some i \<Longrightarrow> i = completed s mod 2 \<or> fetched (rpc s t) = Some i"
      "load_ok (my_count t s) (held s t) q" for q
    using srcu_quiet [OF i t, of "gp_wait s" q] that by simp
  show "srcu_inv n s' (gp_eff e g)" if "srcu_read_lock t s e s'"
    using that
  proof cases
    case enter
    with q [of REntered] show ?thesis by simp
  next
    case fetch
    with q [of "RFetched (completed s mod 2)"] show ?thesis by simp
  next
    case (load i)
    with q [of "RLoaded i (my_count t s i)"] show ?thesis by simp
  next
    case (increment i v)
    with srcu_increment [OF i t] show ?thesis by simp
  next
    case leave
    with srcu_quiet [OF i t, of "\<lambda>u. gp_wait s u - {t}" RIdle] show ?thesis by simp
  qed
  show "srcu_inv n s' (gp_eff e g)" if "srcu_read_unlock t s e s'"
    using that
  proof cases
    case enter
    with q [of RLeaving] show ?thesis by simp
  next
    case (load i "is")
    with q [of "RUnloaded i (my_count t s i)"] show ?thesis by simp
  next
    case (decrement i v "is")
    with srcu_decrement [OF i, of t i v "is"] show ?thesis by simp
  next
    case leave
    with srcu_quiet [OF i t, of "\<lambda>u. gp_wait s u - {t}" RIdle] show ?thesis by simp
  qed
qed

section \<open>Updaters\<close>

text \<open>Steps that neither flip nor finish draining.\<close>

lemma srcu_updater:
  assumes i: "srcu_inv n s g" and d: "draining s' = draining s"
    and e: "completed s' = completed s" "held s' = held s" "rpc s' = rpc s"
      "per_thread_count s' = per_thread_count s" "processor s' = processor s" "upc s' = (upc s)(u := q)"
    and o: "\<And>v. owner (upc s' v) \<longleftrightarrow> mutex s' = Some v"
    and st: "\<And>h t. mutex s = Some h \<Longrightarrow> stale (upc s h) (gp_wait s h) t \<Longrightarrow> rpc s t \<noteq> RIdle \<Longrightarrow>
      mutex s' = Some h \<and> stale (upc s' h) (gp_wait s' h) t"
    and w: "cs g' = cs g" "\<And>v. v \<noteq> u \<Longrightarrow> waitfor g' v = waitfor g v" "waitfor g' u \<subseteq> cs g"
    and q: "sync_ok s q (waitfor g' u)"
  shows "srcu_inv n s' g'"
proof -
  note v = srcu_invD [OF i]
  have r: "ranks_ok s'" by (rule ranks_keep [OF v(1) e(1) d]) (use e st fetched_busy in auto)
  have mx: "my_count x s' = my_count x s" for x by (simp add: my_count_def e)
  have lt: "held s' t \<noteq> [] \<or> rpc s' t \<noteq> RIdle \<Longrightarrow> t < n" for t using v(3) [of t] e by simp
  have csx: "t \<in> cs g' \<longleftrightarrow> held s' t \<noteq> []" for t using v(5) e w by simp
  have wx: "waitfor g' x \<subseteq> cs g'" for x using w v(6) by (cases "x = u") simp_all
  have "sync_ok s (upc s' x) (waitfor g' x)" for x using q w(2) v(7) e(6) by (cases "x = u") simp_all
  then have sx: "sync_ok s' (upc s' x) (waitfor g' x)" for x
    by (rule sync_ok_cong [OF _ e(1) d e(5) order_refl]) (use e in simp_all)
  show ?thesis by (rule srcu_invI [OF r lt csx wx sx]) (use e o v(2,8-10) mx in simp_all)
qed

lemma start_rcu_simps [simp]:
  "completed (start_rcu u s) = completed s" "held (start_rcu u s) = held s" "rpc (start_rcu u s) = rpc s"
  "per_thread_count (start_rcu u s) = per_thread_count s" "upc (start_rcu u s) = upc s"
  "mutex (start_rcu u s) = mutex s" "processor (start_rcu u s) = processor s"
  "my_count t (start_rcu u s) = my_count t s"
  by (simp_all add: start_rcu_def)

text \<open>The flip: all open sections are on the rank that is drained from now on.\<close>

lemma srcu_flip:
  assumes i: "srcu_inv n s g" and p: "upc s u = Sync1"
  shows "srcu_inv n (s\<lparr>completed := completed s + 1, upc := (upc s)(u := Flipped (completed s mod 2))\<rparr>) g"
    (is "srcu_inv n ?s g")
proof -
  note v = srcu_invD [OF i]
  let ?i = "completed s mod 2"
  have m: "mutex s = Some u" using v(4) [of u] p by simp
  then have d: "draining s = None" "draining ?s = Some ?i" using p by (simp_all add: draining_def)
  have old: "j = ?i" if "j \<in> set (held s t)" for j t using ranks_okD(1) [OF v(1) that] d(1) by simp
  have ne: "(completed s + 1) mod 2 \<noteq> ?i" by presburger
  have r: "ranks_ok ?s"
    unfolding ranks_ok_def
  proof (intro conjI allI ballI impI)
    show "j < 2" if "j \<in> set (held ?s t)" for j t using ranks_okD(1) [OF v(1)] that by simp
    show "j = completed ?s mod 2" if "draining ?s = None" for j using d that by simp
    show "j < 2" "j \<noteq> completed ?s mod 2" if "draining ?s = Some j" for j using d that ne by auto
    show "j < 2" if "fetched (rpc ?s t) = Some j" for t j using ranks_okD(3) [OF v(1), of t j] that by simp
    show "j = completed ?s mod 2 \<or> (\<exists>h. mutex ?s = Some h \<and> stale (upc ?s h) (gp_wait ?s h) t)" for j t
      using m by simp
  qed
  have wl: "last (held s t) = ?i" if "t \<in> waitfor g x" for t x
  proof -
    have "held s t \<noteq> []" using that v(5) [of t] v(6) [of x] by auto
    then show ?thesis using old [of "last (held s t)" t] by simp
  qed
  have sx: "sync_ok ?s (upc ?s x) (waitfor g x)" for x
  proof (cases "x = u")
    case False
    then have "\<not> owner (upc s x)" using v(4) [of x] m by simp
    then show ?thesis using v(7) [of x] False d(2) wl by (cases "upc s x") auto
  qed (use wl in simp)
  show ?thesis
    by (rule srcu_invI [OF r _ _ _ sx]) (use v(2-6) v(8-10) p m in \<open>auto split: if_splits\<close>)
qed

text \<open>The end of the drain: no section is open on the old rank.\<close>

lemma srcu_drained:
  assumes i: "srcu_inv n s g" and p: "upc s u = Scan i NR_CPUS 0"
  shows "srcu_inv n ((start_rcu u s)\<lparr>upc := (upc s)(u := Sync3)\<rparr>) g" (is "srcu_inv n ?s g")
proof -
  note v = srcu_invD [OF i]
  have m: "mutex s = Some u" using v(4) [of u] p by simp
  then have d: "draining s = Some i" "draining ?s = None" using p by (simp_all add: draining_def)
  have no: "i \<notin> set (held s t)" for t
    using v(7) [of u] p v(3) [of t] v(10) by (cases "held s t = []") (auto simp: distinct_cpus_def)
  have i2: "i < 2" "i \<noteq> completed s mod 2" using ranks_okD(2) [OF v(1) d(1)] by simp_all
  have cur: "j < 2 \<and> j = completed s mod 2" if "j \<in> set (held s t)" for j t
  proof -
    have "j < 2" "j \<noteq> i" using ranks_okD(1) [OF v(1) that] no that by auto
    with i2 show ?thesis by presburger
  qed
  have r: "ranks_ok ?s"
    unfolding ranks_ok_def
  proof (intro conjI allI ballI impI)
    show "j < 2" if "j \<in> set (held ?s t)" for j t using cur that by simp
    show "j = completed ?s mod 2" if "j \<in> set (held ?s t)" for j t using cur that by simp
    show "j < 2" "j \<noteq> completed ?s mod 2" if "draining ?s = Some j" for j using d that by auto
    show "j < 2" if "fetched (rpc ?s t) = Some j" for t j using ranks_okD(3) [OF v(1), of t j] that by simp
    show "j = completed ?s mod 2 \<or> (\<exists>h. mutex ?s = Some h \<and> stale (upc ?s h) (gp_wait ?s h) t)"
      if "fetched (rpc ?s t) = Some j" for j t
      using ranks_okD(3) [OF v(1), of t j] that m p by simp
  qed
  have none: "waitfor g x = {}" if "\<forall>t\<in>waitfor g x. last (held s t) = i" for x
  proof -
    have "held s t \<noteq> []" if "t \<in> waitfor g x" for t using that v(5) [of t] v(6) [of x] by auto
    with that no show ?thesis by (metis equals0I last_in_set)
  qed
  have sx: "sync_ok ?s (upc ?s x) (waitfor g x)" for x
  proof (cases "x = u")
    case True
    then show ?thesis using none [of u] v(7) [of u] p by simp
  next
    case False
    then have "\<not> owner (upc s x)" using v(4) [of x] m by simp
    then show ?thesis using v(7) [of x] False d none [of x] by (cases "upc s x") auto
  qed
  show ?thesis
    by (rule srcu_invI [OF r _ _ _ sx]) (use v(2-6) v(8-10) p m in \<open>auto split: if_splits\<close>)
qed

lemma srcu_counts:
  assumes "srcu_inv n s g"
  shows "0 \<le> per_thread_count s c i"
    and "per_thread_count s c i = 0 \<Longrightarrow> processor s t = c \<Longrightarrow> i \<notin> set (held s t)"
proof -
  note v = srcu_invD [OF assms]
  show "0 \<le> per_thread_count s c i"
    using v(8) [of c i] v(2) by (cases "c \<in> processor s ` {..<n}") (auto simp: my_count_def)
  show "i \<notin> set (held s t)" if "per_thread_count s c i = 0" "processor s t = c"
    using that v(2) [of t i] v(3) [of t] by (cases "held s t = []") (auto simp: my_count_def count_list_0_iff)
qed

lemma srcu_sync_inv:
  assumes i: "srcu_inv n s g" and st: "synchronize_srcu u s e s'"
  shows "srcu_inv n s' (gp_eff e g)"
proof -
  note v = srcu_invD [OF i]
  have own: "mutex s = Some u" "\<And>x. x \<noteq> u \<Longrightarrow> \<not> owner (upc s x)" if "owner (upc s u)"
    using v(4) that by auto
  note upd = srcu_updater [OF i, where u = u]
  show ?thesis using st
  proof cases
    case call
    then have m: "mutex s \<noteq> Some u" using v(4) [of u] by simp
    show ?thesis
      by (rule upd [where q = "Called (completed s)"])
        (use call m v(4-6) in \<open>auto simp: draining_def split: option.split\<close>)
  next
    case (acquire n)
    then have "\<not> owner (upc s x)" for x using v(4) [of x] by simp
    then show ?thesis
      by (intro upd [where q = "Locked n"]) (use acquire v(6) v(7) [of u] in \<open>auto simp: draining_def\<close>)
  next
    case (helped n)
    with own show ?thesis
      by (intro upd [where q = UIdle]) (use v(6) in \<open>auto simp: draining_def\<close>)
  next
    case (first n)
    with own show ?thesis
      by (intro upd [where q = Sync1]) (use v(6) in \<open>auto simp: draining_def\<close>)
  next
    case flip
    with srcu_flip [OF i] show ?thesis by simp
  next
    case (second j)
    with own show ?thesis
      by (intro upd [where q = "Sync2 j"])
        (use v(6) v(7) [of u] in \<open>auto simp: draining_def start_rcu_def rcu_readers_def\<close>)
  next
    case (scan j)
    with own show ?thesis
      by (intro upd [where q = "Scan j 0 0"]) (use v(6) v(7) [of u] in \<open>auto simp: draining_def\<close>)
  next
    case (sum j cpu m)
    have "sync_ok s (Scan j (Suc cpu) (m + per_thread_count s cpu j)) (waitfor g u)"
      using v(7) [of u] srcu_counts [OF i, of cpu j] sum(3) by (auto simp: less_Suc_eq)
    with sum own show ?thesis
      by (intro upd [where q = "Scan j (Suc cpu) (m + per_thread_count s cpu j)"])
        (use v(6) in \<open>auto simp: draining_def\<close>)
  next
    case (poll j n)
    with own show ?thesis
      by (intro upd [where q = "Scan j 0 0"]) (use v(6) v(7) [of u] in \<open>auto simp: draining_def\<close>)
  next
    case (third j n)
    with srcu_drained [OF i] show ?thesis by simp
  next
    case release
    with own show ?thesis
      by (intro upd [where q = UIdle]) (use v(6) in \<open>auto simp: draining_def\<close>)
  qed
qed

definition srcu_start :: "nat \<Rightarrow> srcu_state \<Rightarrow> bool" where
  "srcu_start n s \<longleftrightarrow> (\<exists>cpu. s = init_srcu_struct cpu \<and> distinct_cpus n cpu)"

lemma srcu_observed_inv: "observed (srcu_start n) (srcu_step n) s g \<Longrightarrow> srcu_inv n s g"
proof (erule observed_invariant)
  show "srcu_inv n s gp_init" if "srcu_start n s" for s
    by (rule srcu_invI)
      (use that in \<open>auto simp: srcu_start_def init_srcu_struct_def gp_init_def ranks_ok_def draining_def my_count_def\<close>)
  show "srcu_inv n s' (gp_eff e g)" if "srcu_inv n s g" "srcu_step n s e s'" for s g e s'
    using that(2,1) by cases (auto intro: srcu_reader_inv srcu_sync_inv)
qed

lemma srcu_done_waits_for_none:
  assumes i: "srcu_inv n s g" and "srcu_step n s (Done u) s'"
  shows "waitfor g u = {}"
proof -
  note v = srcu_invD [OF i]
  have "synchronize_srcu u s (Done u) s'"
    using assms(2)
    by cases (auto elim!: srcu_read_lock.cases srcu_read_unlock.cases synchronize_srcu.cases
        intro: synchronize_srcu.intros split: if_splits)
  then show ?thesis
  proof cases
    case (helped n)
    have "mutex s = Some u" using v(4) [of u] helped by simp
    then have "draining s = None" using helped by (simp add: draining_def)
    then show ?thesis using v(7) [of u] helped by auto
  next
    case release
    then show ?thesis using v(7) [of u] by simp
  qed
qed

interpretation srcu: rcu_flavour "srcu_start n" "srcu_step n" for n
  by unfold_locales (rule srcu_done_waits_for_none [OF srcu_observed_inv])

section \<open>Counting the readers\<close>

text \<open>The sum as one call computes it when no reader moves, which \<open>cleanup_srcu_struct\<close> uses as a
  check. It then tells whether there is a reader.\<close>

definition srcu_readers_active_idx :: "srcu_state \<Rightarrow> nat \<Rightarrow> int" where
  "srcu_readers_active_idx s idx = fold (\<lambda>cpu sum. sum + per_thread_count s cpu idx) [0..<NR_CPUS] 0"

definition srcu_readers_active :: "srcu_state \<Rightarrow> int" where
  "srcu_readers_active s = srcu_readers_active_idx s 0 + srcu_readers_active_idx s 1"

definition srcu_batches_completed :: "srcu_state \<Rightarrow> nat" where
  "srcu_batches_completed s = completed s"

lemma fold_plus_upt: "fold (\<lambda>cpu sum. sum + f cpu) [0..<n] (0 :: int) = (\<Sum>cpu<n. f cpu)"
  by (induction n) simp_all

lemma srcu_readers_active_iff:
  assumes "srcu_inv n s g"
  shows "srcu_readers_active s = 0 \<longleftrightarrow> cs g = {}"
proof -
  note v = srcu_invD [OF assms]
  note pos = srcu_counts(1) [OF assms]
  have t: "processor s t < NR_CPUS" "t < n" if "held s t \<noteq> []" for t
    using v(3) [of t] v(10) that by (simp_all add: distinct_cpus_def)
  have z: "srcu_readers_active_idx s i = 0 \<longleftrightarrow> (\<forall>t. i \<notin> set (held s t))" "0 \<le> srcu_readers_active_idx s i" for i
  proof -
    have "srcu_readers_active_idx s i = 0 \<longleftrightarrow> (\<forall>c<NR_CPUS. per_thread_count s c i = 0)"
      by (simp add: srcu_readers_active_idx_def fold_plus_upt pos sum_nonneg_eq_0_iff Ball_def)
    also have "\<dots> \<longleftrightarrow> (\<forall>t. i \<notin> set (held s t))"
    proof (intro iffI allI impI)
      fix t assume "\<forall>c<NR_CPUS. per_thread_count s c i = 0"
      then show "i \<notin> set (held s t)"
        using t(1) [of t] srcu_counts(2) [OF assms _ refl] by (cases "held s t = []") auto
    next
      fix c assume "\<forall>t. i \<notin> set (held s t)" and "c < NR_CPUS"
      then show "per_thread_count s c i = 0"
        using v(8) [of c i] v(2) by (cases "c \<in> processor s ` {..<n}") (auto simp: my_count_def count_list_0_iff)
    qed
    finally show "srcu_readers_active_idx s i = 0 \<longleftrightarrow> (\<forall>t. i \<notin> set (held s t))" .
    show "0 \<le> srcu_readers_active_idx s i"
      by (simp add: srcu_readers_active_idx_def fold_plus_upt pos sum_nonneg)
  qed
  have "srcu_readers_active s = 0 \<longleftrightarrow> srcu_readers_active_idx s 0 = 0 \<and> srcu_readers_active_idx s 1 = 0"
    unfolding srcu_readers_active_def using z(2) [of 0] z(2) [of 1] by linarith
  also have "\<dots> \<longleftrightarrow> (\<forall>t. held s t = [])"
  proof -
    have "held s t = []" if "\<forall>t. 0 \<notin> set (held s t)" "\<forall>t. 1 \<notin> set (held s t)" for t
    proof (rule ccontr)
      assume "held s t \<noteq> []"
      then have h: "hd (held s t) \<in> set (held s t)" by simp
      then have "hd (held s t) < 2" using ranks_okD(1) [OF v(1)] by blast
      with that h show False by (auto simp: less_2_cases_iff)
    qed
    then show ?thesis using z(1) by auto
  qed
  also have "\<dots> \<longleftrightarrow> cs g = {}" using v(5) by auto
  finally show ?thesis .
qed

section \<open>A run of \<open>synchronize_srcu\<close>\<close>

text \<open>Only the updater \<open>u\<close> moves; the readers hold \<open>h\<close>, and all counters are zero.\<close>

definition alone :: "(nat \<Rightarrow> nat) \<Rightarrow> (nat \<Rightarrow> nat list) \<Rightarrow> nat \<Rightarrow> nat \<Rightarrow> nat option \<Rightarrow> sync_pc \<Rightarrow> srcu_state" where
  "alone cpu h u n m p = (init_srcu_struct cpu)\<lparr>completed := n, mutex := m, held := h, upc := (\<lambda>_. UIdle)(u := p)\<rparr>"

lemma alone_go:
  "observed st (srcu_step n) s g \<Longrightarrow> synchronize_srcu u s Tau s' \<Longrightarrow> observed st (srcu_step n) s' g"
  using observed.event [of st "srcu_step n" s g Tau s'] srcu_step.sync by simp

lemma alone_scan:
  "k \<le> NR_CPUS \<Longrightarrow> observed st (srcu_step n) (alone cpu h u 1 (Some u) (Scan 0 0 0)) g \<Longrightarrow>
    observed st (srcu_step n) (alone cpu h u 1 (Some u) (Scan 0 k 0)) g"
proof (induction k)
  case (Suc k)
  from alone_go [OF Suc.IH synchronize_srcu.sum [of _ u 0 k 0]] Suc.prems show ?case
    by (simp add: alone_def init_srcu_struct_def)
qed simp

lemma alone_steps:
  "synchronize_srcu u (alone cpu h u 0 None UIdle) (Sync u) (alone cpu h u 0 None (Called 0))"
  "synchronize_srcu u (alone cpu h u 0 None (Called 0)) Tau (alone cpu h u 0 (Some u) (Locked 0))"
  "synchronize_srcu u (alone cpu h u 0 (Some u) (Locked 0)) Tau (alone cpu h u 0 (Some u) Sync1)"
  "synchronize_srcu u (alone cpu h u 0 (Some u) Sync1) Tau (alone cpu h u 1 (Some u) (Flipped 0))"
  "synchronize_srcu u (alone cpu h u 1 (Some u) (Flipped 0)) Tau (alone cpu h u 1 (Some u) (Sync2 0))"
  "synchronize_srcu u (alone cpu h u 1 (Some u) (Sync2 0)) Tau (alone cpu h u 1 (Some u) (Scan 0 0 0))"
  "synchronize_srcu u (alone cpu h u 1 (Some u) (Scan 0 NR_CPUS 0)) Tau (alone cpu h u 1 (Some u) Sync3)"
  "synchronize_srcu u (alone cpu h u 1 (Some u) Sync3) (Done u) (alone cpu h u 1 None UIdle)"
  using synchronize_srcu.call [of "alone cpu h u 0 None UIdle" u]
    synchronize_srcu.acquire [of "alone cpu h u 0 None (Called 0)" u 0]
    synchronize_srcu.first [of "alone cpu h u 0 (Some u) (Locked 0)" u 0]
    synchronize_srcu.flip [of "alone cpu h u 0 (Some u) Sync1" u]
    synchronize_srcu.second [of "alone cpu h u 1 (Some u) (Flipped 0)" u 0]
    synchronize_srcu.scan [of "alone cpu h u 1 (Some u) (Sync2 0)" u 0]
    synchronize_srcu.third [of "alone cpu h u 1 (Some u) (Scan 0 NR_CPUS 0)" u 0 0]
    synchronize_srcu.release [of "alone cpu h u 1 (Some u) Sync3" u]
  by (simp_all add: alone_def init_srcu_struct_def start_rcu_def rcu_readers_def fun_upd_idem)

lemma alone_end:
  assumes "observed st (srcu_step n) (alone cpu h u 0 None UIdle) g"
  shows "observed st (srcu_step n) (alone cpu h u 1 (Some u) Sync3) (gp_eff (Sync u) g)"
proof -
  note o = observed.event [OF assms srcu_step.sync [OF alone_steps(1)]]
  note o = alone_go [OF o alone_steps(2)]
  note o = alone_go [OF o alone_steps(3)]
  note o = alone_go [OF o alone_steps(4)]
  note o = alone_go [OF o alone_steps(5)]
  note o = alone_go [OF o alone_steps(6)]
  note o = alone_scan [OF order_refl o]
  show ?thesis by (rule alone_go [OF o alone_steps(7)])
qed

lemma alone_start: "alone cpu (\<lambda>_. []) u 0 None UIdle = init_srcu_struct cpu"
  by (simp add: alone_def init_srcu_struct_def fun_upd_idem)

section \<open>Two readers on one processor\<close>

text \<open>The readers are threads 0 and 1, which have the same processor, as all threads have without a
  call of \<open>set_smp_processor_id\<close>.\<close>

definition pair :: "reader_pc \<Rightarrow> reader_pc \<Rightarrow> int \<Rightarrow> nat list \<Rightarrow> nat list \<Rightarrow> srcu_state" where
  "pair p q c h k = (init_srcu_struct (\<lambda>_. 0))\<lparr>per_thread_count := (\<lambda>_ _. 0)(0 := (\<lambda>_. 0)(0 := c)),
     held := (\<lambda>_. [])(0 := h, 1 := k), rpc := (\<lambda>_. RIdle)(0 := p, 1 := q)\<rparr>"

abbreviation pair_seen :: "srcu_state \<Rightarrow> gp \<Rightarrow> bool" where
  "pair_seen \<equiv> observed (\<lambda>s. s = init_srcu_struct (\<lambda>_. 0)) (srcu_step 2)"

lemma pair_lock:
  "pair_seen s g \<Longrightarrow> srcu_read_lock t s e s' \<Longrightarrow> t < 2 \<Longrightarrow> pair_seen s' (gp_eff e g)"
  using observed.event srcu_step.lock by metis

lemma pair_unlock:
  "pair_seen s g \<Longrightarrow> srcu_read_unlock t s e s' \<Longrightarrow> t < 2 \<Longrightarrow> pair_seen s' (gp_eff e g)"
  using observed.event srcu_step.unlock by metis

lemmas pair_defs = pair_def init_srcu_struct_def my_count_def set_count_def gp_init_def

lemma pair_loaded: "pair_seen (pair (RLoaded 0 0) (RLoaded 0 0) 0 [] []) gp_init"
proof -
  have "pair_seen (init_srcu_struct (\<lambda>_. 0)) gp_init" by (rule observed.start) simp
  then have o: "pair_seen (pair RIdle RIdle 0 [] []) gp_init" by (simp add: pair_defs fun_upd_idem)
  from pair_lock [OF o srcu_read_lock.enter [of _ 0]]
  have o: "pair_seen (pair REntered RIdle 0 [] []) gp_init" by (simp add: pair_defs fun_upd_twist)
  from pair_lock [OF o srcu_read_lock.fetch [of _ 0]]
  have o: "pair_seen (pair (RFetched 0) RIdle 0 [] []) gp_init" by (simp add: pair_defs fun_upd_twist)
  from pair_lock [OF o srcu_read_lock.load [of _ 0 0]]
  have o: "pair_seen (pair (RLoaded 0 0) RIdle 0 [] []) gp_init" by (simp add: pair_defs fun_upd_twist)
  from pair_lock [OF o srcu_read_lock.enter [of _ 1]]
  have o: "pair_seen (pair (RLoaded 0 0) REntered 0 [] []) gp_init" by (simp add: pair_defs)
  from pair_lock [OF o srcu_read_lock.fetch [of _ 1]]
  have o: "pair_seen (pair (RLoaded 0 0) (RFetched 0) 0 [] []) gp_init" by (simp add: pair_defs)
  from pair_lock [OF o srcu_read_lock.load [of _ 1 0]] show ?thesis by (simp add: pair_defs)
qed

lemma pair_lost:
  "pair_seen (pair RIdle RIdle 0 [] [0]) \<lparr>cs = {1}, waitfor = (\<lambda>_. {})\<rparr>"
proof -
  from pair_lock [OF pair_loaded srcu_read_lock.increment [of _ 0 0 0]]
  have o: "pair_seen (pair RCounted (RLoaded 0 0) 1 [0] []) \<lparr>cs = {0}, waitfor = (\<lambda>_. {})\<rparr>"
    by (simp add: pair_defs fun_upd_twist)
  from pair_lock [OF o srcu_read_lock.increment [of _ 1 0 0]]
  have o: "pair_seen (pair RCounted RCounted 1 [0] [0]) \<lparr>cs = {0, 1}, waitfor = (\<lambda>_. {})\<rparr>"
    by (simp add: pair_defs insert_commute)
  from pair_lock [OF o srcu_read_lock.leave [of _ 0]]
  have o: "pair_seen (pair RIdle RCounted 1 [0] [0]) \<lparr>cs = {0, 1}, waitfor = (\<lambda>_. {})\<rparr>"
    by (simp add: pair_defs fun_upd_twist)
  from pair_lock [OF o srcu_read_lock.leave [of _ 1]]
  have o: "pair_seen (pair RIdle RIdle 1 [0] [0]) \<lparr>cs = {0, 1}, waitfor = (\<lambda>_. {})\<rparr>"
    by (simp add: pair_defs)
  from pair_unlock [OF o srcu_read_unlock.enter [of _ 0]]
  have o: "pair_seen (pair RLeaving RIdle 1 [0] [0]) \<lparr>cs = {0, 1}, waitfor = (\<lambda>_. {})\<rparr>"
    by (simp add: pair_defs fun_upd_twist)
  from pair_unlock [OF o srcu_read_unlock.load [of _ 0 0 "[]"]]
  have o: "pair_seen (pair (RUnloaded 0 1) RIdle 1 [0] [0]) \<lparr>cs = {0, 1}, waitfor = (\<lambda>_. {})\<rparr>"
    by (simp add: pair_defs fun_upd_twist)
  from pair_unlock [OF o srcu_read_unlock.decrement [of _ 0 0 1 "[]"]]
  have o: "pair_seen (pair RLeft RIdle 0 [] [0]) \<lparr>cs = {1}, waitfor = (\<lambda>_. {})\<rparr>"
    by (simp add: pair_defs fun_upd_twist)
  from pair_unlock [OF o srcu_read_unlock.leave [of _ 0]] show ?thesis by (simp add: pair_defs fun_upd_twist)
qed

text \<open>One increment is lost, so the decrement of the first reader brings the sum to zero and
  \<open>synchronize_srcu\<close> returns while the second is still in the section that was open at the call.\<close>

theorem srcu_same_cpu:
  "\<exists>s g s'. observed (\<lambda>s. s = init_srcu_struct (\<lambda>_. 0)) (srcu_step 2) s g \<and> srcu_step 2 s (Done 2) s' \<and>
     waitfor g 2 = {1}"
proof -
  have "pair RIdle RIdle 0 [] [0] = alone (\<lambda>_. 0) ((\<lambda>_. [])(1 := [0])) 2 0 None UIdle"
    by (simp add: pair_def alone_def init_srcu_struct_def fun_upd_idem)
  from alone_end [OF pair_lost [unfolded this]]
  have "pair_seen (alone (\<lambda>_. 0) ((\<lambda>_. [])(1 := [0])) 2 1 (Some 2) Sync3)
      (gp_eff (Sync 2) \<lparr>cs = {1}, waitfor = (\<lambda>_. {})\<rparr>)" .
  with srcu_step.sync [OF alone_steps(8)] show ?thesis by fastforce
qed

lemma srcu_distinct_grace:
  assumes "inj_on cpu {..<n}" and "\<forall>t<n. cpu t < NR_CPUS"
    and "observed (\<lambda>s. s = init_srcu_struct cpu) (srcu_step n) s g" and "srcu_step n s (Done u) s'"
  shows "waitfor g u = {}"
proof (rule srcu.grace [OF _ assms(4)])
  show "observed (srcu_start n) (srcu_step n) s g"
    using assms(3)
    by (induction rule: observed.induct) (use assms(1,2) in \<open>auto intro: observed.intros simp: srcu_start_def distinct_cpus_def\<close>)
qed

text \<open>C12: when \<open>synchronize_srcu\<close> returns, by its own flip or because two flips by others show
  that it has been helped, no thread is still in a section that was open at the call, for nested
  sections too, provided that the \<open>n\<close> threads that read have distinct processor numbers below
  \<open>NR_CPUS\<close>, for each of which the sum has a counter. The repository sets no processor number, so that
  they all are 0, and then the guarantee does not hold: with two readers there is a run in which it
  returns although thread 1 is still in a section that was open at the call.\<close>

theorem srcu_grace_period:
  "(\<forall>cpu n s g u s'. inj_on cpu {..<n} \<and> (\<forall>t<n. cpu t < NR_CPUS) \<and>
      observed (\<lambda>s. s = init_srcu_struct cpu) (srcu_step n) s g \<and> srcu_step n s (Done u) s' \<longrightarrow> waitfor g u = {}) \<and>
   (\<exists>s g s'. observed (\<lambda>s. s = init_srcu_struct (\<lambda>_. 0)) (srcu_step 2) s g \<and> srcu_step 2 s (Done 2) s' \<and>
      waitfor g 2 = {1})"
  by (intro conjI allI impI srcu_same_cpu) (elim conjE, rule srcu_distinct_grace)

theorem srcu_grace_period_witness:
  "\<exists>s s'. observed (\<lambda>s. s = init_srcu_struct id) (srcu_step 3) s gp_init \<and> srcu_step 3 s (Done 2) s' \<and>
     waitfor gp_init 2 = {}"
proof -
  let ?s = "alone id (\<lambda>_. []) 2 1 (Some 2) Sync3"
  have "observed (\<lambda>s. s = init_srcu_struct id) (srcu_step 3) (alone id (\<lambda>_. []) 2 0 None UIdle) gp_init"
    by (rule observed.start) (rule alone_start)
  from alone_end [OF this] have o: "observed (\<lambda>s. s = init_srcu_struct id) (srcu_step 3) ?s gp_init"
    unfolding gp_eff_init .
  have c: "inj_on id {..<3 :: nat}" "\<forall>t<3. id t < NR_CPUS" by (simp_all add: NR_CPUS_def)
  note d = srcu_step.sync [OF alone_steps(8)]
  have "waitfor gp_init 2 = {}"
    by (rule srcu_grace_period [THEN conjunct1, rule_format, of id 3 ?s gp_init 2]) (use c o d in blast)
  with o d show ?thesis by blast
qed

end
