(* ===== verification/Locking.thy ===== *)
theory Locking
  imports Prelude
begin

text \<open>
  The two locks of locking/: bakery.c, a lock on loads and stores alone, and xchglock.c, a test and
  set lock. A transition is one access of a shared variable.
\<close>

section \<open>bakery.c\<close>

datatype bakery_pc = Outside
  | Flagged
  | Choosing nat "32 word" ulong   \<comment> \<open>first loop, with \<open>i\<close>, \<open>max\<close> and \<open>maxv\<close>\<close>
  | Labelling ulong                \<comment> \<open>behind \<open>maxv++\<close>\<close>
  | Checking nat ulong             \<comment> \<open>second loop, with \<open>i\<close> and \<open>maxv\<close>\<close>
  | Testing nat ulong ulong        \<comment> \<open>\<open>otherlabel\<close> has been read\<close>
  | Holding                        \<comment> \<open>\<open>bakery_lock\<close> has returned\<close>

record bakerylock =
  flag :: "nat \<Rightarrow> bool"
  label :: "nat \<Rightarrow> ulong"
  n :: nat
  bpc :: "nat \<Rightarrow> bakery_pc"

text \<open>\<open>bakerylock_init\<close> does not initialize what it allocates: the arrays are arguments.\<close>

definition bakerylock_init :: "(nat \<Rightarrow> bool) \<Rightarrow> (nat \<Rightarrow> ulong) \<Rightarrow> nat \<Rightarrow> bakerylock" where
  "bakerylock_init fs ls k = \<lparr>flag = fs, label = ls, n = k, bpc = (\<lambda>_. Outside)\<rparr>"

text \<open>\<open>junk\<close> is what the uninitialized \<open>maxv\<close> holds.\<close>

definition bakery_lock :: "ulong \<Rightarrow> nat \<Rightarrow> bakerylock \<Rightarrow> bakerylock" where
  "bakery_lock junk me s =
     (let go = (\<lambda>p s. s\<lparr>bpc := (bpc s)(me := p)\<rparr>) in
      case bpc s me of
        Outside \<Rightarrow> go Flagged (s\<lparr>flag := (flag s)(me := True)\<rparr>)
      | Flagged \<Rightarrow> go (Choosing 1 (ucast (label s 0)) junk) s
      | Choosing i m maxv \<Rightarrow>
          if i < n s then
            let maxv = label s i; m = (if maxv > scast m then ucast maxv else m)
            in go (Choosing (i + 1) m maxv) s
          else go (Labelling (maxv + 1)) s
      | Labelling maxv \<Rightarrow> go (Checking 0 maxv) (s\<lparr>label := (label s)(me := maxv)\<rparr>)
      | Checking i maxv \<Rightarrow>
          if i < n s then if i = me then go (Checking (i + 1) maxv) s
            else go (Testing i maxv (label s i)) s
          else go Holding s
      | Testing i maxv otherlabel \<Rightarrow>
          if flag s i \<and> (otherlabel < maxv \<or> otherlabel = maxv \<and> i < me) then go (Checking 0 maxv) s
          else go (Checking (i + 1) maxv) s
      | Holding \<Rightarrow> s)"

definition bakery_unlock :: "nat \<Rightarrow> bakerylock \<Rightarrow> bakerylock" where
  "bakery_unlock me s = s\<lparr>flag := (flag s)(me := False), bpc := (bpc s)(me := Outside)\<rparr>"

inductive bakery_step :: "bakerylock \<Rightarrow> bakerylock \<Rightarrow> bool" where
  lock: "me < n s \<Longrightarrow> bakery_step s (bakery_lock junk me s)"
| unlock: "me < n s \<Longrightarrow> bpc s me = Holding \<Longrightarrow> bakery_step s (bakery_unlock me s)"

lemma bakery_n [simp]: "n (bakery_lock junk me s) = n s"
  by (cases "bpc s me") (simp_all add: bakery_lock_def Let_def)

lemma bakery_run:
  "reachable I bakery_step s \<Longrightarrow> \<forall>me\<in>set ts. me < n s \<Longrightarrow> reachable I bakery_step (fold (bakery_lock 0) ts s)"
proof (induction ts arbitrary: s)
  case (Cons t ts)
  have "reachable I bakery_step (bakery_lock 0 t s)"
    by (rule reachable.next_state [OF Cons.prems(1) bakery_step.lock]) (use Cons.prems(2) in simp)
  from Cons.IH [OF this] Cons.prems(2) show ?case by simp
qed simp

text \<open>C36: the lock of bakery.c does not exclude: a label is one more than the last label read, not
  than the largest. Of three threads on fresh arrays, thread 1 takes label 1 and the lock, and thread 0,
  which comes later, takes label 1 as well and enters too, by the order of the indices.\<close>

theorem bakery_not_exclusive:
  "\<exists>s. reachable (\<lambda>s. s = bakerylock_init (\<lambda>_. False) (\<lambda>_. 0) 3) bakery_step s \<and>
     bpc s 0 = Holding \<and> bpc s 1 = Holding"
proof -
  let ?i = "bakerylock_init (\<lambda>_. False) (\<lambda>_. 0) 3"
  let ?s = "fold (bakery_lock 0) (replicate 12 1 @ replicate 12 0) ?i"
  have "reachable (\<lambda>s. s = ?i) bakery_step ?i" by (rule reachable.start) (rule refl)
  then have r: "reachable (\<lambda>s. s = ?i) bakery_step ?s"
    by (rule bakery_run) (auto simp: bakerylock_init_def)
  have "bpc ?s 0 = Holding" by code_simp
  moreover have "bpc ?s 1 = Holding" by code_simp
  ultimately show ?thesis using r by blast
qed

section \<open>xchglock.c\<close>

datatype xchg_pc = Free | Spinning | Owner

record xchglock =
  xp :: int
  xpc :: "nat \<Rightarrow> xchg_pc"

definition xchglock_init :: xchglock where
  "xchglock_init = \<lparr>xp = 0, xpc = (\<lambda>_. Free)\<rparr>"

inductive xchg_lock :: "nat \<Rightarrow> xchglock \<Rightarrow> xchglock \<Rightarrow> bool" for t s where
  taken: "xpc s t = Free \<Longrightarrow> xp s = 1 \<Longrightarrow> xchg_lock t s (s\<lparr>xp := 1, xpc := (xpc s)(t := Spinning)\<rparr>)"
| acquired: "xpc s t = Free \<Longrightarrow> xp s \<noteq> 1 \<Longrightarrow> xchg_lock t s (s\<lparr>xp := 1, xpc := (xpc s)(t := Owner)\<rparr>)"
| spin: "xpc s t = Spinning \<Longrightarrow> xp s = 1 \<Longrightarrow> xchg_lock t s s"
| spun: "xpc s t = Spinning \<Longrightarrow> xp s \<noteq> 1 \<Longrightarrow> xchg_lock t s (s\<lparr>xpc := (xpc s)(t := Free)\<rparr>)"

definition xchg_unlock :: "nat \<Rightarrow> xchglock \<Rightarrow> xchglock" where
  "xchg_unlock t s = s\<lparr>xp := 0, xpc := (xpc s)(t := Free)\<rparr>"

inductive xchg_step :: "xchglock \<Rightarrow> xchglock \<Rightarrow> bool" where
  lock: "xchg_lock t s s' \<Longrightarrow> xchg_step s s'"
| unlock: "xpc s t = Owner \<Longrightarrow> xchg_step s (xchg_unlock t s)"

definition xchg_inv :: "xchglock \<Rightarrow> bool" where
  "xchg_inv s \<longleftrightarrow> (\<forall>t. xpc s t = Owner \<longrightarrow> xp s = 1) \<and>
     (\<forall>t u. xpc s t = Owner \<and> xpc s u = Owner \<longrightarrow> t = u)"

lemma xchg_inv_step:
  assumes "xchg_inv s" and "xchg_step s s'"
  shows "xchg_inv s'"
  using assms(2)
proof cases
  case (lock t)
  from lock show ?thesis by cases (use assms(1) in \<open>auto simp: xchg_inv_def\<close>)
next
  case (unlock t)
  with assms(1) show ?thesis by (auto simp: xchg_inv_def xchg_unlock_def)
qed

text \<open>The lock holds the value 1 exactly while one thread owns it, and never two.\<close>

theorem xchg_lock_exclusive:
  assumes "reachable (\<lambda>s. s = xchglock_init) xchg_step s" and "xpc s t = Owner" and "xpc s u = Owner"
  shows "t = u \<and> xp s = 1"
proof -
  have "xchg_inv xchglock_init" by (simp add: xchg_inv_def xchglock_init_def)
  then have "xchg_inv s"
    using reachable_invariant [OF assms(1), of xchg_inv] xchg_inv_step by blast
  with assms(2,3) show ?thesis by (auto simp: xchg_inv_def)
qed

end
