(* ===== verification/Wfqueue.thy ===== *)
theory Wfqueue
  imports Prelude
begin

text \<open>
  The queue of advsync/wfenqueue.c: enqueueing is wait free (an exchange of the tail and a store),
  dequeueing is done under a mutex and waits for an enqueuer that has not stored its link yet. The
  queue and \<open>q_push\<close> are those of q.h and q.c as well. A transition is one access of a shared variable.
\<close>

section \<open>The queue\<close>

text \<open>A pointer to a \<open>struct el\<close>: the queue's own \<open>dummy\<close>, or an element of a caller.\<close>

datatype elp = Dummy | El nat

text \<open>\<open>tail\<close> points to a \<open>next\<close> field, the first field of its element; it is named by the element.\<close>

record queue =
  nxt :: "elp \<Rightarrow> elp option"
  head :: elp
  tail :: elp

definition init_q :: "queue \<Rightarrow> queue" where
  "init_q qp = qp\<lparr>head := Dummy, tail := Dummy, nxt := (nxt qp)(Dummy := None)\<rparr>"

datatype push_pc = Clear elp   \<comment> \<open>about to store NULL in the element\<close>
  | Swap elp                   \<comment> \<open>about to exchange the tail\<close>
  | Link elp elp               \<comment> \<open>about to store the element in the old tail\<close>

fun q_push :: "push_pc \<Rightarrow> queue \<Rightarrow> queue \<times> push_pc option" where
  "q_push (Clear ep) q = (q\<lparr>nxt := (nxt q)(ep := None)\<rparr>, Some (Swap ep))"
| "q_push (Swap ep) q = (q\<lparr>tail := ep\<rparr>, Some (Link ep (tail q)))"
| "q_push (Link ep oldtail) q = (q\<lparr>nxt := (nxt q)(oldtail := Some ep)\<rparr>, None)"

section \<open>Dequeueing\<close>

datatype pop_pc = Lock | Head | Tail
  | Fetch                 \<comment> \<open>about to read the head into \<open>ep\<close>\<close>
  | Poll elp              \<comment> \<open>the loop that waits for \<open>ep->next\<close>\<close>
  | Read elp
  | Advance elp elp       \<comment> \<open>about to store the value of \<open>ep->next\<close> in the head\<close>
  | Again push_pc         \<comment> \<open>enqueueing the dummy again\<close>
  | Unlock "elp option"   \<comment> \<open>with the result\<close>

datatype wf_pc = Idle | Pushing push_pc | Popping pop_pc

text \<open>\<open>avail\<close> holds the elements that the callers own, which they may pass to \<open>q_push\<close>.\<close>

record wfqueue =
  q :: queue
  mutex :: "nat option"
  avail :: "elp set"
  pcs :: "nat \<Rightarrow> wf_pc"

definition wf_init :: "(elp \<Rightarrow> elp option) \<Rightarrow> wfqueue" where
  "wf_init junk = \<lparr>q = init_q \<lparr>nxt = junk, head = Dummy, tail = Dummy\<rparr>, mutex = None,
     avail = range El, pcs = (\<lambda>_. Idle)\<rparr>"

abbreviation at_pc :: "nat \<Rightarrow> wf_pc \<Rightarrow> wfqueue \<Rightarrow> wfqueue" where
  "at_pc t p s \<equiv> s\<lparr>pcs := (pcs s)(t := p)\<rparr>"

text \<open>What an access does to the queue: the exchange enqueues, the store to the head dequeues unless
  it removes the dummy, and the read of the tail finds the queue empty.\<close>

datatype event = Silent | Enq elp | Deq "elp option"

fun push_event :: "push_pc \<Rightarrow> event" where
  "push_event (Swap (El n)) = Enq (El n)"
| "push_event _ = Silent"

inductive q_pop :: "nat \<Rightarrow> wfqueue \<Rightarrow> event \<Rightarrow> wfqueue \<Rightarrow> bool" for t s where
  lock: "pcs s t = Popping Lock \<Longrightarrow> mutex s = None \<Longrightarrow>
    q_pop t s Silent (at_pc t (Popping Head) (s\<lparr>mutex := Some t\<rparr>))"
| head: "pcs s t = Popping Head \<Longrightarrow>
    q_pop t s Silent (at_pc t (Popping (if head (q s) = Dummy then Tail else Fetch)) s)"
| empty: "pcs s t = Popping Tail \<Longrightarrow> tail (q s) = Dummy \<Longrightarrow>
    q_pop t s (Deq None) (at_pc t (Popping (Unlock None)) s)"
| nonempty: "pcs s t = Popping Tail \<Longrightarrow> tail (q s) \<noteq> Dummy \<Longrightarrow> q_pop t s Silent (at_pc t (Popping Fetch) s)"
| fetch: "pcs s t = Popping Fetch \<Longrightarrow> q_pop t s Silent (at_pc t (Popping (Poll (head (q s)))) s)"
| poll: "pcs s t = Popping (Poll ep) \<Longrightarrow>
    q_pop t s Silent (at_pc t (Popping (if nxt (q s) ep = None then Poll ep else Read ep)) s)"
| read: "pcs s t = Popping (Read ep) \<Longrightarrow> nxt (q s) ep = Some b \<Longrightarrow>
    q_pop t s Silent (at_pc t (Popping (Advance ep b)) s)"
| dummy: "pcs s t = Popping (Advance Dummy b) \<Longrightarrow>
    q_pop t s Silent (at_pc t (Popping (Again (Clear Dummy))) (s\<lparr>q := (q s)\<lparr>head := b\<rparr>\<rparr>))"
| element: "pcs s t = Popping (Advance (El n) b) \<Longrightarrow>
    q_pop t s (Deq (Some (El n))) (at_pc t (Popping (Unlock (Some (El n)))) (s\<lparr>q := (q s)\<lparr>head := b\<rparr>\<rparr>))"
| again: "pcs s t = Popping (Again p) \<Longrightarrow> q_push p (q s) = (q', Some p') \<Longrightarrow>
    q_pop t s (push_event p) (at_pc t (Popping (Again p')) (s\<lparr>q := q'\<rparr>))"
| recurse: "pcs s t = Popping (Again p) \<Longrightarrow> q_push p (q s) = (q', None) \<Longrightarrow>
    q_pop t s (push_event p) (at_pc t (Popping Head) (s\<lparr>q := q'\<rparr>))"
| unlock: "pcs s t = Popping (Unlock r) \<Longrightarrow>
    q_pop t s Silent (at_pc t Idle (s\<lparr>mutex := None, avail := avail s \<union> set_option r\<rparr>))"

inductive wf_step :: "wfqueue \<Rightarrow> event \<Rightarrow> wfqueue \<Rightarrow> bool" for s where
  push_call: "pcs s t = Idle \<Longrightarrow> ep \<in> avail s \<Longrightarrow>
    wf_step s Silent (at_pc t (Pushing (Clear ep)) (s\<lparr>avail := avail s - {ep}\<rparr>))"
| push: "pcs s t = Pushing p \<Longrightarrow> q_push p (q s) = (q', Some p') \<Longrightarrow>
    wf_step s (push_event p) (at_pc t (Pushing p') (s\<lparr>q := q'\<rparr>))"
| push_return: "pcs s t = Pushing p \<Longrightarrow> q_push p (q s) = (q', None) \<Longrightarrow>
    wf_step s (push_event p) (at_pc t Idle (s\<lparr>q := q'\<rparr>))"
| pop_call: "pcs s t = Idle \<Longrightarrow> wf_step s Silent (at_pc t (Popping Lock) s)"
| pop: "q_pop t s e s' \<Longrightarrow> wf_step s e s'"

text \<open>The runs with their events, and the queue they are compared with.\<close>

inductive wf_run :: "wfqueue \<Rightarrow> event list \<Rightarrow> wfqueue \<Rightarrow> bool" for s where
  none: "wf_run s [] s"
| more: "wf_run s es s' \<Longrightarrow> wf_step s' e s'' \<Longrightarrow> wf_run s (es @ [e]) s''"

fun fifo :: "event \<Rightarrow> elp list \<Rightarrow> elp list option" where
  "fifo Silent xs = Some xs"
| "fifo (Enq e) xs = Some (xs @ [e])"
| "fifo (Deq None) xs = (if xs = [] then Some [] else None)"
| "fifo (Deq (Some e)) [] = None"
| "fifo (Deq (Some e)) (x # xs) = (if x = e then Some xs else None)"

fun fifo_run :: "event list \<Rightarrow> elp list \<Rightarrow> elp list option" where
  "fifo_run [] xs = Some xs"
| "fifo_run (e # es) xs = (case fifo e xs of None \<Rightarrow> None | Some ys \<Rightarrow> fifo_run es ys)"

lemma fifo_run_append: "fifo_run (es @ [e]) xs = (case fifo_run es xs of None \<Rightarrow> None | Some ys \<Rightarrow> fifo e ys)"
  by (induction es arbitrary: xs) (auto split: option.split)

section \<open>The invariant\<close>

text \<open>\<open>L\<close> lists the elements from the head to the tail. Of two neighbours the first points to the
  second, or the enqueuer of the second is about to store that link.\<close>

fun adj :: "'a list \<Rightarrow> 'a \<Rightarrow> 'a \<Rightarrow> bool" where
  "adj (x # y # L) a b = (a = x \<and> b = y \<or> adj (y # L) a b)"
| "adj L a b = False"

lemma adj_in: "adj L a b \<Longrightarrow> a \<in> set L \<and> b \<in> set L"
  by (induction L a b rule: adj.induct) auto

lemma adj_snoc: "adj (L @ [e]) a b \<longleftrightarrow> adj L a b \<or> (L \<noteq> [] \<and> a = last L \<and> b = e)"
  by (induction L a b rule: adj.induct) auto

lemma adj_not_last: "distinct L \<Longrightarrow> adj L a b \<Longrightarrow> a \<noteq> last L"
  by (induction L a b rule: adj.induct) auto

lemma adj_not_hd: "distinct L \<Longrightarrow> adj L a b \<Longrightarrow> b \<noteq> hd L"
  by (induction L a b rule: adj.induct) (auto dest: adj_in)

lemma adj_fun: "distinct L \<Longrightarrow> adj L a b \<Longrightarrow> adj L a c \<Longrightarrow> b = c"
  by (induction L a b rule: adj.induct) (auto dest: adj_in)

lemma adj_tl: "adj L a b \<Longrightarrow> a \<noteq> hd L \<Longrightarrow> adj (tl L) a b"
  by (cases "(L, a, b)" rule: adj.cases) auto

lemma adj_of_tl: "adj (tl L) a b \<Longrightarrow> adj L a b"
  by (cases "(L, a, b)" rule: adj.cases) auto

lemma adj_hd: "adj L (hd L) b \<Longrightarrow> distinct L \<Longrightarrow> hd (tl L) = b \<and> tl L \<noteq> []"
  by (cases "(L, hd L, b)" rule: adj.cases) (auto dest: adj_in)

fun pushing :: "wf_pc \<Rightarrow> push_pc option" where
  "pushing (Pushing p) = Some p"
| "pushing (Popping (Again p)) = Some p"
| "pushing _ = None"

text \<open>The element a thread has taken out of the hands of the callers and not yet returned.\<close>

fun elem_of :: "push_pc \<Rightarrow> elp" where
  "elem_of (Clear e) = e" | "elem_of (Swap e) = e" | "elem_of (Link e a) = e"

fun holds :: "wf_pc \<Rightarrow> elp option" where
  "holds (Pushing p) = Some (elem_of p)"
| "holds (Popping (Again p)) = Some (elem_of p)"
| "holds (Popping (Unlock r)) = r"
| "holds _ = None"

fun push_ok :: "elp list \<Rightarrow> (elp \<Rightarrow> elp option) \<Rightarrow> push_pc \<Rightarrow> bool" where
  "push_ok L f (Clear e) = (e \<notin> set L)"
| "push_ok L f (Swap e) = (e \<notin> set L \<and> f e = None)"
| "push_ok L f (Link b a) = (adj L a b \<and> f a = None)"

fun pop_ok :: "elp list \<Rightarrow> (elp \<Rightarrow> elp option) \<Rightarrow> pop_pc \<Rightarrow> bool" where
  "pop_ok L f Lock = True"
| "pop_ok L f Head = (Dummy \<in> set L)"
| "pop_ok L f Tail = (hd L = Dummy)"
| "pop_ok L f Fetch = (2 \<le> length L)"
| "pop_ok L f (Poll ep) = (hd L = ep \<and> 2 \<le> length L)"
| "pop_ok L f (Read ep) = (hd L = ep \<and> 2 \<le> length L \<and> f ep \<noteq> None)"
| "pop_ok L f (Advance ep b) = (hd L = ep \<and> f ep = Some b \<and> adj L ep b)"
| "pop_ok L f (Again p) = (push_ok L f p \<and> elem_of p = Dummy)"
| "pop_ok L f (Unlock r) = (\<forall>e. r = Some e \<longrightarrow> e \<notin> set L \<and> e \<noteq> Dummy)"

fun pc_ok :: "elp list \<Rightarrow> (elp \<Rightarrow> elp option) \<Rightarrow> wf_pc \<Rightarrow> bool" where
  "pc_ok L f Idle = True"
| "pc_ok L f (Pushing p) = (push_ok L f p \<and> elem_of p \<noteq> Dummy)"
| "pc_ok L f (Popping p) = pop_ok L f p"

fun in_mutex :: "wf_pc \<Rightarrow> bool" where
  "in_mutex (Popping p) = (p \<noteq> Lock)"
| "in_mutex _ = False"

definition chain :: "elp list \<Rightarrow> wfqueue \<Rightarrow> bool" where
  "chain L s \<longleftrightarrow> L \<noteq> [] \<and> distinct L \<and> head (q s) = hd L \<and> tail (q s) = last L \<and> nxt (q s) (last L) = None \<and>
     (\<forall>a b. adj L a b \<longrightarrow> nxt (q s) a = Some b \<or>
        nxt (q s) a = None \<and> (\<exists>t. pushing (pcs s t) = Some (Link b a)))"

text \<open>An element is in the list, with the callers or with one thread.\<close>

definition owned :: "elp list \<Rightarrow> elp set \<Rightarrow> (nat \<Rightarrow> elp option) \<Rightarrow> bool" where
  "owned L A h \<longleftrightarrow> (\<forall>t u e. h t = Some e \<and> h u = Some e \<longrightarrow> t = u) \<and>
     (\<forall>t e. h t = Some e \<longrightarrow> e \<notin> A) \<and> (\<forall>e\<in>A. e \<notin> set L \<and> e \<noteq> Dummy) \<and>
     (Dummy \<in> set L \<or> (\<exists>t. h t = Some Dummy))"

lemma owned_snoc: "owned L A h \<Longrightarrow> h t = Some e \<Longrightarrow> owned (L @ [e]) A h"
  unfolding owned_def by auto

lemma owned_drop:
  assumes "owned L A h" and "h t = Some e" and "e \<in> set L"
  shows "owned L A (h(t := None))"
  unfolding owned_def
proof (intro conjI)
  have "Dummy \<in> set L \<or> (\<exists>u. u \<noteq> t \<and> h u = Some Dummy)"
    using assms unfolding owned_def by (metis option.distinct(1) option.inject set_ConsD)
  then show "Dummy \<in> set L \<or> (\<exists>u. (h(t := None)) u = Some Dummy)" by auto
qed (use assms in \<open>auto simp: owned_def\<close>)

lemma owned_take:
  assumes "owned L A h" and "h t = None" and "e \<in> A"
  shows "owned L (A - {e}) (h(t := Some e))"
  unfolding owned_def
proof (intro conjI)
  have "Dummy \<in> set L \<or> (\<exists>u. u \<noteq> t \<and> h u = Some Dummy)"
    using assms unfolding owned_def by (metis option.distinct(1) option.inject set_ConsD)
  then show "Dummy \<in> set L \<or> (\<exists>u. (h(t := Some e)) u = Some Dummy)" by auto
qed (use assms in \<open>auto simp: owned_def\<close>)

lemma owned_give:
  assumes "owned L A h" and "h t = Some e" and "e \<notin> set L" and "e \<noteq> Dummy"
  shows "owned L (insert e A) (h(t := None))"
  unfolding owned_def
proof (intro conjI)
  have "Dummy \<in> set L \<or> (\<exists>u. u \<noteq> t \<and> h u = Some Dummy)"
    using assms unfolding owned_def by (metis option.distinct(1) option.inject set_ConsD)
  then show "Dummy \<in> set L \<or> (\<exists>u. (h(t := None)) u = Some Dummy)" by auto
qed (use assms in \<open>auto simp: owned_def\<close>)

lemma owned_pop:
  assumes "owned (e # L) A h" and "h t = None" and "\<And>u. h u \<noteq> Some e"
  shows "owned L A (h(t := Some e))"
  unfolding owned_def
proof (intro conjI)
  have "Dummy = e \<or> Dummy \<in> set L \<or> (\<exists>u. u \<noteq> t \<and> h u = Some Dummy)"
    using assms unfolding owned_def by (metis option.distinct(1) option.inject set_ConsD)
  then show "Dummy \<in> set L \<or> (\<exists>u. (h(t := Some e)) u = Some Dummy)" by auto
qed (use assms in \<open>auto simp: owned_def\<close>)

lemma owned_inj: "owned L A h \<Longrightarrow> h t = Some e \<Longrightarrow> u \<noteq> t \<Longrightarrow> h u \<noteq> Some e"
  unfolding owned_def by auto

definition wf_inv :: "elp list \<Rightarrow> wfqueue \<Rightarrow> bool" where
  "wf_inv L s \<longleftrightarrow> chain L s \<and> owned L (avail s) (holds \<circ> pcs s) \<and> lock_ok in_mutex (mutex s) (pcs s) \<and>
     (\<forall>t. pc_ok L (nxt (q s)) (pcs s t))"

lemma wf_invD:
  assumes "wf_inv L s"
  shows "chain L s" and "owned L (avail s) (holds \<circ> pcs s)" and "lock_ok in_mutex (mutex s) (pcs s)" and "pc_ok L (nxt (q s)) (pcs s t)"
  using assms unfolding wf_inv_def by blast+

lemma wf_invI:
  assumes "chain L s" and "owned L (avail s) (holds \<circ> pcs s)" and "lock_ok in_mutex (mutex s) (pcs s)"
    and "\<And>t. pc_ok L (nxt (q s)) (pcs s t)"
  shows "wf_inv L s"
  using assms unfolding wf_inv_def by blast

lemma wf_inv_init: "wf_inv [Dummy] (wf_init junk)"
  by (simp add: wf_inv_def chain_def owned_def wf_init_def init_q_def lock_ok_def image_iff)

text \<open>A step that changes only the program counter, and no role of the thread.\<close>

lemma wf_inv_quiet:
  assumes "wf_inv L s" and "pushing p = pushing (pcs s t)" and "holds p = holds (pcs s t)"
    and "in_mutex p = in_mutex (pcs s t)" and "pc_ok L (nxt (q s)) p"
  shows "wf_inv L (at_pc t p s)"
proof (rule wf_invI)
  show "chain L (at_pc t p s)"
    using wf_invD(1) [OF assms(1)] assms(2) unfolding chain_def by (simp, metis)
  show "owned L (avail (at_pc t p s)) (holds \<circ> pcs (at_pc t p s))"
    using wf_invD(2) [OF assms(1)] assms(3) by (simp add: fun_upd_comp fun_upd_idem)
  show "lock_ok in_mutex (mutex (at_pc t p s)) (pcs (at_pc t p s))"
    using wf_invD(3) [OF assms(1)] assms(4) by (simp add: lock_ok_def)
  show "pc_ok L (nxt (q (at_pc t p s))) (pcs (at_pc t p s) u)" for u
    using wf_invD(4) [OF assms(1), of u] assms(5) by simp
qed

text \<open>What the changes of the list and of the links leave of the other threads.\<close>

lemma push_ok_clear: "push_ok L f p \<Longrightarrow> e \<notin> set L \<Longrightarrow> push_ok L (f(e := None)) p"
  by (cases p) (auto dest: adj_in)

lemma push_ok_snoc: "push_ok L f p \<Longrightarrow> elem_of p \<noteq> e \<Longrightarrow> push_ok (L @ [e]) f p"
  by (cases p) (auto simp: adj_snoc)

lemma push_ok_link:
  "push_ok L f p \<Longrightarrow> f a = None \<Longrightarrow> adj L a b \<Longrightarrow> distinct L \<Longrightarrow> elem_of p \<noteq> b \<Longrightarrow> push_ok L (f(a := Some b)) p"
  by (cases p) (auto dest: adj_in adj_fun)

lemma push_ok_tl: "push_ok L f p \<Longrightarrow> f (hd L) \<noteq> None \<Longrightarrow> push_ok (tl L) f p"
  by (cases p; cases L) (auto dest: adj_tl)

lemma pc_ok_clear:
  assumes "pc_ok L f p" and "L \<noteq> []" and "e \<notin> set L"
  shows "pc_ok L (f(e := None)) p"
proof (cases p)
  case (Popping x)
  with assms show ?thesis by (cases x) (auto simp: push_ok_clear)
qed (use assms in \<open>auto simp: push_ok_clear\<close>)

lemma pc_ok_snoc:
  assumes "pc_ok L f p" and "L \<noteq> []" and "holds p \<noteq> Some e"
  shows "pc_ok (L @ [e]) f p"
proof (cases p)
  case (Popping x)
  with assms show ?thesis by (cases x) (auto simp: push_ok_snoc adj_snoc)
qed (use assms in \<open>auto simp: push_ok_snoc adj_snoc\<close>)

lemma pc_ok_link:
  assumes "pc_ok L f p" and "f a = None" and "adj L a b" and "distinct L" and "holds p \<noteq> Some b"
  shows "pc_ok L (f(a := Some b)) p"
proof (cases p)
  case (Popping x)
  with assms show ?thesis by (cases x) (auto simp: push_ok_link)
qed (use assms in \<open>auto simp: push_ok_link\<close>)

lemma pc_ok_tl:
  assumes "pc_ok L f p" and "f (hd L) \<noteq> None" and "\<not> in_mutex p"
  shows "pc_ok (tl L) f p"
proof (cases p)
  case (Popping x)
  with assms show ?thesis by (cases x) (auto simp: push_ok_tl)
qed (use assms in \<open>auto simp: push_ok_tl\<close>)

text \<open>The three accesses of \<open>q_push\<close>, by an enqueuer or by a dequeuer that puts the dummy back.\<close>

lemma wf_inv_clear:
  assumes i: "wf_inv L s" and p: "pushing (pcs s t) = Some (Clear e)" and p': "pushing p' = Some (Swap e)"
    and h: "holds (pcs s t) = Some e" "holds p' = Some e" and m: "in_mutex p' = in_mutex (pcs s t)"
    and ok: "pc_ok L ((nxt (q s))(e := None)) p'" and e: "e \<notin> set L"
  shows "wf_inv L (at_pc t p' (s\<lparr>q := (q s)\<lparr>nxt := (nxt (q s))(e := None)\<rparr>\<rparr>))" (is "wf_inv L ?s")
proof (rule wf_invI)
  note c = wf_invD(1) [OF i, unfolded chain_def]
  show "chain L ?s"
    unfolding chain_def
  proof (intro conjI allI impI)
    fix a b assume ab: "adj L a b"
    with e have "a \<noteq> e" using adj_in by metis
    moreover from c ab have "nxt (q s) a = Some b \<or> nxt (q s) a = None \<and> (\<exists>u. pushing (pcs s u) = Some (Link b a))"
      by blast
    moreover have "pushing (pcs s u) = Some (Link b a) \<Longrightarrow> u \<noteq> t" for u using p by auto
    ultimately show "nxt (q ?s) a = Some b \<or> nxt (q ?s) a = None \<and> (\<exists>u. pushing (pcs ?s u) = Some (Link b a))"
      by (auto intro: exI)
  qed (use c e in auto)
  show "owned L (avail ?s) (holds \<circ> pcs ?s)"
    using wf_invD(2) [OF i] h by (simp add: fun_upd_comp fun_upd_idem)
  show "lock_ok in_mutex (mutex ?s) (pcs ?s)"
    using wf_invD(3) [OF i] m by (simp add: lock_ok_def)
  show "pc_ok L (nxt (q ?s)) (pcs ?s u)" for u
    using pc_ok_clear [OF wf_invD(4) [OF i, of u] _ e] c ok by simp
qed

lemma wf_inv_swap:
  assumes i: "wf_inv L s" and p: "pushing (pcs s t) = Some (Swap e)" and p': "pushing p' = Some (Link e (last L))"
    and h: "holds (pcs s t) = Some e" "holds p' = Some e" and m: "in_mutex p' = in_mutex (pcs s t)"
    and ok: "pc_ok (L @ [e]) (nxt (q s)) p'" and e: "e \<notin> set L" "nxt (q s) e = None"
  shows "wf_inv (L @ [e]) (at_pc t p' (s\<lparr>q := (q s)\<lparr>tail := e\<rparr>\<rparr>))" (is "wf_inv ?L ?s")
proof (rule wf_invI)
  note c = wf_invD(1) [OF i, unfolded chain_def]
  note o = wf_invD(2) [OF i]
  have old: "pushing (pcs s u) = Some (Link b a) \<Longrightarrow> pushing (pcs ?s u) = Some (Link b a)" for a b u
    using p by auto
  show "chain ?L ?s"
    unfolding chain_def
  proof (intro conjI allI impI)
    fix a b assume ab: "adj ?L a b"
    then consider "adj L a b" | "a = last L" "b = e" by (auto simp: adj_snoc)
    then show "nxt (q ?s) a = Some b \<or> nxt (q ?s) a = None \<and> (\<exists>u. pushing (pcs ?s u) = Some (Link b a))"
    proof cases
      case 1
      with c have "nxt (q s) a = Some b \<or> nxt (q s) a = None \<and> (\<exists>u. pushing (pcs s u) = Some (Link b a))" by blast
      with old show ?thesis by fastforce
    next
      case 2
      with c p' show ?thesis by auto
    qed
  qed (use c e in auto)
  show "owned ?L (avail ?s) (holds \<circ> pcs ?s)"
    using owned_snoc [OF o, of t e] h by (simp add: fun_upd_comp fun_upd_idem)
  show "lock_ok in_mutex (mutex ?s) (pcs ?s)"
    using wf_invD(3) [OF i] m by (simp add: lock_ok_def)
  show "pc_ok ?L (nxt (q ?s)) (pcs ?s u)" for u
  proof (cases "u = t")
    case False
    with owned_inj [OF o, of t e u] h have "holds (pcs s u) \<noteq> Some e" by simp
    with pc_ok_snoc [OF wf_invD(4) [OF i, of u]] c False show ?thesis by simp
  qed (use ok in simp)
qed

lemma wf_inv_link:
  assumes i: "wf_inv L s" and p: "pushing (pcs s t) = Some (Link b a)"
    and h: "holds (pcs s t) = Some b" "holds p' = None" and m: "in_mutex p' = in_mutex (pcs s t)"
    and ok: "pc_ok L ((nxt (q s))(a := Some b)) p'" and ab: "adj L a b" "nxt (q s) a = None"
  shows "wf_inv L (at_pc t p' (s\<lparr>q := (q s)\<lparr>nxt := (nxt (q s))(a := Some b)\<rparr>\<rparr>))" (is "wf_inv L ?s")
proof (rule wf_invI)
  note c = wf_invD(1) [OF i, unfolded chain_def]
  note o = wf_invD(2) [OF i]
  from c have d: "distinct L" by blast
  show "chain L ?s"
    unfolding chain_def
  proof (intro conjI allI impI)
    fix x y assume xy: "adj L x y"
    show "nxt (q ?s) x = Some y \<or> nxt (q ?s) x = None \<and> (\<exists>u. pushing (pcs ?s u) = Some (Link y x))"
    proof (cases "x = a")
      case True
      with adj_fun [OF d xy] ab show ?thesis by simp
    next
      case False
      with p have "pushing (pcs s u) = Some (Link y x) \<Longrightarrow> u \<noteq> t" for u by auto
      with False c xy show ?thesis by fastforce
    qed
  qed (use c adj_not_last [OF d ab(1)] in auto)
  show "owned L (avail ?s) (holds \<circ> pcs ?s)"
    using owned_drop [OF o, of t b] h adj_in [OF ab(1)] by (simp add: fun_upd_comp)
  show "lock_ok in_mutex (mutex ?s) (pcs ?s)"
    using wf_invD(3) [OF i] m by (simp add: lock_ok_def)
  show "pc_ok L (nxt (q ?s)) (pcs ?s u)" for u
  proof (cases "u = t")
    case False
    with owned_inj [OF o, of t b u] h have "holds (pcs s u) \<noteq> Some b" by simp
    with pc_ok_link [OF wf_invD(4) [OF i, of u] ab(2,1) d] False show ?thesis by simp
  qed (use ok in simp)
qed

text \<open>The store to the head, by the owner of the mutex.\<close>

lemma wf_inv_advance:
  assumes i: "wf_inv L s" and p: "pcs s t = Popping (Advance e b)" and p': "pushing p' = None \<or> pushing p' = Some (Clear e)"
    and h: "holds p' = Some e" and m: "in_mutex p'" and ok: "pc_ok (tl L) (nxt (q s)) p'"
  shows "wf_inv (tl L) (at_pc t p' (s\<lparr>q := (q s)\<lparr>head := b\<rparr>\<rparr>))" (is "wf_inv ?L ?s")
proof -
  note c = wf_invD(1) [OF i, unfolded chain_def]
  have a: "hd L = e" "nxt (q s) e = Some b" "adj L e b" using wf_invD(4) [OF i, of t] p by auto
  from c have d: "distinct L" by blast
  with a c have b: "hd (tl L) = b" "tl L \<noteq> []" using adj_hd [of L b] by auto
  have L: "L = e # tl L" using a c by (cases L) auto
  have lk: "u \<noteq> t \<Longrightarrow> \<not> in_mutex (pcs s u)" for u
    using lock_ok_unique [OF wf_invD(3) [OF i], of t u] p by auto
  have nh: "holds (pcs s u) \<noteq> Some e" for u
  proof
    assume u: "holds (pcs s u) = Some e"
    with p have "u \<noteq> t" by auto
    with lk [of u] u obtain x where x: "pcs s u = Pushing x" "elem_of x = e"
      by (cases "pcs s u" rule: holds.cases) auto
    with wf_invD(4) [OF i, of u] have "push_ok L (nxt (q s)) x" by simp
    with x(2) a(1) adj_not_hd [OF d] L show False by (cases x) (metis list.set_intros(1) push_ok.simps elem_of.simps)+
  qed
  show ?thesis
  proof (rule wf_invI)
    show "chain ?L ?s"
      unfolding chain_def
    proof (intro conjI allI impI)
      fix x y assume xy: "adj ?L x y"
      from p have "pushing (pcs s u) = Some (Link y x) \<Longrightarrow> u \<noteq> t" for u by auto
      with c adj_of_tl [OF xy]
      show "nxt (q ?s) x = Some y \<or> nxt (q ?s) x = None \<and> (\<exists>u. pushing (pcs ?s u) = Some (Link y x))"
        by fastforce
    qed (use c b d L in \<open>auto simp: distinct_tl last_tl\<close>)
    show "owned ?L (avail ?s) (holds \<circ> pcs ?s)"
      using owned_pop [of e "tl L" "avail s" "holds \<circ> pcs s" t] wf_invD(2) [OF i] L h nh p by (simp add: fun_upd_comp)
    show "lock_ok in_mutex (mutex ?s) (pcs ?s)"
      using wf_invD(3) [OF i] p m by (simp add: lock_ok_def)
    show "pc_ok ?L (nxt (q ?s)) (pcs ?s u)" for u
      using pc_ok_tl [OF wf_invD(4) [OF i, of u]] a lk [of u] ok by simp
  qed
qed

lemma wf_inv_head:
  assumes i: "wf_inv L s" and p: "pcs s t = Popping (Advance e b)"
  shows "L = e # tl L" and "e \<notin> set (tl L)"
proof -
  have c: "L \<noteq> []" "distinct L" using wf_invD(1) [OF i] unfolding chain_def by blast+
  have "hd L = e" using wf_invD(4) [OF i, of t] p by simp
  with c show L: "L = e # tl L" by (cases L) auto
  with c show "e \<notin> set (tl L)" by (metis distinct.simps(2))
qed

lemma wf_inv_lock:
  assumes i: "wf_inv L s" and p: "pcs s t = Popping Lock" and m: "mutex s = None"
  shows "wf_inv L (at_pc t (Popping Head) (s\<lparr>mutex := Some t\<rparr>))" (is "wf_inv L ?s")
proof (rule wf_invI)
  note o = wf_invD(2) [OF i]
  have out: "\<not> in_mutex (pcs s u)" for u using wf_invD(3) [OF i] m by (auto simp: lock_ok_def)
  have "Dummy \<in> set L"
  proof (rule ccontr)
    assume "Dummy \<notin> set L"
    with o obtain u where u: "holds (pcs s u) = Some Dummy" by (auto simp: owned_def)
    with wf_invD(4) [OF i, of u] out [of u] show False by (cases "pcs s u" rule: holds.cases) auto
  qed
  then show "pc_ok L (nxt (q ?s)) (pcs ?s u)" for u using wf_invD(4) [OF i, of u] by simp
  from p have "pushing (pcs s t) = None" by simp
  then show "chain L ?s" using wf_invD(1) [OF i] unfolding chain_def by (simp, metis option.distinct(1))
  show "owned L (avail ?s) (holds \<circ> pcs ?s)"
    using o p by (simp add: fun_upd_comp fun_upd_idem)
  show "lock_ok in_mutex (mutex ?s) (pcs ?s)"
    using wf_invD(3) [OF i] m by (auto simp: lock_ok_def)
qed

lemma wf_inv_unlock:
  assumes i: "wf_inv L s" and p: "pcs s t = Popping (Unlock r)"
  shows "wf_inv L (at_pc t Idle (s\<lparr>mutex := None, avail := avail s \<union> set_option r\<rparr>))" (is "wf_inv L ?s")
proof (rule wf_invI)
  have r: "e \<notin> set L \<and> e \<noteq> Dummy" if "r = Some e" for e using wf_invD(4) [OF i, of t] p that by simp
  from p have "pushing (pcs s t) = None" by simp
  then show "chain L ?s" using wf_invD(1) [OF i] unfolding chain_def by (simp, metis option.distinct(1))
  show "owned L (avail ?s) (holds \<circ> pcs ?s)"
  proof (cases r)
    case None
    with wf_invD(2) [OF i] p show ?thesis by (simp add: fun_upd_comp fun_upd_idem)
  next
    case (Some e)
    with owned_give [OF wf_invD(2) [OF i], of t e] p r show ?thesis by (simp add: fun_upd_comp)
  qed
  show "lock_ok in_mutex (mutex ?s) (pcs ?s)"
    using lock_ok_release [OF wf_invD(3) [OF i], of t Idle None] p by simp
  show "pc_ok L (nxt (q ?s)) (pcs ?s u)" for u using wf_invD(4) [OF i, of u] by simp
qed

lemma wf_inv_push_call:
  assumes i: "wf_inv L s" and p: "pcs s t = Idle" and e: "ep \<in> avail s"
  shows "wf_inv L (at_pc t (Pushing (Clear ep)) (s\<lparr>avail := avail s - {ep}\<rparr>))" (is "wf_inv L ?s")
proof (rule wf_invI)
  from p have "pushing (pcs s t) = None" by simp
  then show "chain L ?s" using wf_invD(1) [OF i] unfolding chain_def by (simp, metis option.distinct(1))
  show "owned L (avail ?s) (holds \<circ> pcs ?s)"
    using owned_take [OF wf_invD(2) [OF i], of t ep] p e by (simp add: fun_upd_comp)
  show "lock_ok in_mutex (mutex ?s) (pcs ?s)"
    using wf_invD(3) [OF i] p by (auto simp: lock_ok_def)
  show "pc_ok L (nxt (q ?s)) (pcs ?s u)" for u
    using wf_invD(4) [OF i, of u] wf_invD(2) [OF i] e by (auto simp: owned_def)
qed

section \<open>Refinement of a list\<close>

definition contents :: "elp list \<Rightarrow> elp list" where
  "contents L = filter (\<lambda>e. e \<noteq> Dummy) L"

lemma contents_simps [simp]:
  "contents (L @ [El n]) = contents L @ [El n]" "contents (L @ [Dummy]) = contents L"
  "contents [] = []" "contents [Dummy] = []" "contents (Dummy # L) = contents L" "contents (El n # L) = El n # contents L"
  by (simp_all add: contents_def)

definition resume :: "bool \<Rightarrow> push_pc option \<Rightarrow> wf_pc" where
  "resume popper r = (case r of None \<Rightarrow> if popper then Popping Head else Idle
     | Some p \<Rightarrow> if popper then Popping (Again p) else Pushing p)"

lemma wf_push_step:
  assumes i: "wf_inv L s" and p: "pcs s t = resume popper (Some p)" and q: "q_push p (q s) = (q', r)"
  shows "\<exists>L'. wf_inv L' (at_pc t (resume popper r) (s\<lparr>q := q'\<rparr>)) \<and> fifo (push_event p) (contents L) = Some (contents L')"
proof -
  note ok = wf_invD(4) [OF i, of t, unfolded p resume_def]
  note c = wf_invD(1) [OF i, unfolded chain_def]
  note simps = resume_def p
  show ?thesis
  proof (cases p)
    case (Clear e)
    with q ok have "wf_inv L (at_pc t (resume popper r) (s\<lparr>q := q'\<rparr>))"
      using wf_inv_clear [OF i, of t e "resume popper r"] by (cases popper) (auto simp: simps)
    with Clear show ?thesis by auto
  next
    case (Swap e)
    with q ok c have "wf_inv (L @ [e]) (at_pc t (resume popper r) (s\<lparr>q := q'\<rparr>))"
      using wf_inv_swap [OF i, of t e "resume popper r"] by (cases popper) (auto simp: simps adj_snoc)
    moreover from ok Swap have "fifo (push_event p) (contents L) = Some (contents (L @ [e]))"
      by (cases e) auto
    ultimately show ?thesis by blast
  next
    case (Link b a)
    then have ab: "adj L a b" "nxt (q s) a = None" using ok by (cases popper; simp)+
    from Link q ok ab adj_in [OF ab(1)] have "wf_inv L (at_pc t (resume popper r) (s\<lparr>q := q'\<rparr>))"
      using wf_inv_link [OF i, of t b a "resume popper r"] by (cases popper) (auto simp: simps)
    with Link show ?thesis by auto
  qed
qed

lemma wf_pop_step:
  assumes i: "wf_inv L s" and stp: "q_pop t s e s'"
  shows "\<exists>L'. wf_inv L' s' \<and> fifo e (contents L) = Some (contents L')"
  using stp
proof cases
  note c = wf_invD(1) [OF i, unfolded chain_def]
  note ok = wf_invD(4) [OF i, of t]
  have len: "2 \<le> length L \<longleftrightarrow> hd L \<noteq> last L"
    using c by (cases L rule: list.exhaust [case_names Nil Cons]; cases "tl L") auto
  have quiet: "wf_inv L (at_pc t p s)" if "pushing p = pushing (pcs s t)" "holds p = holds (pcs s t)"
    "in_mutex p = in_mutex (pcs s t)" "pc_ok L (nxt (q s)) p" for p
    using that by (rule wf_inv_quiet [OF i])
  {
    case lock
    with wf_inv_lock [OF i] show ?thesis by auto
  next
    case head
    have "Dummy \<in> set L" using ok head by simp
    then have "hd L \<noteq> Dummy \<Longrightarrow> 2 \<le> length L" by (cases L; cases "tl L") auto
    with quiet c head show ?thesis by (auto intro!: exI [of _ L])
  next
    case empty
    with ok c have "hd L = Dummy" "last L = Dummy" by auto
    with len c have "L = [Dummy]" by (cases L; cases "tl L") auto
    with quiet empty show ?thesis by (auto intro!: exI [of _ L])
  next
    case nonempty
    with ok c len have "2 \<le> length L" by auto
    with quiet nonempty show ?thesis by (auto intro!: exI [of _ L])
  next
    case fetch
    with quiet ok c show ?thesis by (auto intro!: exI [of _ L])
  next
    case (poll ep)
    with quiet ok c show ?thesis by (auto intro!: exI [of _ L])
  next
    case (read ep b)
    obtain x where x: "adj L ep x" using read ok by (cases L; cases "tl L") auto
    with c read have "adj L ep b" by fastforce
    with quiet ok read show ?thesis by (auto intro!: exI [of _ L])
  next
    case (dummy b)
    note n = wf_inv_head [OF i dummy(3)]
    from wf_inv_advance(1) [OF i dummy(3), of "Popping (Again (Clear Dummy))"] n
    have "wf_inv (tl L) s'" using dummy by simp
    with dummy n show ?thesis by (metis contents_simps(5) fifo.simps(1))
  next
    case (element n b)
    note h = wf_inv_head [OF i element(3)]
    from wf_inv_advance [OF i element(3), of "Popping (Unlock (Some (El n)))"] h
    have "wf_inv (tl L) s'" using element by simp
    with element h show ?thesis by (metis contents_simps(6) fifo.simps(5))
  next
    case (again p q' p')
    with wf_push_step [OF i, of t True p q' "Some p'"] show ?thesis by (simp add: resume_def)
  next
    case (recurse p q')
    with wf_push_step [OF i, of t True p q' None] show ?thesis by (simp add: resume_def)
  next
    case (unlock r)
    with wf_inv_unlock [OF i] show ?thesis by auto
  }
qed

lemma wf_step_refines:
  assumes "wf_inv L s" and "wf_step s e s'"
  shows "\<exists>L'. wf_inv L' s' \<and> fifo e (contents L) = Some (contents L')"
  using assms(2)
proof cases
  case (push_call t ep)
  with wf_inv_push_call [OF assms(1)] show ?thesis by auto
next
  case (push t p q' p')
  with wf_push_step [OF assms(1), of t False p q' "Some p'"] show ?thesis by (simp add: resume_def)
next
  case (push_return t p q')
  with wf_push_step [OF assms(1), of t False p q' None] show ?thesis by (simp add: resume_def)
next
  case (pop_call t)
  with wf_inv_quiet [OF assms(1), of "Popping Lock" t] show ?thesis by (auto intro!: exI [of _ L])
next
  case (pop t)
  with wf_pop_step [OF assms(1)] show ?thesis by blast
qed

lemma wf_run_refines:
  "wf_run (wf_init junk) es s \<Longrightarrow> \<exists>L. wf_inv L s \<and> fifo_run es [] = Some (contents L)"
proof (induction rule: wf_run.induct)
  case none
  have "fifo_run [] [] = Some (contents [Dummy])" by simp
  with wf_inv_init show ?case by blast
next
  case (more es s' e s'')
  then obtain L where L: "wf_inv L s'" "fifo_run es [] = Some (contents L)" by blast
  with wf_step_refines [OF L(1) more.hyps(2)] show ?case by (auto simp: fifo_run_append)
qed

text \<open>A run for the witnesses: thread 0 enqueues an element up to its exchange, then thread 1 dequeues.\<close>

definition demo :: "(elp \<Rightarrow> elp option) \<Rightarrow> elp \<Rightarrow> nat option \<Rightarrow> elp set \<Rightarrow> wf_pc \<Rightarrow> wf_pc \<Rightarrow> wfqueue" where
  "demo f tp m A p0 p1 = \<lparr>q = \<lparr>nxt = f, head = Dummy, tail = tp\<rparr>, mutex = m, avail = A,
     pcs = (\<lambda>_. Idle)(0 := p0, 1 := p1)\<rparr>"

lemma demo_run:
  "wf_run (wf_init (\<lambda>_. None)) [Silent, Silent, Enq (El 1), Silent, Silent, Silent, Silent, Silent]
     (demo (\<lambda>_. None) (El 1) (Some 1) (range El - {El 1}) (Pushing (Link (El 1) Dummy)) (Popping (Poll Dummy)))"
proof -
  let ?N = "\<lambda>_. None :: elp option" and ?A = "range El - {El 1}"
  let ?L = "Pushing (Link (El 1) Dummy)"
  let ?r = "wf_run (wf_init ?N)"
  have 0: "wf_init ?N = demo ?N Dummy None (range El) Idle Idle"
    by (simp add: wf_init_def demo_def init_q_def fun_upd_idem)
  have "?r [] (wf_init ?N)" by (rule wf_run.none)
  from wf_run.more [OF this wf_step.push_call [of _ 0 "El 1"]]
  have "?r [Silent] (demo ?N Dummy None ?A (Pushing (Clear (El 1))) Idle)"
    unfolding 0 by (simp add: demo_def fun_upd_twist)
  from wf_run.more [OF this wf_step.push [of _ 0 "Clear (El 1)"]]
  have "?r [Silent, Silent] (demo ?N Dummy None ?A (Pushing (Swap (El 1))) Idle)"
    by (simp add: demo_def fun_upd_twist fun_upd_idem)
  from wf_run.more [OF this wf_step.push [of _ 0 "Swap (El 1)"]]
  have "?r [Silent, Silent, Enq (El 1)] (demo ?N (El 1) None ?A ?L Idle)"
    by (simp add: demo_def fun_upd_twist)
  from wf_run.more [OF this wf_step.pop_call [of _ 1]]
  have "?r [Silent, Silent, Enq (El 1), Silent] (demo ?N (El 1) None ?A ?L (Popping Lock))"
    by (simp add: demo_def del: One_nat_def)
  from wf_run.more [OF this wf_step.pop [OF q_pop.lock [of _ 1]]]
  have "?r [Silent, Silent, Enq (El 1), Silent, Silent] (demo ?N (El 1) (Some 1) ?A ?L (Popping Head))"
    by (simp add: demo_def del: One_nat_def)
  from wf_run.more [OF this wf_step.pop [OF q_pop.head [of _ 1]]]
  have "?r [Silent, Silent, Enq (El 1), Silent, Silent, Silent] (demo ?N (El 1) (Some 1) ?A ?L (Popping Tail))"
    by (simp add: demo_def del: One_nat_def)
  from wf_run.more [OF this wf_step.pop [OF q_pop.nonempty [of _ 1]]]
  have "?r [Silent, Silent, Enq (El 1), Silent, Silent, Silent, Silent] (demo ?N (El 1) (Some 1) ?A ?L (Popping Fetch))"
    by (simp add: demo_def del: One_nat_def)
  from wf_run.more [OF this wf_step.pop [OF q_pop.fetch [of _ 1]]]
  show ?thesis by (simp add: demo_def del: One_nat_def)
qed

text \<open>C21: wfenqueue.c is a first-in first-out queue for any number of enqueuers and dequeuers: in the
  order of the exchanges of the tail and of the stores to the head, every element dequeued is the
  oldest one, and a dequeuer reports an empty queue only when the queue is empty.\<close>

theorem wfqueue_fifo:
  assumes "wf_run (wf_init junk) es s"
  shows "\<exists>xs. fifo_run es [] = Some xs \<and> distinct xs \<and> Dummy \<notin> set xs"
proof -
  obtain L where "wf_inv L s" "fifo_run es [] = Some (contents L)"
    using wf_run_refines [OF assms] by blast
  then show ?thesis using wf_invD(1) [of L s] by (auto simp: contents_def chain_def)
qed

theorem wfqueue_fifo_witness:
  "\<exists>es s. wf_run (wf_init (\<lambda>_. None)) es s \<and> Enq (El 1) \<in> set es \<and> (\<exists>xs. fifo_run es [] = Some xs \<and> distinct xs)"
  using demo_run wfqueue_fifo [OF demo_run] by force

text \<open>C37: a dequeuer of wfenqueue.c that finds no link behind the head waits for an enqueuer that has
  exchanged the tail and is about to store just that link, never for an empty queue.\<close>

theorem wfqueue_waits:
  assumes "wf_run (wf_init junk) es s" and "pcs s t = Popping (Poll ep)" and "nxt (q s) ep = None"
  shows "\<exists>u b. u \<noteq> t \<and> pcs s u = Pushing (Link b ep)"
proof -
  obtain L where i: "wf_inv L s" using wf_run_refines [OF assms(1)] by blast
  note c = wf_invD(1) [OF i, unfolded chain_def]
  from wf_invD(4) [OF i, of t] assms(2) obtain b where "adj L ep b" by (cases L; cases "tl L") auto
  with c assms(3) obtain u where u: "pushing (pcs s u) = Some (Link b ep)" by fastforce
  with assms(2) have ut: "u \<noteq> t" by auto
  with lock_ok_unique [OF wf_invD(3) [OF i], of t u] assms(2) have "\<not> in_mutex (pcs s u)" by auto
  with u have "pcs s u = Pushing (Link b ep)" by (cases "pcs s u" rule: pushing.cases) auto
  with ut show ?thesis by blast
qed

theorem wfqueue_waits_witness:
  "\<exists>es s. wf_run (wf_init (\<lambda>_. None)) es s \<and> pcs s 1 = Popping (Poll Dummy) \<and>
     (\<exists>u b. u \<noteq> 1 \<and> pcs s u = Pushing (Link b Dummy))"
proof -
  let ?s = "demo (\<lambda>_. None) (El 1) (Some 1) (range El - {El 1}) (Pushing (Link (El 1) Dummy)) (Popping (Poll Dummy))"
  have "pcs ?s 1 = Popping (Poll Dummy)" and "nxt (q ?s) Dummy = None" by (simp_all add: demo_def)
  with wfqueue_waits [OF demo_run this] demo_run show ?thesis by blast
qed

end
