(* ===== verification/Lfqueue.thy ===== *)
theory Lfqueue
  imports Wfqueue
begin

text \<open>
  The other queues of advsync/: q.c, whose dequeuers compare and exchange the head without a lock,
  singleq.c, a queue of capacity one, and the stack of lifo-push.c. A transition is one access of a
  shared variable.
\<close>

section \<open>q.c\<close>

datatype lf_pc = Out
  | Enqueue push_pc
  | GetHead               \<comment> \<open>about to read the head into \<open>p\<close>\<close>
  | GetNext elp           \<comment> \<open>about to read \<open>p->next\<close>\<close>
  | Exchange elp elp      \<comment> \<open>about to compare and exchange the head\<close>
  | Requeue push_pc       \<comment> \<open>enqueueing the dummy again\<close>
  | Check                 \<comment> \<open>about to compare the head with the dummy\<close>
  | Result "elp option"

record lfqueue =
  lq :: queue
  lpcs :: "nat \<Rightarrow> lf_pc"

definition lf_init :: "(elp \<Rightarrow> elp option) \<Rightarrow> lfqueue" where
  "lf_init junk = \<lparr>lq = init_q \<lparr>nxt = junk, head = Dummy, tail = Dummy\<rparr>, lpcs = (\<lambda>_. Out)\<rparr>"

fun lf_pop :: "lf_pc \<Rightarrow> queue \<Rightarrow> queue \<times> lf_pc" where
  "lf_pop GetHead qp = (qp, GetNext (head qp))"
| "lf_pop (GetNext p) qp = (qp, case nxt qp p of None \<Rightarrow> Result None | Some pnext \<Rightarrow> Exchange p pnext)"
| "lf_pop (Exchange p pnext) qp =
     (if head qp = p then (qp\<lparr>head := pnext\<rparr>, if p = Dummy then Requeue (Clear Dummy) else Result (Some p))
      else (qp, GetHead))"
| "lf_pop (Requeue p) qp = (case q_push p qp of (qp', r) \<Rightarrow> (qp', case r of None \<Rightarrow> Check | Some p' \<Rightarrow> Requeue p'))"
| "lf_pop Check qp = (qp, if head qp = Dummy then Result None else GetHead)"
| "lf_pop p qp = (qp, p)"

fun lf_push :: "lf_pc \<Rightarrow> queue \<Rightarrow> queue \<times> lf_pc" where
  "lf_push (Enqueue p) qp = (case q_push p qp of (qp', r) \<Rightarrow> (qp', case r of None \<Rightarrow> Out | Some p' \<Rightarrow> Enqueue p'))"
| "lf_push p qp = (qp, p)"

text \<open>One access of thread \<open>t\<close>, which is in \<open>q_push\<close> or in \<open>q_pop\<close>.\<close>

definition lf_access :: "nat \<Rightarrow> lfqueue \<Rightarrow> lfqueue" where
  "lf_access t s = (case lpcs s t of
      Enqueue p \<Rightarrow> (case lf_push (Enqueue p) (lq s) of (q', p') \<Rightarrow> s\<lparr>lq := q', lpcs := (lpcs s)(t := p')\<rparr>)
    | p \<Rightarrow> (case lf_pop p (lq s) of (q', p') \<Rightarrow> s\<lparr>lq := q', lpcs := (lpcs s)(t := p')\<rparr>))"

text \<open>\<open>es\<close> are the elements whose enqueueing has begun: no element is enqueued twice.\<close>

inductive lf_run :: "lfqueue \<Rightarrow> elp list \<Rightarrow> lfqueue \<Rightarrow> bool" for i where
  none: "lf_run i [] i"
| push_call: "lf_run i es s \<Longrightarrow> lpcs s t = Out \<Longrightarrow> El n \<notin> set es \<Longrightarrow>
    lf_run i (El n # es) (s\<lparr>lpcs := (lpcs s)(t := Enqueue (Clear (El n)))\<rparr>)"
| pop_call: "lf_run i es s \<Longrightarrow> lpcs s t = Out \<Longrightarrow> lf_run i es (s\<lparr>lpcs := (lpcs s)(t := GetHead)\<rparr>)"
| access: "lf_run i es s \<Longrightarrow> lf_run i es (lf_access t s)"
| return: "lf_run i es s \<Longrightarrow> lpcs s t = Result r \<Longrightarrow> lf_run i es (s\<lparr>lpcs := (lpcs s)(t := Out)\<rparr>)"

lemma lf_run_accesses: "lf_run i es s \<Longrightarrow> lf_run i es (fold lf_access ts s)"
  by (induction ts arbitrary: s) (auto intro: lf_run.access)

text \<open>Thread 0 enqueues one element; thread 1 reads the dummy and its link, thread 2 dequeues the
  element, which puts the dummy back at the head, and then thread 1 goes on.\<close>

definition lf_pushed :: lfqueue where
  "lf_pushed = fold lf_access [0, 0, 0] ((lf_init (\<lambda>_. None))\<lparr>lpcs := (\<lambda>_. Out)(0 := Enqueue (Clear (El 7)))\<rparr>)"

definition lf_called :: lfqueue where
  "lf_called = lf_pushed\<lparr>lpcs := (lpcs lf_pushed)(1 := GetHead, 2 := GetHead)\<rparr>"

definition lf_schedule :: "nat list" where
  "lf_schedule = [1, 1] @ replicate 10 2 @ replicate 8 1"

lemma lf_called_run: "lf_run (lf_init (\<lambda>_. None)) [El 7] lf_called"
proof -
  let ?i = "lf_init (\<lambda>_. None)"
  from lf_run.push_call [OF lf_run.none, of ?i 0 7]
  have "lf_run ?i [El 7] (?i\<lparr>lpcs := (\<lambda>_. Out)(0 := Enqueue (Clear (El 7)))\<rparr>)"
    by (simp add: lf_init_def)
  then have p: "lf_run ?i [El 7] lf_pushed"
    unfolding lf_pushed_def by (rule lf_run_accesses)
  have "lpcs lf_pushed 1 = Out" "lpcs lf_pushed 2 = Out" by code_simp+
  with lf_run.pop_call [OF lf_run.pop_call [OF p, of 1], of 2] show ?thesis
    by (simp add: lf_called_def)
qed

text \<open>C25: q.c returns one element twice. The dummy is dequeued and enqueued again inside \<open>q_pop\<close>, so the
  compare and exchange of another dequeuer finds it at the head and stores a link that is out of date:
  one enqueue, two dequeuers, and both return the element.\<close>

theorem lfqueue_pops_twice:
  "\<exists>s. lf_run (lf_init (\<lambda>_. None)) [El 7] s \<and> lpcs s 1 = Result (Some (El 7)) \<and> lpcs s 2 = Result (Some (El 7))"
proof -
  let ?s = "fold lf_access lf_schedule lf_called"
  have "lf_run (lf_init (\<lambda>_. None)) [El 7] ?s"
    by (rule lf_run_accesses [OF lf_called_run])
  moreover have "lpcs ?s 1 = Result (Some (El 7))" by code_simp
  moreover have "lpcs ?s 2 = Result (Some (El 7))" by code_simp
  ultimately show ?thesis by blast
qed

section \<open>singleq.c\<close>

text \<open>Each operation is one access: a compare and exchange of NULL with the element, and an exchange
  of the head with NULL.\<close>

type_synonym singleq = "nat option"

definition single_init :: singleq where
  "single_init = None"

definition single_push :: "nat \<Rightarrow> singleq \<Rightarrow> bool \<times> singleq" where
  "single_push ep qp = (qp = None, if qp = None then Some ep else qp)"

definition single_pop :: "singleq \<Rightarrow> nat option \<times> singleq" where
  "single_pop qp = (qp, None)"

section \<open>lifo-push.c\<close>

text \<open>A node is an address. \<open>list_push\<close> allocates a node that is not in use and initializes it;
  \<open>list_pop_all\<close> takes the whole list with one exchange and frees its nodes one by one, so that their
  addresses are used again while other threads may still hold them in \<open>oldtop\<close>. After its compare
  and exchange \<open>list_push\<close> reads \<open>newnode->next\<close> once more to see whether it succeeded, also when the
  node is on the list already and belongs to the others.\<close>

datatype lifo_pc = Idle
  | PushRead nat                \<comment> \<open>with \<open>newnode\<close>: about to read \<open>top\<close>\<close>
  | PushNext nat "nat option"   \<comment> \<open>about to store \<open>oldtop\<close> in the new node\<close>
  | PushExp nat                 \<comment> \<open>about to read \<open>newnode->next\<close>, the value to compare with\<close>
  | PushCas nat "nat option"    \<comment> \<open>about to compare and exchange \<open>top\<close>, with the expected value\<close>
  | PushWon nat "nat option"    \<comment> \<open>exchanged, with \<open>oldtop\<close>: about to read \<open>newnode->next\<close> again\<close>
  | PushLost nat "nat option"   \<comment> \<open>the same, \<open>top\<close> was another value\<close>
  | PopSwap                     \<comment> \<open>about to exchange \<open>top\<close>\<close>
  | PopNext "nat option"        \<comment> \<open>at the head of the loop, with \<open>p\<close>\<close>
  | PopFoo nat "nat option"     \<comment> \<open>about to call \<open>foo(p)\<close>, with \<open>next\<close>\<close>
  | PopFree nat "nat option"

record lifo =
  val :: "nat \<Rightarrow> int"
  link :: "nat \<Rightarrow> nat option"
  top :: "nat option"
  used :: "nat set"              \<comment> \<open>the addresses \<open>malloc\<close> has handed out\<close>
  lpc :: "nat \<Rightarrow> lifo_pc"

definition lifo_init :: "(nat \<Rightarrow> int) \<Rightarrow> (nat \<Rightarrow> nat option) \<Rightarrow> lifo" where
  "lifo_init vs ns = \<lparr>val = vs, link = ns, top = None, used = {}, lpc = (\<lambda>_. Idle)\<rparr>"

abbreviation to_pc :: "nat \<Rightarrow> lifo_pc \<Rightarrow> lifo \<Rightarrow> lifo" where
  "to_pc t p s \<equiv> s\<lparr>lpc := (lpc s)(t := p)\<rparr>"

datatype lifo_event = Nothing | Pushed int | Taken nat | Visited nat int | Finished nat

inductive list_push :: "nat \<Rightarrow> lifo \<Rightarrow> lifo_event \<Rightarrow> lifo \<Rightarrow> bool" for t s where
  malloc: "lpc s t = Idle \<Longrightarrow> n \<notin> used s \<Longrightarrow>
    list_push t s Nothing (to_pc t (PushRead n) (s\<lparr>used := insert n (used s), val := (val s)(n := v)\<rparr>))"
| read: "lpc s t = PushRead n \<Longrightarrow> list_push t s Nothing (to_pc t (PushNext n (top s)) s)"
| store: "lpc s t = PushNext n oldtop \<Longrightarrow>
    list_push t s Nothing (to_pc t (PushExp n) (s\<lparr>link := (link s)(n := oldtop)\<rparr>))"
| expect: "lpc s t = PushExp n \<Longrightarrow> list_push t s Nothing (to_pc t (PushCas n (link s n)) s)"
| cas: "lpc s t = PushCas n e \<Longrightarrow> top s = e \<Longrightarrow>
    list_push t s (Pushed (val s n)) (to_pc t (PushWon n (top s)) (s\<lparr>top := Some n\<rparr>))"
| cas_fails: "lpc s t = PushCas n e \<Longrightarrow> top s \<noteq> e \<Longrightarrow> list_push t s Nothing (to_pc t (PushLost n (top s)) s)"
| check: "lpc s t = PushWon n oldtop \<or> lpc s t = PushLost n oldtop \<Longrightarrow>
    list_push t s Nothing (to_pc t (if link s n \<noteq> oldtop then PushNext n oldtop else Idle) s)"

inductive list_pop_all :: "nat \<Rightarrow> lifo \<Rightarrow> lifo_event \<Rightarrow> lifo \<Rightarrow> bool" for t s where
  enter: "lpc s t = Idle \<Longrightarrow> list_pop_all t s Nothing (to_pc t PopSwap s)"
| xchg: "lpc s t = PopSwap \<Longrightarrow> list_pop_all t s (Taken t) (to_pc t (PopNext (top s)) (s\<lparr>top := None\<rparr>))"
| body: "lpc s t = PopNext (Some p) \<Longrightarrow> list_pop_all t s Nothing (to_pc t (PopFoo p (link s p)) s)"
| foo: "lpc s t = PopFoo p nx \<Longrightarrow> list_pop_all t s (Visited t (val s p)) (to_pc t (PopFree p nx) s)"
| free: "lpc s t = PopFree p nx \<Longrightarrow> list_pop_all t s Nothing (to_pc t (PopNext nx) (s\<lparr>used := used s - {p}\<rparr>))"
| exit: "lpc s t = PopNext None \<Longrightarrow> list_pop_all t s (Finished t) (to_pc t Idle s)"

text \<open>The runs of the code are those with \<open>early\<close>. Without it no node is freed between the exchange
  that pushes it and the second look of that push at \<open>newnode->next\<close>, which the code does not ensure.\<close>

definition push_unchecked :: "lifo \<Rightarrow> nat \<Rightarrow> bool" where
  "push_unchecked s p \<longleftrightarrow> (\<exists>u b. lpc s u = PushWon p b)"

inductive lifo_run :: "bool \<Rightarrow> lifo \<Rightarrow> lifo_event list \<Rightarrow> lifo \<Rightarrow> bool" for early i where
  none: "lifo_run early i [] i"
| push: "lifo_run early i es s \<Longrightarrow> list_push t s e s' \<Longrightarrow> lifo_run early i (es @ [e]) s'"
| pop: "lifo_run early i es s \<Longrightarrow> list_pop_all t s e s' \<Longrightarrow>
    (\<And>p nx. lpc s t = PopFree p nx \<Longrightarrow> early \<or> \<not> push_unchecked s p) \<Longrightarrow> lifo_run early i (es @ [e]) s'"

text \<open>The abstract stack, with the values each \<open>list_pop_all\<close> has still to visit.\<close>

type_synonym lifo_spec = "int list \<times> (nat \<Rightarrow> int list)"

fun lifo_apply :: "lifo_event \<Rightarrow> lifo_spec \<Rightarrow> lifo_spec option" where
  "lifo_apply Nothing a = Some a"
| "lifo_apply (Pushed v) (vs, todo) = Some (v # vs, todo)"
| "lifo_apply (Taken t) (vs, todo) = (if todo t = [] then Some ([], todo(t := vs)) else None)"
| "lifo_apply (Visited t v) (vs, todo) =
     (case todo t of [] \<Rightarrow> None | w # ws \<Rightarrow> if w = v then Some (vs, todo(t := ws)) else None)"
| "lifo_apply (Finished t) (vs, todo) = (if todo t = [] then Some (vs, todo) else None)"

fun lifo_apply_all :: "lifo_event list \<Rightarrow> lifo_spec \<Rightarrow> lifo_spec option" where
  "lifo_apply_all [] a = Some a"
| "lifo_apply_all (e # es) a = (case lifo_apply e a of None \<Rightarrow> None | Some b \<Rightarrow> lifo_apply_all es b)"

lemma lifo_apply_all_snoc:
  "lifo_apply_all (es @ [e]) a = (case lifo_apply_all es a of None \<Rightarrow> None | Some b \<Rightarrow> lifo_apply e b)"
  by (induction es arbitrary: a) (auto split: option.split)

fun path :: "(nat \<Rightarrow> nat option) \<Rightarrow> nat option \<Rightarrow> nat list \<Rightarrow> bool" where
  "path f p [] = (p = None)"
| "path f p (x # xs) = (p = Some x \<and> path f (f x) xs)"

lemma path_upd: "n \<notin> set xs \<Longrightarrow> path (f(n := v)) p xs = path f p xs"
  by (induction xs arbitrary: p) auto

lemma path_None [simp]: "path f None xs \<longleftrightarrow> xs = []"
  by (cases xs) auto

lemma path_Some: "path f (Some x) xs \<longleftrightarrow> (\<exists>ys. xs = x # ys \<and> path f (f x) ys)"
  by (cases xs) auto

text \<open>The nodes of a thread: the one it is to push, and those it has taken and not yet freed.\<close>

fun nodes :: "lifo_pc \<Rightarrow> nat list \<Rightarrow> nat list" where
  "nodes (PushRead n) xs = [n]"
| "nodes (PushNext n b) xs = [n]"
| "nodes (PushExp n) xs = [n]"
| "nodes (PushCas n e) xs = [n]"
| "nodes (PushLost n b) xs = [n]"
| "nodes (PopFree p nx) xs = p # xs"
| "nodes p xs = xs"

text \<open>The node of a push that has taken effect and is not checked: it is not private to anyone.\<close>

fun pending :: "lifo_pc \<Rightarrow> nat set" where
  "pending (PushWon n b) = {n}"
| "pending p = {}"

fun priv :: "lifo_pc \<Rightarrow> nat set" where
  "priv (PopNext p) = {}"
| "priv (PopFoo p nx) = {}"
| "priv (PopFree p nx) = {}"
| "priv p = set (nodes p [])"

fun lifo_ok :: "(nat \<Rightarrow> nat option) \<Rightarrow> lifo_pc \<Rightarrow> nat list \<Rightarrow> bool" where
  "lifo_ok f (PopNext p) xs = path f p xs"
| "lifo_ok f (PopFoo p nx) xs = (\<exists>ys. xs = p # ys \<and> path f nx ys)"
| "lifo_ok f (PopFree p nx) xs = path f nx xs"
| "lifo_ok f (PushCas n e) xs = (xs = [] \<and> f n = e)"
| "lifo_ok f (PushWon n b) xs = (xs = [] \<and> f n = b)"
| "lifo_ok f (PushLost n b) xs = (xs = [] \<and> f n \<noteq> b)"
| "lifo_ok f p xs = (xs = [])"

definition lifo_inv :: "nat list \<Rightarrow> (nat \<Rightarrow> nat list) \<Rightarrow> lifo \<Rightarrow> bool" where
  "lifo_inv L P s \<longleftrightarrow> path (link s) (top s) L \<and> distinct L \<and> set L \<subseteq> used s \<and>
     (\<forall>t. lifo_ok (link s) (lpc s t) (P t)) \<and>
     (\<forall>t. distinct (nodes (lpc s t) (P t)) \<and> set (nodes (lpc s t) (P t)) \<subseteq> used s - set L) \<and>
     (\<forall>t u. t \<noteq> u \<longrightarrow> set (nodes (lpc s t) (P t)) \<inter> set (nodes (lpc s u) (P u)) = {}) \<and>
     (\<forall>t. pending (lpc s t) \<subseteq> used s) \<and> (\<forall>t u. pending (lpc s t) \<inter> priv (lpc s u) = {})"

lemma lifo_invD:
  assumes "lifo_inv L P s"
  shows "path (link s) (top s) L" and "distinct L" and "set L \<subseteq> used s" and "lifo_ok (link s) (lpc s t) (P t)"
    and "distinct (nodes (lpc s t) (P t))" and "set (nodes (lpc s t) (P t)) \<subseteq> used s - set L"
    and "t \<noteq> u \<Longrightarrow> set (nodes (lpc s t) (P t)) \<inter> set (nodes (lpc s u) (P u)) = {}"
    and "pending (lpc s t) \<subseteq> used s" and "pending (lpc s t) \<inter> priv (lpc s u) = {}"
  using assms unfolding lifo_inv_def by blast+

text \<open>One thread moves, and the nodes of the others stay what they are.\<close>

lemma lifo_inv_move:
  assumes i: "lifo_inv L P s" and pc: "lpc s' = (lpc s)(t := p)"
    and L: "path (link s') (top s') L'" "distinct L'" "set L' \<subseteq> used s'"
    and ok: "lifo_ok (link s') p xs" "distinct (nodes p xs)" "set (nodes p xs) \<subseteq> used s' - set L'"
    and fr: "\<And>u. u \<noteq> t \<Longrightarrow> lifo_ok (link s') (lpc s u) (P u)"
    and oth: "\<And>u. u \<noteq> t \<Longrightarrow> set (nodes (lpc s u) (P u)) \<subseteq> used s' - set L' - set (nodes p xs)"
    and pend: "pending p \<subseteq> used s'" "\<And>u. u \<noteq> t \<Longrightarrow> pending (lpc s u) \<subseteq> used s' - priv p"
      "\<And>u. u \<noteq> t \<Longrightarrow> pending p \<inter> priv (lpc s u) = {}"
  shows "lifo_inv L' (P(t := xs)) s'"
  unfolding lifo_inv_def
proof (intro conjI allI impI)
  fix u w :: nat assume uw: "u \<noteq> w"
  show "set (nodes (lpc s' u) ((P(t := xs)) u)) \<inter> set (nodes (lpc s' w) ((P(t := xs)) w)) = {}"
    using oth [of u] oth [of w] lifo_invD(7) [OF i uw] uw by (auto simp: pc)
next
  fix u
  show "set (nodes (lpc s' u) ((P(t := xs)) u)) \<subseteq> used s' - set L'"
    using oth [of u] ok(3) by (auto simp: pc)
  show "pending (lpc s' u) \<subseteq> used s'"
    using pend(1) pend(2) [of u] by (auto simp: pc)
next
  fix u w
  have "pending p \<inter> priv p = {}" by (cases p) auto
  then show "pending (lpc s' u) \<inter> priv (lpc s' w) = {}"
    using pend(2) [of u] pend(3) [of w] lifo_invD(9) [OF i, of u w] by (auto simp: pc)
qed (use L ok fr lifo_invD(5) [OF i] in \<open>auto simp: pc\<close>)

lemma lifo_inv_quiet:
  assumes i: "lifo_inv L P s" and "lifo_ok (link s) p xs" and "distinct (nodes p xs)"
    and n: "set (nodes p xs) \<subseteq> set (nodes (lpc s t) (P t))"
    and pend: "pending p = {}" "priv p \<subseteq> priv (lpc s t)"
  shows "lifo_inv L (P(t := xs)) (to_pc t p s)"
proof (rule lifo_inv_move [OF i, where p = p])
  fix u assume "u \<noteq> t"
  from lifo_invD(7) [OF i this] lifo_invD(6) [OF i, of u] n
  show "set (nodes (lpc s u) (P u)) \<subseteq> used (to_pc t p s) - set L - set (nodes p xs)" by auto
  show "pending (lpc s u) \<subseteq> used (to_pc t p s) - priv p"
    using lifo_invD(8) [OF i, of u] lifo_invD(9) [OF i, of u t] pend(2) by auto
qed (use assms lifo_invD(1-5) [OF i] subset_trans [OF n lifo_invD(6) [OF i, of t]] in auto)

lemma lifo_ok_upd: "lifo_ok f p xs \<Longrightarrow> n \<notin> set (nodes p xs) \<Longrightarrow> n \<notin> pending p \<Longrightarrow> lifo_ok (f(n := v)) p xs"
  by (cases p) (auto simp: path_upd)

lemma lifo_inv_init: "lifo_inv [] (\<lambda>_. []) (lifo_init vs ns)"
  by (simp add: lifo_inv_def lifo_init_def)

lemma lifo_ok_nodes: "lifo_ok f p xs \<Longrightarrow> set xs \<subseteq> set (nodes p xs)"
  by (cases p) auto

definition lifo_abs :: "nat list \<Rightarrow> (nat \<Rightarrow> nat list) \<Rightarrow> lifo \<Rightarrow> lifo_spec" where
  "lifo_abs L P s = (map (val s) L, \<lambda>t. map (val s) (P t))"

lemma lifo_push_refines:
  assumes i: "lifo_inv L P s" and stp: "list_push t s e s'"
  shows "\<exists>L'. lifo_inv L' (P(t := [])) s' \<and> lifo_apply e (lifo_abs L P s) = Some (lifo_abs L' (P(t := [])) s')"
  using stp
proof cases
  note L = lifo_invD(1-3) [OF i] and ok = lifo_invD(4) [OF i] and own = lifo_invD(6) [OF i]
    and pn = lifo_invD(8) [OF i] and pp = lifo_invD(9) [OF i]
  have others: "set (nodes (lpc s u) (P u)) \<inter> set (nodes (lpc s t) (P t)) = {}" if "u \<noteq> t" for u
    using lifo_invD(7) [OF i that] .
  have quiet: "?thesis" if "e = Nothing" "P t = []" "s' = to_pc t p s" "lifo_ok (link s) p []" "pending p = {}"
      "set (nodes p []) \<subseteq> set (nodes (lpc s t) (P t))" "priv p \<subseteq> priv (lpc s t)" "distinct (nodes p [])" for p
    using lifo_inv_quiet [OF i that(4,8,6,5,7)] that(1-3)
    by (auto simp: lifo_abs_def fun_upd_idem intro!: exI [of _ L])
  {
    case (malloc n v)
    have new: "n \<notin> set L" "\<And>u. n \<notin> set (nodes (lpc s u) (P u))" using malloc L own by auto
    then have P: "n \<notin> set (P u)" for u using lifo_ok_nodes [OF ok [of u]] by auto
    have "lifo_inv L (P(t := [])) s'"
    proof (rule lifo_inv_move [OF i, where p = "PushRead n"])
      fix u
      show "set (nodes (lpc s u) (P u)) \<subseteq> used s' - set L - set (nodes (PushRead n) [])"
        using own [of u] new malloc by auto
      show "pending (lpc s u) \<subseteq> used s' - priv (PushRead n)" using pn [of u] malloc by auto
    qed (use malloc L ok new in auto)
    moreover have "lifo_abs L (P(t := [])) s' = lifo_abs L P s"
      using malloc new(1) P ok [of t] by (auto simp: lifo_abs_def)
    ultimately show ?thesis using malloc by auto
  next
    case (read n)
    show ?thesis by (rule quiet [OF read(1) _ read(2)]) (use read ok [of t] in auto)
  next
    case (store n b)
    have n: "n \<notin> set L" "\<And>u. u \<noteq> t \<Longrightarrow> n \<notin> set (nodes (lpc s u) (P u))" "n \<notin> pending (lpc s u)" for u
      using store own [of t] others pp [of u t] by auto
    have "lifo_inv L (P(t := [])) s'"
    proof (rule lifo_inv_move [OF i, where p = "PushExp n"])
      fix u assume "u \<noteq> t"
      with own [of u] n(2) store show "set (nodes (lpc s u) (P u)) \<subseteq> used s' - set L - set (nodes (PushExp n) [])"
        by auto
      show "pending (lpc s u) \<subseteq> used s' - priv (PushExp n)" using pn [of u] n(3) [of u] store by auto
    qed (use store L own [of t] n lifo_ok_upd [OF ok] in \<open>auto simp: path_upd\<close>)
    moreover have "lifo_abs L (P(t := [])) s' = lifo_abs L P s"
      using store ok [of t] by (auto simp: lifo_abs_def)
    ultimately show ?thesis using store by auto
  next
    case (expect n)
    show ?thesis by (rule quiet [OF expect(1) _ expect(2)]) (use expect ok [of t] in auto)
  next
    case (cas n b)
    have n: "n \<notin> set L" "\<And>u. u \<noteq> t \<Longrightarrow> n \<notin> set (nodes (lpc s u) (P u))" using cas own [of t] others by auto
    have pr: "priv (lpc s u) \<subseteq> set (nodes (lpc s u) (P u))" for u
      using lifo_ok_nodes [OF ok [of u]] ok [of u] by (cases "lpc s u") auto
    have "lifo_inv (n # L) (P(t := [])) s'"
    proof (rule lifo_inv_move [OF i, where p = "PushWon n (top s)"])
      fix u assume u: "u \<noteq> t"
      show "pending (PushWon n (top s)) \<inter> priv (lpc s u) = {}" using n(2) [OF u] pr [of u] by auto
    qed (use cas L ok own [of t] own n pn ok [of t] in auto)
    moreover have "lifo_abs (n # L) (P(t := [])) s' = (val s n # map (val s) L, \<lambda>t. map (val s) (P t))"
      using cas ok [of t] by (auto simp: lifo_abs_def)
    ultimately show ?thesis using cas by (auto simp: lifo_abs_def)
  next
    case (cas_fails n b)
    show ?thesis by (rule quiet [OF cas_fails(1) _ cas_fails(2)]) (use cas_fails ok [of t] in auto)
  next
    case (check n b)
    show ?thesis by (rule quiet [OF check(1) _ check(2)]) (use check(3) ok [of t] in auto)
  }
qed

lemma lifo_pop_refines:
  assumes i: "lifo_inv L P s" and stp: "list_pop_all t s e s'"
    and fre: "\<And>p nx. lpc s t = PopFree p nx \<Longrightarrow> \<not> push_unchecked s p"
  shows "\<exists>L' P'. lifo_inv L' P' s' \<and> lifo_apply e (lifo_abs L P s) = Some (lifo_abs L' P' s')"
  using stp
proof cases
  note L = lifo_invD(1-3) [OF i] and ok = lifo_invD(4) [OF i] and own = lifo_invD(6) [OF i] and pn = lifo_invD(8) [OF i]
  have others: "set (nodes (lpc s u) (P u)) \<inter> set (nodes (lpc s t) (P t)) = {}" if "u \<noteq> t" for u
    using lifo_invD(7) [OF i that] .
  {
    case enter
    then have "P t = []" using ok [of t] by simp
    then have "lifo_inv L (P(t := [])) s'"
      unfolding enter(2) by (intro lifo_inv_quiet [OF i]) (use enter in auto)
    with \<open>P t = []\<close> enter show ?thesis by (auto simp: lifo_abs_def fun_upd_idem intro!: exI [of _ L] exI [of _ P])
  next
    case xchg
    then have t: "P t = []" using ok [of t] by simp
    have "lifo_inv [] (P(t := L)) s'"
      by (rule lifo_inv_move [OF i, where p = "PopNext (top s)"]) (use xchg L ok own pn in auto)
    moreover have "lifo_apply e (lifo_abs L P s) = Some (lifo_abs [] (P(t := L)) s')"
      using xchg t by (auto simp: lifo_abs_def)
    ultimately show ?thesis by blast
  next
    case (body p)
    then obtain ys where p: "P t = p # ys" "path (link s) (link s p) ys" using ok [of t] by (auto simp: path_Some)
    have "lifo_inv L (P(t := P t)) s'"
      unfolding body(2) by (rule lifo_inv_quiet [OF i]) (use body p lifo_invD(5) [OF i, of t] in auto)
    with body show ?thesis by (auto simp: lifo_abs_def)
  next
    case (foo p nx)
    then obtain ys where p: "P t = p # ys" "path (link s) nx ys" using ok [of t] by auto
    have "lifo_inv L (P(t := ys)) s'"
      unfolding foo(2) by (rule lifo_inv_quiet [OF i]) (use foo p lifo_invD(5) [OF i, of t] in auto)
    moreover have "lifo_apply e (lifo_abs L P s) = Some (lifo_abs L (P(t := ys)) s')"
      using foo p by (auto simp: lifo_abs_def)
    ultimately show ?thesis by blast
  next
    case (free p nx)
    have "lifo_inv L (P(t := P t)) s'"
    proof (rule lifo_inv_move [OF i, where p = "PopNext nx"])
      fix u assume "u \<noteq> t"
      with own [of u] others [of u] free
      show "set (nodes (lpc s u) (P u)) \<subseteq> used s' - set L - set (nodes (PopNext nx) (P t))" by auto
      show "pending (lpc s u) \<subseteq> used s' - priv (PopNext nx)"
        using fre [OF free(3)] pn [of u] free by (cases "lpc s u") (auto simp: push_unchecked_def)
    qed (use free L ok own [of t] lifo_invD(5) [OF i, of t] ok [of t] in auto)
    with free show ?thesis by (auto simp: lifo_abs_def)
  next
    case exit
    then have "P t = []" using ok [of t] by simp
    then have "lifo_inv L (P(t := [])) s'"
      unfolding exit(2) by (intro lifo_inv_quiet [OF i]) (use exit in auto)
    with \<open>P t = []\<close> exit show ?thesis by (auto simp: lifo_abs_def fun_upd_idem intro!: exI [of _ L] exI [of _ P])
  }
qed

lemma lifo_run_refines:
  "lifo_run False (lifo_init vs ns) es s \<Longrightarrow>
     \<exists>L P. lifo_inv L P s \<and> lifo_apply_all es ([], \<lambda>_. []) = Some (lifo_abs L P s)"
proof (induction rule: lifo_run.induct)
  case none
  have "lifo_apply_all [] ([], \<lambda>_. []) = Some (lifo_abs [] (\<lambda>_. []) (lifo_init vs ns))"
    by (simp add: lifo_abs_def)
  with lifo_inv_init show ?case by blast
next
  case (push es s t e s')
  then obtain L P where i: "lifo_inv L P s" "lifo_apply_all es ([], \<lambda>_. []) = Some (lifo_abs L P s)" by blast
  with lifo_push_refines [OF i(1) push.hyps(2)] show ?case by (auto simp: lifo_apply_all_snoc)
next
  case (pop es s t e s')
  then obtain L P where i: "lifo_inv L P s" "lifo_apply_all es ([], \<lambda>_. []) = Some (lifo_abs L P s)" by blast
  have "\<not> push_unchecked s p" if "lpc s t = PopFree p nx" for p nx
    using pop.hyps(3) [OF that] by simp
  from lifo_pop_refines [OF i(1) pop.hyps(2) this] i(2) show ?case by (auto simp: lifo_apply_all_snoc)
qed

text \<open>A push and a \<open>list_pop_all\<close> of one node that run without interference.\<close>

lemma lifo_push_won:
  assumes r: "lifo_run early i es s" and n: "lpc s t = Idle" "n \<notin> used s"
  shows "lifo_run early i (es @ [Nothing, Nothing, Nothing, Nothing, Pushed v])
    (to_pc t (PushWon n (top s)) (s\<lparr>used := insert n (used s), val := (val s)(n := v), link := (link s)(n := top s),
      top := Some n\<rparr>))"
proof -
  let ?s1 = "to_pc t (PushRead n) (s\<lparr>used := insert n (used s), val := (val s)(n := v)\<rparr>)"
  let ?s3 = "to_pc t (PushExp n) (?s1\<lparr>link := (link s)(n := top s)\<rparr>)"
  from lifo_run.push [OF r list_push.malloc [OF n]] have r1: "lifo_run early i (es @ [Nothing]) ?s1" .
  from lifo_run.push [OF r1 list_push.read [of _ t n]]
  have r2: "lifo_run early i (es @ [Nothing, Nothing]) (to_pc t (PushNext n (top s)) ?s1)" by simp
  from lifo_run.push [OF r2 list_push.store [of _ t n "top s"]]
  have r3: "lifo_run early i (es @ [Nothing, Nothing, Nothing]) ?s3" by simp
  from lifo_run.push [OF r3 list_push.expect [of _ t n]]
  have r4: "lifo_run early i (es @ [Nothing, Nothing, Nothing, Nothing]) (to_pc t (PushCas n (top s)) ?s3)" by simp
  from lifo_run.push [OF r4 list_push.cas [of _ t n "top s"]] show ?thesis by simp
qed

lemma lifo_push_checked:
  assumes r: "lifo_run early i es s" and n: "lpc s t = PushWon n b"
  shows "lifo_run early i (es @ [Nothing]) (to_pc t (if link s n \<noteq> b then PushNext n b else Idle) s)"
  using lifo_run.push [OF r list_push.check [of s t n b]] n by simp

lemma lifo_pop_one:
  assumes r: "lifo_run early i es s" and n: "lpc s t = Idle" "top s = Some n" "link s n = None"
    and f: "early \<or> \<not> push_unchecked s n"
  shows "lifo_run early i (es @ [Nothing, Taken t, Nothing, Visited t (val s n), Nothing, Finished t])
    (s\<lparr>top := None, used := used s - {n}\<rparr>)"
proof -
  let ?s2 = "s\<lparr>top := None\<rparr>"
  from lifo_run.pop [OF r list_pop_all.enter [OF n(1)]] n(1)
  have r1: "lifo_run early i (es @ [Nothing]) (to_pc t PopSwap s)" by simp
  from lifo_run.pop [OF r1 list_pop_all.xchg [of _ t]] n(2)
  have r2: "lifo_run early i (es @ [Nothing, Taken t]) (to_pc t (PopNext (Some n)) ?s2)" by simp
  from lifo_run.pop [OF r2 list_pop_all.body [of _ t n]] n(3)
  have r3: "lifo_run early i (es @ [Nothing, Taken t, Nothing]) (to_pc t (PopFoo n None) ?s2)" by simp
  from lifo_run.pop [OF r3 list_pop_all.foo [of _ t n None]]
  have r4: "lifo_run early i (es @ [Nothing, Taken t, Nothing, Visited t (val s n)]) (to_pc t (PopFree n None) ?s2)"
    by simp
  have "early \<or> \<not> push_unchecked (to_pc t (PopFree n None) ?s2) n"
    using f by (auto simp: push_unchecked_def split: if_splits)
  with lifo_run.pop [OF r4 list_pop_all.free [of _ t n None]]
  have r5: "lifo_run early i (es @ [Nothing, Taken t, Nothing, Visited t (val s n), Nothing])
      (to_pc t (PopNext None) (?s2\<lparr>used := used s - {n}\<rparr>))" by simp
  from lifo_run.pop [OF r5 list_pop_all.exit [of _ t]] n(1) show ?thesis by (simp add: fun_upd_idem)
qed

text \<open>A run for the witness: a node is pushed, taken, visited and freed, and its address is used for
  the next push.\<close>

definition lifo_demo :: "(nat \<Rightarrow> int) \<Rightarrow> (nat \<Rightarrow> nat option) \<Rightarrow> nat option \<Rightarrow> nat set \<Rightarrow> lifo_pc \<Rightarrow> lifo" where
  "lifo_demo vs ns tp A p = \<lparr>val = vs, link = ns, top = tp, used = A, lpc = (\<lambda>_. Idle)(0 := p)\<rparr>"

lemma lifo_demo_init: "lifo_init vs ns = lifo_demo vs ns None {} Idle"
  by (simp add: lifo_init_def lifo_demo_def fun_upd_idem)

lemma lifo_demo_push:
  assumes "lifo_run early i es (lifo_demo vs ns tp A Idle)" and "n \<notin> A"
  shows "lifo_run early i (es @ [Nothing, Nothing, Nothing, Nothing, Pushed v])
    (lifo_demo (vs(n := v)) (ns(n := tp)) (Some n) (insert n A) (PushWon n tp))"
  using lifo_push_won [OF assms(1), of 0 n v] assms(2) by (simp add: lifo_demo_def)

lemma lifo_demo_check:
  assumes "lifo_run early i es (lifo_demo vs ns tp A (PushWon n b))" and "ns n = b"
  shows "lifo_run early i (es @ [Nothing]) (lifo_demo vs ns tp A Idle)"
  using lifo_push_checked [OF assms(1), of 0 n b] assms(2) by (simp add: lifo_demo_def)

lemma lifo_demo_run:
  "lifo_run False (lifo_init (\<lambda>_. 0) (\<lambda>_. None))
     ((([Nothing, Nothing, Nothing, Nothing, Pushed 5] @ [Nothing]) @
       [Nothing, Taken 0, Nothing, Visited 0 5, Nothing, Finished 0]) @
      [Nothing, Nothing, Nothing, Nothing, Pushed 6])
     (lifo_demo ((\<lambda>_. 0)(0 := 6)) ((\<lambda>_. None)(0 := None)) (Some 0) {0} (PushWon 0 None))"
proof -
  let ?i = "lifo_init (\<lambda>_. 0) (\<lambda>_. None)" and ?es = "[Nothing, Nothing, Nothing, Nothing, Pushed 5] @ [Nothing]"
  have "lifo_run False ?i [] (lifo_demo (\<lambda>_. 0) (\<lambda>_. None) None {} Idle)"
    unfolding lifo_demo_init by (rule lifo_run.none)
  from lifo_demo_check [OF lifo_demo_push [OF this, of 0 5]]
  have "lifo_run False ?i ?es (lifo_demo ((\<lambda>_. 0)(0 := 5)) (\<lambda>_. None) (Some 0) {0} Idle)" by simp
  from lifo_pop_one [OF this, of 0 0]
  have "lifo_run False ?i (?es @ [Nothing, Taken 0, Nothing, Visited 0 5, Nothing, Finished 0])
      (lifo_demo ((\<lambda>_. 0)(0 := 5)) (\<lambda>_. None) None {} Idle)"
    by (simp add: lifo_demo_def push_unchecked_def)
  from lifo_demo_push [OF this, of 0 6] show ?thesis by simp
qed

text \<open>The code does not keep to that condition. Thread 0 pushes a node and, before it looks at
  \<open>newnode->next\<close> again, thread 1 takes and frees the node, thread 2 pushes another one, and thread 1
  gets the first address again from \<open>malloc\<close> and pushes it in front. Thread 0 then finds another link
  than it stored, believes that its exchange failed and stores its own \<open>oldtop\<close>, NULL, in the node of
  thread 1: the node behind it is lost, and the next \<open>list_pop_all\<close> misses its value.\<close>

lemma lifo_reuse_run:
  "\<exists>s. lifo_run True (lifo_init (\<lambda>_. 0) (\<lambda>_. None))
    (((([Nothing, Nothing, Nothing, Nothing, Pushed 5] @ [Nothing, Taken 1, Nothing, Visited 1 5, Nothing, Finished 1]) @
      [Nothing, Nothing, Nothing, Nothing, Pushed 6, Nothing]) @ [Nothing, Nothing, Nothing, Nothing, Pushed 7, Nothing]) @
     [Nothing, Nothing] @ [Nothing, Taken 1, Nothing, Visited 1 7, Nothing, Finished 1]) s"
proof -
  let ?i = "lifo_init (\<lambda>_. 0) (\<lambda>_. None)" and ?v = "\<lambda>_. 0 :: int" and ?n = "\<lambda>_. None :: nat option"
  have "lifo_run True ?i [] (lifo_demo ?v ?n None {} Idle)"
    unfolding lifo_demo_init by (rule lifo_run.none)
  from lifo_demo_push [OF this, of 0 5]
  have "lifo_run True ?i [Nothing, Nothing, Nothing, Nothing, Pushed 5]
      (lifo_demo (?v(0 := 5)) ?n (Some 0) {0} (PushWon 0 None))" by simp
  from lifo_pop_one [OF this, of 1 0]
  have "lifo_run True ?i ([Nothing, Nothing, Nothing, Nothing, Pushed 5] @ [Nothing, Taken 1, Nothing, Visited 1 5, Nothing, Finished 1])
      (lifo_demo (?v(0 := 5)) ?n None {} (PushWon 0 None))"
    by (simp add: lifo_demo_def)
  note lifo_push_checked [OF lifo_push_won [OF this, of 2 1 6], of 2 1 None]
  then have "lifo_run True ?i (([Nothing, Nothing, Nothing, Nothing, Pushed 5] @ [Nothing, Taken 1, Nothing, Visited 1 5, Nothing, Finished 1]) @ [Nothing, Nothing, Nothing, Nothing, Pushed 6, Nothing])
      (lifo_demo (?v(0 := 5, 1 := 6)) ?n (Some 1) {1} (PushWon 0 None))"
    by (simp add: lifo_demo_def fun_upd_idem)
  note lifo_push_checked [OF lifo_push_won [OF this, of 1 0 7], of 1 0 "Some 1"]
  then have "lifo_run True ?i ((([Nothing, Nothing, Nothing, Nothing, Pushed 5] @ [Nothing, Taken 1, Nothing, Visited 1 5, Nothing, Finished 1]) @ [Nothing, Nothing, Nothing, Nothing, Pushed 6, Nothing]) @ [Nothing, Nothing, Nothing, Nothing, Pushed 7, Nothing])
      (lifo_demo (?v(0 := 7, 1 := 6)) (?n(0 := Some 1)) (Some 0) {0, 1} (PushWon 0 None))"
    by (simp add: lifo_demo_def fun_upd_idem fun_upd_twist insert_commute)
  note lifo_run.push [OF lifo_push_checked [OF this, of 0 0 None] list_push.store [of _ 0 0 None]]
  then have "lifo_run True ?i (((([Nothing, Nothing, Nothing, Nothing, Pushed 5] @ [Nothing, Taken 1, Nothing, Visited 1 5, Nothing, Finished 1]) @ [Nothing, Nothing, Nothing, Nothing, Pushed 6, Nothing]) @ [Nothing, Nothing, Nothing, Nothing, Pushed 7, Nothing]) @ [Nothing, Nothing])
      (lifo_demo (?v(0 := 7, 1 := 6)) ?n (Some 0) {0, 1} (PushExp 0))"
    by (simp add: lifo_demo_def fun_upd_idem)
  from lifo_pop_one [OF this, of 1 0] show ?thesis by (auto simp: lifo_demo_def)
qed

theorem lifo_reuse_loses:
  "\<exists>es s. lifo_run True (lifo_init (\<lambda>_. 0) (\<lambda>_. None)) es s \<and> lifo_apply_all es ([], \<lambda>_. []) = None"
proof -
  obtain s where "lifo_run True (lifo_init (\<lambda>_. 0) (\<lambda>_. None))
    (((([Nothing, Nothing, Nothing, Nothing, Pushed 5] @ [Nothing, Taken 1, Nothing, Visited 1 5, Nothing, Finished 1]) @
      [Nothing, Nothing, Nothing, Nothing, Pushed 6, Nothing]) @ [Nothing, Nothing, Nothing, Nothing, Pushed 7, Nothing]) @
     [Nothing, Nothing] @ [Nothing, Taken 1, Nothing, Visited 1 7, Nothing, Finished 1]) s"
    using lifo_reuse_run by blast
  then show ?thesis by (intro exI conjI, assumption) simp
qed

text \<open>C22: lifo-push.c is a linearizable stack as long as no node is freed before the push that put it on
  the list has looked at its link again: a push takes effect at its compare and exchange, even when the
  address it expects has been freed and pushed anew, and every \<open>list_pop_all\<close> visits just the values on
  the stack at its exchange, the youngest first. Nothing in the code ensures that condition, and
  without it there is a run in which the values visited are not those on the stack.\<close>

theorem lifo_linearizable:
  "(\<forall>vs ns es s. lifo_run False (lifo_init vs ns) es s \<longrightarrow> lifo_apply_all es ([], \<lambda>_. []) \<noteq> None) \<and>
   (\<exists>es s. lifo_run True (lifo_init (\<lambda>_. 0) (\<lambda>_. None)) es s \<and> lifo_apply_all es ([], \<lambda>_. []) = None)"
  using lifo_run_refines lifo_reuse_loses by fastforce

theorem lifo_linearizable_witness:
  "\<exists>es s. lifo_run False (lifo_init (\<lambda>_. 0) (\<lambda>_. None)) es s \<and> Pushed 6 \<in> set es \<and>
     lifo_apply_all es ([], \<lambda>_. []) \<noteq> None"
proof -
  have "lifo_apply_all ((([Nothing, Nothing, Nothing, Nothing, Pushed 5] @ [Nothing]) @
       [Nothing, Taken 0, Nothing, Visited 0 5, Nothing, Finished 0]) @
      [Nothing, Nothing, Nothing, Nothing, Pushed 6]) ([], \<lambda>_. []) \<noteq> None"
    using lifo_linearizable lifo_demo_run by blast
  with lifo_demo_run show ?thesis by force
qed

end
