(* ===== verification/Skiplist.thy ===== *)
theory Skiplist
  imports Prelude "HOL-Library.Monad_Syntax"
begin

text \<open>
  datastruct/skiplist/skiplist.h and skiplist.c: an ordered list with \<open>SL_MAX_LEVELS\<close> levels of
  links and one lock per element. An element is an address in a store of \<open>struct skiplist\<close>
  records; NULL is \<open>None\<close>. The key of an element lies outside this structure and is reached only
  through the comparison function \<open>sl_cmp\<close> of the header, which the client provides.

  Every function is modelled as it runs when no other thread updates the list. Its result is
  \<open>None\<close> when it does not return: a lock that is already held, an \<open>assert\<close> or \<open>BUG_ON\<close> that
  fires, or a loop without end. The \<open>retry\<close> jumps are kept as recursive calls.
\<close>

type_synonym sptr = nat

record 'k skiplist =
  sl_toplevel :: nat
  sl_lock :: bool
  sl_deleted :: bool
  sl_head :: sptr
  sl_seq :: ulong
  sl_cmp :: "sptr \<Rightarrow> 'k \<Rightarrow> int"
  sl_next :: "nat \<Rightarrow> sptr option"

type_synonym 'k sl_heap = "sptr \<Rightarrow> 'k skiplist"

text \<open>The local array \<open>update[SL_MAX_LEVELS]\<close>.\<close>

type_synonym update = "nat \<Rightarrow> sptr option"

definition SL_MAX_LEVELS :: nat where
  "SL_MAX_LEVELS = 8"

definition EEXIST :: int where
  "EEXIST = 17"

definition ENOENT :: int where
  "ENOENT = 2"

definition set_next :: "sptr \<Rightarrow> nat \<Rightarrow> sptr option \<Rightarrow> 'k sl_heap \<Rightarrow> 'k sl_heap" where
  "set_next p level q h = h(p := (h p)\<lparr>sl_next := (sl_next (h p))(level := q)\<rparr>)"

section \<open>The header file\<close>

definition skiplist_init :: "sptr \<Rightarrow> (sptr \<Rightarrow> 'k \<Rightarrow> int) \<Rightarrow> 'k sl_heap \<Rightarrow> 'k sl_heap" where
  "skiplist_init slp cmp h = h(slp := \<lparr>sl_toplevel = SL_MAX_LEVELS - 1, sl_lock = False,
     sl_deleted = False, sl_head = slp, sl_seq = 0, sl_cmp = cmp,
     sl_next = (\<lambda>i. if i < SL_MAX_LEVELS then None else sl_next (h slp) i)\<rparr>)"

definition skiplist_start_reader :: "sptr \<Rightarrow> 'k sl_heap \<Rightarrow> ulong" where
  "skiplist_start_reader head_slp h = sl_seq (h head_slp) AND NOT 1"

definition skiplist_retry_reader :: "sptr \<Rightarrow> ulong \<Rightarrow> 'k sl_heap \<Rightarrow> bool" where
  "skiplist_retry_reader head_slp seq h \<longleftrightarrow> sl_seq (h head_slp) \<noteq> seq"

definition skiplist_start_writer :: "sptr \<Rightarrow> 'k sl_heap \<Rightarrow> 'k sl_heap option" where
  "skiplist_start_writer head_slp h =
     (let h = h(head_slp := (h head_slp)\<lparr>sl_seq := sl_seq (h head_slp) + 1\<rparr>)
      in if sl_seq (h head_slp) AND 1 = 0 then None else Some h)"

definition skiplist_end_writer :: "sptr \<Rightarrow> 'k sl_heap \<Rightarrow> 'k sl_heap option" where
  "skiplist_end_writer head_slp h =
     (let h = h(head_slp := (h head_slp)\<lparr>sl_seq := sl_seq (h head_slp) + 1\<rparr>)
      in if sl_seq (h head_slp) AND 1 \<noteq> 0 then None else Some h)"

text \<open>The loop of \<open>random_level\<close>; \<open>r\<close> is the value of \<open>random()\<close>.\<close>

function trailing_ones :: "ulong \<Rightarrow> nat \<Rightarrow> nat" where
  "trailing_ones r i = (if r AND 1 \<noteq> 0 then trailing_ones (drop_bit 1 r) (i + 1) else i)"
  by pat_completeness auto

termination
proof (relation "measure (unat \<circ> fst)", simp)
  fix r :: ulong and i :: nat
  assume "r AND 1 \<noteq> 0"
  then have "r \<noteq> 0" by auto
  then have "unat r div 2 < unat r" by (simp add: unat_gt_0)
  then show "((drop_bit 1 r, i + 1), r, i) \<in> measure (unat \<circ> fst)"
    by (simp add: drop_bit_eq_div unat_div_distrib flip: word_div_def)
qed

definition random_level :: "ulong \<Rightarrow> nat" where
  "random_level r = (let i = trailing_ones r 0 in
     if i \<ge> SL_MAX_LEVELS then SL_MAX_LEVELS - 1 else i)"

text \<open>
  The inner loop of every traversal: starting from \<open>slp\<close>, whose successor on the level is \<open>nxt\<close>,
  go on while the successor satisfies the condition. The result is the last element reached and
  its successor.
\<close>

partial_function (option) sl_walk ::
  "(sptr \<Rightarrow> bool) \<Rightarrow> nat \<Rightarrow> 'k sl_heap \<Rightarrow> sptr \<Rightarrow> sptr option \<Rightarrow> (sptr \<times> sptr option) option" where
  "sl_walk c level h slp nxt =
     (case nxt of None \<Rightarrow> Some (slp, None)
      | Some n \<Rightarrow> if c n then sl_walk c level h n (sl_next (h n) level) else Some (slp, nxt))"

text \<open>The loop over the levels, from level \<open>n - 1\<close> to level 0.\<close>

fun sl_descend :: "(sptr \<Rightarrow> bool) \<Rightarrow> nat \<Rightarrow> 'k sl_heap \<Rightarrow> sptr \<Rightarrow> sptr option" where
  "sl_descend c 0 h slp = Some slp"
| "sl_descend c (Suc level) h slp = do {
     (slp, nxt) \<leftarrow> sl_walk c level h slp (sl_next (h slp) level);
     sl_descend c level h slp
   }"

definition skiplist_valiter_first :: "sptr \<Rightarrow> 'k sl_heap \<Rightarrow> sptr option" where
  "skiplist_valiter_first head_slp h = sl_next (h head_slp) 0"

definition skiplist_valiter_last :: "sptr \<Rightarrow> 'k sl_heap \<Rightarrow> sptr option option" where
  "skiplist_valiter_last head_slp h = do {
     slp \<leftarrow> sl_descend (\<lambda>n. True) (Suc (sl_toplevel (h head_slp))) h head_slp;
     Some (if slp = head_slp then None else Some slp)
   }"

definition skiplist_valiter_next :: "sptr \<Rightarrow> 'k \<Rightarrow> 'k sl_heap \<Rightarrow> sptr option option" where
  "skiplist_valiter_next head_slp key h = do {
     let c = (\<lambda>n. sl_cmp (h head_slp) n key \<le> 0);
     slp \<leftarrow> sl_descend c (Suc (sl_toplevel (h head_slp))) h head_slp;
     (slp, nxt) \<leftarrow> sl_walk c 0 h slp (sl_next (h slp) 0);
     Some nxt
   }"

definition skiplist_lookup_help :: "sptr \<Rightarrow> 'k \<Rightarrow> 'k sl_heap \<Rightarrow> sptr option" where
  "skiplist_lookup_help head_slp key h =
     sl_descend (\<lambda>n. sl_cmp (h head_slp) n key < 0) (Suc (sl_toplevel (h head_slp))) h head_slp"

definition skiplist_valiter_prev :: "sptr \<Rightarrow> 'k \<Rightarrow> 'k sl_heap \<Rightarrow> sptr option option" where
  "skiplist_valiter_prev head_slp key h = do {
     slp \<leftarrow> skiplist_lookup_help head_slp key h;
     Some (if slp = head_slp then None else Some slp)
   }"

text \<open>
  The consistency check. The inner loop of \<open>skiplist_fsck_one\<close> goes down the lowest level to
  \<open>first_slp->sl_next[i]\<close>, and its \<open>assert\<close> fires at the end of the list.
\<close>

partial_function (option) fsck_walk :: "sptr option \<Rightarrow> 'k sl_heap \<Rightarrow> sptr option \<Rightarrow> unit option" where
  "fsck_walk target h slp =
     (if slp = target then Some ()
      else case slp of None \<Rightarrow> None | Some p \<Rightarrow> fsck_walk target h (sl_next (h p) 0))"

fun fsck_levels :: "nat list \<Rightarrow> sptr \<Rightarrow> sptr option \<Rightarrow> 'k sl_heap \<Rightarrow> unit option" where
  "fsck_levels [] first_slp slp h = Some ()"
| "fsck_levels (i # is) first_slp slp h = do {
     fsck_walk (sl_next (h first_slp) i) h slp;
     let slp = sl_next (h first_slp) i;
     (case slp of Some p \<Rightarrow> if sl_toplevel (h p) < i then None else Some () | None \<Rightarrow> Some ());
     fsck_levels is first_slp slp h
   }"

definition skiplist_fsck_one :: "sptr \<Rightarrow> 'k sl_heap \<Rightarrow> unit option" where
  "skiplist_fsck_one first_slp h = do {
     let toplevel = sl_toplevel (h first_slp);
     fsck_levels [1..<Suc toplevel] first_slp (sl_next (h first_slp) 0) h;
     if \<forall>i \<in> set [Suc toplevel..<SL_MAX_LEVELS]. sl_next (h first_slp) i = None
     then Some () else None
   }"

partial_function (option) fsck_from :: "sptr \<Rightarrow> 'k sl_heap \<Rightarrow> sptr option \<Rightarrow> unit option" where
  "fsck_from head_slp h slp =
     (case slp of None \<Rightarrow> Some ()
      | Some p \<Rightarrow> do {
          skiplist_fsck_one p h;
          if sl_head (h p) \<noteq> head_slp then None else fsck_from head_slp h (sl_next (h p) 0)
        })"

definition skiplist_fsck :: "sptr \<Rightarrow> 'k sl_heap \<Rightarrow> unit option" where
  "skiplist_fsck head_slp h = fsck_from head_slp h (Some head_slp)"

section \<open>Locking\<close>

definition skiplist_lock :: "sptr \<Rightarrow> 'k sl_heap \<Rightarrow> 'k sl_heap option" where
  "skiplist_lock slp h =
     (if sl_lock (h slp) then None else Some (h(slp := (h slp)\<lparr>sl_lock := True\<rparr>)))"

definition skiplist_unlock :: "sptr \<Rightarrow> 'k sl_heap \<Rightarrow> 'k sl_heap" where
  "skiplist_unlock slp h = h(slp := (h slp)\<lparr>sl_lock := False\<rparr>)"

definition unlock_level :: "update \<Rightarrow> nat \<Rightarrow> sptr option \<times> 'k sl_heap \<Rightarrow> sptr option \<times> 'k sl_heap" where
  "unlock_level upd level = (\<lambda>(slp_last, h).
     case upd level of None \<Rightarrow> (slp_last, h)
     | Some p \<Rightarrow> if Some p \<noteq> slp_last then (Some p, skiplist_unlock p h) else (slp_last, h))"

definition skiplist_unlock_update :: "update \<Rightarrow> nat \<Rightarrow> 'k sl_heap \<Rightarrow> 'k sl_heap" where
  "skiplist_unlock_update upd toplevel h = snd (fold (unlock_level upd) [0..<Suc toplevel] (None, h))"

section \<open>Lookup\<close>

definition skiplist_lookup_relaxed :: "sptr \<Rightarrow> 'k \<Rightarrow> 'k sl_heap \<Rightarrow> sptr option option" where
  "skiplist_lookup_relaxed head_slp key h = do {
     slp \<leftarrow> skiplist_lookup_help head_slp key h;
     Some (case sl_next (h slp) 0 of None \<Rightarrow> None
       | Some slp \<Rightarrow> if slp \<noteq> head_slp \<and> \<not> sl_deleted (h slp) \<and> sl_cmp (h head_slp) slp key = 0
                     then Some slp else None)
   }"

text \<open>The result is \<open>(slp_cur, *slpp_prev, *result)\<close> and the store.\<close>

partial_function (option) skiplist_lookup_lock_prev ::
  "sptr \<Rightarrow> 'k \<Rightarrow> 'k sl_heap \<Rightarrow> (sptr option \<times> sptr \<times> int \<times> 'k sl_heap) option" where
  "skiplist_lookup_lock_prev head_slp key h = do {
     slp_prev \<leftarrow> skiplist_lookup_help head_slp key h;
     h \<leftarrow> skiplist_lock slp_prev h;
     if sl_deleted (h slp_prev)
     then skiplist_lookup_lock_prev head_slp key (skiplist_unlock slp_prev h)
     else case sl_next (h slp_prev) 0 of
       None \<Rightarrow> Some (None, slp_prev, 1, skiplist_unlock slp_prev h)
     | Some slp_cur \<Rightarrow>
         if sl_deleted (h slp_cur) then Some (None, slp_prev, 1, skiplist_unlock slp_prev h)
         else if sl_cmp (h head_slp) slp_cur key \<ge> 0
         then Some (Some slp_cur, slp_prev, sl_cmp (h head_slp) slp_cur key, h)
         else skiplist_lookup_lock_prev head_slp key (skiplist_unlock slp_prev h)
   }"

definition skiplist_lookup_lock :: "sptr \<Rightarrow> 'k \<Rightarrow> 'k sl_heap \<Rightarrow> (sptr option \<times> 'k sl_heap) option" where
  "skiplist_lookup_lock head_slp key h = do {
     (slp_cur, slp_prev, result, h) \<leftarrow> skiplist_lookup_lock_prev head_slp key h;
     case slp_cur of None \<Rightarrow> Some (None, h)
     | Some slp_cur \<Rightarrow>
         if result \<noteq> 0 then Some (None, skiplist_unlock slp_prev h)
         else do {
           h \<leftarrow> skiplist_lock slp_cur h;
           Some (Some slp_cur, skiplist_unlock slp_prev h)
         }
   }"

text \<open>The iterators of this implementation ignore the hint.\<close>

definition skiplist_ptriter_first :: "sptr \<Rightarrow> 'k sl_heap \<Rightarrow> sptr option" where
  "skiplist_ptriter_first head_slp h = skiplist_valiter_first head_slp h"

definition skiplist_ptriter_last :: "sptr \<Rightarrow> 'k sl_heap \<Rightarrow> sptr option option" where
  "skiplist_ptriter_last head_slp h = skiplist_valiter_last head_slp h"

definition skiplist_ptriter_next :: "sptr \<Rightarrow> 'k \<Rightarrow> 'k sl_heap \<Rightarrow> sptr option option" where
  "skiplist_ptriter_next head_slp key h = skiplist_valiter_next head_slp key h"

definition skiplist_ptriter_prev :: "sptr \<Rightarrow> 'k \<Rightarrow> 'k sl_heap \<Rightarrow> sptr option option" where
  "skiplist_ptriter_prev head_slp key h = skiplist_valiter_prev head_slp key h"

section \<open>Deletion\<close>

text \<open>
  The loop over the levels finds the predecessors and locks them. It ends with \<open>slp_cur\<close>, the
  array and the store (\<open>Inr\<close>), or with a jump to \<open>retry\<close> (\<open>Inl\<close>). The variable \<open>result\<close> of the
  code is used only when \<open>slp_cur\<close> is not NULL, and is then the comparison of \<open>slp_cur\<close>.
\<close>

fun delete_levels :: "sptr \<Rightarrow> 'k \<Rightarrow> nat \<Rightarrow> sptr \<Rightarrow> sptr option \<Rightarrow> sptr option \<Rightarrow> update \<Rightarrow> 'k sl_heap
    \<Rightarrow> ('k sl_heap + sptr option \<times> update \<times> 'k sl_heap) option" where
  "delete_levels head_slp key 0 slp_prev slp_last slp_cur upd h = Some (Inr (slp_cur, upd, h))"
| "delete_levels head_slp key (Suc level) slp_prev slp_last slp_cur upd h = do {
     (slp_prev, slp_cur) \<leftarrow> sl_walk (\<lambda>n. sl_cmp (h head_slp) n key < 0) level h slp_prev
       (sl_next (h slp_prev) level);
     if slp_cur = None \<or> sl_cmp (h head_slp) (the slp_cur) key \<noteq> 0
     then delete_levels head_slp key level slp_prev slp_last slp_cur (upd(level := None)) h
     else if Some slp_prev \<noteq> slp_last then do {
       let upd = upd(level := Some slp_prev);
       h \<leftarrow> skiplist_lock slp_prev h;
       if slp_cur \<noteq> sl_next (h slp_prev) level \<or>
          (level < sl_toplevel (h slp_prev) \<and>
           sl_next (h slp_prev) level = sl_next (h slp_prev) (level + 1))
       then let upd = (\<lambda>i. if i < level then None else upd i)
            in Some (Inl (skiplist_unlock_update upd (sl_toplevel (h (the slp_cur))) h))
       else delete_levels head_slp key level slp_prev (Some slp_prev) slp_cur upd h
     }
     else delete_levels head_slp key level slp_prev slp_last slp_cur
       (upd(level := Some slp_prev)) h
   }"

definition unlink_level :: "update \<Rightarrow> sptr \<Rightarrow> nat \<Rightarrow> 'k sl_heap \<Rightarrow> 'k sl_heap" where
  "unlink_level upd slp_cur level h =
     (case upd level of None \<Rightarrow> h | Some p \<Rightarrow> set_next p level (sl_next (h slp_cur) level) h)"

text \<open>The loop that looks for a predecessor that has changed before it was locked.\<close>

definition delete_stale :: "update \<Rightarrow> sptr \<Rightarrow> 'k sl_heap \<Rightarrow> bool" where
  "delete_stale upd slp_cur h \<longleftrightarrow> (\<exists>level \<in> set [0..<Suc (sl_toplevel (h slp_cur))].
     case upd level of None \<Rightarrow> False
     | Some p \<Rightarrow> sl_deleted (h p) \<or> sl_next (h p) level \<noteq> Some slp_cur)"

partial_function (option) skiplist_delete ::
  "sptr \<Rightarrow> 'k \<Rightarrow> 'k sl_heap \<Rightarrow> (sptr option \<times> 'k sl_heap) option" where
  "skiplist_delete head_slp key h = do {
     let toplevel = sl_toplevel (h head_slp);
     r \<leftarrow> delete_levels head_slp key (Suc toplevel) head_slp None None (\<lambda>_. None) h;
     case r of Inl h \<Rightarrow> skiplist_delete head_slp key h
     | Inr (slp_cur, upd, h) \<Rightarrow>
         if slp_cur = None \<or> sl_cmp (h head_slp) (the slp_cur) key \<noteq> 0
         then Some (None, skiplist_unlock_update upd toplevel h)
         else let cur = the slp_cur; top = sl_toplevel (h cur) in
           if delete_stale upd cur h
           then skiplist_delete head_slp key (skiplist_unlock_update upd top h)
           else do {
             h \<leftarrow> skiplist_lock cur h;
             let h = fold (unlink_level upd cur) (rev [0..<Suc top]) h;
             let h = h(cur := (h cur)\<lparr>sl_deleted := True\<rparr>);
             let h = skiplist_unlock_update upd top h;
             Some (slp_cur, skiplist_unlock cur h)
           }
   }"

section \<open>Insertion\<close>

fun insert_lock_levels :: "sptr \<Rightarrow> 'k \<Rightarrow> nat \<Rightarrow> nat \<Rightarrow> sptr \<Rightarrow> update \<Rightarrow> 'k sl_heap
    \<Rightarrow> ('k sl_heap + update \<times> 'k sl_heap) option" where
  "insert_lock_levels head_slp key toplevel 0 slp upd h = Some (Inr (upd, h))"
| "insert_lock_levels head_slp key toplevel (Suc level) slp upd h = do {
     (slp, slp_next) \<leftarrow> sl_walk (\<lambda>n. sl_cmp (h head_slp) n key < 0) level h slp
       (sl_next (h slp) level);
     let upd = upd(level := Some slp);
     if level > toplevel
     then insert_lock_levels head_slp key toplevel level slp (upd(level := None)) h
     else if level = toplevel \<or> upd level \<noteq> upd (level + 1) then do {
       h \<leftarrow> skiplist_lock slp h;
       if slp_next \<noteq> sl_next (h slp) level \<or>
          (level < sl_toplevel (h slp) \<and> level < toplevel \<and>
           sl_next (h slp) level = sl_next (h slp) (level + 1))
       then let upd = (\<lambda>i. if i < level then None else upd i)
            in Some (Inl (skiplist_unlock_update upd toplevel h))
       else insert_lock_levels head_slp key toplevel level slp upd h
     }
     else insert_lock_levels head_slp key toplevel level slp upd h
   }"

definition insert_stale :: "sptr \<Rightarrow> 'k \<Rightarrow> nat \<Rightarrow> update \<Rightarrow> 'k sl_heap \<Rightarrow> bool" where
  "insert_stale head_slp key toplevel upd h \<longleftrightarrow> (\<exists>level \<in> set [0..<Suc toplevel].
     let slp = the (upd level) in
     sl_deleted (h slp) \<or>
     (case sl_next (h slp) level of None \<Rightarrow> False | Some n \<Rightarrow> sl_cmp (h head_slp) n key < 0))"

text \<open>\<open>toplevel\<close> is the result of \<open>random_level\<close>, which is called once, before \<open>retry\<close>.\<close>

partial_function (option) skiplist_insert_lock ::
  "sptr \<Rightarrow> 'k \<Rightarrow> nat \<Rightarrow> 'k sl_heap \<Rightarrow> (int \<times> update \<times> 'k sl_heap) option" where
  "skiplist_insert_lock head_slp key toplevel h = do {
     r \<leftarrow> insert_lock_levels head_slp key toplevel (Suc (sl_toplevel (h head_slp))) head_slp
       (\<lambda>_. None) h;
     case r of Inl h \<Rightarrow> skiplist_insert_lock head_slp key toplevel h
     | Inr (upd, h) \<Rightarrow>
         if insert_stale head_slp key toplevel upd h
         then skiplist_insert_lock head_slp key toplevel (skiplist_unlock_update upd toplevel h)
         else let slp = sl_next (h (the (upd 0))) 0 in
           if slp = None \<or> sl_cmp (h head_slp) (the slp) key > 0
           then Some (int toplevel, upd, h)
           else Some (-1, upd, skiplist_unlock_update upd toplevel h)
   }"

fun insert_levels :: "nat list \<Rightarrow> sptr \<Rightarrow> update \<Rightarrow> 'k sl_heap \<Rightarrow> 'k sl_heap option" where
  "insert_levels [] new_slp upd h = Some h"
| "insert_levels (level # ls) new_slp upd h = do {
     let u = the (upd level);
     let h = set_next new_slp level (sl_next (h u) level) h;
     (if sl_toplevel (h u) < level then None else Some ());
     insert_levels ls new_slp upd (set_next u level (Some new_slp) h)
   }"

definition skiplist_insert :: "sptr \<Rightarrow> sptr \<Rightarrow> 'k \<Rightarrow> ulong \<Rightarrow> 'k sl_heap \<Rightarrow> (int \<times> 'k sl_heap) option" where
  "skiplist_insert new_slp head_slp key r h = do {
     (toplevel, upd, h) \<leftarrow> skiplist_insert_lock head_slp key (random_level r) h;
     if toplevel < 0 then Some (- EEXIST, h)
     else do {
       let toplevel = nat toplevel;
       let h = h(new_slp := (h new_slp)\<lparr>sl_toplevel := toplevel, sl_lock := False,
         sl_deleted := False, sl_head := head_slp\<rparr>);
       h \<leftarrow> skiplist_lock new_slp h;
       let h = fold (\<lambda>level. set_next new_slp level None) [Suc toplevel..<SL_MAX_LEVELS] h;
       h \<leftarrow> insert_levels [0..<Suc toplevel] new_slp upd h;
       let h = skiplist_unlock_update upd toplevel h;
       Some (0, skiplist_unlock new_slp h)
     }
   }"

section \<open>Rebalancing\<close>

fun balance_lock_levels :: "sptr \<Rightarrow> 'k \<Rightarrow> nat \<Rightarrow> nat \<Rightarrow> sptr \<Rightarrow> update \<Rightarrow> 'k sl_heap
    \<Rightarrow> (sptr \<times> update \<times> 'k sl_heap) option" where
  "balance_lock_levels head_slp key toplevel 0 slp upd h = Some (slp, upd, h)"
| "balance_lock_levels head_slp key toplevel (Suc level) slp upd h = do {
     (slp, slp_next) \<leftarrow> sl_walk (\<lambda>n. sl_cmp (h head_slp) n key < 0) level h slp
       (sl_next (h slp) level);
     let upd = upd(level := Some slp);
     h \<leftarrow> (if level = toplevel \<or> Some slp \<noteq> upd (level + 1) then skiplist_lock slp h else Some h);
     balance_lock_levels head_slp key toplevel level slp upd h
   }"

definition skiplist_balance_node_lock ::
  "sptr \<Rightarrow> 'k \<Rightarrow> 'k sl_heap \<Rightarrow> (sptr option \<times> update \<times> 'k sl_heap) option" where
  "skiplist_balance_node_lock head_slp key h = do {
     let toplevel = sl_toplevel (h head_slp);
     (slp, upd, h) \<leftarrow> balance_lock_levels head_slp key toplevel (Suc toplevel) head_slp (\<lambda>_. None) h;
     let nxt = sl_next (h slp) 0;
     if nxt \<noteq> None \<and> sl_cmp (h head_slp) (the nxt) key = 0 then Some (nxt, upd, h)
     else Some (None, upd, skiplist_unlock_update upd (sl_toplevel (h head_slp)) h)
   }"

text \<open>
  The two loops. The one for a lower level is \<open>for (level = newlevel; level > slp->sl_toplevel;
  level++)\<close>, and runs only when \<open>newlevel\<close> is below \<open>sl_toplevel\<close>.
\<close>

partial_function (option) balance_down :: "update \<Rightarrow> sptr \<Rightarrow> nat \<Rightarrow> 'k sl_heap \<Rightarrow> 'k sl_heap option" where
  "balance_down upd slp level h =
     (if level > sl_toplevel (h slp)
      then balance_down upd slp (level + 1)
        (set_next (the (upd level)) level (sl_next (h slp) level) h)
      else Some h)"

definition balance_up_level :: "update \<Rightarrow> sptr \<Rightarrow> nat \<Rightarrow> 'k sl_heap \<Rightarrow> 'k sl_heap" where
  "balance_up_level upd slp level h =
     (let h = set_next slp level (sl_next (h (the (upd level))) level) h
      in set_next (the (upd level)) level (Some slp) h)"

definition skiplist_balance_node ::
  "sptr \<Rightarrow> 'k \<Rightarrow> nat \<Rightarrow> 'k sl_heap \<Rightarrow> (int \<times> 'k sl_heap) option" where
  "skiplist_balance_node head_slp key newlevel h = do {
     (r, upd, h) \<leftarrow> skiplist_balance_node_lock head_slp key h;
     case r of None \<Rightarrow> Some (- ENOENT, h)
     | Some slp \<Rightarrow>
         if sl_toplevel (h slp) = newlevel
         then Some (0, skiplist_unlock_update upd (sl_toplevel (h head_slp)) h)
         else do {
           h \<leftarrow> (if sl_toplevel (h slp) > newlevel then balance_down upd slp newlevel h
                 else Some (fold (balance_up_level upd slp) [Suc (sl_toplevel (h slp))..<Suc newlevel] h));
           let h = h(slp := (h slp)\<lparr>sl_toplevel := newlevel\<rparr>);
           Some (0, skiplist_unlock_update upd (sl_toplevel (h head_slp)) h)
         }
   }"

end
