(* ===== verification/Skiplist_Links.thy ===== *)
theory Skiplist_Links
  imports Skiplist
begin

text \<open>
  What the proofs about the skip lists share. The links of one level form a \<open>chain\<close>; if the
  elements of the list split into \<open>A\<close>, which satisfy the condition of a traversal, and \<open>B\<close>, which
  do not, every traversal ends at \<open>pred_at\<close>, the last element of \<open>A\<close> that is tall enough for the
  level. \<open>lockset\<close> separates the locks from the rest of the store.
\<close>

section \<open>Chains\<close>

fun chain :: "(sptr \<Rightarrow> sptr option) \<Rightarrow> sptr \<Rightarrow> sptr list \<Rightarrow> bool" where
  "chain nx p [] \<longleftrightarrow> nx p = None"
| "chain nx p (q # qs) \<longleftrightarrow> nx p = Some q \<and> chain nx q qs"

fun hd_opt :: "'a list \<Rightarrow> 'a option" where
  "hd_opt [] = None"
| "hd_opt (x # xs) = Some x"

lemma hd_opt_None [simp]: "hd_opt xs = None \<longleftrightarrow> xs = []"
  by (cases xs) simp_all

lemma hd_opt_Some: "hd_opt xs = Some x \<Longrightarrow> x \<in> set xs"
  by (cases xs) simp_all

lemma hd_opt_find: "hd_opt (filter P xs) = find P xs"
  by (induction xs) simp_all

lemma hd_opt_dropWhile: "hd_opt (dropWhile P xs) = find (\<lambda>x. \<not> P x) xs"
  by (induction xs) simp_all

lemma chain_next: "chain nx p qs \<Longrightarrow> nx p = hd_opt qs"
  by (cases qs) simp_all

lemma chain_append:
  "chain nx p (xs @ ys) \<Longrightarrow> chain nx (last (p # xs)) ys"
  by (induction xs arbitrary: p) auto

lemma chain_cong:
  "(\<And>q. q \<in> set (p # qs) \<Longrightarrow> nx q = nx' q) \<Longrightarrow> chain nx p qs = chain nx' p qs"
  by (induction qs arbitrary: p) auto

lemma chain_upd [simp]: "x \<notin> set (p # qs) \<Longrightarrow> chain (nx(x := v)) p qs = chain nx p qs"
  by (rule chain_cong) auto

lemma chain_split_last:
  "chain nx p (xs @ ys) \<Longrightarrow> distinct (p # xs @ ys) \<Longrightarrow> chain nx' (last (p # xs)) zs \<Longrightarrow>
   (\<And>q. q \<in> set (p # xs) \<Longrightarrow> q \<noteq> last (p # xs) \<Longrightarrow> nx' q = nx q) \<Longrightarrow>
   chain nx' p (xs @ zs)"
proof (induction xs arbitrary: p)
  case Nil
  then show ?case by simp
next
  case (Cons x xs)
  have "last (x # xs) \<in> set (x # xs)" by (rule last_in_set) simp
  with Cons.prems(2) have "p \<noteq> last (p # x # xs)" by auto
  with Cons.prems(1,4) have "nx' p = Some x" by simp
  moreover have "chain nx' x (xs @ zs)"
  proof (rule Cons.IH)
    show "chain nx x (xs @ ys)" using Cons.prems(1) by simp
    show "distinct (x # xs @ ys)" using Cons.prems(2) by simp
    show "chain nx' (last (x # xs)) zs" using Cons.prems(3) by simp
    show "nx' q = nx q" if "q \<in> set (x # xs)" "q \<noteq> last (x # xs)" for q
      using Cons.prems(4) that by simp
  qed
  ultimately show ?case by simp
qed

text \<open>Unlinking and linking one element.\<close>

lemma chain_remove:
  assumes "chain nx p (xs @ b # ys)" and "distinct (p # xs @ b # ys)"
  shows "chain (nx(last (p # xs) := nx b)) p (xs @ ys)"
proof (rule chain_split_last [OF assms])
  have b: "chain nx b ys" using chain_append [OF assms(1)] by simp
  have l: "last (p # xs) \<notin> set (b # ys)"
    using assms(2) last_in_set [of "p # xs"] by auto
  show "chain (nx(last (p # xs) := nx b)) (last (p # xs)) ys"
  proof (cases ys)
    case Nil
    with b show ?thesis by simp
  next
    case (Cons y zs)
    with b have y: "nx b = Some y" "chain nx y zs" by simp_all
    have "chain (nx(last (p # xs) := nx b)) y zs"
      by (subst chain_upd) (use l y(2) Cons in auto)
    with y(1) Cons show ?thesis by simp
  qed
qed simp

lemma chain_add:
  assumes "chain nx p (xs @ ys)" and "distinct (p # xs @ ys)" and "n \<notin> set (p # xs @ ys)"
  shows "chain (nx(n := nx (last (p # xs)), last (p # xs) := Some n)) p (xs @ n # ys)"
    (is "chain ?nx _ _")
proof (rule chain_split_last [OF assms(1,2)])
  have e: "chain nx (last (p # xs)) ys" using chain_append [OF assms(1)] .
  have l: "last (p # xs) \<in> set (p # xs)" by (rule last_in_set) simp
  with assms(2,3) have ly: "last (p # xs) \<notin> set ys" "last (p # xs) \<noteq> n" by auto
  have "chain ?nx n ys"
  proof (cases ys)
    case Nil
    with e ly(2) show ?thesis by simp
  next
    case (Cons y zs)
    with e have y: "nx (last (p # xs)) = Some y" "chain nx y zs" by simp_all
    have "chain ?nx y zs"
      by (subst chain_upd, use ly Cons in simp, subst chain_upd) (use assms(3) y(2) Cons in auto)
    with y(1) Cons ly(2) show ?thesis by simp
  qed
  with ly(2) show "chain ?nx (last (p # xs)) (n # ys)" by simp
  show "?nx q = nx q" if "q \<in> set (p # xs)" "q \<noteq> last (p # xs)" for q
    using that assms(3) by auto
qed

section \<open>Traversals\<close>

definition tall :: "'k sl_heap \<Rightarrow> nat \<Rightarrow> sptr \<Rightarrow> bool" where
  "tall h level p \<longleftrightarrow> level \<le> sl_toplevel (h p)"

lemma tall_0 [simp]: "tall h 0 p"
  by (simp add: tall_def)

definition linked :: "'k sl_heap \<Rightarrow> sptr \<Rightarrow> sptr list \<Rightarrow> nat \<Rightarrow> bool" where
  "linked h head L level \<longleftrightarrow> chain (\<lambda>p. sl_next (h p) level) head (filter (tall h level) L)"

definition pred_at :: "'k sl_heap \<Rightarrow> sptr \<Rightarrow> sptr list \<Rightarrow> nat \<Rightarrow> sptr" where
  "pred_at h head A level = last (head # filter (tall h level) A)"

lemma pred_at_in: "pred_at h head A level \<in> set (head # A)"
proof -
  have "pred_at h head A level \<in> set (head # filter (tall h level) A)"
    unfolding pred_at_def by (rule last_in_set) simp
  then show ?thesis by auto
qed

lemma pred_at_tall: "pred_at h head A level = head \<or> tall h level (pred_at h head A level)"
proof -
  have "pred_at h head A level \<in> set (head # filter (tall h level) A)"
    unfolding pred_at_def by (rule last_in_set) simp
  then show ?thesis by auto
qed

lemma filter_last_tall:
  assumes "l \<le> j" and "x = last (head # filter (tall h l) A)" and "tall h j x"
    and "x \<noteq> head \<or> filter (tall h l) A = []"
  shows "x = last (head # filter (tall h j) A)"
proof (cases "filter (tall h l) A = []")
  case True
  then have "filter (tall h j) A = []"
    using assms(1) by (auto simp: tall_def filter_empty_conv)
  with assms(2) True show ?thesis by simp
next
  case False
  have "filter (tall h j) A = filter (tall h j) (filter (tall h l) A)"
    using assms(1) by (auto simp: tall_def intro!: filter_cong)
  also have "filter (tall h l) A = butlast (filter (tall h l) A) @ [x]"
    using assms(2) False by simp
  finally have "filter (tall h j) A = filter (tall h j) (butlast (filter (tall h l) A)) @ [x]"
    using assms(3) by simp
  then show ?thesis by simp
qed

text \<open>A predecessor that is also tall enough for a higher level is the predecessor there.\<close>

lemma pred_at_higher:
  assumes "l \<le> j" and "tall h j (pred_at h head A l)" and "head \<notin> set A"
  shows "pred_at h head A j = pred_at h head A l"
proof -
  have "pred_at h head A l \<noteq> head \<or> filter (tall h l) A = []"
    using assms(3) last_in_set [of "filter (tall h l) A"] by (auto simp: pred_at_def)
  from filter_last_tall [OF assms(1) _ assms(2) this] show ?thesis
    by (simp add: pred_at_def)
qed

lemma pred_at_between:
  assumes "l \<le> i" and "i \<le> j" and "pred_at h head A l = pred_at h head A j"
    and "head \<notin> set A" and "j \<le> sl_toplevel (h head)"
  shows "pred_at h head A i = pred_at h head A l"
proof (rule pred_at_higher [OF assms(1) _ assms(4)])
  show "tall h i (pred_at h head A l)"
    using pred_at_tall [of h head A j] assms(2,3,5) by (auto simp: tall_def)
qed

lemma walk_chain:
  "chain (\<lambda>p. sl_next (h p) level) p qs \<Longrightarrow>
   sl_walk c level h p (sl_next (h p) level) =
     Some (last (p # takeWhile c qs), hd_opt (dropWhile c qs))"
proof (induction qs arbitrary: p)
  case Nil
  then show ?case by (simp add: sl_walk.simps)
next
  case (Cons q qs)
  then show ?case by (subst sl_walk.simps) simp
qed

lemma takeWhile_split:
  "(\<And>a. a \<in> set A \<Longrightarrow> c a) \<Longrightarrow> (\<And>b. b \<in> set B \<Longrightarrow> \<not> c b) \<Longrightarrow> takeWhile c (A @ B) = A"
  "(\<And>a. a \<in> set A \<Longrightarrow> c a) \<Longrightarrow> (\<And>b. b \<in> set B \<Longrightarrow> \<not> c b) \<Longrightarrow> dropWhile c (A @ B) = B"
  by (induction A) (simp_all, (cases B; simp)+)

lemma chain_from:
  assumes l: "linked h head (A @ B) level" and p: "p \<in> set (head # filter (tall h level) A)"
  obtains ys where "chain (\<lambda>p. sl_next (h p) level) p (ys @ filter (tall h level) B)" and "set ys \<subseteq> set A"
    and "last (p # ys) = pred_at h head A level"
proof -
  obtain xs ys where x: "head # filter (tall h level) A = xs @ p # ys"
    using split_list [OF p] by blast
  have c: "chain (\<lambda>p. sl_next (h p) level) p (ys @ filter (tall h level) B)"
  proof (cases xs)
    case Nil
    with x l show ?thesis by (simp add: linked_def)
  next
    case (Cons z zs)
    with x have "head = z" "filter (tall h level) A = zs @ p # ys" by simp_all
    with l have "chain (\<lambda>p. sl_next (h p) level) head ((zs @ [p]) @ (ys @ filter (tall h level) B))"
      by (simp add: linked_def)
    from chain_append [OF this] show ?thesis by simp
  qed
  have "set ys \<subseteq> set A" using x by (metis (no_types) Cons_eq_append_conv Un_iff
      filter_is_subset list.set_intros(2) set_append subset_iff list.inject)
  moreover have "last (p # ys) = pred_at h head A level" by (simp add: pred_at_def x)
  ultimately show ?thesis using that c by blast
qed

lemma walk_split:
  assumes l: "linked h head (A @ B) level"
    and A: "\<And>a. a \<in> set A \<Longrightarrow> c a" and B: "\<And>b. b \<in> set B \<Longrightarrow> \<not> c b"
    and p: "p \<in> set (head # filter (tall h level) A)"
  shows "sl_walk c level h p (sl_next (h p) level) =
    Some (pred_at h head A level, hd_opt (filter (tall h level) B))"
proof -
  obtain ys where c: "chain (\<lambda>p. sl_next (h p) level) p (ys @ filter (tall h level) B)"
    and s: "set ys \<subseteq> set A" and e: "last (p # ys) = pred_at h head A level"
    using chain_from [OF l p] by blast
  have "takeWhile c (ys @ filter (tall h level) B) = ys"
    "dropWhile c (ys @ filter (tall h level) B) = filter (tall h level) B"
    by (rule takeWhile_split; use A B s in auto)+
  with walk_chain [OF c, of c] e show ?thesis by simp
qed

lemma pred_at_start: "i \<le> l \<Longrightarrow> pred_at h head A l \<in> set (head # filter (tall h i) A)"
proof -
  assume "i \<le> l"
  then have "set (filter (tall h l) A) \<subseteq> set (filter (tall h i) A)" by (auto simp: tall_def)
  moreover have "pred_at h head A l \<in> set (head # filter (tall h l) A)"
    unfolding pred_at_def by (rule last_in_set) simp
  ultimately show ?thesis by auto
qed

lemma descend_split:
  assumes l: "\<And>level. level < n \<Longrightarrow> linked h head (A @ B) level"
    and A: "\<And>a. a \<in> set A \<Longrightarrow> c a" and B: "\<And>b. b \<in> set B \<Longrightarrow> \<not> c b"
    and p: "p \<in> set (head # filter (tall h (n - 1)) A)" and n: "0 < n"
  shows "sl_descend c n h p = Some (pred_at h head A 0)"
  using l p n
proof (induction n arbitrary: p)
  case (Suc n)
  have w: "sl_walk c n h p (sl_next (h p) n) =
      Some (pred_at h head A n, hd_opt (filter (tall h n) B))"
    by (rule walk_split [OF _ A B]) (use Suc.prems in auto)
  show ?case
  proof (cases n)
    case 0
    with w show ?thesis by simp
  next
    case (Suc k)
    have "sl_descend c n h (pred_at h head A n) = Some (pred_at h head A 0)"
      by (rule Suc.IH) (use Suc.prems Suc pred_at_start [of "n - 1" n] in auto)
    with w show ?thesis by simp
  qed
qed simp

section \<open>Locks\<close>

definition lockset :: "sptr set \<Rightarrow> 'k sl_heap \<Rightarrow> 'k sl_heap" where
  "lockset S h = (\<lambda>p. if p \<in> S then (h p)\<lparr>sl_lock := True\<rparr> else h p)"

lemma lockset_sel [simp]:
  "sl_toplevel (lockset S h p) = sl_toplevel (h p)" "sl_deleted (lockset S h p) = sl_deleted (h p)"
  "sl_head (lockset S h p) = sl_head (h p)" "sl_cmp (lockset S h p) = sl_cmp (h p)"
  "sl_next (lockset S h p) = sl_next (h p)" "lockset {} h = h"
  by (simp_all add: lockset_def)

lemma lockset_links [simp]:
  "tall (lockset S h) = tall h" "linked (lockset S h) = linked h" "pred_at (lockset S h) = pred_at h"
  by (simp_all add: tall_def linked_def pred_at_def fun_eq_iff cong: filter_cong)

lemma lock_lockset:
  "\<not> sl_lock (h p) \<Longrightarrow> p \<notin> S \<Longrightarrow> skiplist_lock p (lockset S h) = Some (lockset (insert p S) h)"
  by (auto simp: skiplist_lock_def lockset_def fun_eq_iff)

lemma unlock_lockset:
  "\<not> sl_lock (h p) \<Longrightarrow> skiplist_unlock p (lockset S h) = lockset (S - {p}) h"
  by (cases "h p") (auto simp: skiplist_unlock_def lockset_def fun_eq_iff)

lemma set_next_lockset: "set_next p l q (lockset S h) = lockset S (set_next p l q h)"
  by (auto simp: set_next_def lockset_def fun_eq_iff)

lemma set_next_sel [simp]:
  "sl_toplevel (set_next p l q h r) = sl_toplevel (h r)" "sl_lock (set_next p l q h r) = sl_lock (h r)"
  "sl_deleted (set_next p l q h r) = sl_deleted (h r)" "sl_head (set_next p l q h r) = sl_head (h r)"
  "sl_cmp (set_next p l q h r) = sl_cmp (h r)"
  "sl_next (set_next p l q h r) =
     (if r = p then (sl_next (h r))(l := q) else sl_next (h r))"
  by (simp_all add: set_next_def)

lemma set_next_tall [simp]: "tall (set_next p l q h) = tall h"
  by (simp add: tall_def fun_eq_iff)

lemma unlock_levels:
  assumes "\<And>l p. upd l = Some p \<Longrightarrow> \<not> sl_lock (h p)"
  shows "\<exists>r. fold (unlock_level upd) [0..<n] (None, lockset S h) =
      (r, lockset (S - {p. \<exists>l<n. upd l = Some p}) h) \<and> (\<forall>q. r = Some q \<longrightarrow> (\<exists>l<n. upd l = Some q))"
proof (induction n)
  case (Suc n)
  then obtain r where r: "fold (unlock_level upd) [0..<n] (None, lockset S h) =
      (r, lockset (S - {p. \<exists>l<n. upd l = Some p}) h)" "\<forall>q. r = Some q \<longrightarrow> (\<exists>l<n. upd l = Some q)"
    by blast
  show ?case
  proof (cases "upd n")
    case None
    then have e: "(\<exists>l<Suc n. upd l = Some p) \<longleftrightarrow> (\<exists>l<n. upd l = Some p)" for p
      by (auto simp: less_Suc_eq)
    from None have "unlock_level upd n x = x" for x :: "sptr option \<times> 'a sl_heap"
      by (simp add: unlock_level_def split_beta)
    with r e show ?thesis by simp
  next
    case (Some p)
    have e: "{q. \<exists>l<Suc n. upd l = Some q} = insert p {q. \<exists>l<n. upd l = Some q}"
      using Some by (auto simp: less_Suc_eq)
    have d: "S - {q. \<exists>l<n. upd l = Some q} - {p} = S - insert p {q. \<exists>l<n. upd l = Some q}"
      by auto
    show ?thesis
    proof (cases "r = Some p")
      case True
      then have "insert p {q. \<exists>l<n. upd l = Some q} = {q. \<exists>l<n. upd l = Some q}"
        using r(2) by auto
      moreover from Some True have "unlock_level upd n (r, g) = (r, g)" for g :: "'a sl_heap"
        by (simp add: unlock_level_def)
      ultimately show ?thesis unfolding e using r Some True by (auto simp: less_Suc_eq)
    next
      case False
      with Some have "unlock_level upd n (r, g) = (Some p, skiplist_unlock p g)" for g :: "'a sl_heap"
        by (simp add: unlock_level_def)
      with r(1) Some unlock_lockset [where h = h and p = p, OF assms [OF Some]] show ?thesis
        unfolding e by (auto simp: d)
    qed
  qed
qed simp

lemma unlock_update_lockset:
  assumes "\<And>l p. upd l = Some p \<Longrightarrow> \<not> sl_lock (h p)"
  shows "skiplist_unlock_update upd t (lockset S h) = lockset (S - {p. \<exists>l\<le>t. upd l = Some p}) h"
proof -
  have "\<exists>r. fold (unlock_level upd) [0..<Suc t] (None, lockset S h) =
      (r, lockset (S - {p. \<exists>l<Suc t. upd l = Some p}) h) \<and>
      (\<forall>q. r = Some q \<longrightarrow> (\<exists>l<Suc t. upd l = Some q))"
    by (rule unlock_levels) (rule assms)
  then obtain r where "fold (unlock_level upd) [0..<Suc t] (None, lockset S h) =
      (r, lockset (S - {p. \<exists>l<Suc t. upd l = Some p}) h)"
    by blast
  then show ?thesis unfolding skiplist_unlock_update_def by (simp only: snd_conv less_Suc_eq_le)
qed

end
