(* ===== verification/Skiplist_Inv.thy ===== *)
theory Skiplist_Inv
  imports Skiplist_Links
begin

text \<open>
  The invariant of a skip list and the proof that every operation of skiplist.c keeps it and does
  to the ordered list of its elements what it should. The interface \<open>sl_client\<close> is what the
  comparison function of the header promises: it compares the key that \<open>keyof\<close> gives.
\<close>

definition sl_node_ok :: "sptr \<Rightarrow> 'k sl_heap \<Rightarrow> sptr \<Rightarrow> bool" where
  "sl_node_ok head h p \<longleftrightarrow> sl_toplevel (h p) < SL_MAX_LEVELS \<and> \<not> sl_lock (h p) \<and>
     \<not> sl_deleted (h p) \<and> sl_head (h p) = head \<and>
     (\<forall>l. sl_toplevel (h p) < l \<and> l < SL_MAX_LEVELS \<longrightarrow> sl_next (h p) l = None)"

definition sl_wf :: "(sptr \<Rightarrow> 'k::linorder) \<Rightarrow> (sptr \<Rightarrow> 'k \<Rightarrow> int) \<Rightarrow> sptr \<Rightarrow> 'k sl_heap \<Rightarrow> sptr list \<Rightarrow> bool"
  where
  "sl_wf keyof cmp head h L \<longleftrightarrow>
     sl_toplevel (h head) = SL_MAX_LEVELS - 1 \<and> sl_cmp (h head) = cmp \<and> distinct (head # L) \<and>
     sorted_wrt (\<lambda>p q. keyof p < keyof q) L \<and> (\<forall>l < SL_MAX_LEVELS. linked h head L l) \<and>
     (\<forall>p \<in> set (head # L). sl_node_ok head h p)"

lemma find_append_none: "(\<And>a. a \<in> set xs \<Longrightarrow> \<not> P a) \<Longrightarrow> find P (xs @ ys) = find P ys"
  by (induction xs) auto

lemma sl_wfD:
  assumes "sl_wf keyof cmp head h L"
  shows "sl_toplevel (h head) = 7" and "sl_cmp (h head) = cmp" and "distinct L" and "head \<notin> set L"
    and "sorted_wrt (\<lambda>p q. keyof p < keyof q) L" and "l < 8 \<Longrightarrow> linked h head L l"
    and "p \<in> set (head # L) \<Longrightarrow> sl_node_ok head h p"
  using assms by (auto simp: sl_wf_def SL_MAX_LEVELS_def)

lemma node_okD:
  assumes "sl_node_ok head h p"
  shows "sl_toplevel (h p) < 8" and "\<not> sl_lock (h p)" and "\<not> sl_deleted (h p)" and "sl_head (h p) = head"
    and "sl_toplevel (h p) < l \<Longrightarrow> l < 8 \<Longrightarrow> sl_next (h p) l = None"
  using assms by (auto simp: sl_node_ok_def SL_MAX_LEVELS_def)

definition keys_below :: "(sptr \<Rightarrow> 'k::linorder) \<Rightarrow> 'k \<Rightarrow> sptr list \<Rightarrow> sptr list" where
  "keys_below keyof k L = takeWhile (\<lambda>p. keyof p < k) L"

definition keys_from :: "(sptr \<Rightarrow> 'k::linorder) \<Rightarrow> 'k \<Rightarrow> sptr list \<Rightarrow> sptr list" where
  "keys_from keyof k L = dropWhile (\<lambda>p. keyof p < k) L"

lemma keys_split:
  assumes "sorted_wrt (\<lambda>p q. keyof p < keyof q) L"
  shows "L = keys_below keyof k L @ keys_from keyof k L"
    and "a \<in> set (keys_below keyof k L) \<Longrightarrow> keyof a < k"
    and "b \<in> set (keys_from keyof k L) \<Longrightarrow> \<not> keyof b < k"
    and "c \<in> set (tl (keys_from keyof k L)) \<Longrightarrow> k < keyof c"
proof -
  show e: "L = keys_below keyof k L @ keys_from keyof k L"
    by (simp add: keys_below_def keys_from_def)
  show "keyof a < k" if "a \<in> set (keys_below keyof k L)"
    using set_takeWhileD [of a "\<lambda>p. keyof p < k"] that by (simp add: keys_below_def)
  have s: "sorted_wrt (\<lambda>p q. keyof p < keyof q) (keys_from keyof k L)"
    using assms e by (metis sorted_wrt_append)
  have h: "\<not> keyof b < k" if "keys_from keyof k L = b # bs" for b bs
    using that hd_dropWhile [of "\<lambda>p. keyof p < k" L] by (simp add: keys_from_def)
  show "\<not> keyof b < k" if "b \<in> set (keys_from keyof k L)"
    using that h s by (cases "keys_from keyof k L") (auto dest: less_trans)
  show "k < keyof c" if "c \<in> set (tl (keys_from keyof k L))"
    using that h s by (cases "keys_from keyof k L") (auto dest: le_less_trans simp: not_less)
qed

text \<open>The store while the predecessors of the levels from \<open>n\<close> to \<open>t\<close> are recorded and locked.\<close>

definition upd_at :: "'k sl_heap \<Rightarrow> sptr \<Rightarrow> sptr list \<Rightarrow> nat \<Rightarrow> nat \<Rightarrow> update" where
  "upd_at h head A t n = (\<lambda>l. if n \<le> l \<and> l \<le> t then Some (pred_at h head A l) else None)"

definition locks_at :: "'k sl_heap \<Rightarrow> sptr \<Rightarrow> sptr list \<Rightarrow> nat \<Rightarrow> nat \<Rightarrow> sptr set" where
  "locks_at h head A t n = pred_at h head A ` {n..t}"

lemma upd_at_step:
  "n \<le> t \<Longrightarrow> (upd_at h head A t (Suc n))(n := Some (pred_at h head A n)) = upd_at h head A t n"
  "t < n \<Longrightarrow> (upd_at h head A t (Suc n))(n := None) = upd_at h head A t n"
  "t < n \<Longrightarrow> upd_at h head A t n = (\<lambda>_. None)"
  "n \<le> l \<Longrightarrow> l \<le> t \<Longrightarrow> upd_at h head A t n l = Some (pred_at h head A l)"
  by (auto simp: upd_at_def fun_eq_iff)

lemma locks_at_step:
  "n \<le> t \<Longrightarrow> insert (pred_at h head A n) (locks_at h head A t (Suc n)) = locks_at h head A t n"
  "t < n \<Longrightarrow> locks_at h head A t n = {}"
proof -
  assume "n \<le> t"
  then have "{n..t} = insert n {Suc n..t}" by auto
  then show "insert (pred_at h head A n) (locks_at h head A t (Suc n)) = locks_at h head A t n"
    by (simp add: locks_at_def)
qed (simp add: locks_at_def)

lemma locks_at_sub: "locks_at h head A t n \<subseteq> set (head # A)"
  using pred_at_in by (auto simp: locks_at_def)

text \<open>The predecessors are at increasing positions, so no lock is taken twice.\<close>

lemma pred_not_locked:
  assumes "head \<notin> set A" and "sl_toplevel (h head) = 7" and "t < 8" and "n < t"
    and "pred_at h head A n \<noteq> pred_at h head A (Suc n)"
  shows "pred_at h head A n \<notin> locks_at h head A t (Suc n)"
proof
  assume "pred_at h head A n \<in> locks_at h head A t (Suc n)"
  then obtain j where j: "Suc n \<le> j" "j \<le> t" "pred_at h head A n = pred_at h head A j"
    by (auto simp: locks_at_def)
  have "pred_at h head A (Suc n) = pred_at h head A n"
    by (rule pred_at_between [OF _ j(1) j(3) assms(1)]) (use assms(2,3) j in auto)
  with assms(5) show False by simp
qed

lemma unlock_all_at:
  assumes "\<And>p. p \<in> set (head # A) \<Longrightarrow> \<not> sl_lock (h' p)"
  shows "skiplist_unlock_update (upd_at h head A t 0) t (lockset (S \<union> locks_at h head A t 0) h') =
    lockset (S - locks_at h head A t 0) h'"
proof -
  have e: "{p. \<exists>l\<le>t. upd_at h head A t 0 l = Some p} = locks_at h head A t 0"
    by (auto simp: upd_at_def locks_at_def)
  have "skiplist_unlock_update (upd_at h head A t 0) t (lockset (S \<union> locks_at h head A t 0) h') =
      lockset (S \<union> locks_at h head A t 0 - {p. \<exists>l\<le>t. upd_at h head A t 0 l = Some p}) h'"
  proof (rule unlock_update_lockset)
    fix l p assume "upd_at h head A t 0 l = Some p"
    then have "p \<in> set (head # A)" using pred_at_in by (auto simp: upd_at_def split: if_splits)
    then show "\<not> sl_lock (h' p)" by (rule assms)
  qed
  then show ?thesis unfolding e by (simp add: Un_Diff)
qed

text \<open>The link of a predecessor is the next tall element behind the split.\<close>

lemma pred_at_link:
  assumes "linked h head (A @ B) l"
  shows "sl_next (h (pred_at h head A l)) l = hd_opt (filter (tall h l) B)"
proof -
  have "chain (\<lambda>p. sl_next (h p) l) (pred_at h head A l) (filter (tall h l) B)"
    using assms chain_append unfolding linked_def pred_at_def filter_append by blast
  then show ?thesis by (rule chain_next)
qed

locale sl_client =
  fixes keyof :: "sptr \<Rightarrow> 'k::linorder" and cmp :: "sptr \<Rightarrow> 'k \<Rightarrow> int"
  assumes cmp_less: "cmp p k < 0 \<longleftrightarrow> keyof p < k"
    and cmp_eq: "cmp p k = 0 \<longleftrightarrow> keyof p = k"
begin

lemma cmp_le: "cmp p k \<le> 0 \<longleftrightarrow> keyof p \<le> k"
  using cmp_less [of p k] cmp_eq [of p k] by (auto simp: le_less)

abbreviation wf where "wf \<equiv> sl_wf keyof cmp"

abbreviation below where "below \<equiv> keys_below keyof"

abbreviation above where "above \<equiv> keys_from keyof"

lemma wf_split:
  assumes "wf head h L"
  shows "l < 8 \<Longrightarrow> linked h head (below k L @ above k L) l"
    and "a \<in> set (below k L) \<Longrightarrow> cmp a k < 0" and "b \<in> set (above k L) \<Longrightarrow> \<not> cmp b k < 0"
    and "head \<notin> set (below k L)" and "set (below k L) \<subseteq> set L" and "set (above k L) \<subseteq> set L"
  using sl_wfD(4,5,6) [OF assms] keys_split [where keyof = keyof and L = L and k = k, OF sl_wfD(5) [OF assms]]
  by (auto simp: cmp_less) (metis Un_iff set_append)+

lemma walk_ok:
  assumes "wf head h L" and "l < 8" and "p \<in> set (head # filter (tall h l) (below k L))"
  shows "sl_walk (\<lambda>n. cmp n k < 0) l (lockset S h) p (sl_next (h p) l) =
    Some (pred_at h head (below k L) l, hd_opt (filter (tall h l) (above k L)))"
proof -
  have "sl_walk (\<lambda>n. cmp n k < 0) l (lockset S h) p (sl_next (lockset S h p) l) =
    Some (pred_at (lockset S h) head (below k L) l, hd_opt (filter (tall (lockset S h) l) (above k L)))"
    by (rule walk_split) (use wf_split [OF assms(1)] assms(2,3) in auto)
  then show ?thesis by simp
qed

lemma lookup_help_ok:
  assumes "wf head h L"
  shows "skiplist_lookup_help head k (lockset S h) = Some (pred_at h head (below k L) 0)"
proof -
  have "sl_descend (\<lambda>n. cmp n k < 0) 8 (lockset S h) head =
      Some (pred_at (lockset S h) head (below k L) 0)"
    by (rule descend_split [where B = "above k L"]) (use wf_split [OF assms] in auto)
  then show ?thesis
    by (simp add: skiplist_lookup_help_def sl_wfD(1,2) [OF assms])
qed

lemma next_of_pred:
  assumes "wf head h L" and "l < 8"
  shows "sl_next (h (pred_at h head (below k L) l)) l = hd_opt (filter (tall h l) (above k L))"
  by (rule pred_at_link) (rule wf_split(1) [OF assms])

lemma filter_tall_0 [simp]: "filter (tall h 0) xs = xs"
  by (simp add: filter_True)

lemma wf_node:
  assumes "wf head h L" and "p \<in> set (head # L)"
  shows "sl_toplevel (h p) < 8" and "\<not> sl_lock (h p)" and "\<not> sl_deleted (h p)" and "sl_head (h p) = head"
    and "sl_toplevel (h p) < l \<Longrightarrow> l < 8 \<Longrightarrow> sl_next (h p) l = None"
  using node_okD [OF sl_wfD(7) [OF assms]] by auto

lemma pred_node: "wf head h L \<Longrightarrow> pred_at h head (below k L) l \<in> set (head # L)"
  using pred_at_in [of h head "below k L" l] wf_split(5) by fastforce

text \<open>Either the first element from \<open>k\<close> on has the key, or no element has.\<close>

lemma above_found:
  assumes "wf head h L"
  shows "find (\<lambda>p. keyof p = k) L =
      (case above k L of [] \<Rightarrow> None | b # bs \<Rightarrow> if keyof b = k then Some b else None)"
proof -
  note s = keys_split [where keyof = keyof and L = L and k = k, OF sl_wfD(5) [OF assms]]
  have "find (\<lambda>p. keyof p = k) (below k L @ above k L) = find (\<lambda>p. keyof p = k) (above k L)"
    by (rule find_append_none) (use s(2) in \<open>auto dest: less_imp_neq\<close>)
  also have "\<dots> = (case above k L of [] \<Rightarrow> None | b # bs \<Rightarrow> if keyof b = k then Some b else None)"
    using s(4) less_irrefl by (fastforce split: list.split simp: find_None_iff)
  finally show ?thesis using s(1) by simp
qed

lemma lookup_relaxed_ok:
  assumes "wf head h L"
  shows "skiplist_lookup_relaxed head k h = Some (find (\<lambda>p. keyof p = k) L)"
proof -
  have "skiplist_lookup_help head k h = Some (pred_at h head (below k L) 0)"
    using lookup_help_ok [OF assms, of k "{}"] by simp
  moreover have "p \<noteq> head \<and> \<not> sl_deleted (h p)" if "p \<in> set (above k L)" for p
    using that wf_split(6) [OF assms, of k] sl_wfD(4) [OF assms] wf_node(3) [OF assms, of p] by auto
  ultimately show ?thesis
    using next_of_pred [OF assms, of 0 k]
    by (auto simp: skiplist_lookup_relaxed_def above_found [OF assms] sl_wfD(2) [OF assms]
        cmp_eq split: list.split)
qed

end

end
