(* ===== verification/Skiplist_Ops.thy ===== *)
theory Skiplist_Ops
  imports Skiplist_Inv
begin

text \<open>
  The operations of skiplist.c on a well-formed list: lookups and iterators return the element
  that a search of the ordered list finds, and deletion and insertion keep the invariant.
\<close>

lemma dropWhile_sorted:
  "sorted_wrt R L \<Longrightarrow> (\<And>x y. R x y \<Longrightarrow> c y \<Longrightarrow> c x) \<Longrightarrow> b \<in> set (dropWhile c L) \<Longrightarrow> \<not> c b"
  by (induction L) (auto split: if_splits)

lemma hd_opt_rev: "hd_opt (rev L) = (if L = [] then None else Some (last L))"
  by (induction L rule: rev_induct) simp_all

context sl_client
begin

section \<open>Lookups that lock, and iterators\<close>

lemma lookup_lock_prev_ok:
  assumes "wf head h L"
  shows "skiplist_lookup_lock_prev head k h =
    (let p = pred_at h head (below k L) 0 in
     case above k L of [] \<Rightarrow> Some (None, p, 1, h) | b # bs \<Rightarrow> Some (Some b, p, cmp b k, lockset {p} h))"
proof -
  let ?p = "pred_at h head (below k L) 0"
  have p: "\<not> sl_lock (h ?p)" "\<not> sl_deleted (h ?p)"
    using wf_node [OF assms pred_node [OF assms]] by auto
  have l: "skiplist_lock ?p h = Some (lockset {?p} h)"
    using lock_lockset [where S = "{}" and h = h and p = ?p] p(1) by simp
  have u: "skiplist_unlock ?p (lockset {?p} h) = h"
    using unlock_lockset [where S = "{?p}" and h = h and p = ?p] p(1) by simp
  have "\<not> sl_deleted (h b)" "cmp b k \<ge> 0" if "b \<in> set (above k L)" for b
    using that wf_split(3) [OF assms, of b k] wf_split(6) [OF assms, of k] wf_node(3) [OF assms, of b]
    by (auto simp: not_less)
  then show ?thesis
    by (subst skiplist_lookup_lock_prev.simps)
      (auto simp: lookup_help_ok [OF assms, of k "{}", simplified] l u p next_of_pred [OF assms]
        sl_wfD(2) [OF assms] Let_def split: list.split)
qed

lemma lookup_lock_ok:
  assumes "wf head h L"
  shows "skiplist_lookup_lock head k h =
    Some (find (\<lambda>p. keyof p = k) L, lockset {p. find (\<lambda>p. keyof p = k) L = Some p} h)"
proof (cases "above k L")
  case Nil
  then show ?thesis
    by (simp add: skiplist_lookup_lock_def lookup_lock_prev_ok [OF assms] above_found [OF assms] Let_def)
next
  case (Cons b bs)
  let ?p = "pred_at h head (below k L) 0"
  have b: "b \<in> set L" using wf_split(6) [OF assms, of k] Cons by auto
  have pb: "?p \<noteq> b"
    using pred_at_in [of h head "below k L" 0] wf_split(2) [OF assms, of b k]
      wf_split(3) [OF assms, of b k] Cons b sl_wfD(4) [OF assms] by auto
  have u: "\<not> sl_lock (h ?p)" "\<not> sl_lock (h b)"
    using wf_node(2) [OF assms pred_node [OF assms]] wf_node(2) [OF assms, of b] b by auto
  have l: "skiplist_lock b (lockset {?p} h) = Some (lockset {b, ?p} h)"
    by (rule lock_lockset) (use u pb in auto)
  have ul: "skiplist_unlock ?p (lockset {?p} h) = h"
    "skiplist_unlock ?p (lockset {b, ?p} h) = lockset {b} h"
    using unlock_lockset [where S = "{?p}" and h = h and p = ?p]
      unlock_lockset [where S = "{b, ?p}" and h = h and p = ?p] u pb
    by (simp_all add: insert_Diff_if)
  show ?thesis
    by (simp add: skiplist_lookup_lock_def lookup_lock_prev_ok [OF assms] above_found [OF assms]
        Cons Let_def l ul cmp_eq)
qed

lemma valiter_first_ok: "wf head h L \<Longrightarrow> skiplist_valiter_first head h = hd_opt L"
  using pred_at_link [where h = h and head = head and A = "[]" and B = L and l = 0] sl_wfD(6) [where l = 0 and h = h]
  by (simp add: skiplist_valiter_first_def pred_at_def)

lemma valiter_last_ok:
  assumes "wf head h L"
  shows "skiplist_valiter_last head h = Some (hd_opt (rev L))"
proof -
  have "sl_descend (\<lambda>n. True) 8 h head = Some (pred_at h head L 0)"
    by (rule descend_split [where B = "[]"]) (use sl_wfD(6) [OF assms] in auto)
  then show ?thesis
    using sl_wfD(4) [OF assms] last_in_set [of L]
    by (cases "L = []") (auto simp: skiplist_valiter_last_def sl_wfD(1) [OF assms] pred_at_def hd_opt_rev)
qed

lemma valiter_next_ok:
  assumes "wf head h L"
  shows "skiplist_valiter_next head k h = Some (find (\<lambda>p. k < keyof p) L)"
proof -
  let ?c = "\<lambda>n. cmp n k \<le> 0"
  let ?A = "takeWhile ?c L" and ?B = "dropWhile ?c L"
  have A: "a \<in> set ?A \<Longrightarrow> ?c a" for a by (rule set_takeWhileD [THEN conjunct2])
  have B: "b \<in> set ?B \<Longrightarrow> \<not> ?c b" for b
    by (rule dropWhile_sorted [where c = ?c, OF sl_wfD(5) [OF assms]])
      (auto simp: cmp_le)
  have lk: "l < 8 \<Longrightarrow> linked h head (?A @ ?B) l" for l using sl_wfD(6) [OF assms] by simp
  have d: "sl_descend ?c 8 h head = Some (pred_at h head ?A 0)"
    by (rule descend_split [where B = ?B, OF lk A B]) simp_all
  have w: "sl_walk ?c 0 h (pred_at h head ?A 0) (sl_next (h (pred_at h head ?A 0)) 0) =
      Some (pred_at h head ?A 0, hd_opt (filter (tall h 0) ?B))"
    by (rule walk_split [OF lk A B]) (use pred_at_in [of h head ?A 0] in simp_all)
  show ?thesis
    by (simp add: skiplist_valiter_next_def Let_def sl_wfD(1,2) [OF assms] d [unfolded cmp_le] w [unfolded cmp_le] hd_opt_dropWhile cmp_le not_le)
qed

lemma valiter_prev_ok:
  assumes "wf head h L"
  shows "skiplist_valiter_prev head k h = Some (find (\<lambda>p. keyof p < k) (rev L))"
proof -
  note s = keys_split [where keyof = keyof and L = L and k = k, OF sl_wfD(5) [OF assms]]
  have "find (\<lambda>p. keyof p < k) (rev (below k L @ above k L)) =
      find (\<lambda>p. keyof p < k) (rev (below k L))"
    unfolding rev_append by (rule find_append_none) (use s(3) in auto)
  also have "\<dots> = hd_opt (rev (below k L))"
    using s(2) by (cases "rev (below k L)") (auto simp: rev_swap)
  finally have "find (\<lambda>p. keyof p < k) (rev L) = hd_opt (rev (below k L))" using s(1) by simp
  then show ?thesis
    using lookup_help_ok [OF assms, of k "{}"] wf_split(4) [OF assms, of k] last_in_set [of "below k L"]
    by (cases "below k L = []") (auto simp: skiplist_valiter_prev_def pred_at_def hd_opt_rev)
qed

section \<open>Deletion\<close>

lemma delete_level_skip:
  assumes "sl_walk (\<lambda>n. cmp n k < 0) n h p (sl_next (h p) n) = Some (q, c)" and "sl_cmp (h head) = cmp"
    and "\<And>b. c = Some b \<Longrightarrow> cmp b k \<noteq> 0"
  shows "delete_levels head k (Suc n) p lst cur upd h = delete_levels head k n q lst c (upd(n := None)) h"
  using assms(1,2) assms(3) [of "the c"] by (cases c) simp_all

lemma delete_level_lock:
  assumes "sl_walk (\<lambda>n. cmp n k < 0) n h p (sl_next (h p) n) = Some (q, Some b)"
    and "sl_cmp (h head) = cmp" and "cmp b k = 0" and "Some q \<noteq> lst"
    and "skiplist_lock q h = Some h'" and "sl_next (h' q) n = Some b"
    and "\<not> (n < sl_toplevel (h' q) \<and> Some b = sl_next (h' q) (Suc n))"
  shows "delete_levels head k (Suc n) p lst cur upd h =
    delete_levels head k n q (Some q) (Some b) (upd(n := Some q)) h'"
  using assms by (auto simp: Let_def)

lemma delete_level_same:
  assumes "sl_walk (\<lambda>n. cmp n k < 0) n h p (sl_next (h p) n) = Some (q, Some b)"
    and "sl_cmp (h head) = cmp" and "cmp b k = 0" and "Some q = lst"
  shows "delete_levels head k (Suc n) p lst cur upd h =
    delete_levels head k n q lst (Some b) (upd(n := Some q)) h"
  using assms by simp

declare delete_levels.simps(2) [simp del]

lemma delete_levels_absent:
  assumes w: "wf head h L" and a: "\<And>b. b \<in> set (above k L) \<Longrightarrow> keyof b \<noteq> k"
  shows "n \<le> 8 \<Longrightarrow> p \<in> set (head # filter (tall h (n - 1)) (below k L)) \<Longrightarrow>
    (n = 0 \<Longrightarrow> cur = hd_opt (above k L)) \<Longrightarrow>
    delete_levels head k n p lst cur (\<lambda>_. None) h = Some (Inr (hd_opt (above k L), \<lambda>_. None, h))"
proof (induction n arbitrary: p cur)
  case (Suc n)
  have wk: "sl_walk (\<lambda>n. cmp n k < 0) n h p (sl_next (h p) n) =
      Some (pred_at h head (below k L) n, hd_opt (filter (tall h n) (above k L)))"
    using walk_ok [OF w, of n p k "{}"] Suc.prems by simp
  have nf: "cmp b k \<noteq> 0" if "hd_opt (filter (tall h n) (above k L)) = Some b" for b
    using a hd_opt_Some [OF that] by (auto simp: cmp_eq)
  have ih: "delete_levels head k n (pred_at h head (below k L) n) lst
      (hd_opt (filter (tall h n) (above k L))) (\<lambda>_. None) h =
      Some (Inr (hd_opt (above k L), \<lambda>_. None, h))"
    by (rule Suc.IH) (use Suc.prems pred_at_start [of "n - 1" n h head "below k L"] in auto)
  have u: "(\<lambda>_. None)(n := None) = (\<lambda>_. None :: sptr option)" by auto
  have "delete_levels head k (Suc n) p lst cur (\<lambda>_. None) h =
      delete_levels head k n (pred_at h head (below k L) n) lst
        (hd_opt (filter (tall h n) (above k L))) ((\<lambda>_. None)(n := None)) h"
    by (rule delete_level_skip [OF wk sl_wfD(2) [OF w] nf])
  then show ?case using ih u by simp
qed simp

lemma delete_levels_present:
  assumes w: "wf head h L" and a: "above k L = b # bs" and k: "keyof b = k"
  defines "A \<equiv> below k L" and "t \<equiv> sl_toplevel (h b)"
  shows "n \<le> 8 \<Longrightarrow> p \<in> set (head # filter (tall h (n - 1)) A) \<Longrightarrow> (n = 0 \<Longrightarrow> cur = Some b) \<Longrightarrow>
    delete_levels head k n p (if n \<le> t then Some (pred_at h head A n) else None) cur
      (upd_at h head A t n) (lockset (locks_at h head A t n) h) =
    Some (Inr (Some b, upd_at h head A t 0, lockset (locks_at h head A t 0) h))"
proof (induction n arbitrary: p cur)
  case (Suc n)
  note hA = wf_split(4) [OF w, of k, folded A_def]
  have tb: "t < 8" using wf_node(1) [OF w, of b] wf_split(6) [OF w, of k] a by (simp add: t_def)
  have wk: "sl_walk (\<lambda>n. cmp n k < 0) n (lockset S h) p (sl_next (h p) n) =
      Some (pred_at h head A n, hd_opt (filter (tall h n) (b # bs)))" for S
    using walk_ok [OF w, of n p k S] Suc.prems a by (simp add: A_def)
  have ih: "delete_levels head k n (pred_at h head A n)
      (if n \<le> t then Some (pred_at h head A n) else None) cur (upd_at h head A t n)
      (lockset (locks_at h head A t n) h) =
      Some (Inr (Some b, upd_at h head A t 0, lockset (locks_at h head A t 0) h))"
    if "n = 0 \<Longrightarrow> cur = Some b" for cur
    by (rule Suc.IH) (use Suc.prems that pred_at_start [of "n - 1" n h head A] in auto)
  have gt: "cmp q k \<noteq> 0" if "q \<in> set bs" for q
    using keys_split(4) [where keyof = keyof and L = L and k = k, OF sl_wfD(5) [OF w]] a that
    by (auto simp: cmp_eq)
  show ?case
  proof (cases "n \<le> t")
    case False
    then have nb: "\<not> tall h n b" by (simp add: tall_def t_def)
    have nf: "cmp q k \<noteq> 0" if "hd_opt (filter (tall h n) (b # bs)) = Some q" for q
      using nb gt hd_opt_Some [OF that] by auto
    have e: "\<not> Suc n \<le> t" "locks_at h head A t (Suc n) = locks_at h head A t n"
      "(upd_at h head A t (Suc n))(n := None) = upd_at h head A t n" "0 < n"
      using False by (simp_all add: locks_at_step upd_at_step)
    have "delete_levels head k (Suc n) p None cur (upd_at h head A t (Suc n))
        (lockset (locks_at h head A t (Suc n)) h) =
      delete_levels head k n (pred_at h head A n) None (hd_opt (filter (tall h n) (b # bs)))
        ((upd_at h head A t (Suc n))(n := None)) (lockset (locks_at h head A t (Suc n)) h)"
      by (rule delete_level_skip [OF _ _ nf])
        (use wk in \<open>simp_all only: lockset_sel sl_wfD(2) [OF w]\<close>)
    then show ?thesis using ih False e by simp
  next
    case True
    then have tb': "tall h n b" by (simp add: tall_def t_def)
    have lk: "skiplist_lock (pred_at h head A n) (lockset (locks_at h head A t (Suc n)) h) =
        Some (lockset (locks_at h head A t n) h)"
      if "n = t \<or> pred_at h head A n \<noteq> pred_at h head A (Suc n)"
    proof -
      have "pred_at h head A n \<notin> locks_at h head A t (Suc n)"
        using that True pred_not_locked [where h = h, OF hA sl_wfD(1) [OF w] tb, of n]
        by (cases "n = t") (simp_all add: locks_at_step)
      from lock_lockset [where h = h, OF _ this] wf_node(2) [OF w pred_node [OF w]] show ?thesis
        by (simp add: locks_at_step True A_def)
    qed
    have nx: "sl_next (h (pred_at h head A n)) n = Some b"
      using next_of_pred [OF w, of n k] a tb' Suc.prems(1) by (simp add: A_def)
    have valid: "\<not> (n < sl_toplevel (h (pred_at h head A n)) \<and>
        Some b = sl_next (h (pred_at h head A n)) (Suc n))"
      if "n = t \<or> pred_at h head A n \<noteq> pred_at h head A (Suc n)"
    proof
      assume v: "n < sl_toplevel (h (pred_at h head A n)) \<and>
        Some b = sl_next (h (pred_at h head A n)) (Suc n)"
      then have e: "pred_at h head A (Suc n) = pred_at h head A n"
        using pred_at_higher [OF _ _ hA, of n "Suc n" h] by (simp add: tall_def)
      with that have "n = t" by auto
      moreover have "Suc n < 8"
        using v wf_node(1) [OF w pred_node [OF w], of k n] by (simp add: A_def)
      ultimately have "sl_next (h (pred_at h head A (Suc n))) (Suc n) = hd_opt (filter (tall h (Suc n)) bs)"
        using next_of_pred [OF w, of "Suc n" k] a by (simp add: A_def tall_def t_def)
      with v e have "b \<in> set bs" using hd_opt_Some [of "filter (tall h (Suc n)) bs" b] by auto
      with gt k show False by (auto simp: cmp_eq)
    qed
    show ?thesis
    proof (cases "n = t \<or> pred_at h head A n \<noteq> pred_at h head A (Suc n)")
      case c: True
      with True have ne: "Some (pred_at h head A n) \<noteq>
          (if Suc n \<le> t then Some (pred_at h head A (Suc n)) else None)" by auto
      have "delete_levels head k (Suc n) p (if Suc n \<le> t then Some (pred_at h head A (Suc n)) else None)
          cur (upd_at h head A t (Suc n)) (lockset (locks_at h head A t (Suc n)) h) =
        delete_levels head k n (pred_at h head A n) (Some (pred_at h head A n)) (Some b)
          ((upd_at h head A t (Suc n))(n := Some (pred_at h head A n))) (lockset (locks_at h head A t n) h)"
        by (rule delete_level_lock [OF _ _ _ ne lk [OF c]])
          (use wk tb' nx valid [OF c] k in \<open>simp_all add: sl_wfD(2) [OF w] cmp_eq\<close>)
      then show ?thesis using ih [of "Some b"] True by (simp add: upd_at_step)
    next
      case c: False
      with True have e: "Suc n \<le> t" "pred_at h head A n = pred_at h head A (Suc n)" by auto
      have s: "locks_at h head A t n = locks_at h head A t (Suc n)"
        using locks_at_step(1) [OF True, of h head A] e by (auto simp: locks_at_def)
      have "delete_levels head k (Suc n) p (Some (pred_at h head A (Suc n)))
          cur (upd_at h head A t (Suc n)) (lockset (locks_at h head A t (Suc n)) h) =
        delete_levels head k n (pred_at h head A n) (Some (pred_at h head A (Suc n))) (Some b)
          ((upd_at h head A t (Suc n))(n := Some (pred_at h head A n))) (lockset (locks_at h head A t (Suc n)) h)"
        by (rule delete_level_same) (use wk tb' e k in \<open>simp_all add: sl_wfD(2) [OF w] cmp_eq\<close>)
      also have "(upd_at h head A t (Suc n))(n := Some (pred_at h head A n)) = upd_at h head A t n"
        using True by (rule upd_at_step)
      finally show ?thesis using ih [of "Some b"] True e s by simp
    qed
  qed
qed simp

end

end
