(* ===== verification/Skiplist_Update.thy ===== *)
theory Skiplist_Update
  imports Skiplist_Ops
begin

text \<open>
  Deletion, insertion and upward rebalancing change the links of the predecessors on the levels
  of the element. These lemmas say what the stores after the loops are, and that the invariant
  holds for the list without, or with, the element.
\<close>

lemma chain_upd_off:
  "\<not> tall h l q \<Longrightarrow> filter (tall h l) (A @ q # B) = filter (tall h l) (A @ B)"
  by simp

section \<open>The store after unlinking\<close>

definition unlinked :: "'k sl_heap \<Rightarrow> sptr \<Rightarrow> sptr list \<Rightarrow> sptr \<Rightarrow> nat set \<Rightarrow> 'k sl_heap" where
  "unlinked h head A b M = (\<lambda>p. (h p)\<lparr>sl_next := (\<lambda>l. if l \<in> M \<and> p = pred_at h head A l
     then sl_next (h b) l else sl_next (h p) l)\<rparr>)"

lemma unlinked_sel [simp]:
  "sl_toplevel (unlinked h head A b M p) = sl_toplevel (h p)"
  "sl_lock (unlinked h head A b M p) = sl_lock (h p)"
  "sl_deleted (unlinked h head A b M p) = sl_deleted (h p)"
  "sl_head (unlinked h head A b M p) = sl_head (h p)"
  "sl_cmp (unlinked h head A b M p) = sl_cmp (h p)"
  "sl_next (unlinked h head A b M p) l = (if l \<in> M \<and> p = pred_at h head A l
     then sl_next (h b) l else sl_next (h p) l)"
  "unlinked h head A b {} = h"
  by (simp_all add: unlinked_def fun_eq_iff)

lemma unlink_fold:
  assumes "b \<notin> set (head # A)" and "\<And>l. l \<in> set ls \<Longrightarrow> upd l = Some (pred_at h head A l)"
    and "distinct ls" and "set ls \<inter> M = {}"
  shows "fold (unlink_level upd b) ls (lockset S (unlinked h head A b M)) =
    lockset S (unlinked h head A b (set ls \<union> M))"
  using assms(2-)
proof (induction ls arbitrary: M)
  case (Cons l ls)
  have nb: "b \<noteq> pred_at h head A i" for i using pred_at_in [of h head A i] assms(1) by auto
  have u: "unlink_level upd b l (lockset S (unlinked h head A b M)) =
      lockset S (unlinked h head A b (insert l M))"
    using Cons.prems(1) nb
    by (auto simp: unlink_level_def set_next_lockset)
      (auto simp: lockset_def set_next_def unlinked_def fun_eq_iff intro!: skiplist.equality)
  have "fold (unlink_level upd b) ls (lockset S (unlinked h head A b (insert l M))) =
      lockset S (unlinked h head A b (set ls \<union> insert l M))"
    by (rule Cons.IH) (use Cons.prems in auto)
  then show ?case by (simp add: u)
qed simp

lemma linked_cong:
  assumes "\<And>p. p \<in> set (head # L) \<Longrightarrow> sl_next (h' p) l = sl_next (h p) l"
    and "\<And>p. p \<in> set L \<Longrightarrow> tall h' l p = tall h l p"
  shows "linked h' head L l = linked h head L l"
proof -
  have "filter (tall h' l) L = filter (tall h l) L" using assms(2) by (rule filter_cong [OF refl])
  moreover have "chain (\<lambda>p. sl_next (h' p) l) head (filter (tall h l) L) =
      chain (\<lambda>p. sl_next (h p) l) head (filter (tall h l) L)"
    by (rule chain_cong) (use assms(1) in auto)
  ultimately show ?thesis by (simp add: linked_def)
qed

lemma unlinked_linked:
  assumes l: "linked h head (A @ b # B) l" and d: "distinct (head # A @ b # B)"
  shows "linked (unlinked h head A b {..sl_toplevel (h b)}) head (A @ B) l"
proof (cases "l \<le> sl_toplevel (h b)")
  case True
  then have t: "tall h l b" by (simp add: tall_def)
  have e: "(\<lambda>p. sl_next (unlinked h head A b {..sl_toplevel (h b)} p) l) =
      (\<lambda>p. sl_next (h p) l)(last (head # filter (tall h l) A) := sl_next (h b) l)"
    using True by (auto simp: pred_at_def fun_eq_iff)
  have "tall (unlinked h head A b {..sl_toplevel (h b)}) = tall h" by (simp add: tall_def fun_eq_iff)
  moreover have "chain ((\<lambda>p. sl_next (h p) l)(last (head # filter (tall h l) A) := sl_next (h b) l)) head
      (filter (tall h l) A @ filter (tall h l) B)"
    by (rule chain_remove) (use l d t in \<open>auto simp: linked_def\<close>)
  ultimately show ?thesis unfolding linked_def e by simp
next
  case False
  then have "linked h head (A @ B) l" using l by (simp add: linked_def tall_def)
  then show ?thesis
    by (subst linked_cong [where h = h]) (use False in \<open>auto simp: tall_def\<close>)
qed

context sl_client
begin

lemma wf_delete:
  assumes w: "wf head h L" and a: "above k L = b # bs"
  defines "h' \<equiv> unlinked h head (below k L) b {..sl_toplevel (h b)}"
  shows "wf head (h'(b := (h' b)\<lparr>sl_deleted := True\<rparr>)) (below k L @ bs)"
proof -
  let ?A = "below k L" and ?h = "h'(b := (h' b)\<lparr>sl_deleted := True\<rparr>)"
  have L: "L = ?A @ b # bs"
    using keys_split(1) [OF sl_wfD(5) [OF w], of k] a by simp
  have d: "distinct (head # ?A @ b # bs)" using sl_wfD(3,4) [OF w] L by (metis distinct.simps(2))
  then have bn: "b \<noteq> head" "b \<notin> set (?A @ bs)" by auto
  have sub: "set (?A @ bs) \<subseteq> set L" using arg_cong [OF L, of set] by auto
  have lk: "linked ?h head (?A @ bs) l" if "l < 8" for l
  proof -
    have "linked h' head (?A @ bs) l"
      unfolding h'_def by (rule unlinked_linked) (use sl_wfD(6) [OF w that] L d in auto)
    moreover have "linked ?h head (?A @ bs) l = linked h' head (?A @ bs) l"
      by (rule linked_cong) (use bn in \<open>auto simp: tall_def\<close>)
    ultimately show ?thesis by simp
  qed
  have srt: "sorted_wrt (\<lambda>p q. keyof p < keyof q) (?A @ bs)"
    using sl_wfD(5) [OF w] by (subst (asm) L) (auto simp: sorted_wrt_append)
  have ok: "sl_node_ok head ?h p" if "p \<in> set (head # ?A @ bs)" for p
  proof -
    have p: "p \<in> set (head # L)" "p \<noteq> b" using that sub bn by auto
    have "sl_next (h' p) l = None" if l: "sl_toplevel (h p) < l" "l < 8" for l
    proof -
      have "sl_next (h b) l = None" if "p = pred_at h head ?A l"
        using pred_at_tall [of h head ?A l] that l sl_wfD(1) [OF w] by (auto simp: tall_def)
      then show ?thesis using wf_node(5) [OF w p(1) l] by (simp add: h'_def)
    qed
    then show ?thesis
      using wf_node(1-4) [OF w p(1)] p(2) by (auto simp: sl_node_ok_def SL_MAX_LEVELS_def h'_def)
  qed
  show ?thesis
    unfolding sl_wf_def SL_MAX_LEVELS_def
    using sl_wfD(1,2) [OF w] bn d srt lk ok by (auto simp: h'_def)
qed

lemma delete_absent_ok:
  assumes w: "wf head h L" and a: "\<And>b. b \<in> set (above k L) \<Longrightarrow> keyof b \<noteq> k"
  shows "skiplist_delete head k h = Some (None, h)"
proof -
  have d: "delete_levels head k 8 head None None (\<lambda>_. None) h =
      Some (Inr (hd_opt (above k L), \<lambda>_. None, h))"
    by (rule delete_levels_absent [OF w a]) auto
  have n: "hd_opt (above k L) = None \<or> sl_cmp (h head) (the (hd_opt (above k L))) k \<noteq> 0"
    using a by (cases "above k L") (auto simp: sl_wfD(2) [OF w] cmp_eq)
  have u: "skiplist_unlock_update (\<lambda>_. None) t h = h" for t
    using unlock_update_lockset [where S = "{}" and upd = "\<lambda>_. None" and h = h and t = t] by simp
  show ?thesis
    by (subst skiplist_delete.simps) (use n in \<open>simp add: sl_wfD(1) [OF w] d u Let_def\<close>)
qed

lemma delete_present_ok:
  assumes w: "wf head h L" and a: "above k L = b # bs" and k: "keyof b = k"
  defines "h' \<equiv> unlinked h head (below k L) b {..sl_toplevel (h b)}"
  shows "skiplist_delete head k h = Some (Some b, h'(b := (h' b)\<lparr>sl_deleted := True\<rparr>))"
proof -
  let ?A = "below k L" and ?t = "sl_toplevel (h b)"
  let ?upd = "upd_at h head ?A ?t 0" and ?S = "locks_at h head ?A ?t 0"
  let ?h = "h'(b := (h' b)\<lparr>sl_deleted := True\<rparr>)"
  have bL: "b \<in> set (head # L)" using wf_split(6) [OF w, of k] a by auto
  have t: "?t < 8" by (rule wf_node(1) [OF w bL])
  have bn: "b \<notin> set (head # ?A)"
    using wf_split(2) [OF w, of b k] wf_split(3) [OF w, of b k] wf_split(6) [OF w, of k] a
      sl_wfD(4) [OF w] by auto
  have pL: "p \<in> set (head # L)" if "p \<in> set (head # ?A)" for p
    using that wf_split(5) [OF w, of k] by auto
  have "delete_levels head k 8 head (if 8 \<le> ?t then Some (pred_at h head ?A 8) else None) None
      (upd_at h head ?A ?t 8) (lockset (locks_at h head ?A ?t 8) h) =
    Some (Inr (Some b, ?upd, lockset ?S h))"
    by (rule delete_levels_present [OF w a k]) auto
  then have d: "delete_levels head k 8 head None None (\<lambda>_. None) h = Some (Inr (Some b, ?upd, lockset ?S h))"
    using t by (simp add: upd_at_step locks_at_step)
  have valid: "\<not> delete_stale ?upd b (lockset ?S h)"
  proof -
    have "\<not> sl_deleted (h (pred_at h head ?A l)) \<and> sl_next (h (pred_at h head ?A l)) l = Some b"
      if "l \<le> ?t" for l
      using that t wf_node(3) [OF w pred_node [OF w]] next_of_pred [OF w, of l k] a
      by (simp add: tall_def)
    then show ?thesis by (auto simp: delete_stale_def upd_at_step less_Suc_eq_le simp del: upt_Suc)
  qed
  have lk: "skiplist_lock b (lockset ?S h) = Some (lockset (insert b ?S) h)"
    by (rule lock_lockset) (use wf_node(2) [OF w bL] bn locks_at_sub [of h head ?A ?t 0] in auto)
  have un: "fold (unlink_level ?upd b) (rev [0..<Suc ?t]) (lockset (insert b ?S) h) =
      lockset (insert b ?S) h'"
  proof -
    have "fold (unlink_level ?upd b) (rev [0..<Suc ?t]) (lockset (insert b ?S) (unlinked h head ?A b {})) =
      lockset (insert b ?S) (unlinked h head ?A b (set (rev [0..<Suc ?t]) \<union> {}))"
      by (rule unlink_fold [OF bn]) (auto simp: upd_at_step simp del: upt_Suc)
    moreover have "set (rev [0..<Suc ?t]) \<union> {} = {..?t}" by (auto simp del: upt_Suc)
    ultimately show ?thesis by (simp add: h'_def del: upt_Suc)
  qed
  have dl: "(lockset (insert b ?S) h')(b := (lockset (insert b ?S) h' b)\<lparr>sl_deleted := True\<rparr>) =
      lockset (insert b ?S) ?h"
    by (auto simp: lockset_def fun_eq_iff)
  have fr: "\<not> sl_lock (?h p)" if "p \<in> set (head # ?A)" for p
    using wf_node(2) [OF w pL [OF that]] by (auto simp: h'_def)
  have ul: "skiplist_unlock_update ?upd ?t (lockset (insert b ?S) ?h) = lockset {b} ?h"
  proof -
    have "skiplist_unlock_update ?upd ?t (lockset ({b} \<union> ?S) ?h) = lockset ({b} - ?S) ?h"
      by (rule unlock_all_at) (rule fr)
    moreover have "{b} - ?S = {b}" using bn locks_at_sub [of h head ?A ?t 0] by auto
    ultimately show ?thesis by simp
  qed
  have ub: "skiplist_unlock b (lockset {b} ?h) = ?h"
    using unlock_lockset [where S = "{b}" and h = ?h and p = b] wf_node(2) [OF w bL]
    by (simp add: h'_def)
  show ?thesis
    by (subst skiplist_delete.simps)
      (simp add: sl_wfD(1,2) [OF w] d k cmp_eq valid lk un dl ul ub Let_def
        del: fun_upd_apply upt_Suc)
qed

lemma delete_ok:
  assumes w: "wf head h L"
  shows "\<exists>h'. skiplist_delete head k h = Some (find (\<lambda>p. keyof p = k) L, h') \<and>
    wf head h' (filter (\<lambda>p. keyof p \<noteq> k) L) \<and>
    (\<forall>p. sl_toplevel (h' p) = sl_toplevel (h p))"
proof -
  note s = keys_split [where keyof = keyof and L = L and k = k, OF sl_wfD(5) [OF w]]
  have fb: "filter (\<lambda>p. keyof p \<noteq> k) (below k L) = below k L" using s(2) by (auto simp: filter_id_conv)
  show ?thesis
  proof (cases "\<exists>b bs. above k L = b # bs \<and> keyof b = k")
    case True
    then obtain b bs where a: "above k L = b # bs" "keyof b = k" by blast
    have "filter (\<lambda>p. keyof p \<noteq> k) bs = bs" using s(4) a by (fastforce simp: filter_id_conv)
    moreover have "filter (\<lambda>p. keyof p \<noteq> k) L = filter (\<lambda>p. keyof p \<noteq> k) (below k L @ above k L)"
      by (subst s(1)) simp
    ultimately have "filter (\<lambda>p. keyof p \<noteq> k) L = below k L @ bs" using a fb by simp
    then show ?thesis
      using wf_delete [OF w a(1)] delete_present_ok [OF w a] a
      by (auto simp: above_found [OF w])
  next
    case False
    have n: "keyof b \<noteq> k" if "b \<in> set (above k L)" for b
      using that False s(4) [of b] by (cases "above k L") auto
    moreover have "filter (\<lambda>p. keyof p \<noteq> k) (above k L) = above k L"
      using n by (auto simp: filter_id_conv)
    then have "filter (\<lambda>p. keyof p \<noteq> k) (below k L @ above k L) = below k L @ above k L"
      using fb by simp
    then have "filter (\<lambda>p. keyof p \<noteq> k) L = L" using s(1) by metis
    moreover have "find (\<lambda>p. keyof p = k) L = None"
      using False by (auto simp: above_found [OF w] split: list.split)
    ultimately show ?thesis using delete_absent_ok [OF w n] w by simp
  qed
qed

end

section \<open>Insertion\<close>

text \<open>
  Insertion, and rebalancing to a higher level, which links an element on further levels in the
  same way. Then the consistency check of skiplist.h, which every well-formed list passes.
\<close>

section \<open>The store after linking\<close>

definition inserted :: "'k sl_heap \<Rightarrow> sptr \<Rightarrow> sptr list \<Rightarrow> sptr \<Rightarrow> nat set \<Rightarrow> 'k sl_heap" where
  "inserted h head A b M = (\<lambda>p. (h p)\<lparr>sl_next := (\<lambda>l.
     if l \<in> M \<and> p = b then sl_next (h (pred_at h head A l)) l
     else if l \<in> M \<and> p = pred_at h head A l then Some b else sl_next (h p) l)\<rparr>)"

lemma inserted_sel [simp]:
  "sl_toplevel (inserted h head A b M p) = sl_toplevel (h p)"
  "sl_lock (inserted h head A b M p) = sl_lock (h p)"
  "sl_deleted (inserted h head A b M p) = sl_deleted (h p)"
  "sl_head (inserted h head A b M p) = sl_head (h p)"
  "sl_cmp (inserted h head A b M p) = sl_cmp (h p)"
  "sl_next (inserted h head A b M p) l =
     (if l \<in> M \<and> p = b then sl_next (h (pred_at h head A l)) l
      else if l \<in> M \<and> p = pred_at h head A l then Some b else sl_next (h p) l)"
  "inserted h head A b {} = h"
  by (simp_all add: inserted_def fun_eq_iff)

lemma inserted_insert:
  assumes "b \<notin> set (head # A)" and "l \<notin> M"
  shows "set_next (pred_at h head A l) l (Some b) (set_next b l
      (sl_next (inserted h head A b M (pred_at h head A l)) l) (inserted h head A b M)) =
    inserted h head A b (insert l M)"
proof -
  have "b \<noteq> pred_at h head A i" for i using pred_at_in [of h head A i] assms(1) by auto
  with assms(2) show ?thesis
    by (auto simp: set_next_def inserted_def fun_eq_iff intro!: skiplist.equality)
qed

lemma insert_levels_ok:
  assumes "b \<notin> set (head # A)" and "\<And>l. l \<in> set ls \<Longrightarrow> upd l = Some (pred_at h head A l)"
    and "\<And>l. l \<in> set ls \<Longrightarrow> l \<le> sl_toplevel (h (pred_at h head A l))"
    and "distinct ls" and "set ls \<inter> M = {}"
  shows "insert_levels ls b upd (lockset S (inserted h head A b M)) =
    Some (lockset S (inserted h head A b (set ls \<union> M)))"
  using assms(2-)
proof (induction ls arbitrary: M)
  case (Cons l ls)
  have "insert_levels ls b upd (lockset S (inserted h head A b (insert l M))) =
      Some (lockset S (inserted h head A b (set ls \<union> insert l M)))"
    by (rule Cons.IH) (use Cons.prems in auto)
  moreover have "l \<notin> M" using Cons.prems(4) by simp
  ultimately show ?case
    using Cons.prems(1,2) [of l] inserted_insert [OF assms(1), of l M h]
    by (simp add: set_next_lockset Let_def not_less del: inserted_sel(6))
qed simp

lemma balance_levels_ok:
  assumes "b \<notin> set (head # A)" and "\<And>l. l \<in> set ls \<Longrightarrow> upd l = Some (pred_at h head A l)"
    and "distinct ls" and "set ls \<inter> M = {}"
  shows "fold (balance_up_level upd b) ls (lockset S (inserted h head A b M)) =
    lockset S (inserted h head A b (set ls \<union> M))"
  using assms(2-)
proof (induction ls arbitrary: M)
  case (Cons l ls)
  have "fold (balance_up_level upd b) ls (lockset S (inserted h head A b (insert l M))) =
      lockset S (inserted h head A b (set ls \<union> insert l M))"
    by (rule Cons.IH) (use Cons.prems in auto)
  moreover have "l \<notin> M" using Cons.prems(3) by simp
  then have "balance_up_level upd b l (lockset S (inserted h head A b M)) =
      lockset S (inserted h head A b (insert l M))"
    using Cons.prems(1) [of l] inserted_insert [OF assms(1), of l M h]
    by (simp add: balance_up_level_def set_next_lockset Let_def del: inserted_sel(6))
  ultimately show ?case by simp
qed simp

lemma inserted_linked:
  assumes l: "linked h head (A @ B) l" and d: "distinct (head # A @ B)" and b: "b \<notin> set (head # A @ B)"
    and n: "\<And>p. p \<in> set (head # A @ b # B) \<Longrightarrow> sl_next (h' p) l = sl_next (inserted h head A b M p) l"
    and t: "\<And>p. p \<in> set (A @ B) \<Longrightarrow> tall h' l p = tall h l p"
  shows "l \<in> M \<Longrightarrow> tall h' l b \<Longrightarrow> linked h' head (A @ b # B) l"
    and "l \<notin> M \<Longrightarrow> \<not> tall h' l b \<Longrightarrow> linked h' head (A @ b # B) l"
proof -
  have f: "filter (tall h' l) A = filter (tall h l) A" "filter (tall h' l) B = filter (tall h l) B"
    by (rule filter_cong, simp, use t in simp)+
  have bp: "b \<noteq> pred_at h head A l" using pred_at_in [of h head A l] b by auto
  show "linked h' head (A @ b # B) l" if m: "l \<in> M" and tb: "tall h' l b"
  proof -
    let ?nx = "\<lambda>p. sl_next (h p) l"
    let ?p = "last (head # filter (tall h l) A)"
    have "chain (?nx(b := ?nx ?p, ?p := Some b)) head (filter (tall h l) A @ b # filter (tall h l) B)"
      by (rule chain_add) (use l d b in \<open>auto simp: linked_def\<close>)
    moreover have "sl_next (h' p) l = (?nx(b := ?nx ?p, ?p := Some b)) p"
      if "p \<in> set (head # A @ b # B)" for p
      using n [OF that] m bp by (auto simp: pred_at_def)
    then have "chain (\<lambda>p. sl_next (h' p) l) head (filter (tall h l) A @ b # filter (tall h l) B) =
        chain (?nx(b := ?nx ?p, ?p := Some b)) head (filter (tall h l) A @ b # filter (tall h l) B)"
      by (intro chain_cong) auto
    ultimately show ?thesis using tb by (simp add: linked_def f)
  qed
  show "linked h' head (A @ b # B) l" if m: "l \<notin> M" and tb: "\<not> tall h' l b"
  proof -
    have "linked h' head (A @ B) l = linked h head (A @ B) l"
      by (rule linked_cong) (use n t m in auto)
    then show ?thesis using l tb by (simp add: linked_def)
  qed
qed

context sl_client
begin

section \<open>Locking the predecessors\<close>

lemma insert_level_high:
  assumes "sl_walk (\<lambda>n. cmp n k < 0) n h p (sl_next (h p) n) = Some (q, c)" and "sl_cmp (h head) = cmp"
    and "t < n"
  shows "insert_lock_levels head k t (Suc n) p upd h = insert_lock_levels head k t n q (upd(n := None)) h"
  using assms by simp

lemma insert_level_lock:
  assumes "sl_walk (\<lambda>n. cmp n k < 0) n h p (sl_next (h p) n) = Some (q, c)" and "sl_cmp (h head) = cmp"
    and "n \<le> t" and "n = t \<or> Some q \<noteq> upd (Suc n)"
    and "skiplist_lock q h = Some h'" and "sl_next (h' q) n = c"
    and "\<not> (n < sl_toplevel (h' q) \<and> n < t \<and> c = sl_next (h' q) (Suc n))"
  shows "insert_lock_levels head k t (Suc n) p upd h =
    insert_lock_levels head k t n q (upd(n := Some q)) h'"
  using assms by (auto simp: Let_def)

lemma insert_level_same:
  assumes "sl_walk (\<lambda>n. cmp n k < 0) n h p (sl_next (h p) n) = Some (q, c)" and "sl_cmp (h head) = cmp"
    and "n < t" and "Some q = upd (Suc n)"
  shows "insert_lock_levels head k t (Suc n) p upd h =
    insert_lock_levels head k t n q (upd(n := Some q)) h"
  using assms by auto

declare insert_lock_levels.simps(2) [simp del]

lemma insert_lock_levels_ok:
  fixes k
  assumes w: "wf head h L" and t: "t < 8"
  defines "A \<equiv> below k L"
  shows "n \<le> 8 \<Longrightarrow> p \<in> set (head # filter (tall h (n - 1)) A) \<Longrightarrow>
    insert_lock_levels head k t n p (upd_at h head A t n) (lockset (locks_at h head A t n) h) =
    Some (Inr (upd_at h head A t 0, lockset (locks_at h head A t 0) h))"
proof (induction n arbitrary: p)
  case (Suc n)
  note hA = wf_split(4) [OF w, of k, folded A_def]
  let ?u = "upd_at h head A t (Suc n)" and ?q = "pred_at h head A n"
  let ?c = "hd_opt (filter (tall h n) (above k L))"
  have wk: "sl_walk (\<lambda>n. cmp n k < 0) n (lockset S h) p (sl_next (lockset S h p) n) = Some (?q, ?c)" for S
    using walk_ok [OF w, of n p k S] Suc.prems by (simp add: A_def)
  have hc: "sl_cmp (lockset S h head) = cmp" for S by (simp add: sl_wfD(2) [OF w])
  have ih: "insert_lock_levels head k t n ?q (upd_at h head A t n) (lockset (locks_at h head A t n) h) =
      Some (Inr (upd_at h head A t 0, lockset (locks_at h head A t 0) h))"
    by (rule Suc.IH) (use Suc.prems pred_at_start [of "n - 1" n h head A] in auto)
  consider (high) "t < n" | (lock) "n \<le> t" "n = t \<or> ?q \<noteq> pred_at h head A (Suc n)"
    | (same) "n < t" "?q = pred_at h head A (Suc n)" by linarith
  then show ?case
  proof cases
    case high
    have "?u(n := None) = upd_at h head A t n" using high by (rule upd_at_step)
    with insert_level_high [OF wk [of "{}"] hc [of "{}"] high, of ?u] ih show ?thesis
      using high by (simp add: locks_at_step)
  next
    case lock
    have "?q \<notin> locks_at h head A t (Suc n)"
      using lock pred_not_locked [where h = h, OF hA sl_wfD(1) [OF w] t, of n]
      by (cases "n = t") (simp_all add: locks_at_step)
    from lock_lockset [where h = h, OF _ this] wf_node(2) [OF w pred_node [OF w]]
    have lk: "skiplist_lock ?q (lockset (locks_at h head A t (Suc n)) h) =
        Some (lockset (locks_at h head A t n) h)"
      by (simp add: locks_at_step lock(1) A_def)
    have nx: "sl_next (h ?q) n = ?c" using next_of_pred [OF w, of n k] Suc.prems(1) by (simp add: A_def)
    have valid: "\<not> (n < sl_toplevel (h ?q) \<and> n < t \<and> ?c = sl_next (h ?q) (Suc n))"
      using pred_at_higher [OF _ _ hA, of n "Suc n" h] lock by (auto simp: tall_def)
    have "insert_lock_levels head k t (Suc n) p ?u (lockset (locks_at h head A t (Suc n)) h) =
        insert_lock_levels head k t n ?q (?u(n := Some ?q)) (lockset (locks_at h head A t n) h)"
      by (rule insert_level_lock [OF wk hc lock(1) _ lk])
        (use lock nx valid in \<open>auto simp: upd_at_step\<close>)
    also have "?u(n := Some ?q) = upd_at h head A t n" using lock(1) by (rule upd_at_step)
    finally show ?thesis using ih by simp
  next
    case same
    have "insert_lock_levels head k t (Suc n) p ?u (lockset (locks_at h head A t (Suc n)) h) =
        insert_lock_levels head k t n ?q (?u(n := Some ?q)) (lockset (locks_at h head A t (Suc n)) h)"
      by (rule insert_level_same [OF wk hc same(1)]) (use same in \<open>auto simp: upd_at_step\<close>)
    also have "?u(n := Some ?q) = upd_at h head A t n" using same(1) by (intro upd_at_step) simp
    finally have e: "insert_lock_levels head k t (Suc n) p ?u (lockset (locks_at h head A t (Suc n)) h) =
        insert_lock_levels head k t n ?q (upd_at h head A t n) (lockset (locks_at h head A t (Suc n)) h)" .
    have "locks_at h head A t (Suc n) = locks_at h head A t n"
      using locks_at_step(1) [of n t h head A] same by (auto simp: locks_at_def)
    with e ih show ?thesis by simp
  qed
qed simp

lemma insert_lock_ok:
  fixes k
  assumes w: "wf head h L" and t: "t < 8"
  defines "A \<equiv> below k L"
  shows "skiplist_insert_lock head k t h =
    (if \<exists>p \<in> set L. keyof p = k then Some (-1, upd_at h head A t 0, h)
     else Some (int t, upd_at h head A t 0, lockset (locks_at h head A t 0) h))"
proof -
  let ?u = "upd_at h head A t 0" and ?h = "lockset (locks_at h head A t 0) h"
  have "insert_lock_levels head k t 8 head (upd_at h head A t 8) (lockset (locks_at h head A t 8) h) =
      Some (Inr (?u, ?h))"
    using insert_lock_levels_ok [OF w t, of 8 head k] by (simp add: A_def)
  then have lv: "insert_lock_levels head k t 8 head (\<lambda>_. None) h = Some (Inr (?u, ?h))"
    using t by (simp add: upd_at_step locks_at_step)
  have valid: "\<not> insert_stale head k t ?u ?h"
  proof -
    have "\<not> sl_deleted (h (pred_at h head A l))" "sl_next (h (pred_at h head A l)) l = Some n \<Longrightarrow> \<not> cmp n k < 0"
      if "l \<le> t" for l n
      using that t wf_node(3) [OF w pred_node [OF w]] next_of_pred [OF w, of l k] wf_split(3) [OF w, of n k]
      by (auto simp: A_def dest: hd_opt_Some)
    then show ?thesis
      by (auto simp: insert_stale_def upd_at_step less_Suc_eq_le sl_wfD(2) [OF w] Let_def
          split: option.splits simp del: upt_Suc)
  qed
  have nx: "sl_next (h (pred_at h head A 0)) 0 = hd_opt (above k L)"
    using next_of_pred [OF w, of 0 k] by (simp add: A_def)
  have ul: "skiplist_unlock_update ?u t ?h = h"
  proof -
    have "skiplist_unlock_update ?u t (lockset ({} \<union> locks_at h head A t 0) h) =
        lockset ({} - locks_at h head A t 0) h"
      by (rule unlock_all_at) (use wf_node(2) [OF w] wf_split(5) [OF w, of k] A_def in auto)
    then show ?thesis by simp
  qed
  have ex: "(\<exists>p \<in> set L. keyof p = k) \<longleftrightarrow> (\<exists>b bs. above k L = b # bs \<and> keyof b = k)"
  proof -
    have "(\<exists>p \<in> set L. keyof p = k) \<longleftrightarrow> find (\<lambda>p. keyof p = k) L \<noteq> None"
      by (auto simp: find_None_iff)
    also have "\<dots> \<longleftrightarrow> (\<exists>b bs. above k L = b # bs \<and> keyof b = k)"
      by (auto simp: above_found [OF w] split: list.split)
    finally show ?thesis .
  qed
  have "cmp b k > 0 \<longleftrightarrow> keyof b \<noteq> k" if "b \<in> set (above k L)" for b
    using wf_split(3) [OF w that] cmp_eq [of b k] by (auto simp: not_less le_less)
  then show ?thesis
    by (subst skiplist_insert_lock.simps)
      (cases "above k L"; auto simp: sl_wfD(1,2) [OF w] lv valid nx ul ex Let_def upd_at_step)
qed

end

end
