(* ===== verification/Skiplist_Balance.thy ===== *)
theory Skiplist_Balance
  imports Skiplist_Update
begin

text \<open>
  Insertion and upward rebalancing as a whole, and the consistency check of skiplist.h, which
  every well-formed list passes.
\<close>

lemma clear_fold:
  "sl_next (fold (\<lambda>l. set_next b l None) ls h p) l =
     (if p = b \<and> l \<in> set ls then None else sl_next (h p) l)"
  "sl_toplevel (fold (\<lambda>l. set_next b l None) ls h p) = sl_toplevel (h p)"
  "sl_lock (fold (\<lambda>l. set_next b l None) ls h p) = sl_lock (h p)"
  "sl_deleted (fold (\<lambda>l. set_next b l None) ls h p) = sl_deleted (h p)"
  "sl_head (fold (\<lambda>l. set_next b l None) ls h p) = sl_head (h p)"
  "sl_cmp (fold (\<lambda>l. set_next b l None) ls h p) = sl_cmp (h p)"
  "p \<noteq> b \<Longrightarrow> fold (\<lambda>l. set_next b l None) ls h p = h p"
  by (induction ls arbitrary: h) (auto simp: set_next_def)

lemma clear_lockset:
  "fold (\<lambda>l. set_next b l None) ls (lockset S h) = lockset S (fold (\<lambda>l. set_next b l None) ls h)"
  by (induction ls arbitrary: h) (simp_all add: set_next_lockset)

lemma pred_at_cong: "(\<And>p. p \<in> set A \<Longrightarrow> tall h' l p = tall h l p) \<Longrightarrow> pred_at h' head A l = pred_at h head A l"
  by (simp add: pred_at_def cong: filter_cong)

context sl_client
begin

lemma wf_parts:
  assumes "sl_toplevel (h head) = 7" and "sl_cmp (h head) = cmp" and "distinct (head # L)"
    and "sorted_wrt (\<lambda>p q. keyof p < keyof q) L" and "\<And>l. l < 8 \<Longrightarrow> linked h head L l"
    and "\<And>p. p \<in> set (head # L) \<Longrightarrow> sl_node_ok head h p"
  shows "wf head h L"
  using assms by (simp add: sl_wf_def SL_MAX_LEVELS_def)

lemma wf_list:
  assumes "wf head h L"
  shows "L = below k L @ above k L" and "distinct (head # below k L @ above k L)"
  using keys_split(1) [OF sl_wfD(5) [OF assms], of k] sl_wfD(3,4) [OF assms]
  by (simp_all add: keys_below_def keys_from_def)

lemma wf_at:
  assumes "wf head h L" and "above k L = b # bs"
  shows "L = below k L @ b # bs" and "b \<in> set L" and "b \<notin> set (head # below k L @ bs)"
    and "distinct (head # below k L @ bs)"
proof -
  show e: "L = below k L @ b # bs" using wf_list(1) [OF assms(1), of k] assms(2) by simp
  have "distinct (head # below k L @ b # bs)"
    using wf_list(2) [OF assms(1), of k] assms(2) by simp
  then show "b \<notin> set (head # below k L @ bs)" and "distinct (head # below k L @ bs)" by auto
  have "b \<in> set (below k L @ b # bs)" by simp
  with e show "b \<in> set L" by metis
qed

section \<open>Insertion\<close>

lemma wf_insert:
  fixes new
  assumes w: "wf head h L" and n: "new \<notin> set (head # L)"
    and nk: "\<And>p. p \<in> set L \<Longrightarrow> keyof p \<noteq> keyof new"
    and h1: "\<And>p. p \<noteq> new \<Longrightarrow> h1 p = h p" "sl_node_ok head h1 new"
  defines "A \<equiv> below (keyof new) L" and "B \<equiv> above (keyof new) L"
  defines "h' \<equiv> inserted h1 head A new {..sl_toplevel (h1 new)}"
  shows "wf head h' (A @ new # B)"
proof -
  note L = wf_list [OF w, of "keyof new", folded A_def B_def]
  have sub: "set A \<subseteq> set L" "set B \<subseteq> set L" using arg_cong [OF L(1), of set] by auto
  have t1: "tall h1 l p = tall h l p" if "p \<noteq> new" for l p using h1(1) that by (simp add: tall_def)
  have lk: "linked h' head (A @ new # B) l" if "l < 8" for l
  proof -
    have ne: "p \<noteq> new" if "p \<in> set (head # A @ B)" for p using that n sub by auto
    have "linked h1 head (A @ B) l = linked h head (A @ B) l"
      by (rule linked_cong) (use ne in \<open>auto simp: h1(1) t1\<close>)
    then have l1: "linked h1 head (A @ B) l" using sl_wfD(6) [OF w that] L(1) by simp
    note i = inserted_linked [OF l1 L(2), of new h' "{..sl_toplevel (h1 new)}"]
    have b: "new \<notin> set (head # A @ B)" using n sub by auto
    have th: "tall h' l p = tall h1 l p" for p by (simp add: tall_def h'_def)
    show ?thesis
      using i(1) [OF b _ th] i(2) [OF b _ th] by (cases "tall h1 l new") (auto simp: h'_def tall_def)
  qed
  have srt: "sorted_wrt (\<lambda>p q. keyof p < keyof q) (A @ new # B)"
  proof -
    have "sorted_wrt (\<lambda>p q. keyof p < keyof q) (A @ B)" using sl_wfD(5) [OF w] L(1) by simp
    moreover have "keyof a < keyof new" if "a \<in> set A" for a
      using keys_split(2) [OF sl_wfD(5) [OF w]] that by (simp add: A_def)
    moreover have "keyof new < keyof b" if "b \<in> set B" for b
    proof -
      have "\<not> keyof b < keyof new"
        using keys_split(3) [OF sl_wfD(5) [OF w]] that by (simp add: B_def)
      with nk [of b] that sub show ?thesis by (auto simp: not_less le_less)
    qed
    ultimately show ?thesis by (auto simp: sorted_wrt_append)
  qed
  have ok: "sl_node_ok head h' p" if p: "p \<in> set (head # A @ new # B)" for p
  proof (cases "p = new")
    case True
    with h1(2) show ?thesis by (auto simp: sl_node_ok_def h'_def)
  next
    case False
    then have q: "p \<in> set (head # L)" using p sub by auto
    have "sl_next (h' p) l = None" if l: "sl_toplevel (h p) < l" "l < 8" for l
    proof -
      have "p \<noteq> pred_at h1 head A l"
        using pred_at_tall [of h1 head A l] l sl_wfD(1) [OF w] h1(1) [of p] n False
        by (auto simp: tall_def)
      with wf_node(5) [OF w q l] False show ?thesis by (simp add: h'_def h1(1))
    qed
    with wf_node(1-4) [OF w q] h1(1) [OF False] show ?thesis
      by (auto simp: sl_node_ok_def SL_MAX_LEVELS_def h'_def)
  qed
  show ?thesis
  proof (rule wf_parts)
    show "distinct (head # A @ new # B)" using L(2) n sub by auto
  qed (use sl_wfD(1,2) [OF w] h1(1) [of head] n srt lk ok in \<open>auto simp: h'_def\<close>)
qed

lemma insert_ok:
  assumes w: "wf head h L" and n: "new \<notin> set (head # L)" and k: "keyof new = k"
  shows "if \<exists>p \<in> set L. keyof p = k then skiplist_insert new head k r h = Some (- EEXIST, h)
    else \<exists>h'. skiplist_insert new head k r h = Some (0, h') \<and>
      wf head h' (below k L @ new # above k L) \<and>
      sl_toplevel (h' new) = random_level r \<and> (\<forall>p. p \<noteq> new \<longrightarrow> sl_toplevel (h' p) = sl_toplevel (h p))"
proof -
  have t: "random_level r < 8" by (simp add: random_level_def SL_MAX_LEVELS_def Let_def)
  note il = insert_lock_ok [OF w t, of k]
  show ?thesis
  proof (cases "\<exists>p \<in> set L. keyof p = k")
    case True
    with il show ?thesis by (simp add: skiplist_insert_def)
  next
    case False
    define A where "A = below k L"
    define t where "t = random_level r"
    define S where "S = locks_at h head A t 0"
    define upd where "upd = upd_at h head A t 0"
    define h0 where "h0 = h(new := (h new)\<lparr>sl_toplevel := t, sl_lock := False, sl_deleted := False,
      sl_head := head\<rparr>)"
    define h1 where "h1 = fold (\<lambda>l. set_next new l None) [Suc t..<SL_MAX_LEVELS] h0"
    define h' where "h' = inserted h1 head A new {..t}"
    note t8 = \<open>random_level r < 8\<close> [folded t_def]
    have nA: "new \<notin> set (head # A)" using n wf_split(5) [OF w, of k] by (auto simp: A_def)
    have nS: "new \<notin> S" using nA locks_at_sub [of h head A t 0] by (auto simp: S_def)
    have il': "skiplist_insert_lock head k t h = Some (int t, upd, lockset S h)"
      using il False by (simp add: A_def t_def S_def upd_def)
    have i0: "(lockset S h)(new := (lockset S h new)\<lparr>sl_toplevel := t, sl_lock := False,
        sl_deleted := False, sl_head := head\<rparr>) = lockset S h0"
      using nS by (auto simp: lockset_def h0_def fun_eq_iff)
    have lk: "skiplist_lock new (lockset S h0) = Some (lockset (insert new S) h0)"
      by (rule lock_lockset [OF _ nS]) (simp add: h0_def)
    have cl: "fold (\<lambda>l. set_next new l None) [Suc t..<SL_MAX_LEVELS] (lockset (insert new S) h0) =
        lockset (insert new S) h1"
      by (simp add: clear_lockset h1_def)
    have off: "h1 p = h p" if "p \<noteq> new" for p using that by (simp add: h1_def clear_fold h0_def)
    have top: "sl_toplevel (h1 new) = t" by (simp add: h1_def clear_fold h0_def)
    have pr: "pred_at h1 head A l = pred_at h head A l" for l
    proof (rule pred_at_cong)
      fix p assume "p \<in> set A"
      with nA have "p \<noteq> new" by auto
      then show "tall h1 l p = tall h l p" by (simp add: tall_def off)
    qed
    have lv: "insert_levels [0..<Suc t] new upd (lockset (insert new S) h1) =
        Some (lockset (insert new S) h')"
    proof -
      have "insert_levels [0..<Suc t] new upd (lockset (insert new S) (inserted h1 head A new {})) =
          Some (lockset (insert new S) (inserted h1 head A new (set [0..<Suc t] \<union> {})))"
      proof (rule insert_levels_ok [OF nA])
        fix l assume l: "l \<in> set [0..<Suc t]"
        then show "upd l = Some (pred_at h1 head A l)" by (auto simp: upd_def pr upd_at_def)
        have "pred_at h head A l \<noteq> new" using pred_at_in [of h head A l] nA by metis
        then show "l \<le> sl_toplevel (h1 (pred_at h1 head A l))"
          using l t8 pred_at_tall [of h head A l] sl_wfD(1) [OF w] by (auto simp: pr off tall_def)
      qed auto
      moreover have "set [0..<Suc t] \<union> {} = {..t}" by (auto simp del: upt_Suc)
      ultimately show ?thesis by (simp add: h'_def del: upt_Suc)
    qed
    have fr: "\<not> sl_lock (h' p)" if "p \<in> set (head # A)" for p
    proof -
      have "p \<in> set (head # L)" "p \<noteq> new" using that nA wf_split(5) [OF w, of k] by (auto simp: A_def)
      then show ?thesis using wf_node(2) [OF w] by (auto simp: h'_def off)
    qed
    have ul: "skiplist_unlock_update upd t (lockset (insert new S) h') = lockset {new} h'"
    proof -
      have "skiplist_unlock_update upd t (lockset ({new} \<union> S) h') = lockset ({new} - S) h'"
        unfolding upd_def S_def by (rule unlock_all_at) (rule fr)
      moreover have "{new} - S = {new}" using nS by auto
      ultimately show ?thesis by simp
    qed
    have ub: "skiplist_unlock new (lockset {new} h') = h'"
      using unlock_lockset [where S = "{new}" and h = h' and p = new]
      by (simp add: h'_def h1_def clear_fold h0_def)
    have "skiplist_insert new head k r h = Some (0, h')"
      by (simp add: skiplist_insert_def il' i0 lk cl lv ul ub Let_def flip: t_def del: fun_upd_apply upt_Suc)
    moreover have "wf head h' (A @ new # above k L)"
    proof -
      have ok: "sl_node_ok head h1 new"
        using t8 by (auto simp: sl_node_ok_def h1_def clear_fold h0_def SL_MAX_LEVELS_def)
      have nk: "keyof p \<noteq> keyof new" if "p \<in> set L" for p using False that k by auto
      from wf_insert [OF w n nk off ok] show ?thesis by (simp add: k top flip: A_def h'_def)
    qed
    moreover have "sl_toplevel (h' new) = t" by (simp add: h'_def top)
    moreover have "sl_toplevel (h' p) = sl_toplevel (h p)" if "p \<noteq> new" for p
      using off [OF that] by (simp add: h'_def)
    ultimately show ?thesis using False by (auto simp: A_def t_def)
  qed
qed

section \<open>Rebalancing to a higher level\<close>

lemma balance_level_lock:
  assumes "sl_walk (\<lambda>n. cmp n k < 0) n h p (sl_next (h p) n) = Some (q, c)" and "sl_cmp (h head) = cmp"
    and "n = t \<or> Some q \<noteq> upd (Suc n)" and "skiplist_lock q h = Some h'"
  shows "balance_lock_levels head k t (Suc n) p upd h =
    balance_lock_levels head k t n q (upd(n := Some q)) h'"
  using assms by (auto simp: Let_def)

lemma balance_level_same:
  assumes "sl_walk (\<lambda>n. cmp n k < 0) n h p (sl_next (h p) n) = Some (q, c)" and "sl_cmp (h head) = cmp"
    and "n < t" and "Some q = upd (Suc n)"
  shows "balance_lock_levels head k t (Suc n) p upd h =
    balance_lock_levels head k t n q (upd(n := Some q)) h"
  using assms by auto

declare balance_lock_levels.simps(2) [simp del]

lemma balance_lock_levels_ok:
  fixes k
  assumes w: "wf head h L"
  defines "A \<equiv> below k L"
  shows "n \<le> 8 \<Longrightarrow> p \<in> set (head # filter (tall h (n - 1)) A) \<Longrightarrow> (n = 0 \<Longrightarrow> p = pred_at h head A 0) \<Longrightarrow>
    balance_lock_levels head k 7 n p (upd_at h head A 7 n) (lockset (locks_at h head A 7 n) h) =
    Some (pred_at h head A 0, upd_at h head A 7 0, lockset (locks_at h head A 7 0) h)"
proof (induction n arbitrary: p)
  case (Suc n)
  note hA = wf_split(4) [OF w, of k, folded A_def]
  let ?u = "upd_at h head A 7 (Suc n)" and ?q = "pred_at h head A n"
  have n7: "n \<le> 7" using Suc.prems(1) by simp
  have wk: "sl_walk (\<lambda>n. cmp n k < 0) n (lockset S h) p (sl_next (lockset S h p) n) =
      Some (?q, hd_opt (filter (tall h n) (above k L)))" for S
    using walk_ok [OF w, of n p k S] Suc.prems by (simp add: A_def)
  have hc: "sl_cmp (lockset S h head) = cmp" for S by (simp add: sl_wfD(2) [OF w])
  have ih: "balance_lock_levels head k 7 n ?q (upd_at h head A 7 n) (lockset (locks_at h head A 7 n) h) =
      Some (pred_at h head A 0, upd_at h head A 7 0, lockset (locks_at h head A 7 0) h)"
    by (rule Suc.IH) (use Suc.prems pred_at_start [of "n - 1" n h head A] in auto)
  have u: "?u(n := Some ?q) = upd_at h head A 7 n" using n7 by (rule upd_at_step)
  show ?case
  proof (cases "n = 7 \<or> ?q \<noteq> pred_at h head A (Suc n)")
    case True
    have "?q \<notin> locks_at h head A 7 (Suc n)"
      using True n7 pred_not_locked [where h = h and t = 7, OF hA sl_wfD(1) [OF w], of n]
      by (cases "n = 7") (simp_all add: locks_at_step)
    from lock_lockset [where h = h, OF _ this] wf_node(2) [OF w pred_node [OF w]]
    have lk: "skiplist_lock ?q (lockset (locks_at h head A 7 (Suc n)) h) =
        Some (lockset (locks_at h head A 7 n) h)"
      by (simp add: locks_at_step n7 A_def)
    have "balance_lock_levels head k 7 (Suc n) p ?u (lockset (locks_at h head A 7 (Suc n)) h) =
        balance_lock_levels head k 7 n ?q (?u(n := Some ?q)) (lockset (locks_at h head A 7 n) h)"
      by (rule balance_level_lock [OF wk hc _ lk]) (use True n7 in \<open>auto simp: upd_at_def\<close>)
    with ih u show ?thesis by simp
  next
    case False
    with n7 have lt: "n < 7" "?q = pred_at h head A (Suc n)" by auto
    have "locks_at h head A 7 (Suc n) = locks_at h head A 7 n"
      using locks_at_step(1) [of n 7 h head A] lt by (auto simp: locks_at_def)
    moreover have "balance_lock_levels head k 7 (Suc n) p ?u (lockset (locks_at h head A 7 (Suc n)) h) =
        balance_lock_levels head k 7 n ?q (?u(n := Some ?q)) (lockset (locks_at h head A 7 (Suc n)) h)"
      by (rule balance_level_same [OF wk hc]) (use lt in \<open>auto simp: upd_at_def\<close>)
    ultimately show ?thesis using ih u by simp
  qed
qed simp

lemma balance_unlock:
  fixes k
  assumes w: "wf head h L" and fr: "\<And>p. p \<in> set (head # below k L) \<Longrightarrow> \<not> sl_lock (h' p)"
  shows "skiplist_unlock_update (upd_at h head (below k L) 7 0) 7
    (lockset (locks_at h head (below k L) 7 0) h') = h'"
proof -
  have "skiplist_unlock_update (upd_at h head (below k L) 7 0) 7
      (lockset ({} \<union> locks_at h head (below k L) 7 0) h') = lockset ({} - locks_at h head (below k L) 7 0) h'"
    by (rule unlock_all_at) (rule fr)
  then show ?thesis by simp
qed

lemma below_free: "wf head h L \<Longrightarrow> p \<in> set (head # below k L) \<Longrightarrow> \<not> sl_lock (h p)"
  using wf_node(2) [of head h L p] wf_split(5) [of head h L k] by auto

lemma balance_lock_ok:
  fixes k
  assumes w: "wf head h L"
  defines "A \<equiv> below k L"
  shows "skiplist_balance_node_lock head k h =
    (case find (\<lambda>p. keyof p = k) L of None \<Rightarrow> Some (None, upd_at h head A 7 0, h)
     | Some b \<Rightarrow> Some (Some b, upd_at h head A 7 0, lockset (locks_at h head A 7 0) h))"
proof -
  have "balance_lock_levels head k 7 8 head (upd_at h head A 7 8) (lockset (locks_at h head A 7 8) h) =
      Some (pred_at h head A 0, upd_at h head A 7 0, lockset (locks_at h head A 7 0) h)"
    using balance_lock_levels_ok [OF w, of 8 head k] by (simp add: A_def)
  then have lv: "balance_lock_levels head k 7 8 head (\<lambda>_. None) h =
      Some (pred_at h head A 0, upd_at h head A 7 0, lockset (locks_at h head A 7 0) h)"
    by (simp add: upd_at_step locks_at_step)
  have nx: "sl_next (h (pred_at h head A 0)) 0 = hd_opt (above k L)"
    using next_of_pred [OF w, of 0 k] by (simp add: A_def)
  have ul: "skiplist_unlock_update (upd_at h head A 7 0) 7 (lockset (locks_at h head A 7 0) h) = h"
    using balance_unlock [OF w, of k h] below_free [OF w, of _ k] by (simp add: A_def)
  show ?thesis
    by (cases "above k L")
      (auto simp: skiplist_balance_node_lock_def sl_wfD(1,2) [OF w] lv nx ul above_found [OF w] cmp_eq Let_def)
qed

lemma wf_balance:
  fixes k
  assumes w: "wf head h L" and a: "above k L = b # bs" and n: "sl_toplevel (h b) \<le> n" "n < 8"
  defines "h' \<equiv> inserted h head (below k L) b {sl_toplevel (h b)<..n}"
  shows "wf head (h'(b := (h' b)\<lparr>sl_toplevel := n\<rparr>)) L"
proof -
  let ?A = "below k L" and ?h = "h'(b := (h' b)\<lparr>sl_toplevel := n\<rparr>)" and ?M = "{sl_toplevel (h b)<..n}"
  note L = wf_at [OF w a]
  note b = L(3,2)
  have lk: "linked ?h head L l" if "l < 8" for l
  proof (cases "tall h l b")
    case True
    then have "l \<notin> ?M" by (auto simp: tall_def)
    then have "linked ?h head L l = linked h head L l"
      by (intro linked_cong) (use True n in \<open>auto simp: tall_def h'_def\<close>)
    with sl_wfD(6) [OF w that] show ?thesis by simp
  next
    case False
    have "linked h head (?A @ b # bs) l" using sl_wfD(6) [OF w that] L(1) by simp
    with False have l1: "linked h head (?A @ bs) l" by (simp add: linked_def)
    note d = L(4)
    note i = inserted_linked [OF l1 d b(1), of ?h ?M]
    have nx: "sl_next (?h p) l = sl_next (inserted h head ?A b ?M p) l" for p
      by (cases "p = b") (simp_all flip: h'_def)
    have th: "tall ?h l p = tall h l p" if "p \<in> set (?A @ bs)" for p
      using that b(1) by (auto simp: tall_def h'_def)
    have "linked ?h head (?A @ b # bs) l"
    proof (cases "l \<le> n")
      case True
      then show ?thesis by (intro i(1) nx th) (use False in \<open>auto simp: tall_def h'_def\<close>)
    next
      case c: False
      then show ?thesis by (intro i(2) nx th) (use False in \<open>auto simp: tall_def h'_def\<close>)
    qed
    with L(1) show ?thesis by simp
  qed
  have ok: "sl_node_ok head ?h p" if p: "p \<in> set (head # L)" for p
  proof -
    have top: "sl_toplevel (?h p) = (if p = b then n else sl_toplevel (h p))" by (simp add: h'_def)
    have "sl_next (?h p) l = None" if l: "sl_toplevel (?h p) < l" "l < 8" for l
    proof -
      have hl: "sl_toplevel (h p) < l" using l(1) top n by (simp split: if_splits)
      have "l \<notin> ?M" if "p = b" using l(1) top that by simp
      moreover have "p \<noteq> pred_at h head ?A l"
        using pred_at_tall [of h head ?A l] hl sl_wfD(1) [OF w] l(2) by (auto simp: tall_def)
      moreover have "b \<noteq> pred_at h head ?A l" using pred_at_in [of h head ?A l] b(1) by auto
      ultimately show ?thesis using wf_node(5) [OF w p hl l(2)] by (auto simp: h'_def)
    qed
    moreover have "sl_toplevel (?h p) < 8" using top n wf_node(1) [OF w p] by simp
    ultimately show ?thesis
      using wf_node(2-4) [OF w p] by (auto simp: sl_node_ok_def SL_MAX_LEVELS_def h'_def)
  qed
  have bh: "head \<noteq> b" using b(1) by auto
  show ?thesis
  proof (rule wf_parts)
    show "distinct (head # L)" using sl_wfD(3,4) [OF w] by simp
  qed (use sl_wfD(1,2,5) [OF w] bh lk ok in \<open>auto simp: h'_def\<close>)
qed

lemma rebalance_ok:
  assumes w: "wf head h L" and n: "\<And>p. p \<in> set L \<Longrightarrow> keyof p = k \<Longrightarrow> sl_toplevel (h p) \<le> n" and n8: "n < 8"
  shows "\<exists>h'. skiplist_balance_node head k n h =
      Some (if \<exists>p \<in> set L. keyof p = k then 0 else - ENOENT, h') \<and> wf head h' L \<and>
    (\<forall>p \<in> set L. sl_toplevel (h' p) = (if keyof p = k then n else sl_toplevel (h p)))"
proof (cases "find (\<lambda>p. keyof p = k) L")
  case None
  then have "\<not> (\<exists>p \<in> set L. keyof p = k)" by (simp add: find_None_iff)
  with None balance_lock_ok [OF w, of k] w show ?thesis
    by (auto simp: skiplist_balance_node_def)
next
  case (Some b)
  then obtain bs where a: "above k L = b # bs" "keyof b = k"
    by (auto simp: above_found [OF w] split: list.splits if_splits)
  let ?A = "below k L" and ?t = "sl_toplevel (h b)"
  let ?u = "upd_at h head ?A 7 0" and ?S = "locks_at h head ?A 7 0"
  note L = wf_at [OF w a(1)]
  have bL: "b \<in> set L" and bn: "b \<notin> set (head # ?A)" using L(2,3) by auto
  have tn: "?t \<le> n" by (rule n [OF bL a(2)])
  have uniq: "p = b" if "p \<in> set L" "keyof p = k" for p
  proof -
    have "p \<in> set (?A @ b # bs)" using that(1) L(1) by simp
    then show ?thesis
      using that(2) keys_split(2,4) [where keyof = keyof and L = L and k = k, OF sl_wfD(5) [OF w]] a(1)
      by fastforce
  qed
  let ?h' = "inserted h head ?A b {?t<..n}"
  let ?h = "?h'(b := (?h' b)\<lparr>sl_toplevel := n\<rparr>)"
  have lk: "skiplist_balance_node_lock head k h = Some (Some b, ?u, lockset ?S h)"
    using balance_lock_ok [OF w, of k] Some by simp
  have up: "fold (balance_up_level ?u b) [Suc ?t..<Suc n] (lockset ?S h) = lockset ?S ?h'"
  proof -
    have "fold (balance_up_level ?u b) [Suc ?t..<Suc n] (lockset ?S (inserted h head ?A b {})) =
        lockset ?S (inserted h head ?A b (set [Suc ?t..<Suc n] \<union> {}))"
      by (rule balance_levels_ok [OF bn]) (use n8 in \<open>auto simp: upd_at_def\<close>)
    moreover have "set [Suc ?t..<Suc n] \<union> {} = {?t<..n}" by (auto simp del: upt_Suc)
    ultimately show ?thesis by (simp del: upt_Suc)
  qed
  have st: "(lockset ?S ?h')(b := (lockset ?S ?h' b)\<lparr>sl_toplevel := n\<rparr>) = lockset ?S ?h"
    by (auto simp: lockset_def fun_eq_iff)
  have fr: "\<not> sl_lock (?h p)" if "p \<in> set (head # ?A)" for p
    using below_free [OF w that] by auto
  have ul: "skiplist_unlock_update ?u 7 (lockset ?S ?h) = ?h"
    "skiplist_unlock_update ?u 7 (lockset ?S h) = h"
    by (rule balance_unlock [OF w], erule fr, rule balance_unlock [OF w], erule below_free [OF w])
  have hd: "sl_toplevel (?h head) = 7" using sl_wfD(1) [OF w] bn by auto
  have res: "\<exists>h'. skiplist_balance_node head k n h = Some (0, h') \<and> wf head h' L \<and>
      (\<forall>p \<in> set L. sl_toplevel (h' p) = (if p = b then n else sl_toplevel (h p)))"
  proof (cases "?t = n")
    case True
    then have "skiplist_balance_node head k n h = Some (0, h)"
      by (simp add: skiplist_balance_node_def lk sl_wfD(1) [OF w] ul)
    with w True show ?thesis by auto
  next
    case False
    with tn have "\<not> n < ?t" "?t \<noteq> n" by auto
    then have "skiplist_balance_node head k n h = Some (0, ?h)"
      by (simp add: skiplist_balance_node_def lk up st ul hd Let_def sl_wfD(1) [OF w]
          del: fun_upd_apply upt_Suc)
    with wf_balance [OF w a(1) tn n8] show ?thesis by auto
  qed
  have "(\<exists>p \<in> set L. keyof p = k)" using bL a(2) by blast
  moreover have "p = b \<longleftrightarrow> keyof p = k" if "p \<in> set L" for p using uniq [OF that] a(2) by auto
  ultimately show ?thesis using res by auto
qed

end

end
