(* ===== verification/Skiplist_Refine.thy ===== *)
theory Skiplist_Refine
  imports Skiplist_Balance
begin

text \<open>
  The skip list as a whole. \<open>sl_exec\<close> makes one call of the interface of skiplist.h, and
  \<open>sl_spec\<close> does the same on the ordered list of the elements with their levels, by searches of
  that list. A run of calls on a fresh list returns what the ordered list returns. The comparison
  function is the one of skiplisttorture.h, which interprets the interface \<open>sl_client\<close>.
\<close>

text \<open>\<open>data\<close> is the field of \<open>struct testsl\<close>, which encloses the element.\<close>

definition testcmp :: "(sptr \<Rightarrow> ulong) \<Rightarrow> sptr \<Rightarrow> ulong \<Rightarrow> int" where
  "testcmp data slp key = (let a = data slp; b = key in of_bool (a \<noteq> b) - 2 * of_bool (a < b))"

interpretation test: sl_client data "testcmp data" for data
  by unfold_locales (auto simp: testcmp_def Let_def not_less le_less)

section \<open>The consistency check\<close>

lemma fsck_walk_ok:
  "chain (\<lambda>p. sl_next (h p) 0) q ys \<Longrightarrow> fsck_walk (hd_opt (filter P ys)) h (hd_opt ys) = Some ()"
proof (induction ys arbitrary: q)
  case Nil
  then show ?case by (simp add: fsck_walk.simps)
next
  case (Cons y ys)
  then have n: "sl_next (h y) 0 = hd_opt ys" "chain (\<lambda>p. sl_next (h p) 0) y ys"
    by (auto dest: chain_next)
  show ?case
    by (subst fsck_walk.simps) (use Cons.IH [OF n(2)] n(1) in auto)
qed

lemma hd_filter_drop: "hd_opt (filter P ys) = hd_opt (dropWhile (\<lambda>x. \<not> P x) ys)"
  by (induction ys) auto

lemma filter_drop:
  "(\<And>x. Q x \<Longrightarrow> P x) \<Longrightarrow> filter Q (dropWhile (\<lambda>x. \<not> P x) ys) = filter Q ys"
  by (induction ys) auto

lemma fsck_levels_ok:
  assumes c: "\<And>l. l \<le> sl_toplevel (h p) \<Longrightarrow> chain (\<lambda>p. sl_next (h p) l) p (filter (tall h l) Y)"
  shows "Suc i + n \<le> Suc (sl_toplevel (h p)) \<Longrightarrow>
    fsck_levels [Suc i..<Suc i + n] p (sl_next (h p) i) h = Some ()"
proof (induction n arbitrary: i)
  case (Suc n)
  have nx: "sl_next (h p) l = hd_opt (filter (tall h l) Y)" if "l \<le> sl_toplevel (h p)" for l
    using chain_next [OF c [OF that]] .
  let ?Y = "dropWhile (\<lambda>x. \<not> tall h i x) Y"
  have c0: "chain (\<lambda>p. sl_next (h p) 0) p Y" using c [of 0] by (simp add: filter_True)
  then have "chain (\<lambda>p. sl_next (h p) 0) (last (p # takeWhile (\<lambda>x. \<not> tall h i x) Y)) ?Y"
    by (intro chain_append) simp
  from fsck_walk_ok [OF this, of "tall h (Suc i)"]
  have "fsck_walk (sl_next (h p) (Suc i)) h (sl_next (h p) i) = Some ()"
    using Suc.prems nx [of i] nx [of "Suc i"] filter_drop [of "tall h (Suc i)" "tall h i" Y]
    by (simp add: hd_filter_drop [of "tall h i"] tall_def)
  moreover have "(case sl_next (h p) (Suc i) of
      Some q \<Rightarrow> if sl_toplevel (h q) < Suc i then None else Some () | None \<Rightarrow> Some ()) = Some ()"
  proof (cases "sl_next (h p) (Suc i)")
    case (Some q)
    with nx [of "Suc i"] Suc.prems have "q \<in> set (filter (tall h (Suc i)) Y)"
      by (intro hd_opt_Some) simp
    with Some show ?thesis by (simp add: tall_def)
  qed simp
  moreover have "fsck_levels [Suc (Suc i)..<Suc (Suc i) + n] p (sl_next (h p) (Suc i)) h = Some ()"
    by (rule Suc.IH) (use Suc.prems in simp)
  moreover have "[Suc i..<Suc i + Suc n] = Suc i # [Suc (Suc i)..<Suc (Suc i) + n]"
    by (subst upt_conv_Cons) simp_all
  ultimately show ?case by (simp only: fsck_levels.simps Let_def bind.bind_lunit)
qed simp

context sl_client
begin

lemma wf_chain_from:
  assumes w: "wf head h L" and e: "head # L = xs @ p # ys" and l: "l \<le> sl_toplevel (h p)"
  shows "chain (\<lambda>p. sl_next (h p) l) p (filter (tall h l) ys)"
proof -
  have "p \<in> set (head # L)" by (subst e) simp
  then have l8: "l < 8" using wf_node(1) [OF w] l by (meson le_less_trans)
  have c: "chain (\<lambda>p. sl_next (h p) l) head (filter (tall h l) L)"
    using sl_wfD(6) [OF w l8] by (simp add: linked_def)
  show ?thesis
  proof (cases xs)
    case Nil
    with c e show ?thesis by simp
  next
    case (Cons x zs)
    with e have "L = zs @ p # ys" by simp
    with c l have "chain (\<lambda>p. sl_next (h p) l) head ((filter (tall h l) zs @ [p]) @ filter (tall h l) ys)"
      by (simp add: tall_def)
    from chain_append [OF this] show ?thesis by simp
  qed
qed

lemma fsck_one_ok:
  assumes w: "wf head h L" and e: "head # L = xs @ p # ys"
  shows "skiplist_fsck_one p h = Some ()"
proof -
  have p: "p \<in> set (head # L)" by (subst e) simp
  have "fsck_levels [Suc 0..<Suc 0 + sl_toplevel (h p)] p (sl_next (h p) 0) h = Some ()"
    by (rule fsck_levels_ok [OF wf_chain_from [OF w e]]) simp_all
  moreover have "\<forall>i \<in> set [Suc (sl_toplevel (h p))..<SL_MAX_LEVELS]. sl_next (h p) i = None"
    using wf_node(5) [OF w p] by (auto simp: SL_MAX_LEVELS_def)
  ultimately show ?thesis by (simp add: skiplist_fsck_one_def Let_def del: upt_Suc)
qed

lemma fsck_from_ok:
  assumes w: "wf head h L"
  shows "head # L = xs @ ys \<Longrightarrow> fsck_from head h (hd_opt ys) = Some ()"
proof (induction ys arbitrary: xs)
  case Nil
  then show ?case by (simp add: fsck_from.simps)
next
  case (Cons p ys)
  have p: "p \<in> set (head # L)" by (subst Cons.prems) simp
  have n: "sl_next (h p) 0 = hd_opt ys"
    using chain_next [OF wf_chain_from [OF w Cons.prems, of 0]] by simp
  have "fsck_from head h (hd_opt ys) = Some ()" using Cons.prems by (intro Cons.IH [of "xs @ [p]"]) simp
  then show ?case
    by (subst fsck_from.simps) (simp add: fsck_one_ok [OF w Cons.prems] wf_node(4) [OF w p] n)
qed

lemma fsck_ok: "wf head h L \<Longrightarrow> skiplist_fsck head h = Some ()"
  using fsck_from_ok [of head h L "[]" "head # L"] by (simp add: skiplist_fsck_def)

lemma init_ok: "wf head (skiplist_init head cmp h) []"
  by (auto simp: sl_wf_def skiplist_init_def SL_MAX_LEVELS_def linked_def sl_node_ok_def)

end

section \<open>Runs of calls\<close>

datatype 'k sl_op = Insert sptr 'k ulong | Delete 'k | Lookup 'k | Lookup_Lock 'k | First | Last
  | Next 'k | Prev 'k | Balance 'k nat | Fsck

datatype sl_res = Err int | Elem "sptr option" | Passed

text \<open>A caller of \<open>skiplist_lookup_lock\<close> releases the lock with \<open>skiplist_unlock\<close>.\<close>

fun sl_exec :: "sptr \<Rightarrow> 'k sl_op \<Rightarrow> 'k sl_heap \<Rightarrow> (sl_res \<times> 'k sl_heap) option" where
  "sl_exec head (Insert p k r) h = do { (e, h) \<leftarrow> skiplist_insert p head k r h; Some (Err e, h) }"
| "sl_exec head (Delete k) h = do { (p, h) \<leftarrow> skiplist_delete head k h; Some (Elem p, h) }"
| "sl_exec head (Lookup k) h = do { p \<leftarrow> skiplist_lookup_relaxed head k h; Some (Elem p, h) }"
| "sl_exec head (Lookup_Lock k) h = do {
     (p, h) \<leftarrow> skiplist_lookup_lock head k h;
     Some (Elem p, case p of None \<Rightarrow> h | Some p \<Rightarrow> skiplist_unlock p h) }"
| "sl_exec head First h = Some (Elem (skiplist_ptriter_first head h), h)"
| "sl_exec head Last h = do { p \<leftarrow> skiplist_ptriter_last head h; Some (Elem p, h) }"
| "sl_exec head (Next k) h = do { p \<leftarrow> skiplist_ptriter_next head k h; Some (Elem p, h) }"
| "sl_exec head (Prev k) h = do { p \<leftarrow> skiplist_ptriter_prev head k h; Some (Elem p, h) }"
| "sl_exec head (Balance k n) h = do { (e, h) \<leftarrow> skiplist_balance_node head k n h; Some (Err e, h) }"
| "sl_exec head Fsck h = do { skiplist_fsck head h; Some (Passed, h) }"

fun sl_run :: "sptr \<Rightarrow> 'k sl_op list \<Rightarrow> 'k sl_heap \<Rightarrow> (sl_res list \<times> 'k sl_heap) option" where
  "sl_run head [] h = Some ([], h)"
| "sl_run head (op # ops) h = do {
     (r, h) \<leftarrow> sl_exec head op h; (rs, h) \<leftarrow> sl_run head ops h; Some (r # rs, h) }"

type_synonym sl_abs = "sptr list \<times> (sptr \<Rightarrow> nat)"

fun sl_spec :: "(sptr \<Rightarrow> 'k::linorder) \<Rightarrow> 'k sl_op \<Rightarrow> sl_abs \<Rightarrow> sl_res \<times> sl_abs" where
  "sl_spec key (Insert p k r) (L, lv) =
     (if \<exists>q \<in> set L. key q = k then (Err (- EEXIST), L, lv)
      else (Err 0, takeWhile (\<lambda>q. key q < k) L @ p # dropWhile (\<lambda>q. key q < k) L,
            lv(p := random_level r)))"
| "sl_spec key (Delete k) (L, lv) =
     (Elem (find (\<lambda>q. key q = k) L), filter (\<lambda>q. key q \<noteq> k) L, lv)"
| "sl_spec key (Lookup k) (L, lv) = (Elem (find (\<lambda>q. key q = k) L), L, lv)"
| "sl_spec key (Lookup_Lock k) (L, lv) = (Elem (find (\<lambda>q. key q = k) L), L, lv)"
| "sl_spec key First (L, lv) = (Elem (find (\<lambda>q. True) L), L, lv)"
| "sl_spec key Last (L, lv) = (Elem (find (\<lambda>q. True) (rev L)), L, lv)"
| "sl_spec key (Next k) (L, lv) = (Elem (find (\<lambda>q. k < key q) L), L, lv)"
| "sl_spec key (Prev k) (L, lv) = (Elem (find (\<lambda>q. key q < k) (rev L)), L, lv)"
| "sl_spec key (Balance k n) (L, lv) =
     (Err (if \<exists>q \<in> set L. key q = k then 0 else - ENOENT), L, \<lambda>q. if key q = k then n else lv q)"
| "sl_spec key Fsck (L, lv) = (Passed, L, lv)"

fun sl_spec_run :: "(sptr \<Rightarrow> 'k::linorder) \<Rightarrow> 'k sl_op list \<Rightarrow> sl_abs \<Rightarrow> sl_res list" where
  "sl_spec_run key [] a = []"
| "sl_spec_run key (op # ops) a = (case sl_spec key op a of (r, a) \<Rightarrow> r # sl_spec_run key ops a)"

text \<open>
  What a caller has to respect: a new element is not in the list and has the key it is inserted
  under, and no element is balanced to a lower level.
\<close>

fun sl_pre :: "sptr \<Rightarrow> (sptr \<Rightarrow> 'k::linorder) \<Rightarrow> 'k sl_op \<Rightarrow> sl_abs \<Rightarrow> bool" where
  "sl_pre head key (Insert p k r) (L, lv) \<longleftrightarrow> p \<noteq> head \<and> p \<notin> set L \<and> key p = k"
| "sl_pre head key (Balance k n) (L, lv) \<longleftrightarrow>
     n < SL_MAX_LEVELS \<and> (\<forall>p \<in> set L. key p = k \<longrightarrow> lv p \<le> n)"
| "sl_pre head key op (L, lv) \<longleftrightarrow> True"

fun sl_pre_run :: "sptr \<Rightarrow> (sptr \<Rightarrow> 'k::linorder) \<Rightarrow> 'k sl_op list \<Rightarrow> sl_abs \<Rightarrow> bool" where
  "sl_pre_run head key [] a \<longleftrightarrow> True"
| "sl_pre_run head key (op # ops) a \<longleftrightarrow> sl_pre head key op a \<and> sl_pre_run head key ops (snd (sl_spec key op a))"

definition sl_rel :: "(sptr \<Rightarrow> 'k::linorder) \<Rightarrow> (sptr \<Rightarrow> 'k \<Rightarrow> int) \<Rightarrow> sptr \<Rightarrow> 'k sl_heap \<Rightarrow> sl_abs \<Rightarrow> bool"
  where
  "sl_rel key cmp head h a \<longleftrightarrow>
     sl_wf key cmp head h (fst a) \<and> (\<forall>p \<in> set (fst a). sl_toplevel (h p) = snd a p)"

context sl_client
begin

lemma exec_refines:
  assumes r: "sl_rel keyof cmp head h a" and p: "sl_pre head keyof op a"
  shows "\<exists>h'. sl_exec head op h = Some (fst (sl_spec keyof op a), h') \<and>
    sl_rel keyof cmp head h' (snd (sl_spec keyof op a))"
proof -
  obtain L lv where a: "a = (L, lv)" by (cases a)
  have w: "wf head h L" and lv: "\<And>p. p \<in> set L \<Longrightarrow> sl_toplevel (h p) = lv p"
    using r by (auto simp: sl_rel_def a)
  have hf: "hd_opt xs = find (\<lambda>q. True) xs" for xs :: "sptr list" by (cases xs) simp_all
  show ?thesis
  proof (cases op)
    case (Insert p k r)
    with p have "p \<notin> set (head # L)" "keyof p = k" by (auto simp: a)
    moreover have "q \<in> set L" if "q \<in> set (takeWhile P L) \<or> q \<in> set (dropWhile P L)" for q P
      using that set_takeWhileD set_dropWhileD by metis
    ultimately show ?thesis
      using insert_ok [OF w, of p k r] lv w
      by (auto simp: Insert a sl_rel_def keys_below_def keys_from_def split: if_splits)
  next
    case (Delete k)
    from delete_ok [OF w, of k] lv show ?thesis by (auto simp: Delete a sl_rel_def)
  next
    case (Lookup k)
    with w lv show ?thesis by (auto simp: a sl_rel_def lookup_relaxed_ok)
  next
    case (Lookup_Lock k)
    have "skiplist_unlock p (lockset {p} h) = h" if "find (\<lambda>p. keyof p = k) L = Some p" for p
      using unlock_lockset [where S = "{p}" and h = h and p = p] wf_node(2) [OF w, of p] that
      by (auto simp: find_Some_iff)
    with Lookup_Lock w lv show ?thesis
      by (auto simp: a sl_rel_def lookup_lock_ok split: option.split)
  next
    case First
    with w lv show ?thesis by (auto simp: a sl_rel_def skiplist_ptriter_first_def valiter_first_ok hf)
  next
    case Last
    with w lv show ?thesis by (auto simp: a sl_rel_def skiplist_ptriter_last_def valiter_last_ok hf)
  next
    case (Next k)
    with w lv show ?thesis by (auto simp: a sl_rel_def skiplist_ptriter_next_def valiter_next_ok)
  next
    case (Prev k)
    with w lv show ?thesis by (auto simp: a sl_rel_def skiplist_ptriter_prev_def valiter_prev_ok)
  next
    case (Balance k n)
    with p have "n < 8" "\<And>p. p \<in> set L \<Longrightarrow> keyof p = k \<Longrightarrow> sl_toplevel (h p) \<le> n"
      by (auto simp: a SL_MAX_LEVELS_def lv)
    from rebalance_ok [where k = k, OF w this(2,1)] lv show ?thesis by (auto simp: Balance a sl_rel_def)
  next
    case Fsck
    with w lv show ?thesis by (auto simp: a sl_rel_def fsck_ok)
  qed
qed

lemma run_refines:
  "sl_rel keyof cmp head h a \<Longrightarrow> sl_pre_run head keyof ops a \<Longrightarrow>
   \<exists>h'. sl_run head ops h = Some (sl_spec_run keyof ops a, h')"
proof (induction ops arbitrary: h a)
  case (Cons op ops)
  then obtain h' where h': "sl_exec head op h = Some (fst (sl_spec keyof op a), h')"
    "sl_rel keyof cmp head h' (snd (sl_spec keyof op a))"
    using exec_refines [of head h a op] by auto
  from Cons.IH [OF this(2)] Cons.prems(2) h'(1) show ?case
    by (cases "sl_spec keyof op a") auto
qed simp

lemma init_rel: "sl_rel keyof cmp head (skiplist_init head cmp h) ([], lv)"
  using init_ok by (simp add: sl_rel_def)

end

text \<open>C23: Starting from \<open>skiplist_init\<close>, every sequence of insertions, deletions, lookups,
  iterations, rebalancings and consistency checks that keeps to \<open>sl_pre_run\<close> returns, never waiting for
  a lock or failing an assertion, and gives the results of searches of one ordered list, whatever
  levels the random numbers choose. \<open>sl_pre_run\<close> asks at every call that an element to be inserted is not
  the header, is not on the list and has the key it is inserted under, and that an element is
  rebalanced to a level below \<open>SL_MAX_LEVELS\<close> that is not lower than its own. The code accepts a lower
  level too, and then goes wrong, as the section at the end of this theory shows.\<close>

theorem skiplist_refines:
  assumes "sl_pre_run head data ops ([], \<lambda>_. 0)"
  shows "\<exists>h'. sl_run head ops (skiplist_init head (testcmp data) h) =
    Some (sl_spec_run data ops ([], \<lambda>_. 0), h')"
  using test.init_rel assms by (rule test.run_refines)

definition ex_calls :: "ulong sl_op list" where
  "ex_calls = [Insert 1 10 3, Insert 2 20 0, Insert 3 20 1, Lookup 20, Next 10, Balance 20 5,
     Prev 20, Delete 10, First, Fsck]"

definition ex_data :: "sptr \<Rightarrow> ulong" where
  "ex_data p = (if p = 1 then 10 else if p = 2 then 20 else 20)"

theorem skiplist_refines_witness:
  "\<exists>h'. sl_run 0 ex_calls (skiplist_init 0 (testcmp ex_data)
      (\<lambda>_. \<lparr>sl_toplevel = 0, sl_lock = False, sl_deleted = False, sl_head = 0, sl_seq = 0,
        sl_cmp = testcmp ex_data, sl_next = \<lambda>_. None\<rparr>)) =
    Some ([Err 0, Err 0, Err (- 17), Elem (Some 2), Elem (Some 2), Err 0, Elem (Some 1),
      Elem (Some 1), Elem (Some 2), Passed], h')"
proof -
  have r: "sl_spec_run ex_data ex_calls ([], \<lambda>_. 0) =
      [Err 0, Err 0, Err (- 17), Elem (Some 2), Elem (Some 2), Err 0, Elem (Some 1),
       Elem (Some 1), Elem (Some 2), Passed]"
    by (simp add: ex_calls_def ex_data_def EEXIST_def)
  have p: "sl_pre_run 0 ex_data ex_calls ([], \<lambda>_. 0)"
    by (simp add: ex_calls_def ex_data_def SL_MAX_LEVELS_def random_level_def trailing_ones.simps Let_def)
  show ?thesis using skiplist_refines [OF p] by (simp only: r)
qed

section \<open>Rebalancing to a lower level\<close>

text \<open>
  Rebalancing to a lower level. The loop of \<open>skiplist_balance_node\<close> for this case never runs, so
  the element stays linked on the levels that it no longer claims to be on.
\<close>

text \<open>A header at address 0 and one element at address 1 whose key is 10.\<close>

definition down_cmp :: "sptr \<Rightarrow> ulong \<Rightarrow> int" where
  "down_cmp = testcmp (\<lambda>_. 10)"

definition down_node :: "nat \<Rightarrow> bool \<Rightarrow> bool \<Rightarrow> sptr option \<Rightarrow> sptr option \<Rightarrow> ulong skiplist" where
  "down_node lv lck del m n = \<lparr>sl_toplevel = lv, sl_lock = lck, sl_deleted = del, sl_head = 0,
     sl_seq = 0, sl_cmp = down_cmp, sl_next = (\<lambda>l. if l = 0 then m else if l = 1 then n else None)\<rparr>"

definition down_heap :: "ulong skiplist \<Rightarrow> ulong skiplist \<Rightarrow> ulong sl_heap" where
  "down_heap a b = (\<lambda>p. if p = 0 then a else if p = 1 then b else down_node 0 False False None None)"

lemma down_node_sel [simp]:
  "sl_toplevel (down_node lv lck del m n) = lv" "sl_lock (down_node lv lck del m n) = lck"
  "sl_deleted (down_node lv lck del m n) = del" "sl_head (down_node lv lck del m n) = 0"
  "sl_cmp (down_node lv lck del m n) = down_cmp"
  "sl_next (down_node lv lck del m n) l = (if l = 0 then m else if l = 1 then n else None)"
  "(down_node lv lck del m n)\<lparr>sl_toplevel := lv'\<rparr> = down_node lv' lck del m n"
  "(down_node lv lck del m n)\<lparr>sl_lock := lck'\<rparr> = down_node lv lck' del m n"
  "(down_node lv lck del m n)\<lparr>sl_deleted := del'\<rparr> = down_node lv lck del' m n"
  "(down_node lv lck del m n)\<lparr>sl_head := 0\<rparr> = down_node lv lck del m n"
  by (simp_all add: down_node_def)

lemma down_heap_at [simp]:
  "down_heap a b 0 = a" "down_heap a b 1 = b" "down_heap a b (Suc 0) = b"
  "(down_heap a b)(0 := c) = down_heap c b" "(down_heap a b)(1 := c) = down_heap a c"
  "(down_heap a b)(Suc 0 := c) = down_heap a c"
  by (auto simp: down_heap_def fun_eq_iff)

lemma down_cmp_10 [simp]: "down_cmp p 10 = 0"
  by (simp add: down_cmp_def testcmp_def)

lemmas down_run = skiplist_lock_def skiplist_unlock_def skiplist_unlock_update_def unlock_level_def
  set_next_def Let_def sl_walk.simps numeral_eq_Suc

text \<open>The memory before \<open>skiplist_init\<close>.\<close>

abbreviation down_blank :: "ulong skiplist" where
  "down_blank \<equiv> down_node 0 False False None None"

abbreviation down_head :: "bool \<Rightarrow> sptr option \<Rightarrow> sptr option \<Rightarrow> ulong skiplist" where
  "down_head lck m n \<equiv> down_node 7 lck False m n"

lemma down_init:
  "skiplist_init 0 down_cmp (down_heap down_blank down_blank) = down_heap (down_head False None None) down_blank"
  by (auto simp: skiplist_init_def down_heap_def down_node_def SL_MAX_LEVELS_def fun_eq_iff)

lemma down_insert:
  "sl_exec 0 (Insert 1 10 1) (down_heap (down_head False None None) down_blank) =
    Some (Err 0, down_heap (down_head False (Some 1) (Some 1)) (down_node 1 False False None None))"
  by (simp add: skiplist_insert_def skiplist_insert_lock.simps insert_stale_def random_level_def
      trailing_ones.simps insert_lock_levels.simps down_run SL_MAX_LEVELS_def)
    (auto simp: down_heap_def down_node_def fun_eq_iff)

lemma down_balance:
  "sl_exec 0 (Balance 10 0) (down_heap (down_head False (Some 1) (Some 1)) (down_node 1 False False None None)) =
    Some (Err 0, down_heap (down_head False (Some 1) (Some 1)) down_blank)"
  by (simp add: skiplist_balance_node_def skiplist_balance_node_lock_def balance_lock_levels.simps
      balance_down.simps down_run)

lemma down_delete:
  "skiplist_delete 0 10 (down_heap (down_head False (Some 1) (Some 1)) down_blank) =
    Some (Some 1, down_heap (down_head False None (Some 1)) (down_node 0 False True None None))"
  by (simp add: skiplist_delete.simps delete_stale_def unlink_level_def delete_levels.simps down_run)
    (auto simp: down_heap_def down_node_def fun_eq_iff)

lemma down_fsck: "skiplist_fsck 0 (down_heap (down_head False (Some 1) (Some 1)) down_blank) = None"
  by (simp add: skiplist_fsck_def skiplist_fsck_one_def SL_MAX_LEVELS_def fsck_from.simps
      fsck_walk.simps down_run)

text \<open>C28: After an element of level 1 has been rebalanced to level 0, which reports success, the
  consistency check fails, and \<open>skiplist_delete\<close> leaves the element that it hands back for
  disposal linked from the header on level 1.\<close>

theorem skiplist_balance_down:
  "\<exists>h. sl_run 0 [Insert 1 10 1, Balance 10 0]
      (skiplist_init 0 (testcmp (\<lambda>_. 10)) (down_heap down_blank down_blank)) = Some ([Err 0, Err 0], h) \<and>
    skiplist_fsck 0 h = None \<and>
    (\<exists>h'. skiplist_delete 0 10 h = Some (Some 1, h') \<and> sl_deleted (h' 1) \<and> sl_next (h' 0) 1 = Some 1)"
  using down_fsck down_delete
  by (simp del: sl_exec.simps One_nat_def add: down_init down_insert down_balance flip: down_cmp_def)

end
