(* ===== verification/Skiplist_Glock.thy ===== *)
theory Skiplist_Glock
  imports Skiplist_Refine
begin

text \<open>
  datastruct/skiplist/skiplist_glock.c: the skip list with one lock, that of the header, for all
  updates, and iterators with a hint. Its functions have the names of those of skiplist.c. The
  elements, the store and the header file are those of the theory \<open>Skiplist\<close>; a function yields
  \<open>None\<close> when it does not return: the lock is held, a \<open>BUG_ON\<close> fires, or a loop has no end.
\<close>

record skiplist_iter =
  iter_seq :: ulong
  hintp :: "sptr option"

section \<open>Locking and lookup\<close>

definition skiplist_lock :: "sptr \<Rightarrow> 'k sl_heap \<Rightarrow> 'k sl_heap option" where
  "skiplist_lock slp h = (let p = sl_head (h slp) in
     if sl_lock (h p) then None else Some (h(p := (h p)\<lparr>sl_lock := True\<rparr>)))"

definition skiplist_unlock :: "sptr \<Rightarrow> 'k sl_heap \<Rightarrow> 'k sl_heap" where
  "skiplist_unlock slp h = (let p = sl_head (h slp) in h(p := (h p)\<lparr>sl_lock := False\<rparr>))"

definition skiplist_unlock_update :: "update \<Rightarrow> nat \<Rightarrow> 'k sl_heap \<Rightarrow> 'k sl_heap" where
  "skiplist_unlock_update upd toplevel h =
     (case find (\<lambda>level. upd level \<noteq> None) [0..<Suc toplevel] of
        None \<Rightarrow> h | Some level \<Rightarrow> skiplist_unlock (the (upd level)) h)"

definition skiplist_lookup_help :: "sptr \<Rightarrow> 'k \<Rightarrow> 'k sl_heap \<Rightarrow> sptr option" where
  "skiplist_lookup_help head_slp key h =
     sl_descend (\<lambda>n. sl_cmp (h head_slp) n key < 0) (Suc (sl_toplevel (h head_slp))) h head_slp"

text \<open>The loop of \<open>skiplist_lookup_relaxed\<close>. It begins with the predecessor, which may be the header.\<close>

partial_function (option) relaxed_walk :: "(sptr \<Rightarrow> bool) \<Rightarrow> 'k sl_heap \<Rightarrow> sptr option \<Rightarrow> sptr option option" where
  "relaxed_walk c h slp = (case slp of None \<Rightarrow> Some None
     | Some p \<Rightarrow> if c p then relaxed_walk c h (sl_next (h p) 0) else Some slp)"

definition skiplist_lookup_relaxed :: "sptr \<Rightarrow> 'k \<Rightarrow> 'k sl_heap \<Rightarrow> sptr option option" where
  "skiplist_lookup_relaxed head_slp key h = do {
     slp \<leftarrow> skiplist_lookup_help head_slp key h;
     slp \<leftarrow> relaxed_walk (\<lambda>p. sl_cmp (h head_slp) p key < 0) h (Some slp);
     Some (case slp of None \<Rightarrow> None
       | Some p \<Rightarrow> if p \<noteq> head_slp \<and> \<not> sl_deleted (h p) \<and> sl_cmp (h head_slp) p key = 0 then Some p else None)
   }"

text \<open>The result is \<open>(slp, *slpp_prev, *result)\<close> and the store.\<close>

definition skiplist_lookup_lock_prev ::
  "sptr \<Rightarrow> 'k \<Rightarrow> 'k sl_heap \<Rightarrow> (sptr option \<times> sptr \<times> int \<times> 'k sl_heap) option" where
  "skiplist_lookup_lock_prev head_slp key h = do {
     h \<leftarrow> skiplist_lock head_slp h;
     slp_prev \<leftarrow> skiplist_lookup_help head_slp key h;
     case sl_next (h slp_prev) 0 of
       Some slp \<Rightarrow> if \<not> sl_deleted (h slp) \<and> sl_cmp (h head_slp) slp key = 0
         then Some (Some slp, slp_prev, 0, h) else Some (None, slp_prev, 1, skiplist_unlock head_slp h)
     | None \<Rightarrow> Some (None, slp_prev, 1, skiplist_unlock head_slp h)
   }"

definition skiplist_lookup_lock :: "sptr \<Rightarrow> 'k \<Rightarrow> 'k sl_heap \<Rightarrow> (sptr option \<times> 'k sl_heap) option" where
  "skiplist_lookup_lock head_slp key h = do {
     (slp_cur, slp_prev, result, h) \<leftarrow> skiplist_lookup_lock_prev head_slp key h;
     Some (if slp_cur = None \<or> result \<noteq> 0
       then (None, if slp_cur \<noteq> None then skiplist_unlock head_slp h else h) else (slp_cur, h))
   }"

section \<open>Iterators\<close>

definition skiplist_ptriter_first :: "sptr \<Rightarrow> 'k sl_heap \<Rightarrow> skiplist_iter" where
  "skiplist_ptriter_first head_slp h =
     \<lparr>iter_seq = skiplist_start_reader head_slp h, hintp = sl_next (h head_slp) 0\<rparr>"

definition skiplist_ptriter_last :: "sptr \<Rightarrow> 'k sl_heap \<Rightarrow> skiplist_iter option" where
  "skiplist_ptriter_last head_slp h = do {
     p \<leftarrow> skiplist_valiter_last head_slp h;
     Some \<lparr>iter_seq = skiplist_start_reader head_slp h, hintp = p\<rparr> }"

definition regen_iter :: "sptr \<Rightarrow> 'k \<Rightarrow> 'k sl_heap \<Rightarrow> skiplist_iter option" where
  "regen_iter head_slp key h = do {
     p \<leftarrow> skiplist_valiter_next head_slp key h;
     Some \<lparr>iter_seq = skiplist_start_reader head_slp h, hintp = p\<rparr> }"

text \<open>The iterators return their new \<open>hintp\<close>.\<close>

definition skiplist_ptriter_next :: "sptr \<Rightarrow> 'k \<Rightarrow> skiplist_iter \<Rightarrow> 'k sl_heap \<Rightarrow> skiplist_iter option" where
  "skiplist_ptriter_next head_slp key slip h =
     (if skiplist_retry_reader head_slp (iter_seq slip) h then regen_iter head_slp key h
      else case hintp slip of None \<Rightarrow> Some slip
      | Some slp \<Rightarrow>
          if sl_deleted (h slp) then regen_iter head_slp key h
          else case sl_next (h slp) 0 of None \<Rightarrow> Some (slip\<lparr>hintp := None\<rparr>)
          | Some slp \<Rightarrow>
              if sl_deleted (h slp) then regen_iter head_slp key h
              else if \<not> skiplist_retry_reader head_slp (iter_seq slip) h then Some (slip\<lparr>hintp := Some slp\<rparr>)
              else regen_iter head_slp key h)"

definition skiplist_ptriter_prev :: "sptr \<Rightarrow> 'k \<Rightarrow> 'k sl_heap \<Rightarrow> skiplist_iter option" where
  "skiplist_ptriter_prev head_slp key h = do {
     p \<leftarrow> skiplist_valiter_prev head_slp key h;
     Some \<lparr>iter_seq = skiplist_start_reader head_slp h, hintp = p\<rparr> }"

section \<open>Deletion\<close>

text \<open>The walk along a level, with the variable \<open>result\<close>, which keeps the last comparison made.\<close>

partial_function (option) delete_walk ::
  "(sptr \<Rightarrow> int) \<Rightarrow> nat \<Rightarrow> 'k sl_heap \<Rightarrow> sptr \<Rightarrow> sptr option \<Rightarrow> int \<Rightarrow> (sptr \<times> int) option" where
  "delete_walk c level h slp slp_next result =
     (case slp_next of None \<Rightarrow> Some (slp, result)
      | Some n \<Rightarrow> if c n < 0 then delete_walk c level h n (sl_next (h n) level) (c n) else Some (slp, c n))"

fun delete_preds :: "(sptr \<Rightarrow> int) \<Rightarrow> nat \<Rightarrow> 'k sl_heap \<Rightarrow> sptr \<Rightarrow> int \<Rightarrow> update \<Rightarrow> (sptr \<times> update) option" where
  "delete_preds c 0 h slp result upd = Some (slp, upd)"
| "delete_preds c (Suc level) h slp result upd = do {
     (slp, result) \<leftarrow> delete_walk c level h slp (sl_next (h slp) level) result;
     delete_preds c level h slp result (upd(level := if result \<noteq> 0 then None else Some slp))
   }"

fun delete_unlink :: "update \<Rightarrow> sptr \<Rightarrow> nat list \<Rightarrow> 'k sl_heap \<Rightarrow> 'k sl_heap option" where
  "delete_unlink upd slp [] h = Some h"
| "delete_unlink upd slp (level # ls) h =
     (case upd level of
        Some p \<Rightarrow> delete_unlink upd slp ls (set_next p level (sl_next (h slp) level) h)
      | None \<Rightarrow> if level < sl_toplevel (h slp) \<and> upd (level + 1) \<noteq> None then None
          else delete_unlink upd slp ls h)"

definition skiplist_delete :: "bool \<Rightarrow> sptr \<Rightarrow> 'k \<Rightarrow> 'k sl_heap \<Rightarrow> (sptr option \<times> 'k sl_heap) option" where
  "skiplist_delete debug head_slp key h = do {
     h \<leftarrow> skiplist_lock head_slp h;
     h \<leftarrow> skiplist_start_writer head_slp h;
     (slp, upd) \<leftarrow> delete_preds (\<lambda>n. sl_cmp (h head_slp) n key) (Suc (sl_toplevel (h head_slp))) h head_slp 0
       (\<lambda>_. None);
     let slp = sl_next (h slp) 0;
     if slp = None \<or> sl_cmp (h head_slp) (the slp) key \<noteq> 0 then do {
       h \<leftarrow> skiplist_end_writer head_slp h;
       Some (None, skiplist_unlock head_slp h)
     } else do {
       let cur = the slp;
       h \<leftarrow> delete_unlink upd cur (rev [0..<Suc (sl_toplevel (h cur))]) h;
       (if sl_deleted (h cur) then None else Some ());
       let h = h(cur := (h cur)\<lparr>sl_deleted := True\<rparr>);
       (if debug then skiplist_fsck head_slp h else Some ());
       h \<leftarrow> skiplist_end_writer head_slp h;
       Some (slp, skiplist_unlock head_slp h)
     }
   }"

section \<open>Insertion and rebalancing\<close>

text \<open>The loop over the levels of both, which records the predecessors up to \<open>toplevel\<close>.\<close>

fun insert_preds :: "(sptr \<Rightarrow> bool) \<Rightarrow> nat \<Rightarrow> nat \<Rightarrow> 'k sl_heap \<Rightarrow> sptr \<Rightarrow> update \<Rightarrow> (sptr \<times> update) option" where
  "insert_preds c toplevel 0 h slp upd = Some (slp, upd)"
| "insert_preds c toplevel (Suc level) h slp upd = do {
     (slp, slp_next) \<leftarrow> sl_walk c level h slp (sl_next (h slp) level);
     insert_preds c toplevel level h slp (upd(level := if level > toplevel then None else Some slp))
   }"

definition skiplist_insert_lock :: int where
  "skiplist_insert_lock = -1"

definition skiplist_insert :: "bool \<Rightarrow> sptr \<Rightarrow> sptr \<Rightarrow> 'k \<Rightarrow> ulong \<Rightarrow> 'k sl_heap \<Rightarrow> (int \<times> 'k sl_heap) option" where
  "skiplist_insert debug new_slp head_slp key r h = do {
     let toplevel = random_level r;
     h \<leftarrow> skiplist_lock head_slp h;
     (slp, upd) \<leftarrow> insert_preds (\<lambda>n. sl_cmp (h head_slp) n key < 0) toplevel (Suc (sl_toplevel (h head_slp))) h
       head_slp (\<lambda>_. None);
     let slp = sl_next (h slp) 0;
     if slp \<noteq> None \<and> sl_cmp (h head_slp) (the slp) key = 0
     then Some (- EEXIST, skiplist_unlock head_slp h)
     else do {
       let h = h(new_slp := (h new_slp)\<lparr>sl_toplevel := toplevel, sl_lock := False,
         sl_deleted := False, sl_head := head_slp\<rparr>);
       let h = fold (\<lambda>level. set_next new_slp level None) [Suc toplevel..<SL_MAX_LEVELS] h;
       h \<leftarrow> insert_levels [0..<Suc toplevel] new_slp upd h;
       (if debug then skiplist_fsck head_slp h else Some ());
       Some (0, skiplist_unlock head_slp h)
     }
   }"

definition skiplist_balance_node_lock ::
  "sptr \<Rightarrow> 'k \<Rightarrow> 'k sl_heap \<Rightarrow> (sptr option \<times> update \<times> 'k sl_heap) option" where
  "skiplist_balance_node_lock head_slp key h = do {
     h \<leftarrow> skiplist_lock head_slp h;
     let toplevel = sl_toplevel (h head_slp);
     (slp, upd) \<leftarrow> insert_preds (\<lambda>n. sl_cmp (h head_slp) n key < 0) toplevel (Suc toplevel) h head_slp (\<lambda>_. None);
     let slp = sl_next (h slp) 0;
     if slp \<noteq> None \<and> sl_cmp (h head_slp) (the slp) key = 0 then Some (slp, upd, h)
     else Some (None, upd, skiplist_unlock head_slp h)
   }"

definition skiplist_balance_node :: "sptr \<Rightarrow> 'k \<Rightarrow> nat \<Rightarrow> 'k sl_heap \<Rightarrow> (int \<times> 'k sl_heap) option" where
  "skiplist_balance_node head_slp key newlevel h = do {
     (slp, upd, h) \<leftarrow> skiplist_balance_node_lock head_slp key h;
     case slp of None \<Rightarrow> Some (- ENOENT, h)
     | Some slp \<Rightarrow>
         if sl_toplevel (h slp) = newlevel then Some (0, skiplist_unlock head_slp h)
         else do {
           h \<leftarrow> (if sl_toplevel (h slp) > newlevel then balance_down upd slp newlevel h
             else Some (fold (balance_up_level upd slp) [Suc (sl_toplevel (h slp))..<Suc newlevel] h));
           let h = h(slp := (h slp)\<lparr>sl_toplevel := newlevel\<rparr>);
           Some (0, skiplist_unlock head_slp h)
         }
   }"

end
