(* ===== verification/Skiplist_Glock_Ops.thy ===== *)
theory Skiplist_Glock_Ops
  imports Skiplist_Glock
begin

text \<open>
  The operations of skiplist_glock.c on a well-formed list. While an update runs, the store is the
  one at its call with the lock of the header taken and the sequence number advanced.
\<close>

definition busy :: "sptr \<Rightarrow> ulong \<Rightarrow> 'k sl_heap \<Rightarrow> 'k sl_heap" where
  "busy head x h = h(head := (h head)\<lparr>sl_lock := True, sl_seq := x\<rparr>)"

definition reseq :: "sptr \<Rightarrow> ulong \<Rightarrow> 'k sl_heap \<Rightarrow> 'k sl_heap" where
  "reseq head x h = h(head := (h head)\<lparr>sl_seq := x\<rparr>)"

lemma busy_sel [simp]:
  "sl_toplevel (busy head x h p) = sl_toplevel (h p)" "sl_deleted (busy head x h p) = sl_deleted (h p)"
  "sl_head (busy head x h p) = sl_head (h p)" "sl_cmp (busy head x h p) = sl_cmp (h p)"
  "sl_next (busy head x h p) = sl_next (h p)" "p \<noteq> head \<Longrightarrow> busy head x h p = h p"
  "sl_seq (busy head x h head) = x"
  by (simp_all add: busy_def)

lemma reseq_sel [simp]:
  "sl_toplevel (reseq head x h p) = sl_toplevel (h p)" "sl_deleted (reseq head x h p) = sl_deleted (h p)"
  "sl_head (reseq head x h p) = sl_head (h p)" "sl_cmp (reseq head x h p) = sl_cmp (h p)"
  "sl_next (reseq head x h p) = sl_next (h p)" "sl_lock (reseq head x h p) = sl_lock (h p)"
  "p \<noteq> head \<Longrightarrow> reseq head x h p = h p" "sl_seq (reseq head x h head) = x"
  by (simp_all add: reseq_def)

lemma busy_links [simp]:
  "tall (busy head x h) = tall h" "linked (busy head x h) = linked h" "pred_at (busy head x h) = pred_at h"
  by (simp_all add: tall_def linked_def pred_at_def fun_eq_iff cong: filter_cong)

lemma reseq_links [simp]: "tall (reseq head x h) = tall h" "linked (reseq head x h) = linked h"
  by (simp_all add: tall_def linked_def fun_eq_iff cong: filter_cong)

lemma set_next_busy: "set_next p l v (busy head x h) = busy head x (set_next p l v h)"
  by (auto simp: set_next_def busy_def fun_eq_iff)

lemma upd_busy:
  "p \<noteq> head \<Longrightarrow> (busy head x h)(p := (busy head x h p)\<lparr>sl_deleted := d\<rparr>) = busy head x (h(p := (h p)\<lparr>sl_deleted := d\<rparr>))"
  "p \<noteq> head \<Longrightarrow> (busy head x h)(p := (busy head x h p)\<lparr>sl_toplevel := n\<rparr>) = busy head x (h(p := (h p)\<lparr>sl_toplevel := n\<rparr>))"
  "p \<noteq> head \<Longrightarrow> (busy head x h)(p := (busy head x h p)\<lparr>sl_toplevel := n, sl_lock := lk, sl_deleted := d, sl_head := hp\<rparr>) =
     busy head x (h(p := (h p)\<lparr>sl_toplevel := n, sl_lock := lk, sl_deleted := d, sl_head := hp\<rparr>))"
  by (auto simp: busy_def fun_eq_iff)

lemma lock_busy:
  "sl_head (h head) = head \<Longrightarrow> \<not> sl_lock (h head) \<Longrightarrow> skiplist_lock head h = Some (busy head (sl_seq (h head)) h)"
  by (simp add: skiplist_lock_def busy_def Let_def)

lemma unlock_busy:
  "sl_head (h head) = head \<Longrightarrow> \<not> sl_lock (h head) \<Longrightarrow> skiplist_unlock head (busy head x h) = reseq head x h"
  by (cases "h head") (simp add: skiplist_unlock_def busy_def reseq_def Let_def)

lemma reseq_same: "reseq head (sl_seq (h head)) h = h"
  by (simp add: reseq_def)

lemma even_and: "(x :: ulong) AND 1 = 0 \<longleftrightarrow> even x"
  by (simp add: and_one_eq even_iff_mod_2_eq_zero)

lemma odd_Suc:
  assumes "(x :: ulong) AND 1 = 0"
  shows "(x + 1) AND 1 \<noteq> 0" and "(2 + x) AND 1 = 0"
proof -
  from assms have e: "even x" by (rule iffD1 [OF even_and])
  from e have "odd (x + 1)" by simp
  then show "(x + 1) AND 1 \<noteq> 0" using even_and [of "x + 1"] by blast
  from e have "even (2 + x)" by simp
  then show "(2 + x) AND 1 = 0" using even_and [of "2 + x"] by blast
qed

lemma start_writer_busy:
  "sl_seq (h head) AND 1 = 0 \<Longrightarrow>
   skiplist_start_writer head (busy head (sl_seq (h head)) h) = Some (busy head (sl_seq (h head) + 1) h)"
  by (simp add: skiplist_start_writer_def busy_def odd_Suc Let_def)

lemma end_writer_busy: "x AND 1 = 0 \<Longrightarrow> skiplist_end_writer head (busy head (x + 1) h) = Some (busy head (x + 1 + 1) h)"
  by (simp add: skiplist_end_writer_def busy_def odd_Suc(2) Let_def)

section \<open>The consistency check reads only the links\<close>

definition same_links :: "'k sl_heap \<Rightarrow> 'k sl_heap \<Rightarrow> bool" where
  "same_links h h' \<longleftrightarrow> (\<forall>p. sl_next (h' p) = sl_next (h p) \<and> sl_toplevel (h' p) = sl_toplevel (h p) \<and>
     sl_head (h' p) = sl_head (h p))"

lemma same_linksD:
  assumes "same_links h h'"
  shows "sl_next (h' p) = sl_next (h p)" and "sl_toplevel (h' p) = sl_toplevel (h p)"
    and "sl_head (h' p) = sl_head (h p)"
  using assms by (simp_all add: same_links_def)

lemma fsck_walk_links:
  assumes l: "same_links h h'" and w: "fsck_walk target h slp = Some u"
  shows "fsck_walk target h' slp = Some u"
proof -
  have "g = h \<longrightarrow> fsck_walk target h' slp = Some u" if "fsck_walk target g slp = Some u" for g
  proof (rule fsck_walk.raw_induct [OF _ that])
    fix fw target g slp u
    assume ih: "\<And>t g s u. fw t g s = Some u \<Longrightarrow> g = h \<longrightarrow> fsck_walk t h' s = Some u"
      and e: "(if slp = target then Some () else case slp of None \<Rightarrow> None
        | Some p \<Rightarrow> fw target g (sl_next (g p) 0)) = Some u"
    from e show "g = h \<longrightarrow> fsck_walk target h' slp = Some u"
      by (subst fsck_walk.simps) (use ih in \<open>auto simp: same_linksD [OF l] split: option.splits if_splits\<close>)
  qed
  with w show ?thesis by blast
qed

lemma fsck_levels_links:
  assumes l: "same_links h h'"
  shows "fsck_levels is p slp h = Some u \<Longrightarrow> fsck_levels is p slp h' = Some u"
  by (induction "is" arbitrary: slp)
    (auto simp: same_linksD [OF l] Let_def fsck_walk_links [OF l] bind_eq_Some_conv split: option.splits if_splits)

lemma fsck_one_links:
  assumes l: "same_links h h'" and o: "skiplist_fsck_one p h = Some u"
  shows "skiplist_fsck_one p h' = Some u"
  using o fsck_levels_links [OF l, of _ p]
  by (auto simp: skiplist_fsck_one_def same_linksD [OF l] Let_def bind_eq_Some_conv simp del: upt_Suc split: if_splits)

lemma fsck_from_links:
  assumes l: "same_links h h'" and w: "fsck_from head h slp = Some u"
  shows "fsck_from head h' slp = Some u"
proof -
  have "g = h \<longrightarrow> fsck_from head h' slp = Some u" if "fsck_from head g slp = Some u" for g
  proof (rule fsck_from.raw_induct [OF _ that])
    fix ff head g slp u
    assume ih: "\<And>t g s u. ff t g s = Some u \<Longrightarrow> g = h \<longrightarrow> fsck_from t h' s = Some u"
      and e: "(case slp of None \<Rightarrow> Some ()
        | Some p \<Rightarrow> do { skiplist_fsck_one p g;
            if sl_head (g p) \<noteq> head then None else ff head g (sl_next (g p) 0) }) = Some u"
    from e show "g = h \<longrightarrow> fsck_from head h' slp = Some u"
      by (subst fsck_from.simps)
        (use ih in \<open>auto simp: same_linksD [OF l] bind_eq_Some_conv fsck_one_links [OF l] split: option.splits if_splits\<close>)
  qed
  with w show ?thesis by blast
qed

lemma same_links_busy: "same_links h (busy head x h)"
  by (simp add: same_links_def)

section \<open>The walks\<close>

lemma delete_walk_chain:
  "chain (\<lambda>p. sl_next (h p) level) p qs \<Longrightarrow>
   \<exists>r. delete_walk c level h p (sl_next (h p) level) result = Some (last (p # takeWhile (\<lambda>n. c n < 0) qs), r) \<and>
     (\<forall>n. hd_opt (dropWhile (\<lambda>n. c n < 0) qs) = Some n \<longrightarrow> r = c n)"
proof (induction qs arbitrary: p result)
  case Nil
  then show ?case by (simp add: delete_walk.simps)
next
  case (Cons q qs)
  then have n: "sl_next (h p) level = Some q" "chain (\<lambda>p. sl_next (h p) level) q qs" by auto
  show ?case
  proof (cases "c q < 0")
    case True
    with Cons.IH [OF n(2), of "c q"] n(1) show ?thesis by (subst delete_walk.simps) auto
  next
    case False
    with n(1) show ?thesis by (subst delete_walk.simps) auto
  qed
qed

lemma relaxed_walk_chain:
  "chain (\<lambda>p. sl_next (h p) 0) p qs \<Longrightarrow>
   relaxed_walk c h (sl_next (h p) 0) = Some (hd_opt (dropWhile c qs))"
proof (induction qs arbitrary: p)
  case Nil
  then show ?case by (simp add: relaxed_walk.simps)
next
  case (Cons q qs)
  then have n: "sl_next (h p) 0 = Some q" "chain (\<lambda>p. sl_next (h p) 0) q qs" by auto
  from Cons.IH [OF n(2)] n(1) show ?case by (subst relaxed_walk.simps) auto
qed

text \<open>Which links the loops leave unchanged, whatever the lock and the sequence number are.\<close>

context sl_client
begin

lemma pick_ok:
  assumes w: "wf head h L" and l: "l < 8" and p: "p \<in> set (head # filter (tall h l) (below k L))"
  shows "\<exists>r. delete_walk (\<lambda>n. cmp n k) l (busy head x h) p (sl_next (h p) l) result =
      Some (pred_at h head (below k L) l, r) \<and>
    (\<forall>n. hd_opt (filter (tall h l) (above k L)) = Some n \<longrightarrow> r = cmp n k)"
proof -
  obtain ys where c: "chain (\<lambda>p. sl_next (h p) l) p (ys @ filter (tall h l) (above k L))"
    and s: "set ys \<subseteq> set (below k L)" and e: "last (p # ys) = pred_at h head (below k L) l"
    using chain_from [OF wf_split(1) [OF w l] p] by blast
  have "takeWhile (\<lambda>n. cmp n k < 0) (ys @ filter (tall h l) (above k L)) = ys"
    "dropWhile (\<lambda>n. cmp n k < 0) (ys @ filter (tall h l) (above k L)) = filter (tall h l) (above k L)"
    by (rule takeWhile_split; use wf_split(2,3) [OF w] s in auto)+
  with delete_walk_chain [of "busy head x h" l p "ys @ filter (tall h l) (above k L)" "\<lambda>n. cmp n k" result] c e
  show ?thesis by simp
qed

lemma delete_preds_ok:
  assumes w: "wf head h L"
  shows "n \<le> 8 \<Longrightarrow> p \<in> set (head # filter (tall h (n - 1)) (below k L)) \<Longrightarrow> 
    (n = 0 \<Longrightarrow> p = pred_at h head (below k L) 0) \<Longrightarrow>
    (\<And>b bs l. above k L = b # bs \<Longrightarrow> keyof b = k \<Longrightarrow> n \<le> l \<Longrightarrow> l \<le> sl_toplevel (h b) \<Longrightarrow>
       upd l = Some (pred_at h head (below k L) l)) \<Longrightarrow>
    \<exists>upd'. delete_preds (\<lambda>n. cmp n k) n (busy head x h) p result upd = Some (pred_at h head (below k L) 0, upd') \<and>
      (\<forall>b bs l. above k L = b # bs \<longrightarrow> keyof b = k \<longrightarrow> l \<le> sl_toplevel (h b) \<longrightarrow>
         upd' l = Some (pred_at h head (below k L) l))"
proof (induction n arbitrary: p result upd)
  case (Suc n)
  let ?q = "pred_at h head (below k L) n"
  obtain r where r: "delete_walk (\<lambda>n. cmp n k) n (busy head x h) p (sl_next (h p) n) result = Some (?q, r)"
    "\<And>m. hd_opt (filter (tall h n) (above k L)) = Some m \<Longrightarrow> r = cmp m k"
    using pick_ok [OF w, of n p k x result] Suc.prems(1,2) by auto
  let ?upd = "upd(n := if r \<noteq> 0 then None else Some ?q)"
  have "\<exists>upd'. delete_preds (\<lambda>n. cmp n k) n (busy head x h) ?q r ?upd = Some (pred_at h head (below k L) 0, upd') \<and>
      (\<forall>b bs l. above k L = b # bs \<longrightarrow> keyof b = k \<longrightarrow> l \<le> sl_toplevel (h b) \<longrightarrow>
         upd' l = Some (pred_at h head (below k L) l))"
  proof (rule Suc.IH)
    fix b bs l assume b: "above k L = b # bs" "keyof b = k" and l: "n \<le> l" "l \<le> sl_toplevel (h b)"
    show "?upd l = Some (pred_at h head (below k L) l)"
    proof (cases "l = n")
      case True
      with l have "hd_opt (filter (tall h n) (above k L)) = Some b" by (simp add: b tall_def)
      from r(2) [OF this] b(2) have "r = 0" by (simp add: cmp_eq)
      with True show ?thesis by simp
    next
      case False
      with Suc.prems(4) [OF b, of l] l show ?thesis by simp
    qed
  qed (use Suc.prems pred_at_start [of "n - 1" n h head "below k L"] in auto)
  with r(1) show ?case by simp
qed auto

lemma insert_preds_ok:
  assumes w: "wf head h L"
  shows "n \<le> 8 \<Longrightarrow> p \<in> set (head # filter (tall h (n - 1)) (below k L)) \<Longrightarrow>
    (n = 0 \<Longrightarrow> p = pred_at h head (below k L) 0) \<Longrightarrow>
    insert_preds (\<lambda>n. cmp n k < 0) t n (busy head x h) p (upd_at h head (below k L) t n) =
      Some (pred_at h head (below k L) 0, upd_at h head (below k L) t 0)"
proof (induction n arbitrary: p)
  case (Suc n)
  let ?q = "pred_at h head (below k L) n" and ?u = "upd_at h head (below k L) t"
  have "sl_walk (\<lambda>n. cmp n k < 0) n (busy head x h) p (sl_next (busy head x h p) n) =
      Some (pred_at (busy head x h) head (below k L) n, hd_opt (filter (tall (busy head x h) n) (above k L)))"
    by (rule walk_split) (use wf_split [OF w] Suc.prems in auto)
  moreover have "(?u (Suc n))(n := if n > t then None else Some ?q) = ?u n"
    by (simp add: upd_at_step)
  moreover have "insert_preds (\<lambda>n. cmp n k < 0) t n (busy head x h) ?q (?u n) = Some (pred_at h head (below k L) 0, ?u 0)"
    by (rule Suc.IH) (use Suc.prems pred_at_start [of "n - 1" n h head "below k L"] in auto)
  ultimately show ?case by simp
qed simp

end

end
