(* ===== verification/Skiplist_Glock_Run.thy ===== *)
theory Skiplist_Glock_Run
  imports Skiplist_Glock_Ops
begin

text \<open>
  What each operation of skiplist_glock.c does to the ordered list of the elements, and runs of
  calls that refine the specification of the theory \<open>Skiplist_Refine\<close>.
\<close>

declare delete_preds.simps(2) [simp del] insert_preds.simps(2) [simp del]

lemma unlink_busy:
  assumes "b \<notin> set (head # A)" and "\<And>l. l \<in> set ls \<Longrightarrow> upd l = Some (pred_at h head A l)"
    and "distinct ls" and "set ls \<inter> M = {}"
  shows "delete_unlink upd b ls (busy head x (unlinked h head A b M)) =
    Some (busy head x (unlinked h head A b (set ls \<union> M)))"
  using assms(2-)
proof (induction ls arbitrary: M)
  case (Cons l ls)
  have nb: "b \<noteq> pred_at h head A i" for i using pred_at_in [of h head A i] assms(1) by auto
  have u: "set_next (pred_at h head A l) l (sl_next (unlinked h head A b M b) l) (unlinked h head A b M) =
      unlinked h head A b (insert l M)"
    using nb by (auto simp: set_next_def unlinked_def fun_eq_iff intro!: skiplist.equality)
  have "delete_unlink upd b ls (busy head x (unlinked h head A b (insert l M))) =
      Some (busy head x (unlinked h head A b (set ls \<union> insert l M)))"
    by (rule Cons.IH) (use Cons.prems in auto)
  then show ?case using Cons.prems(1) [of l] u by (simp add: set_next_busy del: unlinked_sel(6))
qed simp

lemma insert_levels_busy:
  assumes "b \<notin> set (head # A)" and "\<And>l. l \<in> set ls \<Longrightarrow> upd l = Some (pred_at h head A l)"
    and "\<And>l. l \<in> set ls \<Longrightarrow> l \<le> sl_toplevel (h (pred_at h head A l))"
    and "distinct ls" and "set ls \<inter> M = {}"
  shows "insert_levels ls b upd (busy head x (inserted h head A b M)) =
    Some (busy head x (inserted h head A b (set ls \<union> M)))"
  using assms(2-)
proof (induction ls arbitrary: M)
  case (Cons l ls)
  have "insert_levels ls b upd (busy head x (inserted h head A b (insert l M))) =
      Some (busy head x (inserted h head A b (set ls \<union> insert l M)))"
    by (rule Cons.IH) (use Cons.prems in auto)
  moreover have "l \<notin> M" using Cons.prems(4) by simp
  ultimately show ?case
    using Cons.prems(1,2) [of l] inserted_insert [OF assms(1), of l M h]
    by (simp add: set_next_busy Let_def not_less del: inserted_sel(6))
qed simp

lemma balance_levels_busy:
  assumes "b \<notin> set (head # A)" and "\<And>l. l \<in> set ls \<Longrightarrow> upd l = Some (pred_at h head A l)"
    and "distinct ls" and "set ls \<inter> M = {}"
  shows "fold (balance_up_level upd b) ls (busy head x (inserted h head A b M)) =
    busy head x (inserted h head A b (set ls \<union> M))"
  using assms(2-)
proof (induction ls arbitrary: M)
  case (Cons l ls)
  have "fold (balance_up_level upd b) ls (busy head x (inserted h head A b (insert l M))) =
      busy head x (inserted h head A b (set ls \<union> insert l M))"
    by (rule Cons.IH) (use Cons.prems in auto)
  moreover have "l \<notin> M" using Cons.prems(3) by simp
  then have "balance_up_level upd b l (busy head x (inserted h head A b M)) =
      busy head x (inserted h head A b (insert l M))"
    using Cons.prems(1) [of l] inserted_insert [OF assms(1), of l M h]
    by (simp add: balance_up_level_def set_next_busy Let_def del: inserted_sel(6))
  ultimately show ?case by simp
qed simp

lemma clear_busy:
  "fold (\<lambda>l. set_next b l None) ls (busy head x h) = busy head x (fold (\<lambda>l. set_next b l None) ls h)"
  by (induction ls arbitrary: h) (simp_all add: set_next_busy)

context sl_client
begin

lemma wf_reseq: "wf head (reseq head x h) L = wf head h L"
  by (simp add: sl_wf_def sl_node_ok_def)

lemma head_ok:
  assumes "wf head h L"
  shows "sl_head (h head) = head" and "\<not> sl_lock (h head)"
  using wf_node(2,4) [OF assms, of head] by simp_all

lemma glock_lock: "wf head h L \<Longrightarrow> skiplist_lock head h = Some (busy head (sl_seq (h head)) h)"
  using head_ok by (intro lock_busy) blast+

lemma glock_unlock: "wf head h L \<Longrightarrow> skiplist_unlock head (busy head x h) = reseq head x h"
  using head_ok by (intro unlock_busy) blast+

lemma fsck_busy: "wf head h L \<Longrightarrow> skiplist_fsck head (busy head x h) = Some ()"
  using fsck_from_links [OF same_links_busy, of head h "Some head" "()"] fsck_ok [of head h L]
  by (simp add: skiplist_fsck_def)

lemma help_busy:
  assumes w: "wf head h L"
  shows "Skiplist_Glock.skiplist_lookup_help head k (busy head x h) = Some (pred_at h head (below k L) 0)"
    and "Skiplist_Glock.skiplist_lookup_help head k h = Some (pred_at h head (below k L) 0)"
proof -
  have "sl_descend (\<lambda>n. cmp n k < 0) 8 (busy head x h) head =
      Some (pred_at (busy head x h) head (below k L) 0)"
    by (rule descend_split [where B = "above k L"]) (use wf_split [OF w] in auto)
  then show "Skiplist_Glock.skiplist_lookup_help head k (busy head x h) = Some (pred_at h head (below k L) 0)"
    by (simp add: Skiplist_Glock.skiplist_lookup_help_def sl_wfD(1,2) [OF w])
  show "Skiplist_Glock.skiplist_lookup_help head k h = Some (pred_at h head (below k L) 0)"
    using lookup_help_ok [OF w, of k "{}"]
    by (simp add: Skiplist_Glock.skiplist_lookup_help_def Skiplist.skiplist_lookup_help_def)
qed

section \<open>Lookups and iterators\<close>

lemma glock_lookup_lock_ok:
  assumes w: "wf head h L"
  shows "Skiplist_Glock.skiplist_lookup_lock head k h = Some (find (\<lambda>p. keyof p = k) L,
    if find (\<lambda>p. keyof p = k) L = None then h else busy head (sl_seq (h head)) h)"
proof -
  have d: "\<not> sl_deleted (h p)" if "above k L = p # ps" for p ps
    using that wf_split(6) [OF w, of k] wf_node(3) [OF w, of p] by auto
  have n: "sl_next (h (pred_at h head (below k L) 0)) 0 = hd_opt (above k L)"
    using next_of_pred [OF w, of 0 k] by simp
  show ?thesis
    by (cases "above k L") (auto simp: Skiplist_Glock.skiplist_lookup_lock_def
      Skiplist_Glock.skiplist_lookup_lock_prev_def glock_lock [OF w] glock_unlock [OF w] help_busy [OF w] n d
      above_found [OF w] reseq_same sl_wfD(2) [OF w] cmp_eq)
qed

text \<open>The lookup compares the header itself, so the header must have a smaller key.\<close>

lemma glock_lookup_relaxed_ok:
  assumes w: "wf head h L" and hd: "keyof head < k"
  shows "Skiplist_Glock.skiplist_lookup_relaxed head k h = Some (find (\<lambda>p. keyof p = k) L)"
proof -
  let ?p = "pred_at h head (below k L) 0"
  have lt: "cmp ?p k < 0"
    using pred_at_in [of h head "below k L" 0] hd wf_split(2) [OF w, of _ k] by (auto simp: cmp_less)
  have l0: "linked h head (below k L @ above k L) 0" by (rule wf_split(1) [OF w]) simp
  obtain ys where c: "chain (\<lambda>p. sl_next (h p) 0) ?p (ys @ filter (tall h 0) (above k L))"
    and s: "set ys \<subseteq> set (below k L)" and e: "last (?p # ys) = ?p"
    using chain_from [OF l0 pred_at_start [of 0 0 h head "below k L"]] by auto
  have "relaxed_walk (\<lambda>p. cmp p k < 0) h (sl_next (h ?p) 0) = Some (hd_opt (above k L))"
  proof -
    have "dropWhile (\<lambda>p. cmp p k < 0) (ys @ above k L) = above k L"
      by (rule takeWhile_split(2)) (use wf_split(2,3) [OF w] s in auto)
    with relaxed_walk_chain [OF c, of "\<lambda>p. cmp p k < 0"] show ?thesis by simp
  qed
  then have "relaxed_walk (\<lambda>p. cmp p k < 0) h (Some ?p) = Some (hd_opt (above k L))"
    using lt by (subst relaxed_walk.simps) simp
  moreover have "p \<noteq> head \<and> \<not> sl_deleted (h p)" if "p \<in> set (above k L)" for p
    using that wf_split(6) [OF w, of k] sl_wfD(4) [OF w] wf_node(3) [OF w, of p] by auto
  ultimately show ?thesis
    by (auto simp: Skiplist_Glock.skiplist_lookup_relaxed_def help_busy(2) [OF w] sl_wfD(2) [OF w]
        above_found [OF w] cmp_eq split: list.split)
qed

lemma regen_ok:
  assumes "wf head h L"
  shows "regen_iter head k h = Some \<lparr>iter_seq = skiplist_start_reader head h, hintp = find (\<lambda>p. k < keyof p) L\<rparr>"
  by (simp add: regen_iter_def valiter_next_ok [OF assms])

text \<open>The hint is an element of the list, or one that is marked as deleted.\<close>

lemma glock_next_ok:
  assumes w: "wf head h L" and hp: "hintp slip = Some p" and k: "keyof p = k"
    and p: "p \<in> set L \<or> sl_deleted (h p)"
  shows "\<exists>s. Skiplist_Glock.skiplist_ptriter_next head k slip h = Some \<lparr>iter_seq = s, hintp = find (\<lambda>p. k < keyof p) L\<rparr>"
proof (cases "sl_deleted (h p)")
  case True
  then show ?thesis by (simp add: skiplist_ptriter_next_def hp regen_ok [OF w])
next
  case False
  with p obtain xs ys where L: "L = xs @ p # ys" using split_list by fast
  have n: "sl_next (h p) 0 = hd_opt ys"
    using chain_next [OF wf_chain_from [OF w, of "head # xs" p ys 0]] L by simp
  have f: "find (\<lambda>p. k < keyof p) L = hd_opt ys"
  proof -
    have x: "\<And>q. q \<in> set xs \<Longrightarrow> \<not> k < keyof q" and y: "\<And>q. q \<in> set ys \<Longrightarrow> k < keyof q"
      using sl_wfD(5) [OF w] k by (auto simp: L sorted_wrt_append dest: less_imp_le)
    have "find (\<lambda>p. k < keyof p) L = find (\<lambda>p. k < keyof p) (p # ys)"
      unfolding L by (rule find_append_none) (rule x)
    with y k show ?thesis by (cases ys) auto
  qed
  have d: "\<not> sl_deleted (h q)" if "hd_opt ys = Some q" for q
    using wf_node(3) [OF w, of q] hd_opt_Some [OF that] by (simp add: L)
  obtain sq where "slip = \<lparr>iter_seq = sq, hintp = Some p\<rparr>" using hp by (cases slip) simp
  with False n d show ?thesis
    by (cases ys) (simp_all add: skiplist_ptriter_next_def regen_ok [OF w] f)
qed

section \<open>Updates\<close>

lemma glock_delete_ok:
  assumes w: "wf head h L" and sq: "sl_seq (h head) AND 1 = 0"
  shows "\<exists>h'. Skiplist_Glock.skiplist_delete debug head k h = Some (find (\<lambda>p. keyof p = k) L, h') \<and>
    wf head h' (filter (\<lambda>p. keyof p \<noteq> k) L) \<and> sl_seq (h' head) AND 1 = 0 \<and>
    (\<forall>p. sl_toplevel (h' p) = sl_toplevel (h p)) \<and>
    (\<forall>p. sl_deleted (h' p) \<longleftrightarrow> sl_deleted (h p) \<or> find (\<lambda>p. keyof p = k) L = Some p)"
proof -
  let ?x = "sl_seq (h head) + 1"
  note s = keys_split [where keyof = keyof and L = L and k = k, OF sl_wfD(5) [OF w]]
  have fb: "filter (\<lambda>p. keyof p \<noteq> k) (below k L) = below k L" using s(2) by (auto simp: filter_id_conv)
  have "\<exists>upd. delete_preds (\<lambda>n. cmp n k) 8 (busy head ?x h) head 0 (\<lambda>_. None) =
        Some (pred_at h head (below k L) 0, upd) \<and>
      (\<forall>b bs l. above k L = b # bs \<longrightarrow> keyof b = k \<longrightarrow> l \<le> sl_toplevel (h b) \<longrightarrow>
         upd l = Some (pred_at h head (below k L) l))"
  proof (rule delete_preds_ok [OF w])
    fix b bs l assume b: "above k L = b # bs" and l: "8 \<le> l" "l \<le> sl_toplevel (h b)"
    have "sl_toplevel (h b) < 8" using b wf_split(6) [OF w, of k] by (intro wf_node(1) [OF w]) auto
    with l show "None = Some (pred_at h head (below k L) l)" by simp
  qed simp_all
  then obtain upd where u: "delete_preds (\<lambda>n. cmp n k) 8 (busy head ?x h) head 0 (\<lambda>_. None) =
      Some (pred_at h head (below k L) 0, upd)"
    "\<And>b bs l. above k L = b # bs \<Longrightarrow> keyof b = k \<Longrightarrow> l \<le> sl_toplevel (h b) \<Longrightarrow>
       upd l = Some (pred_at h head (below k L) l)"
    by blast
  have n: "sl_next (h (pred_at h head (below k L) 0)) 0 = hd_opt (above k L)"
    using next_of_pred [OF w, of 0 k] by simp
  note start = start_writer_busy [of h head, OF sq] and fin = end_writer_busy [OF sq]
  show ?thesis
  proof (cases "\<exists>b bs. above k L = b # bs \<and> keyof b = k")
    case True
    then obtain b bs where a: "above k L = b # bs" "keyof b = k" by blast
    let ?h = "unlinked h head (below k L) b {..sl_toplevel (h b)}"
    let ?h' = "?h(b := (?h b)\<lparr>sl_deleted := True\<rparr>)"
    note at = wf_at [OF w a(1)]
    have w': "wf head ?h' (below k L @ bs)" by (rule wf_delete [OF w a(1)])
    have bn: "b \<noteq> head" "b \<notin> set (head # below k L)" using at(3) by auto
    have nd: "\<not> sl_deleted (h b)" using wf_node(3) [OF w, of b] at(2) by simp
    have "delete_unlink upd b (rev [0..<Suc (sl_toplevel (h b))]) (busy head ?x (unlinked h head (below k L) b {})) =
        Some (busy head ?x (unlinked h head (below k L) b (set (rev [0..<Suc (sl_toplevel (h b))]) \<union> {})))"
      by (rule unlink_busy [OF bn(2)]) (use u(2) [OF a] in \<open>auto simp: less_Suc_eq_le simp del: upt_Suc\<close>)
    moreover have "set (rev [0..<Suc (sl_toplevel (h b))]) \<union> {} = {..sl_toplevel (h b)}" by (auto simp del: upt_Suc)
    ultimately have un: "delete_unlink upd b (rev [0..<Suc (sl_toplevel (h b))]) (busy head ?x h) = Some (busy head ?x ?h)"
      by (simp del: upt_Suc)
    have "filter (\<lambda>p. keyof p \<noteq> k) bs = bs" using s(4) a by (fastforce simp: filter_id_conv)
    moreover have "filter (\<lambda>p. keyof p \<noteq> k) L = filter (\<lambda>p. keyof p \<noteq> k) (below k L @ above k L)"
      by (subst s(1)) simp
    ultimately have L': "filter (\<lambda>p. keyof p \<noteq> k) L = below k L @ bs" using a fb by simp
    have fd: "find (\<lambda>p. keyof p = k) L = Some b" using a by (simp add: above_found [OF w])
    have e: "(busy head ?x ?h)(b := (?h b)\<lparr>sl_deleted := True\<rparr>) = busy head ?x ?h'"
      using upd_busy(1) [OF bn(1), of ?x ?h True] bn(1) by simp
    have "Skiplist_Glock.skiplist_delete debug head k h = Some (Some b, reseq head (?x + 1) ?h')"
      using a(2) n bn(1) nd
      by (simp add: Skiplist_Glock.skiplist_delete_def glock_lock [OF w] start sl_wfD(1,2) [OF w] u(1) a(1) cmp_eq
          un e fsck_busy [OF w'] fin glock_unlock [OF w'] Let_def
          del: fun_upd_apply upt_Suc) 
    with w' L' fd sq show ?thesis by (auto simp: wf_reseq odd_Suc)
  next
    case False
    have nk: "keyof b \<noteq> k" if "b \<in> set (above k L)" for b
      using that False s(4) [of b] by (cases "above k L") auto
    then have "filter (\<lambda>p. keyof p \<noteq> k) (above k L) = above k L" by (auto simp: filter_id_conv)
    then have "filter (\<lambda>p. keyof p \<noteq> k) (below k L @ above k L) = below k L @ above k L"
      using fb by simp
    then have L': "filter (\<lambda>p. keyof p \<noteq> k) L = L" using s(1) by metis
    have fd: "find (\<lambda>p. keyof p = k) L = None"
      using False by (auto simp: above_found [OF w] split: list.split)
    have "hd_opt (above k L) = None \<or> cmp (the (hd_opt (above k L))) k \<noteq> 0"
      using nk by (cases "above k L") (auto simp: cmp_eq)
    then have "Skiplist_Glock.skiplist_delete debug head k h = Some (None, reseq head (?x + 1) h)"
      by (simp add: Skiplist_Glock.skiplist_delete_def glock_lock [OF w] start sl_wfD(1,2) [OF w] u(1) n
          fin glock_unlock [OF w] Let_def)
    with w L' fd sq show ?thesis by (auto simp: wf_reseq odd_Suc)
  qed
qed

lemma insert_preds_at:
  assumes "wf head h L"
  shows "t < 8 \<Longrightarrow> insert_preds (\<lambda>n. cmp n k < 0) t 8 (busy head x h) head (\<lambda>_. None) =
    Some (pred_at h head (below k L) 0, upd_at h head (below k L) t 0)"
  using insert_preds_ok [OF assms, of 8 head k t x] by (simp add: upd_at_step)

lemma glock_insert_ok:
  assumes w: "wf head h L" and n: "new \<notin> set (head # L)" and k: "keyof new = k"
  shows "if \<exists>p \<in> set L. keyof p = k then Skiplist_Glock.skiplist_insert debug new head k r h = Some (- EEXIST, h)
    else \<exists>h'. Skiplist_Glock.skiplist_insert debug new head k r h = Some (0, h') \<and>
      wf head h' (below k L @ new # above k L) \<and> sl_seq (h' head) = sl_seq (h head) \<and>
      sl_toplevel (h' new) = random_level r \<and> (\<forall>p. p \<noteq> new \<longrightarrow> sl_toplevel (h' p) = sl_toplevel (h p)) \<and>
      (\<forall>p. p \<noteq> new \<longrightarrow> sl_deleted (h' p) = sl_deleted (h p))"
proof -
  define A where "A = below k L"
  define t where "t = random_level r"
  have t8: "t < 8" by (simp add: t_def random_level_def SL_MAX_LEVELS_def Let_def)
  have nx: "sl_next (h (pred_at h head A 0)) 0 = hd_opt (above k L)"
    using next_of_pred [OF w, of 0 k] by (simp add: A_def)
  have ex: "(\<exists>p \<in> set L. keyof p = k) \<longleftrightarrow> (\<exists>b bs. above k L = b # bs \<and> keyof b = k)"
  proof -
    have "(\<exists>p \<in> set L. keyof p = k) \<longleftrightarrow> find (\<lambda>p. keyof p = k) L \<noteq> None"
      by (auto simp: find_None_iff)
    also have "\<dots> \<longleftrightarrow> (\<exists>b bs. above k L = b # bs \<and> keyof b = k)"
      by (auto simp: above_found [OF w] split: list.split)
    finally show ?thesis .
  qed
  let ?x = "sl_seq (h head)"
  note ip = insert_preds_at [OF w t8, of k ?x, folded A_def]
  show ?thesis
  proof (cases "\<exists>p \<in> set L. keyof p = k")
    case True
    then show ?thesis
      using ex by (auto simp: Skiplist_Glock.skiplist_insert_def glock_lock [OF w] sl_wfD(1,2) [OF w] ip nx cmp_eq
          glock_unlock [OF w] reseq_same Let_def simp flip: t_def)
  next
    case False
    define h0 where "h0 = h(new := (h new)\<lparr>sl_toplevel := t, sl_lock := False, sl_deleted := False,
      sl_head := head\<rparr>)"
    define h1 where "h1 = fold (\<lambda>l. set_next new l None) [Suc t..<SL_MAX_LEVELS] h0"
    define h' where "h' = inserted h1 head A new {..t}"
    have nA: "new \<notin> set (head # A)" using n wf_split(5) [OF w, of k] by (auto simp: A_def)
    have nh: "new \<noteq> head" using n by simp
    have i0: "(busy head ?x h)(new := (busy head ?x h new)\<lparr>sl_toplevel := t, sl_lock := False,
        sl_deleted := False, sl_head := head\<rparr>) = busy head ?x h0"
      unfolding h0_def by (rule upd_busy(3) [OF nh])
    have off: "h1 p = h p" if "p \<noteq> new" for p using that by (simp add: h1_def clear_fold h0_def)
    have top: "sl_toplevel (h1 new) = t" by (simp add: h1_def clear_fold h0_def)
    have pr: "pred_at h1 head A l = pred_at h head A l" for l
    proof (rule pred_at_cong)
      fix p assume "p \<in> set A"
      with nA have "p \<noteq> new" by auto
      then show "tall h1 l p = tall h l p" by (simp add: tall_def off)
    qed
    have lv: "insert_levels [0..<Suc t] new (upd_at h head A t 0) (busy head ?x h1) = Some (busy head ?x h')"
    proof -
      have "insert_levels [0..<Suc t] new (upd_at h head A t 0) (busy head ?x (inserted h1 head A new {})) =
          Some (busy head ?x (inserted h1 head A new (set [0..<Suc t] \<union> {})))"
      proof (rule insert_levels_busy [OF nA])
        fix l assume l: "l \<in> set [0..<Suc t]"
        then show "upd_at h head A t 0 l = Some (pred_at h1 head A l)" by (auto simp: pr upd_at_def)
        have "pred_at h head A l \<noteq> new" using pred_at_in [of h head A l] nA by metis
        then show "l \<le> sl_toplevel (h1 (pred_at h1 head A l))"
          using l t8 pred_at_tall [of h head A l] sl_wfD(1) [OF w] by (auto simp: pr off tall_def)
      qed auto
      moreover have "set [0..<Suc t] \<union> {} = {..t}" by (auto simp del: upt_Suc)
      ultimately show ?thesis by (simp add: h'_def del: upt_Suc)
    qed
    have w': "wf head h' (A @ new # above k L)"
    proof -
      have ok: "sl_node_ok head h1 new"
        using t8 by (auto simp: sl_node_ok_def h1_def clear_fold h0_def SL_MAX_LEVELS_def)
      have nk: "keyof p \<noteq> keyof new" if "p \<in> set L" for p using False that k by auto
      from wf_insert [OF w n nk off ok] show ?thesis by (simp add: k top flip: A_def h'_def)
    qed
    have "above k L = [] \<or> (\<exists>b bs. above k L = b # bs \<and> cmp b k \<noteq> 0)"
      using False ex by (cases "above k L") (auto simp: cmp_eq)
    then have "Skiplist_Glock.skiplist_insert debug new head k r h = Some (0, reseq head ?x h')"
      by (elim disjE exE conjE) (simp_all add: Skiplist_Glock.skiplist_insert_def glock_lock [OF w] sl_wfD(1,2) [OF w] ip nx i0 clear_busy
          lv fsck_busy [OF w'] glock_unlock [OF w'] Let_def flip: t_def h1_def del: fun_upd_apply upt_Suc)
    moreover have "wf head (reseq head ?x h') (A @ new # above k L)" using w' by (simp add: wf_reseq)
    ultimately show ?thesis using False off by (auto simp: A_def t_def h'_def top [unfolded t_def])
  qed
qed

lemma glock_balance_lock_ok:
  assumes w: "wf head h L"
  shows "Skiplist_Glock.skiplist_balance_node_lock head k h =
    (case find (\<lambda>p. keyof p = k) L of None \<Rightarrow> Some (None, upd_at h head (below k L) 7 0, h)
     | Some b \<Rightarrow> Some (Some b, upd_at h head (below k L) 7 0, busy head (sl_seq (h head)) h))"
proof -
  have nx: "sl_next (h (pred_at h head (below k L) 0)) 0 = hd_opt (above k L)"
    using next_of_pred [OF w, of 0 k] by simp
  show ?thesis
    by (cases "above k L")
      (auto simp: Skiplist_Glock.skiplist_balance_node_lock_def glock_lock [OF w] sl_wfD(1,2) [OF w]
        insert_preds_at [OF w] nx above_found [OF w] cmp_eq glock_unlock [OF w] reseq_same Let_def)
qed

lemma glock_rebalance_ok:
  assumes w: "wf head h L" and n: "\<And>p. p \<in> set L \<Longrightarrow> keyof p = k \<Longrightarrow> sl_toplevel (h p) \<le> n" and n8: "n < 8"
  shows "\<exists>h'. Skiplist_Glock.skiplist_balance_node head k n h =
      Some (if \<exists>p \<in> set L. keyof p = k then 0 else - ENOENT, h') \<and> wf head h' L \<and>
    sl_seq (h' head) = sl_seq (h head) \<and> (\<forall>p. sl_deleted (h' p) = sl_deleted (h p)) \<and>
    (\<forall>p \<in> set L. sl_toplevel (h' p) = (if keyof p = k then n else sl_toplevel (h p)))"
proof (cases "find (\<lambda>p. keyof p = k) L")
  case None
  then have "\<not> (\<exists>p \<in> set L. keyof p = k)" by (simp add: find_None_iff)
  with None glock_balance_lock_ok [OF w, of k] w show ?thesis
    by (auto simp: Skiplist_Glock.skiplist_balance_node_def)
next
  case (Some b)
  then obtain bs where a: "above k L = b # bs" "keyof b = k"
    by (auto simp: above_found [OF w] split: list.splits if_splits)
  let ?A = "below k L" and ?t = "sl_toplevel (h b)" and ?x = "sl_seq (h head)"
  note L = wf_at [OF w a(1)]
  have bn: "b \<notin> set (head # ?A)" and bh: "b \<noteq> head" using L(3) by auto
  have tn: "?t \<le> n" by (rule n [OF L(2) a(2)])
  have uniq: "p = b \<longleftrightarrow> keyof p = k" if "p \<in> set L" for p
  proof -
    have "p \<in> set (?A @ b # bs)" using that L(1) by simp
    then show ?thesis
      using keys_split(2,4) [where keyof = keyof and L = L and k = k, OF sl_wfD(5) [OF w]] a by fastforce
  qed
  let ?h' = "inserted h head ?A b {?t<..n}"
  let ?h = "?h'(b := (?h' b)\<lparr>sl_toplevel := n\<rparr>)"
  have lk: "Skiplist_Glock.skiplist_balance_node_lock head k h = Some (Some b, upd_at h head ?A 7 0, busy head ?x h)"
    using glock_balance_lock_ok [OF w, of k] Some by simp
  have res: "\<exists>h'. Skiplist_Glock.skiplist_balance_node head k n h = Some (0, h') \<and> wf head h' L \<and>
      sl_seq (h' head) = sl_seq (h head) \<and> (\<forall>p. sl_deleted (h' p) = sl_deleted (h p)) \<and>
      (\<forall>p \<in> set L. sl_toplevel (h' p) = (if p = b then n else sl_toplevel (h p)))"
  proof (cases "?t = n")
    case True
    then have "Skiplist_Glock.skiplist_balance_node head k n h = Some (0, h)"
      by (simp add: Skiplist_Glock.skiplist_balance_node_def lk glock_unlock [OF w] reseq_same)
    with w True show ?thesis by auto
  next
    case False
    with tn have lt: "\<not> n < ?t" "?t \<noteq> n" by auto
    have "fold (balance_up_level (upd_at h head ?A 7 0) b) [Suc ?t..<Suc n] (busy head ?x (inserted h head ?A b {})) =
        busy head ?x (inserted h head ?A b (set [Suc ?t..<Suc n] \<union> {}))"
      by (rule balance_levels_busy [OF bn]) (use n8 in \<open>auto simp: upd_at_def\<close>)
    moreover have "set [Suc ?t..<Suc n] \<union> {} = {?t<..n}" by (auto simp del: upt_Suc)
    ultimately have up: "fold (balance_up_level (upd_at h head ?A 7 0) b) [Suc ?t..<Suc n] (busy head ?x h) = busy head ?x ?h'"
      by (simp del: upt_Suc)
    have e: "(busy head ?x ?h')(b := (?h' b)\<lparr>sl_toplevel := n\<rparr>) = busy head ?x ?h"
      using upd_busy(2) [OF bh, of ?x ?h' n] bh by simp
    have w': "wf head ?h L" by (rule wf_balance [OF w a(1) tn n8])
    have "Skiplist_Glock.skiplist_balance_node head k n h = Some (0, reseq head ?x ?h)"
      using lt bh by (simp add: Skiplist_Glock.skiplist_balance_node_def lk up e glock_unlock [OF w'] Let_def
          del: fun_upd_apply upt_Suc)
    with w' show ?thesis by (auto simp: wf_reseq)
  qed
  moreover have "\<exists>p \<in> set L. keyof p = k" using L(2) a(2) by blast
  ultimately show ?thesis using uniq by auto
qed

end

end
