(* ===== verification/Skiplist_Glock_Refine.thy ===== *)
theory Skiplist_Glock_Refine
  imports Skiplist_Glock_Run
begin

text \<open>
  Runs of calls of skiplist_glock.c, which give the results of skiplist.c, and the lookup that
  misses an element because it compares the header.
\<close>

text \<open>The calls are those of the theory \<open>Skiplist_Refine\<close>; an iterator works on the hint \<open>slip\<close>.\<close>

type_synonym 'k glock = "'k sl_heap \<times> skiplist_iter"

fun gl_exec :: "bool \<Rightarrow> sptr \<Rightarrow> 'k sl_op \<Rightarrow> 'k glock \<Rightarrow> (sl_res \<times> 'k glock) option" where
  "gl_exec debug head (Insert p k r) (h, slip) = do {
     (e, h) \<leftarrow> skiplist_insert debug p head k r h; Some (Err e, h, slip) }"
| "gl_exec debug head (Delete k) (h, slip) = do { (p, h) \<leftarrow> skiplist_delete debug head k h; Some (Elem p, h, slip) }"
| "gl_exec debug head (Lookup k) (h, slip) = do { p \<leftarrow> skiplist_lookup_relaxed head k h; Some (Elem p, h, slip) }"
| "gl_exec debug head (Lookup_Lock k) (h, slip) = do {
     (p, h) \<leftarrow> skiplist_lookup_lock head k h;
     Some (Elem p, case p of None \<Rightarrow> h | Some p \<Rightarrow> skiplist_unlock p h, slip) }"
| "gl_exec debug head First (h, slip) = (let slip = skiplist_ptriter_first head h in Some (Elem (hintp slip), h, slip))"
| "gl_exec debug head Last (h, slip) = do { slip \<leftarrow> skiplist_ptriter_last head h; Some (Elem (hintp slip), h, slip) }"
| "gl_exec debug head (Next k) (h, slip) = do {
     slip \<leftarrow> skiplist_ptriter_next head k slip h; Some (Elem (hintp slip), h, slip) }"
| "gl_exec debug head (Prev k) (h, slip) = do { slip \<leftarrow> skiplist_ptriter_prev head k h; Some (Elem (hintp slip), h, slip) }"
| "gl_exec debug head (Balance k n) (h, slip) = do { (e, h) \<leftarrow> skiplist_balance_node head k n h; Some (Err e, h, slip) }"
| "gl_exec debug head Fsck (h, slip) = do { skiplist_fsck head h; Some (Passed, h, slip) }"

fun gl_run :: "bool \<Rightarrow> sptr \<Rightarrow> 'k sl_op list \<Rightarrow> 'k glock \<Rightarrow> (sl_res list \<times> 'k glock) option" where
  "gl_run debug head [] s = Some ([], s)"
| "gl_run debug head (op # ops) s = do {
     (r, s) \<leftarrow> gl_exec debug head op s; (rs, s) \<leftarrow> gl_run debug head ops s; Some (r # rs, s) }"

text \<open>
  Besides what \<open>sl_pre\<close> asks, a caller goes on from the element that the last iterator returned,
  \<open>cur\<close>, passing its key, and the key of the header is below the keys that are looked up.
\<close>

definition gl_cur :: "'k sl_op \<Rightarrow> sl_res \<Rightarrow> sptr option \<Rightarrow> sptr option" where
  "gl_cur op r cur = (case r of Elem p \<Rightarrow>
     (case op of First \<Rightarrow> p | Last \<Rightarrow> p | Next k \<Rightarrow> p | Prev k \<Rightarrow> p | _ \<Rightarrow> cur) | _ \<Rightarrow> cur)"

definition gl_pre :: "sptr \<Rightarrow> (sptr \<Rightarrow> 'k::linorder) \<Rightarrow> 'k sl_op \<Rightarrow> sptr option \<Rightarrow> bool" where
  "gl_pre head key op cur \<longleftrightarrow> (case op of Lookup k \<Rightarrow> key head < k
     | Next k \<Rightarrow> (case cur of None \<Rightarrow> False | Some p \<Rightarrow> key p = k) | _ \<Rightarrow> True)"

fun gl_pre_run :: "sptr \<Rightarrow> (sptr \<Rightarrow> 'k::linorder) \<Rightarrow> 'k sl_op list \<Rightarrow> sl_abs \<Rightarrow> sptr option \<Rightarrow> bool" where
  "gl_pre_run head key [] a cur \<longleftrightarrow> True"
| "gl_pre_run head key (op # ops) a cur \<longleftrightarrow> sl_pre head key op a \<and> gl_pre head key op cur \<and>
     gl_pre_run head key ops (snd (sl_spec key op a)) (gl_cur op (fst (sl_spec key op a)) cur)"

lemma gl_pre_run_sl: "gl_pre_run head key ops a cur \<Longrightarrow> sl_pre_run head key ops a"
proof (induction ops arbitrary: a cur)
  case (Cons op ops)
  then have "sl_pre head key op a" "sl_pre_run head key ops (snd (sl_spec key op a))"
    by (simp, meson gl_pre_run.simps(2))
  then show ?case by simp
qed simp

definition gl_rel ::
  "(sptr \<Rightarrow> 'k::linorder) \<Rightarrow> (sptr \<Rightarrow> 'k \<Rightarrow> int) \<Rightarrow> sptr \<Rightarrow> 'k glock \<Rightarrow> sl_abs \<Rightarrow> sptr option \<Rightarrow> bool" where
  "gl_rel key cmp head s a cur \<longleftrightarrow> sl_rel key cmp head (fst s) a \<and> sl_seq (fst s head) AND 1 = 0 \<and>
     (cur \<noteq> None \<longrightarrow> hintp (snd s) = cur) \<and>
     (\<forall>p. cur = Some p \<longrightarrow> p \<in> set (fst a) \<or> sl_deleted (fst s p))"

context sl_client
begin

lemma gl_exec_refines:
  assumes r: "gl_rel keyof cmp head s a cur" and p: "sl_pre head keyof op a" and g: "gl_pre head keyof op cur"
  shows "\<exists>s'. gl_exec debug head op s = Some (fst (sl_spec keyof op a), s') \<and>
    gl_rel keyof cmp head s' (snd (sl_spec keyof op a)) (gl_cur op (fst (sl_spec keyof op a)) cur)"
proof -
  obtain L lv where a: "a = (L, lv)" by (cases a)
  obtain h slip where s: "s = (h, slip)" by (cases s)
  have w: "wf head h L" and lv: "\<And>p. p \<in> set L \<Longrightarrow> sl_toplevel (h p) = lv p" and sq: "sl_seq (h head) AND 1 = 0"
    and hint: "cur \<noteq> None \<Longrightarrow> hintp slip = cur" and hp: "\<And>p. cur = Some p \<Longrightarrow> p \<in> set L \<or> sl_deleted (h p)"
    using r by (auto simp: gl_rel_def sl_rel_def a s)
  have hf: "hd_opt xs = find (\<lambda>q. True) xs" for xs :: "sptr list" by (cases xs) simp_all
  have found: "find P xs = Some q \<Longrightarrow> q \<in> set xs" for P :: "sptr \<Rightarrow> bool" and xs q by (auto simp: find_Some_iff)
  note defs = a s gl_rel_def sl_rel_def gl_cur_def
  show ?thesis
  proof (cases op)
    case (Insert p k r)
    with p have n: "p \<notin> set (head # L)" "keyof p = k" by (auto simp: a)
    have sub: "q \<in> set L" if "q \<in> set (takeWhile P L) \<or> q \<in> set (dropWhile P L)" for q P
      using that set_takeWhileD set_dropWhileD by metis
    have mem: "q \<in> set (takeWhile P L @ x # dropWhile P L)" if "q \<in> set L" for q P x
      using that takeWhile_dropWhile_id [of P L] by (metis Un_iff list.set_intros(2) set_append)
    show ?thesis
    proof (cases "\<exists>q \<in> set L. keyof q = k")
      case True
      with glock_insert_ok [OF w n, of debug r] Insert w lv sq hint hp show ?thesis by (auto simp: defs)
    next
      case False
      with glock_insert_ok [OF w n, of debug r] obtain h' where
        h': "Skiplist_Glock.skiplist_insert debug p head k r h = Some (0, h')" "wf head h' (below k L @ p # above k L)"
          "sl_seq (h' head) = sl_seq (h head)" "sl_toplevel (h' p) = random_level r"
          "\<And>q. q \<noteq> p \<Longrightarrow> sl_toplevel (h' q) = sl_toplevel (h q)" "\<And>q. q \<noteq> p \<Longrightarrow> sl_deleted (h' q) = sl_deleted (h q)"
        by auto
      have "q \<in> set (takeWhile P L @ p # dropWhile P L) \<or> sl_deleted (h' q)" if "cur = Some q" for q P
        using hp [OF that] mem [of q P p] h'(6) [of q] by (cases "q = p") auto
      with False h' n lv sq hint sub show ?thesis
        by (auto simp: defs Insert keys_below_def keys_from_def)
    qed
  next
    case (Delete k)
    from glock_delete_ok [OF w sq, of debug k] obtain h' where
      h': "Skiplist_Glock.skiplist_delete debug head k h = Some (find (\<lambda>p. keyof p = k) L, h')"
        "wf head h' (filter (\<lambda>p. keyof p \<noteq> k) L)" "sl_seq (h' head) AND 1 = 0"
        "\<And>p. sl_toplevel (h' p) = sl_toplevel (h p)"
        "\<And>p. sl_deleted (h' p) \<longleftrightarrow> sl_deleted (h p) \<or> find (\<lambda>p. keyof p = k) L = Some p"
      by blast
    have "q \<in> set (filter (\<lambda>p. keyof p \<noteq> k) L) \<or> sl_deleted (h' q)" if c: "cur = Some q" for q
    proof (cases "q \<in> set L \<and> keyof q = k")
      case True
      then obtain b where b: "find (\<lambda>p. keyof p = k) L = Some b" by (cases "find (\<lambda>p. keyof p = k) L") (auto simp: find_None_iff)
      then have "b \<in> set L" "keyof b = k" by (auto simp: find_Some_iff)
      with True have "b = q" using sl_wfD(5) [OF w] by (auto simp: in_set_conv_nth sorted_wrt_iff_nth_less) (metis less_irrefl nat_neq_iff)
      with b show ?thesis by (simp add: h'(5))
    next
      case False
      with hp [OF c] show ?thesis by (auto simp: h'(5))
    qed
    with h' lv hint show ?thesis by (auto simp: defs Delete)
  next
    case (Lookup k)
    with g have "keyof head < k" by (simp add: gl_pre_def)
    with Lookup w lv sq hint hp show ?thesis by (auto simp: defs glock_lookup_relaxed_ok [OF w])
  next
    case (Lookup_Lock k)
    have "Skiplist_Glock.skiplist_unlock p (busy head (sl_seq (h head)) h) = h" if "find (\<lambda>p. keyof p = k) L = Some p" for p
    proof -
      have "sl_head (h p) = head" using wf_node(4) [OF w, of p] found [OF that] by simp
      then have "Skiplist_Glock.skiplist_unlock p (busy head (sl_seq (h head)) h) =
          Skiplist_Glock.skiplist_unlock head (busy head (sl_seq (h head)) h)"
        using head_ok(1) [OF w] by (simp add: Skiplist_Glock.skiplist_unlock_def)
      then show ?thesis by (simp add: glock_unlock [OF w] reseq_same)
    qed
    with Lookup_Lock w lv sq hint hp show ?thesis
      by (auto simp: defs glock_lookup_lock_ok [OF w] split: option.split)
  next
    case First
    with w lv sq show ?thesis
      by (auto simp: defs skiplist_ptriter_first_def valiter_first_ok [unfolded skiplist_valiter_first_def] hf Let_def found)
  next
    case Last
    with w lv sq found [of "\<lambda>q. True" "rev L"] show ?thesis
      by (auto simp: defs skiplist_ptriter_last_def valiter_last_ok hf)
  next
    case (Next k)
    with g obtain q where q: "cur = Some q" "keyof q = k" by (auto simp: gl_pre_def split: option.splits)
    with hint have "hintp slip = Some q" by simp
    from glock_next_ok [OF w this q(2) hp [OF q(1)]] Next w lv sq found [of "\<lambda>p. k < keyof p" L] show ?thesis
      by (auto simp: defs)
  next
    case (Prev k)
    with w lv sq found [of "\<lambda>p. keyof p < k" "rev L"] show ?thesis
      by (auto simp: defs skiplist_ptriter_prev_def valiter_prev_ok)
  next
    case (Balance k n)
    with p have "n < 8" "\<And>p. p \<in> set L \<Longrightarrow> keyof p = k \<Longrightarrow> sl_toplevel (h p) \<le> n"
      by (auto simp: a SL_MAX_LEVELS_def lv)
    from glock_rebalance_ok [where k = k, OF w this(2,1)] lv sq hint hp show ?thesis
      by (auto simp: Balance defs)
  next
    case Fsck
    with w lv sq hint hp show ?thesis by (auto simp: defs fsck_ok)
  qed
qed

lemma gl_run_refines:
  "gl_rel keyof cmp head s a cur \<Longrightarrow> gl_pre_run head keyof ops a cur \<Longrightarrow>
   \<exists>s'. gl_run debug head ops s = Some (sl_spec_run keyof ops a, s')"
proof (induction ops arbitrary: s a cur)
  case (Cons op ops)
  then obtain s' where s': "gl_exec debug head op s = Some (fst (sl_spec keyof op a), s')"
    "gl_rel keyof cmp head s' (snd (sl_spec keyof op a)) (gl_cur op (fst (sl_spec keyof op a)) cur)"
    using gl_exec_refines [of head s a cur op debug] by auto
  from Cons.IH [OF this(2)] Cons.prems(2) s'(1) show ?case
    by (cases "sl_spec keyof op a") auto
qed simp

lemma glock_lookup_relaxed_misses:
  assumes w: "wf head h L" and hd: "\<not> keyof head < k" and L: "\<And>p. p \<in> set L \<Longrightarrow> \<not> keyof p < k"
  shows "Skiplist_Glock.skiplist_lookup_relaxed head k h = Some None"
proof -
  have "below k L = []" using L by (cases L) (auto simp: keys_below_def)
  with help_busy(2) [OF w, of k] have "Skiplist_Glock.skiplist_lookup_help head k h = Some head"
    by (simp add: pred_at_def)
  moreover have "relaxed_walk (\<lambda>p. cmp p k < 0) h (Some head) = Some (Some head)"
    using hd by (subst relaxed_walk.simps) (simp add: cmp_less)
  ultimately show ?thesis by (simp add: Skiplist_Glock.skiplist_lookup_relaxed_def sl_wfD(2) [OF w])
qed

lemma gl_init_rel: "gl_rel keyof cmp head (skiplist_init head cmp h, slip) ([], lv) None"
  using init_rel by (simp add: gl_rel_def skiplist_init_def)

end

text \<open>C24: on every sequence of calls that keeps to \<open>gl_pre_run\<close> the skip list with one lock returns, with
  its consistency checks passed, and gives the results of the skip list with one lock per element, its
  iterators included, which go on from their hint, from a deleted element too. \<open>gl_pre_run\<close> asks at every
  call what \<open>sl_pre_run\<close> asks (a new element is not the header, is not on the list and has the key it is
  inserted under; no element is rebalanced to a lower level), that a key looked up with
  \<open>skiplist_lookup_relaxed\<close> is above the key in the header, and that \<open>skiplist_ptriter_next\<close> is called with
  the key of the element that the last iterator call returned. Outside of it the two differ: the theorem
  after this one has a key that is not above that of the header.\<close>

theorem skiplist_glock_equivalent:
  assumes "gl_pre_run head data ops ([], \<lambda>_. 0) None"
  shows "\<exists>rs h1 s2. sl_run head ops (skiplist_init head (testcmp data) h) = Some (rs, h1) \<and>
    gl_run debug head ops (skiplist_init head (testcmp data) h, slip) = Some (rs, s2)"
  using test.run_refines [OF test.init_rel [where h = h] gl_pre_run_sl [OF assms]]
    test.gl_run_refines [OF test.gl_init_rel [where h = h and slip = slip] assms, where debug = debug] by blast

definition gl_calls :: "ulong sl_op list" where
  "gl_calls = [Insert 1 10 3, Insert 2 20 0, Insert 3 30 1, First, Delete 10, Next 10, Lookup 30, Next 20,
     Balance 30 5, Prev 30, Lookup_Lock 10, Fsck]"

definition gl_data :: "sptr \<Rightarrow> ulong" where
  "gl_data p = (if p = 0 then 0 else if p = 1 then 10 else if p = 2 then 20 else 30)"

definition gl_store :: "ulong sl_heap" where
  "gl_store = (\<lambda>_. \<lparr>sl_toplevel = 0, sl_lock = False, sl_deleted = False, sl_head = 0, sl_seq = 0,
     sl_cmp = testcmp gl_data, sl_next = \<lambda>_. None\<rparr>)"

theorem skiplist_glock_equivalent_witness:
  "\<exists>rs h1 s2. sl_run 0 gl_calls (skiplist_init 0 (testcmp gl_data) gl_store) = Some (rs, h1) \<and>
    gl_run True 0 gl_calls (skiplist_init 0 (testcmp gl_data) gl_store, \<lparr>iter_seq = 0, hintp = None\<rparr>) = Some (rs, s2)"
proof -
  have "gl_pre_run 0 gl_data gl_calls ([], \<lambda>_. 0) None"
    by (simp add: gl_calls_def gl_data_def gl_pre_def gl_cur_def SL_MAX_LEVELS_def random_level_def
        trailing_ones.simps Let_def)
  from skiplist_glock_equivalent [OF this] show ?thesis by blast
qed

text \<open>C38: \<open>skiplist_lookup_relaxed\<close> of skiplist_glock.c compares the key with the header, which has none. The
  header of the torture test is a static variable whose \<open>data\<close> is zero, and an element with the key zero
  is not found, although \<open>skiplist_lookup_lock\<close> finds it.\<close>

theorem skiplist_glock_misses:
  "\<exists>s. gl_run False 0 [Insert 1 0 0, Lookup 0, Lookup_Lock 0]
    (skiplist_init 0 (testcmp (\<lambda>_. 0)) gl_store, \<lparr>iter_seq = 0, hintp = None\<rparr>) =
    Some ([Err 0, Elem None, Elem (Some 1)], s)"
proof -
  let ?d = "\<lambda>_. 0 :: ulong" and ?s = "(skiplist_init 0 (testcmp (\<lambda>_. 0)) gl_store, \<lparr>iter_seq = 0, hintp = None\<rparr>)"
  have i: "gl_rel ?d (testcmp ?d) 0 ?s ([], \<lambda>_. 0) None" by (rule test.gl_init_rel)
  obtain h sl where e1: "gl_exec False 0 (Insert 1 0 0) ?s = Some (Err 0, h, sl)"
    and r1: "gl_rel ?d (testcmp ?d) 0 (h, sl) ([1], (\<lambda>_. 0)(1 := random_level 0)) None"
    using test.gl_exec_refines [OF i, of "Insert 1 0 0" False] by (auto simp: gl_pre_def gl_cur_def)
  have "sl_wf ?d (testcmp ?d) 0 h [1]" using r1 by (simp add: gl_rel_def sl_rel_def)
  from test.glock_lookup_relaxed_misses [OF this, of 0]
  have e2: "gl_exec False 0 (Lookup 0) (h, sl) = Some (Elem None, h, sl)" by simp
  obtain s where e3: "gl_exec False 0 (Lookup_Lock 0) (h, sl) = Some (Elem (Some 1), s)"
    using test.gl_exec_refines [OF r1, of "Lookup_Lock 0" False] by (auto simp: gl_pre_def)
  show ?thesis
    by (rule exI [of _ s]) (simp add: e1 e2 e3 del: gl_exec.simps One_nat_def)
qed

end
