(* ===== verification/Matmul.thy ===== *)
theory Matmul
  imports Prelude
begin

text \<open>
  SMPdesign/matmul.c and matmul_block.c: the product of two matrices, whose rows are divided among
  threads, with the handshake between them and \<open>main\<close>. The \<open>float\<close> of the code is a type with any
  zero, sum and product: no law of arithmetic is used. An access outside an array is a \<open>Fault\<close>.
\<close>

datatype mm_pc = Unborn
  | Starting                \<comment> \<open>about to increment \<open>nstarted\<close>\<close>
  | Waiting                 \<comment> \<open>the loop on \<open>goflag\<close>\<close>
  | Row nat                 \<comment> \<open>the loop on \<open>i\<close>\<close>
  | Cell nat nat            \<comment> \<open>the loop on \<open>j\<close>\<close>
  | Mac nat nat nat         \<comment> \<open>the loop on \<open>k\<close>\<close>
  | Finished | Fault

datatype main_pc = Creating nat | Await_Started | Await_Done | Passed | Bug

record 'f matmul =
  mat_c :: "'f list"
  goflag :: bool            \<comment> \<open>\<open>GOFLAG_START\<close>\<close>
  nstarted :: nat
  ndone :: nat
  tpc :: "nat \<Rightarrow> mm_pc"
  mpc :: main_pc

text \<open>What \<open>malloc\<close> left in the result is the argument \<open>c0\<close>.\<close>

definition matmul_init :: "'f list \<Rightarrow> 'f matmul" where
  "matmul_init c0 = \<lparr>mat_c = c0, goflag = False, nstarted = 0, ndone = 0, tpc = (\<lambda>_. Unborn), mpc = Creating 0\<rparr>"

text \<open>The matrices that \<open>main\<close> fills in, by its conversion \<open>conv\<close> of integers to \<open>float\<close>.\<close>

definition mat_a :: "(nat \<Rightarrow> 'f) \<Rightarrow> nat \<Rightarrow> 'f list" where
  "mat_a conv dim = concat (map (\<lambda>i. map (\<lambda>j. conv (i + j)) [0..<dim]) [0..<dim])"

definition mat_b :: "(nat \<Rightarrow> 'f) \<Rightarrow> nat \<Rightarrow> 'f list" where
  "mat_b conv dim = concat (map (\<lambda>i. map (\<lambda>j. conv (i * j)) [0..<dim]) [0..<dim])"

text \<open>The rows of a thread, from the first to before the last.\<close>

definition bandsize :: "nat \<Rightarrow> nat \<Rightarrow> nat" where
  "bandsize dim nthread = (dim + nthread - 1) div nthread"

definition matmul_band :: "nat \<Rightarrow> nat \<Rightarrow> nat \<Rightarrow> nat \<times> nat" where
  "matmul_band dim nthread me = (let blocksize = bandsize dim nthread; startidx = me * blocksize;
     stopidx = startidx + blocksize in (startidx, if stopidx > dim then dim else stopidx))"

definition block_band :: "nat \<Rightarrow> nat \<Rightarrow> nat \<Rightarrow> nat \<times> nat" where
  "block_band dim nthread i = (bandsize dim nthread * nthread,
     if i = nthread - 1 then dim - 1 else bandsize dim nthread * (nthread + 1) - 1)"

text \<open>One step of \<open>matmul_thread\<close>.\<close>

definition matmul_thread ::
  "nat \<Rightarrow> 'f::{zero,plus,times} list \<Rightarrow> 'f list \<Rightarrow> nat \<times> nat \<Rightarrow> nat \<Rightarrow> 'f matmul \<Rightarrow> 'f matmul" where
  "matmul_thread dim a b band t s =
     (let go = (\<lambda>p s. s\<lparr>tpc := (tpc s)(t := p)\<rparr>) in
      case tpc s t of
        Unborn \<Rightarrow> s
      | Starting \<Rightarrow> go Waiting (s\<lparr>nstarted := nstarted s + 1\<rparr>)
      | Waiting \<Rightarrow> if goflag s then go (Row (fst band)) s else s
      | Row i \<Rightarrow> if i < snd band then go (Cell i 0) s else go Finished (s\<lparr>ndone := ndone s + 1\<rparr>)
      | Cell i j \<Rightarrow>
          if j < dim then
            if i * dim + j < length (mat_c s) then go (Mac i j 0) (s\<lparr>mat_c := (mat_c s)[i * dim + j := 0]\<rparr>)
            else go Fault s
          else go (Row (i + 1)) s
      | Mac i j k \<Rightarrow>
          if k < dim then
            if i * dim + j < length (mat_c s) \<and> i * dim + k < length a \<and> k * dim + j < length b
            then go (Mac i j (k + 1)) (s\<lparr>mat_c := (mat_c s)[i * dim + j :=
              mat_c s ! (i * dim + j) + a ! (i * dim + k) * b ! (k * dim + j)]\<rparr>)
            else go Fault s
          else go (Cell i (j + 1)) s
      | Finished \<Rightarrow> s
      | Fault \<Rightarrow> s)"

text \<open>The product that \<open>main\<close> of matmul.c computes for itself, by the same loops.\<close>

definition serial_cell :: "nat \<Rightarrow> 'f::{zero,plus,times} list \<Rightarrow> 'f list \<Rightarrow> nat \<Rightarrow> nat \<Rightarrow> 'f list \<Rightarrow> 'f list" where
  "serial_cell dim a b i j d = fold (\<lambda>k d. d[i * dim + j := d ! (i * dim + j) + a ! (i * dim + k) * b ! (k * dim + j)])
     [0..<dim] (d[i * dim + j := 0])"

definition serial :: "nat \<Rightarrow> 'f::{zero,plus,times} list \<Rightarrow> 'f list \<Rightarrow> 'f list \<Rightarrow> 'f list" where
  "serial dim a b d = fold (\<lambda>i. fold (\<lambda>j. serial_cell dim a b i j) [0..<dim]) [0..<dim] d"

text \<open>The steps of \<open>main\<close>, with what it does when all threads are done.\<close>

definition main_step :: "nat \<Rightarrow> ('f list \<Rightarrow> bool) \<Rightarrow> 'f matmul \<Rightarrow> 'f matmul" where
  "main_step nthread check s = (case mpc s of
       Creating i \<Rightarrow> if i < nthread then s\<lparr>tpc := (tpc s)(i := Starting), mpc := Creating (i + 1)\<rparr>
         else s\<lparr>mpc := Await_Started\<rparr>
     | Await_Started \<Rightarrow> if nstarted s = nthread then s\<lparr>goflag := True, mpc := Await_Done\<rparr> else s
     | Await_Done \<Rightarrow> if ndone s = nthread then s\<lparr>mpc := if check (mat_c s) then Passed else Bug\<rparr> else s
     | Passed \<Rightarrow> s | Bug \<Rightarrow> s)"

text \<open>\<open>d0\<close> is what \<open>malloc\<close> left in the matrix \<open>d\<close>.\<close>

inductive matmul_step ::
  "nat \<Rightarrow> nat \<Rightarrow> 'f::{zero,plus,times} list \<Rightarrow> 'f list \<Rightarrow> 'f list \<Rightarrow> 'f matmul \<Rightarrow> 'f matmul \<Rightarrow> bool"
  for dim nthread a b d0 s where
  thread: "matmul_step dim nthread a b d0 s (matmul_thread dim a b (matmul_band dim nthread t) t s)"
| main: "matmul_step dim nthread a b d0 s (main_step nthread (\<lambda>c. c = serial dim a b d0) s)"

inductive block_step ::
  "nat \<Rightarrow> nat \<Rightarrow> 'f::{zero,plus,times} list \<Rightarrow> 'f list \<Rightarrow> 'f matmul \<Rightarrow> 'f matmul \<Rightarrow> bool"
  for dim nthread a b s where
  thread: "block_step dim nthread a b s (matmul_thread dim a b (block_band dim nthread t) t s)"
| main: "block_step dim nthread a b s (main_step nthread (\<lambda>_. True) s)"

section \<open>The product\<close>

definition partial :: "nat \<Rightarrow> 'f::{zero,plus,times} list \<Rightarrow> 'f list \<Rightarrow> nat \<Rightarrow> nat \<Rightarrow> nat \<Rightarrow> 'f" where
  "partial dim a b i j n = fold (\<lambda>k x. x + a ! (i * dim + k) * b ! (k * dim + j)) [0..<n] 0"

abbreviation entry :: "nat \<Rightarrow> 'f::{zero,plus,times} list \<Rightarrow> 'f list \<Rightarrow> nat \<Rightarrow> nat \<Rightarrow> 'f" where
  "entry dim a b i j \<equiv> partial dim a b i j dim"

lemma partial_step [simp]: "partial dim a b i j 0 = 0"
  "partial dim a b i j (Suc k) = partial dim a b i j k + a ! (i * dim + k) * b ! (k * dim + j)"
  by (simp_all add: partial_def)

lemma index_less: "i < dim \<Longrightarrow> j < dim \<Longrightarrow> i * dim + j < dim * (dim :: nat)"
proof -
  assume "i < dim" "j < dim"
  then have "i * dim + j < i * dim + dim" "Suc i * dim \<le> dim * dim" by (simp, intro mult_right_mono) simp_all
  then show ?thesis by simp
qed

lemma index_inj: "j < dim \<Longrightarrow> j' < dim \<Longrightarrow> i * dim + j = i' * dim + j' \<longleftrightarrow> i = i' \<and> j = (j' :: nat)"
proof -
  assume j: "j < dim" "j' < dim"
  have "(i * dim + j) div dim = i" "(i * dim + j) mod dim = j" "(i' * dim + j') div dim = i'"
    "(i' * dim + j') mod dim = j'" using j by simp_all
  then show ?thesis by metis
qed

lemma serial_cell_eq:
  assumes "i * dim + j < length d"
  shows "serial_cell dim a b i j d = d[i * dim + j := entry dim a b i j]"
proof -
  have "fold (\<lambda>k d. d[i * dim + j := d ! (i * dim + j) + a ! (i * dim + k) * b ! (k * dim + j)])
     [0..<n] (d[i * dim + j := 0]) = d[i * dim + j := partial dim a b i j n]" for n
    by (induction n) (use assms in simp_all)
  then show ?thesis by (simp add: serial_cell_def)
qed

text \<open>The loops over \<open>j\<close> and \<open>i\<close>: the cells before the current one hold their entries.\<close>

lemma serial_row:
  assumes d: "length d = dim * dim" and i: "i < dim"
  shows "n \<le> dim \<Longrightarrow> length (fold (\<lambda>j. serial_cell dim a b i j) [0..<n] d) = dim * dim \<and>
    (\<forall>r q. r < dim \<longrightarrow> q < dim \<longrightarrow> fold (\<lambda>j. serial_cell dim a b i j) [0..<n] d ! (r * dim + q) =
      (if r = i \<and> q < n then entry dim a b i q else d ! (r * dim + q)))"
proof (induction n)
  case (Suc n)
  let ?d = "fold (\<lambda>j. serial_cell dim a b i j) [0..<n] d"
  have l: "i * dim + n < length ?d" using Suc i index_less [of i dim n] by simp
  have "fold (\<lambda>j. serial_cell dim a b i j) [0..<Suc n] d = ?d[i * dim + n := entry dim a b i n]"
    using serial_cell_eq [OF l] by simp
  with Suc l show ?case by (auto simp: nth_list_update index_inj less_Suc_eq)
qed (use d in simp)

lemma serial_entry:
  assumes d: "length d = dim * dim"
  shows "length (serial dim a b d) = dim * dim"
    and "r < dim \<Longrightarrow> q < dim \<Longrightarrow> serial dim a b d ! (r * dim + q) = entry dim a b r q"
proof -
  have "length (fold (\<lambda>i. fold (\<lambda>j. serial_cell dim a b i j) [0..<dim]) [0..<n] d) = dim * dim \<and>
    (\<forall>r q. r < dim \<longrightarrow> q < dim \<longrightarrow> r < n \<longrightarrow>
      fold (\<lambda>i. fold (\<lambda>j. serial_cell dim a b i j) [0..<dim]) [0..<n] d ! (r * dim + q) = entry dim a b r q)"
    if "n \<le> dim" for n
    using that
  proof (induction n)
    case (Suc n)
    let ?d = "fold (\<lambda>i. fold (\<lambda>j. serial_cell dim a b i j) [0..<dim]) [0..<n] d"
    from Suc serial_row [of ?d dim n dim a b] show ?case by (auto simp: less_Suc_eq)
  qed (use d in simp)
  from this [of dim] show "length (serial dim a b d) = dim * dim"
    and "r < dim \<Longrightarrow> q < dim \<Longrightarrow> serial dim a b d ! (r * dim + q) = entry dim a b r q"
    by (simp_all add: serial_def)
qed

lemma list_eq_entries:
  assumes "length c = dim * dim" and "length d = dim * dim"
    and "\<And>r q. r < dim \<Longrightarrow> q < dim \<Longrightarrow> c ! (r * dim + q) = d ! (r * dim + q)"
  shows "c = d"
proof (rule nth_equalityI)
  fix x assume "x < length c"
  with assms(1) have x: "x < dim * dim" "0 < dim" by (auto intro: Nat.gr0I)
  then have "x div dim < dim" "x mod dim < dim" by (auto simp: less_mult_imp_div_less)
  from assms(3) [OF this] show "c ! x = d ! x" by simp
qed (use assms in simp)

section \<open>The invariant of matmul.c\<close>

definition rows_done :: "nat \<Rightarrow> 'f::{zero,plus,times} list \<Rightarrow> 'f list \<Rightarrow> 'f list \<Rightarrow> nat \<Rightarrow> nat \<Rightarrow> bool" where
  "rows_done dim a b c r0 r1 \<longleftrightarrow>
     (\<forall>r q. r0 \<le> r \<longrightarrow> r < r1 \<longrightarrow> q < dim \<longrightarrow> c ! (r * dim + q) = entry dim a b r q)"

definition cells_done :: "nat \<Rightarrow> 'f::{zero,plus,times} list \<Rightarrow> 'f list \<Rightarrow> 'f list \<Rightarrow> nat \<Rightarrow> nat \<Rightarrow> bool" where
  "cells_done dim a b c i j \<longleftrightarrow> (\<forall>q < j. c ! (i * dim + q) = entry dim a b i q)"

fun band_ok :: "nat \<Rightarrow> 'f::{zero,plus,times} list \<Rightarrow> 'f list \<Rightarrow> 'f list \<Rightarrow> nat \<times> nat \<Rightarrow> mm_pc \<Rightarrow> bool" where
  "band_ok dim a b c (r0, r1) (Row i) = (r0 \<le> i \<and> rows_done dim a b c r0 (min i r1))"
| "band_ok dim a b c (r0, r1) (Cell i j) = (r0 \<le> i \<and> i < r1 \<and> j \<le> dim \<and>
     rows_done dim a b c r0 i \<and> cells_done dim a b c i j)"
| "band_ok dim a b c (r0, r1) (Mac i j k) = (r0 \<le> i \<and> i < r1 \<and> j < dim \<and> k \<le> dim \<and>
     rows_done dim a b c r0 i \<and> cells_done dim a b c i j \<and> c ! (i * dim + j) = partial dim a b i j k)"
| "band_ok dim a b c (r0, r1) Finished = rows_done dim a b c r0 r1"
| "band_ok dim a b c band Fault = False"
| "band_ok dim a b c band p = True"

lemma rows_done_upd:
  "rows_done dim a b c r0 r1 \<Longrightarrow> \<not> (r0 \<le> i \<and> i < r1) \<Longrightarrow> j < dim \<Longrightarrow> rows_done dim a b (c[i * dim + j := x]) r0 r1"
  by (auto simp: rows_done_def nth_list_update index_inj)

lemma cells_done_upd:
  "cells_done dim a b c r n \<Longrightarrow> n \<le> dim \<Longrightarrow> r \<noteq> i \<or> n \<le> j \<Longrightarrow> j < dim \<Longrightarrow> cells_done dim a b (c[i * dim + j := x]) r n"
  by (auto simp: cells_done_def nth_list_update index_inj)

lemma band_ok_upd:
  assumes "band_ok dim a b c (r0, r1) p" and "\<not> (r0 \<le> i \<and> i < r1)" and "j < dim"
  shows "band_ok dim a b (c[i * dim + j := x]) (r0, r1) p"
  using assms by (cases p) (auto simp: rows_done_upd cells_done_upd index_inj nth_list_update)

lemma rows_done_Suc:
  "rows_done dim a b c r0 i \<Longrightarrow> cells_done dim a b c i dim \<Longrightarrow> rows_done dim a b c r0 (Suc i)"
  by (auto simp: rows_done_def cells_done_def less_Suc_eq)

lemma band_disjoint:
  assumes "fst (matmul_band dim n t) \<le> i" and "i < snd (matmul_band dim n t)"
    and "fst (matmul_band dim n u) \<le> i" and "i < snd (matmul_band dim n u)"
  shows "t = u"
proof -
  let ?k = "bandsize dim n"
  have "t * ?k \<le> i" "i < t * ?k + ?k" "u * ?k \<le> i" "i < u * ?k + ?k"
    using assms by (auto simp: matmul_band_def Let_def split: if_splits)
  then have "i div ?k = t" "i div ?k = u" by (auto intro!: div_nat_eqI simp: algebra_simps)
  then show ?thesis by simp
qed

lemma band_row: "i < snd (matmul_band dim n t) \<Longrightarrow> i < dim"
  by (auto simp: matmul_band_def Let_def split: if_splits)

lemma band_cover:
  assumes "0 < n" and "r < dim"
  shows "\<exists>t<n. fst (matmul_band dim n t) \<le> r \<and> r < snd (matmul_band dim n t)"
proof (intro exI conjI)
  let ?k = "bandsize dim n"
  have "dim + n - 1 < (?k + 1) * n" using div_less_iff_less_mult [of n "dim + n - 1" "?k + 1"] assms(1) by (simp add: bandsize_def)
  then have k: "dim \<le> ?k * n" using assms by (simp add: algebra_simps)
  with assms have k0: "0 < ?k" by (auto intro: Nat.gr0I)
  show "r div ?k < n" using k assms(2) k0 by (simp add: div_less_iff_less_mult mult.commute)
  show "fst (matmul_band dim n (r div ?k)) \<le> r" by (simp add: matmul_band_def Let_def)
  have "r < r div ?k * ?k + ?k" using div_mult_mod_eq [of r ?k] mod_less_divisor [OF k0, of r] by linarith
  with assms(2) show "r < snd (matmul_band dim n (r div ?k))" by (simp add: matmul_band_def Let_def)
qed

definition matmul_inv ::
  "nat \<Rightarrow> nat \<Rightarrow> 'f::{zero,plus,times} list \<Rightarrow> 'f list \<Rightarrow> 'f list \<Rightarrow> 'f matmul \<Rightarrow> bool" where
  "matmul_inv dim n a b d0 s \<longleftrightarrow> length (mat_c s) = dim * dim \<and>
     (\<forall>t. band_ok dim a b (mat_c s) (matmul_band dim n t) (tpc s t)) \<and>
     (\<forall>t\<ge>n. tpc s t = Unborn) \<and> (\<forall>i. mpc s = Creating i \<longrightarrow> (\<forall>t\<ge>i. tpc s t = Unborn)) \<and>
     ndone s = card {t. t < n \<and> tpc s t = Finished} \<and> mpc s \<noteq> Bug \<and>
     (mpc s = Passed \<longrightarrow> mat_c s = serial dim a b d0 \<and> (\<forall>t<n. tpc s t = Finished))"

lemma matmul_inv_init: "length c0 = dim * dim \<Longrightarrow> matmul_inv dim n a b d0 (matmul_init c0)"
  by (simp add: matmul_inv_def matmul_init_def)

lemma all_done:
  assumes "ndone s = card {t. t < n \<and> tpc s t = Finished}" and "ndone s = n" and "t < n"
  shows "tpc s t = Finished"
proof -
  have "{t. t < n \<and> tpc s t = Finished} = {..<n}" using assms(1,2) by (intro card_subset_eq) auto
  with assms(3) show ?thesis by auto
qed

lemma product_done:
  assumes i: "matmul_inv dim n a b d0 s" and n: "0 < n" and d: "length d0 = dim * dim" and f: "\<And>t. t < n \<Longrightarrow> tpc s t = Finished"
  shows "mat_c s = serial dim a b d0"
proof (rule list_eq_entries)
  fix r q assume rq: "r < dim" "q < dim"
  obtain t where t: "t < n" "fst (matmul_band dim n t) \<le> r" "r < snd (matmul_band dim n t)"
    using band_cover [OF n rq(1)] by blast
  have "band_ok dim a b (mat_c s) (matmul_band dim n t) Finished" using i f [OF t(1)] by (metis matmul_inv_def)
  with t rq have "mat_c s ! (r * dim + q) = entry dim a b r q"
    by (cases "matmul_band dim n t") (auto simp: rows_done_def)
  with serial_entry(2) [OF d rq] show "mat_c s ! (r * dim + q) = serial dim a b d0 ! (r * dim + q)" by simp
qed (use i serial_entry(1) [OF d] in \<open>auto simp: matmul_inv_def\<close>)

lemma matmul_inv_thread:
  assumes i: "matmul_inv dim n a b d0 s" and u: "tpc s t \<noteq> Unborn" "tpc s t \<noteq> Finished" "p \<noteq> Unborn"
    and s': "tpc s' = (tpc s)(t := p)" "mpc s' = mpc s" "ndone s' = ndone s + of_bool (p = Finished)"
      "length (mat_c s') = dim * dim"
    and ok: "band_ok dim a b (mat_c s') (matmul_band dim n t) p"
    and oth: "\<And>w. w \<noteq> t \<Longrightarrow> band_ok dim a b (mat_c s') (matmul_band dim n w) (tpc s w)"
  shows "matmul_inv dim n a b d0 s'"
proof -
  note d = i [unfolded matmul_inv_def]
  from d u(1) have t: "t < n" by (meson not_le)
  from d t u(2) have np: "mpc s \<noteq> Passed" by blast
  have c: "card {w. w < n \<and> tpc s' w = Finished} = card {w. w < n \<and> tpc s w = Finished} + of_bool (p = Finished)"
  proof (cases "p = Finished")
    case True
    then have "{w. w < n \<and> tpc s' w = Finished} = insert t {w. w < n \<and> tpc s w = Finished}"
      using t by (auto simp: s')
    with u(2) True show ?thesis by simp
  next
    case False
    with u(2) have "{w. w < n \<and> tpc s' w = Finished} = {w. w < n \<and> tpc s w = Finished}" by (auto simp: s')
    with False show ?thesis by simp
  qed
  show ?thesis
    unfolding matmul_inv_def
  proof (intro conjI allI impI)
    fix w show "band_ok dim a b (mat_c s') (matmul_band dim n w) (tpc s' w)"
      using ok oth [of w] by (simp add: s')
  next
    fix w j assume "mpc s' = Creating j" "j \<le> w"
    with d u(1) show "tpc s' w = Unborn" by (auto simp: s')
  qed (use d np t c s' in auto)
qed

lemma matmul_inv_quiet:
  assumes i: "matmul_inv dim n a b d0 s" and "tpc s t \<noteq> Unborn" "tpc s t \<noteq> Finished" "p \<noteq> Unborn"
    and "tpc s' = (tpc s)(t := p)" "mpc s' = mpc s" "ndone s' = ndone s + of_bool (p = Finished)" "mat_c s' = mat_c s"
    and "band_ok dim a b (mat_c s) (matmul_band dim n t) p"
  shows "matmul_inv dim n a b d0 s'"
  by (rule matmul_inv_thread [OF assms(1-7)]) (use assms(8,9) i in \<open>auto simp: matmul_inv_def\<close>)

lemma matmul_inv_write:
  assumes i: "matmul_inv dim n a b d0 s" and "tpc s t \<noteq> Unborn" "tpc s t \<noteq> Finished" "p \<noteq> Unborn" "p \<noteq> Finished"
    and s': "tpc s' = (tpc s)(t := p)" "mpc s' = mpc s" "ndone s' = ndone s" "mat_c s' = (mat_c s)[r * dim + j := x]"
    and r: "fst (matmul_band dim n t) \<le> r" "r < snd (matmul_band dim n t)" "j < dim"
    and ok: "band_ok dim a b (mat_c s') (matmul_band dim n t) p"
  shows "matmul_inv dim n a b d0 s'"
proof (rule matmul_inv_thread [OF assms(1-4) s'(1,2)])
  fix w assume w: "w \<noteq> t"
  obtain r0 r1 where b: "matmul_band dim n w = (r0, r1)" by (cases "matmul_band dim n w")
  have "\<not> (r0 \<le> r \<and> r < r1)" using band_disjoint [OF r(1,2), of w] w b by auto
  moreover have "band_ok dim a b (mat_c s) (r0, r1) (tpc s w)" using i b unfolding matmul_inv_def by metis
  ultimately show "band_ok dim a b (mat_c s') (matmul_band dim n w) (tpc s w)"
    unfolding s'(4) b by (intro band_ok_upd r(3))
qed (use s' ok i assms(5) in \<open>auto simp: matmul_inv_def\<close>)

lemma matmul_thread_inv:
  assumes i: "matmul_inv dim n a b d0 s" and a: "length a = dim * dim" and b: "length b = dim * dim"
  shows "matmul_inv dim n a b d0 (matmul_thread dim a b (matmul_band dim n t) t s)" (is "matmul_inv dim n a b d0 ?s")
proof -
  obtain r0 r1 where b0: "matmul_band dim n t = (r0, r1)" by (cases "matmul_band dim n t")
  have c: "length (mat_c s) = dim * dim" and ok: "band_ok dim a b (mat_c s) (r0, r1) (tpc s t)"
    using i by (auto simp: matmul_inv_def simp flip: b0)
  have dim: "r < r1 \<Longrightarrow> r < dim" for r using band_row [of r dim n t] b0 by simp
  note defs = matmul_thread_def Let_def b0
  show ?thesis
  proof (cases "tpc s t")
    case Unborn
    with i show ?thesis by (simp add: defs)
  next
    case Starting
    then show ?thesis by (intro matmul_inv_quiet [OF i, of t Waiting]) (simp_all add: defs)
  next
    case Waiting
    show ?thesis
    proof (cases "goflag s")
      case True
      with Waiting show ?thesis
        by (intro matmul_inv_quiet [OF i, of t "Row r0"]) (auto simp: defs rows_done_def)
    qed (use i Waiting in \<open>simp add: defs\<close>)
  next
    case (Row r)
    show ?thesis
    proof (cases "r < r1")
      case True
      with Row ok show ?thesis
        by (intro matmul_inv_quiet [OF i, of t "Cell r 0"]) (auto simp: defs cells_done_def)
    next
      case False
      with Row ok show ?thesis
        by (intro matmul_inv_quiet [OF i, of t Finished]) (auto simp: defs min_def split: if_splits)
    qed
  next
    case (Cell r j)
    show ?thesis
    proof (cases "j < dim")
      case True
      have l: "r * dim + j < length (mat_c s)" using True Cell ok dim [of r] index_less [of r dim j] c by simp
      with True Cell ok show ?thesis
        by (intro matmul_inv_write [OF i, where t = t and p = "Mac r j 0" and r = r and j = j and x = 0])
          (auto simp: defs rows_done_upd cells_done_upd)
    next
      case False
      with Cell ok have "rows_done dim a b (mat_c s) r0 (Suc r)" by (intro rows_done_Suc) auto
      with False Cell ok show ?thesis
        by (intro matmul_inv_quiet [OF i, of t "Row (r + 1)"]) (auto simp: defs min_def)
    qed
  next
    case (Mac r j k)
    show ?thesis
    proof (cases "k < dim")
      case True
      have "r * dim + j < length (mat_c s)" "r * dim + k < length a" "k * dim + j < length b"
        using True Mac ok dim [of r] index_less [of r dim j] index_less [of r dim k] index_less [of k dim j] a b c by auto
      with True Mac ok show ?thesis
        by (intro matmul_inv_write [OF i, where t = t and p = "Mac r j (k + 1)" and r = r and j = j
              and x = "mat_c s ! (r * dim + j) + a ! (r * dim + k) * b ! (k * dim + j)"])
          (auto simp: defs rows_done_upd cells_done_upd)
    next
      case False
      with Mac ok have "k = dim" by simp
      with Mac ok have "cells_done dim a b (mat_c s) r (Suc j)" by (auto simp: cells_done_def less_Suc_eq)
      with False Mac ok show ?thesis
        by (intro matmul_inv_quiet [OF i, of t "Cell r (j + 1)"]) (auto simp: defs)
    qed
  next
    case Finished
    with i show ?thesis by (simp add: defs)
  next
    case Fault
    with ok show ?thesis by simp
  qed
qed

lemma main_step_inv:
  assumes i: "matmul_inv dim n a b d0 s" and n: "0 < n" and d: "length d0 = dim * dim"
  shows "matmul_inv dim n a b d0 (main_step n (\<lambda>c. c = serial dim a b d0) s)"
proof (cases "mpc s")
  case (Creating j)
  show ?thesis
  proof (cases "j < n")
    case True
    have u: "tpc s j = Unborn" using i Creating by (auto simp: matmul_inv_def)
    then have "{t. t < n \<and> ((tpc s)(j := Starting)) t = Finished} = {t. t < n \<and> tpc s t = Finished}" by auto
    with i True Creating show ?thesis by (auto simp: main_step_def matmul_inv_def)
  qed (use i Creating in \<open>auto simp: main_step_def matmul_inv_def\<close>)
next
  case Await_Done
  show ?thesis
  proof (cases "ndone s = n")
    case True
    then have f: "tpc s t = Finished" if "t < n" for t using i that all_done [of s n t] by (auto simp: matmul_inv_def)
    from product_done [OF i n d f] i True f Await_Done show ?thesis by (auto simp: main_step_def matmul_inv_def)
  qed (use i Await_Done in \<open>auto simp: main_step_def matmul_inv_def\<close>)
qed (use i in \<open>auto simp: main_step_def matmul_inv_def\<close>)

section \<open>Progress\<close>

text \<open>The handshake: who has started, and when the threads are let go.\<close>

definition before :: "mm_pc \<Rightarrow> bool" where
  "before p \<longleftrightarrow> p = Unborn \<or> p = Starting"

fun created :: "nat \<Rightarrow> main_pc \<Rightarrow> nat" where
  "created n (Creating i) = i"
| "created n p = n"

definition handshake :: "nat \<Rightarrow> 'f matmul \<Rightarrow> bool" where
  "handshake n s \<longleftrightarrow> nstarted s = card {t. t < n \<and> \<not> before (tpc s t)} \<and> created n (mpc s) \<le> n \<and>
     (\<forall>t < created n (mpc s). tpc s t \<noteq> Unborn) \<and> (\<forall>t\<ge>n. tpc s t = Unborn) \<and>
     (\<forall>i. mpc s = Creating i \<longrightarrow> (\<forall>t\<ge>i. tpc s t = Unborn)) \<and>
     (mpc s = Await_Done \<longrightarrow> goflag s)"

lemma thread_effect:
  "\<exists>p. tpc (matmul_thread dim a b band t s) = (tpc s)(t := p) \<and> (tpc s t = Unborn \<longleftrightarrow> p = Unborn) \<and> p \<noteq> Starting \<and>
     nstarted (matmul_thread dim a b band t s) = nstarted s + of_bool (tpc s t = Starting) \<and>
     mpc (matmul_thread dim a b band t s) = mpc s \<and> goflag (matmul_thread dim a b band t s) = goflag s"
proof -
  have i: "tpc s = (tpc s)(t := tpc s t)" by simp
  show ?thesis
    by (cases "tpc s t"; (simp add: matmul_thread_def Let_def; fail)?)
      (use i in \<open>fastforce simp: matmul_thread_def Let_def\<close>)+
qed

lemma handshake_thread:
  assumes "handshake n s"
  shows "handshake n (matmul_thread dim a b band t s)" (is "handshake n ?s")
proof -
  from thread_effect [of dim a b band t s] obtain p where p: "tpc ?s = (tpc s)(t := p)"
    "tpc s t = Unborn \<longleftrightarrow> p = Unborn" "p \<noteq> Starting"
    "nstarted ?s = nstarted s + of_bool (tpc s t = Starting)" "mpc ?s = mpc s" "goflag ?s = goflag s" by blast
  have "card {w. w < n \<and> \<not> before (tpc ?s w)} = card {w. w < n \<and> \<not> before (tpc s w)} + of_bool (tpc s t = Starting)"
  proof (cases "tpc s t = Starting")
    case True
    then have "t < n" using assms unfolding handshake_def by (metis mm_pc.distinct(1) not_le)
    then have "{w. w < n \<and> \<not> before (tpc ?s w)} = insert t {w. w < n \<and> \<not> before (tpc s w)}"
      using p(1-3) True by (auto simp: before_def)
    with True show ?thesis by (simp add: before_def)
  next
    case False
    then have "{w. w < n \<and> \<not> before (tpc ?s w)} = {w. w < n \<and> \<not> before (tpc s w)}"
      using p(1-3) by (auto simp: before_def)
    with False show ?thesis by simp
  qed
  with assms p show ?thesis by (auto simp: handshake_def)
qed

lemma handshake_main:
  assumes "handshake n s"
  shows "handshake n (main_step n check s)"
proof (cases "mpc s")
  case (Creating i)
  show ?thesis
  proof (cases "i < n")
    case True
    have "{w. w < n \<and> \<not> before (((tpc s)(i := Starting)) w)} = {w. w < n \<and> \<not> before (tpc s w)}"
      using assms Creating by (auto simp: handshake_def before_def)
    with assms True Creating show ?thesis by (auto simp: main_step_def handshake_def less_Suc_eq)
  qed (use assms Creating in \<open>auto simp: main_step_def handshake_def\<close>)
qed (use assms in \<open>auto simp: main_step_def handshake_def\<close>)

lemma handshake_init: "handshake n (matmul_init c0)"
  by (simp add: handshake_def matmul_init_def before_def)

text \<open>An upper bound of the steps that a thread has left.\<close>

fun left :: "nat \<Rightarrow> nat \<times> nat \<Rightarrow> mm_pc \<Rightarrow> nat" where
  "left dim (r0, r1) (Row i) = (r1 - i) * (dim * (dim + 2) + 2) + 1"
| "left dim (r0, r1) (Cell i j) = (r1 - i - 1) * (dim * (dim + 2) + 2) + 2 + (dim - j) * (dim + 2)"
| "left dim (r0, r1) (Mac i j k) = (r1 - i - 1) * (dim * (dim + 2) + 2) + 2 + (dim - j - 1) * (dim + 2) + 1 + (dim - k)"
| "left dim (r0, r1) Waiting = (r1 - r0) * (dim * (dim + 2) + 2) + 2"
| "left dim (r0, r1) Starting = (r1 - r0) * (dim * (dim + 2) + 2) + 3"
| "left dim (r0, r1) Unborn = (r1 - r0) * (dim * (dim + 2) + 2) + 4"
| "left dim band p = 0"

lemma thread_left:
  assumes ok: "band_ok dim a b c (r0, r1) (tpc s t)" and p: "tpc s t \<noteq> Unborn" "tpc s t \<noteq> Finished"
    and w: "tpc s t = Waiting \<Longrightarrow> goflag s"
  shows "left dim (r0, r1) (tpc (matmul_thread dim a b (r0, r1) t s) t) < left dim (r0, r1) (tpc s t)"
proof (cases "tpc s t")
  case (Row i)
  then show ?thesis by (cases "r1 - i") (auto simp: matmul_thread_def Let_def)
next
  case (Cell i j)
  with ok have m: "r1 - (i + 1) = r1 - i - 1" by auto
  show ?thesis
  proof (cases "j < dim")
    case True
    then have "dim - j = Suc (dim - j - 1)" by simp
    then have "(dim - j) * (dim + 2) = (dim - j - 1) * (dim + 2) + (dim + 2)" by (metis add.commute mult_Suc)
    with Cell True show ?thesis by (simp add: matmul_thread_def Let_def del: mult_Suc_right add_2_eq_Suc')
  next
    case False
    with Cell m show ?thesis by (simp add: matmul_thread_def Let_def del: mult_Suc_right add_2_eq_Suc')
  qed
next
  case (Mac i j k)
  have m: "dim - (j + 1) = dim - j - 1" by simp
  show ?thesis
  proof (cases "k < dim")
    case True
    then have "dim - (k + 1) < dim - k" by simp
    with Mac True show ?thesis by (auto simp: matmul_thread_def Let_def simp del: mult_Suc_right add_2_eq_Suc')
  next
    case False
    with Mac m show ?thesis by (simp add: matmul_thread_def Let_def del: mult_Suc_right add_2_eq_Suc')
  qed
qed (use assms in \<open>auto simp: matmul_thread_def Let_def\<close>)

fun main_left :: "main_pc \<Rightarrow> nat" where
  "main_left (Creating i) = 3" | "main_left Await_Started = 2" | "main_left Await_Done = 1" | "main_left p = 0"

definition rank :: "nat \<Rightarrow> nat \<Rightarrow> 'f matmul \<Rightarrow> nat" where
  "rank dim n s = (\<Sum>t<n. left dim (matmul_band dim n t) (tpc s t)) + main_left (mpc s)"

lemma rank_less:
  assumes "t < n" and "tpc s' = (tpc s)(t := p)" and "left dim (matmul_band dim n t) p < left dim (matmul_band dim n t) (tpc s t)"
    and "mpc s' = mpc s \<or> main_left (mpc s') \<le> main_left (mpc s)"
  shows "rank dim n s' < rank dim n s"
proof -
  have "(\<Sum>t<n. left dim (matmul_band dim n t) (tpc s' t)) < (\<Sum>t<n. left dim (matmul_band dim n t) (tpc s t))"
    by (rule sum_strict_mono_ex1) (use assms(1-3) in auto)
  with assms(4) show ?thesis by (auto simp: rank_def)
qed

text \<open>Until the program has passed, some step brings it closer to its end.\<close>

lemma matmul_advances:
  assumes i: "matmul_inv dim n a b d0 s" and h: "handshake n s" and p: "mpc s \<noteq> Passed"
  shows "\<exists>s'. matmul_step dim n a b d0 s s' \<and> rank dim n s' < rank dim n s"
proof -
  let ?m = "main_step n (\<lambda>c. c = serial dim a b d0) s"
  have main: ?thesis if "rank dim n ?m < rank dim n s" using that matmul_step.main by blast
  have thread: ?thesis if t: "t < n" "tpc s t \<noteq> Unborn" "tpc s t \<noteq> Finished" "tpc s t = Waiting \<Longrightarrow> goflag s" for t
  proof -
    obtain r0 r1 where b0: "matmul_band dim n t = (r0, r1)" by (cases "matmul_band dim n t")
    let ?s = "matmul_thread dim a b (r0, r1) t s"
    have "band_ok dim a b (mat_c s) (r0, r1) (tpc s t)" using i b0 unfolding matmul_inv_def by metis
    from thread_left [OF this t(2-4)] have l: "left dim (r0, r1) (tpc ?s t) < left dim (r0, r1) (tpc s t)" .
    from thread_effect [of dim a b "(r0, r1)" t s] have "tpc ?s = (tpc s)(t := tpc ?s t)" "mpc ?s = mpc s" by auto
    from rank_less [OF t(1) this(1), of dim] l this(2) b0 have "rank dim n ?s < rank dim n s" by simp
    then show ?thesis using matmul_step.thread [of dim n a b d0 s t] unfolding b0 by blast
  qed
  have mb: "mpc s \<noteq> Bug" using i by (simp add: matmul_inv_def)
  show ?thesis
  proof (cases "mpc s")
    case (Creating k)
    show ?thesis
    proof (cases "k < n")
      case True
      have "tpc s k = Unborn" using h Creating by (simp add: handshake_def)
      then have "left dim (matmul_band dim n k) Starting < left dim (matmul_band dim n k) (tpc s k)"
        by (cases "matmul_band dim n k") simp
      then show ?thesis using True Creating by (intro main rank_less [OF True, of _ _ Starting]) (simp_all add: main_step_def)
    qed (use Creating in \<open>intro main; simp add: main_step_def rank_def\<close>)
  next
    case Await_Started
    show ?thesis
    proof (cases "nstarted s = n")
      case False
      have "\<exists>t<n. before (tpc s t)"
      proof (rule ccontr)
        assume "\<not> ?thesis"
        then have "{t. t < n \<and> \<not> before (tpc s t)} = {..<n}" by auto
        with h False show False by (simp add: handshake_def)
      qed
      then obtain t where "t < n" "before (tpc s t)" by blast
      with h Await_Started have "tpc s t = Starting" by (auto simp: handshake_def before_def)
      with \<open>t < n\<close> show ?thesis by (intro thread [of t]) simp_all
    qed (use Await_Started in \<open>intro main; simp add: main_step_def rank_def\<close>)
  next
    case Await_Done
    show ?thesis
    proof (cases "ndone s = n")
      case False
      have "\<exists>t<n. tpc s t \<noteq> Finished"
      proof (rule ccontr)
        assume "\<not> ?thesis"
        then have "{t. t < n \<and> tpc s t = Finished} = {..<n}" by auto
        with i False show False by (simp add: matmul_inv_def)
      qed
      then obtain t where "t < n" "tpc s t \<noteq> Finished" by blast
      with h Await_Done show ?thesis by (intro thread [of t]) (auto simp: handshake_def)
    qed (use Await_Done in \<open>intro main; simp add: main_step_def rank_def\<close>)
  qed (use p mb in simp_all)
qed

lemma reachable_after: "reachable (\<lambda>x. x = t) stp u \<Longrightarrow> stp s t \<Longrightarrow> reachable (\<lambda>x. x = s) stp u"
proof (induction rule: reachable.induct)
  case (start v)
  then show ?case by (auto intro: reachable.start reachable.next_state)
next
  case (next_state u v)
  then show ?case by (auto intro: reachable.next_state)
qed

lemma matmul_step_inv:
  assumes "matmul_inv dim n a b d0 s \<and> handshake n s" and "matmul_step dim n a b d0 s s'"
    and "0 < n" and "length a = dim * dim" and "length b = dim * dim" and "length d0 = dim * dim"
  shows "matmul_inv dim n a b d0 s' \<and> handshake n s'"
  using assms(2,1) by cases (auto intro: matmul_thread_inv main_step_inv handshake_thread handshake_main assms(3-6))

lemma matmul_finishes:
  assumes "matmul_inv dim n a b d0 s" and "handshake n s"
    and "0 < n" and "length a = dim * dim" and "length b = dim * dim" and "length d0 = dim * dim"
  shows "\<exists>s'. reachable (\<lambda>x. x = s) (matmul_step dim n a b d0) s' \<and> mpc s' = Passed"
  using assms(1,2)
proof (induction "rank dim n s" arbitrary: s rule: less_induct)
  case less
  show ?case
  proof (cases "mpc s = Passed")
    case True
    then show ?thesis by (intro exI [of _ s]) (auto intro: reachable.start)
  next
    case False
    from matmul_advances [OF less.prems False] obtain u where u: "matmul_step dim n a b d0 s u" "rank dim n u < rank dim n s"
      by blast
    from matmul_step_inv [OF _ u(1) assms(3-6)] less.prems have "matmul_inv dim n a b d0 u" "handshake n u" by blast+
    from less.hyps [OF u(2) this] obtain v where v: "reachable (\<lambda>x. x = u) (matmul_step dim n a b d0) v" "mpc v = Passed"
      by blast
    show ?thesis by (intro exI conjI, rule reachable_after [OF v(1) u(1)], rule v(2))
  qed
qed

text \<open>C20: however its threads are scheduled, matmul.c stays inside its arrays and never finds its
  result wrong: at the end the rows written by the threads are, bit for bit, the product that
  \<open>main\<close> computes, for every size, every positive number of threads and every arithmetic of \<open>float\<close>.
  And it can always go on to its end: no schedule leads to a deadlock of the handshake.\<close>

theorem matmul_correct:
  assumes "reachable (\<lambda>s. s = matmul_init c0) (matmul_step dim n a b d0) s"
    and "0 < n" and "length a = dim * dim" and "length b = dim * dim" and "length c0 = dim * dim" and "length d0 = dim * dim"
  shows "tpc s t \<noteq> Fault \<and> mpc s \<noteq> Bug \<and> (mpc s = Passed \<longrightarrow> mat_c s = serial dim a b d0) \<and>
    (\<exists>s'. reachable (\<lambda>x. x = s) (matmul_step dim n a b d0) s' \<and> mpc s' = Passed)"
proof -
  have i: "matmul_inv dim n a b d0 s \<and> handshake n s"
  proof (rule reachable_invariant [OF assms(1)])
    fix s s' assume "matmul_inv dim n a b d0 s \<and> handshake n s" and "matmul_step dim n a b d0 s s'"
    then show "matmul_inv dim n a b d0 s' \<and> handshake n s'" by (rule matmul_step_inv) (rule assms)+
  qed (use matmul_inv_init [OF assms(5)] handshake_init in blast)
  note v = conjunct1 [OF i, unfolded matmul_inv_def]
  have "tpc s t \<noteq> Fault"
  proof
    assume "tpc s t = Fault"
    moreover have "band_ok dim a b (mat_c s) (matmul_band dim n t) (tpc s t)" using v by blast
    ultimately show False by simp
  qed
  moreover have "mpc s \<noteq> Bug" "mpc s = Passed \<longrightarrow> mat_c s = serial dim a b d0" using v by blast+
  ultimately show ?thesis
    using matmul_finishes [OF conjunct1 [OF i] conjunct2 [OF i] assms(2-4,6)] by (intro conjI)
qed

section \<open>Runs\<close>

text \<open>A schedule names the thread that moves, or \<open>main\<close> by \<open>None\<close>.\<close>

fun run_matmul :: "nat \<Rightarrow> nat \<Rightarrow> 'f::{zero,plus,times} list \<Rightarrow> 'f list \<Rightarrow> (nat \<Rightarrow> nat \<times> nat) \<Rightarrow> ('f list \<Rightarrow> bool) \<Rightarrow>
    nat option list \<Rightarrow> 'f matmul \<Rightarrow> 'f matmul" where
  "run_matmul dim n a b band check [] s = s"
| "run_matmul dim n a b band check (None # ts) s = run_matmul dim n a b band check ts (main_step n check s)"
| "run_matmul dim n a b band check (Some t # ts) s =
     run_matmul dim n a b band check ts (matmul_thread dim a b (band t) t s)"

lemma run_matmul_reachable:
  "reachable I (matmul_step dim n a b d0) s \<Longrightarrow>
   reachable I (matmul_step dim n a b d0) (run_matmul dim n a b (matmul_band dim n) (\<lambda>c. c = serial dim a b d0) ts s)"
proof (induction ts arbitrary: s)
  case (Cons t ts)
  then show ?case
    by (cases t) (auto intro: reachable.next_state matmul_step.intros)
qed simp

lemma run_block_reachable:
  "reachable I (block_step dim n a b) s \<Longrightarrow>
   reachable I (block_step dim n a b) (run_matmul dim n a b (block_band dim n) (\<lambda>_. True) ts s)"
proof (induction ts arbitrary: s)
  case (Cons t ts)
  then show ?case
    by (cases t) (auto intro: reachable.next_state block_step.intros)
qed simp

theorem matmul_correct_witness:
  "\<exists>s. reachable (\<lambda>s. s = matmul_init [9]) (matmul_step 1 2 [3] [4] [7 :: nat]) s \<and>
     (tpc s 0 \<noteq> Fault \<and> mpc s \<noteq> Bug \<and> (mpc s = Passed \<longrightarrow> mat_c s = serial 1 [3] [4] [7])) \<and> mpc s = Passed"
proof -
  let ?i = "matmul_init [9]"
  let ?s = "run_matmul 1 2 [3] [4] (matmul_band 1 2) (\<lambda>c. c = serial 1 [3] [4] [7 :: nat])
    ([None, None, Some 1, None, Some 0, None] @ replicate 3 (Some 1) @ replicate 7 (Some 0) @ [None]) ?i"
  have r: "reachable (\<lambda>s. s = ?i) (matmul_step 1 2 [3] [4] [7]) ?s"
    by (rule run_matmul_reachable) (rule reachable.start, rule refl)
  have "mpc ?s = Passed" by code_simp
  then show ?thesis
    using matmul_correct [OF r, of 0] r by (intro exI [of _ ?s]) simp
qed

section \<open>The bands of matmul_block.c\<close>

lemma block_band_outside: "0 < n \<Longrightarrow> dim \<le> fst (block_band dim n t)"
proof -
  assume n: "0 < n"
  have "dim + n - 1 < (bandsize dim n + 1) * n"
    using div_less_iff_less_mult [of n "dim + n - 1" "bandsize dim n + 1"] n by (simp add: bandsize_def)
  then have "dim \<le> bandsize dim n * n" using n by (simp add: algebra_simps)
  then show ?thesis by (simp add: block_band_def)
qed

text \<open>No thread is at a row of the matrix.\<close>

fun outside :: "nat \<Rightarrow> mm_pc \<Rightarrow> bool" where
  "outside dim (Row i) = (dim \<le> i)"
| "outside dim (Cell i j) = (dim \<le> i)"
| "outside dim (Mac i j k) = False"
| "outside dim p = True"

definition block_inv :: "nat \<Rightarrow> 'f list \<Rightarrow> 'f matmul \<Rightarrow> bool" where
  "block_inv dim c0 s \<longleftrightarrow> mat_c s = c0 \<and> (\<forall>t. outside dim (tpc s t))"

lemma block_thread_inv:
  assumes i: "block_inv dim c0 s" and c: "length c0 = dim * dim" and band: "dim \<le> fst band"
  shows "block_inv dim c0 (matmul_thread dim a b band t s)"
proof -
  have o: "outside dim (tpc s t)" using i by (simp add: block_inv_def)
  have "\<not> r * dim + j < dim * dim" if "dim \<le> r" for r j
  proof -
    have "dim * dim \<le> r * dim" using that by (rule mult_right_mono) simp
    then have "dim * dim \<le> r * dim + j" by (rule trans_le_add1)
    then show ?thesis by (rule leD)
  qed
  with i c band o show ?thesis
    by (cases "tpc s t") (auto simp: block_inv_def matmul_thread_def Let_def split: if_splits)
qed

text \<open>C39: matmul_block.c multiplies nothing. The band of every thread begins at \<open>bandsize * nthread\<close>, which
  is behind the last row (the code has \<open>nthread\<close> where it means the number of the thread): no element
  of the result is ever written, and the program ends without noticing, or after an access outside
  the array.\<close>

theorem matmul_block_never_computes:
  assumes "reachable (\<lambda>s. s = matmul_init c0) (block_step dim n a b) s" and "0 < n" and "length c0 = dim * dim"
  shows "mat_c s = c0 \<and> (\<forall>t i j k. tpc s t \<noteq> Mac i j k)"
proof -
  have "block_inv dim c0 s"
  proof (rule reachable_invariant [OF assms(1)])
    fix s s' assume "block_inv dim c0 s" and "block_step dim n a b s s'"
    from this(2,1) show "block_inv dim c0 s'"
    proof cases
      case (thread t)
      with block_thread_inv [OF \<open>block_inv dim c0 s\<close> assms(3) block_band_outside [OF assms(2)]] show ?thesis by simp
    next
      case main
      with \<open>block_inv dim c0 s\<close> show ?thesis
        by (cases "mpc s") (auto simp: main_step_def block_inv_def)
    qed
  qed (simp add: block_inv_def matmul_init_def)
  then show ?thesis unfolding block_inv_def by (metis outside.simps(3))
qed

text \<open>With one thread the program ends with the result untouched; with two threads and four rows
  thread 0 writes outside the array.\<close>

theorem matmul_block_never_computes_witness:
  "(\<exists>s. reachable (\<lambda>s. s = matmul_init [5]) (block_step 1 1 [1] [1 :: nat]) s \<and> mpc s = Passed \<and> mat_c s = [5]) \<and>
   (\<exists>s. reachable (\<lambda>s. s = matmul_init (replicate 16 5)) (block_step 4 2 (mat_a id 4) (mat_b id 4 :: nat list)) s \<and>
     tpc s 0 = Fault)"
proof
  let ?i = "matmul_init [5 :: nat]"
  let ?s = "run_matmul 1 1 [1] [1] (block_band 1 1) (\<lambda>_. True) [None, None, Some 0, None, Some 0, Some 0, None] ?i"
  have r: "reachable (\<lambda>s. s = ?i) (block_step 1 1 [1] [1]) ?s"
    by (rule run_block_reachable) (rule reachable.start, rule refl)
  have "mpc ?s = Passed" by code_simp
  moreover have "mat_c ?s = [5]" using matmul_block_never_computes [OF r] by simp
  ultimately show "\<exists>s. reachable (\<lambda>s. s = ?i) (block_step 1 1 [1] [1]) s \<and> mpc s = Passed \<and> mat_c s = [5]"
    using r by blast
next
  let ?a = "mat_a id 4 :: nat list" and ?b = "mat_b id 4 :: nat list" and ?i = "matmul_init (replicate 16 5)"
  let ?s = "run_matmul 4 2 ?a ?b (block_band 4 2) (\<lambda>_. True)
    [None, None, None, Some 0, Some 1, None, Some 0, Some 0, Some 0] ?i"
  have "reachable (\<lambda>s. s = ?i) (block_step 4 2 ?a ?b) ?s"
    by (rule run_block_reachable) (rule reachable.start, rule refl)
  moreover have "tpc ?s 0 = Fault" by code_simp
  ultimately show "\<exists>s. reachable (\<lambda>s. s = ?i) (block_step 4 2 ?a ?b) s \<and> tpc s 0 = Fault" by blast
qed

end
