(* ===== verification/Route_Refcnt.thy ===== *)
theory Route_Refcnt
  imports Prelude
begin

text \<open>
  defer/route_refcnt.c: a routing table whose entries are reference-counted, with lookups that take
  no lock. The model has one transition per access of shared memory; a thread that holds the lock
  changes the list in one transition, the single store that readers can see. An address stands for
  one allocation, and an access of freed memory, which the code detects by \<open>re_freed\<close>, leads to \<open>Crash\<close>.
  The counters are integers: a count is at most two more than the number of threads.
\<close>

datatype link = Header | Next nat

datatype mem = Unused | Allocated | Freed

datatype rr_pc = Idle
  | Advance ulong link              \<comment> \<open>\<open>route_lookup\<close>, before \<open>READ_ONCE( *repp)\<close>\<close>
  | Test ulong nat                  \<comment> \<open>before the read of \<open>re_freed\<close>\<close>
  | Acquire ulong nat               \<comment> \<open>before \<open>atomic_read\<close>\<close>
  | Cas ulong nat int               \<comment> \<open>before \<open>atomic_cmpxchg\<close>, with \<open>old\<close>\<close>
  | Held ulong nat                  \<comment> \<open>before the comparison of \<open>rep->addr\<close>\<close>
  | Drop ulong nat                  \<comment> \<open>before the \<open>atomic_dec_and_test\<close> of the next round\<close>
  | Found ulong nat                 \<comment> \<open>before the read of \<open>rep->iface\<close>\<close>
  | Release nat                     \<comment> \<open>before the last \<open>atomic_dec_and_test\<close> of a lookup or removal\<close>
  | Clearing "nat option"           \<comment> \<open>the loop of \<open>route_clear\<close>\<close>
  | Freeing rr_pc nat               \<comment> \<open>\<open>re_free\<close>, with what follows it\<close>
  | Crash

record rr_state =
  route_list :: "nat option"
  re_next :: "nat \<Rightarrow> nat option"
  re_addr :: "nat \<Rightarrow> ulong"
  re_iface :: "nat \<Rightarrow> ulong"
  re_refcnt :: "nat \<Rightarrow> int"
  mem :: "nat \<Rightarrow> mem"
  routelock :: "nat option"
  rpc :: "nat \<Rightarrow> rr_pc"

fun deref :: "rr_state \<Rightarrow> link \<Rightarrow> nat option" where
  "deref s Header = route_list s"
| "deref s (Next e) = re_next s e"

fun set_link :: "link \<Rightarrow> nat option \<Rightarrow> rr_state \<Rightarrow> rr_state" where
  "set_link Header p s = s\<lparr>route_list := p\<rparr>"
| "set_link (Next e) p s = s\<lparr>re_next := (re_next s)(e := p)\<rparr>"

text \<open>The entry that the next access of a lookup touches.\<close>

fun touches :: "rr_pc \<Rightarrow> nat option" where
  "touches (Advance a (Next e)) = Some e"
| "touches (Test a e) = Some e" | "touches (Acquire a e) = Some e" | "touches (Cas a e old) = Some e"
| "touches (Held a e) = Some e" | "touches (Drop a e) = Some e" | "touches (Found a e) = Some e"
| "touches (Release e) = Some e" | "touches (Freeing k e) = Some e" | "touches (Clearing (Some e)) = Some e"
| "touches p = None"

definition touch_ok :: "rr_state \<Rightarrow> nat \<Rightarrow> bool" where
  "touch_ok s t \<longleftrightarrow> (case touches (rpc s t) of None \<Rightarrow> True | Some e \<Rightarrow> mem s e = Allocated)"

text \<open>\<open>if (atomic_dec_and_test(&rep->re_refcnt)) re_free(rep)\<close>, followed by \<open>k\<close>.\<close>

definition dec_and_free :: "nat \<Rightarrow> nat \<Rightarrow> rr_pc \<Rightarrow> rr_state \<Rightarrow> rr_state" where
  "dec_and_free t e k s = s\<lparr>re_refcnt := (re_refcnt s)(e := re_refcnt s e - 1),
     rpc := (rpc s)(t := if re_refcnt s e - 1 = 0 then Freeing k e else k)\<rparr>"

definition re_free :: "nat \<Rightarrow> nat \<Rightarrow> rr_pc \<Rightarrow> rr_state \<Rightarrow> rr_state" where
  "re_free t e k s = s\<lparr>mem := (mem s)(e := Freed), rpc := (rpc s)(t := k)\<rparr>"

text \<open>A step labelled \<open>Some (a, v)\<close> reads the value that the lookup of \<open>a\<close> returns; \<open>- 1\<close> is \<open>ULONG_MAX\<close>.\<close>

inductive route_lookup :: "nat \<Rightarrow> rr_state \<Rightarrow> (ulong \<times> ulong) option \<Rightarrow> rr_state \<Rightarrow> bool" for t s where
  call: "rpc s t = Idle \<Longrightarrow> route_lookup t s None (s\<lparr>rpc := (rpc s)(t := Advance a Header)\<rparr>)"
| missing: "rpc s t = Advance a p \<Longrightarrow> touch_ok s t \<Longrightarrow> deref s p = None \<Longrightarrow>
    route_lookup t s (Some (a, - 1)) (s\<lparr>rpc := (rpc s)(t := Idle)\<rparr>)"
| advance: "rpc s t = Advance a p \<Longrightarrow> touch_ok s t \<Longrightarrow> deref s p = Some e \<Longrightarrow>
    route_lookup t s None (s\<lparr>rpc := (rpc s)(t := Test a e)\<rparr>)"
| test: "rpc s t = Test a e \<Longrightarrow> touch_ok s t \<Longrightarrow>
    route_lookup t s None (s\<lparr>rpc := (rpc s)(t := Acquire a e)\<rparr>)"
| load: "rpc s t = Acquire a e \<Longrightarrow> touch_ok s t \<Longrightarrow> route_lookup t s None
    (s\<lparr>rpc := (rpc s)(t := if re_refcnt s e \<le> 0 then Advance a Header else Cas a e (re_refcnt s e))\<rparr>)"
| cmpxchg: "rpc s t = Cas a e old \<Longrightarrow> touch_ok s t \<Longrightarrow> re_refcnt s e = old \<Longrightarrow> route_lookup t s None
    (s\<lparr>re_refcnt := (re_refcnt s)(e := old + 1), rpc := (rpc s)(t := Held a e)\<rparr>)"
| cmpxchg_fails: "rpc s t = Cas a e old \<Longrightarrow> touch_ok s t \<Longrightarrow> re_refcnt s e \<noteq> old \<Longrightarrow> route_lookup t s None
    (s\<lparr>rpc := (rpc s)(t := Test a e)\<rparr>)"
| compare: "rpc s t = Held a e \<Longrightarrow> touch_ok s t \<Longrightarrow> route_lookup t s None
    (s\<lparr>rpc := (rpc s)(t := if re_addr s e \<noteq> a then Drop a e else Found a e)\<rparr>)"
| next_round: "rpc s t = Drop a e \<Longrightarrow> touch_ok s t \<Longrightarrow>
    route_lookup t s None (dec_and_free t e (Advance a (Next e)) s)"
| iface: "rpc s t = Found a e \<Longrightarrow> touch_ok s t \<Longrightarrow>
    route_lookup t s (Some (a, re_iface s e)) (s\<lparr>rpc := (rpc s)(t := Release e)\<rparr>)"
| release: "rpc s t = Release e \<Longrightarrow> touch_ok s t \<Longrightarrow> route_lookup t s None (dec_and_free t e Idle s)"
| free: "rpc s t = Freeing k e \<Longrightarrow> touch_ok s t \<Longrightarrow> route_lookup t s None (re_free t e k s)"
| freed: "\<not> touch_ok s t \<Longrightarrow> route_lookup t s None (s\<lparr>rpc := (rpc s)(t := Crash)\<rparr>)"

text \<open>The loop of \<open>route_del\<close>: the link and the entry at which it stops.\<close>

inductive del_walk :: "rr_state \<Rightarrow> ulong \<Rightarrow> link \<Rightarrow> link \<Rightarrow> nat \<Rightarrow> bool" for s addr where
  here: "deref s p = Some e \<Longrightarrow> re_addr s e = addr \<Longrightarrow> del_walk s addr p p e"
| further: "deref s p = Some x \<Longrightarrow> re_addr s x \<noteq> addr \<Longrightarrow> del_walk s addr (Next x) q e \<Longrightarrow>
     del_walk s addr p q e"

text \<open>A removal that finds no entry changes nothing.\<close>

inductive route_update :: "nat \<Rightarrow> rr_state \<Rightarrow> rr_state \<Rightarrow> bool" for t s where
  route_add: "rpc s t = Idle \<Longrightarrow> routelock s = None \<Longrightarrow> mem s e = Unused \<Longrightarrow> route_update t s
     (s\<lparr>mem := (mem s)(e := Allocated), re_refcnt := (re_refcnt s)(e := 1),
        re_addr := (re_addr s)(e := addr), re_iface := (re_iface s)(e := interface),
        re_next := (re_next s)(e := route_list s), route_list := Some e\<rparr>)"
| route_del: "rpc s t = Idle \<Longrightarrow> routelock s = None \<Longrightarrow> del_walk s addr Header q e \<Longrightarrow> route_update t s
     ((set_link q (re_next s e) s)\<lparr>rpc := (rpc s)(t := Release e)\<rparr>)"
| route_clear: "rpc s t = Idle \<Longrightarrow> routelock s = None \<Longrightarrow> route_update t s
     (s\<lparr>route_list := None, routelock := Some t, rpc := (rpc s)(t := Clearing (route_list s))\<rparr>)"
| clear_one: "rpc s t = Clearing (Some e) \<Longrightarrow> touch_ok s t \<Longrightarrow> route_update t s
     (dec_and_free t e (Clearing (re_next s e)) s)"
| cleared: "rpc s t = Clearing None \<Longrightarrow> route_update t s
     (s\<lparr>routelock := None, rpc := (rpc s)(t := Idle)\<rparr>)"

inductive rr_step :: "rr_state \<Rightarrow> (ulong \<times> ulong) option \<Rightarrow> rr_state \<Rightarrow> bool" where
  lookup: "t < NR_THREADS \<Longrightarrow> route_lookup t s r s' \<Longrightarrow> rr_step s r s'"
| update: "t < NR_THREADS \<Longrightarrow> route_update t s s' \<Longrightarrow> rr_step s None s'"

definition rr_init :: rr_state where
  "rr_init = \<lparr>route_list = None, re_next = (\<lambda>_. None), re_addr = (\<lambda>_. 0), re_iface = (\<lambda>_. 0),
     re_refcnt = (\<lambda>_. 0), mem = (\<lambda>_. Unused), routelock = None, rpc = (\<lambda>_. Idle)\<rparr>"

abbreviation rr_reachable :: "rr_state \<Rightarrow> bool" where
  "rr_reachable \<equiv> reachable (\<lambda>s. s = rr_init) (\<lambda>s s'. \<exists>r. rr_step s r s')"

section \<open>Counting references\<close>

text \<open>The entry that a thread has a reference to, and the entry that it is about to free.\<close>

fun holds :: "rr_pc \<Rightarrow> nat option" where
  "holds (Held a e) = Some e" | "holds (Drop a e) = Some e" | "holds (Found a e) = Some e"
| "holds (Release e) = Some e" | "holds p = None"

fun frees :: "rr_pc \<Rightarrow> nat option" where
  "frees (Freeing k e) = Some e" | "frees p = None"

text \<open>The references of the threads \<open>h\<close> and of the lists, whose entries are \<open>L\<close>.\<close>

definition refs :: "nat set \<Rightarrow> (nat \<Rightarrow> nat option) \<Rightarrow> nat \<Rightarrow> nat" where
  "refs L h e = of_bool (e \<in> L) + (\<Sum>t<NR_THREADS. of_bool (h t = Some e))"

definition refs_ok :: "nat set \<Rightarrow> (nat \<Rightarrow> nat option) \<Rightarrow> (nat \<Rightarrow> nat option) \<Rightarrow> (nat \<Rightarrow> mem) \<Rightarrow> (nat \<Rightarrow> int) \<Rightarrow> bool" where
  "refs_ok L h f m c \<longleftrightarrow> (\<forall>e \<in> L. m e = Allocated) \<and>
     (\<forall>t e. h t = Some e \<longrightarrow> t < NR_THREADS \<and> m e = Allocated) \<and>
     (\<forall>e. m e = Allocated \<longrightarrow> c e = int (refs L h e)) \<and>
     (\<forall>t e. f t = Some e \<longrightarrow> m e = Allocated \<and> c e = 0) \<and>
     (\<forall>t u e. f t = Some e \<longrightarrow> f u = Some e \<longrightarrow> t = u)"

lemma refs_okD:
  assumes "refs_ok L h f m c"
  shows "e \<in> L \<Longrightarrow> m e = Allocated" and "h t = Some e \<Longrightarrow> t < NR_THREADS \<and> m e = Allocated"
    and "m e = Allocated \<Longrightarrow> c e = int (refs L h e)" and "f t = Some e \<Longrightarrow> m e = Allocated \<and> c e = 0"
    and "f t = Some e \<Longrightarrow> f u = Some e \<Longrightarrow> t = u"
  using assms unfolding refs_ok_def by blast+

lemma refs_pos: "e \<in> L \<Longrightarrow> 0 < refs L h e" "t < NR_THREADS \<Longrightarrow> h t = Some e \<Longrightarrow> 0 < refs L h e"
  by (auto simp: refs_def intro!: sum_pos2 [of _ t])

lemma refs_ok_pos:
  assumes "refs_ok L h f m c" and "e \<in> L \<or> h t = Some e"
  shows "0 < c e" and "f u \<noteq> Some e"
proof -
  show "0 < c e" using assms(2) refs_okD(1-3) [OF assms(1)] refs_pos(1) [of e L h] refs_pos(2) [of t h e L] by auto
  with refs_okD(4) [OF assms(1), of u e] show "f u \<noteq> Some e" by auto
qed

lemma refs_ok_zero:
  assumes "refs_ok L h f m c" and "f t = Some e"
  shows "refs L h e = 0"
  using refs_okD(3,4) [OF assms(1)] assms(2) by fastforce

lemma refs_hold: "t < NR_THREADS \<Longrightarrow> h t = None \<Longrightarrow> refs L (h(t := Some e)) x = refs L h x + of_bool (x = e)"
proof -
  assume t: "t < NR_THREADS" "h t = None"
  have "(\<Sum>u<NR_THREADS. of_bool ((h(t := Some e)) u = Some x) :: nat) =
      (\<Sum>u<NR_THREADS. ((\<lambda>u. of_bool (h u = Some x)) (t := of_bool (x = e))) u)"
    by (rule sum.cong) auto
  with t sum_fun_upd_finite [of "{..<NR_THREADS}" t "\<lambda>u. of_bool (h u = Some x)" "of_bool (x = e)"]
  show ?thesis by (simp add: refs_def)
qed

lemma refs_unhold: "t < NR_THREADS \<Longrightarrow> h t = Some e \<Longrightarrow> refs L h x = refs L (h(t := None)) x + of_bool (x = e)"
  using refs_hold [of t "h(t := None)" L e x] by (simp add: fun_upd_idem)

lemma refs_list: "e \<notin> L \<Longrightarrow> refs (insert e L) h x = refs L h x + of_bool (x = e)"
  by (auto simp: refs_def)

lemma refs_acquire:
  assumes i: "refs_ok L h f m c" and t: "t < NR_THREADS" "h t = None" and e: "m e = Allocated" "0 < c e"
  shows "refs_ok L (h(t := Some e)) f m (c(e := c e + 1))"
  using i e refs_hold [OF t(1), of h L e] t by (force simp: refs_ok_def)

lemma refs_drop:
  assumes i: "refs_ok L h f m c" and e: "e \<in> L \<or> h t = Some e" and f: "f t = None"
    and r: "\<And>x. refs L h x = refs L' h' x + of_bool (x = e)"
    and l: "L' \<subseteq> L" "\<And>u x. h' u = Some x \<Longrightarrow> h u = Some x"
  shows "refs_ok L' h' (f(t := if c e - 1 = 0 then Some e else None)) m (c(e := c e - 1))"
proof -
  note d = refs_okD [OF i] and p = refs_ok_pos [OF i e]
  have "m e = Allocated" using e d(1,2) by blast
  then have c: "m x = Allocated \<Longrightarrow> (c(e := c e - 1)) x = int (refs L' h' x)" for x
    using d(3) [of x] r [of x] by (cases "x = e") simp_all
  have f': "(f(t := if c e - 1 = 0 then Some e else None)) u = Some x \<Longrightarrow>
      m x = Allocated \<and> (c(e := c e - 1)) x = 0" for u x
    using d(4) [of u x] p(2) [of u] \<open>m e = Allocated\<close> by (auto split: if_splits)
  have u: "u = v" if "(f(t := if c e - 1 = 0 then Some e else None)) u = Some x"
    "(f(t := if c e - 1 = 0 then Some e else None)) v = Some x" for u v x
    using that d(5) [of u x v] p(2) by (auto split: if_splits)
  have a: "x \<in> L' \<Longrightarrow> m x = Allocated" "h' v = Some x \<Longrightarrow> v < NR_THREADS \<and> m x = Allocated" for v x
    using l d(1,2) by blast+
  show ?thesis unfolding refs_ok_def using a c f' u by blast
qed

text \<open>A removal hands the reference of the list over to the thread.\<close>

lemma refs_unlink:
  assumes i: "refs_ok L h f m c" and e: "e \<in> L" and t: "t < NR_THREADS" "h t = None"
  shows "refs_ok (L - {e}) (h(t := Some e)) f m c"
proof -
  have "refs (L - {e}) (h(t := Some e)) x = refs L h x" for x
    using refs_hold [OF t(1), of h "L - {e}" e x] refs_list [of e "L - {e}" h x] t e by (simp add: insert_absorb)
  with refs_okD [OF i] refs_ok_zero [OF i] e t(1) show ?thesis unfolding refs_ok_def by auto
qed

lemma refs_add:
  assumes i: "refs_ok L h f m c" and e: "m e = Unused"
  shows "refs_ok (insert e L) h f (m(e := Allocated)) (c(e := 1))"
proof -
  note d = refs_okD [OF i]
  have n: "e \<notin> L" "h t \<noteq> Some e" "f t \<noteq> Some e" for t using d(1,2,4) e by (metis mem.distinct(1))+
  then have "refs L h e = 0" by (simp add: refs_def)
  with n refs_list [OF n(1), of h] d refs_ok_zero [OF i] show ?thesis by (auto simp: refs_ok_def)
qed

lemma refs_free:
  assumes i: "refs_ok L h f m c" and e: "f t = Some e"
  shows "refs_ok L h (f(t := None)) (m(e := Freed)) c"
proof -
  note d = refs_okD [OF i]
  have "c e = 0" using d(4) [OF e] by blast
  then have n: "e \<notin> L" "h u \<noteq> Some e" for u using refs_ok_pos(1) [OF i, of e u] by auto
  with d(5) [OF e] d refs_ok_zero [OF i] show ?thesis by (auto simp: refs_ok_def)
qed

section \<open>The invariant\<close>

fun links :: "(nat \<Rightarrow> nat option) \<Rightarrow> nat option \<Rightarrow> nat list \<Rightarrow> bool" where
  "links n p [] \<longleftrightarrow> p = None"
| "links n p (x # xs) \<longleftrightarrow> p = Some x \<and> links n (n x) xs"

text \<open>What \<open>route_clear\<close> has still to do.\<close>

fun clearing :: "rr_pc \<Rightarrow> bool" where
  "clearing (Clearing p) = True" | "clearing (Freeing k e) = clearing k" | "clearing p = False"

fun rest :: "rr_pc \<Rightarrow> nat option" where
  "rest (Clearing p) = p" | "rest (Freeing k e) = rest k" | "rest p = None"

fun plain :: "rr_pc \<Rightarrow> bool" where
  "plain Idle = True" | "plain (Advance a p) = True" | "plain (Clearing p) = True" | "plain p = False"

fun pc_ok :: "(nat \<Rightarrow> ulong) \<Rightarrow> rr_pc \<Rightarrow> bool" where
  "pc_ok ad (Found a e) \<longleftrightarrow> ad e = a"
| "pc_ok ad (Freeing k e) \<longleftrightarrow> plain k"
| "pc_ok ad (Cas a e old) \<longleftrightarrow> 0 < old"
| "pc_ok ad p \<longleftrightarrow> True"

definition todo :: "nat option \<Rightarrow> (nat \<Rightarrow> rr_pc) \<Rightarrow> nat option" where
  "todo l f = (case l of None \<Rightarrow> None | Some t \<Rightarrow> rest (f t))"

definition rr_core :: "rr_state \<Rightarrow> nat list \<Rightarrow> nat list \<Rightarrow> bool" where
  "rr_core s xs ts \<longleftrightarrow> links (re_next s) (route_list s) xs \<and>
     links (re_next s) (todo (routelock s) (rpc s)) ts \<and> distinct (xs @ ts) \<and>
     lock_ok clearing (routelock s) (rpc s) \<and>
     refs_ok (set (xs @ ts)) (holds \<circ> rpc s) (frees \<circ> rpc s) (mem s) (re_refcnt s) \<and>
     (\<forall>t. pc_ok (re_addr s) (rpc s t))"

lemma rr_coreD:
  assumes "rr_core s xs ts"
  shows "links (re_next s) (route_list s) xs" and "links (re_next s) (todo (routelock s) (rpc s)) ts"
    and "distinct (xs @ ts)" and "lock_ok clearing (routelock s) (rpc s)"
    and "refs_ok (set (xs @ ts)) (holds \<circ> rpc s) (frees \<circ> rpc s) (mem s) (re_refcnt s)"
    and "pc_ok (re_addr s) (rpc s t)"
  using assms unfolding rr_core_def by blast+

definition rr_inv :: "rr_state \<Rightarrow> bool" where
  "rr_inv s \<longleftrightarrow> (\<exists>xs ts. rr_core s xs ts)"

lemma plain_simps: "plain k \<Longrightarrow> holds k = None" "plain k \<Longrightarrow> frees k = None" "plain k \<Longrightarrow> pc_ok ad k"
  by (cases k; simp)+

lemma not_clearing: "\<not> clearing p \<Longrightarrow> rest p = None"
  by (induction p) auto

lemma todo_upd: "rest q = rest (f t) \<Longrightarrow> todo l (f(t := q)) = todo l f"
  by (cases l) (auto simp: todo_def)

lemma lock_same: "lock_ok clearing l f \<Longrightarrow> clearing q = clearing (f t) \<Longrightarrow> lock_ok clearing l (f(t := q))"
  by (auto simp: lock_ok_def)

text \<open>A thread moves on without a change of its references.\<close>

lemma rr_move:
  assumes "rr_core s xs ts" and "holds q = holds (rpc s t)" and "frees q = frees (rpc s t)"
    and "clearing q = clearing (rpc s t)" and "rest q = rest (rpc s t)" and "pc_ok (re_addr s) q"
  shows "rr_core (s\<lparr>rpc := (rpc s)(t := q)\<rparr>) xs ts"
proof -
  have "holds \<circ> (rpc s)(t := q) = holds \<circ> rpc s" "frees \<circ> (rpc s)(t := q) = frees \<circ> rpc s"
    using assms(2,3) by auto
  with rr_coreD [OF assms(1)] assms(4-6) show ?thesis
    by (simp add: rr_core_def todo_upd lock_same)
qed

lemma rr_acquire:
  assumes "rr_core s xs ts" and "t < NR_THREADS" and "rpc s t = Cas a e old" and "mem s e = Allocated"
    and "re_refcnt s e = old"
  shows "0 < old \<Longrightarrow> rr_core (s\<lparr>re_refcnt := (re_refcnt s)(e := old + 1), rpc := (rpc s)(t := Held a e)\<rparr>) xs ts"
proof -
  assume "0 < old"
  note c = rr_coreD [OF assms(1)]
  have "refs_ok (set (xs @ ts)) ((holds \<circ> rpc s)(t := Some e)) (frees \<circ> rpc s) (mem s)
      ((re_refcnt s)(e := re_refcnt s e + 1))"
    by (rule refs_acquire [OF c(5)]) (use assms \<open>0 < old\<close> in simp_all)
  moreover have "(holds \<circ> rpc s)(t := Some e) = holds \<circ> (rpc s)(t := Held a e)"
    "frees \<circ> rpc s = frees \<circ> (rpc s)(t := Held a e)" using assms(3) by auto
  ultimately show ?thesis using c assms(3,5) by (simp add: rr_core_def todo_upd lock_same)
qed

text \<open>A reference is dropped, by a thread that holds it or from the list being cleared.\<close>

lemma comp_dec:
  assumes "plain k"
  shows "holds \<circ> f(t := if b then Freeing k e else k) = (holds \<circ> f)(t := None)"
    and "frees \<circ> f(t := if b then Freeing k e else k) = (frees \<circ> f)(t := if b then Some e else None)"
  using plain_simps [OF assms] by auto

lemma rr_drop:
  assumes "rr_core s xs ts" and "holds (rpc s t) = Some e" and "plain k" and "\<not> clearing k"
  shows "rr_core (dec_and_free t e k s) xs ts"
proof -
  note c = rr_coreD [OF assms(1)]
  have p: "frees (rpc s t) = None" "\<not> clearing (rpc s t)" using assms(2) by (cases "rpc s t"; simp)+
  have t: "t < NR_THREADS" using refs_okD(2) [OF c(5), of t e] assms(2) by simp
  define q where "q = (if re_refcnt s e - 1 = 0 then Freeing k e else k)"
  have "refs_ok (set (xs @ ts)) (holds \<circ> (rpc s)(t := q)) (frees \<circ> (rpc s)(t := q)) (mem s)
      ((re_refcnt s)(e := re_refcnt s e - 1))"
    unfolding comp_dec [OF assms(3)] q_def
    by (rule refs_drop [OF c(5)])
      (use assms(2) p refs_unhold [OF t, of "holds \<circ> rpc s"] in \<open>auto split: if_splits\<close>)
  moreover have "rest q = rest (rpc s t)" "clearing q = clearing (rpc s t)" "pc_ok (re_addr s) q"
    using not_clearing [OF assms(4)] not_clearing [OF p(2)] p(2) assms(3,4) plain_simps(3) by (auto simp: q_def)
  moreover have "dec_and_free t e k s = s\<lparr>re_refcnt := (re_refcnt s)(e := re_refcnt s e - 1), rpc := (rpc s)(t := q)\<rparr>"
    by (simp add: dec_and_free_def q_def)
  ultimately show ?thesis using c by (simp add: rr_core_def todo_upd lock_same)
qed

lemma rr_clearing:
  assumes "rr_core s xs ts" and "rpc s t = Clearing (Some e)"
  shows "\<exists>us. routelock s = Some t \<and> ts = e # us \<and> links (re_next s) (re_next s e) us"
proof -
  note c = rr_coreD [OF assms(1)]
  have l: "routelock s = Some t" using c(4) assms(2) by (auto simp: lock_ok_def)
  with c(2) assms(2) show ?thesis by (cases ts) (auto simp: todo_def)
qed

lemma rr_clear_one:
  assumes "rr_core s xs ts" and "rpc s t = Clearing (Some e)"
  shows "\<exists>us. rr_core (dec_and_free t e (Clearing (re_next s e)) s) xs us"
proof -
  note c = rr_coreD [OF assms(1)]
  from rr_clearing [OF assms] obtain us where ts: "routelock s = Some t" "ts = e # us" "links (re_next s) (re_next s e) us"
    by blast
  let ?k = "Clearing (re_next s e)"
  define q where "q = (if re_refcnt s e - 1 = 0 then Freeing ?k e else ?k)"
  have d: "set (xs @ ts) = insert e (set (xs @ us))" "e \<notin> set (xs @ us)" "distinct (xs @ us)" using c(3) ts by auto
  have h: "(holds \<circ> rpc s)(t := None) = holds \<circ> rpc s" using assms(2) by auto
  have k: "plain ?k" by simp
  have "refs_ok (set (xs @ us)) (holds \<circ> (rpc s)(t := q)) (frees \<circ> (rpc s)(t := q)) (mem s)
      ((re_refcnt s)(e := re_refcnt s e - 1))"
    unfolding comp_dec [OF k] q_def h
    by (rule refs_drop [OF c(5)]) (use d refs_list [OF d(2)] assms(2) in auto)
  moreover have "todo (routelock s) ((rpc s)(t := q)) = re_next s e" using ts(1) by (simp add: todo_def q_def)
  moreover have "clearing q = clearing (rpc s t)" "pc_ok (re_addr s) q" using assms(2) by (simp_all add: q_def)
  moreover have "dec_and_free t e ?k s = s\<lparr>re_refcnt := (re_refcnt s)(e := re_refcnt s e - 1), rpc := (rpc s)(t := q)\<rparr>"
    by (simp add: dec_and_free_def q_def)
  ultimately have "rr_core (dec_and_free t e ?k s) xs us" using c ts(3) d(3)
    by (simp add: rr_core_def lock_same)
  then show ?thesis by blast
qed

lemma rr_re_free:
  assumes "rr_core s xs ts" and "rpc s t = Freeing k e"
  shows "rr_core (re_free t e k s) xs ts"
proof -
  note c = rr_coreD [OF assms(1)]
  have p: "plain k" using c(6) [of t] assms(2) by simp
  note q = plain_simps [OF p]
  have "refs_ok (set (xs @ ts)) (holds \<circ> rpc s) ((frees \<circ> rpc s)(t := None)) ((mem s)(e := Freed)) (re_refcnt s)"
    by (rule refs_free [OF c(5)]) (simp add: assms(2))
  moreover have "holds \<circ> (rpc s)(t := k) = holds \<circ> rpc s" "frees \<circ> (rpc s)(t := k) = (frees \<circ> rpc s)(t := None)"
    using assms(2) q by auto
  ultimately show ?thesis using c q(3) assms(2)
    by (simp add: rr_core_def re_free_def todo_upd lock_same)
qed

lemma rr_touch:
  assumes "rr_core s xs ts" and "\<not> touch_ok s t"
  shows "holds (rpc s t) = None" and "frees (rpc s t) = None" and "\<not> clearing (rpc s t)"
proof -
  note r = refs_okD [OF rr_coreD(5) [OF assms(1)]]
  have h: "holds p = Some e \<Longrightarrow> touches p = Some e" "frees p = Some e \<Longrightarrow> touches p = Some e" for p e
    by (cases p; simp)+
  show "holds (rpc s t) = None"
    using r(2) [of t] h(1) [of "rpc s t"] assms(2) by (cases "holds (rpc s t)") (auto simp: touch_ok_def)
  show n: "frees (rpc s t) = None"
    using r(4) [of t] h(2) [of "rpc s t"] assms(2) by (cases "frees (rpc s t)") (auto simp: touch_ok_def)
  show "\<not> clearing (rpc s t)"
  proof
    assume "clearing (rpc s t)"
    with n obtain p where p: "rpc s t = Clearing p" by (cases "rpc s t") auto
    with assms(2) obtain e where "p = Some e" "mem s e \<noteq> Allocated" by (cases p) (auto simp: touch_ok_def)
    with rr_clearing [OF assms(1), of t e] p r(1) [of e] show False by auto
  qed
qed

lemma rr_lookup:
  assumes i: "rr_inv s" and t: "t < NR_THREADS" and st: "route_lookup t s r s'"
  shows "rr_inv s'"
proof -
  from i obtain xs ts where i: "rr_core s xs ts" by (auto simp: rr_inv_def)
  note c = rr_coreD [OF i] and mv = rr_move [OF i, of _ t]
  have "rr_core s' xs ts" using st
  proof cases
    case (load a e)
    with mv [of "if re_refcnt s e \<le> 0 then Advance a Header else Cas a e (re_refcnt s e)"] show ?thesis by simp
  next
    case (cmpxchg a e old)
    then have "mem s e = Allocated" "0 < old" using c(6) [of t] by (simp_all add: touch_ok_def)
    with rr_acquire [OF i t] cmpxchg show ?thesis by simp
  next
    case (compare a e)
    with mv [of "if re_addr s e \<noteq> a then Drop a e else Found a e"] show ?thesis by simp
  next
    case (next_round a e)
    with rr_drop [OF i, of t e "Advance a (Next e)"] show ?thesis by simp
  next
    case (release e)
    with rr_drop [OF i, of t e Idle] show ?thesis by simp
  next
    case (free k e)
    with rr_re_free [OF i] show ?thesis by simp
  next
    case freed
    with rr_touch [OF i freed(3)] mv [of Crash] not_clearing show ?thesis by simp
  qed (auto intro!: mv)
  then show ?thesis by (auto simp: rr_inv_def)
qed

section \<open>Updates\<close>

lemma links_upd: "x \<notin> set xs \<Longrightarrow> links (n(x := v)) p xs = links n p xs"
  by (induction xs arbitrary: p) auto

lemma links_unlink:
  assumes "links n p (ys @ e # zs)" and "distinct (ys @ e # zs)"
  shows "links (if ys = [] then n else n(last ys := n e)) (if ys = [] then n e else p) (ys @ zs)"
  using assms
proof (induction ys arbitrary: p)
  case (Cons y ys)
  show ?case
  proof (cases "ys = []")
    case True
    with Cons.prems links_upd [of y zs n "n e" "n e"] show ?thesis by (simp add: fun_upd_def)
  next
    case False
    with Cons.prems(2) have "last ys \<noteq> y" by (metis Cons_eq_appendI UnI1 distinct.simps(2) last_in_set set_append)
    with False Cons show ?thesis by auto
  qed
qed simp

lemma rr_del_split:
  assumes "del_walk s addr p q e" and "links (re_next s) (deref s p) xs"
  shows "\<exists>ys zs. xs = ys @ e # zs \<and> q = (if ys = [] then p else Next (last ys))"
  using assms
proof (induction arbitrary: xs)
  case (here p e)
  then obtain zs where "xs = e # zs" by (cases xs) auto
  then show ?case by (intro exI [of _ "[]"] exI [of _ zs]) simp
next
  case (further p x q e)
  then obtain us where "xs = x # us" "links (re_next s) (deref s (Next x)) us" by (cases xs) auto
  with further.IH obtain ys zs where "us = ys @ e # zs" "q = (if ys = [] then Next x else Next (last ys))"
    by blast
  with \<open>xs = x # us\<close> show ?case by (intro exI [of _ "x # ys"] exI [of _ zs]) auto
qed

lemma rr_free_lock:
  assumes "rr_core s xs ts" and "routelock s = None"
  shows "ts = []"
  using rr_coreD(2) [OF assms(1)] assms(2) by (cases ts) (auto simp: todo_def)

lemma rr_add:
  assumes i: "rr_core s xs ts" and l: "routelock s = None" and e: "mem s e = Unused"
  shows "rr_core (s\<lparr>mem := (mem s)(e := Allocated), re_refcnt := (re_refcnt s)(e := 1),
        re_addr := (re_addr s)(e := addr), re_iface := (re_iface s)(e := interface),
        re_next := (re_next s)(e := route_list s), route_list := Some e\<rparr>) (e # xs) []"
proof -
  note c = rr_coreD [OF i] and r = refs_okD [OF rr_coreD(5) [OF i]]
  have n: "e \<notin> set xs" "ts = []" using r(1) [of e] e rr_free_lock [OF i l] by auto
  have "pc_ok ((re_addr s)(e := addr)) (rpc s t)" for t
  proof -
    have "rpc s t \<noteq> Found a e" for a using r(2) [of t e] e by auto
    with c(6) [of t] show ?thesis by (cases "rpc s t") auto
  qed
  with n c l refs_add [OF c(5) e] show ?thesis by (simp add: rr_core_def links_upd todo_def)
qed

lemma rr_del:
  assumes i: "rr_core s xs ts" and l: "routelock s = None" and p: "rpc s t = Idle" and t: "t < NR_THREADS"
    and d: "del_walk s addr Header q e"
  shows "\<exists>us. rr_core ((set_link q (re_next s e) s)\<lparr>rpc := (rpc s)(t := Release e)\<rparr>) us []"
proof -
  note c = rr_coreD [OF i]
  have n: "ts = []" by (rule rr_free_lock [OF i l])
  have "links (re_next s) (deref s Header) xs" using c(1) by simp
  from rr_del_split [OF d this] obtain ys zs where
    y: "xs = ys @ e # zs" "q = (if ys = [] then Header else Next (last ys))" by blast
  have dx: "distinct (ys @ e # zs)" using c(3) y(1) by auto
  have "refs_ok (set xs - {e}) ((holds \<circ> rpc s)(t := Some e)) (frees \<circ> rpc s) (mem s) (re_refcnt s)"
    using refs_unlink [OF c(5), of e t] n y(1) t p by simp
  moreover have "(holds \<circ> rpc s)(t := Some e) = holds \<circ> (rpc s)(t := Release e)"
    "frees \<circ> rpc s = frees \<circ> (rpc s)(t := Release e)" using p by auto
  moreover have "set xs - {e} = set (ys @ zs)" "distinct (ys @ zs)" using c(3) y(1) by auto
  moreover have "links (re_next (set_link q (re_next s e) s)) (route_list (set_link q (re_next s e) s)) (ys @ zs)"
    using links_unlink [of "re_next s" "route_list s" ys e zs] c(1) y dx by (cases "ys = []") simp_all
  moreover have "rpc (set_link q x s) = rpc s" "mem (set_link q x s) = mem s" "routelock (set_link q x s) = routelock s"
    "re_refcnt (set_link q x s) = re_refcnt s" "re_addr (set_link q x s) = re_addr s" for x by (cases q; simp)+
  ultimately have "rr_core ((set_link q (re_next s e) s)\<lparr>rpc := (rpc s)(t := Release e)\<rparr>) (ys @ zs) []"
    using c(4,6) p l by (simp add: rr_core_def lock_same todo_def)
  then show ?thesis by blast
qed

lemma rr_clear:
  assumes i: "rr_core s xs ts" and l: "routelock s = None" and p: "rpc s t = Idle"
  shows "rr_core (s\<lparr>route_list := None, routelock := Some t, rpc := (rpc s)(t := Clearing (route_list s))\<rparr>) [] xs"
proof -
  note c = rr_coreD [OF i] and n = rr_free_lock [OF i l]
  have "holds \<circ> (rpc s)(t := Clearing (route_list s)) = holds \<circ> rpc s"
    "frees \<circ> (rpc s)(t := Clearing (route_list s)) = frees \<circ> rpc s" using p by auto
  with c n l show ?thesis by (simp add: rr_core_def todo_def lock_ok_acquire)
qed

lemma rr_cleared:
  assumes i: "rr_core s xs ts" and p: "rpc s t = Clearing None"
  shows "rr_core (s\<lparr>routelock := None, rpc := (rpc s)(t := Idle)\<rparr>) xs []"
proof -
  note c = rr_coreD [OF i]
  have "routelock s = Some t" using c(4) p by (auto simp: lock_ok_def)
  with c(2) p have "ts = []" by (cases ts) (simp_all add: todo_def)
  moreover have "holds \<circ> (rpc s)(t := Idle) = holds \<circ> rpc s"
    "frees \<circ> (rpc s)(t := Idle) = frees \<circ> rpc s" using p by auto
  moreover have "lock_ok clearing None ((rpc s)(t := Idle))"
    by (rule lock_ok_release [OF c(4)]) (simp_all add: p)
  ultimately show ?thesis using c by (simp add: rr_core_def todo_def)
qed

lemma rr_update:
  assumes i: "rr_inv s" and t: "t < NR_THREADS" and st: "route_update t s s'"
  shows "rr_inv s'"
proof -
  from i obtain xs ts where i: "rr_core s xs ts" by (auto simp: rr_inv_def)
  have "\<exists>xs ts. rr_core s' xs ts" using st
  proof cases
    case (route_add e addr interface)
    with rr_add [OF i] show ?thesis by blast
  next
    case (route_del addr q e)
    with rr_del [OF i route_del(3) route_del(2) t] show ?thesis by blast
  next
    case route_clear
    with rr_clear [OF i] show ?thesis by blast
  next
    case (clear_one e)
    with rr_clear_one [OF i] show ?thesis by blast
  next
    case cleared
    with rr_cleared [OF i] show ?thesis by blast
  qed
  then show ?thesis by (simp add: rr_inv_def)
qed

lemma rr_inv_init: "rr_inv rr_init"
  unfolding rr_inv_def
  by (rule exI [of _ "[]"], rule exI [of _ "[]"])
    (simp add: rr_core_def rr_init_def todo_def lock_ok_init refs_ok_def)

lemma rr_reachable_inv: "rr_reachable s \<Longrightarrow> rr_inv s"
proof (erule reachable_invariant)
  fix s s' assume "rr_inv s" and "\<exists>r. rr_step s r s'"
  then show "rr_inv s'" by (auto elim!: rr_step.cases intro: rr_lookup rr_update)
qed (simp add: rr_inv_init)

section \<open>What the reference counts protect\<close>

text \<open>C18: reference counts keep what they promise: an entry of the table, and one that a thread has a
  reference to, is never freed and has a positive count; an entry is freed by one thread, when no other has a
  reference and it is in no list; and a lookup returns \<open>ULONG_MAX\<close> or the interface of an entry
  in use that has its address. Only a lookup that has no reference accesses freed memory.\<close>

theorem refcnt_safe:
  assumes "rr_reachable s"
  shows "(\<exists>xs. links (re_next s) (route_list s) xs \<and> distinct xs \<and>
        (\<forall>e \<in> set xs. mem s e = Allocated \<and> 0 < re_refcnt s e \<and> frees (rpc s t) \<noteq> Some e)) \<and>
     (holds (rpc s t) = Some e \<longrightarrow> mem s e = Allocated \<and> 0 < re_refcnt s e \<and> touch_ok s t) \<and>
     (frees (rpc s t) = Some e \<longrightarrow> mem s e = Allocated \<and> holds (rpc s u) \<noteq> Some e \<and>
        (frees (rpc s u) = Some e \<longrightarrow> u = t)) \<and>
     (route_lookup t s (Some (a, v)) s' \<longrightarrow> v = - 1 \<or>
        (\<exists>e. mem s e = Allocated \<and> re_addr s e = a \<and> re_iface s e = v))"
proof -
  from rr_reachable_inv [OF assms] obtain xs ts where i: "rr_core s xs ts" by (auto simp: rr_inv_def)
  note c = rr_coreD [OF i] and r = refs_okD [OF rr_coreD(5) [OF i]] and p = refs_ok_pos [OF rr_coreD(5) [OF i]]
  have l: "\<exists>xs. links (re_next s) (route_list s) xs \<and> distinct xs \<and>
      (\<forall>e \<in> set xs. mem s e = Allocated \<and> 0 < re_refcnt s e \<and> frees (rpc s t) \<noteq> Some e)"
  proof (intro exI [of _ xs] conjI ballI)
    show "distinct xs" using c(3) by simp
    show "mem s e = Allocated" "0 < re_refcnt s e" "frees (rpc s t) \<noteq> Some e" if "e \<in> set xs" for e
      using r(1) [of e] p(1) [of e] p(2) [of e _ t] that by simp_all
  qed (rule c(1))
  have h: "mem s e = Allocated \<and> 0 < re_refcnt s e \<and> touch_ok s t" if "holds (rpc s t) = Some e"
  proof (intro conjI)
    show "mem s e = Allocated" "0 < re_refcnt s e" using r(2) [of t e] p(1) [of e t] that by simp_all
    show "touch_ok s t" using rr_touch(1) [OF i, of t] that by (cases "touch_ok s t") simp_all
  qed
  have f: "mem s e = Allocated \<and> holds (rpc s u) \<noteq> Some e \<and> (frees (rpc s u) = Some e \<longrightarrow> u = t)"
    if "frees (rpc s t) = Some e"
  proof (intro conjI impI notI)
    show "mem s e = Allocated" using r(4) [of t e] that by simp
    show "u = t" if "frees (rpc s u) = Some e" using r(5) [of u e t] that \<open>frees (rpc s t) = Some e\<close> by simp
    show False if "holds (rpc s u) = Some e" using p(2) [of e u t] that \<open>frees (rpc s t) = Some e\<close> by simp
  qed
  have v: "v = - 1 \<or> (\<exists>e. mem s e = Allocated \<and> re_addr s e = a \<and> re_iface s e = v)"
    if "route_lookup t s (Some (a, v)) s'"
    using that
  proof cases
    case (iface e)
    with c(6) [of t] r(2) [of t e] show ?thesis by auto
  qed simp
  show ?thesis by (intro conjI impI l) (simp_all add: h f v del: split_paired_Ex)
qed

text \<open>One entry, a lookup in thread 0, a removal in thread 1.\<close>

definition one_entry :: "nat option \<Rightarrow> int \<Rightarrow> mem \<Rightarrow> rr_pc \<Rightarrow> rr_pc \<Rightarrow> rr_state" where
  "one_entry l c m p q = \<lparr>route_list = l, re_next = (\<lambda>_. None), re_addr = (\<lambda>_. 0)(1 := 10),
     re_iface = (\<lambda>_. 0)(1 := 5), re_refcnt = (\<lambda>_. 0)(1 := c), mem = (\<lambda>_. Unused)(1 := m), routelock = None,
     rpc = (\<lambda>t. if t = 0 then p else if t = 1 then q else Idle)\<rparr>"

lemmas one_entry_defs = one_entry_def touch_ok_def dec_and_free_def re_free_def rr_init_def fun_eq_iff

lemma rr_go: "rr_reachable s \<Longrightarrow> rr_step s r s' \<Longrightarrow> s' = u \<Longrightarrow> rr_reachable u"
  by (blast intro: reachable.next_state)

lemma two_threads: "0 < NR_THREADS" "1 < NR_THREADS"
  by (simp_all add: NR_THREADS_def)

lemmas rr_look = rr_go [OF _ rr_step.lookup [of 0, OF two_threads(1)]]

lemma reach_held: "rr_reachable (one_entry (Some 1) 2 Allocated (Held 20 1) Idle)"
proof -
  have s1: "rr_reachable rr_init" by (rule reachable.start) simp
  have s2: "rr_reachable (one_entry (Some 1) 1 Allocated Idle Idle)"
    by (rule rr_go [OF s1 rr_step.update [of 1, OF two_threads(2) route_update.route_add [of _ 1 1 5 10]]]) (auto simp: one_entry_defs)
  have s3: "rr_reachable (one_entry (Some 1) 1 Allocated (Advance 20 Header) Idle)"
    by (rule rr_look [OF s2 route_lookup.call [of _ 0 20]]) (auto simp: one_entry_defs)
  have s4: "rr_reachable (one_entry (Some 1) 1 Allocated (Test 20 1) Idle)"
    by (rule rr_look [OF s3 route_lookup.advance [of _ 0 20 Header 1]]) (auto simp: one_entry_defs)
  have s5: "rr_reachable (one_entry (Some 1) 1 Allocated (Acquire 20 1) Idle)"
    by (rule rr_look [OF s4 route_lookup.test [of _ 0 20 1]]) (auto simp: one_entry_defs)
  have s6: "rr_reachable (one_entry (Some 1) 1 Allocated (Cas 20 1 1) Idle)"
    by (rule rr_look [OF s5 route_lookup.load [of _ 0 20 1]]) (auto simp: one_entry_defs)
  show ?thesis
    by (rule rr_look [OF s6 route_lookup.cmpxchg [of _ 0 20 1 1]]) (auto simp: one_entry_defs)
qed

theorem refcnt_safe_witness:
  "\<exists>s. rr_reachable s \<and> holds (rpc s 0) = Some 1 \<and> mem s 1 = Allocated"
proof (intro exI conjI)
  let ?s = "one_entry (Some 1) 2 Allocated (Held 20 1) Idle"
  show "rr_reachable ?s" by (rule reach_held)
  show h: "holds (rpc ?s 0) = Some 1" by (simp add: one_entry_def)
  show "mem ?s 1 = Allocated" using refcnt_safe [OF reach_held, where t = 0 and e = 1] h by blast
qed

text \<open>But a lookup drops the reference to an entry before it reads the pointer to the next one. When the
  entry has been removed meanwhile, that was the last reference: the lookup itself frees the entry and
  then follows the pointer in freed memory.\<close>

theorem refcnt_use_after_free:
  "\<exists>s s'. rr_reachable s \<and> rpc s 0 = Advance 20 (Next 1) \<and> mem s 1 = Freed \<and> rr_step s None s' \<and> rpc s' 0 = Crash"
proof -
  have r: "rr_reachable (one_entry (Some 1) 2 Allocated (Drop 20 1) Idle)" (is "rr_reachable ?s")
    by (rule rr_look [OF reach_held route_lookup.compare [of _ 0 20 1]]) (auto simp: one_entry_defs)
  have s1: "del_walk ?s 10 Header Header 1" by (rule del_walk.here) (simp_all add: one_entry_def)
  have s2: "rr_reachable (one_entry None 2 Allocated (Drop 20 1) (Release 1))"
    by (rule rr_go [OF r rr_step.update [of 1, OF two_threads(2) route_update.route_del [of _ 1, OF _ _ s1]]]) (auto simp: one_entry_defs)
  have s3: "rr_reachable (one_entry None 1 Allocated (Drop 20 1) Idle)"
    by (rule rr_go [OF s2 rr_step.lookup [of 1, OF two_threads(2) route_lookup.release [of _ 1 1]]]) (auto simp: one_entry_defs)
  have s4: "rr_reachable (one_entry None 0 Allocated (Freeing (Advance 20 (Next 1)) 1) Idle)"
    by (rule rr_look [OF s3 route_lookup.next_round [of _ 0 20 1]]) (auto simp: one_entry_defs)
  have r: "rr_reachable (one_entry None 0 Freed (Advance 20 (Next 1)) Idle)" (is "rr_reachable ?f")
    by (rule rr_look [OF s4 route_lookup.free [of _ 0 "Advance 20 (Next 1)" 1]]) (auto simp: one_entry_defs)
  have "rr_step ?f None (?f\<lparr>rpc := (rpc ?f)(0 := Crash)\<rparr>)"
    by (rule rr_step.lookup [OF two_threads(1)], rule route_lookup.freed) (simp add: touch_ok_def one_entry_def)
  with r show ?thesis by (intro exI [of _ ?f] exI conjI) (auto simp: one_entry_def)
qed

end
