(* ===== verification/Park_Miller.thy ===== *)
theory Park_Miller
  imports Prelude
begin

text \<open>
  lib/random.c: the pseudo-random numbers of every thread. The state \<open>randseed\<close> is a parameter and a
  result, \<open>abort\<close> is \<open>None\<close>, and the variables of type \<open>long\<close> are integers: they never leave the
  range of 32 bits.
\<close>

type_synonym uint32 = "32 word"

definition setrandom :: "uint32 \<Rightarrow> ulong" where
  "setrandom seed = (let randseed = ucast (seed mod 0x7fffffff) in if randseed = 0 then 1 else randseed)"

definition setrandom_thread :: "uint32 \<Rightarrow> ulong" where
  "setrandom_thread tid = setrandom (2654435761 * (tid + 1))"

text \<open>The number that \<open>myrandom\<close> returns is also the new state.\<close>

definition myrandom :: "ulong \<Rightarrow> ulong option" where
  "myrandom randseed = (if randseed = 0 \<or> randseed > 0x7ffffffe then None
     else let x = uint randseed; hi = x div 127773; lo = x mod 127773; t = 16807 * lo - 2836 * hi
       in Some (of_int (if t \<le> 0 then t + 0x7fffffff else t)))"

text \<open>The result of the last of \<open>n\<close> calls.\<close>

fun draw :: "nat \<Rightarrow> ulong \<Rightarrow> ulong option" where
  "draw 0 s = Some s"
| "draw (Suc n) s = (case draw n s of None \<Rightarrow> None | Some r \<Rightarrow> myrandom r)"

section \<open>The powers of 16807\<close>

text \<open>The modulus and the multiplier of Park and Miller. The order of the multiplier follows from
  its powers to the exponents \<open>(M - 1) div q\<close>, for the prime divisors \<open>q\<close> of \<open>M - 1\<close>.\<close>

abbreviation M :: int where "M \<equiv> 2147483647"

abbreviation g :: int where "g \<equiv> 16807"

function modpow :: "int \<Rightarrow> int \<Rightarrow> int \<Rightarrow> int" where
  "modpow b e m = (if e \<le> 0 then 1 mod m else
     let r = modpow (b * b mod m) (e div 2) m in if e mod 2 = 1 then b * r mod m else r)"
  by pat_completeness auto
termination by (relation "measure (\<lambda>(b, e, m). nat e)") auto

declare modpow.simps [simp del]

lemma modpow: "modpow b e m = b ^ nat e mod m"
proof (induction b e m rule: modpow.induct)
  case (1 b e m)
  show ?case
  proof (cases "e \<le> 0")
    case False
    define k where "k = nat (e div 2)"
    have r: "modpow (b * b mod m) (e div 2) m = b ^ (2 * k) mod m"
      using 1 False by (simp add: k_def power_mod power_mult power2_eq_square)
    have n: "nat e = (if e mod 2 = 1 then Suc (2 * k) else 2 * k)"
    proof -
      have k: "int k = e div 2" "e = 2 * (e div 2) + e mod 2" "e mod 2 = 0 \<or> e mod 2 = 1"
        using False by (simp add: k_def, simp, presburger)
      then have "e = int (if e mod 2 = 1 then Suc (2 * k) else 2 * k)" by (simp only: split: if_split) linarith
      then show ?thesis by (metis nat_int)
    qed
    show ?thesis unfolding n using False r
      by (subst modpow.simps) (auto simp: Let_def mod_mult_right_eq)
  qed (simp add: modpow.simps)
qed

abbreviation qs :: "int list" where "qs \<equiv> [2, 3, 7, 11, 31, 151, 331]"

definition period :: nat where
  "period = 2147483646"

lemma int_period: "int period = 2147483646"
  by (simp add: period_def)

lemma g_full: "g ^ period mod M = 1"
proof -
  have "modpow g (M - 1) M = 1" by code_simp
  moreover have "nat (M - 1) = period" by (simp add: period_def)
  ultimately show ?thesis unfolding modpow by (simp only:)
qed

lemma g_parts:
  assumes "q \<in> set qs"
  shows "g ^ nat ((M - 1) div q) mod M \<noteq> 1"
proof -
  have "list_all (\<lambda>q. modpow g ((M - 1) div q) M \<noteq> 1) qs" by code_simp
  with assms show ?thesis unfolding modpow list_all_iff by blast
qed

text \<open>A number other than 1 that divides \<open>M - 1\<close> has a prime factor in the list.\<close>

lemma small_prime:
  assumes "p \<in> set qs" and "d dvd p" and "0 < d"
  shows "d = 1 \<or> d = p"
proof -
  have "list_all (\<lambda>p. list_all (\<lambda>d. p mod d = 0 \<longrightarrow> d = 1 \<or> d = p) [1..p]) qs" by code_simp
  then have "\<forall>d \<in> {1..p}. p mod d = 0 \<longrightarrow> d = 1 \<or> d = p"
    unfolding list_all_iff set_upto by (rule bspec) (rule assms(1))
  moreover have "0 < p" using assms(1) by auto
  then have "d \<le> p" using assms(2) by (simp add: zdvd_imp_le)
  ultimately show ?thesis using assms(2,3) by (auto simp: dvd_eq_mod_eq_0)
qed

lemma factor_cases:
  assumes "k dvd M - 1" and "0 < k" and "k \<noteq> 1"
  shows "\<exists>p \<in> set qs. p dvd k"
proof (rule ccontr)
  assume n: "\<not> ?thesis"
  have c: "coprime p k" if "p \<in> set qs" for p
  proof -
    have "gcd p k = 1 \<or> gcd p k = p" by (rule small_prime [OF that]) (use assms(2) in simp_all)
    with n that show ?thesis by (metis coprime_iff_gcd_eq_1 gcd_dvd2)
  qed
  have "coprime (2 * (3 * (3 * (7 * (11 * (31 * (151 * 331))))))) k"
    using c [of 2] c [of 3] c [of 7] c [of 11] c [of 31] c [of 151] c [of 331]
    unfolding coprime_mult_left_iff by simp
  moreover have "(2 * (3 * (3 * (7 * (11 * (31 * (151 * 331))))))) = M - 1" by simp
  ultimately have "coprime (M - 1) k" by simp
  with assms(1) have "is_unit k" by (meson coprime_common_divisor dvd_refl)
  with assms(2,3) show False by simp
qed

text \<open>Powers with equal residues differ by a power with residue 1.\<close>

lemma g_period: "g ^ (i * period) mod M = 1"
proof -
  have "g ^ (i * period) mod M = (g ^ period mod M) ^ i mod M"
    unfolding power_mod by (simp only: mult.commute flip: power_mult)
  then show ?thesis unfolding g_full by simp
qed

lemma power_sub:
  assumes e: "g ^ i mod M = g ^ j mod M" and "i \<le> j"
  shows "g ^ (j - i) mod M = 1"
proof -
  have 0: "i + i * (period - 1) = i * period" by (simp add: period_def)
  have "g ^ (i * period) mod M = (g ^ i mod M) * g ^ (i * (period - 1)) mod M"
    unfolding mod_mult_left_eq 0 [symmetric] power_add ..
  also have "\<dots> = (g ^ j mod M) * g ^ (i * (period - 1)) mod M" by (simp only: e)
  also have "\<dots> = g ^ ((j - i) + i * period) mod M"
    unfolding mod_mult_left_eq 0 [symmetric] using \<open>i \<le> j\<close> by (simp only: le_add_diff_inverse2 flip: power_add add.assoc)
  also have "\<dots> = g ^ (j - i) * (g ^ (i * period) mod M) mod M"
    unfolding mod_mult_right_eq power_add ..
  finally show ?thesis unfolding g_period by simp
qed

text \<open>16807 is a primitive root.\<close>

lemma g_order:
  assumes "0 < d" and "d < period"
  shows "g ^ d mod M \<noteq> 1"
proof
  assume d: "g ^ d mod M = 1"
  define m where "m = (LEAST m. 0 < m \<and> g ^ m mod M = 1)"
  have m: "0 < m" "g ^ m mod M = 1" using LeastI [of "\<lambda>m. 0 < m \<and> g ^ m mod M = 1", OF conjI, OF assms(1) d]
    unfolding m_def by blast+
  have least: "m \<le> n" if "0 < n" "g ^ n mod M = 1" for n unfolding m_def by (rule Least_le) (use that in blast)
  have dvd: "m dvd n" if n: "g ^ n mod M = 1" for n
  proof -
    have "g ^ n mod M = (g ^ m mod M) ^ (n div m) * g ^ (n mod m) mod M"
    proof -
      have "n = m * (n div m) + n mod m" by simp
      then have "g ^ n = (g ^ m) ^ (n div m) * g ^ (n mod m)" by (metis power_add power_mult)
      then show ?thesis by (metis mod_mult_left_eq power_mod)
    qed
    then have "g ^ (n mod m) mod M = 1" using n unfolding m(2) by simp
    then have "n mod m = 0" using least [of "n mod m"] m(1) by (meson leD mod_less_divisor neq0_conv)
    then show ?thesis by (rule dvd_eq_mod_eq_0 [THEN iffD2])
  qed
  from dvd [OF g_full] obtain k where k: "period = m * k" by (rule dvdE)
  have "m \<le> d" using least assms(1) d by blast
  with assms(2) k have "k \<noteq> 1" by auto
  have "0 < k" using k by (cases k) (simp_all add: period_def)
  have "M - 1 = int period" by (simp add: int_period)
  also have "\<dots> = int m * int k" unfolding k by simp
  finally have f: "M - 1 = int m * int k" .
  have "int k dvd int m * int k" by simp
  then have "int k dvd M - 1" unfolding f .
  moreover have "0 < int k" "int k \<noteq> 1" using \<open>0 < k\<close> \<open>k \<noteq> 1\<close> by simp_all
  ultimately obtain q where q: "q \<in> set qs" "q dvd int k" using factor_cases by blast
  then obtain l where l: "int k = q * l" by (auto elim: dvdE)
  have "0 < q" using q(1) by auto
  have "M - 1 = q * (int m * l)" unfolding f l by (rule mult.left_commute)
  with \<open>0 < q\<close> have e: "(M - 1) div q = int m * l" by (metis less_irrefl nonzero_mult_div_cancel_left)
  have "0 \<le> l" using l \<open>0 < q\<close> by (metis of_nat_0_le_iff zero_le_mult_iff not_less order.asym)
  with e have "nat ((M - 1) div q) = m * nat l" by (simp add: nat_mult_distrib)
  moreover have "g ^ (m * nat l) mod M = 1"
  proof -
    have "g ^ (m * nat l) mod M = (g ^ m mod M) ^ nat l mod M" unfolding power_mod power_mult ..
    then show ?thesis unfolding m(2) by simp
  qed
  ultimately show False using g_parts [OF q(1)] by (simp only:)
qed

definition residue :: "nat \<Rightarrow> int" where
  "residue n = g ^ n mod M"

lemma residue_bounds: "residue n \<in> {1..M - 1}"
proof -
  have "residue n \<noteq> 0"
  proof
    assume "residue n = 0"
    then have "g ^ n * g ^ (n * (period - 1)) mod M = 0" unfolding residue_def by (metis mod_mult_left_eq mod_0 mult_zero_left)
    moreover have "n + n * (period - 1) = n * period" by (simp add: period_def)
    ultimately show False using g_period [of n] by (metis power_add zero_neq_one)
  qed
  moreover have "0 \<le> residue n" "residue n < M" by (simp_all add: residue_def)
  ultimately show ?thesis by auto
qed

lemma residue_eq:
  assumes "residue i = residue j" and "i \<le> j" and "j < i + period"
  shows "i = j"
  using power_sub [of i j] g_order [of "j - i"] assms by (force simp: residue_def)

lemma residue_onto: "residue ` {..<period} = {1..M - 1}"
proof (rule card_subset_eq)
  have "inj_on residue {..<period}"
  proof (rule inj_onI)
    fix i j assume "i \<in> {..<period}" "j \<in> {..<period}" "residue i = residue j"
    with residue_eq [of i j] residue_eq [of j i] show "i = j" by (cases "i \<le> j") auto
  qed
  then have "card (residue ` {..<period}) = period" by (simp add: card_image)
  also have "\<dots> = card {1..M - 1}" by (simp add: period_def)
  finally show "card (residue ` {..<period}) = card {1..M - 1}" .
qed (use residue_bounds in auto)

section \<open>The generator\<close>

text \<open>The computation without overflow is that of the next power.\<close>

lemma schrage:
  assumes x: "x \<in> {1..M - 1}" and t: "t = 16807 * (x mod 127773) - 2836 * (x div 127773)"
  shows "(if t \<le> 0 then t + M else t) = g * x mod M" and "\<bar>t\<bar> < M" and "\<bar>16807 * (x mod 127773)\<bar> < M"
proof -
  have d: "x = 127773 * (x div 127773) + x mod 127773" by simp
  have r: "0 \<le> x mod 127773" "x mod 127773 \<le> 127772" by simp_all
  have q: "0 \<le> x div 127773" "x div 127773 \<le> 16807" using x d r by auto
  show b: "\<bar>t\<bar> < M" "\<bar>16807 * (x mod 127773)\<bar> < M" using t r q by linarith+
  have e: "g * x = t + M * (x div 127773)" using t d by linarith
  then have m: "g * x mod M = t mod M" by simp
  obtain n where "x = residue n" using residue_onto x by blast
  then have "residue (Suc n) = g * x mod M" by (simp add: residue_def mod_mult_right_eq)
  with residue_bounds [of "Suc n"] m have "t mod M \<noteq> 0" by auto
  then have "t \<noteq> 0" by auto
  show "(if t \<le> 0 then t + M else t) = g * x mod M"
  proof (cases "t \<le> 0")
    case True
    with b \<open>t \<noteq> 0\<close> have "(t + M) mod M = t + M" by (intro mod_pos_pos_trivial) linarith+
    with True m show ?thesis by simp
  next
    case False
    with b have "t mod M = t" by (intro mod_pos_pos_trivial) linarith+
    with False m show ?thesis by simp
  qed
qed

definition seeded :: "ulong \<Rightarrow> bool" where
  "seeded s \<longleftrightarrow> uint s \<in> {1..M - 1}"

lemma uint_ge_1: "uint (s :: ulong) \<noteq> 0 \<Longrightarrow> 1 \<le> uint s"
proof -
  assume "uint s \<noteq> 0"
  moreover have "0 \<le> uint s" by (rule unsigned_greater_eq)
  ultimately show ?thesis by linarith
qed

lemma seeded_iff: "seeded s \<longleftrightarrow> \<not> (s = 0 \<or> s > 0x7ffffffe)"
  by (auto simp: seeded_def word_less_def word_uint_eq_iff not_less intro: uint_ge_1)

lemma myrandom_eq:
  assumes "seeded s"
  shows "myrandom s = Some (of_int (g * uint s mod M))"
proof -
  have x: "uint s \<in> {1..M - 1}" using assms by (simp add: seeded_def)
  have "\<not> (s = 0 \<or> s > 0x7ffffffe)" using assms seeded_iff by blast
  then show ?thesis unfolding myrandom_def Let_def schrage(1) [OF x refl, symmetric] by (simp only: if_False)
qed

lemma uint_small: "x \<in> {1..M - 1} \<Longrightarrow> uint (of_int x :: ulong) = x"
  by (simp add: uint_word_of_int_eq take_bit_int_eq_self)

lemma draw_residue:
  assumes "uint s = residue k"
  shows "draw n s = Some (of_int (residue (k + n)))"
proof (induction n)
  case 0
  then show ?case using assms by (metis add_0_right draw.simps(1) of_int_uint word_of_int_uint)
next
  case (Suc n)
  let ?r = "of_int (residue (k + n)) :: ulong"
  have u: "uint ?r = residue (k + n)" by (rule uint_small [OF residue_bounds])
  then have "seeded ?r" using residue_bounds by (simp add: seeded_def)
  from myrandom_eq [OF this] u have "myrandom ?r = Some (of_int (residue (Suc (k + n))))"
    by (simp add: residue_def mod_mult_right_eq)
  with Suc show ?case by simp
qed

lemma setrandom_seeded: "seeded (setrandom seed)"
proof -
  define r where "r = (ucast (seed mod 0x7fffffff) :: ulong)"
  have "uint r = uint seed mod M" by (simp add: r_def unsigned_ucast_eq uint_mod take_bit_int_eq_self)
  then have "0 \<le> uint r" "uint r < M" by simp_all
  then show ?thesis
    by (cases "uint r = 0") (auto simp: seeded_def setrandom_def Let_def word_uint_eq_iff intro: uint_ge_1 simp flip: r_def)
qed

lemma seeded_residue: "seeded s \<Longrightarrow> \<exists>k. k < period \<and> uint s = residue k"
  using residue_onto by (auto simp: seeded_def image_iff set_eq_iff) 

text \<open>C40: \<open>myrandom\<close> of lib/random.c computes \<open>7 ^ 5 * x mod (2 ^ 31 - 1)\<close> without leaving 32 bits, so that
  the number drawn in the \<open>n\<close>-th call is that power times the seed, for every argument of \<open>setrandom\<close> and
  \<open>setrandom_thread\<close>; and it aborts exactly for the states that are outside the recurrence.\<close>

theorem random_park_miller:
  "draw n (setrandom seed) = Some (of_int (16807 ^ n * uint (setrandom seed) mod (2 ^ 31 - 1))) \<and>
   draw n (setrandom_thread tid) = Some (of_int (16807 ^ n * uint (setrandom_thread tid) mod (2 ^ 31 - 1))) \<and>
   (myrandom s = None \<longleftrightarrow> s = 0 \<or> s > 0x7ffffffe)"
proof -
  have "draw n s = Some (of_int (16807 ^ n * uint s mod M))" if "seeded s" for s
  proof -
    obtain k where k: "uint s = residue k" using seeded_residue [OF \<open>seeded s\<close>] by blast
    have "residue (k + n) = 16807 ^ n * uint s mod M"
      unfolding k residue_def mod_mult_right_eq by (simp only: power_add mult.commute)
    then show ?thesis using draw_residue [OF k, of n] by simp
  qed
  moreover have "myrandom s = None \<longleftrightarrow> s = 0 \<or> s > 0x7ffffffe"
    using myrandom_eq [of s] seeded_iff [of s] by (auto simp: myrandom_def)
  moreover have "(2 ^ 31 - 1 :: int) = M" by simp
  ultimately show ?thesis using setrandom_seeded by (simp only: setrandom_thread_def)
qed

text \<open>C19: all seeds lie on the same cycle, and \<open>myrandom\<close> is uniform on \<open>[1, 2 ^ 31 - 2]\<close>: from every
  admissible state, \<open>2 ^ 31 - 2\<close> calls draw every admissible number, each exactly once.\<close>

theorem random_full_cycle:
  assumes "0 < s" and "s \<le> 0x7ffffffe" and "0 < v" and "v \<le> 0x7ffffffe"
  shows "\<exists>!n. 0 < n \<and> n \<le> 2147483646 \<and> draw n s = Some v"
proof -
  have p: "(2147483646 :: nat) = period" by (simp add: period_def)
  have "seeded s" "seeded v" using assms by (simp_all add: seeded_iff word_neq_0_conv not_less)
  then obtain a b where a: "a < period" "uint s = residue a" and b: "b < period" "uint v = residue b"
    using seeded_residue by blast
  have d: "draw n s = Some v \<longleftrightarrow> residue (a + n) = residue b" for n
    using draw_residue [OF a(2), of n] b(2) uint_small [OF residue_bounds, of "a + n"]
    by (metis option.inject of_int_uint word_of_int_uint)
  have unique: "n = m" if "residue (a + n) = residue b" "residue (a + m) = residue b"
    "0 < n" "n \<le> period" "0 < m" "m \<le> period" for n m
  proof -
    have "residue (a + n) = residue (a + m)" using that by simp
    with residue_eq [of "a + n" "a + m"] residue_eq [of "a + m" "a + n"] that show ?thesis
      by (cases "n \<le> m") auto
  qed
  define n where "n = (if a < b then b - a else b + period - a)"
  have "residue (a + n) = residue b"
  proof (cases "a < b")
    case False
    then have "a + n = b + 1 * period" using a(1) by (simp add: n_def)
    then have "residue (a + n) = residue b * (g ^ (1 * period) mod M) mod M"
      unfolding residue_def mod_mult_eq by (simp only: power_add)
    then show ?thesis unfolding g_period by (simp add: residue_def)
  qed (simp add: n_def)
  moreover have "0 < n" "n \<le> period" using a(1) b(1) by (auto simp: n_def)
  ultimately show ?thesis unfolding p d using unique by (intro ex1I [of _ n]) blast+
qed

theorem random_full_cycle_witness:
  "\<exists>!n. 0 < n \<and> n \<le> 2147483646 \<and> draw n (1 :: ulong) = Some 42"
  by (rule random_full_cycle) simp_all

end
