(* ===== verification/Spec2Isabelle.thy ===== *)
theory Spec2Isabelle
  imports Lockdeq Lockhdeq Locktdeq Smpalloc Count_Lim Count_Lim_App Count_Limd Count_Lim_Atomic Count_Lim_Sig_Run
    Count_Stat Count_End Count_Eventual Count_Nonatomic Maze_Fig Hash_Tables Hash_Resize_Safe
    Rcu_All Rcu_Nest Singleton Hazptr_Safe Seqlock_Safe Srcu Locking Wfqueue Lfqueue
    Skiplist_Glock_Refine Matmul Route_Refcnt Park_Miller
begin

text \<open>
  The concurrent algorithms of perfbook's CodeSamples, modelled and verified.

  \<^bold>\<open>The program.\<close> src/CodeSamples holds the C programs of a book on parallel programming: small
  libraries of concurrent data structures and synchronization primitives, each with a test driver.
  They share the thread and lock wrappers of api-pthreads/, the per-architecture atomic
  operations, and the lists and RCU of liburcu, which is not in this repository. The components are
  otherwise independent, apart from the clients of RCU and the two layers of lockhdeq.c and of the
  maze program.

  \<^bold>\<open>How the code is modelled.\<close> A C struct is a record and an enumeration a datatype. Sequential code is
  functions on the state: a failing assertion, an \<open>ABORT\<close> or an access outside an array is \<open>None\<close>
  or an error constructor, and \<open>unsigned long\<close> and \<open>int\<close> are words of 64 and 32 bits where their
  width matters and integers where an overflow is undefined in C. Concurrent code is a step
  relation over the shared variables and the program counters of the threads, as an inductive
  predicate with a rule for each shared access; its runs are the interleavings of the steps, so
  that memory is sequentially consistent and the barriers of the code are no steps. What a lock holder does
  to data that only the holder accesses is one step. \<open>reachable\<close> (Prelude) is the closure from the
  initial states, and a property of all reachable states is proved by an invariant.

  \<^bold>\<open>The parameters.\<close> The lists of liburcu are a record of functions \<open>L\<close>, with the order of
  traversal as their only meaning, and the locale \<open>cds_lib\<close> (Cds_List) states their documented
  behaviour; every witness uses HOL lists for \<open>L\<close>. \<open>random()\<close> is a sequence of numbers below
  \<open>2 ^ 31\<close>, and what \<open>malloc\<close> returns is chosen by the environment.

  \<^bold>\<open>Theories.\<close>
  \<^item> Prelude: machine integers, reachability, ownership of locks, lemmas on lists and sums.
  \<^item> Deque_Spec states the contract of a double-ended queue as the locale \<open>deque_impl\<close>, with the
    list as abstract deque. It has the layout that hashes a list over four chains. Lockdeq, Lockhdeq and Locktdeq
    model SMPdesign/lockdeq.c, lockhdeq.c and locktdeq.c: each is equivalent to the list for a
    single caller, and the two concurrent ones are linearizable.
  \<^item> Smpalloc: SMPdesign/smpalloc.c, per-thread caches over a global pool. No block is handed out
    twice or lost, and an allocation fails only when both pools are empty.
  \<^item> Limit_Spec (locale \<open>limit_counter\<close>): the invariant of the limit counters. Count_Lim,
    Count_Lim_App, Count_Limd and Count_Lim_Atomic model count/count_lim*.c, the last with the
    packed 32-bit words and the compare-and-exchange loops: the sum of all parts is the number of
    additions less the subtractions, and stays within the limit. Count_Lim_Sig has the steps of
    count_lim_sig.c with its signal handler, Count_Lim_Sig_Inv the invariant of the handshake,
    Count_Lim_Sig_Exact the invariant of the count, and Count_Lim_Sig_Run the exactness of every step
    and the completion of every theft.
  \<^item> Stat_Spec (locale \<open>stat_counter\<close>): a sweep over per-thread counters returns a value between the
    counts at its start and end. Count_Stat, Count_End and Count_Eventual model count_stat.c,
    count_stat_atomic.c, count_end.c and count_stat_eventual.c; Count_Nonatomic has count_nonatomic.c,
    which loses increments, beside count_atomic.c.
  \<^item> Rcu_Spec (locale \<open>rcu_flavour\<close>): the grace-period guarantee, that no critical section spans a
    call of \<open>synchronize_rcu\<close>, and what it means for a client. Rcu, Rcu64, Rcu64_Atomicgp, Rcu_Ts, Rcu_Qs, Rcu_Rcl,
    Rcu_Rcg, Rcu_Lock, Rcu_Lock_Percpu, Rcu_Rcpg, Rcu_Rcpl, Rcu_Rcpls, Rcu_Nest32 and Rcu_Nest_Qs model the flavours of
    defer/rcu*.[ch], and Rcu_All states the guarantee for all of them but rcu_ts.c, for which Rcu_Ts shows
    that it holds exactly on clocks that advance by two ticks or more between any two reads. Rcu_Nest
    shows where defer/rcu_nest.c breaks it. Singleton: defer/singleton.c, a client of any flavour.
    Srcu models defer/srcu.c, sleepable RCU over any RCU, as another instance of the locale. Its counters
    are those of processors, updated by a load and a store; the guarantee needs readers on distinct
    processors below \<open>NR_CPUS\<close>, and the theory shows how two readers on one processor break it.
  \<^item> Maze, Maze_Solve and Maze_Create model SMPdesign/maze/maze.h, maze_seq.c and maze.c: the cells,
    the sequential solver and the generator. Maze_Cells, the end of Maze_Create and Maze_Span hold the
    invariants: the visited cells are a trail in order of their visit, walls are seen from both sides, and the visited cells are
    spanned by a tree of passages. Maze_Main proves that a created maze is connected; Maze_Run models
    maze files and \<open>main\<close> after its arguments are parsed, and Maze_Fig the drawing.
  \<^item> Hash_Spec (locales \<open>hash_table\<close> and \<open>locked_table\<close>): a hash table behaves as one unsorted list.
    Hash_Bkt, Hash_Bkt_Rcu, Hash_Global and Hash_Unsync model datastruct/hash/hash_bkt.c,
    hash_bkt_rcu.c, hash_global.c and hash_unsync.c, and Hash_Tables proves them equivalent.
  \<^item> Hash_Resize models datastruct/hash/hash_resize.c with the resize as steps. Hash_Resize_Inv has
    the invariant of one instance and the steps, where an update-side critical section first reads the
    current instance and later locks and updates its buckets. Hash_Resize_Safe has the properties, for
    runs in which no such section spans the publication of a new instance, and what happens otherwise.
  \<^item> Hazptr: defer/hazptr.[ch] and their client route_hazptr.c as steps, with the addresses of the
    entries as a parameter and \<open>qsort\<close> and \<open>bsearch\<close> by their contract in the C standard. Hazptr_Inv has
    the invariant of list, retired entries and announcements, Hazptr_Safe the safety of readers for
    entries within 16 GiB, with its one exception, a read of freed memory.
  \<^item> Route_Seqlock: defer/seqlock.h and its client route_seqlock.c as steps. Seqlock_Safe proves that
    a lookup returns the result for the table of that moment, and that it accesses freed entries.
  \<^item> Route_Refcnt: defer/route_refcnt.c as steps, with the invariant that a count is the number of
    references. It protects every entry with a reference, but a lookup goes on from one that it has released.
  \<^item> Locking: the locks of locking/bakery.c, which does not exclude, and locking/xchglock.c, which does.
  \<^item> Skiplist models datastruct/skiplist/skiplist.c and skiplist.h without concurrent updates.
    Skiplist_Links has the chains of the levels, Skiplist_Inv the well-formedness and the locale
    \<open>sl_client\<close> for the comparison of the client, Skiplist_Ops, Skiplist_Update and
    Skiplist_Balance the operations, and Skiplist_Refine the refinement of one ordered list, with the
    rebalancing to a lower level, which breaks the list. Skiplist_Glock models
    datastruct/skiplist/skiplist_glock.c, with one lock and with hints for its iterators;
    Skiplist_Glock_Ops and Skiplist_Glock_Run have its operations, and Skiplist_Glock_Refine proves that
    it gives the results of skiplist.c.
  \<^item> Wfqueue: advsync/wfenqueue.c and q.h, a queue with wait-free enqueue, as steps, with the list as
    abstract queue. Lfqueue: advsync/q.c, which returns an element twice, singleq.c and the stack of
    lifo-push.c, which is linearizable although freed nodes are used again, as long as none is freed
    before its push has looked at it for the last time; a run outside of that loses a value.
  \<^item> Matmul: SMPdesign/matmul.c and matmul_block.c, whose threads multiply bands of rows: the first always
    yields the product that \<open>main\<close> computes and can always reach its end, the second computes nothing.
  \<^item> Park_Miller: lib/random.c, the generator of pseudo-random numbers. Its computation without overflow
    is the recurrence of Park and Miller, and 16807 is a primitive root, so that all seeds lie on one cycle.

  \<^bold>\<open>Termination and bounds.\<close> No definition has fuel. The loops of the maze program are functions with a
  termination proof: the solver and the generator visit a cell in every round and no cell twice, and
  the marking of a path decreases the recorded distance. A maze has fewer than \<open>2 ^ 26\<close> cells, as its
  cells keep distances in 26 bits. The counters are bounded by \<open>2 ^ 64\<close>, and \<open>NR_THREADS\<close> bounds the
  threads as in the code.

  \<^bold>\<open>What the model showed.\<close> rcu_nest.c compares an unsigned difference with zero and never waits;
  rcu_ts.c clears the low bit of a timestamp that readers do not clear; the generator of the maze flips
  every turn instead of random ones; hash_resize.c lets an update-side critical section that began before
  the new instance was published unlink an element from a list on which it is not;
  skiplist_balance_node never unlinks an element from the levels above its new one; and the lookup of
  route_hazptr.c uses a single hazard pointer where two are needed, and those of route_seqlock.c
  and route_refcnt.c read entries that have been freed; bakery.c labels with one more than the last label read; a dequeuer of
  advsync/q.c that was delayed returns an element a second time; the lookup of skiplist_glock.c
  compares the key with the header; and the bands of matmul_block.c begin behind the last row. The comparison
  of hazptr.c truncates a difference of addresses, and is no order for entries far apart; the readers of
  srcu.c all count on processor 0 without atomicity and lose increments; and a push of lifo-push.c reads
  its node again after it has been published, and takes a success for a failure when the node has been reused.
  Where a property holds only without such a situation, its statement and its text name the condition.

  \<^bold>\<open>Not modelled.\<close> Weak memory; the test drivers (*torture.h), the measurement programs, the
  command lines and printing; the parts of liburcu. Traversals of a hash bucket concurrent with an update of the
  same bucket, and of updates of a skip list. The parallel
  maze solvers, which race on the visited bits of cells. lockrwdeq.c and the lookups of route_rcu.c and
  hash_bkt_hazptr.c, whose interleavings lie inside the lists of liburcu. rcu_sig.c, whose readers
  rely on barriers in signal handlers. Issaquah/tree.c and the existence structures, which compose
  call_rcu with several structures. count_tstat.c, count_stack.c, count_end_rcu.c and hash_resize_s.c are variants
  of programs that are modelled.
\<close>

end
